(* ===== verification/Prelude.thy ===== *)
theory Prelude
  imports Main "HOL-Library.Word"
begin

text \<open>
  Shared vocabulary of the development: the C integer types as words, the ways in which
  kernel code can fail, the state-and-error monad in which the stateful components are
  written, and generic lemmas on lists and words.

  C's \<open>uint8_t\<close>, \<open>uint16_t\<close> and \<open>uint32_t\<close> are words of that width. \<open>int32_t\<close> and
  \<open>int\<close> are 32-bit words as well: the conversions between signed and unsigned that the
  code performs keep the bits, \<open>-1\<close> is the word \<open>-1\<close>, and where the code compares
  signed values the model compares \<open>sint\<close>.
\<close>

section \<open>Types\<close>

unbundle bit_operations_syntax

type_synonym u8 = "8 word"
type_synonym u16 = "16 word"
type_synonym u32 = "32 word"
type_synonym s32 = "32 word"

text \<open>
  How kernel code stops: \<open>Panic\<close> is a failed \<open>ASSERT\<close> or a \<open>PANIC\<close> (\<open>panic_spin\<close> in
  \<open>kernel/debug.c\<close> prints its condition and spins; the makefile does not define
  \<open>NDEBUG\<close>, so assertions are checked); \<open>Fault\<close> is an access outside an object of the
  model (C leaves it undefined); \<open>Hang\<close> is a loop that never ends; \<open>Block\<close> is a call that
  goes to sleep on a lock some other thread holds, so that its continuation runs in another
  state (the calls whose sleeping matters are modelled as steps instead).
\<close>

datatype err = Panic string | Fault string | Hang | Block

named_theorems kmonad \<open>the execution rules of the kernel monad\<close>
named_theorems word_nat \<open>transfer of word facts to natural numbers\<close>

section \<open>Results and the kernel monad\<close>

text \<open>A computation that reads no state: a value or the way it failed.\<close>

type_synonym 'a res = "err + 'a"

definition rbind :: "'a res \<Rightarrow> ('a \<Rightarrow> 'b res) \<Rightarrow> 'b res" where
  "rbind r f = (case r of Inl e \<Rightarrow> Inl e | Inr x \<Rightarrow> f x)"

lemma rbind_Inl [simp]: "rbind (Inl e) f = Inl e"
  by (simp add: rbind_def)

lemma rbind_Inr [simp]: "rbind (Inr x) f = f x"
  by (simp add: rbind_def)

lemma rbind_eq_Inr: "rbind r f = Inr y \<longleftrightarrow> (\<exists>x. r = Inr x \<and> f x = Inr y)"
  by (cases r) auto

lemma rbind_cong [fundef_cong]:
  "r = r' \<Longrightarrow> (\<And>x. r' = Inr x \<Longrightarrow> f x = g x) \<Longrightarrow> rbind r f = rbind r' g"
  by (cases r') auto

definition rassert :: "string \<Rightarrow> bool \<Rightarrow> unit res" where
  "rassert c b = (if b then Inr () else Inl (Panic c))"

lemma rassert_True [simp]: "rassert c True = Inr ()"
  by (simp add: rassert_def)

lemma rassert_eq_Inr [simp]: "rassert c b = Inr u \<longleftrightarrow> b"
  by (simp add: rassert_def)

lemma rassert_eq_Inl: "rassert c b = Inl e \<longleftrightarrow> \<not> b \<and> e = Panic c"
  by (auto simp: rassert_def)

text \<open>A computation over a state: the result carries the new state.\<close>

type_synonym ('s, 'a) km = "'s \<Rightarrow> err + ('a \<times> 's)"

definition ret :: "'a \<Rightarrow> ('s, 'a) km" where
  "ret x s = Inr (x, s)"

definition bnd :: "('s, 'a) km \<Rightarrow> ('a \<Rightarrow> ('s, 'b) km) \<Rightarrow> ('s, 'b) km" where
  "bnd m f s = (case m s of Inl e \<Rightarrow> Inl e | Inr (x, s') \<Rightarrow> f x s')"

definition fail :: "err \<Rightarrow> ('s, 'a) km" where
  "fail e s = Inl e"

definition gets :: "('s \<Rightarrow> 'a) \<Rightarrow> ('s, 'a) km" where
  "gets f s = Inr (f s, s)"

definition modify :: "('s \<Rightarrow> 's) \<Rightarrow> ('s, unit) km" where
  "modify f s = Inr ((), f s)"

definition kassert :: "string \<Rightarrow> bool \<Rightarrow> ('s, unit) km" where
  "kassert c b s = (if b then Inr ((), s) else Inl (Panic c))"

definition liftr :: "'a res \<Rightarrow> ('s, 'a) km" where
  "liftr r s = (case r of Inl e \<Rightarrow> Inl e | Inr x \<Rightarrow> Inr (x, s))"

definition whenm :: "bool \<Rightarrow> ('s, unit) km \<Rightarrow> ('s, unit) km" where
  "whenm b m = (if b then m else ret ())"

lemma ret_run [simp, kmonad]: "ret x s = Inr (x, s)"
  by (simp add: ret_def)

lemma fail_run [simp, kmonad]: "fail e s = Inl e"
  by (simp add: fail_def)

lemma gets_run [simp, kmonad]: "gets f s = Inr (f s, s)"
  by (simp add: gets_def)

lemma modify_run [simp, kmonad]: "modify f s = Inr ((), f s)"
  by (simp add: modify_def)

lemma bnd_Inr [kmonad]: "m s = Inr (x, s') \<Longrightarrow> bnd m f s = f x s'"
  by (simp add: bnd_def)

lemma bnd_Inl [kmonad]: "m s = Inl e \<Longrightarrow> bnd m f s = Inl e"
  by (simp add: bnd_def)

lemma bnd_ret [simp, kmonad]: "bnd (ret x) f s = f x s"
  by (simp add: bnd_def)

lemma bnd_gets [simp, kmonad]: "bnd (gets g) f s = f (g s) s"
  by (simp add: bnd_def)

lemma bnd_modify [simp, kmonad]: "bnd (modify g) f s = f () (g s)"
  by (simp add: bnd_def)

lemma bnd_fail [simp, kmonad]: "bnd (fail e) f s = Inl e"
  by (simp add: bnd_def)

lemma bnd_kassert [simp, kmonad]:
  "bnd (kassert c b) f s = (if b then f () s else Inl (Panic c))"
  by (simp add: bnd_def kassert_def)

lemma bnd_liftr [simp, kmonad]:
  "bnd (liftr r) f s = (case r of Inl e \<Rightarrow> Inl e | Inr x \<Rightarrow> f x s)"
  by (simp add: bnd_def liftr_def split: sum.split)

lemma bnd_assoc: "bnd (bnd m f) g s = bnd m (\<lambda>x. bnd (f x) g) s"
  by (simp add: bnd_def split: sum.split prod.split)

lemma bnd_eq_Inr:
  "bnd m f s = Inr (y, t) \<longleftrightarrow> (\<exists>x s'. m s = Inr (x, s') \<and> f x s' = Inr (y, t))"
  by (auto simp: bnd_def split: sum.splits prod.splits)

lemma whenm_True [simp, kmonad]: "whenm True m = m"
  by (simp add: whenm_def)

lemma whenm_False [simp, kmonad]: "whenm False m = ret ()"
  by (simp add: whenm_def)

text \<open>A loop defined by \<open>partial_function (option)\<close>: \<open>None\<close> is a loop that never ends.\<close>

definition of_loop :: "'a res option \<Rightarrow> 'a res" where
  "of_loop r = (case r of None \<Rightarrow> Inl Hang | Some x \<Rightarrow> x)"

lemma of_loop_Some [simp]: "of_loop (Some x) = x"
  by (simp add: of_loop_def)

section \<open>Characters\<close>

text \<open>C's character and string literals as bytes (a literal's closing zero is not included).\<close>

definition asc :: "char \<Rightarrow> u8" where
  "asc c = of_char c"

definition cbytes :: "string \<Rightarrow> u8 list" where
  "cbytes = List.map asc"

lemma cbytes_simps [simp]: "cbytes [] = []" "cbytes (c # cs) = asc c # cbytes cs"
  by (simp_all add: cbytes_def)

section \<open>Lists\<close>

text \<open>Writing a block of elements into a buffer (\<open>memcpy\<close> to an offset).\<close>

definition splice :: "nat \<Rightarrow> 'a list \<Rightarrow> 'a list \<Rightarrow> 'a list" where
  "splice off xs buf = take off buf @ xs @ drop (off + length xs) buf"

definition slice :: "nat \<Rightarrow> nat \<Rightarrow> 'a list \<Rightarrow> 'a list" where
  "slice off n buf = take n (drop off buf)"

lemma length_splice [simp]:
  "off + length xs \<le> length buf \<Longrightarrow> length (splice off xs buf) = length buf"
  by (simp add: splice_def)

lemma length_slice [simp]: "off + n \<le> length buf \<Longrightarrow> length (slice off n buf) = n"
  by (simp add: slice_def)

lemma slice_splice [simp]:
  "off + length xs \<le> length buf \<Longrightarrow> slice off (length xs) (splice off xs buf) = xs"
  by (simp add: splice_def slice_def)

lemma nth_splice:
  "off + length xs \<le> length buf \<Longrightarrow> i < length buf \<Longrightarrow>
   splice off xs buf ! i = (if off \<le> i \<and> i < off + length xs then xs ! (i - off) else buf ! i)"
  by (auto simp: splice_def nth_append)

lemma slice_splice_disjoint:
  assumes "off + length xs \<le> length buf" and "o' + n \<le> length buf"
    and "o' + n \<le> off \<or> off + length xs \<le> o'"
  shows "slice o' n (splice off xs buf) = slice o' n buf"
  using assms by (intro nth_equalityI) (auto simp: slice_def nth_splice)

lemma slice_append_left: "off + n \<le> length xs \<Longrightarrow> slice off n (xs @ ys) = slice off n xs"
  by (simp add: slice_def)

lemma slice_0 [simp]: "slice 0 n buf = take n buf"
  by (simp add: slice_def)

section \<open>Words\<close>

lemma unat_of_nat_u32 [word_nat]: "n < 2 ^ 32 \<Longrightarrow> unat (of_nat n :: u32) = n"
  by (simp add: unat_of_nat)

lemma of_nat_unat_u32 [simp]: "of_nat (unat (a :: u32)) = a"
  by (rule word_unat_eq_iff [THEN iffD2]) (simp add: unat_of_nat take_bit_nat_eq_self)

lemma unat_add_u32 [word_nat]:
  "unat (a :: u32) + unat b < 2 ^ 32 \<Longrightarrow> unat (a + b) = unat a + unat b"
  by (simp add: unat_word_ariths)

lemma unat_sub_u32 [word_nat]: "unat b \<le> unat (a :: u32) \<Longrightarrow> unat (a - b) = unat a - unat b"
  by (simp add: unat_sub word_le_nat_alt)

lemma unat_mult_u32 [word_nat]:
  "unat (a :: u32) * unat b < 2 ^ 32 \<Longrightarrow> unat (a * b) = unat a * unat b"
  by (simp add: unat_word_ariths)

lemmas [word_nat] = unat_div unat_mod word_less_nat_alt word_le_nat_alt

lemma u32_of_nat_eq:
  "m < 2 ^ 32 \<Longrightarrow> n < 2 ^ 32 \<Longrightarrow> (of_nat m :: u32) = of_nat n \<longleftrightarrow> m = n"
  by (metis unat_of_nat_u32)

text \<open>Arithmetic on words that stand for small numbers.\<close>

lemma u32_of_nat_div:
  "m < 2 ^ 32 \<Longrightarrow> n < 2 ^ 32 \<Longrightarrow> (of_nat m :: u32) div of_nat n = of_nat (m div n)"
  by (rule word_unat_eq_iff [THEN iffD2])
     (simp only: unat_div unat_of_nat_u32 le_less_trans [OF div_le_dividend])

lemma u32_of_nat_mod:
  "m < 2 ^ 32 \<Longrightarrow> n < 2 ^ 32 \<Longrightarrow> (of_nat m :: u32) mod of_nat n = of_nat (m mod n)"
  by (rule word_unat_eq_iff [THEN iffD2])
     (simp only: unat_mod unat_of_nat_u32 le_less_trans [OF mod_less_eq_dividend])

lemma u32_of_nat_less: "m < 2 ^ 32 \<Longrightarrow> n < 2 ^ 32 \<Longrightarrow> (of_nat m :: u32) < of_nat n \<longleftrightarrow> m < n"
  by (simp only: word_less_nat_alt unat_of_nat_u32)

lemma u32_of_nat_le: "m < 2 ^ 32 \<Longrightarrow> n < 2 ^ 32 \<Longrightarrow> (of_nat m :: u32) \<le> of_nat n \<longleftrightarrow> m \<le> n"
  by (simp only: word_le_nat_alt unat_of_nat_u32)

lemma u32_of_nat_not_minus1: "n < 2 ^ 31 \<Longrightarrow> (of_nat n :: u32) \<noteq> - 1"
proof
  assume n: "n < 2 ^ 31" and eq: "(of_nat n :: u32) = - 1"
  have "unat (- 1 :: u32) = 2 ^ 32 - 1"
    by (simp add: unsigned_minus_1_eq_mask mask_eq_exp_minus_1)
  with n unat_of_nat_u32 [of n] eq show False by simp
qed

lemma u32_eqI: "unat (a :: u32) = unat b \<Longrightarrow> a = b"
  by (rule word_unat_eq_iff [THEN iffD2])

lemma unat_lt_u32 [simp]: "unat (a :: u32) < 4294967296"
  using unsigned_less [where 'a = nat, of a] by simp

lemma unat_ucast_u8 [simp]: "unat (ucast (b :: u8) :: u32) = unat b"
proof -
  have "unat b < 2 ^ 32"
    using unsigned_less [where 'a = nat, of b] by simp
  then show ?thesis by (simp add: unsigned_ucast_eq take_bit_nat_eq_self)
qed

text \<open>Bit \<open>k\<close> of a byte, as the code tests, sets and clears it with the mask \<open>1 << k\<close>.\<close>

lemma byte_test_bit: "(w :: u8) AND push_bit k 1 \<noteq> 0 \<longleftrightarrow> bit w k"
  by (simp add: and_exp_eq_0_iff_not_bit)

lemma byte_mask_and_test: "push_bit k 1 AND (w :: u8) \<noteq> 0 \<longleftrightarrow> bit w k"
  by (simp add: and.commute [of "2 ^ k"] and_exp_eq_0_iff_not_bit)

lemma byte_set_bit: "k < 8 \<Longrightarrow> bit ((w :: u8) OR push_bit k 1) j \<longleftrightarrow> j = k \<or> bit w j"
  by (auto simp: bit_or_iff bit_exp_iff)

lemma byte_clear_bit:
  "k < 8 \<Longrightarrow> bit ((w :: u8) AND NOT (push_bit k 1)) j \<longleftrightarrow> j \<noteq> k \<and> bit w j"
  by (auto simp: bit_and_iff bit_not_iff bit_exp_iff dest: bit_imp_le_length)

lemma byte_full_iff: "(w :: u8) = 255 \<longleftrightarrow> (\<forall>k < 8. bit w k)"
proof -
  have "bit (255 :: u8) k \<longleftrightarrow> k < 8" for k
    using bit_mask_iff [where 'a = u8, of 8 k] by (simp add: mask_eq_exp_minus_1)
  then show ?thesis
    by (auto simp: bit_eq_iff dest: bit_imp_le_length)
qed

end
