(* ===== verification/Klist.thy ===== *)
theory Klist
  imports Prelude
begin

text \<open>
  \<open>lib/list.c\<close> and the interrupt switch of \<open>kernel/interrupt.c\<close> that guards it: the
  intrusive doubly linked lists in which the kernel keeps its threads, waiters, partitions,
  open inodes and free memory blocks. The pointers are modelled as they are: a store maps
  the address of a \<open>struct list_elem\<close> to its two pointers, \<open>NULL\<close> is the address 0, and
  following a pointer to no element is a \<open>Fault\<close>. A list represents a sequence of
  addresses (\<open>list_rep\<close>); every operation refines the operation on sequences.
\<close>

section \<open>The store\<close>

type_synonym addr = nat

record list_elem =
  prev :: addr
  "next" :: addr

text \<open>A \<open>struct list\<close> is its two sentinels, which never move.\<close>

record klist =
  head :: addr
  tail :: addr

datatype intr_status = INTR_OFF | INTR_ON

record lstore =
  cells :: "addr \<Rightarrow> list_elem option"
  eflags_if :: intr_status

section \<open>The interrupt flag\<close>

definition intr_get_status :: "(lstore, intr_status) km" where
  "intr_get_status = gets eflags_if"

definition intr_enable :: "(lstore, intr_status) km" where
  "intr_enable =
     bnd intr_get_status (\<lambda>st.
     if st = INTR_ON then ret INTR_ON
     else bnd (modify (eflags_if_update (\<lambda>_. INTR_ON))) (\<lambda>_. ret INTR_OFF))"

definition intr_disable :: "(lstore, intr_status) km" where
  "intr_disable =
     bnd intr_get_status (\<lambda>st.
     if st = INTR_ON
     then bnd (modify (eflags_if_update (\<lambda>_. INTR_OFF))) (\<lambda>_. ret INTR_ON)
     else ret INTR_OFF)"

definition intr_set_status :: "intr_status \<Rightarrow> (lstore, intr_status) km" where
  "intr_set_status status = (if status = INTR_ON then intr_enable else intr_disable)"

section \<open>Pointer access\<close>

definition get_elem :: "addr \<Rightarrow> (lstore, list_elem) km" where
  "get_elem a = (\<lambda>s. case cells s a of None \<Rightarrow> Inl (Fault ''list_elem'') | Some e \<Rightarrow> Inr (e, s))"

definition set_next :: "addr \<Rightarrow> addr \<Rightarrow> (lstore, unit) km" where
  "set_next a v =
     bnd (get_elem a) (\<lambda>e. modify (\<lambda>s. s\<lparr>cells := (cells s)(a \<mapsto> e\<lparr>next := v\<rparr>)\<rparr>))"

definition set_prev :: "addr \<Rightarrow> addr \<Rightarrow> (lstore, unit) km" where
  "set_prev a v =
     bnd (get_elem a) (\<lambda>e. modify (\<lambda>s. s\<lparr>cells := (cells s)(a \<mapsto> e\<lparr>prev := v\<rparr>)\<rparr>))"

section \<open>The operations\<close>

definition list_init :: "klist \<Rightarrow> (lstore, unit) km" where
  "list_init l =
     bnd (set_prev (head l) 0) (\<lambda>_.
     bnd (set_next (head l) (tail l)) (\<lambda>_.
     bnd (set_prev (tail l) (head l)) (\<lambda>_.
     set_next (tail l) 0)))"

definition list_insert_before :: "addr \<Rightarrow> addr \<Rightarrow> (lstore, unit) km" where
  "list_insert_before before elem =
     bnd intr_disable (\<lambda>old_status.
     bnd (get_elem before) (\<lambda>b.
     bnd (set_next (prev b) elem) (\<lambda>_.
     bnd (get_elem before) (\<lambda>b.
     bnd (set_prev elem (prev b)) (\<lambda>_.
     bnd (set_next elem before) (\<lambda>_.
     bnd (set_prev before elem) (\<lambda>_.
     bnd (intr_set_status old_status) (\<lambda>_. ret ()))))))))"

definition list_push :: "klist \<Rightarrow> addr \<Rightarrow> (lstore, unit) km" where
  "list_push plist elem =
     bnd (get_elem (head plist)) (\<lambda>h. list_insert_before (next h) elem)"

definition list_append :: "klist \<Rightarrow> addr \<Rightarrow> (lstore, unit) km" where
  "list_append plist elem = list_insert_before (tail plist) elem"

definition list_remove :: "addr \<Rightarrow> (lstore, unit) km" where
  "list_remove pelem =
     bnd intr_disable (\<lambda>old_status.
     bnd (get_elem pelem) (\<lambda>e.
     bnd (set_next (prev e) (next e)) (\<lambda>_.
     bnd (get_elem pelem) (\<lambda>e.
     bnd (set_prev (next e) (prev e)) (\<lambda>_.
     bnd (intr_set_status old_status) (\<lambda>_. ret ()))))))"

definition list_pop :: "klist \<Rightarrow> (lstore, addr) km" where
  "list_pop plist =
     bnd (get_elem (head plist)) (\<lambda>h.
     bnd (list_remove (next h)) (\<lambda>_. ret (next h)))"

definition list_empty :: "klist \<Rightarrow> (lstore, bool) km" where
  "list_empty plist = bnd (get_elem (head plist)) (\<lambda>h. ret (next h = tail plist))"

text \<open>
  The loops follow \<open>next\<close> pointers, which on an ill-formed list need not come to an end:
  the result \<open>None\<close> is a loop that never ends.
\<close>

partial_function (option) find_loop ::
    "lstore \<Rightarrow> addr \<Rightarrow> addr \<Rightarrow> addr \<Rightarrow> bool res option" where
  "find_loop s t obj elem =
     (if elem \<noteq> t \<and> elem \<noteq> 0
      then (if elem = obj then Some (Inr True)
            else (case cells s elem of
                    None \<Rightarrow> Some (Inl (Fault ''list_elem''))
                  | Some e \<Rightarrow> find_loop s t obj (next e)))
      else Some (Inr False))"

partial_function (option) traversal_loop ::
    "lstore \<Rightarrow> addr \<Rightarrow> (addr \<Rightarrow> bool) \<Rightarrow> addr \<Rightarrow> addr res option" where
  "traversal_loop s t func elem =
     (if elem \<noteq> t
      then (if func elem then Some (Inr elem)
            else (case cells s elem of
                    None \<Rightarrow> Some (Inl (Fault ''list_elem''))
                  | Some e \<Rightarrow> traversal_loop s t func (next e)))
      else Some (Inr 0))"

partial_function (option) len_loop ::
    "lstore \<Rightarrow> addr \<Rightarrow> addr \<Rightarrow> u32 \<Rightarrow> u32 res option" where
  "len_loop s t elem len =
     (if elem \<noteq> t
      then (case cells s elem of
              None \<Rightarrow> Some (Inl (Fault ''list_elem''))
            | Some e \<Rightarrow> len_loop s t (next e) (len + 1))
      else Some (Inr len))"

definition run_loop :: "(lstore \<Rightarrow> 'a res option) \<Rightarrow> (lstore, 'a) km" where
  "run_loop f s = (case f s of None \<Rightarrow> Inl Hang | Some (Inl e) \<Rightarrow> Inl e | Some (Inr x) \<Rightarrow> Inr (x, s))"

definition elem_find :: "klist \<Rightarrow> addr \<Rightarrow> (lstore, bool) km" where
  "elem_find plist obj_elem =
     bnd (get_elem (head plist)) (\<lambda>h.
     run_loop (\<lambda>s. find_loop s (tail plist) obj_elem (next h)))"

definition list_traversal :: "klist \<Rightarrow> (addr \<Rightarrow> bool) \<Rightarrow> (lstore, addr) km" where
  "list_traversal plist func =
     bnd (get_elem (head plist)) (\<lambda>h.
     bnd (list_empty plist) (\<lambda>emp.
     if emp then ret 0
     else run_loop (\<lambda>s. traversal_loop s (tail plist) func (next h))))"

definition list_len :: "klist \<Rightarrow> (lstore, u32) km" where
  "list_len plist =
     bnd (get_elem (head plist)) (\<lambda>h.
     run_loop (\<lambda>s. len_loop s (tail plist) (next h) 0))"


section \<open>Sequences of addresses\<close>

text \<open>
  The two pointers of the store as two partial functions; a sequence is a chain of each of
  them. Writing a pointer updates one function at one address, so the proofs below are
  about function updates outside or inside a chain.
\<close>

definition nxt :: "lstore \<Rightarrow> addr \<Rightarrow> addr option" where
  "nxt s a = map_option next (cells s a)"

definition prv :: "lstore \<Rightarrow> addr \<Rightarrow> addr option" where
  "prv s a = map_option prev (cells s a)"

fun chain :: "(addr \<Rightarrow> addr option) \<Rightarrow> addr list \<Rightarrow> bool" where
  "chain f (a # b # xs) \<longleftrightarrow> f a = Some b \<and> chain f (b # xs)"
| "chain f xs \<longleftrightarrow> True"

definition list_rep :: "lstore \<Rightarrow> klist \<Rightarrow> addr list \<Rightarrow> bool" where
  "list_rep s l xs \<longleftrightarrow>
     distinct (head l # xs @ [tail l]) \<and> 0 \<notin> set (head l # xs @ [tail l]) \<and>
     chain (nxt s) (head l # xs @ [tail l]) \<and> chain (prv s) (tail l # rev xs @ [head l]) \<and>
     prv s (head l) = Some 0 \<and> nxt s (tail l) = Some 0"

lemma chain_append: "chain f (xs @ a # ys) \<longleftrightarrow> chain f (xs @ [a]) \<and> chain f (a # ys)"
proof (induction xs)
  case (Cons x xs)
  then show ?case by (cases xs) auto
qed simp

lemma chain_mid: "chain f (xs @ a # b # ys) \<longleftrightarrow> chain f (xs @ [a]) \<and> f a = Some b \<and> chain f (b # ys)"
  using chain_append [of f xs a "b # ys"] by simp

lemma chain_upd: "c \<notin> set (butlast xs) \<Longrightarrow> chain (f(c := v)) xs \<longleftrightarrow> chain f xs"
  by (induction f xs rule: chain.induct) auto

lemma chain_upd_snoc: "c \<notin> set xs \<Longrightarrow> chain (f(c := v)) (xs @ [a]) \<longleftrightarrow> chain f (xs @ [a])"
  by (simp add: chain_upd)

lemma chain_upd_notin: "c \<notin> set xs \<Longrightarrow> chain (f(c := v)) xs \<longleftrightarrow> chain f xs"
  by (rule chain_upd) (auto dest: in_set_butlastD)

lemma nxt_None_iff: "nxt s a = None \<longleftrightarrow> cells s a = None"
  by (simp add: nxt_def)

lemma prv_None_iff: "prv s a = None \<longleftrightarrow> cells s a = None"
  by (simp add: prv_def)

text \<open>Executing one pointer access.\<close>

definition wr_next :: "addr \<Rightarrow> addr \<Rightarrow> lstore \<Rightarrow> lstore" where
  "wr_next a v s = s\<lparr>cells := (cells s)(a := map_option (\<lambda>e. e\<lparr>next := v\<rparr>) (cells s a))\<rparr>"

definition wr_prev :: "addr \<Rightarrow> addr \<Rightarrow> lstore \<Rightarrow> lstore" where
  "wr_prev a v s = s\<lparr>cells := (cells s)(a := map_option (\<lambda>e. e\<lparr>prev := v\<rparr>) (cells s a))\<rparr>"

lemma wr_simps [simp]:
  "cells s a \<noteq> None \<Longrightarrow> nxt (wr_next a v s) = (nxt s)(a \<mapsto> v)"
  "prv (wr_next a v s) = prv s"
  "cells s a \<noteq> None \<Longrightarrow> prv (wr_prev a v s) = (prv s)(a \<mapsto> v)"
  "nxt (wr_prev a v s) = nxt s"
  "eflags_if (wr_next a v s) = eflags_if s"
  "eflags_if (wr_prev a v s) = eflags_if s"
  "cells (wr_next a v s) b = None \<longleftrightarrow> cells s b = None"
  "cells (wr_prev a v s) b = None \<longleftrightarrow> cells s b = None"
  "b \<noteq> a \<Longrightarrow> cells (wr_next a v s) b = cells s b"
  "b \<noteq> a \<Longrightarrow> cells (wr_prev a v s) b = cells s b"
  by (auto simp: wr_next_def wr_prev_def nxt_def prv_def fun_eq_iff option.map_comp o_def)

lemma flag_simps [simp]:
  "nxt (eflags_if_update f s) = nxt s" "prv (eflags_if_update f s) = prv s"
  by (simp_all add: nxt_def prv_def fun_eq_iff)

lemma bnd_set_next [simp]:
  "cells s a \<noteq> None \<Longrightarrow> bnd (set_next a v) f s = f () (wr_next a v s)"
  by (auto simp: set_next_def get_elem_def bnd_def wr_next_def)

lemma bnd_set_prev [simp]:
  "cells s a \<noteq> None \<Longrightarrow> bnd (set_prev a v) f s = f () (wr_prev a v s)"
  by (auto simp: set_prev_def get_elem_def bnd_def wr_prev_def)

lemma bnd_get_elem:
  "nxt s a = Some n \<Longrightarrow> prv s a = Some p \<Longrightarrow> bnd (get_elem a) f s = f \<lparr>prev = p, next = n\<rparr> s"
  by (cases "cells s a"; cases "the (cells s a)") (auto simp: nxt_def prv_def get_elem_def bnd_def)

text \<open>The interrupt flag is off inside the critical section and restored after it.\<close>

lemma bnd_intr_disable [simp]:
  "bnd intr_disable f s = f (eflags_if s) (s\<lparr>eflags_if := INTR_OFF\<rparr>)"
  by (cases "eflags_if s"; cases s)
     (auto simp: intr_disable_def intr_get_status_def bnd_def)

lemma bnd_intr_set_status [simp]:
  "bnd (intr_set_status st) (\<lambda>_. ret ()) s = Inr ((), s\<lparr>eflags_if := st\<rparr>)"
  by (cases st; cases "eflags_if s"; cases s)
     (auto simp: intr_set_status_def intr_enable_def intr_disable_def intr_get_status_def bnd_def)

section \<open>The operations refine operations on sequences\<close>

lemma list_repD:
  assumes "list_rep s l xs"
  shows "distinct (head l # xs @ [tail l])" and "0 \<notin> set (head l # xs @ [tail l])"
    and "chain (nxt s) (head l # xs @ [tail l])" and "chain (prv s) (tail l # rev xs @ [head l])"
    and "prv s (head l) = Some 0" and "nxt s (tail l) = Some 0"
  using assms by (auto simp: list_rep_def)

lemma chain_nth_Some:
  "chain f (xs @ [a]) \<Longrightarrow> c \<in> set xs \<Longrightarrow> \<exists>b. f c = Some b"
proof (induction xs)
  case (Cons x xs)
  then show ?case by (cases xs) auto
qed simp

lemma list_rep_cells:
  assumes "list_rep s l xs" and "c \<in> set (head l # xs @ [tail l])"
  shows "cells s c \<noteq> None"
proof (cases "c = tail l")
  case True
  with list_repD(6) [OF assms(1)] show ?thesis by (auto simp: nxt_def)
next
  case False
  with list_repD(3) [OF assms(1)] assms(2) chain_nth_Some [of "nxt s" "head l # xs" "tail l" c]
  show ?thesis by (auto simp: nxt_def)
qed

text \<open>
  Insertion before the node \<open>y\<close> that heads \<open>ys @ [tail l]\<close>; \<open>p\<close> is the node before it.
\<close>

lemma list_insert_before_rep:
  assumes rep: "list_rep s l (xs @ ys)" and y: "y = hd (ys @ [tail l])"
    and e: "cells s e \<noteq> None" "e \<notin> set (head l # (xs @ ys) @ [tail l])" "e \<noteq> 0"
  obtains s' where "list_insert_before y e s = Inr ((), s')" and "list_rep s' l (xs @ e # ys)"
    and "eflags_if s' = eflags_if s"
    and "\<And>a. a \<notin> set (head l # (xs @ e # ys) @ [tail l]) \<Longrightarrow> cells s' a = cells s a"
proof -
  define p where "p = last (head l # xs)"
  define us where "us = butlast (head l # xs)"
  define vs where "vs = tl (ys @ [tail l])"
  have front: "head l # xs = us @ [p]" by (simp add: us_def p_def)
  have rear: "ys @ [tail l] = y # vs" by (simp add: y vs_def)
  have whole: "head l # (xs @ ys) @ [tail l] = us @ p # y # vs"
    using front rear by (metis append.assoc append_Cons append_Nil)
  have revs: "tail l # rev (xs @ ys) @ [head l] = rev vs @ y # p # rev us"
    using arg_cong [OF whole, of rev] by simp
  note D = list_repD [OF rep]
  have dist: "distinct (us @ p # y # vs)" using D(1) by (simp only: whole)
  have cn: "chain (nxt s) (us @ p # y # vs)" using D(3) by (simp only: whole)
  have cp: "chain (prv s) (rev vs @ y # p # rev us)" using D(4) by (simp only: revs)
  have eout: "e \<notin> set (us @ p # y # vs)" using e(2) whole by metis
  have cell: "cells s c \<noteq> None" if "c \<in> set (us @ p # y # vs)" for c
    using list_rep_cells [OF rep] that whole by metis
  have prvy: "prv s y = Some p"
    using cp by (simp add: chain_mid)
  obtain ny where nxty: "nxt s y = Some ny"
    using cell [of y] by (auto simp: nxt_def)
  have cp_in: "cells s p \<noteq> None" "cells s y \<noteq> None" using cell by auto
  define s1 where "s1 = s\<lparr>eflags_if := INTR_OFF\<rparr>"
  define s' where "s' = (wr_prev y e (wr_next e y (wr_prev e p (wr_next p e s1))))\<lparr>eflags_if := eflags_if s\<rparr>"
  have ne: "e \<noteq> p" "e \<noteq> y" "p \<noteq> y" using eout dist by auto
  have "list_insert_before y e s = Inr ((), s')"
    using cp_in e(1) ne prvy nxty
    by (simp add: list_insert_before_def bnd_get_elem [of _ y ny p] s'_def s1_def)
  moreover have nxt': "nxt s' = (nxt s)(p \<mapsto> e, e \<mapsto> y)"
    using cp_in e(1) ne by (simp add: s'_def s1_def)
  moreover have prv': "prv s' = (prv s)(e \<mapsto> p, y \<mapsto> e)"
    using cp_in e(1) ne by (simp add: s'_def s1_def)
  moreover have whole': "head l # (xs @ e # ys) @ [tail l] = us @ p # e # y # vs"
    using front rear by (metis append.assoc append_Cons append_Nil)
  moreover have "list_rep s' l (xs @ e # ys)"
    unfolding list_rep_def
  proof (intro conjI)
    show "distinct (head l # (xs @ e # ys) @ [tail l])"
      using dist eout by (subst whole') auto
    show "0 \<notin> set (head l # (xs @ e # ys) @ [tail l])"
      using D(2) e(3) by auto
    show "chain (nxt s') (head l # (xs @ e # ys) @ [tail l])"
      using cn dist eout ne
      by (subst whole') (auto simp: nxt' chain_mid chain_upd_snoc chain_upd_notin)
    have "tail l # rev (xs @ e # ys) @ [head l] = rev vs @ y # e # p # rev us"
      using arg_cong [OF whole', of rev] by simp
    then show "chain (prv s') (tail l # rev (xs @ e # ys) @ [head l])"
      using cp dist eout ne
      by (auto simp: prv' chain_mid chain_upd_snoc chain_upd_notin)
    have "y \<noteq> head l"
      using y D(1) by (cases ys) auto
    then show "prv s' (head l) = Some 0"
      using D(5) e(2) by (auto simp: prv')
    have "p \<noteq> tail l"
      using D(1) by (cases xs rule: rev_cases) (auto simp: p_def)
    then show "nxt s' (tail l) = Some 0"
      using D(6) e(2) by (auto simp: nxt')
  qed
  ultimately show ?thesis
    by (intro that [of s']) (auto simp: s'_def s1_def)
qed


lemma list_init_rep:
  assumes "cells s (head l) \<noteq> None" and "cells s (tail l) \<noteq> None"
    and "head l \<noteq> tail l" and "head l \<noteq> 0" and "tail l \<noteq> 0"
  obtains s' where "list_init l s = Inr ((), s')" and "list_rep s' l []"
    and "eflags_if s' = eflags_if s"
proof -
  define s' where "s' = wr_next (tail l) 0 (wr_prev (tail l) (head l) (wr_next (head l) (tail l) (wr_prev (head l) 0 s)))"
  have last: "set_next (tail l) 0 t = bnd (set_next (tail l) 0) (\<lambda>_. ret ()) t" for t
    by (auto simp: set_next_def bnd_def get_elem_def split: option.splits)
  have "list_init l s = Inr ((), s')"
    using assms by (simp add: list_init_def last s'_def)
  moreover have "list_rep s' l []" and "eflags_if s' = eflags_if s"
    using assms by (auto simp: list_rep_def s'_def)
  ultimately show ?thesis by (rule that)
qed

lemma bnd_get_elem_cell: "cells s a = Some e \<Longrightarrow> bnd (get_elem a) f s = f e s"
  by (simp add: get_elem_def bnd_def)

lemma list_rep_first:
  assumes "list_rep s l xs"
  obtains h where "cells s (head l) = Some h" and "next h = hd (xs @ [tail l])"
proof -
  have "nxt s (head l) = Some (hd (xs @ [tail l]))"
    using list_repD(3) [OF assms] by (cases xs) auto
  then show ?thesis using that by (auto simp: nxt_def)
qed

lemma list_push_eq:
  "list_rep s l xs \<Longrightarrow> list_push l e s = list_insert_before (hd (xs @ [tail l])) e s"
  by (erule list_rep_first) (simp add: list_push_def bnd_get_elem_cell)

lemma list_empty_rep: "list_rep s l xs \<Longrightarrow> list_empty l s = Inr (xs = [], s)"
proof -
  assume rep: "list_rep s l xs"
  then obtain h where "cells s (head l) = Some h" "next h = hd (xs @ [tail l])"
    by (rule list_rep_first)
  moreover have "hd (xs @ [tail l]) = tail l \<longleftrightarrow> xs = []"
    using list_repD(1) [OF rep] by (cases xs) auto
  ultimately show ?thesis by (simp add: list_empty_def bnd_get_elem_cell)
qed

lemma list_remove_rep:
  assumes rep: "list_rep s l (xs @ e # ys)"
  obtains s' where "list_remove e s = Inr ((), s')" and "list_rep s' l (xs @ ys)"
    and "eflags_if s' = eflags_if s"
    and "\<And>a. a \<notin> set (head l # (xs @ ys) @ [tail l]) \<Longrightarrow> cells s' a = cells s a"
proof -
  define p where "p = last (head l # xs)"
  define us where "us = butlast (head l # xs)"
  define y where "y = hd (ys @ [tail l])"
  define vs where "vs = tl (ys @ [tail l])"
  have front: "head l # xs = us @ [p]" by (simp add: us_def p_def)
  have rear: "ys @ [tail l] = y # vs" by (simp add: y_def vs_def)
  have whole: "head l # (xs @ e # ys) @ [tail l] = us @ p # e # y # vs"
    using front rear by (metis append.assoc append_Cons append_Nil)
  have whole': "head l # (xs @ ys) @ [tail l] = us @ p # y # vs"
    using front rear by (metis append.assoc append_Cons append_Nil)
  have revs: "tail l # rev (xs @ e # ys) @ [head l] = rev vs @ y # e # p # rev us"
    using arg_cong [OF whole, of rev] by simp
  note D = list_repD [OF rep]
  have dist: "distinct (us @ p # e # y # vs)" using D(1) by (simp only: whole)
  have cn: "chain (nxt s) (us @ p # e # y # vs)" using D(3) by (simp only: whole)
  have cp: "chain (prv s) (rev vs @ y # e # p # rev us)" using D(4) by (simp only: revs)
  have cell: "cells s c \<noteq> None" if "c \<in> set (us @ p # e # y # vs)" for c
    using list_rep_cells [OF rep] that whole by metis
  have pn: "prv s e = Some p" "nxt s e = Some y"
    using cn cp by (simp_all add: chain_mid)
  have cells: "cells s p \<noteq> None" "cells s y \<noteq> None" "cells s e \<noteq> None" using cell by auto
  have ne: "e \<noteq> p" "e \<noteq> y" "p \<noteq> y" using dist by auto
  define s1 where "s1 = s\<lparr>eflags_if := INTR_OFF\<rparr>"
  define s' where "s' = (wr_prev y p (wr_next p y s1))\<lparr>eflags_if := eflags_if s\<rparr>"
  have "list_remove e s = Inr ((), s')"
    using cells ne pn by (simp add: list_remove_def bnd_get_elem [of _ e y p] s'_def s1_def)
  moreover have nxt': "nxt s' = (nxt s)(p \<mapsto> y)" and prv': "prv s' = (prv s)(y \<mapsto> p)"
    using cells ne by (simp_all add: s'_def s1_def)
  moreover have "list_rep s' l (xs @ ys)"
    unfolding list_rep_def
  proof (intro conjI)
    show "distinct (head l # (xs @ ys) @ [tail l])"
      using D(1) by auto
    show "0 \<notin> set (head l # (xs @ ys) @ [tail l])"
      using D(2) by auto
    show "chain (nxt s') (head l # (xs @ ys) @ [tail l])"
      using cn dist ne
      by (subst whole') (auto simp: nxt' chain_mid chain_upd_snoc chain_upd_notin)
    have "tail l # rev (xs @ ys) @ [head l] = rev vs @ y # p # rev us"
      using arg_cong [OF whole', of rev] by simp
    then show "chain (prv s') (tail l # rev (xs @ ys) @ [head l])"
      using cp dist ne by (auto simp: prv' chain_mid chain_upd_snoc chain_upd_notin)
    have "y \<noteq> head l"
      using D(1) by (cases ys) (auto simp: y_def)
    then show "prv s' (head l) = Some 0"
      using D(5) by (auto simp: prv')
    have "p \<noteq> tail l"
      using D(1) by (cases xs rule: rev_cases) (auto simp: p_def)
    then show "nxt s' (tail l) = Some 0"
      using D(6) by (auto simp: nxt')
  qed
  moreover have "cells s' a = cells s a" if "a \<notin> set (head l # (xs @ ys) @ [tail l])" for a
  proof -
    have "a \<notin> set (us @ p # y # vs)" using that whole' by metis
    then show ?thesis by (simp add: s'_def s1_def)
  qed
  ultimately show ?thesis
    by (intro that [of s']) (simp_all add: s'_def s1_def)
qed

lemma list_pop_rep:
  assumes rep: "list_rep s l (x # xs)"
  obtains s' where "list_pop l s = Inr (x, s')" and "list_rep s' l xs"
    and "eflags_if s' = eflags_if s"
    and "\<And>a. a \<notin> set (head l # xs @ [tail l]) \<Longrightarrow> cells s' a = cells s a"
proof -
  from rep obtain h where h: "cells s (head l) = Some h" "next h = x"
    by (auto elim: list_rep_first)
  from list_remove_rep [of s l "[]" x xs] rep obtain s' where
    s': "list_remove x s = Inr ((), s')" "list_rep s' l xs" "eflags_if s' = eflags_if s"
    "\<And>a. a \<notin> set (head l # xs @ [tail l]) \<Longrightarrow> cells s' a = cells s a"
    by auto
  then have "list_pop l s = Inr (x, s')"
    using h by (simp add: list_pop_def bnd_get_elem_cell bnd_Inr)
  with s' show ?thesis by (intro that [of s'])
qed

lemma bnd_set_prev_fault:
  "cells s a = None \<Longrightarrow> bnd (set_prev a v) f s = Inl (Fault ''list_elem'')"
  by (simp add: set_prev_def get_elem_def bnd_def)

text \<open>Popping an empty list takes the tail sentinel off and follows its null pointer.\<close>

lemma list_pop_empty_faults:
  assumes rep: "list_rep s l []" and null: "cells s 0 = None"
  shows "list_pop l s = Inl (Fault ''list_elem'')"
proof -
  note D = list_repD [OF rep]
  from D obtain h t where ht: "cells s (head l) = Some h" "next h = tail l"
    "cells s (tail l) = Some t" "prev t = head l" "next t = 0"
    by (auto simp: nxt_def prv_def)
  with D(1,2) null have "list_remove (tail l) s = Inl (Fault ''list_elem'')"
    by (simp add: list_remove_def bnd_get_elem_cell [of _ "tail l" t] bnd_set_prev_fault)
  with ht show ?thesis by (simp add: list_pop_def bnd_get_elem_cell bnd_Inl)
qed

section \<open>The loops compute list functions\<close>

lemma list_rep_suffix:
  assumes "list_rep s l (xs @ x # ys)"
  obtains e where "cells s x = Some e" and "next e = hd (ys @ [tail l])"
    and "x \<noteq> tail l" and "x \<noteq> 0"
proof -
  have "chain (nxt s) ((head l # xs) @ x # hd (ys @ [tail l]) # tl (ys @ [tail l]))"
    using list_repD(3) [OF assms] by (cases ys) auto
  then have "nxt s x = Some (hd (ys @ [tail l]))" by (simp only: chain_mid)
  moreover have "x \<noteq> tail l" "x \<noteq> 0" using list_repD(1,2) [OF assms] by auto
  ultimately show ?thesis using that by (auto simp: nxt_def)
qed

lemma find_loop_rep:
  "list_rep s l (xs @ ys) \<Longrightarrow>
   find_loop s (tail l) a (hd (ys @ [tail l])) = Some (Inr (a \<in> set ys))"
proof (induction ys arbitrary: xs)
  case Nil
  then show ?case by (simp add: find_loop.simps)
next
  case (Cons y ys)
  from list_rep_suffix [OF Cons.prems] obtain e where
    "cells s y = Some e" "next e = hd (ys @ [tail l])" "y \<noteq> tail l" "y \<noteq> 0" .
  moreover have "find_loop s (tail l) a (hd (ys @ [tail l])) = Some (Inr (a \<in> set ys))"
    using Cons.IH [of "xs @ [y]"] Cons.prems by simp
  ultimately show ?case by (auto simp: find_loop.simps [of s "tail l" a y])
qed

lemma traversal_loop_rep:
  "list_rep s l (xs @ ys) \<Longrightarrow>
   traversal_loop s (tail l) func (hd (ys @ [tail l])) =
     Some (Inr (case List.find func ys of None \<Rightarrow> 0 | Some x \<Rightarrow> x))"
proof (induction ys arbitrary: xs)
  case Nil
  then show ?case by (simp add: traversal_loop.simps)
next
  case (Cons y ys)
  from list_rep_suffix [OF Cons.prems] obtain e where
    "cells s y = Some e" "next e = hd (ys @ [tail l])" "y \<noteq> tail l" "y \<noteq> 0" .
  then show ?case
    using Cons.IH [of "xs @ [y]"] Cons.prems by (simp add: traversal_loop.simps [of s "tail l" func y])
qed

lemma len_loop_rep:
  "list_rep s l (xs @ ys) \<Longrightarrow>
   len_loop s (tail l) (hd (ys @ [tail l])) n = Some (Inr (n + of_nat (length ys)))"
proof (induction ys arbitrary: xs n)
  case Nil
  then show ?case by (simp add: len_loop.simps)
next
  case (Cons y ys)
  from list_rep_suffix [OF Cons.prems] obtain e where
    "cells s y = Some e" "next e = hd (ys @ [tail l])" "y \<noteq> tail l" "y \<noteq> 0" .
  then show ?case
    using Cons.IH [of "xs @ [y]" "n + 1"] Cons.prems
    by (simp add: len_loop.simps [of s "tail l" y n] algebra_simps)
qed

lemma elem_find_rep: "list_rep s l xs \<Longrightarrow> elem_find l a s = Inr (a \<in> set xs, s)"
  using find_loop_rep [of s l "[]" xs a]
  by (auto elim!: list_rep_first simp: elem_find_def bnd_get_elem_cell run_loop_def)

lemma list_traversal_rep:
  assumes "list_rep s l xs"
  shows "list_traversal l func s = Inr (case List.find func xs of None \<Rightarrow> 0 | Some x \<Rightarrow> x, s)"
  using assms traversal_loop_rep [of s l "[]" xs func] list_empty_rep [OF assms]
  by (auto elim!: list_rep_first simp: list_traversal_def bnd_get_elem_cell run_loop_def bnd_Inr)

lemma list_len_rep: "list_rep s l xs \<Longrightarrow> list_len l s = Inr (of_nat (length xs), s)"
  using len_loop_rep [of s l "[]" xs 0]
  by (auto elim!: list_rep_first simp: list_len_def bnd_get_elem_cell run_loop_def)

section \<open>Properties\<close>

text \<open>A list whose sentinels are at 1 and 2, holding the nodes at 10 and 11; 12 is not in it.\<close>

definition sample_list :: klist where
  "sample_list = \<lparr>head = 1, tail = 2\<rparr>"

definition sample_store :: lstore where
  "sample_store = \<lparr>cells = [1 \<mapsto> \<lparr>prev = 0, next = 10\<rparr>, 10 \<mapsto> \<lparr>prev = 1, next = 11\<rparr>,
     11 \<mapsto> \<lparr>prev = 10, next = 2\<rparr>, 2 \<mapsto> \<lparr>prev = 11, next = 0\<rparr>, 12 \<mapsto> \<lparr>prev = 0, next = 0\<rparr>],
     eflags_if = INTR_ON\<rparr>"

lemma sample_rep: "list_rep sample_store sample_list [10, 11]"
  by (simp add: list_rep_def sample_store_def sample_list_def nxt_def prv_def)

lemma sample_fresh:
  "cells sample_store 12 \<noteq> None" "12 \<notin> set (head sample_list # [10, 11] @ [tail sample_list])"
  by (simp_all add: sample_store_def sample_list_def)

text \<open>C23: Appending a node that is not in the list puts it at the end of the sequence, pushing it
  at the front; the interrupt flag and every cell outside the list keep their values.\<close>

theorem list_append_push_refine:
  assumes "list_rep s l xs" and "cells s e \<noteq> None" and "e \<noteq> 0"
    and "e \<notin> set (head l # xs @ [tail l])"
  shows "(\<exists>s'. list_append l e s = Inr ((), s') \<and> list_rep s' l (xs @ [e]) \<and>
      eflags_if s' = eflags_if s \<and>
      (\<forall>a. a \<notin> set (head l # (xs @ [e]) @ [tail l]) \<longrightarrow> cells s' a = cells s a)) \<and>
    (\<exists>s'. list_push l e s = Inr ((), s') \<and> list_rep s' l (e # xs) \<and>
      eflags_if s' = eflags_if s \<and>
      (\<forall>a. a \<notin> set (head l # (e # xs) @ [tail l]) \<longrightarrow> cells s' a = cells s a))"
  using list_insert_before_rep [of s l xs "[]" "tail l" e]
    list_insert_before_rep [of s l "[]" xs "hd (xs @ [tail l])" e] assms
  by (simp add: list_append_def list_push_eq [OF assms(1)]) metis

theorem list_append_push_refine_witness:
  "\<exists>s'. list_append sample_list 12 sample_store = Inr ((), s') \<and> list_rep s' sample_list [10, 11, 12]"
  using list_append_push_refine [OF sample_rep sample_fresh(1) _ sample_fresh(2)] by auto

text \<open>C24: Removing a node takes exactly that node out of the sequence, popping answers the first and
  takes it out; the interrupt flag and every cell that is not left in the list, the removed node's
  own included, keep their values.\<close>

theorem list_remove_pop_refine:
  assumes "list_rep s l (xs @ e # ys)"
  shows "(\<exists>s'. list_remove e s = Inr ((), s') \<and> list_rep s' l (xs @ ys) \<and>
      eflags_if s' = eflags_if s \<and>
      (\<forall>a. a \<notin> set (head l # (xs @ ys) @ [tail l]) \<longrightarrow> cells s' a = cells s a)) \<and>
    (\<exists>s'. list_pop l s = Inr (hd (xs @ [e]), s') \<and> list_rep s' l (tl (xs @ e # ys)) \<and>
      eflags_if s' = eflags_if s \<and>
      (\<forall>a. a \<notin> set (head l # tl (xs @ e # ys) @ [tail l]) \<longrightarrow> cells s' a = cells s a))"
proof -
  have "xs @ e # ys = hd (xs @ [e]) # tl (xs @ e # ys)"
    by (cases xs) auto
  with assms have rep: "list_rep s l (hd (xs @ [e]) # tl (xs @ e # ys))" by metis
  show ?thesis
    using list_remove_rep [OF assms] list_pop_rep [OF rep] by metis
qed

theorem list_remove_pop_refine_witness:
  "\<exists>s'. list_remove 11 sample_store = Inr ((), s') \<and> list_rep s' sample_list [10]"
  using list_remove_pop_refine [of sample_store sample_list "[10]" 11 "[]"] sample_rep by auto

text \<open>On a list that represents a sequence the three loops end: \<open>elem_find\<close> decides
  membership, \<open>list_traversal\<close> answers the first node that satisfies the predicate (0 if none
  does) and \<open>list_len\<close> the length, and none of them changes the store.\<close>

theorem list_queries_correct:
  assumes "list_rep s l xs"
  shows "elem_find l a s = Inr (a \<in> set xs, s) \<and>
    list_traversal l f s = Inr (case List.find f xs of None \<Rightarrow> 0 | Some x \<Rightarrow> x, s) \<and>
    list_len l s = Inr (of_nat (length xs), s)"
  using elem_find_rep [OF assms] list_traversal_rep [OF assms] list_len_rep [OF assms] by simp

theorem list_queries_correct_witness:
  "elem_find sample_list 11 sample_store = Inr (True, sample_store)"
  using list_queries_correct [OF sample_rep, of 11 "\<lambda>_. True"] by simp

end
