(* ===== verification/Cstring.thy ===== *)
theory Cstring
  imports Prelude
begin

text \<open>
  \<open>lib/string.c\<close>. A pointer into an object is modelled by the bytes from that pointer to the
  end of the object; running past them is a \<open>Fault\<close>. The pointers a function returns are
  offsets from its argument, \<open>None\<close> is \<open>NULL\<close>. The string of a pointer (\<open>cstr\<close>) is what
  precedes the first zero byte; the lemmas say what the byte loops do to strings.
\<close>

section \<open>Blocks of bytes\<close>

fun memset :: "u8 list \<Rightarrow> u8 \<Rightarrow> nat \<Rightarrow> u8 list res" where
  "memset dst value 0 = Inr dst"
| "memset [] value (Suc n) = Inl (Fault ''memset'')"
| "memset (d # dst) value (Suc n) = rbind (memset dst value n) (\<lambda>r. Inr (value # r))"

fun memcpy :: "u8 list \<Rightarrow> u8 list \<Rightarrow> nat \<Rightarrow> u8 list res" where
  "memcpy dst src 0 = Inr dst"
| "memcpy (d # dst) (x # src) (Suc n) = rbind (memcpy dst src n) (\<lambda>r. Inr (x # r))"
| "memcpy dst src (Suc n) = Inl (Fault ''memcpy'')"

text \<open>\<open>memcmp\<close> compares as \<open>char\<close>, which is signed.\<close>

fun memcmp :: "u8 list \<Rightarrow> u8 list \<Rightarrow> nat \<Rightarrow> s32 res" where
  "memcmp a b 0 = Inr 0"
| "memcmp (x # a) (y # b) (Suc n) =
     (if x \<noteq> y then Inr (if sint x > sint y then 1 else -1) else memcmp a b n)"
| "memcmp a b (Suc n) = Inl (Fault ''memcmp'')"

section \<open>Strings\<close>

fun strcpy :: "u8 list \<Rightarrow> u8 list \<Rightarrow> u8 list res" where
  "strcpy (d # dst) (x # src) =
     (if x = 0 then Inr (0 # dst) else rbind (strcpy dst src) (\<lambda>r. Inr (x # r)))"
| "strcpy dst src = Inl (Fault ''strcpy'')"

fun strlen :: "u8 list \<Rightarrow> u32 res" where
  "strlen [] = Inl (Fault ''strlen'')"
| "strlen (p # str) = (if p = 0 then Inr 0 else rbind (strlen str) (\<lambda>n. Inr (n + 1)))"

fun strcmp :: "u8 list \<Rightarrow> u8 list \<Rightarrow> s32 res" where
  "strcmp (x # a) (y # b) =
     (if x \<noteq> 0 \<and> x = y then strcmp a b
      else Inr (if sint x < sint y then -1 else if sint x > sint y then 1 else 0))"
| "strcmp a b = Inl (Fault ''strcmp'')"

text \<open>The searched byte is a \<open>uint8_t\<close>, the string's bytes are signed \<open>char\<close>s.\<close>

definition char_eq :: "u8 \<Rightarrow> u8 \<Rightarrow> bool" where
  "char_eq x ch \<longleftrightarrow> sint x = uint ch"

fun strchr :: "u8 list \<Rightarrow> u8 \<Rightarrow> nat option res" where
  "strchr [] ch = Inl (Fault ''strchr'')"
| "strchr (x # str) ch =
     (if x = 0 then Inr None else if char_eq x ch then Inr (Some 0)
      else rbind (strchr str ch) (\<lambda>r. Inr (map_option Suc r)))"

fun strrchr_loop :: "u8 list \<Rightarrow> u8 \<Rightarrow> nat \<Rightarrow> nat option \<Rightarrow> nat option res" where
  "strrchr_loop [] ch i last_char = Inl (Fault ''strrchr'')"
| "strrchr_loop (x # str) ch i last_char =
     (if x = 0 then Inr last_char
      else strrchr_loop str ch (Suc i) (if char_eq x ch then Some i else last_char))"

definition strrchr :: "u8 list \<Rightarrow> u8 \<Rightarrow> nat option res" where
  "strrchr str ch = strrchr_loop str ch 0 None"

fun strcat :: "u8 list \<Rightarrow> u8 list \<Rightarrow> u8 list res" where
  "strcat [] src = Inl (Fault ''strcat'')"
| "strcat (d # dst) src =
     (if d = 0 then strcpy (d # dst) src else rbind (strcat dst src) (\<lambda>r. Inr (d # r)))"

fun strchrs_loop :: "u8 list \<Rightarrow> u8 \<Rightarrow> u32 \<Rightarrow> u32 res" where
  "strchrs_loop [] ch ch_cnt = Inl (Fault ''strchrs'')"
| "strchrs_loop (p # str) ch ch_cnt =
     (if p = 0 then Inr ch_cnt
      else strchrs_loop str ch (if char_eq p ch then ch_cnt + 1 else ch_cnt))"

definition strchrs :: "u8 list \<Rightarrow> u8 \<Rightarrow> u32 res" where
  "strchrs str ch = strchrs_loop str ch 0"

section \<open>What the loops compute\<close>

definition cstr :: "u8 list \<Rightarrow> u8 list" where
  "cstr p = takeWhile (\<lambda>c. c \<noteq> 0) p"

lemma cstr_simps [simp]:
  "cstr [] = []" "cstr (c # p) = (if c = 0 then [] else c # cstr p)"
  by (simp_all add: cstr_def)

lemma cstr_no_nul: "0 \<notin> set (cstr p)"
  by (auto simp: cstr_def dest: set_takeWhileD)

lemma cstr_append_0: "cstr (s @ 0 # r) = cstr s"
  by (induction s) auto

lemma cstr_id: "0 \<notin> set s \<Longrightarrow> cstr s = s"
  by (induction s) auto

lemma memset_eq: "n \<le> length dst \<Longrightarrow> memset dst v n = Inr (replicate n v @ drop n dst)"
  by (induction dst v n rule: memset.induct) auto

lemma memcpy_eq:
  "n \<le> length dst \<Longrightarrow> n \<le> length src \<Longrightarrow> memcpy dst src n = Inr (take n src @ drop n dst)"
  by (induction dst src n rule: memcpy.induct) auto

lemma memcmp_0_iff:
  "n \<le> length a \<Longrightarrow> n \<le> length b \<Longrightarrow> memcmp a b n = Inr 0 \<longleftrightarrow> take n a = take n b"
  by (induction a b n rule: memcmp.induct) auto

lemma sint_inj: "sint (x :: u8) = sint y \<Longrightarrow> x = y"
  by (rule signed_word_eqI)

lemma strlen_eq: "0 \<in> set p \<Longrightarrow> strlen p = Inr (of_nat (length (cstr p)))"
  by (induction p) auto

lemma strlen_unterminated: "0 \<notin> set p \<Longrightarrow> strlen p = Inl (Fault ''strlen'')"
  by (induction p) auto

lemma strcpy_eq:
  "0 \<in> set src \<Longrightarrow> length (cstr src) < length dst \<Longrightarrow>
   strcpy dst src = Inr (cstr src @ 0 # drop (Suc (length (cstr src))) dst)"
  by (induction dst src rule: strcpy.induct) auto

lemma strcpy_overflow:
  "length dst \<le> length (cstr src) \<Longrightarrow> strcpy dst src = Inl (Fault ''strcpy'')"
  by (induction dst src rule: strcpy.induct) (auto split: if_splits)

lemma strcmp_0_iff:
  "0 \<in> set a \<Longrightarrow> 0 \<in> set b \<Longrightarrow> strcmp a b = Inr 0 \<longleftrightarrow> cstr a = cstr b"
  by (induction a b rule: strcmp.induct) (auto dest: sint_inj simp: not_less_iff_gr_or_eq)

lemma strcmp_Inr: "0 \<in> set a \<Longrightarrow> 0 \<in> set b \<Longrightarrow> \<exists>c. strcmp a b = Inr c"
  by (induction a b rule: strcmp.induct) auto

lemma strcmp_total:
  assumes "0 \<in> set a" and "0 \<in> set b"
  obtains c where "strcmp a b = Inr c" and "c = 0 \<longleftrightarrow> cstr a = cstr b"
  using strcmp_Inr [OF assms] strcmp_0_iff [OF assms] by auto

lemma length_cstr: "0 \<in> set p \<Longrightarrow> length (cstr p) < length p"
  by (induction p) auto

lemma cstr_cat: "0 \<notin> set s \<Longrightarrow> cstr (s @ p) = s @ cstr p"
  by (induction s) auto

lemma strcat_eq:
  "0 \<in> set dst \<Longrightarrow> 0 \<in> set src \<Longrightarrow> length (cstr dst) + length (cstr src) < length dst \<Longrightarrow>
   strcat dst src =
     Inr (cstr dst @ cstr src @ 0 # drop (Suc (length (cstr dst) + length (cstr src))) dst)"
  by (induction dst src rule: strcat.induct) (auto simp: strcpy_eq)

lemma char_eq_ascii: "ch < 128 \<Longrightarrow> char_eq x ch \<longleftrightarrow> x = ch"
proof -
  assume ch: "ch < 128"
  then have "uint ch < 128" by (simp add: word_less_def)
  moreover have "- 128 \<le> uint ch"
    by (rule order_trans [OF _ uint_ge_0]) simp
  ultimately have "sint ch = uint ch"
    using signed_take_bit_int_eq_self [of 7 "uint ch"] by (simp add: sint_uint)
  then show ?thesis
    unfolding char_eq_def using sint_inj [of x ch] by auto
qed

lemma strrchr_loop_none:
  "0 \<in> set p \<Longrightarrow> ch < 128 \<Longrightarrow> ch \<notin> set (cstr p) \<Longrightarrow> strrchr_loop p ch i r = Inr r"
  by (induction p ch i r rule: strrchr_loop.induct) (auto simp: char_eq_ascii split: if_splits)

lemma strrchr_loop_some:
  "0 \<in> set p \<Longrightarrow> ch < 128 \<Longrightarrow> cstr p = xs @ ch # ys \<Longrightarrow> ch \<notin> set ys \<Longrightarrow>
   strrchr_loop p ch i r = Inr (Some (i + length xs))"
proof (induction p ch i r arbitrary: xs rule: strrchr_loop.induct)
  case (2 x str ch i r)
  then show ?case
    by (cases xs) (auto simp: char_eq_ascii strrchr_loop_none split: if_splits)
qed simp

text \<open>The last occurrence of an ASCII character.\<close>

lemma strrchr_eq:
  "0 \<in> set p \<Longrightarrow> ch < 128 \<Longrightarrow> ch \<notin> set (cstr p) \<Longrightarrow> strrchr p ch = Inr None"
  "0 \<in> set p \<Longrightarrow> ch < 128 \<Longrightarrow> cstr p = xs @ ch # ys \<Longrightarrow> ch \<notin> set ys \<Longrightarrow>
     strrchr p ch = Inr (Some (length xs))"
  by (simp_all add: strrchr_def strrchr_loop_none strrchr_loop_some)

lemma strchr_eq:
  "0 \<in> set p \<Longrightarrow> ch < 128 \<Longrightarrow> strchr p ch =
     Inr (if ch \<in> set (cstr p) then Some (length (takeWhile (\<lambda>c. c \<noteq> ch) (cstr p))) else None)"
  by (induction p ch rule: strchr.induct) (auto simp: char_eq_ascii)

lemma strchrs_loop_eq:
  "0 \<in> set p \<Longrightarrow> ch < 128 \<Longrightarrow>
   strchrs_loop p ch n = Inr (n + of_nat (count_list (cstr p) ch))"
  by (induction p ch n rule: strchrs_loop.induct) (auto simp: char_eq_ascii algebra_simps)

section \<open>Properties\<close>

text \<open>On terminated strings, \<open>strcpy\<close> and \<open>strcat\<close> write the string they promise followed
  by a zero byte and leave the rest of the destination alone, provided it fits.\<close>

theorem strcpy_strcat_correct:
  assumes "0 \<in> set src" and "0 \<in> set dst"
    and "length (cstr dst) + length (cstr src) < length dst"
  shows "strcpy dst src = Inr (cstr src @ 0 # drop (Suc (length (cstr src))) dst) \<and>
    strcat dst src = Inr (cstr dst @ cstr src @ 0 #
      drop (Suc (length (cstr dst) + length (cstr src))) dst)"
  using assms by (simp add: strcpy_eq strcat_eq)

theorem strcpy_strcat_correct_witness:
  "strcat [104, 0, 7, 7, 7] [105, 33, 0] = Inr [104, 105, 33, 0, 7]"
  using strcpy_strcat_correct [of "[105, 33, 0]" "[104, 0, 7, 7, 7]"] by simp

end
