(* ===== verification/Stdio.thy ===== *)
theory Stdio
  imports Cstring
begin

text \<open>
  The formatter of \<open>lib/stdio.c\<close>: \<open>itoa\<close>, \<open>vsprintf\<close> and \<open>sprintf\<close>. The output buffer is the
  bytes behind the \<open>str\<close> pointer; a variadic argument is an integer slot or a string pointer.
  \<open>itoa\<close> recurses on the quotient, which for base 1 never shrinks.
\<close>

section \<open>Numbers\<close>

definition digit_char :: "u32 \<Rightarrow> u8" where
  "digit_char m = (if m < 10 then ucast m + asc CHR ''0'' else ucast (m - 10) + asc CHR ''A'')"

partial_function (option) itoa :: "u32 \<Rightarrow> u8 \<Rightarrow> u8 list res option" where
  "itoa value base =
     (if base = 0 then Some (Inl (Fault ''division by zero''))
      else if value div ucast base \<noteq> 0
      then Option.bind (itoa (value div ucast base) base)
             (\<lambda>r. Some (rbind r (\<lambda>ds. Inr (ds @ [digit_char (value mod ucast base)]))))
      else Some (Inr [digit_char (value mod ucast base)]))"

section \<open>The formatter\<close>

datatype va_slot = VaInt u32 | VaStr "u8 list"

definition put :: "u8 \<Rightarrow> u8 list \<Rightarrow> nat \<Rightarrow> (u8 list \<times> nat) res" where
  "put c buf buf_ptr =
     (if buf_ptr < length buf then Inr (buf[buf_ptr := c], Suc buf_ptr)
      else Inl (Fault ''*buf_ptr++''))"

fun put_all :: "u8 list \<Rightarrow> u8 list \<Rightarrow> nat \<Rightarrow> (u8 list \<times> nat) res" where
  "put_all [] buf buf_ptr = Inr (buf, buf_ptr)"
| "put_all (c # cs) buf buf_ptr =
     rbind (put c buf buf_ptr) (\<lambda>(buf, buf_ptr). put_all cs buf buf_ptr)"

text \<open>One conversion: the character after \<open>%\<close>, the arguments, the buffer.\<close>

definition conversion ::
    "u8 \<Rightarrow> va_slot list \<Rightarrow> u8 list \<Rightarrow> nat \<Rightarrow> (va_slot list \<times> u8 list \<times> nat) option res" where
  "conversion d ap buf buf_ptr =
     (if d = asc CHR ''c'' then
        (case ap of VaInt v # ap' \<Rightarrow>
             rbind (put (ucast v) buf buf_ptr) (\<lambda>(buf, p). Inr (Some (ap', buf, p)))
         | _ \<Rightarrow> Inl (Fault ''va_arg''))
      else if d = asc CHR ''d'' then
        (case ap of VaInt v # ap' \<Rightarrow>
             rbind (if sint v < 0 then put (asc CHR ''-'') buf buf_ptr else Inr (buf, buf_ptr))
               (\<lambda>(buf, p).
             rbind (of_loop (itoa (if sint v < 0 then 0 - v else v) 10)) (\<lambda>ds.
             rbind (put_all ds buf p) (\<lambda>(buf, p). Inr (Some (ap', buf, p)))))
         | _ \<Rightarrow> Inl (Fault ''va_arg''))
      else if d = asc CHR ''s'' then
        (case ap of VaStr arg # ap' \<Rightarrow>
             rbind (strcpy (drop buf_ptr buf) arg) (\<lambda>r.
             rbind (strlen arg) (\<lambda>n. Inr (Some (ap', take buf_ptr buf @ r, buf_ptr + unat n))))
         | _ \<Rightarrow> Inl (Fault ''va_arg''))
      else if d = asc CHR ''x'' then
        (case ap of VaInt v # ap' \<Rightarrow>
             rbind (of_loop (itoa v 16)) (\<lambda>ds.
             rbind (put_all ds buf buf_ptr) (\<lambda>(buf, p). Inr (Some (ap', buf, p))))
         | _ \<Rightarrow> Inl (Fault ''va_arg''))
      else Inr None)"

text \<open>
  The loop over the format. A character after \<open>%\<close> that names no conversion is not consumed: the
  loop looks at it again as the next character.
\<close>

fun vs_loop :: "u8 list \<Rightarrow> va_slot list \<Rightarrow> u8 list \<Rightarrow> nat \<Rightarrow> u8 list res" where
  "vs_loop [] ap buf buf_ptr = Inl (Fault ''format'')"
| "vs_loop (c # format) ap buf buf_ptr =
     (if c = 0 then Inr buf
      else if c \<noteq> asc CHR ''%''
      then rbind (put c buf buf_ptr) (\<lambda>(buf, p). vs_loop format ap buf p)
      else (case format of
              [] \<Rightarrow> Inl (Fault ''format'')
            | d # format' \<Rightarrow>
                rbind (conversion d ap buf buf_ptr) (\<lambda>r. case r of
                    None \<Rightarrow> vs_loop format ap buf buf_ptr
                  | Some (ap', buf', p) \<Rightarrow> vs_loop format' ap' buf' p)))"

definition vsprintf :: "u8 list \<Rightarrow> u8 list \<Rightarrow> va_slot list \<Rightarrow> (u32 \<times> u8 list) res" where
  "vsprintf buf format ap =
     rbind (vs_loop format ap buf 0) (\<lambda>buf.
     rbind (strlen buf) (\<lambda>n. Inr (n, buf)))"

definition sprintf :: "u8 list \<Rightarrow> u8 list \<Rightarrow> va_slot list \<Rightarrow> (u32 \<times> u8 list) res" where
  "sprintf buf format args = vsprintf buf format args"

section \<open>Digits\<close>

function digits :: "nat \<Rightarrow> nat \<Rightarrow> nat list" where
  "digits b n = (if 2 \<le> b \<and> b \<le> n then digits b (n div b) @ [n mod b] else [n])"
  by pat_completeness auto
termination
  by (relation "measure (\<lambda>(b, n). n)") auto

declare digits.simps [simp del]

definition digits_value :: "nat \<Rightarrow> nat list \<Rightarrow> nat" where
  "digits_value b ds = foldl (\<lambda>a d. a * b + d) 0 ds"

lemma digits_value_digits: "digits_value b (digits b n) = n"
proof (induction b n rule: digits.induct)
  case (1 b n)
  then show ?case by (subst digits.simps) (simp add: digits_value_def)
qed

lemma digits_less: "2 \<le> b \<Longrightarrow> \<forall>d \<in> set (digits b n). d < b"
proof (induction b n rule: digits.induct)
  case (1 b n)
  then show ?case by (subst digits.simps) auto
qed

lemma itoa_eq:
  assumes "2 \<le> base"
  shows "itoa v base =
    Some (Inr (List.map (\<lambda>d. digit_char (of_nat d)) (digits (unat base) (unat v))))"
proof (induction "unat v" arbitrary: v rule: less_induct)
  case less
  let ?b = "ucast base :: u32"
  have b: "unat ?b = unat base" "2 \<le> unat base" "base \<noteq> 0"
    using assms by (auto simp: word_le_nat_alt)
  have div: "unat (v div ?b) = unat v div unat base"
    and mod: "v mod ?b = of_nat (unat v mod unat base)"
    using b(1) by (simp add: unat_div, metis unat_mod of_nat_unat_u32)
  show ?case
  proof (cases "v div ?b = 0")
    case True
    then have "unat v div unat base = 0" by (metis div unat_0)
    then have "unat v < unat base" using b(2) by (simp add: div_eq_0_iff)
    moreover from this have "v mod ?b = v"
      by (metis mod mod_less of_nat_unat_u32)
    ultimately show ?thesis
      using True b by (subst itoa.simps) (simp add: digits.simps [of "unat base"])
  next
    case False
    then have "unat v div unat base \<noteq> 0" by (metis div unat_eq_zero)
    then have ge: "unat base \<le> unat v" by (simp add: div_eq_0_iff)
    then have "unat (v div ?b) < unat v"
      using b(2) by (simp add: div)
    from less [OF this] False b ge show ?thesis
      by (subst itoa.simps) (simp add: digits.simps [of "unat base" "unat v"] div mod)
  qed
qed

section \<open>What a format means\<close>

text \<open>
  The formats the kernel writes are sequences of literal characters and conversions. An item
  here is a literal or a conversion with the argument it takes; the format text, the argument
  list and the expected output are read off the items.
\<close>

datatype item = Lit u8 | Conv_c u32 | Conv_d u32 | Conv_s "u8 list" | Conv_x u32

fun item_wf :: "item \<Rightarrow> bool" where
  "item_wf (Lit c) \<longleftrightarrow> c \<noteq> 0 \<and> c \<noteq> asc CHR ''%''"
| "item_wf (Conv_s a) \<longleftrightarrow> 0 \<in> set a"
| "item_wf _ \<longleftrightarrow> True"

fun item_text :: "item \<Rightarrow> u8 list" where
  "item_text (Lit c) = [c]"
| "item_text (Conv_c v) = [asc CHR ''%'', asc CHR ''c'']"
| "item_text (Conv_d v) = [asc CHR ''%'', asc CHR ''d'']"
| "item_text (Conv_s a) = [asc CHR ''%'', asc CHR ''s'']"
| "item_text (Conv_x v) = [asc CHR ''%'', asc CHR ''x'']"

fun item_args :: "item \<Rightarrow> va_slot list" where
  "item_args (Lit c) = []"
| "item_args (Conv_s a) = [VaStr a]"
| "item_args (Conv_c v) = [VaInt v]"
| "item_args (Conv_d v) = [VaInt v]"
| "item_args (Conv_x v) = [VaInt v]"

definition numeral_text :: "nat \<Rightarrow> nat \<Rightarrow> u8 list" where
  "numeral_text b n = List.map (\<lambda>d. digit_char (of_nat d)) (digits b n)"

fun item_out :: "item \<Rightarrow> u8 list" where
  "item_out (Lit c) = [c]"
| "item_out (Conv_c v) = [ucast v]"
| "item_out (Conv_d v) =
     (if sint v < 0 then [asc CHR ''-''] else []) @ numeral_text 10 (nat \<bar>sint v\<bar>)"
| "item_out (Conv_s a) = cstr a"
| "item_out (Conv_x v) = numeral_text 16 (unat v)"

definition fmt_text :: "item list \<Rightarrow> u8 list" where
  "fmt_text items = concat (List.map item_text items)"

definition fmt_args :: "item list \<Rightarrow> va_slot list" where
  "fmt_args items = concat (List.map item_args items)"

definition fmt_out :: "item list \<Rightarrow> u8 list" where
  "fmt_out items = concat (List.map item_out items)"

definition fresh_buf :: "u8 list \<Rightarrow> nat \<Rightarrow> u8 list" where
  "fresh_buf pre k = pre @ replicate k 0"

lemma put_fresh:
  "0 < k \<Longrightarrow> put c (fresh_buf pre k) (length pre) = Inr (fresh_buf (pre @ [c]) (k - 1), Suc (length pre))"
  by (cases k) (simp_all add: put_def fresh_buf_def)

lemma put_all_fresh:
  "length cs \<le> k \<Longrightarrow> put_all cs (fresh_buf pre k) (length pre) =
     Inr (fresh_buf (pre @ cs) (k - length cs), length pre + length cs)"
proof (induction cs arbitrary: pre k)
  case (Cons c cs)
  then show ?case using Cons.IH [of "k - 1" "pre @ [c]"] by (simp add: put_fresh)
qed simp

lemma strcpy_fresh:
  "0 \<in> set a \<Longrightarrow> length (cstr a) < k \<Longrightarrow>
   take (length pre) (fresh_buf pre k) @ cstr a @ 0 # drop (Suc (length (cstr a))) (replicate k 0)
     = fresh_buf (pre @ cstr a) (k - length (cstr a))"
  by (simp add: fresh_buf_def Suc_diff_Suc flip: replicate_Suc)

lemma of_loop_itoa: "2 \<le> base \<Longrightarrow> of_loop (itoa v base) = Inr (numeral_text (unat base) (unat v))"
  by (simp add: itoa_eq numeral_text_def)

lemma unat_abs_sint: "unat (if sint v < 0 then 0 - v else v) = nat \<bar>sint (v :: u32)\<bar>"
proof (cases "sint v < 0")
  case True
  have "- (2 ^ 31) \<le> sint v" using sint_ge [of v] by simp
  then have "unat (word_of_int (- sint v) :: u32) = nat (- sint v)"
    unfolding unsigned_of_int using True by (simp add: take_bit_int_eq_self)
  then show ?thesis using True by simp
next
  case False
  have "sint v < 2 ^ 31" using sint_lt [of v] by simp
  then have "unat (word_of_int (sint v) :: u32) = nat (sint v)"
    unfolding unsigned_of_int using False by (simp add: take_bit_int_eq_self)
  then show ?thesis using False by simp
qed

lemma conv_chars [simp]:
  "asc CHR ''c'' = 99" "asc CHR ''d'' = 100" "asc CHR ''s'' = 115" "asc CHR ''x'' = 120"
  "asc CHR ''%'' = 37" "asc CHR ''-'' = 45" "asc CHR ''0'' = 48" "asc CHR ''A'' = 65"
  by (simp_all add: asc_def)

lemma item_run:
  assumes "item_wf it" and "length (item_out it) < k" and "k < 2 ^ 32"
  shows "vs_loop (item_text it @ rest) (item_args it @ more) (fresh_buf pre k) (length pre) =
    vs_loop rest more (fresh_buf (pre @ item_out it) (k - length (item_out it)))
      (length (pre @ item_out it))"
proof (cases it)
  case (Lit c)
  with assms show ?thesis by (simp add: put_fresh)
next
  case (Conv_c v)
  with assms show ?thesis by (simp add: conversion_def put_fresh)
next
  case (Conv_d v)
  then show ?thesis
    using assms put_all_fresh [of "numeral_text 10 (nat \<bar>sint v\<bar>)" "k - 1" "pre @ [45]"]
    unat_abs_sint [of v]
    by (simp add: conversion_def put_fresh put_all_fresh of_loop_itoa split: if_splits)
next
  case (Conv_s a)
  moreover have "unat (of_nat (length (cstr a)) :: u32) = length (cstr a)"
    using assms Conv_s by (simp add: unat_of_nat_u32)
  ultimately show ?thesis
    using assms strcpy_fresh [of a k pre]
    by (simp add: conversion_def strlen_eq strcpy_eq fresh_buf_def)
next
  case (Conv_x v)
  with assms show ?thesis
    by (simp add: conversion_def put_all_fresh of_loop_itoa)
qed

lemma vs_loop_items:
  "\<forall>it \<in> set items. item_wf it \<Longrightarrow> length (fmt_out items) < k \<Longrightarrow> k < 2 ^ 32 \<Longrightarrow>
   vs_loop (fmt_text items @ 0 # rest) (fmt_args items @ more) (fresh_buf pre k) (length pre) =
     Inr (fresh_buf (pre @ fmt_out items) (k - length (fmt_out items)))"
proof (induction items arbitrary: pre k)
  case Nil
  then show ?case by (simp add: fmt_text_def fmt_args_def fmt_out_def)
next
  case (Cons it items)
  have split: "fmt_text (it # items) = item_text it @ fmt_text items"
    "fmt_args (it # items) = item_args it @ fmt_args items"
    "fmt_out (it # items) = item_out it @ fmt_out items"
    by (simp_all add: fmt_text_def fmt_args_def fmt_out_def)
  from Cons.prems have "item_wf it" "length (item_out it) < k" "k < 2 ^ 32"
    by (simp_all add: split)
  from item_run [OF this] Cons.IH [of "k - length (item_out it)" "pre @ item_out it"] Cons.prems
  show ?case by (simp add: split)
qed

lemma vsprintf_run:
  assumes "\<forall>it \<in> set items. item_wf it" and "length (fmt_out items) < n" and "n < 2 ^ 32"
  shows "vsprintf (replicate n 0) (fmt_text items @ 0 # rest) (fmt_args items @ more) =
    Inr (of_nat (length (cstr (fmt_out items))), fmt_out items @ replicate (n - length (fmt_out items)) 0)"
proof -
  have "vs_loop (fmt_text items @ 0 # rest) (fmt_args items @ more) (replicate n 0) 0 =
    Inr (fmt_out items @ replicate (n - length (fmt_out items)) 0)"
    using vs_loop_items [OF assms, of rest more "[]"] by (simp add: fresh_buf_def)
  moreover obtain m where m: "n - length (fmt_out items) = Suc m"
    using assms(2) by (metis Suc_diff_Suc)
  ultimately show ?thesis
    by (simp add: vsprintf_def strlen_eq cstr_append_0)
qed

section \<open>Properties\<close>

text \<open>C37: Into a zeroed buffer that is long enough, \<open>vsprintf\<close> writes the text that the format
  means, for every sequence of literal characters and \<open>%c\<close>, \<open>%d\<close>, \<open>%s\<close>, \<open>%x\<close> conversions, and
  returns the length of the string written (shorter than the text only when a \<open>%c\<close> wrote a zero).\<close>

theorem vsprintf_correct:
  assumes "\<forall>it \<in> set items. item_wf it" and "length (fmt_out items) < n" and "n < 2 ^ 32"
  shows "vsprintf (replicate n 0) (fmt_text items @ 0 # rest) (fmt_args items @ more) =
    Inr (of_nat (length (cstr (fmt_out items))), fmt_out items @ replicate (n - length (fmt_out items)) 0)"
  using assms by (rule vsprintf_run)

theorem vsprintf_correct_witness:
  "vsprintf (replicate 8 0) [37, 100, 58, 37, 115, 0] [VaInt (-42), VaStr [104, 105, 0]] =
    Inr (6, [45, 52, 50, 58, 104, 105, 0, 0])"
proof -
  let ?items = "[Conv_d (-42), Lit 58, Conv_s [104, 105, 0]]"
  have "fmt_out ?items = [45, 52, 50, 58, 104, 105]"
    by code_simp
  moreover have "replicate 2 0 = [0, 0 :: u8]" by (simp add: numeral_2_eq_2)
  ultimately show ?thesis
    using vsprintf_correct [of ?items 8 "[]" "[]"] by (simp add: fmt_text_def fmt_args_def)
qed

text \<open>Reading a digit back.\<close>

definition char_value :: "u8 \<Rightarrow> nat" where
  "char_value c = (if unat c < 65 then unat c - 48 else unat c - 55)"

lemma char_value_digit: "d < 36 \<Longrightarrow> char_value (digit_char (of_nat d)) = d"
proof -
  assume d: "d < 36"
  have "\<forall>d \<in> set [0..<36]. char_value (digit_char (of_nat d)) = d" by code_simp
  with d show ?thesis by simp
qed

lemma digits_hd: "2 \<le> b \<Longrightarrow> 0 < n \<Longrightarrow> hd (digits b n) \<noteq> 0"
proof (induction b n rule: digits.induct)
  case (1 b n)
  show ?case
  proof (cases "b \<le> n")
    case True
    then have "0 < n div b" using 1(2) by (simp add: div_greater_zero_iff)
    with 1 True have "hd (digits b (n div b)) \<noteq> 0" by simp
    moreover have "digits b (n div b) \<noteq> []" by (subst digits.simps) simp
    ultimately show ?thesis using 1 True by (subst digits.simps) simp
  next
    case False
    with 1 show ?thesis by (subst digits.simps) simp
  qed
qed

lemma map_char_value:
  assumes "2 \<le> b" and "b \<le> 36"
  shows "List.map (\<lambda>d. char_value (digit_char (of_nat d))) (digits b n) = digits b n"
  by (rule map_idI) (use digits_less [OF assms(1), of n] assms(2) char_value_digit in fastforce)

lemma digits_Nil: "digits b n \<noteq> []"
  by (subst digits.simps) simp

text \<open>C38: The digits \<open>itoa\<close> writes, read back in the same base, give the number, for every base
  from 2 to 36; the recursion ends and writes no leading zero.\<close>

theorem itoa_roundtrip:
  assumes "2 \<le> base" and "base \<le> 36"
  shows "\<exists>ds. itoa v base = Some (Inr ds) \<and>
    digits_value (unat base) (List.map char_value ds) = unat v \<and>
    (v \<noteq> 0 \<longrightarrow> hd ds \<noteq> asc CHR ''0'')"
proof (intro exI conjI impI)
  let ?ds = "digits (unat base) (unat v)"
  have b: "2 \<le> unat base" "unat base \<le> 36" using assms by (simp_all add: word_le_nat_alt)
  show "itoa v base = Some (Inr (List.map (\<lambda>d. digit_char (of_nat d)) ?ds))"
    using assms(1) by (rule itoa_eq)
  show "digits_value (unat base) (List.map char_value
      (List.map (\<lambda>d. digit_char (of_nat d)) ?ds)) = unat v"
    using map_char_value [OF b, of "unat v"] by (simp add: o_def digits_value_digits)
  assume "v \<noteq> 0"
  then have "hd ?ds \<noteq> 0" using b(1) by (intro digits_hd) (auto simp: unat_gt_0)
  moreover have "hd ?ds < 36" using digits_less [OF b(1), of "unat v"] b(2) digits_Nil [of "unat base" "unat v"]
    by (meson hd_in_set less_le_trans)
  ultimately have "char_value (digit_char (of_nat (hd ?ds))) \<noteq> char_value (asc CHR ''0'')"
    using char_value_digit [of "hd ?ds"] by (simp add: char_value_def)
  then show "hd (List.map (\<lambda>d. digit_char (of_nat d)) ?ds) \<noteq> asc CHR ''0''"
    using digits_Nil [of "unat base" "unat v"] by (auto simp: hd_map)
qed

theorem itoa_roundtrip_witness:
  "\<exists>ds. itoa 48879 16 = Some (Inr ds) \<and> digits_value 16 (List.map char_value ds) = 48879"
  using itoa_roundtrip [of 16 48879] by auto

text \<open>The formatter writes no zero byte of its own: over stale bytes the string runs on.\<close>

lemma sprintf_unterminated: "sprintf [55, 55, 0] [97, 0] [] = Inr (2, [97, 55, 0])"
  by code_simp

end
