(* ===== verification/Sched.thy ===== *)
theory Sched
  imports Klist
begin

text \<open>
  The scheduler of \<open>thread/thread.c\<close>, with \<open>process_activate\<close> of \<open>userprog/process.c\<close> and the
  timer interrupt of \<open>device/timer.c\<close>. A thread is named by the address of its PCB page. The
  ready list and the list of all threads are the sequences that \<open>Klist\<close> shows the intrusive
  lists to represent; the tags link a PCB into them.

  \<open>switch_to\<close> changes the stack, so control continues in the thread that was switched to: in
  the model it sets \<open>running\<close>, and what that thread does first on its return (restoring the
  interrupt flag it saved when it left the processor) is \<open>resume\<close>, which reads the flag from
  \<open>resume_if\<close>.
\<close>

section \<open>State\<close>

type_synonym tid = u32

datatype task_status =
  TASK_RUNNING | TASK_READY | TASK_BLOCKED | TASK_WAITING | TASK_HANGING | TASK_DIED

record task =
  self_kstack :: u32
  pid :: u16
  status :: task_status
  tname :: "u8 list"
  priority :: u8
  ticks :: u8
  elapsed_ticks :: u32
  fd_table :: "s32 list"
  pgdir :: u32
  cwd_inode_no :: u32
  parent_pid :: u32
  exit_status :: u8
  stack_magic :: u32
  resume_if :: intr_status

record ksched =
  tasks :: "tid \<Rightarrow> task option"
  thread_ready_list :: "tid list"
  thread_all_list :: "tid list"
  running :: tid
  idle_thread :: tid
  main_thread :: tid
  cpu_if :: intr_status
  cr3 :: u32
  esp0 :: u32
  addr_v2p :: "u32 \<Rightarrow> u32"
  total_ticks :: u32

section \<open>Access to the PCBs and the interrupt flag\<close>

definition task_of :: "tid \<Rightarrow> ('a ksched_scheme, task) km" where
  "task_of t = (\<lambda>s. case tasks s t of None \<Rightarrow> Inl (Fault ''task_struct'') | Some p \<Rightarrow> Inr (p, s))"

definition upd_task :: "tid \<Rightarrow> (task \<Rightarrow> task) \<Rightarrow> ('a ksched_scheme, unit) km" where
  "upd_task t f =
     bnd (task_of t) (\<lambda>p. modify (\<lambda>s. s\<lparr>tasks := (tasks s)(t \<mapsto> f p)\<rparr>))"

definition irq_disable :: "('a ksched_scheme, intr_status) km" where
  "irq_disable = bnd (gets cpu_if) (\<lambda>old_status.
     bnd (modify (\<lambda>s. s\<lparr>cpu_if := INTR_OFF\<rparr>)) (\<lambda>_. ret old_status))"

definition irq_set_status :: "intr_status \<Rightarrow> ('a ksched_scheme, unit) km" where
  "irq_set_status st = modify (\<lambda>s. s\<lparr>cpu_if := st\<rparr>)"

definition ready_append :: "tid \<Rightarrow> ('a ksched_scheme, unit) km" where
  "ready_append t = modify (\<lambda>s. s\<lparr>thread_ready_list := thread_ready_list s @ [t]\<rparr>)"

section \<open>Operations\<close>

definition is_blocked_status :: "task_status \<Rightarrow> bool" where
  "is_blocked_status st \<longleftrightarrow> st = TASK_BLOCKED \<or> st = TASK_WAITING \<or> st = TASK_HANGING"

definition thread_unblock :: "tid \<Rightarrow> ('a ksched_scheme, unit) km" where
  "thread_unblock pthread =
     bnd irq_disable (\<lambda>old_status.
     bnd (task_of pthread) (\<lambda>p.
     bnd (kassert ''pthread->status'' (is_blocked_status (status p))) (\<lambda>_.
     bnd (if status p \<noteq> TASK_READY
          then bnd (gets thread_ready_list) (\<lambda>ready.
               if pthread \<in> set ready
               then fail (Panic ''thread_unblock: blocked thread in ready_list'')
               else bnd (modify (\<lambda>s. s\<lparr>thread_ready_list := pthread # thread_ready_list s\<rparr>)) (\<lambda>_.
                    upd_task pthread (\<lambda>p. p\<lparr>status := TASK_READY\<rparr>)))
          else ret ()) (\<lambda>_.
     irq_set_status old_status))))"

definition PG_SIZE :: u32 where
  "PG_SIZE = 4096"

definition page_dir_activate :: "task \<Rightarrow> ('a ksched_scheme, unit) km" where
  "page_dir_activate p =
     modify (\<lambda>s. s\<lparr>cr3 := (if pgdir p \<noteq> 0 then addr_v2p s (pgdir p) else 0x100000)\<rparr>)"

definition process_activate :: "tid \<Rightarrow> ('a ksched_scheme, unit) km" where
  "process_activate t =
     bnd (kassert ''p_thread != NULL'' (t \<noteq> 0)) (\<lambda>_.
     bnd (task_of t) (\<lambda>p.
     bnd (page_dir_activate p) (\<lambda>_.
     whenm (pgdir p \<noteq> 0) (modify (\<lambda>s. s\<lparr>esp0 := t + PG_SIZE\<rparr>)))))"

definition switch_to :: "tid \<Rightarrow> ('a ksched_scheme, unit) km" where
  "switch_to t = modify (\<lambda>s. s\<lparr>running := t\<rparr>)"

definition schedule :: "('a ksched_scheme, unit) km" where
  "schedule =
     bnd (gets cpu_if) (\<lambda>st.
     bnd (kassert ''intr_get_status() == INTR_OFF'' (st = INTR_OFF)) (\<lambda>_.
     bnd (gets running) (\<lambda>cur.
     bnd (task_of cur) (\<lambda>p.
     bnd (if status p = TASK_RUNNING
          then bnd (gets thread_ready_list) (\<lambda>ready.
               bnd (kassert ''!elem_find(&thread_ready_list, &cur->general_tag)'' (cur \<notin> set ready)) (\<lambda>_.
               bnd (ready_append cur) (\<lambda>_.
               upd_task cur (\<lambda>p. p\<lparr>ticks := priority p, status := TASK_READY\<rparr>))))
          else ret ()) (\<lambda>_.
     bnd (gets thread_ready_list) (\<lambda>ready.
     bnd (if ready = [] then bnd (gets idle_thread) thread_unblock else ret ()) (\<lambda>_.
     bnd (gets thread_ready_list) (\<lambda>ready.
     bnd (kassert ''!list_empty(&thread_ready_list)'' (ready \<noteq> [])) (\<lambda>_.
     bnd (modify (\<lambda>s. s\<lparr>thread_ready_list := tl (thread_ready_list s)\<rparr>)) (\<lambda>_.
     bnd (upd_task (hd ready) (\<lambda>p. p\<lparr>status := TASK_RUNNING\<rparr>)) (\<lambda>_.
     bnd (process_activate (hd ready)) (\<lambda>_.
     switch_to (hd ready)))))))))))))"

text \<open>What the thread that was switched to does on its return from \<open>schedule\<close>.\<close>

definition resume :: "('a ksched_scheme, unit) km" where
  "resume =
     bnd (gets running) (\<lambda>t.
     bnd (task_of t) (\<lambda>p. irq_set_status (resume_if p)))"

definition thread_block :: "task_status \<Rightarrow> ('a ksched_scheme, unit) km" where
  "thread_block stat =
     bnd (kassert ''stat'' (is_blocked_status stat)) (\<lambda>_.
     bnd irq_disable (\<lambda>old_status.
     bnd (gets running) (\<lambda>cur_thread.
     bnd (upd_task cur_thread (\<lambda>p. p\<lparr>status := stat, resume_if := old_status\<rparr>)) (\<lambda>_.
     bnd schedule (\<lambda>_.
     resume)))))"

definition thread_yield :: "('a ksched_scheme, unit) km" where
  "thread_yield =
     bnd (gets running) (\<lambda>cur.
     bnd irq_disable (\<lambda>old_status.
     bnd (gets thread_ready_list) (\<lambda>ready.
     bnd (kassert ''!elem_find(&thread_ready_list, &cur->general_tag)'' (cur \<notin> set ready)) (\<lambda>_.
     bnd (ready_append cur) (\<lambda>_.
     bnd (upd_task cur (\<lambda>p. p\<lparr>status := TASK_READY, resume_if := old_status\<rparr>)) (\<lambda>_.
     bnd schedule (\<lambda>_.
     resume)))))))"

text \<open>The timer interrupt: entered with interrupts off, left by \<open>iret\<close> with them on.\<close>

definition intr_timer_handler :: "('a ksched_scheme, unit) km" where
  "intr_timer_handler =
     bnd (gets running) (\<lambda>cur_thread.
     bnd (task_of cur_thread) (\<lambda>p.
     bnd (kassert ''cur_thread->stack_magic == 0x19870916'' (stack_magic p = 0x19870916)) (\<lambda>_.
     bnd (upd_task cur_thread (\<lambda>p. p\<lparr>elapsed_ticks := elapsed_ticks p + 1\<rparr>)) (\<lambda>_.
     bnd (modify (\<lambda>s. s\<lparr>total_ticks := total_ticks s + 1\<rparr>)) (\<lambda>_.
     if ticks p = 0 then schedule
     else upd_task cur_thread (\<lambda>p. p\<lparr>ticks := ticks p - 1\<rparr>))))))"

definition timer_interrupt :: "('a ksched_scheme, unit) km" where
  "timer_interrupt =
     bnd (gets running) (\<lambda>cur.
     bnd (upd_task cur (\<lambda>p. p\<lparr>resume_if := INTR_ON\<rparr>)) (\<lambda>_.
     bnd irq_disable (\<lambda>_.
     bnd intr_timer_handler (\<lambda>_.
     resume))))"

section \<open>The invariant of the scheduler\<close>

definition stat_of :: "('a ksched_scheme) \<Rightarrow> tid \<Rightarrow> task_status" where
  "stat_of s t = status (the (tasks s t))"

text \<open>
  \<open>sched_ok\<close> holds whenever \<open>schedule\<close> may be called: the ready list holds exactly the \<open>READY\<close>
  threads, nobody but the running thread is \<open>RUNNING\<close>, and the idle thread never waits for
  anything but the ready list to run empty. \<open>sched_inv\<close> adds that the running thread is
  \<open>RUNNING\<close>, as it is whenever a thread executes its own code.
\<close>

definition sched_ok :: "('a ksched_scheme) \<Rightarrow> bool" where
  "sched_ok s \<longleftrightarrow>
     distinct (thread_ready_list s) \<and> distinct (thread_all_list s) \<and>
     (\<forall>t \<in> set (thread_all_list s). t \<noteq> 0 \<and> tasks s t \<noteq> None) \<and>
     running s \<in> set (thread_all_list s) \<and> idle_thread s \<in> set (thread_all_list s) \<and>
     (\<forall>t. t \<in> set (thread_ready_list s) \<longleftrightarrow>
        t \<in> set (thread_all_list s) \<and> stat_of s t = TASK_READY) \<and>
     (\<forall>t \<in> set (thread_all_list s). t \<noteq> running s \<longrightarrow> stat_of s t \<noteq> TASK_RUNNING) \<and>
     stat_of s (idle_thread s) \<in> {TASK_RUNNING, TASK_READY, TASK_BLOCKED}"

definition sched_inv :: "('a ksched_scheme) \<Rightarrow> bool" where
  "sched_inv s \<longleftrightarrow> sched_ok s \<and> stat_of s (running s) = TASK_RUNNING"

lemma task_of_Some: "tasks s t = Some p \<Longrightarrow> bnd (task_of t) f s = f p s"
  by (simp add: task_of_def bnd_def)

lemma upd_task_Some:
  "tasks s t = Some p \<Longrightarrow> upd_task t g s = Inr ((), s\<lparr>tasks := (tasks s)(t \<mapsto> g p)\<rparr>)"
  by (simp add: upd_task_def task_of_Some)

lemma bnd_upd_task:
  "tasks s t = Some p \<Longrightarrow> bnd (upd_task t g) f s = f () (s\<lparr>tasks := (tasks s)(t \<mapsto> g p)\<rparr>)"
  by (simp add: upd_task_Some bnd_Inr)

lemma bnd_irq_disable [simp]: "bnd irq_disable f s = f (cpu_if s) (s\<lparr>cpu_if := INTR_OFF\<rparr>)"
  by (simp add: irq_disable_def bnd_assoc)

lemma irq_set_status_run [simp]: "irq_set_status st s = Inr ((), s\<lparr>cpu_if := st\<rparr>)"
  by (simp add: irq_set_status_def)

lemma bnd_irq_set_status [simp]: "bnd (irq_set_status st) f s = f () (s\<lparr>cpu_if := st\<rparr>)"
  by (simp add: irq_set_status_def)

lemma bnd_ready_append [simp]:
  "bnd (ready_append t) f s = f () (s\<lparr>thread_ready_list := thread_ready_list s @ [t]\<rparr>)"
  by (simp add: ready_append_def)

lemma switch_to_run [simp]: "switch_to t s = Inr ((), s\<lparr>running := t\<rparr>)"
  by (simp add: switch_to_def)

lemma bnd_process_activate:
  "tasks s t = Some q \<Longrightarrow> t \<noteq> 0 \<Longrightarrow> bnd (process_activate t) f s =
     f () (s\<lparr>cr3 := (if pgdir q \<noteq> 0 then addr_v2p s (pgdir q) else 0x100000),
             esp0 := (if pgdir q \<noteq> 0 then t + PG_SIZE else esp0 s)\<rparr>)"
  by (cases "pgdir q = 0")
     (simp_all add: process_activate_def bnd_assoc task_of_Some page_dir_activate_def)

lemma sched_okD:
  assumes "sched_ok s" and "t \<in> set (thread_all_list s)"
  obtains p where "tasks s t = Some p" and "t \<noteq> 0" and "stat_of s t = status p"
  using assms by (force simp: sched_ok_def stat_of_def)

lemma running_task:
  assumes "sched_ok s"
  obtains p where "tasks s (running s) = Some p" and "stat_of s (running s) = status p"
  using assms sched_okD [OF assms, of "running s"] by (metis sched_ok_def)

definition unblocked :: "tid \<Rightarrow> 'a ksched_scheme \<Rightarrow> 'a ksched_scheme" where
  "unblocked t s = s\<lparr>thread_ready_list := t # thread_ready_list s,
     tasks := (tasks s)(t \<mapsto> (the (tasks s t))\<lparr>status := TASK_READY\<rparr>)\<rparr>"

lemma unblocked_simps [simp]:
  "thread_ready_list (unblocked t s) = t # thread_ready_list s"
  "thread_all_list (unblocked t s) = thread_all_list s" "running (unblocked t s) = running s"
  "idle_thread (unblocked t s) = idle_thread s" "cpu_if (unblocked t s) = cpu_if s"
  "tasks (unblocked t s) = (tasks s)(t \<mapsto> (the (tasks s t))\<lparr>status := TASK_READY\<rparr>)"
  "ksched.more (unblocked t s) = ksched.more s"
  "stat_of (unblocked t s) u = (if u = t then TASK_READY else stat_of s u)"
  by (simp_all add: unblocked_def stat_of_def)

lemma thread_unblock_run:
  assumes "tasks s t = Some p" and "is_blocked_status (status p)" and "t \<notin> set (thread_ready_list s)"
  shows "thread_unblock t s = Inr ((), unblocked t s)"
  using assms
  by (cases s) (auto simp: thread_unblock_def task_of_Some bnd_upd_task bnd_assoc is_blocked_status_def unblocked_def)

lemma unblocked_ok:
  assumes "sched_ok s" and "t \<in> set (thread_all_list s)" and "is_blocked_status (stat_of s t)"
  shows "thread_unblock t s = Inr ((), unblocked t s)" and "sched_ok (unblocked t s)"
proof -
  obtain p where p: "tasks s t = Some p" "stat_of s t = status p"
    using assms(1,2) by (rule sched_okD)
  have "t \<notin> set (thread_ready_list s)"
    using assms by (auto simp: sched_ok_def is_blocked_status_def)
  then show "thread_unblock t s = Inr ((), unblocked t s)"
    using p assms(3) by (intro thread_unblock_run) simp_all
  show "sched_ok (unblocked t s)"
    using assms by (auto simp: sched_ok_def is_blocked_status_def)
qed

text \<open>Taking the first thread of the ready list on the processor.\<close>

definition dispatched :: "'a ksched_scheme \<Rightarrow> 'a ksched_scheme" where
  "dispatched s =
     (let t = hd (thread_ready_list s); p = the (tasks s t)
      in s\<lparr>thread_ready_list := tl (thread_ready_list s),
           tasks := (tasks s)(t \<mapsto> p\<lparr>status := TASK_RUNNING\<rparr>),
           cr3 := (if pgdir p \<noteq> 0 then addr_v2p s (pgdir p) else 0x100000),
           esp0 := (if pgdir p \<noteq> 0 then t + PG_SIZE else esp0 s), running := t\<rparr>)"

lemma dispatched_simps [simp]:
  "thread_ready_list (dispatched s) = tl (thread_ready_list s)"
  "thread_all_list (dispatched s) = thread_all_list s"
  "running (dispatched s) = hd (thread_ready_list s)"
  "idle_thread (dispatched s) = idle_thread s" "cpu_if (dispatched s) = cpu_if s"
  "ksched.more (dispatched s) = ksched.more s"
  "stat_of (dispatched s) u = (if u = hd (thread_ready_list s) then TASK_RUNNING else stat_of s u)"
  "tasks (dispatched s) = (tasks s)(hd (thread_ready_list s) \<mapsto>
     (the (tasks s (hd (thread_ready_list s))))\<lparr>status := TASK_RUNNING\<rparr>)"
  by (simp_all add: dispatched_def Let_def stat_of_def)

lemma dispatched_inv:
  assumes "sched_ok s" and "thread_ready_list s \<noteq> []" and "stat_of s (running s) \<noteq> TASK_RUNNING"
  shows "sched_inv (dispatched s)"
  using assms
  by (cases "thread_ready_list s") (auto simp: sched_inv_def sched_ok_def)

text \<open>A thread whose time slice is over goes to the end of the ready list.\<close>

definition preempted :: "'a ksched_scheme \<Rightarrow> 'a ksched_scheme" where
  "preempted s =
     (let cur = running s; p = the (tasks s cur)
      in s\<lparr>thread_ready_list := thread_ready_list s @ [cur],
           tasks := (tasks s)(cur \<mapsto> p\<lparr>ticks := priority p, status := TASK_READY\<rparr>)\<rparr>)"

lemma preempted_simps [simp]:
  "thread_ready_list (preempted s) = thread_ready_list s @ [running s]"
  "thread_all_list (preempted s) = thread_all_list s" "running (preempted s) = running s"
  "idle_thread (preempted s) = idle_thread s" "cpu_if (preempted s) = cpu_if s"
  "ksched.more (preempted s) = ksched.more s"
  "stat_of (preempted s) u = (if u = running s then TASK_READY else stat_of s u)"
  "tasks (preempted s) = (tasks s)(running s \<mapsto>
     (the (tasks s (running s)))\<lparr>ticks := priority (the (tasks s (running s))), status := TASK_READY\<rparr>)"
  by (simp_all add: preempted_def Let_def stat_of_def)

lemma preempted_ok:
  assumes "sched_inv s"
  shows "sched_ok (preempted s)" and "running s \<notin> set (thread_ready_list s)"
proof -
  show notin: "running s \<notin> set (thread_ready_list s)"
    using assms by (simp add: sched_inv_def sched_ok_def)
  show "sched_ok (preempted s)"
    using assms notin unfolding sched_inv_def sched_ok_def
    by (simp only: preempted_simps) auto
qed

text \<open>The state from which \<open>schedule\<close> takes the first ready thread.\<close>

definition requeued :: "'a ksched_scheme \<Rightarrow> 'a ksched_scheme" where
  "requeued s =
     (if stat_of s (running s) = TASK_RUNNING then preempted s
      else if thread_ready_list s = [] then unblocked (idle_thread s) s else s)"

lemma requeued_ok:
  assumes ok: "sched_ok s"
  shows "sched_ok (requeued s)" and "thread_ready_list (requeued s) \<noteq> []"
    and "stat_of (requeued s) (running s) \<noteq> TASK_RUNNING"
    and "running (requeued s) = running s"
proof -
  have idle: "is_blocked_status (stat_of s (idle_thread s))"
    if "thread_ready_list s = []" "stat_of s (running s) \<noteq> TASK_RUNNING"
    using that ok by (auto simp: sched_ok_def is_blocked_status_def)
  have "idle_thread s \<in> set (thread_all_list s)"
    using ok by (simp add: sched_ok_def)
  with ok idle show "sched_ok (requeued s)"
    by (auto simp: requeued_def sched_inv_def intro: unblocked_ok(2) preempted_ok(1))
  show "thread_ready_list (requeued s) \<noteq> []"
    and "stat_of (requeued s) (running s) \<noteq> TASK_RUNNING"
    and "running (requeued s) = running s"
    by (auto simp: requeued_def)
qed

lemma schedule_run:
  assumes ok: "sched_ok s" and off: "cpu_if s = INTR_OFF"
  shows "schedule s = Inr ((), dispatched (requeued s))"
proof -
  obtain p where p: "tasks s (running s) = Some p" "stat_of s (running s) = status p"
    using ok by (rule running_task)
  let ?s = "requeued s"
  have front: "schedule s =
    (bnd (gets thread_ready_list) (\<lambda>ready.
     bnd (kassert ''!list_empty(&thread_ready_list)'' (ready \<noteq> [])) (\<lambda>_.
     bnd (modify (\<lambda>s. s\<lparr>thread_ready_list := tl (thread_ready_list s)\<rparr>)) (\<lambda>_.
     bnd (upd_task (hd ready) (\<lambda>p. p\<lparr>status := TASK_RUNNING\<rparr>)) (\<lambda>_.
     bnd (process_activate (hd ready)) (\<lambda>_. switch_to (hd ready))))))) ?s"
  proof (cases "status p = TASK_RUNNING")
    case True
    then have "sched_inv s" using ok p by (simp add: sched_inv_def)
    with True p off preempted_ok(2) [of s] show ?thesis
      by (simp add: schedule_def task_of_Some bnd_assoc bnd_upd_task requeued_def preempted_def Let_def)
  next
    case False
    show ?thesis
    proof (cases "thread_ready_list s = []")
      case True
      have "thread_unblock (idle_thread s) s = Inr ((), unblocked (idle_thread s) s)"
        using ok True False p
        by (intro unblocked_ok(1)) (auto simp: sched_ok_def is_blocked_status_def)
      with True False p off show ?thesis
        by (simp add: schedule_def task_of_Some requeued_def bnd_Inr)
    next
      case nonempty: False
      with False p off show ?thesis
        by (simp add: schedule_def task_of_Some requeued_def)
    qed
  qed
  have "hd (thread_ready_list ?s) \<in> set (thread_ready_list ?s)"
    using requeued_ok(2) [OF ok] by simp
  then have "hd (thread_ready_list ?s) \<in> set (thread_all_list ?s)"
    using requeued_ok(1) [OF ok] by (auto simp: sched_ok_def)
  from sched_okD [OF requeued_ok(1) [OF ok] this] obtain q where
    q: "tasks ?s (hd (thread_ready_list ?s)) = Some q" "hd (thread_ready_list ?s) \<noteq> 0" by metis
  show ?thesis
    unfolding front using q requeued_ok(2) [OF ok]
    by (cases "pgdir q = 0")
       (simp_all add: bnd_upd_task bnd_process_activate dispatched_def Let_def)
qed

lemma schedule_inv:
  assumes "sched_ok s" and "cpu_if s = INTR_OFF"
  shows "schedule s = Inr ((), dispatched (requeued s))" and "sched_inv (dispatched (requeued s))"
proof -
  show "schedule s = Inr ((), dispatched (requeued s))"
    using assms by (rule schedule_run)
  show "sched_inv (dispatched (requeued s))"
    using requeued_ok [OF assms(1)] by (intro dispatched_inv) simp_all
qed

text \<open>The invariants depend only on the lists, the statuses and who runs.\<close>

lemma sched_ok_cong:
  assumes "thread_ready_list s' = thread_ready_list s" and "thread_all_list s' = thread_all_list s"
    and "running s' = running s" and "idle_thread s' = idle_thread s"
    and "\<And>t. stat_of s' t = stat_of s t" and "\<And>t. tasks s' t = None \<longleftrightarrow> tasks s t = None"
  shows "sched_ok s' = sched_ok s" and "sched_inv s' = sched_inv s"
  using assms by (simp_all add: sched_ok_def sched_inv_def)

lemma resume_run:
  assumes "sched_inv s"
  obtains p where "tasks s (running s) = Some p"
    and "resume s = Inr ((), s\<lparr>cpu_if := resume_if p\<rparr>)" and "sched_inv (s\<lparr>cpu_if := resume_if p\<rparr>)"
proof -
  obtain p where p: "tasks s (running s) = Some p"
    using assms by (auto simp: sched_inv_def elim: running_task)
  moreover have "sched_inv (s\<lparr>cpu_if := resume_if p\<rparr>)"
    using assms by (subst sched_ok_cong(2) [of _ s]) (simp_all add: stat_of_def)
  ultimately show ?thesis by (intro that [of p]) (simp_all add: resume_def task_of_Some)
qed

text \<open>The word at the bottom of every kernel stack is intact.\<close>

definition magic_ok :: "('a ksched_scheme) \<Rightarrow> bool" where
  "magic_ok s \<longleftrightarrow> (\<forall>t p. tasks s t = Some p \<longrightarrow> stack_magic p = 0x19870916)"

lemma magic_requeued:
  assumes "sched_ok s" and "magic_ok s"
  shows "magic_ok (requeued s)"
proof -
  obtain p where p: "tasks s (running s) = Some p" using assms(1) by (rule running_task)
  obtain q where q: "tasks s (idle_thread s) = Some q"
    using assms(1) by (auto simp: sched_ok_def)
  have "stack_magic p = 0x19870916" "stack_magic q = 0x19870916"
    using assms(2) p q by (auto simp: magic_ok_def)
  then show ?thesis
    using assms(2) p q by (auto simp: magic_ok_def requeued_def)
qed

lemma magic_dispatched:
  assumes "sched_ok s" and "thread_ready_list s \<noteq> []" and "magic_ok s"
  shows "magic_ok (dispatched s)"
proof -
  have "hd (thread_ready_list s) \<in> set (thread_all_list s)"
    using assms(1,2) unfolding sched_ok_def by (metis list.set_sel(1))
  then obtain p where p: "tasks s (hd (thread_ready_list s)) = Some p"
    using assms(1) by (auto elim: sched_okD)
  then have "stack_magic p = 0x19870916"
    using assms(3) by (auto simp: magic_ok_def)
  then show ?thesis
    using assms(3) p by (auto simp: magic_ok_def)
qed

text \<open>Leaving the processor: \<open>schedule\<close> in the old thread, \<open>resume\<close> in the new one.\<close>

lemma switch_run:
  assumes "sched_ok s" and "cpu_if s = INTR_OFF"
  obtains s' where "bnd schedule (\<lambda>_. resume) s = Inr ((), s')" and "sched_inv s'"
    and "running s' # thread_ready_list s' = thread_ready_list (requeued s)"
    and "thread_all_list s' = thread_all_list s" and "idle_thread s' = idle_thread s"
    and "\<And>t. t \<noteq> running s' \<Longrightarrow> tasks s' t = tasks (requeued s) t"
    and "tasks s' (running s') =
      Some ((the (tasks (requeued s) (running s')))\<lparr>status := TASK_RUNNING\<rparr>)"
    and "cpu_if s' = resume_if (the (tasks s' (running s')))"
    and "ksched.more s' = ksched.more s" and "magic_ok s \<Longrightarrow> magic_ok s'"
proof -
  let ?s = "dispatched (requeued s)"
  have inv: "sched_inv ?s" by (rule schedule_inv [OF assms])
  then obtain p where p: "tasks ?s (running ?s) = Some p"
    "resume ?s = Inr ((), ?s\<lparr>cpu_if := resume_if p\<rparr>)" "sched_inv (?s\<lparr>cpu_if := resume_if p\<rparr>)"
    by (rule resume_run)
  have "bnd schedule (\<lambda>_. resume) s = Inr ((), ?s\<lparr>cpu_if := resume_if p\<rparr>)"
    using p(2) by (simp add: bnd_Inr [where m = schedule, OF schedule_run [OF assms]])
  moreover have "thread_all_list (requeued s) = thread_all_list s"
    "idle_thread (requeued s) = idle_thread s" "ksched.more (requeued s) = ksched.more s"
    by (simp_all add: requeued_def)
  moreover have "magic_ok (?s\<lparr>cpu_if := resume_if p\<rparr>)" if "magic_ok s"
    using magic_dispatched [OF requeued_ok(1,2) [OF assms(1)] magic_requeued [OF assms(1) that]]
    by (simp add: magic_ok_def)
  ultimately show ?thesis
    using requeued_ok(2) [OF assms(1)] p
    by (intro that [of "?s\<lparr>cpu_if := resume_if p\<rparr>"]) simp_all
qed

lemma thread_block_run:
  assumes inv: "sched_inv s" and stat: "is_blocked_status stat"
    and idle: "running s = idle_thread s \<longrightarrow> stat = TASK_BLOCKED"
  obtains s' where "thread_block stat s = Inr ((), s')" and "sched_inv s'"
    and "running s' # thread_ready_list s' =
      (if thread_ready_list s = [] then [idle_thread s] else thread_ready_list s)"
    and "thread_all_list s' = thread_all_list s" and "idle_thread s' = idle_thread s"
    and "\<And>t. t \<noteq> running s \<Longrightarrow> t \<noteq> running s' \<Longrightarrow> tasks s' t = tasks s t"
    and "running s' \<noteq> running s \<Longrightarrow> stat_of s' (running s) = stat"
    and "ksched.more s' = ksched.more s" and "magic_ok s \<Longrightarrow> magic_ok s'"
proof -
  have ok: "sched_ok s" and run: "stat_of s (running s) = TASK_RUNNING"
    using inv by (simp_all add: sched_inv_def)
  obtain p where p: "tasks s (running s) = Some p" using ok by (rule running_task)
  define s1 where "s1 = s\<lparr>cpu_if := INTR_OFF,
    tasks := (tasks s)(running s \<mapsto> p\<lparr>status := stat, resume_if := cpu_if s\<rparr>)\<rparr>"
  have st: "stat_of s1 t = (if t = running s then stat else stat_of s t)" for t
    by (simp add: s1_def stat_of_def)
  have s1: "running s1 = running s" "thread_ready_list s1 = thread_ready_list s"
    "thread_all_list s1 = thread_all_list s" "idle_thread s1 = idle_thread s" "cpu_if s1 = INTR_OFF"
    "\<And>t. t \<noteq> running s \<Longrightarrow> tasks s1 t = tasks s t" "\<And>t. tasks s1 t = None \<longleftrightarrow> tasks s t = None"
    "ksched.more s1 = ksched.more s"
    using p by (auto simp: s1_def)
  have magic: "magic_ok s \<Longrightarrow> magic_ok s1"
    using p by (auto simp: magic_ok_def s1_def)
  have block: "thread_block stat s = bnd schedule (\<lambda>_. resume) s1"
    using stat p by (simp add: thread_block_def bnd_upd_task s1_def)
  have neq: "stat \<noteq> TASK_READY" "stat \<noteq> TASK_RUNNING"
    using stat by (auto simp: is_blocked_status_def)
  have "sched_ok s1"
    using ok run idle neq unfolding sched_ok_def by (simp add: st s1) auto
  from switch_run [OF this s1(5)] obtain s' where
    s': "bnd schedule (\<lambda>_. resume) s1 = Inr ((), s')" "sched_inv s'"
    "running s' # thread_ready_list s' = thread_ready_list (requeued s1)"
    "thread_all_list s' = thread_all_list s1" "idle_thread s' = idle_thread s1"
    "\<And>t. t \<noteq> running s' \<Longrightarrow> tasks s' t = tasks (requeued s1) t"
    "ksched.more s' = ksched.more s1" "magic_ok s1 \<Longrightarrow> magic_ok s'" by blast
  have rq: "requeued s1 = (if thread_ready_list s = [] then unblocked (idle_thread s) s1 else s1)"
    by (simp add: requeued_def st s1 neq)
  have "running s' = idle_thread s" if "thread_ready_list s = []"
    using s'(3) that by (simp add: rq s1)
  then have other: "tasks s' t = tasks s1 t" if "t \<noteq> running s'" for t
    using s'(6) [OF that] that by (auto simp: rq)
  show ?thesis
  proof (rule that [of s'])
    show "running s' # thread_ready_list s' =
      (if thread_ready_list s = [] then [idle_thread s] else thread_ready_list s)"
      using s'(3) by (auto simp: rq s1)
    show "tasks s' t = tasks s t" if "t \<noteq> running s" "t \<noteq> running s'" for t
      using other that s1 by simp
    show "stat_of s' (running s) = stat" if "running s' \<noteq> running s"
      using other [of "running s"] that st [of "running s"] by (simp add: stat_of_def)
  qed (use s' block s1 magic in simp_all)
qed

lemma thread_yield_run:
  assumes inv: "sched_inv s"
  obtains s' where "thread_yield s = Inr ((), s')" and "sched_inv s'"
    and "running s' # thread_ready_list s' = thread_ready_list s @ [running s]"
    and "thread_all_list s' = thread_all_list s" and "idle_thread s' = idle_thread s"
proof -
  have ok: "sched_ok s" and run: "stat_of s (running s) = TASK_RUNNING"
    using inv by (simp_all add: sched_inv_def)
  obtain p where p: "tasks s (running s) = Some p" using ok by (rule running_task)
  define s1 where "s1 = s\<lparr>cpu_if := INTR_OFF, thread_ready_list := thread_ready_list s @ [running s],
    tasks := (tasks s)(running s \<mapsto> p\<lparr>status := TASK_READY, resume_if := cpu_if s\<rparr>)\<rparr>"
  have st: "stat_of s1 t = (if t = running s then TASK_READY else stat_of s t)" for t
    by (simp add: s1_def stat_of_def)
  have s1: "running s1 = running s" "thread_ready_list s1 = thread_ready_list s @ [running s]"
    "thread_all_list s1 = thread_all_list s" "idle_thread s1 = idle_thread s" "cpu_if s1 = INTR_OFF"
    "\<And>t. tasks s1 t = None \<longleftrightarrow> tasks s t = None"
    using p by (auto simp: s1_def)
  have notin: "running s \<notin> set (thread_ready_list s)"
    using preempted_ok(2) [OF inv] .
  then have yield: "thread_yield s = bnd schedule (\<lambda>_. resume) s1"
    using p by (simp add: thread_yield_def bnd_upd_task s1_def)
  have "sched_ok s1"
    using ok run notin unfolding sched_ok_def by (simp add: st s1) auto
  from switch_run [OF this s1(5)] obtain s' where
    "bnd schedule (\<lambda>_. resume) s1 = Inr ((), s')" "sched_inv s'"
    "running s' # thread_ready_list s' = thread_ready_list (requeued s1)"
    "thread_all_list s' = thread_all_list s1" "idle_thread s' = idle_thread s1" by blast
  then show ?thesis
    using yield s1 by (intro that [of s']) (simp_all add: requeued_def st)
qed

section \<open>Time slices\<close>

definition ticks_of :: "('a ksched_scheme) \<Rightarrow> tid \<Rightarrow> u8" where
  "ticks_of s t = ticks (the (tasks s t))"

lemma timer_interrupt_run:
  assumes inv: "sched_inv s" and magic: "magic_ok s"
  obtains s' where "timer_interrupt s = Inr ((), s')" and "sched_inv s'" and "magic_ok s'"
    and "thread_all_list s' = thread_all_list s" and "idle_thread s' = idle_thread s"
    and "if ticks_of s (running s) = 0
      then running s' # thread_ready_list s' = thread_ready_list s @ [running s]
      else running s' = running s \<and> thread_ready_list s' = thread_ready_list s \<and>
        ticks_of s' (running s) = ticks_of s (running s) - 1"
    and "\<And>t. t \<noteq> running s \<Longrightarrow> t \<noteq> running s' \<Longrightarrow> tasks s' t = tasks s t"
    and "ksched.more s' = ksched.more s"
proof -
  have ok: "sched_ok s" and run: "stat_of s (running s) = TASK_RUNNING"
    using inv by (simp_all add: sched_inv_def)
  obtain p where p: "tasks s (running s) = Some p" "stat_of s (running s) = status p"
    using ok by (rule running_task)
  have m: "stack_magic p = 0x19870916" using magic p by (auto simp: magic_ok_def)
  define q where "q = p\<lparr>resume_if := INTR_ON, elapsed_ticks := elapsed_ticks p + 1\<rparr>"
  define s1 where "s1 = s\<lparr>cpu_if := INTR_OFF, total_ticks := total_ticks s + 1,
    tasks := (tasks s)(running s \<mapsto> q)\<rparr>"
  have s1: "running s1 = running s" "thread_ready_list s1 = thread_ready_list s"
    "thread_all_list s1 = thread_all_list s" "idle_thread s1 = idle_thread s" "cpu_if s1 = INTR_OFF"
    "tasks s1 = (tasks s)(running s \<mapsto> q)" "\<And>t. stat_of s1 t = stat_of s t"
    "ksched.more s1 = ksched.more s"
    using p by (auto simp: s1_def q_def stat_of_def)
  have inv1: "sched_inv s1"
    using inv p by (subst sched_ok_cong(2) [of _ s]) (simp_all add: s1)
  have magic1: "magic_ok s1"
    using magic m by (auto simp: magic_ok_def s1 q_def)
  have enter: "timer_interrupt s =
    bnd (if ticks p = 0 then schedule else upd_task (running s) (\<lambda>p. p\<lparr>ticks := ticks p - 1\<rparr>))
      (\<lambda>_. resume) s1"
    using p(1) m
    by (cases s) (simp add: timer_interrupt_def intr_timer_handler_def bnd_upd_task bnd_assoc
        task_of_Some s1_def q_def)
  show ?thesis
  proof (cases "ticks p = 0")
    case True
    from inv1 have "sched_ok s1" by (simp add: sched_inv_def)
    from switch_run [OF this s1(5)] obtain s' where
      s': "bnd schedule (\<lambda>_. resume) s1 = Inr ((), s')" "sched_inv s'"
      "running s' # thread_ready_list s' = thread_ready_list (requeued s1)"
      "thread_all_list s' = thread_all_list s1" "idle_thread s' = idle_thread s1"
      "\<And>t. t \<noteq> running s' \<Longrightarrow> tasks s' t = tasks (requeued s1) t"
      "tasks s' (running s') =
        Some ((the (tasks (requeued s1) (running s')))\<lparr>status := TASK_RUNNING\<rparr>)"
      "ksched.more s' = ksched.more s1" "magic_ok s1 \<Longrightarrow> magic_ok s'" by blast
    have rq: "requeued s1 = preempted s1"
      using run by (simp add: requeued_def s1)
    have "magic_ok s'" using s'(9) magic1 by blast
    then show ?thesis
      using s' enter True p(1) run by (intro that [of s']) (simp_all add: s1 rq ticks_of_def)
  next
    case False
    define s2 where "s2 = s1\<lparr>tasks := (tasks s)(running s \<mapsto> q\<lparr>ticks := ticks q - 1\<rparr>)\<rparr>"
    have "sched_inv s2"
      using inv1 by (subst sched_ok_cong(2) [of _ s1]) (simp_all add: s2_def s1 stat_of_def)
    then obtain r where r: "tasks s2 (running s2) = Some r"
      "resume s2 = Inr ((), s2\<lparr>cpu_if := resume_if r\<rparr>)" "sched_inv (s2\<lparr>cpu_if := resume_if r\<rparr>)"
      by (rule resume_run)
    have "timer_interrupt s = Inr ((), s2\<lparr>cpu_if := resume_if r\<rparr>)"
      using enter False r(2) by (simp add: bnd_upd_task s1 s2_def)
    moreover have "magic_ok (s2\<lparr>cpu_if := resume_if r\<rparr>)"
      using magic m by (auto simp: magic_ok_def s2_def q_def)
    ultimately show ?thesis
      using r(3) False p(1)
      by (intro that [of "s2\<lparr>cpu_if := resume_if r\<rparr>"]) (simp_all add: s2_def s1 ticks_of_def q_def)
  qed
qed

text \<open>Several timer interrupts in a row, with nothing happening between them.\<close>

fun timer_interrupts :: "nat \<Rightarrow> ('a ksched_scheme, unit) km" where
  "timer_interrupts 0 = ret ()"
| "timer_interrupts (Suc n) = bnd timer_interrupt (\<lambda>_. timer_interrupts n)"

lemma timer_interrupts_add:
  "timer_interrupts m s = Inr ((), s') \<Longrightarrow> timer_interrupts (m + n) s = timer_interrupts n s'"
  by (induction m arbitrary: s) (auto simp: bnd_eq_Inr bnd_Inr)

lemma slice_ends:
  assumes "sched_inv s" and "magic_ok s"
  shows "\<exists>s'. timer_interrupts (Suc (unat (ticks_of s (running s)))) s = Inr ((), s') \<and> sched_inv s' \<and>
    magic_ok s' \<and> running s' # thread_ready_list s' = thread_ready_list s @ [running s] \<and>
    thread_all_list s' = thread_all_list s"
  using assms
proof (induction "unat (ticks_of s (running s))" arbitrary: s)
  case 0
  then have zero: "ticks_of s (running s) = 0" by (simp add: unat_eq_zero)
  from timer_interrupt_run [OF 0(2,3)] obtain s' where
    s': "timer_interrupt s = Inr ((), s')" "sched_inv s'" "magic_ok s'"
    "thread_all_list s' = thread_all_list s"
    "running s' # thread_ready_list s' = thread_ready_list s @ [running s]"
    by (metis (full_types) zero)
  then show ?case using zero by (intro exI [of _ s']) (simp add: bnd_Inr)
next
  case (Suc n)
  then have pos: "ticks_of s (running s) \<noteq> 0" by auto
  from timer_interrupt_run [OF Suc.prems] obtain s1 where
    s1: "timer_interrupt s = Inr ((), s1)" "sched_inv s1" "magic_ok s1"
    "thread_all_list s1 = thread_all_list s" "running s1 = running s"
    "thread_ready_list s1 = thread_ready_list s"
    "ticks_of s1 (running s) = ticks_of s (running s) - 1"
    by (metis (full_types) pos)
  have "unat (ticks_of s (running s) - 1) = n"
    using Suc.hyps(2) pos by (simp add: unat_minus_one)
  with s1 have n: "n = unat (ticks_of s1 (running s1))" by simp
  from Suc.hyps(1) [OF n s1(2,3)] obtain s' where
    s': "timer_interrupts (Suc n) s1 = Inr ((), s')" "sched_inv s'" "magic_ok s'"
    "running s' # thread_ready_list s' = thread_ready_list s @ [running s]"
    "thread_all_list s' = thread_all_list s"
    using s1(4-6) n by metis
  have "timer_interrupts (Suc (Suc n)) s = Inr ((), s')"
    using s1(1) s'(1) by (simp only: timer_interrupts.simps(2) [of "Suc n"] bnd_Inr)
  with s' Suc.hyps(2) show ?case by metis
qed

lemma ready_runs:
  "sched_inv s \<Longrightarrow> magic_ok s \<Longrightarrow> k < length (thread_ready_list s) \<Longrightarrow>
   \<exists>n s'. timer_interrupts n s = Inr ((), s') \<and> sched_inv s' \<and> running s' = thread_ready_list s ! k"
proof (induction k arbitrary: s)
  case 0
  from slice_ends [OF 0(1,2)] obtain s' where
    "timer_interrupts (Suc (unat (ticks_of s (running s)))) s = Inr ((), s')" "sched_inv s'"
    "running s' # thread_ready_list s' = thread_ready_list s @ [running s]" by blast
  moreover from this 0(3) have "running s' = thread_ready_list s ! 0"
    by (cases "thread_ready_list s") auto
  ultimately show ?case by blast
next
  case (Suc k)
  from slice_ends [OF Suc.prems(1,2)] obtain s' where
    s': "timer_interrupts (Suc (unat (ticks_of s (running s)))) s = Inr ((), s')" "sched_inv s'"
    "magic_ok s'" "running s' # thread_ready_list s' = thread_ready_list s @ [running s]" by blast
  obtain t ts where ready: "thread_ready_list s = t # ts"
    using Suc.prems(3) by (cases "thread_ready_list s") auto
  with s'(4) have ready': "thread_ready_list s' = ts @ [running s]" by simp
  with ready Suc.prems(3) have "k < length (thread_ready_list s')" by simp
  from Suc.IH [OF s'(2,3) this] obtain n s'' where
    "timer_interrupts n s' = Inr ((), s'')" "sched_inv s''" "running s'' = thread_ready_list s' ! k"
    by blast
  moreover have "thread_ready_list s' ! k = thread_ready_list s ! Suc k"
    using ready ready' Suc.prems(3) by (simp add: nth_append)
  ultimately show ?case using timer_interrupts_add [OF s'(1)] by metis
qed

section \<open>Properties\<close>

text \<open>A machine with three threads: 4096 runs, 8192 (the idle thread) is blocked, 12288 is ready.\<close>

definition sample_task :: "task_status \<Rightarrow> task" where
  "sample_task st = \<lparr>self_kstack = 0, pid = 1, status = st, tname = [], priority = 2, ticks = 2,
     elapsed_ticks = 0, fd_table = [0, 1, 2, -1, -1, -1, -1, -1], pgdir = 0, cwd_inode_no = 0,
     parent_pid = -1, exit_status = 0, stack_magic = 0x19870916, resume_if = INTR_ON\<rparr>"

definition sample_sched :: ksched where
  "sample_sched = \<lparr>tasks = [4096 \<mapsto> sample_task TASK_RUNNING, 8192 \<mapsto> sample_task TASK_BLOCKED,
       12288 \<mapsto> sample_task TASK_READY],
     thread_ready_list = [12288], thread_all_list = [4096, 8192, 12288], running = 4096,
     idle_thread = 8192, main_thread = 4096, cpu_if = INTR_ON, cr3 = 0, esp0 = 0,
     addr_v2p = (\<lambda>a. a), total_ticks = 0\<rparr>"

lemma sample_sched_inv: "sched_inv sample_sched" and sample_magic: "magic_ok sample_sched"
proof -
  show "sched_inv sample_sched"
    by (auto simp: sched_inv_def sched_ok_def sample_sched_def stat_of_def sample_task_def)
  show "magic_ok sample_sched"
    by (auto simp: magic_ok_def sample_sched_def sample_task_def split: if_splits)
qed

text \<open>C12: A thread that blocks leaves the processor to the first ready thread, or to the idle thread
  when none is ready; no assertion of the scheduler fails and its invariant holds again.\<close>

theorem thread_block_schedules:
  assumes "sched_inv s" and "is_blocked_status stat"
    and "running s = idle_thread s \<longrightarrow> stat = TASK_BLOCKED"
  shows "\<exists>s'. thread_block stat s = Inr ((), s') \<and> sched_inv s' \<and>
    running s' # thread_ready_list s' =
      (if thread_ready_list s = [] then [idle_thread s] else thread_ready_list s) \<and>
    (running s' \<noteq> running s \<longrightarrow> stat_of s' (running s) = stat)"
  using thread_block_run [OF assms] by metis

theorem thread_block_schedules_witness:
  "\<exists>s'. thread_block TASK_WAITING sample_sched = Inr ((), s') \<and> running s' = 12288 \<and>
    stat_of s' 4096 = TASK_WAITING"
  using thread_block_schedules [of sample_sched TASK_WAITING] sample_sched_inv
  by (fastforce simp: is_blocked_status_def sample_sched_def)

text \<open>C29: Unblocking a blocked thread puts it at the head of the ready list as \<open>READY\<close>; the panic for
  a blocked thread in the ready list and the assertion cannot fire while the invariant holds, and
  the interrupt flag is as before.\<close>

theorem thread_unblock_correct:
  assumes "sched_inv s" and "t \<in> set (thread_all_list s)" and "is_blocked_status (stat_of s t)"
  shows "\<exists>s'. thread_unblock t s = Inr ((), s') \<and> sched_inv s' \<and> cpu_if s' = cpu_if s \<and>
    running s' = running s \<and> thread_ready_list s' = t # thread_ready_list s \<and> stat_of s' t = TASK_READY"
proof -
  have "sched_ok s" using assms(1) by (simp add: sched_inv_def)
  note u = unblocked_ok [OF this assms(2,3)]
  have "t \<noteq> running s"
    using assms(1,3) by (auto simp: sched_inv_def is_blocked_status_def)
  with u assms(1) show ?thesis
    by (intro exI [of _ "unblocked t s"]) (simp add: sched_inv_def)
qed

theorem thread_unblock_correct_witness:
  "\<exists>s'. thread_unblock 8192 sample_sched = Inr ((), s') \<and> thread_ready_list s' = [8192, 12288]"
  using thread_unblock_correct [of sample_sched 8192] sample_sched_inv
  by (fastforce simp: is_blocked_status_def sample_sched_def stat_of_def sample_task_def)

text \<open>C9: Under timer interrupts alone every ready thread gets the processor after finitely many of
  them, and the scheduler's invariant holds when it does.\<close>

theorem ready_thread_runs:
  assumes "sched_inv s" and "magic_ok s" and "t \<in> set (thread_ready_list s)"
  shows "\<exists>n s'. timer_interrupts n s = Inr ((), s') \<and> sched_inv s' \<and> running s' = t"
  using ready_runs [OF assms(1,2)] assms(3) by (metis in_set_conv_nth)

theorem ready_thread_runs_witness:
  "\<exists>n s'. timer_interrupts n sample_sched = Inr ((), s') \<and> running s' = 12288"
proof -
  have "12288 \<in> set (thread_ready_list sample_sched)" by (simp add: sample_sched_def)
  from ready_thread_runs [OF sample_sched_inv sample_magic this] show ?thesis by blast
qed

text \<open>\<open>thread_yield\<close> rotates the running thread and the ready list by one.\<close>

theorem thread_yield_rotates:
  assumes "sched_inv s"
  shows "\<exists>s'. thread_yield s = Inr ((), s') \<and> sched_inv s' \<and>
    running s' # thread_ready_list s' = thread_ready_list s @ [running s]"
  using thread_yield_run [OF assms] by metis

theorem thread_yield_rotates_witness:
  "\<exists>s'. thread_yield sample_sched = Inr ((), s') \<and> running s' = 12288 \<and> thread_ready_list s' = [4096]"
  using thread_yield_rotates [OF sample_sched_inv] by (fastforce simp: sample_sched_def)

end
