(* ===== verification/Sync.thy ===== *)
theory Sync
  imports Sched
begin

text \<open>
  \<open>thread/sync.c\<close>: binary semaphores and the re-entrant lock built from them, on top of the
  scheduler. The operations of \<open>sync.c\<close> are cut where a thread can lose the processor: where
  it blocks, and, outside the sections that run with interrupts off, at every access to the
  shared lock. \<open>lock_exec\<close> runs the next such segment of the running thread; \<open>lstep\<close> is the
  system of any number of threads that take and release one lock, interleaved by the timer.
\<close>

section \<open>Semaphores and locks\<close>

record semaphore =
  sema_value :: u8
  waiters :: "tid list"

record lock =
  holder :: tid
  sema :: semaphore
  holder_repeat_nr :: u32

definition sema_init :: "u8 \<Rightarrow> semaphore" where
  "sema_init v = \<lparr>sema_value = v, waiters = []\<rparr>"

definition lock_init :: lock where
  "lock_init = \<lparr>holder = 0, sema = sema_init 1, holder_repeat_nr = 0\<rparr>"

text \<open>
  One pass of the loop of \<open>sema_down\<close>: \<open>True\<close> when the thread has entered the waiting list and
  must block (the loop condition is tested again when it wakes up), \<open>False\<close> when it has taken
  the semaphore.
\<close>

definition sema_down_pass :: "tid \<Rightarrow> semaphore \<Rightarrow> (bool \<times> semaphore) res" where
  "sema_down_pass cur psema =
     (if sema_value psema = 0
      then rbind (rassert ''!elem_find(&psema->waiters, &running_thread()->general_tag)''
                    (cur \<notin> set (waiters psema))) (\<lambda>_.
           if cur \<in> set (waiters psema)
           then Inl (Panic ''sema_down: thread blocked has been in waiters_list'')
           else Inr (True, psema\<lparr>waiters := waiters psema @ [cur]\<rparr>))
      else rbind (rassert ''psema->value == 0'' (sema_value psema - 1 = 0)) (\<lambda>_.
           Inr (False, psema\<lparr>sema_value := sema_value psema - 1\<rparr>)))"

text \<open>\<open>sema_up\<close> answers the thread that it unblocks.\<close>

definition sema_up :: "semaphore \<Rightarrow> (tid option \<times> semaphore) res" where
  "sema_up psema =
     rbind (rassert ''psema->value == 0'' (sema_value psema = 0)) (\<lambda>_.
     let woken = (case waiters psema of [] \<Rightarrow> None | t # ts \<Rightarrow> Some t);
         psema' = psema\<lparr>waiters := tl (waiters psema), sema_value := sema_value psema + 1\<rparr>
     in rbind (rassert ''psema->value == 1'' (sema_value psema' = 1)) (\<lambda>_. Inr (woken, psema')))"

section \<open>The segments of the lock's operations\<close>

text \<open>
  Where a thread stands. The number is how often it holds the lock. \<open>Acquire\<close> is the entry of
  \<open>lock_acquire\<close>, \<open>Down\<close> the entry of \<open>sema_down\<close>, \<open>Waiting\<close> its loop after a block (with the
  \<open>old_status\<close> it will restore), \<open>Acq_holder\<close> and \<open>Acq_count\<close> the two stores after it;
  \<open>Release\<close> is the entry of \<open>lock_release\<close>, \<open>Rel_holder\<close>, \<open>Rel_count\<close> and \<open>Rel_up\<close> its last
  three statements.
\<close>

datatype pc =
  Outside | Inside nat | Acquire nat | Down | Waiting intr_status | Acq_holder | Acq_count |
  Release nat | Rel_holder | Rel_count | Rel_up

record lsys = ksched +
  lk :: lock
  pcs :: "tid \<Rightarrow> pc"

definition set_pc :: "tid \<Rightarrow> pc \<Rightarrow> (lsys, unit) km" where
  "set_pc t p = modify (\<lambda>s. s\<lparr>pcs := (pcs s)(t := p)\<rparr>)"

definition set_lk :: "lock \<Rightarrow> (lsys, unit) km" where
  "set_lk l = modify (\<lambda>s. s\<lparr>lk := l\<rparr>)"

definition lock_acquire_entry :: "tid \<Rightarrow> nat \<Rightarrow> lock \<Rightarrow> (lsys, unit) km" where
  "lock_acquire_entry cur n plock =
     (if holder plock \<noteq> cur then set_pc cur Down
      else bnd (set_lk (plock\<lparr>holder_repeat_nr := holder_repeat_nr plock + 1\<rparr>)) (\<lambda>_.
           set_pc cur (Inside (Suc n))))"

definition sema_down_loop :: "tid \<Rightarrow> intr_status \<Rightarrow> lock \<Rightarrow> (lsys, unit) km" where
  "sema_down_loop cur old_status plock =
     bnd (liftr (sema_down_pass cur (sema plock))) (\<lambda>(blocks, psema).
     bnd (set_lk (plock\<lparr>sema := psema\<rparr>)) (\<lambda>_.
     if blocks
     then bnd (set_pc cur (Waiting old_status)) (\<lambda>_. thread_block TASK_BLOCKED)
     else bnd (set_pc cur Acq_holder) (\<lambda>_. irq_set_status old_status)))"

definition lock_release_entry :: "tid \<Rightarrow> nat \<Rightarrow> lock \<Rightarrow> (lsys, unit) km" where
  "lock_release_entry cur n plock =
     bnd (kassert ''plock->holder == running_thread()'' (holder plock = cur)) (\<lambda>_.
     if holder_repeat_nr plock > 1
     then bnd (set_lk (plock\<lparr>holder_repeat_nr := holder_repeat_nr plock - 1\<rparr>)) (\<lambda>_.
          set_pc cur (Inside (n - 1)))
     else bnd (kassert ''plock->holder_repeat_nr == 1'' (holder_repeat_nr plock = 1)) (\<lambda>_.
          set_pc cur Rel_holder))"

definition lock_release_up :: "tid \<Rightarrow> lock \<Rightarrow> (lsys, unit) km" where
  "lock_release_up cur plock =
     bnd irq_disable (\<lambda>old_status.
     bnd (liftr (sema_up (sema plock))) (\<lambda>(woken, psema).
     bnd (case woken of None \<Rightarrow> ret () | Some t \<Rightarrow> thread_unblock t) (\<lambda>_.
     bnd (set_lk (plock\<lparr>sema := psema\<rparr>)) (\<lambda>_.
     bnd (set_pc cur Outside) (\<lambda>_.
     irq_set_status old_status)))))"

definition lock_exec :: "(lsys, unit) km" where
  "lock_exec =
     bnd (gets running) (\<lambda>cur.
     bnd (gets lk) (\<lambda>plock.
     bnd (gets (\<lambda>s. pcs s cur)) (\<lambda>p. case p of
       Acquire n \<Rightarrow> lock_acquire_entry cur n plock
     | Down \<Rightarrow> bnd irq_disable (\<lambda>old_status. sema_down_loop cur old_status plock)
     | Waiting old_status \<Rightarrow> sema_down_loop cur old_status plock
     | Acq_holder \<Rightarrow> bnd (set_lk (plock\<lparr>holder := cur\<rparr>)) (\<lambda>_. set_pc cur Acq_count)
     | Acq_count \<Rightarrow>
         bnd (kassert ''plock->holder_repeat_nr == 0'' (holder_repeat_nr plock = 0)) (\<lambda>_.
         bnd (set_lk (plock\<lparr>holder_repeat_nr := 1\<rparr>)) (\<lambda>_. set_pc cur (Inside 1)))
     | Release n \<Rightarrow> lock_release_entry cur n plock
     | Rel_holder \<Rightarrow> bnd (set_lk (plock\<lparr>holder := 0\<rparr>)) (\<lambda>_. set_pc cur Rel_count)
     | Rel_count \<Rightarrow> bnd (set_lk (plock\<lparr>holder_repeat_nr := 0\<rparr>)) (\<lambda>_. set_pc cur Rel_up)
     | Rel_up \<Rightarrow> lock_release_up cur plock
     | _ \<Rightarrow> ret ())))"

text \<open>
  The system. A thread outside or inside the lock may ask for it (again), a holder may release
  it; a thread outside may sleep for another reason and be woken; the timer interrupts whenever
  interrupts are on; the idle thread only blocks. Nesting stays below what the counter holds.
\<close>

inductive lstep :: "lsys \<Rightarrow> lsys \<Rightarrow> bool" where
  ask: "pcs s (running s) = Outside \<Longrightarrow> running s \<noteq> idle_thread s \<Longrightarrow>
     lstep s (s\<lparr>pcs := (pcs s)(running s := Acquire 0)\<rparr>)"
| ask_again: "pcs s (running s) = Inside n \<Longrightarrow> Suc n < 2 ^ 32 \<Longrightarrow>
     lstep s (s\<lparr>pcs := (pcs s)(running s := Acquire n)\<rparr>)"
| release: "pcs s (running s) = Inside n \<Longrightarrow> lstep s (s\<lparr>pcs := (pcs s)(running s := Release n)\<rparr>)"
| exec: "lock_exec s = Inr ((), s') \<Longrightarrow> lstep s s'"
| timer: "cpu_if s = INTR_ON \<Longrightarrow> timer_interrupt s = Inr ((), s') \<Longrightarrow> lstep s s'"
| sleep: "pcs s (running s) = Outside \<Longrightarrow> running s \<noteq> idle_thread s \<Longrightarrow>
     thread_block TASK_WAITING s = Inr ((), s') \<Longrightarrow> lstep s s'"
| wake: "t \<in> set (thread_all_list s) \<Longrightarrow> stat_of s t = TASK_WAITING \<Longrightarrow>
     thread_unblock t s = Inr ((), s') \<Longrightarrow> lstep s s'"
| idle: "running s = idle_thread s \<Longrightarrow> thread_block TASK_BLOCKED s = Inr ((), s') \<Longrightarrow> lstep s s'"

text \<open>The start: a free lock, every thread outside.\<close>

definition linit :: "lsys \<Rightarrow> bool" where
  "linit s \<longleftrightarrow> sched_inv s \<and> magic_ok s \<and> lk s = lock_init \<and> (\<forall>t. pcs s t = Outside)"

inductive reach :: "lsys \<Rightarrow> bool" where
  start: "linit s \<Longrightarrow> reach s"
| step: "reach s \<Longrightarrow> lstep s s' \<Longrightarrow> reach s'"

section \<open>The invariant\<close>

text \<open>Who owns the lock (has taken the semaphore), and what the lock's fields are then.\<close>

fun lock_view :: "tid \<Rightarrow> pc \<Rightarrow> (tid \<times> nat) option" where
  "lock_view t (Inside n) = (if 0 < n then Some (t, n) else None)"
| "lock_view t (Acquire n) = (if 0 < n then Some (t, n) else None)"
| "lock_view t (Release n) = (if 0 < n then Some (t, n) else None)"
| "lock_view t Acq_holder = Some (0, 0)"
| "lock_view t Acq_count = Some (t, 0)"
| "lock_view t Rel_holder = Some (t, 1)"
| "lock_view t Rel_count = Some (0, 1)"
| "lock_view t Rel_up = Some (0, 0)"
| "lock_view t _ = None"

definition lock_ok :: "lock \<Rightarrow> (tid \<Rightarrow> pc) \<Rightarrow> bool" where
  "lock_ok l ps \<longleftrightarrow>
     (if \<forall>t. lock_view t (ps t) = None
      then sema_value (sema l) = 1 \<and> holder l = 0 \<and> holder_repeat_nr l = 0
      else sema_value (sema l) = 0 \<and>
        (\<exists>t. lock_view t (ps t) = Some (holder l, unat (holder_repeat_nr l)) \<and>
          (\<forall>u. u \<noteq> t \<longrightarrow> lock_view u (ps u) = None)))"

lemma stat_of_upds [simp]:
  "stat_of (s\<lparr>lk := l\<rparr>) t = stat_of s t" "stat_of (s\<lparr>pcs := ps\<rparr>) t = stat_of s t"
  "stat_of (s\<lparr>cpu_if := st\<rparr>) t = stat_of s t"
  by (simp_all add: stat_of_def)

fun is_waiting :: "pc \<Rightarrow> bool" where
  "is_waiting (Waiting st) \<longleftrightarrow> True"
| "is_waiting p \<longleftrightarrow> False"

definition pc_ok :: "lsys \<Rightarrow> bool" where
  "pc_ok s \<longleftrightarrow> (\<forall>t. (pcs s t \<noteq> Outside \<longrightarrow> t \<in> set (thread_all_list s) \<and> t \<noteq> idle_thread s) \<and>
     pcs s t \<noteq> Inside 0 \<and> pcs s t \<noteq> Release 0 \<and>
     (\<forall>n. pcs s t = Acquire n \<longrightarrow> Suc n < 2 ^ 32))"

text \<open>
  Who waits: the waiting list holds blocked threads that stand in the loop of \<open>sema_down\<close>; a
  thread anywhere between \<open>lock_acquire\<close> and \<open>lock_release\<close> stands in that loop and is in the
  list, or can run. When the lock is free and somebody waits for it, somebody who can run is on
  the way to it.
\<close>

definition wait_ok :: "lsys \<Rightarrow> bool" where
  "wait_ok s \<longleftrightarrow>
     (let ws = waiters (sema (lk s)) in distinct ws \<and>
       (\<forall>t \<in> set ws. is_waiting (pcs s t) \<and> stat_of s t = TASK_BLOCKED) \<and>
       (\<forall>t. pcs s t \<noteq> Outside \<longrightarrow>
          is_waiting (pcs s t) \<and> t \<in> set ws \<or> stat_of s t \<in> {TASK_READY, TASK_RUNNING}) \<and>
       (sema_value (sema (lk s)) = 1 \<and> ws \<noteq> [] \<longrightarrow> (\<exists>t. is_waiting (pcs s t) \<and> t \<notin> set ws)))"

definition linv :: "lsys \<Rightarrow> bool" where
  "linv s \<longleftrightarrow> sched_inv s \<and> magic_ok s \<and> lock_ok (lk s) (pcs s) \<and> pc_ok s \<and> wait_ok s"

text \<open>What a step of the scheduler does to the status of a thread it is not about.\<close>

definition kept :: "lsys \<Rightarrow> lsys \<Rightarrow> tid \<Rightarrow> bool" where
  "kept s s' t \<longleftrightarrow>
     (stat_of s t = TASK_BLOCKED \<longrightarrow> stat_of s' t = TASK_BLOCKED) \<and>
     (stat_of s t \<in> {TASK_READY, TASK_RUNNING} \<longrightarrow> stat_of s' t \<in> {TASK_READY, TASK_RUNNING})"

lemma more_lsys: "ksched.more s' = ksched.more s \<Longrightarrow> lk s' = lk s \<and> pcs s' = pcs (s :: lsys)"
  by (cases s; cases s') simp

lemma block_kept:
  assumes inv: "sched_inv s" and stat: "is_blocked_status stat"
    and idle: "running s = idle_thread s \<longrightarrow> stat = TASK_BLOCKED"
    and run: "thread_block stat s = Inr ((), s')"
  shows "sched_inv s'" and "magic_ok s \<Longrightarrow> magic_ok s'" and "lk s' = lk s" and "pcs s' = pcs s"
    and "thread_all_list s' = thread_all_list s" and "idle_thread s' = idle_thread s"
    and "\<And>t. t \<in> set (thread_all_list s) \<Longrightarrow> t \<noteq> idle_thread s \<Longrightarrow> t \<noteq> running s \<Longrightarrow> kept s s' t"
    and "running s \<noteq> idle_thread s \<Longrightarrow> stat_of s' (running s) = stat"
proof -
  from thread_block_run [OF inv stat idle] run
  have s': "sched_inv s'" "running s' # thread_ready_list s' =
      (if thread_ready_list s = [] then [idle_thread s] else thread_ready_list s)"
    "thread_all_list s' = thread_all_list s" "idle_thread s' = idle_thread s"
    "\<And>t. t \<noteq> running s \<Longrightarrow> t \<noteq> running s' \<Longrightarrow> tasks s' t = tasks s t"
    "running s' \<noteq> running s \<Longrightarrow> stat_of s' (running s) = stat"
    "ksched.more s' = ksched.more s" "magic_ok s \<Longrightarrow> magic_ok s'"
    by (metis Inr_inject prod.inject)+
  then show "sched_inv s'" "magic_ok s \<Longrightarrow> magic_ok s'" "lk s' = lk s" "pcs s' = pcs s"
    "thread_all_list s' = thread_all_list s" "idle_thread s' = idle_thread s"
    using more_lsys by blast+
  have new: "running s' = idle_thread s \<or> stat_of s (running s') = TASK_READY"
    using s'(2) inv unfolding sched_inv_def sched_ok_def
    by (metis list.sel(1) list.set_sel(1))
  show "kept s s' t" if "t \<in> set (thread_all_list s)" "t \<noteq> idle_thread s" "t \<noteq> running s" for t
  proof (cases "t = running s'")
    case True
    with new that s'(1) show ?thesis by (simp add: kept_def sched_inv_def)
  next
    case False
    with s'(5) [OF that(3)] show ?thesis by (simp add: kept_def stat_of_def)
  qed
  show "stat_of s' (running s) = stat" if "running s \<noteq> idle_thread s"
    using new that inv s'(6)
    by (cases "running s' = running s") (auto simp: sched_inv_def)
qed

lemma timer_kept:
  assumes inv: "sched_inv s" and magic: "magic_ok s" and run: "timer_interrupt s = Inr ((), s')"
  shows "sched_inv s'" and "magic_ok s'" and "lk s' = lk s" and "pcs s' = pcs s"
    and "thread_all_list s' = thread_all_list s" and "idle_thread s' = idle_thread s"
    and "t \<in> set (thread_all_list s) \<Longrightarrow> kept s s' t"
proof -
  from timer_interrupt_run [OF inv magic] run
  have s': "sched_inv s'" "magic_ok s'" "thread_all_list s' = thread_all_list s"
    "idle_thread s' = idle_thread s"
    "if ticks_of s (running s) = 0
      then running s' # thread_ready_list s' = thread_ready_list s @ [running s]
      else running s' = running s \<and> thread_ready_list s' = thread_ready_list s \<and>
        ticks_of s' (running s) = ticks_of s (running s) - 1"
    "\<And>t. t \<noteq> running s \<Longrightarrow> t \<noteq> running s' \<Longrightarrow> tasks s' t = tasks s t"
    "ksched.more s' = ksched.more s"
    by (metis Inr_inject prod.inject)+
  then show "sched_inv s'" "magic_ok s'" "lk s' = lk s" "pcs s' = pcs s"
    "thread_all_list s' = thread_all_list s" "idle_thread s' = idle_thread s"
    using more_lsys by blast+
  have ready: "u \<in> set (running s' # thread_ready_list s') \<longleftrightarrow> u \<in> set (running s # thread_ready_list s)"
    for u using s'(5) by (auto split: if_splits) (metis Un_iff list.set_intros set_append set_ConsD empty_iff list.set(1))+
  show "kept s s' t" if "t \<in> set (thread_all_list s)"
  proof (cases "t \<in> set (running s # thread_ready_list s)")
    case True
    then have "stat_of s t \<in> {TASK_READY, TASK_RUNNING}"
      using inv by (auto simp: sched_inv_def sched_ok_def)
    moreover from True ready [of t] have "stat_of s' t \<in> {TASK_READY, TASK_RUNNING}"
      using s'(1) by (auto simp: sched_inv_def sched_ok_def)
    ultimately show ?thesis by (auto simp: kept_def)
  next
    case False
    with ready [of t] have "tasks s' t = tasks s t" by (intro s'(6)) auto
    then show ?thesis by (simp add: kept_def stat_of_def)
  qed
qed

section \<open>How the lock changes hands\<close>

lemma lock_ok_owner:
  assumes "lock_ok l ps" and "lock_view t (ps t) = Some v"
  shows "sema_value (sema l) = 0" and "v = (holder l, unat (holder_repeat_nr l))"
    and "\<And>u. u \<noteq> t \<Longrightarrow> lock_view u (ps u) = None"
  using assms by (auto simp: lock_ok_def split: if_splits) (metis option.distinct(1) option.inject)+

lemma lock_ok_owned:
  assumes "lock_ok l ps" and "lock_view t (ps t) \<noteq> None"
    and "lock_view t p = Some (holder l', unat (holder_repeat_nr l'))"
    and "sema_value (sema l') = sema_value (sema l)"
  shows "lock_ok l' (ps(t := p))"
proof -
  from assms(2) obtain v where "lock_view t (ps t) = Some v" by blast
  from lock_ok_owner [OF assms(1) this] assms(3,4) show ?thesis
    by (auto simp: lock_ok_def intro!: exI [of _ t])
qed

lemma lock_ok_other:
  assumes "lock_ok l ps" and "lock_view t (ps t) = None" and "lock_view t p = None"
    and "sema_value (sema l') = sema_value (sema l)" and "holder l' = holder l"
    and "holder_repeat_nr l' = holder_repeat_nr l"
  shows "lock_ok l' (ps(t := p))"
proof -
  have eq: "lock_view u ((ps(t := p)) u) = lock_view u (ps u)" for u
    using assms(2,3) by simp
  show ?thesis
    using assms(1,4-6) unfolding lock_ok_def eq by simp
qed

lemma lock_ok_take:
  assumes "lock_ok l ps" and "sema_value (sema l) \<noteq> 0" and "lock_view t p = Some (0, 0)"
    and "sema_value (sema l') = 0" and "holder l' = holder l"
    and "holder_repeat_nr l' = holder_repeat_nr l"
  shows "lock_ok l' (ps(t := p))" and "sema_value (sema l) = 1" and "\<And>u. lock_view u (ps u) = None"
proof -
  from assms(1,2) have free: "\<forall>u. lock_view u (ps u) = None" "sema_value (sema l) = 1"
    "holder l = 0" "holder_repeat_nr l = 0"
    by (auto simp: lock_ok_def split: if_splits)
  then show "sema_value (sema l) = 1" "\<And>u. lock_view u (ps u) = None" by simp_all
  show "lock_ok l' (ps(t := p))"
    using free assms(3-) by (auto simp: lock_ok_def intro!: exI [of _ t])
qed

lemma lock_ok_give:
  assumes "lock_ok l ps" and "lock_view t (ps t) = Some (0, 0)" and "lock_view t p = None"
    and "sema_value (sema l') = 1" and "holder l' = holder l"
    and "holder_repeat_nr l' = holder_repeat_nr l"
  shows "lock_ok l' (ps(t := p))"
  using lock_ok_owner [OF assms(1,2)] assms(3-) by (auto simp: lock_ok_def unat_eq_zero)

lemma linvD:
  assumes "linv s"
  shows "sched_inv s" and "magic_ok s" and "lock_ok (lk s) (pcs s)" and "pc_ok s" and "wait_ok s"
  using assms by (simp_all add: linv_def)

lemma waiting_not_out: "is_waiting p \<Longrightarrow> p \<noteq> Outside"
  by auto

text \<open>A step of the scheduler alone.\<close>

lemma linv_sched:
  assumes inv: "linv s" and "sched_inv s'" and "magic_ok s'" and "lk s' = lk s" and "pcs s' = pcs s"
    and "thread_all_list s' = thread_all_list s" and "idle_thread s' = idle_thread s"
    and kept: "\<And>t. pcs s t \<noteq> Outside \<Longrightarrow> kept s s' t"
  shows "linv s'"
proof -
  note W = linvD(5) [OF inv, unfolded wait_ok_def Let_def]
  have "wait_ok s'"
    unfolding wait_ok_def Let_def assms(4,5)
  proof (intro conjI)
    show "\<forall>t \<in> set (waiters (sema (lk s))). is_waiting (pcs s t) \<and> stat_of s' t = TASK_BLOCKED"
      using W kept waiting_not_out unfolding kept_def by blast
    show "\<forall>t. pcs s t \<noteq> Outside \<longrightarrow> is_waiting (pcs s t) \<and> t \<in> set (waiters (sema (lk s))) \<or>
        stat_of s' t \<in> {TASK_READY, TASK_RUNNING}"
      using W kept unfolding kept_def by blast
  qed (use W in blast)+
  with assms linvD [OF inv] show ?thesis by (simp add: linv_def pc_ok_def)
qed

text \<open>A step of the running thread on the lock that nobody waits in.\<close>

lemma linv_lock:
  assumes inv: "linv s" and cur: "cur = running s" and out: "cur \<noteq> idle_thread s"
    and lk: "lock_ok l ((pcs s)(cur := p))"
    and sem: "sema l = sema (lk s)"
    and p: "\<not> is_waiting (pcs s cur)" "\<not> is_waiting p" "p \<noteq> Inside 0" "p \<noteq> Release 0"
      "\<And>n. p = Acquire n \<Longrightarrow> Suc n < 2 ^ 32"
  shows "linv (s\<lparr>lk := l, pcs := (pcs s)(cur := p)\<rparr>)"
proof -
  note W = linvD(5) [OF inv, unfolded wait_ok_def Let_def]
  let ?s = "s\<lparr>lk := l, pcs := (pcs s)(cur := p)\<rparr>"
  have "sched_inv ?s"
    using linvD(1) [OF inv] by (subst sched_ok_cong(2) [of _ s]) (simp_all add: stat_of_def)
  moreover have "magic_ok ?s" using linvD(2) [OF inv] by (simp add: magic_ok_def)
  moreover have "cur \<in> set (thread_all_list s)"
    using linvD(1) [OF inv] cur by (simp add: sched_inv_def sched_ok_def)
  then have "pc_ok ?s" using linvD(4) [OF inv] p out by (auto simp: pc_ok_def)
  moreover have "wait_ok ?s"
  proof -
    have st: "stat_of ?s t = stat_of s t" for t by (simp add: stat_of_def)
    have w: "is_waiting (pcs ?s t) \<longleftrightarrow> is_waiting (pcs s t)" for t
      using p(1,2) by simp
    have run: "stat_of s cur = TASK_RUNNING"
      using linvD(1) [OF inv] cur by (simp add: sched_inv_def)
    show ?thesis
      unfolding wait_ok_def Let_def st w using W run by (auto simp: sem)
  qed
  ultimately show ?thesis using lk by (simp add: linv_def)
qed

lemma bnd_set_pc [simp]: "bnd (set_pc t p) f s = f () (s\<lparr>pcs := (pcs s)(t := p)\<rparr>)"
  by (simp add: set_pc_def)

lemma set_pc_run [simp]: "set_pc t p s = Inr ((), s\<lparr>pcs := (pcs s)(t := p)\<rparr>)"
  by (simp add: set_pc_def)

lemma bnd_set_lk [simp]: "bnd (set_lk l) f s = f () (s\<lparr>lk := l\<rparr>)"
  by (simp add: set_lk_def)

text \<open>The pass through \<open>sema_down\<close>, from its entry or after a wake-up.\<close>

lemma running_not_waiter:
  assumes "linv s"
  shows "running s \<notin> set (waiters (sema (lk s)))" and "running s \<in> set (thread_all_list s)"
  using linvD(1,5) [OF assms] by (auto simp: wait_ok_def Let_def sched_inv_def sched_ok_def)

lemma sema_down_loop_run:
  assumes inv: "linv s" and cur: "cur = running s" "cur \<noteq> idle_thread s"
    and view: "lock_view cur (pcs s cur) = None"
  shows "\<exists>s'. sema_down_loop cur st (lk s) s = Inr ((), s') \<and> linv s'"
proof (cases "sema_value (sema (lk s)) = 0")
  case True
  note notin = running_not_waiter [OF inv, folded cur(1)]
  let ?ws = "waiters (sema (lk s)) @ [cur]"
  define l where "l = (lk s)\<lparr>sema := (sema (lk s))\<lparr>waiters := ?ws\<rparr>\<rparr>"
  define s1 where "s1 = s\<lparr>lk := l, pcs := (pcs s)(cur := Waiting st)\<rparr>"
  have run: "sema_down_loop cur st (lk s) s = thread_block TASK_BLOCKED s1"
    using True notin by (simp add: sema_down_loop_def sema_down_pass_def s1_def l_def)
  have s1: "thread_all_list s1 = thread_all_list s" "idle_thread s1 = idle_thread s"
    "running s1 = cur" "stat_of s1 t = stat_of s t" "tasks s1 = tasks s"
    "thread_ready_list s1 = thread_ready_list s" for t
    using cur by (simp_all add: s1_def stat_of_def)
  have inv1: "sched_inv s1" and magic1: "magic_ok s1"
    using linvD(1,2) [OF inv] cur(1) by (simp_all add: sched_inv_def sched_ok_def s1 magic_ok_def)
  obtain s' where s': "thread_block TASK_BLOCKED s1 = Inr ((), s')"
    using thread_block_run [OF inv1, of TASK_BLOCKED] by (auto simp: is_blocked_status_def)
  have "is_blocked_status TASK_BLOCKED" by (simp add: is_blocked_status_def)
  note K = block_kept [OF inv1 this _ s', simplified s1]
  have view': "lock_view cur (Waiting st) = None" by simp
  have "lock_ok l ((pcs s)(cur := Waiting st))"
    by (rule lock_ok_other [OF linvD(3) [OF inv] view view']) (simp_all add: l_def)
  moreover have "pc_ok s'"
    using linvD(4) [OF inv] notin(2) cur by (auto simp: pc_ok_def K(4-6) s1_def)
  moreover have "wait_ok s'"
  proof -
    note W = linvD(5) [OF inv, unfolded wait_ok_def Let_def]
    have in_all: "t \<in> set (thread_all_list s) \<and> t \<noteq> idle_thread s" if "pcs s t \<noteq> Outside" for t
      using linvD(4) [OF inv] that by (auto simp: pc_ok_def)
    have kept: "kept s1 s' t" if "pcs s t \<noteq> Outside" "t \<noteq> cur" for t
      using K(7) in_all [OF that(1)] that(2) by simp
    have blocked: "stat_of s' cur = TASK_BLOCKED" using K(8) cur(2) by simp
    have lk': "lk s' = l" "pcs s' = (pcs s)(cur := Waiting st)"
      using K(3,4) by (simp_all add: s1_def)
    show ?thesis
      unfolding wait_ok_def Let_def lk'
    proof (intro conjI)
      show "distinct (waiters (sema l))" using W notin(1) by (simp add: l_def)
      show "\<forall>t \<in> set (waiters (sema l)).
          is_waiting (((pcs s)(cur := Waiting st)) t) \<and> stat_of s' t = TASK_BLOCKED"
        using W blocked kept waiting_not_out by (fastforce simp: l_def kept_def s1)
      show "\<forall>t. ((pcs s)(cur := Waiting st)) t \<noteq> Outside \<longrightarrow>
          is_waiting (((pcs s)(cur := Waiting st)) t) \<and> t \<in> set (waiters (sema l)) \<or>
          stat_of s' t \<in> {TASK_READY, TASK_RUNNING}"
      proof (intro allI impI)
        fix t assume t: "((pcs s)(cur := Waiting st)) t \<noteq> Outside"
        show "is_waiting (((pcs s)(cur := Waiting st)) t) \<and> t \<in> set (waiters (sema l)) \<or>
            stat_of s' t \<in> {TASK_READY, TASK_RUNNING}"
        proof (cases "t = cur")
          case False
          with t have "pcs s t \<noteq> Outside" by simp
          with W kept [OF this False] False show ?thesis by (auto simp: l_def kept_def s1)
        qed (simp add: l_def)
      qed
    qed (use True in \<open>simp add: l_def\<close>)
  qed
  ultimately show ?thesis
    using run s' K(1,3,4) K(2) [OF _ magic1] by (auto simp: linv_def s1_def)
next
  case False
  note take = lock_ok_take [OF linvD(3) [OF inv] False, of cur Acq_holder "(lk s)\<lparr>sema := (sema (lk s))\<lparr>sema_value := 0\<rparr>\<rparr>", simplified]
  let ?s = "s\<lparr>lk := (lk s)\<lparr>sema := (sema (lk s))\<lparr>sema_value := 0\<rparr>\<rparr>, pcs := (pcs s)(cur := Acq_holder), cpu_if := st\<rparr>"
  have "sema_down_loop cur st (lk s) s = Inr ((), ?s)"
    using take(2) by (simp add: sema_down_loop_def sema_down_pass_def)
  moreover have "linv ?s"
  proof -
    note W = linvD(5) [OF inv, unfolded wait_ok_def Let_def]
    note notin = running_not_waiter [OF inv, folded cur(1)]
    have st: "stat_of ?s t = stat_of s t" for t by (simp add: stat_of_def)
    have "wait_ok ?s"
      unfolding wait_ok_def Let_def st
      using W notin(1) linvD(1) [OF inv] cur(1) by (auto simp: sched_inv_def)
    moreover have "sched_inv ?s" "magic_ok ?s"
      using linvD(1,2) [OF inv] by (simp_all add: sched_inv_def sched_ok_def st magic_ok_def)
    moreover have "pc_ok ?s" using linvD(4) [OF inv] notin(2) cur by (auto simp: pc_ok_def)
    ultimately show ?thesis using take(1) by (simp add: linv_def)
  qed
  ultimately show ?thesis by blast
qed

lemma lock_release_up_run:
  assumes inv: "linv s" and cur: "cur = running s" and pc: "pcs s cur = Rel_up"
  shows "\<exists>s'. lock_release_up cur (lk s) s = Inr ((), s') \<and> linv s'"
proof -
  let ?sem = "sema (lk s)"
  have view: "lock_view cur (pcs s cur) = Some (0, 0)" by (simp add: pc)
  have v0: "sema_value ?sem = 0"
    by (rule lock_ok_owner(1) [OF linvD(3) [OF inv] view])
  define l where "l = (lk s)\<lparr>sema := ?sem\<lparr>waiters := tl (waiters ?sem), sema_value := 1\<rparr>\<rparr>"
  have lock: "lock_ok l ((pcs s)(cur := Outside))"
    by (rule lock_ok_give [OF linvD(3) [OF inv] view]) (simp_all add: l_def)
  note W = linvD(5) [OF inv, unfolded wait_ok_def Let_def]
  have curout: "\<not> is_waiting (pcs s cur)" by (simp add: pc)
  show ?thesis
  proof (cases "waiters ?sem")
    case Nil
    let ?s = "s\<lparr>lk := l, pcs := (pcs s)(cur := Outside)\<rparr>"
    have st: "stat_of ?s t = stat_of s t" for t by (simp add: stat_of_def)
    have "lock_release_up cur (lk s) s = Inr ((), ?s)"
      using Nil v0 by (simp add: lock_release_up_def sema_up_def Let_def l_def)
    moreover have "wait_ok ?s"
      unfolding wait_ok_def Let_def st using W Nil curout by (auto simp: l_def)
    moreover have "sched_inv ?s" "magic_ok ?s"
      using linvD(1,2) [OF inv] by (simp_all add: sched_inv_def sched_ok_def st magic_ok_def)
    moreover have "pc_ok ?s" using linvD(4) [OF inv] by (auto simp: pc_ok_def)
    ultimately show ?thesis using lock by (auto simp: linv_def)
  next
    case (Cons t ts)
    define s1 where "s1 = s\<lparr>cpu_if := INTR_OFF\<rparr>"
    let ?u = "unblocked t s1"
    let ?s = "?u\<lparr>lk := l, pcs := (pcs s)(cur := Outside), cpu_if := cpu_if s\<rparr>"
    have t: "is_waiting (pcs s t)" "stat_of s t = TASK_BLOCKED" "t \<notin> set ts" "t \<noteq> cur"
      using W Cons curout by auto
    have t_all: "t \<in> set (thread_all_list s)"
      using linvD(4) [OF inv] t(1) unfolding pc_ok_def by (metis is_waiting.simps(2))
    have st1: "stat_of s1 u = stat_of s u" for u by (simp add: s1_def stat_of_def)
    have ok1: "sched_ok s1"
      using linvD(1) [OF inv] by (simp add: sched_inv_def sched_ok_def st1) (simp add: s1_def)
    have u: "thread_unblock t s1 = Inr ((), ?u)" "sched_ok ?u"
      using unblocked_ok [OF ok1, of t] t_all t(2)
      by (simp_all add: st1 is_blocked_status_def) (simp_all add: s1_def)
    have "lk ?u = lk s" "pcs ?u = pcs s"
      using more_lsys [of ?u s1] by (simp_all add: s1_def)
    with u(1) have run: "lock_release_up cur (lk s) s = Inr ((), ?s)"
      using Cons v0 by (simp add: lock_release_up_def sema_up_def Let_def l_def bnd_Inr s1_def)
    have st: "stat_of ?s v = (if v = t then TASK_READY else stat_of s v)" for v
      using st1 by (simp add: stat_of_def s1_def unblocked_def)
    have curt: "t \<noteq> running s" using t(4) cur by simp
    have "wait_ok ?s"
      unfolding wait_ok_def Let_def using W Cons curout t by (auto simp: l_def st1)
    moreover have "sched_inv ?s"
      using u(2) linvD(1) [OF inv] curt
      by (simp add: sched_inv_def sched_ok_def st) (auto simp: s1_def st)
    moreover have "magic_ok ?s"
      using linvD(2) [OF inv] t_all linvD(1) [OF inv]
      by (auto simp: magic_ok_def s1_def sched_inv_def elim!: sched_okD)
    moreover have "pc_ok ?s" using linvD(4) [OF inv] by (auto simp: pc_ok_def s1_def)
    ultimately show ?thesis using run lock by (auto simp: linv_def)
  qed
qed

text \<open>Every segment runs without a failed assertion and keeps the invariant.\<close>

lemma cpu_if_inv: "linv (s\<lparr>cpu_if := st\<rparr>) \<longleftrightarrow> linv s"
proof -
  have "stat_of (s\<lparr>cpu_if := st\<rparr>) t = stat_of s t" for t by (simp add: stat_of_def)
  then show ?thesis
    by (simp add: linv_def sched_inv_def sched_ok_def magic_ok_def pc_ok_def wait_ok_def)
qed

lemma lock_exec_run:
  assumes inv: "linv s"
  shows "\<exists>s'. lock_exec s = Inr ((), s') \<and> linv s'"
proof -
  let ?cur = "running s"
  note pcok = linvD(4) [OF inv, unfolded pc_ok_def, rule_format, of ?cur]
  note own = lock_ok_owner [OF linvD(3) [OF inv], of ?cur]
  have goal: "\<exists>s'. lock_exec s = Inr ((), s') \<and> linv s'"
    if "lock_exec s = Inr ((), s\<lparr>lk := l, pcs := (pcs s)(?cur := p)\<rparr>)"
      "pcs s ?cur \<noteq> Outside" "\<not> is_waiting (pcs s ?cur)" "\<not> is_waiting p" "p \<noteq> Inside 0" "p \<noteq> Release 0"
      "\<And>n. p = Acquire n \<Longrightarrow> Suc n < 2 ^ 32" "sema l = sema (lk s)"
      "lock_ok l ((pcs s)(?cur := p))" for l p
    using linv_lock [OF inv refl _ that(9,8,3-7)] that(1,2) pcok by blast
  show ?thesis
  proof (cases "pcs s ?cur")
    case Outside
    with inv show ?thesis by (simp add: lock_exec_def)
  next
    case (Inside n)
    with inv show ?thesis by (simp add: lock_exec_def)
  next
    case (Acquire n)
    show ?thesis
    proof (cases "n = 0")
      case True
      have "holder (lk s) \<noteq> ?cur"
      proof
        assume h: "holder (lk s) = ?cur"
        have "?cur \<noteq> 0" using linvD(1) [OF inv] by (simp add: sched_inv_def sched_ok_def)
        with h linvD(3) [OF inv] obtain u where
          u: "lock_view u (pcs s u) = Some (?cur, unat (holder_repeat_nr (lk s)))"
          by (auto simp: lock_ok_def split: if_splits)
        with \<open>?cur \<noteq> 0\<close> have "u = ?cur" by (cases "pcs s u") (auto split: if_splits)
        with u Acquire True show False by simp
      qed
      then show ?thesis
        using Acquire True
        by (intro goal [where l = "lk s" and p = Down])
           (simp_all add: lock_exec_def lock_acquire_entry_def
             lock_ok_other [OF linvD(3) [OF inv]])
    next
      case False
      with Acquire have view: "lock_view ?cur (pcs s ?cur) = Some (?cur, n)" by simp
      from own [OF this] have h: "holder (lk s) = ?cur" "unat (holder_repeat_nr (lk s)) = n" by auto
      have "unat (holder_repeat_nr (lk s) + 1) = Suc n"
        using h(2) pcok Acquire by (subst unat_add_u32) auto
      with view h show ?thesis
        using Acquire
        by (intro goal [where l = "(lk s)\<lparr>holder_repeat_nr := holder_repeat_nr (lk s) + 1\<rparr>" and p = "Inside (Suc n)"])
           (simp_all add: lock_exec_def lock_acquire_entry_def lock_ok_owned [OF linvD(3) [OF inv]])
    qed
  next
    case Down
    have "lock_exec s = sema_down_loop ?cur (cpu_if s) (lk s) (s\<lparr>cpu_if := INTR_OFF\<rparr>)"
      using Down by (simp add: lock_exec_def)
    moreover have "linv (s\<lparr>cpu_if := INTR_OFF\<rparr>)" using inv by (simp add: cpu_if_inv)
    ultimately show ?thesis
      using sema_down_loop_run [of "s\<lparr>cpu_if := INTR_OFF\<rparr>" ?cur "cpu_if s"] Down pcok by simp
  next
    case (Waiting st)
    then have "lock_exec s = sema_down_loop ?cur st (lk s) s" by (simp add: lock_exec_def)
    then show ?thesis using sema_down_loop_run [OF inv refl] Waiting pcok by simp
  next
    case Acq_holder
    then show ?thesis
      using own by (intro goal [where l = "(lk s)\<lparr>holder := ?cur\<rparr>" and p = Acq_count])
        (simp_all add: lock_exec_def lock_ok_owned [OF linvD(3) [OF inv]] unat_eq_zero)
  next
    case Acq_count
    with own have "holder (lk s) = ?cur" "holder_repeat_nr (lk s) = 0"
      by (simp_all add: unat_eq_zero)
    then show ?thesis
      using Acq_count by (intro goal [where l = "(lk s)\<lparr>holder_repeat_nr := 1\<rparr>" and p = "Inside 1"])
        (simp_all add: lock_exec_def lock_ok_owned [OF linvD(3) [OF inv]])
  next
    case (Release n)
    then have pos: "0 < n" using pcok by (cases n) auto
    with Release have view: "lock_view ?cur (pcs s ?cur) = Some (?cur, n)" by simp
    from own [OF this] have h: "holder (lk s) = ?cur" "unat (holder_repeat_nr (lk s)) = n" by auto
    show ?thesis
    proof (cases "n = 1")
      case True
      with h have one: "holder_repeat_nr (lk s) = 1" by (intro u32_eqI) simp
      show ?thesis
        using Release True h one by (intro goal [where l = "lk s" and p = Rel_holder])
          (simp_all add: lock_exec_def lock_release_entry_def lock_ok_owned [OF linvD(3) [OF inv]])
    next
      case False
      with h pos have gt: "holder_repeat_nr (lk s) > 1" by (simp add: word_less_nat_alt)
      then have "unat (holder_repeat_nr (lk s) - 1) = n - 1"
        using h(2) by (subst unat_sub_u32) (simp_all add: word_less_nat_alt)
      with gt view h show ?thesis
        using Release False pos
        by (intro goal [where l = "(lk s)\<lparr>holder_repeat_nr := holder_repeat_nr (lk s) - 1\<rparr>" and p = "Inside (n - 1)"])
           (simp_all add: lock_exec_def lock_release_entry_def lock_ok_owned [OF linvD(3) [OF inv]])
    qed
  next
    case Rel_holder
    then show ?thesis
      using own by (intro goal [where l = "(lk s)\<lparr>holder := 0\<rparr>" and p = Rel_count])
        (simp_all add: lock_exec_def lock_ok_owned [OF linvD(3) [OF inv]])
  next
    case Rel_count
    then show ?thesis
      using own by (intro goal [where l = "(lk s)\<lparr>holder_repeat_nr := 0\<rparr>" and p = Rel_up])
        (simp_all add: lock_exec_def lock_ok_owned [OF linvD(3) [OF inv]])
  next
    case Rel_up
    then have "lock_exec s = lock_release_up ?cur (lk s) s" by (simp add: lock_exec_def)
    with lock_release_up_run [OF inv refl Rel_up] show ?thesis by simp
  qed
qed

lemma linit_linv: "linit s \<Longrightarrow> linv s"
  by (auto simp: linit_def linv_def lock_ok_def pc_ok_def wait_ok_def lock_init_def sema_init_def)

lemma out_in_all:
  "linv s \<Longrightarrow> pcs s t \<noteq> Outside \<Longrightarrow> t \<in> set (thread_all_list s) \<and> t \<noteq> idle_thread s"
  unfolding linv_def pc_ok_def by blast

lemma lstep_linv:
  assumes "lstep s s'" and inv: "linv s"
  shows "linv s'"
  using assms(1)
proof cases
  case ask
  have "lock_ok (lk s) ((pcs s)(running s := Acquire 0))"
    using ask by (intro lock_ok_other [OF linvD(3) [OF inv]]) simp_all
  with linv_lock [OF inv refl, of "lk s" "Acquire 0"] ask show ?thesis by simp
next
  case (ask_again n)
  then have "0 < n" using linvD(4) [OF inv] by (cases n) (auto simp: pc_ok_def)
  with ask_again have view: "lock_view (running s) (pcs s (running s)) = Some (running s, n)" by simp
  have "lock_ok (lk s) ((pcs s)(running s := Acquire n))"
    using view lock_ok_owner(2) [OF linvD(3) [OF inv] view] \<open>0 < n\<close>
    by (intro lock_ok_owned [OF linvD(3) [OF inv]]) auto
  moreover have "running s \<noteq> idle_thread s"
    using linvD(4) [OF inv] ask_again unfolding pc_ok_def by (metis pc.distinct(1))
  ultimately show ?thesis
    using linv_lock [OF inv refl, of "lk s" "Acquire n"] ask_again by simp
next
  case (release n)
  then have "0 < n" using linvD(4) [OF inv] by (cases n) (auto simp: pc_ok_def)
  with release have view: "lock_view (running s) (pcs s (running s)) = Some (running s, n)" by simp
  have "lock_ok (lk s) ((pcs s)(running s := Release n))"
    using view lock_ok_owner(2) [OF linvD(3) [OF inv] view] \<open>0 < n\<close>
    by (intro lock_ok_owned [OF linvD(3) [OF inv]]) auto
  moreover have "running s \<noteq> idle_thread s"
    using linvD(4) [OF inv] release unfolding pc_ok_def by (metis pc.distinct(1))
  ultimately show ?thesis
    using linv_lock [OF inv refl, of "lk s" "Release n"] release \<open>0 < n\<close> by simp
next
  case exec
  with lock_exec_run [OF inv] show ?thesis by auto
next
  case timer
  note K = timer_kept [OF linvD(1,2) [OF inv] timer(2)]
  show ?thesis
    by (rule linv_sched [OF inv K(1-6)]) (use K(7) out_in_all [OF inv] in blast)
next
  case sleep
  have "is_blocked_status TASK_WAITING" by (simp add: is_blocked_status_def)
  note K = block_kept [OF linvD(1) [OF inv] this _ sleep(3)]
  have "kept s s' t" if "pcs s t \<noteq> Outside" for t
  proof -
    have "t \<noteq> running s" using that sleep(1) by auto
    with out_in_all [OF inv that] sleep(2) show ?thesis by (intro K(7)) auto
  qed
  with K sleep(2) linvD(2) [OF inv] show ?thesis by (intro linv_sched [OF inv]) auto
next
  case (wake t)
  have blocked: "is_blocked_status (stat_of s t)" using wake(2) by (simp add: is_blocked_status_def)
  have ok: "sched_ok s" using linvD(1) [OF inv] by (simp add: sched_inv_def)
  note u = unblocked_ok [OF ok wake(1) blocked]
  have s': "s' = unblocked t s" using u(1) wake(3) by simp
  have nw: "pcs s t = Outside"
    using linvD(5) [OF inv] wake(2) unfolding wait_ok_def Let_def by (metis insertE singletonD task_status.distinct)
  have run: "running s \<noteq> t"
    using linvD(1) [OF inv] wake(2) by (auto simp: sched_inv_def)
  obtain p where "tasks s t = Some p" using ok wake(1) by (rule sched_okD)
  then have magic: "magic_ok s'"
    using linvD(2) [OF inv] by (auto simp: s' magic_ok_def)
  have more: "lk s' = lk s" "pcs s' = pcs s" using more_lsys [of s' s] by (simp_all add: s')
  have "sched_inv s'" using u(2) linvD(1) [OF inv] run by (simp add: s' sched_inv_def)
  then show ?thesis
    using magic more by (rule linv_sched [OF inv]) (use nw in \<open>auto simp: s' kept_def\<close>)
next
  case idle
  have "is_blocked_status TASK_BLOCKED" by (simp add: is_blocked_status_def)
  note K = block_kept [OF linvD(1) [OF inv] this _ idle(2)]
  have "kept s s' t" if "pcs s t \<noteq> Outside" for t
    using out_in_all [OF inv that] idle(1) by (intro K(7)) auto
  with K idle(1) linvD(2) [OF inv] show ?thesis by (intro linv_sched [OF inv]) auto
qed

lemma reach_linv: "reach s \<Longrightarrow> linv s"
  by (induction rule: reach.induct) (auto intro: linit_linv lstep_linv)

section \<open>Properties\<close>

definition sample_lsys :: lsys where
  "sample_lsys = ksched.extend sample_sched \<lparr>lk = lock_init, pcs = (\<lambda>_. Outside)\<rparr>"

lemma sample_reach: "reach sample_lsys"
proof (rule reach.start)
  have st: "stat_of sample_lsys t = stat_of sample_sched t" for t
    by (simp add: stat_of_def sample_lsys_def ksched.extend_def)
  show "linit sample_lsys"
    using sample_sched_inv sample_magic
    by (simp add: linit_def sched_inv_def sched_ok_def magic_ok_def st)
       (simp add: sample_lsys_def ksched.extend_def)
qed

lemma enter_free_lock:
  assumes "reach s" and "pcs s (running s) = Outside" and "running s \<noteq> idle_thread s"
    and "lk s = lock_init" and "running s \<noteq> 0"
  shows "\<exists>s'. reach s' \<and> pcs s' (running s) = Inside 1"
proof -
  let ?c = "running s"
  define st where "st l p = s\<lparr>lk := l, pcs := (pcs s)(?c := p)\<rparr>" for l p
  let ?l1 = "lock_init\<lparr>sema := \<lparr>sema_value = 0, waiters = []\<rparr>\<rparr>"
  let ?l2 = "?l1\<lparr>holder := ?c\<rparr>"
  have r: "reach (st lock_init (Acquire 0))"
  proof -
    have "s\<lparr>lk := lock_init\<rparr> = s" using assms(4) by (cases s) simp
    then have "st lock_init (Acquire 0) = s\<lparr>pcs := (pcs s)(?c := Acquire 0)\<rparr>"
      unfolding st_def by metis
    then show ?thesis using reach.step [OF assms(1) lstep.ask [OF assms(2,3)]] by simp
  qed
  have "lock_exec (st lock_init (Acquire 0)) = Inr ((), st lock_init Down)"
    using assms(5) by (simp add: lock_exec_def st_def lock_acquire_entry_def lock_init_def)
  from reach.step [OF r lstep.exec [OF this]] have r: "reach (st lock_init Down)" .
  have "lock_exec (st lock_init Down) = Inr ((), st ?l1 Acq_holder)"
    by (simp add: lock_exec_def st_def sema_down_loop_def sema_down_pass_def lock_init_def sema_init_def)
  from reach.step [OF r lstep.exec [OF this]] have r: "reach (st ?l1 Acq_holder)" .
  have "lock_exec (st ?l1 Acq_holder) = Inr ((), st ?l2 Acq_count)"
    by (simp add: lock_exec_def st_def lock_init_def)
  from reach.step [OF r lstep.exec [OF this]] have r: "reach (st ?l2 Acq_count)" .
  have "lock_exec (st ?l2 Acq_count) = Inr ((), st (?l2\<lparr>holder_repeat_nr := 1\<rparr>) (Inside 1))"
    by (simp add: lock_exec_def st_def lock_init_def)
  from reach.step [OF r lstep.exec [OF this]] have "reach (st (?l2\<lparr>holder_repeat_nr := 1\<rparr>) (Inside 1))" .
  moreover have "pcs (st (?l2\<lparr>holder_repeat_nr := 1\<rparr>) (Inside 1)) ?c = Inside 1"
    by (simp add: st_def)
  ultimately show ?thesis by blast
qed

text \<open>C1: In every reachable state of the lock system at most one thread is between \<open>lock_acquire\<close>
  and \<open>lock_release\<close>, and then \<open>holder\<close> and \<open>holder_repeat_nr\<close> name it and its nesting depth.\<close>

theorem mutual_exclusion:
  assumes "reach s" and "pcs s t = Inside m" and "pcs s u = Inside n"
  shows "t = u \<and> holder (lk s) = t \<and> unat (holder_repeat_nr (lk s)) = m"
proof -
  have inv: "linv s" using assms(1) by (rule reach_linv)
  then have "m \<noteq> 0" "n \<noteq> 0" using assms(2,3) by (auto simp: linv_def pc_ok_def)
  then have view: "lock_view t (pcs s t) = Some (t, m)" "lock_view u (pcs s u) \<noteq> None"
    using assms(2,3) by simp_all
  note own = lock_ok_owner [OF linvD(3) [OF inv] view(1)]
  have "u = t" using own(3) [of u] view(2) by auto
  with own(2) show ?thesis by simp
qed

theorem mutual_exclusion_witness:
  "\<exists>s. reach s \<and> pcs s 4096 = Inside 1 \<and> holder (lk s) = 4096"
proof -
  have "running sample_lsys = 4096" by (simp add: sample_lsys_def sample_sched_def ksched.extend_def)
  with enter_free_lock [OF sample_reach] obtain s where s: "reach s" "pcs s 4096 = Inside 1"
    by (auto simp: sample_lsys_def sample_sched_def ksched.extend_def)
  with mutual_exclusion [OF s(1) s(2) s(2)] show ?thesis by blast
qed

text \<open>A script of moves of the system: what the running thread or the timer does next.\<close>

datatype move = Ask | Leave | Run | Tick

definition do_move :: "move \<Rightarrow> lsys \<Rightarrow> lsys option" where
  "do_move m s =
     (let cur = running s in case m of
        Ask \<Rightarrow> if pcs s cur = Outside \<and> cur \<noteq> idle_thread s
               then Some (s\<lparr>pcs := (pcs s)(cur := Acquire 0)\<rparr>) else None
      | Leave \<Rightarrow> (case pcs s cur of
            Inside n \<Rightarrow> Some (s\<lparr>pcs := (pcs s)(cur := Release n)\<rparr>) | _ \<Rightarrow> None)
      | Run \<Rightarrow> (case lock_exec s of Inl e \<Rightarrow> None | Inr (u, s') \<Rightarrow> Some s')
      | Tick \<Rightarrow> if cpu_if s = INTR_ON
          then (case timer_interrupt s of Inl e \<Rightarrow> None | Inr (u, s') \<Rightarrow> Some s') else None)"

fun do_moves :: "move list \<Rightarrow> lsys \<Rightarrow> lsys option" where
  "do_moves [] s = Some s"
| "do_moves (m # ms) s = (case do_move m s of None \<Rightarrow> None | Some s' \<Rightarrow> do_moves ms s')"

lemma do_move_step: "do_move m s = Some s' \<Longrightarrow> lstep s s'"
  by (cases m)
     (auto simp: do_move_def Let_def split: if_splits pc.splits sum.splits
       intro: lstep.intros)

lemma do_moves_reach: "reach s \<Longrightarrow> do_moves ms s = Some s' \<Longrightarrow> reach s'"
  by (induction ms arbitrary: s) (auto split: option.splits dest: do_move_step intro: reach.step)

text \<open>
  Three threads whose time slice is one tick, and the idle thread 8192: 4096 runs, 12288 and
  16384 are ready.
\<close>

definition crowd_task :: "task_status \<Rightarrow> task" where
  "crowd_task st = (sample_task st)\<lparr>priority := 0, ticks := 0\<rparr>"

definition crowd :: lsys where
  "crowd = \<lparr>tasks = [4096 \<mapsto> crowd_task TASK_RUNNING, 8192 \<mapsto> crowd_task TASK_BLOCKED,
       12288 \<mapsto> crowd_task TASK_READY, 16384 \<mapsto> crowd_task TASK_READY],
     thread_ready_list = [12288, 16384], thread_all_list = [4096, 8192, 12288, 16384],
     running = 4096, idle_thread = 8192, main_thread = 4096, cpu_if = INTR_ON, cr3 = 0, esp0 = 0,
     addr_v2p = (\<lambda>a. a), total_ticks = 0, lk = lock_init, pcs = (\<lambda>_. Outside)\<rparr>"

lemma crowd_reach: "reach crowd"
proof (rule reach.start)
  have "sched_inv crowd"
    by (auto simp: sched_inv_def sched_ok_def crowd_def stat_of_def sample_task_def crowd_task_def)
  moreover have "magic_ok crowd"
    by (auto simp: magic_ok_def crowd_def crowd_task_def sample_task_def split: if_splits)
  ultimately show "linit crowd" by (simp add: linit_def) (simp add: crowd_def)
qed

text \<open>
  4096 takes the lock and loses the processor; 12288 asks for it and is about to block
  (\<open>contended\<close>); both others block, 4096 gets the processor back and releases the lock
  (\<open>handed_over\<close>).
\<close>

definition contended :: "move list" where
  "contended = [Ask, Run, Run, Run, Run, Tick, Ask, Run]"

definition handed_over :: "move list" where
  "handed_over = contended @ [Run, Ask, Run, Run, Leave, Run, Run, Run, Run]"

lemmas run_defs = do_move_def Let_def lock_exec_def lock_acquire_entry_def sema_down_loop_def
  sema_down_pass_def lock_release_entry_def lock_release_up_def sema_up_def timer_interrupt_def
  intr_timer_handler_def schedule_def resume_def thread_block_def thread_unblock_def
  process_activate_def page_dir_activate_def bnd_Inr [OF switch_to_run] task_of_Some bnd_upd_task
  upd_task_Some bnd_assoc is_blocked_status_def stat_of_def crowd_task_def sample_task_def
  lock_init_def sema_init_def

lemma contended_run:
  "map_option (\<lambda>s. (running s, pcs s 4096, pcs s 12288,
     map_sum id (\<lambda>(u, s'). (running s', waiters (sema (lk s')), stat_of s' 12288)) (lock_exec s)))
     (do_moves contended crowd) =
   Some (12288, Inside 1, Down, Inr (16384, [12288], TASK_BLOCKED))"
  by (simp add: run_defs crowd_def contended_def)

lemma handed_over_run:
  "map_option (\<lambda>s. (lk s, pcs s 4096, is_waiting (pcs s 12288), stat_of s 12288,
     is_waiting (pcs s 16384), stat_of s 16384)) (do_moves handed_over crowd) =
   Some (\<lparr>holder = 0, sema = \<lparr>sema_value = 1, waiters = [16384]\<rparr>, holder_repeat_nr = 0\<rparr>,
     Outside, True, TASK_READY, True, TASK_BLOCKED)"
  by (simp add: run_defs crowd_def contended_def handed_over_def)

text \<open>C2: No assertion and no panic of \<open>sync.c\<close> or of the scheduler functions under it can fail, for
  any number of threads and any interleaving: in every reachable state the next segment of the
  running thread runs to its end, and so do a timer interrupt (when interrupts are on), the sleep
  of a thread outside the lock, the wake-up of any sleeping thread and the block of the idle
  thread; each leads to a reachable state again.\<close>

theorem lock_never_panics:
  assumes "reach s"
  shows "(\<exists>s'. lock_exec s = Inr ((), s') \<and> reach s') \<and>
    (cpu_if s = INTR_ON \<longrightarrow> (\<exists>s'. timer_interrupt s = Inr ((), s') \<and> reach s')) \<and>
    (pcs s (running s) = Outside \<and> running s \<noteq> idle_thread s \<longrightarrow>
      (\<exists>s'. thread_block TASK_WAITING s = Inr ((), s') \<and> reach s')) \<and>
    (running s = idle_thread s \<longrightarrow> (\<exists>s'. thread_block TASK_BLOCKED s = Inr ((), s') \<and> reach s')) \<and>
    (\<forall>t \<in> set (thread_all_list s). stat_of s t = TASK_WAITING \<longrightarrow>
      (\<exists>s'. thread_unblock t s = Inr ((), s') \<and> reach s'))"
proof (intro conjI impI ballI)
  note I = linvD [OF reach_linv [OF assms]]
  note go = reach.step [OF assms]
  show "\<exists>s'. lock_exec s = Inr ((), s') \<and> reach s'"
    using lock_exec_run [OF reach_linv [OF assms]] go lstep.exec by blast
  show "\<exists>s'. timer_interrupt s = Inr ((), s') \<and> reach s'" if "cpu_if s = INTR_ON"
    using timer_interrupt_run [OF I(1,2)] go lstep.timer [OF that] by metis
  show "\<exists>s'. thread_block TASK_WAITING s = Inr ((), s') \<and> reach s'"
    if "pcs s (running s) = Outside \<and> running s \<noteq> idle_thread s"
    using thread_block_run [OF I(1), of TASK_WAITING] that go lstep.sleep
    by (metis is_blocked_status_def)
  show "\<exists>s'. thread_block TASK_BLOCKED s = Inr ((), s') \<and> reach s'" if "running s = idle_thread s"
    using thread_block_run [OF I(1), of TASK_BLOCKED] that go lstep.idle
    by (metis is_blocked_status_def)
  show "\<exists>s'. thread_unblock t s = Inr ((), s') \<and> reach s'"
    if "t \<in> set (thread_all_list s)" "stat_of s t = TASK_WAITING" for t
  proof -
    have "sched_ok s" using I(1) by (simp add: sched_inv_def)
    from unblocked_ok(1) [OF this that(1)] that(2)
    have "thread_unblock t s = Inr ((), unblocked t s)" by (simp add: is_blocked_status_def)
    with go lstep.wake [OF that this] show ?thesis by blast
  qed
qed

theorem lock_never_panics_witness:
  "\<exists>s s'. reach s \<and> running s = 12288 \<and> pcs s 4096 = Inside 1 \<and> pcs s 12288 = Down \<and>
    lock_exec s = Inr ((), s') \<and> reach s' \<and> running s' = 16384 \<and>
    waiters (sema (lk s')) = [12288] \<and> stat_of s' 12288 = TASK_BLOCKED"
proof -
  obtain s where s: "do_moves contended crowd = Some s" "running s = 12288" "pcs s 4096 = Inside 1"
    "pcs s 12288 = Down"
    "map_sum id (\<lambda>(u, s'). (running s', waiters (sema (lk s')), stat_of s' 12288)) (lock_exec s) =
      Inr (16384, [12288], TASK_BLOCKED)"
    using contended_run by (auto simp: map_option_case split: option.splits)
  have r: "reach s" by (rule do_moves_reach [OF crowd_reach s(1)])
  from lock_never_panics [OF r] obtain s' where "lock_exec s = Inr ((), s')" "reach s'" by blast
  with s r show ?thesis by (intro exI [of _ s] exI [of _ s']) auto
qed

text \<open>C3: No wake-up is lost. A thread that stands in the loop of \<open>sema_down\<close> is ready or running, or
  it is blocked and on the waiting list, where the next \<open>sema_up\<close> finds it; all on that list are
  such threads, so unblocking them is legal. While the list is not empty, some ready or running
  thread either owns the lock, and has the \<open>sema_up\<close> before it, or has been woken and will test
  the value again; the latter is so whenever the semaphore is free.\<close>

theorem no_lost_wakeup:
  assumes "reach s"
  shows "(\<forall>t. is_waiting (pcs s t) \<longrightarrow> stat_of s t \<in> {TASK_READY, TASK_RUNNING} \<or>
      stat_of s t = TASK_BLOCKED \<and> t \<in> set (waiters (sema (lk s)))) \<and>
    (\<forall>t \<in> set (waiters (sema (lk s))). is_waiting (pcs s t) \<and> stat_of s t = TASK_BLOCKED) \<and>
    (sema_value (sema (lk s)) = 1 \<and> waiters (sema (lk s)) \<noteq> [] \<longrightarrow>
      (\<exists>t. is_waiting (pcs s t) \<and> stat_of s t \<in> {TASK_READY, TASK_RUNNING})) \<and>
    (waiters (sema (lk s)) \<noteq> [] \<longrightarrow>
      (\<exists>t. (is_waiting (pcs s t) \<or> lock_view t (pcs s t) \<noteq> None) \<and>
        stat_of s t \<in> {TASK_READY, TASK_RUNNING}))"
proof -
  note I = linvD [OF reach_linv [OF assms]]
  note W = I(5) [unfolded wait_ok_def Let_def]
  let ?sem = "sema (lk s)"
  have free: "\<exists>t. is_waiting (pcs s t) \<and> stat_of s t \<in> {TASK_READY, TASK_RUNNING}"
    if "sema_value ?sem = 1" "waiters ?sem \<noteq> []"
    using W that waiting_not_out by metis
  have held: "\<exists>t. lock_view t (pcs s t) \<noteq> None \<and> stat_of s t \<in> {TASK_READY, TASK_RUNNING}"
    if taken: "sema_value ?sem \<noteq> 1"
  proof -
    obtain t where t: "lock_view t (pcs s t) \<noteq> None"
      using I(3) taken unfolding lock_ok_def by (metis (full_types))
    then have "pcs s t \<noteq> Outside" "\<not> is_waiting (pcs s t)" by (cases "pcs s t"; simp)+
    with W t show ?thesis by blast
  qed
  from W free held waiting_not_out show ?thesis by metis
qed

theorem no_lost_wakeup_witness:
  "\<exists>s. reach s \<and> lk s = \<lparr>holder = 0, sema = \<lparr>sema_value = 1, waiters = [16384]\<rparr>, holder_repeat_nr = 0\<rparr> \<and>
    is_waiting (pcs s 12288) \<and> stat_of s 12288 = TASK_READY \<and> stat_of s 16384 = TASK_BLOCKED \<and>
    (\<exists>t. is_waiting (pcs s t) \<and> stat_of s t \<in> {TASK_READY, TASK_RUNNING})"
proof -
  obtain s where s: "do_moves handed_over crowd = Some s"
    "lk s = \<lparr>holder = 0, sema = \<lparr>sema_value = 1, waiters = [16384]\<rparr>, holder_repeat_nr = 0\<rparr>"
    "is_waiting (pcs s 12288)" "stat_of s 12288 = TASK_READY" "stat_of s 16384 = TASK_BLOCKED"
    using handed_over_run by (auto simp: map_option_case split: option.splits)
  have r: "reach s" by (rule do_moves_reach [OF crowd_reach s(1)])
  from no_lost_wakeup [OF r] s r show ?thesis by (intro exI [of _ s]) simp
qed

end
