(* ===== verification/Ioqueue.thy ===== *)
theory Ioqueue
  imports Sync "HOL-Library.Signed_Division"
begin

text \<open>
  The ring buffer of \<open>device/ioqueue.c\<close>, which carries the keyboard input and the pipes. Its
  operations run with interrupts off, so a call is one step unless it must wait; a call that
  waits is \<open>Block\<close>, and what it does before it sleeps is \<open>ioq_wait\<close>. The thread that a call
  wakes up is part of its answer. A pointer to a thread is 0 when it is \<open>NULL\<close>.

  The promise of the buffer is the interface \<open>byte_queue\<close>: a bounded first-in first-out queue
  of bytes. Its lemmas on runs of puts and gets are what the pipes rest on.
\<close>

section \<open>Operations\<close>

record ioqueue =
  q_lock :: lock
  producer :: tid
  consumer :: tid
  q_buf :: "u8 list"
  head :: s32
  tail :: s32

definition bufsize :: nat where
  "bufsize = 64"

definition ioqueue_init :: "ioqueue \<Rightarrow> ioqueue" where
  "ioqueue_init ioq =
     ioq\<lparr>q_lock := lock_init, producer := 0, consumer := 0, head := 0, tail := 0\<rparr>"

definition next_pos :: "s32 \<Rightarrow> s32" where
  "next_pos pos = word_of_int (sint (pos + 1) smod 64)"

definition ioq_full :: "ioqueue \<Rightarrow> bool" where
  "ioq_full ioq \<longleftrightarrow> next_pos (head ioq) = tail ioq"

definition ioq_empty :: "ioqueue \<Rightarrow> bool" where
  "ioq_empty ioq \<longleftrightarrow> head ioq = tail ioq"

text \<open>The waiting thread is recorded in \<open>producer\<close> or \<open>consumer\<close>; then it blocks.\<close>

definition ioq_wait :: "tid \<Rightarrow> tid \<Rightarrow> tid res" where
  "ioq_wait cur waiter = rbind (rassert ''*waiter == NULL && waiter != NULL'' (waiter = 0)) (\<lambda>_. Inr cur)"

text \<open>\<open>wakeup\<close> answers the thread to unblock.\<close>

definition wakeup :: "tid \<Rightarrow> tid res" where
  "wakeup waiter = rbind (rassert ''*waiter != NULL'' (waiter \<noteq> 0)) (\<lambda>_. Inr waiter)"

definition ioq_getchar :: "ioqueue \<Rightarrow> (u8 \<times> tid option \<times> ioqueue) res" where
  "ioq_getchar ioq =
     (if ioq_empty ioq then Inl Block
      else if unat (tail ioq) < length (q_buf ioq)
      then let byte = q_buf ioq ! unat (tail ioq);
               ioq' = ioq\<lparr>tail := next_pos (tail ioq)\<rparr>
           in if producer ioq' \<noteq> 0
              then rbind (wakeup (producer ioq')) (\<lambda>t. Inr (byte, Some t, ioq'\<lparr>producer := 0\<rparr>))
              else Inr (byte, None, ioq')
      else Inl (Fault ''ioq->buf[ioq->tail]''))"

definition ioq_putchar :: "ioqueue \<Rightarrow> u8 \<Rightarrow> (tid option \<times> ioqueue) res" where
  "ioq_putchar ioq byte =
     (if ioq_full ioq then Inl Block
      else if unat (head ioq) < length (q_buf ioq)
      then let ioq' = ioq\<lparr>q_buf := (q_buf ioq)[unat (head ioq) := byte], head := next_pos (head ioq)\<rparr>
           in if consumer ioq' \<noteq> 0
              then rbind (wakeup (consumer ioq')) (\<lambda>t. Inr (Some t, ioq'\<lparr>consumer := 0\<rparr>))
              else Inr (None, ioq')
      else Inl (Fault ''ioq->buf[ioq->head]''))"

definition ioq_length :: "ioqueue \<Rightarrow> u32" where
  "ioq_length ioq =
     (if sint (head ioq) \<ge> sint (tail ioq) then head ioq - tail ioq
      else 64 - (tail ioq - head ioq))"

section \<open>The interface of a bounded queue\<close>

locale byte_queue =
  fixes wf :: "'q \<Rightarrow> bool"
    and content :: "'q \<Rightarrow> u8 list"
    and cap :: nat
    and put :: "'q \<Rightarrow> u8 \<Rightarrow> 'q res"
    and get :: "'q \<Rightarrow> (u8 \<times> 'q) res"
  assumes bounded: "wf q \<Longrightarrow> length (content q) \<le> cap"
    and put_ok: "wf q \<Longrightarrow> length (content q) < cap \<Longrightarrow>
      \<exists>q'. put q x = Inr q' \<and> wf q' \<and> content q' = content q @ [x]"
    and put_full: "wf q \<Longrightarrow> length (content q) = cap \<Longrightarrow> put q x = Inl Block"
    and get_ok: "wf q \<Longrightarrow> content q = x # xs \<Longrightarrow> \<exists>q'. get q = Inr (x, q') \<and> wf q' \<and> content q' = xs"
    and get_empty: "wf q \<Longrightarrow> content q = [] \<Longrightarrow> get q = Inl Block"
begin

fun puts :: "'q \<Rightarrow> u8 list \<Rightarrow> 'q res" where
  "puts q [] = Inr q"
| "puts q (x # xs) = rbind (put q x) (\<lambda>q'. puts q' xs)"

fun gets_n :: "'q \<Rightarrow> nat \<Rightarrow> (u8 list \<times> 'q) res" where
  "gets_n q 0 = Inr ([], q)"
| "gets_n q (Suc n) = rbind (get q) (\<lambda>(x, q'). rbind (gets_n q' n) (\<lambda>(xs, q''). Inr (x # xs, q'')))"

lemma puts_ok:
  "wf q \<Longrightarrow> length (content q) + length xs \<le> cap \<Longrightarrow>
   \<exists>q'. puts q xs = Inr q' \<and> wf q' \<and> content q' = content q @ xs"
proof (induction xs arbitrary: q)
  case (Cons x xs)
  then obtain q1 where q1: "put q x = Inr q1" "wf q1" "content q1 = content q @ [x]"
    using put_ok [of q x] by auto
  with Cons show ?case using Cons.IH [of q1] by auto
qed simp

lemma puts_block:
  "wf q \<Longrightarrow> cap < length (content q) + length xs \<Longrightarrow> puts q xs = Inl Block"
proof (induction xs arbitrary: q)
  case Nil
  then show ?case using bounded [of q] by simp
next
  case (Cons x xs)
  show ?case
  proof (cases "length (content q) = cap")
    case True
    with Cons.prems put_full [of q x] show ?thesis by simp
  next
    case False
    with Cons.prems bounded [of q] have "length (content q) < cap" by simp
    with Cons.prems obtain q1 where q1: "put q x = Inr q1" "wf q1" "content q1 = content q @ [x]"
      using put_ok [of q x] by auto
    then show ?thesis using Cons.IH [of q1] Cons.prems by simp
  qed
qed

lemma gets_ok:
  "wf q \<Longrightarrow> n \<le> length (content q) \<Longrightarrow>
   \<exists>q'. gets_n q n = Inr (take n (content q), q') \<and> wf q' \<and> content q' = drop n (content q)"
proof (induction n arbitrary: q)
  case (Suc n)
  then obtain x xs where q: "content q = x # xs" by (cases "content q") auto
  then obtain q1 where q1: "get q = Inr (x, q1)" "wf q1" "content q1 = xs"
    using get_ok [OF Suc.prems(1)] by auto
  then show ?case using Suc.IH [of q1] Suc.prems q by auto
qed simp

text \<open>What was put in comes out, in order.\<close>

lemma fifo:
  assumes "wf q" and "content q = []" and "length xs \<le> cap"
  shows "\<exists>q' q''. puts q xs = Inr q' \<and> gets_n q' (length xs) = Inr (xs, q'') \<and> wf q'' \<and> content q'' = []"
proof -
  from puts_ok [of q xs] assms obtain q' where "puts q xs = Inr q'" "wf q'" "content q' = xs" by auto
  with gets_ok [of q' "length xs"] show ?thesis by auto
qed

end

section \<open>The ring buffer is such a queue\<close>

definition ioq_wf :: "ioqueue \<Rightarrow> bool" where
  "ioq_wf q \<longleftrightarrow> length (q_buf q) = 64 \<and> unat (head q) < 64 \<and> unat (tail q) < 64"

definition ioq_count :: "ioqueue \<Rightarrow> nat" where
  "ioq_count q = (unat (head q) + 64 - unat (tail q)) mod 64"

definition ioq_content :: "ioqueue \<Rightarrow> u8 list" where
  "ioq_content q = List.map (\<lambda>i. q_buf q ! ((unat (tail q) + i) mod 64)) [0..<ioq_count q]"

definition ioq_put :: "ioqueue \<Rightarrow> u8 \<Rightarrow> ioqueue res" where
  "ioq_put q x = rbind (ioq_putchar q x) (\<lambda>(_, q'). Inr q')"

definition ioq_get :: "ioqueue \<Rightarrow> (u8 \<times> ioqueue) res" where
  "ioq_get q = rbind (ioq_getchar q) (\<lambda>(x, _, q'). Inr (x, q'))"

lemma sint_small: "unat (w :: s32) < 2 ^ 31 \<Longrightarrow> sint w = int (unat w)"
proof -
  assume "unat w < 2 ^ 31"
  then have "int (unat w) < int (2 ^ 31)" by (simp only: of_nat_less_iff)
  then have "uint w < 2 ^ 31" by simp
  then have "sint w = uint w"
    using signed_take_bit_int_eq_self [of 31 "uint w"] order_trans [OF _ uint_ge_0, of "- (2 ^ 31)" w]
    by (simp add: sint_uint)
  then show ?thesis by simp
qed

lemma unat_next_pos: "unat p < 64 \<Longrightarrow> unat (next_pos p) = (unat p + 1) mod 64"
proof -
  assume p: "unat p < 64"
  then have u: "unat (p + 1) = unat p + 1" by (simp add: unat_word_ariths)
  with p have "sint (p + 1) = int (unat p + 1)" using sint_small [of "p + 1"] by simp
  moreover have "sgn (int (unat p + 1)) = 1" by (simp only: sgn_of_nat) simp
  then have "int (unat p + 1) smod 64 = int ((unat p + 1) mod 64)"
    by (simp only: signed_modulo_int_def zmod_int) simp
  ultimately have "next_pos p = of_nat ((unat p + 1) mod 64)" by (simp only: next_pos_def) simp
  moreover have "(unat p + 1) mod 64 < 2 ^ 32" by (rule less_trans [OF mod_less_divisor]) simp_all
  ultimately show ?thesis by (simp only: unat_of_nat_u32)
qed

lemma ring_dist:
  fixes a b :: nat
  assumes "a < 64" and "b < 64"
  shows "(a + 64 - b) mod 64 = (if b \<le> a then a - b else a + 64 - b)"
proof (cases "b \<le> a")
  case True
  then have "a + 64 - b = (a - b) + 64" by simp
  then have "(a + 64 - b) mod 64 = (a - b) mod 64" by (simp only: mod_add_self2)
  with True assms show ?thesis by simp
qed (use assms in simp)

lemma ring_next: "a < 64 \<Longrightarrow> (a + 1) mod 64 = (if a = 63 then 0 else a + 1)" for a :: nat
  by auto

lemma ring_full:
  fixes a b :: nat
  assumes "a < 64" and "b < 64"
  shows "(a + 1) mod 64 = b \<longleftrightarrow> (a + 64 - b) mod 64 = 63"
  unfolding ring_dist [OF assms] ring_next [OF assms(1)] using assms by (simp split: if_splits) linarith

lemma ring_empty:
  fixes a b :: nat
  assumes "a < 64" and "b < 64"
  shows "a = b \<longleftrightarrow> (a + 64 - b) mod 64 = 0"
  unfolding ring_dist [OF assms] using assms by (simp split: if_splits)

lemma ring_put:
  fixes a b :: nat
  assumes "a < 64" and "b < 64" and "(a + 64 - b) mod 64 < 63"
  shows "((a + 1) mod 64 + 64 - b) mod 64 = Suc ((a + 64 - b) mod 64)"
proof -
  have "(a + 1) mod 64 < 64" by simp
  then show ?thesis
    using assms(3) unfolding ring_dist [OF \<open>(a + 1) mod 64 < 64\<close> assms(2)] ring_dist [OF assms(1,2)]
    unfolding ring_next [OF assms(1)] using assms(1,2) by (simp split: if_splits) linarith+
qed

lemma ring_get:
  fixes a b :: nat
  assumes "a < 64" and "b < 64" and "(a + 64 - b) mod 64 \<noteq> 0"
  shows "(a + 64 - (b + 1) mod 64) mod 64 = (a + 64 - b) mod 64 - 1"
proof -
  have "(b + 1) mod 64 < 64" by simp
  then show ?thesis
    using assms(3) unfolding ring_dist [OF assms(1) \<open>(b + 1) mod 64 < 64\<close>] ring_dist [OF assms(1,2)]
    unfolding ring_next [OF assms(2)] using assms(1,2) by (simp split: if_splits)
qed

lemma ring_index:
  fixes a b :: nat
  assumes "a < 64" and "b < 64"
  shows "(b + (a + 64 - b) mod 64) mod 64 = a"
  unfolding ring_dist [OF assms] using assms by (simp split: if_splits)

lemma ring_index_less:
  fixes a b i :: nat
  assumes "a < 64" and "b < 64" and "i < (a + 64 - b) mod 64"
  shows "(b + i) mod 64 \<noteq> a"
proof (cases "b + i < 64")
  case True
  then show ?thesis using assms(3) unfolding ring_dist [OF assms(1,2)] by (auto split: if_splits)
next
  case False
  then have "(b + i) mod 64 = b + i - 64"
    using assms(2,3) unfolding ring_dist [OF assms(1,2)]
    by (subst le_mod_geq) (use assms(1) in \<open>auto split: if_splits\<close>)
  then show ?thesis using False assms(2,3) unfolding ring_dist [OF assms(1,2)] by (auto split: if_splits)
qed

lemma ioq_count_le: "ioq_count q \<le> 63"
proof -
  have "ioq_count q < 64" by (simp add: ioq_count_def)
  then show ?thesis by simp
qed

lemma length_ioq_content [simp]: "length (ioq_content q) = ioq_count q"
  by (simp add: ioq_content_def)

lemma ioq_empty_iff: "ioq_wf q \<Longrightarrow> ioq_empty q \<longleftrightarrow> ioq_count q = 0"
proof -
  assume wf: "ioq_wf q"
  have "ioq_empty q \<longleftrightarrow> unat (head q) = unat (tail q)"
    by (auto simp: ioq_empty_def intro: u32_eqI)
  with wf ring_empty [of "unat (head q)" "unat (tail q)"] show ?thesis
    by (simp only: ioq_count_def ioq_wf_def)
qed

lemma ioq_full_iff: "ioq_wf q \<Longrightarrow> ioq_full q \<longleftrightarrow> ioq_count q = 63"
proof -
  assume wf: "ioq_wf q"
  have "ioq_full q \<longleftrightarrow> unat (next_pos (head q)) = unat (tail q)"
    by (auto simp: ioq_full_def intro: u32_eqI)
  with wf have "ioq_full q \<longleftrightarrow> (unat (head q) + 1) mod 64 = unat (tail q)"
    by (simp only: unat_next_pos ioq_wf_def)
  with wf ring_full [of "unat (head q)" "unat (tail q)"] show ?thesis
    by (simp only: ioq_count_def ioq_wf_def)
qed

lemma ioq_put_ok:
  assumes wf: "ioq_wf q" and room: "ioq_count q < 63"
  shows "\<exists>q'. ioq_put q x = Inr q' \<and> ioq_wf q' \<and> ioq_content q' = ioq_content q @ [x]"
proof -
  let ?a = "unat (head q)" and ?b = "unat (tail q)"
  let ?q = "q\<lparr>q_buf := (q_buf q)[?a := x], head := next_pos (head q)\<rparr>"
  have ab: "?a < 64" "?b < 64" "length (q_buf q) = 64" using wf by (simp_all add: ioq_wf_def)
  have h: "unat (next_pos (head q)) = (?a + 1) mod 64" using ab by (intro unat_next_pos)
  have cnt: "ioq_count ?q = Suc (ioq_count q)"
    using ring_put [OF ab(1,2)] room by (simp add: ioq_count_def h)
  have "q_buf ?q ! ((?b + i) mod 64) = (if i = ioq_count q then x else q_buf q ! ((?b + i) mod 64))"
    if "i < Suc (ioq_count q)" for i
    using that ring_index [OF ab(1,2)] ring_index_less [OF ab(1,2), of i] ab(1,3)
    by (auto simp: ioq_count_def nth_list_update less_Suc_eq)
  then have "ioq_content ?q = ioq_content q @ [x]"
    unfolding ioq_content_def cnt by simp
  then have c: "ioq_content (?q\<lparr>consumer := t\<rparr>) = ioq_content q @ [x]" for t
    by (simp add: ioq_content_def ioq_count_def)
  have w: "ioq_wf (?q\<lparr>consumer := t\<rparr>)" for t
    using wf h by (simp add: ioq_wf_def)
  have "\<not> ioq_full q" using room ioq_full_iff [OF wf] by simp
  then have "ioq_put q x = Inr (?q\<lparr>consumer := 0\<rparr>)"
    using ab by (cases "consumer q = 0") (auto simp: ioq_put_def ioq_putchar_def Let_def wakeup_def)
  with c w show ?thesis by blast
qed

lemma ioq_get_ok:
  assumes wf: "ioq_wf q" and c: "ioq_content q = x # xs"
  shows "\<exists>q'. ioq_get q = Inr (x, q') \<and> ioq_wf q' \<and> ioq_content q' = xs"
proof -
  let ?a = "unat (head q)" and ?b = "unat (tail q)"
  let ?q = "q\<lparr>tail := next_pos (tail q)\<rparr>"
  have ab: "?a < 64" "?b < 64" "length (q_buf q) = 64" using wf by (simp_all add: ioq_wf_def)
  have h: "unat (next_pos (tail q)) = (?b + 1) mod 64" using ab by (intro unat_next_pos)
  have pos: "ioq_count q \<noteq> 0" using c by (cases "ioq_count q = 0") (auto simp: ioq_content_def)
  have cnt: "ioq_count ?q = ioq_count q - 1"
    using ring_get [OF ab(1,2)] pos by (simp add: ioq_count_def h)
  have list: "ioq_content q = q_buf q ! ?b # List.map (\<lambda>i. q_buf q ! ((?b + Suc i) mod 64)) [0..<ioq_count q - 1]"
    using pos ab(2) by (cases "ioq_count q") (simp_all add: ioq_content_def upt_conv_Cons map_Suc_upt [symmetric] del: upt_Suc)
  have "ioq_content ?q = xs"
    using c unfolding list unfolding ioq_content_def cnt by (simp add: h mod_add_left_eq)
  then have ct: "ioq_content (?q\<lparr>producer := t\<rparr>) = xs" for t
    by (simp add: ioq_content_def ioq_count_def)
  have w: "ioq_wf (?q\<lparr>producer := t\<rparr>)" for t
    using wf h by (simp add: ioq_wf_def)
  have "\<not> ioq_empty q" "q_buf q ! ?b = x" using pos ioq_empty_iff [OF wf] c list by auto
  then have "ioq_get q = Inr (x, ?q\<lparr>producer := 0\<rparr>)"
    using ab by (cases "producer q = 0") (auto simp: ioq_get_def ioq_getchar_def Let_def wakeup_def)
  with ct w show ?thesis by blast
qed

interpretation ioq: byte_queue ioq_wf ioq_content 63 ioq_put ioq_get
proof unfold_locales
  show "ioq_wf q \<Longrightarrow> length (ioq_content q) \<le> 63" for q by (simp add: ioq_count_le)
  show "ioq_wf q \<Longrightarrow> length (ioq_content q) < 63 \<Longrightarrow>
      \<exists>q'. ioq_put q x = Inr q' \<and> ioq_wf q' \<and> ioq_content q' = ioq_content q @ [x]" for q x
    by (simp add: ioq_put_ok)
  show "ioq_wf q \<Longrightarrow> length (ioq_content q) = 63 \<Longrightarrow> ioq_put q x = Inl Block" for q x
    by (simp add: ioq_put_def ioq_putchar_def ioq_full_iff)
  show "ioq_wf q \<Longrightarrow> ioq_content q = x # xs \<Longrightarrow>
      \<exists>q'. ioq_get q = Inr (x, q') \<and> ioq_wf q' \<and> ioq_content q' = xs" for q x xs
    by (rule ioq_get_ok)
  show "ioq_wf q \<Longrightarrow> ioq_content q = [] \<Longrightarrow> ioq_get q = Inl Block" for q
    by (simp add: ioq_get_def ioq_getchar_def ioq_empty_iff flip: length_ioq_content)
qed

lemma ioq_length_eq: "ioq_wf q \<Longrightarrow> unat (ioq_length q) = length (ioq_content q)"
proof -
  assume wf: "ioq_wf q"
  let ?a = "unat (head q)" and ?b = "unat (tail q)"
  have ab: "?a < 64" "?b < 64" using wf by (simp_all add: ioq_wf_def)
  then have "sint (head q) = int ?a" "sint (tail q) = int ?b" by (intro sint_small; simp)+
  then have s: "sint (tail q) \<le> sint (head q) \<longleftrightarrow> ?b \<le> ?a"
    by (simp only: of_nat_le_iff)
  show ?thesis
  proof (cases "?b \<le> ?a")
    case True
    then have "ioq_length q = head q - tail q" using s by (simp add: ioq_length_def)
    then show ?thesis using True ab ring_dist [OF ab] by (simp add: ioq_count_def unat_sub_u32)
  next
    case False
    then have "ioq_length q = 64 - (tail q - head q)" using s by (simp add: ioq_length_def)
    then show ?thesis using False ab ring_dist [OF ab]
      by (simp add: ioq_count_def unat_sub_u32)
  qed
qed

section \<open>Properties\<close>

text \<open>C31: The ring buffer is a bounded first-in first-out queue: up to 63 bytes put into an
  empty buffer come out in the order they went in and leave it empty, the next byte blocks the
  producer, and a get from an empty buffer blocks the consumer.\<close>

theorem ioqueue_fifo:
  assumes "ioq_wf q" and "ioq_content q = []" and "length xs \<le> 63"
  shows "ioq_get q = Inl Block \<and>
    (\<exists>q' q''. ioq.puts q xs = Inr q' \<and> unat (ioq_length q') = length xs \<and>
       (length xs = 63 \<longrightarrow> ioq_put q' x = Inl Block) \<and>
       ioq.gets_n q' (length xs) = Inr (xs, q'') \<and> ioq_wf q'' \<and> ioq_content q'' = [])"
proof -
  obtain q' q'' where q: "ioq.puts q xs = Inr q'" "ioq.gets_n q' (length xs) = Inr (xs, q'')"
      "ioq_wf q''" "ioq_content q'' = []"
    using ioq.fifo [OF assms] by blast
  obtain q1 where "ioq.puts q xs = Inr q1" "ioq_wf q1" "ioq_content q1 = xs"
    using ioq.puts_ok [of q xs] assms by auto
  with q(1) have "ioq_wf q'" "ioq_content q' = xs" by simp_all
  then show ?thesis
    using q ioq_length_eq [of q'] ioq.put_full [of q' x] ioq.get_empty [OF assms(1,2)] by blast
qed

definition ioq_zero :: ioqueue where
  "ioq_zero = ioqueue_init \<lparr>q_lock = lock_init, producer = 7, consumer = 7, q_buf = replicate 64 0,
     head = 5, tail = 9\<rparr>"

theorem ioqueue_fifo_witness:
  "\<exists>q' q''. ioq.puts ioq_zero [104, 105] = Inr q' \<and> ioq.gets_n q' (length [104 :: u8, 105]) = Inr ([104, 105], q'')"
proof -
  have "ioq_wf ioq_zero" "ioq_content ioq_zero = []"
    by (simp_all add: ioq_zero_def ioqueue_init_def ioq_wf_def ioq_content_def ioq_count_def)
  from ioqueue_fifo [OF this, of "[104, 105]"] show ?thesis by force
qed

end
