(* ===== verification/Keyboard.thy ===== *)
theory Keyboard
  imports Ioqueue
begin

text \<open>
  \<open>device/keyboard.c\<close>: the keyboard interrupt, which turns scan codes into characters of the
  keyboard buffer and keeps the state of the modifier keys.
\<close>

section \<open>Data\<close>

record keyboard =
  ctrl_status :: bool
  shift_status :: bool
  alt_status :: bool
  caps_lock_status :: bool
  ext_scancode :: bool
  kbd_ioq :: ioqueue

text \<open>Without and with shift, indexed by the make code.\<close>

definition chars :: "string \<Rightarrow> string \<Rightarrow> (u8 \<times> u8) list" where
  "chars plain shifted = zip (cbytes plain) (cbytes shifted)"

definition keymap :: "(u8 \<times> u8) list" where
  "keymap =
     [(0, 0), (27, 27)] @ chars ''1234567890-='' ''!@#$%^&*()_+'' @ [(8, 8), (9, 9)] @
     chars ''qwertyuiop[]'' ''QWERTYUIOP{}'' @ [(13, 13), (0, 0)] @
     chars ''asdfghjkl;'' ''ASDFGHJKL:'' @ [(39, 34), (96, 126), (0, 0), (92, 124)] @
     chars ''zxcvbnm,./'' ''ZXCVBNM<>?'' @ [(0, 0), (42, 42), (0, 0), (32, 32), (0, 0)]"

definition is_ctrl_make :: "u16 \<Rightarrow> bool" where "is_ctrl_make c \<longleftrightarrow> c = 0x1d \<or> c = 0xe01d"
definition is_shift_make :: "u16 \<Rightarrow> bool" where "is_shift_make c \<longleftrightarrow> c = 0x2a \<or> c = 0x36"
definition is_alt_make :: "u16 \<Rightarrow> bool" where "is_alt_make c \<longleftrightarrow> c = 0x38 \<or> c = 0xe038"
definition caps_lock_make :: u16 where "caps_lock_make = 0x3a"

section \<open>The interrupt handler\<close>

definition kbd_release :: "u16 \<Rightarrow> keyboard \<Rightarrow> keyboard" where
  "kbd_release make_code k =
     (if is_ctrl_make make_code then k\<lparr>ctrl_status := False\<rparr>
      else if is_shift_make make_code then k\<lparr>shift_status := False\<rparr>
      else if is_alt_make make_code then k\<lparr>alt_status := False\<rparr>
      else k)"

text \<open>Whether the second column of the key map applies.\<close>

definition kbd_shift :: "u16 \<Rightarrow> bool \<Rightarrow> bool \<Rightarrow> bool" where
  "kbd_shift scancode shift_down_last caps_lock_last =
     (if scancode < 0x0e \<or> scancode \<in> {0x29, 0x1a, 0x1b, 0x2b, 0x27, 0x28, 0x33, 0x34, 0x35}
      then shift_down_last
      else if shift_down_last \<and> caps_lock_last then False
      else shift_down_last \<or> caps_lock_last)"

definition kbd_put :: "u8 \<Rightarrow> keyboard \<Rightarrow> (keyboard \<times> tid option) res" where
  "kbd_put c k =
     (if \<not> ioq_full (kbd_ioq k)
      then rbind (ioq_putchar (kbd_ioq k) c) (\<lambda>(t, q). Inr (k\<lparr>kbd_ioq := q\<rparr>, t))
      else Inr (k, None))"

definition kbd_press :: "u16 \<Rightarrow> keyboard \<Rightarrow> (keyboard \<times> tid option) res" where
  "kbd_press scancode k =
     (let shift = kbd_shift scancode (shift_status k) (caps_lock_status k);
          scancode = scancode AND 0xff;
          index = unat scancode
      in if index < length keymap
         then let cur_char = (if shift then snd (keymap ! index) else fst (keymap ! index))
              in if cur_char \<noteq> 0
                 then kbd_put (if ctrl_status k \<and> (cur_char = asc CHR ''l'' \<or> cur_char = asc CHR ''u'')
                               then cur_char - asc CHR ''a'' else cur_char) k
                 else Inr (if is_ctrl_make scancode then k\<lparr>ctrl_status := True\<rparr>
                           else if is_shift_make scancode then k\<lparr>shift_status := True\<rparr>
                           else if is_alt_make scancode then k\<lparr>alt_status := True\<rparr>
                           else if scancode = caps_lock_make then k\<lparr>caps_lock_status := \<not> caps_lock_status k\<rparr>
                           else k, None)
         else Inl (Fault ''keymap[index]''))"

text \<open>\<open>port\<close> is the byte read from the controller; the answer names the thread that is woken.\<close>

definition intr_keyboard_handler :: "u8 \<Rightarrow> keyboard \<Rightarrow> (keyboard \<times> tid option) res" where
  "intr_keyboard_handler port k =
     (let scancode = ucast port :: u16
      in if scancode = 0xe0 then Inr (k\<lparr>ext_scancode := True\<rparr>, None)
         else
           let scancode = (if ext_scancode k then 0xe000 OR scancode else scancode);
               k = k\<lparr>ext_scancode := False\<rparr>
           in if scancode AND 0x80 \<noteq> 0
              then Inr (kbd_release (scancode AND 0xff7f) k, None)
              else if scancode > 0 \<and> scancode < 0x3b \<or> scancode = 0xe038 \<or> scancode = 0xe01d
              then kbd_press scancode k
              else Inr (k, None))"

definition keyboard_init :: "keyboard \<Rightarrow> keyboard" where
  "keyboard_init k = k\<lparr>kbd_ioq := ioqueue_init (kbd_ioq k)\<rparr>"

section \<open>What a key means\<close>

text \<open>
  The reference: a letter is shifted when exactly one of shift and caps lock is on, any other
  key when shift is; \<open>ctrl+l\<close> and \<open>ctrl+u\<close> give the codes 11 and 20.
\<close>

definition is_letter :: "u8 \<Rightarrow> bool" where
  "is_letter c \<longleftrightarrow> asc CHR ''a'' \<le> c \<and> c \<le> asc CHR ''z''"

definition key_char :: "bool \<Rightarrow> bool \<Rightarrow> bool \<Rightarrow> nat \<Rightarrow> u8" where
  "key_char ctrl shift caps code =
     (let (plain, shifted) = keymap ! code;
          c = (if is_letter plain then if shift \<noteq> caps then shifted else plain
               else if shift then shifted else plain)
      in if ctrl \<and> c \<in> {asc CHR ''l'', asc CHR ''u''} then c - asc CHR ''a'' else c)"

lemma keymap_eq:
  "keymap =
     [(0, 0), (27, 27), (49, 33), (50, 64), (51, 35), (52, 36), (53, 37), (54, 94),
      (55, 38), (56, 42), (57, 40), (48, 41), (45, 95), (61, 43), (8, 8), (9, 9),
      (113, 81), (119, 87), (101, 69), (114, 82), (116, 84), (121, 89), (117, 85), (105, 73),
      (111, 79), (112, 80), (91, 123), (93, 125), (13, 13), (0, 0), (97, 65), (115, 83),
      (100, 68), (102, 70), (103, 71), (104, 72), (106, 74), (107, 75), (108, 76), (59, 58),
      (39, 34), (96, 126), (0, 0), (92, 124), (122, 90), (120, 88), (99, 67), (118, 86),
      (98, 66), (110, 78), (109, 77), (44, 60), (46, 62), (47, 63), (0, 0), (42, 42),
      (0, 0), (32, 32), (0, 0)]"
  by (simp add: keymap_def chars_def asc_def)

lemma keymap_length: "length keymap = 59"
  by (simp add: keymap_eq)

text \<open>The table is small: the comparison of the shift rule with the reference is by evaluation.\<close>

definition codes :: "nat list" where
  "codes = [1..<59]"

lemma codes_eq: "codes = [1, 2, 3, 4, 5, 6, 7, 8, 9, 10, 11, 12, 13, 14, 15, 16, 17, 18, 19, 20, 21, 22, 23, 24, 25, 26, 27, 28, 29, 30, 31, 32, 33, 34, 35, 36, 37, 38, 39, 40, 41, 42, 43, 44, 45, 46, 47, 48, 49, 50, 51, 52, 53, 54, 55, 56, 57, 58]"
  by code_simp

definition shift_rule_ok :: "bool \<Rightarrow> bool \<Rightarrow> bool" where
  "shift_rule_ok shift caps \<longleftrightarrow>
     list_all (\<lambda>n. (if kbd_shift (of_nat n) shift caps then snd (keymap ! n) else fst (keymap ! n)) =
       key_char False shift caps n) codes"

lemma shift_rule: "shift_rule_ok shift caps"
proof -
  have "shift_rule_ok True True" "shift_rule_ok True False" "shift_rule_ok False True" "shift_rule_ok False False"
    by (simp_all add: shift_rule_ok_def codes_eq kbd_shift_def key_char_def is_letter_def keymap_eq asc_def)
  then show ?thesis by (cases shift; cases caps) simp_all
qed

text \<open>The keys that are not characters are the modifiers, the same in both columns.\<close>

lemma control_keys:
  "list_all (\<lambda>n. fst (keymap ! n) = 0 \<longleftrightarrow> n \<in> {0x1d, 0x2a, 0x36, 0x38, 0x3a}) codes"
  "list_all (\<lambda>n. snd (keymap ! n) = 0 \<longleftrightarrow> fst (keymap ! n) = 0) codes"
  by (simp_all add: codes_eq keymap_eq)

lemma key_char_ctrl:
  "key_char ctrl shift caps n =
     (let c = key_char False shift caps n in if ctrl \<and> c \<in> {asc CHR ''l'', asc CHR ''u''} then c - asc CHR ''a'' else c)"
  by (simp add: key_char_def split_def Let_def)

text \<open>Facts about the codes of the table are checked code by code.\<close>

lemma codes_all: "list_all P codes \<Longrightarrow> 0 < n \<Longrightarrow> n < 59 \<Longrightarrow> P n"
  by (simp add: codes_def list_all_iff)

lemma make_facts:
  "list_all (\<lambda>n. ucast (of_nat n :: u8) = (of_nat n :: u16) \<and> (of_nat n :: u16) \<noteq> 0xe0 \<and>
     (of_nat n :: u16) AND 0x80 = 0 \<and> (of_nat n :: u16) AND 0xff = of_nat n \<and> unat (of_nat n :: u16) = n \<and>
     (of_nat n :: u16) > 0 \<and> (of_nat n :: u16) < 0x3b) codes"
  by (simp add: codes_eq)

lemma break_facts:
  "list_all (\<lambda>n. (ucast (of_nat (n + 128) :: u8) :: u16) \<noteq> 0xe0 \<and>
     (ucast (of_nat (n + 128) :: u8) :: u16) AND 0x80 \<noteq> 0 \<and>
     (ucast (of_nat (n + 128) :: u8) :: u16) AND 0xff7f = of_nat n) codes"
  by (simp add: codes_eq)

lemma modifier_facts:
  "list_all (\<lambda>n. is_ctrl_make (of_nat n) = (n = 0x1d) \<and> is_shift_make (of_nat n) = (n \<in> {0x2a, 0x36}) \<and>
     is_alt_make (of_nat n) = (n = 0x38) \<and> ((of_nat n :: u16) = caps_lock_make) = (n = 0x3a)) codes"
  by (simp add: codes_eq is_ctrl_make_def is_shift_make_def is_alt_make_def caps_lock_make_def)

section \<open>Typing\<close>

datatype key_event = Press nat | Release nat

fun event_code :: "key_event \<Rightarrow> nat" where
  "event_code (Press n) = n"
| "event_code (Release n) = n"

definition event_ok :: "key_event \<Rightarrow> bool" where
  "event_ok e \<longleftrightarrow> 0 < event_code e \<and> event_code e < 59"

fun scan :: "key_event \<Rightarrow> u8" where
  "scan (Press n) = of_nat n"
| "scan (Release n) = of_nat (n + 128)"

text \<open>The modifiers are control, shift, alt and caps lock, in this order.\<close>

type_synonym modifiers = "bool \<times> bool \<times> bool \<times> bool"

fun after :: "key_event \<Rightarrow> modifiers \<Rightarrow> modifiers" where
  "after (Press n) (c, s, a, l) = (c \<or> n = 0x1d, s \<or> n \<in> {0x2a, 0x36}, a \<or> n = 0x38, l \<noteq> (n = 0x3a))"
| "after (Release n) (c, s, a, l) = (c \<and> n \<noteq> 0x1d, s \<and> n \<notin> {0x2a, 0x36}, a \<and> n \<noteq> 0x38, l)"

definition modifier_key :: "nat \<Rightarrow> bool" where
  "modifier_key n \<longleftrightarrow> n \<in> {0x1d, 0x2a, 0x36, 0x38, 0x3a}"

fun typed :: "key_event \<Rightarrow> modifiers \<Rightarrow> u8 list" where
  "typed (Press n) (c, s, a, l) = (if modifier_key n then [] else [key_char c s l n])"
| "typed (Release n) m = []"

fun typed_all :: "key_event list \<Rightarrow> modifiers \<Rightarrow> u8 list" where
  "typed_all [] m = []"
| "typed_all (e # es) m = typed e m @ typed_all es (after e m)"

definition mods :: "keyboard \<Rightarrow> modifiers" where
  "mods k = (ctrl_status k, shift_status k, alt_status k, caps_lock_status k)"

fun kbd_run :: "u8 list \<Rightarrow> keyboard \<Rightarrow> keyboard res" where
  "kbd_run [] k = Inr k"
| "kbd_run (c # cs) k = rbind (intr_keyboard_handler c k) (\<lambda>(k', _). kbd_run cs k')"

section \<open>The handler implements the reference\<close>

definition kbd_ok :: "keyboard \<Rightarrow> bool" where
  "kbd_ok k \<longleftrightarrow> \<not> ext_scancode k \<and> ioq_wf (kbd_ioq k)"

lemma kbd_put_ok:
  assumes "ioq_wf (kbd_ioq k)"
  shows "\<exists>q t. kbd_put c k = Inr (k\<lparr>kbd_ioq := q\<rparr>, t) \<and> ioq_wf q \<and>
    ioq_content q = take 63 (ioq_content (kbd_ioq k) @ [c])"
proof (cases "ioq_full (kbd_ioq k)")
  case True
  then show ?thesis using assms by (intro exI [of _ "kbd_ioq k"] exI [of _ None]) (simp add: kbd_put_def ioq_full_iff)
next
  case False
  then have room: "ioq_count (kbd_ioq k) < 63"
    using ioq_full_iff [OF assms] ioq_count_le [of "kbd_ioq k"] by simp
  from ioq_put_ok [OF assms this, of c] obtain q where
    q: "ioq_put (kbd_ioq k) c = Inr q" "ioq_wf q" "ioq_content q = ioq_content (kbd_ioq k) @ [c]" by blast
  from q(1) obtain t where "ioq_putchar (kbd_ioq k) c = Inr (t, q)"
    by (auto simp: ioq_put_def rbind_eq_Inr)
  with q(2,3) False room show ?thesis by (intro exI [of _ q] exI [of _ t]) (simp add: kbd_put_def)
qed

lemma handler_release:
  assumes "0 < n" and "n < 59" and k: "\<not> ext_scancode k"
  shows "intr_keyboard_handler (scan (Release n)) k = Inr (kbd_release (of_nat n) (k\<lparr>ext_scancode := False\<rparr>), None)"
proof -
  have "(ucast (scan (Release n)) :: u16) \<noteq> 0xe0 \<and> (ucast (scan (Release n)) :: u16) AND 0x80 \<noteq> 0 \<and>
      (ucast (scan (Release n)) :: u16) AND 0xff7f = of_nat n"
    unfolding scan.simps by (rule codes_all [OF break_facts assms(1,2)])
  then show ?thesis using k by (simp add: intr_keyboard_handler_def Let_def del: scan.simps)
qed

lemma handler_press:
  assumes "0 < n" and "n < 59" and k: "\<not> ext_scancode k"
  shows "intr_keyboard_handler (scan (Press n)) k = kbd_press (of_nat n) (k\<lparr>ext_scancode := False\<rparr>)"
  using codes_all [OF make_facts assms(1,2)] k by (simp add: intr_keyboard_handler_def Let_def)

lemma release_ok:
  assumes "0 < n" and "n < 59"
  shows "mods (kbd_release (of_nat n) k) = after (Release n) (mods k)"
    and "kbd_ioq (kbd_release (of_nat n) k) = kbd_ioq k"
    and "ext_scancode (kbd_release (of_nat n) k) = ext_scancode k"
  using codes_all [OF modifier_facts assms] by (auto simp: kbd_release_def mods_def)

lemma key_char_press:
  assumes "0 < n" and "n < 59" and "\<not> modifier_key n"
  shows "(let c = (if kbd_shift (of_nat n) s l then snd (keymap ! n) else fst (keymap ! n))
          in c \<noteq> 0 \<and> (if ctrl \<and> (c = asc CHR ''l'' \<or> c = asc CHR ''u'') then c - asc CHR ''a'' else c) = key_char ctrl s l n)"
proof -
  have c: "(if kbd_shift (of_nat n) s l then snd (keymap ! n) else fst (keymap ! n)) = key_char False s l n"
    using codes_all [OF shift_rule [unfolded shift_rule_ok_def] assms(1,2)] .
  have "fst (keymap ! n) \<noteq> 0" "snd (keymap ! n) \<noteq> 0"
    using codes_all [OF control_keys(1) assms(1,2)] codes_all [OF control_keys(2) assms(1,2)] assms(3)
    by (simp_all add: modifier_key_def)
  then have "(if kbd_shift (of_nat n) s l then snd (keymap ! n) else fst (keymap ! n)) \<noteq> 0" by simp
  then show ?thesis unfolding c Let_def key_char_ctrl [of ctrl] by simp
qed

lemma press_char:
  assumes "0 < n" and "n < 59" and "\<not> modifier_key n"
  shows "kbd_press (of_nat n) k = kbd_put (key_char (ctrl_status k) (shift_status k) (caps_lock_status k) n) k"
proof -
  have f: "(of_nat n :: u16) AND 0xff = of_nat n" "unat (of_nat n :: u16) = n"
    using codes_all [OF make_facts assms(1,2)] by simp_all
  show ?thesis
    using key_char_press [OF assms, of "shift_status k" "caps_lock_status k" "ctrl_status k"] assms(2)
    unfolding kbd_press_def Let_def f keymap_length by (simp only: if_True simp_thms)
qed

lemma press_modifier:
  assumes "0 < n" and "n < 59" and "modifier_key n"
  shows "\<exists>k'. kbd_press (of_nat n) k = Inr (k', None) \<and> mods k' = after (Press n) (mods k) \<and>
    kbd_ioq k' = kbd_ioq k \<and> ext_scancode k' = ext_scancode k"
proof -
  have "fst (keymap ! n) = 0" "snd (keymap ! n) = 0"
    using codes_all [OF control_keys(1) assms(1,2)] codes_all [OF control_keys(2) assms(1,2)] assms(3)
    by (simp_all add: modifier_key_def)
  moreover have f: "(of_nat n :: u16) AND 0xff = of_nat n" "unat (of_nat n :: u16) = n"
    using codes_all [OF make_facts assms(1,2)] by simp_all
  ultimately have p: "kbd_press (of_nat n) k =
      Inr (if is_ctrl_make (of_nat n) then k\<lparr>ctrl_status := True\<rparr>
           else if is_shift_make (of_nat n) then k\<lparr>shift_status := True\<rparr>
           else if is_alt_make (of_nat n) then k\<lparr>alt_status := True\<rparr>
           else if of_nat n = caps_lock_make then k\<lparr>caps_lock_status := \<not> caps_lock_status k\<rparr>
           else k, None)"
    using assms(2) unfolding kbd_press_def Let_def f keymap_length by simp
  show ?thesis unfolding p using assms(3) codes_all [OF modifier_facts assms(1,2)]
    by (auto simp: modifier_key_def mods_def)
qed

lemma handler_ok:
  assumes e: "event_ok e" and k: "kbd_ok k"
  shows "\<exists>k' t. intr_keyboard_handler (scan e) k = Inr (k', t) \<and> kbd_ok k' \<and> mods k' = after e (mods k) \<and>
    ioq_content (kbd_ioq k') = take 63 (ioq_content (kbd_ioq k) @ typed e (mods k))"
proof (cases e)
  case (Release n)
  then have n: "0 < n" "n < 59" using e by (simp_all add: event_ok_def)
  show ?thesis
    using k release_ok [OF n, of "k\<lparr>ext_scancode := False\<rparr>"] ioq_count_le [of "kbd_ioq k"]
    unfolding Release by (subst handler_release [OF n]) (simp_all add: kbd_ok_def mods_def del: after.simps)
next
  case (Press n)
  then have n: "0 < n" "n < 59" using e by (simp_all add: event_ok_def)
  let ?k = "k\<lparr>ext_scancode := False\<rparr>"
  have h: "intr_keyboard_handler (scan e) k = kbd_press (of_nat n) ?k"
    unfolding Press by (rule handler_press [OF n]) (use k in \<open>simp add: kbd_ok_def\<close>)
  have m: "mods ?k = mods k" by (simp add: mods_def)
  show ?thesis
  proof (cases "modifier_key n")
    case True
    from press_modifier [OF n True, of ?k] obtain k' where k': "kbd_press (of_nat n) ?k = Inr (k', None)"
      "mods k' = after (Press n) (mods k)" "kbd_ioq k' = kbd_ioq k" "\<not> ext_scancode k'" unfolding m by auto
    have "typed e (mods k) = []" using True by (simp add: Press mods_def)
    then show ?thesis using k' h k ioq_count_le [of "kbd_ioq k"] by (simp add: kbd_ok_def Press)
  next
    case False
    let ?c = "key_char (ctrl_status k) (shift_status k) (caps_lock_status k) n"
    have "ioq_wf (kbd_ioq ?k)" using k by (simp add: kbd_ok_def)
    from kbd_put_ok [OF this, of ?c] obtain q t where
      q: "kbd_put ?c ?k = Inr (?k\<lparr>kbd_ioq := q\<rparr>, t)" "ioq_wf q" "ioq_content q = take 63 (ioq_content (kbd_ioq k) @ [?c])"
      by auto
    have "after e (mods k) = mods k" using False by (auto simp: Press mods_def modifier_key_def)
    moreover have "typed e (mods k) = [?c]" using False by (simp add: Press mods_def)
    ultimately show ?thesis using q h press_char [OF n False, of ?k] k by (simp add: kbd_ok_def mods_def)
  qed
qed

section \<open>Properties\<close>

text \<open>C25: Typing: for every sequence of presses and releases of the keys of the table, the
  handler, run on their scan codes, keeps the state of the modifier keys of the reference and
  buffers exactly the characters the reference types, in order, until 63 are waiting; the rest
  are dropped.\<close>

theorem keyboard_refines_typing:
  assumes "list_all event_ok es" and "kbd_ok k"
  shows "\<exists>k'. kbd_run (List.map scan es) k = Inr k' \<and> kbd_ok k' \<and> mods k' = fold after es (mods k) \<and>
    ioq_content (kbd_ioq k') = take 63 (ioq_content (kbd_ioq k) @ typed_all es (mods k))"
  using assms
proof (induction es arbitrary: k)
  case Nil
  then show ?case using ioq_count_le [of "kbd_ioq k"] by simp
next
  case (Cons e es)
  from handler_ok [of e k] Cons.prems obtain k1 t where k1: "intr_keyboard_handler (scan e) k = Inr (k1, t)"
    "kbd_ok k1" "mods k1 = after e (mods k)"
    "ioq_content (kbd_ioq k1) = take 63 (ioq_content (kbd_ioq k) @ typed e (mods k))" by auto
  from Cons.IH [OF _ k1(2)] Cons.prems obtain k' where k': "kbd_run (List.map scan es) k1 = Inr k'" "kbd_ok k'"
    "mods k' = fold after es (mods k1)"
    "ioq_content (kbd_ioq k') = take 63 (ioq_content (kbd_ioq k1) @ typed_all es (mods k1))" by auto
  have cut: "take n (take n xs @ ys) = take n (xs @ ys)" for n and xs ys :: "u8 list"
    by (cases "length xs \<le> n") simp_all
  have "ioq_content (kbd_ioq k') = take 63 (ioq_content (kbd_ioq k) @ typed_all (e # es) (mods k))"
    unfolding k'(4) k1(3,4) cut by simp
  with k1(1,3) k'(1-3) show ?case by simp
qed

definition kbd_zero :: keyboard where
  "kbd_zero = keyboard_init \<lparr>ctrl_status = False, shift_status = False, alt_status = False,
     caps_lock_status = False, ext_scancode = False, kbd_ioq = ioq_zero\<rparr>"

text \<open>Shift, \<open>a\<close> under shift, and \<open>a\<close> again.\<close>

theorem keyboard_refines_typing_witness:
  "\<exists>k'. kbd_run [42, 30, 170, 30] kbd_zero = Inr k' \<and> ioq_content (kbd_ioq k') = cbytes ''Aa''"
proof -
  let ?es = "[Press 0x2a, Press 0x1e, Release 0x2a, Press 0x1e]"
  have z: "kbd_ok kbd_zero" "ioq_content (kbd_ioq kbd_zero) = []" "mods kbd_zero = (False, False, False, False)"
    by (simp_all add: kbd_ok_def kbd_zero_def keyboard_init_def ioq_zero_def ioqueue_init_def ioq_wf_def
        ioq_content_def ioq_count_def mods_def)
  have t: "typed_all ?es (False, False, False, False) = cbytes ''Aa''"
    by (simp add: modifier_key_def key_char_def keymap_eq is_letter_def asc_def)
  show ?thesis using keyboard_refines_typing [of ?es kbd_zero] z by (auto simp: event_ok_def t simp del: typed_all.simps kbd_run.simps)
qed

text \<open>The handler is total: whatever byte the controller delivers, in whatever state of the
  modifier keys, it stays inside the key map, does not wait, and keeps the buffer well formed.\<close>

theorem keyboard_total:
  assumes "ioq_wf (kbd_ioq k)"
  shows "\<exists>k' t. intr_keyboard_handler port k = Inr (k', t) \<and> ioq_wf (kbd_ioq k')"
proof -
  have press: "\<exists>k' t. kbd_press c k = Inr (k', t) \<and> ioq_wf (kbd_ioq k')"
    if "ioq_wf (kbd_ioq k)" "unat (c AND 0xff) < 59" for c k
  proof -
    have "\<exists>k' t. kbd_put x k = Inr (k', t) \<and> ioq_wf (kbd_ioq k')" for x
      using kbd_put_ok [OF that(1), of x] by auto
    then show ?thesis using that by (simp add: kbd_press_def Let_def keymap_length)
  qed
  have small: "unat (c AND 0xff) < 59" if "c < 0x3b \<or> c = 0xe038 \<or> c = 0xe01d" for c :: u16
  proof (cases "c < 0x3b")
    case True
    then have "c AND 0xff < 0x3b" by (rule le_less_trans [OF word_and_le2])
    then show ?thesis by (simp add: word_less_nat_alt)
  qed (use that in auto)
  have "\<exists>k' t. kbd_press c (k\<lparr>ext_scancode := b\<rparr>) = Inr (k', t) \<and> ioq_wf (kbd_ioq k')"
    if "c < 0x3b \<or> c = 0xe038 \<or> c = 0xe01d" for b c
    using press [of "k\<lparr>ext_scancode := b\<rparr>" c] small [OF that] assms by simp
  then show ?thesis using assms by (simp add: intr_keyboard_handler_def Let_def kbd_release_def)
qed

theorem keyboard_total_witness: "\<exists>k' t. intr_keyboard_handler 0xe0 kbd_zero = Inr (k', t) \<and> ioq_wf (kbd_ioq k')"
  by (rule keyboard_total) (simp add: kbd_zero_def keyboard_init_def ioq_zero_def ioqueue_init_def ioq_wf_def)

end
