(* ===== verification/Fs_Data.thy ===== *)
theory Fs_Data
  imports Cstring
begin

text \<open>
  The structures that the file system keeps on disk, byte for byte as the code's casts and
  \<open>memcpy\<close>s see them on a little-endian machine: the 32-bit integer, the index block of 128
  addresses, \<open>struct inode\<close> (76 bytes), \<open>struct dir_entry\<close> (24 bytes) and
  \<open>struct super_block\<close> (512 bytes). Each has an encoder and a decoder; what the code relies on
  (reading back what was written, at an offset in a sector buffer, without touching the rest)
  is stated once, as the interface \<open>codec\<close>, and interpreted for each structure.
\<close>

section \<open>The interface\<close>

locale codec =
  fixes enc :: "'a \<Rightarrow> u8 list"
    and dec :: "u8 list \<Rightarrow> 'a"
    and wf :: "'a \<Rightarrow> bool"
    and sz :: nat
  assumes length_enc: "wf x \<Longrightarrow> length (enc x) = sz"
    and dec_enc: "wf x \<Longrightarrow> dec (enc x) = x"
begin

definition get :: "nat \<Rightarrow> u8 list \<Rightarrow> 'a" where
  "get off buf = dec (slice off sz buf)"

definition put_at :: "nat \<Rightarrow> 'a \<Rightarrow> u8 list \<Rightarrow> u8 list" where
  "put_at off x buf = splice off (enc x) buf"

lemma length_put: "wf x \<Longrightarrow> off + sz \<le> length buf \<Longrightarrow> length (put_at off x buf) = length buf"
  by (simp add: put_at_def length_enc)

lemma get_put: "wf x \<Longrightarrow> off + sz \<le> length buf \<Longrightarrow> get off (put_at off x buf) = x"
  by (metis dec_enc get_def length_enc put_at_def slice_splice)

lemma get_put_other:
  "wf x \<Longrightarrow> off + sz \<le> length buf \<Longrightarrow> o' + sz \<le> length buf \<Longrightarrow> o' + sz \<le> off \<or> off + sz \<le> o' \<Longrightarrow>
   get o' (put_at off x buf) = get o' buf"
  by (simp add: get_def put_at_def slice_splice_disjoint length_enc)

text \<open>Arrays of the structure.\<close>

definition enc_array :: "'a list \<Rightarrow> u8 list" where
  "enc_array xs = concat (List.map enc xs)"

fun dec_array :: "nat \<Rightarrow> u8 list \<Rightarrow> 'a list" where
  "dec_array 0 bs = []"
| "dec_array (Suc n) bs = dec (take sz bs) # dec_array n (drop sz bs)"

lemma length_enc_array: "\<forall>x \<in> set xs. wf x \<Longrightarrow> length (enc_array xs) = length xs * sz"
  by (induction xs) (auto simp: enc_array_def length_enc)

lemma dec_enc_array:
  "\<forall>x \<in> set xs. wf x \<Longrightarrow> dec_array (length xs) (enc_array xs @ rest) = xs"
  by (induction xs) (auto simp: enc_array_def length_enc dec_enc)

end

section \<open>Words\<close>

definition u32_bytes :: "u32 \<Rightarrow> u8 list" where
  "u32_bytes w = [ucast w, ucast (drop_bit 8 w), ucast (drop_bit 16 w), ucast (drop_bit 24 w)]"

definition bytes_u32 :: "u8 list \<Rightarrow> u32" where
  "bytes_u32 bs = ucast (bs ! 0) OR push_bit 8 (ucast (bs ! 1)) OR push_bit 16 (ucast (bs ! 2)) OR
     push_bit 24 (ucast (bs ! 3))"

lemma length_u32_bytes [simp]: "length (u32_bytes w) = 4"
  by (simp add: u32_bytes_def)

lemma bytes_u32_bytes [simp]: "bytes_u32 (u32_bytes w) = w"
proof (rule bit_word_eqI)
  fix n assume "n < LENGTH(32)"
  then have n: "n < 32" by simp
  then consider "n < 8" | "8 \<le> n" "n < 16" | "16 \<le> n" "n < 24" | "24 \<le> n" "n < 32" by linarith
  then show "bit (bytes_u32 (u32_bytes w)) n \<longleftrightarrow> bit w n"
    by cases (auto simp: bytes_u32_def u32_bytes_def bit_or_iff bit_push_bit_iff bit_ucast_iff
        bit_drop_bit_eq numeral_3_eq_3 numeral_2_eq_2 dest: bit_imp_le_length)
qed

interpretation u32c: codec u32_bytes bytes_u32 "\<lambda>_. True" 4
  by unfold_locales simp_all

text \<open>An array of words, as the code reads a block through a \<open>uint32_t *\<close>.\<close>

definition words_bytes :: "u32 list \<Rightarrow> u8 list" where
  "words_bytes ws = concat (List.map u32_bytes ws)"

fun bytes_words :: "nat \<Rightarrow> u8 list \<Rightarrow> u32 list" where
  "bytes_words 0 bs = []"
| "bytes_words (Suc n) bs = bytes_u32 (take 4 bs) # bytes_words n (drop 4 bs)"

lemma length_words_bytes [simp]: "length (words_bytes ws) = 4 * length ws"
  by (induction ws) (auto simp: words_bytes_def)

lemma length_bytes_words [simp]: "length (bytes_words n bs) = n"
  by (induction n bs rule: bytes_words.induct) auto

lemma bytes_words_app [simp]: "length ws = n \<Longrightarrow> bytes_words n (words_bytes ws @ rest) = ws"
proof (induction ws arbitrary: n)
  case (Cons w ws)
  then show ?case by (cases n) (auto simp: words_bytes_def)
qed simp

lemma bytes_words_bytes [simp]: "length ws = n \<Longrightarrow> bytes_words n (words_bytes ws) = ws"
  using bytes_words_app [of ws n "[]"] by simp

lemma words_bytes_append [simp]: "words_bytes (a @ b) = words_bytes a @ words_bytes b"
  by (simp add: words_bytes_def)

interpretation words128: codec words_bytes "bytes_words 128" "\<lambda>ws. length ws = 128" 512
  by unfold_locales simp_all

section \<open>The structures\<close>

text \<open>
  \<open>struct inode\<close>. The list links \<open>inode_tag\<close>, the last eight bytes, are kept by the list of open
  inodes and cleared in what goes to disk. \<open>bool\<close> is a macro for \<open>int\<close>.
\<close>

record inode =
  i_no :: u32
  i_size :: u32
  i_open_cnts :: u32
  write_deny :: u32
  i_sectors :: "u32 list"

definition inode_wf :: "inode \<Rightarrow> bool" where
  "inode_wf i \<longleftrightarrow> length (i_sectors i) = 13"

definition inode_bytes :: "inode \<Rightarrow> u8 list" where
  "inode_bytes i = words_bytes ([i_no i, i_size i, i_open_cnts i, write_deny i] @ i_sectors i @ [0, 0])"

definition bytes_inode :: "u8 list \<Rightarrow> inode" where
  "bytes_inode bs =
     (let ws = bytes_words 19 bs
      in \<lparr>i_no = ws ! 0, i_size = ws ! 1, i_open_cnts = ws ! 2, write_deny = ws ! 3,
          i_sectors = take 13 (drop 4 ws)\<rparr>)"

lemma bytes_inode_wf [simp]: "inode_wf (bytes_inode bs)"
  by (simp add: inode_wf_def bytes_inode_def Let_def)

interpretation inodec: codec inode_bytes bytes_inode inode_wf 76
proof unfold_locales
  fix i assume "inode_wf i"
  then have len: "length (i_sectors i) = 13" by (simp add: inode_wf_def)
  show "length (inode_bytes i) = 76" using len by (simp add: inode_bytes_def)
  let ?ws = "[i_no i, i_size i, i_open_cnts i, write_deny i] @ i_sectors i @ [0, 0]"
  have "bytes_words 19 (words_bytes ?ws) = ?ws" using len by (intro bytes_words_bytes) simp
  then show "bytes_inode (inode_bytes i) = i"
    using len by (simp add: bytes_inode_def inode_bytes_def Let_def)
qed

datatype file_types = FT_UNKNOWN | FT_REGULAR | FT_DIRECTORY

fun ft_code :: "file_types \<Rightarrow> u32" where
  "ft_code FT_UNKNOWN = 0"
| "ft_code FT_REGULAR = 1"
| "ft_code FT_DIRECTORY = 2"

text \<open>\<open>struct dir_entry\<close>; \<open>f_type\<close> is the integer that is stored.\<close>

record dir_entry =
  filename :: "u8 list"
  de_i_no :: u32
  f_type :: u32

definition dir_entry_wf :: "dir_entry \<Rightarrow> bool" where
  "dir_entry_wf e \<longleftrightarrow> length (filename e) = 16"

definition dir_entry_bytes :: "dir_entry \<Rightarrow> u8 list" where
  "dir_entry_bytes e = filename e @ u32_bytes (de_i_no e) @ u32_bytes (f_type e)"

definition bytes_dir_entry :: "u8 list \<Rightarrow> dir_entry" where
  "bytes_dir_entry bs =
     \<lparr>filename = take 16 bs, de_i_no = bytes_u32 (slice 16 4 bs), f_type = bytes_u32 (slice 20 4 bs)\<rparr>"

interpretation dentc: codec dir_entry_bytes bytes_dir_entry dir_entry_wf 24
  by unfold_locales
     (simp_all add: dir_entry_wf_def dir_entry_bytes_def bytes_dir_entry_def slice_def)

record super_block =
  magic :: u32
  sb_sec_cnt :: u32
  inode_cnt :: u32
  part_lba_base :: u32
  block_bitmap_lba :: u32
  block_bitmap_sects :: u32
  inode_bitmap_lba :: u32
  inode_bitmap_sects :: u32
  inode_table_lba :: u32
  inode_table_sects :: u32
  data_start_lba :: u32
  root_inode_no :: u32
  dir_entry_size :: u32
  pad :: "u8 list"

definition super_block_wf :: "super_block \<Rightarrow> bool" where
  "super_block_wf sb \<longleftrightarrow> length (pad sb) = 460"

definition super_block_bytes :: "super_block \<Rightarrow> u8 list" where
  "super_block_bytes sb =
     words_bytes [magic sb, sb_sec_cnt sb, inode_cnt sb, part_lba_base sb, block_bitmap_lba sb,
       block_bitmap_sects sb, inode_bitmap_lba sb, inode_bitmap_sects sb, inode_table_lba sb,
       inode_table_sects sb, data_start_lba sb, root_inode_no sb, dir_entry_size sb] @ pad sb"

definition bytes_super_block :: "u8 list \<Rightarrow> super_block" where
  "bytes_super_block bs =
     (let ws = bytes_words 13 bs
      in \<lparr>magic = ws ! 0, sb_sec_cnt = ws ! 1, inode_cnt = ws ! 2, part_lba_base = ws ! 3,
          block_bitmap_lba = ws ! 4, block_bitmap_sects = ws ! 5, inode_bitmap_lba = ws ! 6,
          inode_bitmap_sects = ws ! 7, inode_table_lba = ws ! 8, inode_table_sects = ws ! 9,
          data_start_lba = ws ! 10, root_inode_no = ws ! 11, dir_entry_size = ws ! 12,
          pad = slice 52 460 bs\<rparr>)"

interpretation superc: codec super_block_bytes bytes_super_block super_block_wf 512
proof unfold_locales
  fix sb assume wf: "super_block_wf sb"
  let ?ws = "[magic sb, sb_sec_cnt sb, inode_cnt sb, part_lba_base sb, block_bitmap_lba sb,
       block_bitmap_sects sb, inode_bitmap_lba sb, inode_bitmap_sects sb, inode_table_lba sb,
       inode_table_sects sb, data_start_lba sb, root_inode_no sb, dir_entry_size sb]"
  have ws: "bytes_words 13 (words_bytes ?ws @ pad sb) = ?ws" by (intro bytes_words_app) simp
  show "length (super_block_bytes sb) = 512"
    using wf by (simp add: super_block_bytes_def super_block_wf_def)
  have "slice 52 460 (words_bytes ?ws @ pad sb) = pad sb"
    using wf by (simp add: slice_def super_block_wf_def)
  then show "bytes_super_block (super_block_bytes sb) = sb"
    unfolding bytes_super_block_def super_block_bytes_def ws by (simp add: Let_def numeral_nat)
qed

end
