(* ===== verification/Channel.thy ===== *)
theory Channel
  imports Fs_Data Sync
begin

text \<open>
  An IDE channel of \<open>device/ide.c\<close>: the task registers, the command register with the flag that
  announces its interrupt, the interrupt handler, the wait on \<open>disk_done\<close>, \<open>busy_wait\<close>, and the
  channel's lock. One thread uses the channel; what the drive does (when its interrupt comes, what
  its status register shows) is an argument.
\<close>

section \<open>The registers\<close>

record ata_regs =
  reg_sect_cnt :: u8
  reg_lba_l :: u8
  reg_lba_m :: u8
  reg_lba_h :: u8
  reg_dev :: u8
  reg_cmd :: u8

definition max_lba :: u32 where
  "max_lba = 80 * 1024 * 1024 div 512 - 1"

definition select_disk :: "u8 \<Rightarrow> ata_regs \<Rightarrow> ata_regs" where
  "select_disk dev_no r =
     r\<lparr>reg_dev := 0xa0 OR 0x40 OR (if dev_no = 1 then 0x10 else 0)\<rparr>"

definition select_sector :: "u8 \<Rightarrow> u32 \<Rightarrow> u8 \<Rightarrow> ata_regs \<Rightarrow> ata_regs res" where
  "select_sector dev_no lba sec_cnt r =
     rbind (rassert ''lba <= max_lba'' (lba \<le> max_lba)) (\<lambda>_.
     Inr (r\<lparr>reg_sect_cnt := sec_cnt, reg_lba_l := ucast lba, reg_lba_m := ucast (drop_bit 8 lba),
       reg_lba_h := ucast (drop_bit 16 lba),
       reg_dev := ucast (0xa0 OR 0x40 OR (if dev_no = 1 then 0x10 else 0) OR drop_bit 24 lba)\<rparr>))"

section \<open>Channels\<close>

record ide_channel =
  ch_name :: "u8 list"
  port_base :: u16
  irq_no :: u8
  ch_lock :: lock
  expecting_intr :: bool
  disk_done :: semaphore
  ch_regs :: ata_regs

definition upd_chan :: "nat \<Rightarrow> (ide_channel \<Rightarrow> ide_channel) \<Rightarrow> ide_channel list \<Rightarrow> ide_channel list" where
  "upd_chan no f chs = chs[no := f (chs ! no)]"

definition set_regs :: "ata_regs \<Rightarrow> ide_channel \<Rightarrow> ide_channel" where
  "set_regs r ch = ch\<lparr>ch_regs := r\<rparr>"

definition cmd_out :: "u8 \<Rightarrow> ide_channel \<Rightarrow> ide_channel" where
  "cmd_out cmd ch = ch\<lparr>expecting_intr := True, ch_regs := (ch_regs ch)\<lparr>reg_cmd := cmd\<rparr>\<rparr>"

text \<open>The answer is the thread that was unblocked, and whether the status register was read.\<close>

definition intr_hd_handler :: "u8 \<Rightarrow> ide_channel list \<Rightarrow> (tid option \<times> bool \<times> ide_channel list) res" where
  "intr_hd_handler irq channels =
     rbind (rassert ''irq_no == 0x2e || irq_no == 0x2f'' (irq = 0x2e \<or> irq = 0x2f)) (\<lambda>_.
     let ch_no = unat (irq - 0x2e) in
     if \<not> ch_no < length channels then Inl (Fault ''channels[ch_no]'')
     else
       let channel = channels ! ch_no in
       rbind (rassert ''channel->irq_no == irq_no'' (irq_no channel = irq)) (\<lambda>_.
       if expecting_intr channel
       then rbind (sema_up (disk_done channel)) (\<lambda>(woken, sema).
            Inr (woken, True, channels[ch_no := channel\<lparr>expecting_intr := False, disk_done := sema\<rparr>]))
       else Inr (None, False, channels)))"

text \<open>One pass of \<open>sema_down(&disk_done)\<close> by the thread \<open>cur\<close>: \<open>True\<close> when it must block.\<close>

definition disk_down :: "tid \<Rightarrow> nat \<Rightarrow> ide_channel list \<Rightarrow> (bool \<times> ide_channel list) res" where
  "disk_down cur no chs =
     rbind (sema_down_pass cur (disk_done (chs ! no))) (\<lambda>(blocks, sema).
     Inr (blocks, upd_chan no (\<lambda>ch. ch\<lparr>disk_done := sema\<rparr>) chs))"

text \<open>
  \<open>sema_down(&disk_done)\<close> after a command that the drive answers with one interrupt, before the call
  (\<open>early\<close>) or while the thread sleeps in it. The thread goes on after a block only if the handler
  wakes it, and then tests the semaphore again; \<open>Block\<close> is a thread that sleeps for ever.
\<close>

definition disk_wait :: "bool \<Rightarrow> tid \<Rightarrow> nat \<Rightarrow> ide_channel list \<Rightarrow> ide_channel list res" where
  "disk_wait early cur no chs =
     (if early
      then rbind (intr_hd_handler (irq_no (chs ! no)) chs) (\<lambda>(_, _, chs).
           rbind (disk_down cur no chs) (\<lambda>(blocks, chs).
           if blocks then Inl Block else Inr chs))
      else rbind (disk_down cur no chs) (\<lambda>(blocks, chs).
           if \<not> blocks then Inr chs
           else
             rbind (intr_hd_handler (irq_no (chs ! no)) chs) (\<lambda>(woken, _, chs).
             if woken \<noteq> Some cur then Inl Block
             else
               rbind (disk_down cur no chs) (\<lambda>(blocks, chs).
               if blocks then Inl Block else Inr chs))))"

text \<open>
  The loop condition subtracts the value of a comparison, 1, from the limit. \<open>st k\<close> is what the status
  register shows after \<open>k\<close> sleeps of 10 ms; the answer has the number of sleeps.
\<close>

fun busy_loop :: "(nat \<Rightarrow> u8) \<Rightarrow> nat \<Rightarrow> nat \<Rightarrow> bool \<times> nat" where
  "busy_loop st k 0 = (False, k)"
| "busy_loop st k (Suc time_limit) =
     (if st k AND 0x80 = 0 then (st k AND 0x8 \<noteq> 0, k) else busy_loop st (Suc k) time_limit)"

definition busy_wait :: "(nat \<Rightarrow> u8) \<Rightarrow> bool \<times> nat" where
  "busy_wait st = busy_loop st 0 (32 * 1000 - 1)"

text \<open>
  The channel's lock, taken and released by a thread that finds it free (\<open>Block\<close>: it would sleep; the
  threads that compete for a lock are those of \<open>Sync\<close>). Releasing it answers the thread to unblock.
\<close>

definition lock_acquire :: "tid \<Rightarrow> lock \<Rightarrow> lock res" where
  "lock_acquire cur plock =
     (if holder plock \<noteq> cur
      then rbind (sema_down_pass cur (sema plock)) (\<lambda>(blocks, sm).
           if blocks then Inl Block
           else rbind (rassert ''plock->holder_repeat_nr == 0'' (holder_repeat_nr plock = 0)) (\<lambda>_.
                Inr (plock\<lparr>holder := cur, sema := sm, holder_repeat_nr := 1\<rparr>)))
      else Inr (plock\<lparr>holder_repeat_nr := holder_repeat_nr plock + 1\<rparr>))"

definition lock_release :: "tid \<Rightarrow> lock \<Rightarrow> (tid option \<times> lock) res" where
  "lock_release cur plock =
     rbind (rassert ''plock->holder == running_thread()'' (holder plock = cur)) (\<lambda>_.
     if holder_repeat_nr plock > 1
     then Inr (None, plock\<lparr>holder_repeat_nr := holder_repeat_nr plock - 1\<rparr>)
     else rbind (rassert ''plock->holder_repeat_nr == 1'' (holder_repeat_nr plock = 1)) (\<lambda>_.
          rbind (sema_up (sema plock)) (\<lambda>(woken, sm).
          Inr (woken, plock\<lparr>holder := 0, sema := sm, holder_repeat_nr := 0\<rparr>))))"

section \<open>Commands on an idle channel\<close>

text \<open>A channel on which no command is under way.\<close>

definition chan_idle :: "nat \<Rightarrow> ide_channel list \<Rightarrow> bool" where
  "chan_idle no chs \<longleftrightarrow> no < 2 \<and> length chs = 2 \<and> irq_no (chs ! no) = 0x2e + of_nat no \<and>
     disk_done (chs ! no) = sema_init 0 \<and> \<not> expecting_intr (chs ! no)"

lemma disk_wait_run:
  assumes idle: "chan_idle no chs"
  shows "disk_wait early cur no (upd_chan no (\<lambda>ch. cmd_out cmd (set_regs r ch)) chs) =
    Inr (upd_chan no (set_regs (r\<lparr>reg_cmd := cmd\<rparr>)) chs)"
proof -
  have irq: "(0x2e + of_nat no :: u8) = 0x2e \<or> (0x2e + of_nat no :: u8) = 0x2f" "unat (of_nat no :: u8) = no" "no < length chs"
    using idle by (auto simp: chan_idle_def less_2_cases_iff)
  have same: "(chs ! no)\<lparr>ch_regs := q, expecting_intr := False, disk_done := \<lparr>sema_value = 0, waiters = []\<rparr>\<rparr> =
      (chs ! no)\<lparr>ch_regs := q\<rparr>" for q
    using idle by (cases "chs ! no") (simp add: chan_idle_def sema_init_def)
  show ?thesis
    using idle irq
    by (simp add: chan_idle_def upd_chan_def set_regs_def disk_wait_def disk_down_def intr_hd_handler_def cmd_out_def
        sema_down_pass_def sema_up_def sema_init_def rassert_def Let_def same)
qed

lemma chan_idle_regs: "chan_idle no chs \<Longrightarrow> chan_idle no (upd_chan no (set_regs r) chs)"
  by (simp add: chan_idle_def upd_chan_def set_regs_def)

lemma chan_idle_lock: "chan_idle no chs \<Longrightarrow> chan_idle no (upd_chan no (\<lambda>ch. ch\<lparr>ch_lock := l\<rparr>) chs)"
  by (simp add: chan_idle_def upd_chan_def)

lemma lock_acquire_free:
  "cur \<noteq> 0 \<Longrightarrow> lock_acquire cur lock_init = Inr \<lparr>holder = cur, sema = sema_init 0, holder_repeat_nr = 1\<rparr>"
  by (simp add: lock_acquire_def lock_init_def sema_init_def sema_down_pass_def)

lemma lock_release_held:
  "lock_release cur \<lparr>holder = cur, sema = sema_init 0, holder_repeat_nr = 1\<rparr> = Inr (None, lock_init)"
  by (simp add: lock_release_def lock_init_def sema_init_def sema_up_def)

lemma busy_loop_sleeps: "busy_loop st k n = (ready, m) \<Longrightarrow> m \<le> k + n"
  by (induction n arbitrary: k) (fastforce split: if_splits)+

text \<open>A drive that is busy for a while and then asks for the data.\<close>

definition drive_ready :: "(nat \<Rightarrow> u8) \<Rightarrow> bool" where
  "drive_ready st \<longleftrightarrow> (\<exists>k < 31999. (\<forall>j < k. st j AND 0x80 \<noteq> 0) \<and> st k AND 0x80 = 0 \<and> st k AND 0x8 \<noteq> 0)"

lemma busy_loop_ready:
  "(\<forall>i < m. st (k + i) AND 0x80 \<noteq> 0) \<Longrightarrow> st (k + m) AND 0x80 = 0 \<Longrightarrow> st (k + m) AND 0x8 \<noteq> 0 \<Longrightarrow> m < n \<Longrightarrow>
   fst (busy_loop st k n)"
proof (induction n arbitrary: k m)
  case (Suc n)
  show ?case
  proof (cases m)
    case 0
    then show ?thesis using Suc.prems by simp
  next
    case (Suc m')
    have "\<forall>i < m'. st (Suc k + i) AND 0x80 \<noteq> 0" using Suc.prems(1) Suc by fastforce
    moreover have "st k AND 0x80 \<noteq> 0" using Suc.prems(1) Suc by fastforce
    ultimately show ?thesis using Suc.IH [of m' "Suc k"] Suc.prems Suc by simp
  qed
qed simp

lemma busy_wait_ready: "drive_ready st \<Longrightarrow> fst (busy_wait st)"
  using busy_loop_ready [of _ st 0 31999] by (auto simp: drive_ready_def busy_wait_def)

end
