(* ===== verification/Disk.thy ===== *)
theory Disk
  imports Channel
begin

text \<open>
  Reading and writing sectors, \<open>device/ide.c\<close>, on a channel of \<open>Channel\<close>: its lock, the task registers,
  the command, the interrupt that answers it, the status and the data port. A disk is its sectors;
  the drive behind the ports is a parameter of the model (\<open>ata_dev\<close>: what it does with the registers
  it is given), and \<open>ata_drive\<close> states the documented meaning of the 28-bit task registers in LBA
  mode and of the commands. The driver is shown to read and write exactly the sectors asked for, and
  to leave the channel ready for the next request.
\<close>

section \<open>Sectors\<close>

type_synonym disk = "u32 \<Rightarrow> u8 list"

definition disk_wf :: "disk \<Rightarrow> bool" where
  "disk_wf d \<longleftrightarrow> (\<forall>s. length (d s) = 512)"

definition read_sectors :: "disk \<Rightarrow> u32 \<Rightarrow> nat \<Rightarrow> u8 list" where
  "read_sectors d lba n = concat (List.map (\<lambda>i. d (lba + of_nat i)) [0..<n])"

definition write_sectors :: "disk \<Rightarrow> u32 \<Rightarrow> nat \<Rightarrow> u8 list \<Rightarrow> disk" where
  "write_sectors d lba n buf =
     (\<lambda>s. if unat (s - lba) < n then slice (512 * unat (s - lba)) 512 buf else d s)"

lemma length_read_sectors [simp]: "disk_wf d \<Longrightarrow> length (read_sectors d lba n) = 512 * n"
  by (induction n) (auto simp: read_sectors_def disk_wf_def)

lemma read_sectors_0 [simp]: "read_sectors d lba 0 = []"
  by (simp add: read_sectors_def)

lemma read_sectors_1 [simp]: "read_sectors d lba (Suc 0) = d lba"
  by (simp add: read_sectors_def)

lemma read_sectors_add:
  "read_sectors d lba (m + n) = read_sectors d lba m @ read_sectors d (lba + of_nat m) n"
proof -
  have "[0..<m + n] = [0..<m] @ List.map (\<lambda>i. m + i) [0..<n]"
    by (induction n) (simp_all add: add.commute)
  then show ?thesis
    by (simp add: read_sectors_def o_def algebra_simps)
qed

lemma write_sectors_wf:
  assumes "disk_wf d" and "512 * n \<le> length buf"
  shows "disk_wf (write_sectors d lba n buf)"
  unfolding disk_wf_def
proof
  fix s
  show "length (write_sectors d lba n buf s) = 512"
  proof (cases "unat (s - lba) < n")
    case True
    then have "512 * unat (s - lba) + 512 \<le> 512 * n" by simp
    with assms(2) have "512 * unat (s - lba) + 512 \<le> length buf" by linarith
    with True show ?thesis by (simp add: write_sectors_def)
  qed (use assms(1) in \<open>simp add: write_sectors_def disk_wf_def\<close>)
qed

lemma write_sectors_one [simp]:
  "write_sectors d lba (Suc 0) buf = d(lba := take 512 buf)"
proof
  fix s
  have "unat (s - lba) < Suc 0 \<longleftrightarrow> s = lba" by (simp add: unat_eq_zero)
  then show "write_sectors d lba (Suc 0) buf s = (d(lba := take 512 buf)) s"
    by (auto simp: write_sectors_def)
qed

lemma write_sectors_0 [simp]: "write_sectors d lba 0 buf = d"
  by (simp add: write_sectors_def)

lemma concat_slices:
  "length buf = 512 * n \<Longrightarrow> concat (List.map (\<lambda>i. slice (512 * i) 512 buf) [0..<n]) = buf"
proof (induction n arbitrary: buf)
  case (Suc n)
  have "concat (List.map (\<lambda>i. slice (512 * i) 512 (take (512 * n) buf)) [0..<n]) = take (512 * n) buf"
    using Suc.prems by (intro Suc.IH) simp
  moreover have "List.map (\<lambda>i. slice (512 * i) 512 (take (512 * n) buf)) [0..<n] =
      List.map (\<lambda>i. slice (512 * i) 512 buf) [0..<n]"
    using Suc.prems by (intro map_cong) (auto simp: slice_def drop_take)
  moreover have "slice (512 * n) 512 buf = drop (512 * n) buf"
    using Suc.prems by (simp add: slice_def)
  ultimately show ?case by simp
qed simp

lemma read_write_sectors:
  assumes "length buf = 512 * n" and "n < 2 ^ 32"
  shows "read_sectors (write_sectors d lba n buf) lba n = buf"
proof -
  have "write_sectors d lba n buf (lba + of_nat i) = slice (512 * i) 512 buf" if "i < n" for i
    using that assms(2) by (simp add: write_sectors_def unat_of_nat_u32)
  then have "List.map (\<lambda>i. write_sectors d lba n buf (lba + of_nat i)) [0..<n] =
    List.map (\<lambda>i. slice (512 * i) 512 buf) [0..<n]" by simp
  then show ?thesis using concat_slices [OF assms(1)] by (simp only: read_sectors_def)
qed

section \<open>The drive\<close>

text \<open>
  The documented meaning of the registers: a 28-bit address in three registers and the low
  nibble of the device register, whose bit 4 names the drive; a count of 0 means 256.
\<close>

definition regs_lba :: "ata_regs \<Rightarrow> u32" where
  "regs_lba r = ucast (reg_lba_l r) OR push_bit 8 (ucast (reg_lba_m r)) OR
     push_bit 16 (ucast (reg_lba_h r)) OR push_bit 24 (ucast (reg_dev r AND 0xf))"

definition regs_count :: "ata_regs \<Rightarrow> nat" where
  "regs_count r = (if reg_sect_cnt r = 0 then 256 else unat (reg_sect_cnt r))"

definition regs_slave :: "ata_regs \<Rightarrow> bool" where
  "regs_slave r \<longleftrightarrow> bit (reg_dev r) 4"

text \<open>Bit 6 of the device register: the registers hold a block address, not cylinder, head and sector.\<close>

definition regs_lba_mode :: "ata_regs \<Rightarrow> bool" where
  "regs_lba_mode r \<longleftrightarrow> bit (reg_dev r) 6"

text \<open>
  A pair of drives in the state \<open>'d\<close>, given the registers (the command among them): whether the interrupt
  comes before the thread sleeps, the status register after so many sleeps, what the data port gives,
  and the state after data has been written to it.
\<close>

record 'd ata_dev =
  dev_early :: "'d \<Rightarrow> ata_regs \<Rightarrow> bool"
  dev_status :: "'d \<Rightarrow> ata_regs \<Rightarrow> nat \<Rightarrow> u8"
  dev_read :: "'d \<Rightarrow> ata_regs \<Rightarrow> u8 list"
  dev_write :: "'d \<Rightarrow> ata_regs \<Rightarrow> u8 list \<Rightarrow> 'd"

text \<open>
  What is documented of a drive: in LBA mode, the command \<open>0x20\<close> makes it ready to give the sectors
  that the registers name, the command \<open>0x30\<close> to take them. Nothing is known of it otherwise.
\<close>

definition ata_drive :: "'d ata_dev \<Rightarrow> ('d \<Rightarrow> bool \<Rightarrow> disk) \<Rightarrow> bool" where
  "ata_drive dv content \<longleftrightarrow>
     (\<forall>d b. disk_wf (content d b)) \<and>
     (\<forall>d r. regs_lba_mode r \<and> reg_cmd r = 0x20 \<longrightarrow>
        drive_ready (dev_status dv d r) \<and>
        dev_read dv d r = read_sectors (content d (regs_slave r)) (regs_lba r) (regs_count r)) \<and>
     (\<forall>d r buf. regs_lba_mode r \<and> reg_cmd r = 0x30 \<and> length buf = 512 * regs_count r \<longrightarrow>
        drive_ready (dev_status dv d r) \<and>
        content (dev_write dv d r buf) = (content d)(regs_slave r :=
          write_sectors (content d (regs_slave r)) (regs_lba r) (regs_count r) buf))"

section \<open>The driver\<close>

definition read_from_sector :: "u8 list \<Rightarrow> u8 \<Rightarrow> u8 list res" where
  "read_from_sector data sec_cnt =
     (let size_in_byte = (if sec_cnt = 0 then 256 * 512 else unat sec_cnt * 512)
      in if size_in_byte \<le> length data then Inr (take size_in_byte data) else Inl (Fault ''insw''))"

definition write2sector :: "u8 list \<Rightarrow> u8 \<Rightarrow> u8 list res" where
  "write2sector buf sec_cnt =
     (let size_in_byte = (if sec_cnt = 0 then 256 * 512 else unat sec_cnt * 512)
      in if size_in_byte \<le> length buf then Inr (take size_in_byte buf) else Inl (Fault ''outsw''))"

definition next_op :: "u32 \<Rightarrow> u32 \<Rightarrow> u32" where
  "next_op sec_cnt secs_done = (if sec_cnt - secs_done \<ge> 256 then 256 else sec_cnt - secs_done)"

lemma next_op_progress:
  assumes "secs_done < sec_cnt"
  shows "unat (next_op sec_cnt secs_done) = min 256 (unat sec_cnt - unat secs_done)"
    and "unat (secs_done + next_op sec_cnt secs_done) = unat secs_done + unat (next_op sec_cnt secs_done)"
    and "0 < unat (next_op sec_cnt secs_done)"
proof -
  have lt: "unat secs_done < unat sec_cnt" using assms by (simp add: word_less_nat_alt)
  then have d: "unat (sec_cnt - secs_done) = unat sec_cnt - unat secs_done"
    by (intro unat_sub_u32) simp
  show 1: "unat (next_op sec_cnt secs_done) = min 256 (unat sec_cnt - unat secs_done)"
    by (auto simp: next_op_def word_le_nat_alt d)
  have "unat sec_cnt < 2 ^ 32" by simp
  with 1 lt show "unat (secs_done + next_op sec_cnt secs_done) =
      unat secs_done + unat (next_op sec_cnt secs_done)"
    by (intro unat_add_u32) linarith
  show "0 < unat (next_op sec_cnt secs_done)" using 1 lt by simp
qed

lemma next_op_measure:
  "secs_done < sec_cnt \<Longrightarrow>
   unat sec_cnt - unat (secs_done + next_op sec_cnt secs_done) < unat sec_cnt - unat secs_done"
  using next_op_progress [of secs_done sec_cnt] by (simp add: word_less_nat_alt)

text \<open>
  The loops over chunks of at most 256 sectors, by the thread \<open>cur\<close> on channel \<open>no\<close>. \<open>read_chunk\<close> and
  \<open>write_chunk\<close> are their bodies.
\<close>

definition read_chunk ::
    "'d ata_dev \<Rightarrow> 'd \<Rightarrow> tid \<Rightarrow> nat \<Rightarrow> u8 \<Rightarrow> u32 \<Rightarrow> u32 \<Rightarrow> ide_channel list \<Rightarrow> (u8 list \<times> ide_channel list) res" where
  "read_chunk dv d cur no dev_no start secs_op chs =
     rbind (select_sector dev_no start (ucast secs_op) (ch_regs (chs ! no))) (\<lambda>r.
     let chs = upd_chan no (\<lambda>ch. cmd_out 0x20 (set_regs r ch)) chs; r = ch_regs (chs ! no) in
     rbind (disk_wait (dev_early dv d r) cur no chs) (\<lambda>chs.
     if \<not> fst (busy_wait (dev_status dv d r)) then Inl (Panic ''read sector failed'')
     else
       rbind (read_from_sector (dev_read dv d r) (ucast secs_op)) (\<lambda>data. Inr (data, chs))))"

definition write_chunk ::
    "'d ata_dev \<Rightarrow> 'd \<Rightarrow> tid \<Rightarrow> nat \<Rightarrow> u8 \<Rightarrow> u32 \<Rightarrow> u32 \<Rightarrow> u8 list \<Rightarrow> ide_channel list \<Rightarrow> ('d \<times> ide_channel list) res" where
  "write_chunk dv d cur no dev_no start secs_op buf chs =
     rbind (select_sector dev_no start (ucast secs_op) (ch_regs (chs ! no))) (\<lambda>r.
     let chs = upd_chan no (\<lambda>ch. cmd_out 0x30 (set_regs r ch)) chs; r = ch_regs (chs ! no) in
     if \<not> fst (busy_wait (dev_status dv d r)) then Inl (Panic ''read sector failed'')
     else
       rbind (write2sector buf (ucast secs_op)) (\<lambda>data.
       rbind (disk_wait (dev_early dv d r) cur no chs) (\<lambda>chs. Inr (dev_write dv d r data, chs))))"

function ide_read_loop ::
    "'d ata_dev \<Rightarrow> 'd \<Rightarrow> tid \<Rightarrow> nat \<Rightarrow> u8 \<Rightarrow> u32 \<Rightarrow> u32 \<Rightarrow> u32 \<Rightarrow> ide_channel list \<Rightarrow>
     (u8 list \<times> ide_channel list) res" where
  "ide_read_loop dv d cur no dev_no lba sec_cnt secs_done chs =
     (if secs_done < sec_cnt
      then let secs_op = next_op sec_cnt secs_done
           in rbind (read_chunk dv d cur no dev_no (lba + secs_done) secs_op chs) (\<lambda>(data, chs).
              rbind (ide_read_loop dv d cur no dev_no lba sec_cnt (secs_done + secs_op) chs) (\<lambda>(rest, chs).
              Inr (data @ rest, chs)))
      else Inr ([], chs))"
  by pat_completeness auto
termination
  by (relation "measure (\<lambda>(dv, d, cur, no, dev_no, lba, sec_cnt, secs_done, chs). unat sec_cnt - unat secs_done)")
     (auto intro: next_op_measure)

function ide_write_loop ::
    "'d ata_dev \<Rightarrow> 'd \<Rightarrow> tid \<Rightarrow> nat \<Rightarrow> u8 \<Rightarrow> u32 \<Rightarrow> u32 \<Rightarrow> u32 \<Rightarrow> u8 list \<Rightarrow> ide_channel list \<Rightarrow>
     ('d \<times> ide_channel list) res" where
  "ide_write_loop dv d cur no dev_no lba sec_cnt secs_done buf chs =
     (if secs_done < sec_cnt
      then let secs_op = next_op sec_cnt secs_done
           in rbind (write_chunk dv d cur no dev_no (lba + secs_done) secs_op (drop (unat secs_done * 512) buf) chs) (\<lambda>(d, chs).
              ide_write_loop dv d cur no dev_no lba sec_cnt (secs_done + secs_op) buf chs)
      else Inr (d, chs))"
  by pat_completeness auto
termination
  by (relation "measure (\<lambda>(dv, d, cur, no, dev_no, lba, sec_cnt, secs_done, buf, chs). unat sec_cnt - unat secs_done)")
     (auto intro: next_op_measure)

text \<open>The channel's lock around them; the answer of \<open>chan_unlock\<close> is the thread that was unblocked.\<close>

definition chan_lock :: "tid \<Rightarrow> nat \<Rightarrow> ide_channel list \<Rightarrow> ide_channel list res" where
  "chan_lock cur no chs =
     rbind (lock_acquire cur (ch_lock (chs ! no))) (\<lambda>l. Inr (upd_chan no (\<lambda>ch. ch\<lparr>ch_lock := l\<rparr>) chs))"

definition chan_unlock :: "tid \<Rightarrow> nat \<Rightarrow> ide_channel list \<Rightarrow> (tid option \<times> ide_channel list) res" where
  "chan_unlock cur no chs =
     rbind (lock_release cur (ch_lock (chs ! no))) (\<lambda>(woken, l).
     Inr (woken, upd_chan no (\<lambda>ch. ch\<lparr>ch_lock := l\<rparr>) chs))"

definition ide_read ::
    "'d ata_dev \<Rightarrow> 'd \<Rightarrow> tid \<Rightarrow> nat \<Rightarrow> u8 \<Rightarrow> u32 \<Rightarrow> u32 \<Rightarrow> ide_channel list \<Rightarrow>
     (u8 list \<times> tid option \<times> ide_channel list) res" where
  "ide_read dv d cur no dev_no lba sec_cnt chs =
     rbind (rassert ''lba <= max_lba'' (lba \<le> max_lba)) (\<lambda>_.
     rbind (rassert ''sec_cnt > 0'' (sec_cnt > 0)) (\<lambda>_.
     rbind (chan_lock cur no chs) (\<lambda>chs.
     let chs = upd_chan no (\<lambda>ch. set_regs (select_disk dev_no (ch_regs ch)) ch) chs in
     rbind (ide_read_loop dv d cur no dev_no lba sec_cnt 0 chs) (\<lambda>(data, chs).
     rbind (chan_unlock cur no chs) (\<lambda>(woken, chs). Inr (data, woken, chs))))))"

definition ide_write ::
    "'d ata_dev \<Rightarrow> 'd \<Rightarrow> tid \<Rightarrow> nat \<Rightarrow> u8 \<Rightarrow> u32 \<Rightarrow> u8 list \<Rightarrow> u32 \<Rightarrow> ide_channel list \<Rightarrow>
     ('d \<times> tid option \<times> ide_channel list) res" where
  "ide_write dv d cur no dev_no lba buf sec_cnt chs =
     rbind (rassert ''sec_cnt <= max_lba'' (sec_cnt \<le> max_lba)) (\<lambda>_.
     rbind (rassert ''sec_cnt > 0'' (sec_cnt > 0)) (\<lambda>_.
     rbind (chan_lock cur no chs) (\<lambda>chs.
     let chs = upd_chan no (\<lambda>ch. set_regs (select_disk dev_no (ch_regs ch)) ch) chs in
     rbind (ide_write_loop dv d cur no dev_no lba sec_cnt 0 buf chs) (\<lambda>(d, chs).
     rbind (chan_unlock cur no chs) (\<lambda>(woken, chs). Inr (d, woken, chs))))))"

declare ide_read_loop.simps [simp del] ide_write_loop.simps [simp del]

section \<open>The registers carry the address\<close>

lemma max_lba_val: "max_lba = 163839"
  by (simp add: max_lba_def)

lemma regs_lba_select:
  assumes "select_sector dev_no lba c r = Inr r'"
  shows "regs_lba r' = lba"
proof (rule bit_word_eqI)
  fix n assume "n < LENGTH(32)"
  then have n: "n < 32" by simp
  from assms have le: "lba \<le> max_lba" and r': "r' = r\<lparr>reg_sect_cnt := c, reg_lba_l := ucast lba,
      reg_lba_m := ucast (drop_bit 8 lba), reg_lba_h := ucast (drop_bit 16 lba),
      reg_dev := ucast (0xa0 OR 0x40 OR (if dev_no = 1 then 0x10 else 0) OR drop_bit 24 lba)\<rparr>"
    by (auto simp: select_sector_def rbind_eq_Inr)
  have "unat lba < 2 ^ 24" using le by (simp add: max_lba_val word_le_nat_alt)
  then have "take_bit 24 lba = lba"
    by (metis take_bit_nat_eq_self unsigned_take_bit_eq word_unat_eq_iff)
  then have high: "\<not> bit lba m" if "24 \<le> m" for m
    using that by (metis bit_take_bit_iff linorder_not_less)
  have low: "\<not> bit (160 :: int) m" "\<not> bit (64 :: int) m" "\<not> bit (16 :: int) m" if "m < 4" for m
  proof -
    from that have "m = 0 \<or> m = 1 \<or> m = 2 \<or> m = 3" by auto
    then show "\<not> bit (160 :: int) m" "\<not> bit (64 :: int) m" "\<not> bit (16 :: int) m" by auto
  qed
  have nib: "bit (15 :: int) m \<longleftrightarrow> m < 4" for m
    using bit_mask_iff [where 'a = int, of 4 m] by (simp add: mask_eq_exp_minus_1)
  consider "n < 8" | "8 \<le> n" "n < 16" | "16 \<le> n" "n < 24" | "24 \<le> n" by linarith
  then show "bit (regs_lba r') n \<longleftrightarrow> bit lba n"
    by cases (auto simp: r' regs_lba_def bit_or_iff bit_and_iff bit_push_bit_iff bit_ucast_iff
        bit_drop_bit_eq high low nib dest: bit_imp_le_length)
qed

lemma regs_slave_select:
  assumes "select_sector dev_no lba c r = Inr r'"
  shows "regs_slave r' \<longleftrightarrow> dev_no = 1"
proof -
  from assms have le: "lba \<le> max_lba" and r': "reg_dev r' =
      ucast (0xa0 OR 0x40 OR (if dev_no = 1 then 0x10 else 0) OR drop_bit 24 lba)"
    by (auto simp: select_sector_def rbind_eq_Inr)
  have "unat lba < 2 ^ 24" using le by (simp add: max_lba_val word_le_nat_alt)
  then have "take_bit 24 lba = lba"
    by (metis take_bit_nat_eq_self unsigned_take_bit_eq word_unat_eq_iff)
  then have "bit lba 28 = bit (take_bit 24 lba) 28" by simp
  then have "\<not> bit lba 28" by (simp add: bit_take_bit_iff)
  then show ?thesis
    by (simp add: regs_slave_def r' bit_or_iff bit_ucast_iff bit_drop_bit_eq)
qed

lemma regs_lba_mode_select:
  assumes "select_sector dev_no lba c r = Inr r'"
  shows "regs_lba_mode r'"
  using assms by (auto simp: select_sector_def rbind_eq_Inr regs_lba_mode_def bit_or_iff bit_ucast_iff)

lemma regs_cmd [simp]:
  "regs_lba (r\<lparr>reg_cmd := c\<rparr>) = regs_lba r" "regs_slave (r\<lparr>reg_cmd := c\<rparr>) = regs_slave r"
  "regs_count (r\<lparr>reg_cmd := c\<rparr>) = regs_count r" "regs_lba_mode (r\<lparr>reg_cmd := c\<rparr>) = regs_lba_mode r"
  by (simp_all add: regs_lba_def regs_slave_def regs_count_def regs_lba_mode_def)

section \<open>The driver reads and writes the sectors asked for\<close>

lemma unat_shift:
  assumes "m < 2 ^ 32"
  shows "unat (s - (lba + of_nat m) :: u32) =
    (if m \<le> unat (s - lba) then unat (s - lba) - m else 2 ^ 32 - (m - unat (s - lba)))"
proof -
  have eq: "s - (lba + of_nat m) = (s - lba) - of_nat m" by simp
  have "unat (x - of_nat m :: u32) = (if m \<le> unat x then unat x - m else 2 ^ 32 - (m - unat x))" for x
  proof -
    have "unat (x - of_nat m) = (if m \<le> unat x then unat x - m else unat x + 2 ^ 32 - m)"
      using assms by (simp add: unat_sub_if' unat_of_nat_u32 word_le_nat_alt)
    then show ?thesis by (simp split: if_splits)
  qed
  then show ?thesis unfolding eq .
qed

lemma write_sectors_add:
  assumes "m + n < 2 ^ 32"
  shows "write_sectors (write_sectors d lba m buf) (lba + of_nat m) n (drop (512 * m) buf) =
    write_sectors d lba (m + n) buf"
proof
  fix s
  show "write_sectors (write_sectors d lba m buf) (lba + of_nat m) n (drop (512 * m) buf) s =
    write_sectors d lba (m + n) buf s"
  proof (cases "m \<le> unat (s - lba)")
    case True
    then have "512 * m + 512 * (unat (s - lba) - m) = 512 * unat (s - lba)" by simp
    with True assms unat_shift [of m s lba] show ?thesis
      by (auto simp: write_sectors_def slice_def add.commute less_diff_conv)
  next
    case False
    with assms unat_shift [of m s lba] show ?thesis by (auto simp: write_sectors_def)
  qed
qed

lemma select_sector_run:
  assumes "lba \<le> max_lba"
  obtains r' where "select_sector dev_no lba c r = Inr r'" and "regs_lba r' = lba"
    and "regs_slave r' \<longleftrightarrow> dev_no = 1" and "reg_sect_cnt r' = c" and "regs_lba_mode r'"
proof -
  obtain r' where r': "select_sector dev_no lba c r = Inr r'" "reg_sect_cnt r' = c"
    using assms by (auto simp: select_sector_def)
  with regs_lba_select regs_slave_select regs_lba_mode_select that show ?thesis by blast
qed

lemma chunk_count:
  assumes "0 < unat op" and "unat op \<le> 256"
  shows "(if (ucast op :: u8) = 0 then 256 else unat (ucast op :: u8)) = unat (op :: u32)"
proof -
  have "unat (ucast op :: u8) = unat op mod 256"
    by (simp add: unsigned_ucast_eq take_bit_eq_mod)
  then show ?thesis
    using assms by (cases "unat op = 256") (auto simp: unat_eq_zero [symmetric])
qed

lemma chunk_size:
  "(if b = 0 then 256 else unat b) = n \<Longrightarrow>
   (if b = 0 then 256 * 512 else unat (b :: u8) * 512) = 512 * n"
  by auto

lemma lba_in_range:
  assumes "unat lba + unat sec_cnt \<le> 163840" and "unat secs_done < unat sec_cnt"
  shows "lba + secs_done \<le> max_lba"
  using assms by (simp add: word_le_nat_alt max_lba_val unat_add_u32)

lemma set_regs_twice: "upd_chan no (set_regs r) (upd_chan no (set_regs r') chs) = upd_chan no (set_regs r) chs"
  by (cases "no < length chs") (simp_all add: upd_chan_def set_regs_def list_update_beyond)

lemma set_regs_same: "upd_chan no (set_regs (ch_regs (chs ! no))) chs = chs"
  by (simp add: upd_chan_def set_regs_def)

lemma regs_count_op:
  assumes "0 < unat op" and "unat op \<le> 256" and "reg_sect_cnt r = ucast (op :: u32)"
  shows "regs_count r = unat op"
  unfolding regs_count_def assms(3) by (rule chunk_count [OF assms(1,2)])

lemma cmd_regs:
  "chan_idle no chs \<Longrightarrow> ch_regs (upd_chan no (\<lambda>ch. cmd_out cmd (set_regs r ch)) chs ! no) = r\<lparr>reg_cmd := cmd\<rparr>"
  by (simp add: chan_idle_def upd_chan_def cmd_out_def set_regs_def)

lemma read_chunk_run:
  assumes drv: "ata_drive dv content" and idle: "chan_idle no chs" and start: "start \<le> max_lba"
    and op: "0 < unat op" "unat op \<le> 256"
  obtains r where "read_chunk dv d cur no dev_no start op chs =
    Inr (read_sectors (content d (dev_no = 1)) start (unat op), upd_chan no (set_regs r) chs)"
proof -
  obtain r where r: "select_sector dev_no start (ucast op) (ch_regs (chs ! no)) = Inr r"
    "regs_lba r = start" "regs_slave r \<longleftrightarrow> dev_no = 1" "reg_sect_cnt r = ucast op" "regs_lba_mode r"
    using select_sector_run [OF start] by metis
  let ?r = "r\<lparr>reg_cmd := 0x20\<rparr>" and ?data = "read_sectors (content d (dev_no = 1)) start (unat op)"
  have cnt: "regs_count r = unat op" by (rule regs_count_op [OF op r(4)])
  have dv: "drive_ready (dev_status dv d ?r)" "dev_read dv d ?r = ?data" "disk_wf (content d (dev_no = 1))"
    using drv r(2,3,5) cnt by (simp_all add: ata_drive_def)
  have len: "length ?data = 512 * unat op" using dv(3) by simp
  have data: "read_from_sector ?data (ucast op) = Inr ?data"
    unfolding read_from_sector_def Let_def chunk_size [OF chunk_count [OF op]] len
    by (simp only: order_refl if_True take_all len)
  have "read_chunk dv d cur no dev_no start op chs = Inr (?data, upd_chan no (set_regs ?r) chs)"
    using r(1) dv(2) data busy_wait_ready [OF dv(1)]
    by (simp add: read_chunk_def Let_def disk_wait_run [OF idle] cmd_regs [OF idle])
  then show ?thesis by (rule that)
qed

lemma ide_read_loop_run:
  assumes drv: "ata_drive dv content" and range: "unat lba + unat sec_cnt \<le> 163840"
  shows "secs_done \<le> sec_cnt \<Longrightarrow> chan_idle no chs \<Longrightarrow> \<exists>r. ide_read_loop dv d cur no dev_no lba sec_cnt secs_done chs =
    Inr (read_sectors (content d (dev_no = 1)) (lba + secs_done) (unat sec_cnt - unat secs_done), upd_chan no (set_regs r) chs)"
proof (induction "unat sec_cnt - unat secs_done" arbitrary: secs_done chs rule: less_induct)
  case less
  let ?c = "content d (dev_no = 1)"
  show ?case
  proof (cases "secs_done < sec_cnt")
    case False
    with less.prems have "secs_done = sec_cnt" by simp
    then show ?thesis by (intro exI [of _ "ch_regs (chs ! no)"]) (simp add: ide_read_loop.simps set_regs_same)
  next
    case True
    let ?op = "next_op sec_cnt secs_done"
    note op = next_op_progress [OF True]
    have lt: "unat secs_done < unat sec_cnt" using True by (simp add: word_less_nat_alt)
    obtain r1 where r1: "read_chunk dv d cur no dev_no (lba + secs_done) ?op chs =
        Inr (read_sectors ?c (lba + secs_done) (unat ?op), upd_chan no (set_regs r1) chs)"
      by (rule read_chunk_run [OF drv less.prems(2) lba_in_range [OF range lt] op(3)]) (simp_all add: op)
    have le: "secs_done + ?op \<le> sec_cnt"
      using op lt by (simp add: word_le_nat_alt)
    obtain r where r: "ide_read_loop dv d cur no dev_no lba sec_cnt (secs_done + ?op) (upd_chan no (set_regs r1) chs) =
        Inr (read_sectors ?c (lba + (secs_done + ?op)) (unat sec_cnt - unat (secs_done + ?op)), upd_chan no (set_regs r) chs)"
      using less.hyps [OF next_op_measure [OF True] le chan_idle_regs [OF less.prems(2), of r1]] by (auto simp: set_regs_twice)
    have "unat sec_cnt - unat secs_done = unat ?op + (unat sec_cnt - unat (secs_done + ?op))"
      using op lt by simp
    then show ?thesis
      using True r1 r by (subst ide_read_loop.simps) (simp add: Let_def read_sectors_add add.assoc exI [of _ r])
  qed
qed

lemma slice_take: "k < n \<Longrightarrow> slice (512 * k) 512 (take (512 * n) buf) = slice (512 * k) 512 buf"
proof -
  assume "k < n"
  then have "512 * k + 512 \<le> 512 * n" by linarith
  then have "min (512 * n - 512 * k) 512 = 512" by simp
  then show ?thesis by (simp add: slice_def drop_take)
qed

lemma write_chunk_run:
  assumes drv: "ata_drive dv content" and idle: "chan_idle no chs" and start: "start \<le> max_lba"
    and op: "0 < unat op" "unat op \<le> 256" and buf: "512 * unat op \<le> length buf"
  obtains d' r where "write_chunk dv d cur no dev_no start op buf chs = Inr (d', upd_chan no (set_regs r) chs)"
    and "content d' = (content d)((dev_no = 1) := write_sectors (content d (dev_no = 1)) start (unat op) buf)"
proof -
  obtain r where r: "select_sector dev_no start (ucast op) (ch_regs (chs ! no)) = Inr r"
    "regs_lba r = start" "regs_slave r \<longleftrightarrow> dev_no = 1" "reg_sect_cnt r = ucast op" "regs_lba_mode r"
    using select_sector_run [OF start] by metis
  let ?r = "r\<lparr>reg_cmd := 0x30\<rparr>" and ?data = "take (512 * unat op) buf"
  have cnt: "regs_count r = unat op" by (rule regs_count_op [OF op r(4)])
  have on: "regs_lba_mode ?r \<and> reg_cmd ?r = 0x30 \<and> length ?data = 512 * regs_count ?r" using buf cnt r(5) by simp
  have dv: "drive_ready (dev_status dv d ?r)"
    "content (dev_write dv d ?r ?data) = (content d)((dev_no = 1) := write_sectors (content d (dev_no = 1)) start (unat op) ?data)"
    using drv [unfolded ata_drive_def, THEN conjunct2, THEN conjunct2, rule_format, OF on] by (simp_all add: r(2,3) cnt)
  have "write_sectors c start (unat op) ?data = write_sectors c start (unat op) buf" for c
    by (auto simp: write_sectors_def fun_eq_iff slice_take)
  then have content: "content (dev_write dv d ?r ?data) =
      (content d)((dev_no = 1) := write_sectors (content d (dev_no = 1)) start (unat op) buf)" using dv(2) by simp
  have data: "write2sector buf (ucast op) = Inr ?data"
    unfolding write2sector_def Let_def chunk_size [OF chunk_count [OF op]] using buf by simp
  have "write_chunk dv d cur no dev_no start op buf chs = Inr (dev_write dv d ?r ?data, upd_chan no (set_regs ?r) chs)"
    using r(1) data busy_wait_ready [OF dv(1)]
    by (simp add: write_chunk_def Let_def disk_wait_run [OF idle] cmd_regs [OF idle])
  then show ?thesis by (rule that) (rule content)
qed

lemma ide_write_loop_run:
  assumes drv: "ata_drive dv content" and range: "unat lba + unat sec_cnt \<le> 163840"
    and buf: "512 * unat sec_cnt \<le> length buf"
  shows "secs_done \<le> sec_cnt \<Longrightarrow> chan_idle no chs \<Longrightarrow>
    \<exists>d' r. ide_write_loop dv d cur no dev_no lba sec_cnt secs_done buf chs = Inr (d', upd_chan no (set_regs r) chs) \<and>
    content d' = (content d)((dev_no = 1) := write_sectors (content d (dev_no = 1)) (lba + secs_done)
      (unat sec_cnt - unat secs_done) (drop (512 * unat secs_done) buf))"
proof (induction "unat sec_cnt - unat secs_done" arbitrary: secs_done d chs rule: less_induct)
  case less
  show ?case
  proof (cases "secs_done < sec_cnt")
    case False
    with less.prems have "secs_done = sec_cnt" by simp
    then show ?thesis by (intro exI [of _ d] exI [of _ "ch_regs (chs ! no)"]) (simp add: ide_write_loop.simps set_regs_same)
  next
    case True
    let ?op = "next_op sec_cnt secs_done" and ?c = "content d (dev_no = 1)"
    let ?rest = "drop (512 * unat secs_done) buf" and ?left = "unat sec_cnt - unat (secs_done + next_op sec_cnt secs_done)"
    note op = next_op_progress [OF True]
    have lt: "unat secs_done < unat sec_cnt" using True by (simp add: word_less_nat_alt)
    have "512 * unat ?op \<le> length ?rest" using op(1) lt buf by (simp add: le_diff_conv2)
    then obtain d1 r1 where d1: "write_chunk dv d cur no dev_no (lba + secs_done) ?op ?rest chs = Inr (d1, upd_chan no (set_regs r1) chs)"
      and c1: "content d1 = (content d)((dev_no = 1) := write_sectors ?c (lba + secs_done) (unat ?op) ?rest)"
      by (rule write_chunk_run [OF drv less.prems(2) lba_in_range [OF range lt] op(3), rotated 1]) (simp_all add: op)
    have le: "secs_done + ?op \<le> sec_cnt" using op lt by (simp add: word_le_nat_alt)
    obtain d' r where d': 
      "ide_write_loop dv d1 cur no dev_no lba sec_cnt (secs_done + ?op) buf (upd_chan no (set_regs r1) chs) = Inr (d', upd_chan no (set_regs r) chs)"
      "content d' = (content d1)((dev_no = 1) := write_sectors (content d1 (dev_no = 1))
        (lba + (secs_done + ?op)) ?left (drop (512 * unat (secs_done + ?op)) buf))"
      using less.hyps [OF next_op_measure [OF True] le chan_idle_regs [OF less.prems(2), of r1], of d1] by (auto simp: set_regs_twice)
    have "ide_write_loop dv d cur no dev_no lba sec_cnt secs_done buf chs = Inr (d', upd_chan no (set_regs r) chs)"
      using True d1 d'(1) by (subst ide_write_loop.simps) (simp add: Let_def mult.commute)
    moreover have "write_sectors (content d1 (dev_no = 1)) (lba + (secs_done + ?op)) ?left (drop (512 * unat (secs_done + ?op)) buf) =
      write_sectors ?c (lba + secs_done) (unat sec_cnt - unat secs_done) ?rest"
    proof -
      have "unat ?op + ?left = unat sec_cnt - unat secs_done" using op lt by simp
      moreover have "unat sec_cnt - unat secs_done < 2 ^ 32"
        by (rule le_less_trans [OF diff_le_self]) simp
      moreover have "drop (512 * unat ?op) ?rest = drop (512 * unat (secs_done + ?op)) buf"
        using op(2) by (simp add: algebra_simps)
      ultimately show ?thesis
        using write_sectors_add [of "unat ?op" ?left ?c "lba + secs_done" ?rest] c1
        by (simp add: add.assoc del: drop_drop)
    qed
    ultimately show ?thesis using d'(2) c1 by (intro exI [of _ d'] exI [of _ r]) simp
  qed
qed

text \<open>The lock around a request.\<close>

definition chan_free :: "nat \<Rightarrow> ide_channel list \<Rightarrow> bool" where
  "chan_free no chs \<longleftrightarrow> chan_idle no chs \<and> ch_lock (chs ! no) = lock_init"

lemma chan_locked:
  assumes free: "chan_free no chs" and cur: "cur \<noteq> 0"
  obtains l where "chan_lock cur no chs = Inr (upd_chan no (\<lambda>ch. ch\<lparr>ch_lock := l\<rparr>) chs)"
    and "chan_idle no (upd_chan no (set_regs r) (upd_chan no (\<lambda>ch. ch\<lparr>ch_lock := l\<rparr>) chs))"
    and "\<And>r'. chan_unlock cur no (upd_chan no (set_regs r') (upd_chan no (\<lambda>ch. ch\<lparr>ch_lock := l\<rparr>) chs)) =
      Inr (None, upd_chan no (set_regs r') chs)"
proof
  let ?l = "\<lparr>holder = cur, sema = sema_init 0, holder_repeat_nr = 1\<rparr>"
  have c: "no < length chs" "ch_lock (chs ! no) = lock_init" "chan_idle no chs" using free by (auto simp: chan_free_def chan_idle_def)
  have same: "(chs ! no)\<lparr>ch_regs := r', ch_lock := lock_init\<rparr> = (chs ! no)\<lparr>ch_regs := r'\<rparr>" for r'
    using c(2) by (cases "chs ! no") simp
  show "chan_lock cur no chs = Inr (upd_chan no (\<lambda>ch. ch\<lparr>ch_lock := ?l\<rparr>) chs)"
    by (simp add: chan_lock_def c(2) lock_acquire_free [OF cur])
  show "chan_idle no (upd_chan no (set_regs r) (upd_chan no (\<lambda>ch. ch\<lparr>ch_lock := ?l\<rparr>) chs))"
    by (intro chan_idle_regs chan_idle_lock c(3))
  show "chan_unlock cur no (upd_chan no (set_regs r') (upd_chan no (\<lambda>ch. ch\<lparr>ch_lock := ?l\<rparr>) chs)) =
      Inr (None, upd_chan no (set_regs r') chs)" for r'
    using c(1) same by (simp add: chan_unlock_def upd_chan_def set_regs_def lock_release_held)
qed

section \<open>Properties\<close>

text \<open>C35: For a drive that in LBA mode answers the read command with the sectors its registers name, within
  the patience of \<open>busy_wait\<close>, and with its interrupt before or after the thread sleeps: \<open>ide_read\<close> of a
  range inside the supported disk returns exactly the sectors of that range of that drive, however
  the request is cut into chunks of 256 sectors; and it leaves the channel (but for its registers)
  as it was, the lock free, no interrupt expected, ready for the next request.\<close>

theorem ide_read_correct:
  assumes "ata_drive dv content" and "0 < sec_cnt" and "unat lba + unat sec_cnt \<le> 163840"
    and "chan_free no chs" and "cur \<noteq> 0"
  shows "\<exists>r. ide_read dv d cur no dev_no lba sec_cnt chs =
    Inr (read_sectors (content d (dev_no = 1)) lba (unat sec_cnt), None, upd_chan no (set_regs r) chs)"
proof -
  obtain l where l: "chan_lock cur no chs = Inr (upd_chan no (\<lambda>ch. ch\<lparr>ch_lock := l\<rparr>) chs)"
    "chan_idle no (upd_chan no (set_regs (select_disk dev_no (ch_regs (chs ! no)))) (upd_chan no (\<lambda>ch. ch\<lparr>ch_lock := l\<rparr>) chs))"
    "\<And>r'. chan_unlock cur no (upd_chan no (set_regs r') (upd_chan no (\<lambda>ch. ch\<lparr>ch_lock := l\<rparr>) chs)) =
      Inr (None, upd_chan no (set_regs r') chs)"
    by (rule chan_locked [OF assms(4,5)]) (rule that; assumption)
  have regs: "upd_chan no (\<lambda>ch. set_regs (select_disk dev_no (ch_regs ch)) ch) (upd_chan no (\<lambda>ch. ch\<lparr>ch_lock := l\<rparr>) chs) =
      upd_chan no (set_regs (select_disk dev_no (ch_regs (chs ! no)))) (upd_chan no (\<lambda>ch. ch\<lparr>ch_lock := l\<rparr>) chs)"
    using assms(4) by (simp add: upd_chan_def chan_free_def chan_idle_def)
  have "lba \<le> max_lba"
    using assms(2,3) by (simp add: word_le_nat_alt word_less_nat_alt max_lba_val)
  then show ?thesis
    using assms(2) ide_read_loop_run [OF assms(1,3) _ l(2), of 0 d cur dev_no]
    by (auto simp: ide_read_def l(1,3) regs Let_def set_regs_twice)
qed

text \<open>C36: \<open>ide_write\<close> changes exactly the sectors of the range, on the drive that was named, to the
  bytes of the buffer, for a drive that takes the sectors its registers name when it is given the
  write command in LBA mode; it leaves the channel ready for the next request. (Its first assertion
  bounds the count, where \<open>ide_read\<close> bounds the address: the address is only checked chunk by chunk.)\<close>

theorem ide_write_correct:
  assumes "ata_drive dv content" and "0 < sec_cnt" and "unat lba + unat sec_cnt \<le> 163840"
    and "512 * unat sec_cnt \<le> length buf" and "sec_cnt \<le> max_lba"
    and "chan_free no chs" and "cur \<noteq> 0"
  shows "\<exists>d' r. ide_write dv d cur no dev_no lba buf sec_cnt chs = Inr (d', None, upd_chan no (set_regs r) chs) \<and>
    content d' = (content d)((dev_no = 1) :=
      write_sectors (content d (dev_no = 1)) lba (unat sec_cnt) buf)"
proof -
  obtain l where l: "chan_lock cur no chs = Inr (upd_chan no (\<lambda>ch. ch\<lparr>ch_lock := l\<rparr>) chs)"
    "chan_idle no (upd_chan no (set_regs (select_disk dev_no (ch_regs (chs ! no)))) (upd_chan no (\<lambda>ch. ch\<lparr>ch_lock := l\<rparr>) chs))"
    "\<And>r'. chan_unlock cur no (upd_chan no (set_regs r') (upd_chan no (\<lambda>ch. ch\<lparr>ch_lock := l\<rparr>) chs)) =
      Inr (None, upd_chan no (set_regs r') chs)"
    by (rule chan_locked [OF assms(6,7)]) (rule that; assumption)
  have regs: "upd_chan no (\<lambda>ch. set_regs (select_disk dev_no (ch_regs ch)) ch) (upd_chan no (\<lambda>ch. ch\<lparr>ch_lock := l\<rparr>) chs) =
      upd_chan no (set_regs (select_disk dev_no (ch_regs (chs ! no)))) (upd_chan no (\<lambda>ch. ch\<lparr>ch_lock := l\<rparr>) chs)"
    using assms(6) by (simp add: upd_chan_def chan_free_def chan_idle_def)
  show ?thesis
    using assms(2,5) ide_write_loop_run [OF assms(1,3,4) _ l(2), of 0 d cur dev_no]
    by (auto simp: ide_write_def l(1,3) regs Let_def set_regs_twice)
qed

text \<open>
  A pair of drives that keeps its sectors in memory, for the witnesses: it is busy for a while, gives
  zeros and loses what is written outside LBA mode, and its interrupt comes late for odd addresses.
\<close>

definition ram_dev :: "(bool \<Rightarrow> disk) ata_dev" where
  "ram_dev = \<lparr>dev_early = (\<lambda>d r. \<not> bit (regs_lba r) 0),
     dev_status = (\<lambda>d r k. if k < 3 then 0x80 else 0x48),
     dev_read = (\<lambda>d r. if regs_lba_mode r \<and> reg_cmd r = 0x20
        then read_sectors (d (regs_slave r)) (regs_lba r) (regs_count r) else replicate 512 0),
     dev_write = (\<lambda>d r buf. if regs_lba_mode r \<and> reg_cmd r = 0x30
        then d(regs_slave r := write_sectors (d (regs_slave r)) (regs_lba r) (regs_count r) buf) else d)\<rparr>"

text \<open>Sectors of any other length are padded or cut.\<close>

definition ram_content :: "(bool \<Rightarrow> disk) \<Rightarrow> bool \<Rightarrow> disk" where
  "ram_content d b = (\<lambda>s. take 512 (d b s @ replicate 512 0))"

definition ram_drive :: "(bool \<Rightarrow> disk) ata_dev" where
  "ram_drive = ram_dev\<lparr>dev_read := (\<lambda>d. dev_read ram_dev (ram_content d)),
     dev_write := (\<lambda>d. dev_write ram_dev (ram_content d))\<rparr>"

lemma ram_drive_ok: "ata_drive ram_drive ram_content"
proof -
  have wf: "disk_wf (ram_content d b)" for d b by (auto simp: disk_wf_def ram_content_def min_def)
  have same: "ram_content d = d" if "\<And>b. disk_wf (d b)" for d
    using that by (auto simp: fun_eq_iff ram_content_def disk_wf_def)
  have upd: "disk_wf (((ram_content d)(b := write_sectors (ram_content d b) l n buf)) c)"
    if "length buf = 512 * n" for d b c l n buf
    using wf that by (simp add: write_sectors_wf)
  have "drive_ready (\<lambda>k. if k < 3 then 0x80 else 0x48)"
    unfolding drive_ready_def by (intro exI [of _ 3]) simp
  moreover have "ram_content ((ram_content d)(b := write_sectors (ram_content d b) l n buf)) =
      (ram_content d)(b := write_sectors (ram_content d b) l n buf)" if "length buf = 512 * n" for d b l n buf
    by (rule same) (rule upd [OF that])
  ultimately show ?thesis
    using wf by (auto simp: ata_drive_def ram_drive_def ram_dev_def)
qed

definition reset_regs :: ata_regs where
  "reset_regs = \<lparr>reg_sect_cnt = 1, reg_lba_l = 1, reg_lba_m = 0, reg_lba_h = 0, reg_dev = 0, reg_cmd = 0\<rparr>"

definition sample_channels :: "ide_channel list" where
  "sample_channels = List.map (\<lambda>i. \<lparr>ch_name = replicate 8 0, port_base = 0x1f0, irq_no = i,
     ch_lock = lock_init, expecting_intr = False, disk_done = sema_init 0, ch_regs = reset_regs\<rparr>) [0x2e, 0x2f]"

lemma sample_free: "chan_free 0 sample_channels" "chan_free 1 sample_channels"
  by (simp_all add: chan_free_def chan_idle_def sample_channels_def)

theorem ide_read_correct_witness:
  "\<exists>chs. ide_read ram_drive (\<lambda>_ _. replicate 512 7) 4096 0 1 100 300 sample_channels =
    Inr (read_sectors (ram_content (\<lambda>_ _. replicate 512 7) True) 100 300, None, chs)"
  using ide_read_correct [OF ram_drive_ok _ _ sample_free(1), of 300 100 4096 "\<lambda>_ _. replicate 512 7" 1] by auto

theorem ide_write_correct_witness:
  "\<exists>d' chs. ide_write ram_drive (\<lambda>_ _. []) 4096 0 1 100 (replicate 1024 9) 2 sample_channels = Inr (d', None, chs) \<and>
    ram_content d' True 101 = slice 512 512 (replicate 1024 9)"
proof -
  have "(2 :: u32) \<le> max_lba" by (simp add: max_lba_val)
  with ide_write_correct [OF ram_drive_ok _ _ _ _ sample_free(1), of 2 100 "replicate 1024 9" 4096 "\<lambda>_ _. []" 1]
  obtain d' chs where "ide_write ram_drive (\<lambda>_ _. []) 4096 0 1 100 (replicate 1024 9) 2 sample_channels = Inr (d', None, chs)"
    "ram_content d' = (ram_content (\<lambda>_ _. []))(True :=
      write_sectors (ram_content (\<lambda>_ _. []) True) 100 2 (replicate 1024 9))" by auto
  then show ?thesis by (auto simp: write_sectors_def)
qed

end
