(* ===== verification/Bitmap.thy ===== *)
theory Bitmap
  imports Prelude
begin

text \<open>
  \<open>lib/bitmap.c\<close>: the bitmaps from which the kernel allocates physical pages, virtual
  pages, process ids, inodes and disk blocks. A \<open>struct bitmap\<close> is a length in bytes and a
  pointer to bytes; the model holds the bytes that start at that pointer, and a read or
  write past them is a \<open>Fault\<close>. The theory closes with the contract of a pool of slots
  that every allocator of the kernel provides (\<open>slot_pool\<close>), and the bitmap's own
  interpretation of it.
\<close>

section \<open>Data and operations\<close>

record bitmap =
  btmp_bytes_len :: u32
  bits :: "u8 list"

definition bitmap_init :: "bitmap \<Rightarrow> bitmap res" where
  "bitmap_init b =
     (let n = unat (btmp_bytes_len b)
      in if n \<le> length (bits b)
         then Inr (b\<lparr>bits := replicate n 0 @ drop n (bits b)\<rparr>)
         else Inl (Fault ''memset''))"

definition bitmap_scan_test :: "bitmap \<Rightarrow> u32 \<Rightarrow> bool res" where
  "bitmap_scan_test b bit_idx =
     (let byte_idx = bit_idx div 8;
          bit_odd = bit_idx mod 8
      in if unat byte_idx < length (bits b)
         then Inr (bits b ! unat byte_idx AND push_bit (unat bit_odd) 1 \<noteq> 0)
         else Inl (Fault ''btmp->bits[byte_idx]''))"

text \<open>The byte loop of \<open>bitmap_scan\<close>: the byte is read before the index is compared.\<close>

function scan_byte :: "bitmap \<Rightarrow> nat \<Rightarrow> nat res" where
  "scan_byte b idx_byte =
     (if idx_byte < length (bits b)
      then (if bits b ! idx_byte = 255 \<and> idx_byte < unat (btmp_bytes_len b)
            then scan_byte b (Suc idx_byte)
            else Inr idx_byte)
      else Inl (Fault ''btmp->bits[idx_byte]''))"
  by pat_completeness auto
termination
  by (relation "measure (\<lambda>(b, i). length (bits b) - i)") auto

text \<open>
  The bit loop: the mask \<open>(uint8_t)(BITMAP_MASK << idx_bit)\<close> is 0 from index 8 on, which
  ends the loop.
\<close>

function scan_bit :: "u8 \<Rightarrow> nat \<Rightarrow> nat" where
  "scan_bit w idx_bit =
     (if push_bit idx_bit 1 AND w \<noteq> 0 then scan_bit w (Suc idx_bit) else idx_bit)"
  by pat_completeness auto
termination
  by (relation "measure (\<lambda>(w, i). 8 - i)")
     (auto simp: and_exp_eq_0_iff_not_bit and.commute [of "2 ^ _"] dest: bit_imp_le_length)

text \<open>
  The loop over the following bits. The first argument is \<open>bit_left\<close>, the number of
  iterations that remain.
\<close>

fun scan_run :: "bitmap \<Rightarrow> u32 \<Rightarrow> nat \<Rightarrow> u32 \<Rightarrow> u32 \<Rightarrow> s32 res" where
  "scan_run b cnt 0 next_bit count = Inr (-1)"
| "scan_run b cnt (Suc bit_left) next_bit count =
     rbind (bitmap_scan_test b next_bit) (\<lambda>used.
       let count' = (if \<not> used then count + 1 else 0)
       in if count' = cnt then Inr (next_bit - cnt + 1)
          else scan_run b cnt bit_left (next_bit + 1) count')"

definition bitmap_scan :: "bitmap \<Rightarrow> u32 \<Rightarrow> s32 res" where
  "bitmap_scan b cnt =
     rbind (scan_byte b 0) (\<lambda>idx_byte.
     rbind (rassert ''idx_byte < btmp->btmp_bytes_len''
              (idx_byte < unat (btmp_bytes_len b))) (\<lambda>_.
     if idx_byte = unat (btmp_bytes_len b) then Inr (-1)
     else
       let idx_bit = scan_bit (bits b ! idx_byte) 0;
           bit_idx_start = of_nat idx_byte * 8 + of_nat idx_bit
       in if cnt = 1 then Inr bit_idx_start
          else
            let bit_left = btmp_bytes_len b * 8 - bit_idx_start;
                next_bit = bit_idx_start + 1
            in scan_run b cnt (unat bit_left) next_bit 1))"

definition bitmap_set :: "bitmap \<Rightarrow> u32 \<Rightarrow> u8 \<Rightarrow> bitmap res" where
  "bitmap_set b bit_idx value =
     rbind (rassert ''(value == 1) || (value == 0)'' (value = 1 \<or> value = 0)) (\<lambda>_.
     let byte_idx = unat (bit_idx div 8);
         bit_odd = unat (bit_idx mod 8)
     in if byte_idx < length (bits b)
        then Inr (b\<lparr>bits := (bits b)[byte_idx :=
                    (if value \<noteq> 0 then bits b ! byte_idx OR push_bit bit_odd 1
                     else bits b ! byte_idx AND NOT (push_bit bit_odd 1))]\<rparr>)
        else Inl (Fault ''btmp->bits[byte_idx]''))"

declare scan_byte.simps [simp del] scan_bit.simps [simp del]

section \<open>What a bitmap means\<close>

text \<open>
  A bitmap stands for the set of the indexes that are in use. It is well formed when the
  bytes it counts are there and its bits can be numbered with a non-negative \<open>int\<close>.
\<close>

definition used_bit :: "bitmap \<Rightarrow> nat \<Rightarrow> bool" where
  "used_bit b i \<longleftrightarrow> bit (bits b ! (i div 8)) (i mod 8)"

definition bitmap_cap :: "bitmap \<Rightarrow> nat" where
  "bitmap_cap b = 8 * unat (btmp_bytes_len b)"

definition bitmap_wf :: "bitmap \<Rightarrow> bool" where
  "bitmap_wf b \<longleftrightarrow> unat (btmp_bytes_len b) \<le> length (bits b) \<and> 8 * length (bits b) < 2 ^ 31"


section \<open>Reading and writing one bit\<close>

lemma div8_less: "i < 8 * n \<Longrightarrow> i div 8 < (n :: nat)"
  by (simp add: less_mult_imp_div_less mult.commute)

lemma unat_div8: "i < 2 ^ 32 \<Longrightarrow> unat ((of_nat i :: u32) div 8) = i div 8"
  by (simp add: unat_div unat_of_nat_u32)

lemma unat_mod8: "i < 2 ^ 32 \<Longrightarrow> unat ((of_nat i :: u32) mod 8) = i mod 8"
  by (simp add: unat_mod unat_of_nat_u32)

lemma bitmap_scan_test_eq:
  assumes "i < 8 * length (bits b)" and "i < 2 ^ 32"
  shows "bitmap_scan_test b (of_nat i) = Inr (used_bit b i)"
  using assms div8_less [OF assms(1)]
  by (simp add: bitmap_scan_test_def Let_def unat_div8 unat_mod8 used_bit_def
      and_exp_eq_0_iff_not_bit)

lemma bitmap_scan_test_Inr:
  assumes "bitmap_scan_test b (of_nat i) = Inr u" and "i < 2 ^ 32"
  shows "u = used_bit b i"
  using assms
  by (auto simp: bitmap_scan_test_def Let_def unat_div8 unat_mod8 used_bit_def
      and_exp_eq_0_iff_not_bit split: if_splits)

lemma bitmap_set_eq:
  assumes i: "i < 8 * length (bits b)" "i < 2 ^ 32" and v: "v = 1 \<or> v = 0"
  obtains b' where "bitmap_set b (of_nat i) v = Inr b'"
    and "btmp_bytes_len b' = btmp_bytes_len b" and "length (bits b') = length (bits b)"
    and "\<And>j. j < 8 * length (bits b) \<Longrightarrow> used_bit b' j = (if j = i then v = 1 else used_bit b j)"
proof -
  let ?w = "bits b ! (i div 8)"
  let ?w' = "if v = 1 then ?w OR push_bit (i mod 8) 1 else ?w AND NOT (push_bit (i mod 8) 1)"
  define b' where "b' = b\<lparr>bits := (bits b)[i div 8 := ?w']\<rparr>"
  have "bitmap_set b (of_nat i) v = Inr b'"
    using i v div8_less [OF i(1)]
    by (auto simp: bitmap_set_def Let_def b'_def unat_div8 unat_mod8 rassert_def)
  moreover have "used_bit b' j = (if j = i then v = 1 else used_bit b j)"
    if j: "j < 8 * length (bits b)" for j
  proof (cases "j div 8 = i div 8")
    case True
    then have "j = i \<longleftrightarrow> j mod 8 = i mod 8"
      by (metis div_mult_mod_eq)
    with True v div8_less [OF j] show ?thesis
      by (auto simp: used_bit_def b'_def byte_set_bit byte_clear_bit simp del: push_bit_of_1)
  next
    case False
    then show ?thesis by (auto simp: used_bit_def b'_def)
  qed
  ultimately show ?thesis
    by (intro that [of b']) (simp_all add: b'_def)
qed

section \<open>The scan\<close>

lemma scan_byte_Inr:
  "scan_byte b i = Inr k \<Longrightarrow>
   i \<le> k \<and> k < length (bits b) \<and> (\<forall>j. i \<le> j \<and> j < k \<longrightarrow> bits b ! j = 255) \<and>
   (k < unat (btmp_bytes_len b) \<longrightarrow> bits b ! k \<noteq> 255)"
proof (induction b i rule: scan_byte.induct)
  case (1 b i)
  show ?case
  proof (cases "i < length (bits b) \<and> bits b ! i = 255 \<and> i < unat (btmp_bytes_len b)")
    case True
    with "1.prems" have "scan_byte b (Suc i) = Inr k"
      by (simp add: scan_byte.simps [of b i])
    with "1.IH" True show ?thesis
      by (auto simp: Suc_le_eq order_le_less [of i])
  next
    case False
    with "1.prems" show ?thesis
      by (auto simp: scan_byte.simps [of b i] split: if_splits)
  qed
qed

lemma scan_byte_finds:
  "unat (btmp_bytes_len b) \<le> length (bits b) \<Longrightarrow> i \<le> j \<Longrightarrow> j < unat (btmp_bytes_len b) \<Longrightarrow>
   bits b ! j \<noteq> 255 \<Longrightarrow> \<exists>k. scan_byte b i = Inr k \<and> k \<le> j"
proof (induction b i rule: scan_byte.induct)
  case (1 b i)
  show ?case
  proof (cases "bits b ! i = 255")
    case True
    with "1.prems" have "i \<noteq> j" by auto
    with "1.IH" "1.prems" True show ?thesis
      by (simp add: scan_byte.simps [of b i])
  next
    case False
    with "1.prems" show ?thesis
      by (simp add: scan_byte.simps [of b i])
  qed
qed

lemma scan_bit_finds:
  "w \<noteq> 255 \<Longrightarrow> i \<le> 8 \<Longrightarrow> (\<forall>j < i. bit w j) \<Longrightarrow>
   scan_bit w i < 8 \<and> \<not> bit w (scan_bit w i) \<and> (\<forall>j < scan_bit w i. bit w j)"
proof (induction w i rule: scan_bit.induct)
  case (1 w i)
  show ?case
  proof (cases "bit w i")
    case True
    then have "i < 8" by (auto dest: bit_imp_le_length)
    with "1.IH" "1.prems" True show ?thesis
      using byte_mask_and_test [of i w] by (simp add: scan_bit.simps [of w i] less_Suc_eq)
  next
    case False
    moreover have "i \<noteq> 8"
      using "1.prems" byte_full_iff [of w] by auto
    ultimately show ?thesis
      using "1.prems" byte_mask_and_test [of i w] by (simp add: scan_bit.simps [of w i])
  qed
qed

lemma free_bit_not_full: "\<not> used_bit b i \<Longrightarrow> bits b ! (i div 8) \<noteq> 255"
  by (auto simp: used_bit_def byte_full_iff intro: exI [of _ "i mod 8"])

lemma used_below_byte: "(\<forall>j < k. bits b ! j = 255) \<Longrightarrow> i < 8 * k \<Longrightarrow> used_bit b i"
  using div8_less [of i k] by (auto simp: used_bit_def byte_full_iff)

text \<open>The first free bit, which both loops of the scan together compute.\<close>

lemma scan_first_free:
  assumes wf: "bitmap_wf b" and ex: "\<exists>i < bitmap_cap b. \<not> used_bit b i"
  obtains n k where "scan_byte b 0 = Inr n" and "n < unat (btmp_bytes_len b)"
    and "k = 8 * n + scan_bit (bits b ! n) 0"
    and "k < bitmap_cap b" and "\<not> used_bit b k" and "\<forall>j < k. used_bit b j"
proof -
  let ?len = "unat (btmp_bytes_len b)"
  from ex obtain i where i: "i < 8 * ?len" "\<not> used_bit b i"
    by (auto simp: bitmap_cap_def)
  have "\<exists>n. scan_byte b 0 = Inr n \<and> n \<le> i div 8"
    using wf scan_byte_finds [of b 0 "i div 8"] div8_less [OF i(1)] free_bit_not_full [OF i(2)]
    by (simp add: bitmap_wf_def)
  then obtain n where n: "scan_byte b 0 = Inr n" "n \<le> i div 8" by blast
  then have len: "n < ?len" using div8_less [OF i(1)] by simp
  let ?k = "scan_bit (bits b ! n) 0"
  from scan_byte_Inr [OF n(1)] len
  have full: "\<forall>j < n. bits b ! j = 255" and "bits b ! n \<noteq> 255" by auto
  then have k: "?k < 8" "\<not> bit (bits b ! n) ?k" "\<forall>j < ?k. bit (bits b ! n) j"
    using scan_bit_finds [of "bits b ! n" 0] by auto
  have "used_bit b j" if "j < 8 * n + ?k" for j
  proof (cases "j < 8 * n")
    case True
    with full show ?thesis by (rule used_below_byte)
  next
    case False
    with that k(1) have "j div 8 = n" by linarith
    moreover with False that have "j mod 8 < ?k"
      using minus_mult_div_eq_mod [of j 8] by simp
    ultimately have "j div 8 = n" and "j mod 8 < ?k" by simp_all
    with k(3) show ?thesis by (simp add: used_bit_def)
  qed
  moreover have "\<not> used_bit b (8 * n + ?k)"
    using k(1,2) by (simp add: used_bit_def)
  moreover have "8 * n + ?k < bitmap_cap b"
    using len k(1) by (simp add: bitmap_cap_def)
  ultimately show ?thesis
    using that [OF n(1) len refl] by blast
qed

lemma bitmap_cap_less: "bitmap_wf b \<Longrightarrow> bitmap_cap b < 2 ^ 31"
  by (auto simp: bitmap_wf_def bitmap_cap_def)

lemma bitmap_scan_one:
  assumes wf: "bitmap_wf b" and ex: "\<exists>i < bitmap_cap b. \<not> used_bit b i"
  obtains k where "bitmap_scan b 1 = Inr (of_nat k)" and "k < bitmap_cap b"
    and "\<not> used_bit b k" and "\<forall>j < k. used_bit b j"
proof -
  from scan_first_free [OF wf ex] obtain n k where
    "scan_byte b 0 = Inr n" "n < unat (btmp_bytes_len b)"
    "k = 8 * n + scan_bit (bits b ! n) 0" and k: "k < bitmap_cap b" "\<not> used_bit b k" "\<forall>j < k. used_bit b j"
    by blast
  then have "bitmap_scan b 1 = Inr (of_nat k)"
    by (simp add: bitmap_scan_def Let_def mult.commute)
  with k show ?thesis by (intro that [of k])
qed

lemma bitmap_scan_full:
  assumes "\<forall>i < bitmap_cap b. used_bit b i"
  shows "\<exists>e. bitmap_scan b cnt = Inl e"
proof (cases "scan_byte b 0")
  case (Inr n)
  have "\<not> n < unat (btmp_bytes_len b)"
  proof
    assume len: "n < unat (btmp_bytes_len b)"
    with scan_byte_Inr [OF Inr] have "bits b ! n \<noteq> 255" by auto
    then obtain k where "k < 8" "\<not> bit (bits b ! n) k" by (auto simp: byte_full_iff)
    with len assms [rule_format, of "8 * n + k"] show False
      by (simp add: bitmap_cap_def used_bit_def)
  qed
  with Inr show ?thesis by (simp add: bitmap_scan_def rassert_def)
qed (simp add: bitmap_scan_def)


lemma scan_byte_reaches_end:
  "unat (btmp_bytes_len b) < length (bits b) \<Longrightarrow>
   \<forall>j < unat (btmp_bytes_len b). bits b ! j = 255 \<Longrightarrow> i \<le> unat (btmp_bytes_len b) \<Longrightarrow>
   scan_byte b i = Inr (unat (btmp_bytes_len b))"
proof (induction b i rule: scan_byte.induct)
  case (1 b i)
  then show ?case by (cases "i = unat (btmp_bytes_len b)") (simp_all add: scan_byte.simps [of b i] scan_byte.simps [of b "unat (btmp_bytes_len b)"])
qed

lemma bitmap_scan_full_panic:
  assumes len: "unat (btmp_bytes_len b) < length (bits b)" and full: "\<forall>i < bitmap_cap b. used_bit b i"
  shows "bitmap_scan b cnt = Inl (Panic ''idx_byte < btmp->btmp_bytes_len'')"
proof -
  have "bits b ! j = 255" if "j < unat (btmp_bytes_len b)" for j
  proof -
    have "bit (bits b ! j) k" if "k < 8" for k
      using full [rule_format, of "8 * j + k"] that \<open>j < unat (btmp_bytes_len b)\<close>
      by (simp add: bitmap_cap_def used_bit_def)
    then show ?thesis by (simp add: byte_full_iff)
  qed
  with len have "scan_byte b 0 = Inr (unat (btmp_bytes_len b))"
    by (intro scan_byte_reaches_end) auto
  then show ?thesis by (simp add: bitmap_scan_def rassert_def)
qed


text \<open>Runs of several bits.\<close>

definition run_free :: "bitmap \<Rightarrow> nat \<Rightarrow> nat \<Rightarrow> bool" where
  "run_free b q m \<longleftrightarrow> (\<forall>j. q \<le> j \<and> j < q + m \<longrightarrow> \<not> used_bit b j)"

lemma run_free_0 [simp]: "run_free b q 0"
  by (auto simp: run_free_def)

lemma run_free_Suc: "run_free b q (Suc m) \<longleftrightarrow> run_free b q m \<and> \<not> used_bit b (q + m)"
  by (auto simp: run_free_def less_Suc_eq)

lemma scan_run_spec:
  assumes "0 < m" and "m < 2 ^ 31" and "n + left \<le> 2 ^ 31" and "c \<le> n" and "c < m"
    and "run_free b (n - c) c"
    and "scan_run b (of_nat m) left (of_nat n) (of_nat c) = Inr r"
  shows "r = - 1 \<and> (\<forall>q. n - c \<le> q \<and> q + m \<le> n + left \<longrightarrow> \<not> run_free b q m) \<or>
    (\<exists>q. r = of_nat q \<and> n - c \<le> q \<and> q + m \<le> n + left \<and> run_free b q m)"
  using assms(3-7)
proof (induction left arbitrary: n c)
  case 0
  then show ?case by auto
next
  case (Suc left)
  note scan = Suc.prems(5)
  from scan obtain u where u: "bitmap_scan_test b (of_nat n) = Inr u"
    by (auto simp: rbind_eq_Inr)
  have used: "u = used_bit b n"
    using bitmap_scan_test_Inr [OF u] Suc.prems(1) by simp
  have nxt: "(of_nat n + 1 :: u32) = of_nat (Suc n)" "(of_nat c + 1 :: u32) = of_nat (Suc c)"
    by simp_all
  show ?case
  proof (cases u)
    case True
    with scan u assms(1,2) have "scan_run b (of_nat m) left (of_nat (Suc n)) (of_nat 0) = Inr r"
      using u32_of_nat_eq [of 0 m] by (simp add: Let_def add.commute split: if_splits)
    from Suc.IH [OF _ _ _ _ this] Suc.prems(1) assms(1)
    have IH: "r = - 1 \<and> (\<forall>q. Suc n \<le> q \<and> q + m \<le> Suc n + left \<longrightarrow> \<not> run_free b q m) \<or>
      (\<exists>q. r = of_nat q \<and> Suc n \<le> q \<and> q + m \<le> Suc n + left \<and> run_free b q m)"
      by simp
    have "\<not> run_free b q m" if "n - c \<le> q" "q \<le> n" for q
    proof (cases "n < q + m")
      case True
      with that used \<open>u\<close> show ?thesis by (auto simp: run_free_def)
    next
      case False
      with that Suc.prems(2,3) show ?thesis by linarith
    qed
    with IH show ?thesis
      by (auto simp: not_less_eq_eq) (metis Suc_leI not_le_imp_less le_trans le_SucI)+
  next
    case False
    have free: "run_free b (n - c) (Suc c)"
      using Suc.prems(2,4) used False by (simp add: run_free_Suc)
    show ?thesis
    proof (cases "Suc c = m")
      case True
      with scan u False have "r = of_nat n - of_nat m + 1"
        by (simp add: Let_def nxt(2) del: of_nat_Suc)
      also have "\<dots> = of_nat (n - c)"
        using True Suc.prems(2) by (simp add: of_nat_diff algebra_simps flip: True)
      finally show ?thesis
        using free True Suc.prems(2) by (intro disjI2 exI [of _ "n - c"]) auto
    next
      case neq: False
      have "(of_nat (Suc c) :: u32) \<noteq> of_nat m"
        using u32_of_nat_eq [of "Suc c" m] neq Suc.prems(1,2) assms(2) by simp
      with scan u False have
        "scan_run b (of_nat m) left (of_nat (Suc n)) (of_nat (Suc c)) = Inr r"
        by (simp add: Let_def nxt del: of_nat_Suc)
      from Suc.IH [OF _ _ _ _ this] Suc.prems(1-3) neq free show ?thesis
        by simp
    qed
  qed
qed

lemma bitmap_scan_many:
  assumes wf: "bitmap_wf b" and m: "2 \<le> m" "m < 2 ^ 31"
    and scan: "bitmap_scan b (of_nat m) = Inr r"
  shows "r = - 1 \<and> (\<forall>q. q + m \<le> bitmap_cap b \<longrightarrow> \<not> run_free b q m) \<or>
    (\<exists>q. r = of_nat q \<and> q + m \<le> Suc (bitmap_cap b) \<and> run_free b q m)"
proof -
  have "\<exists>i < bitmap_cap b. \<not> used_bit b i"
    using scan bitmap_scan_full [of b "of_nat m"] by force
  from scan_first_free [OF wf this] obtain n k where n: "scan_byte b 0 = Inr n"
      "n < unat (btmp_bytes_len b)" "k = 8 * n + scan_bit (bits b ! n) 0"
    and k: "k < bitmap_cap b" "\<not> used_bit b k" "\<forall>j < k. used_bit b j"
    by blast
  have cap: "bitmap_cap b < 2 ^ 31" by (rule bitmap_cap_less [OF wf])
  have left: "unat (btmp_bytes_len b * 8 - of_nat k) = bitmap_cap b - k"
    using k(1) cap unat_mult_u32 [of "btmp_bytes_len b" 8] unat_of_nat_u32 [of k]
    by (subst unat_sub_u32) (simp_all add: bitmap_cap_def mult.commute)
  have "scan_run b (of_nat m) (bitmap_cap b - k) (of_nat (Suc k)) (of_nat 1) = Inr r"
    using scan n(1,2) m u32_of_nat_eq [of m 1] left
    by (simp add: bitmap_scan_def Let_def n(3) add.commute mult.commute split: if_splits)
  moreover have "run_free b (Suc k - 1) 1"
    using k(2) by (simp add: run_free_def) (metis le_antisym less_Suc_eq_le)
  ultimately have "r = - 1 \<and> (\<forall>q. Suc k - 1 \<le> q \<and> q + m \<le> Suc k + (bitmap_cap b - k)
      \<longrightarrow> \<not> run_free b q m) \<or>
    (\<exists>q. r = of_nat q \<and> Suc k - 1 \<le> q \<and> q + m \<le> Suc k + (bitmap_cap b - k) \<and> run_free b q m)"
    using scan_run_spec [of m "Suc k" "bitmap_cap b - k" 1 b r] m cap k(1) by simp
  moreover have "\<not> run_free b q m" if "q < k" for q
    using k(3) that m(1) by (auto simp: run_free_def intro!: exI [of _ q])
  ultimately show ?thesis
    using k(1) by auto (metis Suc_leD diff_Suc_1 le_SucI not_le_imp_less)
qed


section \<open>The contract of a pool of slots\<close>

text \<open>
  What the kernel's allocators promise to their callers, whatever they allocate: a slot that
  was free and is inside the pool, taken from then on, the others unchanged. \<open>alloc\<close>
  answers \<open>Inl\<close> when the code panics, which the kernel's allocators do on a full pool.
\<close>

locale slot_pool =
  fixes wf :: "'p \<Rightarrow> bool"
    and cap :: "'p \<Rightarrow> nat"
    and used :: "'p \<Rightarrow> nat \<Rightarrow> bool"
    and alloc :: "'p \<Rightarrow> (nat \<times> 'p) res"
    and free :: "'p \<Rightarrow> nat \<Rightarrow> 'p res"
  assumes alloc_slot: "wf p \<Longrightarrow> i < cap p \<Longrightarrow> \<not> used p i \<Longrightarrow>
      \<exists>k p'. alloc p = Inr (k, p') \<and> k < cap p \<and> \<not> used p k \<and> wf p' \<and> cap p' = cap p \<and>
        (\<forall>j < cap p. used p' j \<longleftrightarrow> j = k \<or> used p j)"
    and alloc_full: "wf p \<Longrightarrow> \<forall>i < cap p. used p i \<Longrightarrow> \<exists>e. alloc p = Inl e"
    and free_slot: "wf p \<Longrightarrow> i < cap p \<Longrightarrow>
      \<exists>p'. free p i = Inr p' \<and> wf p' \<and> cap p' = cap p \<and>
        (\<forall>j < cap p. used p' j \<longleftrightarrow> j \<noteq> i \<and> used p j)"
begin

lemma alloc_Inr:
  assumes "wf p" and "alloc p = Inr (k, p')"
  shows "k < cap p" and "\<not> used p k" and "wf p'" and "cap p' = cap p"
    and "\<forall>j < cap p. used p' j \<longleftrightarrow> j = k \<or> used p j"
proof -
  obtain i where "i < cap p" "\<not> used p i"
    using alloc_full [OF assms(1)] assms(2) by force
  from alloc_slot [OF assms(1) this] assms(2)
  show "k < cap p" "\<not> used p k" "wf p'" "cap p' = cap p"
    "\<forall>j < cap p. used p' j \<longleftrightarrow> j = k \<or> used p j" by auto
qed

text \<open>Taking \<open>n\<close> slots, one after the other.\<close>

fun alloc_many :: "nat \<Rightarrow> 'p \<Rightarrow> (nat list \<times> 'p) res" where
  "alloc_many 0 p = Inr ([], p)"
| "alloc_many (Suc n) p = rbind (alloc p) (\<lambda>(k, p').
     rbind (alloc_many n p') (\<lambda>(ks, p''). Inr (k # ks, p'')))"

lemma alloc_many_Inr:
  "wf p \<Longrightarrow> alloc_many n p = Inr (ks, p') \<Longrightarrow>
   wf p' \<and> cap p' = cap p \<and> length ks = n \<and> distinct ks \<and>
   (\<forall>k \<in> set ks. k < cap p \<and> \<not> used p k) \<and>
   (\<forall>j < cap p. used p' j \<longleftrightarrow> j \<in> set ks \<or> used p j)"
proof (induction n arbitrary: p ks)
  case 0
  then show ?case by simp
next
  case (Suc n)
  from Suc.prems(2) obtain k q ks' where
    k: "alloc p = Inr (k, q)" and ks': "alloc_many n q = Inr (ks', p')" and ks: "ks = k # ks'"
    by (auto simp: rbind_eq_Inr)
  note q = alloc_Inr [OF Suc.prems(1) k]
  from Suc.IH [OF q(3) ks'] q ks show ?case by auto
qed

lemma alloc_many_succeeds:
  "wf p \<Longrightarrow> n \<le> card {i. i < cap p \<and> \<not> used p i} \<Longrightarrow> \<exists>ks p'. alloc_many n p = Inr (ks, p')"
proof (induction n arbitrary: p)
  case 0
  then show ?case by simp
next
  case (Suc n)
  then have "{i. i < cap p \<and> \<not> used p i} \<noteq> {}" by (metis card.empty not_less_eq_eq le0)
  with alloc_slot [OF Suc.prems(1)] obtain k q where k: "alloc p = Inr (k, q)" by blast
  note q = alloc_Inr [OF Suc.prems(1) k]
  have "{i. i < cap q \<and> \<not> used q i} = {i. i < cap p \<and> \<not> used p i} - {k}"
    using q by auto
  with Suc.prems(2) q have "n \<le> card {i. i < cap q \<and> \<not> used q i}"
    by (simp add: card_Diff_singleton)
  from Suc.IH [OF q(3) this] k show ?case by auto
qed

lemma alloc_then_free:
  assumes "wf p" and "alloc p = Inr (k, p')"
  shows "\<exists>p''. free p' k = Inr p'' \<and> wf p'' \<and> cap p'' = cap p \<and>
    (\<forall>j < cap p. used p'' j \<longleftrightarrow> used p j)"
  using free_slot [of p' k] alloc_Inr [OF assms] by fastforce

end

text \<open>The step that all of the kernel's allocators share: scan for one bit and set it.\<close>

definition bitmap_take :: "bitmap \<Rightarrow> (nat \<times> bitmap) res" where
  "bitmap_take b =
     rbind (bitmap_scan b 1) (\<lambda>i.
     rbind (bitmap_set b i 1) (\<lambda>b'. Inr (unat i, b')))"

definition bitmap_give :: "bitmap \<Rightarrow> nat \<Rightarrow> bitmap res" where
  "bitmap_give b i = bitmap_set b (of_nat i) 0"

lemma bitmap_index_less: "bitmap_wf b \<Longrightarrow> i < bitmap_cap b \<Longrightarrow> i < 8 * length (bits b) \<and> i < 2 ^ 32"
  by (auto simp: bitmap_wf_def bitmap_cap_def)

lemma bitmap_set_wf:
  assumes wf: "bitmap_wf b" and i: "i < bitmap_cap b" and v: "v = 1 \<or> v = 0"
  obtains b' where "bitmap_set b (of_nat i) v = Inr b'" and "bitmap_wf b'"
    and "bitmap_cap b' = bitmap_cap b" and "btmp_bytes_len b' = btmp_bytes_len b"
    and "length (bits b') = length (bits b)"
    and "\<forall>j < bitmap_cap b. used_bit b' j = (if j = i then v = 1 else used_bit b j)"
proof -
  from bitmap_index_less [OF wf i] have i': "i < 8 * length (bits b)" "i < 2 ^ 32" by auto
  from bitmap_set_eq [OF i' v] obtain b' where b': "bitmap_set b (of_nat i) v = Inr b'"
    "btmp_bytes_len b' = btmp_bytes_len b" "length (bits b') = length (bits b)"
    "\<And>j. j < 8 * length (bits b) \<Longrightarrow> used_bit b' j = (if j = i then v = 1 else used_bit b j)"
    by blast
  with wf show ?thesis
    by (intro that [of b']) (auto simp: bitmap_wf_def bitmap_cap_def)
qed

interpretation bitmap_pool: slot_pool bitmap_wf bitmap_cap used_bit bitmap_take bitmap_give
proof unfold_locales
  fix b i
  assume wf: "bitmap_wf b" and i: "i < bitmap_cap b" "\<not> used_bit b i"
  then obtain k where k: "bitmap_scan b 1 = Inr (of_nat k)" "k < bitmap_cap b" "\<not> used_bit b k"
    using bitmap_scan_one [OF wf] by blast
  from bitmap_set_wf [OF wf k(2), of 1] obtain b' where "bitmap_set b (of_nat k) 1 = Inr b'"
    "bitmap_wf b'" "bitmap_cap b' = bitmap_cap b"
    "\<forall>j < bitmap_cap b. used_bit b' j = (if j = k then (1 :: u8) = 1 else used_bit b j)"
    by auto
  with k bitmap_cap_less [OF wf]
  show "\<exists>k b'. bitmap_take b = Inr (k, b') \<and> k < bitmap_cap b \<and> \<not> used_bit b k \<and> bitmap_wf b' \<and>
    bitmap_cap b' = bitmap_cap b \<and> (\<forall>j < bitmap_cap b. used_bit b' j \<longleftrightarrow> j = k \<or> used_bit b j)"
    by (intro exI [of _ k] exI [of _ b']) (simp add: bitmap_take_def unat_of_nat_u32)
next
  fix b
  assume "bitmap_wf b" and "\<forall>i < bitmap_cap b. used_bit b i"
  with bitmap_scan_full [of b 1] show "\<exists>e. bitmap_take b = Inl e"
    by (auto simp: bitmap_take_def)
next
  fix b i
  assume "bitmap_wf b" and "i < bitmap_cap b"
  then show "\<exists>b'. bitmap_give b i = Inr b' \<and> bitmap_wf b' \<and> bitmap_cap b' = bitmap_cap b \<and>
    (\<forall>j < bitmap_cap b. used_bit b' j \<longleftrightarrow> j \<noteq> i \<and> used_bit b j)"
    by (rule bitmap_set_wf [where v = 0]) (auto simp: bitmap_give_def)
qed

section \<open>Properties\<close>

text \<open>C22: Asked for one bit, \<open>bitmap_scan\<close> answers the lowest index that is free, and it does so
  whenever a free index is left.\<close>

theorem bitmap_scan_first_fit:
  assumes "bitmap_wf b" and "\<exists>i < bitmap_cap b. \<not> used_bit b i"
  shows "\<exists>k < bitmap_cap b. bitmap_scan b 1 = Inr (of_nat k) \<and> \<not> used_bit b k \<and>
    (\<forall>j < k. used_bit b j)"
  using bitmap_scan_one [OF assms] by metis

theorem bitmap_scan_first_fit_witness:
  "\<exists>k < 16. bitmap_scan \<lparr>btmp_bytes_len = 2, bits = [255, 5]\<rparr> 1 = Inr (of_nat k)"
proof -
  let ?b = "\<lparr>btmp_bytes_len = 2, bits = [255, 5]\<rparr>"
  have "bitmap_wf ?b" and cap: "bitmap_cap ?b = 16" by (simp_all add: bitmap_wf_def bitmap_cap_def)
  moreover have "\<not> used_bit ?b 9" by code_simp
  ultimately show ?thesis using bitmap_scan_first_fit [of ?b] by fastforce
qed

text \<open>A successful scan for \<open>m \<ge> 2\<close> bits answers the start of a run of \<open>m\<close> free bits, and \<open>-1\<close>
  is answered only when the bitmap holds no such run. The run may exceed the bitmap by one bit,
  because the loop tests one bit more than the bitmap has.\<close>

theorem bitmap_scan_run:
  assumes "bitmap_wf b" and "2 \<le> m" and "m < 2 ^ 31" and "bitmap_scan b (of_nat m) = Inr r"
  shows "r = - 1 \<and> (\<forall>q. q + m \<le> bitmap_cap b \<longrightarrow> \<not> run_free b q m) \<or>
    (\<exists>q. r = of_nat q \<and> q + m \<le> Suc (bitmap_cap b) \<and> run_free b q m)"
  using assms by (rule bitmap_scan_many)

text \<open>The overrun happens: eight bits of which only the last is free, and a zero byte after
  them, give a run of two bits at index 7.\<close>

lemma bitmap_scan_overruns:
  "bitmap_scan \<lparr>btmp_bytes_len = 1, bits = [127, 0]\<rparr> 2 = Inr 7"
  by code_simp

theorem bitmap_scan_run_witness:
  "\<exists>q. (7 :: s32) = of_nat q \<and> q + 2 \<le> 9 \<and> run_free \<lparr>btmp_bytes_len = 1, bits = [127, 0]\<rparr> q 2"
  using bitmap_scan_run [of "\<lparr>btmp_bytes_len = 1, bits = [127, 0]\<rparr>" 2 7] bitmap_scan_overruns
  by (simp add: bitmap_wf_def bitmap_cap_def)

text \<open>On a bitmap with no free bit the scan panics: the assertion before the test for a full
  bitmap fails exactly when that test would succeed, so its \<open>return -1\<close> is never reached.\<close>

theorem bitmap_scan_full_panics:
  assumes "unat (btmp_bytes_len b) < length (bits b)" and "\<forall>i < bitmap_cap b. used_bit b i"
  shows "bitmap_scan b cnt = Inl (Panic ''idx_byte < btmp->btmp_bytes_len'')"
  using assms by (rule bitmap_scan_full_panic)

theorem bitmap_scan_full_panics_witness:
  "bitmap_scan \<lparr>btmp_bytes_len = 1, bits = [255, 0]\<rparr> 1 = Inl (Panic ''idx_byte < btmp->btmp_bytes_len'')"
proof (rule bitmap_scan_full_panics)
  have "\<forall>k < 8. bit (255 :: u8) k" using byte_full_iff by blast
  then show "\<forall>i < bitmap_cap \<lparr>btmp_bytes_len = 1, bits = [255, 0]\<rparr>.
      used_bit \<lparr>btmp_bytes_len = 1, bits = [255, 0]\<rparr> i"
    by (simp add: bitmap_cap_def used_bit_def)
qed simp

end
