(* ===== verification/Fs_State.thy ===== *)
theory Fs_State
  imports Disk Bitmap Ioqueue
begin

text \<open>
  The state of the mounted file system and its access primitives. The disk holds the mounted
  partition; the super block and the two bitmaps are in memory; the heap maps addresses to the
  \<open>struct inode\<close>s and \<open>struct dir\<close>s that are open, so that two tables that hold the same
  pointer share one object; the file table is the system's, the descriptor table that of the
  running process. \<open>sys_malloc\<close> may fail: which calls fail is an input (\<open>malloc_ok\<close>).
  The pages that hold the pipes' ring buffers have addresses of their own; \<open>woken\<close> lists, in
  order, the threads that a ring buffer unblocked; \<open>console\<close> is what was written to the screen
  through the standard output (messages of \<open>printk\<close> are not part of the state). Buffers a
  function allocates and frees are values; allocated memory is zeroed, as \<open>sys_malloc\<close> does.
\<close>

section \<open>State\<close>

type_synonym ptr = nat

record partition =
  start_lba :: u32
  sec_cnt :: u32
  sb :: super_block
  block_bitmap :: bitmap
  inode_bitmap :: bitmap
  open_inodes :: "ptr list"

record dir =
  d_inode :: ptr
  dir_pos :: u32
  dir_buf :: "u8 list"

record file_t =
  fd_pos :: u32
  fd_flag :: u32
  fd_inode :: ptr

record fs =
  disk :: disk
  cur_part :: partition
  inodes :: "ptr \<Rightarrow> inode option"
  dirs :: "ptr \<Rightarrow> dir option"
  next_addr :: ptr
  malloc_ok :: "nat \<Rightarrow> bool"
  mallocs :: nat
  file_table :: "file_t list"
  p_fd_table :: "s32 list"
  p_cwd_inode_no :: u32
  pipes :: "ptr \<Rightarrow> ioqueue option"
  kbd_buf :: ioqueue
  woken :: "tid list"
  console :: "u8 list"

definition MAX_FILE_OPEN :: nat where
  "MAX_FILE_OPEN = 32"

definition MAX_FILES_OPEN_PER_PROC :: nat where
  "MAX_FILES_OPEN_PER_PROC = 8"

text \<open>The directory \<open>root_dir\<close> is a global variable, at an address of its own.\<close>

definition root_dir :: ptr where
  "root_dir = 1"

section \<open>Sectors\<close>

text \<open>
  \<open>ide_read\<close> and \<open>ide_write\<close> as their callers see them: the assertions, and the sectors. The
  address of every chunk of 256 sectors is checked.
\<close>

definition chunks_ok :: "u32 \<Rightarrow> u32 \<Rightarrow> bool" where
  "chunks_ok lba cnt \<longleftrightarrow> (\<forall>k \<in> set [0..<(unat cnt + 255) div 256]. lba + of_nat (256 * k) \<le> max_lba)"

definition sec_read :: "u32 \<Rightarrow> u32 \<Rightarrow> (fs, u8 list) km" where
  "sec_read lba cnt =
     bnd (kassert ''lba <= max_lba'' (lba \<le> max_lba)) (\<lambda>_.
     bnd (kassert ''sec_cnt > 0'' (cnt > 0)) (\<lambda>_.
     bnd (kassert ''lba <= max_lba'' (chunks_ok lba cnt)) (\<lambda>_.
     gets (\<lambda>s. read_sectors (disk s) lba (unat cnt)))))"

definition sec_write :: "u32 \<Rightarrow> u8 list \<Rightarrow> u32 \<Rightarrow> (fs, unit) km" where
  "sec_write lba buf cnt =
     bnd (kassert ''sec_cnt <= max_lba'' (cnt \<le> max_lba)) (\<lambda>_.
     bnd (kassert ''sec_cnt > 0'' (cnt > 0)) (\<lambda>_.
     bnd (kassert ''lba <= max_lba'' (chunks_ok lba cnt)) (\<lambda>_.
     if 512 * unat cnt \<le> length buf
     then modify (\<lambda>s. s\<lparr>disk := write_sectors (disk s) lba (unat cnt) buf\<rparr>)
     else fail (Fault ''outsw''))))"

text \<open>\<open>memcpy\<close> to an offset of a buffer.\<close>

definition buf_write :: "nat \<Rightarrow> u8 list \<Rightarrow> u8 list \<Rightarrow> u8 list res" where
  "buf_write off xs buf =
     (if off + length xs \<le> length buf then Inr (splice off xs buf) else Inl (Fault ''memcpy''))"

definition buf_read :: "nat \<Rightarrow> nat \<Rightarrow> u8 list \<Rightarrow> u8 list res" where
  "buf_read off n buf =
     (if off + n \<le> length buf then Inr (slice off n buf) else Inl (Fault ''memcpy''))"

section \<open>Heap\<close>

definition sys_malloc_ok :: "(fs, bool) km" where
  "sys_malloc_ok = bnd (gets (\<lambda>s. malloc_ok s (mallocs s))) (\<lambda>ok.
     bnd (modify (\<lambda>s. s\<lparr>mallocs := Suc (mallocs s)\<rparr>)) (\<lambda>_. ret ok))"

text \<open>An allocation whose result the code uses without testing it.\<close>

definition sys_malloc_unchecked :: "(fs, unit) km" where
  "sys_malloc_unchecked =
     bnd sys_malloc_ok (\<lambda>ok. if ok then ret () else fail (Fault ''NULL''))"

definition fresh_ptr :: "(fs, ptr) km" where
  "fresh_ptr = bnd (gets next_addr) (\<lambda>a.
     bnd (modify (\<lambda>s. s\<lparr>next_addr := Suc (next_addr s)\<rparr>)) (\<lambda>_. ret a))"

definition get_inode :: "ptr \<Rightarrow> (fs, inode) km" where
  "get_inode p = (\<lambda>s. case inodes s p of None \<Rightarrow> Inl (Fault ''struct inode'') | Some i \<Rightarrow> Inr (i, s))"

definition set_inode :: "ptr \<Rightarrow> inode \<Rightarrow> (fs, unit) km" where
  "set_inode p i = modify (\<lambda>s. s\<lparr>inodes := (inodes s)(p \<mapsto> i)\<rparr>)"

definition upd_inode :: "ptr \<Rightarrow> (inode \<Rightarrow> inode) \<Rightarrow> (fs, unit) km" where
  "upd_inode p f = bnd (get_inode p) (\<lambda>i. set_inode p (f i))"

definition free_inode :: "ptr \<Rightarrow> (fs, unit) km" where
  "free_inode p = bnd (get_inode p) (\<lambda>_. modify (\<lambda>s. s\<lparr>inodes := (inodes s)(p := None)\<rparr>))"

definition get_dir :: "ptr \<Rightarrow> (fs, dir) km" where
  "get_dir p = (\<lambda>s. case dirs s p of None \<Rightarrow> Inl (Fault ''struct dir'') | Some d \<Rightarrow> Inr (d, s))"

definition set_dir :: "ptr \<Rightarrow> dir \<Rightarrow> (fs, unit) km" where
  "set_dir p d = modify (\<lambda>s. s\<lparr>dirs := (dirs s)(p \<mapsto> d)\<rparr>)"

definition free_dir :: "ptr \<Rightarrow> (fs, unit) km" where
  "free_dir p = bnd (get_dir p) (\<lambda>_. modify (\<lambda>s. s\<lparr>dirs := (dirs s)(p := None)\<rparr>))"

definition part_of :: "(fs, partition) km" where
  "part_of = gets cur_part"

definition set_part :: "(partition \<Rightarrow> partition) \<Rightarrow> (fs, unit) km" where
  "set_part f = modify (\<lambda>s. s\<lparr>cur_part := f (cur_part s)\<rparr>)"

section \<open>Execution\<close>

lemma bnd_sec_read:
  "lba \<le> max_lba \<Longrightarrow> 0 < cnt \<Longrightarrow> chunks_ok lba cnt \<Longrightarrow>
   bnd (sec_read lba cnt) f s = f (read_sectors (disk s) lba (unat cnt)) s"
  by (simp add: sec_read_def bnd_assoc)

lemma sec_write_run:
  "cnt \<le> max_lba \<Longrightarrow> 0 < cnt \<Longrightarrow> chunks_ok lba cnt \<Longrightarrow> 512 * unat cnt \<le> length buf \<Longrightarrow>
   sec_write lba buf cnt s = Inr ((), s\<lparr>disk := write_sectors (disk s) lba (unat cnt) buf\<rparr>)"
  by (simp add: sec_write_def)

lemma chunks_ok_small: "lba \<le> max_lba \<Longrightarrow> unat cnt \<le> 256 \<Longrightarrow> chunks_ok lba cnt"
proof -
  assume "lba \<le> max_lba" "unat cnt \<le> 256"
  then have "(unat cnt + 255) div 256 \<le> 1" by (simp add: div_le_mono)
  then have "[0..<(unat cnt + 255) div 256] = [] \<or> [0..<(unat cnt + 255) div 256] = [0]"
    by (cases "(unat cnt + 255) div 256") auto
  with \<open>lba \<le> max_lba\<close> show ?thesis
    unfolding chunks_ok_def
    by (auto simp only: list.set empty_iff insert_iff mult_0_right semiring_1_class.of_nat_0 add_0_right)
qed

lemma bnd_buf_write:
  "off + length xs \<le> length buf \<Longrightarrow> bnd (liftr (buf_write off xs buf)) f s = f (splice off xs buf) s"
  by (simp add: buf_write_def)

lemma bnd_buf_read:
  "off + n \<le> length buf \<Longrightarrow> bnd (liftr (buf_read off n buf)) f s = f (slice off n buf) s"
  by (simp add: buf_read_def)

lemma bnd_get_inode: "inodes s p = Some i \<Longrightarrow> bnd (get_inode p) f s = f i s"
  by (simp add: get_inode_def bnd_def)

lemma bnd_set_inode [simp]: "bnd (set_inode p i) f s = f () (s\<lparr>inodes := (inodes s)(p \<mapsto> i)\<rparr>)"
  by (simp add: set_inode_def)

lemma set_inode_run [simp]: "set_inode p i s = Inr ((), s\<lparr>inodes := (inodes s)(p \<mapsto> i)\<rparr>)"
  by (simp add: set_inode_def)

lemma upd_inode_run: "inodes s p = Some i \<Longrightarrow> upd_inode p g s = Inr ((), s\<lparr>inodes := (inodes s)(p \<mapsto> g i)\<rparr>)"
  by (simp add: upd_inode_def bnd_get_inode)

lemma bnd_upd_inode: "inodes s p = Some i \<Longrightarrow> bnd (upd_inode p g) f s = f () (s\<lparr>inodes := (inodes s)(p \<mapsto> g i)\<rparr>)"
  by (simp add: bnd_Inr upd_inode_run)

lemma bnd_get_dir: "dirs s p = Some d \<Longrightarrow> bnd (get_dir p) f s = f d s"
  by (simp add: get_dir_def bnd_def)

lemma bnd_set_dir [simp]: "bnd (set_dir p d) f s = f () (s\<lparr>dirs := (dirs s)(p \<mapsto> d)\<rparr>)"
  by (simp add: set_dir_def)

lemma bnd_fresh_ptr [simp]:
  "bnd fresh_ptr f s = f (next_addr s) (s\<lparr>next_addr := Suc (next_addr s)\<rparr>)"
  by (simp add: fresh_ptr_def bnd_assoc)

lemma bnd_malloc [simp]:
  "bnd sys_malloc_ok f s = f (malloc_ok s (mallocs s)) (s\<lparr>mallocs := Suc (mallocs s)\<rparr>)"
  by (simp add: sys_malloc_ok_def bnd_assoc)

lemma bnd_malloc_unchecked:
  "malloc_ok s (mallocs s) \<Longrightarrow> bnd sys_malloc_unchecked f s = f () (s\<lparr>mallocs := Suc (mallocs s)\<rparr>)"
  by (simp add: sys_malloc_unchecked_def bnd_assoc)

lemma bnd_part_of [simp]: "bnd part_of f s = f (cur_part s) s"
  by (simp add: part_of_def)

lemma bnd_set_part [simp]: "bnd (set_part g) f s = f () (s\<lparr>cur_part := g (cur_part s)\<rparr>)"
  by (simp add: set_part_def)

section \<open>A range of sectors as one array of bytes\<close>

lemma nth_read_sectors:
  assumes "disk_wf d" and "i < 512 * n"
  shows "read_sectors d lba n ! i = d (lba + of_nat (i div 512)) ! (i mod 512)"
  using assms(2)
proof (induction n)
  case (Suc n)
  have len: "length (read_sectors d lba n) = 512 * n" using assms(1) by simp
  have split: "read_sectors d lba (Suc n) = read_sectors d lba n @ d (lba + of_nat n)"
    by (simp add: read_sectors_def)
  show ?case
  proof (cases "i < 512 * n")
    case True
    with Suc.IH show ?thesis by (simp add: split nth_append len)
  next
    case False
    with Suc.prems have n: "i div 512 = n" by (intro div_nat_eqI) simp_all
    then have "i mod 512 = i - 512 * n" by (simp flip: minus_mult_div_eq_mod)
    note n = n this
    with False n show ?thesis by (simp add: split nth_append len)
  qed
qed simp

text \<open>Reading, patching and writing back some sectors patches the array.\<close>

lemma sector_patch:
  assumes wf: "disk_wf d" and fits: "r + length xs \<le> 512 * c" and range: "q + c \<le> n" "n < 2 ^ 32"
  shows "read_sectors (write_sectors d (lba + of_nat q) c (splice r xs (read_sectors d (lba + of_nat q) c))) lba n =
    splice (512 * q + r) xs (read_sectors d lba n)" (is "read_sectors ?d lba n = splice ?off xs ?a")
proof (rule nth_equalityI)
  let ?buf = "splice r xs (read_sectors d (lba + of_nat q) c)"
  have len: "length ?buf = 512 * c" using wf fits by simp
  have wf': "disk_wf ?d" using wf len by (intro write_sectors_wf) simp_all
  have fits': "?off + length xs \<le> length ?a" using fits range wf by simp
  then show "length (read_sectors ?d lba n) = length (splice ?off xs ?a)"
    using wf wf' by simp
  fix i assume "i < length (read_sectors ?d lba n)"
  then have i: "i < 512 * n" using wf' by simp
  define k where "k = i div 512"
  have k: "k < n" "i = 512 * k + i mod 512" "i mod 512 < 512" using i by (auto simp: k_def)
  have shift: "unat (lba + of_nat k - (lba + of_nat q)) < c \<longleftrightarrow> q \<le> k \<and> k < q + c"
    and diff: "q \<le> k \<Longrightarrow> unat (lba + of_nat k - (lba + of_nat q)) = k - q"
  proof -
    have "unat (lba + of_nat k - lba) = k" using k(1) range by (simp add: unat_of_nat_u32)
    then have u: "unat (lba + of_nat k - (lba + of_nat q)) = (if q \<le> k then k - q else 2 ^ 32 - (q - k))"
      using unat_shift [of q "lba + of_nat k" lba] range by simp
    then show "q \<le> k \<Longrightarrow> unat (lba + of_nat k - (lba + of_nat q)) = k - q" by simp
    show "unat (lba + of_nat k - (lba + of_nat q)) < c \<longleftrightarrow> q \<le> k \<and> k < q + c"
      unfolding u using range k(1) by (auto split: if_splits)
  qed
  have lhs: "read_sectors ?d lba n ! i = ?d (lba + of_nat k) ! (i mod 512)"
    using wf' i by (simp add: nth_read_sectors k_def)
  have a: "?a ! i = d (lba + of_nat k) ! (i mod 512)"
    using wf i by (simp add: nth_read_sectors k_def)
  have rhs: "splice ?off xs ?a ! i = (if ?off \<le> i \<and> i < ?off + length xs then xs ! (i - ?off) else ?a ! i)"
    using fits' i wf by (intro nth_splice) simp_all
  show "read_sectors ?d lba n ! i = splice ?off xs ?a ! i"
  proof (cases "q \<le> k \<and> k < q + c")
    case True
    let ?j = "512 * (k - q) + i mod 512"
    have j: "?j < 512 * c" "i = 512 * q + ?j" using True k by auto
    have "?d (lba + of_nat k) = slice (512 * (k - q)) 512 ?buf"
      using shift diff True by (simp add: write_sectors_def)
    then have "read_sectors ?d lba n ! i = ?buf ! ?j"
      using lhs len j(1) k(3) by (simp add: slice_def)
    also have "\<dots> = (if r \<le> ?j \<and> ?j < r + length xs then xs ! (?j - r) else read_sectors d (lba + of_nat q) c ! ?j)"
      using wf fits j(1) by (intro nth_splice) simp_all
    also have "read_sectors d (lba + of_nat q) c ! ?j = d (lba + of_nat q + of_nat (k - q)) ! (i mod 512)"
      using wf j(1) k(3) by (simp add: nth_read_sectors)
    also have "lba + of_nat q + of_nat (k - q) = lba + of_nat k"
      using True by (simp add: of_nat_diff)
    finally have "read_sectors ?d lba n ! i =
      (if r \<le> ?j \<and> ?j < r + length xs then xs ! (?j - r) else d (lba + of_nat k) ! (i mod 512))" .
    moreover have "?j - r = i - ?off" "r \<le> ?j \<longleftrightarrow> ?off \<le> i" "?j < r + length xs \<longleftrightarrow> i < ?off + length xs"
      using j(2) by linarith+
    ultimately show ?thesis using rhs a by simp
  next
    case False
    with shift have "\<not> unat (lba + of_nat k - (lba + of_nat q)) < c" by simp
    then have "?d (lba + of_nat k) = d (lba + of_nat k)"
      unfolding write_sectors_def by (rule if_not_P)
    moreover have "\<not> (?off \<le> i \<and> i < ?off + length xs)"
      using False fits k by auto
    then have "splice ?off xs ?a ! i = ?a ! i" unfolding rhs by (rule if_not_P)
    ultimately show ?thesis using lhs a by simp
  qed
qed

end
