(* ===== verification/Fs_Bitmap.thy ===== *)
theory Fs_Bitmap
  imports Fs_State
begin

text \<open>
  The allocation of inodes and data blocks (\<open>inode_bitmap_alloc\<close>, \<open>block_bitmap_alloc\<close> and
  \<open>bitmap_sync\<close> of \<open>fs/file.c\<close>), and the two interpretations of the pool contract \<open>slot_pool\<close>
  on the mounted partition. A block is handed out as its sector number, so the block pool is
  numbered from the first data sector.
\<close>

section \<open>Operations\<close>

definition inode_bitmap_alloc :: "(fs, s32) km" where
  "inode_bitmap_alloc =
     bnd part_of (\<lambda>part.
     bnd (liftr (bitmap_scan (inode_bitmap part) 1)) (\<lambda>bit_idx.
     if bit_idx = -1 then ret (-1)
     else
       bnd (liftr (bitmap_set (inode_bitmap part) bit_idx 1)) (\<lambda>b.
       bnd (set_part (\<lambda>p. p\<lparr>inode_bitmap := b\<rparr>)) (\<lambda>_.
       ret bit_idx))))"

definition block_bitmap_alloc :: "(fs, s32) km" where
  "block_bitmap_alloc =
     bnd part_of (\<lambda>part.
     bnd (liftr (bitmap_scan (block_bitmap part) 1)) (\<lambda>bit_idx.
     if bit_idx = -1 then ret (-1)
     else
       bnd (liftr (bitmap_set (block_bitmap part) bit_idx 1)) (\<lambda>b.
       bnd (set_part (\<lambda>p. p\<lparr>block_bitmap := b\<rparr>)) (\<lambda>_.
       ret (data_start_lba (sb part) + bit_idx)))))"

text \<open>Clearing a bit in memory, as the release and rollback paths do.\<close>

definition inode_bitmap_clear :: "u32 \<Rightarrow> (fs, unit) km" where
  "inode_bitmap_clear i =
     bnd part_of (\<lambda>part.
     bnd (liftr (bitmap_set (inode_bitmap part) i 0)) (\<lambda>b.
     set_part (\<lambda>p. p\<lparr>inode_bitmap := b\<rparr>)))"

definition block_bitmap_clear :: "u32 \<Rightarrow> (fs, unit) km" where
  "block_bitmap_clear i =
     bnd part_of (\<lambda>part.
     bnd (liftr (bitmap_set (block_bitmap part) i 0)) (\<lambda>b.
     set_part (\<lambda>p. p\<lparr>block_bitmap := b\<rparr>)))"

datatype bitmap_type = INODE_BITMAP | BLOCK_BITMAP

definition bitmap_sync :: "u32 \<Rightarrow> bitmap_type \<Rightarrow> (fs, unit) km" where
  "bitmap_sync bit_idx btmp =
     bnd part_of (\<lambda>part.
     let off_sec = bit_idx div 4096;
         off_size = off_sec * 512;
         sec_lba = (case btmp of
             INODE_BITMAP \<Rightarrow> inode_bitmap_lba (sb part) + off_sec
           | BLOCK_BITMAP \<Rightarrow> block_bitmap_lba (sb part) + off_sec);
         bytes = (case btmp of
             INODE_BITMAP \<Rightarrow> bits (inode_bitmap part)
           | BLOCK_BITMAP \<Rightarrow> bits (block_bitmap part))
     in sec_write sec_lba (drop (unat off_size) bytes) 1)"

section \<open>Pools of the mounted partition\<close>

definition inode_used :: "fs \<Rightarrow> nat \<Rightarrow> bool" where
  "inode_used s i \<longleftrightarrow> used_bit (inode_bitmap (cur_part s)) i"

definition block_used :: "fs \<Rightarrow> nat \<Rightarrow> bool" where
  "block_used s i \<longleftrightarrow> used_bit (block_bitmap (cur_part s)) i"

definition take_inode :: "fs \<Rightarrow> (nat \<times> fs) res" where
  "take_inode s = rbind (inode_bitmap_alloc s) (\<lambda>(i, s'). Inr (unat i, s'))"

definition give_inode :: "fs \<Rightarrow> nat \<Rightarrow> fs res" where
  "give_inode s i = rbind (inode_bitmap_clear (of_nat i) s) (\<lambda>(_, s'). Inr s')"

definition take_block :: "fs \<Rightarrow> (nat \<times> fs) res" where
  "take_block s = rbind (block_bitmap_alloc s)
     (\<lambda>(lba, s'). Inr (unat (lba - data_start_lba (sb (cur_part s))), s'))"

definition give_block :: "fs \<Rightarrow> nat \<Rightarrow> fs res" where
  "give_block s i = rbind (block_bitmap_clear (of_nat i) s) (\<lambda>(_, s'). Inr s')"

text \<open>The two allocators are \<open>bitmap_take\<close> on a bitmap of the state.\<close>

lemma bitmap_take_Inr:
  assumes "bitmap_wf b" and "bitmap_take b = Inr (k, b')"
  shows "bitmap_scan b 1 = Inr (of_nat k)" and "(of_nat k :: u32) \<noteq> - 1"
    and "bitmap_set b (of_nat k) 1 = Inr b'" and "k < 2 ^ 31"
proof -
  from assms(2) obtain i where i: "bitmap_scan b 1 = Inr i" "bitmap_set b i 1 = Inr b'" "k = unat i"
    by (auto simp: bitmap_take_def rbind_eq_Inr)
  then show "bitmap_scan b 1 = Inr (of_nat k)" "bitmap_set b (of_nat k) 1 = Inr b'" by simp_all
  show "k < 2 ^ 31"
    using bitmap_pool.alloc_Inr(1) [OF assms] bitmap_cap_less [OF assms(1)] by linarith
  then show "(of_nat k :: u32) \<noteq> - 1" by (rule u32_of_nat_not_minus1)
qed

lemma bitmap_take_Inl: "bitmap_wf b \<Longrightarrow> bitmap_take b = Inl e \<Longrightarrow> bitmap_scan b 1 = Inl e"
proof -
  assume wf: "bitmap_wf b" and take: "bitmap_take b = Inl e"
  show "bitmap_scan b 1 = Inl e"
  proof (cases "\<exists>i < bitmap_cap b. \<not> used_bit b i")
    case True
    with wf take show ?thesis using bitmap_pool.alloc_slot by fastforce
  next
    case False
    then obtain e' where "bitmap_scan b 1 = Inl e'" using bitmap_scan_full by blast
    with take show ?thesis by (simp add: bitmap_take_def)
  qed
qed

lemma take_inode_eq:
  assumes "bitmap_wf (inode_bitmap (cur_part s))"
  shows "take_inode s = rbind (bitmap_take (inode_bitmap (cur_part s)))
    (\<lambda>(k, b). Inr (k, s\<lparr>cur_part := (cur_part s)\<lparr>inode_bitmap := b\<rparr>\<rparr>))"
proof (cases "bitmap_take (inode_bitmap (cur_part s))")
  case (Inl e)
  then show ?thesis
    using bitmap_take_Inl [OF assms Inl] by (simp add: take_inode_def inode_bitmap_alloc_def)
next
  case (Inr kb)
  then obtain k b where kb: "bitmap_take (inode_bitmap (cur_part s)) = Inr (k, b)" by (cases kb) auto
  note t = bitmap_take_Inr [OF assms kb]
  then show ?thesis
    using kb by (simp add: take_inode_def inode_bitmap_alloc_def unat_of_nat_u32)
qed

lemma take_block_eq:
  assumes "bitmap_wf (block_bitmap (cur_part s))"
  shows "take_block s = rbind (bitmap_take (block_bitmap (cur_part s)))
    (\<lambda>(k, b). Inr (k, s\<lparr>cur_part := (cur_part s)\<lparr>block_bitmap := b\<rparr>\<rparr>))"
proof (cases "bitmap_take (block_bitmap (cur_part s))")
  case (Inl e)
  then show ?thesis
    using bitmap_take_Inl [OF assms Inl] by (simp add: take_block_def block_bitmap_alloc_def)
next
  case (Inr kb)
  then obtain k b where kb: "bitmap_take (block_bitmap (cur_part s)) = Inr (k, b)" by (cases kb) auto
  note t = bitmap_take_Inr [OF assms kb]
  then show ?thesis
    using kb by (simp add: take_block_def block_bitmap_alloc_def unat_of_nat_u32)
qed

interpretation inode_pool: slot_pool "\<lambda>s :: fs. bitmap_wf (inode_bitmap (cur_part s))"
  "\<lambda>s :: fs. bitmap_cap (inode_bitmap (cur_part s))" inode_used take_inode give_inode
proof unfold_locales
  fix s :: fs and i
  assume wf: "bitmap_wf (inode_bitmap (cur_part s))"
    and i: "i < bitmap_cap (inode_bitmap (cur_part s))" "\<not> inode_used s i"
  then obtain k b' where "bitmap_take (inode_bitmap (cur_part s)) = Inr (k, b')"
    using bitmap_pool.alloc_slot [OF wf i(1)] by (auto simp: inode_used_def)
  with bitmap_pool.alloc_Inr [OF wf this]
  show "\<exists>k s'. take_inode s = Inr (k, s') \<and> k < bitmap_cap (inode_bitmap (cur_part s)) \<and>
    \<not> inode_used s k \<and> bitmap_wf (inode_bitmap (cur_part s')) \<and>
    bitmap_cap (inode_bitmap (cur_part s')) = bitmap_cap (inode_bitmap (cur_part s)) \<and>
    (\<forall>j < bitmap_cap (inode_bitmap (cur_part s)). inode_used s' j \<longleftrightarrow> j = k \<or> inode_used s j)"
    by (simp add: take_inode_eq [OF wf] inode_used_def)
next
  fix s :: fs
  assume wf: "bitmap_wf (inode_bitmap (cur_part s))"
    and "\<forall>i < bitmap_cap (inode_bitmap (cur_part s)). inode_used s i"
  then obtain e where "bitmap_take (inode_bitmap (cur_part s)) = Inl e"
    using bitmap_pool.alloc_full [OF wf] by (auto simp: inode_used_def)
  then show "\<exists>e. take_inode s = Inl e" by (simp add: take_inode_eq [OF wf])
next
  fix s :: fs and i
  assume "bitmap_wf (inode_bitmap (cur_part s))" and "i < bitmap_cap (inode_bitmap (cur_part s))"
  from bitmap_pool.free_slot [OF this]
  show "\<exists>s'. give_inode s i = Inr s' \<and> bitmap_wf (inode_bitmap (cur_part s')) \<and>
    bitmap_cap (inode_bitmap (cur_part s')) = bitmap_cap (inode_bitmap (cur_part s)) \<and>
    (\<forall>j < bitmap_cap (inode_bitmap (cur_part s)). inode_used s' j \<longleftrightarrow> j \<noteq> i \<and> inode_used s j)"
    by (auto simp: give_inode_def inode_bitmap_clear_def bitmap_give_def inode_used_def set_part_def)
qed

interpretation block_pool: slot_pool "\<lambda>s :: fs. bitmap_wf (block_bitmap (cur_part s))"
  "\<lambda>s :: fs. bitmap_cap (block_bitmap (cur_part s))" block_used take_block give_block
proof unfold_locales
  fix s :: fs and i
  assume wf: "bitmap_wf (block_bitmap (cur_part s))"
    and i: "i < bitmap_cap (block_bitmap (cur_part s))" "\<not> block_used s i"
  then obtain k b' where "bitmap_take (block_bitmap (cur_part s)) = Inr (k, b')"
    using bitmap_pool.alloc_slot [OF wf i(1)] by (auto simp: block_used_def)
  with bitmap_pool.alloc_Inr [OF wf this]
  show "\<exists>k s'. take_block s = Inr (k, s') \<and> k < bitmap_cap (block_bitmap (cur_part s)) \<and>
    \<not> block_used s k \<and> bitmap_wf (block_bitmap (cur_part s')) \<and>
    bitmap_cap (block_bitmap (cur_part s')) = bitmap_cap (block_bitmap (cur_part s)) \<and>
    (\<forall>j < bitmap_cap (block_bitmap (cur_part s)). block_used s' j \<longleftrightarrow> j = k \<or> block_used s j)"
    by (simp add: take_block_eq [OF wf] block_used_def)
next
  fix s :: fs
  assume wf: "bitmap_wf (block_bitmap (cur_part s))"
    and "\<forall>i < bitmap_cap (block_bitmap (cur_part s)). block_used s i"
  then obtain e where "bitmap_take (block_bitmap (cur_part s)) = Inl e"
    using bitmap_pool.alloc_full [OF wf] by (auto simp: block_used_def)
  then show "\<exists>e. take_block s = Inl e" by (simp add: take_block_eq [OF wf])
next
  fix s :: fs and i
  assume "bitmap_wf (block_bitmap (cur_part s))" and "i < bitmap_cap (block_bitmap (cur_part s))"
  from bitmap_pool.free_slot [OF this]
  show "\<exists>s'. give_block s i = Inr s' \<and> bitmap_wf (block_bitmap (cur_part s')) \<and>
    bitmap_cap (block_bitmap (cur_part s')) = bitmap_cap (block_bitmap (cur_part s)) \<and>
    (\<forall>j < bitmap_cap (block_bitmap (cur_part s)). block_used s' j \<longleftrightarrow> j \<noteq> i \<and> block_used s j)"
    by (auto simp: give_block_def block_bitmap_clear_def bitmap_give_def block_used_def set_part_def)
qed

end
