(* ===== verification/Inode.thy ===== *)
theory Inode
  imports Fs_Bitmap Fs_Data
begin

text \<open>
  \<open>fs/inode.c\<close>: inodes on disk and in memory. The inode table is an array of 4096 inodes of 76
  bytes that runs across sector borders; \<open>open_inodes\<close> is the cache of the inodes in use, whose
  entries count how often they are open. The lemmas read the sectors of the table as one array
  of bytes (\<open>inode_table\<close>) of inodes (\<open>inode_at\<close>), on which \<open>inode_sync\<close> and \<open>inode_delete\<close>
  are an update of one slot. The I/O buffers that callers pass (1024 bytes at least) are values
  here: every function overwrites what it uses of them.
\<close>

section \<open>Operations\<close>

record inode_position =
  two_sec :: bool
  sec_lba :: u32
  off_size :: u32

definition sizeof_inode :: u32 where
  "sizeof_inode = 76"

definition inode_locate :: "partition \<Rightarrow> u32 \<Rightarrow> inode_position res" where
  "inode_locate part inode_no =
     rbind (rassert ''inode_no < 4096'' (inode_no < 4096)) (\<lambda>_.
     let inode_table_lba = inode_table_lba (sb part);
         off_size = inode_no * sizeof_inode;
         off_sec = off_size div 512;
         off_size_in_sec = off_size mod 512;
         remain_in_sec = 512 - off_size_in_sec
     in Inr \<lparr>two_sec = (remain_in_sec < sizeof_inode), sec_lba = inode_table_lba + off_sec,
             off_size = off_size_in_sec\<rparr>)"

text \<open>Reading the sectors of an inode, patching its bytes and writing them back.\<close>

definition inode_patch :: "inode_position \<Rightarrow> u8 list \<Rightarrow> (fs, unit) km" where
  "inode_patch pos bytes =
     (if two_sec pos
      then bnd (sec_read (sec_lba pos) 2) (\<lambda>inode_buf.
           bnd (liftr (buf_write (unat (off_size pos)) bytes inode_buf)) (\<lambda>inode_buf.
           sec_write (sec_lba pos) inode_buf 2))
      else bnd (sec_read (sec_lba pos) 1) (\<lambda>inode_buf.
           bnd (liftr (buf_write (unat (off_size pos)) bytes inode_buf)) (\<lambda>inode_buf.
           sec_write (sec_lba pos) inode_buf 1)))"

text \<open>\<open>inode_no\<close> is a \<open>uint8_t\<close> in \<open>inode_sync\<close>.\<close>

definition inode_sync :: "inode \<Rightarrow> (fs, unit) km" where
  "inode_sync inode =
     bnd part_of (\<lambda>part.
     let inode_no = ucast (ucast (i_no inode) :: u8)
     in bnd (liftr (inode_locate part inode_no)) (\<lambda>inode_pos.
        bnd (kassert ''inode_pos.sec_lba <= (part->start_lba + part->sec_cnt)''
               (sec_lba inode_pos \<le> start_lba part + sec_cnt part)) (\<lambda>_.
        let pure_inode = inode\<lparr>i_open_cnts := 0, write_deny := 0\<rparr>
        in inode_patch inode_pos (inode_bytes pure_inode))))"

text \<open>The search through the list of open inodes.\<close>

fun open_inode_find :: "(ptr \<Rightarrow> inode option) \<Rightarrow> u32 \<Rightarrow> ptr list \<Rightarrow> ptr option res" where
  "open_inode_find heap inode_no [] = Inr None"
| "open_inode_find heap inode_no (p # elems) =
     (case heap p of
        None \<Rightarrow> Inl (Fault ''inode_found'')
      | Some i \<Rightarrow> if i_no i = inode_no then Inr (Some p) else open_inode_find heap inode_no elems)"

definition inode_open :: "u32 \<Rightarrow> (fs, ptr) km" where
  "inode_open inode_no =
     bnd part_of (\<lambda>part.
     bnd (gets inodes) (\<lambda>heap.
     bnd (liftr (open_inode_find heap inode_no (open_inodes part))) (\<lambda>found. case found of
       Some inode_found \<Rightarrow>
         bnd (upd_inode inode_found (\<lambda>i. i\<lparr>i_open_cnts := i_open_cnts i + 1\<rparr>)) (\<lambda>_.
         ret inode_found)
     | None \<Rightarrow>
         bnd (liftr (inode_locate part inode_no)) (\<lambda>inode_pos.
         bnd sys_malloc_unchecked (\<lambda>_.
         bnd fresh_ptr (\<lambda>inode_found.
         bnd sys_malloc_unchecked (\<lambda>_.
         bnd (sec_read (sec_lba inode_pos) (if two_sec inode_pos then 2 else 1)) (\<lambda>inode_buf.
         bnd (liftr (buf_read (unat (off_size inode_pos)) 76 inode_buf)) (\<lambda>bytes.
         bnd (set_part (\<lambda>p. p\<lparr>open_inodes := inode_found # open_inodes p\<rparr>)) (\<lambda>_.
         bnd (set_inode inode_found ((bytes_inode bytes)\<lparr>i_open_cnts := 1\<rparr>)) (\<lambda>_.
         ret inode_found)))))))))))"

definition inode_close :: "ptr \<Rightarrow> (fs, unit) km" where
  "inode_close p =
     bnd (upd_inode p (\<lambda>i. i\<lparr>i_open_cnts := i_open_cnts i - 1\<rparr>)) (\<lambda>_.
     bnd (get_inode p) (\<lambda>inode.
     if i_open_cnts inode = 0
     then bnd part_of (\<lambda>part.
          if p \<in> set (open_inodes part)
          then bnd (set_part (\<lambda>pt. pt\<lparr>open_inodes := remove1 p (open_inodes pt)\<rparr>)) (\<lambda>_.
               free_inode p)
          else fail (Fault ''list_remove''))
     else ret ()))"

definition inode_init :: "u32 \<Rightarrow> inode" where
  "inode_init inode_no =
     \<lparr>i_no = inode_no, i_size = 0, i_open_cnts = 0, write_deny = 0, i_sectors = replicate 13 0\<rparr>"

definition inode_delete :: "u32 \<Rightarrow> (fs, unit) km" where
  "inode_delete inode_no =
     bnd (kassert ''inode_no < 4096'' (inode_no < 4096)) (\<lambda>_.
     bnd part_of (\<lambda>part.
     bnd (liftr (inode_locate part inode_no)) (\<lambda>inode_pos.
     bnd (kassert ''inode_pos.sec_lba <= (part->start_lba + part->sec_cnt)''
            (sec_lba inode_pos \<le> start_lba part + sec_cnt part)) (\<lambda>_.
     inode_patch inode_pos (replicate 76 0)))))"

text \<open>Giving one block back: its bit is cleared in memory and the bitmap's sector written.\<close>

definition block_free :: "u32 \<Rightarrow> (fs, unit) km" where
  "block_free lba =
     bnd part_of (\<lambda>part.
     let blocks_bitmap_idx = lba - data_start_lba (sb part)
     in bnd (kassert ''blocks_bitmap_idx > 0'' (blocks_bitmap_idx > 0)) (\<lambda>_.
        bnd (block_bitmap_clear blocks_bitmap_idx) (\<lambda>_.
        bitmap_sync blocks_bitmap_idx BLOCK_BITMAP)))"

fun release_blocks :: "u32 list \<Rightarrow> (fs, unit) km" where
  "release_blocks [] = ret ()"
| "release_blocks (lba # blocks) =
     bnd (if lba \<noteq> 0 then block_free lba else ret ()) (\<lambda>_. release_blocks blocks)"

text \<open>
  The blocks of an inode: the 12 direct ones and, when there is an index block, the 128 in it
  (\<open>all_blocks\<close> of the code, which is zeroed before).
\<close>

definition all_blocks_of :: "inode \<Rightarrow> (fs, u32 list) km" where
  "all_blocks_of inode =
     (if i_sectors inode ! 12 \<noteq> 0
      then bnd (sec_read (i_sectors inode ! 12) 1) (\<lambda>table.
           ret (take 12 (i_sectors inode) @ bytes_words 128 table))
      else ret (take 12 (i_sectors inode) @ replicate 128 0))"

definition inode_release :: "u32 \<Rightarrow> (fs, unit) km" where
  "inode_release inode_no =
     bnd (inode_open inode_no) (\<lambda>inode_to_del.
     bnd (get_inode inode_to_del) (\<lambda>inode.
     bnd (kassert ''inode_to_del->i_no == inode_no'' (i_no inode = inode_no)) (\<lambda>_.
     bnd (all_blocks_of inode) (\<lambda>all_blocks.
     bnd (if i_sectors inode ! 12 \<noteq> 0 then block_free (i_sectors inode ! 12) else ret ()) (\<lambda>_.
     let block_cnt = (if i_sectors inode ! 12 \<noteq> 0 then 140 else 12)
     in bnd (release_blocks (take block_cnt all_blocks)) (\<lambda>_.
        bnd (inode_bitmap_clear inode_no) (\<lambda>_.
        bnd (bitmap_sync inode_no INODE_BITMAP) (\<lambda>_.
        bnd sys_malloc_unchecked (\<lambda>_.
        bnd (inode_delete inode_no) (\<lambda>_.
        inode_close inode_to_del))))))))))"

section \<open>The layout of a mounted partition\<close>

text \<open>
  Where \<open>partition_format\<close> puts things: the regions follow each other without overlap, inside
  the partition and inside the disk, and each bitmap in memory is as long as its region.
\<close>

definition layout_ok :: "partition \<Rightarrow> bool" where
  "layout_ok part \<longleftrightarrow>
     unat (block_bitmap_lba (sb part)) + unat (block_bitmap_sects (sb part)) \<le> unat (inode_bitmap_lba (sb part)) \<and>
     unat (inode_bitmap_lba (sb part)) + 1 \<le> unat (inode_table_lba (sb part)) \<and>
     unat (inode_table_lba (sb part)) + 608 \<le> unat (data_start_lba (sb part)) \<and>
     unat (data_start_lba (sb part)) + bitmap_cap (block_bitmap part) \<le> 163840 + 4096 \<and>
     unat (data_start_lba (sb part)) \<le> unat (start_lba part) + unat (sec_cnt part) \<and>
     unat (start_lba part) + unat (sec_cnt part) \<le> 163840 \<and>
     unat (start_lba part) + 2 \<le> unat (block_bitmap_lba (sb part)) \<and>
     dir_entry_size (sb part) = 24 \<and> root_inode_no (sb part) = 0 \<and>
     bitmap_wf (block_bitmap part) \<and>
     length (bits (block_bitmap part)) = 512 * unat (block_bitmap_sects (sb part)) \<and>
     unat (btmp_bytes_len (block_bitmap part)) = 512 * unat (block_bitmap_sects (sb part)) \<and>
     bitmap_wf (inode_bitmap part) \<and>
     length (bits (inode_bitmap part)) = 512 \<and> unat (btmp_bytes_len (inode_bitmap part)) = 512"

definition fs_ok :: "fs \<Rightarrow> bool" where
  "fs_ok s \<longleftrightarrow> disk_wf (disk s) \<and> layout_ok (cur_part s)"

definition inode_table :: "fs \<Rightarrow> u8 list" where
  "inode_table s = read_sectors (disk s) (inode_table_lba (sb (cur_part s))) 608"

definition inode_at :: "fs \<Rightarrow> nat \<Rightarrow> inode" where
  "inode_at s no = inodec.get (76 * no) (inode_table s)"

definition pure_inode :: "inode \<Rightarrow> inode" where
  "pure_inode i = i\<lparr>i_open_cnts := 0, write_deny := 0\<rparr>"

lemma fs_okD:
  assumes "fs_ok s"
  shows "disk_wf (disk s)" and "layout_ok (cur_part s)"
  using assms by (simp_all add: fs_ok_def)

lemma length_inode_table [simp]: "disk_wf (disk s) \<Longrightarrow> length (inode_table s) = 311296"
  by (simp add: inode_table_def)

subsection \<open>Positions\<close>

lemma inode_locate_run:
  assumes "no < 4096"
  shows "inode_locate part (of_nat no) = Inr \<lparr>two_sec = (512 - 76 * no mod 512 < 76),
    sec_lba = inode_table_lba (sb part) + of_nat (76 * no div 512), off_size = of_nat (76 * no mod 512)\<rparr>"
proof -
  have lt: "76 * no < 2 ^ 32" using assms by simp
  have no: "(of_nat no :: u32) < 4096" using assms by (simp add: word_less_nat_alt unat_of_nat_u32)
  have off: "(of_nat no :: u32) * 76 = of_nat (76 * no)" by simp
  have d: "(of_nat (76 * no) :: u32) div 512 = of_nat (76 * no div 512)"
    using u32_of_nat_div [OF lt, of 512] by simp
  have m: "(of_nat (76 * no) :: u32) mod 512 = of_nat (76 * no mod 512)"
    using u32_of_nat_mod [OF lt, of 512] by simp
  have le: "76 * no mod 512 \<le> 512" by (rule less_imp_le) simp
  have "(512 :: u32) - of_nat (76 * no mod 512) = of_nat (512 - 76 * no mod 512)"
    using le by (simp only: of_nat_diff of_nat_numeral)
  moreover have "(of_nat (512 - 76 * no mod 512) :: u32) < 76 \<longleftrightarrow> 512 - 76 * no mod 512 < 76"
    using u32_of_nat_less [of "512 - 76 * no mod 512" 76] by simp
  ultimately have r: "512 - (of_nat (76 * no mod 512) :: u32) < 76 \<longleftrightarrow> 512 - 76 * no mod 512 < 76"
    by simp
  show ?thesis
    unfolding inode_locate_def sizeof_inode_def Let_def off d m r using no by simp
qed

text \<open>A lba inside the partition's metadata is one the drive accepts.\<close>

lemma unat_lba_add:
  "unat (lba :: u32) + n \<le> 163840 \<Longrightarrow> unat (lba + of_nat n) = unat lba + n"
  by (simp add: unat_add_u32 unat_of_nat_u32)

lemma lba_ok: "unat (lba :: u32) < 163840 \<Longrightarrow> lba \<le> max_lba"
  by (simp add: max_lba_val word_le_nat_alt)

lemma chunks_ok_one [simp]: "lba \<le> max_lba \<Longrightarrow> chunks_ok lba 1"
  by (rule chunks_ok_small) simp_all

lemma inode_sectors_fit:
  fixes no :: nat
  assumes "no < 4096"
  defines "q \<equiv> 76 * no div 512" and "r \<equiv> 76 * no mod 512"
  shows "q < 608" and "512 - r < 76 \<Longrightarrow> q + 1 < 608" and "\<not> 512 - r < 76 \<Longrightarrow> r + 76 \<le> 512" and "r < 512"
    and "512 * q + r = 76 * no"
proof -
  show eq: "512 * q + r = 76 * no" unfolding q_def r_def by (rule mult_div_mod_eq)
  show r: "r < 512" by (simp add: r_def)
  from eq r show "q < 608" "512 - r < 76 \<Longrightarrow> q + 1 < 608" "\<not> 512 - r < 76 \<Longrightarrow> r + 76 \<le> 512"
    using assms(1) by linarith+
qed

definition same_outside :: "u32 \<Rightarrow> nat \<Rightarrow> disk \<Rightarrow> disk \<Rightarrow> bool" where
  "same_outside lba n d d' \<longleftrightarrow> (\<forall>l. n \<le> unat (l - lba) \<longrightarrow> d' l = d l)"

lemma write_sectors_same_outside:
  assumes "q + c \<le> n" and "n < 2 ^ 32"
  shows "same_outside lba n d (write_sectors d (lba + of_nat q) c buf)"
  unfolding same_outside_def write_sectors_def
proof (intro allI impI if_not_P)
  fix l assume "n \<le> unat (l - lba)"
  then show "\<not> unat (l - (lba + of_nat q)) < c"
    using assms unat_shift [of q l lba] by auto
qed

lemma inode_patch_run:
  assumes ok: "fs_ok s" and no: "no < 4096" and len: "length bytes = 76"
    and pos: "inode_locate (cur_part s) (of_nat no) = Inr pos"
  shows "\<exists>d'. inode_patch pos bytes s = Inr ((), s\<lparr>disk := d'\<rparr>) \<and> disk_wf d' \<and>
    inode_table (s\<lparr>disk := d'\<rparr>) = splice (76 * no) bytes (inode_table s) \<and>
    same_outside (inode_table_lba (sb (cur_part s))) 608 (disk s) d'"
proof -
  let ?lba = "inode_table_lba (sb (cur_part s))"
  define q where "q = 76 * no div 512"
  define r where "r = 76 * no mod 512"
  note fit = inode_sectors_fit [OF no, folded q_def r_def]
  define c where "c = (if 512 - r < 76 then 2 else 1 :: nat)"
  have pos': "pos = \<lparr>two_sec = (512 - r < 76), sec_lba = ?lba + of_nat q, off_size = of_nat r\<rparr>"
    using pos inode_locate_run [OF no] by (simp add: q_def r_def)
  have wf: "disk_wf (disk s)" and lay: "layout_ok (cur_part s)" using ok by (rule fs_okD)+
  have c: "q + c \<le> 608" "r + 76 \<le> 512 * c" using fit by (auto simp: c_def)
  have lba: "?lba + of_nat q \<le> max_lba"
    using lay fit(1) by (intro lba_ok) (simp add: layout_ok_def unat_lba_add)
  let ?buf = "splice r bytes (read_sectors (disk s) (?lba + of_nat q) c)"
  let ?d = "write_sectors (disk s) (?lba + of_nat q) c ?buf"
  have lb: "length ?buf = 512 * c" using wf c(2) len by simp
  have run: "inode_patch pos bytes s = Inr ((), s\<lparr>disk := ?d\<rparr>)"
  proof (cases "512 - r < 76")
    case True
    have "(2 :: u32) \<le> max_lba" by (simp add: max_lba_val)
    with True show ?thesis
      using lba lb c(2) wf len fit(4) unfolding pos' inode_patch_def
      by (simp add: bnd_sec_read chunks_ok_small buf_write_def sec_write_run c_def unat_of_nat_u32)
  next
    case False
    have "(1 :: u32) \<le> max_lba" by (simp add: max_lba_val)
    with False show ?thesis
      using lba lb c(2) wf len fit(4) unfolding pos' inode_patch_def
      by (simp add: bnd_sec_read buf_write_def sec_write_run c_def unat_of_nat_u32 disk_wf_def)
  qed
  have "read_sectors ?d ?lba 608 = splice (512 * q + r) bytes (read_sectors (disk s) ?lba 608)"
    using wf c len by (intro sector_patch) simp_all
  then have "inode_table (s\<lparr>disk := ?d\<rparr>) = splice (76 * no) bytes (inode_table s)"
    by (simp add: inode_table_def fit(5))
  moreover have "disk_wf ?d" using wf lb by (intro write_sectors_wf) simp_all
  moreover have "same_outside ?lba 608 (disk s) ?d" using c(1) by (intro write_sectors_same_outside) simp_all
  ultimately show ?thesis using run by blast
qed

lemma inode_locate_in_part:
  assumes "layout_ok part" and "no < 4096" and "inode_locate part (of_nat no) = Inr pos"
  shows "sec_lba pos \<le> start_lba part + sec_cnt part"
proof -
  have "unat (start_lba part + sec_cnt part) = unat (start_lba part) + unat (sec_cnt part)"
    using assms(1) by (simp add: layout_ok_def unat_add_u32)
  moreover have "unat (sec_lba pos) = unat (inode_table_lba (sb part)) + 76 * no div 512"
    using assms inode_sectors_fit(1) [OF assms(2)]
    by (auto simp: inode_locate_run layout_ok_def unat_lba_add)
  ultimately show ?thesis
    using assms(1) inode_sectors_fit(1) [OF assms(2)] by (simp add: layout_ok_def word_le_nat_alt)
qed

section \<open>Writing an inode\<close>

lemma inode_sync_run:
  assumes ok: "fs_ok s" and wf: "inode_wf i"
  shows "\<exists>d'. inode_sync i s = Inr ((), s\<lparr>disk := d'\<rparr>) \<and> disk_wf d' \<and>
    inode_table (s\<lparr>disk := d'\<rparr>) =
      splice (76 * (unat (i_no i) mod 256)) (inode_bytes (pure_inode i)) (inode_table s) \<and>
    same_outside (inode_table_lba (sb (cur_part s))) 608 (disk s) d'"
proof -
  let ?no = "unat (i_no i) mod 256"
  have no: "?no < 4096" by (rule less_trans [OF mod_less_divisor]) simp_all
  have cast: "ucast (ucast (i_no i) :: u8) = (of_nat ?no :: u32)"
    by (rule u32_eqI) (simp add: unat_of_nat_u32 less_trans [OF mod_less_divisor] unsigned_ucast_eq take_bit_eq_mod unat_mod)
  obtain pos where pos: "inode_locate (cur_part s) (of_nat ?no) = Inr pos"
    using inode_locate_run [OF no] by blast
  have len: "length (inode_bytes (pure_inode i)) = 76"
    using wf by (intro inodec.length_enc) (simp add: inode_wf_def pure_inode_def)
  have run: "inode_sync i s = inode_patch pos (inode_bytes (pure_inode i)) s"
    using inode_locate_in_part [OF fs_okD(2) [OF ok] no pos]
    by (simp add: inode_sync_def Let_def cast pos pure_inode_def)
  show ?thesis unfolding run by (rule inode_patch_run [OF ok no len pos])
qed

lemma inode_at_splice:
  assumes "disk_wf (disk s)" and "k < 4096" and "inode_wf i"
    and "inode_table s' = splice (76 * k) (inode_bytes i) (inode_table s)"
  shows "inode_at s' k = i" and "\<And>j. j < 4096 \<Longrightarrow> j \<noteq> k \<Longrightarrow> inode_at s' j = inode_at s j"
proof -
  have put: "inode_table s' = inodec.put_at (76 * k) i (inode_table s)"
    using assms(4) by (simp add: inodec.put_at_def)
  show "inode_at s' k = i"
    using assms(1-3) unfolding inode_at_def put by (intro inodec.get_put) simp_all
  show "inode_at s' j = inode_at s j" if "j < 4096" "j \<noteq> k" for j
    using assms(1-3) that unfolding inode_at_def put by (intro inodec.get_put_other) auto
qed

text \<open>C13: \<open>inode_sync\<close> succeeds on a mounted partition and writes the inode, with its open count
  and write lock cleared, into the slot of the on-disk table given by the low 8 bits of its number;
  every other slot and every sector outside the table is left alone. So an inode with number
  below 256 reads back from its own slot.\<close>

theorem inode_sync_correct:
  assumes "fs_ok s" and "inode_wf i"
  shows "\<exists>s'. inode_sync i s = Inr ((), s') \<and> s'\<lparr>disk := disk s\<rparr> = s \<and> fs_ok s' \<and>
    inode_at s' (unat (i_no i) mod 256) = pure_inode i \<and>
    (\<forall>j < 4096. j \<noteq> unat (i_no i) mod 256 \<longrightarrow> inode_at s' j = inode_at s j) \<and>
    (\<forall>l. 608 \<le> unat (l - inode_table_lba (sb (cur_part s))) \<longrightarrow> disk s' l = disk s l)"
proof -
  obtain d' where d': "inode_sync i s = Inr ((), s\<lparr>disk := d'\<rparr>)" "disk_wf d'"
      "inode_table (s\<lparr>disk := d'\<rparr>) =
         splice (76 * (unat (i_no i) mod 256)) (inode_bytes (pure_inode i)) (inode_table s)"
      "same_outside (inode_table_lba (sb (cur_part s))) 608 (disk s) d'"
    using inode_sync_run [OF assms] by blast
  have k: "unat (i_no i) mod 256 < 4096" by (rule less_trans [OF mod_less_divisor]) simp_all
  have wf: "inode_wf (pure_inode i)" using assms(2) by (simp add: inode_wf_def pure_inode_def)
  note at = inode_at_splice [OF fs_okD(1) [OF assms(1)] k wf d'(3)]
  show ?thesis
    using d'(1,2,4) at assms(1)
    by (intro exI [of _ "s\<lparr>disk := d'\<rparr>"]) (auto simp: fs_ok_def same_outside_def)
qed

text \<open>A mounted partition, for the witnesses: blocks 0 to 15 and inodes 0 and 1 are in use.\<close>

definition sample_part :: partition where
  "sample_part =
     \<lparr>start_lba = 0, sec_cnt = 8000,
      sb = \<lparr>magic = 0x19590318, sb_sec_cnt = 8000, inode_cnt = 4096, part_lba_base = 0,
        block_bitmap_lba = 2, block_bitmap_sects = 1, inode_bitmap_lba = 3, inode_bitmap_sects = 1,
        inode_table_lba = 4, inode_table_sects = 608, data_start_lba = 612, root_inode_no = 0,
        dir_entry_size = 24, pad = replicate 460 0\<rparr>,
      block_bitmap = \<lparr>btmp_bytes_len = 512, bits = 255 # 255 # replicate 510 0\<rparr>,
      inode_bitmap = \<lparr>btmp_bytes_len = 512, bits = 3 # replicate 511 0\<rparr>,
      open_inodes = []\<rparr>"

definition sample_fs :: fs where
  "sample_fs =
     \<lparr>disk = (\<lambda>_. replicate 512 0), cur_part = sample_part, inodes = (\<lambda>_. None), dirs = (\<lambda>_. None),
      next_addr = 16, malloc_ok = (\<lambda>_. True), mallocs = 0,
      file_table = replicate 32 \<lparr>fd_pos = 0, fd_flag = 0, fd_inode = 0\<rparr>,
      p_fd_table = [0, 1, 2, - 1, - 1, - 1, - 1, - 1], p_cwd_inode_no = 0, pipes = (\<lambda>_. None),
      kbd_buf = ioq_zero, woken = [], console = []\<rparr>"

lemma sample_fs_ok: "fs_ok sample_fs"
  by (simp add: fs_ok_def disk_wf_def layout_ok_def sample_fs_def sample_part_def bitmap_wf_def
      bitmap_cap_def)

theorem inode_sync_correct_witness:
  "\<exists>s'. inode_sync (inode_init 300) sample_fs = Inr ((), s') \<and> inode_at s' 44 = inode_init 300"
  using inode_sync_correct [OF sample_fs_ok, of "inode_init 300"]
  by (auto simp: inode_init_def inode_wf_def pure_inode_def)

section \<open>The cache of open inodes\<close>

text \<open>
  Each number is in memory once, open, with its number its own; addresses to come are fresh.
\<close>

definition icache_ok :: "fs \<Rightarrow> bool" where
  "icache_ok s \<longleftrightarrow>
     distinct (List.map (\<lambda>p. i_no (the (inodes s p))) (open_inodes (cur_part s))) \<and>
     (\<forall>p \<in> set (open_inodes (cur_part s)). p < next_addr s \<and>
        (\<exists>i. inodes s p = Some i \<and> inode_wf i \<and> i_open_cnts i \<noteq> 0))"

definition is_open :: "fs \<Rightarrow> u32 \<Rightarrow> bool" where
  "is_open s no \<longleftrightarrow> (\<exists>p \<in> set (open_inodes (cur_part s)). i_no (the (inodes s p)) = no)"

lemma open_inode_find_none:
  "(\<forall>p \<in> set ps. \<exists>i. heap p = Some i \<and> i_no i \<noteq> no) \<Longrightarrow> open_inode_find heap no ps = Inr None"
  by (induction ps) force+

lemma open_inode_find_some:
  "(\<forall>q \<in> set ps. heap q \<noteq> None) \<Longrightarrow> p \<in> set ps \<Longrightarrow> i_no (the (heap p)) = no \<Longrightarrow>
   (\<forall>q \<in> set ps. q \<noteq> p \<longrightarrow> i_no (the (heap q)) \<noteq> no) \<Longrightarrow> open_inode_find heap no ps = Inr (Some p)"
proof (induction ps)
  case (Cons q ps)
  then obtain i where i: "heap q = Some i" by auto
  show ?case
  proof (cases "q = p")
    case True
    with Cons.prems i show ?thesis by simp
  next
    case False
    with Cons.prems i have "i_no i \<noteq> no" by auto
    with Cons False i show ?thesis by simp
  qed
qed simp

lemma inode_open_cached:
  assumes ok: "icache_ok s" and p: "p \<in> set (open_inodes (cur_part s))" "inodes s p = Some i"
  shows "inode_open (i_no i) s =
    Inr (p, s\<lparr>inodes := (inodes s)(p \<mapsto> i\<lparr>i_open_cnts := i_open_cnts i + 1\<rparr>)\<rparr>)"
proof -
  have inj: "inj_on (\<lambda>p. i_no (the (inodes s p))) (set (open_inodes (cur_part s)))"
    using ok by (simp add: icache_ok_def distinct_map)
  have "i_no (the (inodes s q)) \<noteq> i_no i" if "q \<in> set (open_inodes (cur_part s))" "q \<noteq> p" for q
    using inj_onD [OF inj _ that(1) p(1)] that(2) p(2) by auto
  then have "open_inode_find (inodes s) (i_no i) (open_inodes (cur_part s)) = Inr (Some p)"
    using ok p by (intro open_inode_find_some) (auto simp: icache_ok_def)
  then show ?thesis using p(2) by (simp add: inode_open_def bnd_upd_inode)
qed

lemma inode_at_locate:
  assumes wf: "disk_wf (disk s)" and no: "no < 4096"
    and pos: "inode_locate (cur_part s) (of_nat no) = Inr pos"
  shows "bytes_inode (slice (unat (off_size pos)) 76
      (read_sectors (disk s) (sec_lba pos) (if two_sec pos then 2 else 1))) = inode_at s no"
proof -
  define q where "q = 76 * no div 512"
  define r where "r = 76 * no mod 512"
  note fit = inode_sectors_fit [OF no, folded q_def r_def]
  define c where "c = (if two_sec pos then 2 else 1 :: nat)"
  let ?lba = "inode_table_lba (sb (cur_part s))"
  have pos': "pos = \<lparr>two_sec = (512 - r < 76), sec_lba = ?lba + of_nat q, off_size = of_nat r\<rparr>"
    using pos inode_locate_run [OF no] by (simp add: q_def r_def)
  have c: "r + 76 \<le> 512 * c" "q + c \<le> 608" using fit by (auto simp: c_def pos')
  have "slice r 76 (read_sectors (disk s) (?lba + of_nat q) c) = slice (76 * no) 76 (inode_table s)"
  proof (rule nth_equalityI)
    show "length (slice r 76 (read_sectors (disk s) (?lba + of_nat q) c)) = length (slice (76 * no) 76 (inode_table s))"
      using wf c(1) no by simp
    fix i assume "i < length (slice r 76 (read_sectors (disk s) (?lba + of_nat q) c))"
    then have i: "i < 76" using wf c(1) by simp
    have "76 * no + i = 512 * q + (r + i)" using fit(5) by simp
    then have d: "(76 * no + i) div 512 = q + (r + i) div 512" "(76 * no + i) mod 512 = (r + i) mod 512"
      by (simp, simp only: mod_mult_self4)
    show "slice r 76 (read_sectors (disk s) (?lba + of_nat q) c) ! i = slice (76 * no) 76 (inode_table s) ! i"
      using i wf c no d by (simp add: slice_def inode_table_def nth_read_sectors add.assoc)
  qed
  then show ?thesis using fit(4)
    by (simp add: pos' c_def inode_at_def inodec.get_def unat_of_nat_u32 split: if_splits)
qed

lemma inode_open_fresh:
  assumes fs: "fs_ok s" and ok: "icache_ok s" and no: "no < 4096" and closed: "\<not> is_open s (of_nat no)"
    and mem: "malloc_ok s (mallocs s)" "malloc_ok s (Suc (mallocs s))"
  shows "inode_open (of_nat no) s = Inr (next_addr s,
    s\<lparr>mallocs := mallocs s + 2, next_addr := Suc (next_addr s),
      cur_part := (cur_part s)\<lparr>open_inodes := next_addr s # open_inodes (cur_part s)\<rparr>,
      inodes := (inodes s)(next_addr s \<mapsto> (inode_at s no)\<lparr>i_open_cnts := 1\<rparr>)\<rparr>)"
proof -
  have find: "open_inode_find (inodes s) (of_nat no) (open_inodes (cur_part s)) = Inr None"
    using ok closed by (intro open_inode_find_none) (force simp: icache_ok_def is_open_def)
  obtain pos where pos: "inode_locate (cur_part s) (of_nat no) = Inr pos"
    using inode_locate_run [OF no] by blast
  define q where "q = 76 * no div 512"
  define r where "r = 76 * no mod 512"
  note fit = inode_sectors_fit [OF no, folded q_def r_def]
  have pos': "pos = \<lparr>two_sec = (512 - r < 76), sec_lba = inode_table_lba (sb (cur_part s)) + of_nat q, off_size = of_nat r\<rparr>"
    using pos inode_locate_run [OF no] by (simp add: q_def r_def)
  have wf: "disk_wf (disk s)" and lay: "layout_ok (cur_part s)" using fs by (rule fs_okD)+
  have lba: "sec_lba pos \<le> max_lba"
    using lay fit(1) by (intro lba_ok) (simp add: pos' layout_ok_def unat_lba_add)
  define c :: u32 where "c = (if two_sec pos then 2 else 1)"
  have uc: "unat c = (if two_sec pos then 2 else 1)" by (simp add: c_def)
  have c: "0 < c" "chunks_ok (sec_lba pos) c" using lba by (auto simp: c_def intro: chunks_ok_small)
  have room: "unat (off_size pos) + 76 \<le> 512 * unat c"
    using fit by (auto simp: c_def pos' unat_of_nat_u32)
  show ?thesis
    unfolding inode_open_def
    using lba c room wf mem inode_at_locate [OF wf no pos]
    by (simp add: find pos bnd_malloc_unchecked bnd_sec_read buf_read_def flip: c_def uc)
qed

text \<open>Opening keeps the cache well formed.\<close>

lemma icache_cached:
  assumes ok: "icache_ok s" and p: "inodes s p = Some i" and c: "c \<noteq> 0"
  shows "icache_ok (s\<lparr>inodes := (inodes s)(p \<mapsto> i\<lparr>i_open_cnts := c\<rparr>)\<rparr>)"
proof -
  have "i_no (the (((inodes s)(p \<mapsto> i\<lparr>i_open_cnts := c\<rparr>)) q)) = i_no (the (inodes s q))" for q
    using p by simp
  then show ?thesis
    using ok p c unfolding icache_ok_def by (auto simp: inode_wf_def)
qed

lemma icache_fresh:
  assumes ok: "icache_ok s" and wf: "inode_wf i" and closed: "\<not> is_open s (i_no i)"
  shows "icache_ok (s\<lparr>mallocs := m, next_addr := Suc (next_addr s),
      cur_part := (cur_part s)\<lparr>open_inodes := next_addr s # open_inodes (cur_part s)\<rparr>,
      inodes := (inodes s)(next_addr s \<mapsto> i\<lparr>i_open_cnts := 1\<rparr>)\<rparr>)"
proof -
  let ?l = "open_inodes (cur_part s)"
  let ?h = "(inodes s)(next_addr s \<mapsto> i\<lparr>i_open_cnts := 1\<rparr>)"
  have lt: "p < next_addr s" if "p \<in> set ?l" for p using ok that by (auto simp: icache_ok_def)
  have h: "?h p = inodes s p" if "p \<in> set ?l" for p using lt [OF that] by simp
  have "List.map (\<lambda>p. i_no (the (?h p))) ?l = List.map (\<lambda>p. i_no (the (inodes s p))) ?l"
    using h by (intro map_cong) simp_all
  moreover have "i_no i \<notin> set (List.map (\<lambda>p. i_no (the (inodes s p))) ?l)"
    using closed by (auto simp: is_open_def)
  moreover have "i_no (the (?h (next_addr s))) = i_no i" by simp
  ultimately have "distinct (List.map (\<lambda>p. i_no (the (?h p))) (next_addr s # ?l))"
    using ok unfolding icache_ok_def by (simp only: list.map distinct.simps) simp
  moreover have "\<forall>p \<in> set ?l. p < Suc (next_addr s) \<and> (\<exists>i. ?h p = Some i \<and> inode_wf i \<and> i_open_cnts i \<noteq> 0)"
    using ok h lt by (auto simp: icache_ok_def less_SucI)
  ultimately show ?thesis using wf unfolding icache_ok_def by (simp add: inode_wf_def)
qed

lemma inode_close_shared:
  assumes "inodes s p = Some i" and "i_open_cnts i \<noteq> 1"
  shows "inode_close p s = Inr ((), s\<lparr>inodes := (inodes s)(p \<mapsto> i\<lparr>i_open_cnts := i_open_cnts i - 1\<rparr>)\<rparr>)"
  using assms by (simp add: inode_close_def bnd_upd_inode bnd_get_inode)

lemma inode_close_last:
  assumes "inodes s p = Some i" and "i_open_cnts i = 1" and "p \<in> set (open_inodes (cur_part s))"
  shows "inode_close p s = Inr ((), s\<lparr>inodes := (inodes s)(p := None),
    cur_part := (cur_part s)\<lparr>open_inodes := remove1 p (open_inodes (cur_part s))\<rparr>\<rparr>)"
  using assms by (simp add: inode_close_def bnd_upd_inode bnd_get_inode free_inode_def set_part_def)

text \<open>C14: Opening an inode of a mounted partition gives the one copy of it in memory: the cached
  object with its count raised, or a new object read from the table, alone in the cache under its
  number. Closing it again restores the cache and the heap; neither touches the disk.\<close>

theorem inode_open_close:
  assumes fs: "fs_ok s" and ok: "icache_ok s" and no: "no < 4096"
    and mem: "malloc_ok s (mallocs s)" "malloc_ok s (Suc (mallocs s))"
    and own: "\<not> is_open s (of_nat no) \<longrightarrow> i_no (inode_at s no) = of_nat no \<and> inodes s (next_addr s) = None"
    and cnt: "\<forall>p i. inodes s p = Some i \<longrightarrow> i_open_cnts i + 1 \<noteq> 0"
  shows "\<exists>p i s1 s2. inode_open (of_nat no) s = Inr (p, s1) \<and> icache_ok s1 \<and>
    inodes s1 p = Some i \<and> i_no i = of_nat no \<and> is_open s1 (of_nat no) \<and>
    (if is_open s (of_nat no) then \<exists>i0. inodes s p = Some i0 \<and> i = i0\<lparr>i_open_cnts := i_open_cnts i0 + 1\<rparr>
     else i = (inode_at s no)\<lparr>i_open_cnts := 1\<rparr>) \<and>
    inode_close p s1 = Inr ((), s2) \<and> icache_ok s1 \<and>
    disk s1 = disk s \<and> disk s2 = disk s \<and> inodes s2 = inodes s \<and> cur_part s2 = cur_part s"
proof (cases "is_open s (of_nat no)")
  case True
  then obtain p where p: "p \<in> set (open_inodes (cur_part s))" "i_no (the (inodes s p)) = of_nat no"
    by (auto simp: is_open_def)
  with ok obtain i where i: "inodes s p = Some i" "i_open_cnts i \<noteq> 0" "i_no i = of_nat no"
    by (auto simp: icache_ok_def)
  let ?i = "i\<lparr>i_open_cnts := i_open_cnts i + 1\<rparr>"
  let ?s = "s\<lparr>inodes := (inodes s)(p \<mapsto> ?i)\<rparr>"
  have "i_open_cnts ?i \<noteq> 1" using i(2) by simp
  then have "inode_close p ?s = Inr ((), ?s\<lparr>inodes := (inodes ?s)(p \<mapsto> ?i\<lparr>i_open_cnts := i_open_cnts ?i - 1\<rparr>)\<rparr>)"
    by (intro inode_close_shared) simp_all
  moreover have "(inodes s)(p \<mapsto> i) = inodes s" using i(1) by auto
  moreover have "inode_open (of_nat no) s = Inr (p, ?s)"
    using inode_open_cached [OF ok p(1) i(1)] i(3) by simp
  moreover have "icache_ok ?s" using ok i cnt by (intro icache_cached) auto
  moreover have "is_open ?s (of_nat no)" using p i by (auto simp: is_open_def)
  ultimately show ?thesis
    using True i by (intro exI [of _ p] exI [of _ ?i] exI [of _ ?s] exI [of _ s]) simp
next
  case False
  let ?i = "(inode_at s no)\<lparr>i_open_cnts := 1\<rparr>"
  let ?p = "next_addr s"
  let ?s = "s\<lparr>mallocs := mallocs s + 2, next_addr := Suc (next_addr s),
      cur_part := (cur_part s)\<lparr>open_inodes := next_addr s # open_inodes (cur_part s)\<rparr>,
      inodes := (inodes s)(next_addr s \<mapsto> ?i)\<rparr>"
  have op: "inode_open (of_nat no) s = Inr (?p, ?s)"
    using inode_open_fresh [OF fs ok no False mem] .
  have close: "inode_close ?p ?s = Inr ((), ?s\<lparr>inodes := (inodes ?s)(?p := None),
      cur_part := (cur_part ?s)\<lparr>open_inodes := remove1 ?p (open_inodes (cur_part ?s))\<rparr>\<rparr>)"
    by (intro inode_close_last [where i = ?i]) simp_all
  have "inode_wf (inode_at s no)" by (simp add: inode_at_def inodec.get_def)
  then have "icache_ok ?s" using ok own False by (intro icache_fresh) simp_all
  moreover have "(inodes s)(?p := None) = inodes s" using own False by auto
  ultimately show ?thesis
    using False op close own
    by (intro exI [of _ ?p] exI [of _ ?i] exI [of _ ?s]
        exI [of _ "s\<lparr>mallocs := mallocs s + 2, next_addr := Suc (next_addr s)\<rparr>"]) (simp add: is_open_def)
qed

lemma sample_fs_icache: "icache_ok sample_fs"
  by (simp add: icache_ok_def sample_fs_def sample_part_def)

lemma sample_inode_0: "inode_at sample_fs 0 = inode_init 0"
proof -
  have pos: "inode_locate (cur_part sample_fs) (of_nat 0) = Inr \<lparr>two_sec = False, sec_lba = 4, off_size = 0\<rparr>"
    using inode_locate_run [of 0 "cur_part sample_fs"] by (simp add: sample_fs_def sample_part_def)
  have "bytes_inode (replicate 76 0) = inode_init 0" by code_simp
  then show ?thesis
    using inode_at_locate [OF fs_okD(1) [OF sample_fs_ok] _ pos] by (simp add: sample_fs_def)
qed

theorem inode_open_close_witness:
  "\<exists>p s1. inode_open (of_nat 0) sample_fs = Inr (p, s1) \<and> icache_ok s1 \<and> is_open s1 (of_nat 0)"
proof -
  have "malloc_ok sample_fs n" "inodes sample_fs p = None" for n p by (simp_all add: sample_fs_def)
  then show ?thesis
    using inode_open_close [OF sample_fs_ok sample_fs_icache, of 0] sample_inode_0
    by (auto simp: inode_init_def)
qed

section \<open>Synchronised bitmaps\<close>

text \<open>
  What an operation on the block bitmap may change: the bits, and the sectors that hold them.
\<close>

definition block_frame :: "fs \<Rightarrow> fs \<Rightarrow> bool" where
  "block_frame s s' \<longleftrightarrow>
     s' = s\<lparr>disk := disk s', cur_part := (cur_part s)\<lparr>block_bitmap := block_bitmap (cur_part s')\<rparr>\<rparr> \<and>
     bitmap_cap (block_bitmap (cur_part s')) = bitmap_cap (block_bitmap (cur_part s)) \<and>
     same_outside (block_bitmap_lba (sb (cur_part s))) (unat (block_bitmap_sects (sb (cur_part s)))) (disk s) (disk s') \<and>
     fs_ok s'"

definition bitmaps_synced :: "fs \<Rightarrow> bool" where
  "bitmaps_synced s \<longleftrightarrow>
     read_sectors (disk s) (block_bitmap_lba (sb (cur_part s))) (unat (block_bitmap_sects (sb (cur_part s))))
       = bits (block_bitmap (cur_part s)) \<and>
     read_sectors (disk s) (inode_bitmap_lba (sb (cur_part s))) 1 = bits (inode_bitmap (cur_part s))"

lemma layout_capD:
  assumes "layout_ok part"
  shows "bitmap_cap (block_bitmap part) = 4096 * unat (block_bitmap_sects (sb part))"
    and "bitmap_cap (inode_bitmap part) = 4096" and "bitmap_cap (block_bitmap part) < 2 ^ 31"
    and "bitmap_wf (block_bitmap part)" and "bitmap_wf (inode_bitmap part)"
  using assms by (auto simp: layout_ok_def bitmap_cap_def)

lemma layout_chain:
  assumes "layout_ok part"
  shows "unat (start_lba part) + 2 \<le> unat (block_bitmap_lba (sb part))"
    and "unat (block_bitmap_lba (sb part)) + unat (block_bitmap_sects (sb part)) \<le> unat (inode_bitmap_lba (sb part))"
    and "unat (inode_bitmap_lba (sb part)) + 1 \<le> unat (inode_table_lba (sb part))"
    and "unat (inode_table_lba (sb part)) + 608 \<le> unat (data_start_lba (sb part))"
    and "unat (data_start_lba (sb part)) \<le> 163840"
    and "unat (data_start_lba (sb part)) + bitmap_cap (block_bitmap part) \<le> 167936"
  using assms by (auto simp: layout_ok_def)

lemma u32_div_mod_4096:
  "k < 2 ^ 31 \<Longrightarrow> (of_nat k :: u32) div 4096 = of_nat (k div 4096)"
  using u32_of_nat_div [of k 4096] by simp

lemma bitmap_sync_block:
  assumes ok: "fs_ok s" and k: "k < bitmap_cap (block_bitmap (cur_part s))"
  defines "q \<equiv> k div 4096"
  shows "bitmap_sync (of_nat k) BLOCK_BITMAP s = Inr ((), s\<lparr>disk := write_sectors (disk s)
    (block_bitmap_lba (sb (cur_part s)) + of_nat q) 1 (drop (512 * q) (bits (block_bitmap (cur_part s))))\<rparr>)"
    and "q < unat (block_bitmap_sects (sb (cur_part s)))"
proof -
  let ?p = "cur_part s"
  have lay: "layout_ok ?p" using ok by (rule fs_okD)
  note cap = layout_capD [OF lay]
  show q: "q < unat (block_bitmap_sects (sb ?p))" using k cap(1) by (simp add: q_def less_mult_imp_div_less mult.commute)
  have k31: "k < 2 ^ 31" using k cap(3) by simp
  have q': "q < 2 ^ 20" using k31 by (simp add: q_def)
  have lba: "block_bitmap_lba (sb ?p) + of_nat q \<le> max_lba"
    using lay q by (intro lba_ok) (simp add: layout_ok_def unat_lba_add)
  have "(of_nat q :: u32) * 512 = of_nat (512 * q)" by simp
  moreover have "512 * q < 2 ^ 32" using q' by simp
  ultimately have off: "unat ((of_nat q :: u32) * 512) = 512 * q" by (simp only: unat_of_nat_u32)
  have "512 \<le> length (drop (512 * q) (bits (block_bitmap ?p)))"
    using lay q by (simp add: layout_ok_def)
  moreover have "(1 :: u32) \<le> max_lba" by (simp add: max_lba_val)
  ultimately show "bitmap_sync (of_nat k) BLOCK_BITMAP s = Inr ((), s\<lparr>disk := write_sectors (disk s)
    (block_bitmap_lba (sb ?p) + of_nat q) 1 (drop (512 * q) (bits (block_bitmap ?p)))\<rparr>)"
    using lba off by (simp add: bitmap_sync_def Let_def u32_div_mod_4096 [OF k31] sec_write_run flip: q_def)
qed

lemma bitmap_sync_inode:
  assumes ok: "fs_ok s" and k: "k < 4096"
  shows "bitmap_sync (of_nat k) INODE_BITMAP s = Inr ((), s\<lparr>disk := write_sectors (disk s)
    (inode_bitmap_lba (sb (cur_part s))) 1 (bits (inode_bitmap (cur_part s)))\<rparr>)"
proof -
  let ?p = "cur_part s"
  have lay: "layout_ok ?p" using ok by (rule fs_okD)
  have lba: "inode_bitmap_lba (sb ?p) \<le> max_lba" using lay by (intro lba_ok) (simp add: layout_ok_def)
  have d: "(of_nat k :: u32) div 4096 = 0" using u32_div_mod_4096 [of k] k by simp
  have "(1 :: u32) \<le> max_lba" by (simp add: max_lba_val)
  with lba d lay show ?thesis
    by (simp add: bitmap_sync_def Let_def sec_write_run layout_ok_def)
qed

lemma write_one_region:
  assumes wf: "disk_wf d" and buf: "512 \<le> length buf" and q: "q < n" "n < 2 ^ 32"
  shows "read_sectors (write_sectors d (lba + of_nat q) 1 buf) lba n =
    splice (512 * q) (take 512 buf) (read_sectors d lba n)"
proof -
  have "splice 0 (take 512 buf) (read_sectors d (lba + of_nat q) 1) = take 512 buf"
    using wf buf by (simp add: splice_def disk_wf_def)
  moreover have "write_sectors d l 1 (take 512 buf) = write_sectors d l 1 buf" for l
    by (auto simp: write_sectors_def slice_def fun_eq_iff)
  ultimately show ?thesis
    using sector_patch [OF wf, of 0 "take 512 buf" 1 q n lba] buf q by simp
qed

lemma write_one_outside:
  "q < n \<Longrightarrow> n < 2 ^ 32 \<Longrightarrow> same_outside lba n d (write_sectors d (lba + of_nat q) 1 buf)"
  using write_sectors_same_outside [of q 1 n] by simp

text \<open>Writing back the sector of the changed bit brings the region up to date.\<close>

lemma sync_region:
  assumes i: "i < 8 * length bs" and len: "length bs = 512 * n"
  shows "splice (512 * (i div 4096)) (take 512 (drop (512 * (i div 4096)) (bs[i div 8 := x]))) bs = bs[i div 8 := x]"
proof -
  define q where "q = i div 4096"
  have q: "i div 8 div 512 = q" by (simp add: q_def div_mult2_eq [symmetric])
  have "q < n" using i by (simp add: q_def len less_mult_imp_div_less mult.commute)
  then have le: "512 * q + 512 \<le> length bs" by (simp add: len)
  have sec: "512 * q \<le> i div 8 \<and> i div 8 < 512 * q + 512" using q by auto
  show ?thesis
    unfolding q_def [symmetric]
  proof (rule nth_equalityI)
    show "length (splice (512 * q) (take 512 (drop (512 * q) (bs[i div 8 := x]))) bs) = length (bs[i div 8 := x])"
      using le by simp
    fix j assume "j < length (splice (512 * q) (take 512 (drop (512 * q) (bs[i div 8 := x]))) bs)"
    then show "splice (512 * q) (take 512 (drop (512 * q) (bs[i div 8 := x]))) bs ! j = bs[i div 8 := x] ! j"
      using le sec by (auto simp: nth_splice)
  qed
qed

lemma bitmap_set_bits:
  assumes "bitmap_set b (of_nat i) v = Inr b'" and "i < 2 ^ 32"
  obtains x where "b' = b\<lparr>bits := (bits b)[i div 8 := x]\<rparr>"
  using assms by (auto simp: bitmap_set_def rbind_eq_Inr unat_div8 Let_def split: if_splits)

text \<open>Regions of the disk that do not meet.\<close>

lemma same_outside_read:
  assumes same: "same_outside lba n d d'" and fit: "unat lba + n < 4294967296" "unat l + m < 4294967296"
    and apart: "unat l + m \<le> unat lba \<or> unat lba + n \<le> unat l"
  shows "read_sectors d' l m = read_sectors d l m"
proof -
  have "d' (l + of_nat k) = d (l + of_nat k)" if "k < m" for k
  proof -
    have u: "unat (l + of_nat k) = unat l + k" using that fit(2) by (simp add: unat_add_u32 unat_of_nat_u32)
    have "n \<le> unat (l + of_nat k - lba)"
    proof (cases "unat lba \<le> unat l + k")
      case True
      with apart that u show ?thesis by (auto simp: unat_sub_u32)
    next
      case False
      then have "\<not> lba \<le> l + of_nat k" using u by (simp add: word_le_nat_alt)
      then have "unat (l + of_nat k - lba) = unat (l + of_nat k) + 2 ^ 32 - unat lba"
        using unat_sub_if' [of "l + of_nat k" lba] by (simp add: word_le_nat_alt)
      with u fit show ?thesis by simp
    qed
    with same show ?thesis by (simp add: same_outside_def)
  qed
  then show ?thesis by (auto simp: read_sectors_def intro: map_cong arg_cong [of _ _ concat])
qed

lemma block_set_sync:
  assumes ok: "fs_ok s" and k: "k < bitmap_cap (block_bitmap (cur_part s))" and v: "v = 1 \<or> v = 0"
  obtains b' d' where "bitmap_set (block_bitmap (cur_part s)) (of_nat k) v = Inr b'"
    and "bitmap_sync (of_nat k) BLOCK_BITMAP (s\<lparr>cur_part := (cur_part s)\<lparr>block_bitmap := b'\<rparr>\<rparr>) =
      Inr ((), s\<lparr>disk := d', cur_part := (cur_part s)\<lparr>block_bitmap := b'\<rparr>\<rparr>)"
    and "block_frame s (s\<lparr>disk := d', cur_part := (cur_part s)\<lparr>block_bitmap := b'\<rparr>\<rparr>)"
    and "bitmaps_synced s \<Longrightarrow> bitmaps_synced (s\<lparr>disk := d', cur_part := (cur_part s)\<lparr>block_bitmap := b'\<rparr>\<rparr>)"
    and "\<forall>j < bitmap_cap (block_bitmap (cur_part s)). used_bit b' j = (if j = k then v = 1 else block_used s j)"
proof -
  let ?p = "cur_part s" and ?b = "block_bitmap (cur_part s)"
  let ?lba = "block_bitmap_lba (sb ?p)" and ?n = "unat (block_bitmap_sects (sb ?p))"
  have wf: "disk_wf (disk s)" and lay: "layout_ok ?p" using ok by (rule fs_okD)+
  note cap = layout_capD [OF lay] and chain = layout_chain [OF lay]
  obtain b' where b': "bitmap_set ?b (of_nat k) v = Inr b'" "bitmap_wf b'" "bitmap_cap b' = bitmap_cap ?b"
      "btmp_bytes_len b' = btmp_bytes_len ?b" "length (bits b') = length (bits ?b)"
      "\<forall>j < bitmap_cap ?b. used_bit b' j = (if j = k then v = 1 else used_bit ?b j)"
    using bitmap_set_wf [OF cap(4) k v] by metis
  let ?s1 = "s\<lparr>cur_part := ?p\<lparr>block_bitmap := b'\<rparr>\<rparr>"
  have k31: "k < 2 ^ 31" using k cap(3) by simp
  have lay1: "layout_ok (?p\<lparr>block_bitmap := b'\<rparr>)" using lay b' by (simp add: layout_ok_def)
  have ok1: "fs_ok ?s1" using wf lay1 by (simp add: fs_ok_def)
  define q where "q = k div 4096"
  let ?d = "write_sectors (disk s) (?lba + of_nat q) 1 (drop (512 * q) (bits b'))"
  let ?s' = "s\<lparr>disk := ?d, cur_part := ?p\<lparr>block_bitmap := b'\<rparr>\<rparr>"
  have run: "bitmap_sync (of_nat k) BLOCK_BITMAP ?s1 = Inr ((), ?s')"
    and q: "q < ?n"
    using bitmap_sync_block [OF ok1, of k] k b'(3) by (simp_all add: q_def)
  have len: "length (bits ?b) = 512 * ?n" using lay by (simp add: layout_ok_def)
  have ld: "512 \<le> length (drop (512 * q) (bits b'))" using q len b'(5) by simp
  have n: "?n < 2 ^ 32" by simp
  have wf': "disk_wf ?d" using wf ld by (intro write_sectors_wf) simp_all
  have out: "same_outside ?lba ?n (disk s) ?d" using write_one_outside [OF q n] .
  have frame: "block_frame s ?s'"
    using out wf' lay1 b'(3) by (simp add: block_frame_def fs_ok_def)
  have "bitmaps_synced ?s'" if syn: "bitmaps_synced s"
  proof -
    obtain x where x: "b' = ?b\<lparr>bits := (bits ?b)[k div 8 := x]\<rparr>"
      using bitmap_set_bits [OF b'(1)] k31 by auto
    have "read_sectors ?d ?lba ?n = splice (512 * q) (take 512 (drop (512 * q) (bits b'))) (bits ?b)"
      using write_one_region [OF wf ld q n] syn by (simp add: bitmaps_synced_def)
    also have "\<dots> = bits b'"
      using sync_region [of k "bits ?b" ?n x] len k cap(1) by (simp add: x q_def)
    finally have "read_sectors ?d ?lba ?n = bits b'" .
    moreover have "read_sectors ?d (inode_bitmap_lba (sb ?p)) 1 = read_sectors (disk s) (inode_bitmap_lba (sb ?p)) 1"
      using chain by (intro same_outside_read [OF out]; arith)
    ultimately show ?thesis using syn by (simp add: bitmaps_synced_def)
  qed
  then show ?thesis
    using that [OF b'(1) run frame] b'(6) by (simp add: block_used_def)
qed

lemma block_frame_refl: "fs_ok s \<Longrightarrow> block_frame s s"
  by (simp add: block_frame_def same_outside_def)

lemma block_frame_trans:
  assumes a: "block_frame s t" and b: "block_frame t u"
  shows "block_frame s u"
proof -
  have t: "t = s\<lparr>disk := disk t, cur_part := (cur_part s)\<lparr>block_bitmap := block_bitmap (cur_part t)\<rparr>\<rparr>"
    using a by (simp add: block_frame_def)
  then have c: "cur_part t = (cur_part s)\<lparr>block_bitmap := block_bitmap (cur_part t)\<rparr>"
    by (metis fs.select_convs(2) fs.surjective fs.update_convs(2))
  have u: "u = t\<lparr>disk := disk u, cur_part := (cur_part t)\<lparr>block_bitmap := block_bitmap (cur_part u)\<rparr>\<rparr>"
    using b by (simp add: block_frame_def)
  have "u = s\<lparr>disk := disk u, cur_part := (cur_part s)\<lparr>block_bitmap := block_bitmap (cur_part u)\<rparr>\<rparr>"
    by (subst u, subst t, subst c) simp
  moreover have sb: "sb (cur_part t) = sb (cur_part s)" by (subst c) simp
  ultimately show ?thesis
    using a b unfolding block_frame_def by (auto simp: sb same_outside_def)
qed

lemma block_frameD:
  assumes "block_frame s t"
  shows "fs_ok t" and "bitmap_cap (block_bitmap (cur_part t)) = bitmap_cap (block_bitmap (cur_part s))"
    and "sb (cur_part t) = sb (cur_part s)" and "inode_bitmap (cur_part t) = inode_bitmap (cur_part s)"
    and "open_inodes (cur_part t) = open_inodes (cur_part s)" and "inodes t = inodes s"
    and "start_lba (cur_part t) = start_lba (cur_part s)" and "sec_cnt (cur_part t) = sec_cnt (cur_part s)"
    and "mallocs t = mallocs s" and "malloc_ok t = malloc_ok s" and "next_addr t = next_addr s"
proof -
  have t: "t = s\<lparr>disk := disk t, cur_part := (cur_part s)\<lparr>block_bitmap := block_bitmap (cur_part t)\<rparr>\<rparr>"
    using assms by (simp add: block_frame_def)
  show "fs_ok t" "bitmap_cap (block_bitmap (cur_part t)) = bitmap_cap (block_bitmap (cur_part s))"
    using assms by (simp_all add: block_frame_def)
  show "sb (cur_part t) = sb (cur_part s)" by (subst t) simp
  show "inode_bitmap (cur_part t) = inode_bitmap (cur_part s)" by (subst t) simp
  show "open_inodes (cur_part t) = open_inodes (cur_part s)" by (subst t) simp
  show "inodes t = inodes s" by (subst t) simp
  show "start_lba (cur_part t) = start_lba (cur_part s)" by (subst t) simp
  show "sec_cnt (cur_part t) = sec_cnt (cur_part s)" by (subst t) simp
  show "mallocs t = mallocs s" by (subst t) simp
  show "malloc_ok t = malloc_ok s" by (subst t) simp
  show "next_addr t = next_addr s" by (subst t) simp
qed

section \<open>Releasing an inode\<close>

text \<open>The number of a block in the bitmap; which addresses are blocks that can be freed.\<close>

definition block_no :: "fs \<Rightarrow> u32 \<Rightarrow> nat" where
  "block_no s lba = unat (lba - data_start_lba (sb (cur_part s)))"

definition data_block :: "fs \<Rightarrow> u32 \<Rightarrow> bool" where
  "data_block s lba \<longleftrightarrow> 0 < block_no s lba \<and> block_no s lba < bitmap_cap (block_bitmap (cur_part s))"

lemma block_free_run:
  assumes ok: "fs_ok s" and blk: "data_block s lba"
  shows "\<exists>s'. block_free lba s = Inr ((), s') \<and> block_frame s s' \<and> (bitmaps_synced s \<longrightarrow> bitmaps_synced s') \<and>
    (\<forall>j < bitmap_cap (block_bitmap (cur_part s)). block_used s' j \<longleftrightarrow> j \<noteq> block_no s lba \<and> block_used s j)"
proof -
  let ?k = "block_no s lba"
  have k: "?k < bitmap_cap (block_bitmap (cur_part s))" "0 < ?k" using blk by (simp_all add: data_block_def)
  have idx: "lba - data_start_lba (sb (cur_part s)) = of_nat ?k" by (simp add: block_no_def)
  have pos: "(0 :: u32) < of_nat ?k"
    using k(2) by (simp only: idx [symmetric]) (simp only: word_less_nat_alt block_no_def unat_0)
  obtain b' d' where
    b': "bitmap_set (block_bitmap (cur_part s)) (of_nat ?k) 0 = Inr b'"
      "bitmap_sync (of_nat ?k) BLOCK_BITMAP (s\<lparr>cur_part := (cur_part s)\<lparr>block_bitmap := b'\<rparr>\<rparr>) =
         Inr ((), s\<lparr>disk := d', cur_part := (cur_part s)\<lparr>block_bitmap := b'\<rparr>\<rparr>)"
      "block_frame s (s\<lparr>disk := d', cur_part := (cur_part s)\<lparr>block_bitmap := b'\<rparr>\<rparr>)"
      "bitmaps_synced s \<Longrightarrow> bitmaps_synced (s\<lparr>disk := d', cur_part := (cur_part s)\<lparr>block_bitmap := b'\<rparr>\<rparr>)"
      "\<forall>j < bitmap_cap (block_bitmap (cur_part s)). used_bit b' j = (if j = ?k then (0 :: u8) = 1 else block_used s j)"
    by (rule block_set_sync [OF ok k(1) disjI2 [OF refl]]) (rule that)
  have "block_free lba s = Inr ((), s\<lparr>disk := d', cur_part := (cur_part s)\<lparr>block_bitmap := b'\<rparr>\<rparr>)"
    using pos b'(1,2) by (simp add: block_free_def block_bitmap_clear_def idx Let_def set_part_def bnd_assoc)
  moreover have "used_bit b' j \<longleftrightarrow> j \<noteq> ?k \<and> block_used s j" if "j < bitmap_cap (block_bitmap (cur_part s))" for j
    using b'(5) that by simp
  ultimately show ?thesis using b'(3,4) by (auto simp: block_used_def [of "s\<lparr>disk := d', cur_part := _\<rparr>"])
qed

lemma data_block_frame:
  "block_frame s t \<Longrightarrow> data_block t lba = data_block s lba" "block_frame s t \<Longrightarrow> block_no t lba = block_no s lba"
  by (auto simp: data_block_def block_no_def block_frameD(2,3))

lemma release_blocks_run:
  "fs_ok s \<Longrightarrow> \<forall>lba \<in> set blocks. lba \<noteq> 0 \<longrightarrow> data_block s lba \<Longrightarrow>
   \<exists>s'. release_blocks blocks s = Inr ((), s') \<and> block_frame s s' \<and> (bitmaps_synced s \<longrightarrow> bitmaps_synced s') \<and>
     (\<forall>j < bitmap_cap (block_bitmap (cur_part s)).
        block_used s' j \<longleftrightarrow> block_used s j \<and> (\<forall>lba \<in> set blocks. lba \<noteq> 0 \<longrightarrow> block_no s lba \<noteq> j))"
proof (induction blocks arbitrary: s)
  case Nil
  then show ?case using block_frame_refl by auto
next
  case (Cons lba blocks)
  show ?case
  proof (cases "lba = 0")
    case True
    then show ?thesis using Cons by simp
  next
    case False
    then obtain t where t: "block_free lba s = Inr ((), t)" "block_frame s t"
      "bitmaps_synced s \<longrightarrow> bitmaps_synced t"
      "\<forall>j < bitmap_cap (block_bitmap (cur_part s)). block_used t j \<longleftrightarrow> j \<noteq> block_no s lba \<and> block_used s j"
      using block_free_run [of s lba] Cons.prems by auto
    note fr = data_block_frame [OF t(2)] block_frameD(1,2) [OF t(2)]
    from Cons.IH [of t] Cons.prems(2) fr obtain u where u: "release_blocks blocks t = Inr ((), u)" "block_frame t u"
      "bitmaps_synced t \<longrightarrow> bitmaps_synced u"
      "\<forall>j < bitmap_cap (block_bitmap (cur_part s)).
         block_used u j \<longleftrightarrow> block_used t j \<and> (\<forall>lba \<in> set blocks. lba \<noteq> 0 \<longrightarrow> block_no s lba \<noteq> j)"
      by auto
    have "release_blocks (lba # blocks) s = Inr ((), u)"
      using False t(1) u(1) by (simp add: bnd_def)
    moreover have "block_frame s u" using block_frame_trans [OF t(2) u(2)] .
    ultimately show ?thesis using t(3,4) u(3,4) False by (intro exI [of _ u]) auto
  qed
qed

text \<open>The index block and all blocks that an inode's addresses name.\<close>

definition inode_blocks :: "fs \<Rightarrow> inode \<Rightarrow> u32 list" where
  "inode_blocks s i =
     (if i_sectors i ! 12 \<noteq> 0
      then i_sectors i ! 12 # take 12 (i_sectors i) @ bytes_words 128 (disk s (i_sectors i ! 12))
      else take 12 (i_sectors i))"

text \<open>Everything but the two bitmaps and the disk.\<close>

lemma inode_bitmap_free_run:
  assumes ok: "fs_ok s" and no: "no < 4096"
  shows "\<exists>b' d'. bnd (inode_bitmap_clear (of_nat no)) (\<lambda>_. bitmap_sync (of_nat no) INODE_BITMAP) s =
      Inr ((), s\<lparr>disk := d', cur_part := (cur_part s)\<lparr>inode_bitmap := b'\<rparr>\<rparr>) \<and>
    fs_ok (s\<lparr>disk := d', cur_part := (cur_part s)\<lparr>inode_bitmap := b'\<rparr>\<rparr>) \<and>
    (\<forall>j < 4096. used_bit b' j \<longleftrightarrow> j \<noteq> no \<and> inode_used s j) \<and>
    same_outside (inode_bitmap_lba (sb (cur_part s))) 1 (disk s) d' \<and>
    (bitmaps_synced s \<longrightarrow> bitmaps_synced (s\<lparr>disk := d', cur_part := (cur_part s)\<lparr>inode_bitmap := b'\<rparr>\<rparr>))"
proof -
  let ?p = "cur_part s" and ?b = "inode_bitmap (cur_part s)"
  let ?lba = "inode_bitmap_lba (sb ?p)"
  have wf: "disk_wf (disk s)" and lay: "layout_ok ?p" using ok by (rule fs_okD)+
  note cap = layout_capD [OF lay] and chain = layout_chain [OF lay]
  obtain b' where b': "bitmap_set ?b (of_nat no) 0 = Inr b'" "bitmap_wf b'"
      "btmp_bytes_len b' = btmp_bytes_len ?b" "length (bits b') = length (bits ?b)"
      "\<forall>j < 4096. used_bit b' j = (if j = no then (0 :: u8) = 1 else used_bit ?b j)"
    using bitmap_set_wf [OF cap(5), of no 0] no cap(2) by (metis (no_types, lifting))
  let ?s1 = "s\<lparr>cur_part := ?p\<lparr>inode_bitmap := b'\<rparr>\<rparr>"
  let ?d = "write_sectors (disk s) ?lba 1 (bits b')"
  let ?s' = "s\<lparr>disk := ?d, cur_part := ?p\<lparr>inode_bitmap := b'\<rparr>\<rparr>"
  have lay1: "layout_ok (?p\<lparr>inode_bitmap := b'\<rparr>)" using lay b' by (simp add: layout_ok_def)
  have len: "length (bits b') = 512" using lay b'(4) by (simp add: layout_ok_def)
  have run: "bitmap_sync (of_nat no) INODE_BITMAP ?s1 = Inr ((), ?s')"
    using bitmap_sync_inode [of ?s1, OF _ no] wf lay1 by (simp add: fs_ok_def)
  have wf': "disk_wf ?d" using wf len by (intro write_sectors_wf) simp_all
  have out: "same_outside ?lba 1 (disk s) ?d" using write_one_outside [of 0 1 ?lba] by simp
  have "bitmaps_synced ?s'" if "bitmaps_synced s"
  proof -
    have "read_sectors ?d (block_bitmap_lba (sb ?p)) (unat (block_bitmap_sects (sb ?p))) =
        read_sectors (disk s) (block_bitmap_lba (sb ?p)) (unat (block_bitmap_sects (sb ?p)))"
      using chain by (intro same_outside_read [OF out]; arith)
    with that len show ?thesis by (simp add: bitmaps_synced_def)
  qed
  moreover have "\<forall>j < 4096. used_bit b' j \<longleftrightarrow> j \<noteq> no \<and> inode_used s j"
    using b'(5) by (auto simp: inode_used_def)
  ultimately show ?thesis
    using run b'(1) wf' lay1 out
    by (intro exI [of _ b'] exI [of _ ?d]) (simp add: inode_bitmap_clear_def set_part_def bnd_assoc fs_ok_def)
qed

lemma inode_delete_run:
  assumes ok: "fs_ok s" and no: "no < 4096"
  shows "\<exists>d'. inode_delete (of_nat no) s = Inr ((), s\<lparr>disk := d'\<rparr>) \<and> fs_ok (s\<lparr>disk := d'\<rparr>) \<and>
    inode_table (s\<lparr>disk := d'\<rparr>) = splice (76 * no) (replicate 76 0) (inode_table s) \<and>
    same_outside (inode_table_lba (sb (cur_part s))) 608 (disk s) d'"
proof -
  obtain pos where pos: "inode_locate (cur_part s) (of_nat no) = Inr pos"
    using inode_locate_run [OF no] by blast
  have lt: "(of_nat no :: u32) < 4096" using no by (simp add: word_less_nat_alt unat_of_nat_u32)
  have "inode_delete (of_nat no) s = inode_patch pos (replicate 76 0) s"
    using inode_locate_in_part [OF fs_okD(2) [OF ok] no pos] pos lt by (simp add: inode_delete_def)
  with inode_patch_run [OF ok no _ pos, of "replicate 76 0"] fs_okD(2) [OF ok] show ?thesis
    by (auto simp: fs_ok_def)
qed

text \<open>The middle of \<open>inode_release\<close>: collecting and freeing the blocks.\<close>

lemma release_collected:
  assumes "inode_wf i" and "i_sectors i ! 12 \<noteq> 0 \<Longrightarrow> i_sectors i ! 12 \<le> max_lba"
  shows "bnd (all_blocks_of i) (\<lambda>all_blocks.
      bnd (if i_sectors i ! 12 \<noteq> 0 then block_free (i_sectors i ! 12) else ret ()) (\<lambda>_.
      bnd (release_blocks (take (if i_sectors i ! 12 \<noteq> 0 then 140 else 12) all_blocks)) f)) s =
    bnd (release_blocks (inode_blocks s i)) f s"
proof -
  have len: "length (i_sectors i) = 13" using assms(1) by (simp add: inode_wf_def)
  show ?thesis
  proof (cases "i_sectors i ! 12 = 0")
    case True
    then show ?thesis using len by (simp add: all_blocks_of_def inode_blocks_def)
  next
    case False
    with assms(2) have "i_sectors i ! 12 \<le> max_lba" by simp
    with False len show ?thesis
      by (simp add: all_blocks_of_def inode_blocks_def bnd_assoc bnd_sec_read)
  qed
qed

lemma block_frame_table:
  assumes "fs_ok s" and "block_frame s t"
  shows "inode_table t = inode_table s"
proof -
  note chain = layout_chain [OF fs_okD(2) [OF assms(1)]]
  have out: "same_outside (block_bitmap_lba (sb (cur_part s))) (unat (block_bitmap_sects (sb (cur_part s)))) (disk s) (disk t)"
    using assms(2) by (simp add: block_frame_def)
  have "read_sectors (disk t) (inode_table_lba (sb (cur_part s))) 608 = read_sectors (disk s) (inode_table_lba (sb (cur_part s))) 608"
    using chain by (intro same_outside_read [OF out]; arith)
  then show ?thesis by (simp add: inode_table_def block_frameD(3) [OF assms(2)])
qed

lemma synced_table_write:
  assumes "fs_ok s" and out: "same_outside (inode_table_lba (sb (cur_part s))) 608 (disk s) d'"
  shows "bitmaps_synced (s\<lparr>disk := d'\<rparr>) = bitmaps_synced s"
proof -
  note chain = layout_chain [OF fs_okD(2) [OF assms(1)]]
  have "read_sectors d' (block_bitmap_lba (sb (cur_part s))) (unat (block_bitmap_sects (sb (cur_part s)))) =
      read_sectors (disk s) (block_bitmap_lba (sb (cur_part s))) (unat (block_bitmap_sects (sb (cur_part s))))"
    and "read_sectors d' (inode_bitmap_lba (sb (cur_part s))) 1 = read_sectors (disk s) (inode_bitmap_lba (sb (cur_part s))) 1"
    using chain by (intro same_outside_read [OF out]; arith)+
  then show ?thesis by (simp add: bitmaps_synced_def)
qed

lemma inode_bytes_init_0: "inode_bytes (inode_init 0) = replicate 76 0"
  by code_simp

text \<open>C21: Releasing the inode of a closed file frees exactly its blocks, index block included,
  and its own bit, clears its slot of the table and leaves the other slots alone; the bitmaps on
  disk stay in step with those in memory, and the cache and the heap are as before.\<close>

theorem inode_release_correct:
  fixes s :: fs
  assumes fs: "fs_ok s" and ok: "icache_ok s" and no: "no < 4096" and closed: "\<not> is_open s (of_nat no)"
    and mem: "malloc_ok s (mallocs s)" "malloc_ok s (Suc (mallocs s))" "malloc_ok s (Suc (Suc (mallocs s)))"
    and own: "i_no (inode_at s no) = of_nat no" "inodes s (next_addr s) = None"
    and blocks: "\<forall>lba \<in> set (inode_blocks s (inode_at s no)). lba \<noteq> 0 \<longrightarrow> data_block s lba"
      "i_sectors (inode_at s no) ! 12 \<le> max_lba"
  shows "\<exists>s'. inode_release (of_nat no) s = Inr ((), s') \<and> fs_ok s' \<and>
    inodes s' = inodes s \<and> open_inodes (cur_part s') = open_inodes (cur_part s) \<and>
    (\<forall>k < bitmap_cap (block_bitmap (cur_part s)). block_used s' k \<longleftrightarrow> block_used s k \<and>
       (\<forall>lba \<in> set (inode_blocks s (inode_at s no)). lba \<noteq> 0 \<longrightarrow> block_no s lba \<noteq> k)) \<and>
    (\<forall>j < 4096. inode_used s' j \<longleftrightarrow> j \<noteq> no \<and> inode_used s j) \<and>
    inode_at s' no = inode_init 0 \<and> (\<forall>j < 4096. j \<noteq> no \<longrightarrow> inode_at s' j = inode_at s j) \<and>
    (bitmaps_synced s \<longrightarrow> bitmaps_synced s')"
proof -
  define i where "i = (inode_at s no)\<lparr>i_open_cnts := 1\<rparr>"
  let ?i = i and ?p = "next_addr s"
  have sect: "i_sectors i = i_sectors (inode_at s no)" and num: "i_no i = of_nat no" and cnt: "i_open_cnts i = 1"
    using own(1) by (simp_all add: i_def)
  define s1 where "s1 = s\<lparr>mallocs := mallocs s + 2, next_addr := Suc (next_addr s),
      cur_part := (cur_part s)\<lparr>open_inodes := ?p # open_inodes (cur_part s)\<rparr>,
      inodes := (inodes s)(?p \<mapsto> ?i)\<rparr>"
  have op: "inode_open (of_nat no) s = Inr (?p, s1)"
    unfolding s1_def i_def by (rule inode_open_fresh [OF fs ok no closed mem(1,2)])
  have ok1: "fs_ok s1" using fs by (simp add: s1_def fs_ok_def layout_ok_def)
  have wf: "inode_wf ?i" by (simp add: i_def inode_at_def inodec.get_def inode_wf_def bytes_inode_def Let_def)
  have blks: "inode_blocks s1 ?i = inode_blocks s (inode_at s no)"
    by (simp add: inode_blocks_def s1_def sect)
  have same1: "data_block s1 = data_block s" "block_no s1 = block_no s" "block_used s1 = block_used s"
    "bitmaps_synced s1 = bitmaps_synced s" "inode_used s1 = inode_used s" "inode_table s1 = inode_table s"
    by (auto simp: s1_def fun_eq_iff data_block_def block_no_def block_used_def bitmaps_synced_def inode_used_def inode_table_def)
  obtain s2 where s2: "release_blocks (inode_blocks s1 ?i) s1 = Inr ((), s2)" "block_frame s1 s2"
      "bitmaps_synced s1 \<longrightarrow> bitmaps_synced s2"
      "\<forall>j < bitmap_cap (block_bitmap (cur_part s1)). block_used s2 j \<longleftrightarrow> block_used s1 j \<and>
         (\<forall>lba \<in> set (inode_blocks s1 ?i). lba \<noteq> 0 \<longrightarrow> block_no s1 lba \<noteq> j)"
    using release_blocks_run [OF ok1, of "inode_blocks s1 ?i"] blocks(1) blks same1 by auto
  note f2 = block_frameD [OF s2(2)]
  obtain b' d' where s3: "bnd (inode_bitmap_clear (of_nat no)) (\<lambda>_. bitmap_sync (of_nat no) INODE_BITMAP) s2 =
        Inr ((), s2\<lparr>disk := d', cur_part := (cur_part s2)\<lparr>inode_bitmap := b'\<rparr>\<rparr>)"
      "fs_ok (s2\<lparr>disk := d', cur_part := (cur_part s2)\<lparr>inode_bitmap := b'\<rparr>\<rparr>)"
      "\<forall>j < 4096. used_bit b' j \<longleftrightarrow> j \<noteq> no \<and> inode_used s2 j"
      "same_outside (inode_bitmap_lba (sb (cur_part s2))) 1 (disk s2) d'"
      "bitmaps_synced s2 \<longrightarrow> bitmaps_synced (s2\<lparr>disk := d', cur_part := (cur_part s2)\<lparr>inode_bitmap := b'\<rparr>\<rparr>)"
    using inode_bitmap_free_run [OF f2(1) no] by blast
  define s3 where "s3 = s2\<lparr>disk := d', cur_part := (cur_part s2)\<lparr>inode_bitmap := b'\<rparr>, mallocs := Suc (mallocs s2)\<rparr>"
  have ok3: "fs_ok s3" using s3(2) by (simp add: s3_def fs_ok_def)
  obtain d'' where d'': "inode_delete (of_nat no) s3 = Inr ((), s3\<lparr>disk := d''\<rparr>)" "fs_ok (s3\<lparr>disk := d''\<rparr>)"
      "inode_table (s3\<lparr>disk := d''\<rparr>) = splice (76 * no) (replicate 76 0) (inode_table s3)"
      "same_outside (inode_table_lba (sb (cur_part s3))) 608 (disk s3) d''"
    using inode_delete_run [OF ok3 no] by blast
  define s4 where "s4 = s3\<lparr>disk := d''\<rparr>"
  define s5 where "s5 = s4\<lparr>inodes := (inodes s4)(?p := None), cur_part := (cur_part s4)\<lparr>open_inodes := remove1 ?p (open_inodes (cur_part s4))\<rparr>\<rparr>"
  have heap: "inodes s4 ?p = Some ?i" "open_inodes (cur_part s4) = ?p # open_inodes (cur_part s)"
    "inodes s4 = (inodes s)(?p \<mapsto> ?i)"
    using f2(5,6) by (simp_all add: s4_def s3_def s1_def)
  have close: "inode_close ?p s4 = Inr ((), s5)"
    unfolding s5_def by (rule inode_close_last [OF heap(1) cnt]) (simp add: heap(2))
  have mal: "malloc_ok s2 (mallocs s2)" using mem(3) f2(9,10) by (simp add: s1_def)
  have get: "inodes s1 ?p = Some ?i" by (simp add: s1_def)
  have "inode_release (of_nat no) s = Inr ((), s5)"
  proof -
    have "inode_release (of_nat no) s =
        bnd (release_blocks (inode_blocks s1 ?i)) (\<lambda>_.
        bnd (inode_bitmap_clear (of_nat no)) (\<lambda>_.
        bnd (bitmap_sync (of_nat no) INODE_BITMAP) (\<lambda>_.
        bnd sys_malloc_unchecked (\<lambda>_.
        bnd (inode_delete (of_nat no)) (\<lambda>_. inode_close ?p))))) s1"
      unfolding inode_release_def Let_def
      using num release_collected [OF wf, where s = s1] blocks(2) sect
      by (simp split del: if_split add: bnd_Inr [where m = "inode_open (of_nat no)" and s = s, OF op] bnd_get_inode [OF get])
    also have "\<dots> = bnd (bnd (inode_bitmap_clear (of_nat no)) (\<lambda>_. bitmap_sync (of_nat no) INODE_BITMAP)) (\<lambda>_.
        bnd sys_malloc_unchecked (\<lambda>_.
        bnd (inode_delete (of_nat no)) (\<lambda>_. inode_close ?p))) s2"
      by (simp add: bnd_Inr [where m = "release_blocks (inode_blocks s1 ?i)" and s = s1, OF s2(1)] bnd_assoc)
    also have "\<dots> = bnd (inode_delete (of_nat no)) (\<lambda>_. inode_close ?p) s3"
      using mal by (simp add: bnd_Inr [where m = "bnd (inode_bitmap_clear (of_nat no)) (\<lambda>_. bitmap_sync (of_nat no) INODE_BITMAP)" and s = s2, OF s3(1)] bnd_malloc_unchecked s3_def)
    also have "\<dots> = Inr ((), s5)"
      using close by (simp add: bnd_Inr [where m = "inode_delete (of_nat no)" and s = s3, OF d''(1)] s4_def)
    finally show ?thesis .
  qed
  moreover have "fs_ok s5" using d''(2) by (simp add: s5_def s4_def fs_ok_def layout_ok_def)
  moreover have "inodes s5 = inodes s" using own(2) by (auto simp: s5_def heap(3))
  moreover have "open_inodes (cur_part s5) = open_inodes (cur_part s)" by (simp add: s5_def heap(2))
  moreover have "block_used s5 = block_used s2"
    by (simp add: fun_eq_iff block_used_def s5_def s4_def s3_def)
  moreover have "\<forall>j < 4096. inode_used s5 j \<longleftrightarrow> j \<noteq> no \<and> inode_used s j"
    using s3(3) f2(4) same1(5) by (simp add: fun_eq_iff inode_used_def s5_def s4_def s3_def)
  moreover have syn: "bitmaps_synced s \<longrightarrow> bitmaps_synced s5"
    using s2(3) s3(5) same1(4) synced_table_write [OF ok3 d''(4)]
    by (auto simp: bitmaps_synced_def s5_def s4_def s3_def)
  moreover have tab: "inode_table s5 = splice (76 * no) (inode_bytes (inode_init 0)) (inode_table s)"
  proof -
    have ok2: "fs_ok s2" by (rule f2(1))
    note chain = layout_chain [OF fs_okD(2) [OF ok2]]
    have "inode_table s3 = inode_table s2"
      unfolding inode_table_def s3_def using same_outside_read [OF s3(4), of "inode_table_lba (sb (cur_part s2))" 608] chain
      by simp
    then show ?thesis
      using d''(3) block_frame_table [OF ok1 s2(2)] same1(6)
      by (simp add: s5_def s4_def inode_table_def inode_bytes_init_0)
  qed
  note at = inode_at_splice [OF fs_okD(1) [OF fs] no _ tab]
  ultimately show ?thesis
    using s2(4) same1 blks at by (intro exI [of _ s5]) (simp add: s1_def inode_init_def inode_wf_def)
qed

lemma sample_heap: "malloc_ok sample_fs n" "inodes sample_fs p = None" "open_inodes (cur_part sample_fs) = []"
  by (simp_all add: sample_fs_def sample_part_def)

theorem inode_release_correct_witness:
  "\<exists>s'. inode_release (of_nat 0) sample_fs = Inr ((), s') \<and> \<not> inode_used s' 0 \<and> inode_used s' 1 = inode_used sample_fs 1"
proof -
  have "\<not> is_open sample_fs (of_nat 0)" by (simp add: is_open_def sample_heap)
  moreover have "\<forall>lba \<in> set (inode_blocks sample_fs (inode_at sample_fs 0)). lba \<noteq> 0 \<longrightarrow> data_block sample_fs lba"
    "i_sectors (inode_at sample_fs 0) ! 12 \<le> max_lba" "i_no (inode_at sample_fs 0) = of_nat 0"
    unfolding sample_inode_0 by (simp_all add: inode_blocks_def inode_init_def)
  ultimately obtain s' where "inode_release (of_nat 0) sample_fs = Inr ((), s')"
    "\<forall>j < 4096. inode_used s' j \<longleftrightarrow> j \<noteq> 0 \<and> inode_used sample_fs j"
    using inode_release_correct [OF sample_fs_ok sample_fs_icache, of 0] sample_heap by auto
  then show ?thesis by auto
qed

end
