(* ===== verification/Dir.thy ===== *)
theory Dir
  imports Inode
begin

text \<open>
  \<open>fs/dir.c\<close>: directories. A directory is a file of 24-byte entries, 21 to a sector; its inode
  names up to 140 sectors, a zero address is a hole, and an entry of type 0 is free. The I/O
  buffers that callers pass are values, as for inodes. A super block whose \<open>dir_entry_size\<close> is
  not the size of \<open>struct dir_entry\<close> (\<open>partition_format\<close> writes none) is a \<open>Fault\<close>.
\<close>

section \<open>Opening and closing\<close>

definition open_root_dir :: "(fs, unit) km" where
  "open_root_dir =
     bnd part_of (\<lambda>part.
     bnd (inode_open (root_inode_no (sb part))) (\<lambda>inode.
     bnd (gets dirs) (\<lambda>ds.
     set_dir root_dir \<lparr>d_inode = inode, dir_pos = 0,
       dir_buf = (case ds root_dir of None \<Rightarrow> replicate 512 0 | Some d \<Rightarrow> dir_buf d)\<rparr>)))"

definition dir_open :: "u32 \<Rightarrow> (fs, ptr) km" where
  "dir_open inode_no =
     bnd sys_malloc_unchecked (\<lambda>_.
     bnd fresh_ptr (\<lambda>pdir.
     bnd (inode_open inode_no) (\<lambda>inode.
     bnd (set_dir pdir \<lparr>d_inode = inode, dir_pos = 0, dir_buf = replicate 512 0\<rparr>) (\<lambda>_.
     ret pdir))))"

definition dir_close :: "ptr \<Rightarrow> (fs, unit) km" where
  "dir_close pdir =
     (if pdir = root_dir then ret ()
      else bnd (get_dir pdir) (\<lambda>d.
           bnd (inode_close (d_inode d)) (\<lambda>_. free_dir pdir)))"

section \<open>Entries\<close>

definition MAX_FILE_NAME_LEN :: u32 where
  "MAX_FILE_NAME_LEN = 16"

definition create_dir_entry :: "u8 list \<Rightarrow> u32 \<Rightarrow> file_types \<Rightarrow> dir_entry \<Rightarrow> dir_entry res" where
  "create_dir_entry name inode_no file_type p_de =
     rbind (strlen name) (\<lambda>n.
     rbind (rassert ''strlen(filename) <= MAX_FILE_NAME_LEN'' (n \<le> MAX_FILE_NAME_LEN)) (\<lambda>_.
     rbind (memcpy (filename p_de) name (unat n)) (\<lambda>f.
     Inr (p_de\<lparr>filename := f, de_i_no := inode_no, f_type := ft_code file_type\<rparr>))))"

definition zero_entry :: dir_entry where
  "zero_entry = \<lparr>filename = replicate 16 0, de_i_no = 0, f_type = 0\<rparr>"

text \<open>The number of entries of a sector.\<close>

definition entry_size :: "(fs, u32) km" where
  "entry_size = bnd part_of (\<lambda>part.
     if dir_entry_size (sb part) = 24 then ret (dir_entry_size (sb part))
     else fail (Fault ''dir_entry_size''))"

definition entry_at :: "nat \<Rightarrow> u8 list \<Rightarrow> dir_entry" where
  "entry_at k buf = dentc.get (24 * k) buf"

section \<open>Searching\<close>

text \<open>The entries of one sector: the number left, the index of the next.\<close>

fun search_entries :: "u8 list \<Rightarrow> u8 list \<Rightarrow> nat \<Rightarrow> nat \<Rightarrow> dir_entry option res" where
  "search_entries buf name 0 k = Inr None"
| "search_entries buf name (Suc n) k =
     rbind (strcmp (drop (24 * k) buf) name) (\<lambda>c.
     if c = 0 then Inr (Some (entry_at k buf)) else search_entries buf name n (Suc k))"

fun search_blocks :: "u8 list \<Rightarrow> nat \<Rightarrow> u32 list \<Rightarrow> (fs, dir_entry option) km" where
  "search_blocks name cnt [] = ret None"
| "search_blocks name cnt (lba # blocks) =
     (if lba = 0 then search_blocks name cnt blocks
      else bnd (sec_read lba 1) (\<lambda>buf.
           bnd (liftr (search_entries buf name cnt 0)) (\<lambda>r. case r of
             Some e \<Rightarrow> ret (Some e)
           | None \<Rightarrow> search_blocks name cnt blocks)))"

definition search_dir_entry :: "ptr \<Rightarrow> u8 list \<Rightarrow> (fs, dir_entry option) km" where
  "search_dir_entry pdir name =
     bnd sys_malloc_ok (\<lambda>ok.
     if \<not> ok then ret None
     else bnd (get_dir pdir) (\<lambda>d.
          bnd (get_inode (d_inode d)) (\<lambda>inode.
          bnd (all_blocks_of inode) (\<lambda>all_blocks.
          bnd sys_malloc_unchecked (\<lambda>_.
          bnd entry_size (\<lambda>sz.
          search_blocks name (unat (512 div sz)) all_blocks))))))"

section \<open>Adding an entry\<close>

definition set_sector :: "ptr \<Rightarrow> nat \<Rightarrow> u32 \<Rightarrow> (fs, unit) km" where
  "set_sector p k lba = upd_inode p (\<lambda>i. i\<lparr>i_sectors := (i_sectors i)[k := lba]\<rparr>)"

text \<open>Synchronising the bitmap after a block was taken or given back.\<close>

definition block_sync :: "u32 \<Rightarrow> (fs, unit) km" where
  "block_sync lba = bnd part_of (\<lambda>part. bitmap_sync (lba - data_start_lba (sb part)) BLOCK_BITMAP)"

text \<open>Case 2 of the loop: a new sector, and an index block before the first indirect one.\<close>

definition sync_dir_new :: "ptr \<Rightarrow> dir_entry \<Rightarrow> u32 list \<Rightarrow> nat \<Rightarrow> u32 \<Rightarrow> (fs, bool) km" where
  "sync_dir_new ip p_de all_blocks block_idx sz =
     bnd block_bitmap_alloc (\<lambda>block_lba.
     if block_lba = -1 then ret False
     else
       bnd (block_sync block_lba) (\<lambda>_.
       bnd (if block_idx < 12
            then bnd (set_sector ip block_idx block_lba) (\<lambda>_.
                 ret (Some (all_blocks[block_idx := block_lba])))
            else if block_idx = 12
            then bnd (set_sector ip 12 block_lba) (\<lambda>_.
                 bnd block_bitmap_alloc (\<lambda>block_lba2.
                 if block_lba2 = -1
                 then bnd part_of (\<lambda>part.
                      bnd (block_bitmap_clear (block_lba - data_start_lba (sb part))) (\<lambda>_.
                      bnd (block_sync block_lba) (\<lambda>_.
                      bnd (set_sector ip 12 0) (\<lambda>_. ret None))))
                 else bnd (block_sync block_lba2) (\<lambda>_.
                      let blocks = all_blocks[12 := block_lba2]
                      in bnd (sec_write block_lba (words_bytes (drop 12 blocks)) 1) (\<lambda>_.
                         ret (Some blocks)))))
            else let blocks = all_blocks[block_idx := block_lba]
                 in bnd (get_inode ip) (\<lambda>inode.
                    bnd (sec_write (i_sectors inode ! 12) (words_bytes (drop 12 blocks)) 1) (\<lambda>_.
                    ret (Some blocks)))) (\<lambda>r.
       case r of
         None \<Rightarrow> ret False
       | Some blocks \<Rightarrow>
           bnd (liftr (buf_write 0 (dir_entry_bytes p_de) (replicate 512 0))) (\<lambda>io_buf.
           bnd (sec_write (blocks ! block_idx) io_buf 1) (\<lambda>_.
           bnd (upd_inode ip (\<lambda>i. i\<lparr>i_size := i_size i + sz\<rparr>)) (\<lambda>_.
           ret True))))))"

text \<open>Case 1: the first free entry of a sector.\<close>

fun free_entry :: "u8 list \<Rightarrow> nat \<Rightarrow> nat \<Rightarrow> nat option" where
  "free_entry buf 0 k = None"
| "free_entry buf (Suc n) k =
     (if f_type (entry_at k buf) = ft_code FT_UNKNOWN then Some k else free_entry buf n (Suc k))"

text \<open>
  The loop over the sectors. The first argument counts what is left of the 140; the flag is
  \<open>full_all_blocks_lba\<close>: the index block is read when the loop gets to it, whether or not there
  is one.
\<close>

fun sync_dir_loop :: "nat \<Rightarrow> ptr \<Rightarrow> dir_entry \<Rightarrow> u32 \<Rightarrow> u32 list \<Rightarrow> bool \<Rightarrow> nat \<Rightarrow> (fs, bool) km" where
  "sync_dir_loop 0 ip p_de sz all_blocks full block_idx = ret False"
| "sync_dir_loop (Suc n) ip p_de sz all_blocks full block_idx =
     bnd (if full \<and> 12 \<le> block_idx
          then bnd (get_inode ip) (\<lambda>inode.
               bnd (sec_read (i_sectors inode ! 12) 1) (\<lambda>table.
               ret (take 12 all_blocks @ bytes_words 128 table, False)))
          else ret (all_blocks, full)) (\<lambda>(all_blocks, full).
     if all_blocks ! block_idx = 0 then sync_dir_new ip p_de all_blocks block_idx sz
     else
       bnd (sec_read (all_blocks ! block_idx) 1) (\<lambda>io_buf.
       case free_entry io_buf (unat (512 div sz)) 0 of
         Some k \<Rightarrow>
           bnd (liftr (buf_write (24 * k) (dir_entry_bytes p_de) io_buf)) (\<lambda>io_buf.
           bnd (sec_write (all_blocks ! block_idx) io_buf 1) (\<lambda>_.
           bnd (upd_inode ip (\<lambda>i. i\<lparr>i_size := i_size i + sz\<rparr>)) (\<lambda>_.
           ret True)))
       | None \<Rightarrow> sync_dir_loop n ip p_de sz all_blocks full (Suc block_idx)))"

definition sync_dir_entry :: "ptr \<Rightarrow> dir_entry \<Rightarrow> (fs, bool) km" where
  "sync_dir_entry parent_dir p_de =
     bnd (get_dir parent_dir) (\<lambda>d.
     bnd (get_inode (d_inode d)) (\<lambda>inode.
     bnd entry_size (\<lambda>sz.
     bnd (kassert ''dir_size % dir_entry_size == 0'' (i_size inode mod sz = 0)) (\<lambda>_.
     sync_dir_loop 140 (d_inode d) p_de sz (take 12 (i_sectors inode) @ replicate 128 0) True 0))))"

section \<open>Deleting an entry\<close>

record del_scan =
  dir_entry_cnt :: nat
  is_dir_first_block :: bool
  dir_entry_found :: "nat option"

fun delete_scan :: "u8 list \<Rightarrow> u32 \<Rightarrow> nat \<Rightarrow> nat \<Rightarrow> del_scan \<Rightarrow> del_scan res" where
  "delete_scan buf inode_no 0 k acc = Inr acc"
| "delete_scan buf inode_no (Suc n) k acc =
     rbind
       (if f_type (entry_at k buf) \<noteq> ft_code FT_UNKNOWN
        then rbind (strcmp (drop (24 * k) buf) (cbytes ''.'' @ [0])) (\<lambda>c.
             if c = 0 then Inr (acc\<lparr>is_dir_first_block := True\<rparr>)
             else rbind (strcmp (drop (24 * k) buf) (cbytes ''..'' @ [0])) (\<lambda>c.
                  if c \<noteq> 0
                  then let acc' = acc\<lparr>dir_entry_cnt := dir_entry_cnt acc + 1\<rparr>
                       in if de_i_no (entry_at k buf) = inode_no
                          then rbind (rassert ''dir_entry_found == NULL'' (dir_entry_found acc' = None)) (\<lambda>_.
                               Inr (acc'\<lparr>dir_entry_found := Some k\<rparr>))
                          else Inr acc'
                  else Inr acc))
        else Inr acc)
       (\<lambda>acc. delete_scan buf inode_no n (Suc k) acc)"

text \<open>The loop that counts the indirect blocks does not advance its index.\<close>

partial_function (option) count_indirect :: "u32 list \<Rightarrow> nat \<Rightarrow> u32 \<Rightarrow> u32 option" where
  "count_indirect all_blocks indirect_block_idx indirect_blocks =
     (if indirect_block_idx < 140
      then count_indirect all_blocks indirect_block_idx
             (if all_blocks ! indirect_block_idx \<noteq> 0 then indirect_blocks + 1 else indirect_blocks)
      else Some indirect_blocks)"

definition delete_block :: "ptr \<Rightarrow> u32 list \<Rightarrow> nat \<Rightarrow> (fs, unit) km" where
  "delete_block ip all_blocks block_idx =
     bnd part_of (\<lambda>part.
     let ds = data_start_lba (sb part)
     in bnd (block_bitmap_clear (all_blocks ! block_idx - ds)) (\<lambda>_.
        bnd (block_sync (all_blocks ! block_idx)) (\<lambda>_.
        if block_idx < 12 then set_sector ip block_idx 0
        else
          bnd (liftr (of_loop (map_option Inr (count_indirect all_blocks 12 0)))) (\<lambda>indirect_blocks.
          bnd (kassert ''indirect_blocks >= 1'' (indirect_blocks \<ge> 1)) (\<lambda>_.
          bnd (get_inode ip) (\<lambda>inode.
          if indirect_blocks > 1
          then sec_write (i_sectors inode ! 12) (words_bytes (drop 12 (all_blocks[block_idx := 0]))) 1
          else bnd (block_bitmap_clear (i_sectors inode ! 12 - ds)) (\<lambda>_.
               bnd (block_sync (i_sectors inode ! 12)) (\<lambda>_.
               set_sector ip 12 0))))))))"

fun delete_loop :: "nat \<Rightarrow> ptr \<Rightarrow> u32 \<Rightarrow> u32 \<Rightarrow> u32 list \<Rightarrow> nat \<Rightarrow> (fs, bool) km" where
  "delete_loop 0 ip inode_no sz all_blocks block_idx = ret False"
| "delete_loop (Suc n) ip inode_no sz all_blocks block_idx =
     (if all_blocks ! block_idx = 0 then delete_loop n ip inode_no sz all_blocks (Suc block_idx)
      else
        bnd (sec_read (all_blocks ! block_idx) 1) (\<lambda>io_buf.
        bnd (liftr (delete_scan io_buf inode_no (unat (512 div sz)) 0
               \<lparr>dir_entry_cnt = 0, is_dir_first_block = False, dir_entry_found = None\<rparr>)) (\<lambda>sc.
        case dir_entry_found sc of
          None \<Rightarrow> delete_loop n ip inode_no sz all_blocks (Suc block_idx)
        | Some k \<Rightarrow>
            bnd (kassert ''dir_entry_cnt >= 1'' (dir_entry_cnt sc \<ge> 1)) (\<lambda>_.
            bnd (if dir_entry_cnt sc = 1 \<and> \<not> is_dir_first_block sc
                 then delete_block ip all_blocks block_idx
                 else bnd (liftr (buf_write (24 * k) (replicate 24 0) io_buf)) (\<lambda>io_buf.
                      sec_write (all_blocks ! block_idx) io_buf 1)) (\<lambda>_.
            bnd (get_inode ip) (\<lambda>inode.
            bnd (kassert ''dir_inode->i_size >= dir_entry_size'' (i_size inode \<ge> sz)) (\<lambda>_.
            bnd (upd_inode ip (\<lambda>i. i\<lparr>i_size := i_size i - sz\<rparr>)) (\<lambda>_.
            bnd (get_inode ip) (\<lambda>inode.
            bnd (inode_sync inode) (\<lambda>_.
            ret True))))))))))"

definition delete_dir_entry :: "ptr \<Rightarrow> u32 \<Rightarrow> (fs, bool) km" where
  "delete_dir_entry pdir inode_no =
     bnd (get_dir pdir) (\<lambda>d.
     bnd (get_inode (d_inode d)) (\<lambda>inode.
     bnd (all_blocks_of inode) (\<lambda>all_blocks.
     bnd entry_size (\<lambda>sz.
     delete_loop 140 (d_inode d) inode_no sz all_blocks 0))))"

section \<open>Reading\<close>

text \<open>
  The entries of one sector: \<open>Inl\<close> the entry at which the reader stands, or the position counted
  so far. The position is a multiple of the entry size that counts the entries in use.
\<close>

fun read_scan :: "u8 list \<Rightarrow> u32 \<Rightarrow> u32 \<Rightarrow> nat \<Rightarrow> nat \<Rightarrow> u32 \<Rightarrow> (nat + u32) res" where
  "read_scan buf pos sz 0 k cur_pos = Inr (Inr cur_pos)"
| "read_scan buf pos sz (Suc n) k cur_pos =
     (if f_type (entry_at k buf) \<noteq> ft_code FT_UNKNOWN
      then if cur_pos < pos then read_scan buf pos sz n (Suc k) (cur_pos + sz)
           else rbind (rassert ''cur_dir_entry_pos == dir->dir_pos'' (cur_pos = pos)) (\<lambda>_. Inr (Inl k))
      else read_scan buf pos sz n (Suc k) cur_pos)"

text \<open>The loop has no bound on \<open>block_idx\<close>: past 140 it reads beyond the array.\<close>

fun read_loop :: "nat \<Rightarrow> ptr \<Rightarrow> u32 \<Rightarrow> u32 list \<Rightarrow> nat \<Rightarrow> u32 \<Rightarrow> (fs, dir_entry option) km" where
  "read_loop 0 pdir sz all_block block_idx cur_pos = fail (Fault ''all_block[block_idx]'')"
| "read_loop (Suc n) pdir sz all_block block_idx cur_pos =
     (if all_block ! block_idx = 0 then read_loop n pdir sz all_block (Suc block_idx) cur_pos
      else
        bnd (sec_read (all_block ! block_idx) 1) (\<lambda>buf.
        bnd (get_dir pdir) (\<lambda>d.
        bnd (set_dir pdir (d\<lparr>dir_buf := buf\<rparr>)) (\<lambda>_.
        bnd (liftr (read_scan buf (dir_pos d) sz (unat (512 div sz)) 0 cur_pos)) (\<lambda>r. case r of
          Inl k \<Rightarrow> bnd (set_dir pdir (d\<lparr>dir_buf := buf, dir_pos := dir_pos d + sz\<rparr>)) (\<lambda>_.
                   ret (Some (entry_at k buf)))
        | Inr cur_pos \<Rightarrow> read_loop n pdir sz all_block (Suc block_idx) cur_pos)))))"

definition dir_read :: "ptr \<Rightarrow> (fs, dir_entry option) km" where
  "dir_read pdir =
     bnd (get_dir pdir) (\<lambda>d.
     bnd (get_inode (d_inode d)) (\<lambda>inode.
     bnd (all_blocks_of inode) (\<lambda>all_block.
     bnd entry_size (\<lambda>sz.
     if dir_pos d < i_size inode then read_loop 140 pdir sz all_block 0 0 else ret None))))"

definition dir_is_empty :: "ptr \<Rightarrow> (fs, bool) km" where
  "dir_is_empty pdir =
     bnd (get_dir pdir) (\<lambda>d.
     bnd (get_inode (d_inode d)) (\<lambda>inode.
     bnd part_of (\<lambda>part.
     ret (i_size inode = dir_entry_size (sb part) * 2))))"

section \<open>Removing a directory\<close>

definition dir_remove :: "ptr \<Rightarrow> ptr \<Rightarrow> (fs, s32) km" where
  "dir_remove parent_dir child_dir =
     bnd (get_dir child_dir) (\<lambda>d.
     bnd (get_inode (d_inode d)) (\<lambda>child.
     bnd (kassert ''child_dir_inode->i_sectors[block_idx] == 0''
            (list_all (\<lambda>lba. lba = 0) (slice 1 11 (i_sectors child)))) (\<lambda>_.
     bnd sys_malloc_ok (\<lambda>ok.
     if \<not> ok then ret (-1)
     else bnd (delete_dir_entry parent_dir (i_no child)) (\<lambda>_.
          bnd (get_inode (d_inode d)) (\<lambda>child.
          bnd (inode_release (i_no child)) (\<lambda>_.
          ret 0)))))))"

end
