(* ===== verification/Dir_Listing.thy ===== *)
theory Dir_Listing
  imports Dir
begin

text \<open>
  What the operations of \<open>fs/dir.c\<close> mean: a directory is the list of the 24-byte entries of its
  sectors, in order (\<open>dir_listing\<close>). Searching finds the first entry with the name, adding an
  entry to a sector with room replaces its first free entry, and nothing else changes.
\<close>

section \<open>The entries of a directory\<close>

definition sector_entries :: "u8 list \<Rightarrow> dir_entry list" where
  "sector_entries buf = List.map (\<lambda>k. entry_at k buf) [0..<21]"

definition file_blocks :: "disk \<Rightarrow> inode \<Rightarrow> u32 list" where
  "file_blocks d i = take 12 (i_sectors i) @
     (if i_sectors i ! 12 \<noteq> 0 then bytes_words 128 (d (i_sectors i ! 12)) else replicate 128 0)"

definition dir_entries :: "disk \<Rightarrow> u32 list \<Rightarrow> dir_entry list" where
  "dir_entries d blocks = concat (List.map (\<lambda>lba. if lba = 0 then [] else sector_entries (d lba)) blocks)"

definition named :: "u8 list \<Rightarrow> dir_entry \<Rightarrow> bool" where
  "named name e \<longleftrightarrow> cstr (filename e) = cstr name"

definition terminated :: "u8 list \<Rightarrow> bool" where
  "terminated p \<longleftrightarrow> 0 \<in> set p"

text \<open>An open directory: its inode is in memory, its sectors lie on the disk.\<close>

definition dir_inode :: "fs \<Rightarrow> ptr \<Rightarrow> inode option" where
  "dir_inode s pdir = (case dirs s pdir of None \<Rightarrow> None | Some d \<Rightarrow> inodes s (d_inode d))"

definition dir_listing :: "fs \<Rightarrow> ptr \<Rightarrow> dir_entry list" where
  "dir_listing s pdir = dir_entries (disk s) (file_blocks (disk s) (the (dir_inode s pdir)))"

definition dir_ok :: "fs \<Rightarrow> ptr \<Rightarrow> bool" where
  "dir_ok s pdir \<longleftrightarrow> fs_ok s \<and>
     (case dir_inode s pdir of None \<Rightarrow> False
      | Some i \<Rightarrow> inode_wf i \<and> list_all (\<lambda>lba. lba \<le> max_lba) (i_sectors i @ file_blocks (disk s) i)) \<and>
     list_all (\<lambda>e. terminated (filename e)) (dir_listing s pdir)"

section \<open>Searching\<close>

lemma cstr_take: "0 \<in> set (take n p) \<Longrightarrow> cstr (take n p) = cstr p"
  by (induction p arbitrary: n) (auto simp: take_Cons split: nat.splits)

lemma strcmp_entry:
  assumes "terminated (filename (entry_at k buf))" and "terminated name"
  obtains c where "strcmp (drop (24 * k) buf) name = Inr c" and "c = 0 \<longleftrightarrow> named name (entry_at k buf)"
proof -
  have f: "filename (entry_at k buf) = take 16 (drop (24 * k) buf)"
    by (simp add: entry_at_def dentc.get_def bytes_dir_entry_def slice_def)
  then have z: "0 \<in> set (take 16 (drop (24 * k) buf))" using assms(1) by (simp add: terminated_def)
  then have z': "0 \<in> set (drop (24 * k) buf)" by (rule in_set_takeD)
  from strcmp_Inr [OF this] assms(2) obtain c where c: "strcmp (drop (24 * k) buf) name = Inr c"
    by (auto simp: terminated_def)
  have "c = 0 \<longleftrightarrow> cstr (drop (24 * k) buf) = cstr name"
    using strcmp_0_iff [OF z', of name] assms(2) c by (simp add: terminated_def)
  with c cstr_take [OF z] that [of c] show ?thesis by (simp add: named_def f)
qed

lemma search_entries_eq:
  "list_all (\<lambda>e. terminated (filename e)) (List.map (\<lambda>k. entry_at k buf) [k..<k + n]) \<Longrightarrow> terminated name \<Longrightarrow>
   search_entries buf name n k = Inr (List.find (named name) (List.map (\<lambda>k. entry_at k buf) [k..<k + n]))"
proof (induction n arbitrary: k)
  case (Suc n)
  have up: "[k..<k + Suc n] = k # [Suc k..<Suc k + n]" by (simp add: upt_conv_Cons)
  from Suc.prems have t: "terminated (filename (entry_at k buf))"
    and r: "list_all (\<lambda>e. terminated (filename e)) (List.map (\<lambda>k. entry_at k buf) [Suc k..<Suc k + n])"
    unfolding up by simp_all
  obtain c where c: "strcmp (drop (24 * k) buf) name = Inr c" "c = 0 \<longleftrightarrow> named name (entry_at k buf)"
    by (rule strcmp_entry [OF t Suc.prems(2)])
  then show ?case using Suc.IH [OF r Suc.prems(2)] unfolding up by simp
qed simp

lemma search_blocks_eq:
  assumes "list_all (\<lambda>lba. lba \<le> max_lba) blocks"
    and "list_all (\<lambda>e. terminated (filename e)) (dir_entries (disk s) blocks)" and "terminated name"
  shows "search_blocks name 21 blocks s = Inr (List.find (named name) (dir_entries (disk s) blocks), s)"
  using assms
proof (induction blocks)
  case (Cons lba blocks)
  show ?case
  proof (cases "lba = 0")
    case True
    then have e: "dir_entries (disk s) (lba # blocks) = dir_entries (disk s) blocks" by (simp add: dir_entries_def)
    with Cons True show ?thesis unfolding e by simp
  next
    case False
    then have e: "dir_entries (disk s) (lba # blocks) = sector_entries (disk s lba) @ dir_entries (disk s) blocks"
      by (simp add: dir_entries_def)
    have find_app: "List.find P (xs @ ys) = (case List.find P xs of Some x \<Rightarrow> Some x | None \<Rightarrow> List.find P ys)"
      for P and xs ys :: "dir_entry list" by (induction xs) auto
    have "search_entries (disk s lba) name 21 0 = Inr (List.find (named name) (sector_entries (disk s lba)))"
      using search_entries_eq [of "disk s lba" 0 21 name] Cons.prems
      unfolding e by (simp add: sector_entries_def)
    then show ?thesis
      using False Cons unfolding e
      by (simp add: bnd_sec_read find_app split: option.splits)
  qed
qed (simp add: dir_entries_def)

lemma dir_okD:
  assumes "dir_ok s pdir"
  obtains d i where "dirs s pdir = Some d" "inodes s (d_inode d) = Some i" "dir_inode s pdir = Some i" "inode_wf i"
    "fs_ok s" "list_all (\<lambda>lba. lba \<le> max_lba) (i_sectors i)" "list_all (\<lambda>lba. lba \<le> max_lba) (file_blocks (disk s) i)"
    "list_all (\<lambda>e. terminated (filename e)) (dir_entries (disk s) (file_blocks (disk s) i))"
    "dir_listing s pdir = dir_entries (disk s) (file_blocks (disk s) i)"
    "dir_entry_size (sb (cur_part s)) = 24"
  using assms that
  by (auto simp: dir_ok_def dir_inode_def dir_listing_def fs_ok_def layout_ok_def split: option.splits)

lemma all_blocks_of_eq:
  assumes "inode_wf i" and "list_all (\<lambda>lba. lba \<le> max_lba) (i_sectors i)"
  shows "bnd (all_blocks_of i) f s = f (file_blocks (disk s) i) s"
proof -
  have "i_sectors i ! 12 \<le> max_lba" using assms by (simp add: list_all_length inode_wf_def)
  then show ?thesis by (simp add: all_blocks_of_def file_blocks_def bnd_assoc bnd_sec_read)
qed

lemma bnd_entry_size:
  "dir_entry_size (sb (cur_part s)) = 24 \<Longrightarrow> bnd entry_size f s = f 24 s"
  by (simp add: entry_size_def bnd_assoc)

lemma search_dir_entry_run:
  assumes ok: "dir_ok s pdir" and name: "terminated name"
    and m: "malloc_ok s (mallocs s)" "malloc_ok s (Suc (mallocs s))"
  shows "search_dir_entry pdir name s =
    Inr (List.find (named name) (dir_listing s pdir), s\<lparr>mallocs := Suc (Suc (mallocs s))\<rparr>)"
proof -
  obtain d i where d: "dirs s pdir = Some d" "inodes s (d_inode d) = Some i" "inode_wf i"
      "list_all (\<lambda>lba. lba \<le> max_lba) (i_sectors i)" "list_all (\<lambda>lba. lba \<le> max_lba) (file_blocks (disk s) i)"
      "list_all (\<lambda>e. terminated (filename e)) (dir_entries (disk s) (file_blocks (disk s) i))"
      "dir_listing s pdir = dir_entries (disk s) (file_blocks (disk s) i)"
      "dir_entry_size (sb (cur_part s)) = 24"
    by (rule dir_okD [OF ok]) (rule that)
  let ?s = "s\<lparr>mallocs := Suc (Suc (mallocs s))\<rparr>"
  have e: "unat ((512 :: u32) div 24) = 21" by simp
  have "search_blocks name 21 (file_blocks (disk s) i) ?s = Inr (List.find (named name) (dir_listing s pdir), ?s)"
    using search_blocks_eq [of "file_blocks (disk s) i" ?s name] d(5,6,7) name by simp
  then show ?thesis
    using d(1-4,8) m e
    by (simp add: search_dir_entry_def bnd_get_dir bnd_get_inode all_blocks_of_eq bnd_malloc_unchecked bnd_entry_size)
qed

section \<open>Adding an entry\<close>

definition blocks_distinct :: "disk \<Rightarrow> inode \<Rightarrow> bool" where
  "blocks_distinct d i \<longleftrightarrow> distinct (filter (\<lambda>l. l \<noteq> 0) (i_sectors i ! 12 # file_blocks d i))"

text \<open>Entry \<open>p\<close> is the first free one, and its sector is a direct block without a hole before it.\<close>

definition first_room :: "fs \<Rightarrow> ptr \<Rightarrow> nat \<Rightarrow> bool" where
  "first_room s pdir p \<longleftrightarrow> p div 21 < 12 \<and>
     list_all (\<lambda>lba. lba \<noteq> 0) (take (Suc (p div 21)) (i_sectors (the (dir_inode s pdir)))) \<and>
     f_type (dir_listing s pdir ! p) = 0 \<and> list_all (\<lambda>e. f_type e \<noteq> 0) (take p (dir_listing s pdir))"

lemma free_entry_Some:
  "r < n \<Longrightarrow> f_type (entry_at (k + r) buf) = 0 \<Longrightarrow> (\<And>q. q < r \<Longrightarrow> f_type (entry_at (k + q) buf) \<noteq> 0) \<Longrightarrow>
   free_entry buf n k = Some (k + r)"
proof (induction n arbitrary: k r)
  case (Suc n)
  show ?case
  proof (cases r)
    case (Suc r')
    have "free_entry buf n (Suc k) = Some (Suc k + r')"
      using Suc.prems(1,2) Suc.prems(3) [of "Suc _"] Suc by (intro Suc.IH) auto
    then show ?thesis using Suc.prems(3) [of 0] Suc by simp
  qed (use Suc.prems(2) in simp)
qed simp

lemma free_entry_None: "(\<And>q. q < n \<Longrightarrow> f_type (entry_at (k + q) buf) \<noteq> 0) \<Longrightarrow> free_entry buf n k = None"
proof (induction n arbitrary: k)
  case (Suc n)
  have "free_entry buf n (Suc k) = None" using Suc.prems [of "Suc _"] by (intro Suc.IH) simp
  then show ?case using Suc.prems [of 0] by simp
qed simp

lemma entry_at_put:
  assumes "dir_entry_wf e" and "length buf = 512" and "k < 21" and "q < 21"
  shows "entry_at q (splice (24 * k) (dir_entry_bytes e) buf) = (if q = k then e else entry_at q buf)"
proof (cases "q = k")
  case True
  then show ?thesis
    using dentc.get_put [of e "24 * k" buf] assms by (simp add: entry_at_def dentc.put_at_def)
next
  case False
  then have "24 * q + 24 \<le> 24 * k \<or> 24 * k + 24 \<le> 24 * q" by linarith
  then show ?thesis
    using dentc.get_put_other [of e "24 * k" buf "24 * q"] assms False by (simp add: entry_at_def dentc.put_at_def)
qed

lemma length_sector_entries [simp]: "length (sector_entries buf) = 21"
  by (simp add: sector_entries_def)

lemma sector_entries_put:
  assumes "dir_entry_wf e" and "length buf = 512" and "k < 21"
  shows "sector_entries (splice (24 * k) (dir_entry_bytes e) buf) = (sector_entries buf)[k := e]"
  by (rule nth_equalityI) (use assms in \<open>auto simp: sector_entries_def entry_at_put nth_list_update simp del: upt.simps\<close>)

lemma dir_entries_append: "dir_entries d (xs @ ys) = dir_entries d xs @ dir_entries d ys"
  by (simp add: dir_entries_def)

lemma dir_entries_cong: "(\<And>lba. lba \<in> set xs \<Longrightarrow> lba \<noteq> 0 \<Longrightarrow> d lba = d' lba) \<Longrightarrow> dir_entries d xs = dir_entries d' xs"
  unfolding dir_entries_def by (intro arg_cong [of _ _ concat] map_cong) auto

lemma length_dir_entries: "list_all (\<lambda>lba. lba \<noteq> 0) xs \<Longrightarrow> length (dir_entries d xs) = 21 * length xs"
  by (induction xs) (auto simp: dir_entries_def)

lemma dir_entries_split:
  assumes "j < length blocks" and "blocks ! j \<noteq> 0"
  shows "dir_entries d blocks =
    dir_entries d (take j blocks) @ sector_entries (d (blocks ! j)) @ dir_entries d (drop (Suc j) blocks)"
  using assms by (subst id_take_nth_drop [of j blocks]) (simp_all add: dir_entries_def)

lemma dir_entries_nth:
  assumes "list_all (\<lambda>lba. lba \<noteq> 0) (take (Suc j) blocks)" and "j < length blocks" and "q div 21 \<le> j"
  shows "dir_entries d blocks ! q = entry_at (q mod 21) (d (blocks ! (q div 21)))"
proof -
  let ?j = "q div 21"
  have j: "?j < length blocks" "?j < length (take (Suc j) blocks)" using assms by simp_all
  then have nz: "blocks ! ?j \<noteq> 0" using assms(1) by (auto simp: list_all_length)
  have "list_all (\<lambda>lba. lba \<noteq> 0) (take ?j blocks)"
    using assms(1,3) by (auto simp: list_all_length)
  then have "length (dir_entries d (take ?j blocks)) = 21 * ?j" using length_dir_entries j(1) by simp
  moreover have "q - 21 * ?j = q mod 21" "\<not> q < 21 * ?j" by (simp_all add: minus_mult_div_eq_mod)
  ultimately show ?thesis
    unfolding dir_entries_split [OF j(1) nz] by (simp add: nth_append sector_entries_def)
qed

lemma dir_entries_put:
  assumes "blocks_distinct d i" and "inode_wf i" and "p div 21 < 12"
    and "list_all (\<lambda>lba. lba \<noteq> 0) (take (Suc (p div 21)) (i_sectors i))"
    and "dir_entry_wf e" and "disk_wf d"
  defines "lba \<equiv> i_sectors i ! (p div 21)"
  defines "d' \<equiv> d(lba := splice (24 * (p mod 21)) (dir_entry_bytes e) (d lba))"
  shows "file_blocks d' i = file_blocks d i"
    and "dir_entries d' (file_blocks d i) = (dir_entries d (file_blocks d i))[p := e]"
proof -
  let ?j = "p div 21" and ?bs = "file_blocks d i"
  have len: "length (i_sectors i) = 13" using assms(2) by (simp add: inode_wf_def)
  have nz: "lba \<noteq> 0" using assms(3,4) len by (auto simp: lba_def list_all_length)
  have j: "?j < length ?bs" "?bs ! ?j = lba" using assms(3) len by (simp_all add: file_blocks_def nth_append lba_def)
  have split: "?bs = take ?j ?bs @ lba # drop (Suc ?j) ?bs" using id_take_nth_drop [OF j(1)] j(2) by simp
  have dist: "distinct (filter (\<lambda>l. l \<noteq> 0) (i_sectors i ! 12 # take ?j ?bs @ lba # drop (Suc ?j) ?bs))"
    using assms(1) unfolding blocks_distinct_def by (subst (asm) split)
  then have other: "lba \<notin> set (take ?j ?bs)" "lba \<notin> set (drop (Suc ?j) ?bs)" "i_sectors i ! 12 \<noteq> lba"
    using nz by (auto split: if_splits)
  show "file_blocks d' i = ?bs" using other(3) by (simp add: file_blocks_def d'_def)
  have same: "dir_entries d' (take ?j ?bs) = dir_entries d (take ?j ?bs)"
    "dir_entries d' (drop (Suc ?j) ?bs) = dir_entries d (drop (Suc ?j) ?bs)"
    by (rule dir_entries_cong, use other(1,2) in \<open>auto simp: d'_def\<close>)+
  have "list_all (\<lambda>lba. lba \<noteq> 0) (take ?j ?bs)"
    using assms(3,4) len by (auto simp: list_all_length file_blocks_def)
  then have la: "length (dir_entries d (take ?j ?bs)) = 21 * ?j"
    using length_dir_entries j(1) by (simp add: less_imp_le_nat)
  have "sector_entries (d' lba) = (sector_entries (d lba))[p mod 21 := e]"
    using sector_entries_put [OF assms(5), of "d lba" "p mod 21"] assms(6) by (simp add: d'_def disk_wf_def)
  moreover have "p = 21 * ?j + p mod 21" by simp
  moreover have "(A @ S @ B)[length A + k := e] = A @ S[k := e] @ B" if "k < length S" for A S B :: "dir_entry list" and k
    using that by (simp add: list_update_append)
  ultimately show "dir_entries d' ?bs = (dir_entries d ?bs)[p := e]"
    using dir_entries_split [of ?j ?bs] j nz same la
    by (metis length_sector_entries mod_less_divisor zero_less_numeral)
qed

lemma sync_loop_skip:
  "m + idx \<le> 12 \<Longrightarrow>
   (\<And>k. k < m \<Longrightarrow> blocks ! (idx + k) \<noteq> 0 \<and> blocks ! (idx + k) \<le> max_lba \<and>
      free_entry (disk s (blocks ! (idx + k))) 21 0 = None) \<Longrightarrow>
   sync_dir_loop (m + n) ip e 24 blocks True idx s = sync_dir_loop n ip e 24 blocks True (idx + m) s"
proof (induction m arbitrary: idx)
  case (Suc m)
  have "sync_dir_loop (Suc m + n) ip e 24 blocks True idx s = sync_dir_loop (m + n) ip e 24 blocks True (Suc idx) s"
    using Suc.prems(1) Suc.prems(2) [of 0] by (simp add: bnd_sec_read)
  also have "\<dots> = sync_dir_loop n ip e 24 blocks True (Suc idx + m) s"
    using Suc.prems(1) Suc.prems(2) [of "Suc _"] by (intro Suc.IH) simp_all
  finally show ?case by simp
qed simp

text \<open>The loop with a free entry in the sector it has come to.\<close>

lemma sync_loop_put:
  assumes "idx < 12" and "blocks ! idx \<noteq> 0" and "blocks ! idx \<le> max_lba"
    and "free_entry (disk s (blocks ! idx)) 21 0 = Some k" and "k < 21"
    and "disk_wf (disk s)" and "dir_entry_wf e" and "inodes s ip = Some i"
  shows "sync_dir_loop (Suc n) ip e 24 blocks True idx s =
    Inr (True, s\<lparr>disk := (disk s)(blocks ! idx := splice (24 * k) (dir_entry_bytes e) (disk s (blocks ! idx))),
      inodes := (inodes s)(ip \<mapsto> i\<lparr>i_size := i_size i + 24\<rparr>)\<rparr>)"
proof -
  have len: "length (dir_entry_bytes e) = 24" using assms(7) by (rule dentc.length_enc)
  have l: "length (disk s (blocks ! idx)) = 512" using assms(6) by (simp add: disk_wf_def)
  have "(1 :: u32) \<le> max_lba" by (simp add: max_lba_val)
  then show ?thesis
    using assms len l
    by (simp add: bnd_sec_read buf_write_def bnd_Inr [OF sec_write_run] bnd_upd_inode)
qed

lemma sync_dir_entry_put:
  assumes ok: "dir_ok s pdir" and dist: "blocks_distinct (disk s) (the (dir_inode s pdir))"
    and room: "first_room s pdir p" and e: "dir_entry_wf e" "terminated (filename e)"
    and sz: "i_size (the (dir_inode s pdir)) mod 24 = 0"
    and d: "dirs s pdir = Some d" "inodes s (d_inode d) = Some i"
  defines "lba \<equiv> i_sectors i ! (p div 21)"
  shows "sync_dir_entry pdir e s =
    Inr (True, s\<lparr>disk := (disk s)(lba := splice (24 * (p mod 21)) (dir_entry_bytes e) (disk s lba)),
      inodes := (inodes s)(d_inode d \<mapsto> i\<lparr>i_size := i_size i + 24\<rparr>)\<rparr>)"
proof -
  have i: "dir_inode s pdir = Some i" using d by (simp add: dir_inode_def)
  obtain i' where "inode_wf i'" "fs_ok s" "list_all (\<lambda>lba. lba \<le> max_lba) (i_sectors i')"
      "dir_listing s pdir = dir_entries (disk s) (file_blocks (disk s) i')" "dir_entry_size (sb (cur_part s)) = 24"
      "dir_inode s pdir = Some i'"
    by (rule dir_okD [OF ok]) (rule that)
  with i have wf: "inode_wf i" "fs_ok s" "list_all (\<lambda>lba. lba \<le> max_lba) (i_sectors i)"
      "dir_listing s pdir = dir_entries (disk s) (file_blocks (disk s) i)" "dir_entry_size (sb (cur_part s)) = 24"
    by simp_all
  have len: "length (i_sectors i) = 13" using wf(1) by (simp add: inode_wf_def)
  let ?j = "p div 21" and ?k = "p mod 21" and ?bs = "take 12 (i_sectors i) @ replicate 128 0" and ?fb = "file_blocks (disk s) i"
  have j: "?j < 12" and nz: "list_all (\<lambda>lba. lba \<noteq> 0) (take (Suc ?j) (i_sectors i))"
    using room by (simp_all add: first_room_def i)
  have bs: "?bs ! q = i_sectors i ! q" "i_sectors i ! q \<noteq> 0" "i_sectors i ! q \<le> max_lba" if "q \<le> ?j" for q
    using that j nz wf(3) len by (auto simp: nth_append list_all_length)
  have fb: "list_all (\<lambda>lba. lba \<noteq> 0) (take (Suc ?j) ?fb)" "?j < length ?fb" "\<And>q. q \<le> ?j \<Longrightarrow> ?fb ! q = i_sectors i ! q"
    using nz j len by (auto simp: file_blocks_def list_all_length nth_append)
  have entry: "dir_listing s pdir ! q = entry_at (q mod 21) (disk s (i_sectors i ! (q div 21)))" if "q div 21 \<le> ?j" for q
    unfolding wf(4) dir_entries_nth [OF fb(1,2) that] using fb(3) that by simp
  have "length (dir_entries (disk s) ?fb) \<ge> 21 * Suc ?j"
    using length_dir_entries [OF fb(1), of "disk s"] fb(2)
      dir_entries_append [of "disk s" "take (Suc ?j) ?fb" "drop (Suc ?j) ?fb"] by simp
  then have plen: "p \<le> length (dir_listing s pdir)" unfolding wf(4) using div_mult_mod_eq [of p 21] mod_less_divisor [of 21 p] by simp
  have used: "f_type (dir_listing s pdir ! q) \<noteq> 0" if "q < p" for q
    using room that plen by (auto simp: first_room_def list_all_length)
  have full: "free_entry (disk s (i_sectors i ! q)) 21 0 = None" if "q < ?j" for q
  proof (rule free_entry_None)
    fix r :: nat assume r: "r < 21"
    have "21 * q + r < p" using that r by linarith
    moreover have "(21 * q + r) div 21 = q" "(21 * q + r) mod 21 = r" using r by simp_all
    ultimately show "f_type (entry_at (0 + r) (disk s (i_sectors i ! q))) \<noteq> 0"
      using used [of "21 * q + r"] entry [of "21 * q + r"] that by simp
  qed
  have "free_entry (disk s (i_sectors i ! ?j)) 21 0 = Some (0 + ?k)"
  proof (rule free_entry_Some)
    show "f_type (entry_at (0 + ?k) (disk s (i_sectors i ! ?j))) = 0"
      using room entry [of p] by (simp add: first_room_def)
    fix q assume q: "q < ?k"
    have "21 * ?j + q < p" using q mult_div_mod_eq [of 21 p] by linarith
    moreover have "q < 21" using q by (rule less_trans) simp
    then have "(21 * ?j + q) div 21 = ?j" "(21 * ?j + q) mod 21 = q" by simp_all
    ultimately
    show "f_type (entry_at (0 + q) (disk s (i_sectors i ! ?j))) \<noteq> 0"
      using used [of "21 * ?j + q"] entry [of "21 * ?j + q"] by simp
  qed simp
  then have put: "sync_dir_loop (Suc (139 - ?j)) (d_inode d) e 24 ?bs True ?j s =
      Inr (True, s\<lparr>disk := (disk s)(lba := splice (24 * ?k) (dir_entry_bytes e) (disk s lba)),
        inodes := (inodes s)(d_inode d \<mapsto> i\<lparr>i_size := i_size i + 24\<rparr>)\<rparr>)"
    using sync_loop_put [of ?j ?bs s ?k e "d_inode d" i "139 - ?j"] j bs [of ?j] e(1) d(2) fs_okD(1) [OF wf(2)]
    by (simp add: lba_def del: sync_dir_loop.simps)
  have "sync_dir_loop (?j + Suc (139 - ?j)) (d_inode d) e 24 ?bs True 0 s =
      sync_dir_loop (Suc (139 - ?j)) (d_inode d) e 24 ?bs True (0 + ?j) s"
    using j bs full by (intro sync_loop_skip) simp_all
  moreover have "?j + Suc (139 - ?j) = 140" using j by simp
  ultimately have "sync_dir_loop 140 (d_inode d) e 24 ?bs True 0 s =
      sync_dir_loop (Suc (139 - ?j)) (d_inode d) e 24 ?bs True ?j s" by (simp only: add_0)
  then show ?thesis
    using put wf(5) sz d i by (simp add: sync_dir_entry_def bnd_get_dir bnd_get_inode bnd_entry_size del: sync_dir_loop.simps)
qed

lemma list_all_update: "list_all P xs \<Longrightarrow> P x \<Longrightarrow> list_all P (xs[k := x])"
  unfolding list_all_iff using set_update_subset_insert [of xs k x] by blast

text \<open>The directory after the entry was added.\<close>

lemma dir_after_put:
  assumes ok: "dir_ok s pdir" and dist: "blocks_distinct (disk s) i" and room: "first_room s pdir p"
    and e: "dir_entry_wf e" "terminated (filename e)"
    and d: "dirs s pdir = Some d" "inodes s (d_inode d) = Some i"
  defines "lba \<equiv> i_sectors i ! (p div 21)"
  defines "s' \<equiv> s\<lparr>disk := (disk s)(lba := splice (24 * (p mod 21)) (dir_entry_bytes e) (disk s lba)),
      inodes := (inodes s)(d_inode d \<mapsto> i\<lparr>i_size := i_size i + 24\<rparr>)\<rparr>"
  shows "dir_inode s' pdir = Some (i\<lparr>i_size := i_size i + 24\<rparr>)"
    and "dir_listing s' pdir = (dir_listing s pdir)[p := e]" and "dir_ok s' pdir"
proof -
  have i: "dir_inode s pdir = Some i" using d by (simp add: dir_inode_def)
  show i': "dir_inode s' pdir = Some (i\<lparr>i_size := i_size i + 24\<rparr>)" using d by (simp add: dir_inode_def s'_def)
  obtain i0 where "inode_wf i0" "fs_ok s" "dir_inode s pdir = Some i0"
      "list_all (\<lambda>lba. lba \<le> max_lba) (i_sectors i0)" "list_all (\<lambda>lba. lba \<le> max_lba) (file_blocks (disk s) i0)"
      "list_all (\<lambda>e. terminated (filename e)) (dir_entries (disk s) (file_blocks (disk s) i0))"
    by (rule dir_okD [OF ok]) (rule that)
  with i have wf: "inode_wf i" "fs_ok s" "list_all (\<lambda>lba. lba \<le> max_lba) (i_sectors i)"
      "list_all (\<lambda>lba. lba \<le> max_lba) (file_blocks (disk s) i)"
      "list_all (\<lambda>e. terminated (filename e)) (dir_entries (disk s) (file_blocks (disk s) i))" by simp_all
  have room': "p div 21 < 12" "list_all (\<lambda>lba. lba \<noteq> 0) (take (Suc (p div 21)) (i_sectors i))"
    using room by (simp_all add: first_room_def i)
  note put = dir_entries_put [OF dist wf(1) room' e(1) fs_okD(1) [OF wf(2)], folded lba_def]
  have fb: "file_blocks d' (i\<lparr>i_size := n\<rparr>) = file_blocks d' i" for d' n by (simp add: file_blocks_def)
  show l: "dir_listing s' pdir = (dir_listing s pdir)[p := e]"
    unfolding dir_listing_def i' i option.sel fb using put by (simp add: s'_def)
  have "length (disk s lba) = 512" using fs_okD(1) [OF wf(2)] by (simp add: disk_wf_def)
  moreover have "p mod 21 \<le> 20" by (simp flip: less_Suc_eq_le)
  ultimately have "disk_wf (disk s')"
    using fs_okD(1) [OF wf(2)] dentc.length_enc [OF e(1)] by (simp add: disk_wf_def s'_def)
  then have "fs_ok s'" using wf(2) by (simp add: fs_ok_def s'_def)
  moreover have "list_all (\<lambda>e. terminated (filename e)) (dir_listing s' pdir)"
    unfolding l using wf(5) e(2) by (intro list_all_update) (simp_all add: dir_listing_def i)
  ultimately show "dir_ok s' pdir"
    unfolding dir_ok_def i' using wf put(1) by (simp add: fb s'_def) (simp add: inode_wf_def)
qed

section \<open>Properties\<close>

text \<open>C18: Searching a directory finds the first of its entries that has the name, over all its sectors
  (the twelve direct ones and those of the index block), and nothing when no entry has it.\<close>

theorem search_dir_entry_finds:
  assumes "dir_ok s pdir" and "terminated name"
    and "malloc_ok s (mallocs s)" and "malloc_ok s (Suc (mallocs s))"
  shows "search_dir_entry pdir name s =
    Inr (List.find (named name) (dir_listing s pdir), s\<lparr>mallocs := Suc (Suc (mallocs s))\<rparr>)"
  using assms by (rule search_dir_entry_run)

text \<open>C19: Adding an entry to a directory that has room in its direct sectors replaces its first
  free entry, grows its size by one entry, keeps it well formed, and changes no other sector; a
  search for the name then finds the new entry, provided no entry before it has that name.\<close>

theorem dir_insert_lookup:
  assumes "dir_ok s pdir" and "dirs s pdir = Some d" and "inodes s (d_inode d) = Some i"
    and "blocks_distinct (disk s) i" and "i_size i mod 24 = 0" and "first_room s pdir p"
    and "p < length (dir_listing s pdir)"
    and "dir_entry_wf e" and "terminated (filename e)"
    and "list_all (\<lambda>e'. \<not> named (filename e) e') (take p (dir_listing s pdir))"
    and "malloc_ok s (mallocs s)" and "malloc_ok s (Suc (mallocs s))"
  shows "\<exists>s'. sync_dir_entry pdir e s = Inr (True, s') \<and> dir_ok s' pdir \<and>
    dir_listing s' pdir = (dir_listing s pdir)[p := e] \<and>
    dir_inode s' pdir = Some (i\<lparr>i_size := i_size i + 24\<rparr>) \<and>
    (\<forall>lba. lba \<noteq> i_sectors i ! (p div 21) \<longrightarrow> disk s' lba = disk s lba) \<and>
    (\<exists>s''. search_dir_entry pdir (filename e) s' = Inr (Some e, s''))"
proof -
  let ?lba = "i_sectors i ! (p div 21)"
  let ?s = "s\<lparr>disk := (disk s)(?lba := splice (24 * (p mod 21)) (dir_entry_bytes e) (disk s ?lba)),
      inodes := (inodes s)(d_inode d \<mapsto> i\<lparr>i_size := i_size i + 24\<rparr>)\<rparr>"
  have i: "dir_inode s pdir = Some i" using assms(2,3) by (simp add: dir_inode_def)
  have run: "sync_dir_entry pdir e s = Inr (True, ?s)"
    using assms i by (intro sync_dir_entry_put) simp_all
  note after = dir_after_put [OF assms(1,4,6,8,9,2,3)]
  have find_put: "List.find P (xs[q := x]) = Some x"
    if "q < length xs" "P x" "list_all (\<lambda>y. \<not> P y) (take q xs)" for P q and x :: dir_entry and xs
    using that by (induction xs arbitrary: q) (auto split: nat.splits)
  have "List.find (named (filename e)) ((dir_listing s pdir)[p := e]) = Some e"
    by (rule find_put [OF assms(7) _ assms(10)]) (simp add: named_def)
  with search_dir_entry_run [OF after(3) assms(9)] assms(11,12)
  have "\<exists>s''. search_dir_entry pdir (filename e) ?s = Inr (Some e, s'')" by (simp add: after(2))
  with run after show ?thesis by (intro exI [of _ ?s]) simp
qed

section \<open>Witnesses\<close>

text \<open>An empty directory with one sector, and the entry of a file \<open>a\<close>.\<close>

definition sample_inode :: inode where
  "sample_inode = (inode_init 0)\<lparr>i_sectors := 612 # replicate 12 0\<rparr>"

definition sample_dir_fs :: fs where
  "sample_dir_fs = sample_fs\<lparr>inodes := [16 \<mapsto> sample_inode],
     dirs := [root_dir \<mapsto> \<lparr>d_inode = 16, dir_pos = 0, dir_buf = replicate 512 0\<rparr>], next_addr := 17\<rparr>"

definition entry_a :: dir_entry where
  "entry_a = \<lparr>filename = 97 # replicate 15 0, de_i_no = 2, f_type = ft_code FT_REGULAR\<rparr>"

lemma entry_at_zero: "k < 21 \<Longrightarrow> entry_at k (replicate 512 0) = zero_entry"
  by (simp add: entry_at_def dentc.get_def bytes_dir_entry_def slice_def zero_entry_def bytes_u32_def)

lemma sample_dir_listing: "dir_inode sample_dir_fs root_dir = Some sample_inode"
    "file_blocks (disk sample_dir_fs) sample_inode = 612 # replicate 139 0"
    "dir_listing sample_dir_fs root_dir = replicate 21 zero_entry"
proof -
  show i: "dir_inode sample_dir_fs root_dir = Some sample_inode"
    by (simp add: dir_inode_def sample_dir_fs_def)
  show b: "file_blocks (disk sample_dir_fs) sample_inode = 612 # replicate 139 0"
    by (simp add: file_blocks_def sample_inode_def flip: replicate_add)
  have "sector_entries (replicate 512 0) = List.map (\<lambda>k. zero_entry) [0..<21]"
    unfolding sector_entries_def by (rule map_cong [OF refl]) (simp add: entry_at_zero)
  also have "\<dots> = replicate 21 zero_entry" by (simp add: map_replicate_const)
  finally have "sector_entries (replicate 512 0) = replicate 21 zero_entry" .
  then show "dir_listing sample_dir_fs root_dir = replicate 21 zero_entry"
    unfolding dir_listing_def i option.sel b
    by (simp add: dir_entries_def sample_dir_fs_def sample_fs_def)
qed

lemma sample_dir_ok: "dir_ok sample_dir_fs root_dir"
  unfolding dir_ok_def sample_dir_listing option.case
  using sample_fs_ok
  by (simp add: fs_ok_def sample_dir_fs_def list_all_iff max_lba_val sample_inode_def inode_wf_def
      zero_entry_def terminated_def)

lemma sample_dir_malloc: "malloc_ok sample_dir_fs n"
  by (simp add: sample_dir_fs_def sample_fs_def)

lemma cstr_zeros [simp]: "cstr (replicate n 0) = []"
  by (cases n) simp_all

theorem search_dir_entry_finds_witness:
  "search_dir_entry root_dir [97, 0] sample_dir_fs =
     Inr (None, sample_dir_fs\<lparr>mallocs := Suc (Suc (mallocs sample_dir_fs))\<rparr>)"
  using search_dir_entry_finds [OF sample_dir_ok, of "[97, 0]"]
  by (simp add: sample_dir_listing sample_dir_malloc terminated_def find_None_iff named_def zero_entry_def)

theorem dir_insert_lookup_witness:
  "\<exists>s' s''. sync_dir_entry root_dir entry_a sample_dir_fs = Inr (True, s') \<and>
     search_dir_entry root_dir (filename entry_a) s' = Inr (Some entry_a, s'')"
proof -
  have d: "dirs sample_dir_fs root_dir = Some \<lparr>d_inode = 16, dir_pos = 0, dir_buf = replicate 512 0\<rparr>"
    "inodes sample_dir_fs 16 = Some sample_inode" by (simp_all add: sample_dir_fs_def)
  have "blocks_distinct (disk sample_dir_fs) sample_inode"
    unfolding blocks_distinct_def sample_dir_listing by (simp add: sample_inode_def)
  moreover have "i_size sample_inode mod 24 = 0" by (simp add: sample_inode_def inode_init_def)
  moreover have "first_room sample_dir_fs root_dir 0"
    by (simp add: first_room_def sample_dir_listing zero_entry_def sample_inode_def)
  moreover have "dir_entry_wf entry_a" "terminated (filename entry_a)"
    by (simp_all add: dir_entry_wf_def entry_a_def terminated_def)
  ultimately show ?thesis
    using dir_insert_lookup [OF sample_dir_ok d(1), of sample_inode 0 entry_a] d(2) sample_dir_malloc
    by (auto simp: sample_dir_listing)
qed

end
