(* ===== verification/File.thy ===== *)
theory File
  imports Dir
begin

text \<open>
  \<open>fs/file.c\<close>: the system's file table, the descriptors of a process, and files: creating,
  opening, closing, appending and reading. A \<open>struct file *\<close> is the index of the entry in the
  file table. The addresses that a call collects in \<open>all_blocks\<close> are a list of 140 words,
  zero at first as the allocator leaves them.
\<close>

section \<open>Tables\<close>

text \<open>The first index from \<open>k\<close> on, of \<open>n\<close>, that satisfies a predicate.\<close>

fun first_from :: "(nat \<Rightarrow> bool) \<Rightarrow> nat \<Rightarrow> nat \<Rightarrow> nat option" where
  "first_from P 0 k = None"
| "first_from P (Suc n) k = (if P k then Some k else first_from P n (Suc k))"

definition get_free_slot_in_global :: "(fs, s32) km" where
  "get_free_slot_in_global =
     bnd (gets file_table) (\<lambda>ft.
     case first_from (\<lambda>k. fd_inode (ft ! k) = 0) (MAX_FILE_OPEN - 3) 3 of
       None \<Rightarrow> ret (-1)
     | Some fd_idx \<Rightarrow> ret (of_nat fd_idx))"

definition pcb_fd_install :: "s32 \<Rightarrow> (fs, s32) km" where
  "pcb_fd_install global_fd_idx =
     bnd (gets p_fd_table) (\<lambda>fds.
     case first_from (\<lambda>k. fds ! k = -1) (MAX_FILES_OPEN_PER_PROC - 3) 3 of
       None \<Rightarrow> ret (-1)
     | Some local_fd_idx \<Rightarrow>
         bnd (modify (\<lambda>s. s\<lparr>p_fd_table := (p_fd_table s)[local_fd_idx := global_fd_idx]\<rparr>)) (\<lambda>_.
         ret (of_nat local_fd_idx)))"

definition get_file :: "nat \<Rightarrow> (fs, file_t) km" where
  "get_file k = (\<lambda>s. if k < length (file_table s) then Inr (file_table s ! k, s)
     else Inl (Fault ''file_table''))"

definition set_file :: "nat \<Rightarrow> file_t \<Rightarrow> (fs, unit) km" where
  "set_file k f = modify (\<lambda>s. s\<lparr>file_table := (file_table s)[k := f]\<rparr>)"

definition upd_file :: "nat \<Rightarrow> (file_t \<Rightarrow> file_t) \<Rightarrow> (fs, unit) km" where
  "upd_file k g = bnd (get_file k) (\<lambda>f. set_file k (g f))"

section \<open>Creating, opening and closing\<close>

definition O_WRONLY :: u32 where "O_WRONLY = 1"
definition O_RDWR :: u32 where "O_RDWR = 2"
definition O_CREAT :: u32 where "O_CREAT = 4"

text \<open>The rollback switch falls through from the step that failed to step 1.\<close>

definition file_create_rollback :: "nat \<Rightarrow> u32 \<Rightarrow> ptr \<Rightarrow> nat \<Rightarrow> (fs, s32) km" where
  "file_create_rollback step inode_no new_inode fd_idx =
     bnd (whenm (step \<ge> 3) (set_file fd_idx \<lparr>fd_pos = 0, fd_flag = 0, fd_inode = 0\<rparr>)) (\<lambda>_.
     bnd (whenm (step \<ge> 2) (free_inode new_inode)) (\<lambda>_.
     bnd (whenm (step \<ge> 1) (inode_bitmap_clear inode_no)) (\<lambda>_.
     ret (-1))))"

definition file_create :: "ptr \<Rightarrow> u8 list \<Rightarrow> u8 \<Rightarrow> (fs, s32) km" where
  "file_create parent_dir name flag =
     bnd sys_malloc_ok (\<lambda>ok.
     if \<not> ok then ret (-1) else
     bnd inode_bitmap_alloc (\<lambda>inode_no.
     if inode_no = -1 then ret (-1) else
     bnd sys_malloc_ok (\<lambda>ok.
     if \<not> ok then file_create_rollback 1 inode_no 0 0 else
     bnd fresh_ptr (\<lambda>new_inode.
     bnd (set_inode new_inode (inode_init inode_no)) (\<lambda>_.
     bnd get_free_slot_in_global (\<lambda>fd_idx.
     if fd_idx = -1 then file_create_rollback 2 inode_no new_inode 0 else
     bnd (set_file (unat fd_idx) \<lparr>fd_pos = 0, fd_flag = ucast flag, fd_inode = new_inode\<rparr>) (\<lambda>_.
     bnd (upd_inode new_inode (\<lambda>i. i\<lparr>write_deny := 0\<rparr>)) (\<lambda>_.
     bnd (liftr (create_dir_entry name inode_no FT_REGULAR zero_entry)) (\<lambda>new_dir_entry.
     bnd (sync_dir_entry parent_dir new_dir_entry) (\<lambda>synced.
     if \<not> synced then file_create_rollback 3 inode_no new_inode (unat fd_idx) else
     bnd (get_dir parent_dir) (\<lambda>d.
     bnd (get_inode (d_inode d)) (\<lambda>parent_inode.
     bnd (inode_sync parent_inode) (\<lambda>_.
     bnd (get_inode new_inode) (\<lambda>inode.
     bnd (inode_sync inode) (\<lambda>_.
     bnd (bitmap_sync inode_no INODE_BITMAP) (\<lambda>_.
     bnd (set_part (\<lambda>p. p\<lparr>open_inodes := new_inode # open_inodes p\<rparr>)) (\<lambda>_.
     bnd (upd_inode new_inode (\<lambda>i. i\<lparr>i_open_cnts := 1\<rparr>)) (\<lambda>_.
     pcb_fd_install fd_idx))))))))))))))))))"

text \<open>
  \<open>write_deny\<close> is the lock of the writers of a file. When it is taken the call fails, but the slot
  of the file table and the open inode stay in use.
\<close>

definition file_open :: "u32 \<Rightarrow> u8 \<Rightarrow> (fs, s32) km" where
  "file_open inode_no flag =
     bnd get_free_slot_in_global (\<lambda>fd_idx.
     if fd_idx = -1 then ret (-1) else
     bnd (inode_open inode_no) (\<lambda>inode.
     bnd (set_file (unat fd_idx) \<lparr>fd_pos = 0, fd_flag = ucast flag, fd_inode = inode\<rparr>) (\<lambda>_.
     if ucast flag AND O_WRONLY \<noteq> 0 \<or> ucast flag AND O_RDWR \<noteq> 0
     then bnd (get_inode inode) (\<lambda>i.
          if write_deny i = 0
          then bnd (upd_inode inode (\<lambda>i. i\<lparr>write_deny := 1\<rparr>)) (\<lambda>_. pcb_fd_install fd_idx)
          else ret (-1))
     else pcb_fd_install fd_idx)))"

definition file_close :: "nat \<Rightarrow> (fs, s32) km" where
  "file_close k =
     bnd (get_file k) (\<lambda>f.
     bnd (upd_inode (fd_inode f) (\<lambda>i. i\<lparr>write_deny := 0\<rparr>)) (\<lambda>_.
     bnd (inode_close (fd_inode f)) (\<lambda>_.
     bnd (upd_file k (\<lambda>f. f\<lparr>fd_inode := 0\<rparr>)) (\<lambda>_.
     ret 0))))"

section \<open>Appending to a file\<close>

definition sector_of :: "inode \<Rightarrow> nat \<Rightarrow> u32 res" where
  "sector_of i k = (if k < 13 then Inr (i_sectors i ! k) else Inl (Fault ''i_sectors''))"

text \<open>The loops that allocate the new blocks; \<open>None\<close> when the disk is full.\<close>

fun alloc_direct :: "nat \<Rightarrow> ptr \<Rightarrow> nat \<Rightarrow> u32 list \<Rightarrow> (fs, u32 list option) km" where
  "alloc_direct 0 ip block_idx all_blocks = ret (Some all_blocks)"
| "alloc_direct (Suc n) ip block_idx all_blocks =
     bnd block_bitmap_alloc (\<lambda>block_lba.
     if block_lba = -1 then ret None else
     bnd (get_inode ip) (\<lambda>i.
     bnd (kassert ''i_sectors[block_idx] == 0'' (i_sectors i ! block_idx = 0)) (\<lambda>_.
     bnd (set_sector ip block_idx block_lba) (\<lambda>_.
     bnd (block_sync block_lba) (\<lambda>_.
     alloc_direct n ip (Suc block_idx) (all_blocks[block_idx := block_lba]))))))"

fun alloc_mixed :: "nat \<Rightarrow> ptr \<Rightarrow> nat \<Rightarrow> u32 list \<Rightarrow> (fs, u32 list option) km" where
  "alloc_mixed 0 ip block_idx all_blocks = ret (Some all_blocks)"
| "alloc_mixed (Suc n) ip block_idx all_blocks =
     bnd block_bitmap_alloc (\<lambda>block_lba.
     if block_lba = -1 then ret None else
     bnd (if block_idx < 12
          then bnd (get_inode ip) (\<lambda>i.
               bnd (kassert ''i_sectors[block_idx] == 0'' (i_sectors i ! block_idx = 0)) (\<lambda>_.
               set_sector ip block_idx block_lba))
          else ret ()) (\<lambda>_.
     bnd (block_sync block_lba) (\<lambda>_.
     alloc_mixed n ip (Suc block_idx) (all_blocks[block_idx := block_lba]))))"

fun alloc_indirect :: "nat \<Rightarrow> nat \<Rightarrow> u32 list \<Rightarrow> (fs, u32 list option) km" where
  "alloc_indirect 0 block_idx all_blocks = ret (Some all_blocks)"
| "alloc_indirect (Suc n) block_idx all_blocks =
     bnd block_bitmap_alloc (\<lambda>block_lba.
     if block_lba = -1 then ret None else
     bnd (block_sync block_lba) (\<lambda>_.
     alloc_indirect n (Suc block_idx) (all_blocks[block_idx := block_lba])))"

definition no_blocks :: "u32 list" where
  "no_blocks = replicate 140 0"

text \<open>
  Part c of \<open>file_write\<close>: the addresses of the last block in use and of the blocks to come. The
  counts are of blocks in use plus one.
\<close>

definition write_blocks :: "ptr \<Rightarrow> nat \<Rightarrow> nat \<Rightarrow> (fs, u32 list option) km" where
  "write_blocks ip has_used will_use =
     bnd (get_inode ip) (\<lambda>i.
     if will_use = has_used
     then if has_used \<le> 12
          then ret (Some (no_blocks[has_used - 1 := i_sectors i ! (has_used - 1)]))
          else bnd (kassert ''i_sectors[12] != 0'' (i_sectors i ! 12 \<noteq> 0)) (\<lambda>_.
               bnd (sec_read (i_sectors i ! 12) 1) (\<lambda>table.
               ret (Some (take 12 no_blocks @ bytes_words 128 table))))
     else if will_use \<le> 12
     then bnd (liftr (sector_of i (has_used - 1))) (\<lambda>lba.
          bnd (kassert ''i_sectors[block_idx] != 0'' (lba \<noteq> 0)) (\<lambda>_.
          alloc_direct (will_use - has_used) ip has_used (no_blocks[has_used - 1 := lba])))
     else if has_used \<le> 12
     then bnd block_bitmap_alloc (\<lambda>block_lba.
          if block_lba = -1 then ret None else
          bnd (kassert ''i_sectors[12] == 0'' (i_sectors i ! 12 = 0)) (\<lambda>_.
          bnd (set_sector ip 12 block_lba) (\<lambda>_.
          bnd (alloc_mixed (will_use - has_used) ip has_used
                 (no_blocks[has_used - 1 := i_sectors i ! (has_used - 1)])) (\<lambda>r. case r of
            None \<Rightarrow> ret None
          | Some all_blocks \<Rightarrow>
              bnd (sec_write block_lba (words_bytes (drop 12 all_blocks)) 1) (\<lambda>_.
              ret (Some all_blocks))))))
     else bnd (kassert ''i_sectors[12] != 0'' (i_sectors i ! 12 \<noteq> 0)) (\<lambda>_.
          bnd (sec_read (i_sectors i ! 12) 1) (\<lambda>table.
          bnd (alloc_indirect (will_use - has_used) has_used
                 (take 12 no_blocks @ bytes_words 128 table)) (\<lambda>r. case r of
            None \<Rightarrow> ret None
          | Some all_blocks \<Rightarrow>
              bnd (sec_write (i_sectors i ! 12) (words_bytes (drop 12 all_blocks)) 1) (\<lambda>_.
              ret (Some all_blocks))))))"

text \<open>Part d: the data goes out sector by sector; only the first sector is read before.\<close>

function write_loop :: "nat \<Rightarrow> ptr \<Rightarrow> u32 list \<Rightarrow> u8 list \<Rightarrow> bool \<Rightarrow> (fs, unit) km" where
  "write_loop k ip all_blocks src first_write_block =
     (if src = [] then ret ()
      else
        bnd (get_inode ip) (\<lambda>i.
        let sec_idx = unat (i_size i div 512);
            sec_off_bytes = unat (i_size i mod 512);
            chunk_size = min (length src) (512 - sec_off_bytes)
        in if sec_idx < length all_blocks
           then bnd (if first_write_block then sec_read (all_blocks ! sec_idx) 1 else ret (replicate 512 0)) (\<lambda>io_buf.
                bnd (liftr (buf_write sec_off_bytes (take chunk_size src) io_buf)) (\<lambda>io_buf.
                bnd (sec_write (all_blocks ! sec_idx) io_buf 1) (\<lambda>_.
                bnd (upd_inode ip (\<lambda>i. i\<lparr>i_size := i_size i + of_nat chunk_size\<rparr>)) (\<lambda>_.
                bnd (upd_file k (\<lambda>f. f\<lparr>fd_pos := fd_pos f + of_nat chunk_size\<rparr>)) (\<lambda>_.
                write_loop k ip all_blocks (drop chunk_size src) False)))))
           else fail (Fault ''all_blocks[sec_idx]'')))"
  by pat_completeness auto
termination
proof (relation "measure (\<lambda>(k, ip, all_blocks, src, first). length src)", goal_cases)
  case (2 k ip all_blocks src first i)
  have "unat (i_size i mod 512) < 512" by (simp add: unat_mod)
  with 2 show ?case by simp
qed simp

declare write_loop.simps [simp del]

definition file_write :: "nat \<Rightarrow> u8 list \<Rightarrow> u32 \<Rightarrow> (fs, s32) km" where
  "file_write k buf count =
     bnd (get_file k) (\<lambda>f.
     let ip = fd_inode f in
     bnd (get_inode ip) (\<lambda>i.
     if i_size i + count > (12 + 512 div 4) * 512 then ret (-1) else
     bnd sys_malloc_ok (\<lambda>ok.
     if \<not> ok then ret (-1) else
     bnd (if i_sectors i ! 0 = 0
          then bnd block_bitmap_alloc (\<lambda>block_lba.
               if block_lba = -1 then ret False else
               bnd (set_sector ip 0 block_lba) (\<lambda>_.
               bnd part_of (\<lambda>part.
               bnd (kassert ''block_bitmap_idx != 0'' (block_lba - data_start_lba (sb part) \<noteq> 0)) (\<lambda>_.
               bnd (block_sync block_lba) (\<lambda>_. ret True)))))
          else ret True) (\<lambda>first_ok.
     if \<not> first_ok then ret (-1) else
     let file_has_used_blocks = i_size i div 512 + 1;
         file_will_use_blocks = (i_size i + count) div 512 + 1
     in bnd (kassert ''file_will_use_blocks <= 140'' (file_will_use_blocks \<le> 140)) (\<lambda>_.
     bnd (write_blocks ip (unat file_has_used_blocks) (unat file_will_use_blocks)) (\<lambda>r. case r of
       None \<Rightarrow> ret (-1)
     | Some all_blocks \<Rightarrow>
         bnd sys_malloc_ok (\<lambda>ok.
         if \<not> ok then ret (-1) else
         bnd (upd_file k (\<lambda>f. f\<lparr>fd_pos := i_size i - 1\<rparr>)) (\<lambda>_.
         if length buf < unat count then fail (Fault ''buf'') else
         bnd (write_loop k ip all_blocks (take (unat count) buf) True) (\<lambda>_.
         bnd sys_malloc_ok (\<lambda>ok.
         bnd (if ok then bnd (get_inode ip) inode_sync else ret ()) (\<lambda>_.
         ret count)))))))))))"

section \<open>Reading a file\<close>

text \<open>Copying \<open>n\<close> direct addresses from \<open>block_idx\<close> on.\<close>

fun copy_direct :: "nat \<Rightarrow> inode \<Rightarrow> nat \<Rightarrow> u32 list \<Rightarrow> u32 list" where
  "copy_direct 0 i block_idx all_blocks = all_blocks"
| "copy_direct (Suc n) i block_idx all_blocks =
     copy_direct n i (Suc block_idx) (all_blocks[block_idx := i_sectors i ! block_idx])"

definition read_blocks :: "inode \<Rightarrow> nat \<Rightarrow> nat \<Rightarrow> (fs, u32 list) km" where
  "read_blocks i start_idx end_idx =
     (if start_idx = end_idx
      then if end_idx < 12 then ret (no_blocks[end_idx := i_sectors i ! end_idx])
           else bnd (sec_read (i_sectors i ! 12) 1) (\<lambda>table.
                ret (take 12 no_blocks @ bytes_words 128 table))
      else if end_idx < 12
      then ret (copy_direct (Suc end_idx - start_idx) i start_idx no_blocks)
      else if start_idx < 12
      then bnd (kassert ''i_sectors[12] != 0'' (i_sectors i ! 12 \<noteq> 0)) (\<lambda>_.
           bnd (sec_read (i_sectors i ! 12) 1) (\<lambda>table.
           ret (take 12 (copy_direct (12 - start_idx) i start_idx no_blocks) @ bytes_words 128 table)))
      else bnd (kassert ''i_sectors[12] != 0'' (i_sectors i ! 12 \<noteq> 0)) (\<lambda>_.
           bnd (sec_read (i_sectors i ! 12) 1) (\<lambda>table.
           ret (take 12 no_blocks @ bytes_words 128 table))))"

function read_data :: "nat \<Rightarrow> u32 list \<Rightarrow> nat \<Rightarrow> (fs, u8 list) km" where
  "read_data k all_blocks size_left =
     (if size_left = 0 then ret []
      else
        bnd (get_file k) (\<lambda>f.
        let sec_idx = unat (fd_pos f div 512);
            sec_off_bytes = unat (fd_pos f mod 512);
            chunk_size = min size_left (512 - sec_off_bytes)
        in if sec_idx < length all_blocks
           then bnd (sec_read (all_blocks ! sec_idx) 1) (\<lambda>io_buf.
                bnd (liftr (buf_read sec_off_bytes chunk_size io_buf)) (\<lambda>bytes.
                bnd (upd_file k (\<lambda>f. f\<lparr>fd_pos := fd_pos f + of_nat chunk_size\<rparr>)) (\<lambda>_.
                bnd (read_data k all_blocks (size_left - chunk_size)) (\<lambda>rest.
                ret (bytes @ rest)))))
           else fail (Fault ''all_blocks[sec_idx]'')))"
  by pat_completeness auto
termination
proof (relation "measure (\<lambda>(k, all_blocks, size_left). size_left)", goal_cases)
  case (2 k all_blocks size_left f)
  have "unat (fd_pos f mod 512) < 512" by (simp add: unat_mod)
  with 2 show ?case by simp
qed simp

declare read_data.simps [simp del]

text \<open>The result is the value returned and the bytes stored from \<open>buf\<close> on.\<close>

definition file_read :: "nat \<Rightarrow> u32 \<Rightarrow> (fs, s32 \<times> u8 list) km" where
  "file_read k count =
     bnd (get_file k) (\<lambda>f.
     bnd (get_inode (fd_inode f)) (\<lambda>i.
     let size = (if fd_pos f + count > i_size i then i_size i - fd_pos f else count)
     in if fd_pos f + count > i_size i \<and> size = 0 then ret (-1, []) else
     bnd sys_malloc_ok (\<lambda>ok.
     if \<not> ok then ret (-1, []) else
     bnd sys_malloc_ok (\<lambda>ok.
     if \<not> ok then ret (-1, []) else
     let block_read_start_idx = fd_pos f div 512;
         block_read_end_idx = (fd_pos f + size) div 512
     in bnd (kassert ''block_read_start_idx < 139 && block_read_end_idx < 139''
               (block_read_start_idx < 139 \<and> block_read_end_idx < 139)) (\<lambda>_.
     bnd (read_blocks i (unat block_read_start_idx) (unat block_read_end_idx)) (\<lambda>all_blocks.
     bnd (read_data k all_blocks (unat size)) (\<lambda>bytes.
     ret (size, bytes))))))))"

end
