(* ===== verification/File_Contents.thy ===== *)
theory File_Contents
  imports Dir_Listing File
begin

text \<open>
  What \<open>file_read\<close> and \<open>file_write\<close> mean: a file is the string of the bytes of its sectors, in
  the order of its block addresses, up to its size. Reading gives the bytes from the position
  of the descriptor on, appending adds bytes at the end.
\<close>

section \<open>The bytes of a file\<close>

definition sector_bytes :: "disk \<Rightarrow> u32 list \<Rightarrow> u8 list" where
  "sector_bytes d blocks = concat (List.map d blocks)"

definition file_contents :: "disk \<Rightarrow> inode \<Rightarrow> u8 list" where
  "file_contents d i = take (unat (i_size i)) (sector_bytes d (file_blocks d i))"

lemma length_sector_bytes: "disk_wf d \<Longrightarrow> length (sector_bytes d blocks) = 512 * length blocks"
  by (induction blocks) (simp_all add: sector_bytes_def disk_wf_def)

lemma length_file_blocks: "inode_wf i \<Longrightarrow> length (file_blocks d i) = 140"
  by (simp add: file_blocks_def inode_wf_def)

lemma slice_sector_bytes:
  assumes "disk_wf d" and "q < length blocks" and "r + n \<le> 512"
  shows "slice (512 * q + r) n (sector_bytes d blocks) = slice r n (d (blocks ! q))"
proof -
  have app: "sector_bytes d (xs @ x # ys) = sector_bytes d xs @ d x @ sector_bytes d ys" for xs x ys
    by (simp add: sector_bytes_def)
  have "sector_bytes d blocks = sector_bytes d (take q blocks) @ d (blocks ! q) @ sector_bytes d (drop (Suc q) blocks)"
    using app [of "take q blocks" "blocks ! q" "drop (Suc q) blocks"] id_take_nth_drop [OF assms(2)] by simp
  moreover have "length (sector_bytes d (take q blocks)) = 512 * q"
    using assms(1,2) by (simp add: length_sector_bytes)
  moreover have "length (d (blocks ! q)) = 512" using assms(1) by (simp add: disk_wf_def)
  ultimately show ?thesis using assms(3) by (simp add: slice_def)
qed

lemma slice_plus: "slice off (m + n) xs = slice off m xs @ slice (off + m) n xs"
  by (simp add: slice_def take_add add.commute [of off])

section \<open>Reading\<close>

text \<open>\<open>covers ab bs pos n\<close>: the addresses collected in \<open>ab\<close> agree with the file's over the range.\<close>

definition covers :: "u32 list \<Rightarrow> u32 list \<Rightarrow> nat \<Rightarrow> nat \<Rightarrow> bool" where
  "covers ab bs pos n \<longleftrightarrow> 
     (\<forall>q. pos div 512 \<le> q \<and> 512 * q < pos + n \<longrightarrow> ab ! q = bs ! q \<and> ab ! q \<le> max_lba)"

lemma bnd_get_file: "k < length (file_table s) \<Longrightarrow> bnd (get_file k) f s = f (file_table s ! k) s"
  by (simp add: get_file_def bnd_def)

lemma upd_file_bnd:
  "k < length (file_table s) \<Longrightarrow>
   bnd (upd_file k g) f s = f () (s\<lparr>file_table := (file_table s)[k := g (file_table s ! k)]\<rparr>)"
  by (simp add: upd_file_def bnd_assoc set_file_def bnd_get_file)

lemma read_data_run:
  "disk_wf (disk s) \<Longrightarrow> k < length (file_table s) \<Longrightarrow> length ab = 140 \<Longrightarrow> length bs = 140 \<Longrightarrow>
   unat (fd_pos (file_table s ! k)) + n \<le> 71680 \<Longrightarrow> covers ab bs (unat (fd_pos (file_table s ! k))) n \<Longrightarrow>
   read_data k ab n s = Inr (slice (unat (fd_pos (file_table s ! k))) n (sector_bytes (disk s) bs),
     s\<lparr>file_table := (file_table s)[k := (file_table s ! k)\<lparr>fd_pos := fd_pos (file_table s ! k) + of_nat n\<rparr>]\<rparr>)"
proof (induction n arbitrary: s rule: less_induct)
  case (less n)
  let ?f = "file_table s ! k"
  define pos where "pos = unat (fd_pos ?f)"
  show ?case
  proof (cases "n = 0")
    case True
    then show ?thesis by (simp add: read_data.simps slice_def)
  next
    case False
    define q where "q = pos div 512"
    define r where "r = pos mod 512"
    define c where "c = min n (512 - r)"
    have pos: "pos = 512 * q + r" "r < 512" by (simp_all add: q_def r_def)
    have c: "0 < c" "c \<le> n" "r + c \<le> 512" using False pos(2) by (auto simp: c_def)
    have fits: "pos + n \<le> 71680" using less.prems(5) by (simp add: pos_def)
    have q140: "q < 140" using fits False pos(1) by linarith
    have u: "unat (fd_pos ?f div 512) = q" "unat (fd_pos ?f mod 512) = r"
      by (simp_all add: q_def r_def pos_def unat_div unat_mod)
    have "512 * q < pos + n" using pos(1) False by linarith
    then have ab: "ab ! q = bs ! q" "ab ! q \<le> max_lba"
      using less.prems(6) unfolding covers_def pos_def [symmetric] q_def by blast+
    have len: "length (disk s (ab ! q)) = 512" using less.prems(1) by (simp add: disk_wf_def)
    let ?g = "?f\<lparr>fd_pos := fd_pos ?f + of_nat c\<rparr>"
    let ?s = "s\<lparr>file_table := (file_table s)[k := ?g]\<rparr>"
    have upos: "unat (fd_pos ?g) = pos + c"
      using fits c(2) by (simp add: pos_def unat_add_u32 unat_of_nat_u32)
    have tab: "file_table ?s ! k = ?g" using less.prems(2) by simp
    have cov: "covers ab bs (pos + c) (n - c)"
      unfolding covers_def
    proof (intro allI impI)
      fix p assume p: "(pos + c) div 512 \<le> p \<and> 512 * p < pos + c + (n - c)"
      have "pos div 512 \<le> (pos + c) div 512" by (rule div_le_mono) simp
      with p c(2) have "pos div 512 \<le> p \<and> 512 * p < pos + n" by linarith
      with less.prems(6) show "ab ! p = bs ! p \<and> ab ! p \<le> max_lba"
        unfolding covers_def pos_def [symmetric] by blast
    qed
    have "read_data k ab (n - c) ?s = Inr (slice (unat (fd_pos (file_table ?s ! k))) (n - c) (sector_bytes (disk ?s) bs),
        ?s\<lparr>file_table := (file_table ?s)[k := (file_table ?s ! k)\<lparr>fd_pos := fd_pos (file_table ?s ! k) + of_nat (n - c)\<rparr>]\<rparr>)"
    proof (rule less.IH)
      show "n - c < n" using c(1) False by simp
      show "unat (fd_pos (file_table ?s ! k)) + (n - c) \<le> 71680" unfolding tab upos using fits c(2) by simp
      show "covers ab bs (unat (fd_pos (file_table ?s ! k))) (n - c)" unfolding tab upos by (rule cov)
    qed (use less.prems in simp_all)
    then have rest: "read_data k ab (n - c) ?s = Inr (slice (pos + c) (n - c) (sector_bytes (disk s) bs),
        s\<lparr>file_table := (file_table s)[k := ?f\<lparr>fd_pos := fd_pos ?f + of_nat n\<rparr>]\<rparr>)"
      unfolding tab upos using c(2) by (simp add: of_nat_diff)
    have "slice pos c (sector_bytes (disk s) bs) = slice r c (disk s (ab ! q))"
      unfolding pos(1) ab(1) using less.prems(1,4) q140 c(3) by (intro slice_sector_bytes) simp_all
    then have sl: "slice pos n (sector_bytes (disk s) bs) = slice r c (disk s (ab ! q)) @ slice (pos + c) (n - c) (sector_bytes (disk s) bs)"
      using slice_plus [of pos c "n - c" "sector_bytes (disk s) bs"] c(2) by simp
    have "read_data k ab n s = bnd (read_data k ab (n - c)) (\<lambda>rest. ret (slice r c (disk s (ab ! q)) @ rest)) ?s"
      using False less.prems(2,3) q140 ab(2) c(3) len
      by (subst read_data.simps) (simp add: bnd_get_file u Let_def bnd_sec_read buf_read_def upd_file_bnd flip: c_def)
    then show ?thesis unfolding pos_def [symmetric] sl using rest by (simp add: bnd_def)
  qed
qed

lemma copy_direct_nth:
  "length (copy_direct n i k ab) = length ab \<and>
   (k + n \<le> length ab \<longrightarrow> (\<forall>q. copy_direct n i k ab ! q = (if k \<le> q \<and> q < k + n then i_sectors i ! q else ab ! q)))"
proof (induction n i k ab rule: copy_direct.induct)
  case (2 n i k ab)
  then show ?case by (auto simp: nth_list_update)
qed auto

text \<open>An open regular file: its inode in memory, its sectors on the disk, short enough to be read.\<close>

definition open_file :: "fs \<Rightarrow> nat \<Rightarrow> inode \<Rightarrow> bool" where
  "open_file s k i \<longleftrightarrow> disk_wf (disk s) \<and> k < length (file_table s) \<and>
     inodes s (fd_inode (file_table s ! k)) = Some i \<and> inode_wf i \<and> unat (i_size i) < 139 * 512 \<and>
     (12 \<le> unat (i_size i) div 512 \<longrightarrow> i_sectors i ! 12 \<noteq> 0) \<and>
     list_all (\<lambda>lba. lba \<le> max_lba) (i_sectors i @ file_blocks (disk s) i)"

lemma open_fileD:
  assumes "open_file s k i"
  shows "disk_wf (disk s)" "k < length (file_table s)" "inodes s (fd_inode (file_table s ! k)) = Some i" "inode_wf i"
    "unat (i_size i) < 71168" "12 \<le> unat (i_size i) div 512 \<Longrightarrow> i_sectors i ! 12 \<noteq> 0"
    "length (i_sectors i) = 13" "i_sectors i ! 12 \<le> max_lba"
    "\<And>q. q < 140 \<Longrightarrow> file_blocks (disk s) i ! q \<le> max_lba"
proof -
  show *: "disk_wf (disk s)" "k < length (file_table s)" "inodes s (fd_inode (file_table s ! k)) = Some i" "inode_wf i"
    "unat (i_size i) < 71168" "12 \<le> unat (i_size i) div 512 \<Longrightarrow> i_sectors i ! 12 \<noteq> 0"
    using assms by (simp_all add: open_file_def)
  then show "length (i_sectors i) = 13" by (simp add: inode_wf_def)
  moreover have "list_all (\<lambda>lba. lba \<le> max_lba) (i_sectors i)" "list_all (\<lambda>lba. lba \<le> max_lba) (file_blocks (disk s) i)"
    using assms by (simp_all add: open_file_def)
  ultimately show "i_sectors i ! 12 \<le> max_lba" "q < 140 \<Longrightarrow> file_blocks (disk s) i ! q \<le> max_lba" for q
    using length_file_blocks [OF *(4)] by (simp_all add: list_all_length)
qed

lemma file_blocks_nth:
  "inode_wf i \<Longrightarrow> q < 12 \<Longrightarrow> file_blocks d i ! q = i_sectors i ! q"
  "inode_wf i \<Longrightarrow> i_sectors i ! 12 \<noteq> 0 \<Longrightarrow> 12 \<le> q \<Longrightarrow> q < 140 \<Longrightarrow>
     file_blocks d i ! q = bytes_words 128 (d (i_sectors i ! 12)) ! (q - 12)"
  by (auto simp: file_blocks_def inode_wf_def nth_append)

lemma read_blocks_run:
  assumes wf: "inode_wf i" and range: "a \<le> e" "e < 139" and ind: "12 \<le> e \<Longrightarrow> i_sectors i ! 12 \<noteq> 0"
    and lba: "i_sectors i ! 12 \<le> max_lba"
  shows "\<exists>ab. read_blocks i a e s = Inr (ab, s) \<and> length ab = 140 \<and>
    (\<forall>q. a \<le> q \<and> q \<le> e \<longrightarrow> ab ! q = file_blocks (disk s) i ! q)"
proof -
  let ?t = "bytes_words 128 (disk s (i_sectors i ! 12))"
  have nb: "length no_blocks = 140" by (simp add: no_blocks_def)
  consider "e < 12" "a = e" | "e < 12" "a \<noteq> e" | "12 \<le> e" "a < 12" | "12 \<le> e" "12 \<le> a" by linarith
  then show ?thesis
  proof cases
    case 1
    have "\<forall>q. a \<le> q \<and> q \<le> e \<longrightarrow> no_blocks[e := i_sectors i ! e] ! q = file_blocks (disk s) i ! q"
      using 1 nb file_blocks_nth(1) [OF wf] by (auto dest: le_antisym)
    with 1 show ?thesis using nb by (simp add: read_blocks_def)
  next
    case 2
    let ?ab = "copy_direct (Suc e - a) i a no_blocks"
    have "length ?ab = 140" "\<forall>q. a \<le> q \<and> q \<le> e \<longrightarrow> ?ab ! q = i_sectors i ! q"
      using copy_direct_nth [of "Suc e - a" i a no_blocks] range nb by auto
    with 2 show ?thesis using file_blocks_nth(1) [OF wf] by (simp add: read_blocks_def)
  next
    case 3
    let ?c = "copy_direct (12 - a) i a no_blocks"
    have c: "length ?c = 140" "\<forall>q. a \<le> q \<and> q < 12 \<longrightarrow> ?c ! q = i_sectors i ! q"
      using copy_direct_nth [of "12 - a" i a no_blocks] 3 nb by auto
    have "(take 12 ?c @ ?t) ! q = file_blocks (disk s) i ! q" if "a \<le> q" "q \<le> e" for q
      using that c range file_blocks_nth [OF wf] ind 3 by (cases "q < 12") (auto simp: nth_append)
    with 3 show ?thesis using c ind lba by (intro exI [of _ "take 12 ?c @ ?t"]) (simp add: read_blocks_def bnd_sec_read)
  next
    case 4
    have "(take 12 no_blocks @ ?t) ! q = file_blocks (disk s) i ! q" if "a \<le> q" "q \<le> e" for q
      using that nb range file_blocks_nth(2) [OF wf] ind 4 by (auto simp: nth_append)
    with 4 show ?thesis using nb ind lba by (intro exI [of _ "take 12 no_blocks @ ?t"]) (simp add: read_blocks_def bnd_sec_read)
  qed
qed

text \<open>C16: Reading a file gives its bytes from the position of the descriptor on, as many as were asked
  for or as are left, and moves the position behind them; at the end of the file it gives -1. This
  covers reads inside a sector, across sectors, and across the boundary of the index block.\<close>

theorem file_read_correct:
  assumes f: "open_file s k i" and pos: "unat (fd_pos (file_table s ! k)) \<le> unat (i_size i)"
    and cnt: "unat (fd_pos (file_table s ! k)) + unat count < 2 ^ 32"
    and m: "malloc_ok s (mallocs s)" "malloc_ok s (Suc (mallocs s))"
  defines "p \<equiv> unat (fd_pos (file_table s ! k))"
  defines "n \<equiv> min (unat count) (unat (i_size i) - p)"
  shows "file_read k count s =
    (if p = unat (i_size i) \<and> count \<noteq> 0 then Inr ((- 1, []), s)
     else Inr ((of_nat n, slice p n (file_contents (disk s) i)),
       s\<lparr>mallocs := Suc (Suc (mallocs s)),
         file_table := (file_table s)[k := (file_table s ! k)\<lparr>fd_pos := fd_pos (file_table s ! k) + of_nat n\<rparr>]\<rparr>))"
proof -
  let ?f = "file_table s ! k" and ?size = "unat (i_size i)"
  note D = open_fileD [OF f]
  have over: "fd_pos ?f + count > i_size i \<longleftrightarrow> p + unat count > ?size"
    using cnt by (simp add: word_less_nat_alt unat_add_u32 p_def)
  have rest: "i_size i - fd_pos ?f = of_nat (?size - p)"
    by (rule u32_eqI) (use pos D(5) in \<open>simp add: unat_sub_u32 p_def unat_of_nat_u32\<close>)
  have size: "(if fd_pos ?f + count > i_size i then i_size i - fd_pos ?f else count) = of_nat n"
    unfolding over rest n_def using pos by (auto simp: min_def p_def)
  have un: "unat (of_nat n :: u32) = n" using D(5) by (intro unat_of_nat_u32) (simp add: n_def)
  show ?thesis
  proof (cases "p = ?size \<and> count \<noteq> 0")
    case True
    then have "n = 0" "unat count > 0" by (simp_all add: n_def unat_gt_0)
    then show ?thesis using True size over
      unfolding file_read_def bnd_get_file [OF D(2)] bnd_get_inode [OF D(3)] Let_def by simp
  next
    case False
    have zero: "\<not> (fd_pos ?f + count > i_size i \<and> (of_nat n :: u32) = 0)"
      using False un over pos unfolding n_def p_def [symmetric] by (auto simp: unat_eq_0 min_def split: if_splits)
    let ?a = "p div 512" and ?e = "(p + n) div 512"
    have fits: "p + n \<le> ?size" using pos by (simp add: n_def p_def)
    then have e: "?e < 139" "?a \<le> ?e" "12 \<le> ?e \<Longrightarrow> 12 \<le> ?size div 512"
      using D(5) div_le_mono [of "p + n" ?size 512] by (simp_all add: div_le_mono)
    have ua: "unat (fd_pos ?f div 512) = ?a" "unat ((fd_pos ?f + of_nat n) div 512) = ?e"
      using fits D(5) un by (simp_all add: unat_div p_def unat_add_u32)
    have small: "fd_pos ?f div 512 < 139 \<and> (fd_pos ?f + of_nat n) div 512 < 139"
      using e(1,2) by (simp add: word_less_nat_alt ua)
    let ?s = "s\<lparr>mallocs := Suc (Suc (mallocs s))\<rparr>"
    obtain ab where ab: "read_blocks i ?a ?e ?s = Inr (ab, ?s)" "length ab = 140"
        "\<And>q. ?a \<le> q \<Longrightarrow> q \<le> ?e \<Longrightarrow> ab ! q = file_blocks (disk s) i ! q"
      using read_blocks_run [OF D(4) e(2,1) _ D(8), of ?s] e(3) D(6) by auto
    have cov: "covers ab (file_blocks (disk s) i) (unat (fd_pos (file_table ?s ! k))) n"
      unfolding covers_def p_def [symmetric]
    proof (intro allI impI)
      fix q assume "unat (fd_pos (file_table ?s ! k)) div 512 \<le> q \<and> 512 * q < unat (fd_pos (file_table ?s ! k)) + n"
      then have "?a \<le> q \<and> 512 * q < p + n" by (simp add: p_def)
      moreover from this have "q \<le> ?e" by (simp add: less_eq_div_iff_mult_less_eq mult.commute)
      ultimately have "ab ! q = file_blocks (disk s) i ! q" "q < 140" using ab(3) e(1) by simp_all
      then show "ab ! q = file_blocks (disk s) i ! q \<and> ab ! q \<le> max_lba" using D(9) by simp
    qed
    have data: "read_data k ab n ?s = Inr (slice p n (sector_bytes (disk s) (file_blocks (disk s) i)),
        ?s\<lparr>file_table := (file_table s)[k := ?f\<lparr>fd_pos := fd_pos ?f + of_nat n\<rparr>]\<rparr>)"
      using read_data_run [OF _ _ ab(2) length_file_blocks [OF D(4)] _ cov] D(1,2,5) fits
      by (simp add: p_def)
    have "slice p n (sector_bytes (disk s) (file_blocks (disk s) i)) = slice p n (file_contents (disk s) i)"
      using fits by (simp add: file_contents_def slice_def drop_take min_def)
    then have run: "bnd (read_blocks i ?a ?e) (\<lambda>ab. bnd (read_data k ab n) (\<lambda>bytes. ret (of_nat n :: u32, bytes))) ?s =
        Inr ((of_nat n, slice p n (file_contents (disk s) i)),
          ?s\<lparr>file_table := (file_table s)[k := ?f\<lparr>fd_pos := fd_pos ?f + of_nat n\<rparr>]\<rparr>)"
      using ab(1) data by (simp add: bnd_def)
    show ?thesis
      unfolding file_read_def bnd_get_file [OF D(2)] bnd_get_inode [OF D(3)] Let_def size un
        if_not_P [OF zero] if_not_P [OF False] ua
      using m small run by simp
  qed
qed

section \<open>Appending\<close>

lemma take_sector_bytes_upd:
  assumes "disk_wf d" and "q < length B" and "\<And>q'. q' < q \<Longrightarrow> B ! q' \<noteq> B ! q" and "n \<le> 512" and "length buf = 512"
  shows "take (512 * q + n) (sector_bytes (d(B ! q := buf)) B) = take (512 * q) (sector_bytes d B) @ take n buf"
proof -
  have app: "sector_bytes d (xs @ x # ys) = sector_bytes d xs @ d x @ sector_bytes d ys" for d xs x ys
    by (simp add: sector_bytes_def)
  note B = id_take_nth_drop [OF assms(2)]
  have wf': "disk_wf (d(B ! q := buf))" using assms(1,5) by (simp add: disk_wf_def)
  have same: "sector_bytes (d(B ! q := buf)) (take q B) = sector_bytes d (take q B)"
  proof -
    have "B ! q \<notin> set (take q B)" using assms(2,3) by (auto simp: in_set_conv_nth)
    then show ?thesis by (simp add: sector_bytes_def)
  qed
  have len: "length (sector_bytes d (take q B)) = 512 * q" using assms(1,2) by (simp add: length_sector_bytes)
  have "sector_bytes (d(B ! q := buf)) B = sector_bytes d (take q B) @ buf @ sector_bytes (d(B ! q := buf)) (drop (Suc q) B)"
    using app [of "d(B ! q := buf)" "take q B" "B ! q" "drop (Suc q) B"] B same by simp
  moreover have "take (512 * q) (sector_bytes d B) = sector_bytes d (take q B)"
    using app [of d "take q B" "B ! q" "drop (Suc q) B"] B len by simp
  ultimately show ?thesis using len assms(4,5) by simp
qed

text \<open>Sector \<open>q\<close> of the file, patched from \<open>r\<close> on, extends the contents.\<close>

lemma append_in_sector:
  assumes wf: "disk_wf d" and q: "q < length B" "\<And>q'. q' < q \<Longrightarrow> B ! q' \<noteq> B ! q"
    and r: "r + length xs \<le> 512" and old: "length old = 512" "take r old = take r (d (B ! q))"
  shows "take (512 * q + r + length xs) (sector_bytes (d(B ! q := splice r xs old)) B) =
    take (512 * q + r) (sector_bytes d B) @ xs"
proof -
  let ?buf = "splice r xs old"
  have len: "length ?buf = 512" using r old(1) by simp
  have "take (r + length xs) ?buf = take r (d (B ! q)) @ xs"
    using r old wf by (simp add: splice_def disk_wf_def)
  then have "take (512 * q + (r + length xs)) (sector_bytes (d(B ! q := ?buf)) B) =
      take (512 * q) (sector_bytes d B) @ take r (d (B ! q)) @ xs"
    using take_sector_bytes_upd [OF wf q, of "r + length xs" ?buf] r len by simp
  moreover have "length (d (B ! q)) = 512" using wf by (simp add: disk_wf_def)
  then have "take (512 * q + r) (sector_bytes d B) = take (512 * q) (sector_bytes d B) @ take r (d (B ! q))"
    using take_sector_bytes_upd [OF wf q, of r "d (B ! q)"] r by simp
  ultimately show ?thesis by (simp add: add.assoc)
qed

lemma write_loop_run:
  assumes "disk_wf (disk s)" and "k < length (file_table s)" and "inodes s ip = Some i" and "length B = 140"
    and "length ab = 140" and "unat (i_size i) + length src \<le> 71680"
    and "\<And>q. unat (i_size i) div 512 \<le> q \<Longrightarrow> 512 * q < unat (i_size i) + length src \<Longrightarrow>
      ab ! q = B ! q \<and> ab ! q \<le> max_lba \<and> (\<forall>q' < q. B ! q' \<noteq> B ! q)"
    and "first \<or> unat (i_size i) mod 512 = 0"
  shows "\<exists>d'. write_loop k ip ab src first s = Inr ((),
        s\<lparr>disk := d', inodes := (inodes s)(ip \<mapsto> i\<lparr>i_size := i_size i + of_nat (length src)\<rparr>),
          file_table := (file_table s)[k := (file_table s ! k)\<lparr>fd_pos := fd_pos (file_table s ! k) + of_nat (length src)\<rparr>]\<rparr>) \<and>
      disk_wf d' \<and>
      (\<forall>lba. (\<forall>q. unat (i_size i) div 512 \<le> q \<and> 512 * q < unat (i_size i) + length src \<longrightarrow> lba \<noteq> ab ! q) \<longrightarrow> d' lba = disk s lba) \<and>
      take (unat (i_size i) + length src) (sector_bytes d' B) = take (unat (i_size i)) (sector_bytes (disk s) B) @ src"
  using assms
proof (induction "length src" arbitrary: s i src first rule: less_induct)
  case less
  let ?f = "file_table s ! k"
  define sz where "sz = unat (i_size i)"
  show ?case
  proof (cases "src = []")
    case True
    have "s = s\<lparr>disk := disk s, inodes := (inodes s)(ip \<mapsto> i\<lparr>i_size := i_size i\<rparr>),
        file_table := (file_table s)[k := ?f\<lparr>fd_pos := fd_pos ?f\<rparr>]\<rparr>"
      using less.prems(3) by (simp add: fun_upd_idem)
    then show ?thesis using True less.prems(1) by (intro exI [of _ "disk s"]) (simp add: write_loop.simps)
  next
    case False
    define q where "q = sz div 512"
    define r where "r = sz mod 512"
    define c where "c = min (length src) (512 - r)"
    have sz: "sz = 512 * q + r" "r < 512" by (simp_all add: q_def r_def)
    have c: "0 < c" "c \<le> length src" "r + c \<le> 512" using False sz(2) by (auto simp: c_def)
    have fits: "sz + length src \<le> 71680" using less.prems(6) by (simp add: sz_def)
    have n0: "0 < length src" using False by simp
    have q140: "q < 140" using fits n0 sz(1) by linarith
    have u: "unat (i_size i div 512) = q" "unat (i_size i mod 512) = r"
      by (simp_all add: q_def r_def sz_def unat_div unat_mod)
    have "512 * q < sz + length src" using sz(1) n0 by linarith
    then have "ab ! q = B ! q \<and> ab ! q \<le> max_lba \<and> (\<forall>q' < q. B ! q' \<noteq> B ! q)"
      by (intro less.prems(7)) (simp_all only: q_def sz_def order_refl)
    then have ab: "ab ! q = B ! q" "ab ! q \<le> max_lba" "\<And>q'. q' < q \<Longrightarrow> B ! q' \<noteq> B ! q"
      by blast+
    define old where "old = (if first then disk s (ab ! q) else replicate 512 0)"
    have old: "length old = 512" "take r old = take r (disk s (B ! q))"
      using less.prems(1,8) ab(1) by (auto simp: old_def disk_wf_def r_def sz_def)
    let ?xs = "take c src"
    let ?buf = "splice r ?xs old"
    have xs: "length ?xs = c" "length ?buf = 512" using c old(1) by simp_all
    let ?d = "(disk s)(B ! q := ?buf)" and ?i = "i\<lparr>i_size := i_size i + of_nat c\<rparr>"
      and ?g = "?f\<lparr>fd_pos := fd_pos ?f + of_nat c\<rparr>"
    let ?s = "s\<lparr>disk := ?d, inodes := (inodes s)(ip \<mapsto> ?i), file_table := (file_table s)[k := ?g]\<rparr>"
    have wf: "disk_wf ?d" using less.prems(1) xs(2) by (simp add: disk_wf_def)
    have usz: "unat (i_size ?i) = sz + c" using fits c(2) by (simp add: sz_def unat_add_u32 unat_of_nat_u32)
    have step: "write_loop k ip ab src first s = write_loop k ip ab (drop c src) False ?s"
    proof -
      have "(1 :: u32) \<le> max_lba" "length (disk s (B ! q)) = 512"
        using less.prems(1) by (simp_all add: max_lba_val disk_wf_def)
      then show ?thesis
        using False less.prems(2,3,5) q140 ab(1,2) c xs old
        by (subst write_loop.simps, cases first)
           (simp_all add: bnd_get_inode u Let_def bnd_sec_read buf_write_def bnd_Inr [OF sec_write_run] bnd_upd_inode upd_file_bnd
             old_def flip: c_def)
    qed
    have ext: "take (sz + c) (sector_bytes ?d B) = take sz (sector_bytes (disk s) B) @ ?xs"
      using append_in_sector [OF less.prems(1) _ ab(3), of r ?xs old] q140 less.prems(4) xs(1) c(3) old sz(1) by simp
    have nq: "lba \<noteq> B ! q" if "\<forall>q. sz div 512 \<le> q \<and> 512 * q < sz + length src \<longrightarrow> lba \<noteq> ab ! q" for lba
      using that [rule_format, of q] ab(1) \<open>512 * q < sz + length src\<close> by (simp add: q_def)
    let ?dr = "drop c src"
    have range: "unat (i_size i) div 512 \<le> p \<and> 512 * p < unat (i_size i) + length src"
      if "unat (i_size ?i) div 512 \<le> p" "512 * p < unat (i_size ?i) + length ?dr" for p
    proof -
      have "sz div 512 \<le> (sz + c) div 512" by (rule div_le_mono) simp
      with that c(2) show ?thesis unfolding usz sz_def [symmetric] by simp
    qed
    have "r + c = 512 \<or> ?dr = []" using c by (auto simp: c_def)
    then have al: "?dr \<noteq> [] \<Longrightarrow> (sz + c) mod 512 = 0" using sz(1) by (auto simp: add.assoc)
    show ?thesis
    proof (cases "?dr = []")
      case True
      then have cs: "c = length src" "?xs = src" using c(2) by simp_all
      have "write_loop k ip ab ?dr False ?s = Inr ((), ?s)" using True by (subst write_loop.simps) simp
      with step have "write_loop k ip ab src first s = Inr ((), ?s)" by simp
      moreover have "take (sz + length src) (sector_bytes ?d B) = take sz (sector_bytes (disk s) B) @ src"
        using ext cs by simp
      ultimately show ?thesis using wf nq unfolding sz_def [symmetric]
        by (intro exI [of _ ?d]) (auto simp: cs)
    next
      case dr: False
      have "\<exists>d'. write_loop k ip ab ?dr False ?s = Inr ((),
          ?s\<lparr>disk := d', inodes := (inodes ?s)(ip \<mapsto> ?i\<lparr>i_size := i_size ?i + of_nat (length ?dr)\<rparr>),
            file_table := (file_table ?s)[k := (file_table ?s ! k)\<lparr>fd_pos := fd_pos (file_table ?s ! k) + of_nat (length ?dr)\<rparr>]\<rparr>) \<and>
        disk_wf d' \<and>
        (\<forall>lba. (\<forall>q. unat (i_size ?i) div 512 \<le> q \<and> 512 * q < unat (i_size ?i) + length ?dr \<longrightarrow> lba \<noteq> ab ! q) \<longrightarrow> d' lba = disk ?s lba) \<and>
        take (unat (i_size ?i) + length ?dr) (sector_bytes d' B) = take (unat (i_size ?i)) (sector_bytes (disk ?s) B) @ ?dr"
      proof (rule less.hyps)
        show "length ?dr < length src" using c(1) False by simp
        show "unat (i_size ?i) + length ?dr \<le> 71680" unfolding usz using fits c(2) by simp
        show "ab ! p = B ! p \<and> ab ! p \<le> max_lba \<and> (\<forall>q' < p. B ! q' \<noteq> B ! p)"
          if "unat (i_size ?i) div 512 \<le> p" "512 * p < unat (i_size ?i) + length ?dr" for p
          using range [OF that] less.prems(7) by blast
        show "False \<or> unat (i_size ?i) mod 512 = 0" unfolding usz using al [OF dr] by simp
      qed (use less.prems wf in simp_all)
      then obtain d' where d': "write_loop k ip ab ?dr False ?s = Inr ((),
          ?s\<lparr>disk := d', inodes := (inodes ?s)(ip \<mapsto> ?i\<lparr>i_size := i_size ?i + of_nat (length ?dr)\<rparr>),
            file_table := (file_table ?s)[k := (file_table ?s ! k)\<lparr>fd_pos := fd_pos (file_table ?s ! k) + of_nat (length ?dr)\<rparr>]\<rparr>)"
        "disk_wf d'"
        "\<And>lba. (\<And>q. unat (i_size ?i) div 512 \<le> q \<Longrightarrow> 512 * q < unat (i_size ?i) + length ?dr \<Longrightarrow> lba \<noteq> ab ! q) \<Longrightarrow> d' lba = disk ?s lba"
        "take (unat (i_size ?i) + length ?dr) (sector_bytes d' B) = take (unat (i_size ?i)) (sector_bytes (disk ?s) B) @ ?dr"
        by metis
      have len: "of_nat c + of_nat (length src - c) = (of_nat (length src) :: u32)"
        using c(2) by (simp flip: of_nat_add)
      have "write_loop k ip ab src first s = Inr ((),
          s\<lparr>disk := d', inodes := (inodes s)(ip \<mapsto> i\<lparr>i_size := i_size i + of_nat (length src)\<rparr>),
            file_table := (file_table s)[k := ?f\<lparr>fd_pos := fd_pos ?f + of_nat (length src)\<rparr>]\<rparr>)"
        unfolding step d'(1) using less.prems(2) len by (simp add: add.assoc)
      moreover have "d' lba = disk s lba"
        if "\<forall>q. unat (i_size i) div 512 \<le> q \<and> 512 * q < unat (i_size i) + length src \<longrightarrow> lba \<noteq> ab ! q" for lba
      proof -
        have "lba \<noteq> B ! q" using that nq by (simp add: sz_def)
        moreover have "d' lba = disk ?s lba" by (rule d'(3)) (use that range in blast)
        ultimately show ?thesis by simp
      qed
      moreover have "take (sz + length src) (sector_bytes d' B) = take sz (sector_bytes (disk s) B) @ src"
        using d'(4) c(2) ext unfolding usz by simp
      ultimately show ?thesis using d'(2) unfolding sz_def by blast
    qed
  qed
qed

text \<open>The sectors of a file lie in the data region, each once.\<close>

definition data_region :: "fs \<Rightarrow> u32 \<Rightarrow> bool" where
  "data_region s lba \<longleftrightarrow> data_start_lba (sb (cur_part s)) \<le> lba"

definition blocks_in_use :: "fs \<Rightarrow> inode \<Rightarrow> u32 list" where
  "blocks_in_use s i = take (Suc (unat (i_size i) div 512)) (file_blocks (disk s) i)"

definition append_ok :: "fs \<Rightarrow> inode \<Rightarrow> bool" where
  "append_ok s i \<longleftrightarrow> fs_ok s \<and> list_all (data_region s) (blocks_in_use s i) \<and> distinct (blocks_in_use s i) \<and>
     (i_sectors i ! 12 \<noteq> 0 \<longrightarrow> data_region s (i_sectors i ! 12) \<and> i_sectors i ! 12 \<notin> set (blocks_in_use s i))"

lemma data_region_table:
  assumes "fs_ok s" and "data_region s lba"
  shows "608 \<le> unat (lba - inode_table_lba (sb (cur_part s)))" and "lba \<noteq> 0"
proof -
  have "unat (inode_table_lba (sb (cur_part s))) + 608 \<le> unat lba"
    using layout_chain(4) [OF fs_okD(2) [OF assms(1)]] assms(2) by (simp add: data_region_def word_le_nat_alt)
  moreover from this have "unat (lba - inode_table_lba (sb (cur_part s))) = unat lba - unat (inode_table_lba (sb (cur_part s)))"
    by (simp add: unat_sub_u32)
  ultimately show "608 \<le> unat (lba - inode_table_lba (sb (cur_part s)))" by simp
  show "lba \<noteq> 0" using \<open>unat (inode_table_lba (sb (cur_part s))) + 608 \<le> unat lba\<close> by auto
qed

lemma take_sector_bytes:
  assumes "disk_wf d" and "n \<le> 512 * q"
  shows "take n (sector_bytes d B) = take n (sector_bytes d (take q B))"
proof -
  have "sector_bytes d B = sector_bytes d (take q B) @ sector_bytes d (drop q B)"
    by (simp add: sector_bytes_def flip: concat_append map_append)
  moreover have "length (sector_bytes d (take q B)) = 512 * min (length B) q"
    using assms(1) by (simp add: length_sector_bytes)
  ultimately show ?thesis using assms(2) by (cases "q \<le> length B") (simp_all add: sector_bytes_def)
qed

lemma write_blocks_same:
  assumes wf: "inode_wf i" and m: "m < 139" "m \<ge> 12 \<Longrightarrow> i_sectors i ! 12 \<noteq> 0" and lba: "i_sectors i ! 12 \<le> max_lba"
    and ip: "inodes s ip = Some i"
  shows "\<exists>ab. write_blocks ip (Suc m) (Suc m) s = Inr (Some ab, s) \<and> length ab = 140 \<and> ab ! m = file_blocks (disk s) i ! m"
proof (cases "m < 12")
  case True
  then show ?thesis using ip file_blocks_nth(1) [OF wf]
    by (simp add: write_blocks_def bnd_get_inode no_blocks_def)
next
  case False
  let ?ab = "take 12 no_blocks @ bytes_words 128 (disk s (i_sectors i ! 12))"
  have "length ?ab = 140" "?ab ! m = file_blocks (disk s) i ! m"
    using False m file_blocks_nth(2) [OF wf] by (simp_all add: no_blocks_def nth_append)
  then show ?thesis using False m ip lba
    by (intro exI [of _ ?ab]) (simp add: write_blocks_def bnd_get_inode bnd_sec_read)
qed

lemma blocks_in_use_nth:
  assumes "append_ok s i" and "inode_wf i" and "q \<le> unat (i_size i) div 512" and "unat (i_size i) div 512 < 140"
  shows "data_region s (file_blocks (disk s) i ! q)"
    and "q' < q \<Longrightarrow> file_blocks (disk s) i ! q' \<noteq> file_blocks (disk s) i ! q"
    and "i_sectors i ! 12 \<noteq> 0 \<Longrightarrow> i_sectors i ! 12 \<noteq> file_blocks (disk s) i ! q"
proof -
  let ?u = "blocks_in_use s i"
  have len: "length ?u = Suc (unat (i_size i) div 512)" "\<And>p. p \<le> q \<Longrightarrow> ?u ! p = file_blocks (disk s) i ! p"
    using assms(3,4) length_file_blocks [OF assms(2)] by (simp_all add: blocks_in_use_def)
  then have q: "q < length ?u" using assms(3) by simp
  have *: "list_all (data_region s) ?u" "distinct ?u" "i_sectors i ! 12 \<noteq> 0 \<Longrightarrow> i_sectors i ! 12 \<notin> set ?u"
    using assms(1) by (simp_all add: append_ok_def)
  show "data_region s (file_blocks (disk s) i ! q)" using *(1) q len(2) [of q] by (auto simp: list_all_length)
  show "file_blocks (disk s) i ! q' \<noteq> file_blocks (disk s) i ! q" if "q' < q"
    using nth_eq_iff_index_eq [OF *(2), of q' q] that q len(2) by simp
  show "i_sectors i ! 12 \<noteq> file_blocks (disk s) i ! q" if "i_sectors i ! 12 \<noteq> 0"
    using *(3) [OF that] nth_mem [OF q] len(2) by auto
qed

text \<open>The call up to the last step, which writes the inode.\<close>

lemma file_write_same:
  assumes f: "open_file s k i" and a: "append_ok s i"
    and same: "(unat (i_size i) + length bs) div 512 = unat (i_size i) div 512"
    and m: "malloc_ok s (mallocs s)" "malloc_ok s (Suc (mallocs s))" "malloc_ok s (Suc (Suc (mallocs s)))"
  defines "ip \<equiv> fd_inode (file_table s ! k)"
  defines "i' \<equiv> i\<lparr>i_size := i_size i + of_nat (length bs)\<rparr>"
  shows "\<exists>d' s'. file_write k bs (of_nat (length bs)) s =
      bnd (inode_sync i') (\<lambda>_. ret (of_nat (length bs))) s' \<and> disk s' = d' \<and> disk_wf d' \<and>
      inodes s' = (inodes s)(ip \<mapsto> i') \<and> cur_part s' = cur_part s \<and>
      (\<forall>lba. lba \<noteq> file_blocks (disk s) i ! (unat (i_size i) div 512) \<longrightarrow> d' lba = disk s lba) \<and>
      take (unat (i_size i) + length bs) (sector_bytes d' (file_blocks (disk s) i)) = file_contents (disk s) i @ bs"
proof -
  let ?sz = "unat (i_size i)" and ?n = "length bs" and ?B = "file_blocks (disk s) i"
  let ?m = "?sz div 512"
  note D = open_fileD [OF f]
  have mm: "?m < 139" using D(5) by simp
  have upto: "?sz + ?n < 512 * Suc ?m" using same dividend_less_div_times [of 512 "?sz + ?n"] by simp
  have total: "?sz + ?n \<le> 71168" using upto mm by simp
  have un: "unat (i_size i + of_nat ?n) = ?sz + ?n" "unat (of_nat ?n :: u32) = ?n"
    using total by (simp_all add: unat_add_u32 unat_of_nat_u32)
  have c1: "\<not> i_size i + of_nat ?n > (12 + 512 div 4) * 512" using total un by (simp add: word_less_nat_alt)
  have used: "i_size i div 512 + 1 = (of_nat (Suc ?m) :: u32)" "(i_size i + of_nat ?n) div 512 + 1 = (of_nat (Suc ?m) :: u32)"
  proof -
    have "unat (i_size i div 512) = ?m" "unat ((i_size i + of_nat ?n) div 512) = ?m"
      using same by (simp_all add: unat_div un(1))
    then have "i_size i div 512 = of_nat ?m" "(i_size i + of_nat ?n) div 512 = of_nat ?m"
      using mm by (auto intro!: u32_eqI simp: unat_of_nat_u32)
    then show "i_size i div 512 + 1 = (of_nat (Suc ?m) :: u32)" "(i_size i + of_nat ?n) div 512 + 1 = (of_nat (Suc ?m) :: u32)"
      by simp_all
  qed
  have uS: "unat (of_nat (Suc ?m) :: u32) = Suc ?m" using mm by (intro unat_of_nat_u32) simp
  then have c2: "(of_nat (Suc ?m) :: u32) \<le> 140" using mm by (simp only: word_le_nat_alt) simp
  have m140: "?m < 140" using mm by simp
  have first: "i_sectors i ! 0 \<noteq> 0"
    using blocks_in_use_nth(1) [OF a D(4), of 0] m140 data_region_table(2) [of s] a file_blocks_nth(1) [OF D(4), of 0]
    by (auto simp: append_ok_def)
  let ?s1 = "s\<lparr>mallocs := Suc (mallocs s)\<rparr>"
  have ip: "inodes s ip = Some i" using D(3) by (simp add: ip_def)
  then have "inodes ?s1 ip = Some i" by simp
  from write_blocks_same [OF D(4) mm D(6) D(8) this] obtain ab where
    ab: "write_blocks ip (Suc ?m) (Suc ?m) ?s1 = Inr (Some ab, ?s1)" "length ab = 140" "ab ! ?m = ?B ! ?m" by auto
  let ?f0 = "(file_table s ! k)\<lparr>fd_pos := i_size i - 1\<rparr>"
  let ?s2 = "s\<lparr>mallocs := Suc (Suc (mallocs s)), file_table := (file_table s)[k := ?f0]\<rparr>"
  have only: "q = ?m" if "?sz div 512 \<le> q" "512 * q < ?sz + ?n" for q
    using that upto by simp
  have "\<exists>d'. write_loop k ip ab bs True ?s2 = Inr ((),
        ?s2\<lparr>disk := d', inodes := (inodes ?s2)(ip \<mapsto> i\<lparr>i_size := i_size i + of_nat ?n\<rparr>),
          file_table := (file_table ?s2)[k := (file_table ?s2 ! k)\<lparr>fd_pos := fd_pos (file_table ?s2 ! k) + of_nat ?n\<rparr>]\<rparr>) \<and>
      disk_wf d' \<and>
      (\<forall>lba. (\<forall>q. ?sz div 512 \<le> q \<and> 512 * q < ?sz + ?n \<longrightarrow> lba \<noteq> ab ! q) \<longrightarrow> d' lba = disk ?s2 lba) \<and>
      take (?sz + ?n) (sector_bytes d' ?B) = take ?sz (sector_bytes (disk ?s2) ?B) @ bs"
  proof (rule write_loop_run)
    show "ab ! q = ?B ! q \<and> ab ! q \<le> max_lba \<and> (\<forall>q' < q. ?B ! q' \<noteq> ?B ! q)" if "?sz div 512 \<le> q" "512 * q < ?sz + ?n" for q
      using only [OF that] ab(3) D(9) [OF m140] blocks_in_use_nth(2) [OF a D(4) le_refl m140] by simp
    show "inodes ?s2 ip = Some i" using D(3) by (simp add: ip_def)
  qed (use D(1,2,4) ab(2) total length_file_blocks in simp_all)
  then obtain d' where d': "write_loop k ip ab bs True ?s2 = Inr ((),
        ?s2\<lparr>disk := d', inodes := (inodes s)(ip \<mapsto> i'),
          file_table := (file_table ?s2)[k := (file_table ?s2 ! k)\<lparr>fd_pos := fd_pos (file_table ?s2 ! k) + of_nat ?n\<rparr>]\<rparr>)"
      "disk_wf d'" "\<And>lba. (\<And>q. ?sz div 512 \<le> q \<Longrightarrow> 512 * q < ?sz + ?n \<Longrightarrow> lba \<noteq> ab ! q) \<Longrightarrow> d' lba = disk s lba"
      "take (?sz + ?n) (sector_bytes d' ?B) = take ?sz (sector_bytes (disk s) ?B) @ bs"
    unfolding i'_def by auto
  let ?s3 = "?s2\<lparr>disk := d', inodes := (inodes s)(ip \<mapsto> i'),
      file_table := (file_table ?s2)[k := (file_table ?s2 ! k)\<lparr>fd_pos := fd_pos (file_table ?s2 ! k) + of_nat ?n\<rparr>],
      mallocs := Suc (Suc (Suc (mallocs s)))\<rparr>"
  have "file_write k bs (of_nat ?n) s =
      bnd (write_loop k ip ab bs True) (\<lambda>_. bnd sys_malloc_ok (\<lambda>ok.
        bnd (if ok then bnd (get_inode ip) inode_sync else ret ()) (\<lambda>_. ret (of_nat ?n)))) ?s2"
    unfolding file_write_def bnd_get_file [OF D(2)] Let_def ip_def [symmetric] bnd_get_inode [OF ip] if_not_P [OF c1] used uS
    using first m c2 D(2) un(2)
    by (simp add: bnd_Inr [where m = "write_blocks ip (Suc ?m) (Suc ?m)" and s = ?s1, OF ab(1)] upd_file_bnd)
  also have "\<dots> = bnd (inode_sync i') (\<lambda>_. ret (of_nat ?n)) ?s3"
    using m(3) by (simp add: bnd_Inr [where m = "write_loop k ip ab bs True" and s = ?s2, OF d'(1)] bnd_assoc bnd_get_inode)
  finally have run: "file_write k bs (of_nat ?n) s = bnd (inode_sync i') (\<lambda>_. ret (of_nat ?n)) ?s3" .
  have "d' lba = disk s lba" if "lba \<noteq> ?B ! ?m" for lba
    by (rule d'(3)) (use that only ab(3) in blast)
  then show ?thesis using run d'(2,4)
    by (intro exI [of _ d'] exI [of _ ?s3]) (simp add: file_contents_def)
qed

text \<open>C17: Appending bytes that fit into the last sector of a file without filling it (a write that fills
  it allocates the next block already), wherever that sector is (named by the inode or by the index
  block), adds them to its contents: the call returns their number, the contents are the old ones
  followed by the new bytes, and the inode with the new size is in slot \<open>i_no mod 256\<close> of the on-disk
  table, which is its own for inodes below 256 only. All other slots keep their inodes, and outside
  the table no sector changes but the file's last.\<close>

theorem file_append_correct:
  assumes f: "open_file s k i" and a: "append_ok s i"
    and same: "(unat (i_size i) + length bs) div 512 = unat (i_size i) div 512"
    and m: "malloc_ok s (mallocs s)" "malloc_ok s (Suc (mallocs s))" "malloc_ok s (Suc (Suc (mallocs s)))"
  defines "i' \<equiv> i\<lparr>i_size := i_size i + of_nat (length bs)\<rparr>"
  shows "\<exists>s'. file_write k bs (of_nat (length bs)) s = Inr (of_nat (length bs), s') \<and>
    inodes s' (fd_inode (file_table s ! k)) = Some i' \<and>
    file_contents (disk s') i' = file_contents (disk s) i @ bs \<and>
    inode_at s' (unat (i_no i) mod 256) = pure_inode i' \<and>
    (\<forall>j < 4096. j \<noteq> unat (i_no i) mod 256 \<longrightarrow> inode_at s' j = inode_at s j) \<and>
    (\<forall>lba. lba \<noteq> file_blocks (disk s) i ! (unat (i_size i) div 512) \<and>
       608 \<le> unat (lba - inode_table_lba (sb (cur_part s))) \<longrightarrow> disk s' lba = disk s lba)"
proof -
  let ?sz = "unat (i_size i)" and ?n = "length bs" and ?B = "file_blocks (disk s) i"
  let ?m = "?sz div 512"
  note D = open_fileD [OF f]
  obtain d1 s1 where w: "file_write k bs (of_nat ?n) s = bnd (inode_sync i') (\<lambda>_. ret (of_nat ?n)) s1"
      "disk s1 = d1" "disk_wf d1" "inodes s1 = (inodes s)(fd_inode (file_table s ! k) \<mapsto> i')" "cur_part s1 = cur_part s"
      "\<And>lba. lba \<noteq> ?B ! ?m \<Longrightarrow> d1 lba = disk s lba"
      "take (?sz + ?n) (sector_bytes d1 ?B) = file_contents (disk s) i @ bs"
    using file_write_same [OF f a same m] unfolding i'_def by blast
  have fsok: "fs_ok s" using a by (simp add: append_ok_def)
  have ok1: "fs_ok s1" using fsok w(2,3,5) by (simp add: fs_ok_def)
  have wf': "inode_wf i'" using D(4) by (simp add: inode_wf_def i'_def)
  obtain d2 where d2: "inode_sync i' s1 = Inr ((), s1\<lparr>disk := d2\<rparr>)" "disk_wf d2"
      "inode_table (s1\<lparr>disk := d2\<rparr>) = splice (76 * (unat (i_no i') mod 256)) (inode_bytes (pure_inode i')) (inode_table s1)"
      "same_outside (inode_table_lba (sb (cur_part s))) 608 d1 d2"
    using inode_sync_run [OF ok1 wf'] w(2,5) by auto
  have keep: "d2 lba = d1 lba" if "data_region s lba" for lba
    using d2(4) data_region_table(1) [OF fsok that] by (simp add: same_outside_def)
  have m140: "?m < 140" using D(5) by simp
  have upto: "?sz + ?n < 512 * Suc ?m" using same dividend_less_div_times [of 512 "?sz + ?n"] by simp
  have usz: "unat (i_size i') = ?sz + ?n"
    using upto D(5) m140 by (simp add: i'_def unat_add_u32 unat_of_nat_u32)
  have "d2 (i_sectors i ! 12) = disk s (i_sectors i ! 12)" if nz: "i_sectors i ! 12 \<noteq> 0"
    using keep w(6) blocks_in_use_nth(3) [OF a D(4) le_refl m140 nz] a nz by (simp add: append_ok_def)
  then have fb: "file_blocks d2 i' = ?B" by (simp add: file_blocks_def i'_def)
  have "sector_bytes d2 (take (Suc ?m) ?B) = sector_bytes d1 (take (Suc ?m) ?B)"
    using keep a by (auto simp: sector_bytes_def append_ok_def blocks_in_use_def list_all_iff intro!: arg_cong [of _ _ concat])
  then have "take (?sz + ?n) (sector_bytes d2 ?B) = take (?sz + ?n) (sector_bytes d1 ?B)"
    using take_sector_bytes [OF d2(2), of "?sz + ?n" "Suc ?m" ?B] take_sector_bytes [OF w(3), of "?sz + ?n" "Suc ?m" ?B] upto
    by simp
  then have "file_contents d2 i' = file_contents (disk s) i @ bs"
    by (simp add: file_contents_def [of d2] fb usz w(7))
  moreover have k: "unat (i_no i) mod 256 < 4096" by (rule less_trans [OF mod_less_divisor]) simp_all
  have no: "i_no i' = i_no i" "inode_wf (pure_inode i')"
    using wf' by (simp_all add: i'_def inode_wf_def pure_inode_def)
  have at: "inode_at (s1\<lparr>disk := d2\<rparr>) (unat (i_no i) mod 256) = pure_inode i'"
      "\<And>j. j < 4096 \<Longrightarrow> j \<noteq> unat (i_no i) mod 256 \<Longrightarrow> inode_at (s1\<lparr>disk := d2\<rparr>) j = inode_at s1 j"
    using inode_at_splice [of s1 "unat (i_no i) mod 256" "pure_inode i'" "s1\<lparr>disk := d2\<rparr>"] w(2,3) k d2(3) no
    by simp_all
  have last: "608 \<le> unat (?B ! ?m - inode_table_lba (sb (cur_part s)))"
    by (rule data_region_table(1) [OF fsok blocks_in_use_nth(1) [OF a D(4) le_refl m140]])
  have "d1 (inode_table_lba (sb (cur_part s)) + of_nat q) = disk s (inode_table_lba (sb (cur_part s)) + of_nat q)"
    if "q < 608" for q
  proof (rule w(6), rule notI)
    assume eq: "inode_table_lba (sb (cur_part s)) + of_nat q = ?B ! ?m"
    from last [folded eq] that show False by (simp add: unat_of_nat_u32)
  qed
  then have "read_sectors d1 (inode_table_lba (sb (cur_part s))) 608 = read_sectors (disk s) (inode_table_lba (sb (cur_part s))) 608"
    unfolding read_sectors_def by (auto intro!: arg_cong [of _ _ concat])
  then have table: "inode_at s1 j = inode_at s j" for j by (simp add: inode_at_def inode_table_def w(2,5))
  have frame: "d2 lba = disk s lba"
    if "lba \<noteq> ?B ! ?m" "608 \<le> unat (lba - inode_table_lba (sb (cur_part s)))" for lba
    using d2(4) w(6) that by (simp add: same_outside_def)
  ultimately show ?thesis using w(1,4) d2(1) at table frame
    by (intro exI [of _ "s1\<lparr>disk := d2\<rparr>"]) (simp add: bnd_def)
qed

section \<open>Witnesses\<close>

text \<open>A file of three bytes in sector 613, open in slot 3 of the file table.\<close>

definition sample_file_inode :: inode where
  "sample_file_inode = (inode_init 5)\<lparr>i_size := 3, i_open_cnts := 1, i_sectors := 613 # replicate 12 0\<rparr>"

definition sample_file_fs :: fs where
  "sample_file_fs = sample_fs\<lparr>disk := (\<lambda>_. replicate 512 0)(613 := [104, 105, 106] @ replicate 509 0),
     inodes := [17 \<mapsto> sample_file_inode], next_addr := 18,
     file_table := replicate 3 \<lparr>fd_pos = 0, fd_flag = 0, fd_inode = 0\<rparr> @ [\<lparr>fd_pos = 1, fd_flag = 2, fd_inode = 17\<rparr>] @
       replicate 28 \<lparr>fd_pos = 0, fd_flag = 0, fd_inode = 0\<rparr>\<rparr>"

lemma sample_file_blocks: "file_blocks (disk sample_file_fs) sample_file_inode = 613 # replicate 139 0"
  by (simp add: file_blocks_def sample_file_inode_def flip: replicate_add)

lemma sample_file_contents: "file_contents (disk sample_file_fs) sample_file_inode = [104, 105, 106]"
  unfolding file_contents_def sample_file_blocks
  by (simp add: sector_bytes_def sample_file_inode_def sample_file_fs_def)

lemma sample_file_slot: "file_table sample_file_fs ! 3 = \<lparr>fd_pos = 1, fd_flag = 2, fd_inode = 17\<rparr>"
  by (simp add: sample_file_fs_def nth_append)

lemma sample_disk_wf: "disk_wf (disk sample_file_fs)"
  by (simp add: disk_wf_def sample_file_fs_def)

lemma sample_open_file: "open_file sample_file_fs 3 sample_file_inode"
  unfolding open_file_def sample_file_blocks sample_file_slot using sample_disk_wf
  by (simp add: sample_file_fs_def sample_file_inode_def inode_wf_def list_all_iff max_lba_val)

lemma sample_append_ok: "append_ok sample_file_fs sample_file_inode"
proof -
  have "blocks_in_use sample_file_fs sample_file_inode = [613]"
    unfolding blocks_in_use_def sample_file_blocks by (simp add: sample_file_inode_def)
  then show ?thesis
    using sample_fs_ok sample_disk_wf
    by (simp add: append_ok_def fs_ok_def data_region_def sample_file_inode_def)
       (simp add: sample_file_fs_def sample_fs_def sample_part_def)
qed

lemma sample_file_malloc: "malloc_ok sample_file_fs n"
  by (simp add: sample_file_fs_def sample_fs_def)

theorem file_read_correct_witness:
  "\<exists>s'. file_read 3 10 sample_file_fs = Inr ((2, [105, 106]), s')"
proof -
  have "unat (10 :: u32) = 10" by simp
  then show ?thesis
    using file_read_correct [OF sample_open_file, of 10, unfolded sample_file_slot sample_file_contents] sample_file_malloc
    by (simp add: slice_def sample_file_inode_def)
qed

theorem file_append_correct_witness:
  "\<exists>s' i'. file_write 3 [107, 108] (of_nat (length [107 :: u8, 108])) sample_file_fs = Inr (2, s') \<and>
     file_contents (disk s') i' = [104, 105, 106, 107, 108]"
  using file_append_correct [OF sample_open_file sample_append_ok, of "[107, 108]"] sample_file_malloc
  by (simp add: sample_file_contents) (force simp: sample_file_inode_def)

end
