(* ===== verification/Pipe.thy ===== *)
theory Pipe
  imports File
begin

text \<open>
  \<open>shell/pipe.c\<close>, with \<open>fd_local2global\<close> of \<open>fs/fs.c\<close>: pipes are ring buffers in pages of their
  own that the file table points to; such an entry reuses \<open>fd_flag\<close> as a mark and \<open>fd_pos\<close> as the
  number of its open ends. The calls run with interrupts off.
\<close>

section \<open>Descriptors\<close>

definition fd_local2global :: "u32 \<Rightarrow> (fs, u32) km" where
  "fd_local2global local_fd =
     bnd (gets p_fd_table) (\<lambda>fds.
     if unat local_fd < length fds
     then let global_fd = fds ! unat local_fd
          in bnd (kassert ''global_fd >= 0 && global_fd < MAX_FILE_OPEN''
                    (0 \<le> sint global_fd \<and> sint global_fd < int MAX_FILE_OPEN)) (\<lambda>_.
             ret global_fd)
     else fail (Fault ''fd_table[local_fd]''))"

definition sys_fd_redirect :: "u32 \<Rightarrow> u32 \<Rightarrow> (fs, unit) km" where
  "sys_fd_redirect old_local_fd new_local_fd =
     bnd (gets p_fd_table) (\<lambda>fds.
     if \<not> unat old_local_fd < length fds then fail (Fault ''fd_table[old_local_fd]'')
     else if new_local_fd < 3
     then modify (\<lambda>s. s\<lparr>p_fd_table := fds[unat old_local_fd := new_local_fd]\<rparr>)
     else if unat new_local_fd < length fds
     then modify (\<lambda>s. s\<lparr>p_fd_table := fds[unat old_local_fd := fds ! unat new_local_fd]\<rparr>)
     else fail (Fault ''fd_table[new_local_fd]''))"

definition PIPE_FLAG :: u32 where
  "PIPE_FLAG = 0xFFFF"

definition is_pipe :: "u32 \<Rightarrow> (fs, bool) km" where
  "is_pipe fd =
     bnd (fd_local2global fd) (\<lambda>g.
     bnd (get_file (unat g)) (\<lambda>f. ret (fd_flag f = PIPE_FLAG)))"

section \<open>Pipes\<close>

definition get_pipe :: "ptr \<Rightarrow> (fs, ioqueue) km" where
  "get_pipe p = (\<lambda>s. case pipes s p of None \<Rightarrow> Inl (Fault ''struct ioqueue'') | Some q \<Rightarrow> Inr (q, s))"

definition set_pipe :: "ptr \<Rightarrow> ioqueue \<Rightarrow> (fs, unit) km" where
  "set_pipe p q = modify (\<lambda>s. s\<lparr>pipes := (pipes s)(p \<mapsto> q)\<rparr>)"

definition wake :: "tid option \<Rightarrow> (fs, unit) km" where
  "wake t = (case t of None \<Rightarrow> ret () | Some t \<Rightarrow> modify (\<lambda>s. s\<lparr>woken := woken s @ [t]\<rparr>))"

text \<open>A fresh kernel page is zeroed. The two results of \<open>pcb_fd_install\<close> are stored unchecked.\<close>

definition zero_ioqueue :: ioqueue where
  "zero_ioqueue = \<lparr>q_lock = \<lparr>holder = 0, sema = \<lparr>sema_value = 0, waiters = []\<rparr>, holder_repeat_nr = 0\<rparr>,
     producer = 0, consumer = 0, q_buf = replicate 64 0, head = 0, tail = 0\<rparr>"

definition sys_pipe :: "(fs, s32 \<times> s32 list) km" where
  "sys_pipe =
     bnd get_free_slot_in_global (\<lambda>global_fd.
     bnd sys_malloc_ok (\<lambda>ok.
     if \<not> ok then bnd (upd_file (unat global_fd) (\<lambda>f. f\<lparr>fd_inode := 0\<rparr>)) (\<lambda>_. ret (-1, []))
     else
       bnd fresh_ptr (\<lambda>p.
       bnd (upd_file (unat global_fd) (\<lambda>f. f\<lparr>fd_inode := p\<rparr>)) (\<lambda>_.
       bnd (set_pipe p (ioqueue_init zero_ioqueue)) (\<lambda>_.
       bnd (upd_file (unat global_fd) (\<lambda>f. f\<lparr>fd_flag := PIPE_FLAG, fd_pos := 2\<rparr>)) (\<lambda>_.
       bnd (pcb_fd_install global_fd) (\<lambda>fd0.
       bnd (pcb_fd_install global_fd) (\<lambda>fd1.
       ret (0, [fd0, fd1])))))))))"

fun ioq_get_n :: "nat \<Rightarrow> ptr \<Rightarrow> (fs, u8 list) km" where
  "ioq_get_n 0 p = ret []"
| "ioq_get_n (Suc n) p =
     bnd (get_pipe p) (\<lambda>ioq.
     bnd (liftr (ioq_getchar ioq)) (\<lambda>(c, t, ioq).
     bnd (set_pipe p ioq) (\<lambda>_.
     bnd (wake t) (\<lambda>_.
     bnd (ioq_get_n n p) (\<lambda>cs. ret (c # cs))))))"

fun ioq_put_all :: "u8 list \<Rightarrow> ptr \<Rightarrow> (fs, unit) km" where
  "ioq_put_all [] p = ret ()"
| "ioq_put_all (c # cs) p =
     bnd (get_pipe p) (\<lambda>ioq.
     bnd (liftr (ioq_putchar ioq c)) (\<lambda>(t, ioq).
     bnd (set_pipe p ioq) (\<lambda>_.
     bnd (wake t) (\<lambda>_.
     ioq_put_all cs p))))"

definition pipe_read :: "s32 \<Rightarrow> u32 \<Rightarrow> (fs, u32 \<times> u8 list) km" where
  "pipe_read fd count =
     bnd (fd_local2global fd) (\<lambda>global_fd.
     bnd (get_file (unat global_fd)) (\<lambda>f.
     bnd (get_pipe (fd_inode f)) (\<lambda>ioq.
     let ioq_len = ioq_length ioq;
         sz = (if ioq_len > count then count else ioq_len)
     in bnd (ioq_get_n (unat sz) (fd_inode f)) (\<lambda>bytes.
        ret (sz, bytes)))))"

text \<open>The room is taken for 64 minus the length, one more than the ring holds.\<close>

definition pipe_write :: "s32 \<Rightarrow> u8 list \<Rightarrow> u32 \<Rightarrow> (fs, u32) km" where
  "pipe_write fd buf count =
     bnd (fd_local2global fd) (\<lambda>global_fd.
     bnd (get_file (unat global_fd)) (\<lambda>f.
     bnd (get_pipe (fd_inode f)) (\<lambda>ioq.
     let ioq_left = 64 - ioq_length ioq;
         sz = (if ioq_left > count then count else ioq_left)
     in if length buf < unat sz then fail (Fault ''buffer'')
        else bnd (ioq_put_all (take (unat sz) buf) (fd_inode f)) (\<lambda>_.
             ret sz))))"

section \<open>A pipe is a bounded queue\<close>

text \<open>The descriptor \<open>fd\<close> of the running process is an end of the pipe at \<open>p\<close>.\<close>

definition pipe_end :: "fs \<Rightarrow> u32 \<Rightarrow> ptr \<Rightarrow> bool" where
  "pipe_end s fd p \<longleftrightarrow> unat fd < length (p_fd_table s) \<and> length (file_table s) = MAX_FILE_OPEN \<and>
     unat (p_fd_table s ! unat fd) < MAX_FILE_OPEN \<and>
     fd_inode (file_table s ! unat (p_fd_table s ! unat fd)) = p \<and>
     fd_flag (file_table s ! unat (p_fd_table s ! unat fd)) = PIPE_FLAG"

lemma fd_local2global_run:
  assumes "unat fd < length (p_fd_table s)" and "unat (p_fd_table s ! unat fd) < MAX_FILE_OPEN"
  shows "fd_local2global fd s = Inr (p_fd_table s ! unat fd, s)"
proof -
  let ?g = "p_fd_table s ! unat fd"
  have "sint ?g = int (unat ?g)" using assms(2) by (intro sint_small) (simp add: MAX_FILE_OPEN_def)
  moreover have "int (unat ?g) < 32" using assms(2) unfolding MAX_FILE_OPEN_def by linarith
  ultimately show ?thesis using assms(1) by (simp add: fd_local2global_def MAX_FILE_OPEN_def Let_def)
qed

lemma pipe_end_file:
  assumes "pipe_end s fd p"
  shows "fd_local2global fd s = Inr (p_fd_table s ! unat fd, s)"
    and "\<exists>f. get_file (unat (p_fd_table s ! unat fd)) s = Inr (f, s) \<and> fd_inode f = p \<and> fd_flag f = PIPE_FLAG"
  using assms by (auto simp: pipe_end_def get_file_def intro!: fd_local2global_run)

lemma bnd_get_pipe: "pipes s p = Some q \<Longrightarrow> bnd (get_pipe p) f s = f q s"
  by (simp add: get_pipe_def bnd_def)

lemma ioq_put_Inr: "ioq_put q c = Inr q' \<longleftrightarrow> (\<exists>t. ioq_putchar q c = Inr (t, q'))"
  by (auto simp: ioq_put_def rbind_eq_Inr)

lemma ioq_get_Inr: "ioq_get q = Inr (c, q') \<longleftrightarrow> (\<exists>t. ioq_getchar q = Inr (c, t, q'))"
  by (auto simp: ioq_get_def rbind_eq_Inr)

lemma ioq_put_all_eq:
  assumes "pipes s p = Some q"
  shows "ioq.puts q cs = Inr q' \<Longrightarrow>
      \<exists>w. ioq_put_all cs p s = Inr ((), s\<lparr>pipes := (pipes s)(p \<mapsto> q'), woken := w\<rparr>)"
    and "ioq.puts q cs = Inl e \<Longrightarrow> ioq_put_all cs p s = Inl e"
  using assms
proof (induction cs arbitrary: q s)
  case Nil
  {
    case 1
    then have "s = s\<lparr>pipes := (pipes s)(p \<mapsto> q'), woken := woken s\<rparr>" by (simp add: fun_upd_idem)
    then show ?case by (metis ioq_put_all.simps(1) ret_run)
  next
    case 2
    then show ?case by simp
  }
next
  case (Cons c cs)
  have step: "ioq_put_all (c # cs) p s = (case ioq_putchar q c of Inl e \<Rightarrow> Inl e
      | Inr (t, q1) \<Rightarrow> ioq_put_all cs p (s\<lparr>pipes := (pipes s)(p \<mapsto> q1),
          woken := woken s @ (case t of None \<Rightarrow> [] | Some t \<Rightarrow> [t])\<rparr>))" if "pipes s p = Some q" for s q
    using that by (auto simp: bnd_get_pipe set_pipe_def wake_def split: sum.split option.split)
  {
    case 1
    then obtain t q1 where q1: "ioq_putchar q c = Inr (t, q1)" "ioq.puts q1 cs = Inr q'"
      by (auto simp: rbind_eq_Inr ioq_put_Inr)
    let ?s = "s\<lparr>pipes := (pipes s)(p \<mapsto> q1), woken := woken s @ (case t of None \<Rightarrow> [] | Some t \<Rightarrow> [t])\<rparr>"
    have "pipes ?s p = Some q1" by simp
    from Cons.IH(1) [OF q1(2) this]
    obtain w where "ioq_put_all cs p ?s = Inr ((), ?s\<lparr>pipes := (pipes ?s)(p \<mapsto> q'), woken := w\<rparr>)" by blast
    moreover have "(pipes ?s)(p \<mapsto> q') = (pipes s)(p \<mapsto> q')" by simp
    ultimately have "ioq_put_all cs p ?s = Inr ((), s\<lparr>pipes := (pipes s)(p \<mapsto> q'), woken := w\<rparr>)"
      by (simp only:) simp
    moreover have "ioq_put_all (c # cs) p s = ioq_put_all cs p ?s"
      using step [OF 1(2)] q1(1) by (simp del: ioq_put_all.simps)
    ultimately show ?case by metis
  next
    case 2
    show ?case
    proof (cases "ioq_putchar q c")
      case (Inl e')
      then have "ioq_put q c = Inl e'" by (simp add: ioq_put_def)
      then show ?thesis using 2 step Inl by simp
    next
      case (Inr r)
      obtain t q1 where r: "r = (t, q1)" by (cases r)
      let ?s = "s\<lparr>pipes := (pipes s)(p \<mapsto> q1), woken := woken s @ (case t of None \<Rightarrow> [] | Some t \<Rightarrow> [t])\<rparr>"
      have "ioq_put q c = Inr q1" using Inr r by (simp add: ioq_put_Inr)
      then have "ioq.puts q1 cs = Inl e" using 2(1) by simp
      then have "ioq_put_all cs p ?s = Inl e" using Cons.IH(2) [of q1 ?s] by simp
      then show ?thesis using 2(2) step Inr r by simp
    qed
  }
qed

lemma ioq_get_n_eq:
  "pipes s p = Some q \<Longrightarrow> ioq.gets_n q n = Inr (xs, q') \<Longrightarrow>
   \<exists>w. ioq_get_n n p s = Inr (xs, s\<lparr>pipes := (pipes s)(p \<mapsto> q'), woken := w\<rparr>)"
proof (induction n arbitrary: q s xs)
  case 0
  then have "s = s\<lparr>pipes := (pipes s)(p \<mapsto> q'), woken := woken s\<rparr>" by (simp add: fun_upd_idem)
  with 0 show ?case by (metis Inr_inject Pair_inject ioq.gets_n.simps(1) ioq_get_n.simps(1) ret_run)
next
  case (Suc n)
  then obtain c t q1 ys where q1: "ioq_getchar q = Inr (c, t, q1)" "ioq.gets_n q1 n = Inr (ys, q')" "xs = c # ys"
    by (auto simp: rbind_eq_Inr ioq_get_Inr)
  let ?s = "s\<lparr>pipes := (pipes s)(p \<mapsto> q1), woken := woken s @ (case t of None \<Rightarrow> [] | Some t \<Rightarrow> [t])\<rparr>"
  have "pipes ?s p = Some q1" by simp
  from Suc.IH [OF this q1(2)]
  obtain w where "ioq_get_n n p ?s = Inr (ys, ?s\<lparr>pipes := (pipes ?s)(p \<mapsto> q'), woken := w\<rparr>)" by blast
  moreover have "ioq_get_n (Suc n) p s = bnd (ioq_get_n n p) (\<lambda>cs. ret (c # cs)) ?s"
    using Suc.prems(1) q1(1) by (cases t) (simp_all add: bnd_get_pipe set_pipe_def wake_def)
  moreover have "(pipes ?s)(p \<mapsto> q') = (pipes s)(p \<mapsto> q')" by simp
  ultimately have "ioq_get_n (Suc n) p s = Inr (c # ys, s\<lparr>pipes := (pipes s)(p \<mapsto> q'), woken := w\<rparr>)"
    by (simp only: bnd_def sum.case prod.case ret_run) simp
  then show ?case using q1(3) by blast
qed

section \<open>Properties\<close>

lemma pipe_write_run:
  assumes p: "pipe_end s fd p" and q: "pipes s p = Some q" "ioq_wf q"
    and len: "length bs < 2 ^ 32"
  shows "pipe_write fd bs (of_nat (length bs)) s =
    (let n = min (64 - length (ioq_content q)) (length bs)
     in bnd (ioq_put_all (take n bs) p) (\<lambda>_. ret (of_nat n)) s)"
proof -
  let ?L = "length (ioq_content q)"
  note fl = pipe_end_file [OF p]
  obtain f where f: "get_file (unat (p_fd_table s ! unat fd)) s = Inr (f, s)" "fd_inode f = p"
    using fl(2) by blast
  have L: "?L \<le> 63" using ioq_count_le [of q] by simp
  have l: "ioq_length q = of_nat ?L" using ioq_length_eq [OF q(2)] by (metis of_nat_unat_u32)
  have left: "(64 :: u32) - ioq_length q = of_nat (64 - ?L)" unfolding l using L by (simp add: of_nat_diff)
  have cmp: "of_nat (64 - ?L) > (of_nat (length bs) :: u32) \<longleftrightarrow> 64 - ?L > length bs"
    using len by (intro u32_of_nat_less) simp_all
  let ?sz = "if of_nat (64 - ?L) > (of_nat (length bs) :: u32) then of_nat (length bs) else of_nat (64 - ?L) :: u32"
  have sz: "?sz = of_nat (min (64 - ?L) (length bs))" unfolding cmp by auto
  have usz: "unat ?sz = min (64 - ?L) (length bs)"
    unfolding sz using len by (simp add: unat_of_nat_u32 min_def)
  note l2g = bnd_Inr [where m = "fd_local2global fd" and s = s, OF fl(1)]
  note gf = bnd_Inr [where m = "get_file (unat (p_fd_table s ! unat fd))" and s = s, OF f(1)]
  have "\<not> length bs < unat ?sz" unfolding usz by simp
  then show ?thesis
    unfolding pipe_write_def l2g gf f(2) bnd_get_pipe [OF q(1)] Let_def left usz
    by (simp only: if_False sz)
qed

lemma pipe_read_run:
  assumes p: "pipe_end s fd p" and q: "pipes s p = Some q" "ioq_wf q"
  shows "pipe_read fd count s =
    (let n = min (length (ioq_content q)) (unat count)
     in bnd (ioq_get_n n p) (\<lambda>bytes. ret (of_nat n, bytes)) s)"
proof -
  let ?L = "length (ioq_content q)"
  note fl = pipe_end_file [OF p]
  obtain f where f: "get_file (unat (p_fd_table s ! unat fd)) s = Inr (f, s)" "fd_inode f = p"
    using fl(2) by blast
  have u: "unat (ioq_length q) = ?L" by (rule ioq_length_eq [OF q(2)])
  then have l: "ioq_length q = of_nat ?L" by (metis of_nat_unat_u32)
  have sz: "(if ioq_length q > count then count else ioq_length q) = of_nat (min ?L (unat count))"
    using u by (auto simp: min_def word_less_nat_alt l)
  have usz: "unat (of_nat (min ?L (unat count)) :: u32) = min ?L (unat count)"
    using ioq_count_le [of q] by (intro unat_of_nat_u32) (simp add: min_def)
  note l2g = bnd_Inr [where m = "fd_local2global fd" and s = s, OF fl(1)]
  note gf = bnd_Inr [where m = "get_file (unat (p_fd_table s ! unat fd))" and s = s, OF f(1)]
  show ?thesis
    unfolding pipe_read_def l2g gf f(2) bnd_get_pipe [OF q(1)] Let_def sz usz ..
qed

text \<open>C32: A pipe is a queue of bytes: what is written to one end comes out of the other in order,
  after what was already in it, as much as the reader asks for and no more; neither call waits
  while the contents stay below the ring's 63 bytes.\<close>

theorem pipe_write_read:
  assumes "pipe_end s fdw p" and "pipe_end s fdr p" and "pipes s p = Some q" and "ioq_wf q"
    and "length (ioq_content q) + length bs \<le> 63"
  shows "\<exists>s' s'' q''. pipe_write fdw bs (of_nat (length bs)) s = Inr (of_nat (length bs), s') \<and>
    pipe_read fdr count s' =
      Inr ((of_nat (min (length (ioq_content q @ bs)) (unat count)), take (unat count) (ioq_content q @ bs)), s'') \<and>
    pipes s'' p = Some q'' \<and> ioq_wf q'' \<and> ioq_content q'' = drop (unat count) (ioq_content q @ bs)"
proof -
  let ?L = "length (ioq_content q)" and ?c = "ioq_content q @ bs"
  obtain q' where q': "ioq.puts q bs = Inr q'" "ioq_wf q'" "ioq_content q' = ?c"
    using ioq.puts_ok [OF assms(4,5)] by blast
  obtain w where w: "ioq_put_all bs p s = Inr ((), s\<lparr>pipes := (pipes s)(p \<mapsto> q'), woken := w\<rparr>)"
    using ioq_put_all_eq(1) [OF assms(3) q'(1)] by blast
  let ?s = "s\<lparr>pipes := (pipes s)(p \<mapsto> q'), woken := w\<rparr>"
  have "min (64 - ?L) (length bs) = length bs" "length bs < 2 ^ 32" using assms(5) by simp_all
  then have wr: "pipe_write fdw bs (of_nat (length bs)) s = Inr (of_nat (length bs), ?s)"
    using pipe_write_run [OF assms(1,3,4)] w by (simp add: bnd_def)
  let ?n = "min (length ?c) (unat count)"
  have "?n \<le> length (ioq_content q')" unfolding q'(3) by simp
  from ioq.gets_ok [OF q'(2) this] obtain q'' where
    q'': "ioq.gets_n q' ?n = Inr (take ?n ?c, q'')" "ioq_wf q''" "ioq_content q'' = drop ?n ?c"
    unfolding q'(3) by blast
  have ps: "pipes ?s p = Some q'" by simp
  obtain w' where w': "ioq_get_n ?n p ?s = Inr (take ?n ?c, ?s\<lparr>pipes := (pipes ?s)(p \<mapsto> q''), woken := w'\<rparr>)"
    using ioq_get_n_eq [OF ps q''(1)] by blast
  have "pipe_end ?s fdr p" using assms(2) by (simp add: pipe_end_def)
  from pipe_read_run [OF this ps q'(2), of count] w'
  have rd: "pipe_read fdr count ?s = Inr ((of_nat ?n, take ?n ?c), ?s\<lparr>pipes := (pipes ?s)(p \<mapsto> q''), woken := w'\<rparr>)"
    unfolding q'(3) by (simp add: bnd_def Let_def)
  have "take ?n ?c = take (unat count) ?c" "drop ?n ?c = drop (unat count) ?c" by (simp_all add: min_def)
  then show ?thesis using wr rd q''(2,3) by (intro exI [of _ ?s] exI [of _ "?s\<lparr>pipes := (pipes ?s)(p \<mapsto> q''), woken := w'\<rparr>"] exI [of _ q'']) simp
qed

text \<open>A write that would fill the pipe does not come back with the number of bytes that fit:
  it asks for 64 bytes less the contents where the ring holds 63, and sleeps until a reader
  takes a byte.\<close>

theorem pipe_write_full_blocks:
  assumes "pipe_end s fd p" and "pipes s p = Some q" and "ioq_wf q"
    and "64 \<le> length (ioq_content q) + length bs" and "length bs < 2 ^ 32"
  shows "pipe_write fd bs (of_nat (length bs)) s = Inl Block"
proof -
  let ?L = "length (ioq_content q)"
  have L: "?L \<le> 63" using ioq_count_le [of q] by simp
  have n: "min (64 - ?L) (length bs) = 64 - ?L" using assms(4) L by simp
  have "ioq.puts q (take (64 - ?L) bs) = Inl Block"
    using L assms(4) by (intro ioq.puts_block assms(3)) simp
  from ioq_put_all_eq(2) [OF assms(2) this] pipe_write_run [OF assms(1,2,3,5)]
  show ?thesis unfolding n by (simp add: bnd_def Let_def)
qed

definition sample_pipe_fs :: fs where
  "sample_pipe_fs = sample_fs\<lparr>
     file_table := replicate 3 \<lparr>fd_pos = 0, fd_flag = 0, fd_inode = 0\<rparr> @
       [\<lparr>fd_pos = 2, fd_flag = PIPE_FLAG, fd_inode = 16\<rparr>] @
       replicate 28 \<lparr>fd_pos = 0, fd_flag = 0, fd_inode = 0\<rparr>,
     p_fd_table := [0, 1, 2, 3, 3, -1, -1, -1], pipes := [16 \<mapsto> ioq_zero], next_addr := 17\<rparr>"

lemma sample_pipe: "pipe_end sample_pipe_fs 3 16" "pipe_end sample_pipe_fs 4 16"
    "pipes sample_pipe_fs 16 = Some ioq_zero" "ioq_wf ioq_zero" "ioq_content ioq_zero = []"
  by (simp_all add: sample_pipe_fs_def pipe_end_def MAX_FILE_OPEN_def nth_append ioq_zero_def
      ioqueue_init_def ioq_wf_def ioq_content_def ioq_count_def)

theorem pipe_write_read_witness:
  "\<exists>s' s''. pipe_write 4 [104, 105] (of_nat (length [104 :: u8, 105])) sample_pipe_fs = Inr (2, s') \<and>
     pipe_read 3 10 s' = Inr ((2, [104, 105]), s'')"
proof -
  have "unat (10 :: u32) = 10" by simp
  then show ?thesis
    using pipe_write_read [OF sample_pipe(2,1,3,4), of "[104, 105]" 10] by (force simp: sample_pipe(5))
qed

theorem pipe_write_full_blocks_witness:
  "pipe_write 4 (replicate 64 7) (of_nat (length (replicate 64 (7 :: u8)))) sample_pipe_fs = Inl Block"
  by (rule pipe_write_full_blocks [OF sample_pipe(2,3,4)]) simp_all

end
