(* ===== verification/Path.thy ===== *)
theory Path
  imports Cstring
begin

text \<open>
  \<open>path_parse\<close> and \<open>path_depth_cnt\<close> of \<open>fs/fs.c\<close>. A path is the bytes from the pointer to the end
  of its object. The lemmas relate the parser to the components of a path: the maximal runs of
  bytes between slashes.
\<close>

section \<open>Operations\<close>

text \<open>The loop over further slashes.\<close>

fun skip_slashes :: "u8 list \<Rightarrow> u8 list res" where
  "skip_slashes [] = Inl (Fault ''pathname'')"
| "skip_slashes (c # p) = (if c = asc CHR ''/'' then skip_slashes p else Inr (c # p))"

text \<open>Copying a component to \<open>name_store\<close>: no terminator is written and no length is checked.\<close>

fun copy_name :: "u8 list \<Rightarrow> u8 list \<Rightarrow> (u8 list \<times> u8 list) res" where
  "copy_name [] store = Inl (Fault ''pathname'')"
| "copy_name (c # p) store =
     (if c \<noteq> asc CHR ''/'' \<and> c \<noteq> 0
      then case store of
             [] \<Rightarrow> Inl (Fault ''name_store'')
           | _ # store' \<Rightarrow> rbind (copy_name p store') (\<lambda>(name, rest). Inr (c # name, rest))
      else Inr (store, c # p))"

text \<open>The result is the buffer afterwards and the rest of the path, \<open>None\<close> for \<open>NULL\<close>.\<close>

definition path_parse :: "u8 list \<Rightarrow> u8 list \<Rightarrow> (u8 list \<times> u8 list option) res" where
  "path_parse pathname name_store =
     (case pathname of
        [] \<Rightarrow> Inl (Fault ''pathname'')
      | c # p \<Rightarrow>
          rbind (if c = asc CHR ''/'' then skip_slashes p else Inr (c # p)) (\<lambda>p.
          rbind (copy_name p name_store) (\<lambda>(name, rest).
          Inr (name, if hd rest = 0 then None else Some rest))))"

lemma skip_slashes_length: "skip_slashes p = Inr q \<Longrightarrow> length q \<le> length p"
  by (induction p) (auto split: if_splits intro: le_SucI)

lemma copy_name_length:
  "copy_name p store = Inr (name, rest) \<Longrightarrow> length rest \<le> length p \<and> length name = length store \<and>
   rest \<noteq> [] \<and> (p \<noteq> [] \<longrightarrow> hd p \<noteq> asc CHR ''/'' \<longrightarrow> hd p \<noteq> 0 \<longrightarrow> length rest < length p)"
proof (induction p store arbitrary: name rest rule: copy_name.induct)
  case (2 c p store)
  then show ?case by (fastforce split: if_splits list.splits simp: rbind_eq_Inr)
qed simp

lemma path_parse_shrinks:
  assumes "path_parse p store = Inr (name, Some rest)"
  shows "length rest < length p"
proof (cases p)
  case (Cons c q)
  show ?thesis
  proof (cases "c = asc CHR ''/''")
    case True
    with assms Cons obtain q' where "skip_slashes q = Inr q'" "copy_name q' store = Inr (name, rest)"
      by (auto simp: path_parse_def rbind_eq_Inr split: if_splits)
    with skip_slashes_length copy_name_length have "length rest \<le> length q" by fastforce
    with Cons show ?thesis by simp
  next
    case False
    with assms Cons have c: "copy_name (c # q) store = Inr (name, rest)" "hd rest \<noteq> 0"
      by (auto simp: path_parse_def rbind_eq_Inr split: if_splits)
    then have "c \<noteq> 0" by (auto split: if_splits)
    with False copy_name_length [OF c(1)] Cons show ?thesis by simp
  qed
qed (use assms in \<open>simp add: path_parse_def\<close>)

definition empty_name :: "u8 list" where
  "empty_name = replicate 16 0"

lemma empty_name_simps [simp]: "hd empty_name = 0" "length empty_name = 16"
  by (simp_all add: empty_name_def)

text \<open>
  The loop of \<open>path_depth_cnt\<close>. Its buffer is not initialised, so when the first call of
  \<open>path_parse\<close> writes nothing the loop condition reads an indeterminate byte (a \<open>Fault\<close>).
\<close>

function depth_loop :: "u8 list option \<Rightarrow> u8 list \<Rightarrow> u32 \<Rightarrow> u32 res" where
  "depth_loop p name depth =
     (if hd name \<noteq> 0
      then case p of
             None \<Rightarrow> depth_loop None empty_name (depth + 1)
           | Some q \<Rightarrow> rbind (path_parse q empty_name) (\<lambda>np. depth_loop (snd np) (fst np) (depth + 1))
      else Inr depth)"
  by pat_completeness auto
termination
proof (relation "measure (\<lambda>(p, name, depth).
    (case p of None \<Rightarrow> 0 | Some q \<Rightarrow> 2 * Suc (length q)) + (if hd name \<noteq> 0 then 1 else 0))", goal_cases)
  case (2 p name depth)
  then show ?case by (simp add: empty_name_def)
next
  case (3 p name depth q np)
  then show ?case using path_parse_shrinks [of q empty_name "fst np"]
    by (cases "snd np") (auto simp: prod_eq_iff split: option.splits)
qed simp

declare depth_loop.simps [simp del]

definition path_depth_cnt :: "u8 list \<Rightarrow> s32 res" where
  "path_depth_cnt pathname =
     rbind (path_parse pathname empty_name) (\<lambda>(name, p).
     if hd name = 0 then Inl (Fault ''name[0]'') else depth_loop p name 0)"

section \<open>Components\<close>

text \<open>The components of a path up to its terminator.\<close>

definition slash :: u8 where
  "slash = asc CHR ''/''"

function components :: "u8 list \<Rightarrow> u8 list list" where
  "components p =
     (case dropWhile (\<lambda>c. c = slash) p of
        [] \<Rightarrow> []
      | c # q \<Rightarrow> takeWhile (\<lambda>c. c \<noteq> slash) (c # q) # components (dropWhile (\<lambda>c. c \<noteq> slash) (c # q)))"
  by pat_completeness auto
termination
proof (relation "measure length", goal_cases)
  case (2 p c q)
  then have "c \<noteq> slash" by (metis (full_types) dropWhile_eq_Cons_conv)
  moreover have "length (c # q) \<le> length p" using 2 by (metis length_dropWhile_le)
  ultimately show ?case using length_dropWhile_le [of "\<lambda>c. c \<noteq> slash" q] by simp
qed simp

declare components.simps [simp del]

section \<open>What one call of the parser does\<close>

definition comp_of :: "u8 list \<Rightarrow> u8 list" where
  "comp_of p = takeWhile (\<lambda>c. c \<noteq> slash \<and> c \<noteq> 0) p"

lemma slash_neq_0 [simp]: "slash \<noteq> 0" "0 \<noteq> slash"
  by (simp_all add: slash_def asc_def)

lemma skip_slashes_eq: "0 \<in> set p \<Longrightarrow> skip_slashes p = Inr (dropWhile (\<lambda>c. c = slash) p)"
  by (induction p) (auto simp: slash_def [symmetric])

lemma copy_name_eq:
  "0 \<in> set p \<Longrightarrow> length (comp_of p) \<le> length store \<Longrightarrow>
   copy_name p store = Inr (comp_of p @ drop (length (comp_of p)) store, drop (length (comp_of p)) p)"
  by (induction p store rule: copy_name.induct)
     (auto simp: slash_def [symmetric] comp_of_def split: list.splits if_splits)

lemma copy_name_overflow:
  "0 \<in> set p \<Longrightarrow> length store < length (comp_of p) \<Longrightarrow> copy_name p store = Inl (Fault ''name_store'')"
  by (induction p store rule: copy_name.induct)
     (auto simp: slash_def [symmetric] comp_of_def split: list.splits if_splits)

lemma cstr_dropWhile_slash: "cstr (dropWhile (\<lambda>c. c = slash) p) = dropWhile (\<lambda>c. c = slash) (cstr p)"
  by (induction p) auto

lemma cstr_comp:
  "takeWhile (\<lambda>c. c \<noteq> slash) (cstr p) = comp_of p"
  "dropWhile (\<lambda>c. c \<noteq> slash) (cstr p) = cstr (drop (length (comp_of p)) p)"
  by (induction p) (auto simp: comp_of_def)

lemma nul_dropWhile: "0 \<in> set p \<Longrightarrow> 0 \<in> set (dropWhile (\<lambda>c. c = slash) p)"
  by (induction p) auto

lemma nul_comp: "0 \<in> set p \<Longrightarrow> 0 \<in> set (drop (length (comp_of p)) p)"
  by (induction p) (auto simp: comp_of_def)

lemma hd_cstr: "0 \<in> set p \<Longrightarrow> hd p = 0 \<longleftrightarrow> cstr p = []"
  by (cases p) auto

text \<open>The first component, or the empty one when there is none.\<close>

definition first_comp :: "u8 list \<Rightarrow> u8 list" where
  "first_comp p = comp_of (dropWhile (\<lambda>c. c = slash) p)"

definition after_first :: "u8 list \<Rightarrow> u8 list" where
  "after_first p = drop (length (first_comp p)) (dropWhile (\<lambda>c. c = slash) p)"

lemma nul_after_first: "0 \<in> set p \<Longrightarrow> 0 \<in> set (after_first p)"
  by (simp add: after_first_def first_comp_def nul_comp nul_dropWhile)

lemma path_parse_eq:
  assumes "0 \<in> set p" and "length (first_comp p) \<le> length store"
  shows "path_parse p store = Inr (first_comp p @ drop (length (first_comp p)) store,
    if cstr (after_first p) = [] then None else Some (after_first p))"
proof -
  let ?q = "dropWhile (\<lambda>c. c = slash) p"
  have q: "0 \<in> set ?q" using assms(1) by (rule nul_dropWhile)
  obtain c r where p: "p = c # r" using assms(1) by (cases p) auto
  have "(if c = asc CHR ''/'' then skip_slashes r else Inr (c # r)) = Inr ?q"
    using assms(1) skip_slashes_eq [of r] by (auto simp: p slash_def [symmetric])
  moreover have "copy_name ?q store = Inr (first_comp p @ drop (length (first_comp p)) store, after_first p)"
    using copy_name_eq [OF q, of store] assms(2) by (simp add: first_comp_def after_first_def)
  ultimately show ?thesis
    using hd_cstr [OF nul_after_first [OF assms(1)]] by (simp add: path_parse_def p)
qed

lemma path_parse_overflow:
  assumes "0 \<in> set p" and "length store < length (first_comp p)"
  shows "path_parse p store = Inl (Fault ''name_store'')"
proof -
  let ?q = "dropWhile (\<lambda>c. c = slash) p"
  have q: "0 \<in> set ?q" using assms(1) by (rule nul_dropWhile)
  obtain c r where p: "p = c # r" using assms(1) by (cases p) auto
  have "(if c = asc CHR ''/'' then skip_slashes r else Inr (c # r)) = Inr ?q"
    using assms(1) skip_slashes_eq [of r] by (auto simp: p slash_def [symmetric])
  moreover have "copy_name ?q store = Inl (Fault ''name_store'')"
    using copy_name_overflow [OF q, of store] assms(2) by (simp add: first_comp_def)
  ultimately show ?thesis by (simp add: path_parse_def p)
qed

lemma comp_of_dropWhile_Nil:
  "comp_of (dropWhile (\<lambda>c. c = slash) p) = [] \<longleftrightarrow> cstr (dropWhile (\<lambda>c. c = slash) p) = []"
proof -
  have "comp_of q = [] \<longleftrightarrow> cstr q = []" if "q = [] \<or> hd q \<noteq> slash" for q
    using that by (cases q) (auto simp: comp_of_def)
  with hd_dropWhile [of "\<lambda>c. c = slash" p] show ?thesis by blast
qed

lemma components_first:
  "components (cstr p) = (if first_comp p = [] then [] else first_comp p # components (cstr (after_first p)))"
proof (cases "dropWhile (\<lambda>c. c = slash) (cstr p)")
  case Nil
  then have "cstr (dropWhile (\<lambda>c. c = slash) p) = []" by (simp add: cstr_dropWhile_slash)
  then have "first_comp p = []" by (simp add: first_comp_def comp_of_dropWhile_Nil)
  then show ?thesis unfolding components.simps [of "cstr p"] Nil by simp
next
  case (Cons c q)
  then have eq: "cstr (dropWhile (\<lambda>c. c = slash) p) = c # q" by (simp add: cstr_dropWhile_slash)
  then have "first_comp p \<noteq> []" by (simp add: first_comp_def comp_of_dropWhile_Nil)
  moreover have "takeWhile (\<lambda>c. c \<noteq> slash) (c # q) = first_comp p"
    using cstr_comp(1) [of "dropWhile (\<lambda>c. c = slash) p"] eq by (simp only: first_comp_def)
  moreover have "dropWhile (\<lambda>c. c \<noteq> slash) (c # q) = cstr (after_first p)"
    using cstr_comp(2) [of "dropWhile (\<lambda>c. c = slash) p"] eq by (simp only: first_comp_def after_first_def)
  ultimately show ?thesis using Cons by (subst components.simps) simp
qed

lemma first_comp_nonzero: "first_comp p \<noteq> [] \<Longrightarrow> hd (first_comp p) \<noteq> 0"
proof -
  let ?P = "\<lambda>c. c \<noteq> slash \<and> c \<noteq> 0"
  assume "first_comp p \<noteq> []"
  then have "hd (first_comp p) \<in> set (takeWhile ?P (dropWhile (\<lambda>c. c = slash) p))"
    unfolding first_comp_def comp_of_def by (rule hd_in_set)
  from set_takeWhileD [OF this] show ?thesis by simp
qed

lemma hd_name:
  "length (first_comp p) \<le> 16 \<Longrightarrow>
   hd (first_comp p @ drop (length (first_comp p)) empty_name) \<noteq> 0 \<longleftrightarrow> first_comp p \<noteq> []"
  using first_comp_nonzero [of p] by (cases "first_comp p") simp_all

lemma after_first_length: "first_comp p \<noteq> [] \<Longrightarrow> length (after_first p) < length p"
proof -
  assume ne: "first_comp p \<noteq> []"
  then have "dropWhile (\<lambda>c. c = slash) p \<noteq> []"
    unfolding first_comp_def comp_of_def by (metis takeWhile.simps(1))
  then have "length (after_first p) < length (dropWhile (\<lambda>c. c = slash) p)"
    using ne by (simp add: after_first_def)
  also have "\<dots> \<le> length p" by (rule length_dropWhile_le)
  finally show ?thesis .
qed

section \<open>The depth of a path\<close>

lemma depth_loop_eq:
  "(\<forall>q. p = Some q \<longrightarrow> 0 \<in> set q \<and> (\<forall>w \<in> set (components (cstr q)). length w \<le> 16)) \<Longrightarrow> hd name \<noteq> 0 \<Longrightarrow>
   depth_loop p name d =
     Inr (d + 1 + of_nat (case p of None \<Rightarrow> 0 | Some q \<Rightarrow> length (components (cstr q))))"
proof (induction "case p of None \<Rightarrow> 0 | Some q \<Rightarrow> Suc (length q)" arbitrary: p name d rule: less_induct)
  case less
  show ?case
  proof (cases p)
    case None
    have "depth_loop None empty_name (d + 1) = Inr (d + 1)"
      by (simp add: depth_loop.simps [of None empty_name])
    with less.prems None show ?thesis by (simp add: depth_loop.simps [of None name])
  next
    case (Some q)
    let ?n = "first_comp q @ drop (length (first_comp q)) empty_name"
    let ?r = "if cstr (after_first q) = [] then None else Some (after_first q)"
    have q: "0 \<in> set q" "\<forall>w \<in> set (components (cstr q)). length w \<le> 16" using less.prems Some by auto
    have le: "length (first_comp q) \<le> 16" using q(2) components_first [of q] by (auto split: if_splits)
    have step: "depth_loop p name d = depth_loop ?r ?n (d + 1)"
      using less.prems(2) path_parse_eq [OF q(1), of empty_name] le
      by (simp add: Some depth_loop.simps [of "Some q" name])
    show ?thesis
    proof (cases "first_comp q = []")
      case True
      then have "components (cstr q) = []" using components_first [of q] by simp
      moreover have "hd ?n = 0" using True by simp
      ultimately show ?thesis unfolding step by (simp add: Some depth_loop.simps [of ?r ?n])
    next
      case False
      have cs: "components (cstr q) = first_comp q # components (cstr (after_first q))"
        using False components_first [of q] by simp
      have "depth_loop ?r ?n (d + 1) =
          Inr (d + 1 + 1 + of_nat (case ?r of None \<Rightarrow> 0 | Some q \<Rightarrow> length (components (cstr q))))"
      proof (rule less.hyps)
        show "(case ?r of None \<Rightarrow> 0 | Some q \<Rightarrow> Suc (length q)) < (case p of None \<Rightarrow> 0 | Some q \<Rightarrow> Suc (length q))"
          using after_first_length [OF False] Some by simp
        show "\<forall>q'. ?r = Some q' \<longrightarrow> 0 \<in> set q' \<and> (\<forall>w \<in> set (components (cstr q')). length w \<le> 16)"
          using q cs nul_after_first [OF q(1)] by auto
        show "hd ?n \<noteq> 0" using hd_name [OF le] False by simp
      qed
      moreover have "components [] = []" by (simp add: components.simps)
      ultimately show ?thesis unfolding step using Some cs by (auto simp: algebra_simps)
    qed
  qed
qed

text \<open>C33: \<open>path_depth_cnt\<close> ends and counts the components of a path, whatever the number of
  slashes between, before and after them, as long as each fits the 16-byte buffer of the parser
  and there is at least one.\<close>

theorem path_depth_correct:
  assumes "0 \<in> set p" and "components (cstr p) \<noteq> []" and "\<forall>w \<in> set (components (cstr p)). length w \<le> 16"
  shows "path_depth_cnt p = Inr (of_nat (length (components (cstr p))))"
proof -
  have ne: "first_comp p \<noteq> []" using assms(2) components_first [of p] by auto
  have le: "length (first_comp p) \<le> 16" using assms(3) ne components_first [of p] by simp
  let ?r = "if cstr (after_first p) = [] then None else Some (after_first p)"
  let ?n = "first_comp p @ drop (length (first_comp p)) empty_name"
  have "path_depth_cnt p = depth_loop ?r ?n 0"
    using path_parse_eq [OF assms(1), of empty_name] le hd_name [OF le] ne
    by (simp add: path_depth_cnt_def)
  also have "\<dots> = Inr (0 + 1 + of_nat (case ?r of None \<Rightarrow> 0 | Some q \<Rightarrow> length (components (cstr q))))"
    using assms nul_after_first [OF assms(1)] components_first [of p] ne hd_name [OF le]
    by (intro depth_loop_eq) auto
  also have "\<dots> = Inr (of_nat (length (components (cstr p))))"
    using components_first [of p] ne by (auto simp: components.simps [of "[]"])
  finally show ?thesis .
qed

theorem path_depth_correct_witness:
  "path_depth_cnt (cbytes ''//home/a/'' @ [0]) = Inr 2"
proof -
  have "components (cstr (cbytes ''//home/a/'' @ [0])) = [cbytes ''home'', cbytes ''a'']" by code_simp
  then show ?thesis using path_depth_correct [of "cbytes ''//home/a/'' @ [0]"] by (simp add: cbytes_def)
qed

text \<open>A component of more than 16 bytes overruns the buffer of \<open>path_depth_cnt\<close>; a component of
  exactly 16 fills it without a terminator. \<open>path_parse\<close> checks neither.\<close>

theorem path_component_overflow:
  assumes "0 \<in> set p" and "16 < length (first_comp p)"
  shows "path_depth_cnt p = Inl (Fault ''name_store'')"
  using path_parse_overflow [OF assms(1), of empty_name] assms(2)
  by (simp add: path_depth_cnt_def)

theorem path_component_overflow_witness:
  "path_depth_cnt (cbytes ''/abcdefghijklmnopq'' @ [0]) = Inl (Fault ''name_store'')"
proof -
  have "16 < length (first_comp (cbytes ''/abcdefghijklmnopq'' @ [0]))" by code_simp
  then show ?thesis using path_component_overflow [of "cbytes ''/abcdefghijklmnopq'' @ [0]"] by simp
qed

end
