(* ===== verification/Fs.thy ===== *)
theory Fs
  imports Pipe Path
begin

text \<open>
  The system calls of \<open>fs/fs.c\<close>. Strings are byte lists that run to the end of their object. A
  call that fills a buffer of its caller answers the bytes. \<open>printk\<close> messages are left out.
\<close>

section \<open>Searching a path\<close>

record path_search_record =
  searched_path :: "u8 list"
  parent_dir :: ptr
  file_type :: file_types

definition MAX_PATH_LEN :: u32 where
  "MAX_PATH_LEN = 512"

definition empty_record :: path_search_record where
  "empty_record = \<lparr>searched_path = replicate 512 0, parent_dir = 0, file_type = FT_UNKNOWN\<rparr>"

definition cstring :: "string \<Rightarrow> u8 list" where
  "cstring str = cbytes str @ [0]"

definition is_root_path :: "u8 list \<Rightarrow> bool res" where
  "is_root_path pathname =
     rbind (strcmp pathname (cstring ''/'')) (\<lambda>a.
     if a = 0 then Inr True else
     rbind (strcmp pathname (cstring ''/.'')) (\<lambda>b.
     if b = 0 then Inr True else
     rbind (strcmp pathname (cstring ''/..'')) (\<lambda>c. Inr (c = 0))))"

lemma search_step_measure:
  assumes "hd name \<noteq> 0"
    and "(case sub_path of None \<Rightarrow> Inr (empty_name, None) | Some p \<Rightarrow> path_parse p empty_name) = Inr np"
  shows "(case snd np of None \<Rightarrow> 0 | Some q \<Rightarrow> 2 * Suc (length q)) + (if hd (fst np) \<noteq> 0 then 1 else 0)
    < (case sub_path of None \<Rightarrow> 0 | Some q \<Rightarrow> 2 * Suc (length q)) + (if hd name \<noteq> 0 then 1 else 0 :: nat)"
proof (cases sub_path)
  case None
  with assms show ?thesis by auto
next
  case (Some p)
  with assms path_parse_shrinks [of p empty_name "fst np"] show ?thesis
    by (cases "snd np") (auto simp: prod_eq_iff split: option.splits)
qed

text \<open>
  The loop of \<open>search_file\<close>: the rest of the path, the current component, the directory that is
  open and the number of its parent, and the entry found last (none at first: \<open>dir_e\<close> is not
  initialised).
\<close>

function search_loop ::
    "u8 list option \<Rightarrow> u8 list \<Rightarrow> ptr \<Rightarrow> u32 \<Rightarrow> dir_entry option \<Rightarrow> path_search_record \<Rightarrow>
     (fs, s32 \<times> path_search_record) km" where
  "search_loop sub_path name pdir parent_inode_no dir_e record0 =
     (if hd name \<noteq> 0
      then
        bnd (liftr (strlen (searched_path record0))) (\<lambda>n.
        bnd (kassert ''strlen(searched_record->searched_path) < 512'' (n < 512)) (\<lambda>_.
        bnd (liftr (strcat (searched_path record0) (cstring ''/''))) (\<lambda>path.
        bnd (liftr (strcat path name)) (\<lambda>path.
        let record1 = record0\<lparr>searched_path := path\<rparr> in
        bnd (search_dir_entry pdir name) (\<lambda>found. case found of
          None \<Rightarrow> ret (-1, record1)
        | Some e \<Rightarrow>
            (case (case sub_path of None \<Rightarrow> Inr (empty_name, None) | Some p \<Rightarrow> path_parse p empty_name) of
               Inl err \<Rightarrow> fail err
             | Inr np \<Rightarrow>
                 if f_type e = ft_code FT_DIRECTORY
                 then bnd (get_dir pdir) (\<lambda>d.
                      bnd (get_inode (d_inode d)) (\<lambda>parent.
                      bnd (dir_close pdir) (\<lambda>_.
                      bnd (dir_open (de_i_no e)) (\<lambda>child.
                      search_loop (snd np) (fst np) child (i_no parent) (Some e)
                        (record1\<lparr>parent_dir := child\<rparr>)))))
                 else if f_type e = ft_code FT_REGULAR
                 then ret (de_i_no e, record1\<lparr>file_type := FT_REGULAR\<rparr>)
                 else search_loop (snd np) (fst np) pdir parent_inode_no (Some e) record1))))))
      else
        bnd (dir_close (parent_dir record0)) (\<lambda>_.
        bnd (dir_open parent_inode_no) (\<lambda>p.
        case dir_e of
          None \<Rightarrow> fail (Fault ''dir_e'')
        | Some e \<Rightarrow> ret (de_i_no e, record0\<lparr>parent_dir := p, file_type := FT_DIRECTORY\<rparr>))))"
  by pat_completeness auto

termination
proof (relation "measure (\<lambda>(sub_path, name, pdir, no, e, r).
      (case sub_path of None \<Rightarrow> 0 | Some q \<Rightarrow> 2 * Suc (length q)) + (if hd name \<noteq> 0 then 1 else 0))", goal_cases)
  case 1
  show ?case by (rule wf_measure)
next
  case 2
  then show ?case unfolding in_measure split_conv by (intro search_step_measure)
next
  case 3
  then show ?case unfolding in_measure split_conv by (intro search_step_measure)
qed

declare search_loop.simps [simp del]

definition search_file :: "u8 list \<Rightarrow> path_search_record \<Rightarrow> (fs, s32 \<times> path_search_record) km" where
  "search_file pathname searched_record =
     bnd (liftr (is_root_path pathname)) (\<lambda>root.
     if root
     then ret (0, searched_record\<lparr>parent_dir := root_dir, file_type := FT_DIRECTORY,
            searched_path := (searched_path searched_record)[0 := 0]\<rparr>)
     else
       bnd (liftr (strlen pathname)) (\<lambda>path_len.
       bnd (kassert ''pathname[0] == '/' && path_len > 1 && path_len < MAX_PATH_LEN''
              (hd pathname = asc CHR ''/'' \<and> path_len > 1 \<and> path_len < MAX_PATH_LEN)) (\<lambda>_.
       bnd (liftr (path_parse pathname empty_name)) (\<lambda>np.
       search_loop (snd np) (fst np) root_dir 0 None
         (searched_record\<lparr>parent_dir := root_dir, file_type := FT_UNKNOWN\<rparr>)))))"

section \<open>Files\<close>

text \<open>What follows the last slash of a path.\<close>

definition base_name :: "u8 list \<Rightarrow> u8 list res" where
  "base_name path =
     rbind (strrchr path (asc CHR ''/'')) (\<lambda>r. case r of
       None \<Rightarrow> Inl (Fault ''strrchr'')
     | Some k \<Rightarrow> Inr (drop (Suc k) path))"

text \<open>Opening an existing file does not close the directory that the search left open.\<close>

definition sys_open :: "u8 list \<Rightarrow> u8 \<Rightarrow> (fs, s32) km" where
  "sys_open pathname flags =
     bnd (liftr (strlen pathname)) (\<lambda>n.
     if n = 0 then fail (Fault ''pathname[-1]'')
     else if pathname ! unat (n - 1) = asc CHR ''/'' then ret (-1)
     else
       bnd (kassert ''flags <= 7'' (flags \<le> 7)) (\<lambda>_.
       bnd (liftr (path_depth_cnt pathname)) (\<lambda>pathname_depth.
       bnd (search_file pathname empty_record) (\<lambda>(inode_no, searched_record).
       let found = (inode_no \<noteq> -1);
           creat = (ucast flags AND O_CREAT \<noteq> 0)
       in if file_type searched_record = FT_DIRECTORY
          then bnd (dir_close (parent_dir searched_record)) (\<lambda>_. ret (-1))
          else
            bnd (liftr (path_depth_cnt (searched_path searched_record))) (\<lambda>path_search_depth.
            if pathname_depth \<noteq> path_search_depth
            then bnd (dir_close (parent_dir searched_record)) (\<lambda>_. ret (-1))
            else if \<not> found \<and> \<not> creat
            then bnd (dir_close (parent_dir searched_record)) (\<lambda>_. ret (-1))
            else if found \<and> creat
            then bnd (dir_close (parent_dir searched_record)) (\<lambda>_. ret (-1))
            else if creat
            then bnd (liftr (base_name pathname)) (\<lambda>name.
                 bnd (file_create (parent_dir searched_record) name flags) (\<lambda>fd.
                 bnd (dir_close (parent_dir searched_record)) (\<lambda>_. ret fd)))
            else file_open inode_no flags)))))"

definition sys_close :: "s32 \<Rightarrow> (fs, s32) km" where
  "sys_close fd =
     (if sint fd > 2
      then bnd (fd_local2global fd) (\<lambda>g.
           let k = unat g in
           bnd (is_pipe fd) (\<lambda>pipe.
           bnd (if pipe
                then bnd (upd_file k (\<lambda>f. f\<lparr>fd_pos := fd_pos f - 1\<rparr>)) (\<lambda>_.
                     bnd (get_file k) (\<lambda>f.
                     bnd (if fd_pos f = 0
                          then bnd (get_pipe (fd_inode f)) (\<lambda>_.
                               bnd (modify (\<lambda>s. s\<lparr>pipes := (pipes s)(fd_inode f := None)\<rparr>)) (\<lambda>_.
                               upd_file k (\<lambda>f. f\<lparr>fd_inode := 0\<rparr>)))
                          else ret ()) (\<lambda>_. ret 0)))
                else file_close k) (\<lambda>r.
           bnd (modify (\<lambda>s. s\<lparr>p_fd_table := (p_fd_table s)[unat fd := -1]\<rparr>)) (\<lambda>_.
           ret r))))
      else ret (-1))"

definition stdout_write :: "u8 list \<Rightarrow> u32 \<Rightarrow> (fs, s32) km" where
  "stdout_write buf count =
     bnd (liftr (memcpy (replicate 1024 0) buf (unat count))) (\<lambda>tmp_buf.
     bnd (liftr (strlen tmp_buf)) (\<lambda>_.
     bnd (modify (\<lambda>s. s\<lparr>console := console s @ cstr tmp_buf\<rparr>)) (\<lambda>_.
     ret count)))"

definition sys_write :: "s32 \<Rightarrow> u8 list \<Rightarrow> u32 \<Rightarrow> (fs, s32) km" where
  "sys_write fd buf count =
     (if sint fd < 0 then ret (-1)
      else if fd = 1
      then bnd (is_pipe fd) (\<lambda>pipe. if pipe then pipe_write fd buf count else stdout_write buf count)
      else
        bnd (is_pipe fd) (\<lambda>pipe.
        if pipe then pipe_write fd buf count
        else
          bnd (fd_local2global fd) (\<lambda>g.
          bnd (get_file (unat g)) (\<lambda>wr_file.
          if fd_flag wr_file AND O_WRONLY \<noteq> 0 \<or> fd_flag wr_file AND O_RDWR \<noteq> 0
          then file_write (unat g) buf count
          else bnd (modify (\<lambda>s. s\<lparr>console := console s @
                 cbytes ''sys_write: not allowed to write file without flag O_RDWR or O_WRONLY'' @ [10]\<rparr>)) (\<lambda>_.
               ret (-1))))))"

text \<open>Reading the keyboard waits for every byte (\<open>Block\<close> when its buffer is empty).\<close>

fun kbd_get_n :: "nat \<Rightarrow> (fs, u8 list) km" where
  "kbd_get_n 0 = ret []"
| "kbd_get_n (Suc n) =
     bnd (gets kbd_buf) (\<lambda>ioq.
     bnd (liftr (ioq_getchar ioq)) (\<lambda>(c, t, ioq).
     bnd (modify (\<lambda>s. s\<lparr>kbd_buf := ioq\<rparr>)) (\<lambda>_.
     bnd (wake t) (\<lambda>_.
     bnd (kbd_get_n n) (\<lambda>cs. ret (c # cs))))))"

text \<open>
  \<open>buf\<close> is what the caller's buffer holds, the answer what is stored there. A standard input that
  is a pipe is written to, as the code does.
\<close>

definition sys_read :: "s32 \<Rightarrow> u8 list \<Rightarrow> u32 \<Rightarrow> (fs, s32 \<times> u8 list) km" where
  "sys_read fd buf count =
     (if sint fd < 0 \<or> fd = 1 \<or> fd = 2 then ret (-1, [])
      else if fd = 0
      then bnd (is_pipe fd) (\<lambda>pipe.
           if pipe then bnd (pipe_write fd buf count) (\<lambda>r. ret (r, []))
           else bnd (kbd_get_n (unat count)) (\<lambda>bytes.
                ret (if count = 0 then -1 else count, bytes)))
      else
        bnd (is_pipe fd) (\<lambda>pipe.
        if pipe then pipe_read fd count
        else bnd (fd_local2global fd) (\<lambda>g. file_read (unat g) count)))"

definition sys_Iseek :: "s32 \<Rightarrow> s32 \<Rightarrow> u8 \<Rightarrow> (fs, s32) km" where
  "sys_Iseek fd off whence =
     (if sint fd < 0 then ret (-1)
      else
        bnd (kassert ''whence > 0 && whence < 4'' (whence > 0 \<and> whence < 4)) (\<lambda>_.
        bnd (fd_local2global fd) (\<lambda>g.
        bnd (get_file (unat g)) (\<lambda>pf.
        bnd (get_inode (fd_inode pf)) (\<lambda>i.
        let file_size = i_size i;
            new_pos = (if whence = 1 then off
                       else if whence = 2 then fd_pos pf + off
                       else file_size + off)
        in if sint new_pos < 0 \<or> sint new_pos > sint (file_size - 1) then ret (-1)
           else bnd (upd_file (unat g) (\<lambda>f. f\<lparr>fd_pos := new_pos\<rparr>)) (\<lambda>_. ret new_pos))))))"

text \<open>
  The number that \<open>fd_inode->i_no\<close> reads: the first word of the object, which for a pipe is the
  holder of the ring buffer's lock.
\<close>

definition first_word :: "ptr \<Rightarrow> (fs, u32) km" where
  "first_word p = (\<lambda>s. case inodes s p of
     Some i \<Rightarrow> Inr (i_no i, s)
   | None \<Rightarrow> (case pipes s p of Some q \<Rightarrow> Inr (holder (q_lock q), s) | None \<Rightarrow> Inl (Fault ''fd_inode'')))"

fun in_file_table :: "u32 \<Rightarrow> file_t list \<Rightarrow> (fs, bool) km" where
  "in_file_table inode_no [] = ret False"
| "in_file_table inode_no (f # fs) =
     (if fd_inode f \<noteq> 0
      then bnd (first_word (fd_inode f)) (\<lambda>no.
           if no = inode_no then ret True else in_file_table inode_no fs)
      else in_file_table inode_no fs)"

definition sys_unlink :: "u8 list \<Rightarrow> (fs, s32) km" where
  "sys_unlink pathname =
     bnd (liftr (strlen pathname)) (\<lambda>n.
     bnd (kassert ''strlen(pathname) < MAX_PATH_LEN'' (n < MAX_PATH_LEN)) (\<lambda>_.
     bnd (search_file pathname empty_record) (\<lambda>(inode_no, searched_record).
     let parent = parent_dir searched_record in
     bnd (kassert ''inode_no != 0'' (inode_no \<noteq> 0)) (\<lambda>_.
     if inode_no = -1 then bnd (dir_close parent) (\<lambda>_. ret (-1))
     else if file_type searched_record = FT_DIRECTORY then bnd (dir_close parent) (\<lambda>_. ret (-1))
     else
       bnd (gets file_table) (\<lambda>ft.
       bnd (in_file_table inode_no ft) (\<lambda>in_use.
       if in_use then bnd (dir_close parent) (\<lambda>_. ret (-1))
       else
         bnd sys_malloc_ok (\<lambda>ok.
         if \<not> ok then bnd (dir_close parent) (\<lambda>_. ret (-1))
         else
           bnd (delete_dir_entry parent inode_no) (\<lambda>_.
           bnd (inode_release inode_no) (\<lambda>_.
           bnd (dir_close parent) (\<lambda>_. ret 0))))))))))"

section \<open>Seeking\<close>

text \<open>The descriptor \<open>fd\<close> is open on a file with entry \<open>f\<close> and inode \<open>i\<close>.\<close>

definition file_fd :: "fs \<Rightarrow> u32 \<Rightarrow> file_t \<Rightarrow> inode \<Rightarrow> bool" where
  "file_fd s fd f i \<longleftrightarrow> unat fd < length (p_fd_table s) \<and> length (file_table s) = MAX_FILE_OPEN \<and>
     unat (p_fd_table s ! unat fd) < MAX_FILE_OPEN \<and> f = file_table s ! unat (p_fd_table s ! unat fd) \<and>
     inodes s (fd_inode f) = Some i"

text \<open>The position that a call asks for, as an integer.\<close>

definition seek_target :: "u8 \<Rightarrow> s32 \<Rightarrow> file_t \<Rightarrow> inode \<Rightarrow> int" where
  "seek_target whence off f i =
     (if whence = 1 then 0 else if whence = 2 then sint (fd_pos f) else int (unat (i_size i))) + sint off"

lemma sint_in_range: "- 2147483648 \<le> x \<Longrightarrow> x < 2147483648 \<Longrightarrow> sint (word_of_int x :: s32) = x"
  using signed_take_bit_int_eq_self [of 31 x]
  by (simp add: sint_sbintrunc' [where 'a = 32, simplified])

text \<open>C34: Seeking computes the position asked for (from the start, the current position or the end) as
  an integer when it fits in 32 bits; the position moves exactly when it lies inside the file,
  otherwise the call gives -1 and changes nothing. A position beyond the last byte, the end of
  the file included, is refused.\<close>

theorem sys_Iseek_bounds:
  assumes "file_fd s fd f i" and "0 \<le> sint fd" and "whence \<in> {1, 2, 3}" and "unat (i_size i) < 2147483648"
    and "- 2147483648 \<le> seek_target whence off f i" and "seek_target whence off f i < 2147483648"
  shows "sys_Iseek fd off whence s =
    (if 0 \<le> seek_target whence off f i \<and> seek_target whence off f i < int (unat (i_size i))
     then Inr (word_of_int (seek_target whence off f i),
       s\<lparr>file_table := (file_table s)[unat (p_fd_table s ! unat fd) :=
         f\<lparr>fd_pos := word_of_int (seek_target whence off f i)\<rparr>]\<rparr>)
     else Inr (- 1, s))"
proof -
  let ?t = "seek_target whence off f i" and ?k = "unat (p_fd_table s ! unat fd)"
  have l2g: "fd_local2global fd s = Inr (p_fd_table s ! unat fd, s)"
    using assms(1) by (intro fd_local2global_run) (simp_all add: file_fd_def)
  have f: "get_file ?k s = Inr (f, s)" "?k < length (file_table s)" "inodes s (fd_inode f) = Some i" "file_table s ! ?k = f"
    using assms(1) unfolding file_fd_def by (auto simp: get_file_def)
  have new: "(if whence = 1 then off else if whence = 2 then fd_pos f + off else i_size i + off) = word_of_int ?t"
    using assms(3) by (auto simp: seek_target_def)
  have "sint (word_of_int (int (unat (i_size i)) - 1) :: s32) = int (unat (i_size i)) - 1"
    using assms(4) by (intro sint_in_range) linarith+
  moreover have "i_size i - 1 = word_of_int (int (unat (i_size i)) - 1)" by simp
  ultimately have size: "sint (i_size i - 1) = int (unat (i_size i)) - 1" by (simp only:)
  have w: "whence > 0 \<and> whence < 4" using assms(3) by auto
  have range: "(sint (word_of_int ?t :: s32) < 0 \<or> sint (word_of_int ?t :: s32) > sint (i_size i - 1)) \<longleftrightarrow>
      \<not> (0 \<le> ?t \<and> ?t < int (unat (i_size i)))"
    unfolding sint_in_range [OF assms(5,6)] size by auto
  have "sys_Iseek fd off whence s = (if \<not> (0 \<le> ?t \<and> ?t < int (unat (i_size i))) then ret (- 1)
      else bnd (upd_file ?k (\<lambda>f. f\<lparr>fd_pos := word_of_int ?t\<rparr>)) (\<lambda>_. ret (word_of_int ?t))) s"
    using assms(2) w
    by (simp add: sys_Iseek_def bnd_Inr [where m = "fd_local2global fd" and s = s, OF l2g]
        bnd_Inr [where m = "get_file ?k" and s = s, OF f(1)] bnd_get_inode [OF f(3)] Let_def new range
        del: split_paired_Ex)
  then show ?thesis
    using f(2,4) by (simp add: upd_file_def bnd_assoc bnd_Inr [where m = "get_file ?k" and s = s, OF f(1)] set_file_def)
qed

theorem sys_Iseek_bounds_witness:
  "\<exists>s'. sys_Iseek 3 (-1) 3 (sample_fs\<lparr>inodes := [0 \<mapsto> (inode_init 5)\<lparr>i_size := 9\<rparr>], p_fd_table := [0, 1, 2, 4]\<rparr>) = Inr (8, s')"
proof -
  let ?s = "sample_fs\<lparr>inodes := [0 \<mapsto> (inode_init 5)\<lparr>i_size := 9\<rparr>], p_fd_table := [0, 1, 2, 4]\<rparr>"
  let ?f = "\<lparr>fd_pos = 0, fd_flag = 0, fd_inode = 0\<rparr>"
  have "file_fd ?s 3 ?f ((inode_init 5)\<lparr>i_size := 9\<rparr>)"
    by (simp add: file_fd_def sample_fs_def MAX_FILE_OPEN_def)
  from sys_Iseek_bounds [OF this, of 3 "-1"] show ?thesis by (simp add: seek_target_def)
qed

end
