(* ===== verification/Pipe_Calls.thy ===== *)
theory Pipe_Calls
  imports Fs
begin

text \<open>
  The system calls on pipes together: \<open>sys_pipe\<close> gives two descriptors of one fresh pipe, and
  what \<open>sys_write\<close> puts into the one \<open>sys_read\<close> takes out of the other.
\<close>

lemma first_from_Some:
  "first_from P n k = Some r \<Longrightarrow> k \<le> r \<and> r < k + n \<and> P r"
  by (induction P n k rule: first_from.induct) (auto split: if_splits)

lemma first_from_exists:
  "P r \<Longrightarrow> k \<le> r \<Longrightarrow> r < k + n \<Longrightarrow> \<exists>q. first_from P n k = Some q"
proof (induction P n k rule: first_from.induct)
  case (2 P n k)
  then show ?case by (cases "r = k") auto
qed simp

definition free_fd :: "fs \<Rightarrow> nat \<Rightarrow> bool" where
  "free_fd s k \<longleftrightarrow> 3 \<le> k \<and> k < MAX_FILES_OPEN_PER_PROC \<and> p_fd_table s ! k = -1"

lemma pcb_fd_install_run:
  assumes "free_fd s k" and "length (p_fd_table s) = MAX_FILES_OPEN_PER_PROC"
  shows "\<exists>a. free_fd s a \<and> pcb_fd_install g s = Inr (of_nat a, s\<lparr>p_fd_table := (p_fd_table s)[a := g]\<rparr>)"
proof -
  obtain a where a: "first_from (\<lambda>k. p_fd_table s ! k = -1) (MAX_FILES_OPEN_PER_PROC - 3) 3 = Some a"
    using first_from_exists [of "\<lambda>k. p_fd_table s ! k = -1" k 3 "MAX_FILES_OPEN_PER_PROC - 3"] assms(1)
    by (auto simp: free_fd_def MAX_FILES_OPEN_PER_PROC_def)
  then show ?thesis using first_from_Some [OF a]
    by (intro exI [of _ a]) (simp add: pcb_fd_install_def free_fd_def MAX_FILES_OPEN_PER_PROC_def)
qed

lemma get_free_slot_run:
  assumes "3 \<le> k" and "k < MAX_FILE_OPEN" and "fd_inode (file_table s ! k) = 0"
  shows "\<exists>g. 3 \<le> g \<and> g < MAX_FILE_OPEN \<and> fd_inode (file_table s ! g) = 0 \<and> get_free_slot_in_global s = Inr (of_nat g, s)"
proof -
  obtain g where g: "first_from (\<lambda>k. fd_inode (file_table s ! k) = 0) (MAX_FILE_OPEN - 3) 3 = Some g"
    using first_from_exists [of "\<lambda>k. fd_inode (file_table s ! k) = 0" k 3 "MAX_FILE_OPEN - 3"] assms
    by (auto simp: MAX_FILE_OPEN_def)
  then show ?thesis using first_from_Some [OF g]
    by (intro exI [of _ g]) (simp add: get_free_slot_in_global_def MAX_FILE_OPEN_def)
qed

lemma get_file_run: "k < length (file_table s) \<Longrightarrow> get_file k s = Inr (file_table s ! k, s)"
  by (simp add: get_file_def)

lemma bnd_upd_file:
  "k < length (file_table s) \<Longrightarrow>
   bnd (upd_file k g) f s = f () (s\<lparr>file_table := (file_table s)[k := g (file_table s ! k)]\<rparr>)"
  by (simp add: upd_file_def bnd_assoc set_file_def get_file_def bnd_def)

text \<open>The state after \<open>sys_pipe\<close>.\<close>

lemma sys_pipe_run:
  assumes tables: "length (file_table s) = MAX_FILE_OPEN" "length (p_fd_table s) = MAX_FILES_OPEN_PER_PROC"
    and slot: "3 \<le> k" "k < MAX_FILE_OPEN" "fd_inode (file_table s ! k) = 0"
    and fds: "free_fd s i" "free_fd s j" "i \<noteq> j" and m: "malloc_ok s (mallocs s)"
  shows "\<exists>a b s' q. sys_pipe s = Inr ((0, [of_nat a, of_nat b]), s') \<and> a \<noteq> b \<and> free_fd s a \<and> free_fd s b \<and>
    pipe_end s' (of_nat a) (next_addr s) \<and> pipe_end s' (of_nat b) (next_addr s) \<and>
    pipes s' (next_addr s) = Some q \<and> ioq_wf q \<and> ioq_content q = []"
proof -
  obtain g where g: "3 \<le> g" "g < MAX_FILE_OPEN" "get_free_slot_in_global s = Inr (of_nat g, s)"
    using get_free_slot_run [OF slot] by blast
  have ug: "unat (of_nat g :: u32) = g" using g(2) by (intro unat_of_nat_u32) (simp add: MAX_FILE_OPEN_def)
  let ?q = "ioqueue_init zero_ioqueue" and ?p = "next_addr s"
  define f where "f = file_table s ! g"
  define s1 where "s1 = s\<lparr>mallocs := Suc (mallocs s), next_addr := Suc ?p, pipes := (pipes s)(?p \<mapsto> ?q),
      file_table := (file_table s)[g := f\<lparr>fd_inode := ?p, fd_flag := PIPE_FLAG, fd_pos := 2\<rparr>]\<rparr>"
  have s1: "p_fd_table s1 = p_fd_table s" "pipes s1 ?p = Some ?q" "length (file_table s1) = MAX_FILE_OPEN"
    "file_table s1 ! g = f\<lparr>fd_inode := ?p, fd_flag := PIPE_FLAG, fd_pos := 2\<rparr>"
    using g(2) tables(1) by (simp_all add: s1_def)
  have head: "sys_pipe s = bnd (pcb_fd_install (of_nat g)) (\<lambda>fd0.
      bnd (pcb_fd_install (of_nat g)) (\<lambda>fd1. ret (0, [fd0, fd1]))) s1"
    using g(2) m tables(1) unfolding sys_pipe_def
    by (simp add: bnd_Inr [where m = get_free_slot_in_global and s = s, OF g(3)] ug bnd_upd_file set_pipe_def s1_def f_def)
  have "free_fd s1 i" using fds(1) by (simp add: free_fd_def s1(1))
  from pcb_fd_install_run [OF this, of "of_nat g"] tables(2) obtain a where
    a: "free_fd s1 a" "pcb_fd_install (of_nat g) s1 = Inr (of_nat a, s1\<lparr>p_fd_table := (p_fd_table s1)[a := of_nat g]\<rparr>)"
    by (auto simp: s1(1))
  let ?s2 = "s1\<lparr>p_fd_table := (p_fd_table s1)[a := of_nat g]\<rparr>"
  define c where "c = (if a = i then j else i)"
  have c: "free_fd ?s2 c" using fds by (auto simp: free_fd_def s1(1) c_def)
  have "length (p_fd_table ?s2) = MAX_FILES_OPEN_PER_PROC" using tables(2) by (simp add: s1(1))
  from pcb_fd_install_run [OF c this, of "of_nat g"] obtain b where
    b: "free_fd ?s2 b" "pcb_fd_install (of_nat g) ?s2 = Inr (of_nat b, ?s2\<lparr>p_fd_table := (p_fd_table ?s2)[b := of_nat g]\<rparr>)"
    by blast
  let ?s3 = "?s2\<lparr>p_fd_table := (p_fd_table ?s2)[b := of_nat g]\<rparr>"
  have ab: "a < 8" "b < 8" "free_fd s a" using a(1) b(1) by (simp_all add: free_fd_def MAX_FILES_OPEN_PER_PROC_def s1(1))
  have "(of_nat g :: u32) \<noteq> -1" using g(2) by (intro u32_of_nat_not_minus1) (simp add: MAX_FILE_OPEN_def)
  then have neq: "a \<noteq> b" using b(1) ab(1) tables(2)
    by (auto simp: free_fd_def s1(1) MAX_FILES_OPEN_PER_PROC_def)
  then have "free_fd s b" using b(1) by (simp add: free_fd_def s1(1))
  moreover have "pipe_end ?s3 (of_nat n) ?p" if "n = a \<or> n = b" for n
    using that ab tables s1 g(2) ug by (auto simp: pipe_end_def unat_of_nat_u32 MAX_FILES_OPEN_PER_PROC_def nth_list_update)
  moreover have "sys_pipe s = Inr ((0, [of_nat a, of_nat b]), ?s3)"
    unfolding head using a(2) b(2) by (simp add: bnd_def)
  moreover have "ioq_wf ?q" "ioq_content ?q = []"
    by (simp_all add: ioqueue_init_def zero_ioqueue_def ioq_wf_def ioq_content_def ioq_count_def)
  ultimately show ?thesis using neq ab(3) s1(2)
    by (intro exI [of _ a] exI [of _ b] exI [of _ ?s3] exI [of _ ?q]) simp
qed

lemma is_pipe_run:
  assumes "pipe_end s fd p"
  shows "bnd (is_pipe fd) f s = f True s"
proof -
  obtain fl where fl: "get_file (unat (p_fd_table s ! unat fd)) s = Inr (fl, s)" "fd_flag fl = PIPE_FLAG"
    using pipe_end_file(2) [OF assms] by blast
  show ?thesis
    unfolding is_pipe_def bnd_assoc
    by (simp add: bnd_Inr [where m = "fd_local2global fd" and s = s, OF pipe_end_file(1) [OF assms]]
        bnd_Inr [where m = "get_file (unat (p_fd_table s ! unat fd))" and s = s, OF fl(1)] fl(2) bnd_assoc)
qed

lemma sint_fd: "3 \<le> a \<Longrightarrow> a < 8 \<Longrightarrow> sint (of_nat a :: s32) = int a"
  by (subst sint_small) (simp_all add: unat_of_nat_u32)

lemma pipe_calls:
  assumes "3 \<le> a" and "a < 8" and "pipe_end s (of_nat a) p"
  shows "sys_write (of_nat a) bs count s = pipe_write (of_nat a) bs count s"
    and "sys_read (of_nat a) bs count s = pipe_read (of_nat a) count s"
proof -
  have neq: "(of_nat a :: s32) \<noteq> 0" "(of_nat a :: s32) \<noteq> 1" "(of_nat a :: s32) \<noteq> 2"
    using assms(1,2) u32_of_nat_eq [of a 0] u32_of_nat_eq [of a 1] u32_of_nat_eq [of a 2] by simp_all
  show "sys_write (of_nat a) bs count s = pipe_write (of_nat a) bs count s"
    using neq sint_fd [OF assms(1,2)] by (simp add: sys_write_def is_pipe_run [OF assms(3)])
  show "sys_read (of_nat a) bs count s = pipe_read (of_nat a) count s"
    using neq sint_fd [OF assms(1,2)] by (simp add: sys_read_def is_pipe_run [OF assms(3)])
qed

section \<open>Property\<close>

text \<open>C20: \<open>sys_pipe\<close>, with a free slot in the file table and two free descriptors, gives two different
  descriptors that were free; up to 63 bytes written to the second with \<open>sys_write\<close> are what
  \<open>sys_read\<close> takes from the first, in order, and what is not asked for stays.\<close>

theorem sys_pipe_roundtrip:
  assumes "length (file_table s) = MAX_FILE_OPEN" and "length (p_fd_table s) = MAX_FILES_OPEN_PER_PROC"
    and "3 \<le> k" and "k < MAX_FILE_OPEN" and "fd_inode (file_table s ! k) = 0"
    and "free_fd s i" and "free_fd s j" and "i \<noteq> j" and "malloc_ok s (mallocs s)" and "length bs \<le> 63"
  shows "\<exists>a b s1 s2 s3. sys_pipe s = Inr ((0, [of_nat a, of_nat b]), s1) \<and> a \<noteq> b \<and> free_fd s a \<and> free_fd s b \<and>
    sys_write (of_nat b) bs (of_nat (length bs)) s1 = Inr (of_nat (length bs), s2) \<and>
    sys_read (of_nat a) buf count s2 =
      Inr ((of_nat (min (length bs) (unat count)), take (unat count) bs), s3)"
proof -
  obtain a b s1 q where p: "sys_pipe s = Inr ((0, [of_nat a, of_nat b]), s1)" "a \<noteq> b" "free_fd s a" "free_fd s b"
      "pipe_end s1 (of_nat a) (next_addr s)" "pipe_end s1 (of_nat b) (next_addr s)"
      "pipes s1 (next_addr s) = Some q" "ioq_wf q" "ioq_content q = []"
    using sys_pipe_run [OF assms(1-9)] by blast
  have ab: "3 \<le> a" "a < 8" "3 \<le> b" "b < 8" using p(3,4) by (simp_all add: free_fd_def MAX_FILES_OPEN_PER_PROC_def)
  have len: "length (ioq_content q) + length bs \<le> 63" using assms(10) p(9) by simp
  let ?L = "length (ioq_content q)"
  obtain q' where q': "ioq.puts q bs = Inr q'" "ioq_wf q'" "ioq_content q' = bs"
    using ioq.puts_ok [OF p(8) len] p(9) by auto
  obtain w where w: "ioq_put_all bs (next_addr s) s1 = Inr ((), s1\<lparr>pipes := (pipes s1)(next_addr s \<mapsto> q'), woken := w\<rparr>)"
    using ioq_put_all_eq(1) [OF p(7) q'(1)] by blast
  let ?s = "s1\<lparr>pipes := (pipes s1)(next_addr s \<mapsto> q'), woken := w\<rparr>"
  have "pipe_write (of_nat b) bs (of_nat (length bs)) s1 = Inr (of_nat (length bs), ?s)"
    using pipe_write_run [OF p(6,7,8), of bs] w assms(10) p(9) by (simp add: bnd_def min_def)
  then have wr: "sys_write (of_nat b) bs (of_nat (length bs)) s1 = Inr (of_nat (length bs), ?s)"
    using pipe_calls(1) [OF ab(3,4) p(6)] by simp
  have e: "pipe_end ?s (of_nat a) (next_addr s)" using p(5) by (simp add: pipe_end_def)
  have ps: "pipes ?s (next_addr s) = Some q'" by simp
  let ?n = "min (length bs) (unat count)"
  obtain q'' where "ioq.gets_n q' ?n = Inr (take ?n bs, q'')"
    using ioq.gets_ok [OF q'(2), of ?n] q'(3) by auto
  then obtain w' where w': "ioq_get_n ?n (next_addr s) ?s =
      Inr (take ?n bs, ?s\<lparr>pipes := (pipes ?s)(next_addr s \<mapsto> q''), woken := w'\<rparr>)"
    using ioq_get_n_eq [OF ps] by blast
  have "take ?n bs = take (unat count) bs" by (simp add: min_def)
  then have "\<exists>s3. pipe_read (of_nat a) count ?s = Inr ((of_nat ?n, take (unat count) bs), s3)"
    using pipe_read_run [OF e ps q'(2), of count] w' q'(3) by (simp add: bnd_def Let_def)
  then show ?thesis using p(1-4) wr pipe_calls(2) [OF ab(1,2) e] by metis
qed

theorem sys_pipe_roundtrip_witness:
  "\<exists>a b s1 s2 s3. sys_pipe sample_fs = Inr ((0, [of_nat a, of_nat b]), s1) \<and>
    sys_write (of_nat b) [1, 2, 3] (of_nat (length [1 :: u8, 2, 3])) s1 = Inr (of_nat (length [1 :: u8, 2, 3]), s2) \<and>
    sys_read (of_nat a) [] 2 s2 = Inr ((of_nat (min (length [1 :: u8, 2, 3]) (unat (2 :: u32))), take (unat (2 :: u32)) [1, 2, 3]), s3)"
proof -
  have "free_fd sample_fs 3" "free_fd sample_fs 4"
    by (simp_all add: free_fd_def sample_fs_def MAX_FILES_OPEN_PER_PROC_def)
  from sys_pipe_roundtrip [OF _ _ _ _ _ this, of 3 "[1, 2, 3]" "[]" 2] show ?thesis
    unfolding MAX_FILE_OPEN_def MAX_FILES_OPEN_PER_PROC_def by (simp add: sample_fs_def) blast
qed

end
