(* ===== verification/Fs_Dirs.thy ===== *)
theory Fs_Dirs
  imports Fs
begin

text \<open>The system calls on directories of \<open>fs/fs.c\<close>, the working directory and \<open>stat\<close>.\<close>

section \<open>Creating a directory\<close>

definition sys_mkdir_rollback :: "nat \<Rightarrow> u32 \<Rightarrow> u32 \<Rightarrow> ptr \<Rightarrow> (fs, s32) km" where
  "sys_mkdir_rollback step inode_no block_bitmap_idx parent =
     bnd (whenm (step \<ge> 3) (block_bitmap_clear block_bitmap_idx)) (\<lambda>_.
     bnd (whenm (step \<ge> 2) (inode_bitmap_clear inode_no)) (\<lambda>_.
     bnd (whenm (step \<ge> 1) (dir_close parent)) (\<lambda>_.
     ret (-1))))"

text \<open>The first sector of a directory: the entries \<open>.\<close> and \<open>..\<close>.\<close>

definition dot_entry :: "u32 \<Rightarrow> dir_entry" where
  "dot_entry inode_no =
     \<lparr>filename = asc CHR ''.'' # replicate 15 0, de_i_no = inode_no, f_type = ft_code FT_DIRECTORY\<rparr>"

definition first_sector :: "u32 \<Rightarrow> u32 \<Rightarrow> u8 list res" where
  "first_sector inode_no parent_no =
     rbind (create_dir_entry (cstring ''..'') parent_no FT_DIRECTORY zero_entry) (\<lambda>dotdot.
     Inr (splice 0 (dir_entry_bytes (dot_entry inode_no) @ dir_entry_bytes dotdot) (replicate 512 0)))"

definition sys_mkdir :: "u8 list \<Rightarrow> (fs, s32) km" where
  "sys_mkdir pathname =
     bnd sys_malloc_ok (\<lambda>ok.
     if \<not> ok then ret (-1) else
     bnd (search_file pathname empty_record) (\<lambda>(inode_no, searched_record).
     let parent = parent_dir searched_record in
     if inode_no \<noteq> -1 then sys_mkdir_rollback 1 0 0 parent else
     bnd (liftr (path_depth_cnt pathname)) (\<lambda>pathname_depth.
     bnd (liftr (path_depth_cnt (searched_path searched_record))) (\<lambda>path_searched_depth.
     if pathname_depth \<noteq> path_searched_depth then sys_mkdir_rollback 1 0 0 parent else
     bnd (liftr (base_name (searched_path searched_record))) (\<lambda>dirname.
     bnd inode_bitmap_alloc (\<lambda>inode_no.
     if inode_no = -1 then sys_mkdir_rollback 1 0 0 parent else
     let new_dir_inode = inode_init inode_no in
     bnd block_bitmap_alloc (\<lambda>block_lba.
     if block_lba = -1 then sys_mkdir_rollback 2 inode_no 0 parent else
     bnd part_of (\<lambda>part.
     let block_bitmap_idx = block_lba - data_start_lba (sb part) in
     bnd (kassert ''block_bitmap_idx != 0'' (block_bitmap_idx \<noteq> 0)) (\<lambda>_.
     bnd (get_dir parent) (\<lambda>d.
     bnd (get_inode (d_inode d)) (\<lambda>parent_inode.
     bnd (liftr (first_sector inode_no (i_no parent_inode))) (\<lambda>io_buf.
     bnd (sec_write block_lba io_buf 1) (\<lambda>_.
     let new_dir_inode = new_dir_inode\<lparr>i_sectors := (i_sectors new_dir_inode)[0 := block_lba],
           i_size := 2 * dir_entry_size (sb part)\<rparr> in
     bnd (liftr (create_dir_entry dirname inode_no FT_DIRECTORY zero_entry)) (\<lambda>new_dir_entry.
     bnd (sync_dir_entry parent new_dir_entry) (\<lambda>synced.
     if \<not> synced then sys_mkdir_rollback 3 inode_no block_bitmap_idx parent else
     bnd (bitmap_sync block_bitmap_idx BLOCK_BITMAP) (\<lambda>_.
     bnd (get_inode (d_inode d)) (\<lambda>parent_inode.
     bnd (inode_sync parent_inode) (\<lambda>_.
     bnd (inode_sync new_dir_inode) (\<lambda>_.
     bnd (bitmap_sync inode_no INODE_BITMAP) (\<lambda>_.
     bnd (dir_close parent) (\<lambda>_.
     ret 0)))))))))))))))))))))"

section \<open>Opening, reading and removing directories\<close>

text \<open>\<open>None\<close> is \<open>NULL\<close>. The test for the root compares with the digit 0, not with the terminator.\<close>

definition sys_opendir :: "u8 list \<Rightarrow> (fs, ptr option) km" where
  "sys_opendir pathname =
     bnd (liftr (strlen pathname)) (\<lambda>n.
     bnd (kassert ''strlen(pathname) < MAX_FILE_NAME_LEN'' (n < MAX_FILE_NAME_LEN)) (\<lambda>_.
     if hd pathname = asc CHR ''/'' \<and> (pathname ! 1 = asc CHR ''0'' \<or> pathname ! 1 = asc CHR ''.'')
     then ret (Some root_dir)
     else
       bnd (search_file pathname empty_record) (\<lambda>(inode_no, searched_record).
       bnd (if inode_no = -1 then ret None
            else if file_type searched_record = FT_DIRECTORY
            then bnd (dir_open inode_no) (\<lambda>p. ret (Some p))
            else ret None) (\<lambda>r.
       bnd (dir_close (parent_dir searched_record)) (\<lambda>_. ret r)))))"

definition sys_closedir :: "ptr option \<Rightarrow> (fs, s32) km" where
  "sys_closedir pdir =
     (case pdir of None \<Rightarrow> ret (-1) | Some p \<Rightarrow> bnd (dir_close p) (\<lambda>_. ret 0))"

definition sys_readdir :: "ptr option \<Rightarrow> (fs, dir_entry option) km" where
  "sys_readdir pdir =
     (case pdir of None \<Rightarrow> fail (Panic ''dir != NULL'') | Some p \<Rightarrow> dir_read p)"

definition sys_rewinddir :: "ptr \<Rightarrow> (fs, unit) km" where
  "sys_rewinddir pdir = bnd (get_dir pdir) (\<lambda>d. set_dir pdir (d\<lparr>dir_pos := 0\<rparr>))"

definition sys_rmdir :: "u8 list \<Rightarrow> (fs, s32) km" where
  "sys_rmdir pathname =
     bnd (search_file pathname empty_record) (\<lambda>(inode_no, searched_record).
     bnd (kassert ''inode_no != 0'' (inode_no \<noteq> 0)) (\<lambda>_.
     bnd (if inode_no = -1 then ret (-1)
          else if file_type searched_record = FT_REGULAR then ret (-1)
          else
            bnd (dir_open inode_no) (\<lambda>dir.
            bnd (dir_is_empty dir) (\<lambda>empty.
            bnd (if \<not> empty then ret (-1)
                 else bnd (dir_remove (parent_dir searched_record) dir) (\<lambda>r.
                      ret (if r = 0 then 0 else -1))) (\<lambda>r.
            bnd (dir_close dir) (\<lambda>_. ret r))))) (\<lambda>ret_val.
     bnd (dir_close (parent_dir searched_record)) (\<lambda>_. ret ret_val))))"

section \<open>The working directory\<close>

definition get_parent_dir_inode_nr :: "u32 \<Rightarrow> (fs, u32) km" where
  "get_parent_dir_inode_nr child_inode_nr =
     bnd (inode_open child_inode_nr) (\<lambda>p.
     bnd (get_inode p) (\<lambda>child.
     bnd part_of (\<lambda>part.
     bnd (kassert ''block_lba >= cur_part->sb->data_start_lba''
            (i_sectors child ! 0 \<ge> data_start_lba (sb part))) (\<lambda>_.
     bnd (inode_close p) (\<lambda>_.
     bnd (sec_read (i_sectors child ! 0) 1) (\<lambda>io_buf.
     let e = entry_at 1 io_buf in
     bnd (kassert ''dir_e[1].i_no < 4096 && dir_e[1].f_type == FT_DIRECTORY''
            (de_i_no e < 4096 \<and> f_type e = ft_code FT_DIRECTORY)) (\<lambda>_.
     ret (de_i_no e))))))))"

fun find_child :: "u8 list \<Rightarrow> u32 \<Rightarrow> nat \<Rightarrow> nat \<Rightarrow> nat option" where
  "find_child buf c_inode_nr 0 k = None"
| "find_child buf c_inode_nr (Suc n) k =
     (if de_i_no (entry_at k buf) = c_inode_nr then Some k else find_child buf c_inode_nr n (Suc k))"

fun find_child_blocks :: "u32 \<Rightarrow> nat \<Rightarrow> u32 list \<Rightarrow> u8 list \<Rightarrow> (fs, u8 list option) km" where
  "find_child_blocks c_inode_nr cnt [] path = ret None"
| "find_child_blocks c_inode_nr cnt (lba # blocks) path =
     (if lba = 0 then find_child_blocks c_inode_nr cnt blocks path
      else
        bnd (sec_read lba 1) (\<lambda>io_buf.
        case find_child io_buf c_inode_nr cnt 0 of
          None \<Rightarrow> find_child_blocks c_inode_nr cnt blocks path
        | Some k \<Rightarrow>
            bnd (liftr (strcat path (cstring ''/''))) (\<lambda>path.
            bnd (liftr (strcat path (drop (24 * k) io_buf))) (\<lambda>path.
            ret (Some path)))))"

definition get_child_dir_name :: "u32 \<Rightarrow> u32 \<Rightarrow> u8 list \<Rightarrow> (fs, u8 list option) km" where
  "get_child_dir_name p_inode_nr c_inode_nr path =
     bnd (inode_open p_inode_nr) (\<lambda>p.
     bnd (get_inode p) (\<lambda>parent.
     bnd (all_blocks_of parent) (\<lambda>all_blocks.
     bnd (inode_close p) (\<lambda>_.
     bnd entry_size (\<lambda>sz.
     find_child_blocks c_inode_nr (unat (512 div sz))
       (take (if i_sectors parent ! 12 \<noteq> 0 then 140 else 12) all_blocks) path)))))"

text \<open>The climb to the root; it ends only if the parents do.\<close>

partial_function (option) cwd_loop :: "u32 \<Rightarrow> u8 list \<Rightarrow> fs \<Rightarrow> (err + (u8 list option \<times> fs)) option" where
  "cwd_loop child path s =
     (if child = 0 then Some (Inr (Some path, s))
      else case get_parent_dir_inode_nr child s of
             Inl e \<Rightarrow> Some (Inl e)
           | Inr (parent, s) \<Rightarrow>
               (case get_child_dir_name parent child path s of
                  Inl e \<Rightarrow> Some (Inl e)
                | Inr (None, s) \<Rightarrow> Some (Inr (None, s))
                | Inr (Some path, s) \<Rightarrow> cwd_loop parent path s))"

lemma strrchr_loop_index:
  "strrchr_loop p ch i r = Inr (Some k) \<Longrightarrow> r = Some k \<or> i \<le> k \<and> k < i + length (cstr p)"
  by (induction p ch i r rule: strrchr_loop.induct) (auto split: if_splits)

lemma strrchr_index: "strrchr p ch = Inr (Some k) \<Longrightarrow> k < length (cstr p)"
  using strrchr_loop_index [of p ch 0 None k] by (simp add: strrchr_def)

lemma cstr_cut: "k < length (cstr p) \<Longrightarrow> cstr (p[k := 0]) = take k (cstr p)"
  by (induction p arbitrary: k) (auto split: nat.splits if_splits)

text \<open>Reversing the components: each last one is moved to the end of the result.\<close>

function cwd_reverse :: "u8 list \<Rightarrow> u8 list \<Rightarrow> u8 list res" where
  "cwd_reverse full_path_reverse buf =
     (case strrchr full_path_reverse (asc CHR ''/'') of
        Inl e \<Rightarrow> Inl e
      | Inr None \<Rightarrow> Inr buf
      | Inr (Some k) \<Rightarrow>
          rbind (strlen buf) (\<lambda>n.
          let len = unat (ucast n :: u16)
          in rbind (strcpy (drop len buf) (drop k full_path_reverse)) (\<lambda>t.
             cwd_reverse (full_path_reverse[k := 0]) (take len buf @ t))))"
  by pat_completeness auto
termination
  by (relation "measure (\<lambda>(full, buf). length (cstr full))")
     (auto dest!: strrchr_index simp: cstr_cut)

declare cwd_reverse.simps [simp del]

definition sys_getcwd :: "u8 list \<Rightarrow> u32 \<Rightarrow> (fs, u8 list option) km" where
  "sys_getcwd buf sz =
     bnd sys_malloc_ok (\<lambda>ok.
     if \<not> ok then ret None else
     bnd (gets p_cwd_inode_no) (\<lambda>child_inode_no.
     bnd (kassert ''child_inode_no >= 0 && child_inode_no < 4096''
            (0 \<le> sint child_inode_no \<and> sint child_inode_no < 4096)) (\<lambda>_.
     if child_inode_no = 0
     then bnd (liftr (buf_write 0 (cstring ''/'') buf)) (\<lambda>buf. ret (Some buf))
     else
       bnd (liftr (memset buf 0 (unat sz))) (\<lambda>buf.
       bnd (\<lambda>s. case cwd_loop child_inode_no (replicate 512 0) s of None \<Rightarrow> Inl Hang | Some r \<Rightarrow> r) (\<lambda>r.
       case r of
         None \<Rightarrow> ret None
       | Some full_path_reverse \<Rightarrow>
           bnd (liftr (strlen full_path_reverse)) (\<lambda>n.
           bnd (kassert ''strlen(full_path_reverse) <= size'' (n \<le> sz)) (\<lambda>_.
           bnd (liftr (cwd_reverse full_path_reverse buf)) (\<lambda>buf.
           ret (Some buf)))))))))"

definition sys_chdir :: "u8 list \<Rightarrow> (fs, s32) km" where
  "sys_chdir path =
     bnd (search_file path empty_record) (\<lambda>(inode_no, searched_record).
     bnd (if inode_no \<noteq> -1 \<and> file_type searched_record \<noteq> FT_REGULAR
          then bnd (modify (\<lambda>s. s\<lparr>p_cwd_inode_no := inode_no\<rparr>)) (\<lambda>_. ret 0)
          else ret (-1)) (\<lambda>r.
     bnd (dir_close (parent_dir searched_record)) (\<lambda>_. ret r)))"

section \<open>Attributes\<close>

record stat =
  st_ino :: u32
  st_size :: u32
  st_filetype :: file_types

definition sys_stat :: "u8 list \<Rightarrow> (fs, s32 \<times> stat option) km" where
  "sys_stat path =
     bnd (liftr (is_root_path path)) (\<lambda>root.
     if root
     then bnd (get_dir root_dir) (\<lambda>d.
          bnd (get_inode (d_inode d)) (\<lambda>i.
          ret (0, Some \<lparr>st_ino = 0, st_size = i_size i, st_filetype = FT_DIRECTORY\<rparr>)))
     else
       bnd (search_file path empty_record) (\<lambda>(inode_no, search_record).
       bnd (if inode_no \<noteq> -1
            then bnd (inode_open inode_no) (\<lambda>p.
                 bnd (get_inode p) (\<lambda>i.
                 bnd (inode_close p) (\<lambda>_.
                 ret (0, Some \<lparr>st_ino = inode_no, st_size = i_size i, st_filetype = file_type search_record\<rparr>))))
            else ret (-1, None)) (\<lambda>r.
       bnd (dir_close (parent_dir search_record)) (\<lambda>_. ret r))))"

section \<open>The working directory's path\<close>

text \<open>The path of a list of names.\<close>

definition path_of :: "u8 list list \<Rightarrow> u8 list" where
  "path_of names = concat (List.map (\<lambda>c. asc CHR ''/'' # c) names)"

definition name_ok :: "u8 list \<Rightarrow> bool" where
  "name_ok c \<longleftrightarrow> 0 \<notin> set c \<and> asc CHR ''/'' \<notin> set c"

lemma path_of_simps [simp]:
  "path_of [] = []" "path_of (c # cs) = asc CHR ''/'' # c @ path_of cs" "path_of (xs @ ys) = path_of xs @ path_of ys"
  by (simp_all add: path_of_def)

lemma take_cstr: "0 \<in> set p \<Longrightarrow> take (length (cstr p)) p = cstr p"
  by (induction p) auto

lemma cstr_drop: "k \<le> length (cstr p) \<Longrightarrow> cstr (drop k p) = drop k (cstr p)"
  by (induction p arbitrary: k) (auto simp: drop_Cons split: nat.splits if_splits)

lemma nul_drop: "0 \<in> set p \<Longrightarrow> k \<le> length (cstr p) \<Longrightarrow> 0 \<in> set (drop k p)"
  by (induction p arbitrary: k) (auto simp: drop_Cons split: nat.splits if_splits)

lemma slash_ascii: "asc CHR ''/'' = 47"
  by (simp add: asc_def)

lemma cwd_reverse_run:
  "0 \<in> set full \<Longrightarrow> cstr full = path_of (rev names) \<Longrightarrow> list_all name_ok names \<Longrightarrow> 0 \<in> set buf \<Longrightarrow>
   length (cstr buf) + length (path_of names) < length buf \<Longrightarrow> length buf \<le> 65536 \<Longrightarrow>
   \<exists>b. cwd_reverse full buf = Inr b \<and> length b = length buf \<and> 0 \<in> set b \<and> cstr b = cstr buf @ path_of names"
proof (induction names arbitrary: full buf)
  case Nil
  then have "strrchr full (asc CHR ''/'') = Inr None"
    by (simp add: strrchr_def strrchr_loop_none slash_ascii)
  then show ?case using Nil by (simp add: cwd_reverse.simps [of full])
next
  case (Cons c names)
  let ?k = "length (path_of (rev names))" and ?len = "length (cstr buf)"
  have c: "0 \<notin> set c" "asc CHR ''/'' \<notin> set c" using Cons.prems(3) by (simp_all add: name_ok_def)
  have full: "cstr full = path_of (rev names) @ asc CHR ''/'' # c" using Cons.prems(2) by simp
  have "strrchr full (asc CHR ''/'') = Inr (Some (0 + ?k))"
    unfolding strrchr_def by (rule strrchr_loop_some [OF Cons.prems(1) _ full c(2)]) (simp add: slash_ascii)
  then have k: "strrchr full (asc CHR ''/'') = Inr (Some ?k)" by simp
  have kl: "?k < length (cstr full)" by (simp add: full)
  have len: "?len < 65536" using Cons.prems(5,6) by simp
  have ulen: "unat (ucast (of_nat ?len :: u32) :: u16) = ?len"
    using len by (simp add: unsigned_ucast_eq take_bit_nat_eq_self unat_of_nat_u32)
  have src: "cstr (drop ?k full) = asc CHR ''/'' # c" "0 \<in> set (drop ?k full)"
    using cstr_drop [of ?k full] nul_drop [of full ?k] Cons.prems(1) kl by (simp_all add: full)
  let ?t = "(asc CHR ''/'' # c) @ 0 # drop (Suc (Suc (length c))) (drop ?len buf)"
  have cpy: "strcpy (drop ?len buf) (drop ?k full) = Inr ?t"
    using strcpy_eq [OF src(2), of "drop ?len buf"] Cons.prems(5) by (simp add: src(1))
  let ?buf = "take ?len buf @ ?t"
  have tb: "take ?len buf = cstr buf" by (rule take_cstr [OF Cons.prems(4)])
  have buf: "length ?buf = length buf" "0 \<in> set ?buf" "cstr ?buf = cstr buf @ asc CHR ''/'' # c"
  proof -
    show "length ?buf = length buf" using Cons.prems(5) by simp
    show "0 \<in> set ?buf" by simp
    have "cstr (xs @ 0 # ys) = xs" if "0 \<notin> set xs" for xs ys
      using that by (induction xs) auto
    from this [of "cstr buf @ asc CHR ''/'' # c"] show "cstr ?buf = cstr buf @ asc CHR ''/'' # c"
      unfolding tb using c(1) by (simp add: slash_ascii cstr_no_nul)
  qed
  have cut: "cstr (full[?k := 0]) = path_of (rev names)" using cstr_cut [OF kl] by (simp add: full)
  have "?k < length full"
  proof -
    have "length (cstr full) \<le> length full" unfolding cstr_def by (rule length_takeWhile_le)
    then show ?thesis using kl by simp
  qed
  then have nul: "0 \<in> set (full[?k := 0])" by (rule set_update_memI)
  have "\<exists>b. cwd_reverse (full[?k := 0]) ?buf = Inr b \<and> length b = length ?buf \<and> 0 \<in> set b \<and> cstr b = cstr ?buf @ path_of names"
    by (rule Cons.IH [OF nul cut _ buf(2)]) (use Cons.prems(3,5,6) buf(1,3) in simp_all)
  moreover have "cwd_reverse full buf = cwd_reverse (full[?k := 0]) ?buf"
    using cwd_reverse.simps [of full buf] k cpy Cons.prems(4) by (simp add: strlen_eq ulen Let_def)
  ultimately show ?case unfolding buf(1,3) by auto
qed

text \<open>The last step of \<open>getcwd\<close>: from the path collected on the way up to the root, names from the
  inside out, it writes to the caller's zeroed buffer the names from the root down.\<close>

theorem cwd_reverse_correct:
  assumes "list_all name_ok names" and "length (path_of names) < n" and "n \<le> 65536"
  shows "\<exists>b. cwd_reverse (path_of (rev names) @ 0 # rest) (replicate n 0) = Inr b \<and> length b = n \<and>
    cstr b = path_of names"
proof -
  have "0 \<notin> set (path_of (rev names))"
    using assms(1) by (auto simp: path_of_def name_ok_def list_all_iff slash_ascii)
  then have c: "cstr (path_of (rev names) @ 0 # rest) = path_of (rev names)"
    by (simp add: cstr_append_0 cstr_id)
  have "cstr (replicate n 0) = []" by (cases n) simp_all
  then show ?thesis
    using cwd_reverse_run [OF _ c assms(1), of "replicate n 0"] assms(2,3) by auto
qed

theorem cwd_reverse_correct_witness:
  "\<exists>b. cwd_reverse (path_of (rev [[97], [98, 99]]) @ 0 # []) (replicate 16 0) = Inr b \<and> cstr b = [47, 97, 47, 98, 99]"
  using cwd_reverse_correct [of "[[97], [98, 99]]" 16 "[]"] by (auto simp: name_ok_def slash_ascii)

end
