(* ===== verification/Mount.thy ===== *)
theory Mount
  imports Fs_Dirs
begin

text \<open>
  Making and mounting a file system: \<open>partition_format\<close>, \<open>mount_partition\<close> and \<open>filesys_init\<close> of
  \<open>fs/fs.c\<close>, for the one disk of the model (the second disk of the first channel, the one that
  the system uses).
\<close>

section \<open>Formatting\<close>

definition DIV_ROUND_UP :: "u32 \<Rightarrow> u32 \<Rightarrow> u32" where
  "DIV_ROUND_UP x step = (x + step - 1) div step"

definition MAX_FILES_PER_PART :: u32 where "MAX_FILES_PER_PART = 4096"
definition BITS_PER_SECTOR :: u32 where "BITS_PER_SECTOR = 4096"
definition SECTOR_SIZE :: u32 where "SECTOR_SIZE = 512"

definition block_bitmap_bit_len :: "u32 \<Rightarrow> u32" where
  "block_bitmap_bit_len cnt =
     (let inode_bitmap_sects = DIV_ROUND_UP MAX_FILES_PER_PART BITS_PER_SECTOR;
          inode_table_sects = DIV_ROUND_UP (sizeof_inode * MAX_FILES_PER_PART) SECTOR_SIZE;
          used_sects = 1 + 1 + inode_bitmap_sects + inode_table_sects;
          free_sects = cnt - used_sects
      in free_sects - DIV_ROUND_UP free_sects BITS_PER_SECTOR)"

text \<open>The padding of the super block is a local variable that is not initialised: an argument.\<close>

definition format_sb :: "u8 list \<Rightarrow> u32 \<Rightarrow> u32 \<Rightarrow> super_block" where
  "format_sb pad0 start cnt =
     (let inode_bitmap_sects = DIV_ROUND_UP MAX_FILES_PER_PART BITS_PER_SECTOR;
          inode_table_sects = DIV_ROUND_UP (sizeof_inode * MAX_FILES_PER_PART) SECTOR_SIZE;
          block_bitmap_sects = DIV_ROUND_UP (block_bitmap_bit_len cnt) BITS_PER_SECTOR;
          block_bitmap_lba = start + 2;
          inode_bitmap_lba = block_bitmap_lba + block_bitmap_sects;
          inode_table_lba = inode_bitmap_lba + inode_bitmap_sects
      in \<lparr>magic = 0x19590318, sb_sec_cnt = cnt, inode_cnt = MAX_FILES_PER_PART, part_lba_base = start,
          block_bitmap_lba = block_bitmap_lba, block_bitmap_sects = block_bitmap_sects,
          inode_bitmap_lba = inode_bitmap_lba, inode_bitmap_sects = inode_bitmap_sects,
          inode_table_lba = inode_table_lba, inode_table_sects = inode_table_sects,
          data_start_lba = inode_table_lba + inode_table_sects, root_inode_no = 0,
          dir_entry_size = 24, pad = pad0\<rparr>)"

text \<open>
  The block bitmap: the first block is the root directory's; from the last byte to the end of its
  sector everything is marked, then the valid bits of that byte are cleared again (one too many:
  the loop runs to \<open>bit_idx <= block_bitmap_last_bit\<close>).
\<close>

fun clear_bits :: "nat \<Rightarrow> u8 \<Rightarrow> u8" where
  "clear_bits 0 b = b"
| "clear_bits (Suc n) b = clear_bits n (b AND NOT (push_bit n 1))"

definition format_block_bitmap :: "u32 \<Rightarrow> u8 list \<Rightarrow> u8 list res" where
  "format_block_bitmap bit_len buf =
     (let buf = buf[0 := buf ! 0 OR 1];
          last_byte = unat (bit_len div 8);
          last_bit = unat (bit_len mod 8);
          last_size = 512 - last_byte mod 512
      in if last_byte + last_size \<le> length buf
         then let buf = splice last_byte (replicate last_size 255) buf
              in Inr (buf[last_byte := clear_bits (Suc last_bit) (buf ! last_byte)])
         else Inl (Fault ''memset''))"

definition root_inode :: "u32 \<Rightarrow> inode" where
  "root_inode data_start =
     \<lparr>i_no = 0, i_size = 24 * 2, i_open_cnts = 0, write_deny = 0,
      i_sectors = data_start # replicate 12 0\<rparr>"

definition root_sector :: "u8 list" where
  "root_sector = dir_entry_bytes (dot_entry 0) @
     dir_entry_bytes \<lparr>filename = asc CHR ''.'' # asc CHR ''.'' # replicate 14 0, de_i_no = 0,
       f_type = ft_code FT_DIRECTORY\<rparr>"

definition partition_format :: "u8 list \<Rightarrow> u32 \<Rightarrow> u32 \<Rightarrow> (fs, unit) km" where
  "partition_format pad0 start cnt =
     (let sb = format_sb pad0 start cnt;
          bit_len = block_bitmap_bit_len cnt;
          buf_sects = max (max (block_bitmap_sects sb) (inode_bitmap_sects sb)) (inode_table_sects sb);
          zero_buf = replicate (unat (buf_sects * SECTOR_SIZE)) 0
      in
        bnd (sec_write (start + 1) (super_block_bytes sb) 1) (\<lambda>_.
        bnd sys_malloc_unchecked (\<lambda>_.
        bnd (liftr (format_block_bitmap bit_len zero_buf)) (\<lambda>buf.
        bnd (sec_write (block_bitmap_lba sb) buf (block_bitmap_sects sb)) (\<lambda>_.
        bnd (sec_write (inode_bitmap_lba sb) (zero_buf[0 := 1]) (inode_bitmap_sects sb)) (\<lambda>_.
        bnd (liftr (buf_write 0 (inode_bytes (root_inode (data_start_lba sb))) zero_buf)) (\<lambda>buf.
        bnd (sec_write (inode_table_lba sb) buf (inode_table_sects sb)) (\<lambda>_.
        bnd (liftr (buf_write 0 root_sector zero_buf)) (\<lambda>buf.
        sec_write (data_start_lba sb) buf 1)))))))))"

section \<open>Mounting\<close>

text \<open>An element of the partition list: its name, start and length.\<close>

record part_info =
  part_name :: "u8 list"
  part_start :: u32
  part_cnt :: u32

definition malloc_or_panic :: "(fs, unit) km" where
  "malloc_or_panic =
     bnd sys_malloc_ok (\<lambda>ok. if ok then ret () else fail (Panic ''alloc memory failed!''))"

definition mount_partition :: "u8 list \<Rightarrow> part_info \<Rightarrow> (fs, bool) km" where
  "mount_partition name part =
     bnd (liftr (strcmp (part_name part) name)) (\<lambda>c.
     if c \<noteq> 0 then ret False
     else
       bnd sys_malloc_unchecked (\<lambda>_.
       bnd malloc_or_panic (\<lambda>_.
       bnd (sec_read (part_start part + 1) 1) (\<lambda>sb_buf.
       let sb_buf = bytes_super_block sb_buf in
       bnd malloc_or_panic (\<lambda>_.
       bnd (sec_read (block_bitmap_lba sb_buf) (block_bitmap_sects sb_buf)) (\<lambda>block_bits.
       bnd malloc_or_panic (\<lambda>_.
       bnd (sec_read (inode_bitmap_lba sb_buf) (inode_bitmap_sects sb_buf)) (\<lambda>inode_bits.
       bnd (set_part (\<lambda>_. \<lparr>start_lba = part_start part, sec_cnt = part_cnt part, sb = sb_buf,
              block_bitmap = \<lparr>btmp_bytes_len = block_bitmap_sects sb_buf * SECTOR_SIZE, bits = block_bits\<rparr>,
              inode_bitmap = \<lparr>btmp_bytes_len = inode_bitmap_sects sb_buf * SECTOR_SIZE, bits = inode_bits\<rparr>,
              open_inodes = []\<rparr>)) (\<lambda>_.
       ret True)))))))))"

text \<open>\<open>list_traversal\<close> with this callback.\<close>

fun mount_list :: "u8 list \<Rightarrow> part_info list \<Rightarrow> (fs, unit) km" where
  "mount_list name [] = ret ()"
| "mount_list name (part # parts) =
     bnd (mount_partition name part) (\<lambda>found. if found then ret () else mount_list name parts)"

text \<open>The partitions of a disk: those without our magic number are formatted.\<close>

fun format_parts :: "u8 list \<Rightarrow> part_info list \<Rightarrow> (fs, unit) km" where
  "format_parts pad0 [] = ret ()"
| "format_parts pad0 (part # parts) =
     bnd (if part_cnt part \<noteq> 0
          then bnd (sec_read (part_start part + 1) 1) (\<lambda>sb_buf.
               if magic (bytes_super_block sb_buf) = 0x19590318 then ret ()
               else partition_format pad0 (part_start part) (part_cnt part))
          else ret ()) (\<lambda>_.
     format_parts pad0 parts)"

definition filesys_init :: "u8 list \<Rightarrow> part_info list \<Rightarrow> part_info list \<Rightarrow> (fs, unit) km" where
  "filesys_init pad0 parts partition_list =
     bnd malloc_or_panic (\<lambda>_.
     bnd (format_parts pad0 parts) (\<lambda>_.
     bnd (mount_list (cstring ''sdb1'') partition_list) (\<lambda>_.
     bnd open_root_dir (\<lambda>_.
     modify (\<lambda>s. s\<lparr>file_table := List.map (\<lambda>f. f\<lparr>fd_inode := 0\<rparr>) (file_table s)\<rparr>)))))"

end
