(* ===== verification/Format.thy ===== *)
theory Format
  imports Mount Dir_Listing
begin

text \<open>
  Formatting and mounting a partition: what \<open>partition_format\<close> puts on the disk is what
  \<open>mount_partition\<close> needs, so that every property stated for a mounted partition applies.
\<close>

section \<open>Regions of the disk\<close>

lemma chunks_ok_range: "unat lba + unat cnt \<le> 163840 \<Longrightarrow> chunks_ok lba cnt"
proof -
  assume fit: "unat lba + unat cnt \<le> 163840"
  have "lba + of_nat (256 * k) \<le> max_lba" if "k < (unat cnt + 255) div 256" for k
  proof -
    have "256 * k < unat cnt" using that by (simp add: less_eq_div_iff_mult_less_eq Suc_le_eq [symmetric])
    with fit have "unat (lba + of_nat (256 * k)) < 163840" by (simp add: unat_add_u32 unat_of_nat_u32 del: of_nat_mult)
    then show ?thesis by (rule lba_ok)
  qed
  then show ?thesis by (simp add: chunks_ok_def)
qed

lemma write_sectors_take: "write_sectors d lba n (take (512 * n) buf) = write_sectors d lba n buf"
proof
  fix s
  have "slice (512 * k) 512 (take (512 * n) buf) = slice (512 * k) 512 buf" if "k < n" for k
  proof -
    have "512 * k + 512 \<le> 512 * n" using that by simp
    then show ?thesis by (simp add: slice_def drop_take min_def)
  qed
  then show "write_sectors d lba n (take (512 * n) buf) s = write_sectors d lba n buf s" by (simp add: write_sectors_def)
qed

lemma region_write:
  "512 * n \<le> length buf \<Longrightarrow> n < 2 ^ 32 \<Longrightarrow> read_sectors (write_sectors d lba n buf) lba n = take (512 * n) buf"
  using read_write_sectors [of "take (512 * n) buf" n d lba] by (simp add: write_sectors_take)

lemma region_keep:
  assumes "unat lba + n < 4294967296" and "unat l + m < 4294967296" and "unat l + m \<le> unat lba \<or> unat lba + n \<le> unat l"
  shows "read_sectors (write_sectors d lba n buf) l m = read_sectors d l m"
proof -
  have "same_outside lba n d (write_sectors d lba n buf)"
    using write_sectors_same_outside [where q = 0 and c = n and n = n and lba = lba] assms(1) by simp
  then show ?thesis by (rule same_outside_read [OF _ assms])
qed

lemma sec_write_range:
  assumes "unat lba + unat cnt \<le> 163840" and "0 < unat cnt" and "0 < unat lba" and "512 * unat cnt \<le> length buf"
  shows "sec_write lba buf cnt s = Inr ((), s\<lparr>disk := write_sectors (disk s) lba (unat cnt) buf\<rparr>)"
proof (rule sec_write_run)
  show "cnt \<le> max_lba" using assms(1,3) by (simp add: word_le_nat_alt max_lba_val)
  show "0 < cnt" using assms(2) by (simp add: word_less_nat_alt)
qed (use assms chunks_ok_range in auto)

lemma bnd_sec_read_range:
  assumes "unat lba + unat cnt \<le> 163840" and "0 < unat cnt"
  shows "bnd (sec_read lba cnt) f s = f (read_sectors (disk s) lba (unat cnt)) s"
proof (rule bnd_sec_read)
  show "lba \<le> max_lba" using assms by (intro lba_ok) simp
  show "0 < cnt" using assms(2) by (simp add: word_less_nat_alt)
qed (use assms chunks_ok_range in auto)

section \<open>The numbers of the layout\<close>

definition free_sectors :: "nat \<Rightarrow> nat" where "free_sectors cnt = cnt - 611"
definition data_blocks :: "nat \<Rightarrow> nat" where "data_blocks cnt = free_sectors cnt - (free_sectors cnt + 4095) div 4096"
definition bitmap_sectors :: "nat \<Rightarrow> nat" where "bitmap_sectors cnt = (data_blocks cnt + 4095) div 4096"

lemma layout_numbers:
  assumes "620 \<le> cnt" and "cnt \<le> 163840"
  shows "8 \<le> data_blocks cnt" "data_blocks cnt < 163840" "1 \<le> bitmap_sectors cnt" "bitmap_sectors cnt \<le> 40"
    "611 + bitmap_sectors cnt + data_blocks cnt \<le> cnt"
    "data_blocks cnt \<le> 4096 * bitmap_sectors cnt" "4096 * bitmap_sectors cnt \<le> data_blocks cnt + 4095"
proof -
  define f where "f = free_sectors cnt"
  have f: "9 \<le> f" "f + 611 = cnt" using assms by (simp_all add: f_def free_sectors_def)
  define c where "c = (f + 4095) div 4096"
  have c: "4096 * c \<le> f + 4095" "f + 4095 < 4096 * c + 4096" unfolding c_def by linarith+
  have d: "data_blocks cnt = f - c" by (simp add: data_blocks_def f_def c_def)
  have cf: "c + 8 \<le> f" using c f(1) by linarith
  show *: "8 \<le> data_blocks cnt" "data_blocks cnt < 163840" using cf f assms unfolding d by linarith+
  define b where "b = bitmap_sectors cnt"
  have b: "4096 * b \<le> data_blocks cnt + 4095" "data_blocks cnt + 4095 < 4096 * b + 4096"
    unfolding b_def bitmap_sectors_def by linarith+
  show "1 \<le> bitmap_sectors cnt" "bitmap_sectors cnt \<le> 40"
    "data_blocks cnt \<le> 4096 * bitmap_sectors cnt" "4096 * bitmap_sectors cnt \<le> data_blocks cnt + 4095"
    unfolding b_def [symmetric] using b * by linarith+
  have "b \<le> c" using b(1) c(2) cf unfolding d by linarith
  then show "611 + bitmap_sectors cnt + data_blocks cnt \<le> cnt"
    unfolding b_def [symmetric] d using cf f(2) by linarith
qed

lemma round_up_4096: "unat x + 4095 < 2 ^ 32 \<Longrightarrow> unat (DIV_ROUND_UP x 4096) = (unat x + 4095) div 4096"
proof -
  assume "unat x + 4095 < 2 ^ 32"
  then have "unat (x + 4095) = unat x + 4095" by (simp add: unat_add_u32)
  moreover have "x + 4096 - 1 = x + 4095" by simp
  moreover have "unat (4096 :: u32) = 4096" by simp
  ultimately show ?thesis by (simp only: DIV_ROUND_UP_def unat_div)
qed

lemma unat_bit_len:
  assumes "620 \<le> unat cnt" and "unat cnt \<le> 163840"
  shows "unat (block_bitmap_bit_len cnt) = data_blocks (unat cnt)"
proof -
  have f: "unat (cnt - 611) = free_sectors (unat cnt)" using assms by (simp add: free_sectors_def unat_sub_u32)
  then have r: "unat (DIV_ROUND_UP (cnt - 611) 4096) = (free_sectors (unat cnt) + 4095) div 4096"
    using assms by (subst round_up_4096) (simp_all add: free_sectors_def)
  have "(free_sectors (unat cnt) + 4095) div 4096 \<le> free_sectors (unat cnt)"
    using assms by (simp add: free_sectors_def)
  then have "unat ((cnt - 611) - DIV_ROUND_UP (cnt - 611) 4096) = data_blocks (unat cnt)"
    using f r by (simp add: data_blocks_def unat_sub_u32)
  moreover have "block_bitmap_bit_len cnt = (cnt - 611) - DIV_ROUND_UP (cnt - 611) 4096"
    by (simp add: block_bitmap_bit_len_def DIV_ROUND_UP_def MAX_FILES_PER_PART_def BITS_PER_SECTOR_def
        SECTOR_SIZE_def sizeof_inode_def Let_def)
  ultimately show ?thesis by simp
qed

lemma unat_u32_plus: "unat (a :: u32) + n < 4294967296 \<Longrightarrow> n < 4294967296 \<Longrightarrow> unat (a + of_nat n) = unat a + n"
  by (simp add: unat_add_u32 unat_of_nat_u32)

lemma format_numbers:
  fixes start cnt :: u32 and pad0 :: "u8 list"
  assumes "620 \<le> unat cnt" and "unat start + unat cnt \<le> 163840"
  defines "part \<equiv> format_sb pad0 start cnt" and "b \<equiv> bitmap_sectors (unat cnt)"
  shows "unat (block_bitmap_lba part) = unat start + 2" and "unat (block_bitmap_sects part) = b"
    and "unat (inode_bitmap_lba part) = unat start + 2 + b" and "inode_bitmap_sects part = 1"
    and "unat (inode_table_lba part) = unat start + 3 + b" and "inode_table_sects part = 608"
    and "unat (data_start_lba part) = unat start + 611 + b"
    and "dir_entry_size part = 24" and "root_inode_no part = 0" and "super_block_wf part \<longleftrightarrow> length pad0 = 460"
proof -
  have N: "unat cnt \<le> 163840" using assms(2) by simp
  note lay = layout_numbers [OF assms(1) N]
  define bs where "bs = DIV_ROUND_UP (block_bitmap_bit_len cnt) 4096"
  have bs: "unat bs = b"
    unfolding bs_def using lay(2) unat_bit_len [OF assms(1) N]
    by (subst round_up_4096) (simp_all add: b_def bitmap_sectors_def)
  have part: "block_bitmap_lba part = start + of_nat 2" "block_bitmap_sects part = bs"
    "inode_bitmap_lba part = start + of_nat (2 + b)" "inode_table_lba part = start + of_nat (3 + b)"
    "data_start_lba part = start + of_nat (611 + b)"
    using bs by (auto simp: part_def format_sb_def Let_def bs_def BITS_PER_SECTOR_def DIV_ROUND_UP_def
        MAX_FILES_PER_PART_def SECTOR_SIZE_def sizeof_inode_def add.assoc [symmetric])
  have "b \<le> 40" using lay(4) by (simp add: b_def)
  then show "unat (block_bitmap_lba part) = unat start + 2" "unat (block_bitmap_sects part) = b"
    "unat (inode_bitmap_lba part) = unat start + 2 + b" "unat (inode_table_lba part) = unat start + 3 + b"
    "unat (data_start_lba part) = unat start + 611 + b"
    unfolding part using bs assms(2) by (simp_all only: unat_u32_plus)
  show "inode_bitmap_sects part = 1" "inode_table_sects part = 608"
    "dir_entry_size part = 24" "root_inode_no part = 0" "super_block_wf part \<longleftrightarrow> length pad0 = 460"
    by (simp_all add: part_def format_sb_def Let_def BITS_PER_SECTOR_def DIV_ROUND_UP_def
        MAX_FILES_PER_PART_def SECTOR_SIZE_def sizeof_inode_def super_block_wf_def)
qed

section \<open>The block bitmap\<close>

lemma bit_clear_bits: "n \<le> 8 \<Longrightarrow> bit (clear_bits n w) j \<longleftrightarrow> n \<le> j \<and> bit w j"
proof (induction n arbitrary: w)
  case (Suc n)
  then have "bit (clear_bits n (w AND NOT (push_bit n 1))) j \<longleftrightarrow> n \<le> j \<and> j \<noteq> n \<and> bit w j"
    using byte_clear_bit [of n w j] by simp
  then show ?case by auto
qed simp

lemma bit_255: "bit (255 :: u8) k \<longleftrightarrow> k < 8"
  using bit_mask_iff [where 'a = u8, of 8 k] by (simp add: mask_eq_exp_minus_1)

lemma format_block_bitmap_bits:
  assumes len: "unat bl = D" "8 \<le> D" "D < 163840" and n: "20992 \<le> n"
  obtains buf where "format_block_bitmap bl (replicate n 0) = Inr buf" and "length buf = n"
    and "\<And>k. k div 4096 \<le> (D + 4095) div 4096 - 1 \<Longrightarrow> bit (buf ! (k div 8)) (k mod 8) \<longleftrightarrow> k = 0 \<or> D < k"
proof -
  define lb where "lb = D div 8"
  define ls where "ls = 512 - lb mod 512"
  have lb: "unat (bl div 8) = lb" "unat (bl mod 8) = D mod 8"
    using len unat_div8 [of D] unat_mod8 [of D] by (simp_all add: lb_def flip: len(1))
  have range: "1 \<le> lb" "lb < 20480" using len(2,3) unfolding lb_def by linarith+
  have fits: "lb + ls \<le> n" using range n by (simp add: ls_def)
  let ?z = "(replicate n (0 :: u8))[0 := replicate n 0 ! 0 OR 1]"
  let ?m = "splice lb (replicate ls 255) ?z"
  let ?buf = "?m[lb := clear_bits (Suc (D mod 8)) (?m ! lb)]"
  have z: "?z ! j = (if j = 0 then 1 else 0)" if "j < n" for j
    using that range fits by (simp add: nth_list_update)
  have m: "?m ! j = (if lb \<le> j \<and> j < lb + ls then 255 else if j = 0 then 1 else 0)" if "j < n" for j
    using that fits z [OF that] by (subst nth_splice) auto
  show ?thesis
  proof (rule that)
    show "format_block_bitmap bl (replicate n 0) = Inr ?buf"
      using fits by (simp add: format_block_bitmap_def lb ls_def Let_def)
    show "length ?buf = n" using fits by simp
    fix k assume k: "k div 4096 \<le> (D + 4095) div 4096 - 1"
    have j: "k div 8 < n" using k n len(3) by linarith
    have byte: "?buf ! (k div 8) = (if k div 8 = lb then clear_bits (Suc (D mod 8)) 255
        else if lb \<le> k div 8 \<and> k div 8 < lb + ls then 255 else if k div 8 = 0 then 1 else 0)"
      using j fits m [OF j] range by (auto simp: nth_list_update ls_def)
    have sec: "k div 8 < lb + ls" if "lb < k div 8"
    proof -
      have "lb div 512 = D div 4096" by (simp add: lb_def flip: div_mult2_eq)
      moreover have "(D + 4095) div 4096 \<le> D div 4096 + 1" by linarith
      ultimately have "k div 8 div 512 \<le> lb div 512" using k by (simp flip: div_mult2_eq)
      then have "512 * (k div 8 div 512) \<le> 512 * (lb div 512)" by simp
      then show ?thesis
        using mult_div_mod_eq [of 512 lb] mult_div_mod_eq [of 512 "k div 8"] mod_less_divisor [of 512 lb]
          mod_less_divisor [of 512 "k div 8"] unfolding ls_def by linarith
    qed
    consider "k div 8 < lb" | "k div 8 = lb" | "lb < k div 8" by linarith
    then show "bit (?buf ! (k div 8)) (k mod 8) \<longleftrightarrow> k = 0 \<or> D < k"
    proof cases
      case 1
      then have "\<not> D < k" unfolding lb_def by (metis div_le_mono leD less_imp_le)
      then show ?thesis using 1 byte by (auto simp: bit_1_iff)
    next
      case 2
      then have "D < k \<longleftrightarrow> D mod 8 < k mod 8" unfolding lb_def by (metis div_mult_mod_eq nat_add_left_cancel_less)
      moreover have "bit (255 :: u8) (k mod 8)" by (simp only: bit_255)
      then have "bit (clear_bits (Suc (D mod 8)) 255) (k mod 8) \<longleftrightarrow> D mod 8 < k mod 8"
        by (subst bit_clear_bits) (simp_all add: Suc_le_eq del: clear_bits.simps)
      moreover have "k \<noteq> 0" using 2 range by auto
      ultimately show ?thesis using 2 byte by (simp del: clear_bits.simps)
    next
      case 3
      then have "D < k" unfolding lb_def by (metis div_le_mono not_less)
      moreover have "bit (255 :: u8) (k mod 8)" by (simp only: bit_255)
      ultimately show ?thesis using 3 byte sec by simp
    qed
  qed
qed

section \<open>What formatting leaves on the disk\<close>

text \<open>The five writes of \<open>partition_format\<close>, in order.\<close>

definition formatted :: "disk \<Rightarrow> super_block \<Rightarrow> u32 \<Rightarrow> u8 list \<Rightarrow> disk" where
  "formatted d part start map_bytes =
     (let zeros = replicate 311296 0;
          d = write_sectors d (start + 1) 1 (super_block_bytes part);
          d = write_sectors d (block_bitmap_lba part) (unat (block_bitmap_sects part)) map_bytes;
          d = write_sectors d (inode_bitmap_lba part) 1 (zeros[0 := 1]);
          d = write_sectors d (inode_table_lba part) 608
                (splice 0 (inode_bytes (root_inode (data_start_lba part))) zeros)
      in write_sectors d (data_start_lba part) 1 (splice 0 root_sector zeros))"

lemma length_root_inode [simp]: "length (inode_bytes (root_inode x)) = 76"
  by (simp add: root_inode_def inodec.length_enc inode_wf_def)

lemma length_root_sector [simp]: "length root_sector = 48"
  by (simp add: root_sector_def dentc.length_enc dir_entry_wf_def dot_entry_def)

lemma partition_format_run:
  assumes cnt: "620 \<le> unat cnt" "unat start + unat cnt \<le> 163840" and pad: "length pad0 = 460"
    and mem: "malloc_ok s = (\<lambda>_. True)"
    and map: "format_block_bitmap (block_bitmap_bit_len cnt) (replicate 311296 0) = Inr buf" "length buf = 311296"
  shows "partition_format pad0 start cnt s =
    Inr ((), s\<lparr>mallocs := Suc (mallocs s), disk := formatted (disk s) (format_sb pad0 start cnt) start buf\<rparr>)"
proof -
  let ?sb = "format_sb pad0 start cnt"
  note num = format_numbers [OF cnt, of pad0]
  have N: "unat cnt \<le> 163840" using cnt(2) by simp
  note lay = layout_numbers [OF cnt(1) N]
  have start1: "unat (start + 1) = unat start + 1" using unat_u32_plus [of start 1] cnt(2) by simp
  have sects: "unat (block_bitmap_sects ?sb) \<le> 40" using lay(4) num(2) by simp
  then have "max (max (block_bitmap_sects ?sb) (inode_bitmap_sects ?sb)) (inode_table_sects ?sb) = 608"
    using num(4,6) by (simp add: max_def word_le_nat_alt)
  then have zeros: "replicate (unat (max (max (block_bitmap_sects ?sb) (inode_bitmap_sects ?sb)) (inode_table_sects ?sb)
      * SECTOR_SIZE)) 0 = (replicate 311296 0 :: u8 list)"
    by (simp only:) (simp add: SECTOR_SIZE_def)
  have sb: "length (super_block_bytes ?sb) = 512" using superc.length_enc num(10) pad by simp
  have w1: "sec_write (start + 1) (super_block_bytes ?sb) 1 t =
      Inr ((), t\<lparr>disk := write_sectors (disk t) (start + 1) (unat (1 :: u32)) (super_block_bytes ?sb)\<rparr>)" for t :: fs
    using start1 cnt sb by (intro sec_write_range) simp_all
  have w2: "sec_write (block_bitmap_lba ?sb) buf (block_bitmap_sects ?sb) t =
      Inr ((), t\<lparr>disk := write_sectors (disk t) (block_bitmap_lba ?sb) (unat (block_bitmap_sects ?sb)) buf\<rparr>)" for t :: fs
    using num lay cnt sects map(2) by (intro sec_write_range) simp_all
  have w3: "length xs = 311296 \<Longrightarrow> sec_write (inode_bitmap_lba ?sb) xs 1 t =
      Inr ((), t\<lparr>disk := write_sectors (disk t) (inode_bitmap_lba ?sb) (unat (1 :: u32)) xs\<rparr>)" for t :: fs and xs
    using num lay cnt by (intro sec_write_range) simp_all
  have w4: "length xs = 311296 \<Longrightarrow> sec_write (inode_table_lba ?sb) xs 608 t =
      Inr ((), t\<lparr>disk := write_sectors (disk t) (inode_table_lba ?sb) (unat (608 :: u32)) xs\<rparr>)" for t :: fs and xs
    using num lay cnt by (intro sec_write_range) simp_all
  have w5: "length xs = 311296 \<Longrightarrow> sec_write (data_start_lba ?sb) xs 1 t =
      Inr ((), t\<lparr>disk := write_sectors (disk t) (data_start_lba ?sb) (unat (1 :: u32)) xs\<rparr>)" for t :: fs and xs
    using num lay cnt by (intro sec_write_range) simp_all
  show ?thesis
    unfolding partition_format_def Let_def zeros
    by (simp add: bnd_Inr [OF w1] bnd_Inr [OF w2] bnd_Inr [OF w3] bnd_Inr [OF w4] w5 sys_malloc_unchecked_def bnd_assoc
        mem map(1) buf_write_def num(4,6) formatted_def Let_def del: replicate_Suc)
qed

text \<open>Each region reads back as what was written there: the later writes are elsewhere.\<close>

lemma formatted_reads:
  fixes start cnt :: u32 and pad0 :: "u8 list"
  assumes cnt: "620 \<le> unat cnt" "unat start + unat cnt \<le> 163840" and pad: "length pad0 = 460"
    and buf: "length buf = 311296" and wf: "disk_wf d"
  defines "part \<equiv> format_sb pad0 start cnt"
  defines "d' \<equiv> formatted d part start buf"
  shows "disk_wf d'"
    and "read_sectors d' (start + 1) 1 = super_block_bytes part"
    and "read_sectors d' (block_bitmap_lba part) (unat (block_bitmap_sects part)) = take (512 * unat (block_bitmap_sects part)) buf"
    and "read_sectors d' (inode_bitmap_lba part) 1 = take 512 ((replicate 311296 0)[0 := 1])"
    and "read_sectors d' (inode_table_lba part) 608 = splice 0 (inode_bytes (root_inode (data_start_lba part))) (replicate 311296 0)"
    and "read_sectors d' (data_start_lba part) 1 = take 512 (splice 0 root_sector (replicate 311296 0))"
proof -
  note num = format_numbers [OF cnt, of pad0, folded part_def]
  have N: "unat cnt \<le> 163840" using cnt(2) by simp
  note lay = layout_numbers [OF cnt(1) N]
  have start1: "unat (start + 1) = unat start + 1" using unat_u32_plus [of start 1] cnt(2) by simp
  have sb: "length (super_block_bytes part) = 512" using superc.length_enc num(10) pad by simp
  have fit: "512 * unat (block_bitmap_sects part) \<le> length buf" using num(2) lay(4) buf by simp
  note unf = d'_def formatted_def Let_def
  have len: "length (splice 0 (inode_bytes (root_inode x)) (replicate 311296 0)) = 311296"
    "length (splice 0 root_sector (replicate 311296 0)) = 311296" for x by simp_all
  show "disk_wf d'"
    unfolding unf by (intro write_sectors_wf wf) (use fit sb in simp_all)
  show "read_sectors d' (start + 1) 1 = super_block_bytes part"
    unfolding unf using num lay cnt start1 sb by (simp add: region_keep region_write del: read_sectors_1 write_sectors_one One_nat_def)
  show "read_sectors d' (block_bitmap_lba part) (unat (block_bitmap_sects part)) = take (512 * unat (block_bitmap_sects part)) buf"
    unfolding unf using num lay cnt fit by (simp add: region_keep region_write del: read_sectors_1 write_sectors_one One_nat_def)
  show "read_sectors d' (inode_bitmap_lba part) 1 = take 512 ((replicate 311296 0)[0 := 1])"
    unfolding unf using num lay cnt by (simp add: region_keep region_write del: read_sectors_1 write_sectors_one One_nat_def)
  show "read_sectors d' (inode_table_lba part) 608 = splice 0 (inode_bytes (root_inode (data_start_lba part))) (replicate 311296 0)"
    unfolding unf using num lay cnt by (simp add: region_keep region_write del: read_sectors_1 write_sectors_one One_nat_def)
  show "read_sectors d' (data_start_lba part) 1 = take 512 (splice 0 root_sector (replicate 311296 0))"
    unfolding unf using num lay cnt by (simp add: region_keep region_write del: read_sectors_1 write_sectors_one One_nat_def)
qed

section \<open>Mounting what was formatted\<close>

text \<open>The state after \<open>mount_partition\<close> on a partition whose super block is \<open>sb0\<close>.\<close>

definition mounted :: "part_info \<Rightarrow> super_block \<Rightarrow> u8 list \<Rightarrow> u8 list \<Rightarrow> partition" where
  "mounted p sb0 block_bits inode_bits =
     \<lparr>start_lba = part_start p, sec_cnt = part_cnt p, sb = sb0,
      block_bitmap = \<lparr>btmp_bytes_len = block_bitmap_sects sb0 * 512, bits = block_bits\<rparr>,
      inode_bitmap = \<lparr>btmp_bytes_len = inode_bitmap_sects sb0 * 512, bits = inode_bits\<rparr>, open_inodes = []\<rparr>"

lemma sb_mounted [simp]: "sb (mounted p sb0 block_bits inode_bits) = sb0"
  by (simp add: mounted_def)

lemma mount_partition_run:
  assumes cnt: "620 \<le> unat (part_cnt p)" "unat (part_start p) + unat (part_cnt p) \<le> 163840" and pad: "length pad0 = 460"
    and mem: "malloc_ok s = (\<lambda>_. True)"
    and name: "terminated (part_name p)" "terminated name" "cstr (part_name p) = cstr name"
  defines "part \<equiv> format_sb pad0 (part_start p) (part_cnt p)"
  assumes disk: "read_sectors (disk s) (part_start p + 1) 1 = super_block_bytes part"
    "read_sectors (disk s) (block_bitmap_lba part) (unat (block_bitmap_sects part)) = block_bits"
    "read_sectors (disk s) (inode_bitmap_lba part) 1 = inode_bits"
  shows "mount_partition name p s =
    Inr (True, s\<lparr>cur_part := mounted p part block_bits inode_bits, mallocs := mallocs s + 4\<rparr>)"
proof -
  note num = format_numbers [OF cnt, of pad0, folded part_def]
  have N: "unat (part_cnt p) \<le> 163840" using cnt(2) by simp
  note lay = layout_numbers [OF cnt(1) N]
  have start1: "unat (part_start p + 1) = unat (part_start p) + 1" using unat_u32_plus [of "part_start p" 1] cnt(2) by simp
  have cmp: "strcmp (part_name p) name = Inr 0"
    using name strcmp_0_iff [of "part_name p" name] by (simp add: terminated_def)
  have dec: "bytes_super_block (super_block_bytes part) = part" using superc.dec_enc num(10) pad by simp
  have r1: "bnd (sec_read (part_start p + 1) 1) f t = f (read_sectors (disk t) (part_start p + 1) (unat (1 :: u32))) t" for f and t :: fs
    using start1 cnt by (intro bnd_sec_read_range) simp_all
  have r2: "bnd (sec_read (block_bitmap_lba part) (block_bitmap_sects part)) f t =
      f (read_sectors (disk t) (block_bitmap_lba part) (unat (block_bitmap_sects part))) t" for f and t :: fs
    using num lay cnt by (intro bnd_sec_read_range) simp_all
  have r3: "bnd (sec_read (inode_bitmap_lba part) 1) f t =
      f (read_sectors (disk t) (inode_bitmap_lba part) (unat (1 :: u32))) t" for f and t :: fs
    using num lay cnt by (intro bnd_sec_read_range) simp_all
  show ?thesis
    unfolding mount_partition_def
    by (simp add: cmp sys_malloc_unchecked_def malloc_or_panic_def bnd_assoc mem r1 r2 r3 disk dec num(4) Let_def
        mounted_def SECTOR_SIZE_def del: read_sectors_1 One_nat_def)
qed

lemma entry_at_concat:
  "\<forall>e \<in> set es. dir_entry_wf e \<Longrightarrow> k < length es \<Longrightarrow>
   entry_at k (concat (List.map dir_entry_bytes es) @ rest) = es ! k"
proof (induction es arbitrary: k)
  case (Cons e es)
  then have len: "length (dir_entry_bytes e) = 24" by (simp add: dentc.length_enc)
  show ?case
  proof (cases k)
    case 0
    then show ?thesis using Cons.prems len by (simp add: entry_at_def dentc.get_def slice_def dentc.dec_enc)
  next
    case (Suc j)
    then have "entry_at k (concat (List.map dir_entry_bytes (e # es)) @ rest) =
        entry_at j (concat (List.map dir_entry_bytes es) @ rest)"
      using len by (simp add: entry_at_def dentc.get_def slice_def)
    then show ?thesis using Suc Cons by simp
  qed
qed simp

definition dotdot_entry :: dir_entry where
  "dotdot_entry = \<lparr>filename = 46 # 46 # replicate 14 0, de_i_no = 0, f_type = 2\<rparr>"

lemma zero_entry_bytes: "dir_entry_bytes zero_entry = replicate 24 0"
  by code_simp

lemma root_sector_eq: "root_sector = dir_entry_bytes (dot_entry 0) @ dir_entry_bytes dotdot_entry"
  by (simp add: root_sector_def dotdot_entry_def asc_def)

lemma root_sector_entries:
  "sector_entries (root_sector @ replicate 464 0) = dot_entry 0 # dotdot_entry # replicate 19 zero_entry" (is "_ = ?es")
proof (rule nth_equalityI)
  have "replicate 464 0 = concat (replicate 19 (replicate 24 (0 :: u8))) @ replicate 8 0" by (simp add: numeral_eq_Suc)
  then have eq: "root_sector @ replicate 464 0 = concat (List.map dir_entry_bytes ?es) @ replicate 8 0"
    by (simp add: root_sector_eq zero_entry_bytes map_replicate)
  have wf: "\<forall>e \<in> set ?es. dir_entry_wf e"
    by (auto simp: dir_entry_wf_def dot_entry_def dotdot_entry_def zero_entry_def)
  fix k assume "k < length (sector_entries (root_sector @ replicate 464 0))"
  then have "k < 21" by simp
  then show "sector_entries (root_sector @ replicate 464 0) ! k = ?es ! k"
    using entry_at_concat [OF wf, of k "replicate 8 0"] by (simp add: sector_entries_def eq)
qed simp

lemma inode_bits: "i < 4096 \<Longrightarrow> bit (take 512 ((replicate 311296 0)[0 := (1 :: u8)]) ! (i div 8)) (i mod 8) \<longleftrightarrow> i = 0"
proof -
  assume "i < 4096"
  then have "i div 8 < 512" by simp
  then have "take 512 ((replicate 311296 0)[0 := (1 :: u8)]) ! (i div 8) = (if i div 8 = 0 then 1 else 0)"
    by (simp add: nth_list_update)
  then show ?thesis by (auto simp: bit_1_iff)
qed

lemma mounted_layout:
  assumes cnt: "620 \<le> unat (part_cnt p)" "unat (part_start p) + unat (part_cnt p) \<le> 163840"
    and len: "length block_bits = 512 * bitmap_sectors (unat (part_cnt p))" "length inode_bits = 512"
  shows "layout_ok (mounted p (format_sb pad0 (part_start p) (part_cnt p)) block_bits inode_bits)"
proof -
  note num = format_numbers [OF cnt, of pad0]
  have N: "unat (part_cnt p) \<le> 163840" using cnt(2) by simp
  note lay = layout_numbers [OF cnt(1) N]
  have bb: "unat (block_bitmap_sects (format_sb pad0 (part_start p) (part_cnt p)) * 512) = 512 * bitmap_sectors (unat (part_cnt p))"
    using num(2) lay(4) by (subst unat_mult_u32) simp_all
  show ?thesis
    unfolding layout_ok_def mounted_def using num lay cnt len bb by (simp add: bitmap_wf_def bitmap_cap_def)
qed

text \<open>What the file system looks like right after formatting and mounting.\<close>

definition freshly_formatted :: "nat \<Rightarrow> fs \<Rightarrow> bool" where
  "freshly_formatted cnt s \<longleftrightarrow>
     fs_ok s \<and> bitmaps_synced s \<and> icache_ok s \<and>
     inode_at s 0 = root_inode (data_start_lba (sb (cur_part s))) \<and>
     sector_entries (disk s (data_start_lba (sb (cur_part s)))) = dot_entry 0 # dotdot_entry # replicate 19 zero_entry \<and>
     (\<forall>i < 4096. inode_used s i \<longleftrightarrow> i = 0) \<and>
     (\<forall>k < bitmap_cap (block_bitmap (cur_part s)). block_used s k \<longleftrightarrow> k = 0 \<or> data_blocks cnt < k)"

text \<open>
  C15: A partition of at least 620 sectors that lies on the disk, once formatted, mounts: both
  calls succeed, the mounted partition satisfies the invariant of the file system (its regions
  follow each other, its bitmaps agree with the disk, no inode is open), inode 0 is the root
  directory's with one block that holds \<open>.\<close> and \<open>..\<close>, it is the only inode in use, and the
  blocks in use are block 0 and those after the last data block (the one right after the last
  block stays free: the code clears one bit more than there are blocks).
\<close>

theorem format_mount_correct:
  assumes cnt: "620 \<le> unat (part_cnt p)" "unat (part_start p) + unat (part_cnt p) \<le> 163840" and pad: "length pad0 = 460"
    and mem: "malloc_ok s = (\<lambda>_. True)" and wf: "disk_wf (disk s)"
    and name: "terminated (part_name p)" "terminated name" "cstr (part_name p) = cstr name"
  shows "\<exists>s' s''. partition_format pad0 (part_start p) (part_cnt p) s = Inr ((), s') \<and>
    mount_partition name p s' = Inr (True, s'') \<and> freshly_formatted (unat (part_cnt p)) s''"
proof -
  let ?sb = "format_sb pad0 (part_start p) (part_cnt p)"
  let ?b = "bitmap_sectors (unat (part_cnt p))"
  note num = format_numbers [OF cnt, of pad0]
  have N: "unat (part_cnt p) \<le> 163840" using cnt(2) by simp
  note lay = layout_numbers [OF cnt(1) N]
  obtain buf where buf: "format_block_bitmap (block_bitmap_bit_len (part_cnt p)) (replicate 311296 0) = Inr buf" "length buf = 311296"
    and used: "\<And>k. k div 4096 \<le> ?b - 1 \<Longrightarrow> bit (buf ! (k div 8)) (k mod 8) \<longleftrightarrow> k = 0 \<or> data_blocks (unat (part_cnt p)) < k"
    by (rule format_block_bitmap_bits [OF unat_bit_len [OF cnt(1) N] lay(1,2), of 311296])
       (simp_all add: bitmap_sectors_def)
  define s' where "s' = s\<lparr>mallocs := Suc (mallocs s), disk := formatted (disk s) ?sb (part_start p) buf\<rparr>"
  let ?block_bits = "take (512 * unat (block_bitmap_sects ?sb)) buf"
  let ?inode_bits = "take 512 ((replicate 311296 0)[0 := 1])"
  let ?part = "mounted p ?sb ?block_bits ?inode_bits"
  define s'' where "s'' = s'\<lparr>cur_part := ?part, mallocs := mallocs s' + 4\<rparr>"
  have d: "disk s' = formatted (disk s) ?sb (part_start p) buf" "disk s'' = disk s'" "cur_part s'' = ?part"
    by (simp_all add: s'_def s''_def)
  note reads = formatted_reads [OF cnt pad buf(2) wf, folded d(1)]
  have len: "length ?block_bits = 512 * ?b" "length ?inode_bits = 512" using num(2) lay(4) buf(2) by simp_all
  note layout = mounted_layout [OF cnt len, of pad0]
  have format: "partition_format pad0 (part_start p) (part_cnt p) s = Inr ((), s')"
    unfolding s'_def by (rule partition_format_run [OF cnt pad mem buf])
  have mount: "mount_partition name p s' = Inr (True, s'')"
    unfolding s''_def by (rule mount_partition_run [OF cnt pad _ name reads(2-4)]) (simp add: s'_def mem)
  have "freshly_formatted (unat (part_cnt p)) s''"
    unfolding freshly_formatted_def
  proof (intro conjI)
    show "fs_ok s''" using reads(1) layout by (simp add: fs_ok_def d)
    show "bitmaps_synced s''" using reads(3,4) by (simp add: bitmaps_synced_def d mounted_def)
    show "icache_ok s''" by (simp add: icache_ok_def d mounted_def)
    show "inode_at s'' 0 = root_inode (data_start_lba (sb (cur_part s'')))"
      using inodec.get_put [of "root_inode (data_start_lba ?sb)" 0 "replicate 311296 0"] reads(5)
      by (simp add: inode_at_def inode_table_def d inodec.put_at_def root_inode_def inode_wf_def)
    have "disk s'' (data_start_lba ?sb) = root_sector @ replicate 464 0"
      using reads(6) by (simp add: d splice_def)
    then show "sector_entries (disk s'' (data_start_lba (sb (cur_part s'')))) = dot_entry 0 # dotdot_entry # replicate 19 zero_entry"
      by (simp add: d(3) root_sector_entries)
    show "\<forall>i < 4096. inode_used s'' i \<longleftrightarrow> i = 0"
      using inode_bits by (simp add: inode_used_def used_bit_def d mounted_def)
    show "\<forall>k < bitmap_cap (block_bitmap (cur_part s'')). block_used s'' k \<longleftrightarrow> k = 0 \<or> data_blocks (unat (part_cnt p)) < k"
    proof (intro allI impI)
      fix k assume "k < bitmap_cap (block_bitmap (cur_part s''))"
      then have k: "k < 4096 * ?b" using layout_capD(1) [OF layout] num(2) by (simp add: d(3))
      then have "k div 4096 \<le> ?b - 1" by (simp add: less_mult_imp_div_less mult.commute Suc_leI flip: Suc_le_eq)
      with k show "block_used s'' k \<longleftrightarrow> k = 0 \<or> data_blocks (unat (part_cnt p)) < k"
        using used num(2) by (simp add: block_used_def used_bit_def d(3) mounted_def)
    qed
  qed
  with format mount show ?thesis by blast
qed

theorem format_mount_correct_witness:
  "\<exists>s' s''. partition_format (replicate 460 0) 63 4032 sample_fs = Inr ((), s') \<and>
    mount_partition [115, 0] \<lparr>part_name = [115, 0], part_start = 63, part_cnt = 4032\<rparr> s' = Inr (True, s'') \<and>
    freshly_formatted 4032 s''"
  using format_mount_correct [of "\<lparr>part_name = [115, 0], part_start = 63, part_cnt = 4032\<rparr>" "replicate 460 0" sample_fs "[115, 0]"]
  by (simp add: terminated_def sample_fs_def disk_wf_def)

end
