(* ===== verification/Mem_State.thy ===== *)
theory Mem_State
  imports Bitmap
begin

text \<open>
  The state of \<open>kernel/memory.c\<close> and the hardware it drives: physical memory as 32-bit words at
  their (aligned) addresses, the page directory register \<open>cr3\<close>, the translation of virtual
  addresses that the processor performs, the pools of physical and virtual pages, the table
  \<open>mem\<close> of reference counts, and the bookkeeping of the heap (block descriptors, and the header
  \<open>struct arena\<close> at the start of a page of the heap, by its virtual address). The fields of
  the running thread that the module uses (\<open>pgdir\<close>, \<open>userprog_vaddr\<close>, \<open>u_block_desc\<close>) are part of
  the state. A lock is the number of times the running thread holds it. Not modelled: the
  translation cache, so that \<open>invlpg\<close> does nothing, and the permission check of supervisor
  accesses, which the kernel never fails (\<open>cr0.WP\<close> is not set).
\<close>

section \<open>State\<close>

datatype pool_flags = PF_KERNEL | PF_USER

record pool =
  pool_bitmap :: bitmap
  phy_addr_start :: u32
  pool_size :: u32
  mutex :: nat

record virtual_addr =
  vaddr_bitmap :: bitmap
  vaddr_start :: u32

record mem_block_desc =
  block_size :: u32
  blocks_per_arena :: u32
  free_list :: "u32 list"

text \<open>A pointer to a descriptor: the kernel's or the running process's array, and an index.\<close>

datatype desc_ref = K_desc nat | U_desc nat

record arena =
  desc :: "desc_ref option"
  free_cnt :: u32
  large :: u32

record mm =
  ram :: "u32 \<Rightarrow> u32"
  cr3 :: u32
  kernel_pool :: pool
  user_pool :: pool
  kernel_vaddr :: virtual_addr
  mem :: "u8 list"
  pgdir :: u32
  userprog_vaddr :: virtual_addr
  k_block_descs :: "mem_block_desc list"
  u_block_desc :: "mem_block_desc list"
  arenas :: "u32 \<Rightarrow> arena option"

text \<open>The choice of a pool by \<open>pf\<close>.\<close>

fun the_pool :: "pool_flags \<Rightarrow> mm \<Rightarrow> pool" where
  "the_pool PF_KERNEL s = kernel_pool s"
| "the_pool PF_USER s = user_pool s"

fun upd_pool :: "pool_flags \<Rightarrow> (pool \<Rightarrow> pool) \<Rightarrow> mm \<Rightarrow> mm" where
  "upd_pool PF_KERNEL f s = s\<lparr>kernel_pool := f (kernel_pool s)\<rparr>"
| "upd_pool PF_USER f s = s\<lparr>user_pool := f (user_pool s)\<rparr>"

fun the_vaddr :: "pool_flags \<Rightarrow> mm \<Rightarrow> virtual_addr" where
  "the_vaddr PF_KERNEL s = kernel_vaddr s"
| "the_vaddr PF_USER s = userprog_vaddr s"

fun upd_vaddr :: "pool_flags \<Rightarrow> (virtual_addr \<Rightarrow> virtual_addr) \<Rightarrow> mm \<Rightarrow> mm" where
  "upd_vaddr PF_KERNEL f s = s\<lparr>kernel_vaddr := f (kernel_vaddr s)\<rparr>"
| "upd_vaddr PF_USER f s = s\<lparr>userprog_vaddr := f (userprog_vaddr s)\<rparr>"

text \<open>The pools' locks, uncontended: the thread holds them once more, or once less.\<close>

definition pool_lock :: "pool_flags \<Rightarrow> (mm, unit) km" where
  "pool_lock pf = modify (upd_pool pf (\<lambda>p. p\<lparr>mutex := Suc (mutex p)\<rparr>))"

definition pool_unlock :: "pool_flags \<Rightarrow> (mm, unit) km" where
  "pool_unlock pf =
     bnd (gets (\<lambda>s. mutex (the_pool pf s))) (\<lambda>n.
     bnd (kassert ''plock->holder == running_thread()'' (n > 0)) (\<lambda>_.
     modify (upd_pool pf (\<lambda>p. p\<lparr>mutex := mutex p - 1\<rparr>))))"

section \<open>The processor's translation\<close>

text \<open>
  The page directory is at the address of \<open>cr3\<close>; the entry of the directory names the page
  table, the entry of the table the frame. An entry without its lowest bit is not present.
\<close>

definition frame :: "u32 \<Rightarrow> u32" where
  "frame x = x AND 0xFFFFF000"

definition present :: "u32 \<Rightarrow> bool" where
  "present x \<longleftrightarrow> x AND 1 \<noteq> 0"

definition pd_addr :: "mm \<Rightarrow> u32 \<Rightarrow> u32" where
  "pd_addr s va = frame (cr3 s) + 4 * drop_bit 22 va"

definition pt_addr :: "mm \<Rightarrow> u32 \<Rightarrow> u32" where
  "pt_addr s va = frame (ram s (pd_addr s va)) + 4 * take_bit 10 (drop_bit 12 va)"

definition mmu :: "mm \<Rightarrow> u32 \<Rightarrow> u32 option" where
  "mmu s va =
     (if present (ram s (pd_addr s va)) \<and> present (ram s (pt_addr s va))
      then Some (frame (ram s (pt_addr s va)) + take_bit 12 va) else None)"

definition load :: "u32 \<Rightarrow> (mm, u32) km" where
  "load va = (\<lambda>s. case mmu s va of None \<Rightarrow> Inl (Fault ''page fault'') | Some pa \<Rightarrow> Inr (ram s pa, s))"

definition store :: "u32 \<Rightarrow> u32 \<Rightarrow> (mm, unit) km" where
  "store va v = (\<lambda>s. case mmu s va of None \<Rightarrow> Inl (Fault ''page fault'')
     | Some pa \<Rightarrow> Inr ((), s\<lparr>ram := (ram s)(pa := v)\<rparr>))"

text \<open>\<open>memset\<close> to zero and \<open>memcpy\<close> of a range that lies in one page, and of whole pages.\<close>

definition zero_range :: "u32 \<Rightarrow> u32 \<Rightarrow> (mm, unit) km" where
  "zero_range va n = (\<lambda>s. case mmu s va of None \<Rightarrow> Inl (Fault ''page fault'')
     | Some pa \<Rightarrow> Inr ((), s\<lparr>ram := (\<lambda>a. if a - pa < n then 0 else ram s a)\<rparr>))"

fun zero_pages :: "u32 \<Rightarrow> nat \<Rightarrow> (mm, unit) km" where
  "zero_pages va 0 = ret ()"
| "zero_pages va (Suc n) = bnd (zero_range va 4096) (\<lambda>_. zero_pages (va + 4096) n)"

definition copy_page :: "u32 \<Rightarrow> u32 \<Rightarrow> (mm, unit) km" where
  "copy_page dst src = (\<lambda>s. case (mmu s dst, mmu s src) of
       (Some d, Some c) \<Rightarrow> Inr ((), s\<lparr>ram := (\<lambda>a. if a - d < 4096 then ram s (c + (a - d)) else ram s a)\<rparr>)
     | _ \<Rightarrow> Inl (Fault ''page fault''))"

end
