(* ===== verification/Paging.thy ===== *)
theory Paging
  imports Mem_State
begin

text \<open>
  Pages: \<open>mem_pool_init\<close>, the allocation of virtual and physical pages, the page tables reached
  through the recursive entry of the page directory, sharing of frames with reference counts and
  copy on write, all of \<open>kernel/memory.c\<close>, and \<open>page_dir_activate\<close> and \<open>create_page_dir\<close> of
  \<open>userprog/process.c\<close>.
\<close>

section \<open>Initialisation\<close>

definition PG_SIZE :: u32 where "PG_SIZE = 4096"
definition K_HEAP_START :: u32 where "K_HEAP_START = 0xC0100000"
definition Physical_Page :: nat where "Physical_Page = 7800"

text \<open>
  The three bitmaps follow each other in one zeroed page; each list holds one byte more than the
  bitmap has, the first of its successor, which a scan of a full bitmap reads.
\<close>

definition mem_pool_init :: "u32 \<Rightarrow> mm \<Rightarrow> mm" where
  "mem_pool_init all_mem s =
     (let page_table_size = PG_SIZE * 256;
          used_mem = page_table_size + 0x100000;
          free_mem = all_mem - used_mem;
          all_free_page = ucast (free_mem div PG_SIZE) :: u16;
          kernel_free_pages = all_free_page div 2;
          user_free_pages = all_free_page - kernel_free_pages;
          kbm_length = ucast (kernel_free_pages div 8) :: u32;
          ubm_length = ucast (user_free_pages div 8) :: u32;
          zeros = (\<lambda>n :: u32. \<lparr>btmp_bytes_len = n, bits = replicate (Suc (unat n)) 0\<rparr>)
      in s\<lparr>kernel_pool := \<lparr>pool_bitmap = zeros kbm_length, phy_addr_start = used_mem,
             pool_size = ucast kernel_free_pages * PG_SIZE, mutex = 0\<rparr>,
           user_pool := \<lparr>pool_bitmap = zeros ubm_length,
             phy_addr_start = used_mem + ucast kernel_free_pages * PG_SIZE,
             pool_size = ucast user_free_pages * PG_SIZE, mutex = 0\<rparr>,
           kernel_vaddr := \<lparr>vaddr_bitmap = zeros kbm_length, vaddr_start = K_HEAP_START\<rparr>\<rparr>)"

section \<open>Virtual pages\<close>

text \<open>The loop \<open>while (cnt < pg_cnt) bitmap_set(..., bit_idx_start + cnt++, value)\<close>.\<close>

fun set_bits :: "bitmap \<Rightarrow> u32 \<Rightarrow> nat \<Rightarrow> u8 \<Rightarrow> bitmap res" where
  "set_bits b bit_idx 0 v = Inr b"
| "set_bits b bit_idx (Suc n) v = rbind (bitmap_set b bit_idx v) (\<lambda>b. set_bits b (bit_idx + 1) n v)"

definition vaddr_get :: "pool_flags \<Rightarrow> u32 \<Rightarrow> (mm, u32) km" where
  "vaddr_get pf pg_cnt =
     bnd (gets (the_vaddr pf)) (\<lambda>v.
     bnd (liftr (bitmap_scan (vaddr_bitmap v) pg_cnt)) (\<lambda>bit_idx_start.
     if bit_idx_start = -1 then ret 0
     else
       bnd (liftr (set_bits (vaddr_bitmap v) bit_idx_start (unat pg_cnt) 1)) (\<lambda>b.
       bnd (modify (upd_vaddr pf (\<lambda>v. v\<lparr>vaddr_bitmap := b\<rparr>))) (\<lambda>_.
       let start = vaddr_start v + bit_idx_start * PG_SIZE
       in bnd (kassert ''vaddr_start < (0xC0000000 - PG_SIZE)''
                 (pf = PF_USER \<longrightarrow> start < 0xC0000000 - PG_SIZE)) (\<lambda>_.
          ret start)))))"

definition vaddr_remove :: "pool_flags \<Rightarrow> u32 \<Rightarrow> u32 \<Rightarrow> (mm, unit) km" where
  "vaddr_remove pf vaddr pg_cnt =
     bnd (gets (the_vaddr pf)) (\<lambda>v.
     let bit_idx_start = (vaddr - vaddr_start v) div PG_SIZE
     in bnd (liftr (set_bits (vaddr_bitmap v) bit_idx_start (unat pg_cnt) 0)) (\<lambda>b.
        modify (upd_vaddr pf (\<lambda>v. v\<lparr>vaddr_bitmap := b\<rparr>))))"

section \<open>Physical pages\<close>

definition mem_idx :: "u32 \<Rightarrow> u32" where
  "mem_idx addr = (addr - 0x200000) div PG_SIZE"

definition get_mem :: "u32 \<Rightarrow> (mm, u8) km" where
  "get_mem pa = (\<lambda>s. if unat (mem_idx pa) < length (mem s) then Inr (mem s ! unat (mem_idx pa), s)
     else Inl (Fault ''mem[]''))"

definition set_mem :: "u32 \<Rightarrow> u8 \<Rightarrow> (mm, unit) km" where
  "set_mem pa v = (\<lambda>s. if unat (mem_idx pa) < length (mem s)
     then Inr ((), s\<lparr>mem := (mem s)[unat (mem_idx pa) := v]\<rparr>) else Inl (Fault ''mem[]''))"

definition palloc :: "pool_flags \<Rightarrow> (mm, u32) km" where
  "palloc pf =
     bnd (gets (the_pool pf)) (\<lambda>m_pool.
     bnd (liftr (bitmap_scan (pool_bitmap m_pool) 1)) (\<lambda>bit_idx.
     if bit_idx = -1 then ret 0
     else
       bnd (liftr (bitmap_set (pool_bitmap m_pool) bit_idx 1)) (\<lambda>b.
       bnd (modify (upd_pool pf (\<lambda>p. p\<lparr>pool_bitmap := b\<rparr>))) (\<lambda>_.
       let page_phyaddr = bit_idx * PG_SIZE + phy_addr_start m_pool
       in bnd (set_mem page_phyaddr 1) (\<lambda>_. ret page_phyaddr)))))"

definition free_a_phy_page :: "u32 \<Rightarrow> (mm, unit) km" where
  "free_a_phy_page pg_phy_page =
     bnd (get_mem pg_phy_page) (\<lambda>n.
     if n > 1 then set_mem pg_phy_page (n - 1)
     else
       bnd (kassert ''mem[mem_idx(pg_phy_page)] == 1'' (n = 1)) (\<lambda>_.
       bnd (gets (\<lambda>s. if pg_phy_page \<ge> phy_addr_start (user_pool s) then PF_USER else PF_KERNEL)) (\<lambda>pf.
       bnd (gets (the_pool pf)) (\<lambda>mem_pool.
       let bit_idx = (pg_phy_page - phy_addr_start mem_pool) div PG_SIZE
       in bnd (liftr (bitmap_set (pool_bitmap mem_pool) bit_idx 0)) (\<lambda>b.
          bnd (modify (upd_pool pf (\<lambda>p. p\<lparr>pool_bitmap := b\<rparr>))) (\<lambda>_.
          set_mem pg_phy_page 0))))))"

section \<open>Page tables\<close>

definition PDE_IDX :: "u32 \<Rightarrow> u32" where
  "PDE_IDX addr = drop_bit 22 (addr AND 0xffc00000)"

definition PTE_IDX :: "u32 \<Rightarrow> u32" where
  "PTE_IDX addr = drop_bit 12 (addr AND 0x003ff000)"

definition pte_ptr :: "u32 \<Rightarrow> u32" where
  "pte_ptr vaddr = 0xFFC00000 + drop_bit 10 (vaddr AND 0xFFC00000) + PTE_IDX vaddr * 4"

definition pde_ptr :: "u32 \<Rightarrow> u32" where
  "pde_ptr vaddr = 0xFFFFF000 + PDE_IDX vaddr * 4"

definition addr_v2p :: "u32 \<Rightarrow> (mm, u32) km" where
  "addr_v2p vaddr = bnd (load (pte_ptr vaddr)) (\<lambda>pte. ret ((pte AND 0xFFFFF000) + (vaddr AND 0x00000FFF)))"

definition page_table_add :: "u32 \<Rightarrow> u32 \<Rightarrow> u32 \<Rightarrow> (mm, unit) km" where
  "page_table_add vaddr page_phyaddr pte_flag =
     bnd (load (pde_ptr vaddr)) (\<lambda>pde.
     if present pde
     then bnd (load (pte_ptr vaddr)) (\<lambda>pte.
          bnd (kassert ''!(*p_addr & 0x00000001)'' (\<not> present pte)) (\<lambda>_.
          store (pte_ptr vaddr) (page_phyaddr OR (pte_flag AND 7))))
     else bnd (palloc PF_KERNEL) (\<lambda>pt_phyaddr.
          bnd (store (pde_ptr vaddr) (pt_phyaddr OR 7)) (\<lambda>_.
          bnd (zero_range (pte_ptr vaddr AND 0xFFFFF000) PG_SIZE) (\<lambda>_.
          bnd (load (pte_ptr vaddr)) (\<lambda>pte.
          bnd (kassert ''!(*p_addr & 0x00000001)'' (\<not> present pte)) (\<lambda>_.
          store (pte_ptr vaddr) (page_phyaddr OR (pte_flag AND 7))))))))"

definition Modify_PTE :: "u32 \<Rightarrow> u32 \<Rightarrow> u32 \<Rightarrow> (mm, unit) km" where
  "Modify_PTE address page_phyaddr pte_flag =
     (let vaddr = address AND 0xfffff000
      in bnd (load (pde_ptr vaddr)) (\<lambda>pde.
         bnd (kassert ''(*pt_addr & 0x00000001)'' (present pde)) (\<lambda>_.
         bnd (load (pte_ptr vaddr)) (\<lambda>pte.
         bnd (kassert ''(*p_addr & 0x00000001)'' (present pte)) (\<lambda>_.
         store (pte_ptr vaddr) (page_phyaddr OR (pte_flag AND 7)))))))"

definition page_table_pte_remove :: "u32 \<Rightarrow> (mm, unit) km" where
  "page_table_pte_remove vaddr =
     bnd (load (pte_ptr vaddr)) (\<lambda>pte. store (pte_ptr vaddr) (pte AND NOT 1))"

section \<open>Allocating and freeing pages\<close>

text \<open>
  \<open>get_a_page\<close> returns without releasing the lock when no frame is left, as the code does.
\<close>

definition get_a_page :: "pool_flags \<Rightarrow> u32 \<Rightarrow> (mm, u32) km" where
  "get_a_page pf vaddr =
     bnd (pool_lock pf) (\<lambda>_.
     bnd (gets (\<lambda>s. (pgdir s, the_vaddr pf s))) (\<lambda>(dir, v).
     bnd (if dir \<noteq> 0 \<and> pf = PF_USER \<or> dir = 0 \<and> pf = PF_KERNEL
          then let bit_idx = (vaddr - vaddr_start v) div PG_SIZE
               in bnd (kassert ''bit_idx > 0'' (0 <s bit_idx)) (\<lambda>_.
                  bnd (liftr (bitmap_set (vaddr_bitmap v) bit_idx 1)) (\<lambda>b.
                  modify (upd_vaddr pf (\<lambda>v. v\<lparr>vaddr_bitmap := b\<rparr>))))
          else fail (Panic ''get_a_page'')) (\<lambda>_.
     bnd (palloc pf) (\<lambda>page_phyaddr.
     if page_phyaddr = 0 then ret 0
     else
       bnd (page_table_add vaddr page_phyaddr 7) (\<lambda>_.
       bnd (pool_unlock pf) (\<lambda>_. ret vaddr))))))"

definition get_a_page_without_opvaddrbitmap :: "pool_flags \<Rightarrow> u32 \<Rightarrow> (mm, u32) km" where
  "get_a_page_without_opvaddrbitmap pf vaddr =
     bnd (pool_lock pf) (\<lambda>_.
     bnd (palloc pf) (\<lambda>page_phyaddr.
     if page_phyaddr = 0 then bnd (pool_unlock pf) (\<lambda>_. ret 0)
     else
       bnd (page_table_add vaddr page_phyaddr 7) (\<lambda>_.
       bnd (pool_unlock pf) (\<lambda>_. ret vaddr))))"

fun map_pages :: "pool_flags \<Rightarrow> u32 \<Rightarrow> nat \<Rightarrow> (mm, bool) km" where
  "map_pages pf vaddr 0 = ret True"
| "map_pages pf vaddr (Suc cnt) =
     bnd (palloc pf) (\<lambda>page_phyaddr.
     if page_phyaddr = 0 then ret False
     else bnd (page_table_add vaddr page_phyaddr 7) (\<lambda>_. map_pages pf (vaddr + PG_SIZE) cnt))"

definition malloc_page :: "pool_flags \<Rightarrow> u32 \<Rightarrow> (mm, u32) km" where
  "malloc_page pf pg_cnt =
     bnd (kassert ''pg_cnt > 0 && pg_cnt < 3840'' (pg_cnt > 0 \<and> pg_cnt < 3840)) (\<lambda>_.
     bnd (vaddr_get pf pg_cnt) (\<lambda>vaddr_start.
     if vaddr_start = 0 then ret 0
     else bnd (map_pages pf vaddr_start (unat pg_cnt)) (\<lambda>ok. ret (if ok then vaddr_start else 0))))"

definition get_kernel_pages :: "u32 \<Rightarrow> (mm, u32) km" where
  "get_kernel_pages pg_cnt =
     bnd (pool_lock PF_KERNEL) (\<lambda>_.
     bnd (malloc_page PF_KERNEL pg_cnt) (\<lambda>vaddr.
     bnd (whenm (vaddr \<noteq> 0) (zero_pages vaddr (unat pg_cnt))) (\<lambda>_.
     bnd (pool_unlock PF_KERNEL) (\<lambda>_. ret vaddr))))"

definition get_user_pages :: "u32 \<Rightarrow> (mm, u32) km" where
  "get_user_pages pg_cnt =
     bnd (pool_lock PF_USER) (\<lambda>_.
     bnd (malloc_page PF_USER pg_cnt) (\<lambda>vaddr.
     bnd (zero_pages vaddr (unat pg_cnt)) (\<lambda>_.
     bnd (pool_unlock PF_USER) (\<lambda>_. ret vaddr))))"

text \<open>The loop of \<open>mfree_page\<close>, for either range of frames.\<close>

fun unmap_pages :: "(u32 \<Rightarrow> mm \<Rightarrow> bool) \<Rightarrow> u32 \<Rightarrow> nat \<Rightarrow> (mm, unit) km" where
  "unmap_pages in_pool vaddr 0 = ret ()"
| "unmap_pages in_pool vaddr (Suc cnt) =
     bnd (addr_v2p vaddr) (\<lambda>pg_phy_addr.
     bnd (gets (in_pool pg_phy_addr)) (\<lambda>inside.
     bnd (kassert ''pg_phy_addr % PG_SIZE == 0 && the address is in the pool''
            (pg_phy_addr mod PG_SIZE = 0 \<and> inside)) (\<lambda>_.
     bnd (free_a_phy_page pg_phy_addr) (\<lambda>_.
     bnd (page_table_pte_remove vaddr) (\<lambda>_.
     unmap_pages in_pool (vaddr + PG_SIZE) cnt)))))"

definition mfree_page :: "pool_flags \<Rightarrow> u32 \<Rightarrow> u32 \<Rightarrow> (mm, unit) km" where
  "mfree_page pf vaddr pg_cnt =
     bnd (kassert ''pg_cnt >= 1 && vaddr % PG_SIZE == 0'' (pg_cnt \<ge> 1 \<and> vaddr mod PG_SIZE = 0)) (\<lambda>_.
     bnd (addr_v2p vaddr) (\<lambda>pg_phy_addr.
     bnd (kassert ''(pg_phy_addr % PG_SIZE == 0) && pg_phy_addr >= 0x102000''
            (pg_phy_addr mod PG_SIZE = 0 \<and> pg_phy_addr \<ge> 0x102000)) (\<lambda>_.
     bnd (gets (\<lambda>s. phy_addr_start (user_pool s) \<le> pg_phy_addr)) (\<lambda>user.
     bnd (if user
          then unmap_pages (\<lambda>pa s. phy_addr_start (user_pool s) \<le> pa) vaddr (unat pg_cnt)
          else unmap_pages (\<lambda>pa s. phy_addr_start (kernel_pool s) \<le> pa \<and> pa < phy_addr_start (user_pool s))
                 vaddr (unat pg_cnt)) (\<lambda>_.
     vaddr_remove pf vaddr pg_cnt)))))"

section \<open>Sharing and copy on write\<close>

definition do_wp_page :: "u32 \<Rightarrow> (mm, unit) km" where
  "do_wp_page address =
     bnd (addr_v2p (address AND 0xfffff000)) (\<lambda>pvaddr.
     bnd (get_mem pvaddr) (\<lambda>n.
     if n = 1 then Modify_PTE address pvaddr 7
     else
       bnd (get_kernel_pages 1) (\<lambda>buf_page.
       bnd (palloc PF_KERNEL) (\<lambda>new_page.
       bnd (copy_page buf_page (address AND 0xfffff000)) (\<lambda>_.
       bnd (Modify_PTE address new_page 7) (\<lambda>_.
       bnd (copy_page (address AND 0xfffff000) buf_page) (\<lambda>_.
       bnd (get_mem pvaddr) (\<lambda>n.
       bnd (set_mem pvaddr (n - 1)) (\<lambda>_.
       mfree_page PF_KERNEL buf_page 1)))))))))"

text \<open>\<open>page_dir_activate\<close> of a thread with this \<open>pgdir\<close>.\<close>

definition page_dir_activate :: "u32 \<Rightarrow> (mm, unit) km" where
  "page_dir_activate dir =
     bnd (if dir \<noteq> 0 then addr_v2p dir else ret 0x100000) (\<lambda>pagedir_phy_addr.
     modify (\<lambda>s. s\<lparr>cr3 := pagedir_phy_addr\<rparr>))"

definition full_childProcess_pageTable :: "u32 \<Rightarrow> u32 \<Rightarrow> u32 \<Rightarrow> (mm, unit) km" where
  "full_childProcess_pageTable child_pgdir parent_pgdir vaddress =
     bnd (addr_v2p vaddress) (\<lambda>pvaddr.
     bnd (Modify_PTE vaddress pvaddr 5) (\<lambda>_.
     bnd (page_dir_activate child_pgdir) (\<lambda>_.
     bnd (page_table_add vaddress pvaddr 5) (\<lambda>_.
     bnd (page_dir_activate parent_pgdir) (\<lambda>_.
     bnd (get_mem pvaddr) (\<lambda>n.
     set_mem pvaddr (n + 1)))))))"

text \<open>The copy of the kernel's entries is at offset \<open>0x300 * 4\<close> of the two directories.\<close>

fun copy_words :: "u32 \<Rightarrow> u32 \<Rightarrow> nat \<Rightarrow> (mm, unit) km" where
  "copy_words dst src 0 = ret ()"
| "copy_words dst src (Suc n) =
     bnd (load src) (\<lambda>v. bnd (store dst v) (\<lambda>_. copy_words (dst + 4) (src + 4) n))"

definition create_page_dir :: "(mm, u32) km" where
  "create_page_dir =
     bnd (get_kernel_pages 1) (\<lambda>page_dir_vaddr.
     if page_dir_vaddr = 0 then ret 0
     else
       bnd (copy_words (page_dir_vaddr + 0x300 * 4) (0xfffff000 + 0x300 * 4) 256) (\<lambda>_.
       bnd (addr_v2p page_dir_vaddr) (\<lambda>new_page_dir_phy_addr.
       bnd (store (page_dir_vaddr + 4 * 1023) (new_page_dir_phy_addr OR 7)) (\<lambda>_.
       ret page_dir_vaddr))))"

end
