(* ===== verification/Heap.thy ===== *)
theory Heap
  imports Paging
begin

text \<open>
  The heap of \<open>kernel/memory.c\<close>: block descriptors, arenas, \<open>sys_malloc\<close> and \<open>sys_free\<close>. The header
  of an arena is the entry of \<open>arenas\<close> for its page, and a free block is its address in the queue
  \<open>free_list\<close> of its descriptor (\<open>free_elem\<close> is the first member of \<open>struct mem_block\<close>), which
  stands for the linked list under the contract of \<open>Klist\<close>; so the words of memory that hold
  headers and links are not read back. Turning interrupts off around the building of an arena has
  no effect in this state.
\<close>

section \<open>Descriptors\<close>

definition arena_bytes :: u32 where "arena_bytes = 12"

fun init_descs :: "nat \<Rightarrow> u16 \<Rightarrow> mem_block_desc list" where
  "init_descs 0 bs = []"
| "init_descs (Suc n) bs =
     \<lparr>block_size = ucast bs, blocks_per_arena = (PG_SIZE - arena_bytes) div ucast bs, free_list = []\<rparr>
     # init_descs n (bs * 2)"

definition block_desc_init :: "mem_block_desc list" where
  "block_desc_init = init_descs 7 16"

definition mem_init :: "(mm, unit) km" where
  "mem_init =
     bnd (load 0xb00) (\<lambda>mem_byte_total.
     bnd (modify (mem_pool_init mem_byte_total)) (\<lambda>_.
     modify (\<lambda>s. s\<lparr>k_block_descs := block_desc_init\<rparr>)))"

fun desc_of :: "pool_flags \<Rightarrow> nat \<Rightarrow> desc_ref" where
  "desc_of PF_KERNEL i = K_desc i"
| "desc_of PF_USER i = U_desc i"

text \<open>Reading and writing \<open>*desc\<close>.\<close>

fun get_desc :: "desc_ref \<Rightarrow> (mm, mem_block_desc) km" where
  "get_desc (K_desc i) = (\<lambda>s. if i < length (k_block_descs s) then Inr (k_block_descs s ! i, s)
     else Inl (Fault ''descs[]''))"
| "get_desc (U_desc i) = (\<lambda>s. if i < length (u_block_desc s) then Inr (u_block_desc s ! i, s)
     else Inl (Fault ''descs[]''))"

fun set_free_list :: "desc_ref \<Rightarrow> u32 list \<Rightarrow> (mm, unit) km" where
  "set_free_list (K_desc i) l = modify (\<lambda>s. s\<lparr>k_block_descs :=
     (k_block_descs s)[i := (k_block_descs s ! i)\<lparr>free_list := l\<rparr>]\<rparr>)"
| "set_free_list (U_desc i) l = modify (\<lambda>s. s\<lparr>u_block_desc :=
     (u_block_desc s)[i := (u_block_desc s ! i)\<lparr>free_list := l\<rparr>]\<rparr>)"

text \<open>\<open>for (desc_idx = 0; ...) if (size <= descs[desc_idx].block_size) break;\<close>\<close>

fun find_desc :: "mem_block_desc list \<Rightarrow> u32 \<Rightarrow> nat" where
  "find_desc [] sz = 0"
| "find_desc (d # ds) sz = (if sz \<le> block_size d then 0 else Suc (find_desc ds sz))"

section \<open>Arenas\<close>

definition arena2block :: "u32 \<Rightarrow> u32 \<Rightarrow> u32 \<Rightarrow> u32" where
  "arena2block bs a idx = a + arena_bytes + idx * bs"

definition block2arena :: "u32 \<Rightarrow> u32" where
  "block2arena b = b AND 0xFFFFF000"

definition get_arena :: "u32 \<Rightarrow> (mm, arena) km" where
  "get_arena a = (\<lambda>s. case arenas s a of None \<Rightarrow> Inl (Fault ''no arena'') | Some ar \<Rightarrow> Inr (ar, s))"

definition set_arena :: "u32 \<Rightarrow> arena option \<Rightarrow> (mm, unit) km" where
  "set_arena a ar = modify (\<lambda>s. s\<lparr>arenas := (arenas s)(a := ar)\<rparr>)"

text \<open>The loop that links the blocks of a new arena, and the one that unlinks those of an empty one.\<close>

fun link_blocks :: "desc_ref \<Rightarrow> u32 \<Rightarrow> u32 \<Rightarrow> nat \<Rightarrow> (mm, unit) km" where
  "link_blocks r a block_idx 0 = ret ()"
| "link_blocks r a block_idx (Suc n) =
     bnd (get_desc r) (\<lambda>d.
     let b = arena2block (block_size d) a block_idx
     in bnd (kassert ''!elem_find(&a->desc->free_list, &b->free_elem)'' (b \<notin> set (free_list d))) (\<lambda>_.
        bnd (set_free_list r (free_list d @ [b])) (\<lambda>_.
        link_blocks r a (block_idx + 1) n)))"

fun unlink_blocks :: "desc_ref \<Rightarrow> u32 \<Rightarrow> u32 \<Rightarrow> nat \<Rightarrow> (mm, unit) km" where
  "unlink_blocks r a block_idx 0 = ret ()"
| "unlink_blocks r a block_idx (Suc n) =
     bnd (get_desc r) (\<lambda>d.
     let bb = arena2block (block_size d) a block_idx
     in bnd (kassert ''elem_find(&a->desc->free_list, &bb->free_elem)'' (bb \<in> set (free_list d))) (\<lambda>_.
        bnd (set_free_list r (remove1 bb (free_list d))) (\<lambda>_.
        unlink_blocks r a (block_idx + 1) n)))"

section \<open>\<open>sys_malloc\<close>\<close>

definition malloc_large :: "pool_flags \<Rightarrow> u32 \<Rightarrow> (mm, u32) km" where
  "malloc_large pf sz =
     (let page_cnt = (sz + arena_bytes + PG_SIZE - 1) div PG_SIZE + 1
      in bnd (malloc_page pf page_cnt) (\<lambda>a.
         if a = 0 then bnd (pool_unlock pf) (\<lambda>_. ret 0)
         else
           bnd (zero_pages a (unat page_cnt)) (\<lambda>_.
           bnd (set_arena a (Some \<lparr>desc = None, free_cnt = page_cnt, large = 1\<rparr>)) (\<lambda>_.
           bnd (pool_unlock pf) (\<lambda>_.
           ret (a + arena_bytes))))))"

definition new_arena :: "desc_ref \<Rightarrow> u32 \<Rightarrow> (mm, unit) km" where
  "new_arena r a =
     bnd (zero_range a PG_SIZE) (\<lambda>_.
     bnd (get_desc r) (\<lambda>d.
     bnd (set_arena a (Some \<lparr>desc = Some r, free_cnt = blocks_per_arena d, large = 0\<rparr>)) (\<lambda>_.
     link_blocks r a 0 (unat (blocks_per_arena d)))))"

text \<open>Taking a block from the queue, which is not empty.\<close>

definition pop_block :: "pool_flags \<Rightarrow> desc_ref \<Rightarrow> (mm, u32) km" where
  "pop_block pf r =
     bnd (get_desc r) (\<lambda>d.
     case free_list d of
       [] \<Rightarrow> fail (Fault ''list_pop'')
     | b # l \<Rightarrow>
         bnd (set_free_list r l) (\<lambda>_.
         bnd (zero_range b (block_size d)) (\<lambda>_.
         bnd (get_arena (block2arena b)) (\<lambda>ar.
         bnd (set_arena (block2arena b) (Some (ar\<lparr>free_cnt := free_cnt ar - 1\<rparr>))) (\<lambda>_.
         bnd (pool_unlock pf) (\<lambda>_.
         ret b))))))"

definition malloc_small :: "pool_flags \<Rightarrow> u32 \<Rightarrow> (mm, u32) km" where
  "malloc_small pf sz =
     bnd (gets (\<lambda>s. find_desc (if pf = PF_KERNEL then k_block_descs s else u_block_desc s) sz)) (\<lambda>desc_idx.
     let r = desc_of pf desc_idx
     in bnd (get_desc r) (\<lambda>d.
        if free_list d = []
        then bnd (malloc_page pf 1) (\<lambda>a.
             if a = 0 then bnd (pool_unlock pf) (\<lambda>_. ret 0)
             else bnd (new_arena r a) (\<lambda>_. pop_block pf r))
        else pop_block pf r))"

definition sys_malloc :: "u32 \<Rightarrow> (mm, u32) km" where
  "sys_malloc sz =
     bnd (gets (\<lambda>s. if pgdir s = 0 then PF_KERNEL else PF_USER)) (\<lambda>pf.
     bnd (gets (\<lambda>s. pool_size (the_pool pf s))) (\<lambda>pool_size.
     if sz = 0 \<or> pool_size \<le> sz then ret 0
     else bnd (pool_lock pf) (\<lambda>_.
          if sz > 1024 then malloc_large pf sz else malloc_small pf sz)))"

section \<open>\<open>sys_free\<close>\<close>

text \<open>
  A block that is in its queue already must not be appended: the code would then break the list,
  which is the error here.
\<close>

definition free_small :: "pool_flags \<Rightarrow> u32 \<Rightarrow> u32 \<Rightarrow> arena \<Rightarrow> desc_ref \<Rightarrow> (mm, unit) km" where
  "free_small pf b a ar r =
     bnd (get_desc r) (\<lambda>d.
     bnd (if b \<in> set (free_list d) then fail (Fault ''list_append of a linked element'')
          else set_free_list r (free_list d @ [b])) (\<lambda>_.
     let n = free_cnt ar + 1
     in bnd (set_arena a (Some (ar\<lparr>free_cnt := n\<rparr>))) (\<lambda>_.
        whenm (n = blocks_per_arena d)
          (bnd (unlink_blocks r a 0 (unat (blocks_per_arena d))) (\<lambda>_.
           bnd (mfree_page pf a 1) (\<lambda>_.
           set_arena a None))))))"

definition sys_free :: "u32 \<Rightarrow> (mm, unit) km" where
  "sys_free ptr =
     bnd (kassert ''ptr != NULL'' (ptr \<noteq> 0)) (\<lambda>_.
     bnd (gets (\<lambda>s. if pgdir s = 0 then PF_KERNEL else PF_USER)) (\<lambda>pf.
     bnd (kassert ''(uint32_t)ptr >= K_HEAP_START'' (pf = PF_KERNEL \<longrightarrow> ptr \<ge> K_HEAP_START)) (\<lambda>_.
     bnd (pool_lock pf) (\<lambda>_.
     let a = block2arena ptr
     in bnd (get_arena a) (\<lambda>ar.
        bnd (kassert ''a->large == 0 || a->large == 1'' (large ar = 0 \<or> large ar = 1)) (\<lambda>_.
        bnd (if desc ar = None \<and> large ar = 1
             then bnd (mfree_page pf a (free_cnt ar)) (\<lambda>_. set_arena a None)
             else case desc ar of
                    None \<Rightarrow> fail (Fault ''a->desc is NULL'')
                  | Some r \<Rightarrow> free_small pf ptr a ar r) (\<lambda>_.
        pool_unlock pf)))))))"

end
