(* ===== verification/Translation.thy ===== *)
theory Translation
  imports Paging
begin

text \<open>
  The recursive entry of the page directory: through it, \<open>pde_ptr\<close> and \<open>pte_ptr\<close> are the addresses
  of the entries that the processor's translation of their argument uses, and an update of a page
  table entry changes the translation of one page.
\<close>

section \<open>Addresses\<close>

lemma frame_bits: "frame x = push_bit 12 (drop_bit 12 x)"
proof -
  have "(0xFFFFF000 :: u32) = NOT (mask 12)" by code_simp
  then show ?thesis unfolding frame_def
    by (simp add: bit_eq_iff bit_and_iff bit_not_iff bit_mask_iff bit_push_bit_iff bit_drop_bit_eq not_less) auto
qed

lemma unat_div_numeral:
  "unat (x div 4096 :: u32) = unat x div 4096" "unat (x div 4194304 :: u32) = unat x div 4194304"
  "unat (x mod 1024 :: u32) = unat x mod 1024" "unat (x mod 4096 :: u32) = unat x mod 4096"
  by (simp_all only: unat_div unat_mod) simp_all

lemma unat_frame: "unat (frame x) = 4096 * (unat x div 4096)"
proof -
  have "unat x div 4096 < 1048576" using unat_lt_u32 [of x] by (simp add: less_mult_imp_div_less)
  then have "unat ((x div 4096) * 4096) = unat x div 4096 * 4096"
    by (subst unat_mult_u32) (simp_all add: unat_div_numeral)
  then show ?thesis by (simp add: frame_bits push_bit_eq_mult drop_bit_eq_div mult.commute)
qed

lemma unat_drop22: "unat (drop_bit 22 (x :: u32)) = unat x div 4194304"
  by (simp add: drop_bit_eq_div unat_div_numeral)

lemma unat_pti: "unat (take_bit 10 (drop_bit 12 (x :: u32))) = unat x div 4096 mod 1024"
  by (simp add: drop_bit_eq_div take_bit_eq_mod unat_div_numeral)

lemma unat_offset: "unat (take_bit 12 (x :: u32)) = unat x mod 4096"
  by (simp add: take_bit_eq_mod unat_div_numeral)

lemma page_room: "k < 4096 \<Longrightarrow> 4096 * (unat (x :: u32) div 4096) + k < 4294967296"
proof -
  assume "k < 4096"
  moreover have "unat x div 4096 < 1048576" using unat_lt_u32 [of x] by (simp add: less_mult_imp_div_less)
  ultimately show ?thesis by linarith
qed

lemma pdi_less: "unat (drop_bit 22 (x :: u32)) < 1024"
  using unat_lt_u32 [of x] unfolding unat_drop22 by (simp add: less_mult_imp_div_less)

lemma pti_less: "unat (take_bit 10 (drop_bit 12 (x :: u32))) < 1024"
  by (simp add: unat_pti)

lemma unat_times4: "unat (i :: u32) < 1024 \<Longrightarrow> unat (4 * i) = 4 * unat i"
  by (subst unat_mult_u32) simp_all

lemma unat_slot: "unat (i :: u32) < 1024 \<Longrightarrow> unat (frame x + 4 * i) = unat (frame x) + 4 * unat i"
proof -
  assume i: "unat i < 1024"
  have "unat (frame x) + 4 * unat i < 4294967296"
    using i page_room [of "4 * unat i" x] by (simp add: unat_frame)
  then show ?thesis using i by (subst unat_add_u32) (simp_all add: unat_times4)
qed

lemma slot_eq_iff:
  assumes "unat (i :: u32) < 1024" and "unat (j :: u32) < 1024"
  shows "frame x + 4 * i = frame y + 4 * j \<longleftrightarrow> frame x = frame y \<and> i = j"
proof
  assume "frame x + 4 * i = frame y + 4 * j"
  then have "unat (frame x) + 4 * unat i = unat (frame y) + 4 * unat j"
    using unat_slot [OF assms(1), of x] unat_slot [OF assms(2), of y] by simp
  then have eq: "4096 * (unat x div 4096) + 4 * unat i = 4096 * (unat y div 4096) + 4 * unat j" by (simp add: unat_frame)
  moreover have "(4096 * A + 4 * unat k) div 4096 = A" if "unat k < 1024" for A and k :: u32 using that by simp
  ultimately have "unat x div 4096 = unat y div 4096" using assms by metis
  with eq have "unat i = unat j" by simp
  note this \<open>unat x div 4096 = unat y div 4096\<close>
  then show "frame x = frame y \<and> i = j" by (simp add: u32_eqI unat_frame)
qed simp

lemma frame_frame [simp]: "frame (frame x) = frame x"
  by (rule u32_eqI) (simp add: unat_frame)

lemma frame_add_offset: "unat o' < 4096 \<Longrightarrow> frame (frame x + o') = frame x"
proof (rule u32_eqI)
  assume o: "unat o' < 4096"
  have "unat (frame x) + unat o' < 4294967296"
    using o page_room [of "unat o'" x] by (simp add: unat_frame)
  then have "unat (frame x + o') = 4096 * (unat x div 4096) + unat o'" by (simp add: unat_add_u32 unat_frame)
  with o show "unat (frame (frame x + o')) = unat (frame x)" by (simp add: unat_frame)
qed

lemma frame_or_flags: "unat k < 4096 \<Longrightarrow> frame (frame x OR k) = frame x"
proof -
  assume "unat k < 4096"
  then have "unat (take_bit 12 k) = unat k" by (simp add: unat_offset)
  then have "take_bit 12 k = k" by (rule u32_eqI)
  then have "drop_bit 12 k = 0" by (metis drop_bit_take_bit cancel_comm_monoid_add_class.diff_cancel take_bit_0)
  then have "frame (frame x OR k) = frame (frame x)" by (simp only: frame_bits [of "_ OR _"] frame_bits [of "frame _"] drop_bit_or or.right_neutral)
  then show ?thesis by simp
qed

lemma and_high_bits: "x AND NOT (mask n) = push_bit n (drop_bit n (x :: u32))"
  by (simp add: bit_eq_iff bit_and_iff bit_not_iff bit_mask_iff bit_push_bit_iff bit_drop_bit_eq not_less) auto

lemma PDE_IDX_eq: "PDE_IDX va = drop_bit 22 va"
proof -
  have eq: "(0xffc00000 :: u32) = NOT (mask 22)" by code_simp
  show ?thesis unfolding PDE_IDX_def eq
    by (rule bit_word_eqI) (auto simp: bit_drop_bit_eq bit_and_iff bit_not_iff bit_mask_iff dest: bit_imp_le_length)
qed

lemma PTE_IDX_eq: "PTE_IDX va = take_bit 10 (drop_bit 12 va)"
proof -
  have eq: "(0x003ff000 :: u32) = push_bit 12 (mask 10)" by code_simp
  show ?thesis unfolding PTE_IDX_def eq
    by (rule bit_word_eqI)
       (auto simp: bit_drop_bit_eq bit_and_iff bit_push_bit_iff bit_mask_iff bit_take_bit_iff dest: bit_imp_le_length)
qed

section \<open>The recursive entry\<close>

definition recursive :: "mm \<Rightarrow> bool" where
  "recursive s \<longleftrightarrow> present (ram s (frame (cr3 s) + 4 * 1023)) \<and> frame (ram s (frame (cr3 s) + 4 * 1023)) = frame (cr3 s)"

lemma unat_pde_ptr: "unat (pde_ptr va) = 4294963200 + 4 * (unat va div 4194304)"
proof -
  have d: "unat va div 4194304 < 1024" using pdi_less [of va] by (simp add: unat_drop22)
  then have m: "unat (drop_bit 22 va * 4) = 4 * (unat va div 4194304)"
    by (subst unat_mult_u32) (simp_all add: unat_drop22)
  show ?thesis unfolding pde_ptr_def PDE_IDX_eq using m d by (subst unat_add_u32) simp_all
qed

lemma unat_add3:
  "unat (a :: u32) + unat b + unat c < 4294967296 \<Longrightarrow> unat (a + b + c) = unat a + unat b + unat c"
  by (simp add: unat_add_u32)

lemma unat_pte_ptr: "unat (pte_ptr va) = 4290772992 + 4 * (unat va div 4096)"
proof -
  have mask: "(0xFFC00000 :: u32) = NOT (mask 22)" by code_simp
  have high: "drop_bit 10 (va AND 0xFFC00000) = drop_bit 22 va * 4096"
    unfolding mask and_high_bits
    by (rule bit_word_eqI, auto simp: bit_drop_bit_eq bit_push_bit_iff push_bit_eq_mult [of 12, symmetric, simplified] dest: bit_imp_le_length)
  have d: "unat va div 4194304 < 1024" using pdi_less [of va] by (simp add: unat_drop22)
  then have a: "unat (drop_bit 22 va * 4096) = 4096 * (unat va div 4194304)"
    by (subst unat_mult_u32) (simp_all add: unat_drop22)
  have b: "unat (take_bit 10 (drop_bit 12 va) * 4) = 4 * (unat va div 4096 mod 1024)"
    using pti_less [of va] by (subst unat_mult_u32) (simp_all add: unat_pti)
  have "4 * n = 4096 * (n div 1024) + 4 * (n mod 1024)" for n :: nat
    using div_mult_mod_eq [of n 1024] by linarith
  moreover have "unat va div 4194304 = unat va div 4096 div 1024" by (simp flip: div_mult2_eq)
  ultimately have e: "4 * (unat va div 4096) = 4096 * (unat va div 4194304) + 4 * (unat va div 4096 mod 1024)" by metis
  have "unat va div 4096 mod 1024 < 1024" by simp
  with d have "4290772992 + 4096 * (unat va div 4194304) + 4 * (unat va div 4096 mod 1024) < 4294967296" by linarith
  then show ?thesis
    unfolding pte_ptr_def PTE_IDX_eq high using a b e
    by (subst unat_add3) simp_all
qed

lemma window_arith:
  fixes d n :: nat
  shows "d < 1024 \<Longrightarrow> (4294963200 + 4 * d) div 4096 mod 1024 = 1023"
    and "d < 1024 \<Longrightarrow> (4294963200 + 4 * d) mod 4096 = 4 * d"
    and "n < 1048576 \<Longrightarrow> (4290772992 + 4 * n) div 4096 mod 1024 = n div 1024"
    and "(4290772992 + 4 * n) mod 4096 = 4 * (n mod 1024)"
proof -
  have d: "4294963200 + 4 * d = 4 * d + 1048575 * 4096" by simp
  have "d < 1024 \<Longrightarrow> (4294963200 + 4 * d) div 4096 = 1048575" by (intro div_nat_eqI) simp_all
  then show "d < 1024 \<Longrightarrow> (4294963200 + 4 * d) div 4096 mod 1024 = 1023" by simp
  show "d < 1024 \<Longrightarrow> (4294963200 + 4 * d) mod 4096 = 4 * d" unfolding d mod_mult_self1 by simp
  have n: "4290772992 + 4 * n = 4 * n + 1047552 * 4096" by simp
  have q: "4 * n div 4096 = n div 1024" using div_mult_mult1 [of 4 n 1024] by simp
  have "(1047552 + k) mod 1024 = k" if "k < 1024" for k :: nat
    using that mod_mult_self1 [of k 1023 1024] by (simp add: add.commute)
  moreover have "n < 1048576 \<Longrightarrow> n div 1024 < 1024" by (simp add: less_mult_imp_div_less)
  ultimately show "n < 1048576 \<Longrightarrow> (4290772992 + 4 * n) div 4096 mod 1024 = n div 1024"
    unfolding n using q div_mult_self1 [of 4096 "4 * n" 1047552] by simp
  show "(4290772992 + 4 * n) mod 4096 = 4 * (n mod 1024)"
    unfolding n mod_mult_self1 using mult_mod_right [of 4 n 1024] by simp
qed

lemma parts_of_pde_ptr:
  "drop_bit 22 (pde_ptr va) = 1023" "take_bit 10 (drop_bit 12 (pde_ptr va)) = 1023"
  "take_bit 12 (pde_ptr va) = 4 * drop_bit 22 va"
proof -
  have d: "unat va div 4194304 < 1024" using pdi_less [of va] by (simp add: unat_drop22)
  show "drop_bit 22 (pde_ptr va) = 1023" "take_bit 10 (drop_bit 12 (pde_ptr va)) = 1023"
    using d by (auto intro!: u32_eqI simp: unat_drop22 unat_pti unat_pde_ptr window_arith)
  show "take_bit 12 (pde_ptr va) = 4 * drop_bit 22 va"
    using d pdi_less [of va] by (auto intro!: u32_eqI simp: unat_offset unat_pde_ptr unat_times4 unat_drop22 window_arith)
qed

lemma parts_of_pte_ptr:
  "drop_bit 22 (pte_ptr va) = 1023" "take_bit 10 (drop_bit 12 (pte_ptr va)) = drop_bit 22 va"
  "take_bit 12 (pte_ptr va) = 4 * take_bit 10 (drop_bit 12 va)"
proof -
  have d: "unat va div 4096 < 1048576" using unat_lt_u32 [of va] by (simp add: less_mult_imp_div_less)
  have e: "unat va div 4096 div 1024 = unat va div 4194304" by (simp flip: div_mult2_eq)
  show "drop_bit 22 (pte_ptr va) = 1023"
    using d by (auto intro!: u32_eqI simp: unat_drop22 unat_pte_ptr)
  show "take_bit 10 (drop_bit 12 (pte_ptr va)) = drop_bit 22 va"
    using d e by (auto intro!: u32_eqI simp: unat_pti unat_drop22 unat_pte_ptr window_arith)
  show "take_bit 12 (pte_ptr va) = 4 * take_bit 10 (drop_bit 12 va)"
    using pti_less [of va] by (auto intro!: u32_eqI simp: unat_offset unat_pte_ptr unat_times4 unat_pti window_arith)
qed

text \<open>Through the recursive entry the two pointers reach the entries that translate \<open>va\<close>.\<close>

lemma mmu_pde_ptr: "recursive s \<Longrightarrow> mmu s (pde_ptr va) = Some (pd_addr s va)"
  by (simp add: mmu_def pd_addr_def pt_addr_def parts_of_pde_ptr recursive_def)

lemma mmu_pte_ptr:
  "recursive s \<Longrightarrow> present (ram s (pd_addr s va)) \<Longrightarrow> mmu s (pte_ptr va) = Some (pt_addr s va)"
  by (simp add: mmu_def pd_addr_def pt_addr_def parts_of_pte_ptr recursive_def)

lemma mmu_pte_page:
  "recursive s \<Longrightarrow> present (ram s (pd_addr s va)) \<Longrightarrow>
   mmu s (pte_ptr va AND 0xFFFFF000) = Some (frame (ram s (pd_addr s va)))"
proof -
  assume s: "recursive s" "present (ram s (pd_addr s va))"
  have f: "pte_ptr va AND 0xFFFFF000 = frame (pte_ptr va)" by (simp add: frame_def)
  have d: "unat (frame x) div 4194304 = unat x div 4194304" "unat (frame x) div 4096 = unat x div 4096"
    "unat (frame x) mod 4096 = 0" for x
  proof -
    show *: "unat (frame x) div 4096 = unat x div 4096" by (simp add: unat_frame)
    have "a div 4194304 = a div 4096 div 1024" for a :: nat by (simp flip: div_mult2_eq)
    with * show "unat (frame x) div 4194304 = unat x div 4194304" by metis
    show "unat (frame x) mod 4096 = 0" by (simp add: unat_frame)
  qed
  have "drop_bit 22 (frame (pte_ptr va)) = drop_bit 22 (pte_ptr va)" "take_bit 12 (frame (pte_ptr va)) = 0"
    "take_bit 10 (drop_bit 12 (frame (pte_ptr va))) = take_bit 10 (drop_bit 12 (pte_ptr va))"
    by (auto intro!: u32_eqI simp: unat_drop22 unat_pti unat_offset d)
  then show ?thesis unfolding f using s
    by (simp add: mmu_def pd_addr_def pt_addr_def parts_of_pte_ptr recursive_def)
qed

lemma same_tables:
  assumes "ram s' = ram s" and "cr3 s' = cr3 s"
  shows "pd_addr s' = pd_addr s" and "pt_addr s' = pt_addr s" and "mmu s' = mmu s" and "recursive s' = recursive s"
proof -
  show pd: "pd_addr s' = pd_addr s" by (simp add: pd_addr_def fun_eq_iff assms)
  show pt: "pt_addr s' = pt_addr s" by (simp add: pt_addr_def fun_eq_iff assms pd)
  show "mmu s' = mmu s" by (simp add: mmu_def fun_eq_iff assms pd pt)
  show "recursive s' = recursive s" by (simp add: recursive_def assms)
qed

lemma load_Some: "mmu s va = Some pa \<Longrightarrow> load va s = Inr (ram s pa, s)"
  by (simp add: load_def)

lemma store_Some: "mmu s va = Some pa \<Longrightarrow> store va v s = Inr ((), s\<lparr>ram := (ram s)(pa := v)\<rparr>)"
  by (simp add: store_def)

lemma bnd_load: "mmu s va = Some pa \<Longrightarrow> bnd (load va) f s = f (ram s pa) s"
  by (simp add: bnd_Inr load_Some)

lemma bnd_store: "mmu s va = Some pa \<Longrightarrow> bnd (store va v) f s = f () (s\<lparr>ram := (ram s)(pa := v)\<rparr>)"
  by (simp add: bnd_Inr store_Some)

lemma addr_v2p_run:
  assumes "recursive s" and "present (ram s (pd_addr s va))"
  shows "addr_v2p va s = Inr (frame (ram s (pt_addr s va)) + take_bit 12 va, s)"
proof -
  have "(0xFFF :: u32) = mask 12" by code_simp
  then have "va AND 0xFFF = take_bit 12 va" by (simp only: take_bit_eq_mask)
  then show ?thesis by (simp add: addr_v2p_def bnd_load [OF mmu_pte_ptr [OF assms]] frame_def)
qed

lemma addr_v2p_mmu: "recursive s \<Longrightarrow> mmu s va = Some pa \<Longrightarrow> addr_v2p va s = Inr (pa, s)"
  by (auto simp: mmu_def addr_v2p_run split: if_splits)

end
