(* ===== verification/Frames.thy ===== *)
theory Frames
  imports Translation
begin

text \<open>
  The frames of physical memory: which are free, the reference counts, and what \<open>palloc\<close> and
  \<open>free_a_phy_page\<close> do to them. Each pool provides the contract \<open>slot_pool\<close> of the bitmaps.
\<close>

section \<open>The pools\<close>

definition pool_cap :: "pool_flags \<Rightarrow> mm \<Rightarrow> nat" where
  "pool_cap pf s = bitmap_cap (pool_bitmap (the_pool pf s))"

definition pool_base :: "pool_flags \<Rightarrow> mm \<Rightarrow> nat" where
  "pool_base pf s = unat (phy_addr_start (the_pool pf s))"

definition frame_used :: "pool_flags \<Rightarrow> mm \<Rightarrow> nat \<Rightarrow> bool" where
  "frame_used pf s k \<longleftrightarrow> used_bit (pool_bitmap (the_pool pf s)) k"

definition frame_of :: "pool_flags \<Rightarrow> mm \<Rightarrow> nat \<Rightarrow> u32" where
  "frame_of pf s k = of_nat (pool_base pf s + 4096 * k)"

definition frame_ref :: "mm \<Rightarrow> u32 \<Rightarrow> u8" where
  "frame_ref s f = mem s ! unat (mem_idx f)"

definition is_free :: "mm \<Rightarrow> u32 \<Rightarrow> bool" where
  "is_free s f \<longleftrightarrow> (\<exists>pf k. k < pool_cap pf s \<and> \<not> frame_used pf s k \<and> f = frame_of pf s k)"

text \<open>
  The pools are disjoint ranges of whole frames above 2 MB, all counted by \<open>mem\<close>, and a frame is
  in use exactly when its count is not 0.
\<close>

definition pools_ok :: "mm \<Rightarrow> bool" where
  "pools_ok s \<longleftrightarrow>
     bitmap_wf (pool_bitmap (kernel_pool s)) \<and> bitmap_wf (pool_bitmap (user_pool s)) \<and>
     0x200000 \<le> pool_base PF_KERNEL s \<and> pool_base PF_KERNEL s mod 4096 = 0 \<and> pool_base PF_USER s mod 4096 = 0 \<and>
     pool_base PF_KERNEL s + 4096 * pool_cap PF_KERNEL s \<le> pool_base PF_USER s \<and>
     pool_base PF_USER s + 4096 * pool_cap PF_USER s \<le> 0x200000 + 4096 * length (mem s) \<and>
     length (mem s) = Physical_Page \<and>
     (\<forall>pf k. k < pool_cap pf s \<longrightarrow> (frame_used pf s k \<longleftrightarrow> frame_ref s (frame_of pf s k) \<noteq> 0))"

text \<open>Two states that differ in the pools and the counts only.\<close>

definition pools_differ :: "mm \<Rightarrow> mm \<Rightarrow> bool" where
  "pools_differ s s' \<longleftrightarrow> s' = s\<lparr>kernel_pool := kernel_pool s', user_pool := user_pool s', mem := mem s'\<rparr>"

lemma pools_differD:
  assumes "pools_differ s s'"
  shows "ram s' = ram s" and "cr3 s' = cr3 s" and "pgdir s' = pgdir s" and "kernel_vaddr s' = kernel_vaddr s"
    and "userprog_vaddr s' = userprog_vaddr s" and "arenas s' = arenas s"
    and "k_block_descs s' = k_block_descs s" and "u_block_desc s' = u_block_desc s"
  by (subst assms [unfolded pools_differ_def], simp)+

lemma pools_okD:
  assumes "pools_ok s"
  shows "bitmap_wf (pool_bitmap (the_pool pf s))" and "pool_base pf s mod 4096 = 0"
    and "0x200000 \<le> pool_base pf s" and "pool_base pf s + 4096 * pool_cap pf s \<le> 34045952"
    and "k < pool_cap pf s \<Longrightarrow> frame_used pf s k \<longleftrightarrow> frame_ref s (frame_of pf s k) \<noteq> 0"
    and "length (mem s) = 7800"
  using assms by (cases pf; auto simp: pools_ok_def Physical_Page_def)+

lemma unat_frame_of:
  assumes "pools_ok s" and "k < pool_cap pf s"
  shows "unat (frame_of pf s k) = pool_base pf s + 4096 * k"
  using pools_okD(4) [OF assms(1), where pf = pf] assms(2)
  unfolding frame_of_def by (intro unat_of_nat_u32) simp

lemma mem_idx_frame:
  assumes "pools_ok s" and "k < pool_cap pf s"
  shows "unat (mem_idx (frame_of pf s k)) = (pool_base pf s - 0x200000) div 4096 + k"
    and "unat (mem_idx (frame_of pf s k)) < 7800"
proof -
  note ok = pools_okD(1-5) [OF assms(1), where pf = pf]
  have "unat (frame_of pf s k - 0x200000) = pool_base pf s + 4096 * k - 0x200000"
    using ok(3) unat_frame_of [OF assms] by (subst unat_sub_u32) simp_all
  then have "unat (mem_idx (frame_of pf s k)) = (pool_base pf s + 4096 * k - 0x200000) div 4096"
    unfolding mem_idx_def PG_SIZE_def by (simp only: unat_div_numeral)
  moreover have "pool_base pf s + 4096 * k - 0x200000 = (pool_base pf s - 0x200000) + k * 4096" using ok(3) by simp
  ultimately show i: "unat (mem_idx (frame_of pf s k)) = (pool_base pf s - 0x200000) div 4096 + k"
    by (simp only: div_mult_self1)
  have "pool_base pf s - 0x200000 + 4096 * k < 4096 * 7800" using ok(3,4) assms(2) by linarith
  then show "unat (mem_idx (frame_of pf s k)) < 7800" unfolding i by linarith
qed

lemma frame_of_eq_iff:
  assumes "pools_ok s" and "k < pool_cap pf s" and "j < pool_cap qf s"
  shows "mem_idx (frame_of pf s k) = mem_idx (frame_of qf s j) \<longleftrightarrow> pf = qf \<and> k = j"
    and "frame_of pf s k = frame_of qf s j \<longleftrightarrow> pf = qf \<and> k = j"
proof -
  have apart: "pool_base PF_KERNEL s + 4096 * pool_cap PF_KERNEL s \<le> pool_base PF_USER s"
    using assms(1) by (simp add: pools_ok_def)
  have base: "pool_base PF_KERNEL s mod 4096 = 0" "pool_base PF_USER s mod 4096 = 0"
    "0x200000 \<le> pool_base PF_KERNEL s" using pools_okD(2,3) [OF assms(1)] by blast+
  have sep: "(pool_base PF_KERNEL s - 0x200000) div 4096 + m < (pool_base PF_USER s - 0x200000) div 4096 + n"
    if "m < pool_cap PF_KERNEL s" for m n
    using apart base that by auto
  have "unat (mem_idx (frame_of pf s k)) = unat (mem_idx (frame_of qf s j)) \<longleftrightarrow> pf = qf \<and> k = j"
    using sep [of k j] sep [of j k] assms(2,3) mem_idx_frame(1) [OF assms(1,2)] mem_idx_frame(1) [OF assms(1,3)]
    by (cases pf; cases qf) auto
  then show i: "mem_idx (frame_of pf s k) = mem_idx (frame_of qf s j) \<longleftrightarrow> pf = qf \<and> k = j"
    by (metis u32_eqI)
  then show "frame_of pf s k = frame_of qf s j \<longleftrightarrow> pf = qf \<and> k = j" by metis
qed

lemma frame_of_frame:
  assumes "pools_ok s" and "k < pool_cap pf s"
  shows "frame (frame_of pf s k) = frame_of pf s k" and "frame_of pf s k \<noteq> 0" and "0x200000 \<le> unat (frame_of pf s k)"
proof -
  note u = unat_frame_of [OF assms] and ok = pools_okD(1-5) [OF assms(1), where pf = pf]
  have m: "(pool_base pf s + 4096 * k) mod 4096 = 0" using ok(2) by simp
  show "frame (frame_of pf s k) = frame_of pf s k"
    by (intro u32_eqI) (simp only: unat_frame u, metis m add.right_neutral mult_div_mod_eq)
  show *: "0x200000 \<le> unat (frame_of pf s k)" using u ok(3) by simp
  then show "frame_of pf s k \<noteq> 0" by auto
qed

section \<open>One frame changes\<close>

text \<open>The count of frame \<open>k\<close> of a pool becomes \<open>v\<close>, its bit follows, nothing else changes.\<close>

definition frame_changed :: "pool_flags \<Rightarrow> nat \<Rightarrow> u8 \<Rightarrow> mm \<Rightarrow> mm \<Rightarrow> bool" where
  "frame_changed pf k v s s' \<longleftrightarrow>
     pools_differ s s' \<and> pools_ok s' \<and>
     (\<forall>qf. pool_cap qf s' = pool_cap qf s \<and> pool_base qf s' = pool_base qf s \<and>
        mutex (the_pool qf s') = mutex (the_pool qf s) \<and> pool_size (the_pool qf s') = pool_size (the_pool qf s)) \<and>
     (\<forall>qf j. j < pool_cap qf s \<longrightarrow>
        frame_used qf s' j = (if qf = pf \<and> j = k then v \<noteq> 0 else frame_used qf s j)) \<and>
     mem s' = (mem s)[unat (mem_idx (frame_of pf s k)) := v]"

lemma the_pool_upd [simp]: "the_pool pf (upd_pool qf f s) = (if pf = qf then f (the_pool pf s) else the_pool pf s)"
  by (cases pf; cases qf) simp_all

lemma the_pool_mem [simp]: "the_pool pf (s\<lparr>mem := m\<rparr>) = the_pool pf s"
  by (cases pf) simp_all

lemma the_pool_ram [simp]: "the_pool pf (s\<lparr>ram := m\<rparr>) = the_pool pf s"
  by (cases pf) simp_all

lemma upd_pool_fields [simp]: "mem (upd_pool pf f s) = mem s" "ram (upd_pool pf f s) = ram s" "cr3 (upd_pool pf f s) = cr3 s"
  by (cases pf; simp)+

lemma frame_of_cong: "pool_base pf s' = pool_base pf s \<Longrightarrow> frame_of pf s' = frame_of pf s"
  by (simp add: frame_of_def fun_eq_iff)

lemma get_mem_run: "unat (mem_idx pa) < length (mem s) \<Longrightarrow> get_mem pa s = Inr (frame_ref s pa, s)"
  by (simp add: get_mem_def frame_ref_def)

lemma bnd_get_mem: "unat (mem_idx pa) < length (mem s) \<Longrightarrow> bnd (get_mem pa) g s = g (frame_ref s pa) s"
  by (simp add: bnd_def get_mem_run)

lemma set_mem_run:
  "unat (mem_idx pa) < length (mem s) \<Longrightarrow> set_mem pa v s = Inr ((), s\<lparr>mem := (mem s)[unat (mem_idx pa) := v]\<rparr>)"
  by (simp add: set_mem_def)

lemma frame_change:
  assumes ok: "pools_ok s" and k: "k < pool_cap pf s"
    and b: "bitmap_wf b" "bitmap_cap b = bitmap_cap (pool_bitmap (the_pool pf s))"
      "\<forall>j < bitmap_cap b. used_bit b j = (if j = k then v \<noteq> 0 else used_bit (pool_bitmap (the_pool pf s)) j)"
  defines "s' \<equiv> (upd_pool pf (\<lambda>p. p\<lparr>pool_bitmap := b\<rparr>) s)\<lparr>mem := (mem s)[unat (mem_idx (frame_of pf s k)) := v]\<rparr>"
  shows "frame_changed pf k v s s'"
proof -
  let ?i = "unat (mem_idx (frame_of pf s k))"
  have size: "pool_cap qf s' = pool_cap qf s \<and> pool_base qf s' = pool_base qf s \<and>
      mutex (the_pool qf s') = mutex (the_pool qf s) \<and> pool_size (the_pool qf s') = pool_size (the_pool qf s)" for qf
    using b by (simp add: s'_def pool_cap_def pool_base_def)
  have used: "frame_used qf s' j = (if qf = pf \<and> j = k then v \<noteq> 0 else frame_used qf s j)" if "j < pool_cap qf s" for qf j
    using b that by (auto simp: s'_def frame_used_def pool_cap_def)
  have ref: "frame_ref s' (frame_of qf s j) = (if qf = pf \<and> j = k then v else frame_ref s (frame_of qf s j))"
    if j: "j < pool_cap qf s" for qf j
  proof -
    have "?i = unat (mem_idx (frame_of qf s j)) \<longleftrightarrow> qf = pf \<and> j = k"
      using frame_of_eq_iff(1) [OF ok k j] by (metis u32_eqI)
    then show ?thesis using mem_idx_frame(2) [OF ok j] pools_okD(6) [OF ok]
      by (auto simp: s'_def frame_ref_def nth_list_update)
  qed
  have "bitmap_wf (pool_bitmap (the_pool qf s'))" for qf
    using pools_okD(1) [OF ok] b(1) by (simp add: s'_def)
  from this [of PF_KERNEL] this [of PF_USER] have wf: "bitmap_wf (pool_bitmap (kernel_pool s'))" "bitmap_wf (pool_bitmap (user_pool s'))"
    by simp_all
  have len: "length (mem s') = length (mem s)" by (simp add: s'_def)
  have refs: "frame_used qf s' j \<longleftrightarrow> frame_ref s' (frame_of qf s' j) \<noteq> 0" if "j < pool_cap qf s'" for qf j
    using that size [of qf] used [of j qf] ref [of j qf] pools_okD(5) [OF ok, of j qf] frame_of_cong [of qf s' s] by simp
  have "pools_ok s'"
    unfolding pools_ok_def
  proof (intro conjI allI impI wf refs)
  qed (use ok size len in \<open>simp_all add: pools_ok_def\<close>)
  moreover have "pools_differ s s'" by (cases pf) (simp_all add: pools_differ_def s'_def)
  ultimately show ?thesis using size used by (simp add: frame_changed_def) (simp add: s'_def)
qed

lemma palloc_run:
  assumes ok: "pools_ok s" and free: "\<exists>i < pool_cap pf s. \<not> frame_used pf s i"
  obtains k s' where "palloc pf s = Inr (frame_of pf s k, s')" and "k < pool_cap pf s"
    and "\<not> frame_used pf s k" and "frame_changed pf k 1 s s'"
proof -
  let ?b = "pool_bitmap (the_pool pf s)"
  note wf = pools_okD(1) [OF ok, of pf]
  have "\<exists>i < bitmap_cap ?b. \<not> used_bit ?b i" using free by (simp add: pool_cap_def frame_used_def)
  from bitmap_scan_one [OF wf this] obtain k where k: "bitmap_scan ?b 1 = Inr (of_nat k)" "k < bitmap_cap ?b" "\<not> used_bit ?b k"
    by blast
  have k': "k < pool_cap pf s" "\<not> frame_used pf s k" using k by (simp_all add: pool_cap_def frame_used_def)
  have small: "k < 2 ^ 31" using k(2) bitmap_cap_less [OF wf] by simp
  obtain b where b: "bitmap_set ?b (of_nat k) 1 = Inr b" "bitmap_wf b" "bitmap_cap b = bitmap_cap ?b"
    "\<forall>j < bitmap_cap ?b. used_bit b j = (if j = k then (1 :: u8) = 1 else used_bit ?b j)"
    using bitmap_set_wf [OF wf k(2), of 1] by auto
  have f: "of_nat k * PG_SIZE + phy_addr_start (the_pool pf s) = frame_of pf s k"
    by (simp add: frame_of_def pool_base_def PG_SIZE_def algebra_simps)
  let ?t = "upd_pool pf (\<lambda>p. p\<lparr>pool_bitmap := b\<rparr>) s"
  let ?s = "?t\<lparr>mem := (mem s)[unat (mem_idx (frame_of pf s k)) := 1]\<rparr>"
  have "set_mem (frame_of pf s k) 1 ?t = Inr ((), ?s)"
    using mem_idx_frame(2) [OF ok k'(1)] pools_okD(6) [OF ok] by (simp add: set_mem_run)
  then have "palloc pf s = Inr (frame_of pf s k, ?s)"
    using k(1) b(1) u32_of_nat_not_minus1 [OF small] by (simp add: palloc_def Let_def f bnd_Inr)
  moreover have "frame_changed pf k 1 s ?s" using b by (intro frame_change [OF ok k'(1)]) simp_all
  ultimately show thesis using k' by (intro that)
qed

lemma pool_of_frame:
  assumes ok: "pools_ok s" and k: "k < pool_cap pf s"
  shows "(if phy_addr_start (user_pool s) \<le> frame_of pf s k then PF_USER else PF_KERNEL) = pf"
    and "(frame_of pf s k - phy_addr_start (the_pool pf s)) div PG_SIZE = of_nat k"
proof -
  note u = unat_frame_of [OF ok k]
  have base: "pool_base PF_USER s = unat (phy_addr_start (user_pool s))" "pool_base pf s = unat (phy_addr_start (the_pool pf s))"
    by (simp_all add: pool_base_def)
  have "pool_base PF_KERNEL s + 4096 * pool_cap PF_KERNEL s \<le> pool_base PF_USER s" using ok by (simp add: pools_ok_def)
  then show "(if phy_addr_start (user_pool s) \<le> frame_of pf s k then PF_USER else PF_KERNEL) = pf"
    using u k base by (cases pf) (auto simp: word_le_nat_alt)
  have "unat (frame_of pf s k - phy_addr_start (the_pool pf s)) = 4096 * k"
    using u base(2) by (subst unat_sub_u32) simp_all
  then have "unat ((frame_of pf s k - phy_addr_start (the_pool pf s)) div PG_SIZE) = k"
    unfolding PG_SIZE_def unat_div_numeral by simp
  then show "(frame_of pf s k - phy_addr_start (the_pool pf s)) div PG_SIZE = of_nat k"
    by (metis of_nat_unat_u32)
qed

lemma free_page_run:
  assumes ok: "pools_ok s" and k: "k < pool_cap pf s" and n: "frame_ref s (frame_of pf s k) \<noteq> 0"
  obtains s' where "free_a_phy_page (frame_of pf s k) s = Inr ((), s')"
    and "frame_changed pf k (frame_ref s (frame_of pf s k) - 1) s s'"
proof -
  let ?f = "frame_of pf s k" and ?b = "pool_bitmap (the_pool pf s)"
  let ?n = "frame_ref s ?f"
  note i = mem_idx_frame(2) [OF ok k] and wf = pools_okD(1) [OF ok, of pf]
  have cap: "k < bitmap_cap ?b" using k by (simp add: pool_cap_def)
  have get: "bnd (get_mem ?f) g s = g ?n s" for g using i pools_okD(6) [OF ok] by (simp add: bnd_get_mem)
  have used: "used_bit ?b k" using pools_okD(5) [OF ok k] n by (simp add: frame_used_def)
  show thesis
  proof (cases "?n > 1")
    case True
    let ?s = "(upd_pool pf (\<lambda>p. p\<lparr>pool_bitmap := ?b\<rparr>) s)\<lparr>mem := (mem s)[unat (mem_idx ?f) := ?n - 1]\<rparr>"
    have "?n - 1 \<noteq> 0" using True by auto
    then have "frame_changed pf k (?n - 1) s ?s" using used by (intro frame_change [OF ok k wf]) auto
    moreover have "upd_pool pf (\<lambda>p. p\<lparr>pool_bitmap := ?b\<rparr>) s = s" by (cases pf) simp_all
    then have "free_a_phy_page ?f s = Inr ((), ?s)"
      using True i pools_okD(6) [OF ok] by (simp add: free_a_phy_page_def get set_mem_run)
    ultimately show thesis using that by blast
  next
    case False
    have "?n = 1" using False n by (metis unsigned_eq_0_iff word_not_simps(1) linorder_neqE word_less_1)
    obtain b where b: "bitmap_set ?b (of_nat k) 0 = Inr b" "bitmap_wf b" "bitmap_cap b = bitmap_cap ?b"
      "\<forall>j < bitmap_cap ?b. used_bit b j = (if j = k then (0 :: u8) = 1 else used_bit ?b j)"
      using bitmap_set_wf [OF wf cap, of 0] by auto
    let ?s = "(upd_pool pf (\<lambda>p. p\<lparr>pool_bitmap := b\<rparr>) s)\<lparr>mem := (mem s)[unat (mem_idx ?f) := 0]\<rparr>"
    have "frame_changed pf k (?n - 1) s ?s" using b \<open>?n = 1\<close> by (simp, intro frame_change [OF ok k]) auto
    moreover have "free_a_phy_page ?f s = Inr ((), ?s)"
      using b(1) \<open>?n = 1\<close> i pools_okD(6) [OF ok] pool_of_frame [OF ok k]
      by (simp add: free_a_phy_page_def get Let_def set_mem_run)
    ultimately show thesis using that by blast
  qed
qed

end
