(* ===== verification/Page_Tables.thy ===== *)
theory Page_Tables
  imports Frames
begin

text \<open>
  The effect of \<open>page_table_add\<close>, \<open>Modify_PTE\<close> and \<open>page_table_pte_remove\<close> on the translation of
  every address, whether or not the page table is there already.
\<close>

section \<open>Writing an entry of a page table\<close>

lemma pt_addr_neq_pd_addr:
  "frame (ram s (pd_addr s va)) \<noteq> frame (cr3 s) \<Longrightarrow> pt_addr s va \<noteq> pd_addr s x"
  "frame (ram s (pd_addr s va)) \<noteq> frame (cr3 s) \<Longrightarrow> pt_addr s va \<noteq> frame (cr3 s) + 4 * 1023"
  by (auto simp: pt_addr_def pd_addr_def slot_eq_iff [OF pti_less pdi_less] slot_eq_iff [OF pti_less, of 1023, simplified])

lemma mmu_store_entry:
  fixes v x :: u32
  assumes "frame (ram s (pd_addr s va)) \<noteq> frame (cr3 s)"
  defines "s' \<equiv> s\<lparr>ram := (ram s)(pt_addr s va := v)\<rparr>"
  shows "pd_addr s' x = pd_addr s x" and "ram s' (pd_addr s x) = ram s (pd_addr s x)" and "pt_addr s' x = pt_addr s x"
    and "recursive s' \<longleftrightarrow> recursive s"
    and "mmu s' x = (if pt_addr s x \<noteq> pt_addr s va then mmu s x
      else if present (ram s (pd_addr s x)) \<and> present v then Some (frame v + take_bit 12 x) else None)"
proof -
  show d: "pd_addr s' x = pd_addr s x" "ram s' (pd_addr s x) = ram s (pd_addr s x)" for x
    using pt_addr_neq_pd_addr(1) [OF assms(1), of x] by (simp_all add: s'_def pd_addr_def)
  show t: "pt_addr s' x = pt_addr s x" for x by (simp add: pt_addr_def d)
  show "recursive s' \<longleftrightarrow> recursive s"
    using pt_addr_neq_pd_addr(2) [OF assms(1)] by (simp add: recursive_def s'_def)
  show "mmu s' x = (if pt_addr s x \<noteq> pt_addr s va then mmu s x
      else if present (ram s (pd_addr s x)) \<and> present v then Some (frame v + take_bit 12 x) else None)"
    by (simp add: mmu_def d t) (simp add: s'_def)
qed

lemma unat_page_diff:
  assumes "frame f = f"
  shows "a - f < 4096 \<longleftrightarrow> frame a = f"
proof -
  have f: "unat f mod 4096 = 0" "unat f = 4096 * (unat f div 4096)"
    using arg_cong [OF assms, of unat] unat_frame [of f] by (metis mod_mult_self1_is_0, metis)
  have top: "unat f + 4096 \<le> 4294967296"
    using f(2) page_room [of 4095 f] by linarith
  have eq: "frame a = f \<longleftrightarrow> unat a div 4096 = unat f div 4096"
    using unat_frame [of a] f(2) by (metis assms mult_left_cancel u32_eqI unat_frame zero_neq_numeral)
  show ?thesis
  proof (cases "unat f \<le> unat a")
    case True
    then have "unat (a - f) = unat a - unat f" by (simp add: unat_sub_u32)
    moreover have "unat a div 4096 = unat f div 4096 \<longleftrightarrow> unat a - unat f < 4096"
      using True f(2) div_mult_mod_eq [of "unat a" 4096] by linarith
    ultimately show ?thesis unfolding eq by (simp add: word_less_nat_alt)
  next
    case False
    then have "unat (a - f) = unat a + 4294967296 - unat f"
      by (simp add: unat_sub_if' not_le)
    then have "\<not> unat (a - f) < 4096" using top by linarith
    moreover have "unat a div 4096 \<noteq> unat f div 4096"
      using False f(2) div_mult_mod_eq [of "unat a" 4096] by linarith
    ultimately show ?thesis unfolding eq by (simp add: word_less_nat_alt)
  qed
qed

section \<open>Adding a mapping\<close>

text \<open>
  The directory is sane: it maps itself, no other entry points to it, and neither it nor a page
  table lies in a free frame.
\<close>

definition tables_ok :: "mm \<Rightarrow> bool" where
  "tables_ok s \<longleftrightarrow> recursive s \<and> \<not> is_free s (frame (cr3 s)) \<and>
     (\<forall>va. drop_bit 22 va \<noteq> 1023 \<and> present (ram s (pd_addr s va)) \<longrightarrow>
        frame (ram s (pd_addr s va)) \<noteq> frame (cr3 s) \<and> \<not> is_free s (frame (ram s (pd_addr s va))))"

lemma present_or_1: "present (x OR 7)" "odd v \<Longrightarrow> present (x OR (v AND 7))"
proof -
  have p: "present y \<longleftrightarrow> odd y" for y :: u32 by (simp add: present_def and_one_eq odd_iff_mod_2_eq_one)
  have "odd (7 :: u32)" by simp
  then show "present (x OR 7)" "odd v \<Longrightarrow> present (x OR (v AND 7))"
    unfolding p even_or_iff even_and_iff by blast+
qed

lemma frame_or_and7: "frame f = f \<Longrightarrow> frame (f OR (v AND 7)) = f"
proof -
  assume f: "frame f = f"
  have "unat (v AND 7) \<le> unat (7 :: u32)" using word_and_le1 [of v 7] by (simp add: word_le_nat_alt)
  then have "unat (v AND 7) < 4096" by simp
  then show ?thesis using frame_or_flags [of "v AND 7" f] f by simp
qed

lemma frame_or_7: "frame f = f \<Longrightarrow> frame (f OR 7) = f"
  using frame_or_flags [of 7 f] by simp

lemma page_table_add_present:
  assumes ok: "tables_ok s" and win: "drop_bit 22 va \<noteq> 1023" and p: "present (ram s (pd_addr s va))"
    and new: "\<not> present (ram s (pt_addr s va))"
  shows "page_table_add va pa fl s = Inr ((), s\<lparr>ram := (ram s)(pt_addr s va := pa OR (fl AND 7))\<rparr>)"
proof -
  have r: "recursive s" using ok by (simp add: tables_ok_def)
  show ?thesis
    using p new by (simp add: page_table_add_def bnd_load [OF mmu_pde_ptr [OF r]] bnd_load [OF mmu_pte_ptr [OF r p]]
        store_Some [OF mmu_pte_ptr [OF r p]])
qed

text \<open>Without a page table, a zeroed frame of the kernel's pool becomes the table.\<close>

lemma page_table_add_absent:
  assumes tab: "tables_ok s" and pools: "pools_ok s" and win: "drop_bit 22 va \<noteq> 1023"
    and absent: "\<not> present (ram s (pd_addr s va))" and free: "\<exists>i < pool_cap PF_KERNEL s. \<not> frame_used PF_KERNEL s i"
  obtains k s1 where "frame_changed PF_KERNEL k 1 s s1" and "k < pool_cap PF_KERNEL s" and "\<not> frame_used PF_KERNEL s k"
    and "page_table_add va pa fl s = Inr ((), s1\<lparr>ram := (\<lambda>a. if frame a = frame_of PF_KERNEL s k then 0
        else ((ram s)(pd_addr s va := frame_of PF_KERNEL s k OR 7)) a)
          (frame_of PF_KERNEL s k + 4 * take_bit 10 (drop_bit 12 va) := pa OR (fl AND 7))\<rparr>)"
proof -
  obtain k s1 where k: "palloc PF_KERNEL s = Inr (frame_of PF_KERNEL s k, s1)" "k < pool_cap PF_KERNEL s"
      "\<not> frame_used PF_KERNEL s k" "frame_changed PF_KERNEL k 1 s s1"
    by (rule palloc_run [OF pools free])
  let ?f = "frame_of PF_KERNEL s k"
  note f = frame_of_frame(1) [OF pools k(2)]
  have same: "ram s1 = ram s" "cr3 s1 = cr3 s" using k(4) pools_differD by (auto simp: frame_changed_def)
  have r: "recursive s" using tab by (simp add: tables_ok_def)
  have "is_free s ?f" using k(2,3) by (auto simp: is_free_def)
  then have "?f \<noteq> frame (cr3 s)" using tab unfolding tables_ok_def by metis
  have pd: "pd_addr s x = frame (cr3 s) + 4 * drop_bit 22 x" for x by (simp add: pd_addr_def)
  define s2 where "s2 = s1\<lparr>ram := (ram s)(pd_addr s va := ?f OR 7)\<rparr>"
  have cr2: "cr3 s2 = cr3 s" "ram s2 = (ram s)(pd_addr s va := ?f OR 7)" by (simp_all add: s2_def same)
  have pd2: "pd_addr s2 x = pd_addr s x" for x by (simp add: pd_addr_def cr2)
  have "pd_addr s va \<noteq> frame (cr3 s) + 4 * 1023"
    using win slot_eq_iff [where i = "drop_bit 22 va" and j = 1023 and x = "cr3 s" and y = "cr3 s", OF pdi_less] by (simp add: pd)
  then have r2: "recursive s2" using r by (simp add: recursive_def cr2)
  have p2: "present (ram s2 (pd_addr s2 va))" "frame (ram s2 (pd_addr s2 va)) = ?f"
    using present_or_1(1) frame_or_7 [OF f] by (simp_all add: pd2 cr2)
  define s3 where "s3 = s2\<lparr>ram := (\<lambda>a. if frame a = ?f then 0 else ram s2 a)\<rparr>"
  have zero: "zero_range (pte_ptr va AND 0xFFFFF000) PG_SIZE s2 = Inr ((), s3)"
    using mmu_pte_page [OF r2 p2(1)] unat_page_diff [OF f] by (simp add: zero_range_def p2(2) PG_SIZE_def s3_def)
  have keep: "ram s3 (frame (cr3 s) + 4 * j) = ram s2 (frame (cr3 s) + 4 * j)" if "unat j < 1024" for j
  proof -
    have "unat (4 * j) < 4096" using that by (simp add: unat_times4)
    then show ?thesis using frame_add_offset [of "4 * j" "cr3 s"] \<open>?f \<noteq> frame (cr3 s)\<close> by (simp add: s3_def)
  qed
  have cr: "cr3 s3 = cr3 s" by (simp add: s3_def cr2)
  have pd3: "pd_addr s3 x = pd_addr s x" "ram s3 (pd_addr s x) = ram s2 (pd_addr s x)" for x
    using keep [OF pdi_less, of x] by (simp_all add: pd_addr_def cr)
  have r3: "recursive s3" using r2 keep [of 1023] by (simp add: recursive_def cr cr2)
  have p3: "present (ram s3 (pd_addr s3 va))" using p2 by (simp add: pd3 pd2)
  have pt3: "pt_addr s3 va = ?f + 4 * take_bit 10 (drop_bit 12 va)" using p2(2) by (simp add: pt_addr_def pd3 pd2)
  have "unat (4 * take_bit 10 (drop_bit 12 va)) < 4096" using pti_less [of va] by (simp add: unat_times4)
  then have "frame (?f + 4 * take_bit 10 (drop_bit 12 va)) = ?f" using frame_add_offset [of _ ?f] f by simp
  then have new: "\<not> present (ram s3 (pt_addr s3 va))" by (simp add: pt3) (simp add: s3_def present_def)
  have m1: "mmu s1 (pde_ptr va) = Some (pd_addr s va)"
    using mmu_pde_ptr [OF r, of va] same_tables(3) [OF same] by simp
  have "page_table_add va pa fl s = Inr ((), s3\<lparr>ram := (ram s3)(pt_addr s3 va := pa OR (fl AND 7))\<rparr>)"
    using absent new zero
    by (simp add: page_table_add_def bnd_load [OF mmu_pde_ptr [OF r]] bnd_Inr [where m = "palloc PF_KERNEL" and s = s, OF k(1)]
        bnd_store [OF m1] same bnd_Inr [where m = "zero_range (pte_ptr va AND 0xFFFFF000) PG_SIZE" and s = s2]
        bnd_load [OF mmu_pte_ptr [OF r3 p3]] store_Some [OF mmu_pte_ptr [OF r3 p3]] flip: s2_def)
  then have "page_table_add va pa fl s = Inr ((), s1\<lparr>ram := (\<lambda>a. if frame a = ?f then 0
        else ((ram s)(pd_addr s va := ?f OR 7)) a) (?f + 4 * take_bit 10 (drop_bit 12 va) := pa OR (fl AND 7))\<rparr>)"
    unfolding pt3 unfolding s3_def unfolding cr2(2) unfolding s2_def by (simp cong: if_cong)
  with k show thesis by (intro that)
qed

lemma frame_slot: "unat (i :: u32) < 1024 \<Longrightarrow> frame (frame x + 4 * i) = frame x"
  by (rule frame_add_offset) (simp add: unat_times4)

lemma is_free_changed:
  assumes ch: "frame_changed pf k v s s'" and k: "k < pool_cap pf s" and v: "v \<noteq> 0" and pools: "pools_ok s"
  shows "is_free s' g \<longleftrightarrow> is_free s g \<and> g \<noteq> frame_of pf s k"
proof -
  have size: "pool_cap qf s' = pool_cap qf s" "frame_of qf s' = frame_of qf s" for qf
    using ch frame_of_cong [of qf s' s] by (simp_all add: frame_changed_def)
  have "is_free s' g \<longleftrightarrow> (\<exists>qf j. j < pool_cap qf s \<and> \<not> frame_used qf s j \<and> \<not> (qf = pf \<and> j = k) \<and> g = frame_of qf s j)"
    using ch v unfolding is_free_def size frame_changed_def by metis
  also have "\<dots> \<longleftrightarrow> is_free s g \<and> g \<noteq> frame_of pf s k"
    using frame_of_eq_iff(2) [OF pools _ k] unfolding is_free_def by metis
  finally show ?thesis .
qed

text \<open>The same entry of a page table serves \<open>x\<close> and \<open>va\<close>.\<close>

definition shares_entry :: "mm \<Rightarrow> u32 \<Rightarrow> u32 \<Rightarrow> bool" where
  "shares_entry s va x \<longleftrightarrow>
     (if present (ram s (pd_addr s va)) then pt_addr s x = pt_addr s va else drop_bit 12 x = drop_bit 12 va)"

lemma page_eqI:
  "drop_bit 22 x = drop_bit 22 va \<Longrightarrow> take_bit 10 (drop_bit 12 x) = take_bit 10 (drop_bit 12 va) \<Longrightarrow> drop_bit 12 x = drop_bit 12 (va :: u32)"
proof -
  assume "drop_bit 22 x = drop_bit 22 va" "take_bit 10 (drop_bit 12 x) = take_bit 10 (drop_bit 12 va)"
  moreover have "drop_bit 12 y = push_bit 10 (drop_bit 22 y) + take_bit 10 (drop_bit 12 y)" for y :: u32
    using bits_ident [of 10 "drop_bit 12 y"] by (simp add: drop_bit_drop_bit)
  ultimately show ?thesis by metis
qed

text \<open>The directory after a fresh frame has become the table of \<open>va\<close>.\<close>

lemma table_added_entries:
  fixes va y :: u32
  assumes tab: "tables_ok s" and pools: "pools_ok s" and k: "k < pool_cap PF_KERNEL s" "\<not> frame_used PF_KERNEL s k"
  defines "f \<equiv> frame_of PF_KERNEL s k"
  defines "R \<equiv> \<lambda>v. (\<lambda>a. if frame a = f then 0 else ((ram s)(pd_addr s va := f OR 7)) a)
        (f + 4 * take_bit 10 (drop_bit 12 va) := v)"
  shows "frame a \<noteq> f \<Longrightarrow> R v a = ((ram s)(pd_addr s va := f OR 7)) a"
    and "unat i < 1024 \<Longrightarrow> R v (f + 4 * i) = (if i = take_bit 10 (drop_bit 12 va) then v else 0)"
    and "unat j < 1024 \<Longrightarrow> R v (frame (cr3 s) + 4 * j) = (if j = drop_bit 22 va then f OR 7 else ram s (frame (cr3 s) + 4 * j))"
    and "R v (pd_addr s y) = (if drop_bit 22 y = drop_bit 22 va then f OR 7 else ram s (pd_addr s y))"
    and "present (f OR 7)" and "frame (f OR 7) = f"
proof -
  note ff = frame_of_frame(1) [OF pools k(1), folded f_def]
  have fresh: "is_free s f" using k by (auto simp: is_free_def f_def)
  have f_cr: "f \<noteq> frame (cr3 s)" using fresh tab unfolding tables_ok_def by metis
  have slot: "frame (f + 4 * i) = f" if "unat i < 1024" for i using frame_slot [OF that, of f] ff by simp
  show out: "R v a = ((ram s)(pd_addr s va := f OR 7)) a" if "frame a \<noteq> f" for a v
    using that slot [OF pti_less, of va] by (auto simp: R_def)
  show "R v (f + 4 * i) = (if i = take_bit 10 (drop_bit 12 va) then v else 0)" if "unat i < 1024" for i v
    using slot [OF that] slot_eq_iff [OF that pti_less, of f f va] ff by (auto simp: R_def)
  show dir: "R v (frame (cr3 s) + 4 * j) = (if j = drop_bit 22 va then f OR 7 else ram s (frame (cr3 s) + 4 * j))"
    if "unat j < 1024" for j v
    using out [of "frame (cr3 s) + 4 * j"] frame_slot [OF that, of "cr3 s"] f_cr slot_eq_iff [OF that pdi_less, of "cr3 s" "cr3 s" va]
    by (auto simp: pd_addr_def)
  show "R v (pd_addr s y) = (if drop_bit 22 y = drop_bit 22 va then f OR 7 else ram s (pd_addr s y))"
    using dir [OF pdi_less, of v y] by (simp add: pd_addr_def)
  show "present (f OR 7)" "frame (f OR 7) = f" using present_or_1(1) frame_or_7 [OF ff] .
qed

lemma table_added:
  assumes tab: "tables_ok s" and pools: "pools_ok s" and win: "drop_bit 22 va \<noteq> 1023"
    and absent: "\<not> present (ram s (pd_addr s va))" and v: "present v" "frame v = pa"
    and k: "frame_changed PF_KERNEL k 1 s s1" "k < pool_cap PF_KERNEL s" "\<not> frame_used PF_KERNEL s k"
  defines "f \<equiv> frame_of PF_KERNEL s k"
  defines "s' \<equiv> s1\<lparr>ram := (\<lambda>a. if frame a = f then 0 else ((ram s)(pd_addr s va := f OR 7)) a)
        (f + 4 * take_bit 10 (drop_bit 12 va) := v)\<rparr>"
  shows "tables_ok s'" and "mmu s' va = Some (pa + take_bit 12 va)"
    and "drop_bit 22 x \<noteq> 1023 \<Longrightarrow> \<not> shares_entry s va x \<Longrightarrow> mmu s' x = mmu s x"
proof -
  note ff = frame_of_frame(1) [OF pools k(2), folded f_def]
  have fresh: "is_free s f" using k(2,3) by (auto simp: is_free_def f_def)
  have f_cr: "f \<noteq> frame (cr3 s)" using fresh tab unfolding tables_ok_def by metis
  have cr: "cr3 s' = cr3 s" "cr3 s1 = cr3 s" using k(1) pools_differD(2) by (auto simp: frame_changed_def s'_def)
  have pd: "pd_addr s' y = pd_addr s y" for y by (simp add: pd_addr_def cr)
  note ent = table_added_entries [OF tab pools k(2,3), folded f_def]
  have ram: "ram s' = (\<lambda>a. if frame a = f then 0 else ((ram s)(pd_addr s va := f OR 7)) a)
        (f + 4 * take_bit 10 (drop_bit 12 va) := v)" by (simp add: s'_def)
  have out: "ram s' a = ((ram s)(pd_addr s va := f OR 7)) a" if "frame a \<noteq> f" for a
    unfolding ram by (rule ent(1) [OF that])
  have inside: "ram s' (f + 4 * i) = (if i = take_bit 10 (drop_bit 12 va) then v else 0)" if "unat i < 1024" for i
    unfolding ram by (rule ent(2) [OF that])
  have dir: "ram s' (frame (cr3 s) + 4 * j) = (if j = drop_bit 22 va then f OR 7 else ram s (frame (cr3 s) + 4 * j))"
    if "unat j < 1024" for j unfolding ram by (rule ent(3) [OF that])
  have pde: "ram s' (pd_addr s y) = (if drop_bit 22 y = drop_bit 22 va then f OR 7 else ram s (pd_addr s y))" for y
    unfolding ram by (rule ent(4))
  have free: "is_free s' g \<longleftrightarrow> is_free s g \<and> g \<noteq> f" for g
  proof -
    have "is_free s' g = is_free s1 g"
      by (simp add: is_free_def pool_cap_def frame_used_def frame_of_def pool_base_def s'_def the_pool_ram)
    then show ?thesis using is_free_changed [OF k(1,2) _ pools] by (simp add: f_def)
  qed
  have "recursive s'" using tab win dir [of 1023] by (auto simp: recursive_def tables_ok_def cr)
  then show "tables_ok s'"
    unfolding tables_ok_def cr pd using tab f_cr frame_or_7 [OF ff]
    by (auto simp: pde free tables_ok_def split: if_splits)
  show "mmu s' va = Some (pa + take_bit 12 va)"
    using inside [OF pti_less, of va] present_or_1(1) frame_or_7 [OF ff] v
    by (simp add: mmu_def pt_addr_def pd pde)
  assume x: "drop_bit 22 x \<noteq> 1023" "\<not> shares_entry s va x"
  show "mmu s' x = mmu s x"
  proof (cases "drop_bit 22 x = drop_bit 22 va")
    case True
    then have "pd_addr s x = pd_addr s va" by (simp add: pd_addr_def)
    then have "mmu s x = None" using absent by (simp add: mmu_def)
    moreover have "take_bit 10 (drop_bit 12 x) \<noteq> take_bit 10 (drop_bit 12 va)"
      using x(2) absent page_eqI [OF True] by (auto simp: shares_entry_def)
    then have "\<not> present (ram s' (pt_addr s' x))"
      using inside [OF pti_less, of x] frame_or_7 [OF ff] True by (simp add: pt_addr_def pd pde) (simp add: present_def)
    ultimately show ?thesis by (simp add: mmu_def)
  next
    case False
    then have p: "ram s' (pd_addr s x) = ram s (pd_addr s x)" by (simp add: pde)
    then have t: "pt_addr s' x = pt_addr s x" by (simp add: pt_addr_def pd)
    show ?thesis
    proof (cases "present (ram s (pd_addr s x))")
      case True
      then have fx: "frame (ram s (pd_addr s x)) \<noteq> frame (cr3 s)" "frame (ram s (pd_addr s x)) \<noteq> f"
        using tab x(1) fresh unfolding tables_ok_def by metis+
      then have "frame (pt_addr s x) \<noteq> f" using frame_slot [OF pti_less, of _ x] by (simp add: pt_addr_def)
      then have "ram s' (pt_addr s x) = ram s (pt_addr s x)"
        using out pt_addr_neq_pd_addr(1) [OF fx(1), of va] by simp
      then show ?thesis by (simp add: mmu_def pd p t)
    qed (simp add: mmu_def pd p)
  qed
qed

lemma entry_stored:
  fixes v x :: u32
  assumes tab: "tables_ok s" and win: "drop_bit 22 va \<noteq> 1023" and p: "present (ram s (pd_addr s va))"
  defines "s' \<equiv> s\<lparr>ram := (ram s)(pt_addr s va := v)\<rparr>"
  shows "tables_ok s'" and "mmu s' va = (if present v then Some (frame v + take_bit 12 va) else None)"
    and "pt_addr s x \<noteq> pt_addr s va \<Longrightarrow> mmu s' x = mmu s x"
proof -
  have d: "frame (ram s (pd_addr s va)) \<noteq> frame (cr3 s)" using tab win p unfolding tables_ok_def by metis
  note upd = mmu_store_entry [OF d, of v, folded s'_def]
  have "is_free s' = is_free s"
    by (simp add: fun_eq_iff is_free_def pool_cap_def frame_used_def frame_of_def pool_base_def s'_def)
  moreover have "cr3 s' = cr3 s" by (simp add: s'_def)
  ultimately show "tables_ok s'" using tab by (simp add: tables_ok_def upd)
  show "mmu s' va = (if present v then Some (frame v + take_bit 12 va) else None)" using upd(5) [of va] p by simp
  show "pt_addr s x \<noteq> pt_addr s va \<Longrightarrow> mmu s' x = mmu s x" using upd(5) [of x] by simp
qed

lemma pools_ok_ram [simp]: "pools_ok (s\<lparr>ram := m\<rparr>) = pools_ok s"
  by (simp add: pools_ok_def pool_base_def pool_cap_def frame_used_def frame_ref_def frame_of_def)

text \<open>
  What \<open>page_table_add\<close> did, in one relation. The pools are as before, or a free frame of the
  kernel has become a page table; the rest of the state but the memory is unchanged.
\<close>

definition table_taken :: "mm \<Rightarrow> mm \<Rightarrow> bool" where
  "table_taken s s' \<longleftrightarrow> s' = s \<or>
     (\<exists>k. frame_changed PF_KERNEL k 1 s s' \<and> k < pool_cap PF_KERNEL s \<and> \<not> frame_used PF_KERNEL s k)"

definition mapped_to :: "u32 \<Rightarrow> u32 \<Rightarrow> mm \<Rightarrow> mm \<Rightarrow> bool" where
  "mapped_to va pa s s' \<longleftrightarrow>
     tables_ok s' \<and> pools_ok s' \<and> mmu s' va = Some (pa + take_bit 12 va) \<and>
     (\<forall>x. drop_bit 22 x \<noteq> 1023 \<and> \<not> shares_entry s va x \<longrightarrow> mmu s' x = mmu s x) \<and>
     (\<exists>s1. table_taken s s1 \<and> s' = s1\<lparr>ram := ram s'\<rparr>) \<and>
     present (ram s' (pd_addr s va)) \<and>
     (\<forall>x. drop_bit 22 x \<noteq> drop_bit 22 va \<longrightarrow> ram s' (pd_addr s x) = ram s (pd_addr s x)) \<and>
     (if present (ram s (pd_addr s va)) then ram s' (pd_addr s va) = ram s (pd_addr s va)
      else is_free s (frame (ram s' (pd_addr s va))))"

text \<open>
  The only frames written: the directory, the page table, and a free one; the only frame taken: one
  that becomes the page table when there was none.
\<close>

definition entry_writes :: "u32 \<Rightarrow> mm \<Rightarrow> mm \<Rightarrow> bool" where
  "entry_writes va s s' \<longleftrightarrow>
     (\<forall>a. frame a \<noteq> frame (cr3 s) \<and> (present (ram s (pd_addr s va)) \<longrightarrow> frame a \<noteq> frame (ram s (pd_addr s va))) \<and>
        \<not> is_free s (frame a) \<longrightarrow> ram s' a = ram s a) \<and>
     (\<forall>g. is_free s g \<and> \<not> is_free s' g \<longrightarrow> \<not> present (ram s (pd_addr s va)) \<and> g = frame (ram s' (pd_addr s va)))"

lemma frame_pd_addr: "frame (pd_addr s x) = frame (cr3 s)"
  by (simp add: pd_addr_def frame_slot [OF pdi_less])

lemma frame_pt_addr: "frame (pt_addr s x) = frame (ram s (pd_addr s x))"
  by (simp add: pt_addr_def frame_slot [OF pti_less])

lemma page_table_add_run:
  assumes tab: "tables_ok s" and pools: "pools_ok s" and win: "drop_bit 22 va \<noteq> 1023" and new: "mmu s va = None"
    and pa: "frame pa = pa" and fl: "odd fl"
    and room: "present (ram s (pd_addr s va)) \<or> (\<exists>i < pool_cap PF_KERNEL s. \<not> frame_used PF_KERNEL s i)"
  obtains s' where "page_table_add va pa fl s = Inr ((), s')" and "mapped_to va pa s s'" and "entry_writes va s s'"
proof (cases "present (ram s (pd_addr s va))")
  case True
  then have "\<not> present (ram s (pt_addr s va))" using new by (simp add: mmu_def split: if_splits)
  note run = page_table_add_present [OF tab win True this, of pa fl]
  note st = entry_stored [OF tab win True, where v = "pa OR (fl AND 7)"]
  have d: "frame (ram s (pd_addr s va)) \<noteq> frame (cr3 s)" using tab win True unfolding tables_ok_def by metis
  let ?s = "s\<lparr>ram := (ram s)(pt_addr s va := pa OR (fl AND 7))\<rparr>"
  have "mapped_to va pa s ?s"
    using st pools True present_or_1(2) [OF fl] frame_or_and7 [OF pa] pt_addr_neq_pd_addr(1) [OF d, symmetric]
    by (auto simp: mapped_to_def shares_entry_def table_taken_def intro!: exI [of _ s])
  moreover have "is_free ?s = is_free s"
    by (simp add: fun_eq_iff is_free_def pool_cap_def frame_used_def frame_of_def pool_base_def)
  then have "entry_writes va s ?s" using True by (auto simp: entry_writes_def frame_pt_addr)
  ultimately show thesis by (rule that [OF run])
next
  case False
  with room have free: "\<exists>i < pool_cap PF_KERNEL s. \<not> frame_used PF_KERNEL s i" by simp
  obtain k s1 where k: "frame_changed PF_KERNEL k 1 s s1" "k < pool_cap PF_KERNEL s" "\<not> frame_used PF_KERNEL s k"
    and run: "page_table_add va pa fl s = Inr ((), s1\<lparr>ram := (\<lambda>a. if frame a = frame_of PF_KERNEL s k then 0
        else ((ram s)(pd_addr s va := frame_of PF_KERNEL s k OR 7)) a)
          (frame_of PF_KERNEL s k + 4 * take_bit 10 (drop_bit 12 va) := pa OR (fl AND 7))\<rparr>)"
    by (rule page_table_add_absent [OF tab pools win False free])
  have "pools_ok s1" using k(1) by (simp add: frame_changed_def)
  moreover have "table_taken s s1" using k by (auto simp: table_taken_def)
  moreover have free: "is_free s (frame_of PF_KERNEL s k)" using k(2,3) by (auto simp: is_free_def)
  let ?s = "s1\<lparr>ram := (\<lambda>a. if frame a = frame_of PF_KERNEL s k then 0
        else ((ram s)(pd_addr s va := frame_of PF_KERNEL s k OR 7)) a)
          (frame_of PF_KERNEL s k + 4 * take_bit 10 (drop_bit 12 va) := pa OR (fl AND 7))\<rparr>"
  have kept: "ram ?s a = ram s a" if a: "frame a \<noteq> frame (cr3 s)" "\<not> is_free s (frame a)" for a
  proof -
    have "frame a \<noteq> frame_of PF_KERNEL s k" using a(2) free by metis
    moreover have "a \<noteq> pd_addr s va" using a(1) by (auto simp: frame_pd_addr)
    ultimately show ?thesis
      using table_added_entries(1) [OF tab pools k(2,3), of a va "pa OR (fl AND 7)"] by (simp only: mm.simps fun_upd_other) simp
  qed
  have taken: "g = frame (ram ?s (pd_addr s va))" if g: "is_free s g" "\<not> is_free ?s g" for g
  proof -
    have "is_free ?s = is_free s1"
      by (simp add: fun_eq_iff is_free_def pool_cap_def frame_used_def frame_of_def pool_base_def the_pool_ram)
    then have "g = frame_of PF_KERNEL s k" using g is_free_changed [OF k(1,2) _ pools] by simp
    moreover have "ram ?s (pd_addr s va) = frame_of PF_KERNEL s k OR 7"
      using table_added_entries(4) [OF tab pools k(2,3), where y = va and va = va and v = "pa OR (fl AND 7)"] by simp
    ultimately show ?thesis using table_added_entries(6) [OF tab pools k(2,3)] by simp
  qed
  have "entry_writes va s ?s" unfolding entry_writes_def using False kept taken by blast
  ultimately show thesis
    by (intro that [OF run]) (use free False table_added [OF tab pools win False present_or_1(2) [OF fl] frame_or_and7 [OF pa] k]
        table_added_entries(4-6) [OF tab pools k(2,3)] in \<open>auto simp: mapped_to_def\<close>)
qed

section \<open>Properties\<close>

text \<open>
  C8: Adding a mapping for a page that has none succeeds, whether its page table exists or has to
  be created from a free frame of the kernel: the page then translates to the frame, the translation
  of every page with another entry is what it was, the directory stays sane and the pools well formed.
\<close>

theorem page_table_add_maps:
  assumes "tables_ok s" and "pools_ok s" and "drop_bit 22 va \<noteq> 1023" and "mmu s va = None" and "frame pa = pa" and "odd fl"
    and "present (ram s (pd_addr s va)) \<or> (\<exists>i < pool_cap PF_KERNEL s. \<not> frame_used PF_KERNEL s i)"
  shows "\<exists>s'. page_table_add va pa fl s = Inr ((), s') \<and> tables_ok s' \<and> pools_ok s' \<and>
    mmu s' va = Some (pa + take_bit 12 va) \<and>
    (\<forall>x. drop_bit 22 x \<noteq> 1023 \<and> \<not> shares_entry s va x \<longrightarrow> mmu s' x = mmu s x)"
  by (rule page_table_add_run [OF assms]) (auto simp: mapped_to_def)

text \<open>A small machine: the directory at 1 MB, one page table for \<open>0xC0000000\<close>, eight frames per pool.\<close>

definition sample_pool :: "u32 \<Rightarrow> pool" where
  "sample_pool start = \<lparr>pool_bitmap = \<lparr>btmp_bytes_len = 1, bits = [0, 0]\<rparr>, phy_addr_start = start, pool_size = 32768, mutex = 0\<rparr>"

definition sample_mm :: mm where
  "sample_mm = \<lparr>ram = (\<lambda>_. 0)(0x100FFC := 0x100007, 0x100C00 := 0x101007), cr3 = 0x100000,
     kernel_pool = sample_pool 0x200000, user_pool = sample_pool 0x208000,
     kernel_vaddr = \<lparr>vaddr_bitmap = \<lparr>btmp_bytes_len = 1, bits = [0, 1]\<rparr>, vaddr_start = K_HEAP_START\<rparr>,
     mem = replicate 7800 0, pgdir = 0,
     userprog_vaddr = \<lparr>vaddr_bitmap = \<lparr>btmp_bytes_len = 1, bits = [0, 1]\<rparr>, vaddr_start = 0x8048000\<rparr>,
     k_block_descs = [], u_block_desc = [], arenas = (\<lambda>_. None)\<rparr>"

lemma sample_pools_ok: "pools_ok sample_mm"
proof -
  have b: "bit (0 :: u8) n = False" for n by simp
  have byte: "[0, 0 :: u8] ! (k div 8) = 0" if "k < 8" for k :: nat using that by simp
  have cap: "pool_cap pf sample_mm = 8" "frame_used pf sample_mm k = False" if "k < 8" for pf k
    using byte [OF that] by (cases pf; simp add: pool_cap_def frame_used_def used_bit_def sample_mm_def sample_pool_def bitmap_cap_def)+
  then have cap8: "pool_cap pf sample_mm = 8" for pf by (metis zero_less_numeral)
  have base: "pool_base PF_KERNEL sample_mm = 0x200000" "pool_base PF_USER sample_mm = 0x208000"
    by (simp_all add: pool_base_def sample_mm_def sample_pool_def)
  have ref: "frame_ref sample_mm (frame_of pf sample_mm k) = 0" if "k < 8" for pf k
  proof -
    have "mem sample_mm = replicate 7800 0" by (simp add: sample_mm_def)
    moreover have "unat (mem_idx (frame_of pf sample_mm k)) < 7800"
    proof -
      have "unat (frame_of pf sample_mm k) = pool_base pf sample_mm + 4096 * k"
        using that base by (cases pf) (simp_all add: frame_of_def unat_of_nat_u32 del: of_nat_add of_nat_mult)
      then have "unat (frame_of pf sample_mm k - 0x200000) = pool_base pf sample_mm + 4096 * k - 0x200000"
        using base by (subst unat_sub_u32) (cases pf; simp)+
      then have "unat (frame_of pf sample_mm k - 0x200000) < 65536" using that base by (cases pf) simp_all
      then show ?thesis unfolding mem_idx_def PG_SIZE_def unat_div_numeral by linarith
    qed
    ultimately show ?thesis by (simp add: frame_ref_def)
  qed
  show ?thesis
    unfolding pools_ok_def base cap8
    using cap(2) ref by (auto simp: sample_mm_def sample_pool_def bitmap_wf_def Physical_Page_def)
qed

lemma low_not_free: "pools_ok s \<Longrightarrow> unat g < 0x200000 \<Longrightarrow> \<not> is_free s g"
  using frame_of_frame(3) [of s _ ] unfolding is_free_def by (metis linorder_not_less)

lemma sample_entries:
  "ram sample_mm (pd_addr sample_mm va) =
     (if drop_bit 22 va = 1023 then 0x100007 else if drop_bit 22 va = 768 then 0x101007 else 0)"
  "frame (cr3 sample_mm) = 0x100000"
proof -
  show f: "frame (cr3 sample_mm) = 0x100000" by (simp add: sample_mm_def frame_def)
  have "frame 0x100000 = 0x100000" by (simp add: frame_def)
  then have "0x100000 + 4 * drop_bit 22 va = 0x100000 + 4 * j \<longleftrightarrow> drop_bit 22 va = j" if "unat j < 1024" for j :: u32
    using slot_eq_iff [where i = "drop_bit 22 va" and j = j and x = "0x100000" and y = "0x100000", OF pdi_less that] by simp
  from this [of 1023] this [of 768]
  show "ram sample_mm (pd_addr sample_mm va) =
     (if drop_bit 22 va = 1023 then 0x100007 else if drop_bit 22 va = 768 then 0x101007 else 0)"
    unfolding pd_addr_def f by (simp add: sample_mm_def)
qed

lemma sample_tables_ok: "tables_ok sample_mm"
proof -
  have "frame 0x100007 = 0x100000" "frame 0x101007 = 0x101000" "present 0x100007" "\<not> present 0"
    by (simp_all add: frame_def present_def)
  then show ?thesis
    using low_not_free [OF sample_pools_ok, where g = "0x100000"] low_not_free [OF sample_pools_ok, where g = "0x101000"] sample_entries(1)
    by (auto simp: tables_ok_def recursive_def sample_entries(2)) (simp_all add: sample_mm_def)
qed

lemma sample_unmapped: "drop_bit 22 va \<noteq> 1023 \<Longrightarrow> mmu sample_mm va = None"
proof -
  assume w: "drop_bit 22 va \<noteq> 1023"
  have "ram sample_mm (pt_addr sample_mm va) = 0" if "drop_bit 22 va = 768"
  proof -
    have "frame 0x101007 = 0x101000" "frame 0x101000 = 0x101000" "frame 0x100000 = 0x100000" by (simp_all add: frame_def)
    then have "frame (pt_addr sample_mm va) = 0x101000"
      using that frame_slot [where i = "take_bit 10 (drop_bit 12 va)" and x = "0x101000", OF pti_less] by (simp add: pt_addr_def sample_entries)
    then have "pt_addr sample_mm va \<noteq> 0x100FFC" "pt_addr sample_mm va \<noteq> 0x100C00" by (auto simp: frame_def)
    then show ?thesis by (simp add: sample_mm_def)
  qed
  then show ?thesis using w by (auto simp: mmu_def sample_entries present_def)
qed

theorem page_table_add_maps_witness:
  "\<exists>s'. page_table_add 0xC0100000 0x208000 7 sample_mm = Inr ((), s') \<and>
    mmu s' 0xC0100000 = Some 0x208000"
proof -
  have "drop_bit 22 (0xC0100000 :: u32) = 768" by code_simp
  moreover have "present 0x101007" "frame 0x208000 = 0x208000" by (simp_all add: frame_def present_def)
  moreover have "take_bit 12 (0xC0100000 :: u32) = 0" by code_simp
  ultimately show ?thesis
    using page_table_add_maps [where s = sample_mm and va = "0xC0100000" and pa = "0x208000" and fl = 7, OF sample_tables_ok sample_pools_ok _ sample_unmapped]
    by (auto simp: sample_entries)
qed

end
