(* ===== verification/Page_Alloc.thy ===== *)
theory Page_Alloc
  imports Page_Tables
begin

text \<open>
  \<open>malloc_page\<close> and \<open>mfree_page\<close>: runs of virtual pages mapped to distinct frames that were free,
  and given back.
\<close>

section \<open>Private page tables\<close>

text \<open>
  Outside the window of the recursive entry and the first 4 MB (whose table the kernel's directory
  shares with \<open>0xC0000000\<close>), no two entries of the directory name the same table.
\<close>

definition in_range :: "u32 \<Rightarrow> bool" where
  "in_range va \<longleftrightarrow> drop_bit 22 va \<noteq> 0 \<and> drop_bit 22 va \<noteq> 1023"

definition private_tables :: "mm \<Rightarrow> bool" where
  "private_tables s \<longleftrightarrow> (\<forall>x y. in_range x \<and> in_range y \<and> present (ram s (pd_addr s x)) \<and> present (ram s (pd_addr s y)) \<and>
     frame (ram s (pd_addr s x)) = frame (ram s (pd_addr s y)) \<longrightarrow> drop_bit 22 x = drop_bit 22 y)"

definition vm_ok :: "mm \<Rightarrow> bool" where
  "vm_ok s \<longleftrightarrow> tables_ok s \<and> pools_ok s \<and> private_tables s"

lemma table_taken_free:
  assumes t: "table_taken s s1" and p: "pools_ok s"
  shows "is_free s1 g \<Longrightarrow> is_free s g" and "cr3 s1 = cr3 s" and "ram s1 = ram s"
    and "pools_differ s s1"
proof -
  have "pools_differ s s" by (simp add: pools_differ_def)
  then show d: "pools_differ s s1" using t by (auto simp: table_taken_def frame_changed_def)
  show "cr3 s1 = cr3 s" "ram s1 = ram s" using pools_differD(1,2) [OF d] by simp_all
  show "is_free s1 g \<Longrightarrow> is_free s g"
    using t is_free_changed [OF _ _ _ p] by (auto simp: table_taken_def)
qed

lemma is_free_ram [simp]: "is_free (s\<lparr>ram := r\<rparr>) = is_free s"
  by (simp add: fun_eq_iff is_free_def pool_cap_def frame_used_def frame_of_def pool_base_def)

lemma mapped_page:
  assumes vm: "vm_ok s" and va: "in_range va" and m: "mapped_to va pa s s'"
  shows "vm_ok s'" and "mmu s' va = Some (pa + take_bit 12 va)"
    and "in_range x \<Longrightarrow> drop_bit 12 x \<noteq> drop_bit 12 va \<Longrightarrow> mmu s' x = mmu s x"
    and "is_free s' g \<Longrightarrow> is_free s g"
proof -
  have ok: "tables_ok s" "pools_ok s" "private_tables s" using vm by (simp_all add: vm_ok_def)
  obtain s1 where s1: "table_taken s s1" "s' = s1\<lparr>ram := ram s'\<rparr>" using m by (auto simp: mapped_to_def)
  have cr: "cr3 s' = cr3 s" using table_taken_free(2) [OF s1(1) ok(2)] s1(2) by (metis mm.select_convs(2) mm.surjective mm.update_convs(1))
  have pd: "pd_addr s' y = pd_addr s y" for y by (simp add: pd_addr_def cr)
  have pde: "drop_bit 22 y \<noteq> drop_bit 22 va \<Longrightarrow> ram s' (pd_addr s y) = ram s (pd_addr s y)" for y
    using m by (simp add: mapped_to_def)
  have same: "drop_bit 22 y = drop_bit 22 va \<Longrightarrow> pd_addr s y = pd_addr s va" for y by (simp add: pd_addr_def)
  show "is_free s' g \<Longrightarrow> is_free s g" using table_taken_free(1) [OF s1(1) ok(2)] s1(2) by (metis is_free_ram)
  show "mmu s' va = Some (pa + take_bit 12 va)" using m by (simp add: mapped_to_def)
  have new: "frame (ram s' (pd_addr s va)) \<noteq> frame (ram s (pd_addr s y))"
    if "\<not> present (ram s (pd_addr s va))" "in_range y" "present (ram s (pd_addr s y))" for y
    using m that ok(1) unfolding mapped_to_def tables_ok_def in_range_def by metis
  have old: "ram s' (pd_addr s va) = ram s (pd_addr s va)" if "present (ram s (pd_addr s va))"
    using m that by (simp add: mapped_to_def)
  have "private_tables s'"
    unfolding private_tables_def pd
  proof (intro allI impI)
    fix x y
    assume a: "in_range x \<and> in_range y \<and> present (ram s' (pd_addr s x)) \<and> present (ram s' (pd_addr s y)) \<and>
      frame (ram s' (pd_addr s x)) = frame (ram s' (pd_addr s y))"
    have r: "in_range x" "in_range y" using a by simp_all
    show "drop_bit 22 x = drop_bit 22 y"
    proof (rule ccontr)
      assume neq: "drop_bit 22 x \<noteq> drop_bit 22 y"
      show False
      proof (cases "present (ram s (pd_addr s va))")
        case True
        then have "ram s' (pd_addr s z) = ram s (pd_addr s z)" for z using old pde same by metis
        with a ok(3) neq show False unfolding private_tables_def by metis
      next
        case False
        then show False using a neq r pde same new ok(3) unfolding private_tables_def by metis
      qed
    qed
  qed
  with m show "vm_ok s'" by (simp add: vm_ok_def mapped_to_def)
  assume x: "in_range x" "drop_bit 12 x \<noteq> drop_bit 12 va"
  show "mmu s' x = mmu s x"
  proof (cases "present (ram s (pd_addr s va)) \<and> pt_addr s x = pt_addr s va")
    case False
    then have "\<not> shares_entry s va x" using x(2) by (auto simp: shares_entry_def)
    then show ?thesis using m x(1) by (simp add: mapped_to_def in_range_def)
  next
    case True
    then have eq: "frame (ram s (pd_addr s x)) = frame (ram s (pd_addr s va))"
        "take_bit 10 (drop_bit 12 x) = take_bit 10 (drop_bit 12 va)"
      using slot_eq_iff [OF pti_less pti_less] by (simp_all add: pt_addr_def)
    then have pdi: "drop_bit 22 x \<noteq> drop_bit 22 va" using x(2) page_eqI by metis
    then have "\<not> present (ram s (pd_addr s x))" using ok(3) x(1) va eq True unfolding private_tables_def by metis
    then show ?thesis using pde [OF pdi] by (simp add: mmu_def pd)
  qed
qed

text \<open>A frame that holds neither the directory nor a page table.\<close>

definition data_frame :: "mm \<Rightarrow> u32 \<Rightarrow> bool" where
  "data_frame s f \<longleftrightarrow> f \<noteq> frame (cr3 s) \<and>
     (\<forall>x. drop_bit 22 x \<noteq> 1023 \<and> present (ram s (pd_addr s x)) \<longrightarrow> frame (ram s (pd_addr s x)) \<noteq> f)"

lemma free_data_frame: "tables_ok s \<Longrightarrow> is_free s f \<Longrightarrow> data_frame s f"
  unfolding data_frame_def tables_ok_def by metis

lemma mapped_data_frame:
  assumes vm: "vm_ok s" and m: "mapped_to va pa s s'" and f: "data_frame s f" "\<not> is_free s f"
  shows "data_frame s' f"
proof -
  obtain s1 where s1: "table_taken s s1" "s' = s1\<lparr>ram := ram s'\<rparr>" "pools_ok s" using m vm by (auto simp: mapped_to_def vm_ok_def)
  have cr: "cr3 s' = cr3 s" using table_taken_free(2) [OF s1(1,3)] s1(2) by (metis mm.select_convs(2) mm.surjective mm.update_convs(1))
  have "frame (ram s' (pd_addr s x)) \<noteq> f" if x: "drop_bit 22 x \<noteq> 1023" "present (ram s' (pd_addr s x))" for x
  proof (cases "drop_bit 22 x = drop_bit 22 va")
    case True
    then have "pd_addr s x = pd_addr s va" by (simp add: pd_addr_def)
    with m f x show ?thesis unfolding mapped_to_def data_frame_def by metis
  next
    case False
    with m f x show ?thesis unfolding mapped_to_def data_frame_def by metis
  qed
  then show ?thesis using f(1) by (simp add: data_frame_def cr pd_addr_def)
qed

text \<open>Writing in a frame of data leaves every translation alone.\<close>

lemma data_write:
  assumes f: "data_frame s f" and r: "\<forall>a. frame a \<noteq> f \<longrightarrow> r a = ram s a"
  defines "s' \<equiv> s\<lparr>ram := r\<rparr>"
  shows "pd_addr s' = pd_addr s" and "r (pd_addr s x) = ram s (pd_addr s x)"
    and "drop_bit 22 x \<noteq> 1023 \<Longrightarrow> mmu s' x = mmu s x" and "recursive s' = recursive s"
proof -
  show pd: "pd_addr s' = pd_addr s" by (simp add: fun_eq_iff pd_addr_def s'_def)
  have dir: "r (frame (cr3 s) + 4 * j) = ram s (frame (cr3 s) + 4 * j)" if "unat j < 1024" for j
    using r f frame_slot [OF that, of "cr3 s"] by (auto simp: data_frame_def)
  show p: "r (pd_addr s x) = ram s (pd_addr s x)" for x
    using dir [OF pdi_less] by (simp add: pd_addr_def)
  show "recursive s' = recursive s" using dir [of 1023] by (simp add: recursive_def s'_def)
  assume x: "drop_bit 22 x \<noteq> 1023"
  have t: "pt_addr s' x = pt_addr s x" by (simp add: pt_addr_def pd) (simp add: s'_def p)
  show "mmu s' x = mmu s x"
  proof (cases "present (ram s (pd_addr s x))")
    case True
    then have "frame (pt_addr s x) \<noteq> f"
      using f x frame_slot [OF pti_less, of "ram s (pd_addr s x)" x] by (simp add: data_frame_def pt_addr_def)
    then have "r (pt_addr s x) = ram s (pt_addr s x)" using r by simp
    then show ?thesis by (simp add: mmu_def pd t) (simp add: s'_def p)
  qed (simp add: mmu_def pd, simp add: s'_def p)
qed

lemma data_write_ok:
  assumes f: "data_frame s f" and r: "\<forall>a. frame a \<noteq> f \<longrightarrow> r a = ram s a" and vm: "vm_ok s"
  shows "vm_ok (s\<lparr>ram := r\<rparr>)" and "data_frame (s\<lparr>ram := r\<rparr>) g = data_frame s g"
  using vm data_write [OF f r] by (simp_all add: vm_ok_def tables_ok_def private_tables_def data_frame_def)

section \<open>Room\<close>

definition free_frames :: "pool_flags \<Rightarrow> mm \<Rightarrow> nat" where
  "free_frames pf s = card {k. k < pool_cap pf s \<and> \<not> frame_used pf s k}"

lemma free_frames_ex: "0 < free_frames pf s \<Longrightarrow> \<exists>i < pool_cap pf s. \<not> frame_used pf s i"
  unfolding free_frames_def by (auto simp: card_gt_0_iff)

lemma free_frames_changed:
  assumes ch: "frame_changed pf k v s s'" and k: "k < pool_cap pf s" "\<not> frame_used pf s k" and v: "v \<noteq> 0"
  shows "free_frames qf s' = (if qf = pf then free_frames pf s - 1 else free_frames qf s)"
proof -
  have "{j. j < pool_cap qf s' \<and> \<not> frame_used qf s' j} = {j. j < pool_cap qf s \<and> \<not> frame_used qf s j} - (if qf = pf then {k} else {})"
    using ch v by (auto simp: frame_changed_def split: if_splits)
  then show ?thesis using k by (simp add: free_frames_def card_Diff_singleton)
qed

lemma free_frames_ram [simp]: "free_frames pf (s\<lparr>ram := r\<rparr>) = free_frames pf s"
  by (simp add: free_frames_def pool_cap_def frame_used_def)

text \<open>Enough frames for \<open>n\<close> pages and as many page tables.\<close>

definition room :: "pool_flags \<Rightarrow> nat \<Rightarrow> mm \<Rightarrow> bool" where
  "room pf n s \<longleftrightarrow> n \<le> free_frames pf s \<and> (if pf = PF_KERNEL then 2 * n else n) \<le> free_frames PF_KERNEL s"

section \<open>Runs of pages\<close>

text \<open>A run of \<open>n\<close> whole pages between 4 MB and the window of the recursive entry.\<close>

definition page_run :: "u32 \<Rightarrow> nat \<Rightarrow> bool" where
  "page_run va n \<longleftrightarrow> unat va mod 4096 = 0 \<and> 0x400000 \<le> unat va \<and> unat va + 4096 * n \<le> 0xFFC00000"

definition page_at :: "u32 \<Rightarrow> nat \<Rightarrow> u32" where
  "page_at va i = va + of_nat (4096 * i)"

lemma page_at_0 [simp]: "page_at va 0 = va"
  by (simp add: page_at_def)

lemma page_at_Suc: "page_at va (Suc i) = page_at (va + PG_SIZE) i"
  by (simp add: page_at_def PG_SIZE_def algebra_simps)

lemma unat_page_at: "page_run va n \<Longrightarrow> i < n \<Longrightarrow> unat (page_at va i) = unat va + 4096 * i"
  unfolding page_at_def page_run_def by (subst unat_add_u32) (simp_all add: unat_of_nat_u32 del: of_nat_mult)

lemma page_run_at:
  assumes "page_run va n" and "i < n"
  shows "in_range (page_at va i)" and "take_bit 12 (page_at va i) = 0"
    and "unat (drop_bit 12 (page_at va i)) = unat va div 4096 + i"
proof -
  note u = unat_page_at [OF assms]
  have bounds: "0x400000 \<le> unat va + 4096 * i" "unat va + 4096 * i < 0xFFC00000" using assms by (auto simp: page_run_def)
  have "1 \<le> (unat va + 4096 * i) div 4194304" "(unat va + 4096 * i) div 4194304 < 1023"
    using div_le_mono [OF bounds(1), of 4194304] bounds(2) by (simp_all add: less_mult_imp_div_less)
  then show "in_range (page_at va i)"
    unfolding in_range_def using unat_drop22 [of "page_at va i"] u by auto
  have m: "(unat va + 4096 * i) mod 4096 = 0" using assms(1) by (simp add: page_run_def)
  show "take_bit 12 (page_at va i) = 0" using unat_offset [of "page_at va i"] u m by (simp add: unat_eq_zero [symmetric])
  have "unat (drop_bit 12 (page_at va i)) = (unat va + 4096 * i) div 4096"
    by (simp add: drop_bit_eq_div unat_div_numeral u)
  then show "unat (drop_bit 12 (page_at va i)) = unat va div 4096 + i" by simp
qed

lemma page_run_Suc: "page_run va (Suc n) \<Longrightarrow> page_run (va + PG_SIZE) n"
  unfolding page_run_def PG_SIZE_def by (subst (1 2 3) unat_add_u32) (simp_all add: mod_add_eq)

lemma page_run_distinct: "page_run va n \<Longrightarrow> i < n \<Longrightarrow> j < n \<Longrightarrow> drop_bit 12 (page_at va i) = drop_bit 12 (page_at va j) \<longleftrightarrow> i = j"
  using page_run_at(3) by (metis add_left_cancel)

text \<open>Two states that differ in the memory, the pools and the counts only.\<close>

definition memory_differs :: "mm \<Rightarrow> mm \<Rightarrow> bool" where
  "memory_differs s s' \<longleftrightarrow>
     cr3 s' = cr3 s \<and> kernel_vaddr s' = kernel_vaddr s \<and> pgdir s' = pgdir s \<and> userprog_vaddr s' = userprog_vaddr s \<and>
     k_block_descs s' = k_block_descs s \<and> u_block_desc s' = u_block_desc s \<and> arenas s' = arenas s"

lemma memory_differs_trans: "memory_differs s t \<Longrightarrow> memory_differs t u \<Longrightarrow> memory_differs s u"
  by (simp add: memory_differs_def)

lemma pools_differ_memory: "pools_differ s s' \<Longrightarrow> memory_differs s s'"
  using pools_differD [of s s'] by (simp add: memory_differs_def)

lemma mapped_memory: "vm_ok s \<Longrightarrow> mapped_to va pa s s' \<Longrightarrow> memory_differs s s'"
proof -
  assume "vm_ok s" "mapped_to va pa s s'"
  then obtain s1 where s1: "table_taken s s1" "s' = s1\<lparr>ram := ram s'\<rparr>" "pools_ok s" by (auto simp: mapped_to_def vm_ok_def)
  have "memory_differs s s1" using table_taken_free(4) [OF s1(1,3)] by (rule pools_differ_memory)
  moreover have "memory_differs s1 s'" by (subst s1(2)) (simp add: memory_differs_def)
  ultimately show ?thesis by (rule memory_differs_trans)
qed

lemma mapped_frames:
  assumes "vm_ok s" and "mapped_to va pa s s'"
  shows "free_frames PF_KERNEL s \<le> Suc (free_frames PF_KERNEL s')" and "free_frames PF_USER s' = free_frames PF_USER s"
proof -
  obtain s1 where s1: "table_taken s s1" "s' = s1\<lparr>ram := ram s'\<rparr>" using assms by (auto simp: mapped_to_def)
  have "free_frames pf s' = free_frames pf s1" for pf by (subst s1(2)) simp
  then show "free_frames PF_KERNEL s \<le> Suc (free_frames PF_KERNEL s')" "free_frames PF_USER s' = free_frames PF_USER s"
    using s1(1) free_frames_changed [of PF_KERNEL _ 1 s s1] by (auto simp: table_taken_def)
qed

definition pools_alike :: "mm \<Rightarrow> mm \<Rightarrow> bool" where
  "pools_alike s s' \<longleftrightarrow> (\<forall>qf. pool_cap qf s' = pool_cap qf s \<and> pool_base qf s' = pool_base qf s \<and>
     mutex (the_pool qf s') = mutex (the_pool qf s) \<and> pool_size (the_pool qf s') = pool_size (the_pool qf s))"

lemma pools_alike_trans: "pools_alike s t \<Longrightarrow> pools_alike t u \<Longrightarrow> pools_alike s u"
  by (simp add: pools_alike_def)

lemma changed_alike: "frame_changed pf k v s s' \<Longrightarrow> pools_alike s s'"
  by (simp add: frame_changed_def pools_alike_def)

lemma mapped_alike: "mapped_to va pa s s' \<Longrightarrow> pools_alike s s'"
proof -
  assume "mapped_to va pa s s'"
  then obtain s1 where s1: "table_taken s s1" "s' = s1\<lparr>ram := ram s'\<rparr>" by (auto simp: mapped_to_def)
  have "pools_alike s s1" using s1(1) by (auto simp: table_taken_def frame_changed_def pools_alike_def)
  moreover have "pools_alike s1 s'" by (subst s1(2)) (simp add: pools_alike_def pool_cap_def pool_base_def)
  ultimately show ?thesis by (rule pools_alike_trans)
qed

text \<open>
  The page tables there are stay, and the only frames that are taken, but for \<open>fs\<close>, become the page
  tables of pages of the run that had none.
\<close>

definition new_table :: "u32 \<Rightarrow> mm \<Rightarrow> mm \<Rightarrow> u32 \<Rightarrow> bool" where
  "new_table x s s' g \<longleftrightarrow> \<not> present (ram s (pd_addr s x)) \<and> present (ram s' (pd_addr s' x)) \<and>
     frame (ram s' (pd_addr s' x)) = g"

definition tables_grown :: "u32 \<Rightarrow> u32 list \<Rightarrow> mm \<Rightarrow> mm \<Rightarrow> bool" where
  "tables_grown va fs s s' \<longleftrightarrow>
     (\<forall>x. present (ram s (pd_addr s x)) \<longrightarrow> ram s' (pd_addr s' x) = ram s (pd_addr s x)) \<and>
     (\<forall>g. is_free s g \<and> \<not> is_free s' g \<longrightarrow> g \<in> set fs \<or> (\<exists>i < length fs. new_table (page_at va i) s s' g))"

lemma mapped_grown:
  assumes vm: "vm_ok s" and m: "mapped_to va pa s s'" "entry_writes va s s'"
  shows "present (ram s (pd_addr s x)) \<Longrightarrow> ram s' (pd_addr s' x) = ram s (pd_addr s x)"
    and "is_free s g \<Longrightarrow> \<not> is_free s' g \<Longrightarrow> new_table va s s' g"
proof -
  have "cr3 s' = cr3 s" using mapped_memory [OF vm m(1)] by (simp add: memory_differs_def)
  then have pd: "pd_addr s' y = pd_addr s y" for y by (simp add: pd_addr_def)
  show "present (ram s (pd_addr s x)) \<Longrightarrow> ram s' (pd_addr s' x) = ram s (pd_addr s x)"
  proof (cases "drop_bit 22 x = drop_bit 22 va")
    case True
    then have "pd_addr s x = pd_addr s va" by (simp add: pd_addr_def)
    then show "present (ram s (pd_addr s x)) \<Longrightarrow> ?thesis" using m(1) by (simp add: mapped_to_def pd)
  next
    case False
    then show ?thesis using m(1) by (simp add: mapped_to_def pd)
  qed
  show "new_table va s s' g" if "is_free s g" "\<not> is_free s' g"
    using that m by (auto simp: entry_writes_def new_table_def mapped_to_def pd)
qed

lemma tables_grown_Cons:
  assumes one: "tables_grown va [f] s t" and rest: "tables_grown (va + PG_SIZE) fs t s'"
  shows "tables_grown va (f # fs) s s'"
proof -
  have kept: "ram t (pd_addr t x) = ram s (pd_addr s x)" if "present (ram s (pd_addr s x))" for x
    using one that by (simp add: tables_grown_def)
  have kept': "ram s' (pd_addr s' x) = ram t (pd_addr t x)" if "present (ram t (pd_addr t x))" for x
    using rest that by (simp add: tables_grown_def)
  have "\<exists>i < length (f # fs). new_table (page_at va i) s s' g" if g: "is_free s g" "\<not> is_free s' g" "g \<notin> set (f # fs)" for g
  proof (cases "is_free t g")
    case True
    then obtain i where i: "i < length fs" "new_table (page_at va (Suc i)) t s' g"
      using rest g by (auto simp: tables_grown_def page_at_Suc)
    then have "new_table (page_at va (Suc i)) s s' g" using kept by (auto simp: new_table_def)
    then show ?thesis using i(1) by (intro exI [of _ "Suc i"]) simp
  next
    case False
    then have "new_table va s t g" using one g by (auto simp: tables_grown_def)
    then have "new_table va s s' g" using kept' by (auto simp: new_table_def)
    then show ?thesis by (intro exI [of _ 0]) simp
  qed
  then show ?thesis using kept kept' unfolding tables_grown_def by (metis (no_types, opaque_lifting))
qed

text \<open>
  The run \<open>va\<close> of pages is mapped to the frames \<open>fs\<close>, which were free and are distinct; other
  pages, and the rest of the state, are as before.
\<close>

definition run_mapped :: "u32 \<Rightarrow> u32 list \<Rightarrow> mm \<Rightarrow> mm \<Rightarrow> bool" where
  "run_mapped va fs s s' \<longleftrightarrow>
     vm_ok s' \<and> memory_differs s s' \<and> pools_alike s s' \<and> distinct fs \<and> tables_grown va fs s s' \<and>
     (\<forall>f \<in> set fs. is_free s f \<and> \<not> is_free s' f \<and> data_frame s' f \<and> frame f = f) \<and>
     (\<forall>g. is_free s' g \<longrightarrow> is_free s g) \<and> (\<forall>g. data_frame s g \<and> \<not> is_free s g \<longrightarrow> data_frame s' g) \<and>
     (\<forall>i < length fs. mmu s' (page_at va i) = Some (fs ! i)) \<and>
     (\<forall>x. in_range x \<and> (\<forall>i < length fs. drop_bit 12 x \<noteq> drop_bit 12 (page_at va i)) \<longrightarrow> mmu s' x = mmu s x)"

lemma frame_changed_ref:
  assumes ch: "frame_changed pf k v s s'" and pools: "pools_ok s" and k: "k < pool_cap pf s" and j: "j < pool_cap qf s"
  shows "frame_ref s' (frame_of qf s j) = (if qf = pf \<and> j = k then v else frame_ref s (frame_of qf s j))"
proof -
  have "mem s' = (mem s)[unat (mem_idx (frame_of pf s k)) := v]" using ch by (simp add: frame_changed_def)
  moreover have "unat (mem_idx (frame_of pf s k)) = unat (mem_idx (frame_of qf s j)) \<longleftrightarrow> qf = pf \<and> j = k"
    using frame_of_eq_iff(1) [OF pools k j] by (metis u32_eqI)
  ultimately show ?thesis using mem_idx_frame(2) [OF pools j] pools_okD(6) [OF pools]
    by (auto simp: frame_ref_def nth_list_update)
qed

lemma alike_frame_of: "pools_alike s s' \<Longrightarrow> frame_of pf s' = frame_of pf s \<and> pool_cap pf s' = pool_cap pf s"
  using frame_of_cong [of pf s' s] by (simp add: pools_alike_def)

text \<open>Frames of data in use stay so and keep their contents.\<close>

definition data_kept :: "mm \<Rightarrow> mm \<Rightarrow> bool" where
  "data_kept s s' \<longleftrightarrow> (\<forall>f. data_frame s f \<and> \<not> is_free s f \<longrightarrow>
     data_frame s' f \<and> \<not> is_free s' f \<and> (\<forall>a. frame a = f \<longrightarrow> ram s' a = ram s a))"

lemma data_kept_refl [simp]: "data_kept s s"
  by (simp add: data_kept_def)

lemma data_kept_trans: "data_kept s t \<Longrightarrow> data_kept t u \<Longrightarrow> data_kept s u"
  unfolding data_kept_def by metis

lemma mapped_data_kept:
  assumes vm: "vm_ok s" and va: "in_range va" and m: "mapped_to va pa s s'" "entry_writes va s s'"
  shows "data_kept s s'"
  unfolding data_kept_def
proof (intro allI impI conjI)
  fix f assume f: "data_frame s f \<and> \<not> is_free s f"
  show "data_frame s' f" using mapped_data_frame [OF vm m(1)] f by blast
  show "\<not> is_free s' f" using mapped_page(4) [OF vm va m(1)] f by blast
  fix a assume "frame a = f"
  then show "ram s' a = ram s a" using m(2) f va by (auto simp: entry_writes_def data_frame_def in_range_def)
qed

text \<open>
  Frames in use keep their counts; the frames \<open>fs\<close> of a pool, which were free, have one user each.
\<close>

definition refs_kept :: "mm \<Rightarrow> mm \<Rightarrow> bool" where
  "refs_kept s s' \<longleftrightarrow> (\<forall>qf j. j < pool_cap qf s \<and> frame_used qf s j \<longrightarrow>
     frame_used qf s' j \<and> frame_ref s' (frame_of qf s j) = frame_ref s (frame_of qf s j))"

definition run_frames :: "pool_flags \<Rightarrow> u32 list \<Rightarrow> mm \<Rightarrow> mm \<Rightarrow> bool" where
  "run_frames pf fs s s' \<longleftrightarrow> refs_kept s s' \<and> (\<forall>f \<in> set fs. \<exists>k < pool_cap pf s.
     \<not> frame_used pf s k \<and> frame_used pf s' k \<and> f = frame_of pf s k \<and> frame_ref s' f = 1)"

lemma refs_keptD:
  assumes "refs_kept t u" and "pools_alike s t" and "j < pool_cap qf s" and "frame_used qf t j"
  shows "frame_used qf u j" and "frame_ref u (frame_of qf s j) = frame_ref t (frame_of qf s j)"
  using assms alike_frame_of [OF assms(2), of qf] unfolding refs_kept_def by metis+

lemma refs_kept_trans: "refs_kept s t \<Longrightarrow> pools_alike s t \<Longrightarrow> refs_kept t u \<Longrightarrow> refs_kept s u"
  using refs_keptD [of t u s] by (simp add: refs_kept_def)

lemma changed_refs_kept:
  assumes ch: "frame_changed pf k v s s'" and ok: "pools_ok s" and k: "k < pool_cap pf s" "\<not> frame_used pf s k"
  shows "refs_kept s s'"
  using ch k(2) frame_changed_ref [OF ch ok k(1)] by (auto simp: refs_kept_def frame_changed_def)

lemma mapped_refs_kept:
  assumes ok: "pools_ok s" and m: "mapped_to va pa s s'"
  shows "refs_kept s s'"
proof -
  obtain s1 where s1: "table_taken s s1" "s' = s1\<lparr>ram := ram s'\<rparr>" using m by (auto simp: mapped_to_def)
  have "refs_kept s s1"
    using s1(1) changed_refs_kept [OF _ ok] by (auto simp: table_taken_def) (simp add: refs_kept_def)
  moreover have "refs_kept s1 s'" by (subst s1(2)) (simp add: refs_kept_def frame_used_def frame_ref_def)
  moreover have "pools_alike s s1" using s1(1) by (auto simp: table_taken_def frame_changed_def pools_alike_def)
  ultimately show ?thesis using refs_kept_trans by blast
qed

lemma run_frames_one:
  assumes ok: "pools_ok s" and ch: "frame_changed pf k 1 s s1" and k: "k < pool_cap pf s" "\<not> frame_used pf s k"
    and later: "refs_kept s1 s'"
  shows "run_frames pf [frame_of pf s k] s s'"
proof -
  have al: "pools_alike s s1" by (rule changed_alike [OF ch])
  note fr = alike_frame_of [OF al, of pf]
  have "frame_used pf s1 k" "frame_ref s1 (frame_of pf s k) = 1"
    using ch k(1) frame_changed_ref [OF ch ok k(1) k(1)] by (simp_all add: frame_changed_def)
  then have "frame_used pf s' k" "frame_ref s' (frame_of pf s k) = 1"
    using refs_keptD [OF later al k(1)] by simp_all
  then show ?thesis
    using k refs_kept_trans [OF changed_refs_kept [OF ch ok k] al later] by (auto simp: run_frames_def)
qed

lemma run_frames_Cons:
  assumes one: "run_frames pf [f] s t" and al: "pools_alike s t" and rest: "run_frames pf fs t s'"
  shows "run_frames pf (f # fs) s s'"
proof -
  note fr = alike_frame_of [OF al, of pf]
  have kept: "refs_kept s t" "refs_kept t s'" using one rest by (simp_all add: run_frames_def)
  have "\<exists>k < pool_cap pf s. \<not> frame_used pf s k \<and> frame_used pf s' k \<and> g = frame_of pf s k \<and> frame_ref s' g = 1"
    if "g \<in> set (f # fs)" for g
  proof (cases "g = f")
    case True
    then obtain k where "k < pool_cap pf s" "\<not> frame_used pf s k" "frame_used pf t k" "g = frame_of pf s k" "frame_ref t g = 1"
      using one by (auto simp: run_frames_def)
    then show ?thesis using refs_keptD [OF kept(2) al] by (intro exI [of _ k]) simp
  next
    case False
    then have "g \<in> set fs" using that by simp
    then obtain k where "k < pool_cap pf t" "\<not> frame_used pf t k" "frame_used pf s' k" "g = frame_of pf t k" "frame_ref s' g = 1"
      using rest unfolding run_frames_def by metis
    then show ?thesis using fr kept(1) by (auto simp: refs_kept_def)
  qed
  then show ?thesis using refs_kept_trans [OF kept(1) al kept(2)] by (simp add: run_frames_def)
qed

text \<open>One turn of the loop.\<close>

lemma map_one_page:
  assumes vm: "vm_ok s" and room: "room pf (Suc n) s" and run: "page_run va (Suc n)" and new: "mmu s va = None"
  obtains f s' where "map_pages pf va (Suc n) s = map_pages pf (va + PG_SIZE) n s'" and "run_mapped va [f] s s'"
    and "room pf n s'" and "run_frames pf [f] s s'" and "data_kept s s'"
proof -
  have ok: "tables_ok s" "pools_ok s" "private_tables s" using vm by (simp_all add: vm_ok_def)
  have r: "in_range va" "take_bit 12 va = 0" using page_run_at [OF run, of 0] by simp_all
  have "0 < free_frames pf s" using room by (simp add: room_def)
  then obtain k s1 where k: "palloc pf s = Inr (frame_of pf s k, s1)" "k < pool_cap pf s" "\<not> frame_used pf s k"
      "frame_changed pf k 1 s s1"
    using palloc_run [OF ok(2) free_frames_ex] by metis
  let ?f = "frame_of pf s k"
  have d: "pools_differ s s1" "pools_ok s1" using k(4) by (simp_all add: frame_changed_def)
  note same = same_tables [OF pools_differD(1,2) [OF d(1)]]
  have free1: "is_free s1 g \<longleftrightarrow> is_free s g \<and> g \<noteq> ?f" for g using is_free_changed [OF k(4,2) _ ok(2)] by simp
  have f: "is_free s ?f" "frame ?f = ?f" "?f \<noteq> 0" using k(2,3) frame_of_frame [OF ok(2) k(2)] by (auto simp: is_free_def)
  have t1: "tables_ok s1" using ok(1) by (simp add: tables_ok_def same free1 pools_differD(1,2) [OF d(1)])
  have vm1: "vm_ok s1" using t1 d(2) ok(3) by (simp add: vm_ok_def private_tables_def same pools_differD(1) [OF d(1)])
  have fr1: "free_frames qf s1 = (if qf = pf then free_frames pf s - 1 else free_frames qf s)" for qf
    using free_frames_changed [OF k(4,2,3)] by simp
  then have "0 < free_frames PF_KERNEL s1" using room by (cases pf) (simp_all add: room_def)
  then have some: "\<exists>i < pool_cap PF_KERNEL s1. \<not> frame_used PF_KERNEL s1 i" by (rule free_frames_ex)
  have r1: "drop_bit 22 va \<noteq> 1023" using r(1) by (simp add: in_range_def)
  obtain s' where s': "page_table_add va ?f 7 s1 = Inr ((), s')" "mapped_to va ?f s1 s'" "entry_writes va s1 s'"
    using page_table_add_run [OF t1 d(2) r1, of ?f 7] new f(2) some by (auto simp: same)
  note m = mapped_page [OF vm1 r(1) s'(2)]
  have step: "map_pages pf va (Suc n) s = map_pages pf (va + PG_SIZE) n s'"
    using f(3) by (simp add: bnd_Inr [where m = "palloc pf" and s = s, OF k(1)] bnd_Inr [where m = "page_table_add va ?f 7" and s = s1, OF s'(1)])
  have data1: "data_frame s1 g = data_frame s g" for g
    by (simp add: data_frame_def same pools_differD(1,2) [OF d(1)])
  have "data_frame s' g" if "data_frame s g" "\<not> is_free s1 g" for g
    using mapped_data_frame [OF vm1 s'(2)] that by (simp add: data1)
  moreover have "tables_grown va [?f] s s'"
    using mapped_grown [OF vm1 s'(2,3)]
    by (auto simp: tables_grown_def new_table_def free1 same pools_differD(1) [OF d(1)])
  moreover have "\<not> is_free s1 ?f" by (simp add: free1)
  ultimately have "run_mapped va [?f] s s'"
    unfolding run_mapped_def
    using free_data_frame [OF ok(1) f(1)] f(2) m f(1) r(2) free1 same memory_differs_trans [OF pools_differ_memory [OF d(1)] mapped_memory [OF vm1 s'(2)]]
      pools_alike_trans [OF changed_alike [OF k(4)] mapped_alike [OF s'(2)]]
    by (auto simp: less_Suc_eq)
  moreover have "room pf n s'"
    using room mapped_frames [OF vm1 s'(2)] fr1 [of PF_KERNEL] fr1 [of PF_USER] by (cases pf) (auto simp: room_def)
  moreover have "run_frames pf [?f] s s'"
    by (rule run_frames_one [OF ok(2) k(4,2,3) mapped_refs_kept [OF d(2) s'(2)]])
  moreover have "data_kept s s1" by (simp add: data_kept_def data1 free1 pools_differD(1) [OF d(1)])
  then have "data_kept s s'" using mapped_data_kept [OF vm1 r(1) s'(2,3)] data_kept_trans by blast
  ultimately show thesis using that step by blast
qed

lemma map_pages_run:
  "vm_ok s \<Longrightarrow> room pf n s \<Longrightarrow> page_run va n \<Longrightarrow> (\<forall>i < n. mmu s (page_at va i) = None) \<Longrightarrow>
   \<exists>fs s'. map_pages pf va n s = Inr (True, s') \<and> length fs = n \<and> run_mapped va fs s s' \<and> run_frames pf fs s s' \<and> data_kept s s'"
proof (induction n arbitrary: va s)
  case 0
  then show ?case by (simp add: run_mapped_def memory_differs_def pools_alike_def run_frames_def refs_kept_def tables_grown_def)
next
  case (Suc n)
  obtain f s1 where one: "map_pages pf va (Suc n) s = map_pages pf (va + PG_SIZE) n s1" "run_mapped va [f] s s1" "room pf n s1"
      "run_frames pf [f] s s1" "data_kept s s1"
    by (rule map_one_page [OF Suc.prems(1-3)]) (use Suc.prems(4) page_at_0 in auto)
  have run: "page_run (va + PG_SIZE) n" by (rule page_run_Suc [OF Suc.prems(3)])
  have "mmu s1 (page_at va (Suc i)) = None" if "i < n" for i
  proof -
    have "in_range (page_at va (Suc i))" "drop_bit 12 (page_at va (Suc i)) \<noteq> drop_bit 12 va"
      using that page_run_at(1) [OF Suc.prems(3), of "Suc i"] page_run_distinct [OF Suc.prems(3), of "Suc i" 0] by simp_all
    then show ?thesis using one(2) Suc.prems(4) that by (simp add: run_mapped_def)
  qed
  moreover have "vm_ok s1" using one(2) by (simp add: run_mapped_def)
  ultimately obtain fs s' where rest: "map_pages pf (va + PG_SIZE) n s1 = Inr (True, s')" "length fs = n"
      "run_mapped (va + PG_SIZE) fs s1 s'" "run_frames pf fs s1 s'" "data_kept s1 s'"
    using Suc.IH [OF _ one(3) run] by (auto simp: page_at_Suc)
  have va: "drop_bit 12 va \<noteq> drop_bit 12 (page_at va (Suc i))" if "i < n" for i
    using that page_run_distinct [OF Suc.prems(3), of 0 "Suc i"] by simp
  have "run_mapped va (f # fs) s s'"
    unfolding run_mapped_def
  proof (intro conjI allI impI ballI)
    show "vm_ok s'" "memory_differs s s'" "pools_alike s s'"
      using rest(3) one(2) memory_differs_trans pools_alike_trans by (auto simp: run_mapped_def)
    show "distinct (f # fs)" using rest(3) one(2) by (auto simp: run_mapped_def)
    show "tables_grown va (f # fs) s s'"
      by (rule tables_grown_Cons [where t = s1]) (use rest(3) one(2) in \<open>simp_all add: run_mapped_def\<close>)
    show "is_free s g" "\<not> is_free s' g" "data_frame s' g" "frame g = g" if "g \<in> set (f # fs)" for g
      using that rest(3) one(2) by (auto simp: run_mapped_def)
    show "data_frame s' g" if "data_frame s g \<and> \<not> is_free s g" for g
      using that rest(3) one(2) by (auto simp: run_mapped_def)
    show "is_free s g" if "is_free s' g" for g using that rest(3) one(2) by (auto simp: run_mapped_def)
    show "mmu s' (page_at va i) = Some ((f # fs) ! i)" if i: "i < length (f # fs)" for i
    proof (cases i)
      case 0
      have "in_range va" using page_run_at(1) [OF Suc.prems(3), of 0] by simp
      then have "mmu s' va = mmu s1 va" using rest(2,3) va by (auto simp: run_mapped_def page_at_Suc)
      with 0 one(2) show ?thesis by (simp add: run_mapped_def)
    next
      case (Suc j)
      with i rest show ?thesis by (auto simp: run_mapped_def page_at_Suc)
    qed
    show "mmu s' x = mmu s x" if x: "in_range x \<and> (\<forall>i < length (f # fs). drop_bit 12 x \<noteq> drop_bit 12 (page_at va i))" for x
    proof -
      have x0: "drop_bit 12 x \<noteq> drop_bit 12 va" and xs: "\<And>j. j < n \<Longrightarrow> drop_bit 12 x \<noteq> drop_bit 12 (page_at va (Suc j))"
        using x rest(2) page_at_0 by (auto dest: spec [where x = 0])
      then show ?thesis using x rest(2,3) one(2) by (auto simp: run_mapped_def page_at_Suc)
    qed
  qed
  moreover have "run_frames pf (f # fs) s s'"
    using one(2) by (intro run_frames_Cons [OF one(4) _ rest(4)]) (simp add: run_mapped_def)
  moreover have "data_kept s s'" using one(5) rest(5) by (rule data_kept_trans)
  ultimately show ?case using one(1) rest(1,2) \<open>run_mapped va (f # fs) s s'\<close> by (intro exI [of _ "f # fs"]) auto
qed

end
