(* ===== verification/Kernel_Pages.thy ===== *)
theory Kernel_Pages
  imports Page_Alloc
begin

text \<open>
  The kernel's pages: \<open>vaddr_get\<close>, \<open>malloc_page\<close>, \<open>get_kernel_pages\<close> and \<open>mfree_page\<close> on the
  kernel's pool of virtual addresses.
\<close>

section \<open>Runs of bits\<close>

lemma set_bits_run:
  "q + n \<le> 8 * length (bits b) \<Longrightarrow> 8 * length (bits b) < 2 ^ 31 \<Longrightarrow> v = 1 \<or> v = 0 \<Longrightarrow>
   \<exists>b'. set_bits b (of_nat q) n v = Inr b' \<and> btmp_bytes_len b' = btmp_bytes_len b \<and> length (bits b') = length (bits b) \<and>
     (\<forall>j < 8 * length (bits b). used_bit b' j = (if q \<le> j \<and> j < q + n then v = 1 else used_bit b j))"
proof (induction n arbitrary: q b)
  case (Suc n)
  obtain b1 where b1: "bitmap_set b (of_nat q) v = Inr b1" "btmp_bytes_len b1 = btmp_bytes_len b"
      "length (bits b1) = length (bits b)"
      "\<And>j. j < 8 * length (bits b) \<Longrightarrow> used_bit b1 j = (if j = q then v = 1 else used_bit b j)"
    using bitmap_set_eq [of q b v] Suc.prems by auto
  have "Suc q + n \<le> 8 * length (bits b1)" "8 * length (bits b1) < 2 ^ 31" using Suc.prems b1(3) by simp_all
  from Suc.IH [OF this Suc.prems(3)] obtain b2 where b2: "set_bits b1 (of_nat (Suc q)) n v = Inr b2"
      "btmp_bytes_len b2 = btmp_bytes_len b1" "length (bits b2) = length (bits b1)"
      "\<forall>j < 8 * length (bits b1). used_bit b2 j = (if Suc q \<le> j \<and> j < Suc q + n then v = 1 else used_bit b1 j)"
    by blast
  then have "set_bits b (of_nat q) (Suc n) v = Inr b2" using b1(1) by (simp add: add.commute)
  moreover have "used_bit b2 j = (if q \<le> j \<and> j < q + Suc n then v = 1 else used_bit b j)" if "j < 8 * length (bits b)" for j
    using b2(4) b1(3,4) that by (auto split: if_splits)
  ultimately show ?case using b1(2,3) b2(2,3) by auto
qed auto

text \<open>A scan that starts at a free bit always comes to a result.\<close>

lemma scan_run_total:
  "x + left \<le> 8 * length (bits b) \<Longrightarrow> 8 * length (bits b) < 2 ^ 31 \<Longrightarrow> \<exists>r. scan_run b m left (of_nat x) c = Inr r"
proof (induction left arbitrary: x c)
  case (Suc left)
  have "bitmap_scan_test b (of_nat x) = Inr (used_bit b x)" using Suc.prems by (intro bitmap_scan_test_eq) simp_all
  moreover have "\<exists>r. scan_run b m left (of_nat (Suc x)) c' = Inr r" for c' using Suc.prems by (intro Suc.IH) simp_all
  ultimately show ?case by (simp add: Let_def add.commute)
qed simp

lemma bitmap_scan_total:
  assumes wf: "bitmap_wf b" and len: "unat (btmp_bytes_len b) < length (bits b)" and ex: "\<exists>i < bitmap_cap b. \<not> used_bit b i"
  shows "\<exists>r. bitmap_scan b m = Inr r"
proof -
  from scan_first_free [OF wf ex] obtain n k where n: "scan_byte b 0 = Inr n" "n < unat (btmp_bytes_len b)"
    "k = 8 * n + scan_bit (bits b ! n) 0" and k: "k < bitmap_cap b" by blast
  have cap: "bitmap_cap b < 2 ^ 31" by (rule bitmap_cap_less [OF wf])
  have left: "unat (btmp_bytes_len b * 8 - of_nat k) = bitmap_cap b - k"
    using k cap unat_mult_u32 [of "btmp_bytes_len b" 8] unat_of_nat_u32 [of k]
    by (subst unat_sub_u32) (simp_all add: bitmap_cap_def mult.commute)
  have "Suc k + (bitmap_cap b - k) \<le> 8 * length (bits b)" using k len by (simp add: bitmap_cap_def)
  then have "\<exists>r. scan_run b m (bitmap_cap b - k) (of_nat (Suc k)) 1 = Inr r"
    using wf by (intro scan_run_total) (simp_all add: bitmap_wf_def)
  then show ?thesis using n(1,2) left by (simp add: bitmap_scan_def Let_def n(3) add.commute mult.commute)
qed

text \<open>The result of a scan for \<open>m\<close> bits, one or more.\<close>

lemma bitmap_scan_result:
  assumes wf: "bitmap_wf b" and len: "unat (btmp_bytes_len b) < length (bits b)" and ex: "\<exists>i < bitmap_cap b. \<not> used_bit b i"
    and m: "1 \<le> m" "m < 2 ^ 31"
  obtains "bitmap_scan b (of_nat m) = Inr (- 1)" "\<forall>q. q + m \<le> bitmap_cap b \<longrightarrow> \<not> run_free b q m"
  | q where "bitmap_scan b (of_nat m) = Inr (of_nat q)" "q + m \<le> Suc (bitmap_cap b)" "run_free b q m" "(of_nat q :: u32) \<noteq> - 1"
proof (cases "m = 1")
  case True
  obtain k where k: "bitmap_scan b 1 = Inr (of_nat k)" "k < bitmap_cap b" "\<not> used_bit b k"
    using bitmap_scan_one [OF wf ex] by blast
  then have "run_free b k m" using True by (simp add: run_free_def) (metis le_antisym less_Suc_eq_le)
  moreover have "k < 2 ^ 31" using k(2) bitmap_cap_less [OF wf] by simp
  ultimately show thesis using k True u32_of_nat_not_minus1 by (intro that(2) [of k]) simp_all
next
  case False
  then have m2: "2 \<le> m" using m(1) by simp
  obtain r where r: "bitmap_scan b (of_nat m) = Inr r" using bitmap_scan_total [OF wf len ex] by blast
  have small: "q < 2 ^ 31" if "q + m \<le> Suc (bitmap_cap b)" for q using that m2 bitmap_cap_less [OF wf] by simp
  from bitmap_scan_many [OF wf m2 m(2) r] show thesis
    using r small u32_of_nat_not_minus1 that by metis
qed

section \<open>The kernel's virtual pages\<close>

text \<open>
  A virtual page whose bit is clear is not mapped. The bit right after the last one counts too: a
  scan for several pages may take it.
\<close>

definition kv_ok :: "virtual_addr \<Rightarrow> bool" where
  "kv_ok v \<longleftrightarrow>
     bitmap_wf (vaddr_bitmap v) \<and> unat (btmp_bytes_len (vaddr_bitmap v)) < length (bits (vaddr_bitmap v)) \<and>
     page_run (vaddr_start v) (Suc (bitmap_cap (vaddr_bitmap v)))"

definition kvaddr_ok :: "mm \<Rightarrow> bool" where
  "kvaddr_ok s \<longleftrightarrow>
     bitmap_wf (vaddr_bitmap (kernel_vaddr s)) \<and>
     unat (btmp_bytes_len (vaddr_bitmap (kernel_vaddr s))) < length (bits (vaddr_bitmap (kernel_vaddr s))) \<and>
     page_run (vaddr_start (kernel_vaddr s)) (Suc (bitmap_cap (vaddr_bitmap (kernel_vaddr s)))) \<and>
     (\<forall>k \<le> bitmap_cap (vaddr_bitmap (kernel_vaddr s)). \<not> used_bit (vaddr_bitmap (kernel_vaddr s)) k \<longrightarrow>
        mmu s (page_at (vaddr_start (kernel_vaddr s)) k) = None)"

lemma kvaddr_kv_ok: "kvaddr_ok s \<Longrightarrow> kv_ok (kernel_vaddr s)"
  by (simp add: kvaddr_ok_def kv_ok_def)

lemma page_at_add: "page_at (page_at va q) i = page_at va (q + i)"
  by (simp add: page_at_def algebra_simps)

lemma page_run_sub: "page_run va n \<Longrightarrow> q + m \<le> n \<Longrightarrow> 1 \<le> m \<Longrightarrow> page_run (page_at va q) m"
  using unat_page_at [of va n q] by (simp add: page_run_def mod_add_eq)


lemma vm_ok_vaddr [simp]: "vm_ok (s\<lparr>kernel_vaddr := v\<rparr>) = vm_ok s" "mmu (s\<lparr>kernel_vaddr := v\<rparr>) = mmu s"
  "room pf n (s\<lparr>kernel_vaddr := v\<rparr>) = room pf n s" "is_free (s\<lparr>kernel_vaddr := v\<rparr>) = is_free s"
  "data_frame (s\<lparr>kernel_vaddr := v\<rparr>) = data_frame s"
proof -
  let ?s = "s\<lparr>kernel_vaddr := v\<rparr>"
  have pool: "the_pool qf ?s = the_pool qf s" for qf by (cases qf) simp_all
  have f: "pool_cap qf ?s = pool_cap qf s" "pool_base qf ?s = pool_base qf s" "frame_used qf ?s = frame_used qf s" for qf
    by (simp_all add: pool_cap_def pool_base_def frame_used_def pool fun_eq_iff)
  show free: "is_free ?s = is_free s" by (simp add: is_free_def frame_of_def f fun_eq_iff)
  note t = same_tables [of ?s s, simplified]
  show "mmu ?s = mmu s" by (rule t)
  have "pools_ok ?s = pools_ok s" unfolding pools_ok_def f frame_ref_def frame_of_def by simp
  then show "vm_ok ?s = vm_ok s" by (simp add: vm_ok_def tables_ok_def private_tables_def t free)
  show "room pf n ?s = room pf n s" by (simp add: room_def free_frames_def f)
  show "data_frame ?s = data_frame s" by (simp add: data_frame_def fun_eq_iff t)
qed

text \<open>\<open>vaddr_get\<close> answers 0 when there is no run, or marks a run of \<open>n\<close> pages that had none.\<close>

lemma vaddr_get_run:
  assumes kv: "kv_ok (kernel_vaddr s)" and ex: "\<exists>i < bitmap_cap (vaddr_bitmap (kernel_vaddr s)). \<not> used_bit (vaddr_bitmap (kernel_vaddr s)) i"
    and n: "1 \<le> n" "n < 2 ^ 31"
  defines "b \<equiv> vaddr_bitmap (kernel_vaddr s)" and "start \<equiv> vaddr_start (kernel_vaddr s)"
  obtains "vaddr_get PF_KERNEL (of_nat n) s = Inr (0, s)" and "\<forall>q. q + n \<le> bitmap_cap b \<longrightarrow> \<not> run_free b q n"
  | q b' where "vaddr_get PF_KERNEL (of_nat n) s =
        Inr (page_at start q, s\<lparr>kernel_vaddr := (kernel_vaddr s)\<lparr>vaddr_bitmap := b'\<rparr>\<rparr>)"
      and "q + n \<le> Suc (bitmap_cap b)" and "run_free b q n" and "page_run (page_at start q) n"
      and "bitmap_wf b'" and "btmp_bytes_len b' = btmp_bytes_len b" and "length (bits b') = length (bits b)"
      and "\<forall>j < 8 * length (bits b). used_bit b' j \<longleftrightarrow> q \<le> j \<and> j < q + n \<or> used_bit b j"
proof -
  have ok: "bitmap_wf b" "unat (btmp_bytes_len b) < length (bits b)" "page_run start (Suc (bitmap_cap b))"
    using kv by (simp_all add: kv_ok_def b_def start_def)
  from bitmap_scan_result [OF ok(1,2) ex [folded b_def] n] show thesis
  proof cases
    case 1
    then have "vaddr_get PF_KERNEL (of_nat n) s = Inr (0, s)" by (simp add: vaddr_get_def flip: b_def)
    with 1(2) that(1) show thesis by blast
  next
    case (2 q)
    have len: "q + n \<le> 8 * length (bits b)" "8 * length (bits b) < 2 ^ 31"
      using 2(2) ok(1,2) by (simp_all add: bitmap_cap_def bitmap_wf_def)
    obtain b' where b': "set_bits b (of_nat q) n 1 = Inr b'" "btmp_bytes_len b' = btmp_bytes_len b"
        "length (bits b') = length (bits b)"
        "\<forall>j < 8 * length (bits b). used_bit b' j = (if q \<le> j \<and> j < q + n then (1 :: u8) = 1 else used_bit b j)"
      using set_bits_run [OF len, of 1] by auto
    have un: "unat (of_nat n :: u32) = n" using n(2) by (simp add: unat_of_nat_u32)
    have addr: "start + of_nat q * PG_SIZE = page_at start q" by (simp add: page_at_def PG_SIZE_def)
    have "vaddr_get PF_KERNEL (of_nat n) s =
        Inr (page_at start q, s\<lparr>kernel_vaddr := (kernel_vaddr s)\<lparr>vaddr_bitmap := b'\<rparr>\<rparr>)"
      using 2(1,4) b'(1) by (simp add: vaddr_get_def un Let_def addr flip: b_def start_def)
    moreover have "page_run (page_at start q) n" using page_run_sub [OF ok(3) 2(2) n(1)] .
    moreover have "bitmap_wf b'" using ok(1) b' by (simp add: bitmap_wf_def)
    moreover have "\<forall>j < 8 * length (bits b). used_bit b' j \<longleftrightarrow> q \<le> j \<and> j < q + n \<or> used_bit b j" using b'(4) by auto
    ultimately show thesis using that(2) 2(2,3) b'(2,3) by blast
  qed
qed

text \<open>\<open>malloc_page\<close>, likewise.\<close>

text \<open>The run of \<open>n\<close> pages at index \<open>q\<close> of the kernel's addresses is taken.\<close>

definition vrun_taken :: "nat \<Rightarrow> nat \<Rightarrow> virtual_addr \<Rightarrow> virtual_addr \<Rightarrow> bool" where
  "vrun_taken q n v v' \<longleftrightarrow>
     vaddr_start v' = vaddr_start v \<and> q + n \<le> Suc (bitmap_cap (vaddr_bitmap v)) \<and> run_free (vaddr_bitmap v) q n \<and>
     btmp_bytes_len (vaddr_bitmap v') = btmp_bytes_len (vaddr_bitmap v) \<and>
     (\<forall>j \<le> bitmap_cap (vaddr_bitmap v). used_bit (vaddr_bitmap v') j \<longleftrightarrow> q \<le> j \<and> j < q + n \<or> used_bit (vaddr_bitmap v) j)"

lemma malloc_page_run:
  assumes vm: "vm_ok s" and kv: "kvaddr_ok s"
    and ex: "\<exists>i < bitmap_cap (vaddr_bitmap (kernel_vaddr s)). \<not> used_bit (vaddr_bitmap (kernel_vaddr s)) i"
    and n: "1 \<le> n" "n < 3840" and room: "room PF_KERNEL n s"
  obtains "malloc_page PF_KERNEL (of_nat n) s = Inr (0, s)"
      and "\<forall>q. q + n \<le> bitmap_cap (vaddr_bitmap (kernel_vaddr s)) \<longrightarrow> \<not> run_free (vaddr_bitmap (kernel_vaddr s)) q n"
  | va fs q s' where "malloc_page PF_KERNEL (of_nat n) s = Inr (va, s')" and "va \<noteq> 0" and "page_run va n" and "length fs = n"
      and "run_mapped va fs (s\<lparr>kernel_vaddr := kernel_vaddr s'\<rparr>) s'" and "kvaddr_ok s'"
      and "\<forall>i < n. mmu s (page_at va i) = None"
      and "run_frames PF_KERNEL fs (s\<lparr>kernel_vaddr := kernel_vaddr s'\<rparr>) s'" and "data_kept s s'"
      and "va = page_at (vaddr_start (kernel_vaddr s)) q" and "vrun_taken q n (kernel_vaddr s) (kernel_vaddr s')"
proof -
  let ?b = "vaddr_bitmap (kernel_vaddr s)" and ?start = "vaddr_start (kernel_vaddr s)"
  have un: "unat (of_nat n :: u32) = n" "(of_nat n :: u32) > 0" "(of_nat n :: u32) < 3840"
    using n by (simp_all add: unat_of_nat_u32 word_less_nat_alt)
  have kvD: "page_run ?start (Suc (bitmap_cap ?b))" "unat (btmp_bytes_len ?b) < length (bits ?b)"
    "\<forall>k \<le> bitmap_cap ?b. \<not> used_bit ?b k \<longrightarrow> mmu s (page_at ?start k) = None"
    using kv by (simp_all add: kvaddr_ok_def)
  have "n < 2 ^ 31" using n(2) by simp
  from vaddr_get_run [OF kvaddr_kv_ok [OF kv] ex n(1) this] show thesis
  proof cases
    case 1
    then have "malloc_page PF_KERNEL (of_nat n) s = Inr (0, s)"
      using un by (simp add: malloc_page_def bnd_Inr)
    with 1(2) that(1) show thesis by blast
  next
    case (2 q b')
    define s1 where "s1 = s\<lparr>kernel_vaddr := (kernel_vaddr s)\<lparr>vaddr_bitmap := b'\<rparr>\<rparr>"
    let ?va = "page_at ?start q"
    have new: "mmu s (page_at ?va i) = None" if "i < n" for i
      using that 2(2,3) kvD(3) by (simp add: page_at_add run_free_def)
    obtain fs s' where s': "map_pages PF_KERNEL ?va n s1 = Inr (True, s')" "length fs = n" "run_mapped ?va fs s1 s'"
        "run_frames PF_KERNEL fs s1 s'" "data_kept s1 s'"
      using map_pages_run [of s1 PF_KERNEL n ?va] vm room 2(4) new by (auto simp: s1_def)
    have "unat ?va \<noteq> 0" using 2(4) by (auto simp: page_run_def)
    then have "?va \<noteq> 0" by auto
    have m: "malloc_page PF_KERNEL (of_nat n) s = Inr (?va, s')"
      using un \<open>?va \<noteq> 0\<close> s'(1) 
      by (simp add: malloc_page_def bnd_Inr [where m = "vaddr_get PF_KERNEL (of_nat n)" and s = s, OF 2(1)] flip: s1_def)
         (simp add: bnd_Inr [where m = "map_pages PF_KERNEL ?va n" and s = s1])
    have kv': "kernel_vaddr s' = kernel_vaddr s1" using s'(3) by (simp add: run_mapped_def memory_differs_def)
    have "kvaddr_ok s'"
      unfolding kvaddr_ok_def kv'
    proof (intro conjI allI impI)
      fix k assume k: "k \<le> bitmap_cap (vaddr_bitmap (kernel_vaddr s1))" "\<not> used_bit (vaddr_bitmap (kernel_vaddr s1)) k"
      have cap: "k \<le> bitmap_cap ?b" using k(1) 2(6) by (simp add: s1_def bitmap_cap_def)
      then have "k < 8 * length (bits ?b)" using kvD(2) by (simp add: bitmap_cap_def)
      with k(2) 2(8) have k': "\<not> (q \<le> k \<and> k < q + n)" "\<not> used_bit ?b k" by (auto simp: s1_def)
      have "drop_bit 12 (page_at ?start k) \<noteq> drop_bit 12 (page_at ?va i)" if "i < n" for i
        using that k'(1) cap 2(2) page_run_distinct [OF kvD(1), of k "q + i"] by (auto simp: page_at_add)
      moreover have "in_range (page_at ?start k)" using page_run_at(1) [OF kvD(1)] cap by simp
      ultimately have "mmu s' (page_at ?start k) = mmu s (page_at ?start k)"
        using s'(2,3) by (simp add: run_mapped_def s1_def)
      then show "mmu s' (page_at (vaddr_start (kernel_vaddr s1)) k) = None"
        using kvD(3) cap k'(2) by (simp add: s1_def)
    qed (use 2 kvD in \<open>simp_all add: s1_def bitmap_cap_def\<close>)
    moreover have "s\<lparr>kernel_vaddr := kernel_vaddr s'\<rparr> = s1" by (simp add: kv' s1_def)
    moreover have "data_kept s s'" using s'(5) by (simp add: data_kept_def s1_def)
    moreover have "\<forall>j \<le> bitmap_cap ?b. j < 8 * length (bits ?b)" using kvD(2) by (simp add: bitmap_cap_def)
    then have "vrun_taken q n (kernel_vaddr s) (kernel_vaddr s')" using 2(2,3,6,8) by (simp add: vrun_taken_def kv' s1_def)
    ultimately show thesis using that(2) m \<open>?va \<noteq> 0\<close> 2(4) s'(2,3,4) new by metis
  qed
qed


section \<open>Zeroed pages\<close>

lemma zero_pages_run:
  "page_run va n \<Longrightarrow> length fs = n \<Longrightarrow> vm_ok s \<Longrightarrow>
   (\<forall>i < n. mmu s (page_at va i) = Some (fs ! i) \<and> data_frame s (fs ! i) \<and> frame (fs ! i) = fs ! i) \<Longrightarrow>
   zero_pages va n s = Inr ((), s\<lparr>ram := (\<lambda>a. if frame a \<in> set fs then 0 else ram s a)\<rparr>)"
proof (induction n arbitrary: va fs s)
  case (Suc n)
  obtain f fs' where fs: "fs = f # fs'" "length fs' = n" using Suc.prems(2) by (cases fs) auto
  have f: "mmu s va = Some f" "data_frame s f" "frame f = f"
    using Suc.prems(4) [rule_format, of 0] by (simp_all add: fs)
  let ?r = "\<lambda>a. if frame a = f then 0 else ram s a"
  let ?s = "s\<lparr>ram := ?r\<rparr>"
  have r: "\<forall>a. frame a \<noteq> f \<longrightarrow> ?r a = ram s a" by simp
  have zero: "zero_range va 4096 s = Inr ((), ?s)"
    using f(1) by (simp add: zero_range_def unat_page_diff [OF f(3)])
  have win: "drop_bit 22 (page_at va i) \<noteq> 1023" if "i < Suc n" for i
    using page_run_at(1) [OF Suc.prems(1) that] by (simp add: in_range_def)
  have "mmu ?s (page_at (va + PG_SIZE) i) = Some (fs' ! i) \<and> data_frame ?s (fs' ! i) \<and> frame (fs' ! i) = fs' ! i" if "i < n" for i
    using Suc.prems(4) [rule_format, of "Suc i"] that data_write(3) [OF f(2) r win [of "Suc i"]] data_write_ok(2) [OF f(2) r Suc.prems(3)]
    by (simp add: fs page_at_Suc)
  then have "zero_pages (va + PG_SIZE) n ?s = Inr ((), ?s\<lparr>ram := (\<lambda>a. if frame a \<in> set fs' then 0 else ram ?s a)\<rparr>)"
    using page_run_Suc [OF Suc.prems(1)] fs(2) data_write_ok(1) [OF f(2) r Suc.prems(3)] by (intro Suc.IH) auto
  moreover have "?s\<lparr>ram := (\<lambda>a. if frame a \<in> set fs' then 0 else ram ?s a)\<rparr> =
      s\<lparr>ram := (\<lambda>a. if frame a \<in> set fs then 0 else ram s a)\<rparr>"
    by (auto simp: fs fun_eq_iff)
  ultimately show ?case by (simp add: PG_SIZE_def bnd_Inr [where m = "zero_range va 4096" and s = s, OF zero])
qed simp

lemma data_writes_ok:
  assumes vm: "vm_ok s" and fs: "\<forall>f \<in> set fs. data_frame s f"
  shows "vm_ok (s\<lparr>ram := (\<lambda>a. if frame a \<in> set fs then 0 else ram s a)\<rparr>)"
    and "drop_bit 22 x \<noteq> 1023 \<Longrightarrow> mmu (s\<lparr>ram := (\<lambda>a. if frame a \<in> set fs then 0 else ram s a)\<rparr>) x = mmu s x"
    and "data_frame (s\<lparr>ram := (\<lambda>a. if frame a \<in> set fs then 0 else ram s a)\<rparr>) = data_frame s"
proof -
  have "vm_ok (s\<lparr>ram := (\<lambda>a. if frame a \<in> set fs then 0 else ram s a)\<rparr>) \<and>
    data_frame (s\<lparr>ram := (\<lambda>a. if frame a \<in> set fs then 0 else ram s a)\<rparr>) = data_frame s \<and>
    (\<forall>x. drop_bit 22 x \<noteq> 1023 \<longrightarrow> mmu (s\<lparr>ram := (\<lambda>a. if frame a \<in> set fs then 0 else ram s a)\<rparr>) x = mmu s x)"
    using vm fs
  proof (induction fs arbitrary: s)
    case (Cons f fs)
    let ?r = "\<lambda>a. if frame a = f then 0 else ram s a"
    let ?s = "s\<lparr>ram := ?r\<rparr>"
    have r: "\<forall>a. frame a \<noteq> f \<longrightarrow> ?r a = ram s a" and f: "data_frame s f" using Cons.prems by simp_all
    have "\<forall>g \<in> set fs. data_frame ?s g" using Cons.prems data_write_ok(2) [OF f r Cons.prems(1)] by simp
    note Cons.IH [OF data_write_ok(1) [OF f r Cons.prems(1)] this]
    moreover have "?s\<lparr>ram := (\<lambda>a. if frame a \<in> set fs then 0 else ram ?s a)\<rparr> =
        s\<lparr>ram := (\<lambda>a. if frame a \<in> set (f # fs) then 0 else ram s a)\<rparr>"
      by (auto simp: fun_eq_iff)
    ultimately show ?case using data_write(3) [OF f r] data_write_ok(2) [OF f r Cons.prems(1)] by (simp add: fun_eq_iff)
  qed simp
  then show "vm_ok (s\<lparr>ram := (\<lambda>a. if frame a \<in> set fs then 0 else ram s a)\<rparr>)"
    and "data_frame (s\<lparr>ram := (\<lambda>a. if frame a \<in> set fs then 0 else ram s a)\<rparr>) = data_frame s"
    and "drop_bit 22 x \<noteq> 1023 \<Longrightarrow> mmu (s\<lparr>ram := (\<lambda>a. if frame a \<in> set fs then 0 else ram s a)\<rparr>) x = mmu s x" by blast+
qed


section \<open>The lock\<close>

definition with_mutex :: "nat \<Rightarrow> mm \<Rightarrow> mm" where
  "with_mutex n s = s\<lparr>kernel_pool := (kernel_pool s)\<lparr>mutex := n\<rparr>\<rparr>"

lemma with_mutex_fields [simp]:
  "ram (with_mutex n s) = ram s" "cr3 (with_mutex n s) = cr3 s" "mem (with_mutex n s) = mem s"
  "kernel_vaddr (with_mutex n s) = kernel_vaddr s" "arenas (with_mutex n s) = arenas s" "pgdir (with_mutex n s) = pgdir s"
  "k_block_descs (with_mutex n s) = k_block_descs s" "u_block_desc (with_mutex n s) = u_block_desc s"
  "userprog_vaddr (with_mutex n s) = userprog_vaddr s" "user_pool (with_mutex n s) = user_pool s"
  "mutex (kernel_pool (with_mutex n s)) = n" "with_mutex m (with_mutex n s) = with_mutex m s"
  "pool_size (kernel_pool (with_mutex n s)) = pool_size (kernel_pool s)"
  by (simp_all add: with_mutex_def)

lemma with_mutex_ok [simp]:
  "vm_ok (with_mutex n s) = vm_ok s" "mmu (with_mutex n s) = mmu s" "room pf k (with_mutex n s) = room pf k s"
  "is_free (with_mutex n s) = is_free s" "data_frame (with_mutex n s) = data_frame s" "kvaddr_ok (with_mutex n s) = kvaddr_ok s"
proof -
  let ?s = "with_mutex n s"
  have pool: "pool_bitmap (the_pool qf ?s) = pool_bitmap (the_pool qf s)" "phy_addr_start (the_pool qf ?s) = phy_addr_start (the_pool qf s)" for qf
    by (cases qf; simp add: with_mutex_def)+
  have f: "pool_cap qf ?s = pool_cap qf s" "pool_base qf ?s = pool_base qf s" "frame_used qf ?s = frame_used qf s" for qf
    by (simp_all add: pool_cap_def pool_base_def frame_used_def pool fun_eq_iff)
  show free: "is_free ?s = is_free s" by (simp add: is_free_def frame_of_def f fun_eq_iff)
  note t = same_tables [of ?s s, simplified]
  show m: "mmu ?s = mmu s" by (rule t)
  have "pools_ok ?s = pools_ok s" unfolding pools_ok_def f frame_ref_def frame_of_def by (simp add: with_mutex_def)
  then show "vm_ok ?s = vm_ok s" by (simp add: vm_ok_def tables_ok_def private_tables_def t free)
  show "room pf k ?s = room pf k s" by (simp add: room_def free_frames_def f)
  show "data_frame ?s = data_frame s" by (simp add: data_frame_def fun_eq_iff t)
  show "kvaddr_ok ?s = kvaddr_ok s" by (simp add: kvaddr_ok_def m)
qed

lemma kernel_lock_run: "bnd (pool_lock PF_KERNEL) g s = g () (with_mutex (Suc (mutex (kernel_pool s))) s)"
  by (simp add: pool_lock_def with_mutex_def)

lemma kernel_unlock_run:
  "0 < mutex (kernel_pool s) \<Longrightarrow> bnd (pool_unlock PF_KERNEL) g s = g () (with_mutex (mutex (kernel_pool s) - 1) s)"
  by (simp add: pool_unlock_def bnd_assoc with_mutex_def)

lemma with_mutex_same [simp]: "with_mutex (mutex (kernel_pool s)) s = s"
  by (simp add: with_mutex_def)

section \<open>Properties\<close>

text \<open>
  The kernel has a free virtual page, and frames for \<open>n\<close> pages and the page tables they may need.
\<close>

definition can_get :: "nat \<Rightarrow> mm \<Rightarrow> bool" where
  "can_get n s \<longleftrightarrow> vm_ok s \<and> kvaddr_ok s \<and> room PF_KERNEL n s \<and> 1 \<le> n \<and> n < 3840 \<and>
     (\<exists>i < bitmap_cap (vaddr_bitmap (kernel_vaddr s)). \<not> used_bit (vaddr_bitmap (kernel_vaddr s)) i)"

text \<open>\<open>n\<close> new pages of zeros at \<open>va\<close>, in the frames \<open>fs\<close>; other frames taken are new page tables.\<close>

definition fresh_pages :: "u32 \<Rightarrow> u32 list \<Rightarrow> mm \<Rightarrow> mm \<Rightarrow> bool" where
  "fresh_pages va fs s s' \<longleftrightarrow>
     va \<noteq> 0 \<and> page_run va (length fs) \<and> distinct fs \<and> tables_grown va fs s s' \<and>
     (\<forall>i < length fs. is_free s (fs ! i) \<and> \<not> is_free s' (fs ! i) \<and>
        mmu s (page_at va i) = None \<and> mmu s' (page_at va i) = Some (fs ! i)) \<and>
     (\<forall>a. frame a \<in> set fs \<longrightarrow> ram s' a = 0) \<and>
     (\<forall>x. in_range x \<and> (\<forall>i < length fs. drop_bit 12 x \<noteq> drop_bit 12 (page_at va i)) \<longrightarrow> mmu s' x = mmu s x)"

text \<open>The frames \<open>fs\<close> of the kernel's pool have one user each and hold data, the others are kept.\<close>

definition pages_taken :: "u32 list \<Rightarrow> mm \<Rightarrow> mm \<Rightarrow> bool" where
  "pages_taken fs s s' \<longleftrightarrow>
     run_frames PF_KERNEL fs s s' \<and> pools_alike s s' \<and> (\<forall>f \<in> set fs. data_frame s' f) \<and>
     (\<forall>g. is_free s' g \<longrightarrow> is_free s g) \<and> data_kept s s' \<and>
     pgdir s' = pgdir s \<and> k_block_descs s' = k_block_descs s \<and> arenas s' = arenas s"

lemma with_mutex_frames [simp]:
  "pool_cap qf (with_mutex n s) = pool_cap qf s" "pool_base qf (with_mutex n s) = pool_base qf s"
  "frame_of qf (with_mutex n s) = frame_of qf s"
  "frame_used qf (with_mutex n s) = frame_used qf s" "frame_ref (with_mutex n s) = frame_ref s"
  by (cases qf; simp add: with_mutex_def pool_cap_def pool_base_def frame_used_def frame_of_def frame_ref_def fun_eq_iff)+

lemma the_pool_with_mutex:
  "mutex (the_pool qf (with_mutex n s)) = (if qf = PF_KERNEL then n else mutex (the_pool qf s))"
  "pool_size (the_pool qf (with_mutex n s)) = pool_size (the_pool qf s)"
  "the_pool qf (s\<lparr>kernel_vaddr := v\<rparr>) = the_pool qf s"
  by (cases qf; simp add: with_mutex_def)+

lemma run_frames_cong:
  assumes "\<And>qf. pool_cap qf s = pool_cap qf t \<and> frame_of qf s = frame_of qf t \<and> frame_used qf s = frame_used qf t" "frame_ref s = frame_ref t"
    and "\<And>qf. frame_used qf s' = frame_used qf t'" "frame_ref s' = frame_ref t'"
  shows "run_frames pf fs s s' = run_frames pf fs t t'"
  by (simp add: run_frames_def refs_kept_def assms)

lemma vaddr_ram_frames [simp]:
  "pool_cap qf (s\<lparr>kernel_vaddr := v\<rparr>) = pool_cap qf s" "pool_base qf (s\<lparr>kernel_vaddr := v\<rparr>) = pool_base qf s"
  "frame_of qf (s\<lparr>kernel_vaddr := v\<rparr>) = frame_of qf s" "frame_used qf (s\<lparr>kernel_vaddr := v\<rparr>) = frame_used qf s"
  "frame_ref (s\<lparr>kernel_vaddr := v\<rparr>) = frame_ref s" "frame_ref (s\<lparr>ram := r\<rparr>) = frame_ref s"
  "frame_used qf (s\<lparr>ram := r\<rparr>) = frame_used qf s" "pool_cap qf (s\<lparr>ram := r\<rparr>) = pool_cap qf s"
  "pool_base qf (s\<lparr>ram := r\<rparr>) = pool_base qf s"
  by (cases qf; simp add: pool_cap_def pool_base_def frame_used_def frame_of_def frame_ref_def fun_eq_iff)+

lemma pages_takenI:
  assumes m: "run_mapped va fs (s\<lparr>kernel_vaddr := v\<rparr>) s1"
    and r: "run_frames PF_KERNEL fs (s\<lparr>kernel_vaddr := v\<rparr>) s1"
    and d: "data_frame (s1\<lparr>ram := r'\<rparr>) = data_frame s1" "data_kept s s1"
    and w: "\<forall>a. frame a \<notin> set fs \<longrightarrow> r' a = ram s1 a"
  shows "pages_taken fs s (s1\<lparr>ram := r'\<rparr>)"
proof -
  let ?s = "s1\<lparr>ram := r'\<rparr>" and ?t = "s\<lparr>kernel_vaddr := v\<rparr>"
  have "run_frames PF_KERNEL fs s ?s = run_frames PF_KERNEL fs ?t s1" by (rule run_frames_cong) simp_all
  moreover have "pools_alike s ?s" using m by (simp add: run_mapped_def pools_alike_def the_pool_with_mutex)
  moreover have "data_kept s ?s"
    unfolding data_kept_def
  proof (intro allI impI conjI)
    fix f assume f: "data_frame s f \<and> \<not> is_free s f"
    with d(2) have k: "data_frame s1 f" "\<not> is_free s1 f" "\<forall>a. frame a = f \<longrightarrow> ram s1 a = ram s a"
      by (auto simp: data_kept_def)
    show "data_frame ?s f" "\<not> is_free ?s f" using k by (simp_all add: d(1))
    have "f \<notin> set fs" using f m by (auto simp: run_mapped_def)
    then show "ram ?s a = ram s a" if "frame a = f" for a using w k(3) that by simp
  qed
  ultimately show ?thesis using m r by (simp add: pages_taken_def d run_mapped_def memory_differs_def)
qed

lemma fresh_pages_mutex [simp]:
  "fresh_pages va fs (with_mutex m s) s' = fresh_pages va fs s s'" "fresh_pages va fs s (with_mutex m s') = fresh_pages va fs s s'"
  "can_get n (with_mutex m s) = can_get n s"
  by (simp_all add: fresh_pages_def can_get_def tables_grown_def new_table_def pd_addr_def)

lemma pages_taken_mutex:
  "pages_taken fs (with_mutex m s) s' \<Longrightarrow> n = mutex (kernel_pool s) \<Longrightarrow> pages_taken fs s (with_mutex n s')"
  unfolding pages_taken_def
proof (elim conjE, intro conjI)
  assume "run_frames PF_KERNEL fs (with_mutex m s) s'"
  then show "run_frames PF_KERNEL fs s (with_mutex n s')" by (subst run_frames_cong [of _ "with_mutex m s" _ s']) simp_all
  assume "pools_alike (with_mutex m s) s'" "n = mutex (kernel_pool s)"
  then show "pools_alike s (with_mutex n s')"
    unfolding pools_alike_def by (auto simp: the_pool_with_mutex)
qed (simp_all add: data_kept_def)

lemma kvaddr_ok_cong:
  assumes ok: "kvaddr_ok s" and kv: "kernel_vaddr s' = kernel_vaddr s" and m: "\<And>x. in_range x \<Longrightarrow> mmu s' x = mmu s x"
  shows "kvaddr_ok s'"
proof -
  have run: "page_run (vaddr_start (kernel_vaddr s)) (Suc (bitmap_cap (vaddr_bitmap (kernel_vaddr s))))"
    using ok by (simp add: kvaddr_ok_def)
  show ?thesis using ok page_run_at(1) [OF run] m unfolding kvaddr_ok_def kv by (metis le_imp_less_Suc)
qed

text \<open>\<open>malloc_page\<close> and the zeroing of the pages.\<close>

lemma fresh_pages_run:
  assumes get: "can_get n s"
  obtains "malloc_page PF_KERNEL (of_nat n) s = Inr (0, s)"
      and "\<forall>q. q + n \<le> bitmap_cap (vaddr_bitmap (kernel_vaddr s)) \<longrightarrow> \<not> run_free (vaddr_bitmap (kernel_vaddr s)) q n"
  | va fs q s1 s' where "malloc_page PF_KERNEL (of_nat n) s = Inr (va, s1)" and "zero_pages va n s1 = Inr ((), s')"
      and "length fs = n" and "fresh_pages va fs s s'" and "vm_ok s'" and "kvaddr_ok s'" and "pages_taken fs s s'"
      and "va = page_at (vaddr_start (kernel_vaddr s)) q" and "vrun_taken q n (kernel_vaddr s) (kernel_vaddr s')"
proof -
  have n: "1 \<le> n" "n < 3840" and room: "room PF_KERNEL n s" and ok: "vm_ok s" "kvaddr_ok s"
    and ex: "\<exists>i < bitmap_cap (vaddr_bitmap (kernel_vaddr s)). \<not> used_bit (vaddr_bitmap (kernel_vaddr s)) i"
    using get by (simp_all add: can_get_def)
  from malloc_page_run [OF ok ex n room] show thesis
  proof cases
    case 1
    with that(1) show thesis by blast
  next
    case (2 va fs q s1)
    let ?t = "s\<lparr>kernel_vaddr := kernel_vaddr s1\<rparr>"
    have m: "run_mapped va fs ?t s1" by (rule 2)
    define s2 where "s2 = s1\<lparr>ram := (\<lambda>a. if frame a \<in> set fs then 0 else ram s1 a)\<rparr>"
    have vm1: "vm_ok s1" and data: "\<forall>f \<in> set fs. data_frame s1 f \<and> frame f = f"
      and mapped: "\<forall>i < n. mmu s1 (page_at va i) = Some (fs ! i)" using m 2(4) by (simp_all add: run_mapped_def)
    have zero: "zero_pages va n s1 = Inr ((), s2)"
      unfolding s2_def using mapped data 2(4) nth_mem by (intro zero_pages_run [OF 2(3,4) vm1]) fastforce
    note dw = data_writes_ok [OF vm1, of fs]
    have vm2: "vm_ok s2" "data_frame s2 = data_frame s1" using dw(1,3) data by (simp_all add: s2_def)
    have win: "in_range x \<Longrightarrow> mmu s2 x = mmu s1 x" for x using dw(2) data by (simp add: s2_def in_range_def)
    have "fresh_pages va fs s s2"
      unfolding fresh_pages_def
    proof (intro conjI allI impI)
      show "va \<noteq> 0" "page_run va (length fs)" using 2 by simp_all
      show "distinct fs" using m by (simp add: run_mapped_def)
      have dir: "ram s2 (pd_addr s2 x) = ram s1 (pd_addr s1 x)" for x
        using data by (auto simp: s2_def pd_addr_def frame_slot [OF pdi_less] data_frame_def)
      have "tables_grown va fs ?t s1" using m by (simp add: run_mapped_def)
      then show "tables_grown va fs s s2"
        unfolding tables_grown_def new_table_def dir by (simp add: s2_def pd_addr_def)
      fix i assume i: "i < length fs"
      then have f: "fs ! i \<in> set fs" by simp
      show "is_free s (fs ! i)" "\<not> is_free s2 (fs ! i)" using m f by (simp_all add: run_mapped_def s2_def)
      show "mmu s (page_at va i) = None" using 2(7) i 2(4) by simp
      show "mmu s2 (page_at va i) = Some (fs ! i)" using mapped i 2(4) win page_run_at(1) [OF 2(3), of i] by simp
    next
      fix a assume "frame a \<in> set fs" then show "ram s2 a = 0" by (simp add: s2_def)
    next
      fix x assume x: "in_range x \<and> (\<forall>i < length fs. drop_bit 12 x \<noteq> drop_bit 12 (page_at va i))"
      then have "mmu s1 x = mmu ?t x" using m by (simp add: run_mapped_def)
      then show "mmu s2 x = mmu s x" using x win by simp
    qed
    moreover have kv: "kernel_vaddr s2 = kernel_vaddr s1" by (simp add: s2_def)
    have "kvaddr_ok s2" by (rule kvaddr_ok_cong [OF 2(6) kv win])
    moreover have "pages_taken fs s s2"
      using pages_takenI [OF m 2(8) _ 2(9), of "\<lambda>a. if frame a \<in> set fs then 0 else ram s1 a"] vm2(2) by (simp add: s2_def)
    ultimately show thesis using that(2) 2(1,4,10,11) zero vm2(1) kv by simp
  qed
qed

lemma get_kernel_pages_run:
  assumes get: "can_get n s"
  obtains "get_kernel_pages (of_nat n) s = Inr (0, s)"
      and "\<forall>q. q + n \<le> bitmap_cap (vaddr_bitmap (kernel_vaddr s)) \<longrightarrow> \<not> run_free (vaddr_bitmap (kernel_vaddr s)) q n"
  | va fs q s' where "get_kernel_pages (of_nat n) s = Inr (va, s')" and "length fs = n" and "fresh_pages va fs s s'"
      and "vm_ok s'" and "kvaddr_ok s'" and "mutex (kernel_pool s') = mutex (kernel_pool s)"
      and "pages_taken fs s s'" and "va = page_at (vaddr_start (kernel_vaddr s)) q" and "vrun_taken q n (kernel_vaddr s) (kernel_vaddr s')"
proof -
  let ?m = "mutex (kernel_pool s)"
  define s0 where "s0 = with_mutex (Suc ?m) s"
  have get0: "can_get n s0" and un: "unat (of_nat n :: u32) = n"
    using get by (simp_all add: s0_def can_get_def unat_of_nat_u32)
  from get0 show thesis
  proof (cases rule: fresh_pages_run)
    case 1
    then have "get_kernel_pages (of_nat n) s = Inr (0, s)"
      unfolding get_kernel_pages_def kernel_lock_run s0_def [symmetric]
      by (simp add: bnd_Inr) (simp add: s0_def kernel_unlock_run)
    with 1(2) that(1) show thesis by (simp add: s0_def)
  next
    case (2 va fs q s1 s2)
    have mu: "mutex (kernel_pool s2) = Suc ?m"
      using 2(7) spec [of _ PF_KERNEL] by (auto simp: pages_taken_def pools_alike_def s0_def dest: spec [of _ PF_KERNEL])
    let ?s = "with_mutex ?m s2"
    have "get_kernel_pages (of_nat n) s = Inr (va, ?s)"
      unfolding get_kernel_pages_def kernel_lock_run s0_def [symmetric]
      using 2(4) mu by (simp add: bnd_Inr [where m = "malloc_page PF_KERNEL (of_nat n)" and s = s0, OF 2(1)] fresh_pages_def
          bnd_Inr [where m = "zero_pages va n" and s = s1, OF 2(2)] un kernel_unlock_run)
    then show thesis using that(2) 2 pages_taken_mutex [OF 2(7) [unfolded s0_def] refl] by (simp add: s0_def)
  qed
qed

text \<open>
  C7: \<open>get_kernel_pages\<close> either gives 0 and changes nothing, when no run of that many virtual pages is
  left, or gives a run of whole pages that had no frame, filled with zeros and mapped to distinct
  frames that were free; every other page translates as before, the invariants of the paging
  structures hold afterwards and the lock is released.
\<close>

theorem get_kernel_pages_correct:
  assumes "can_get n s"
  shows "get_kernel_pages (of_nat n) s = Inr (0, s) \<and>
      (\<forall>q. q + n \<le> bitmap_cap (vaddr_bitmap (kernel_vaddr s)) \<longrightarrow> \<not> run_free (vaddr_bitmap (kernel_vaddr s)) q n) \<or>
    (\<exists>va fs s'. get_kernel_pages (of_nat n) s = Inr (va, s') \<and> length fs = n \<and> fresh_pages va fs s s' \<and>
      vm_ok s' \<and> kvaddr_ok s' \<and> mutex (kernel_pool s') = mutex (kernel_pool s))"
  by (rule get_kernel_pages_run [OF assms]) blast+


lemma sample_vm_ok: "vm_ok sample_mm"
proof -
  have "frame 0x101007 = 0x101000" "\<not> present 0" by (simp_all add: frame_def present_def)
  then have "private_tables sample_mm" by (auto simp: private_tables_def in_range_def sample_entries(1))
  then show ?thesis by (simp add: vm_ok_def sample_tables_ok sample_pools_ok)
qed

lemma sample_free_frames: "free_frames pf sample_mm = 8"
proof -
  have "used_bit \<lparr>btmp_bytes_len = 1, bits = [0, 0]\<rparr> k = False" if "k < 8" for k
    using that by (simp add: used_bit_def)
  then have "{k. k < pool_cap pf sample_mm \<and> \<not> frame_used pf sample_mm k} = {k. k < 8}"
    by (cases pf) (auto simp: pool_cap_def frame_used_def sample_mm_def sample_pool_def bitmap_cap_def)
  then show ?thesis by (simp add: free_frames_def)
qed

lemma sample_kvaddr_ok: "kvaddr_ok sample_mm"
proof -
  have run: "page_run 0xC0100000 9" by (simp add: page_run_def)
  then have "mmu sample_mm (page_at 0xC0100000 k) = None" if "k \<le> 8" for k
    using that page_run_at(1) [OF run, of k] sample_unmapped by (simp add: in_range_def)
  then show ?thesis using run
    by (simp add: kvaddr_ok_def sample_mm_def bitmap_wf_def bitmap_cap_def K_HEAP_START_def)
qed

lemma sample_can_get: "can_get 1 sample_mm"
proof -
  have "\<exists>i < bitmap_cap (vaddr_bitmap (kernel_vaddr sample_mm)). \<not> used_bit (vaddr_bitmap (kernel_vaddr sample_mm)) i"
    by (intro exI [of _ 0]) (simp add: sample_mm_def bitmap_cap_def used_bit_def)
  then show ?thesis
    by (simp add: can_get_def sample_vm_ok sample_kvaddr_ok room_def sample_free_frames)
qed

theorem get_kernel_pages_correct_witness:
  "\<exists>va fs s'. get_kernel_pages 1 sample_mm = Inr (va, s') \<and> length fs = 1 \<and> fresh_pages va fs sample_mm s'"
proof -
  have "run_free (vaddr_bitmap (kernel_vaddr sample_mm)) 0 1" "0 + 1 \<le> bitmap_cap (vaddr_bitmap (kernel_vaddr sample_mm))"
    by (simp_all add: run_free_def sample_mm_def bitmap_cap_def used_bit_def)
  then have "\<not> (\<forall>q. q + 1 \<le> bitmap_cap (vaddr_bitmap (kernel_vaddr sample_mm)) \<longrightarrow> \<not> run_free (vaddr_bitmap (kernel_vaddr sample_mm)) q 1)"
    by blast
  then show ?thesis using get_kernel_pages_correct [OF sample_can_get] by (simp only: of_nat_1) blast
qed

end
