(* ===== verification/Page_Free.thy ===== *)
theory Page_Free
  imports Kernel_Pages
begin

text \<open>
  \<open>mfree_page\<close> on the kernel's pages: each page loses its mapping and its frame one reference.
\<close>

section \<open>One page\<close>

text \<open>A page of the kernel's: its frame is of the kernel's pool, has one user and holds data.\<close>

definition kpage :: "mm \<Rightarrow> u32 \<Rightarrow> nat \<Rightarrow> bool" where
  "kpage s va k \<longleftrightarrow> k < pool_cap PF_KERNEL s \<and> mmu s va = Some (frame_of PF_KERNEL s k) \<and>
     frame_ref s (frame_of PF_KERNEL s k) = 1 \<and> data_frame s (frame_of PF_KERNEL s k)"

lemma entry_private:
  assumes vm: "vm_ok s" and va: "in_range va" "present (ram s (pd_addr s va))" and x: "in_range x" "drop_bit 12 x \<noteq> drop_bit 12 va"
    and p: "present (ram s (pd_addr s x))"
  shows "pt_addr s x \<noteq> pt_addr s va"
proof
  assume "pt_addr s x = pt_addr s va"
  then have eq: "frame (ram s (pd_addr s x)) = frame (ram s (pd_addr s va))"
      "take_bit 10 (drop_bit 12 x) = take_bit 10 (drop_bit 12 va)"
    using slot_eq_iff [OF pti_less pti_less] by (simp_all add: pt_addr_def)
  then have "drop_bit 22 x = drop_bit 22 va" using vm va x(1) p unfolding vm_ok_def private_tables_def by metis
  with eq(2) x(2) page_eqI show False by metis
qed

text \<open>After freeing the page \<open>va\<close> in frame \<open>k\<close>.\<close>

definition page_freed :: "u32 \<Rightarrow> nat \<Rightarrow> mm \<Rightarrow> mm \<Rightarrow> bool" where
  "page_freed va k s s' \<longleftrightarrow>
     vm_ok s' \<and> memory_differs s s' \<and> pools_alike s s' \<and> mmu s' va = None \<and>
     (\<forall>x. in_range x \<and> drop_bit 12 x \<noteq> drop_bit 12 va \<longrightarrow> mmu s' x = mmu s x) \<and>
     (\<forall>g. is_free s' g \<longleftrightarrow> is_free s g \<or> g = frame_of PF_KERNEL s k) \<and>
     (\<forall>j < pool_cap PF_KERNEL s. j \<noteq> k \<longrightarrow> frame_ref s' (frame_of PF_KERNEL s j) = frame_ref s (frame_of PF_KERNEL s j)) \<and>
     data_frame s' = data_frame s \<and> (\<forall>a. data_frame s (frame a) \<longrightarrow> ram s' a = ram s a)"

lemma is_free_released:
  assumes ch: "frame_changed pf k 0 s s'" and k: "k < pool_cap pf s" and pools: "pools_ok s"
  shows "is_free s' g \<longleftrightarrow> is_free s g \<or> g = frame_of pf s k"
proof -
  have size: "pool_cap qf s' = pool_cap qf s" "frame_of qf s' = frame_of qf s" for qf
    using ch frame_of_cong [of qf s' s] by (simp_all add: frame_changed_def)
  have "is_free s' g \<longleftrightarrow> (\<exists>qf j. j < pool_cap qf s \<and> (\<not> frame_used qf s j \<or> qf = pf \<and> j = k) \<and> g = frame_of qf s j)"
    using ch unfolding is_free_def size frame_changed_def by metis
  also have "\<dots> \<longleftrightarrow> is_free s g \<or> g = frame_of pf s k"
    using k unfolding is_free_def by metis
  finally show ?thesis .
qed

lemma frame_mod: "frame f = f \<Longrightarrow> f mod PG_SIZE = 0"
proof -
  assume "frame f = f"
  then have "unat f = 4096 * (unat f div 4096)" using unat_frame [of f] by simp
  then have "unat f mod 4096 = 0" by (metis mod_mult_self1_is_0)
  then show ?thesis unfolding PG_SIZE_def by (metis unat_div_numeral(4) unat_0 u32_eqI)
qed

lemma free_one_page:
  assumes vm: "vm_ok s" and va: "in_range va" "take_bit 12 va = 0" and kp: "kpage s va k"
  defines "inside \<equiv> \<lambda>pa s. phy_addr_start (kernel_pool s) \<le> pa \<and> pa < phy_addr_start (user_pool s)"
  obtains s' where "unmap_pages inside va (Suc n) s = unmap_pages inside (va + PG_SIZE) n s'" and "page_freed va k s s'"
proof -
  let ?f = "frame_of PF_KERNEL s k"
  have ok: "tables_ok s" "pools_ok s" "private_tables s" "recursive s" using vm by (simp_all add: vm_ok_def tables_ok_def)
  have k: "k < pool_cap PF_KERNEL s" and m: "mmu s va = Some ?f" and ref: "frame_ref s ?f = 1" and data: "data_frame s ?f"
    using kp by (simp_all add: kpage_def)
  have p: "present (ram s (pd_addr s va))" "present (ram s (pt_addr s va))" using m by (simp_all add: mmu_def split: if_splits)
  note f = frame_of_frame [OF ok(2) k] and u = unat_frame_of [OF ok(2) k]
  have "inside ?f s"
    using u k pool_of_frame(1) [OF ok(2) k]
    by (auto simp: inside_def word_le_nat_alt word_less_nat_alt pool_base_def split: if_splits)
  then have step1: "bnd (addr_v2p va) (\<lambda>pa. bnd (gets (inside pa)) (\<lambda>i. bnd (kassert c (pa mod PG_SIZE = 0 \<and> i)) (\<lambda>_. g pa))) s = g ?f s" for c g
    by (simp add: bnd_Inr [where m = "addr_v2p va" and s = s, OF addr_v2p_mmu [OF ok(4) m]] frame_mod [OF f(1)])
  obtain s1 where s1: "free_a_phy_page ?f s = Inr ((), s1)" "frame_changed PF_KERNEL k 0 s s1"
    by (rule free_page_run [OF ok(2) k]) (simp_all add: ref)
  have d: "pools_differ s s1" "pools_ok s1" using s1(2) by (simp_all add: frame_changed_def)
  note ram1 = pools_differD(1,2) [OF d(1)]
  note same = same_tables [OF ram1]
  note free1 = is_free_released [OF s1(2) k ok(2)]
  have data1: "data_frame s1 = data_frame s" by (simp add: data_frame_def fun_eq_iff same ram1)
  have t1: "tables_ok s1" using ok(1) data by (simp add: tables_ok_def same ram1 free1 data_frame_def) metis
  have p1: "present (ram s1 (pd_addr s1 va))" using p by (simp add: same ram1)
  have win: "drop_bit 22 va \<noteq> 1023" using va(1) by (simp add: in_range_def)
  let ?v = "ram s (pt_addr s va) AND NOT 1"
  define s' where "s' = s1\<lparr>ram := (ram s1)(pt_addr s1 va := ?v)\<rparr>"
  have "page_table_pte_remove va s1 = Inr ((), s')"
    using mmu_pte_ptr [OF _ p1] ok(4) by (simp add: page_table_pte_remove_def bnd_load store_Some same ram1 s'_def)
  then have "unmap_pages inside va (Suc n) s = unmap_pages inside (va + PG_SIZE) n s'"
    by (simp add: step1 bnd_Inr [where m = "free_a_phy_page ?f" and s = s, OF s1(1)] bnd_Inr [where m = "page_table_pte_remove va" and s = s1])
  moreover have "page_freed va k s s'"
    unfolding page_freed_def
  proof (intro conjI allI impI)
    note st = entry_stored [OF t1 win p1, where v = ?v, folded s'_def]
    have np: "\<not> present ?v" by (simp add: present_def and.assoc)
    have pde: "ram s' (pd_addr s x) = ram s (pd_addr s x)" for x
      using pt_addr_neq_pd_addr(1) [of s va x] ok(1) win p(1) by (auto simp: s'_def same ram1 tables_ok_def)
    have pd': "pd_addr s' = pd_addr s" by (simp add: fun_eq_iff pd_addr_def s'_def ram1)
    have "private_tables s'" using ok(3) by (simp add: private_tables_def pd' pde)
    then show "vm_ok s'" using st(1) d(2) by (simp add: vm_ok_def) (simp add: s'_def)
    show "memory_differs s s'" using pools_differ_memory [OF d(1)] by (simp add: memory_differs_def s'_def)
    show "pools_alike s s'" using changed_alike [OF s1(2)] by (simp add: pools_alike_def pool_cap_def pool_base_def s'_def)
    show "mmu s' va = None" using st(2) np by simp
    show "is_free s' g \<longleftrightarrow> is_free s g \<or> g = ?f" for g using free1 by (simp add: s'_def)
    show "data_frame s' = data_frame s" by (simp add: data_frame_def fun_eq_iff pd' pde) (simp add: s'_def ram1)
    show "ram s' a = ram s a" if "data_frame s (frame a)" for a
      using that p(1) win frame_pt_addr [of s1 va] by (auto simp: s'_def same ram1 data_frame_def)
    fix j assume "j < pool_cap PF_KERNEL s" "j \<noteq> k"
    then show "frame_ref s' (frame_of PF_KERNEL s j) = frame_ref s (frame_of PF_KERNEL s j)"
      using frame_changed_ref [OF s1(2) ok(2) k] by (simp add: s'_def frame_ref_def)
  next
    fix x assume x: "in_range x \<and> drop_bit 12 x \<noteq> drop_bit 12 va"
    have d: "frame (ram s1 (pd_addr s1 va)) \<noteq> frame (cr3 s1)" using t1 win p1 unfolding tables_ok_def by metis
    note upd = mmu_store_entry [OF d, where v = ?v, folded s'_def]
    show "mmu s' x = mmu s x"
    proof (cases "present (ram s (pd_addr s x))")
      case True
      then show ?thesis using entry_private [OF vm va(1) p(1)] x upd(5) [of x] by (simp add: same)
    next
      case False
      then show ?thesis using upd(5) [of x] by (simp add: same ram1) (simp add: mmu_def)
    qed
  qed
  ultimately show thesis by (rule that)
qed

section \<open>Runs of pages\<close>

definition run_freed :: "u32 \<Rightarrow> nat list \<Rightarrow> mm \<Rightarrow> mm \<Rightarrow> bool" where
  "run_freed va ks s s' \<longleftrightarrow>
     vm_ok s' \<and> memory_differs s s' \<and> pools_alike s s' \<and> (\<forall>i < length ks. mmu s' (page_at va i) = None) \<and>
     (\<forall>x. in_range x \<and> (\<forall>i < length ks. drop_bit 12 x \<noteq> drop_bit 12 (page_at va i)) \<longrightarrow> mmu s' x = mmu s x) \<and>
     (\<forall>g. is_free s' g \<longleftrightarrow> is_free s g \<or> g \<in> frame_of PF_KERNEL s ` set ks) \<and>
     (\<forall>j < pool_cap PF_KERNEL s. j \<notin> set ks \<longrightarrow> frame_ref s' (frame_of PF_KERNEL s j) = frame_ref s (frame_of PF_KERNEL s j)) \<and>
     data_frame s' = data_frame s \<and> (\<forall>a. data_frame s (frame a) \<longrightarrow> ram s' a = ram s a)"

lemma unmap_pages_run:
  "vm_ok s \<Longrightarrow> page_run va n \<Longrightarrow> length ks = n \<Longrightarrow> distinct ks \<Longrightarrow> (\<forall>i < n. kpage s (page_at va i) (ks ! i)) \<Longrightarrow>
   \<exists>s'. unmap_pages (\<lambda>pa s. phy_addr_start (kernel_pool s) \<le> pa \<and> pa < phy_addr_start (user_pool s)) va n s = Inr ((), s') \<and>
     run_freed va ks s s'"
proof (induction n arbitrary: va ks s)
  case 0
  then show ?case by (simp add: run_freed_def memory_differs_def pools_alike_def)
next
  case (Suc n)
  let ?in = "\<lambda>pa s. phy_addr_start (kernel_pool s) \<le> pa \<and> pa < phy_addr_start (user_pool s)"
  obtain k ks' where ks: "ks = k # ks'" "length ks' = n" using Suc.prems(3) by (cases ks) auto
  have va: "in_range va" "take_bit 12 va = 0" using page_run_at [OF Suc.prems(2), of 0] by simp_all
  have "kpage s va k" using Suc.prems(5) [rule_format, of 0] by (simp add: ks)
  then obtain s1 where s1: "unmap_pages ?in va (Suc n) s = unmap_pages ?in (va + PG_SIZE) n s1" "page_freed va k s s1"
    by (rule free_one_page [OF Suc.prems(1) va])
  have vm1: "vm_ok s1" and al: "pools_alike s s1" and cap: "k < pool_cap PF_KERNEL s"
    using s1(2) \<open>kpage s va k\<close> by (simp_all add: page_freed_def kpage_def)
  note fr = alike_frame_of [OF al, of PF_KERNEL]
  have later: "in_range (page_at va (Suc i))" "drop_bit 12 (page_at va (Suc i)) \<noteq> drop_bit 12 va" if "i < n" for i
    using that page_run_at(1) [OF Suc.prems(2), of "Suc i"] page_run_distinct [OF Suc.prems(2), of "Suc i" 0] by simp_all
  have "kpage s1 (page_at (va + PG_SIZE) i) (ks' ! i)" if i: "i < n" for i
  proof -
    have kp: "kpage s (page_at va (Suc i)) (ks' ! i)" using Suc.prems(5) [rule_format, of "Suc i"] i by (simp add: ks)
    have "ks' ! i \<noteq> k" using Suc.prems(4) i ks nth_mem [of i ks'] by auto
    moreover have "mmu s1 (page_at va (Suc i)) = mmu s (page_at va (Suc i))" "data_frame s1 = data_frame s"
      using s1(2) later [OF i] by (simp_all add: page_freed_def)
    moreover have "\<forall>j < pool_cap PF_KERNEL s. j \<noteq> k \<longrightarrow> frame_ref s1 (frame_of PF_KERNEL s j) = frame_ref s (frame_of PF_KERNEL s j)"
      using s1(2) by (simp add: page_freed_def)
    ultimately show ?thesis using kp fr unfolding kpage_def page_at_Suc [symmetric] by metis
  qed
  then obtain s' where s': "unmap_pages ?in (va + PG_SIZE) n s1 = Inr ((), s')" "run_freed (va + PG_SIZE) ks' s1 s'"
    using Suc.IH [OF vm1 page_run_Suc [OF Suc.prems(2)] ks(2)] Suc.prems(4) by (auto simp: ks)
  have "run_freed va ks s s'"
    unfolding run_freed_def
  proof (intro conjI allI impI)
    show "ram s' a = ram s a" if "data_frame s (frame a)" for a
      using that s1(2) s'(2) by (simp add: run_freed_def page_freed_def)
    show "vm_ok s'" "memory_differs s s'" "pools_alike s s'" "data_frame s' = data_frame s"
      using s1(2) s'(2) memory_differs_trans pools_alike_trans by (auto simp: run_freed_def page_freed_def)
    have "\<forall>i < length ks'. drop_bit 12 va \<noteq> drop_bit 12 (page_at (va + PG_SIZE) i)"
      using later(2) ks(2) unfolding page_at_Suc [symmetric] by metis
    then have "mmu s' va = mmu s1 va" using s'(2) va(1) unfolding run_freed_def by blast
    then show "mmu s' (page_at va i) = None" if "i < length ks" for i
      using that s'(2) s1(2) by (cases i) (auto simp: run_freed_def page_freed_def ks page_at_Suc)
    show "mmu s' x = mmu s x" if x: "in_range x \<and> (\<forall>i < length ks. drop_bit 12 x \<noteq> drop_bit 12 (page_at va i))" for x
    proof -
      have x0: "drop_bit 12 x \<noteq> drop_bit 12 va" and xs: "\<And>j. j < n \<Longrightarrow> drop_bit 12 x \<noteq> drop_bit 12 (page_at va (Suc j))"
        using x ks page_at_0 by (auto dest: spec [where x = 0])
      then show ?thesis using x ks(2) s'(2) s1(2) by (auto simp: run_freed_def page_freed_def page_at_Suc)
    qed
    show "is_free s' g \<longleftrightarrow> is_free s g \<or> g \<in> frame_of PF_KERNEL s ` set ks" for g
      using s1(2) s'(2) fr by (auto simp: run_freed_def page_freed_def ks)
    show "frame_ref s' (frame_of PF_KERNEL s j) = frame_ref s (frame_of PF_KERNEL s j)"
      if "j < pool_cap PF_KERNEL s" "j \<notin> set ks" for j
      using that s1(2) s'(2) fr by (simp add: run_freed_def page_freed_def ks)
  qed
  with s1(1) s'(1) show ?case by auto
qed

section \<open>\<open>mfree_page\<close>\<close>

lemma vaddr_index:
  assumes kv: "kv_ok (kernel_vaddr s)" and q: "q \<le> bitmap_cap (vaddr_bitmap (kernel_vaddr s))"
  shows "(page_at (vaddr_start (kernel_vaddr s)) q - vaddr_start (kernel_vaddr s)) div PG_SIZE = of_nat q"
proof -
  let ?st = "vaddr_start (kernel_vaddr s)"
  have run: "page_run ?st (Suc (bitmap_cap (vaddr_bitmap (kernel_vaddr s))))" using kv by (simp add: kv_ok_def)
  have "unat (page_at ?st q) = unat ?st + 4096 * q" using unat_page_at [OF run, of q] q by (simp add: less_Suc_eq_le)
  then have "unat (page_at ?st q - ?st) = 4096 * q" by (subst unat_sub_u32) simp_all
  then have "unat ((page_at ?st q - ?st) div PG_SIZE) = q" unfolding PG_SIZE_def unat_div_numeral by simp
  then show ?thesis by (metis of_nat_unat_u32)
qed

lemma mfree_page_run:
  assumes vm: "vm_ok s" and kv: "kvaddr_ok s" and n: "1 \<le> n" "q + n \<le> Suc (bitmap_cap (vaddr_bitmap (kernel_vaddr s)))"
    and ks: "length ks = n" "distinct ks"
  defines "va \<equiv> page_at (vaddr_start (kernel_vaddr s)) q"
  assumes kp: "\<forall>i < n. kpage s (page_at va i) (ks ! i)"
  obtains s' s1 b where "mfree_page PF_KERNEL va (of_nat n) s = Inr ((), s')" and "run_freed va ks s s1"
    and "s' = s1\<lparr>kernel_vaddr := (kernel_vaddr s)\<lparr>vaddr_bitmap := b\<rparr>\<rparr>" and "vm_ok s'" and "kvaddr_ok s'"
    and "btmp_bytes_len b = btmp_bytes_len (vaddr_bitmap (kernel_vaddr s))"
    and "\<forall>j \<le> bitmap_cap b. used_bit b j \<longleftrightarrow> used_bit (vaddr_bitmap (kernel_vaddr s)) j \<and> \<not> (q \<le> j \<and> j < q + n)"
proof -
  let ?b = "vaddr_bitmap (kernel_vaddr s)" and ?st = "vaddr_start (kernel_vaddr s)"
  let ?in = "\<lambda>pa s. phy_addr_start (kernel_pool s) \<le> pa \<and> pa < phy_addr_start (user_pool s)"
  have okD: "bitmap_wf ?b" "unat (btmp_bytes_len ?b) < length (bits ?b)" "page_run ?st (Suc (bitmap_cap ?b))"
    "\<forall>k \<le> bitmap_cap ?b. \<not> used_bit ?b k \<longrightarrow> mmu s (page_at ?st k) = None"
    using kv by (simp_all add: kvaddr_ok_def)
  have cap: "bitmap_cap ?b < 2 ^ 31" by (rule bitmap_cap_less [OF okD(1)])
  have run: "page_run va n" unfolding va_def by (rule page_run_sub [OF okD(3) n(2,1)])
  have un: "unat (of_nat n :: u32) = n" using n cap by (simp add: unat_of_nat_u32)
  have n1: "(1 :: u32) \<le> of_nat n" using un n(1) by (simp add: word_le_nat_alt)
  have pools: "pools_ok s" "recursive s" using vm by (simp_all add: vm_ok_def tables_ok_def)
  obtain k where k: "kpage s va k" using kp n(1) page_at_0 by (metis Suc_le_lessD One_nat_def)
  let ?f = "frame_of PF_KERNEL s k"
  have kf: "k < pool_cap PF_KERNEL s" "mmu s va = Some ?f" using k by (simp_all add: kpage_def)
  note f = frame_of_frame [OF pools(1) kf(1)]
  have "\<not> phy_addr_start (user_pool s) \<le> ?f" using pool_of_frame(1) [OF pools(1) kf(1)] by (auto split: if_splits)
  moreover have "0x102000 \<le> ?f" using f(3) by (simp add: word_le_nat_alt)
  moreover have "take_bit 12 va = 0" using page_run_at(2) [OF run, of 0] n(1) by simp
  then have "frame va = va"
  proof -
    have "va = frame va + take_bit 12 va" using bits_ident [of 12 va] by (simp add: frame_bits)
    with \<open>take_bit 12 va = 0\<close> show ?thesis by simp
  qed
  then have "va mod PG_SIZE = 0" by (rule frame_mod)
  ultimately have start: "mfree_page PF_KERNEL va (of_nat n) s =
      bnd (unmap_pages ?in va n) (\<lambda>_. vaddr_remove PF_KERNEL va (of_nat n)) s"
    by (simp add: mfree_page_def n1 bnd_Inr [where m = "addr_v2p va" and s = s, OF addr_v2p_mmu [OF pools(2) kf(2)]] frame_mod [OF f(1)] un)
  obtain s1 where s1: "unmap_pages ?in va n s = Inr ((), s1)" "run_freed va ks s s1"
    using unmap_pages_run [OF vm run ks kp] by blast
  have kv1: "kernel_vaddr s1 = kernel_vaddr s" using s1(2) by (simp add: run_freed_def memory_differs_def)
  have len: "q + n \<le> 8 * length (bits ?b)" "8 * length (bits ?b) < 2 ^ 31"
    using n(2) okD(1,2) by (simp_all add: bitmap_cap_def bitmap_wf_def)
  obtain b where b: "set_bits ?b (of_nat q) n 0 = Inr b" "btmp_bytes_len b = btmp_bytes_len ?b" "length (bits b) = length (bits ?b)"
      "\<forall>j < 8 * length (bits ?b). used_bit b j = (if q \<le> j \<and> j < q + n then (0 :: u8) = 1 else used_bit ?b j)"
    using set_bits_run [OF len, of 0] by auto
  define s' where "s' = s1\<lparr>kernel_vaddr := (kernel_vaddr s)\<lparr>vaddr_bitmap := b\<rparr>\<rparr>"
  have q: "q \<le> bitmap_cap ?b" using n by simp
  have "vaddr_remove PF_KERNEL va (of_nat n) s1 = Inr ((), s')"
    using b(1) vaddr_index [OF kvaddr_kv_ok [OF kv] q] by (simp add: vaddr_remove_def kv1 un Let_def va_def s'_def)
  then have "mfree_page PF_KERNEL va (of_nat n) s = Inr ((), s')"
    by (simp add: start bnd_Inr [where m = "unmap_pages ?in va n" and s = s, OF s1(1)])
  moreover have used: "\<forall>j \<le> bitmap_cap b. used_bit b j \<longleftrightarrow> used_bit ?b j \<and> \<not> (q \<le> j \<and> j < q + n)"
    using b(2,4) okD(2) by (auto simp: bitmap_cap_def)
  moreover have "vm_ok s'" using s1(2) by (simp add: s'_def run_freed_def)
  moreover have "kvaddr_ok s'"
  proof -
    have "mmu s' (page_at ?st j) = None" if j: "j \<le> bitmap_cap b" "\<not> used_bit b j" for j
    proof (cases "q \<le> j \<and> j < q + n")
      case True
      then have "page_at ?st j = page_at va (j - q)" "j - q < n" by (auto simp: va_def page_at_add)
      then show ?thesis using s1(2) ks(1) by (simp add: run_freed_def s'_def)
    next
      case False
      have jc: "j \<le> bitmap_cap ?b" using j(1) b(2) by (simp add: bitmap_cap_def)
      have "drop_bit 12 (page_at ?st j) \<noteq> drop_bit 12 (page_at va i)" if "i < n" for i
        using that False jc n(2) page_run_distinct [OF okD(3), of j "q + i"] by (auto simp: va_def page_at_add)
      moreover have "in_range (page_at ?st j)" using page_run_at(1) [OF okD(3)] jc by simp
      ultimately have "mmu s1 (page_at ?st j) = mmu s (page_at ?st j)" using s1(2) ks(1) by (simp add: run_freed_def)
      then show ?thesis using okD(4) jc used j False by (simp add: s'_def)
    qed
    then show ?thesis using okD b(2,3) by (simp add: kvaddr_ok_def s'_def bitmap_wf_def bitmap_cap_def)
  qed
  ultimately show thesis using that s1(2) s'_def b(2) by blast
qed


section \<open>Properties\<close>

lemma mmu_same_page:
  assumes "drop_bit 12 x = drop_bit 12 y"
  shows "mmu s x = None \<longleftrightarrow> mmu s y = None"
proof -
  have "drop_bit 22 z = drop_bit 10 (drop_bit 12 z)" for z :: u32 by (simp add: drop_bit_drop_bit)
  then have "drop_bit 22 x = drop_bit 22 y" using assms by metis
  then have "pd_addr s x = pd_addr s y" "pt_addr s x = pt_addr s y" using assms by (simp_all add: pd_addr_def pt_addr_def)
  then show ?thesis by (simp add: mmu_def)
qed

lemma frame_indices:
  "(\<forall>f \<in> set fs. \<exists>k. P k \<and> f = F k) \<Longrightarrow> \<exists>ks. fs = map F ks \<and> (\<forall>k \<in> set ks. P k)"
proof (induction fs)
  case (Cons f fs)
  then obtain k ks where "P k" "f = F k" "fs = map F ks" "\<forall>k \<in> set ks. P k" by auto
  then show ?case by (intro exI [of _ "k # ks"]) simp
qed simp

lemma taken_kpages:
  assumes fr: "fresh_pages va fs s s'" and t: "pages_taken fs s s'"
  obtains ks where "fs = map (frame_of PF_KERNEL s') ks" and "distinct ks" and "\<forall>i < length ks. kpage s' (page_at va i) (ks ! i)"
proof -
  have al: "frame_of PF_KERNEL s' = frame_of PF_KERNEL s" "pool_cap PF_KERNEL s' = pool_cap PF_KERNEL s"
    using t alike_frame_of [of s s' PF_KERNEL] by (simp_all add: pages_taken_def)
  have "\<forall>f \<in> set fs. \<exists>k. (k < pool_cap PF_KERNEL s \<and> frame_ref s' (frame_of PF_KERNEL s k) = 1 \<and> data_frame s' (frame_of PF_KERNEL s k)) \<and>
      f = frame_of PF_KERNEL s k"
    using t unfolding pages_taken_def run_frames_def by metis
  from frame_indices [OF this] obtain ks where ks: "fs = map (frame_of PF_KERNEL s) ks"
    "\<forall>k \<in> set ks. k < pool_cap PF_KERNEL s \<and> frame_ref s' (frame_of PF_KERNEL s k) = 1 \<and> data_frame s' (frame_of PF_KERNEL s k)"
    by blast
  have "distinct ks" using fr ks(1) by (auto simp: fresh_pages_def distinct_map)
  moreover have "\<forall>i < length ks. kpage s' (page_at va i) (ks ! i)"
    using fr ks nth_mem [of _ ks] by (auto simp: fresh_pages_def kpage_def al)
  ultimately show thesis using ks(1) that by (simp add: al)
qed

lemma get_mfree_run:
  assumes get: "can_get n s" "get_kernel_pages (of_nat n) s = Inr (va, s1)" and va: "va \<noteq> 0"
  obtains s' where "mfree_page PF_KERNEL va (of_nat n) s1 = Inr ((), s')" and "vm_ok s'" and "kvaddr_ok s'"
    and "\<forall>x. in_range x \<longrightarrow> mmu s' x = mmu s x"
    and "\<forall>g. is_free s' g \<longleftrightarrow> is_free s1 g \<or> (\<exists>i < n. mmu s1 (page_at va i) = Some g)"
    and "\<forall>g. is_free s' g \<longrightarrow> is_free s g" and "\<forall>g. is_free s g \<and> \<not> is_free s' g \<longrightarrow> (\<exists>i < n. new_table (page_at va i) s s1 g)"
    and "\<forall>j \<le> bitmap_cap (vaddr_bitmap (kernel_vaddr s)).
      used_bit (vaddr_bitmap (kernel_vaddr s')) j = used_bit (vaddr_bitmap (kernel_vaddr s)) j"
  using get(1)
proof (cases rule: get_kernel_pages_run)
  case 1
  then show thesis using get(2) va by simp
next
  case (2 va' fs q t)
  let ?b = "vaddr_bitmap (kernel_vaddr s)"
  have t: "va' = va" "t = s1" using 2(1) get(2) by simp_all
  note r = 2(2-5,7) [unfolded t]
  note taken = 2(9) [unfolded t vrun_taken_def]
  obtain ks where ks: "fs = map (frame_of PF_KERNEL s1) ks" "distinct ks" "\<forall>i < length ks. kpage s1 (page_at va i) (ks ! i)"
    by (rule taken_kpages [OF r(2,5)])
  have len: "length ks = n" using r(1) ks(1) by simp
  have va_q: "va = page_at (vaddr_start (kernel_vaddr s1)) q" using 2(8) taken t by simp
  have cap: "bitmap_cap (vaddr_bitmap (kernel_vaddr s1)) = bitmap_cap ?b" using taken by (simp add: bitmap_cap_def)
  have n: "1 \<le> n" "q + n \<le> Suc (bitmap_cap (vaddr_bitmap (kernel_vaddr s1)))" using get(1) taken cap by (simp_all add: can_get_def)
  have kp: "\<forall>i < n. kpage s1 (page_at (page_at (vaddr_start (kernel_vaddr s1)) q) i) (ks ! i)" using ks(3) len va_q by simp
  from mfree_page_run [OF r(3,4) n len ks(2) kp] obtain s' s2 b where f: "mfree_page PF_KERNEL va (of_nat n) s1 = Inr ((), s')"
      "run_freed va ks s1 s2" "s' = s2\<lparr>kernel_vaddr := (kernel_vaddr s1)\<lparr>vaddr_bitmap := b\<rparr>\<rparr>" "vm_ok s'" "kvaddr_ok s'"
      "btmp_bytes_len b = btmp_bytes_len (vaddr_bitmap (kernel_vaddr s1))"
      "\<forall>j \<le> bitmap_cap b. used_bit b j \<longleftrightarrow> used_bit (vaddr_bitmap (kernel_vaddr s1)) j \<and> \<not> (q \<le> j \<and> j < q + n)"
    unfolding va_q by metis
  have "mmu s' x = mmu s x" if x: "in_range x" for x
  proof (cases "\<exists>i < n. drop_bit 12 x = drop_bit 12 (page_at va i)")
    case True
    then obtain i where i: "i < n" "drop_bit 12 x = drop_bit 12 (page_at va i)" by blast
    have "mmu s' (page_at va i) = None" "mmu s (page_at va i) = None"
      using i(1) f(2,3) r(1,2) len by (simp_all add: run_freed_def fresh_pages_def)
    then show ?thesis using mmu_same_page [OF i(2)] by metis
  next
    case False
    then have "mmu s2 x = mmu s1 x" "mmu s1 x = mmu s x"
      using x f(2) r(1,2) len unfolding run_freed_def fresh_pages_def by metis+
    then show ?thesis using f(3) by simp
  qed
  moreover have "is_free s' g \<longleftrightarrow> is_free s1 g \<or> (\<exists>i < n. mmu s1 (page_at va i) = Some g)" for g
  proof -
    have "is_free s' g \<longleftrightarrow> is_free s1 g \<or> g \<in> frame_of PF_KERNEL s1 ` set ks" using f(2,3) by (simp add: run_freed_def)
    moreover have "g \<in> set fs \<longleftrightarrow> (\<exists>i < n. mmu s1 (page_at va i) = Some g)"
      using r(1,2) by (auto simp: fresh_pages_def in_set_conv_nth)
    ultimately show ?thesis using ks(1) by simp
  qed
  moreover have "is_free s' g \<Longrightarrow> is_free s g" "is_free s g \<Longrightarrow> \<not> is_free s' g \<Longrightarrow> \<exists>i < n. new_table (page_at va i) s s1 g" for g
  proof -
    have "is_free s' g \<longleftrightarrow> is_free s1 g \<or> g \<in> set fs" using f(2,3) ks(1) by (simp add: run_freed_def)
    moreover have "is_free s1 g \<Longrightarrow> is_free s g" using r(5) by (simp add: pages_taken_def)
    moreover have "g \<in> set fs \<Longrightarrow> is_free s g" using r(2) by (auto simp: fresh_pages_def in_set_conv_nth)
    moreover have "is_free s g \<Longrightarrow> \<not> is_free s1 g \<Longrightarrow> g \<in> set fs \<or> (\<exists>i < n. new_table (page_at va i) s s1 g)"
      using r(1,2) by (auto simp: fresh_pages_def tables_grown_def)
    ultimately show "is_free s' g \<Longrightarrow> is_free s g" "is_free s g \<Longrightarrow> \<not> is_free s' g \<Longrightarrow> \<exists>i < n. new_table (page_at va i) s s1 g"
      by blast+
  qed
  moreover have "used_bit (vaddr_bitmap (kernel_vaddr s')) j = used_bit ?b j" if j: "j \<le> bitmap_cap ?b" for j
  proof -
    have "j \<le> bitmap_cap b" using j f(6) cap by (simp add: bitmap_cap_def)
    then show ?thesis using f(3,7) taken j by (auto simp: run_free_def)
  qed
  ultimately show thesis using f(1,4,5) by (intro that) auto
qed

text \<open>
  C6: the pages that \<open>get_kernel_pages\<close> hands out go back with \<open>mfree_page\<close>: every address of the
  kernel's range translates as before the two calls, the map of virtual pages is as before, and so
  are the free frames: no frame is free that was not at the start, and a frame that was free and no
  longer is has become the page table, made by the first call and kept by the code, of one of the
  pages that had none. The frames of the pages themselves are free again, and the invariants hold.
\<close>

theorem get_mfree_roundtrip:
  assumes "can_get n s" and "get_kernel_pages (of_nat n) s = Inr (va, s1)" and "va \<noteq> 0"
  shows "\<exists>s'. mfree_page PF_KERNEL va (of_nat n) s1 = Inr ((), s') \<and> vm_ok s' \<and> kvaddr_ok s' \<and>
    (\<forall>x. in_range x \<longrightarrow> mmu s' x = mmu s x) \<and>
    (\<forall>g. is_free s' g \<longrightarrow> is_free s g) \<and>
    (\<forall>g. is_free s g \<and> \<not> is_free s' g \<longrightarrow> (\<exists>i < n. new_table (page_at va i) s s1 g)) \<and>
    (\<forall>g. is_free s' g \<longleftrightarrow> is_free s1 g \<or> (\<exists>i < n. mmu s1 (page_at va i) = Some g)) \<and>
    (\<forall>j \<le> bitmap_cap (vaddr_bitmap (kernel_vaddr s)).
       used_bit (vaddr_bitmap (kernel_vaddr s')) j = used_bit (vaddr_bitmap (kernel_vaddr s)) j)"
  by (rule get_mfree_run [OF assms]) (intro exI conjI; assumption)

lemma sample_get_page:
  obtains va s1 where "get_kernel_pages 1 sample_mm = Inr (va, s1)" and "va \<noteq> 0"
  using sample_can_get
proof (cases rule: get_kernel_pages_run)
  case 1
  have "run_free (vaddr_bitmap (kernel_vaddr sample_mm)) 0 1" "0 + 1 \<le> bitmap_cap (vaddr_bitmap (kernel_vaddr sample_mm))"
    by (simp_all add: run_free_def sample_mm_def bitmap_cap_def used_bit_def)
  then show thesis using 1(2) by blast
next
  case (2 va fs q s')
  then show thesis using that by (simp add: fresh_pages_def)
qed

theorem get_mfree_roundtrip_witness:
  "\<exists>va s1 s'. get_kernel_pages 1 sample_mm = Inr (va, s1) \<and> mfree_page PF_KERNEL va 1 s1 = Inr ((), s') \<and>
     (\<forall>x. in_range x \<longrightarrow> mmu s' x = mmu sample_mm x) \<and> (\<forall>g. is_free s' g \<longrightarrow> is_free sample_mm g)"
proof -
  obtain va s1 where s1: "get_kernel_pages 1 sample_mm = Inr (va, s1)" "va \<noteq> 0" by (rule sample_get_page)
  obtain s' where "mfree_page PF_KERNEL va 1 s1 = Inr ((), s')" "\<forall>x. in_range x \<longrightarrow> mmu s' x = mmu sample_mm x"
    "\<forall>g. is_free s' g \<longrightarrow> is_free sample_mm g"
    using get_mfree_roundtrip [OF sample_can_get, of va s1, unfolded of_nat_1, OF s1]
    by (elim exE conjE) (rule that; assumption)
  then show ?thesis using s1(1) by (intro exI [of _ va] exI [of _ s1] exI [of _ s'] conjI)
qed

end
