(* ===== verification/Regions.thy ===== *)
theory Regions
  imports Page_Free
begin

text \<open>
  Regions of the kernel's addresses: runs of pages with frames of their own. Taking fresh pages adds
  a region, \<open>mfree_page\<close> takes one away, and the others keep their translation and their contents.
\<close>

section \<open>Regions\<close>

definition region :: "mm \<Rightarrow> u32 \<Rightarrow> nat \<Rightarrow> bool" where
  "region s a n \<longleftrightarrow> 1 \<le> n \<and>
     (\<exists>q. a = page_at (vaddr_start (kernel_vaddr s)) q \<and> q + n \<le> Suc (bitmap_cap (vaddr_bitmap (kernel_vaddr s)))) \<and>
     (\<forall>i < n. \<exists>k. kpage s (page_at a i) k)"

text \<open>The map \<open>R\<close> from the first page of each region to its size: no two pages share a frame.\<close>

definition regions_ok :: "(u32 \<Rightarrow> nat option) \<Rightarrow> mm \<Rightarrow> bool" where
  "regions_ok R s \<longleftrightarrow> vm_ok s \<and> kvaddr_ok s \<and> (\<forall>a n. R a = Some n \<longrightarrow> region s a n) \<and>
     (\<forall>a n i b m j. R a = Some n \<and> i < n \<and> R b = Some m \<and> j < m \<and> mmu s (page_at a i) = mmu s (page_at b j) \<longrightarrow> a = b \<and> i = j)"

text \<open>The pages of the regions translate as before and hold what they held.\<close>

definition regions_kept :: "(u32 \<Rightarrow> nat option) \<Rightarrow> mm \<Rightarrow> mm \<Rightarrow> bool" where
  "regions_kept R s s' \<longleftrightarrow> (\<forall>a n i f. R a = Some n \<and> i < n \<and> mmu s (page_at a i) = Some f \<longrightarrow>
     mmu s' (page_at a i) = Some f \<and> (\<forall>p. frame p = f \<longrightarrow> ram s' p = ram s p))"

lemma region_run:
  assumes ok: "regions_ok R s" and R: "R a = Some n"
  shows "1 \<le> n" and "page_run a n" and "\<And>i. i < n \<Longrightarrow> \<exists>k. kpage s (page_at a i) k"
proof -
  have r: "region s a n" and kv: "kvaddr_ok s" using ok R by (simp_all add: regions_ok_def)
  show n: "1 \<le> n" and "\<And>i. i < n \<Longrightarrow> \<exists>k. kpage s (page_at a i) k" using r by (simp_all add: region_def)
  have "page_run (vaddr_start (kernel_vaddr s)) (Suc (bitmap_cap (vaddr_bitmap (kernel_vaddr s))))"
    using kv by (simp add: kvaddr_ok_def)
  then show "page_run a n" using r n page_run_sub unfolding region_def by metis
qed

lemma region_page:
  assumes ok: "regions_ok R s" and R: "R a = Some n" and i: "i < n"
  shows "in_range (page_at a i)" and "take_bit 12 (page_at a i) = 0"
    and "\<exists>k. k < pool_cap PF_KERNEL s \<and> frame_used PF_KERNEL s k \<and> mmu s (page_at a i) = Some (frame_of PF_KERNEL s k) \<and>
      kpage s (page_at a i) k"
proof -
  note r = region_run [OF ok R]
  show "in_range (page_at a i)" "take_bit 12 (page_at a i) = 0" using page_run_at(1,2) [OF r(2) i] .
  obtain k where k: "kpage s (page_at a i) k" using r(3) [OF i] by blast
  have p: "pools_ok s" using ok by (simp add: regions_ok_def vm_ok_def)
  from k have c: "k < pool_cap PF_KERNEL s" "frame_ref s (frame_of PF_KERNEL s k) \<noteq> 0" by (simp_all add: kpage_def)
  then have "frame_used PF_KERNEL s k" using pools_okD(5) [OF p c(1)] by blast
  with k show "\<exists>k. k < pool_cap PF_KERNEL s \<and> frame_used PF_KERNEL s k \<and> mmu s (page_at a i) = Some (frame_of PF_KERNEL s k) \<and>
      kpage s (page_at a i) k" by (auto simp: kpage_def)
qed

lemma aligned_eqI: "take_bit 12 x = 0 \<Longrightarrow> take_bit 12 y = 0 \<Longrightarrow> drop_bit 12 x = drop_bit 12 y \<Longrightarrow> x = (y :: u32)"
  by (metis bits_ident)

lemma region_pages_differ:
  assumes ok: "regions_ok R s" and a: "R a = Some n" "i < n" and b: "R b = Some m" "j < m"
    and eq: "drop_bit 12 (page_at a i) = drop_bit 12 (page_at b j)"
  shows "a = b" and "i = j"
proof -
  have "page_at a i = page_at b j" using region_page(2) [OF ok a] region_page(2) [OF ok b] eq by (rule aligned_eqI)
  then show "a = b" "i = j" using ok a b unfolding regions_ok_def by metis+
qed

lemma frame_not_free: "pools_ok s \<Longrightarrow> k < pool_cap pf s \<Longrightarrow> frame_used pf s k \<Longrightarrow> \<not> is_free s (frame_of pf s k)"
  using frame_of_eq_iff(2) unfolding is_free_def by metis

section \<open>Taking pages\<close>

lemma regions_add:
  assumes ok: "regions_ok R s" and fr: "fresh_pages va fs s s'" and t: "pages_taken fs s s'" and vm: "vm_ok s'" "kvaddr_ok s'"
    and v: "va = page_at (vaddr_start (kernel_vaddr s)) q" "vrun_taken q (length fs) (kernel_vaddr s) (kernel_vaddr s')"
    and n: "1 \<le> length fs"
  shows "R va = None" and "regions_ok (R(va \<mapsto> length fs)) s'" and "regions_kept R s s'"
proof -
  have pools: "pools_ok s" using ok by (simp add: regions_ok_def vm_ok_def)
  have al: "pools_alike s s'" "refs_kept s s'" "data_kept s s'" using t by (simp_all add: pages_taken_def run_frames_def)
  note fo = alike_frame_of [OF al(1), of PF_KERNEL]
  have new: "mmu s (page_at va i) = None" "mmu s' (page_at va i) = Some (fs ! i)" "is_free s (fs ! i)" if "i < length fs" for i
    using fr that by (simp_all add: fresh_pages_def)
  have old: "mmu s' (page_at a i) = mmu s (page_at a i)" if R: "R a = Some m" "i < m" for a m i
  proof -
    have "drop_bit 12 (page_at a i) \<noteq> drop_bit 12 (page_at va j)" if "j < length fs" for j
      using mmu_same_page [of "page_at a i" "page_at va j" s] new(1) [OF that] region_page(3) [OF ok R] by auto
    then show ?thesis using fr region_page(1) [OF ok R] by (simp add: fresh_pages_def)
  qed
  show "R va = None"
  proof (rule ccontr)
    assume "R va \<noteq> None"
    then obtain m where "R va = Some m" by blast
    moreover have "mmu s va = None" using new(1) [of 0] n by (cases fs) auto
    ultimately show False using region_page(3) [OF ok, of va m 0] region_run(1) [OF ok, of va m] by auto
  qed
  have kp: "kpage s' (page_at a i) k" if R: "R a = Some m" "i < m" and k: "kpage s (page_at a i) k" for a m i k
  proof -
    have c: "k < pool_cap PF_KERNEL s" "frame_ref s (frame_of PF_KERNEL s k) = 1" using k by (simp_all add: kpage_def)
    then have u: "frame_used PF_KERNEL s k" using pools_okD(5) [OF pools c(1)] by simp
    have "data_frame s' (frame_of PF_KERNEL s k)"
      using al(3) k frame_not_free [OF pools c(1) u] by (simp add: data_kept_def kpage_def)
    then show ?thesis using k old [OF R] fo refs_keptD(2) [OF al(2) _ c(1) u] by (simp add: kpage_def pools_alike_def)
  qed
  have start: "vaddr_start (kernel_vaddr s') = vaddr_start (kernel_vaddr s)"
      "bitmap_cap (vaddr_bitmap (kernel_vaddr s')) = bitmap_cap (vaddr_bitmap (kernel_vaddr s))"
    using v(2) by (simp_all add: vrun_taken_def bitmap_cap_def)
  obtain ks where ks: "fs = map (frame_of PF_KERNEL s') ks" "\<forall>i < length ks. kpage s' (page_at va i) (ks ! i)"
    by (rule taken_kpages [OF fr t])
  have "region s' va (length fs)" using n v ks by (auto simp: region_def start vrun_taken_def)
  moreover have "region s' a m" if "R a = Some m" for a m
  proof -
    have "region s a m" using ok that by (simp add: regions_ok_def)
    then show ?thesis using kp [OF that] unfolding region_def start by blast
  qed
  moreover have fresh: "mmu s' (page_at va i) \<noteq> mmu s' (page_at a j)" if i: "i < length fs" and R: "R a = Some m" "j < m" for a m i j
  proof -
    obtain k where k: "k < pool_cap PF_KERNEL s" "frame_used PF_KERNEL s k" "mmu s (page_at a j) = Some (frame_of PF_KERNEL s k)"
      using region_page(3) [OF ok R] by blast
    then show ?thesis using old [OF R] new(2,3) [OF \<open>i < length fs\<close>] frame_not_free [OF pools k(1,2)] by auto
  qed
  moreover have "i = j" if "i < length fs" "j < length fs" "mmu s' (page_at va i) = mmu s' (page_at va j)" for i j
    using that new(2) [OF \<open>i < length fs\<close>] new(2) [OF \<open>j < length fs\<close>] fr nth_eq_iff_index_eq [of fs i j] by (simp add: fresh_pages_def)
  moreover have "a = b \<and> i = j" if "R a = Some m" "i < m" "R b = Some l" "j < l" "mmu s' (page_at a i) = mmu s' (page_at b j)"
    for a b m l i j
    using that old ok unfolding regions_ok_def by metis
  ultimately show "regions_ok (R(va \<mapsto> length fs)) s'"
    using vm unfolding regions_ok_def by (simp split: if_splits) metis
  show "regions_kept R s s'"
    unfolding regions_kept_def
  proof (intro allI impI, elim conjE)
    fix a m i f assume R: "R a = Some m" "i < m" "mmu s (page_at a i) = Some f"
    obtain k where "k < pool_cap PF_KERNEL s" "frame_used PF_KERNEL s k" "f = frame_of PF_KERNEL s k" "data_frame s f"
      using region_page(3) [OF ok R(1,2)] R(3) by (auto simp: kpage_def)
    then have "data_frame s f" "\<not> is_free s f" using frame_not_free [OF pools] by simp_all
    then show "mmu s' (page_at a i) = Some f \<and> (\<forall>p. frame p = f \<longrightarrow> ram s' p = ram s p)"
      using old [OF R(1,2)] R(3) al(3) by (simp add: data_kept_def)
  qed
qed

section \<open>Giving pages back\<close>

text \<open>The \<open>n\<close> pages at \<open>a\<close> are not mapped, and free in the map of virtual pages.\<close>

definition free_vpage :: "virtual_addr \<Rightarrow> u32 \<Rightarrow> bool" where
  "free_vpage v x \<longleftrightarrow>
     (\<exists>j \<le> bitmap_cap (vaddr_bitmap v). x = page_at (vaddr_start v) j \<and> \<not> used_bit (vaddr_bitmap v) j)"

definition pages_back :: "mm \<Rightarrow> u32 \<Rightarrow> nat \<Rightarrow> bool" where
  "pages_back s a n \<longleftrightarrow> (\<forall>i < n. mmu s (page_at a i) = None \<and> free_vpage (kernel_vaddr s) (page_at a i))"

lemma regions_remove:
  assumes ok: "regions_ok R s" and R: "R a = Some n"
  obtains s' where "mfree_page PF_KERNEL a (of_nat n) s = Inr ((), s')" and "regions_ok (R(a := None)) s'"
    and "regions_kept (R(a := None)) s s'" and "\<forall>g. is_free s' g \<longleftrightarrow> is_free s g \<or> (\<exists>i < n. mmu s (page_at a i) = Some g)"
    and "pools_alike s s'" and "vaddr_start (kernel_vaddr s') = vaddr_start (kernel_vaddr s)" and "pgdir s' = pgdir s" and "k_block_descs s' = k_block_descs s" and "arenas s' = arenas s"
    and "pages_back s' a n"
proof -
  have vm: "vm_ok s" "kvaddr_ok s" using ok by (simp_all add: regions_ok_def)
  have pools: "pools_ok s" using vm by (simp add: vm_ok_def)
  note r = region_run [OF ok R]
  obtain q where q: "a = page_at (vaddr_start (kernel_vaddr s)) q" "q + n \<le> Suc (bitmap_cap (vaddr_bitmap (kernel_vaddr s)))"
    using ok R unfolding regions_ok_def region_def by blast
  obtain f where f: "\<forall>i < n. kpage s (page_at a i) (f i)" using r(3) by metis
  define ks where "ks = map f [0..<n]"
  have len: "length ks = n" and kp: "\<forall>i < n. kpage s (page_at a i) (ks ! i)" using f by (simp_all add: ks_def)
  have "distinct ks"
    unfolding ks_def distinct_map
  proof (intro conjI inj_onI)
    fix i j assume "i \<in> set [0..<n]" "j \<in> set [0..<n]" and eq: "f i = f j"
    then have ij: "i < n" "j < n" by simp_all
    then have "mmu s (page_at a i) = mmu s (page_at a j)" using f eq unfolding kpage_def by metis
    then show "i = j" using ok R ij unfolding regions_ok_def by blast
  qed simp
  obtain s' s1 b where s': "mfree_page PF_KERNEL a (of_nat n) s = Inr ((), s')" "run_freed a ks s s1"
      "s' = s1\<lparr>kernel_vaddr := (kernel_vaddr s)\<lparr>vaddr_bitmap := b\<rparr>\<rparr>" "vm_ok s'" "kvaddr_ok s'"
      "btmp_bytes_len b = btmp_bytes_len (vaddr_bitmap (kernel_vaddr s))"
      "\<forall>j \<le> bitmap_cap b. used_bit b j \<longleftrightarrow> used_bit (vaddr_bitmap (kernel_vaddr s)) j \<and> \<not> (q \<le> j \<and> j < q + n)"
    by (rule mfree_page_run [OF vm r(1) q(2) len \<open>distinct ks\<close> kp [unfolded q(1)], folded q(1)]) (rule that; assumption)
  have md: "memory_differs s s1" "pools_alike s s1" "data_frame s1 = data_frame s"
    using s'(2) by (simp_all add: run_freed_def)
  note fo = alike_frame_of [OF md(2), of PF_KERNEL]
  have old: "mmu s' (page_at b i) = mmu s (page_at b i)" if "R b = Some m" "i < m" "b \<noteq> a" for b m i
  proof -
    have "drop_bit 12 (page_at b i) \<noteq> drop_bit 12 (page_at a j)" if "j < n" for j
      using region_pages_differ(1) [OF ok \<open>R b = Some m\<close> \<open>i < m\<close> R that] \<open>b \<noteq> a\<close> by blast
    then show ?thesis using s'(2,3) len region_page(1) [OF ok that(1,2)] by (simp add: run_freed_def)
  qed
  have kp': "kpage s' (page_at b i) k" if "R b = Some m" "i < m" "b \<noteq> a" "kpage s (page_at b i) k" for b m i k
  proof -
    have "k \<notin> set ks"
    proof
      assume "k \<in> set ks"
      then obtain j where "j < n" "ks ! j = k" using len by (auto simp: in_set_conv_nth)
      then have "mmu s (page_at b i) = mmu s (page_at a j)" using kp that(4) unfolding kpage_def by metis
      then show False using ok R that \<open>j < n\<close> unfolding regions_ok_def by blast
    qed
    then show ?thesis using that(4) old [OF that(1-3)] s'(2,3) fo md(3) by (simp add: kpage_def run_freed_def)
  qed
  have start: "vaddr_start (kernel_vaddr s') = vaddr_start (kernel_vaddr s)"
      "bitmap_cap (vaddr_bitmap (kernel_vaddr s')) = bitmap_cap (vaddr_bitmap (kernel_vaddr s))"
    using s'(3,6) by (simp_all add: bitmap_cap_def)
  have "region s' b m" if "R b = Some m" "b \<noteq> a" for b m
  proof -
    have "region s b m" using ok that by (simp add: regions_ok_def)
    then show ?thesis using kp' [OF that(1) _ that(2)] unfolding region_def start by blast
  qed
  moreover have "b = c \<and> i = j" if "R b = Some m" "i < m" "b \<noteq> a" "R c = Some l" "j < l" "c \<noteq> a" "mmu s' (page_at b i) = mmu s' (page_at c j)"
    for b c m l i j
    using that old ok unfolding regions_ok_def by metis
  ultimately have "regions_ok (R(a := None)) s'" using s'(4,5) unfolding regions_ok_def by (simp split: if_splits) metis
  moreover have "regions_kept (R(a := None)) s s'"
    unfolding regions_kept_def
  proof (intro allI impI, elim conjE)
    fix b m i f assume R': "(R(a := None)) b = Some m" "i < m" "mmu s (page_at b i) = Some f"
    then have Rb: "R b = Some m" "b \<noteq> a" by (auto split: if_splits)
    then have "data_frame s f" using region_page(3) [OF ok Rb(1) R'(2)] R'(3) by (auto simp: kpage_def)
    then show "mmu s' (page_at b i) = Some f \<and> (\<forall>p. frame p = f \<longrightarrow> ram s' p = ram s p)"
      using old [OF Rb(1) R'(2) Rb(2)] R'(3) s'(2,3) by (simp add: run_freed_def)
  qed
  moreover have "is_free s' g \<longleftrightarrow> is_free s g \<or> (\<exists>i < n. mmu s (page_at a i) = Some g)" for g
  proof -
    have "g \<in> frame_of PF_KERNEL s ` set ks \<longleftrightarrow> (\<exists>i < n. mmu s (page_at a i) = Some g)"
    proof -
      have "g \<in> frame_of PF_KERNEL s ` set ks \<longleftrightarrow> (\<exists>i < n. g = frame_of PF_KERNEL s (ks ! i))"
        using len by (simp only: image_iff in_set_conv_nth Bex_def) blast
      then show ?thesis using kp by (auto simp: kpage_def)
    qed
    then show ?thesis using s'(2,3) by (simp add: run_freed_def)
  qed
  moreover have "pools_alike s s'" using md(2) s'(3) by (simp add: pools_alike_def the_pool_with_mutex)
  moreover have "pages_back s' a n"
    unfolding pages_back_def free_vpage_def
  proof (intro allI impI conjI)
    fix i assume i: "i < n"
    show "mmu s' (page_at a i) = None" using i s'(2,3) len by (simp add: run_freed_def)
    have "q + i \<le> bitmap_cap b" using i q(2) s'(6) by (simp add: bitmap_cap_def)
    then show "\<exists>j \<le> bitmap_cap (vaddr_bitmap (kernel_vaddr s')). page_at a i = page_at (vaddr_start (kernel_vaddr s')) j \<and>
        \<not> used_bit (vaddr_bitmap (kernel_vaddr s')) j"
      using i s'(3,7) q(1) by (intro exI [of _ "q + i"]) (simp add: page_at_add)
  qed
  ultimately show thesis using that s'(1,3) md(1) start(1) by (simp add: memory_differs_def)
qed

section \<open>Writing inside a region\<close>

lemma mmu_in_page:
  assumes m: "mmu s pg = Some f" "take_bit 12 pg = 0" and x: "drop_bit 12 x = drop_bit 12 pg"
  shows "mmu s x = Some (f + take_bit 12 x)"
proof -
  have "drop_bit 22 z = drop_bit 10 (drop_bit 12 z)" for z :: u32 by (simp add: drop_bit_drop_bit)
  then have "drop_bit 22 x = drop_bit 22 pg" using x by metis
  then have "pd_addr s x = pd_addr s pg" "pt_addr s x = pt_addr s pg" using x by (simp_all add: pd_addr_def pt_addr_def)
  then show ?thesis using m by (auto simp: mmu_def split: if_splits)
qed

lemma regions_write:
  assumes ok: "regions_ok R s" and f: "data_frame s f" and r: "\<forall>a. frame a \<noteq> f \<longrightarrow> r a = ram s a"
  shows "regions_ok R (s\<lparr>ram := r\<rparr>)" and "in_range x \<Longrightarrow> mmu (s\<lparr>ram := r\<rparr>) x = mmu s x"
proof -
  let ?s = "s\<lparr>ram := r\<rparr>"
  have vm: "vm_ok s" "kvaddr_ok s" using ok by (simp_all add: regions_ok_def)
  show m: "in_range x \<Longrightarrow> mmu ?s x = mmu s x" for x using data_write(3) [OF f r] by (simp add: in_range_def)
  have fo: "frame_of qf ?s = frame_of qf s" for qf by (rule frame_of_cong) simp
  have kp: "kpage ?s x k = kpage s x k" if "in_range x" for x k
    using m [OF that] data_write_ok(2) [OF f r vm(1)] fo by (simp add: kpage_def)
  have "kvaddr_ok ?s" by (rule kvaddr_ok_cong [OF vm(2) _ m]) simp
  moreover have "region ?s a n" if "R a = Some n" for a n
  proof -
    have "region s a n" using ok that by (simp add: regions_ok_def)
    then show ?thesis using kp region_page(1) [OF ok that] by (auto simp: region_def)
  qed
  moreover have "mmu ?s (page_at a i) = mmu s (page_at a i)" if "R a = Some n" "i < n" for a n i
    using m region_page(1) [OF ok that] by simp
  ultimately show "regions_ok R ?s" using ok data_write_ok(1) [OF f r vm(1)] unfolding regions_ok_def by metis
qed

section \<open>Bytes of a region\<close>

lemma page_byte:
  assumes run: "page_run a n" and o: "o' < 4096 * n"
  shows "drop_bit 12 (a + of_nat o') = drop_bit 12 (page_at a (o' div 4096))" and "take_bit 12 (a + of_nat o') = of_nat (o' mod 4096)"
    and "unat (a + of_nat o') = unat a + o'"
proof -
  have i: "o' div 4096 < n" using o by (simp add: less_mult_imp_div_less mult.commute)
  have m: "unat a mod 4096 = 0" "unat a + 4096 * n \<le> 0xFFC00000" using run by (simp_all add: page_run_def)
  then show u: "unat (a + of_nat o') = unat a + o'" using o by (subst unat_add_u32) (simp_all add: unat_of_nat_u32)
  have "unat (drop_bit 12 (a + of_nat o')) = unat a div 4096 + o' div 4096"
    using m(1) by (simp add: drop_bit_eq_div unat_div_numeral u div_plus_div_distrib_dvd_left mod_eq_0_iff_dvd)
  then show "drop_bit 12 (a + of_nat o') = drop_bit 12 (page_at a (o' div 4096))"
    using page_run_at(3) [OF run i] by (metis u32_eqI)
  have "unat (take_bit 12 (a + of_nat o')) = o' mod 4096" using m(1) by (simp add: unat_offset u mod_add_left_eq [symmetric, of "unat a"])
  then show "take_bit 12 (a + of_nat o') = of_nat (o' mod 4096)" by (metis of_nat_unat_u32)
qed

lemma region_byte:
  assumes ok: "regions_ok R s" and R: "R a = Some n" and o: "o' < 4096 * n"
  obtains f where "mmu s (page_at a (o' div 4096)) = Some f" and "frame f = f" and "data_frame s f"
    and "mmu s (a + of_nat o') = Some (f + of_nat (o' mod 4096))" and "frame (f + of_nat (o' mod 4096)) = f"
proof -
  have i: "o' div 4096 < n" using o by (simp add: less_mult_imp_div_less mult.commute)
  have pools: "pools_ok s" using ok by (simp add: regions_ok_def vm_ok_def)
  obtain k where k: "k < pool_cap PF_KERNEL s" "mmu s (page_at a (o' div 4096)) = Some (frame_of PF_KERNEL s k)" "data_frame s (frame_of PF_KERNEL s k)"
    using region_page(3) [OF ok R i] by (auto simp: kpage_def)
  note f = frame_of_frame(1) [OF pools k(1)]
  note pb = page_byte [OF region_run(2) [OF ok R] o]
  have "mmu s (a + of_nat o') = Some (frame_of PF_KERNEL s k + of_nat (o' mod 4096))"
    using mmu_in_page [OF k(2) region_page(2) [OF ok R i] pb(1)] pb(2) by simp
  moreover have "frame (frame_of PF_KERNEL s k + of_nat (o' mod 4096)) = frame_of PF_KERNEL s k"
    using frame_add_offset [of "of_nat (o' mod 4096)" "frame_of PF_KERNEL s k"] f by (simp add: unat_of_nat_u32)
  ultimately show thesis using that k(2,3) f by blast
qed

lemma region_byte_inj:
  assumes ok: "regions_ok R s" and a: "R a = Some n" "x < 4096 * n" and b: "R b = Some m" "y < 4096 * m"
    and eq: "mmu s (a + of_nat x) = mmu s (b + of_nat y)"
  shows "a = b" and "x = y"
proof -
  obtain f where f: "mmu s (page_at a (x div 4096)) = Some f" "frame f = f" "mmu s (a + of_nat x) = Some (f + of_nat (x mod 4096))"
      "frame (f + of_nat (x mod 4096)) = f" by (rule region_byte [OF ok a])
  obtain g where g: "mmu s (page_at b (y div 4096)) = Some g" "frame g = g" "mmu s (b + of_nat y) = Some (g + of_nat (y mod 4096))"
      "frame (g + of_nat (y mod 4096)) = g" by (rule region_byte [OF ok b])
  have s: "f + of_nat (x mod 4096) = g + of_nat (y mod 4096)" using f(3) g(3) eq by simp
  then have fg: "f = g" using f(4) g(4) by metis
  then have "(of_nat (x mod 4096) :: u32) = of_nat (y mod 4096)" using s by simp
  then have "unat (of_nat (x mod 4096) :: u32) = unat (of_nat (y mod 4096) :: u32)" by (rule arg_cong)
  then have m: "x mod 4096 = y mod 4096" by (simp add: unat_of_nat_u32)
  have "x div 4096 < n" "y div 4096 < m" using a b by (simp_all add: less_mult_imp_div_less mult.commute)
  then have "a = b \<and> x div 4096 = y div 4096" using ok a(1) b(1) f(1) g(1) fg unfolding regions_ok_def by metis
  then show "a = b" "x = y" using m by (auto, metis div_mult_mod_eq)
qed

lemma region_byte_kept:
  assumes ok: "regions_ok R s" "regions_ok R' s'" and kept: "regions_kept R s s'" and R: "R a = Some n" "R' a = Some n" and o: "o' < 4096 * n"
  obtains pa where "mmu s (a + of_nat o') = Some pa" and "mmu s' (a + of_nat o') = Some pa" and "ram s' pa = ram s pa"
proof -
  have i: "o' div 4096 < n" using o by (simp add: less_mult_imp_div_less mult.commute)
  obtain f where f: "mmu s (page_at a (o' div 4096)) = Some f" "mmu s (a + of_nat o') = Some (f + of_nat (o' mod 4096))"
      "frame (f + of_nat (o' mod 4096)) = f" by (rule region_byte [OF ok(1) R(1) o])
  have k: "mmu s' (page_at a (o' div 4096)) = Some f" "\<forall>p. frame p = f \<longrightarrow> ram s' p = ram s p"
    using kept R(1) i f(1) unfolding regions_kept_def by blast+
  obtain g where "mmu s' (page_at a (o' div 4096)) = Some g" "mmu s' (a + of_nat o') = Some (g + of_nat (o' mod 4096))"
    by (rule region_byte [OF ok(2) R(2) o])
  then show thesis using that f k by simp
qed

end
