(* ===== verification/Heap_Inv.thy ===== *)
theory Heap_Inv
  imports Heap Regions
begin

text \<open>
  The invariant of the kernel's heap: every arena has a region of its own, the free blocks of a
  size are linked in the queue of its descriptor, and an arena counts its free blocks. From it, the
  blocks that are handed out never overlap.
\<close>

section \<open>Sizes\<close>

definition blk_size :: "nat \<Rightarrow> nat" where
  "blk_size i = 16 * 2 ^ i"

definition blk_cnt :: "nat \<Rightarrow> nat" where
  "blk_cnt i = 4084 div blk_size i"

lemma below_7: "i < 7 \<longleftrightarrow> i \<in> {0, 1, 2, 3, 4, 5, 6 :: nat}"
  by auto

lemma blk_bounds:
  assumes "i < 7"
  shows "16 \<le> blk_size i" and "blk_size i \<le> 1024" and "3 \<le> blk_cnt i" and "blk_cnt i \<le> 255" and "12 + blk_cnt i * blk_size i \<le> 4096"
  using assms unfolding below_7 by (auto simp: blk_size_def blk_cnt_def)

lemma block_byte:
  assumes "i < 7" and "j < blk_cnt i" and "x < blk_size i"
  shows "12 + j * blk_size i + x < 4096"
proof -
  have "Suc j * blk_size i \<le> blk_cnt i * blk_size i" using assms(2) by (intro mult_le_mono) simp_all
  then show ?thesis using blk_bounds(5) [OF assms(1)] assms(3) by simp
qed

definition block_at :: "u32 \<Rightarrow> nat \<Rightarrow> nat \<Rightarrow> u32" where
  "block_at a i j = a + of_nat (12 + j * blk_size i)"

lemma arena2block_at: "arena2block (of_nat (blk_size i)) a (of_nat j) = block_at a i j"
  by (simp add: arena2block_def arena_bytes_def block_at_def)

lemma block_at_eq_iff:
  assumes "page_run a n" "1 \<le> n" and "i < 7" "j < blk_cnt i" "k < blk_cnt i"
  shows "block_at a i j = block_at a i k \<longleftrightarrow> j = k"
proof
  assume eq: "block_at a i j = block_at a i k"
  have "x < blk_cnt i \<Longrightarrow> unat (block_at a i x) = unat a + (12 + x * blk_size i)" for x
    unfolding block_at_def using page_byte(3) [OF assms(1)] block_byte [OF assms(3), of x 0] blk_bounds(1) [OF assms(3)] assms(2)
    by (intro page_byte(3) [OF assms(1)]) simp
  then have "j * blk_size i = k * blk_size i" using assms(4,5) eq by (metis add_left_cancel)
  then show "j = k" using blk_bounds(1) [OF assms(3)] by simp
qed simp

lemma block2arena_at:
  assumes "page_run a n" and "o' < 4096" "1 \<le> n"
  shows "block2arena (a + of_nat o') = a"
proof -
  have p: "take_bit 12 a = 0" using page_run_at(2) [OF assms(1), of 0] assms(3) by simp
  have d: "drop_bit 12 (a + of_nat o') = drop_bit 12 a" using page_byte(1) [OF assms(1), of o'] assms(2,3) by simp
  have "frame (a + of_nat o') = frame a" by (simp add: frame_bits d)
  moreover have "a = frame a + take_bit 12 a" using bits_ident [of 12 a] by (simp add: frame_bits)
  ultimately show ?thesis using p by (simp add: block2arena_def frame_def)
qed

section \<open>The invariant\<close>

text \<open>The regions of the heap.\<close>

definition heap_map :: "mm \<Rightarrow> u32 \<Rightarrow> nat option" where
  "heap_map s a = map_option (\<lambda>ar. if desc ar = None then unat (free_cnt ar) else 1) (arenas s a)"

definition free_queue :: "mm \<Rightarrow> nat \<Rightarrow> u32 list" where
  "free_queue s i = free_list (k_block_descs s ! i)"

definition descs_ok :: "mm \<Rightarrow> bool" where
  "descs_ok s \<longleftrightarrow> length (k_block_descs s) = 7 \<and> (\<forall>i < 7. block_size (k_block_descs s ! i) = of_nat (blk_size i) \<and>
     blocks_per_arena (k_block_descs s ! i) = of_nat (blk_cnt i))"

definition free_blocks :: "mm \<Rightarrow> u32 \<Rightarrow> nat \<Rightarrow> nat set" where
  "free_blocks s a i = {j. j < blk_cnt i \<and> block_at a i j \<in> set (free_queue s i)}"

text \<open>The arenas of \<open>F\<close> may have no block in use.\<close>

definition arena_ok :: "u32 set \<Rightarrow> mm \<Rightarrow> u32 \<Rightarrow> arena \<Rightarrow> bool" where
  "arena_ok F s a ar \<longleftrightarrow> desc ar = None \<and> large ar = 1 \<or>
     (\<exists>i < 7. desc ar = Some (K_desc i) \<and> large ar = 0 \<and> free_cnt ar = of_nat (card (free_blocks s a i)) \<and>
        (a \<in> F \<or> card (free_blocks s a i) < blk_cnt i))"

definition heap_inv :: "u32 set \<Rightarrow> mm \<Rightarrow> bool" where
  "heap_inv F s \<longleftrightarrow>
     regions_ok (heap_map s) s \<and> pgdir s = 0 \<and> descs_ok s \<and> K_HEAP_START \<le> vaddr_start (kernel_vaddr s) \<and>
     (\<forall>a ar. arenas s a = Some ar \<longrightarrow> arena_ok F s a ar) \<and>
     (\<forall>i < 7. distinct (free_queue s i) \<and> (\<forall>b \<in> set (free_queue s i). \<exists>a ar j.
        arenas s a = Some ar \<and> desc ar = Some (K_desc i) \<and> j < blk_cnt i \<and> b = block_at a i j))"

abbreviation heap_ok :: "mm \<Rightarrow> bool" where
  "heap_ok \<equiv> heap_inv {}"

text \<open>The blocks in use: the arena, the offset in it, and the number of bytes.\<close>

definition in_use :: "mm \<Rightarrow> u32 \<Rightarrow> nat \<Rightarrow> nat \<Rightarrow> bool" where
  "in_use s a off l \<longleftrightarrow> (\<exists>ar. arenas s a = Some ar \<and>
     ((\<exists>i j. i < 7 \<and> desc ar = Some (K_desc i) \<and> j < blk_cnt i \<and> block_at a i j \<notin> set (free_queue s i) \<and>
        off = 12 + j * blk_size i \<and> l = blk_size i) \<or>
      desc ar = None \<and> off = 12 \<and> l = 4096 * unat (free_cnt ar) - 12))"

definition blocks :: "mm \<Rightarrow> (u32 \<times> nat) set" where
  "blocks s = {(b, l). \<exists>a off. in_use s a off l \<and> b = a + of_nat off}"

lemma in_use_cong:
  assumes "arenas t b = arenas s b"
    and "\<And>ar k x. arenas s b = Some ar \<Longrightarrow> desc ar = Some (K_desc k) \<Longrightarrow> x < blk_cnt k \<Longrightarrow>
      block_at b k x \<in> set (free_queue t k) \<longleftrightarrow> block_at b k x \<in> set (free_queue s k)"
  shows "in_use t b off l = in_use s b off l"
  using assms(2) unfolding in_use_def assms(1) by (simp cong: conj_cong)

lemma in_use_region:
  assumes inv: "heap_inv F s" and u: "in_use s a off l"
  obtains n where "heap_map s a = Some n" and "off + l \<le> 4096 * n" and "12 \<le> off" and "1 \<le> l"
proof -
  obtain ar where ar: "arenas s a = Some ar" "(\<exists>i j. i < 7 \<and> desc ar = Some (K_desc i) \<and> j < blk_cnt i \<and>
        off = 12 + j * blk_size i \<and> l = blk_size i) \<or> desc ar = None \<and> off = 12 \<and> l = 4096 * unat (free_cnt ar) - 12"
    using u unfolding in_use_def by blast
  have ok: "regions_ok (heap_map s) s" using inv by (simp add: heap_inv_def)
  from ar(2) show thesis
  proof (elim disjE exE conjE)
    fix i j assume h: "i < 7" "desc ar = Some (K_desc i)" "j < blk_cnt i" "off = 12 + j * blk_size i" "l = blk_size i"
    have "off + l \<le> 4096 * 1" "1 \<le> l"
      using block_byte [OF h(1,3), of "blk_size i - 1"] blk_bounds(1) [OF h(1)] h(4,5) by simp_all
    then show thesis using that [of 1] ar(1) h(2,4) by (simp add: heap_map_def)
  next
    assume h: "desc ar = None" "off = 12" "l = 4096 * unat (free_cnt ar) - 12"
    then have m: "heap_map s a = Some (unat (free_cnt ar))" using ar(1) by (simp add: heap_map_def)
    then show thesis using that [OF m] region_run(1) [OF ok m] h by simp
  qed
qed

text \<open>Different bytes of blocks in use are different bytes of memory.\<close>

lemma in_use_inj:
  assumes inv: "heap_inv F s" and u: "in_use s a off l" "x < l" and v: "in_use s b off' l'" "y < l'"
    and eq: "mmu s (a + of_nat (off + x)) = mmu s (b + of_nat (off' + y))"
  shows "a = b" and "off = off'" and "l = l'" and "x = y"
proof -
  have ok: "regions_ok (heap_map s) s" using inv by (simp add: heap_inv_def)
  obtain n where n: "heap_map s a = Some n" "off + l \<le> 4096 * n" using in_use_region [OF inv u(1)] by blast
  obtain m where m: "heap_map s b = Some m" "off' + l' \<le> 4096 * m" using in_use_region [OF inv v(1)] by blast
  have "off + x < 4096 * n" "off' + y < 4096 * m" using n m u v by simp_all
  from region_byte_inj [OF ok n(1) this(1) m(1) this(2) eq] have ab: "a = b" "off + x = off' + y" by auto
  have "off = off' \<and> l = l'"
  proof -
    obtain ar where ar: "arenas s a = Some ar" using u(1) unfolding in_use_def by blast
    show ?thesis
    proof (cases "desc ar")
      case None
      then show ?thesis using u(1) v(1) ar ab(1) by (auto simp: in_use_def)
    next
      case (Some r)
      then obtain i j k where h: "i < 7" "r = K_desc i" "off = 12 + j * blk_size i" "l = blk_size i"
          "off' = 12 + k * blk_size i" "l' = blk_size i"
        using u(1) v(1) ar ab(1) by (auto simp: in_use_def)
      have "(j * blk_size i + x) div blk_size i = j" "(k * blk_size i + y) div blk_size i = k" using h u(2) v(2) by simp_all
      moreover have "j * blk_size i + x = k * blk_size i + y" using ab(2) h by simp
      ultimately show ?thesis using h by simp
    qed
  qed
  then show "a = b" "off = off'" "l = l'" "x = y" using ab by simp_all
qed

end
