(* ===== verification/Malloc.thy ===== *)
theory Malloc
  imports Heap_Inv
begin

text \<open>\<open>sys_malloc\<close> of a kernel thread.\<close>

section \<open>Queues\<close>

definition with_queue :: "nat \<Rightarrow> u32 list \<Rightarrow> mm \<Rightarrow> mm" where
  "with_queue i l s = s\<lparr>k_block_descs := (k_block_descs s)[i := (k_block_descs s ! i)\<lparr>free_list := l\<rparr>]\<rparr>"

lemma get_desc_run: "descs_ok s \<Longrightarrow> i < 7 \<Longrightarrow> get_desc (K_desc i) s = Inr (k_block_descs s ! i, s)"
  by (simp add: descs_ok_def)

lemma bnd_set_free_list: "bnd (set_free_list (K_desc i) l) g s = g () (with_queue i l s)"
  by (simp add: with_queue_def)

declare get_desc.simps [simp del] set_free_list.simps [simp del]

lemma bnd_get_arena: "arenas s a = Some ar \<Longrightarrow> bnd (get_arena a) g s = g ar s"
  by (simp add: get_arena_def bnd_Inr)

lemma bnd_set_arena: "bnd (set_arena a ar) g s = g () (s\<lparr>arenas := (arenas s)(a := ar)\<rparr>)"
  by (simp add: set_arena_def)

lemma bnd_get_desc: "descs_ok s \<Longrightarrow> i < 7 \<Longrightarrow> bnd (get_desc (K_desc i)) g s = g (k_block_descs s ! i) s"
  by (simp add: bnd_Inr get_desc_run)

lemma with_queue_fields [simp]:
  "ram (with_queue i l s) = ram s" "arenas (with_queue i l s) = arenas s" "pgdir (with_queue i l s) = pgdir s"
  "kernel_vaddr (with_queue i l s) = kernel_vaddr s" "kernel_pool (with_queue i l s) = kernel_pool s"
  "heap_map (with_queue i l s) = heap_map s" "mmu (with_queue i l s) = mmu s"
proof -
  show "mmu (with_queue i l s) = mmu s" by (rule same_tables) (simp_all add: with_queue_def)
qed (simp_all add: with_queue_def heap_map_def fun_eq_iff)

lemma with_queue_descs [simp]:
  "descs_ok s \<Longrightarrow> i < 7 \<Longrightarrow> descs_ok (with_queue i l s)"
  "descs_ok s \<Longrightarrow> i < 7 \<Longrightarrow> k < 7 \<Longrightarrow> free_queue (with_queue i l s) k = (if k = i then l else free_queue s k)"
  "descs_ok s \<Longrightarrow> i < 7 \<Longrightarrow> block_size (k_block_descs (with_queue i l s) ! i) = of_nat (blk_size i)"
  "descs_ok s \<Longrightarrow> i < 7 \<Longrightarrow> blocks_per_arena (k_block_descs (with_queue i l s) ! i) = of_nat (blk_cnt i)"
  "descs_ok s \<Longrightarrow> i < 7 \<Longrightarrow> with_queue i l (with_queue i l' s) = with_queue i l s"
  by (auto simp: descs_ok_def with_queue_def free_queue_def nth_list_update)

text \<open>States with the same memory, page tables, pools and virtual pages have the same regions.\<close>

lemma regions_ok_cong:
  assumes "ram s' = ram s" "cr3 s' = cr3 s" "kernel_pool s' = kernel_pool s" "user_pool s' = user_pool s" "mem s' = mem s"
    "kernel_vaddr s' = kernel_vaddr s"
  shows "regions_ok R s' = regions_ok R s" and "mmu s' = mmu s" and "is_free s' = is_free s" and "data_frame s' = data_frame s"
    and "room pf n s' = room pf n s" and "vm_ok s' = vm_ok s" and "kvaddr_ok s' = kvaddr_ok s"
proof -
  have pool: "the_pool qf s' = the_pool qf s" for qf using assms by (cases qf) simp_all
  have f: "pool_cap qf s' = pool_cap qf s" "pool_base qf s' = pool_base qf s" "frame_used qf s' = frame_used qf s"
    "frame_ref s' = frame_ref s" "frame_of qf s' = frame_of qf s" for qf
    by (simp_all add: pool_cap_def pool_base_def frame_used_def frame_ref_def frame_of_def pool assms fun_eq_iff)
  show free: "is_free s' = is_free s" by (simp add: is_free_def f fun_eq_iff)
  note t = same_tables [OF assms(1,2)]
  show m: "mmu s' = mmu s" by (rule t)
  show d: "data_frame s' = data_frame s" by (simp add: data_frame_def fun_eq_iff t assms)
  have "pools_ok s' = pools_ok s" unfolding pools_ok_def f using assms by simp
  then show vm: "vm_ok s' = vm_ok s" by (simp add: vm_ok_def tables_ok_def private_tables_def t free assms)
  show kv: "kvaddr_ok s' = kvaddr_ok s" by (simp add: kvaddr_ok_def m assms)
  show "room pf n s' = room pf n s" by (simp add: room_def free_frames_def f)
  have "kpage s' = kpage s" by (simp add: kpage_def fun_eq_iff f m d)
  then have "region s' = region s" by (simp add: region_def fun_eq_iff assms)
  then show "regions_ok R s' = regions_ok R s" by (simp add: regions_ok_def vm kv m)
qed

lemma regions_ok_queue [simp]: "regions_ok R (with_queue i l s) = regions_ok R s" "regions_ok R (s\<lparr>arenas := ar\<rparr>) = regions_ok R s"
  "regions_ok R (with_mutex n s) = regions_ok R s"
proof -
  show "regions_ok R (with_queue i l s) = regions_ok R s" by (rule regions_ok_cong) (simp_all add: with_queue_def)
  show "regions_ok R (s\<lparr>arenas := ar\<rparr>) = regions_ok R s" by (rule regions_ok_cong) simp_all
  have "kpage (with_mutex n s) = kpage s" by (simp add: kpage_def fun_eq_iff)
  then have "region (with_mutex n s) = region s" by (simp add: region_def fun_eq_iff)
  then show "regions_ok R (with_mutex n s) = regions_ok R s" by (simp add: regions_ok_def)
qed

section \<open>Handing out a block\<close>

lemma arena_okD:
  assumes "arena_ok F s a ar" and "desc ar = Some (K_desc i)"
  shows "i < 7" and "large ar = 0" and "free_cnt ar = of_nat (card (free_blocks s a i))"
    and "a \<in> F \<or> card (free_blocks s a i) < blk_cnt i"
  using assms by (auto simp: arena_ok_def)

lemma free_blocks_bounds: "finite (free_blocks s a i)" "card (free_blocks s a i) \<le> blk_cnt i"
proof -
  have sub: "free_blocks s a i \<subseteq> {..< blk_cnt i}" by (auto simp: free_blocks_def)
  then show "finite (free_blocks s a i)" using finite_subset by blast
  show "card (free_blocks s a i) \<le> blk_cnt i" using card_mono [OF _ sub] by simp
qed

lemma range_frame:
  assumes f: "frame f = f" and o: "o' + l \<le> 4096" and p: "p - (f + of_nat o') < (of_nat l :: u32)"
  obtains y where "y < l" and "p = f + of_nat (o' + y)" and "frame p = f"
proof -
  let ?y = "unat (p - (f + of_nat o'))"
  have y: "?y < l" using p o by (simp add: word_less_nat_alt unat_of_nat_u32)
  have "p = f + of_nat (o' + ?y)" by simp
  moreover have "frame (f + of_nat (o' + ?y)) = f" using frame_add_offset [of "of_nat (o' + ?y)" f] f y o by (simp add: unat_of_nat_u32 del: of_nat_add)
  ultimately show thesis using that y by metis
qed

lemma block_at_page: "page_run a n \<Longrightarrow> 1 \<le> n \<Longrightarrow> i < 7 \<Longrightarrow> j < blk_cnt i \<Longrightarrow> block2arena (block_at a i j) = a"
  unfolding block_at_def by (rule block2arena_at) (use block_byte [of i j 0] blk_bounds(1) [of i] in simp_all)

lemma block_arena:
  assumes inv: "heap_inv F s" and b: "b \<in> set (free_queue s i)" and i: "i < 7"
  obtains a ar j where "arenas s a = Some ar" and "desc ar = Some (K_desc i)" and "j < blk_cnt i" and "b = block_at a i j"
    and "block2arena b = a" and "j \<in> free_blocks s a i" and "heap_map s a = Some 1"
proof -
  obtain a ar j where h: "arenas s a = Some ar" "desc ar = Some (K_desc i)" "j < blk_cnt i" "b = block_at a i j"
    using inv b i unfolding heap_inv_def by blast
  have m: "heap_map s a = Some 1" using h by (simp add: heap_map_def)
  have ok: "regions_ok (heap_map s) s" using inv by (simp add: heap_inv_def)
  have "block2arena b = a" unfolding h(4) by (rule block_at_page [OF region_run(2) [OF ok m] _ i h(3)]) simp
  then show thesis using that h m b by (simp add: free_blocks_def)
qed

lemma block_of_arena:
  assumes inv: "heap_inv F s" and ar: "arenas s a = Some ar" "desc ar = Some (K_desc i)" and j: "j < blk_cnt i"
  shows "block2arena (block_at a i j) = a" and "i < 7" and "k < blk_cnt i \<Longrightarrow> block_at a i j = block_at a i k \<longleftrightarrow> j = k"
proof -
  have ok: "regions_ok (heap_map s) s" "arena_ok F s a ar" using inv ar by (simp_all add: heap_inv_def)
  show i: "i < 7" by (rule arena_okD(1) [OF ok(2) ar(2)])
  have m: "heap_map s a = Some 1" using ar by (simp add: heap_map_def)
  note run = region_run(2) [OF ok(1) m]
  show "block2arena (block_at a i j) = a" by (rule block_at_page [OF run _ i j]) simp
  show "k < blk_cnt i \<Longrightarrow> block_at a i j = block_at a i k \<longleftrightarrow> j = k" using block_at_eq_iff [OF run _ i j] by simp
qed

text \<open>The state after block \<open>j\<close> of the arena \<open>a\<close> has been taken from the front of its queue.\<close>

definition taken :: "nat \<Rightarrow> u32 list \<Rightarrow> (u32 \<Rightarrow> u32) \<Rightarrow> u32 \<Rightarrow> arena \<Rightarrow> mm \<Rightarrow> mm" where
  "taken i l r a ar s = (with_queue i l s)\<lparr>ram := r, arenas := (arenas s)(a \<mapsto> ar\<lparr>free_cnt := free_cnt ar - 1\<rparr>)\<rparr>"

lemma taken_inv:
  assumes inv: "heap_inv F s" and i: "i < 7" and q: "free_queue s i = b # l" and F: "F \<subseteq> {a}"
    and a: "arenas s a = Some ar" "desc ar = Some (K_desc i)" "j < blk_cnt i" "b = block_at a i j"
    and f: "data_frame s f" and r: "\<forall>p. frame p \<noteq> f \<longrightarrow> r p = ram s p"
  shows "heap_ok (taken i l r a ar s)"
proof -
  let ?t = "taken i l r a ar s"
  have descs: "descs_ok s" and ok: "regions_ok (heap_map s) s" and "distinct (free_queue s i)"
    using inv i by (simp_all add: heap_inv_def)
  then have dist: "distinct (b # l)" using q by simp
  have fq: "free_queue ?t k = (if k = i then l else free_queue s k)" if "k < 7" for k
    using with_queue_descs(2) [OF descs i that] by (simp add: taken_def free_queue_def)
  have map: "heap_map ?t = heap_map s" using a by (auto simp: heap_map_def taken_def fun_eq_iff)
  have "data_frame (with_queue i l s) = data_frame s" by (rule regions_ok_cong) (simp_all add: with_queue_def)
  then have "regions_ok (heap_map ?t) ?t"
    using regions_write(1) [of "heap_map s" "with_queue i l s" f r] ok f r by (simp add: map) (simp add: taken_def)
  moreover have "descs_ok ?t" using with_queue_descs(1) [OF descs i] by (simp add: descs_ok_def taken_def)
  moreover have "arena_ok {} ?t a' ar'" if ar': "arenas ?t a' = Some ar'" for a' ar'
  proof (cases "a' = a")
    case True
    have A: "arena_ok F s a ar" using inv a by (simp add: heap_inv_def)
    have new: "ar' = ar\<lparr>free_cnt := free_cnt ar - 1\<rparr>" using ar' True by (simp add: taken_def)
    have "free_blocks ?t a i = free_blocks s a i - {j}"
      using block_of_arena(3) [OF inv a(1-3)] dist unfolding free_blocks_def fq [OF i] q a(4) by auto metis
    moreover have j: "j \<in> free_blocks s a i" using a q by (simp add: free_blocks_def)
    ultimately have c: "Suc (card (free_blocks ?t a i)) = card (free_blocks s a i)"
      using free_blocks_bounds(1) card_Suc_Diff1 by metis
    then have "free_cnt ar - 1 = of_nat (card (free_blocks ?t a i))"
      using arena_okD(3) [OF A a(2)] by (simp flip: c)
    moreover have "card (free_blocks ?t a i) < blk_cnt i" using c free_blocks_bounds(2) [of s a i] by simp
    ultimately show ?thesis using new True a(2) arena_okD(2) [OF A a(2)] i by (simp add: arena_ok_def)
  next
    case False
    then have arn: "arenas s a' = Some ar'" using ar' by (simp add: taken_def)
    then have A: "arena_ok F s a' ar'" using inv by (simp add: heap_inv_def)
    have "free_blocks ?t a' k = free_blocks s a' k" if k: "desc ar' = Some (K_desc k)" for k
    proof -
      have "k < 7" by (rule arena_okD(1) [OF A k])
      have "block_at a' k x \<noteq> b" if "x < blk_cnt k" "k = i" for x
        using block_of_arena(1) [OF inv arn k that(1)] block_of_arena(1) [OF inv a(1-3)] a(4) False that(2) by metis
      then show ?thesis using fq [OF \<open>k < 7\<close>] q by (auto simp: free_blocks_def)
    qed
    then show ?thesis using A F False by (auto simp: arena_ok_def)
  qed
  moreover have "\<exists>a' ar' k. arenas ?t a' = Some ar' \<and> desc ar' = Some (K_desc n) \<and> k < blk_cnt n \<and> c = block_at a' n k"
    if n: "n < 7" and c: "c \<in> set (free_queue ?t n)" for n c
  proof -
    have "c \<in> set (free_queue s n)" using c q by (auto simp: fq [OF n] split: if_splits)
    from block_arena [OF inv this n] obtain a' ar' k where h: "arenas s a' = Some ar'" "desc ar' = Some (K_desc n)" "k < blk_cnt n"
        "c = block_at a' n k" by metis
    then show ?thesis using a(1,2) by (cases "a' = a") (auto simp: taken_def)
  qed
  moreover have "distinct (free_queue ?t n)" if "n < 7" for n
    using inv dist that by (auto simp: fq [OF that] heap_inv_def)
  ultimately show ?thesis using inv by (simp add: heap_inv_def) (simp add: taken_def)
qed

text \<open>A block whose bytes translate as before and hold what they held.\<close>

definition kept_block :: "mm \<Rightarrow> mm \<Rightarrow> u32 \<Rightarrow> nat \<Rightarrow> nat \<Rightarrow> bool" where
  "kept_block s s' a off l \<longleftrightarrow> (\<forall>x < l. \<exists>pa. mmu s (a + of_nat (off + x)) = Some pa \<and>
     mmu s' (a + of_nat (off + x)) = Some pa \<and> ram s' pa = ram s pa)"

lemma kept_block_trans: "kept_block s t a off l \<Longrightarrow> kept_block t u a off l \<Longrightarrow> kept_block s u a off l"
  unfolding kept_block_def by (metis option.inject)

text \<open>A new block in use, of zeros; the others are as before.\<close>

definition block_taken :: "mm \<Rightarrow> mm \<Rightarrow> u32 \<Rightarrow> nat \<Rightarrow> nat \<Rightarrow> bool" where
  "block_taken s s' a off l \<longleftrightarrow>
     heap_ok s' \<and> \<not> in_use s a off l \<and>
     (\<forall>b o' k. in_use s' b o' k \<longleftrightarrow> in_use s b o' k \<or> (b, o', k) = (a, off, l)) \<and>
     (\<forall>b o' k. in_use s b o' k \<longrightarrow> kept_block s s' b o' k) \<and>
     (\<forall>x < l. \<exists>pa. mmu s' (a + of_nat (off + x)) = Some pa \<and> ram s' pa = 0)"

lemma in_use_small:
  "arenas s a = Some ar \<Longrightarrow> desc ar = Some (K_desc i) \<Longrightarrow> i < 7 \<Longrightarrow>
   in_use s a off l \<longleftrightarrow> (\<exists>j < blk_cnt i. block_at a i j \<notin> set (free_queue s i) \<and> off = 12 + j * blk_size i \<and> l = blk_size i)"
  by (auto simp: in_use_def)

lemma taken_in_use:
  assumes inv: "heap_inv F s" and i: "i < 7" and q: "free_queue s i = b # l"
    and a: "arenas s a = Some ar" "desc ar = Some (K_desc i)" "j < blk_cnt i" "b = block_at a i j"
  shows "in_use (taken i l r a ar s) a' o' k \<longleftrightarrow> in_use s a' o' k \<or> (a', o', k) = (a, 12 + j * blk_size i, blk_size i)"
    and "\<not> in_use s a (12 + j * blk_size i) (blk_size i)"
proof -
  let ?t = "taken i l r a ar s"
  have descs: "descs_ok s" and "distinct (free_queue s i)" using inv i by (simp_all add: heap_inv_def)
  then have dist: "distinct (b # l)" using q by simp
  have fq: "free_queue ?t k = (if k = i then l else free_queue s k)" if "k < 7" for k
    using with_queue_descs(2) [OF descs i that] by (simp add: taken_def free_queue_def)
  have sz: "0 < blk_size i" using blk_bounds(1) [OF i] by simp
  show not: "\<not> in_use s a (12 + j * blk_size i) (blk_size i)" using a q sz by (auto simp: in_use_def)
  show "in_use ?t a' o' k \<longleftrightarrow> in_use s a' o' k \<or> (a', o', k) = (a, 12 + j * blk_size i, blk_size i)"
  proof (cases "a' = a")
    case True
    have "block_at a i x \<notin> set l \<longleftrightarrow> block_at a i x \<notin> set (free_queue s i) \<or> x = j" if "x < blk_cnt i" for x
      using block_of_arena(3) [OF inv a(1-3) that] dist a(4) q by auto
    moreover have "arenas ?t a = Some (ar\<lparr>free_cnt := free_cnt ar - 1\<rparr>)" by (simp add: taken_def)
    ultimately show ?thesis
      using True in_use_small [OF a(1,2) i] in_use_small [OF _ _ i, of ?t a] a(2,3) fq [OF i] by auto
  next
    case False
    have same: "arenas ?t a' = arenas s a'" using False by (simp add: taken_def)
    have "block_at a' n x \<in> set (free_queue ?t n) \<longleftrightarrow> block_at a' n x \<in> set (free_queue s n)"
      if h: "arenas s a' = Some ar'" "desc ar' = Some (K_desc n)" "x < blk_cnt n" for ar' n x
    proof -
      have "block_at a' n x \<noteq> b" if "n = i"
        using block_of_arena(1) [OF inv h] block_of_arena(1) [OF inv a(1-3)] a(4) False that by metis
      then show ?thesis using fq [OF block_of_arena(2) [OF inv h]] q by auto
    qed
    from in_use_cong [OF same this] show ?thesis using False by simp
  qed
qed

lemma byte_in_range:
  assumes ok: "regions_ok R s" and R: "R a = Some n" and o: "o' < 4096 * n"
  shows "in_range (a + of_nat o')"
proof -
  have i: "o' div 4096 < n" using o by (simp add: less_mult_imp_div_less mult.commute)
  have "drop_bit 22 z = drop_bit 10 (drop_bit 12 z)" for z :: u32 by (simp add: drop_bit_drop_bit)
  then have "drop_bit 22 (a + of_nat o') = drop_bit 22 (page_at a (o' div 4096))"
    using page_byte(1) [OF region_run(2) [OF ok R] o] by metis
  then show ?thesis using region_page(1) [OF ok R i] by (simp add: in_range_def)
qed

lemma one_page_region:
  assumes ok: "regions_ok R s" and R: "R a = Some 1"
  obtains f where "frame f = f" and "data_frame s f" and "\<forall>x < 4096. mmu s (a + of_nat x) = Some (f + of_nat x)"
proof -
  obtain f where f: "mmu s a = Some f" "frame f = f" "data_frame s f"
    using region_byte [OF ok R, of 0] by auto
  have "mmu s (a + of_nat x) = Some (f + of_nat x)" if x: "x < 4096" for x
  proof -
    have "x < 4096 * 1" using x by simp
    from region_byte [OF ok R this] show ?thesis using f(1) x by (metis div_less mod_less option.inject page_at_0)
  qed
  with f show thesis using that by blast
qed

lemma in_use_byte:
  assumes inv: "heap_inv F s" and u: "in_use s a off l" and x: "x < l"
  obtains pa where "mmu s (a + of_nat (off + x)) = Some pa" and "in_range (a + of_nat (off + x))"
proof -
  have ok: "regions_ok (heap_map s) s" using inv by (simp add: heap_inv_def)
  obtain n where n: "heap_map s a = Some n" "off + l \<le> 4096 * n" using in_use_region [OF inv u] by blast
  then have o: "off + x < 4096 * n" using x by simp
  show thesis using region_byte [OF ok n(1) o] byte_in_range [OF ok n(1) o] that by metis
qed

lemma pop_block_run:
  assumes inv: "heap_inv F s" and i: "i < 7" and q: "free_queue s i = b # l" and F: "F \<subseteq> {block2arena b}"
    and m: "mutex (kernel_pool s) = Suc m"
  obtains a off s' where "pop_block PF_KERNEL (K_desc i) s = Inr (a + of_nat off, with_mutex m s')"
    and "block_taken s s' a off (blk_size i)" and "kernel_pool s' = kernel_pool s"
proof -
  have descs: "descs_ok s" and ok: "regions_ok (heap_map s) s" using inv i by (simp_all add: heap_inv_def)
  obtain a ar j where a: "arenas s a = Some ar" "desc ar = Some (K_desc i)" "j < blk_cnt i" "b = block_at a i j"
    "block2arena b = a" "heap_map s a = Some 1" by (rule block_arena [OF inv _ i, of b]) (use q in simp)
  let ?o = "12 + j * blk_size i" and ?s = "with_queue i l s"
  have b: "b = a + of_nat ?o" using a(4) by (simp add: block_at_def)
  have top: "?o + blk_size i \<le> 4096" "?o < 4096 * 1"
    using block_byte [OF i a(3), of "blk_size i - 1"] blk_bounds(1) [OF i] by simp_all
  obtain f where f: "frame f = f" "data_frame s f" "\<forall>x < 4096. mmu s (a + of_nat x) = Some (f + of_nat x)"
    by (rule one_page_region [OF ok a(6)])
  define r where "r = (\<lambda>p. if p - (f + of_nat ?o) < of_nat (blk_size i) then 0 else ram s p)"
  have inside: "frame p = f" if "p - (f + of_nat ?o) < of_nat (blk_size i)" for p
    using range_frame [OF f(1) top(1) that] by metis
  have r: "\<forall>p. frame p \<noteq> f \<longrightarrow> r p = ram s p" using inside by (auto simp: r_def)
  define s' where "s' = taken i l r a ar s"
  have q': "free_list (k_block_descs s ! i) = b # l" "block_size (k_block_descs s ! i) = of_nat (blk_size i)"
    using q descs i by (simp_all add: free_queue_def descs_ok_def)
  have z: "zero_range b (of_nat (blk_size i)) ?s = Inr ((), ?s\<lparr>ram := r\<rparr>)"
    using f(3) [rule_format, of ?o] top(2) by (simp add: zero_range_def b r_def cong: if_cong)
  have "pop_block PF_KERNEL (K_desc i) s = Inr (b, with_mutex m s')"
    using m a(1,5) by (simp add: pop_block_def bnd_get_desc [OF descs i] q' bnd_set_free_list bnd_Inr [where m = "zero_range b (of_nat (blk_size i))" and s = ?s, OF z]
        bnd_get_arena bnd_set_arena kernel_unlock_run s'_def taken_def)
  moreover have "block_taken s s' a ?o (blk_size i)"
    unfolding block_taken_def
  proof (intro conjI allI impI)
    note use = taken_in_use(1) [OF inv i q a(1-4), where r = r, folded s'_def] taken_in_use(2) [OF inv i q a(1-4)]
    have F': "F \<subseteq> {a}" using F a(5) by simp
    show inv': "heap_ok s'" unfolding s'_def by (rule taken_inv [OF inv i q F' a(1-4) f(2) r])
    show "\<not> in_use s a ?o (blk_size i)" by (rule use(2))
    show "in_use s' c o' k \<longleftrightarrow> in_use s c o' k \<or> (c, o', k) = (a, ?o, blk_size i)" for c o' k by (rule use(1))
    have "data_frame ?s = data_frame s" by (rule regions_ok_cong) (simp_all add: with_queue_def)
    then have "in_range x \<Longrightarrow> mmu (?s\<lparr>ram := r\<rparr>) x = mmu s x" for x
      using regions_write(2) [of "heap_map s" ?s f r] ok f(2) r by simp
    moreover have "mmu s' x = mmu (?s\<lparr>ram := r\<rparr>) x" for x
      unfolding s'_def taken_def by (subst same_tables(3) [where s' = "?s\<lparr>ram := r, arenas := ar'\<rparr>" and s = "?s\<lparr>ram := r\<rparr>" for ar']) simp_all
    ultimately have mm: "in_range x \<Longrightarrow> mmu s' x = mmu s x" for x by simp
    have ram: "ram s' = r" by (simp add: s'_def taken_def)
    have block: "mmu s' (a + of_nat (?o + x)) = Some (f + of_nat (?o + x))" "mmu s (a + of_nat (?o + x)) = Some (f + of_nat (?o + x))"
      if x: "x < blk_size i" for x
    proof -
      have "?o + x < 4096 * 1" using top(1) x by simp
      from f(3) [rule_format, of "?o + x"] byte_in_range [OF ok a(6) this] mm this
      show "mmu s' (a + of_nat (?o + x)) = Some (f + of_nat (?o + x))" "mmu s (a + of_nat (?o + x)) = Some (f + of_nat (?o + x))"
        by (simp_all del: of_nat_add)
    qed
    show "\<exists>pa. mmu s' (a + of_nat (?o + x)) = Some pa \<and> ram s' pa = 0" if x: "x < blk_size i" for x
    proof -
      have "f + of_nat (?o + x) - (f + of_nat ?o) = (of_nat x :: u32)" by simp
      moreover have "(of_nat x :: u32) < of_nat (blk_size i)" using x top by (simp add: word_less_nat_alt unat_of_nat_u32)
      ultimately have "r (f + of_nat (?o + x)) = 0" by (simp only: r_def if_True)
      then show ?thesis using block(1) [OF x] ram by blast
    qed
    fix c o' k assume u: "in_use s c o' k"
    show "kept_block s s' c o' k"
      unfolding kept_block_def
    proof (intro allI impI)
      fix x assume x: "x < k"
      obtain pa where pa: "mmu s (c + of_nat (o' + x)) = Some pa" "in_range (c + of_nat (o' + x))" by (rule in_use_byte [OF inv u x])
      have "\<not> pa - (f + of_nat ?o) < of_nat (blk_size i)"
      proof
        assume "pa - (f + of_nat ?o) < of_nat (blk_size i)"
        then obtain y where y: "y < blk_size i" "pa = f + of_nat (?o + y)" by (rule range_frame [OF f(1) top(1)])
        have "in_use s' c o' k" "in_use s' a ?o (blk_size i)" using use(1) u by blast+
        moreover have "mmu s' (c + of_nat (o' + x)) = mmu s' (a + of_nat (?o + y))" using block(1) [OF y(1)] pa mm y(2) by simp
        ultimately have "c = a" "o' = ?o" "k = blk_size i" using in_use_inj [OF inv' _ x _ y(1)] by blast+
        then show False using u use(2) by simp
      qed
      then show "\<exists>pa. mmu s (c + of_nat (o' + x)) = Some pa \<and> mmu s' (c + of_nat (o' + x)) = Some pa \<and> ram s' pa = ram s pa"
        using pa mm ram by (simp add: r_def)
    qed
  qed
  moreover have "kernel_pool s' = kernel_pool s" by (simp add: s'_def taken_def)
  ultimately show thesis using that b by metis
qed

end
