(* ===== verification/Sys_Malloc.thy ===== *)
theory Sys_Malloc
  imports Malloc
begin

text \<open>New arenas, large blocks, and \<open>sys_malloc\<close> as a whole.\<close>

section \<open>The lock\<close>

lemma heap_map_cong: "arenas s' = arenas s \<Longrightarrow> heap_map s' = heap_map s"
  by (simp add: heap_map_def fun_eq_iff)

lemma heap_mutex [simp]:
  "heap_map (with_mutex n s) = heap_map s" "free_queue (with_mutex n s) = free_queue s" "descs_ok (with_mutex n s) = descs_ok s"
  "free_blocks (with_mutex n s) = free_blocks s" "in_use (with_mutex n s) = in_use s"
  "heap_inv F (with_mutex n s) = heap_inv F s"
  "kept_block (with_mutex n s) s' = kept_block s s'" "kept_block s (with_mutex n s') = kept_block s s'"
  "block_taken (with_mutex n s) s' = block_taken s s'" "block_taken s (with_mutex n s') = block_taken s s'"
proof -
  show m: "heap_map (with_mutex n s) = heap_map s" by (rule heap_map_cong) simp
  show q: "free_queue (with_mutex n s) = free_queue s" by (simp add: free_queue_def fun_eq_iff)
  show d: "descs_ok (with_mutex n s) = descs_ok s" by (simp add: descs_ok_def)
  show b: "free_blocks (with_mutex n s) = free_blocks s" by (simp add: free_blocks_def fun_eq_iff q)
  show u: "in_use (with_mutex n s) = in_use s" for s by (simp add: in_use_def fun_eq_iff free_queue_def)
  have "arena_ok F (with_mutex n s) = arena_ok F s" by (simp add: arena_ok_def fun_eq_iff b)
  then show i: "heap_inv F (with_mutex n s) = heap_inv F s" by (simp add: heap_inv_def m q d)
  show k: "kept_block (with_mutex n s) s' = kept_block s s'" "kept_block s (with_mutex n s') = kept_block s s'" for s s'
    by (simp_all add: kept_block_def fun_eq_iff)
  show "block_taken (with_mutex n s) s' = block_taken s s'" by (simp add: block_taken_def fun_eq_iff k u)
  have "heap_inv {} (with_mutex n s') = heap_inv {} s'"
  proof -
    have "heap_map (with_mutex n s') = heap_map s'" by (rule heap_map_cong) simp
    moreover have "free_queue (with_mutex n s') = free_queue s'" by (simp add: free_queue_def fun_eq_iff)
    moreover from this have "arena_ok {} (with_mutex n s') = arena_ok {} s'" by (simp add: arena_ok_def fun_eq_iff free_blocks_def)
    ultimately show ?thesis by (simp add: heap_inv_def descs_ok_def)
  qed
  then show "block_taken s (with_mutex n s') = block_taken s s'" by (simp add: block_taken_def fun_eq_iff k u)
qed

section \<open>A new arena\<close>

lemma link_blocks_run:
  assumes run: "page_run a 1" and i: "i < 7"
  shows "descs_ok s \<Longrightarrow> free_queue s i = map (block_at a i) [0..<k] \<Longrightarrow> k + n \<le> blk_cnt i \<Longrightarrow>
    link_blocks (K_desc i) a (of_nat k) n s = Inr ((), if n = 0 then s else with_queue i (map (block_at a i) [0..<k + n]) s)"
proof (induction n arbitrary: k s)
  case (Suc n)
  let ?l = "map (block_at a i) [0..<k]" and ?d = "k_block_descs s ! i"
  have d: "free_list ?d = ?l" "block_size ?d = of_nat (blk_size i)"
    using Suc.prems(1,2) i by (simp_all add: free_queue_def descs_ok_def)
  have new: "block_at a i k \<notin> set ?l"
  proof
    assume "block_at a i k \<in> set ?l"
    then obtain x where x: "x < k" "block_at a i k = block_at a i x" by auto
    then show False using block_at_eq_iff [OF run _ i, where j = k and k = x] Suc.prems(3) by simp
  qed
  let ?s = "with_queue i (?l @ [block_at a i k]) s"
  have "link_blocks (K_desc i) a (of_nat k) (Suc n) s = link_blocks (K_desc i) a (of_nat (Suc k)) n ?s"
    using new by (simp add: bnd_get_desc [OF Suc.prems(1) i] d Let_def arena2block_at bnd_set_free_list add.commute)
  also have "\<dots> = Inr ((), if n = 0 then ?s else with_queue i (map (block_at a i) [0..<Suc k + n]) ?s)"
    using Suc.prems i by (intro Suc.IH) simp_all
  also have "\<dots> = Inr ((), with_queue i (map (block_at a i) [0..<k + Suc n]) s)"
    using Suc.prems(1) i by simp
  finally show ?case by simp
qed simp

definition arena_made :: "nat \<Rightarrow> u32 \<Rightarrow> mm \<Rightarrow> mm" where
  "arena_made i a s = (with_queue i (map (block_at a i) [0..<blk_cnt i]) s)\<lparr>arenas := (arenas s)(a \<mapsto>
     \<lparr>desc = Some (K_desc i), free_cnt = of_nat (blk_cnt i), large = 0\<rparr>)\<rparr>"

lemma new_arena_run:
  assumes zero: "zero_pages a 1 s1 = Inr ((), s2)" and run: "page_run a 1" and i: "i < 7" and descs: "descs_ok s2" and q: "free_queue s2 i = []"
  shows "new_arena (K_desc i) a s1 = Inr ((), arena_made i a s2)"
proof -
  have z: "zero_range a PG_SIZE s1 = Inr ((), s2)"
    using zero by (cases "zero_range a 4096 s1") (auto simp: PG_SIZE_def bnd_def)
  let ?s = "s2\<lparr>arenas := (arenas s2)(a \<mapsto> \<lparr>desc = Some (K_desc i), free_cnt = of_nat (blk_cnt i), large = 0\<rparr>)\<rparr>"
  have d: "blocks_per_arena (k_block_descs s2 ! i) = of_nat (blk_cnt i)" "unat (of_nat (blk_cnt i) :: u32) = blk_cnt i"
    using descs i blk_bounds(4) [OF i] by (simp_all add: descs_ok_def unat_of_nat_u32)
  have "link_blocks (K_desc i) a (of_nat 0) (blk_cnt i) ?s = Inr ((), arena_made i a s2)"
    using link_blocks_run [OF run i, of ?s 0 "blk_cnt i"] descs q blk_bounds(3) [OF i]
    by (simp add: descs_ok_def free_queue_def arena_made_def with_queue_def)
  then show ?thesis
    by (simp add: new_arena_def bnd_Inr [where m = "zero_range a PG_SIZE" and s = s1, OF z] bnd_get_desc [OF descs i] bnd_set_arena d)
qed

lemma regions_kept_block:
  assumes inv: "heap_inv F s" and u: "in_use s a off l" and n: "heap_map s a = Some n" "R a = Some n" "R' a = Some n"
    and ok: "regions_ok R s" "regions_ok R' s'" and kept: "regions_kept R s s'"
  shows "kept_block s s' a off l"
  unfolding kept_block_def
proof (intro allI impI)
  fix x assume x: "x < l"
  have "off + x < 4096 * n" using in_use_region [OF inv u] n(1) x by fastforce
  from region_byte_kept [OF ok kept n(2,3) this]
  show "\<exists>pa. mmu s (a + of_nat (off + x)) = Some pa \<and> mmu s' (a + of_nat (off + x)) = Some pa \<and> ram s' pa = ram s pa" by metis
qed

lemma heap_queue_arena:
  "heap_inv F s \<Longrightarrow> arenas s a = None \<Longrightarrow> i < 7 \<Longrightarrow> j < blk_cnt i \<Longrightarrow> page_run a 1 \<Longrightarrow> block_at a i j \<notin> set (free_queue s i)"
proof
  assume h: "heap_inv F s" "arenas s a = None" "i < 7" "j < blk_cnt i" "page_run a 1" "block_at a i j \<in> set (free_queue s i)"
  obtain c ar where "arenas s c = Some ar" "block2arena (block_at a i j) = c" by (rule block_arena [OF h(1,6,3)])
  then show False using block_at_page [OF h(5) _ h(3,4)] h(2) by simp
qed

text \<open>What has been taken from the pools and mapped is an arena whose blocks are all free.\<close>

lemma arena_made_inv:
  assumes inv: "heap_ok s" and fr: "fresh_pages a [f] s s2" and t: "pages_taken [f] s s2" and vm: "vm_ok s2" "kvaddr_ok s2"
    and v: "a = page_at (vaddr_start (kernel_vaddr s)) p" "vrun_taken p 1 (kernel_vaddr s) (kernel_vaddr s2)"
    and i: "i < 7" and q: "free_queue s i = []"
  shows "heap_inv {a} (arena_made i a s2)"
    and "in_use (arena_made i a s2) = in_use s"
    and "in_use s b off l \<Longrightarrow> kept_block s (arena_made i a s2) b off l"
proof -
  let ?t = "arena_made i a s2" and ?R = "(heap_map s)(a \<mapsto> 1)"
  have descs: "descs_ok s" and ok: "regions_ok (heap_map s) s" using inv by (simp_all add: heap_inv_def)
  have t': "pgdir s2 = pgdir s" "k_block_descs s2 = k_block_descs s" "arenas s2 = arenas s"
    using t by (simp_all add: pages_taken_def)
  have run: "page_run a 1" using fr by (simp add: fresh_pages_def)
  have "heap_map s a = None" and ok2: "regions_ok ?R s2" and kept: "regions_kept (heap_map s) s s2"
    using regions_add [OF ok fr t vm v(1)] v(2) by simp_all
  then have none: "arenas s a = None" by (simp add: heap_map_def)
  have descs2: "descs_ok s2" using descs by (simp add: descs_ok_def t')
  have fq: "free_queue ?t k = (if k = i then map (block_at a i) [0..<blk_cnt i] else free_queue s k)" if "k < 7" for k
    using with_queue_descs(2) [OF descs2 i that] by (simp add: arena_made_def free_queue_def t')
  have map: "heap_map ?t = ?R" by (simp add: heap_map_def arena_made_def t' fun_eq_iff)
  have ram: "ram ?t = ram s2" "cr3 ?t = cr3 s2" by (simp_all add: arena_made_def with_queue_def)
  note mmu = same_tables(3) [OF ram] ram(1)
  have other: "block_at b k x \<in> set (free_queue ?t k) \<longleftrightarrow> block_at b k x \<in> set (free_queue s k)"
    if h: "arenas s b = Some ar" "desc ar = Some (K_desc k)" "x < blk_cnt k" for b ar k x
  proof -
    have k: "k < 7" by (rule block_of_arena(2) [OF inv h])
    have "block_at b k x \<notin> set (map (block_at a i) [0..<blk_cnt i])" if "k = i"
      using block_of_arena(1) [OF inv h] block_at_page [OF run _ i] none h(1) that by auto
    then show ?thesis using fq [OF k] q by auto
  qed
  then have fb: "free_blocks ?t b k = free_blocks s b k" if "arenas s b = Some ar" "desc ar = Some (K_desc k)" for b ar k
    using that by (auto simp: free_blocks_def)
  have "arena_ok {a} ?t b ar" if b: "arenas ?t b = Some ar" for b ar
  proof (cases "b = a")
    case True
    have "free_blocks ?t a i = {..<blk_cnt i}" by (auto simp: free_blocks_def fq [OF i])
    moreover have "ar = \<lparr>desc = Some (K_desc i), free_cnt = of_nat (blk_cnt i), large = 0\<rparr>"
      using b True by (simp add: arena_made_def)
    ultimately show ?thesis using True i by (auto simp: arena_ok_def)
  next
    case False
    then have b': "arenas s b = Some ar" using b by (simp add: arena_made_def t')
    then have "arena_ok {} s b ar" using inv by (simp add: heap_inv_def)
    then show ?thesis using fb [OF b'] by (auto simp: arena_ok_def)
  qed
  moreover have "distinct (free_queue ?t k) \<and> (\<forall>c \<in> set (free_queue ?t k). \<exists>b ar j. arenas ?t b = Some ar \<and>
      desc ar = Some (K_desc k) \<and> j < blk_cnt k \<and> c = block_at b k j)" if k: "k < 7" for k
  proof (cases "k = i")
    case True
    have "inj_on (block_at a i) {..<blk_cnt i}" using block_at_eq_iff [OF run _ i] by (auto simp: inj_on_def)
    moreover have "free_queue ?t i = map (block_at a i) [0..<blk_cnt i]" using fq [OF i] by simp
    moreover have "\<exists>ar. arenas ?t a = Some ar \<and> desc ar = Some (K_desc i)" by (simp add: arena_made_def)
    ultimately show ?thesis unfolding True by (simp add: distinct_map atLeast0LessThan) blast
  next
    case False
    have "distinct (free_queue s k)" using inv k by (simp add: heap_inv_def)
    moreover have "\<exists>b ar j. arenas ?t b = Some ar \<and> desc ar = Some (K_desc k) \<and> j < blk_cnt k \<and> c = block_at b k j"
      if c: "c \<in> set (free_queue s k)" for c
    proof -
      obtain b ar j where h: "arenas s b = Some ar" "desc ar = Some (K_desc k)" "j < blk_cnt k" "c = block_at b k j"
        by (rule block_arena [OF inv c k])
      then have "arenas ?t b = Some ar" using none by (auto simp: arena_made_def t')
      with h show ?thesis by blast
    qed
    ultimately show ?thesis using False by (simp add: fq [OF k])
  qed
  moreover have "regions_ok ?R ?t"
  proof -
    have "regions_ok ?R ?t = regions_ok ?R s2" unfolding arena_made_def by simp
    then show ?thesis using ok2 by simp
  qed
  moreover have "descs_ok ?t" using with_queue_descs(1) [OF descs2 i] by (simp add: arena_made_def descs_ok_def)
  moreover have "K_HEAP_START \<le> vaddr_start (kernel_vaddr ?t)" "pgdir ?t = 0"
    using inv v(2) t' by (simp_all add: heap_inv_def vrun_taken_def arena_made_def)
  ultimately show inv': "heap_inv {a} ?t" by (simp add: heap_inv_def map)
  show use: "in_use ?t = in_use s"
  proof (intro ext)
    fix b off l
    show "in_use ?t b off l = in_use s b off l"
    proof (cases "b = a")
      case True
      have "\<not> in_use s a off l" using none by (simp add: in_use_def)
      moreover have "\<not> in_use ?t a off l" using fq [OF i] by (auto simp: in_use_def arena_made_def free_queue_def)
      ultimately show ?thesis using True by simp
    next
      case False
      then have "arenas ?t b = arenas s b" by (simp add: arena_made_def t')
      then show ?thesis using other by (rule in_use_cong)
    qed
  qed
  assume u: "in_use s b off l"
  then obtain n where n: "heap_map s b = Some n" using in_use_region [OF inv u] by blast
  then have "?R b = Some n" using none by (auto simp: heap_map_def)
  from regions_kept_block [OF inv u n n this ok ok2 kept] show "kept_block s ?t b off l"
    by (simp add: kept_block_def mmu)
qed

section \<open>Small blocks\<close>

lemma block_taken_after:
  assumes use: "in_use t = in_use s" and kept: "\<And>b o' k. in_use s b o' k \<Longrightarrow> kept_block s t b o' k" and t: "block_taken t s' a off l"
  shows "block_taken s s' a off l"
proof -
  have "kept_block s s' b o' k" if "in_use s b o' k" for b o' k
    using t kept [OF that] that kept_block_trans unfolding block_taken_def use by metis
  then show ?thesis using t by (simp add: block_taken_def use)
qed

lemma find_desc_index:
  "\<exists>k < length ds. sz \<le> block_size (ds ! k) \<Longrightarrow> find_desc ds sz < length ds \<and> sz \<le> block_size (ds ! find_desc ds sz)"
proof (induction ds)
  case (Cons d ds)
  show ?case
  proof (cases "sz \<le> block_size d")
    case False
    then have "\<exists>k < length ds. sz \<le> block_size (ds ! k)" using Cons.prems by (auto simp: less_Suc_eq_0_disj)
    then show ?thesis using Cons.IH False by simp
  qed simp
qed simp

lemma find_desc_run:
  assumes "descs_ok s" and "sz \<le> 1024"
  obtains i where "find_desc (k_block_descs s) (of_nat sz) = i" and "i < 7" and "sz \<le> blk_size i"
proof -
  let ?i = "find_desc (k_block_descs s) (of_nat sz)"
  have d: "length (k_block_descs s) = 7" "\<And>i. i < 7 \<Longrightarrow> block_size (k_block_descs s ! i) = of_nat (blk_size i)"
    using assms(1) by (simp_all add: descs_ok_def)
  have w: "(of_nat sz :: u32) \<le> of_nat (blk_size i) \<longleftrightarrow> sz \<le> blk_size i" if "i < 7" for i
    using assms(2) blk_bounds(2) [OF that] by (simp add: word_le_nat_alt unat_of_nat_u32)
  have "sz \<le> blk_size 6" using assms(2) by (simp add: blk_size_def)
  then have "\<exists>k < length (k_block_descs s). of_nat sz \<le> block_size (k_block_descs s ! k)"
    using d w by (intro exI [of _ 6]) simp
  from find_desc_index [OF this] have "?i < 7" "sz \<le> blk_size ?i" using d w by auto
  then show thesis by (intro that) simp_all
qed

lemma malloc_small_run:
  assumes inv: "heap_ok s" and get: "can_get 1 s" and m: "mutex (kernel_pool s) = Suc m" and sz: "sz \<le> 1024"
  obtains a off l s' where "malloc_small PF_KERNEL (of_nat sz) s = Inr (a + of_nat off, with_mutex m s')"
    and "block_taken s s' a off l" and "sz \<le> l" and "mutex (kernel_pool s') = Suc m"
proof -
  have descs: "descs_ok s" using inv by (simp add: heap_inv_def)
  obtain i where i: "find_desc (k_block_descs s) (of_nat sz) = i" "i < 7" "sz \<le> blk_size i" by (rule find_desc_run [OF descs sz])
  have start: "malloc_small PF_KERNEL (of_nat sz) s =
      (if free_queue s i = [] then bnd (malloc_page PF_KERNEL 1) (\<lambda>a. if a = 0 then bnd (pool_unlock PF_KERNEL) (\<lambda>_. ret 0)
         else bnd (new_arena (K_desc i) a) (\<lambda>_. pop_block PF_KERNEL (K_desc i))) s
       else pop_block PF_KERNEL (K_desc i) s)"
    by (simp add: malloc_small_def i(1) Let_def bnd_get_desc [OF descs i(2)] free_queue_def cong: if_cong)
  show thesis
  proof (cases "free_queue s i")
    case (Cons b l)
    obtain a off s' where "pop_block PF_KERNEL (K_desc i) s = Inr (a + of_nat off, with_mutex m s')" "block_taken s s' a off (blk_size i)"
        "kernel_pool s' = kernel_pool s"
      by (rule pop_block_run [OF inv i(2) Cons _ m]) simp
    then show thesis using that i(3) m start Cons by simp
  next
    case Nil
    obtain k where k: "k < bitmap_cap (vaddr_bitmap (kernel_vaddr s))" "\<not> used_bit (vaddr_bitmap (kernel_vaddr s)) k"
      using get by (auto simp: can_get_def)
    then have one: "k + 1 \<le> bitmap_cap (vaddr_bitmap (kernel_vaddr s))" "run_free (vaddr_bitmap (kernel_vaddr s)) k 1"
      by (auto simp: run_free_def less_Suc_eq_le le_antisym)
    from get show thesis
    proof (cases rule: fresh_pages_run)
      case 1
      with one show thesis by blast
    next
      case (2 a fs p s1 s2)
      obtain f where f: "fs = [f]" using 2(3) by (cases fs) auto
      have fr: "fresh_pages a [f] s s2" "pages_taken [f] s s2" using 2(4,7) f by simp_all
      have run: "page_run a 1" and nz: "a \<noteq> 0" using fr(1) by (simp_all add: fresh_pages_def)
      have t: "k_block_descs s2 = k_block_descs s" "pools_alike s s2" using fr(2) by (simp_all add: pages_taken_def)
      let ?t = "arena_made i a s2"
      have d2: "descs_ok s2" "free_queue s2 i = []" using descs Nil by (simp_all add: descs_ok_def free_queue_def t)
      note made = arena_made_inv [OF inv fr 2(5,6,8,9) i(2) Nil]
      have q: "free_queue ?t i = block_at a i 0 # map (block_at a i) [1..<blk_cnt i]"
        using with_queue_descs(2) [OF d2(1) i(2) i(2)] blk_bounds(3) [OF i(2)]
        by (simp add: arena_made_def free_queue_def upt_conv_Cons)
      have m2: "mutex (kernel_pool ?t) = Suc m"
        using t(2) m by (auto simp: pools_alike_def arena_made_def dest: spec [of _ PF_KERNEL])
      have "{a} \<subseteq> {block2arena (block_at a i 0)}"
        using block_at_page [OF run _ i(2)] blk_bounds(3) [OF i(2)] by simp
      then obtain c off s' where tk: "pop_block PF_KERNEL (K_desc i) ?t = Inr (c + of_nat off, with_mutex m s')"
          "block_taken ?t s' c off (blk_size i)" "kernel_pool s' = kernel_pool ?t"
        by (rule pop_block_run [OF made(1) i(2) q _ m2])
      have "malloc_small PF_KERNEL (of_nat sz) s = Inr (c + of_nat off, with_mutex m s')"
        using start Nil nz tk(1) 2(1) new_arena_run [OF 2(2) run i(2) d2]
        by (simp add: bnd_Inr [where m = "malloc_page PF_KERNEL 1" and s = s] bnd_Inr [where m = "new_arena (K_desc i) a" and s = s1])
      moreover have "block_taken s s' c off (blk_size i)" by (rule block_taken_after [OF made(2,3) tk(2)])
      ultimately show thesis using that i(3) tk(3) m2 by simp
    qed
  qed
qed

section \<open>Large blocks\<close>

lemma large_inv:
  assumes inv: "heap_ok s" and fr: "fresh_pages a fs s s2" and t: "pages_taken fs s s2" and vm: "vm_ok s2" "kvaddr_ok s2"
    and v: "a = page_at (vaddr_start (kernel_vaddr s)) p" "vrun_taken p (length fs) (kernel_vaddr s) (kernel_vaddr s2)"
    and n: "1 \<le> length fs" "length fs < 3840"
  shows "block_taken s (s2\<lparr>arenas := (arenas s2)(a \<mapsto> \<lparr>desc = None, free_cnt = of_nat (length fs), large = 1\<rparr>)\<rparr>) a 12 (4096 * length fs - 12)"
proof -
  let ?ar = "\<lparr>desc = None, free_cnt = of_nat (length fs), large = 1\<rparr>"
  let ?t = "s2\<lparr>arenas := (arenas s2)(a \<mapsto> ?ar)\<rparr>" and ?R = "(heap_map s)(a \<mapsto> length fs)"
  have descs: "descs_ok s" and ok: "regions_ok (heap_map s) s" using inv by (simp_all add: heap_inv_def)
  have t': "pgdir s2 = pgdir s" "k_block_descs s2 = k_block_descs s" "arenas s2 = arenas s"
    using t by (simp_all add: pages_taken_def)
  have "heap_map s a = None" and ok2: "regions_ok ?R s2" and kept: "regions_kept (heap_map s) s s2"
    using regions_add [OF ok fr t vm v(1,2) n(1)] by simp_all
  then have none: "arenas s a = None" by (simp add: heap_map_def)
  have cnt: "unat (of_nat (length fs) :: u32) = length fs" using n by (simp add: unat_of_nat_u32)
  have fq: "free_queue ?t = free_queue s" by (simp add: free_queue_def t' fun_eq_iff)
  have map: "heap_map ?t = ?R" using cnt by (simp add: heap_map_def t' fun_eq_iff)
  note mmu = same_tables(3) [of ?t s2, simplified]
  have "arena_ok {} ?t b ar" if b: "arenas ?t b = Some ar" for b ar
  proof (cases "b = a")
    case True
    then show ?thesis using b by (auto simp: arena_ok_def)
  next
    case False
    then have "arena_ok {} s b ar" using b inv by (simp add: heap_inv_def t')
    then show ?thesis by (simp add: arena_ok_def free_blocks_def fq)
  qed
  moreover have "\<exists>b ar j. arenas ?t b = Some ar \<and> desc ar = Some (K_desc k) \<and> j < blk_cnt k \<and> c = block_at b k j"
    if k: "k < 7" "c \<in> set (free_queue s k)" for k c
  proof -
    obtain b ar j where h: "arenas s b = Some ar" "desc ar = Some (K_desc k)" "j < blk_cnt k" "c = block_at b k j"
      by (rule block_arena [OF inv k(2,1)])
    then have "arenas ?t b = Some ar" using none by (auto simp: t')
    with h show ?thesis by blast
  qed
  moreover have "K_HEAP_START \<le> vaddr_start (kernel_vaddr ?t)" "pgdir ?t = 0" "\<forall>k < 7. distinct (free_queue s k)"
    using inv v(2) t' by (simp_all add: heap_inv_def vrun_taken_def)
  moreover have "regions_ok ?R ?t" "descs_ok ?t" using ok2 descs by (simp_all add: descs_ok_def t')
  ultimately have inv': "heap_ok ?t" by (simp add: heap_inv_def map fq)
  have use: "in_use ?t b o' k \<longleftrightarrow> in_use s b o' k \<or> (b, o', k) = (a, 12, 4096 * length fs - 12)" for b o' k
  proof (cases "b = a")
    case True
    then show ?thesis using none cnt by (simp add: in_use_def)
  next
    case False
    have "arenas ?t b = arenas s b" using False by (simp add: t')
    from in_use_cong [OF this] show ?thesis using False by (simp add: fq)
  qed
  have "kept_block s ?t b o' k" if u: "in_use s b o' k" for b o' k
  proof -
    obtain n where n: "heap_map s b = Some n" using in_use_region [OF inv u] by blast
    then have "?R b = Some n" using none by (auto simp: heap_map_def)
    from regions_kept_block [OF inv u n n this ok ok2 kept] show ?thesis by (simp add: kept_block_def mmu)
  qed
  moreover have "\<exists>pa. mmu ?t (a + of_nat (12 + x)) = Some pa \<and> ram ?t pa = 0" if x: "x < 4096 * length fs - 12" for x
  proof -
    have a: "?R a = Some (length fs)" and o: "12 + x < 4096 * length fs" using x by simp_all
    obtain f where f: "mmu s2 (page_at a ((12 + x) div 4096)) = Some f" "mmu s2 (a + of_nat (12 + x)) = Some (f + of_nat ((12 + x) mod 4096))"
        "frame (f + of_nat ((12 + x) mod 4096)) = f" by (rule region_byte [OF ok2 a o])
    have "(12 + x) div 4096 < length fs" using o by (simp add: less_mult_imp_div_less mult.commute)
    then have "f \<in> set fs" using fr f(1) nth_mem by (auto simp: fresh_pages_def)
    then have "ram s2 (f + of_nat ((12 + x) mod 4096)) = 0" using fr f(3) by (simp add: fresh_pages_def)
    then show ?thesis using f(2) mmu by auto
  qed
  moreover have "\<not> in_use s a 12 (4096 * length fs - 12)" using none by (simp add: in_use_def)
  ultimately show ?thesis using inv' use by (simp add: block_taken_def)
qed

section \<open>\<open>sys_malloc\<close>\<close>

text \<open>The pages that a request may need; the code takes one more than a large block has.\<close>

definition pages_for :: "nat \<Rightarrow> nat" where
  "pages_for sz = (if sz \<le> 1024 then 1 else (sz + 4107) div 4096 + 1)"

definition same_bytes :: "mm \<Rightarrow> mm \<Rightarrow> u32 \<Rightarrow> nat \<Rightarrow> bool" where
  "same_bytes s s' b l \<longleftrightarrow> (\<forall>x < l. \<exists>pa. mmu s (b + of_nat x) = Some pa \<and> mmu s' (b + of_nat x) = Some pa \<and> ram s' pa = ram s pa)"

lemma same_bytes_kept: "kept_block s s' a off l \<longleftrightarrow> same_bytes s s' (a + of_nat off) l"
  by (simp add: same_bytes_def kept_block_def add.assoc)

lemma in_use_address:
  assumes inv: "heap_inv F s" and u: "in_use s a off l" "in_use s b o' k" and eq: "a + of_nat off = b + (of_nat o' :: u32)"
  shows "a = b" and "off = o'" and "l = k"
proof -
  obtain "1 \<le> l" "1 \<le> k" using in_use_region [OF inv u(1)] in_use_region [OF inv u(2)] by metis
  then show "a = b" "off = o'" "l = k" using in_use_inj [OF inv u(1) _ u(2), of 0 0] eq by simp_all
qed

lemma in_use_nonzero: "heap_inv F s \<Longrightarrow> in_use s a off l \<Longrightarrow> a + of_nat off \<noteq> 0"
proof
  assume inv: "heap_inv F s" and u: "in_use s a off l" and z: "a + of_nat off = 0"
  have ok: "regions_ok (heap_map s) s" using inv by (simp add: heap_inv_def)
  obtain n where n: "heap_map s a = Some n" "off + l \<le> 4096 * n" "12 \<le> off" "1 \<le> l" by (rule in_use_region [OF inv u])
  have "unat (a + of_nat off) = unat a + off" using page_byte(3) [OF region_run(2) [OF ok n(1)], of off] n by simp
  then show False using z n(3) by simp
qed

lemma sys_malloc_run:
  assumes inv: "heap_ok s" and get: "can_get (pages_for sz) s" and sz: "1 \<le> sz" "sz < unat (pool_size (kernel_pool s))"
  obtains "sys_malloc (of_nat sz) s = Inr (0, s)" and "1024 < sz"
      and "\<forall>q. q + pages_for sz \<le> bitmap_cap (vaddr_bitmap (kernel_vaddr s)) \<longrightarrow> \<not> run_free (vaddr_bitmap (kernel_vaddr s)) q (pages_for sz)"
  | a off l s' where "sys_malloc (of_nat sz) s = Inr (a + of_nat off, s')" and "sz \<le> l" and "block_taken s s' a off l"
      and "mutex (kernel_pool s') = mutex (kernel_pool s)"
proof -
  let ?m = "mutex (kernel_pool s)"
  define s0 where "s0 = with_mutex (Suc ?m) s"
  have s0: "heap_ok s0" "can_get (pages_for sz) s0" "mutex (kernel_pool s0) = Suc ?m" using inv get by (simp_all add: s0_def)
  have lt: "sz < 4294967296" using sz(2) by (metis unat_lt_u32 order.strict_trans)
  then have u: "unat (of_nat sz :: u32) = sz" by (simp add: unat_of_nat_u32)
  then have w: "(of_nat sz :: u32) \<noteq> 0" "\<not> pool_size (kernel_pool s) \<le> of_nat sz" "(of_nat sz :: u32) > 1024 \<longleftrightarrow> sz > 1024"
    using sz by (auto simp: word_le_nat_alt word_less_nat_alt)
  have "pgdir s = 0" using inv by (simp add: heap_inv_def)
  then have start: "sys_malloc (of_nat sz) s = (if sz > 1024 then malloc_large PF_KERNEL (of_nat sz) s0 else malloc_small PF_KERNEL (of_nat sz) s0)"
    using w by (simp add: sys_malloc_def kernel_lock_run s0_def)
  show thesis
  proof (cases "sz \<le> 1024")
    case True
    then have "can_get 1 s0" using s0(2) by (simp add: pages_for_def)
    then obtain a off l s' where r: "malloc_small PF_KERNEL (of_nat sz) s0 = Inr (a + of_nat off, with_mutex ?m s')"
        "block_taken s0 s' a off l" "sz \<le> l" by (rule malloc_small_run [OF s0(1) _ s0(3) True])
    then show thesis using that(2) [of a off "with_mutex ?m s'" l] start True by (simp add: s0_def)
  next
    case False
    let ?n = "pages_for sz"
    have n: "?n = (sz + 4107) div 4096 + 1" "1 \<le> ?n" "?n < 3840" using False get by (simp_all add: pages_for_def can_get_def)
    then have "sz + 4107 < 4096 * 3840" by simp
    then have "unat (of_nat sz + arena_bytes + PG_SIZE - 1 :: u32) = sz + 4107"
    proof -
      assume "sz + 4107 < 4096 * 3840"
      then have "unat (of_nat (sz + 4107) :: u32) = sz + 4107" by (intro unat_of_nat_u32) simp
      moreover have "of_nat sz + arena_bytes + PG_SIZE - 1 = (of_nat (sz + 4107) :: u32)" by (simp add: arena_bytes_def PG_SIZE_def)
      ultimately show ?thesis by metis
    qed
    then have "unat ((of_nat sz + arena_bytes + PG_SIZE - 1) div PG_SIZE :: u32) = (sz + 4107) div 4096"
      unfolding PG_SIZE_def by (simp add: unat_div_numeral)
    then have cnt: "(of_nat sz + arena_bytes + PG_SIZE - 1) div PG_SIZE + 1 = (of_nat ?n :: u32)"
      unfolding n(1) by (metis of_nat_Suc of_nat_unat_u32 Suc_eq_plus1 add.commute)
    have un: "unat (of_nat ?n :: u32) = ?n" using n(3) by (simp add: unat_of_nat_u32)
    have large: "sys_malloc (of_nat sz) s = malloc_large PF_KERNEL (of_nat sz) s0" using start False by simp
    from s0(2) show thesis
    proof (cases rule: fresh_pages_run)
      case 1
      then have "sys_malloc (of_nat sz) s = Inr (0, s)"
        unfolding large malloc_large_def cnt Let_def by (simp add: bnd_Inr) (simp add: s0_def kernel_unlock_run)
      with 1(2) False that(1) show thesis by (simp add: s0_def)
    next
      case (2 a fs p s1 s2)
      let ?t = "s2\<lparr>arenas := (arenas s2)(a \<mapsto> \<lparr>desc = None, free_cnt = of_nat ?n, large = 1\<rparr>)\<rparr>"
      have v: "vrun_taken p (length fs) (kernel_vaddr s0) (kernel_vaddr s2)" "1 \<le> length fs" "length fs < 3840"
        using 2(3,9) n by simp_all
      have taken: "block_taken s0 ?t a 12 (4096 * ?n - 12)"
        using large_inv [OF s0(1) 2(4,7,5,6,8) v] 2(3) by simp
      have mu: "mutex (kernel_pool ?t) = Suc ?m"
        using 2(7) s0(3) by (auto simp: pages_taken_def pools_alike_def dest: spec [of _ PF_KERNEL])
      have "a \<noteq> 0" using 2(4) by (simp add: fresh_pages_def)
      then have "sys_malloc (of_nat sz) s = Inr (a + of_nat 12, with_mutex ?m ?t)"
        unfolding large malloc_large_def cnt Let_def un using mu
        by (simp add: bnd_Inr [where m = "malloc_page PF_KERNEL (of_nat ?n)" and s = s0, OF 2(1)]
            bnd_Inr [where m = "zero_pages a ?n" and s = s1, OF 2(2)] bnd_set_arena kernel_unlock_run arena_bytes_def)
      moreover have "sz \<le> 4096 * ?n - 12" unfolding n(1) by simp
      ultimately show thesis using that(2) [of a 12 "with_mutex ?m ?t" "4096 * ?n - 12"] taken by (simp add: s0_def)
    qed
  qed
qed

section \<open>Properties\<close>

text \<open>
  C4: \<open>sys_malloc\<close> of a kernel thread, for every size below the pool's and enough free memory:
  it returns the address of a block that was not in use and has at least the bytes asked for, all
  of them 0; the blocks in use before stay in use, where they are and with their contents; the
  invariant and the lock are kept. Only a request of more than 1024 bytes can fail, with 0 and
  nothing changed, when no run of virtual pages is long enough.
\<close>

theorem sys_malloc_correct:
  assumes "heap_ok s" and "can_get (pages_for sz) s" and "1 \<le> sz" and "sz < unat (pool_size (kernel_pool s))"
  shows "sys_malloc (of_nat sz) s = Inr (0, s) \<and> 1024 < sz \<and>
      (\<forall>q. q + pages_for sz \<le> bitmap_cap (vaddr_bitmap (kernel_vaddr s)) \<longrightarrow>
         \<not> run_free (vaddr_bitmap (kernel_vaddr s)) q (pages_for sz)) \<or>
    (\<exists>b l s'. sys_malloc (of_nat sz) s = Inr (b, s') \<and> b \<noteq> 0 \<and> sz \<le> l \<and> heap_ok s' \<and>
       (b, l) \<notin> blocks s \<and> blocks s' = insert (b, l) (blocks s) \<and>
       (\<forall>(c, k) \<in> blocks s. same_bytes s s' c k) \<and>
       (\<forall>x < l. \<exists>pa. mmu s' (b + of_nat x) = Some pa \<and> ram s' pa = 0) \<and>
       mutex (kernel_pool s') = mutex (kernel_pool s))"
  using assms
proof (cases rule: sys_malloc_run)
  case 1
  then show ?thesis by blast
next
  case (2 a off l s')
  let ?b = "a + of_nat off"
  note t = 2(3) [unfolded block_taken_def]
  have use: "in_use s' a off l" using t by blast
  have inv': "heap_ok s'" using t by blast
  have "(?b, l) \<notin> blocks s"
  proof
    assume "(?b, l) \<in> blocks s"
    then obtain c o' where c: "in_use s c o' l" "a + of_nat off = c + of_nat o'" by (auto simp: blocks_def)
    then have "in_use s' c o' l" using t by blast
    from in_use_address [OF inv' use this c(2)] c(1) t show False by blast
  qed
  moreover have "blocks s' = insert (?b, l) (blocks s)" using t unfolding blocks_def by blast
  moreover have "\<forall>(c, k) \<in> blocks s. same_bytes s s' c k" using t by (auto simp: blocks_def same_bytes_kept)
  moreover have "\<forall>x < l. \<exists>pa. mmu s' (?b + of_nat x) = Some pa \<and> ram s' pa = 0" using t by (simp add: add.assoc)
  moreover have "?b \<noteq> 0" by (rule in_use_nonzero [OF inv' use])
  ultimately show ?thesis using 2(1,2,4) inv' by blast
qed

end
