(* ===== verification/Sys_Free.thy ===== *)
theory Sys_Free
  imports Sys_Malloc
begin

text \<open>\<open>sys_free\<close> of a kernel thread.\<close>

section \<open>An arena goes back\<close>

lemma unlink_blocks_run:
  assumes run: "page_run a 1" and i: "i < 7"
  shows "descs_ok s \<Longrightarrow> free_queue s i = l \<Longrightarrow> distinct l \<Longrightarrow> k + n \<le> blk_cnt i \<Longrightarrow> block_at a i ` {k..<k + n} \<subseteq> set l \<Longrightarrow>
    unlink_blocks (K_desc i) a (of_nat k) n s =
      Inr ((), if n = 0 then s else with_queue i (filter (\<lambda>b. b \<notin> block_at a i ` {k..<k + n}) l) s)"
proof (induction n arbitrary: k s l)
  case (Suc n)
  let ?d = "k_block_descs s ! i" and ?b = "block_at a i k"
  have d: "free_list ?d = l" "block_size ?d = of_nat (blk_size i)"
    using Suc.prems(1,2) i by (simp_all add: free_queue_def descs_ok_def)
  have b: "?b \<in> set l" using Suc.prems(5) by auto
  let ?l = "filter (\<lambda>c. c \<noteq> ?b) l"
  have rem: "remove1 ?b l = ?l" using Suc.prems(3) by (simp add: distinct_remove1_removeAll removeAll_filter_not_eq) metis
  let ?s = "with_queue i ?l s"
  have "unlink_blocks (K_desc i) a (of_nat k) (Suc n) s = unlink_blocks (K_desc i) a (of_nat (Suc k)) n ?s"
    using b by (simp add: bnd_get_desc [OF Suc.prems(1) i] d Let_def arena2block_at bnd_set_free_list rem add.commute)
  also have "\<dots> = Inr ((), if n = 0 then ?s else with_queue i (filter (\<lambda>b. b \<notin> block_at a i ` {Suc k..<Suc k + n}) ?l) ?s)"
  proof (intro Suc.IH)
    show "block_at a i ` {Suc k..<Suc k + n} \<subseteq> set ?l"
    proof
      fix c assume "c \<in> block_at a i ` {Suc k..<Suc k + n}"
      then obtain x where x: "c = block_at a i x" "Suc k \<le> x" "x < Suc k + n" by auto
      then have "c \<noteq> ?b" using block_at_eq_iff [OF run _ i, where j = x and k = k] Suc.prems(4) by simp
      then show "c \<in> set ?l" using x Suc.prems(5) by auto
    qed
  qed (use Suc.prems i in simp_all)
  finally have run: "unlink_blocks (K_desc i) a (of_nat k) (Suc n) s =
      Inr ((), if n = 0 then ?s else with_queue i (filter (\<lambda>b. b \<notin> block_at a i ` {Suc k..<Suc k + n}) ?l) ?s)" .
  let ?F = "filter (\<lambda>b. b \<notin> block_at a i ` {k..<k + Suc n}) l"
  have "{k..<k + Suc n} = insert k {Suc k..<Suc k + n}" by auto
  then have F: "filter (\<lambda>b. b \<notin> block_at a i ` {Suc k..<Suc k + n}) ?l = ?F" by (simp add: conj_commute)
  have "(if n = 0 then ?s else with_queue i (filter (\<lambda>b. b \<notin> block_at a i ` {Suc k..<Suc k + n}) ?l) ?s) = with_queue i ?F s"
  proof (cases "n = 0")
    case True
    then have "?l = ?F" using F by simp
    with True show ?thesis by simp
  next
    case False
    then show ?thesis unfolding F using with_queue_descs(5) [OF Suc.prems(1) i] by simp
  qed
  with run show ?case by simp
qed simp

lemma regions_ok_restrict: "regions_ok R s \<Longrightarrow> regions_ok (R(a := None)) s"
  unfolding regions_ok_def by (simp split: if_splits) blast

text \<open>
  From a state that differs from \<open>s\<close> in the arena \<open>a\<close> and in that no block of \<open>a\<close> is linked, giving
  back the pages of \<open>a\<close> restores the invariant.
\<close>

lemma arena_removed:
  assumes inv: "heap_ok s" and a: "heap_map s a = Some n"
    and t: "ram t = ram s" "mmu t = mmu s" "regions_ok (heap_map s) t" "pgdir t = 0" "descs_ok t" "kernel_vaddr t = kernel_vaddr s"
      "\<And>b. b \<noteq> a \<Longrightarrow> arenas t b = arenas s b"
      "\<And>k. k < 7 \<Longrightarrow> free_queue t k = filter (\<lambda>c. block2arena c \<noteq> a) (free_queue s k)"
  obtains t1 where "mfree_page PF_KERNEL a (of_nat n) t = Inr ((), t1)" and "heap_ok (t1\<lparr>arenas := (arenas t1)(a := None)\<rparr>)"
    and "\<And>b o' k. in_use (t1\<lparr>arenas := (arenas t1)(a := None)\<rparr>) b o' k \<longleftrightarrow> in_use s b o' k \<and> b \<noteq> a"
    and "\<And>b o' k. in_use s b o' k \<Longrightarrow> b \<noteq> a \<Longrightarrow> kept_block s (t1\<lparr>arenas := (arenas t1)(a := None)\<rparr>) b o' k"
    and "pools_alike t t1" and "\<And>g. is_free t1 g \<longleftrightarrow> is_free t g \<or> (\<exists>i < n. mmu s (page_at a i) = Some g)"
    and "pages_back t1 a n" and "\<And>c. arenas t1 c = arenas t c"
proof -
  let ?R = "(heap_map s)(a := None)"
  have ok: "regions_ok (heap_map s) s" using inv by (simp add: heap_inv_def)
  obtain t1 where f: "mfree_page PF_KERNEL a (of_nat n) t = Inr ((), t1)" "regions_ok ?R t1" "regions_kept ?R t t1"
      "\<forall>g. is_free t1 g \<longleftrightarrow> is_free t g \<or> (\<exists>i < n. mmu t (page_at a i) = Some g)" "pools_alike t t1"
      "vaddr_start (kernel_vaddr t1) = vaddr_start (kernel_vaddr t)" "pgdir t1 = pgdir t" "k_block_descs t1 = k_block_descs t" "arenas t1 = arenas t"
      "pages_back t1 a n"
    by (rule regions_remove [OF t(3) a])
  let ?u = "t1\<lparr>arenas := (arenas t1)(a := None)\<rparr>"
  have ar: "arenas ?u b = (if b = a then None else arenas s b)" for b using t(7) f(9) by simp
  have fq: "free_queue ?u k = filter (\<lambda>c. block2arena c \<noteq> a) (free_queue s k)" if "k < 7" for k
    using t(8) [OF that] f(8) by (simp add: free_queue_def)
  have linked: "block_at b k x \<in> set (free_queue ?u k) \<longleftrightarrow> block_at b k x \<in> set (free_queue s k)"
    if b: "arenas s b = Some ar'" "desc ar' = Some (K_desc k)" "x < blk_cnt k" "b \<noteq> a" for b ar' k x
    using fq [OF block_of_arena(2) [OF inv b(1-3)]] block_of_arena(1) [OF inv b(1-3)] b(4) by simp
  have map: "heap_map ?u = ?R" using ar by (auto simp: heap_map_def fun_eq_iff)
  note mmu = same_tables(3) [of ?u t1, simplified]
  have "arena_ok {} ?u b ar'" if b: "arenas ?u b = Some ar'" for b ar'
  proof -
    have b': "arenas s b = Some ar'" "b \<noteq> a" using b unfolding ar by (auto split: if_splits)
    then have "arena_ok {} s b ar'" using inv by (simp add: heap_inv_def)
    moreover have "free_blocks ?u b k = free_blocks s b k" if "desc ar' = Some (K_desc k)" for k
      using linked [OF b'(1) that _ b'(2)] by (auto simp: free_blocks_def)
    ultimately show ?thesis by (auto simp: arena_ok_def)
  qed
  moreover have "distinct (free_queue ?u k) \<and> (\<forall>c \<in> set (free_queue ?u k). \<exists>b ar' j. arenas ?u b = Some ar' \<and>
      desc ar' = Some (K_desc k) \<and> j < blk_cnt k \<and> c = block_at b k j)" if k: "k < 7" for k
  proof (intro conjI ballI)
    show "distinct (free_queue ?u k)" using inv k by (simp add: heap_inv_def fq [OF k])
    fix c assume "c \<in> set (free_queue ?u k)"
    then have c: "c \<in> set (free_queue s k)" "block2arena c \<noteq> a" by (simp_all add: fq [OF k])
    obtain b ar' j where "arenas s b = Some ar'" "desc ar' = Some (K_desc k)" "j < blk_cnt k" "c = block_at b k j" "block2arena c = b"
      by (rule block_arena [OF inv c(1) k])
    then show "\<exists>b ar' j. arenas ?u b = Some ar' \<and> desc ar' = Some (K_desc k) \<and> j < blk_cnt k \<and> c = block_at b k j"
      using c(2) ar by auto
  qed
  moreover have "regions_ok ?R ?u" using f(2) by simp
  moreover have "pgdir ?u = 0" "descs_ok ?u" "K_HEAP_START \<le> vaddr_start (kernel_vaddr ?u)"
    using t(4-6) f(6-8) inv by (simp_all add: descs_ok_def heap_inv_def)
  ultimately have "heap_ok ?u" by (simp add: heap_inv_def map)
  moreover have "in_use ?u b o' k \<longleftrightarrow> in_use s b o' k \<and> b \<noteq> a" for b o' k
  proof (cases "b = a")
    case True
    then show ?thesis using ar [of a] unfolding in_use_def by simp
  next
    case False
    then have "arenas ?u b = arenas s b" unfolding ar by simp
    from in_use_cong [OF this linked] show ?thesis using False by simp
  qed
  moreover have "kept_block s ?u b o' k" if u: "in_use s b o' k" "b \<noteq> a" for b o' k
  proof -
    obtain m where m: "heap_map s b = Some m" using in_use_region [OF inv u(1)] by blast
    then have R: "?R b = Some m" using u(2) by simp
    have "regions_kept ?R s t1" using f(3) unfolding regions_kept_def t(1,2) .
    from regions_kept_block [OF inv u(1) m R R regions_ok_restrict [OF ok] f(2) this] show ?thesis by (simp add: kept_block_def mmu)
  qed
  moreover have "is_free t1 g \<longleftrightarrow> is_free t g \<or> (\<exists>i < n. mmu s (page_at a i) = Some g)" for g using f(4) t(2) by simp
  ultimately show thesis using that [OF f(1) _ _ _ f(5) _ f(10)] f(9) by simp
qed

section \<open>A block goes back to its queue\<close>

definition freed :: "nat \<Rightarrow> u32 \<Rightarrow> u32 \<Rightarrow> arena \<Rightarrow> mm \<Rightarrow> mm" where
  "freed i b a ar s = (with_queue i (free_queue s i @ [b]) s)\<lparr>arenas := (arenas s)(a \<mapsto> ar\<lparr>free_cnt := free_cnt ar + 1\<rparr>)\<rparr>"

lemma freed_state:
  assumes inv: "heap_ok s" and i: "i < 7" and a: "arenas s a = Some ar" "desc ar = Some (K_desc i)"
  shows "ram (freed i b a ar s) = ram s" and "mmu (freed i b a ar s) = mmu s" and "heap_map (freed i b a ar s) = heap_map s"
    and "regions_ok R (freed i b a ar s) = regions_ok R s" and "pgdir (freed i b a ar s) = 0" and "descs_ok (freed i b a ar s)"
    and "kernel_vaddr (freed i b a ar s) = kernel_vaddr s"
    and "k < 7 \<Longrightarrow> free_queue (freed i b a ar s) k = (if k = i then free_queue s i @ [b] else free_queue s k)"
proof -
  have descs: "descs_ok s" "pgdir s = 0" using inv by (simp_all add: heap_inv_def)
  show "ram (freed i b a ar s) = ram s" "kernel_vaddr (freed i b a ar s) = kernel_vaddr s" "pgdir (freed i b a ar s) = 0"
    using descs by (simp_all add: freed_def)
  have "ram (freed i b a ar s) = ram s" "cr3 (freed i b a ar s) = cr3 s" by (simp_all add: freed_def with_queue_def)
  then show "mmu (freed i b a ar s) = mmu s" by (rule same_tables(3))
  show "heap_map (freed i b a ar s) = heap_map s" using a by (auto simp: heap_map_def freed_def fun_eq_iff)
  show "regions_ok R (freed i b a ar s) = regions_ok R s" by (simp add: freed_def)
  show "descs_ok (freed i b a ar s)" using with_queue_descs(1) [OF descs(1) i] by (simp add: freed_def descs_ok_def)
  show "k < 7 \<Longrightarrow> free_queue (freed i b a ar s) k = (if k = i then free_queue s i @ [b] else free_queue s k)"
    using with_queue_descs(2) [OF descs(1) i] by (simp add: freed_def free_queue_def)
qed

lemma freed_inv:
  assumes inv: "heap_ok s" and i: "i < 7" and a: "arenas s a = Some ar" "desc ar = Some (K_desc i)" "j < blk_cnt i"
    and b: "b = block_at a i j" "b \<notin> set (free_queue s i)" and room: "Suc (card (free_blocks s a i)) < blk_cnt i"
  shows "heap_ok (freed i b a ar s)"
    and "in_use (freed i b a ar s) c o' k \<longleftrightarrow> in_use s c o' k \<and> (c, o', k) \<noteq> (a, 12 + j * blk_size i, blk_size i)"
proof -
  let ?t = "freed i b a ar s"
  note st = freed_state [OF inv i a(1,2), where b = b]
  have A: "arena_ok {} s a ar" using inv a by (simp add: heap_inv_def)
  have arn: "arenas ?t c = (if c = a then Some (ar\<lparr>free_cnt := free_cnt ar + 1\<rparr>) else arenas s c)" for c by (simp add: freed_def)
  have linked: "block_at c k x \<in> set (free_queue ?t k) \<longleftrightarrow> block_at c k x \<in> set (free_queue s k) \<or> c = a \<and> k = i \<and> x = j"
    if h: "arenas s c = Some ar'" "desc ar' = Some (K_desc k)" "x < blk_cnt k" for c ar' k x
  proof -
    have k: "k < 7" by (rule block_of_arena(2) [OF inv h])
    have "block_at c k x = b \<longleftrightarrow> c = a \<and> x = j" if "k = i"
    proof -
      have "x < blk_cnt i" using h(3) that by simp
      from block_of_arena(3) [OF inv a this] show ?thesis
        using block_of_arena(1) [OF inv h] block_of_arena(1) [OF inv a] b(1) that by metis
    qed
    then show ?thesis using st(8) [OF k] by auto
  qed
  have fb: "free_blocks ?t a i = insert j (free_blocks s a i)"
    using linked [OF a(1,2)] a(3) by (auto simp: free_blocks_def)
  have "j \<notin> free_blocks s a i" using b by (simp add: free_blocks_def)
  then have card: "card (free_blocks ?t a i) = Suc (card (free_blocks s a i))" using fb free_blocks_bounds(1) by simp
  have "arena_ok {} ?t c ar'" if c: "arenas ?t c = Some ar'" for c ar'
  proof (cases "c = a")
    case True
    then have "ar' = ar\<lparr>free_cnt := free_cnt ar + 1\<rparr>" using c arn by simp
    then show ?thesis using True card room a(2) i arena_okD(2,3) [OF A a(2)] by (simp add: arena_ok_def add.commute)
  next
    case False
    then have c': "arenas s c = Some ar'" using c arn by simp
    then have "arena_ok {} s c ar'" using inv by (simp add: heap_inv_def)
    moreover have "free_blocks ?t c k = free_blocks s c k" if "desc ar' = Some (K_desc k)" for k
      using linked [OF c' that] False by (auto simp: free_blocks_def)
    ultimately show ?thesis by (auto simp: arena_ok_def)
  qed
  moreover have "distinct (free_queue ?t k) \<and> (\<forall>c \<in> set (free_queue ?t k). \<exists>d ar' x. arenas ?t d = Some ar' \<and>
      desc ar' = Some (K_desc k) \<and> x < blk_cnt k \<and> c = block_at d k x)" if k: "k < 7" for k
  proof (intro conjI ballI)
    show "distinct (free_queue ?t k)" using inv k b(2) by (simp add: st(8) heap_inv_def)
    fix c assume "c \<in> set (free_queue ?t k)"
    then consider "c \<in> set (free_queue s k)" | "k = i" "c = b" using st(8) [OF k] by (auto split: if_splits)
    then show "\<exists>d ar' x. arenas ?t d = Some ar' \<and> desc ar' = Some (K_desc k) \<and> x < blk_cnt k \<and> c = block_at d k x"
    proof cases
      case 1
      obtain d ar' x where h: "arenas s d = Some ar'" "desc ar' = Some (K_desc k)" "x < blk_cnt k" "c = block_at d k x"
        by (rule block_arena [OF inv 1 k])
      then show ?thesis using arn a(1) by (cases "d = a") auto
    next
      case 2
      have "arenas ?t a = Some (ar\<lparr>free_cnt := free_cnt ar + 1\<rparr>)" "desc (ar\<lparr>free_cnt := free_cnt ar + 1\<rparr>) = Some (K_desc k)"
        using arn a(2) 2 by simp_all
      then show ?thesis using 2 a(3) b(1) by blast
    qed
  qed
  ultimately show "heap_ok ?t" using inv by (simp add: heap_inv_def st)
  show "in_use ?t c o' k \<longleftrightarrow> in_use s c o' k \<and> (c, o', k) \<noteq> (a, 12 + j * blk_size i, blk_size i)"
  proof (cases "c = a")
    case True
    have sz: "0 < blk_size i" using blk_bounds(1) [OF i] by simp
    have "arenas ?t a = Some (ar\<lparr>free_cnt := free_cnt ar + 1\<rparr>)" using arn by simp
    from in_use_small [OF this _ i, of o' k] in_use_small [OF a(1,2) i, of o' k] linked [OF a(1,2)] True a(2) sz
    show ?thesis by auto
  next
    case False
    then have "arenas ?t c = arenas s c" using arn by simp
    from in_use_cong [OF this] linked False show ?thesis by simp
  qed
qed

lemma same_memory_kept:
  "heap_inv F s \<Longrightarrow> in_use s a off l \<Longrightarrow> ram s' = ram s \<Longrightarrow> mmu s' = mmu s \<Longrightarrow> kept_block s s' a off l"
  unfolding kept_block_def by (metis in_use_byte)

lemma heap_address:
  assumes inv: "heap_ok s" and u: "in_use s a off l" and off: "off < 4096"
  shows "K_HEAP_START \<le> a + of_nat off" and "block2arena (a + of_nat off) = a"
proof -
  have ok: "regions_ok (heap_map s) s" and K: "K_HEAP_START \<le> vaddr_start (kernel_vaddr s)" using inv by (simp_all add: heap_inv_def)
  obtain n where n: "heap_map s a = Some n" "off + l \<le> 4096 * n" "1 \<le> l" using in_use_region [OF inv u] by blast
  note run = region_run(1,2) [OF ok n(1)]
  show "block2arena (a + of_nat off) = a" by (rule block2arena_at [OF run(2) off run(1)])
  obtain q where q: "a = page_at (vaddr_start (kernel_vaddr s)) q" "q + n \<le> Suc (bitmap_cap (vaddr_bitmap (kernel_vaddr s)))"
    using ok n(1) unfolding regions_ok_def region_def by blast
  have "page_run (vaddr_start (kernel_vaddr s)) (Suc (bitmap_cap (vaddr_bitmap (kernel_vaddr s))))"
    using ok by (simp add: regions_ok_def kvaddr_ok_def)
  then have "unat a = unat (vaddr_start (kernel_vaddr s)) + 4096 * q" using unat_page_at q run(1) by simp
  moreover have "unat (a + of_nat off) = unat a + off" using page_byte(3) [OF run(2), of off] n by simp
  ultimately show "K_HEAP_START \<le> a + of_nat off" using K by (simp add: word_le_nat_alt)
qed

text \<open>
  The arenas that went: their pages are unmapped and free, and the frames they had are the only ones
  that became free.
\<close>

definition arenas_back :: "mm \<Rightarrow> mm \<Rightarrow> bool" where
  "arenas_back s s' \<longleftrightarrow>
     (\<forall>c n. heap_map s c = Some n \<and> arenas s' c = None \<longrightarrow> pages_back s' c n) \<and>
     (\<forall>g. is_free s' g \<longleftrightarrow> is_free s g \<or>
       (\<exists>c n i. heap_map s c = Some n \<and> arenas s' c = None \<and> i < n \<and> mmu s (page_at c i) = Some g))"

text \<open>What remains when a block has been freed.\<close>

definition block_freed :: "mm \<Rightarrow> mm \<Rightarrow> u32 \<Rightarrow> nat \<Rightarrow> nat \<Rightarrow> bool" where
  "block_freed s s' a off l \<longleftrightarrow>
     heap_ok s' \<and> (\<forall>b o' k. in_use s' b o' k \<longleftrightarrow> in_use s b o' k \<and> (b, o', k) \<noteq> (a, off, l)) \<and>
     (\<forall>b o' k. in_use s' b o' k \<longrightarrow> kept_block s s' b o' k) \<and> arenas_back s s'"

lemma arenas_upd [simp]: "mmu (s\<lparr>arenas := m\<rparr>) = mmu s" "pages_back (s\<lparr>arenas := m\<rparr>) a n = pages_back s a n"
proof -
  show "mmu (s\<lparr>arenas := m\<rparr>) = mmu s" by (rule same_tables(3)) simp_all
  then show "pages_back (s\<lparr>arenas := m\<rparr>) a n = pages_back s a n" by (simp add: pages_back_def)
qed

lemma arenas_back_none:
  assumes "\<And>c. arenas s' c = None \<longleftrightarrow> arenas s c = None" and "is_free s' = is_free s"
  shows "arenas_back s s'"
  using assms by (auto simp: arenas_back_def heap_map_def)

lemma arenas_back_one:
  assumes "\<And>c. arenas v c = None \<longleftrightarrow> c = a \<or> arenas s c = None" and "heap_map s a = Some n" and "pages_back v a n"
    and "\<And>g. is_free v g \<longleftrightarrow> is_free s g \<or> (\<exists>i < n. mmu s (page_at a i) = Some g)"
  shows "arenas_back s v"
proof -
  have only: "heap_map s c = Some m \<and> arenas v c = None \<longleftrightarrow> c = a \<and> m = n" for c m
    using assms(1,2) by (auto simp: heap_map_def)
  have "(\<exists>c m i. heap_map s c = Some m \<and> arenas v c = None \<and> i < m \<and> mmu s (page_at c i) = Some g) \<longleftrightarrow>
      (\<exists>i < n. mmu s (page_at a i) = Some g)" for g
    by (simp only: conj_assoc [symmetric] only) blast
  then show ?thesis unfolding arenas_back_def only using assms(3,4) by simp
qed

lemma block_freedI:
  assumes "heap_ok v" and "\<And>b o' k. in_use v b o' k \<longleftrightarrow> in_use s b o' k \<and> b \<noteq> a" and "\<And>o' k. in_use s a o' k \<longleftrightarrow> o' = off \<and> k = l"
    and "\<And>b o' k. in_use s b o' k \<Longrightarrow> b \<noteq> a \<Longrightarrow> kept_block s v b o' k" and "arenas_back s v"
  shows "block_freed s v a off l"
  unfolding block_freed_def
proof (intro conjI allI impI)
  show "in_use v b o' k \<longleftrightarrow> in_use s b o' k \<and> (b, o', k) \<noteq> (a, off, l)" for b o' k
    using assms(2,3) by (cases "b = a") simp_all
  show "kept_block s v b o' k" if "in_use v b o' k" for b o' k using that assms(2,4) by simp
qed (use assms(1,5) in simp_all)

lemma free_small_run:
  assumes inv: "heap_ok s" and i: "i < 7" and a: "arenas s a = Some ar" "desc ar = Some (K_desc i)" "j < blk_cnt i"
    and b: "b = block_at a i j" "b \<notin> set (free_queue s i)"
  obtains s' where "free_small PF_KERNEL b a ar (K_desc i) s = Inr ((), s')"
    and "block_freed s s' a (12 + j * blk_size i) (blk_size i)" and "mutex (kernel_pool s') = mutex (kernel_pool s)"
proof -
  let ?t = "freed i b a ar s" and ?c = "card (free_blocks s a i)"
  have descs: "descs_ok s" and A: "arena_ok {} s a ar" and ok: "regions_ok (heap_map s) s" and dist: "distinct (free_queue s i)"
    using inv a i by (simp_all add: heap_inv_def)
  note st = freed_state [OF inv i a(1,2), where b = b]
  have d: "blocks_per_arena (k_block_descs s ! i) = of_nat (blk_cnt i)" using descs i by (simp add: descs_ok_def)
  have cnt: "free_cnt ar = of_nat ?c" "?c < blk_cnt i" "blk_cnt i \<le> 255" using arena_okD(3,4) [OF A a(2)] blk_bounds(4) [OF i] by simp_all
  have "unat (of_nat (Suc ?c) :: u32) = Suc ?c" "unat (of_nat (blk_cnt i) :: u32) = blk_cnt i" using cnt by (auto intro!: unat_of_nat_u32 simp del: of_nat_Suc)
  then have full: "free_cnt ar + 1 = (of_nat (blk_cnt i) :: u32) \<longleftrightarrow> Suc ?c = blk_cnt i"
    unfolding cnt(1) by (metis Suc_eq_plus1 of_nat_1 of_nat_add)
  have start: "free_small PF_KERNEL b a ar (K_desc i) s =
      whenm (Suc ?c = blk_cnt i) (bnd (unlink_blocks (K_desc i) a 0 (blk_cnt i)) (\<lambda>_. bnd (mfree_page PF_KERNEL a 1) (\<lambda>_. set_arena a None))) ?t"
    using b(2) cnt(3) by (simp add: free_small_def bnd_get_desc [OF descs i] bnd_set_free_list bnd_set_arena d Let_def full free_queue_def [symmetric]
        freed_def unat_of_nat_u32 flip: full)
  have in_pool: "is_free ?t = is_free s" by (rule regions_ok_cong) (simp_all add: freed_def with_queue_def)
  show thesis
  proof (cases "Suc ?c = blk_cnt i")
    case False
    then have "Suc ?c < blk_cnt i" using cnt(2) by simp
    note f = freed_inv [OF inv i a b this]
    have "free_small PF_KERNEL b a ar (K_desc i) s = Inr ((), ?t)" using start False by (simp add: ret_def)
    moreover have "block_freed s ?t a (12 + j * blk_size i) (blk_size i)"
      using f same_memory_kept [OF inv _ st(1,2)] arenas_back_none [OF _ in_pool] a(1)
      by (simp add: block_freed_def) (simp add: freed_def)
    ultimately show thesis using that by (simp add: freed_def)
  next
    case True
    have map: "heap_map s a = Some 1" using a by (simp add: heap_map_def)
    note run = region_run(2) [OF ok map]
    have "insert j (free_blocks s a i) = {0..<blk_cnt i}"
      using a(3) b free_blocks_bounds(1) [of s a i] True by (intro card_subset_eq) (auto simp: free_blocks_def)
    then have all: "block_at a i ` {0..<0 + blk_cnt i} \<subseteq> set (free_queue s i @ [b])"
      using b(1) by (auto simp: free_blocks_def)
    let ?l = "filter (\<lambda>c. c \<notin> block_at a i ` {0..<0 + blk_cnt i}) (free_queue s i @ [b])"
    let ?u = "with_queue i ?l ?t"
    have fqt: "free_queue ?t i = free_queue s i @ [b]" "distinct (free_queue s i @ [b])" using st(8) [OF i] dist b(2) by simp_all
    have unlink: "unlink_blocks (K_desc i) a 0 (blk_cnt i) ?t = Inr ((), ?u)"
      using unlink_blocks_run [OF run i st(6) fqt _ all] blk_bounds(3) [OF i] by simp
    have own: "c \<in> block_at a i ` {0..<0 + blk_cnt i} \<longleftrightarrow> block2arena c = a" if c: "c \<in> set (free_queue s i)" for c
    proof -
      obtain e ar' x where h: "arenas s e = Some ar'" "x < blk_cnt i" "c = block_at e i x" "block2arena c = e"
        by (rule block_arena [OF inv c i])
      then show ?thesis using block_at_page [OF run _ i] by auto
    qed
    have other: "block2arena c \<noteq> a" if k: "k < 7" "k \<noteq> i" and c: "c \<in> set (free_queue s k)" for k c
    proof -
      obtain e ar' x where "arenas s e = Some ar'" "desc ar' = Some (K_desc k)" "block2arena c = e" by (rule block_arena [OF inv c k(1)])
      then show ?thesis using a(1,2) k(2) by auto
    qed
    have "?l = filter (\<lambda>c. block2arena c \<noteq> a) (free_queue s i)"
    proof -
      have "filter (\<lambda>c. c \<notin> block_at a i ` {0..<0 + blk_cnt i}) (free_queue s i) = filter (\<lambda>c. block2arena c \<noteq> a) (free_queue s i)"
        by (rule filter_cong) (simp_all only: own)
      moreover have "b \<in> block_at a i ` {0..<0 + blk_cnt i}" using b(1) a(3) by auto
      ultimately show ?thesis by simp
    qed
    then have fq: "free_queue ?u k = filter (\<lambda>c. block2arena c \<noteq> a) (free_queue s k)" if "k < 7" for k
      using with_queue_descs(2) [OF st(6) i that] st(8) [OF that] other [OF that] by (auto simp: filter_id_conv)
    have u: "ram ?u = ram s" "mmu ?u = mmu s" "regions_ok (heap_map s) ?u" "pgdir ?u = 0" "descs_ok ?u" "kernel_vaddr ?u = kernel_vaddr s"
      using st(1,2,4,5,7) with_queue_descs(1) [OF st(6) i] ok by simp_all
    have aru: "arenas ?u c = arenas s c" if "c \<noteq> a" for c using that by (simp add: freed_def)
    obtain t1 where t1: "mfree_page PF_KERNEL a (of_nat 1) ?u = Inr ((), t1)" "heap_ok (t1\<lparr>arenas := (arenas t1)(a := None)\<rparr>)"
      "\<And>b o' k. in_use (t1\<lparr>arenas := (arenas t1)(a := None)\<rparr>) b o' k \<longleftrightarrow> in_use s b o' k \<and> b \<noteq> a"
      "\<And>b o' k. in_use s b o' k \<Longrightarrow> b \<noteq> a \<Longrightarrow> kept_block s (t1\<lparr>arenas := (arenas t1)(a := None)\<rparr>) b o' k"
      "pools_alike ?u t1" "\<And>g. is_free t1 g \<longleftrightarrow> is_free ?u g \<or> (\<exists>i < 1. mmu s (page_at a i) = Some g)"
      "pages_back t1 a 1" "\<And>c. arenas t1 c = arenas ?u c"
      by (rule arena_removed [OF inv map u aru fq]) (assumption | rule that; assumption)+
    let ?v = "t1\<lparr>arenas := (arenas t1)(a := None)\<rparr>"
    have "free_small PF_KERNEL b a ar (K_desc i) s = Inr ((), ?v)"
      using start True t1(1) by (simp add: bnd_Inr [where m = "unlink_blocks (K_desc i) a 0 (blk_cnt i)" and s = ?t, OF unlink]
          bnd_Inr [where m = "mfree_page PF_KERNEL a 1"] set_arena_def)
    moreover have only: "in_use s a o' k \<longleftrightarrow> o' = 12 + j * blk_size i \<and> k = blk_size i" for o' k
    proof -
      have "block_at a i x \<notin> set (free_queue s i) \<longleftrightarrow> x = j" if x: "x < blk_cnt i" for x
      proof -
        have "block_at a i x \<in> block_at a i ` {0..<0 + blk_cnt i}" using x by simp
        then have "block_at a i x \<in> set (free_queue s i @ [b])" using all by blast
        then show ?thesis using b block_of_arena(3) [OF inv a x] by auto
      qed
      then show ?thesis using in_use_small [OF a(1,2) i] a(3) by auto
    qed
    have "is_free ?u = is_free ?t" by (rule regions_ok_cong) (simp_all add: with_queue_def)
    moreover have "is_free ?v = is_free t1" by (rule regions_ok_cong) simp_all
    ultimately have "block_freed s ?v a (12 + j * blk_size i) (blk_size i)"
      using in_pool t1(6,7,8) aru a(1)
      by (intro block_freedI [OF t1(2,3) only t1(4)] arenas_back_one [OF _ map]) auto
    moreover have "mutex (kernel_pool ?v) = mutex (kernel_pool s)"
      using t1(5) by (auto simp: pools_alike_def freed_def dest: spec [of _ PF_KERNEL])
    ultimately show thesis using that \<open>free_small PF_KERNEL b a ar (K_desc i) s = Inr ((), ?v)\<close> by blast
  qed
qed

section \<open>\<open>sys_free\<close>\<close>

lemma block_freed_mutex [simp]:
  "block_freed (with_mutex n s) s' = block_freed s s'" "block_freed s (with_mutex n s') = block_freed s s'"
proof -
  have map: "heap_map (with_mutex n s) = heap_map s" by (simp add: heap_map_def fun_eq_iff)
  show "block_freed (with_mutex n s) s' = block_freed s s'" by (simp add: block_freed_def fun_eq_iff arenas_back_def map)
  have "heap_ok (with_mutex n s') = heap_ok s'" by simp
  then show "block_freed s (with_mutex n s') = block_freed s s'" by (simp add: block_freed_def fun_eq_iff arenas_back_def pages_back_def)
qed

lemma sys_free_run:
  assumes inv: "heap_ok s" and use: "in_use s a off l"
  obtains s' where "sys_free (a + of_nat off) s = Inr ((), s')" and "block_freed s s' a off l"
    and "mutex (kernel_pool s') = mutex (kernel_pool s)"
proof -
  let ?m = "mutex (kernel_pool s)" and ?b = "a + of_nat off"
  define s0 where "s0 = with_mutex (Suc ?m) s"
  have inv0: "heap_ok s0" and m0: "mutex (kernel_pool s0) = Suc ?m" using inv by (simp_all add: s0_def)
  obtain ar where ar: "arenas s a = Some ar" "(\<exists>i j. i < 7 \<and> desc ar = Some (K_desc i) \<and> j < blk_cnt i \<and>
      block_at a i j \<notin> set (free_queue s i) \<and> off = 12 + j * blk_size i \<and> l = blk_size i) \<or>
      desc ar = None \<and> off = 12 \<and> l = 4096 * unat (free_cnt ar) - 12" using use unfolding in_use_def by blast
  have A: "arena_ok {} s a ar" and pg: "pgdir s = 0" using inv ar by (simp_all add: heap_inv_def)
  have off: "off < 4096"
  proof (cases "desc ar = None")
    case False
    then obtain i j where h: "i < 7" "j < blk_cnt i" "off = 12 + j * blk_size i" using ar(2) by auto
    then show ?thesis using block_byte [OF h(1,2), of 0] blk_bounds(1) [OF h(1)] by simp
  qed (use ar in auto)
  note addr = heap_address [OF inv use off] in_use_nonzero [OF inv use]
  have large01: "large ar = 0 \<or> large ar = 1" using A by (auto simp: arena_ok_def)
  have arn0: "arenas s0 a = Some ar" using ar(1) by (simp add: s0_def)
  have start: "sys_free ?b s = bnd (if desc ar = None \<and> large ar = 1
        then bnd (mfree_page PF_KERNEL a (free_cnt ar)) (\<lambda>_. set_arena a None)
        else case desc ar of None \<Rightarrow> fail (Fault ''a->desc is NULL'') | Some r \<Rightarrow> free_small PF_KERNEL ?b a ar r)
      (\<lambda>_. pool_unlock PF_KERNEL) s0"
    using addr large01 pg by (simp add: sys_free_def kernel_lock_run bnd_get_arena [OF arn0] flip: s0_def cong: if_cong)
  have unlock: "pool_unlock PF_KERNEL t = Inr ((), with_mutex ?m t)" if "mutex (kernel_pool t) = Suc ?m" for t
    using that by (simp add: pool_unlock_def with_mutex_def)
  show thesis
  proof (cases "desc ar")
    case None
    then have l: "off = 12" "l = 4096 * unat (free_cnt ar) - 12" "large ar = 1" using ar(2) A by (auto simp: arena_ok_def)
    have map: "heap_map s0 a = Some (unat (free_cnt ar))" using arn0 None by (simp add: heap_map_def)
    have other: "block2arena c \<noteq> a" if k: "k < 7" and c: "c \<in> set (free_queue s0 k)" for k c
    proof -
      obtain e ar' x where "arenas s0 e = Some ar'" "desc ar' = Some (K_desc k)" "block2arena c = e" by (rule block_arena [OF inv0 c k])
      then show ?thesis using arn0 None by auto
    qed
    have fq: "free_queue s0 k = filter (\<lambda>c. block2arena c \<noteq> a) (free_queue s0 k)" if "k < 7" for k
      using other [OF that] by (simp add: filter_id_conv)
    have st: "regions_ok (heap_map s0) s0" "pgdir s0 = 0" "descs_ok s0" using inv0 by (simp_all add: heap_inv_def)
    obtain t1 where t1: "mfree_page PF_KERNEL a (of_nat (unat (free_cnt ar))) s0 = Inr ((), t1)" "heap_ok (t1\<lparr>arenas := (arenas t1)(a := None)\<rparr>)"
      "\<And>b o' k. in_use (t1\<lparr>arenas := (arenas t1)(a := None)\<rparr>) b o' k \<longleftrightarrow> in_use s0 b o' k \<and> b \<noteq> a"
      "\<And>b o' k. in_use s0 b o' k \<Longrightarrow> b \<noteq> a \<Longrightarrow> kept_block s0 (t1\<lparr>arenas := (arenas t1)(a := None)\<rparr>) b o' k"
      "pools_alike s0 t1" "\<And>g. is_free t1 g \<longleftrightarrow> is_free s0 g \<or> (\<exists>i < unat (free_cnt ar). mmu s0 (page_at a i) = Some g)"
      "pages_back t1 a (unat (free_cnt ar))" "\<And>c. arenas t1 c = arenas s0 c"
      by (rule arena_removed [OF inv0 map refl refl st refl refl fq]) (assumption | rule that; assumption)+
    let ?v = "t1\<lparr>arenas := (arenas t1)(a := None)\<rparr>"
    have mv: "mutex (kernel_pool ?v) = Suc ?m" using t1(5) m0 by (auto simp: pools_alike_def dest: spec [of _ PF_KERNEL])
    have "sys_free ?b s = Inr ((), with_mutex ?m ?v)"
      using start None l(3) t1(1) unlock [OF mv] by (simp add: bnd_assoc bnd_Inr [where m = "mfree_page PF_KERNEL a (free_cnt ar)" and s = s0] bnd_set_arena)
    moreover have only: "in_use s0 a o' k \<longleftrightarrow> o' = off \<and> k = l" for o' k using arn0 None l by (auto simp: in_use_def)
    have "is_free ?v = is_free t1" by (rule regions_ok_cong) simp_all
    then have "arenas_back s0 ?v"
      using t1(6,7,8) by (intro arenas_back_one [OF _ map]) auto
    then have "block_freed s0 ?v a off l" by (intro block_freedI [OF t1(2,3) only t1(4)])
    ultimately show thesis using that [of "with_mutex ?m ?v"] by (simp add: s0_def)
  next
    case (Some r)
    then obtain i j where h: "i < 7" "desc ar = Some (K_desc i)" "j < blk_cnt i" "block_at a i j \<notin> set (free_queue s i)"
        "off = 12 + j * blk_size i" "l = blk_size i" using ar(2) by auto
    have b: "?b = block_at a i j" "block_at a i j \<notin> set (free_queue s0 i)" using h(4,5) by (simp_all add: block_at_def s0_def)
    obtain s' where s': "free_small PF_KERNEL (block_at a i j) a ar (K_desc i) s0 = Inr ((), s')" "block_freed s0 s' a off l"
        "mutex (kernel_pool s') = mutex (kernel_pool s0)"
      using free_small_run [OF inv0 h(1) arn0 h(2,3) refl b(2)] h(5,6) by metis
    have "sys_free ?b s = Inr ((), with_mutex ?m s')"
      using start h(2) s'(1,3) b(1) m0 unlock [of s'] by (simp add: bnd_Inr [where m = "free_small PF_KERNEL (block_at a i j) a ar (K_desc i)" and s = s0])
    then show thesis using that [of "with_mutex ?m s'"] s'(2) by (simp add: s0_def)
  qed
qed

text \<open>No arena is kept that has no block in use.\<close>

lemma arena_has_block:
  assumes inv: "heap_ok s" and ar: "arenas s a = Some ar"
  shows "\<exists>off l. in_use s a off l"
proof -
  have A: "arena_ok {} s a ar" using inv ar by (simp add: heap_inv_def)
  show ?thesis
  proof (cases "desc ar")
    case None
    then show ?thesis using ar by (auto simp: in_use_def)
  next
    case (Some r)
    then obtain i where i: "i < 7" "desc ar = Some (K_desc i)" "card (free_blocks s a i) < blk_cnt i" using A by (auto simp: arena_ok_def)
    have "free_blocks s a i \<noteq> {..<blk_cnt i}" using i(3) by (metis card_lessThan less_irrefl)
    then obtain j where "j < blk_cnt i" "block_at a i j \<notin> set (free_queue s i)" unfolding free_blocks_def by blast
    then show ?thesis using in_use_small [OF ar i(2,1)] by blast
  qed
qed

section \<open>Properties\<close>

text \<open>
  C5: \<open>sys_free\<close> of a block in use, small or large, by a kernel thread succeeds and takes exactly
  that block out of use: the others stay in use, where they are and with their contents, and the
  invariant and the lock are kept. An arena is kept only as long as one of its blocks is in use; of
  an arena that is given back the pages are unmapped and free in the map of virtual pages, and the
  frames that were free and those of the arenas given back, no others, are free afterwards. When the
  last block of the heap goes, no arena is left.
\<close>

theorem sys_free_correct:
  assumes "heap_ok s" and "(b, l) \<in> blocks s"
  shows "\<exists>s'. sys_free b s = Inr ((), s') \<and> heap_ok s' \<and> blocks s' = blocks s - {(b, l)} \<and>
    (\<forall>(c, k) \<in> blocks s'. same_bytes s s' c k) \<and> mutex (kernel_pool s') = mutex (kernel_pool s) \<and>
    (\<forall>c. arenas s' c \<noteq> None \<longrightarrow> (\<exists>off k. in_use s' c off k)) \<and>
    (\<forall>c n. heap_map s c = Some n \<and> arenas s' c = None \<longrightarrow> pages_back s' c n) \<and>
    (\<forall>g. is_free s' g \<longleftrightarrow> is_free s g \<or>
      (\<exists>c n i. heap_map s c = Some n \<and> arenas s' c = None \<and> i < n \<and> mmu s (page_at c i) = Some g)) \<and>
    (blocks s' = {} \<longrightarrow> arenas s' = (\<lambda>_. None))"
proof -
  obtain a off where u: "in_use s a off l" "b = a + of_nat off" using assms(2) by (auto simp: blocks_def)
  obtain s' where s': "sys_free b s = Inr ((), s')" "block_freed s s' a off l" "mutex (kernel_pool s') = mutex (kernel_pool s)"
    using sys_free_run [OF assms(1) u(1)] u(2) by metis
  note f = s'(2) [unfolded block_freed_def]
  have use: "in_use s' c o' k \<longleftrightarrow> in_use s c o' k \<and> (c, o', k) \<noteq> (a, off, l)" for c o' k using f by blast
  have "blocks s' = blocks s - {(b, l)}"
  proof (intro equalityI subsetI)
    fix p assume "p \<in> blocks s'"
    then obtain c o' k where p: "p = (c + of_nat o', k)" "in_use s c o' k" "(c, o', k) \<noteq> (a, off, l)"
      using use by (auto simp: blocks_def)
    then have "p \<noteq> (b, l)" using in_use_address [OF assms(1) u(1) p(2)] u(2) by auto
    then show "p \<in> blocks s - {(b, l)}" using p by (auto simp: blocks_def)
  next
    fix p assume "p \<in> blocks s - {(b, l)}"
    then obtain c o' k where "p = (c + of_nat o', k)" "in_use s c o' k" "p \<noteq> (b, l)" by (auto simp: blocks_def)
    then show "p \<in> blocks s'" using use u(2) by (auto simp: blocks_def)
  qed
  moreover have "\<forall>(c, k) \<in> blocks s'. same_bytes s s' c k" using f by (auto simp: blocks_def same_bytes_kept)
  moreover have inv': "heap_ok s'" and given: "arenas_back s s'" using f by blast+
  have some: "\<forall>c. arenas s' c \<noteq> None \<longrightarrow> (\<exists>off k. in_use s' c off k)" using arena_has_block [OF inv'] by blast
  have "in_use s' c off k \<Longrightarrow> blocks s' \<noteq> {}" for c off k by (auto simp: blocks_def)
  with some have "blocks s' = {} \<longrightarrow> arenas s' = (\<lambda>_. None)" by blast
  ultimately show ?thesis using \<open>blocks s' = {} \<longrightarrow> arenas s' = (\<lambda>_. None)\<close> s'(1,3) inv' some given unfolding arenas_back_def by (intro exI [of _ s'] conjI) blast+
qed

section \<open>Witnesses\<close>

definition sample_heap :: mm where
  "sample_heap = sample_mm\<lparr>k_block_descs := block_desc_init\<rparr>"

lemma sample_descs_ok: "descs_ok sample_heap" "i < 7 \<Longrightarrow> free_queue sample_heap i = []"
proof -
  have nth: "init_descs n bs ! i = \<lparr>block_size = ucast (bs * 2 ^ i), blocks_per_arena = (PG_SIZE - arena_bytes) div ucast (bs * 2 ^ i), free_list = []\<rparr>"
    if "i < n" for n bs i
    using that by (induction n arbitrary: bs i) (auto simp: less_Suc_eq_0_disj mult.assoc)
  have len: "length (init_descs n bs) = n" for n bs by (induction n arbitrary: bs) simp_all
  have "block_size (block_desc_init ! i) = of_nat (blk_size i) \<and> blocks_per_arena (block_desc_init ! i) = of_nat (blk_cnt i)" if "i < 7" for i
    using nth [OF that, of 16] that unfolding below_7
    by (auto simp: block_desc_init_def blk_size_def blk_cnt_def PG_SIZE_def arena_bytes_def)
  then show "descs_ok sample_heap" using len [of 7 16] by (simp add: descs_ok_def sample_heap_def block_desc_init_def)
  show "i < 7 \<Longrightarrow> free_queue sample_heap i = []"
    using nth [of i 7 16] by (simp add: free_queue_def sample_heap_def block_desc_init_def)
qed

lemma sample_heap_ok: "heap_ok sample_heap" "can_get 1 sample_heap" "unat (pool_size (kernel_pool sample_heap)) = 32768"
proof -
  have eq: "ram sample_heap = ram sample_mm" "cr3 sample_heap = cr3 sample_mm" "kernel_pool sample_heap = kernel_pool sample_mm"
    "user_pool sample_heap = user_pool sample_mm" "mem sample_heap = mem sample_mm" "kernel_vaddr sample_heap = kernel_vaddr sample_mm"
    by (simp_all add: sample_heap_def)
  note cong = regions_ok_cong [OF eq]
  show "can_get 1 sample_heap" using sample_can_get by (simp add: can_get_def cong(5-7) eq(6))
  have "arenas sample_heap = (\<lambda>_. None)" "pgdir sample_heap = 0" "K_HEAP_START \<le> vaddr_start (kernel_vaddr sample_heap)"
    by (simp_all add: sample_heap_def sample_mm_def)
  moreover from this have "regions_ok (heap_map sample_heap) sample_heap"
    using sample_vm_ok sample_kvaddr_ok by (simp add: regions_ok_def heap_map_def cong(6,7))
  ultimately show "heap_ok sample_heap" using sample_descs_ok by (simp add: heap_inv_def)
  show "unat (pool_size (kernel_pool sample_heap)) = 32768" by (simp add: eq(3) sample_mm_def sample_pool_def)
qed

lemma sample_malloc:
  obtains b l s1 where "sys_malloc 100 sample_heap = Inr (b, s1)" and "heap_ok s1" and "(b, l) \<in> blocks s1" and "100 \<le> l" and "blocks s1 = {(b, l)}"
proof -
  have get: "can_get (pages_for 100) sample_heap" using sample_heap_ok(2) by (simp add: pages_for_def)
  have sz: "1 \<le> (100 :: nat)" "100 < unat (pool_size (kernel_pool sample_heap))" using sample_heap_ok(3) by simp_all
  from sys_malloc_run [OF sample_heap_ok(1) get sz] show thesis
  proof cases
    case (2 a off l s')
    have none: "\<not> in_use sample_heap c o' k" for c o' k by (simp add: in_use_def sample_heap_def sample_mm_def)
    show thesis using that [of "a + of_nat off" s' l] 2 none by (auto simp: block_taken_def blocks_def)
  qed simp
qed

theorem sys_malloc_correct_witness:
  "\<exists>b l s'. sys_malloc 100 sample_heap = Inr (b, s') \<and> b \<noteq> 0 \<and> 100 \<le> l \<and> heap_ok s' \<and> (b, l) \<in> blocks s'"
proof -
  have get: "can_get (pages_for 100) sample_heap" using sample_heap_ok(2) by (simp add: pages_for_def)
  have "sys_malloc 100 sample_heap = Inr (0, sample_heap) \<and> 1024 < (100 :: nat) \<or> (\<exists>b l s'. sys_malloc 100 sample_heap = Inr (b, s') \<and>
      b \<noteq> 0 \<and> 100 \<le> l \<and> heap_ok s' \<and> (b, l) \<in> blocks s')"
    using sys_malloc_correct [OF sample_heap_ok(1) get] sample_heap_ok(3) by auto
  then show ?thesis by simp
qed

theorem sys_free_correct_witness:
  "\<exists>b s1 s'. sys_malloc 100 sample_heap = Inr (b, s1) \<and> sys_free b s1 = Inr ((), s') \<and> arenas s' = (\<lambda>_. None) \<and>
    (\<forall>c n. heap_map s1 c = Some n \<longrightarrow> pages_back s' c n)"
proof -
  obtain b l s1 where s1: "sys_malloc 100 sample_heap = Inr (b, s1)" "heap_ok s1" "(b, l) \<in> blocks s1" "blocks s1 = {(b, l)}"
    by (rule sample_malloc)
  have "blocks s1 - {(b, l)} = {}" using s1(4) by simp
  then obtain s' where "sys_free b s1 = Inr ((), s')" "arenas s' = (\<lambda>_. None)"
    "\<forall>c n. heap_map s1 c = Some n \<and> arenas s' c = None \<longrightarrow> pages_back s' c n"
    using sys_free_correct [OF s1(2,3)] by auto
  then show ?thesis using s1(1) by auto
qed

end
