(* ===== verification/Command_Line.thy ===== *)
theory Command_Line
  imports Fs_Dirs
begin

text \<open>
  The parts of the shell that only compute on its buffers: \<open>cmd_parse\<close> of \<open>shell/shell.c\<close>, which cuts
  a command line into words, and \<open>wash_path\<close> of \<open>shell/buildin_cmd.c\<close>, which removes the \<open>.\<close> and
  \<open>..\<close> components of an absolute path. A pointer into the command line is an offset. The first is
  shown equal to splitting at the separator, the second to folding over the components of the path.
\<close>

section \<open>Cutting a command line\<close>

definition MAX_ARG_NR :: nat where
  "MAX_ARG_NR = 16"

text \<open>The two inner loops, on the rest of the line with its offset.\<close>

fun skip_token :: "u8 \<Rightarrow> u8 list \<Rightarrow> nat \<Rightarrow> (u8 list \<times> nat) res" where
  "skip_token token [] i = Inl (Fault ''cmd_str'')"
| "skip_token token (c # p) i = (if c = token then skip_token token p (Suc i) else Inr (c # p, i))"

fun skip_word :: "u8 \<Rightarrow> u8 list \<Rightarrow> nat \<Rightarrow> (u8 list \<times> nat) res" where
  "skip_word token [] i = Inl (Fault ''cmd_str'')"
| "skip_word token (c # p) i =
     (if c \<noteq> 0 \<and> c \<noteq> token then skip_word token p (Suc i) else Inr (c # p, i))"

lemma skip_token_length: "skip_token t p i = Inr (q, j) \<Longrightarrow> length q \<le> length p \<and> q \<noteq> []"
  by (induction t p i rule: skip_token.induct) (auto split: if_splits)

lemma skip_word_length:
  "skip_word t p i = Inr (q, j) \<Longrightarrow> length q \<le> length p \<and> q \<noteq> [] \<and>
   (hd p \<noteq> 0 \<longrightarrow> hd p \<noteq> t \<longrightarrow> length q < length p)"
proof (induction t p i rule: skip_word.induct)
  case (2 token c p i)
  show ?case
  proof (cases "c \<noteq> 0 \<and> c \<noteq> token")
    case True
    with 2 show ?thesis by (auto split: if_splits)
  next
    case False
    with 2(2) show ?thesis by (auto split: if_splits)
  qed
qed simp

text \<open>
  The outer loop. The pointer to a word is stored before the number of words is compared with the
  size of \<open>argv\<close>, so that a word too many is stored behind the array.
\<close>

function parse_loop ::
  "u8 \<Rightarrow> u8 list \<Rightarrow> nat \<Rightarrow> u8 list \<Rightarrow> nat \<Rightarrow> nat option list \<Rightarrow> (s32 \<times> nat option list \<times> u8 list) res"
where
  "parse_loop token [] i line argc argv = Inl (Fault ''cmd_str'')"
| "parse_loop token (c # p) i line argc argv =
     (if c = 0 then Inr (of_nat argc, argv, line)
      else
        (case skip_token token (c # p) i of
           Inl e \<Rightarrow> Inl e
         | Inr (q, j) \<Rightarrow>
             if hd q = 0 then Inr (of_nat argc, argv, line)
             else if \<not> argc < length argv then Inl (Fault ''argv[argc]'')
             else
               (case skip_word token q j of
                  Inl e \<Rightarrow> Inl e
                | Inr (r, k) \<Rightarrow>
                    if hd r \<noteq> 0
                    then if argc \<ge> MAX_ARG_NR then Inr (-1, argv[argc := Some j], line[k := 0])
                         else parse_loop token (tl r) (Suc k) (line[k := 0]) (Suc argc) (argv[argc := Some j])
                    else if argc \<ge> MAX_ARG_NR then Inr (-1, argv[argc := Some j], line)
                         else parse_loop token r k line (Suc argc) (argv[argc := Some j]))))"
  by pat_completeness auto
termination
proof (relation "measure (\<lambda>(token, p, i, line, argc, argv). length p + (if hd p \<noteq> 0 then 1 else 0))", goal_cases)
  case (2 token c p i line argc argv q' q j r' r k)
  then show ?case using skip_token_length [of token "c # p" i q j] skip_word_length [of token q j r k]
    by (cases r) auto
next
  case (3 token c p i line argc argv q' q j r' r k)
  then show ?case using skip_token_length [of token "c # p" i q j] skip_word_length [of token q j r k]
    by auto
qed simp

declare parse_loop.simps [simp del]

text \<open>\<open>base\<close> is the offset of \<open>cmd_str\<close> in the buffer \<open>line\<close>.\<close>

definition cmd_parse :: "u8 list \<Rightarrow> nat \<Rightarrow> u8 \<Rightarrow> (s32 \<times> nat option list \<times> u8 list) res" where
  "cmd_parse line base token =
     parse_loop token (drop base line) base line 0 (replicate MAX_ARG_NR None)"


section \<open>The words of a line\<close>

text \<open>The reference: the pieces between separators, without the empty ones.\<close>

primrec splits :: "'a \<Rightarrow> 'a list \<Rightarrow> 'a list list" where
  "splits t [] = [[]]"
| "splits t (c # s) =
     (case splits t s of [] \<Rightarrow> [] | w # ws \<Rightarrow> if c = t then [] # w # ws else (c # w) # ws)"

definition words :: "'a \<Rightarrow> 'a list \<Rightarrow> 'a list list" where
  "words t s = filter (\<lambda>w. w \<noteq> []) (splits t s)"

lemma splits_Nil [simp]: "splits t s \<noteq> []"
  by (induction s) (auto split: list.splits)

lemma splits_token [simp]: "splits t (t # s) = [] # splits t s"
  by (simp split: list.split)

lemma splits_no_sep: "t \<notin> set w \<Longrightarrow> splits t w = [w]"
  by (induction w) auto

lemma splits_sep: "t \<notin> set w \<Longrightarrow> splits t (w @ t # s) = w # splits t s"
  by (induction w) (auto split: list.splits)

lemma words_dropWhile: "words t (dropWhile (\<lambda>c. c = t) s) = words t s"
proof (induction s)
  case (Cons c s)
  then show ?case by (cases "c = t") (simp_all add: words_def del: splits.simps)
qed simp

lemma words_simps:
  "words t [] = []"
  "t \<notin> set w \<Longrightarrow> w \<noteq> [] \<Longrightarrow> words t w = [w]"
  "t \<notin> set w \<Longrightarrow> w \<noteq> [] \<Longrightarrow> words t (w @ t # s) = w # words t s"
  by (simp_all add: words_def splits_no_sep splits_sep)

lemma skip_token_eq:
  "t \<noteq> 0 \<Longrightarrow> 0 \<in> set p \<Longrightarrow>
   skip_token t p i = Inr (dropWhile (\<lambda>c. c = t) p, i + length (takeWhile (\<lambda>c. c = t) p))"
  by (induction t p i rule: skip_token.induct) auto

definition word_at :: "u8 \<Rightarrow> u8 list \<Rightarrow> u8 list" where
  "word_at t p = takeWhile (\<lambda>c. c \<noteq> 0 \<and> c \<noteq> t) p"

lemma skip_word_eq:
  "0 \<in> set p \<Longrightarrow> skip_word t p i = Inr (drop (length (word_at t p)) p, i + length (word_at t p))"
  by (induction t p i rule: skip_word.induct) (auto simp: word_at_def)

text \<open>What follows the first word of \<open>q\<close>: the terminator or the separator.\<close>

lemma word_at_cases:
  assumes "0 \<in> set q"
  obtains r where "q = word_at t q @ 0 # r" and "cstr q = word_at t q"
  | r where "q = word_at t q @ t # r" and "t \<noteq> 0 \<Longrightarrow> cstr q = word_at t q @ t # cstr r"
      and "t \<noteq> 0 \<Longrightarrow> 0 \<in> set r"
proof -
  let ?w = "word_at t q"
  have split: "q = ?w @ dropWhile (\<lambda>c. c \<noteq> 0 \<and> c \<noteq> t) q" by (simp add: word_at_def)
  have w: "0 \<notin> set ?w" "t \<notin> set ?w"
    by (auto simp: word_at_def dest: set_takeWhileD)
  obtain c r where c: "dropWhile (\<lambda>c. c \<noteq> 0 \<and> c \<noteq> t) q = c # r"
    using assms split w(1) by (metis append_Nil2 neq_Nil_conv)
  then have "c = 0 \<or> c = t" by (metis (mono_tags, lifting) dropWhile_eq_Cons_conv)
  then show thesis
  proof
    assume "c = 0"
    with split c have q: "q = ?w @ 0 # r" by simp
    moreover have "cstr q = ?w" using arg_cong [OF q, of cstr] cstr_cat [OF w(1)] by simp
    ultimately show thesis by (rule that(1))
  next
    assume "c = t"
    with split c have q: "q = ?w @ t # r" by simp
    moreover have "t \<noteq> 0 \<Longrightarrow> cstr q = ?w @ t # cstr r" using arg_cong [OF q, of cstr] cstr_cat [OF w(1)] by simp
    moreover have "t \<noteq> 0 \<Longrightarrow> 0 \<in> set r"
      using assms w(1) arg_cong [OF q, of set] by auto
    ultimately show thesis by (rule that(2))
  qed
qed

lemma word_at_no: "0 \<notin> set (word_at t q)" "t \<notin> set (word_at t q)"
  by (auto simp: word_at_def dest: set_takeWhileD)

text \<open>The arrays the loop leaves: the offsets \<open>offs\<close> of the words from the \<open>argc\<close>-th on.\<close>

definition parsed ::
  "nat \<Rightarrow> nat \<Rightarrow> nat option list \<Rightarrow> u8 list \<Rightarrow> u8 list list \<Rightarrow> nat option list \<Rightarrow> u8 list \<Rightarrow> bool"
where
  "parsed i argc argv line ws argv' line' \<longleftrightarrow>
     length argv' = length argv \<and> take argc argv' = take argc argv \<and>
     (\<forall>n. argc + length ws \<le> n \<longrightarrow> n < length argv \<longrightarrow> argv' ! n = argv ! n) \<and>
     (\<forall>n < length ws. \<exists>k. argv' ! (argc + n) = Some k \<and> k < length line \<and>
        cstr (drop k line') = ws ! n \<and> 0 \<in> set (drop k line')) \<and>
     length line' = length line \<and> take i line' = take i line"

lemma parsed_Nil: "parsed i argc argv line [] argv line"
  by (simp add: parsed_def)

lemma parsed_Cons:
  assumes rest: "parsed (Suc k) (Suc argc) (argv[argc := Some j]) (line[k := 0]) ws argv' line'"
    and "argc < length argv" and "i \<le> j" and "j \<le> k" and "k < length line"
    and w: "take (k - j) (drop j line) = w" "0 \<notin> set w"
  shows "parsed i argc argv line (w # ws) argv' line'"
proof -
  note p = rest [unfolded parsed_def]
  have ta: "take (Suc argc) argv' = take (Suc argc) (argv[argc := Some j])"
    and tl: "take (Suc k) line' = take (Suc k) (line[k := 0])"
    and len: "length argv' = length argv" "length line' = length line"
    using p by simp_all
  have j: "argv' ! argc = Some j"
    using arg_cong [OF ta, of "\<lambda>l. l ! argc"] assms(2) by simp
  have prefix: "take argc argv' = take argc argv"
    using arg_cong [OF ta, of "take argc"] by simp
  have lines: "line' ! n = (line[k := 0]) ! n" if "n < Suc k" for n
    using arg_cong [OF tl, of "\<lambda>l. l ! n"] that by simp
  have "drop k line' = 0 # drop (Suc k) line'"
    using Cons_nth_drop_Suc [of k line'] len assms(5) lines [of k] by simp
  then have "drop j line' = take (k - j) (drop j line') @ 0 # drop (Suc k) line'"
    using append_take_drop_id [of "k - j" "drop j line'"] assms(4) by simp
  moreover have "take (k - j) (drop j line') = w"
    unfolding w(1) [symmetric]
    by (rule nth_equalityI) (use len assms(3-5) lines in \<open>auto simp: less_diff_conv\<close>)
  ultimately have d: "drop j line' = w @ 0 # drop (Suc k) line'" by simp
  have "cstr (drop j line') = w" unfolding d cstr_append_0 using w(2) by (rule cstr_id)
  moreover have "0 \<in> set (drop j line')" unfolding d by simp
  moreover have "take i line' = take i line"
    by (rule nth_equalityI) (use len lines assms(3-5) in auto)
  moreover have "\<exists>k. argv' ! (argc + n) = Some k \<and> k < length line \<and> cstr (drop k line') = (w # ws) ! n \<and>
      0 \<in> set (drop k line')" if n: "n < length (w # ws)" for n
  proof (cases n)
    case 0
    with j assms(3-5) calculation show ?thesis by simp
  next
    case (Suc m)
    with n p show ?thesis by auto
  qed
  ultimately show ?thesis
    using p prefix len by (auto simp: parsed_def)
qed

lemma parse_loop_eq:
  assumes "t \<noteq> 0"
  shows "p = drop i line \<Longrightarrow> i \<le> length line \<Longrightarrow> 0 \<in> set p \<Longrightarrow> length argv = MAX_ARG_NR \<Longrightarrow>
    argc \<le> MAX_ARG_NR \<Longrightarrow>
    (if argc + length (words t (cstr p)) \<le> MAX_ARG_NR
     then \<exists>argv' line'. parse_loop t p i line argc argv =
       Inr (of_nat (argc + length (words t (cstr p))), argv', line') \<and>
       parsed i argc argv line (words t (cstr p)) argv' line'
     else parse_loop t p i line argc argv = Inl (Fault ''argv[argc]''))"
proof (induction "length p" arbitrary: p i line argc argv rule: less_induct)
  case less
  obtain c p' where p: "p = c # p'" using less.prems(3) by (cases p) auto
  let ?n = "length (takeWhile (\<lambda>c. c = t) p)" and ?q = "dropWhile (\<lambda>c. c = t) p"
  have q0: "0 \<in> set ?q" using less.prems(3) assms by (induction p) auto
  have ws: "words t (cstr p) = words t (cstr ?q)"
  proof -
    have "cstr ?q = dropWhile (\<lambda>c. c = t) (cstr p)" using assms by (induction p) auto
    then show ?thesis by (simp add: words_dropWhile)
  qed
  have q: "?q = drop (i + ?n) line"
    using less.prems(1) by (simp add: dropWhile_eq_drop add.commute)
  show ?case
  proof (cases "hd ?q = 0")
    case True
    then have "cstr ?q = []" using q0 by (cases ?q) auto
    then have "words t (cstr p) = []" unfolding ws by (simp add: words_simps)
    moreover have "parse_loop t p i line argc argv = Inr (of_nat argc, argv, line)"
      using True skip_token_eq [OF assms less.prems(3), of i] by (simp add: p parse_loop.simps)
    ultimately show ?thesis using less.prems(5) by (simp add: parsed_Nil)
  next
    case False
    let ?w = "word_at t ?q" and ?j = "i + ?n"
    have ne: "?q \<noteq> []" using q0 by (metis empty_iff empty_set)
    then have "hd ?q \<noteq> t" using hd_dropWhile [of "\<lambda>c. c = t" p] by simp
    with ne have w: "?w \<noteq> []" using False by (cases ?q) (auto simp: word_at_def)
    have c: "c \<noteq> 0" using False p assms by auto
    have step: "parse_loop t p i line argc argv =
        (let r = drop (length ?w) ?q; k = ?j + length ?w in
         if \<not> argc < MAX_ARG_NR then Inl (Fault ''argv[argc]'')
         else if hd r \<noteq> 0 then parse_loop t (tl r) (Suc k) (line[k := 0]) (Suc argc) (argv[argc := Some ?j])
         else parse_loop t r k line (Suc argc) (argv[argc := Some ?j]))"
      using False c skip_token_eq [OF assms less.prems(3), of i] skip_word_eq [OF q0, of t ?j] less.prems(4)
      by (simp add: p parse_loop.simps Let_def)
    define k where "k = ?j + length ?w"
    show ?thesis
    proof (rule word_at_cases [OF q0, of t], goal_cases)
      case (1 r)
      then have r: "drop (length ?w) ?q = 0 # r" by (metis append_eq_conv_conj)
      have ws1: "words t (cstr p) = [?w]" unfolding ws 1(2) using word_at_no(2) w by (rule words_simps(2))
      have fin: "parse_loop t (0 # r) k line n a = Inr (of_nat n, a, line)" for n a
        by (simp add: parse_loop.simps)
      have "parsed i argc argv line [?w] (argv[argc := Some ?j]) line" if "argc < MAX_ARG_NR"
        using that less.prems(4) q0 ne 1(2) unfolding q by (auto simp: parsed_def)
      then show ?thesis
        using less.prems(5) unfolding step ws1 k_def [symmetric] by (auto simp: r fin Let_def)
    next
      case (2 r)
      then have r: "drop (length ?w) ?q = t # r" by (metis append_eq_conv_conj)
      note 2 = 2(2) [OF assms] 2(3) [OF assms]
      have ws1: "words t (cstr p) = ?w # words t (cstr r)"
        unfolding ws 2(1) using word_at_no(2) w by (rule words_simps(3))
      have dk: "drop k line = t # r" using r unfolding q k_def by (simp add: add.commute)
      then have kl: "k < length line" by (metis drop_eq_Nil2 list.distinct(1) not_le)
      have r': "r = drop (Suc k) (line[k := 0])"
        using dk Cons_nth_drop_Suc [OF kl] by simp
      have shorter: "length r < length p"
        using arg_cong [OF r, of length] length_dropWhile_le [of "\<lambda>c. c = t" p] by simp
      have wq: "take (k - ?j) (drop ?j line) = ?w"
        unfolding q [symmetric] k_def add_diff_cancel_left' unfolding word_at_def
        by (rule takeWhile_eq_take [symmetric])
      show ?thesis
      proof (cases "argc < MAX_ARG_NR")
        case True
        have go: "parse_loop t p i line argc argv =
            parse_loop t r (Suc k) (line[k := 0]) (Suc argc) (argv[argc := Some ?j])"
          unfolding step k_def [symmetric] using True assms by (simp add: r Let_def)
        note ih = less.hyps [OF shorter r' _ 2(2), of "argv[argc := Some ?j]" "Suc argc"]
        show ?thesis
        proof (cases "Suc argc + length (words t (cstr r)) \<le> MAX_ARG_NR")
          case le: True
          with ih kl True less.prems(4) obtain argv' line' where
            "parse_loop t r (Suc k) (line[k := 0]) (Suc argc) (argv[argc := Some ?j]) =
               Inr (of_nat (Suc argc + length (words t (cstr r))), argv', line')"
            and pa: "parsed (Suc k) (Suc argc) (argv[argc := Some ?j]) (line[k := 0]) (words t (cstr r)) argv' line'"
            by auto
          moreover have "parsed i argc argv line (?w # words t (cstr r)) argv' line'"
            by (rule parsed_Cons [OF pa _ _ _ kl wq word_at_no(1)])
               (use True less.prems(4) in \<open>simp_all add: k_def\<close>)
          ultimately show ?thesis using le unfolding ws1 go by simp
        next
          case gt: False
          with ih kl True less.prems(4) show ?thesis unfolding ws1 go by simp
        qed
      qed (unfold step ws1, simp)
    qed
  qed
qed

lemma cmd_parse_run:
  assumes "token \<noteq> 0" and "0 \<in> set (drop base line)"
  defines "ws \<equiv> words token (cstr (drop base line))"
  shows "length ws \<le> MAX_ARG_NR \<Longrightarrow> \<exists>argv line'. cmd_parse line base token = Inr (of_nat (length ws), argv, line') \<and>
      parsed base 0 (replicate MAX_ARG_NR None) line ws argv line'"
    and "MAX_ARG_NR < length ws \<Longrightarrow> cmd_parse line base token = Inl (Fault ''argv[argc]'')"
proof -
  have "base \<le> length line"
    using assms(2) by (cases "base \<le> length line") auto
  then show "length ws \<le> MAX_ARG_NR \<Longrightarrow> \<exists>argv line'. cmd_parse line base token = Inr (of_nat (length ws), argv, line') \<and>
      parsed base 0 (replicate MAX_ARG_NR None) line ws argv line'"
    and "MAX_ARG_NR < length ws \<Longrightarrow> cmd_parse line base token = Inl (Fault ''argv[argc]'')"
    using parse_loop_eq [OF assms(1) refl _ assms(2), of "replicate MAX_ARG_NR None" 0]
    by (auto simp: cmd_parse_def ws_def split: if_splits)
qed

text \<open>C26: Cutting a line at the separator gives its words, in order, each terminated in place, and clears
  the rest of the array, as long as there are at most 16 words.\<close>

theorem cmd_parse_words:
  assumes "token \<noteq> 0" and "0 \<in> set (drop base line)"
    and "ws = words token (cstr (drop base line))" and "length ws \<le> MAX_ARG_NR"
  shows "\<exists>argv line'. cmd_parse line base token = Inr (of_nat (length ws), argv, line') \<and>
    length argv = MAX_ARG_NR \<and> length line' = length line \<and> take base line' = take base line \<and>
    (\<forall>n < length ws. \<exists>k. argv ! n = Some k \<and> cstr (drop k line') = ws ! n) \<and>
    (\<forall>n. length ws \<le> n \<longrightarrow> n < MAX_ARG_NR \<longrightarrow> argv ! n = None)"
  using cmd_parse_run(1) [OF assms(1,2)] assms(3,4) unfolding parsed_def by fastforce

theorem cmd_parse_words_witness:
  "\<exists>argv line'. cmd_parse (cbytes '' ls  -l'' @ [0]) 0 32 = Inr (2, argv, line') \<and>
    (\<exists>k. argv ! 1 = Some k \<and> cstr (drop k line') = cbytes ''-l'')"
proof -
  let ?line = "cbytes '' ls  -l'' @ [0]"
  have ws: "words 32 (cstr (drop 0 ?line)) = [cbytes ''ls'', cbytes ''-l'']" by code_simp
  have "0 \<in> set (drop 0 ?line)" by simp
  from cmd_parse_words [OF _ this refl, of 32, unfolded ws] obtain argv line' where
    "cmd_parse ?line 0 32 = Inr (2, argv, line')"
    "\<forall>n < 2. \<exists>k. argv ! n = Some k \<and> cstr (drop k line') = [cbytes ''ls'', cbytes ''-l''] ! n"
    by (auto simp: MAX_ARG_NR_def)
  from this(1) this(2) [rule_format, of 1] show ?thesis by auto
qed

text \<open>C39: A seventeenth word is stored behind the array before the count is looked at: the result \<open>-1\<close> for
  too many arguments is never returned.\<close>

theorem cmd_parse_overflow:
  assumes "token \<noteq> 0" and "0 \<in> set (drop base line)"
    and "MAX_ARG_NR < length (words token (cstr (drop base line)))"
  shows "cmd_parse line base token = Inl (Fault ''argv[argc]'')"
  using cmd_parse_run(2) [OF assms(1,2)] assms(3) by simp

theorem cmd_parse_overflow_witness:
  "cmd_parse (cbytes ''a b c d e f g h i j k l m n o p q'' @ [0]) 0 32 = Inl (Fault ''argv[argc]'')"
proof -
  have "MAX_ARG_NR < length (words 32 (cstr (drop 0 (cbytes ''a b c d e f g h i j k l m n o p q'' @ [0 :: u8]))))"
    by code_simp
  then show ?thesis by (intro cmd_parse_overflow) simp_all
qed

section \<open>Removing relative components\<close>

text \<open>The loop of \<open>wash_path\<close>: \<open>name\<close> is the buffer of the component, \<open>None\<close> a null \<open>sub_path\<close>.\<close>

definition wash_step :: "u8 list \<Rightarrow> u8 list \<Rightarrow> u8 list res" where
  "wash_step name new_abs_path =
     rbind (strcmp (cstring ''..'') name) (\<lambda>c.
     if c = 0
     then rbind (strrchr new_abs_path (asc CHR ''/'')) (\<lambda>slash_ptr.
          case slash_ptr of
            None \<Rightarrow> Inl (Fault ''NULL'')
          | Some k \<Rightarrow>
              if k \<noteq> 0 then Inr (new_abs_path[k := 0])
              else if Suc k < length new_abs_path then Inr (new_abs_path[Suc k := 0])
              else Inl (Fault ''new_abs_path''))
     else
       rbind (strcmp (cstring ''.'') name) (\<lambda>c.
       if c \<noteq> 0
       then rbind (strcmp new_abs_path (cstring ''/'')) (\<lambda>c.
            rbind (if c \<noteq> 0 then strcat new_abs_path (cstring ''/'') else Inr new_abs_path) (\<lambda>new_abs_path.
            strcat new_abs_path name))
       else Inr new_abs_path))"

function wash_loop :: "u8 list option \<Rightarrow> u8 list \<Rightarrow> u8 list \<Rightarrow> u8 list res" where
  "wash_loop sub_path name new_abs_path =
     (if hd name \<noteq> 0
      then rbind (wash_step name new_abs_path) (\<lambda>new_abs_path.
           case sub_path of
             None \<Rightarrow> wash_loop None empty_name new_abs_path
           | Some q \<Rightarrow> rbind (path_parse q empty_name) (\<lambda>np. wash_loop (snd np) (fst np) new_abs_path))
      else Inr new_abs_path)"
  by pat_completeness auto
termination
proof (relation "measure (\<lambda>(p, name, new).
    (case p of None \<Rightarrow> 0 | Some q \<Rightarrow> 2 * Suc (length q)) + (if hd name \<noteq> 0 then 1 else 0))", goal_cases)
  case (3 p name new new' q np)
  then show ?case using path_parse_shrinks [of q empty_name "fst np"]
    by (cases "snd np") (auto simp: prod_eq_iff split: option.splits)
qed auto

declare wash_loop.simps [simp del]

text \<open>The address \<open>new_abs_path\<close> is written to; the failed \<open>assert\<close> of a user program spins.\<close>

definition wash_path :: "u8 list \<Rightarrow> u8 list \<Rightarrow> u8 list res" where
  "wash_path old_abs_path new_abs_path =
     rbind (rassert ''old_abs_path[0] == '' (hd old_abs_path = asc CHR ''/'')) (\<lambda>_.
     rbind (path_parse old_abs_path empty_name) (\<lambda>(name, sub_path).
     if hd name = 0 then buf_write 0 (cstring ''/'') new_abs_path
     else if new_abs_path = [] then Inl (Fault ''new_abs_path'')
     else rbind (strcat (new_abs_path[0 := 0]) (cstring ''/'')) (wash_loop sub_path name)))"


text \<open>The reference: fold over the components, \<open>..\<close> dropping the last one kept.\<close>

definition dot :: "u8 list" where "dot = cbytes ''.''"
definition dotdot :: "u8 list" where "dotdot = cbytes ''..''"

definition norm_step :: "u8 list list \<Rightarrow> u8 list \<Rightarrow> u8 list list" where
  "norm_step st c = (if c = dotdot then butlast st else if c = dot then st else st @ [c])"

definition norm :: "u8 list list \<Rightarrow> u8 list list" where
  "norm cs = foldl norm_step [] cs"

definition render :: "u8 list list \<Rightarrow> u8 list" where
  "render st = (if st = [] then [slash] else path_of st)"

lemma nul_update: "0 \<in> set (p :: u8 list) \<Longrightarrow> 0 \<in> set (p[k := 0])"
  by (metis list_update_beyond not_le set_update_memI)

lemma cut_at:
  "k < length p \<Longrightarrow> k \<le> length (cstr p) \<Longrightarrow> cstr (p[k := 0]) = take k (cstr p)"
  by (induction p arbitrary: k) (auto split: nat.splits if_splits)

lemma path_of_butlast:
  "st \<noteq> [] \<Longrightarrow> path_of st = path_of (butlast st) @ slash # last st"
  by (metis append_Nil2 append_butlast_last_id path_of_simps slash_def)

lemma path_of_Nil_iff [simp]: "path_of st = [] \<longleftrightarrow> st = []"
  by (cases st) auto

definition comp_ok :: "u8 list \<Rightarrow> bool" where
  "comp_ok c \<longleftrightarrow> c \<noteq> [] \<and> 0 \<notin> set c \<and> slash \<notin> set c"

lemma render_split:
  assumes "list_all comp_ok st"
  obtains l where "render st = path_of (butlast st) @ slash # l" and "slash \<notin> set l"
proof (cases "st = []")
  case True
  then show thesis by (intro that [of "[]"]) (simp_all add: render_def)
next
  case False
  then have "comp_ok (last st)" using assms by (simp add: list_all_iff)
  with False show thesis
    by (intro that [of "last st"]) (simp_all add: render_def path_of_butlast comp_ok_def)
qed

lemma wash_dotdot:
  assumes name: "strcmp (cstring ''..'') name = Inr 0"
    and new: "0 \<in> set new" "cstr new = render st" "list_all comp_ok st" "1 < length new"
  obtains b where "wash_step name new = Inr b" and "length b = length new" and "0 \<in> set b"
    and "cstr b = render (butlast st)"
proof -
  obtain l where l: "render st = path_of (butlast st) @ slash # l" "slash \<notin> set l"
    using new(3) by (rule render_split)
  let ?k = "length (path_of (butlast st))"
  have k: "strrchr new (asc CHR ''/'') = Inr (Some ?k)"
    using strrchr_eq(2) [of new slash "path_of (butlast st)" l] new l by (simp add: slash_def slash_ascii)
  have kl: "?k < length (cstr new)" unfolding new(2) l(1) by simp
  show thesis
  proof (cases "butlast st = []")
    case True
    then have step: "wash_step name new = Inr (new[Suc 0 := 0])"
      using name k new(4) by (simp add: wash_step_def)
    have "cstr (new[Suc 0 := 0]) = take 1 (cstr new)"
      using cut_at [of 1 new] kl True new(4) by simp
    then show thesis
      using True new(1,2) l(1) by (intro that [OF step]) (simp_all add: nul_update render_def)
  next
    case False
    then have step: "wash_step name new = Inr (new[?k := 0])"
      using name k by (simp add: wash_step_def)
    have "cstr (new[?k := 0]) = take ?k (cstr new)"
      using cut_at [of ?k new] kl length_cstr [OF new(1)] by simp
    then show thesis
      using False new(1,2) l(1) by (intro that [OF step]) (simp_all add: nul_update render_def)
  qed
qed

lemma wash_append:
  assumes name: "0 \<in> set name" "cstr name = c" "strcmp (cstring ''..'') name = Inr r" "r \<noteq> 0"
      "strcmp (cstring ''.'') name = Inr r'" "r' \<noteq> 0"
    and new: "0 \<in> set new" "cstr new = render st" "list_all comp_ok st"
    and room: "Suc (length (path_of st) + length c) < length new"
  obtains b where "wash_step name new = Inr b" and "length b = length new" and "0 \<in> set b"
    and "cstr b = path_of st @ slash # c"
proof -
  have root: "0 \<in> set (cstring ''/'')" "cstr (cstring ''/'') = [slash]"
    by (simp_all add: cstring_def slash_def asc_def)
  obtain r3 where r3: "strcmp new (cstring ''/'') = Inr r3" "r3 = 0 \<longleftrightarrow> render st = [slash]"
    using strcmp_total [OF new(1) root(1)] root(2) new(2) by metis
  have st: "render st = [slash] \<longleftrightarrow> st = []"
    using new(3) by (cases st) (auto simp: render_def comp_ok_def)
  obtain mid where mid: "(if r3 \<noteq> 0 then strcat new (cstring ''/'') else Inr new) = Inr mid"
    "length mid = length new" "0 \<in> set mid" "cstr mid = path_of st @ [slash]"
  proof (cases "st = []")
    case True
    with r3 st new show thesis by (intro that [of new]) (simp_all add: render_def)
  next
    case False
    let ?mid = "cstr new @ [slash] @ 0 # drop (Suc (length (cstr new) + 1)) new"
    have "strcat new (cstring ''/'') = Inr ?mid"
      using strcat_eq [OF new(1) root(1)] root(2) room False new(2) by (simp add: render_def)
    moreover have "cstr ?mid = path_of st @ [slash]"
      using cstr_append_0 [of "cstr new @ [slash]"] cstr_id [of "cstr new @ [slash]"] False new(2)
        cstr_no_nul [of new] by (simp add: render_def)
    moreover have "length ?mid = length new" using room new(2) False by (simp add: render_def)
    ultimately show thesis using r3 st False by (intro that [of ?mid]) simp_all
  qed
  let ?b = "cstr mid @ c @ 0 # drop (Suc (length (cstr mid) + length c)) mid"
  have "strcat mid name = Inr ?b"
    using strcat_eq [OF mid(3) name(1)] name(2) mid(2,4) room by simp
  then have step: "wash_step name new = Inr ?b"
    using name r3(1) mid(1) by (simp add: wash_step_def)
  have "cstr ?b = cstr mid @ c"
    using cstr_append_0 [of "cstr mid @ c"] cstr_id [of "cstr mid @ c"] cstr_no_nul [of mid]
      cstr_no_nul [of name] name(2) by simp
  then show thesis using mid(2,4) room by (intro that [OF step]) simp_all
qed

lemma wash_step_run:
  assumes name: "0 \<in> set name" "cstr name = c" "comp_ok c"
    and new: "0 \<in> set new" "cstr new = render st" "list_all comp_ok st"
    and room: "Suc (length (path_of st) + length c) < length new"
  obtains b where "wash_step name new = Inr b" and "length b = length new" and "0 \<in> set b"
    and "cstr b = render (norm_step st c)" and "list_all comp_ok (norm_step st c)"
    and "length (path_of (norm_step st c)) \<le> Suc (length (path_of st) + length c)"
proof -
  have dots: "0 \<in> set (cstring ''..'')" "cstr (cstring ''..'') = dotdot"
      "0 \<in> set (cstring ''.'')" "cstr (cstring ''.'') = dot"
    by (simp_all add: cstring_def dotdot_def dot_def asc_def)
  obtain r1 where r1: "strcmp (cstring ''..'') name = Inr r1" "r1 = 0 \<longleftrightarrow> dotdot = c"
    using strcmp_total [OF dots(1) name(1)] dots(2) name(2) by metis
  obtain r2 where r2: "strcmp (cstring ''.'') name = Inr r2" "r2 = 0 \<longleftrightarrow> dot = c"
    using strcmp_total [OF dots(3) name(1)] dots(4) name(2) by metis
  have wf: "list_all comp_ok (norm_step st c)"
    using new(3) name(3) by (auto simp: norm_step_def list_all_iff dest: in_set_butlastD)
  have len: "length (path_of (norm_step st c)) \<le> Suc (length (path_of st) + length c)"
    using path_of_butlast [of st] by (cases "st = []") (simp_all add: norm_step_def)
  consider "c = dotdot" | "c \<noteq> dotdot" "c = dot" | "c \<noteq> dotdot" "c \<noteq> dot" by blast
  then show thesis
  proof cases
    case 1
    then have "strcmp (cstring ''..'') name = Inr 0" using r1 by simp
    from wash_dotdot [OF this new] room wf len 1 show thesis
      by (metis that norm_step_def Suc_lessD less_Suc_eq_0_disj not_less_eq One_nat_def zero_less_Suc less_trans_Suc)
  next
    case 2
    then have "wash_step name new = Inr new" using r1 r2 by (simp add: wash_step_def)
    with 2 new wf len show thesis by (intro that [of new]) (simp_all add: norm_step_def)
  next
    case 3
    then have "r1 \<noteq> 0" "r2 \<noteq> 0" using r1 r2 by auto
    from wash_append [OF name(1,2) r1(1) this(1) r2(1) this(2) new room] 3 wf len show thesis
      by (metis that norm_step_def render_def path_of_simps(1,2,3) append_is_Nil_conv list.distinct(1) append_Nil2 slash_def)
  qed
qed

text \<open>The buffer of a component the parser stored.\<close>

lemma name_buffer:
  assumes "first_comp p \<noteq> []" and "length (first_comp p) < 16"
  defines "name \<equiv> first_comp p @ drop (length (first_comp p)) empty_name"
  shows "0 \<in> set name" and "cstr name = first_comp p" and "comp_ok (first_comp p)" and "hd name \<noteq> 0"
proof -
  have "0 \<notin> set (first_comp p)" "slash \<notin> set (first_comp p)"
    unfolding first_comp_def comp_of_def by (auto dest: set_takeWhileD)
  moreover have "drop (length (first_comp p)) empty_name = 0 # drop (Suc (length (first_comp p))) empty_name"
    using assms(2) Cons_nth_drop_Suc [of "length (first_comp p)" empty_name] by (simp add: empty_name_def)
  ultimately show "0 \<in> set name" "cstr name = first_comp p" "comp_ok (first_comp p)" "hd name \<noteq> 0"
    unfolding name_def using assms(1) cstr_append_0 [of "first_comp p"] first_comp_nonzero [OF assms(1)]
    by (simp_all add: comp_ok_def cstr_id)
qed

lemma wash_loop_run:
  "(\<forall>q. p = Some q \<longrightarrow> 0 \<in> set q \<and> (\<forall>w \<in> set (components (cstr q)). length w < 16)) \<Longrightarrow>
   0 \<in> set name \<Longrightarrow> cstr name = c \<Longrightarrow> comp_ok c \<Longrightarrow>
   0 \<in> set new \<Longrightarrow> cstr new = render st \<Longrightarrow> list_all comp_ok st \<Longrightarrow>
   cs = (case p of None \<Rightarrow> [] | Some q \<Rightarrow> components (cstr q)) \<Longrightarrow>
   Suc (length (path_of st) + length c) + length (path_of cs) < length new \<Longrightarrow>
   \<exists>b. wash_loop p name new = Inr b \<and> length b = length new \<and> 0 \<in> set b \<and>
     cstr b = render (foldl norm_step st (c # cs))"
proof (induction "case p of None \<Rightarrow> 0 | Some q \<Rightarrow> Suc (length q)" arbitrary: p name new st c cs rule: less_induct)
  case less
  have hd: "hd name \<noteq> 0" using less.prems(2-4) by (cases name) (auto simp: comp_ok_def)
  obtain b where b: "wash_step name new = Inr b" "length b = length new" "0 \<in> set b"
      "cstr b = render (norm_step st c)" "list_all comp_ok (norm_step st c)"
      "length (path_of (norm_step st c)) \<le> Suc (length (path_of st) + length c)"
    by (rule wash_step_run [OF less.prems(2-7)]) (use less.prems(9) in simp)
  show ?case
  proof (cases p)
    case None
    then have "wash_loop p name new = Inr b"
      using hd b(1) by (simp add: wash_loop.simps [of None name] wash_loop.simps [of None empty_name])
    then show ?thesis using b less.prems(8) None by simp
  next
    case (Some q)
    let ?n = "first_comp q @ drop (length (first_comp q)) empty_name"
    let ?r = "if cstr (after_first q) = [] then None else Some (after_first q)"
    have q: "0 \<in> set q" "\<forall>w \<in> set (components (cstr q)). length w < 16" using less.prems(1) Some by auto
    have le: "length (first_comp q) < 16" using q(2) components_first [of q] by (auto split: if_splits)
    have step: "wash_loop p name new = wash_loop ?r ?n b"
      using hd b(1) path_parse_eq [OF q(1), of empty_name] le
      by (simp add: Some wash_loop.simps [of "Some q" name])
    show ?thesis
    proof (cases "first_comp q = []")
      case True
      then have "components (cstr q) = []" using components_first [of q] by simp
      moreover have "hd ?n = 0" using True by simp
      ultimately show ?thesis
        unfolding step using b less.prems(8) Some by (simp add: wash_loop.simps [of ?r ?n])
    next
      case False
      have cs: "cs = first_comp q # components (cstr (after_first q))"
        using False components_first [of q] less.prems(8) Some by simp
      note n = name_buffer [OF False le]
      have cs': "components (cstr (after_first q)) =
          (case ?r of None \<Rightarrow> [] | Some q \<Rightarrow> components (cstr q))"
        by (simp add: components.simps [of "[]"])
      have "\<exists>b'. wash_loop ?r ?n b = Inr b' \<and> length b' = length b \<and> 0 \<in> set b' \<and>
          cstr b' = render (foldl norm_step (norm_step st c) (first_comp q # components (cstr (after_first q))))"
      proof (rule less.hyps [OF _ _ n(1-3) b(3-5) cs'])
        show "(case ?r of None \<Rightarrow> 0 | Some q \<Rightarrow> Suc (length q)) < (case p of None \<Rightarrow> 0 | Some q \<Rightarrow> Suc (length q))"
          using after_first_length [OF False] Some by simp
        show "\<forall>q'. ?r = Some q' \<longrightarrow> 0 \<in> set q' \<and> (\<forall>w \<in> set (components (cstr q')). length w < 16)"
          using q(2) nul_after_first [OF q(1)] cs less.prems(8) unfolding Some by (metis list.set_intros(2) option.case(2) option.inject option.distinct(1))
        show "Suc (length (path_of (norm_step st c)) + length (first_comp q)) +
            length (path_of (components (cstr (after_first q)))) < length b"
          using less.prems(9) b(2,6) unfolding cs by simp
      qed
      then show ?thesis unfolding step cs b(2) by simp
    qed
  qed
qed

lemma wash_path_run:
  assumes p: "0 \<in> set p" "hd p = slash" "\<forall>w \<in> set (components (cstr p)). length w < 16"
    and room: "Suc (length (path_of (components (cstr p)))) < length new"
  shows "\<exists>b. wash_path p new = Inr b \<and> length b = length new \<and> 0 \<in> set b \<and>
    cstr b = render (norm (components (cstr p)))"
proof -
  let ?n = "first_comp p @ drop (length (first_comp p)) empty_name"
  let ?r = "if cstr (after_first p) = [] then None else Some (after_first p)"
  have le: "length (first_comp p) < 16" using p(3) components_first [of p] by (auto split: if_splits)
  have parse: "path_parse p empty_name = Inr (?n, ?r)"
    using path_parse_eq [OF p(1), of empty_name] le by simp
  have root: "cstring ''/'' = [slash, 0]" by (simp add: cstring_def slash_def)
  show ?thesis
  proof (cases "first_comp p = []")
    case True
    then have "components (cstr p) = []" using components_first [of p] by simp
    moreover have "wash_path p new = Inr (splice 0 [slash, 0] new)"
      using True parse p(2) room by (simp add: wash_path_def slash_def buf_write_def root)
    moreover have "cstr (splice 0 [slash, 0] new) = [slash]" by (simp add: splice_def)
    ultimately show ?thesis using room
      by (simp add: render_def norm_def) (simp add: splice_def)
  next
    case False
    note n = name_buffer [OF False le]
    have cs: "components (cstr p) = first_comp p # components (cstr (after_first p))"
      using False components_first [of p] by simp
    obtain a b rest where new: "new = a # b # rest" using room by (cases new; cases "tl new") auto
    let ?new = "slash # 0 # rest"
    have start: "strcat (new[0 := 0]) (cstring ''/'') = Inr ?new" by (simp add: new root)
    have "\<exists>b'. wash_loop ?r ?n ?new = Inr b' \<and> length b' = length ?new \<and> 0 \<in> set b' \<and>
        cstr b' = render (foldl norm_step [] (first_comp p # components (cstr (after_first p))))"
    proof (rule wash_loop_run [OF _ n(1-3)])
      show "\<forall>q. ?r = Some q \<longrightarrow> 0 \<in> set q \<and> (\<forall>w \<in> set (components (cstr q)). length w < 16)"
        using p cs nul_after_first [OF p(1)] by auto
      show "components (cstr (after_first p)) = (case ?r of None \<Rightarrow> [] | Some q \<Rightarrow> components (cstr q))"
        by (simp add: components.simps [of "[]"])
      show "Suc (length (path_of []) + length (first_comp p)) +
          length (path_of (components (cstr (after_first p)))) < length ?new"
        using room unfolding cs by (simp add: new)
    qed (simp_all add: render_def)
    moreover have "wash_path p new = wash_loop ?r ?n ?new"
      using parse n(4) p(2) start by (simp add: wash_path_def slash_def new)
    ultimately show ?thesis unfolding cs norm_def by (simp add: new)
  qed
qed

text \<open>Washing an absolute path whose names fit leaves the path of its components with \<open>.\<close> dropped and each
  \<open>..\<close> cancelling the name kept before it, the root for none.\<close>

theorem wash_path_correct:
  assumes "0 \<in> set p" and "hd p = slash" and "\<forall>w \<in> set (components (cstr p)). length w < 16"
    and "Suc (length (path_of (components (cstr p)))) < length new"
  shows "\<exists>b. wash_path p new = Inr b \<and> length b = length new \<and> cstr b = render (norm (components (cstr p)))"
  using wash_path_run [OF assms] by blast

theorem wash_path_correct_witness:
  "\<exists>b. wash_path (cbytes ''/a/b/../c/./d'' @ [0]) (replicate 64 0) = Inr b \<and> cstr b = cbytes ''/a/c/d''"
proof -
  let ?p = "cbytes ''/a/b/../c/./d'' @ [0]"
  have eq: "components (cstr ?p) = [cbytes ''a'', cbytes ''b'', dotdot, cbytes ''c'', dot, cbytes ''d'']"
    by code_simp
  have "render (norm (components (cstr ?p))) = cbytes ''/a/c/d''" unfolding eq by code_simp
  moreover have "0 \<in> set ?p" "hd ?p = slash" by (simp_all add: slash_def)
  ultimately show ?thesis
    using wash_path_correct [of ?p "replicate 64 0"] unfolding eq
    by (simp add: dotdot_def dot_def) (metis)
qed
end
