(* ===== verification/Shell.thy ===== *)
theory Shell
  imports Command_Line Pipe_Calls Stdio
begin

text \<open>
  The shell process: \<open>shell/shell.c\<close> and the built-in commands of \<open>shell/buildin_cmd.c\<close>, over the
  file system's calls, with \<open>printf\<close> of \<open>lib/stdio.c\<close> and \<open>console_put_char\<close> of
  \<open>device/console.c\<close>. The shell's state is its global buffers and the kernel state its calls act
  on. The calls whose effect is on parts outside the file system's state (\<open>clear\<close>, \<open>ps\<close>, \<open>date\<close>, \<open>debug\<close>,
  \<open>fork\<close>, \<open>wait\<close>, \<open>execv\<close>, \<open>exit\<close>) are recorded in order; what \<open>fork\<close>, \<open>wait\<close> and \<open>execv\<close> return is an input,
  because other processes run before they do. An element of \<open>argv\<close> points into the command line
  or at \<open>final_path\<close>.
\<close>

section \<open>State\<close>

datatype call = Clear | Ps | Date | Debug | Fork | Wait | Execv "u8 list" | Exit s32

datatype arg = Word nat | Final_path

text \<open>Whether the process that executed a command goes on reading commands.\<close>

datatype outcome = Continue | Gone

record shell =
  kern :: fs
  cmd_line :: "u8 list"
  final_path :: "u8 list"
  cwd_cache :: "u8 list"
  argv :: "arg option list"
  calls :: "call list"
  fork_ret :: s32
  wait_ret :: s32
  exec_fails :: bool

definition cmd_len :: nat where
  "cmd_len = 128"

definition kcall :: "(fs, 'a) km \<Rightarrow> (shell, 'a) km" where
  "kcall m s = (case m (kern s) of Inl e \<Rightarrow> Inl e | Inr (x, k) \<Rightarrow> Inr (x, s\<lparr>kern := k\<rparr>))"

definition call :: "call \<Rightarrow> (shell, unit) km" where
  "call c = modify (\<lambda>s. s\<lparr>calls := calls s @ [c]\<rparr>)"

text \<open>The string an element of \<open>argv\<close> points to.\<close>

definition arg_str :: "nat \<Rightarrow> (shell, u8 list) km" where
  "arg_str i =
     bnd (gets argv) (\<lambda>av.
     if i < length av
     then case av ! i of
            None \<Rightarrow> fail (Fault ''NULL'')
          | Some (Word k) \<Rightarrow> gets (\<lambda>s. drop k (cmd_line s))
          | Some Final_path \<Rightarrow> gets final_path
     else fail (Fault ''argv''))"

definition strcmp_m :: "string \<Rightarrow> u8 list \<Rightarrow> (shell, bool) km" where
  "strcmp_m lit p = bnd (liftr (strcmp (cstring lit) p)) (\<lambda>c. ret (c = 0))"

section \<open>Output\<close>

definition console_put_char :: "u8 \<Rightarrow> (fs, unit) km" where
  "console_put_char c = modify (\<lambda>s. s\<lparr>console := console s @ [c]\<rparr>)"

definition putchar :: "u8 \<Rightarrow> (shell, unit) km" where
  "putchar c = kcall (console_put_char c)"

text \<open>A format without its terminating zero.\<close>

definition printf :: "u8 list \<Rightarrow> va_slot list \<Rightarrow> (shell, unit) km" where
  "printf format args =
     bnd (liftr (vsprintf (replicate 1024 0) (format @ [0]) args)) (\<lambda>(_, buf).
     bnd (liftr (strlen buf)) (\<lambda>n.
     bnd (kcall (sys_write 1 buf n)) (\<lambda>_. ret ())))"

definition newline :: "u8 list" where "newline = [10]"

definition print_prompt :: "(shell, unit) km" where
  "print_prompt = bnd (gets cwd_cache) (\<lambda>cwd. printf (cbytes ''[sk@Elephant %s]$ '') [VaStr cwd])"

section \<open>Reading a line\<close>

fun erase_line :: "nat \<Rightarrow> (shell, unit) km" where
  "erase_line 0 = ret ()"
| "erase_line (Suc n) =
     bnd (putchar 8) (\<lambda>_.
     bnd (modify (\<lambda>s. s\<lparr>cmd_line := (cmd_line s)[Suc n := 0]\<rparr>)) (\<lambda>_.
     erase_line n))"

text \<open>One byte read to \<open>cmd_line[pos]\<close>, before the bound is tested; \<open>None\<close> when the loop ends there.\<close>

definition read_byte :: "nat \<Rightarrow> nat \<Rightarrow> (shell, u8 option) km" where
  "read_byte count pos =
     bnd (kcall (sys_read 0 [0] 1)) (\<lambda>(r, bytes).
     bnd (gets cmd_line) (\<lambda>line.
     bnd (liftr (buf_write pos bytes line)) (\<lambda>line.
     bnd (modify (\<lambda>s. s\<lparr>cmd_line := line\<rparr>)) (\<lambda>_.
     ret (if r \<noteq> -1 \<and> pos < count then Some (line ! pos) else None)))))"

text \<open>
  One key: \<open>Some\<close> the new position, or \<open>None\<close> for the end of the line. Stepping back from the first
  byte would leave the buffer; the test of \<open>cmd_line[0]\<close>, where that key is then stored, is there to prevent it.
\<close>

definition read_key :: "u8 \<Rightarrow> nat \<Rightarrow> (shell, nat option) km" where
  "read_key c pos =
     (if c = 10 \<or> c = 13
      then bnd (modify (\<lambda>s. s\<lparr>cmd_line := (cmd_line s)[pos := 0]\<rparr>)) (\<lambda>_.
           bnd (putchar 10) (\<lambda>_. ret None))
      else if c = 8
      then bnd (gets cmd_line) (\<lambda>line.
           if hd line = 8 then ret (Some pos)
           else if pos = 0 then fail (Fault ''--pos'')
           else bnd (putchar 8) (\<lambda>_. ret (Some (pos - 1))))
      else if c = asc CHR ''l'' - asc CHR ''a''
      then bnd (modify (\<lambda>s. s\<lparr>cmd_line := (cmd_line s)[pos := 0]\<rparr>)) (\<lambda>_.
           bnd (call Clear) (\<lambda>_.
           bnd print_prompt (\<lambda>_.
           bnd (gets cmd_line) (\<lambda>line.
           bnd (printf (cbytes ''%s'') [VaStr line]) (\<lambda>_. ret (Some pos))))))
      else if c = asc CHR ''u'' - asc CHR ''a''
      then bnd (erase_line pos) (\<lambda>_. ret (Some 0))
      else bnd (putchar c) (\<lambda>_. ret (Some (Suc pos))))"

text \<open>The loop ends with the line, or when the keys do.\<close>

partial_function (option) readline_loop :: "nat \<Rightarrow> nat \<Rightarrow> shell \<Rightarrow> (err + (bool \<times> shell)) option" where
  "readline_loop count pos s =
     (case read_byte count pos s of
        Inl e \<Rightarrow> Some (Inl e)
      | Inr (None, s) \<Rightarrow> Some (Inr (False, s))
      | Inr (Some c, s) \<Rightarrow>
          (case read_key c pos s of
             Inl e \<Rightarrow> Some (Inl e)
           | Inr (None, s) \<Rightarrow> Some (Inr (True, s))
           | Inr (Some pos, s) \<Rightarrow> readline_loop count pos s))"

definition loop_m :: "('s \<Rightarrow> (err + ('a \<times> 's)) option) \<Rightarrow> ('s, 'a) km" where
  "loop_m f s = (case f s of None \<Rightarrow> Inl Hang | Some r \<Rightarrow> r)"

definition readline :: "nat \<Rightarrow> (shell, unit) km" where
  "readline count =
     bnd (loop_m (readline_loop count 0)) (\<lambda>found.
     if found then ret ()
     else printf (cbytes ''readline: can`t find enter_key in the cmd_line, max num of char is 128'' @ newline) [])"

section \<open>Paths\<close>

text \<open>\<open>path\<close> is appended to the prefix in \<open>abs_path\<close>, and the result washed into \<open>final_path\<close>.\<close>

definition wash_joined :: "u8 list \<Rightarrow> u8 list \<Rightarrow> (shell, unit) km" where
  "wash_joined abs_path path =
     bnd (liftr (strcat abs_path path)) (\<lambda>abs_path.
     bnd (gets final_path) (\<lambda>final.
     bnd (liftr (wash_path abs_path final)) (\<lambda>final.
     modify (\<lambda>s. s\<lparr>final_path := final\<rparr>))))"

definition make_clear_abs_path :: "u8 list \<Rightarrow> (shell, unit) km" where
  "make_clear_abs_path path =
     bnd (if hd path \<noteq> asc CHR ''/''
          then bnd (kcall (sys_getcwd (replicate 512 0) 512)) (\<lambda>r.
               case r of
                 None \<Rightarrow> ret (replicate 512 0)
               | Some abs_path \<Rightarrow>
                   if hd abs_path = asc CHR ''/'' \<and> abs_path ! 1 = 0 then ret abs_path
                   else liftr (strcat abs_path (cstring ''/'')))
          else ret (replicate 512 0)) (\<lambda>abs_path.
     wash_joined abs_path path)"

definition make_default_path :: "u8 list \<Rightarrow> (shell, unit) km" where
  "make_default_path path =
     bnd (gets final_path) (\<lambda>final.
     bnd (liftr (memset final 0 512)) (\<lambda>final.
     bnd (modify (\<lambda>s. s\<lparr>final_path := final\<rparr>)) (\<lambda>_.
     bnd (liftr (strcat (replicate 512 0) (cstring ''/''))) (\<lambda>abs_path.
     wash_joined abs_path path))))"

section \<open>Built-in commands\<close>

definition buildin_pwd :: "u32 \<Rightarrow> (shell, unit) km" where
  "buildin_pwd argc =
     (if argc \<noteq> 1 then printf (cbytes ''pwd: no argument suprot!'' @ newline) []
      else
        bnd (gets final_path) (\<lambda>final.
        bnd (kcall (sys_getcwd final 16)) (\<lambda>r.
        case r of
          Some final \<Rightarrow> bnd (modify (\<lambda>s. s\<lparr>final_path := final\<rparr>)) (\<lambda>_. printf (cbytes ''%s'' @ newline) [VaStr final])
        | None \<Rightarrow> printf (cbytes ''pwd: get current work directory failed '' @ newline) [])))"

text \<open>\<open>False\<close> is \<open>NULL\<close>, \<open>True\<close> the address of \<open>final_path\<close>.\<close>

definition buildin_cd :: "u32 \<Rightarrow> (shell, bool) km" where
  "buildin_cd argc =
     (if argc > 2 then bnd (printf (cbytes ''cd: only support 1 argument!'' @ newline) []) (\<lambda>_. ret False)
      else
        bnd (if argc = 1
             then bnd (gets final_path) (\<lambda>final.
                  bnd (liftr (buf_write 0 (cstring ''/'') final)) (\<lambda>final.
                  modify (\<lambda>s. s\<lparr>final_path := final\<rparr>)))
             else bnd (arg_str 1) make_clear_abs_path) (\<lambda>_.
        bnd (gets final_path) (\<lambda>final.
        bnd (kcall (sys_chdir final)) (\<lambda>r.
        if r = -1
        then bnd (printf (cbytes ''cd: no such directory %s'' @ newline) [VaStr final]) (\<lambda>_. ret False)
        else ret True))))"

definition buildin_ps :: "u32 \<Rightarrow> (shell, unit) km" where
  "buildin_ps argc =
     (if argc \<noteq> 1 then printf (cbytes ''ps: no argument support!'' @ newline) [] else call Ps)"

definition buildin_clear :: "u32 \<Rightarrow> (shell, unit) km" where
  "buildin_clear argc =
     (if argc \<noteq> 1 then printf (cbytes ''ps: no argument support!'' @ newline) [] else call Clear)"

text \<open>The common shape of the commands with one path: the name, the call, the message of failure.\<close>

definition path_command ::
  "u32 \<Rightarrow> u8 list \<Rightarrow> u8 list \<Rightarrow> (u8 list \<Rightarrow> (fs, bool) km) \<Rightarrow> (shell, s32) km"
where
  "path_command argc usage failed op =
     (if argc \<noteq> 2 then bnd (printf (usage @ newline) []) (\<lambda>_. ret (-1))
      else
        bnd (arg_str 1) (\<lambda>arg.
        bnd (make_clear_abs_path arg) (\<lambda>_.
        bnd (gets final_path) (\<lambda>final.
        bnd (strcmp_m ''/'' final) (\<lambda>root.
        if root then ret (-1)
        else
          bnd (kcall (op final)) (\<lambda>ok.
          if ok then ret 0
          else bnd (arg_str 1) (\<lambda>arg.
               bnd (printf (failed @ newline) [VaStr arg]) (\<lambda>_. ret (-1)))))))))"

definition buildin_mkdir :: "u32 \<Rightarrow> (shell, s32) km" where
  "buildin_mkdir argc =
     path_command argc (cbytes ''mkdir: only support 1 argument!'') (cbytes ''mkdir: create directory %s failed.'')
       (\<lambda>path. bnd (sys_mkdir path) (\<lambda>r. ret (r = 0)))"

definition buildin_rmdir :: "u32 \<Rightarrow> (shell, s32) km" where
  "buildin_rmdir argc =
     path_command argc (cbytes ''rmdir: only support 1 argument!'') (cbytes ''rmdir: create directory %s failed.'')
       (\<lambda>path. bnd (sys_rmdir path) (\<lambda>r. ret (r = 0)))"

definition buildin_rm :: "u32 \<Rightarrow> (shell, s32) km" where
  "buildin_rm argc =
     path_command argc (cbytes ''rm: only support 1 argument!'') (cbytes ''rm: delete directory %s failed.'')
       (\<lambda>path. bnd (sys_unlink path) (\<lambda>r. ret (r = 0)))"

definition buildin_touch :: "u32 \<Rightarrow> (shell, s32) km" where
  "buildin_touch argc =
     path_command argc (cbytes ''touch: touch receives only argument! '') (cbytes ''touch: create file %s failed!'')
       (\<lambda>path. bnd (sys_open path 6) (\<lambda>fd. ret (fd \<noteq> -1)))"


section \<open>Listing and echoing\<close>

definition ls_usage :: "u8 list" where
  "ls_usage = cbytes ''ls: list all file in current working directory (cwd). Wish builtin command'' @ newline @
     cbytes ''Usage:'' @ newline @
     cbytes ''    -l     list all infomation about the file.'' @ newline @
     cbytes ''    -h     show this help message.'' @ newline"

text \<open>The options and the path among the arguments; \<open>None\<close> when there are two paths.\<close>

fun ls_args :: "nat list \<Rightarrow> bool \<Rightarrow> u8 list option \<Rightarrow> (shell, (bool \<times> u8 list option) option) km" where
  "ls_args [] long_info pathname = ret (Some (long_info, pathname))"
| "ls_args (i # is) long_info pathname =
     bnd (arg_str i) (\<lambda>arg.
     if hd arg = asc CHR ''-''
     then
       bnd (strcmp_m ''-l'' arg) (\<lambda>l.
       if l then ls_args is True pathname
       else
         bnd (strcmp_m ''-h'' arg) (\<lambda>h.
         bnd (if h then printf ls_usage []
              else printf (cbytes ''ls: invalid option %s. Run `ls -h` for more infomation.'' @ newline) []) (\<lambda>_.
         ls_args is long_info pathname))
       )
     else if pathname = None then ls_args is long_info (Some arg)
     else bnd (printf (cbytes ''ls: only support one path'' @ newline) []) (\<lambda>_. ret None))"

text \<open>The two loops over the entries of a directory; a name is in the 24 bytes of its entry.\<close>

partial_function (option) ls_names :: "ptr option \<Rightarrow> shell \<Rightarrow> (err + (unit \<times> shell)) option" where
  "ls_names dir s =
     (case kcall (sys_readdir dir) s of
        Inl e \<Rightarrow> Some (Inl e)
      | Inr (None, s) \<Rightarrow> Some (Inr ((), s))
      | Inr (Some de, s) \<Rightarrow>
          (case printf (cbytes ''%s  '') [VaStr (dir_entry_bytes de)] s of
             Inl e \<Rightarrow> Some (Inl e)
           | Inr (_, s) \<Rightarrow> ls_names dir s))"

definition ls_long_entry :: "u8 list \<Rightarrow> nat \<Rightarrow> dir_entry \<Rightarrow> (shell, bool) km" where
  "ls_long_entry sub_pathname pathname_len de =
     bnd (liftr (buf_write pathname_len [0] sub_pathname)) (\<lambda>sub.
     bnd (liftr (strcat sub (dir_entry_bytes de))) (\<lambda>sub.
     bnd (kcall (sys_stat sub)) (\<lambda>(r, st).
     case st of
       None \<Rightarrow> bnd (printf (cbytes ''ls: cannot access to %s: No such file or directory!'' @ newline)
                  [VaStr (dir_entry_bytes de)]) (\<lambda>_. ret False)
     | Some st \<Rightarrow>
         bnd (printf (cbytes ''%c  %d  %d  %s'' @ newline)
            [VaInt (ucast (asc (if f_type de = ft_code FT_REGULAR then CHR ''-'' else CHR ''d''))),
             VaInt (de_i_no de), VaInt (st_size st), VaStr (dir_entry_bytes de)]) (\<lambda>_. ret True))))"

partial_function (option) ls_long :: "ptr option \<Rightarrow> u8 list \<Rightarrow> nat \<Rightarrow> shell \<Rightarrow> (err + (bool \<times> shell)) option" where
  "ls_long dir sub_pathname pathname_len s =
     (case kcall (sys_readdir dir) s of
        Inl e \<Rightarrow> Some (Inl e)
      | Inr (None, s) \<Rightarrow> Some (Inr (True, s))
      | Inr (Some de, s) \<Rightarrow>
          (case ls_long_entry sub_pathname pathname_len de s of
             Inl e \<Rightarrow> Some (Inl e)
           | Inr (ok, s) \<Rightarrow>
               if ok then ls_long dir sub_pathname pathname_len s else Some (Inr (False, s))))"

definition ls_dir :: "u8 list \<Rightarrow> bool \<Rightarrow> stat \<Rightarrow> (shell, unit) km" where
  "ls_dir pathname long_info file_stat =
     bnd (kcall (sys_opendir pathname)) (\<lambda>dir.
     bnd (liftr (strlen pathname)) (\<lambda>n.
     let len = unat n in
     bnd (liftr (memcpy (replicate 512 0) pathname len)) (\<lambda>sub.
     if len = 0 then fail (Fault ''sub_pathname[last_char_idx]'')
     else
       bnd (if sub ! (len - 1) \<noteq> asc CHR ''/''
            then bnd (liftr (buf_write len [asc CHR ''/''] sub)) (\<lambda>sub. ret (sub, Suc len))
            else ret (sub, len)) (\<lambda>(sub, len).
       bnd (case dir of None \<Rightarrow> fail (Fault ''NULL'') | Some d \<Rightarrow> kcall (sys_rewinddir d)) (\<lambda>_.
       bnd (if long_info
            then bnd (printf (cbytes ''total:%d'' @ newline) [VaInt (st_size file_stat)]) (\<lambda>_.
                 loop_m (ls_long dir sub len))
            else bnd (loop_m (ls_names dir)) (\<lambda>_.
                 bnd (printf newline []) (\<lambda>_. ret True))) (\<lambda>to_end.
       if to_end then bnd (kcall (sys_closedir dir)) (\<lambda>_. ret ()) else ret ()))))))"

definition buildin_ls :: "u32 \<Rightarrow> (shell, unit) km" where
  "buildin_ls argc =
     bnd (ls_args [1..<unat argc] False None) (\<lambda>r.
     case r of
       None \<Rightarrow> ret ()
     | Some (long_info, pathname) \<Rightarrow>
         bnd (case pathname of
                None \<Rightarrow>
                  bnd (gets final_path) (\<lambda>final.
                  bnd (kcall (sys_getcwd final 512)) (\<lambda>r.
                  case r of
                    Some final \<Rightarrow> bnd (modify (\<lambda>s. s\<lparr>final_path := final\<rparr>)) (\<lambda>_. ret True)
                  | None \<Rightarrow> bnd (printf (cbytes ''ls getcwd for default path failed'' @ newline) []) (\<lambda>_. ret False)))
              | Some path \<Rightarrow> bnd (make_clear_abs_path path) (\<lambda>_. ret True)) (\<lambda>found.
         if \<not> found then ret ()
         else
           bnd (gets final_path) (\<lambda>pathname.
           bnd (kcall (sys_stat pathname)) (\<lambda>(r, st).
           case st of
             None \<Rightarrow> printf (cbytes ''ls: cannot access %s: No such file or directory!'' @ newline) [VaStr pathname]
           | Some st \<Rightarrow>
               if st_filetype st = FT_DIRECTORY then ls_dir pathname long_info st
               else printf (cbytes ''-  %d  %d  %s'' @ newline)
                      [VaInt (st_ino st), VaInt (st_size st), VaStr pathname]))))"

text \<open>The position after the first \<open>>\<close>.\<close>

fun echo_file :: "nat list \<Rightarrow> (shell, nat option) km" where
  "echo_file [] = ret None"
| "echo_file (i # is) =
     bnd (arg_str i) (\<lambda>arg.
     bnd (liftr (strcmp arg (cstring ''>''))) (\<lambda>c.
     if c = 0 then ret (Some (Suc i)) else echo_file is))"

definition echo_open :: "nat \<Rightarrow> (shell, s32 option) km" where
  "echo_open file_idx =
     bnd (arg_str file_idx) (\<lambda>arg.
     bnd (if hd arg \<noteq> asc CHR ''/''
          then bnd (kcall (sys_getcwd (replicate 512 0) 512)) (\<lambda>r.
               let abs_path = (case r of None \<Rightarrow> replicate 512 0 | Some b \<Rightarrow> b) in
               bnd (liftr (strlen abs_path)) (\<lambda>n.
               if n = 0 then fail (Fault ''abs_path[len - 1]'')
               else
                 bnd (if abs_path ! (unat n - 1) \<noteq> asc CHR ''/''
                      then liftr (buf_write (unat n) [asc CHR ''/''] abs_path) else ret abs_path) (\<lambda>abs_path.
                 liftr (strcat abs_path arg))))
          else liftr (strcpy (replicate 512 0) arg)) (\<lambda>abs_path.
     bnd (kcall (sys_open abs_path 2)) (\<lambda>fd.
     if fd = -1
     then bnd (printf (cbytes ''echo: open file %s failed'' @ newline) [VaStr abs_path]) (\<lambda>_. ret None)
     else ret (Some fd))))"

fun echo_args :: "s32 \<Rightarrow> nat list \<Rightarrow> (shell, unit) km" where
  "echo_args fd [] = ret ()"
| "echo_args fd (i # is) =
     bnd (arg_str i) (\<lambda>arg.
     bnd (liftr (strlen arg)) (\<lambda>n.
     bnd (kcall (sys_write fd arg n)) (\<lambda>_.
     bnd (kcall (sys_write fd (cstring '' '') 1)) (\<lambda>_.
     echo_args fd is))))"

definition buildin_echo :: "u32 \<Rightarrow> (shell, unit) km" where
  "buildin_echo argc =
     (if argc \<le> 1
      then bnd (printf (cbytes ''echo: echo needs at least 1 argument!'' @ newline) []) (\<lambda>_.
           printf (cbytes ''Usage:'' @ newline @ cbytes ''    echo something'' @ newline @
             cbytes ''    echo something > file'' @ newline) [])
      else
        bnd (echo_file [0..<unat argc]) (\<lambda>file_idx.
        bnd (case file_idx of None \<Rightarrow> ret (Some 1) | Some i \<Rightarrow> echo_open i) (\<lambda>fd.
        case fd of
          None \<Rightarrow> ret ()
        | Some fd \<Rightarrow>
            let args_to_print = (case file_idx of None \<Rightarrow> unat argc | Some i \<Rightarrow> i - 1) in
            bnd (echo_args fd [1..<args_to_print]) (\<lambda>_.
            bnd (kcall (sys_write fd (newline @ [0]) 1)) (\<lambda>_.
            if file_idx \<noteq> Some 1 then bnd (kcall (sys_close fd)) (\<lambda>_. ret ()) else ret ())))))"

section \<open>Executing a command\<close>

definition help_text :: "u8 list" where
  "help_text = concat (List.map (\<lambda>l. cbytes l @ newline)
     ['' buildin commands:'',
      ''       ls: show directory or file information'',
      ''       cd: change current work directory'',
      ''       mkdir: create a directory'',
      ''       rmdir: remove a empty directory'',
      ''       rm: remove a regular file'',
      ''       pwd: show current work directory'',
      ''       ps: show process information'',
      ''       clear: clear screen'',
      ''       touch: create a file'',
      ''       echo: display a line of text'',
      ''       date: display current time'',
      '' shortcut key:'',
      ''       ctrl+l: clear screen'',
      ''       ctrl+u: clear input'', ''''])"

definition show_help :: "(shell, unit) km" where
  "show_help = printf help_text []"

text \<open>The child of an external command: the path tried first, then the path below the root.\<close>

definition exec_child :: "(shell, outcome) km" where
  "exec_child =
     bnd (arg_str 0) (\<lambda>temp.
     bnd (make_clear_abs_path temp) (\<lambda>_.
     bnd (modify (\<lambda>s. s\<lparr>argv := (argv s)[0 := Some Final_path]\<rparr>)) (\<lambda>_.
     bnd (gets final_path) (\<lambda>final.
     bnd (kcall (sys_stat final)) (\<lambda>(r, _).
     bnd (if r = -1
          then
            bnd (make_default_path temp) (\<lambda>_.
            bnd (gets final_path) (\<lambda>final.
            bnd (kcall (sys_stat final)) (\<lambda>(r, _).
            if r = -1
            then bnd (printf (cbytes ''my_shell: cannot access %s: No such file or directory'' @ newline)
                        [VaStr final]) (\<lambda>_. ret False)
            else ret True)))
          else ret True) (\<lambda>exec.
     bnd (if exec then bnd (gets final_path) (\<lambda>final. bnd (call (Execv final)) (\<lambda>_. gets exec_fails)) else ret True) (\<lambda>back.
     bnd (whenm back (call (Exit 0))) (\<lambda>_. ret Gone))))))))"

definition run_external :: "(shell, outcome) km" where
  "run_external =
     bnd (call Fork) (\<lambda>_.
     bnd (gets fork_ret) (\<lambda>pid.
     if pid \<noteq> 0
     then bnd (call Wait) (\<lambda>_.
          bnd (gets wait_ret) (\<lambda>child_pid.
          if child_pid = -1 then fail (Panic ''my_shell: no child'') else ret Continue))
     else exec_child))"

text \<open>\<open>memset\<close> clears \<open>MAX_PATH_LEN\<close> bytes of the 64 of \<open>cwd_cache\<close>.\<close>

definition set_cwd_cache :: "(shell, unit) km" where
  "set_cwd_cache =
     bnd (gets cwd_cache) (\<lambda>cwd.
     bnd (liftr (memset cwd 0 512)) (\<lambda>cwd.
     bnd (gets final_path) (\<lambda>final.
     bnd (liftr (strcpy cwd final)) (\<lambda>cwd.
     modify (\<lambda>s. s\<lparr>cwd_cache := cwd\<rparr>)))))"

definition go_on :: "(shell, 'a) km \<Rightarrow> (shell, outcome) km" where
  "go_on m = bnd m (\<lambda>_. ret Continue)"

definition commands :: "u32 \<Rightarrow> (string \<times> (shell, outcome) km) list" where
  "commands argc =
     [(''ls'', go_on (buildin_ls argc)),
      (''cd'', bnd (buildin_cd argc) (\<lambda>ok. go_on (whenm ok set_cwd_cache))),
      (''pwd'', go_on (buildin_pwd argc)),
      (''ps'', go_on (buildin_ps argc)),
      (''clear'', go_on (buildin_clear argc)),
      (''mkdir'', go_on (buildin_mkdir argc)),
      (''rmdir'', go_on (buildin_rmdir argc)),
      (''rm'', go_on (buildin_rm argc)),
      (''touch'', go_on (buildin_touch argc)),
      (''help'', go_on show_help),
      (''echo'', go_on (buildin_echo argc)),
      (''date'', go_on (call Date)),
      (''debug'', go_on (call Debug))]"

text \<open>The chain of \<open>if\<close> and \<open>else if\<close> over the command's name.\<close>

fun dispatch :: "(string \<times> (shell, outcome) km) list \<Rightarrow> (shell, outcome) km" where
  "dispatch [] = run_external"
| "dispatch ((name, m) # cs) =
     bnd (arg_str 0) (\<lambda>arg.
     bnd (strcmp_m name arg) (\<lambda>eq.
     if eq then m else dispatch cs))"

definition cmd_execute :: "u32 \<Rightarrow> (shell, outcome) km" where
  "cmd_execute argc = dispatch (commands argc)"

section \<open>The loop of the shell\<close>

definition parse_args :: "nat \<Rightarrow> (shell, s32) km" where
  "parse_args cmd_str =
     bnd (gets cmd_line) (\<lambda>line.
     bnd (liftr (cmd_parse line cmd_str (asc CHR '' ''))) (\<lambda>(argc, av, line).
     bnd (modify (\<lambda>s. s\<lparr>argv := List.map (map_option Word) av, cmd_line := line\<rparr>)) (\<lambda>_.
     ret argc)))"

definition shell_iter :: "(shell, outcome) km" where
  "shell_iter =
     bnd print_prompt (\<lambda>_.
     bnd (gets final_path) (\<lambda>final.
     bnd (liftr (memset final 0 512)) (\<lambda>final.
     bnd (modify (\<lambda>s. s\<lparr>final_path := final\<rparr>)) (\<lambda>_.
     bnd (gets cmd_line) (\<lambda>line.
     bnd (liftr (memset line 0 cmd_len)) (\<lambda>line.
     bnd (modify (\<lambda>s. s\<lparr>cmd_line := line\<rparr>)) (\<lambda>_.
     bnd (readline cmd_len) (\<lambda>_.
     bnd (gets cmd_line) (\<lambda>line.
     if hd line = 0 then ret Continue
     else
       bnd (parse_args 0) (\<lambda>argc.
       if argc = -1
       then bnd (printf (cbytes ''num of argument exceed %d'' @ newline) [VaInt 16]) (\<lambda>_. ret Continue)
       else cmd_execute argc))))))))))"

partial_function (option) shell_loop :: "shell \<Rightarrow> (err + (outcome \<times> shell)) option" where
  "shell_loop s =
     (case shell_iter s of
        Inl e \<Rightarrow> Some (Inl e)
      | Inr (Gone, s) \<Rightarrow> Some (Inr (Gone, s))
      | Inr (Continue, s) \<Rightarrow> shell_loop s)"

definition my_shell :: "(shell, outcome) km" where
  "my_shell =
     bnd (modify (\<lambda>s. s\<lparr>cwd_cache := (cwd_cache s)[0 := asc CHR ''/'']\<rparr>)) (\<lambda>_. loop_m shell_loop)"

section \<open>Pipelines\<close>

definition run_segment :: "nat \<Rightarrow> (shell, outcome) km" where
  "run_segment each_cmd = bnd (parse_args each_cmd) (\<lambda>argc. cmd_execute argc)"

definition find_bar :: "nat \<Rightarrow> (shell, nat option) km" where
  "find_bar each_cmd =
     bnd (gets cmd_line) (\<lambda>line.
     bnd (liftr (strchr (drop each_cmd line) (asc CHR ''|''))) (\<lambda>r.
     ret (map_option (\<lambda>k. each_cmd + k) r)))"

definition cut_bar :: "nat \<Rightarrow> (shell, unit) km" where
  "cut_bar k = modify (\<lambda>s. s\<lparr>cmd_line := (cmd_line s)[k := 0]\<rparr>)"

text \<open>The commands between the first and the last, and where the last one starts.\<close>

partial_function (option) wish_middle :: "nat \<Rightarrow> shell \<Rightarrow> (err + (nat option \<times> shell)) option" where
  "wish_middle each_cmd s =
     (case find_bar each_cmd s of
        Inl e \<Rightarrow> Some (Inl e)
      | Inr (None, s) \<Rightarrow> Some (Inr (Some each_cmd, s))
      | Inr (Some k, s) \<Rightarrow>
          (case bnd (cut_bar k) (\<lambda>_. run_segment each_cmd) s of
             Inl e \<Rightarrow> Some (Inl e)
           | Inr (Gone, s) \<Rightarrow> Some (Inr (None, s))
           | Inr (Continue, s) \<Rightarrow> wish_middle (Suc k) s))"

definition wish :: "(shell, outcome) km" where
  "wish =
     bnd (find_bar 0) (\<lambda>bar.
     case bar of
       None \<Rightarrow> ret Continue
     | Some _ \<Rightarrow>
         bnd (kcall sys_pipe) (\<lambda>(_, fds).
         let fd = (if fds = [] then [-1, 0] else fds) in
         bnd (kcall (sys_fd_redirect 1 (fd ! 1))) (\<lambda>_.
         bnd (find_bar 0) (\<lambda>bar.
         case bar of
           None \<Rightarrow> fail (Fault ''NULL'')
         | Some k \<Rightarrow>
             bnd (cut_bar k) (\<lambda>_.
             bnd (run_segment 0) (\<lambda>r.
             if r = Gone then ret Gone
             else
               bnd (kcall (sys_fd_redirect 0 (fd ! 0))) (\<lambda>_.
               bnd (loop_m (wish_middle (Suc k))) (\<lambda>last.
               case last of
                 None \<Rightarrow> ret Gone
               | Some each_cmd \<Rightarrow>
                   bnd (kcall (sys_fd_redirect 1 1)) (\<lambda>_.
                   bnd (run_segment each_cmd) (\<lambda>r.
                   if r = Gone then ret Gone
                   else
                     bnd (kcall (sys_fd_redirect 0 0)) (\<lambda>_.
                     bnd (kcall (sys_close (fd ! 0))) (\<lambda>_.
                     bnd (kcall (sys_close (fd ! 1))) (\<lambda>_.
                     ret Continue)))))))))))))"

end
