(* ===== verification/Shell_Input.thy ===== *)
theory Shell_Input
  imports Shell
begin

text \<open>
  What the shell's terminal input and output do when the standard descriptors are the keyboard and
  the screen: \<open>printf\<close> appends the formatted text to the screen, and \<open>readline\<close> is the line editor
  that the keys describe (enter, backspace, ctrl-l, ctrl-u).
\<close>

section \<open>Terminal calls\<close>

text \<open>Descriptors 0 and 1 are not redirected to a pipe.\<close>

definition tty :: "fs \<Rightarrow> bool" where
  "tty k \<longleftrightarrow> length (file_table k) = MAX_FILE_OPEN \<and> 2 \<le> length (p_fd_table k) \<and>
     (\<forall>i < 2. unat (p_fd_table k ! i) < MAX_FILE_OPEN \<and>
        fd_flag (file_table k ! unat (p_fd_table k ! i)) \<noteq> PIPE_FLAG)"

text \<open>Two kernel states that differ in the screen, the keyboard's buffer and the threads woken only.\<close>

definition io_rel :: "fs \<Rightarrow> fs \<Rightarrow> bool" where
  "io_rel k k' \<longleftrightarrow> k' = k\<lparr>kbd_buf := kbd_buf k', woken := woken k', console := console k'\<rparr>"

lemma io_rel_refl [simp]: "io_rel k k"
  by (simp add: io_rel_def)

lemma io_rel_trans: "io_rel k k' \<Longrightarrow> io_rel k' k'' \<Longrightarrow> io_rel k k''"
  by (cases k; cases k'; cases k'') (simp add: io_rel_def)

lemma io_rel_console: "io_rel k (k\<lparr>console := c\<rparr>)"
  by (simp add: io_rel_def)

lemma tty_io_rel: "io_rel k k' \<Longrightarrow> tty k' \<longleftrightarrow> tty k"
  by (cases k; cases k') (simp add: io_rel_def tty_def)

lemma tty_not_pipe: "tty k \<Longrightarrow> unat fd < 2 \<Longrightarrow> is_pipe fd k = Inr (False, k)"
proof -
  assume t: "tty k" and fd: "unat fd < 2"
  from t fd have len: "unat fd < length (p_fd_table k)" by (simp add: tty_def)
  from t fd have g: "unat (p_fd_table k ! unat fd) < MAX_FILE_OPEN"
      "fd_flag (file_table k ! unat (p_fd_table k ! unat fd)) \<noteq> PIPE_FLAG"
    by (simp_all add: tty_def)
  have "fd_local2global fd k = Inr (p_fd_table k ! unat fd, k)"
    by (rule fd_local2global_run [OF len g(1)])
  moreover have "get_file (unat (p_fd_table k ! unat fd)) k = Inr (file_table k ! unat (p_fd_table k ! unat fd), k)"
    using t g(1) by (simp add: get_file_def tty_def)
  ultimately show ?thesis using g(2) by (simp add: is_pipe_def bnd_Inr)
qed

lemma bnd_tty: "tty k \<Longrightarrow> unat fd < 2 \<Longrightarrow> bnd (is_pipe fd) f k = f False k"
  by (rule bnd_Inr [OF tty_not_pipe])

lemma sys_write_tty:
  assumes "tty k" and "0 \<in> set buf" and "length (cstr buf) < 1024"
  shows "sys_write 1 buf (of_nat (length (cstr buf))) k =
    Inr (of_nat (length (cstr buf)), k\<lparr>console := console k @ cstr buf\<rparr>)"
proof -
  let ?n = "length (cstr buf)" and ?z = "replicate 1024 (0 :: u8)"
  have n: "unat (of_nat ?n :: u32) = ?n" using assms(3) by (simp add: unat_of_nat_u32)
  have "?n \<le> length buf" using length_cstr [OF assms(2)] by simp
  then have cpy: "memcpy ?z buf ?n = Inr (cstr buf @ drop ?n ?z)"
    using assms(3) memcpy_eq [of ?n ?z buf] by (simp add: take_cstr [OF assms(2)])
  have z: "drop ?n ?z = 0 # drop (Suc ?n) ?z" using assms(3) Cons_nth_drop_Suc [of ?n ?z] by simp
  have "cstr (cstr buf @ drop ?n ?z) = cstr buf"
    unfolding z cstr_append_0 by (rule cstr_id [OF cstr_no_nul])
  moreover have "0 \<in> set (cstr buf @ drop ?n ?z)" unfolding z by simp
  ultimately have "stdout_write buf (of_nat ?n) k = Inr (of_nat ?n, k\<lparr>console := console k @ cstr buf\<rparr>)"
    unfolding stdout_write_def n cpy by (simp add: strlen_eq)
  then show ?thesis
    using assms(1) by (simp add: sys_write_def bnd_tty)
qed

lemma bnd_kcall: "m (kern s) = Inr (x, k) \<Longrightarrow> bnd (kcall m) f s = f x (s\<lparr>kern := k\<rparr>)"
  by (simp add: kcall_def bnd_def)

lemma kcall_run: "m (kern s) = Inr (x, k) \<Longrightarrow> kcall m s = Inr (x, s\<lparr>kern := k\<rparr>)"
  by (simp add: kcall_def)

text \<open>\<open>printf\<close> on the terminal, for a format given by its items.\<close>

lemma printf_run:
  assumes "tty (kern s)" and "\<forall>it \<in> set items. item_wf it" and "length (fmt_out items) < 1024"
    and "format = fmt_text items" and "args = fmt_args items"
  shows "printf format args s =
    Inr ((), s\<lparr>kern := (kern s)\<lparr>console := console (kern s) @ cstr (fmt_out items)\<rparr>\<rparr>)"
proof -
  let ?buf = "fmt_out items @ replicate (1024 - length (fmt_out items)) 0"
  have out: "vsprintf (replicate 1024 0) (format @ [0]) args = Inr (of_nat (length (cstr (fmt_out items))), ?buf)"
    using vsprintf_run [of items 1024 "[]" "[]"] assms(2-5) by simp
  obtain m where m: "1024 - length (fmt_out items) = Suc m"
    using assms(3) by (metis Suc_diff_Suc)
  have buf: "0 \<in> set ?buf" "cstr ?buf = cstr (fmt_out items)"
    unfolding m by (simp_all add: cstr_append_0)
  have "length (cstr (fmt_out items)) \<le> length (fmt_out items)"
    unfolding cstr_def by (rule length_takeWhile_le)
  then have "length (cstr ?buf) < 1024" using assms(3) unfolding buf(2) by linarith
  from sys_write_tty [OF assms(1) buf(1) this] have
    "sys_write 1 ?buf (of_nat (length (cstr (fmt_out items)))) (kern s) =
      Inr (of_nat (length (cstr (fmt_out items))), (kern s)\<lparr>console := console (kern s) @ cstr (fmt_out items)\<rparr>)"
    unfolding buf(2) .
  moreover have "strlen ?buf = Inr (of_nat (length (cstr (fmt_out items))))"
    unfolding strlen_eq [OF buf(1)] buf(2) ..
  ultimately show ?thesis
    unfolding printf_def out by (simp add: bnd_kcall)
qed

definition lits :: "u8 list \<Rightarrow> item list" where
  "lits = List.map Lit"

lemma fmt_lits [simp]:
  "fmt_text (lits l @ r) = l @ fmt_text r" "fmt_args (lits l @ r) = fmt_args r"
  "fmt_out (lits l @ r) = l @ fmt_out r" "fmt_text (lits l) = l" "fmt_args (lits l) = []" "fmt_out (lits l) = l"
  by (induction l) (simp_all add: lits_def fmt_text_def fmt_args_def fmt_out_def)

lemma fmt_Conv_s [simp]:
  "fmt_text (Conv_s a # r) = 37 # 115 # fmt_text r" "fmt_args (Conv_s a # r) = VaStr a # fmt_args r"
  "fmt_out (Conv_s a # r) = cstr a @ fmt_out r"
  by (simp_all add: fmt_text_def fmt_args_def fmt_out_def)

lemma fmt_Nil [simp]: "fmt_text [] = []" "fmt_args [] = []" "fmt_out [] = []"
  by (simp_all add: fmt_text_def fmt_args_def fmt_out_def)

lemma lits_wf: "(\<forall>it \<in> set (lits l). item_wf it) \<longleftrightarrow> 0 \<notin> set l \<and> 37 \<notin> set l"
  by (auto simp: lits_def)

text \<open>A format with one \<open>%s\<close>.\<close>

lemma printf_s_run:
  assumes "tty (kern s)" and "0 \<notin> set a" "37 \<notin> set a" "0 \<notin> set b" "37 \<notin> set b" and "0 \<in> set x"
    and "length a + length (cstr x) + length b < 1024"
  shows "printf (a @ 37 # 115 # b) [VaStr x] s =
    Inr ((), s\<lparr>kern := (kern s)\<lparr>console := console (kern s) @ a @ cstr x @ b\<rparr>\<rparr>)"
proof -
  let ?items = "lits a @ Conv_s x # lits b"
  have "printf (a @ 37 # 115 # b) [VaStr x] s =
      Inr ((), s\<lparr>kern := (kern s)\<lparr>console := console (kern s) @ cstr (fmt_out ?items)\<rparr>\<rparr>)"
  proof (rule printf_run [OF assms(1)])
    show "\<forall>it \<in> set ?items. item_wf it"
      using assms(2-6) lits_wf [of a] lits_wf [of b] by (auto simp: ball_Un)
  qed (use assms(7) in simp_all)
  moreover have "cstr (fmt_out ?items) = a @ cstr x @ b"
    using assms(2,4) by (simp add: cstr_cat cstr_no_nul cstr_id)
  ultimately show ?thesis by simp
qed

lemma print_prompt_run:
  assumes "tty (kern s)" and "0 \<in> set (cwd_cache s)" and "length (cwd_cache s) \<le> 64"
  shows "print_prompt s = Inr ((), s\<lparr>kern := (kern s)\<lparr>console := console (kern s) @
    cbytes ''[sk@Elephant '' @ cstr (cwd_cache s) @ cbytes '']$ ''\<rparr>\<rparr>)"
proof -
  let ?a = "cbytes ''[sk@Elephant ''" and ?b = "cbytes '']$ ''"
  have fmt: "cbytes ''[sk@Elephant %s]$ '' = ?a @ 37 # 115 # ?b" by (simp add: asc_def)
  have lit: "0 \<notin> set ?a" "37 \<notin> set ?a" "0 \<notin> set ?b" "37 \<notin> set ?b" "length ?a = 13" "length ?b = 3"
    by (simp_all add: asc_def)
  have "length (cstr (cwd_cache s)) < 64" using length_cstr [OF assms(2)] assms(3) by simp
  then show ?thesis
    unfolding print_prompt_def fmt bnd_gets
    by (intro printf_s_run assms lit) (simp only: lit)
qed

section \<open>One key at a time\<close>

lemma sys_read_key:
  assumes "tty k" and "ioq_wf (kbd_buf k)" and "ioq_content (kbd_buf k) = c # cs"
  obtains k' where "sys_read 0 buf 1 k = Inr ((1, [c]), k')" and "io_rel k k'"
    and "ioq_wf (kbd_buf k')" and "ioq_content (kbd_buf k') = cs"
proof -
  obtain q where q: "ioq_get (kbd_buf k) = Inr (c, q)" "ioq_wf q" "ioq_content q = cs"
    using ioq_get_ok [OF assms(2,3)] by blast
  then obtain t where g: "ioq_getchar (kbd_buf k) = Inr (c, t, q)"
    by (auto simp: ioq_get_def rbind_eq_Inr)
  define k' where "k' = (k\<lparr>kbd_buf := q\<rparr>)\<lparr>woken := woken k @ (case t of None \<Rightarrow> [] | Some x \<Rightarrow> [x])\<rparr>"
  have get: "kbd_get_n (Suc 0) k = Inr ([c], k')"
    by (cases t) (simp_all add: g wake_def k'_def bnd_assoc)
  have "sys_read 0 buf 1 k = Inr ((1, [c]), k')"
    using assms(1) by (simp add: sys_read_def bnd_tty bnd_Inr [where m = "kbd_get_n (Suc 0)" and s = k, OF get] del: kbd_get_n.simps)
  moreover have "io_rel k k'"
    unfolding io_rel_def k'_def
    by simp
  moreover have "kbd_buf k' = q" by (simp add: k'_def)
  ultimately show thesis using q by (intro that [of k']) simp_all
qed


section \<open>The line editor\<close>

text \<open>
  What the keys make of the line typed so far: the line at the end and the keys left. A line of 128
  characters before its end is out of the buffer.
\<close>

fun edit :: "u8 list \<Rightarrow> u8 list \<Rightarrow> (u8 list \<times> u8 list) option" where
  "edit line [] = None"
| "edit line (k # ks) =
     (if cmd_len \<le> length line then None
      else if k = 10 \<or> k = 13 then Some (line, ks)
      else if k = 8 then edit (butlast line) ks
      else if k = 11 then edit line ks
      else if k = 20 then edit [] ks
      else edit (line @ [k]) ks)"

text \<open>The buffer holds the line typed so far.\<close>

definition holds :: "u8 list \<Rightarrow> u8 list \<Rightarrow> bool" where
  "holds line buf \<longleftrightarrow> length buf = cmd_len \<and> length line \<le> cmd_len \<and> take (length line) buf = line \<and>
     0 \<notin> set line \<and> (line \<noteq> [] \<longrightarrow> hd line \<noteq> 8)"

lemma holds_terminated:
  assumes "holds line buf" and "length line < cmd_len"
  shows "cstr (buf[length line := 0]) = line" and "0 \<in> set (buf[length line := 0])"
    and "holds line (buf[length line := 0])"
proof -
  have "buf[length line := 0] = take (length line) buf @ 0 # drop (Suc (length line)) buf"
    using assms by (intro upd_conv_take_nth_drop) (simp add: holds_def)
  then have split: "buf[length line := 0] = line @ 0 # drop (Suc (length line)) buf"
    using assms(1) by (simp add: holds_def)
  show "cstr (buf[length line := 0]) = line"
    unfolding split cstr_append_0 by (rule cstr_id) (use assms(1) in \<open>simp add: holds_def\<close>)
  show "0 \<in> set (buf[length line := 0])" unfolding split by simp
  show "holds line (buf[length line := 0])" using assms(1) by (simp add: holds_def)
qed

lemma holds_store: "holds line buf \<Longrightarrow> length line < cmd_len \<Longrightarrow> holds line (buf[length line := c])"
  by (simp add: holds_def)

lemma holds_append:
  "holds line buf \<Longrightarrow> length line < cmd_len \<Longrightarrow> c \<noteq> 0 \<Longrightarrow> c \<noteq> 8 \<Longrightarrow> holds (line @ [c]) (buf[length line := c])"
  by (auto simp: holds_def take_Suc_conv_app_nth hd_append)

lemma holds_butlast: "holds line buf \<Longrightarrow> holds (butlast line) buf"
proof (cases line rule: rev_cases)
  case (snoc xs x)
  assume "holds line buf"
  then have h: "length buf = cmd_len" "Suc (length xs) \<le> cmd_len" "take (Suc (length xs)) buf = xs @ [x]"
      "0 \<notin> set xs" "hd (xs @ [x]) \<noteq> 8"
    by (simp_all add: holds_def snoc)
  have "take (length xs) buf = xs" using arg_cong [OF h(3), of "take (length xs)"] by simp
  with h show ?thesis by (auto simp: holds_def snoc hd_append)
qed simp

text \<open>What a key may change besides the buffer.\<close>

definition io_step :: "shell \<Rightarrow> shell \<Rightarrow> bool" where
  "io_step s s' \<longleftrightarrow> io_rel (kern s) (kern s') \<and>
     s' = s\<lparr>kern := kern s', cmd_line := cmd_line s', calls := calls s'\<rparr>"

lemma io_step_refl [simp]: "io_step s s"
  by (simp add: io_step_def)

lemma io_step_trans: "io_step s s' \<Longrightarrow> io_step s' s'' \<Longrightarrow> io_step s s''"
  unfolding io_step_def
  by (intro conjI, metis io_rel_trans) (cases s; cases s'; cases s''; simp)

lemma putchar_run: "putchar c s = Inr ((), s\<lparr>kern := (kern s)\<lparr>console := console (kern s) @ [c]\<rparr>\<rparr>)"
  by (simp add: putchar_def kcall_def console_put_char_def)

lemma bnd_putchar: "bnd (putchar c) f s = f () (s\<lparr>kern := (kern s)\<lparr>console := console (kern s) @ [c]\<rparr>\<rparr>)"
  by (rule bnd_Inr [OF putchar_run])

lemma erase_line_run:
  "\<exists>s'. erase_line n s = Inr ((), s') \<and> io_step s s' \<and> length (cmd_line s') = length (cmd_line s) \<and>
    ioq_wf (kbd_buf (kern s')) = ioq_wf (kbd_buf (kern s)) \<and> kbd_buf (kern s') = kbd_buf (kern s)"
proof (induction n arbitrary: s)
  case (Suc n)
  let ?s = "s\<lparr>kern := (kern s)\<lparr>console := console (kern s) @ [8]\<rparr>, cmd_line := (cmd_line s)[Suc n := 0]\<rparr>"
  have "io_step s ?s" by (simp add: io_step_def io_rel_console)
  moreover obtain s' where "erase_line n ?s = Inr ((), s')" "io_step ?s s'"
    "length (cmd_line s') = length (cmd_line ?s)" "kbd_buf (kern s') = kbd_buf (kern ?s)"
    using Suc.IH [of ?s] by auto
  ultimately show ?case
    by (intro exI [of _ s']) (auto simp: bnd_putchar intro: io_step_trans)
qed simp

definition at_tty :: "shell \<Rightarrow> bool" where
  "at_tty s \<longleftrightarrow> tty (kern s) \<and> ioq_wf (kbd_buf (kern s)) \<and> 0 \<in> set (cwd_cache s) \<and> length (cwd_cache s) \<le> 64"

lemma at_tty_io: "io_step s s' \<Longrightarrow> kbd_buf (kern s') = kbd_buf (kern s) \<Longrightarrow> at_tty s \<Longrightarrow> at_tty s'"
  unfolding io_step_def at_tty_def by (cases s; cases s') (auto simp: tty_io_rel)


lemma splice_single: "pos < length buf \<Longrightarrow> splice pos [c] buf = buf[pos := c]"
  by (simp add: splice_def upd_conv_take_nth_drop)

lemma read_byte_run:
  assumes "at_tty s" and "holds line (cmd_line s)" and "length line < cmd_len"
    and "ioq_content (kbd_buf (kern s)) = k # ks"
  obtains s' where "read_byte cmd_len (length line) s = Inr (Some k, s')" and "io_step s s'" and "at_tty s'"
    and "cmd_line s' = (cmd_line s)[length line := k]" and "ioq_content (kbd_buf (kern s')) = ks"
proof -
  have t: "tty (kern s)" "ioq_wf (kbd_buf (kern s))" and l: "length (cmd_line s) = cmd_len"
    using assms(1,2) by (simp_all add: at_tty_def holds_def)
  obtain k' where k': "sys_read 0 [0] 1 (kern s) = Inr ((1, [k]), k')" "io_rel (kern s) k'"
      "ioq_wf (kbd_buf k')" "ioq_content (kbd_buf k') = ks"
    using sys_read_key [OF t assms(4)] by blast
  let ?s = "s\<lparr>kern := k', cmd_line := (cmd_line s)[length line := k]\<rparr>"
  have "read_byte cmd_len (length line) s = Inr (Some k, ?s)"
    using k'(1) assms(3) l by (simp add: read_byte_def bnd_kcall buf_write_def splice_single)
  moreover have "io_step s ?s" using k'(2) by (simp add: io_step_def)
  moreover have "at_tty ?s" using assms(1) k'(2,3) tty_io_rel [OF k'(2)] by (simp add: at_tty_def)
  ultimately show thesis using k'(4) by (intro that [of ?s]) simp_all
qed

lemma read_key_run:
  assumes tty: "at_tty s" and line: "holds line buf" "length line < cmd_len"
    and buf: "cmd_line s = buf[length line := k]" and k: "k \<noteq> 0"
  obtains r s' where "read_key k (length line) s = Inr (r, s')" and "io_step s s'" and "at_tty s'"
    and "kbd_buf (kern s') = kbd_buf (kern s)"
    and "k = 10 \<or> k = 13 \<longrightarrow> r = None \<and> cmd_line s' = buf[length line := 0]"
    and "\<not> (k = 10 \<or> k = 13) \<longrightarrow> (\<exists>line'. r = Some (length line') \<and> holds line' (cmd_line s') \<and>
      edit line (k # ks) = edit line' ks)"
proof -
  have l: "length line < length buf" "length buf = cmd_len" using line by (simp_all add: holds_def)
  have keys: "asc CHR ''l'' - asc CHR ''a'' = 11" "asc CHR ''u'' - asc CHR ''a'' = 20" by (simp_all add: asc_def)
  note rk = read_key_def keys bnd_putchar
  consider "k = 10 \<or> k = 13" | "k = 8" | "k = 11" | "k = 20" | "k \<notin> {8, 10, 11, 13, 20}" by auto
  then show thesis
  proof cases
    case 1
    let ?s = "s\<lparr>kern := (kern s)\<lparr>console := console (kern s) @ [10]\<rparr>, cmd_line := buf[length line := 0]\<rparr>"
    have "read_key k (length line) s = Inr (None, ?s)" using 1 buf by (simp add: rk)
    moreover have "io_step s ?s" by (simp add: io_step_def io_rel_console)
    ultimately show thesis using 1 at_tty_io [of s ?s] tty by (intro that [of None ?s]) simp_all
  next
    case 2
    have store: "holds (butlast line) (cmd_line s)" unfolding buf by (intro holds_butlast holds_store line)
    show thesis
    proof (cases "line = []")
      case True
      have "hd (cmd_line s) = 8" unfolding buf using True 2 l by (cases buf) simp_all
      then have "read_key k (length line) s = Inr (Some 0, s)" using 2 True by (simp add: rk)
      then show thesis
        using 2 True tty store l by (intro that [of "Some 0" s]) (auto intro!: exI [of _ "[]"])
    next
      case False
      let ?s = "s\<lparr>kern := (kern s)\<lparr>console := console (kern s) @ [8]\<rparr>\<rparr>"
      have "hd (take (length line) buf) = hd line" using line(1) by (simp add: holds_def)
      then have "hd (cmd_line s) = hd line"
        unfolding buf using False l by (cases buf; cases line) simp_all
      then have "hd (cmd_line s) \<noteq> 8" using line(1) False by (simp add: holds_def)
      then have "read_key k (length line) s = Inr (Some (length line - 1), ?s)" using 2 False by (simp add: rk)
      moreover have "io_step s ?s" by (simp add: io_step_def io_rel_console)
      ultimately show thesis
        using 2 at_tty_io [of s ?s] tty store line(2)
        by (intro that [of "Some (length line - 1)" ?s]) (auto intro!: exI [of _ "butlast line"])
    qed
  next
    case 3
    note h = holds_terminated [OF line]
    let ?b = "buf[length line := 0]"
    let ?s1 = "s\<lparr>cmd_line := ?b, calls := calls s @ [Clear]\<rparr>"
    have t: "tty (kern s)" "0 \<in> set (cwd_cache s)" "length (cwd_cache s) \<le> 64" using tty by (simp_all add: at_tty_def)
    obtain c where p: "print_prompt ?s1 = Inr ((), ?s1\<lparr>kern := (kern s)\<lparr>console := c\<rparr>\<rparr>)"
      using print_prompt_run [of ?s1] t by simp
    let ?s2 = "?s1\<lparr>kern := (kern s)\<lparr>console := c\<rparr>\<rparr>"
    let ?s3 = "?s1\<lparr>kern := (kern s)\<lparr>console := c @ line\<rparr>\<rparr>"
    have pf: "printf [37, 115] [VaStr ?b] ?s2 = Inr ((), ?s3)"
    proof -
      have "length (cstr ?b) < 1024" using h(1) line(2) by (simp add: cmd_len_def)
      moreover have "tty (kern ?s2)" using t(1) tty_io_rel [OF io_rel_console] by simp
      ultimately show ?thesis
        using printf_s_run [of ?s2 "[]" "[]" ?b] h(1,2) by simp
    qed
    have "read_key k (length line) s = Inr (Some (length line), ?s3)"
      using 3 buf l by (simp add: rk call_def bnd_assoc bnd_Inr [where m = print_prompt and s = ?s1, OF p]
          bnd_Inr [where m = "printf [37, 115] [VaStr ?b]" and s = ?s2, OF pf] asc_def)
    moreover have "io_step s ?s3" by (simp add: io_step_def io_rel_console)
    ultimately show thesis
      using 3 at_tty_io [of s ?s3] tty h(3) line(2)
      by (intro that [of "Some (length line)" ?s3]) (auto intro!: exI [of _ line])
  next
    case 4
    obtain s' where s': "erase_line (length line) s = Inr ((), s')" "io_step s s'"
        "length (cmd_line s') = length (cmd_line s)" "kbd_buf (kern s') = kbd_buf (kern s)"
      using erase_line_run by blast
    then have "read_key k (length line) s = Inr (Some 0, s')"
      using 4 by (simp add: rk bnd_Inr [where m = "erase_line (length line)" and s = s])
    moreover have "holds [] (cmd_line s')" using s'(3) buf l by (simp add: holds_def)
    ultimately show thesis
      using 4 s' at_tty_io [OF s'(2,4) tty] line(2)
      by (intro that [of "Some 0" s']) (auto intro!: exI [of _ "[]"])
  next
    case 5
    let ?s = "s\<lparr>kern := (kern s)\<lparr>console := console (kern s) @ [k]\<rparr>\<rparr>"
    have "read_key k (length line) s = Inr (Some (Suc (length line)), ?s)" using 5 by (simp add: rk)
    moreover have "io_step s ?s" by (simp add: io_step_def io_rel_console)
    moreover have "holds (line @ [k]) (cmd_line ?s)" using 5 buf k line by (simp add: holds_append)
    ultimately show thesis
      using 5 at_tty_io [of s ?s] tty line(2)
      by (intro that [of "Some (Suc (length line))" ?s]) (auto intro!: exI [of _ "line @ [k]"])
  qed
qed

lemma readline_loop_run:
  "at_tty s \<Longrightarrow> holds line (cmd_line s) \<Longrightarrow> ioq_content (kbd_buf (kern s)) = keys \<Longrightarrow> 0 \<notin> set keys \<Longrightarrow>
   edit line keys = Some (out, rest) \<Longrightarrow>
   \<exists>s'. readline_loop cmd_len (length line) s = Some (Inr (True, s')) \<and> io_step s s' \<and> at_tty s' \<and>
     cstr (cmd_line s') = out \<and> 0 \<in> set (cmd_line s') \<and> length (cmd_line s') = cmd_len \<and>
     ioq_content (kbd_buf (kern s')) = rest"
proof (induction keys arbitrary: s line)
  case (Cons k ks)
  have len: "length line < cmd_len" using Cons.prems(5) by (simp split: if_splits)
  obtain s1 where s1: "read_byte cmd_len (length line) s = Inr (Some k, s1)" "io_step s s1" "at_tty s1"
      "cmd_line s1 = (cmd_line s)[length line := k]" "ioq_content (kbd_buf (kern s1)) = ks"
    by (rule read_byte_run [OF Cons.prems(1,2) len Cons.prems(3)])
  have k: "k \<noteq> 0" using Cons.prems(4) by auto
  obtain r s2 where s2: "read_key k (length line) s1 = Inr (r, s2)" "io_step s1 s2" "at_tty s2"
      "kbd_buf (kern s2) = kbd_buf (kern s1)"
      "k = 10 \<or> k = 13 \<longrightarrow> r = None \<and> cmd_line s2 = (cmd_line s)[length line := 0]"
      "\<not> (k = 10 \<or> k = 13) \<longrightarrow> (\<exists>line'. r = Some (length line') \<and> holds line' (cmd_line s2) \<and>
        edit line (k # ks) = edit line' ks)"
    by (rule read_key_run [OF s1(3) Cons.prems(2) len s1(4) k, of ks])
  have io: "io_step s s2" using s1(2) s2(2) by (rule io_step_trans)
  show ?case
  proof (cases "k = 10 \<or> k = 13")
    case True
    with s2(5) have r: "r = None" "cmd_line s2 = (cmd_line s)[length line := 0]" by blast+
    have "out = line" "rest = ks" using Cons.prems(5) True len by (auto split: if_splits)
    then show ?thesis
      using r s1 s2 io holds_terminated [OF Cons.prems(2) len] Cons.prems(2)
      by (subst readline_loop.simps) (simp add: holds_def)
  next
    case False
    with s2(6) obtain line' where line': "r = Some (length line')" "holds line' (cmd_line s2)"
      "edit line (k # ks) = edit line' ks" by blast
    have "\<exists>s'. readline_loop cmd_len (length line') s2 = Some (Inr (True, s')) \<and> io_step s2 s' \<and> at_tty s' \<and>
        cstr (cmd_line s') = out \<and> 0 \<in> set (cmd_line s') \<and> length (cmd_line s') = cmd_len \<and>
        ioq_content (kbd_buf (kern s')) = rest"
      using Cons.prems(4,5) s1(5) s2(4) line' by (intro Cons.IH [OF s2(3)]) simp_all
    then show ?thesis
      using s1(1) s2(1) line'(1) io by (subst readline_loop.simps) (auto intro: io_step_trans)
  qed
qed simp

end
