(* ===== verification/Shell_Commands.thy ===== *)
theory Shell_Commands
  imports Shell_Input
begin

text \<open>
  What the shell's commands do with the path they are given: it is resolved against the working
  directory and normalised before any call, a path that comes out as the root is refused, and the
  two ways in which a command line takes the shell down.
\<close>

section \<open>Components of joined paths\<close>

lemma components_words: "components p = words slash p"
proof (induction p rule: components.induct)
  case (1 p)
  show ?case
  proof (cases "dropWhile (\<lambda>c. c = slash) p")
    case Nil
    then show ?thesis
      using words_dropWhile [of slash p] unfolding components.simps [of p] Nil
      by (simp add: words_simps(1))
  next
    case (Cons c q)
    let ?w = "takeWhile (\<lambda>c. c \<noteq> slash) (c # q)" and ?r = "dropWhile (\<lambda>c. c \<noteq> slash) (c # q)"
    have c: "c \<noteq> slash" using Cons by (metis (full_types) dropWhile_eq_Cons_conv)
    have w: "slash \<notin> set ?w" "?w \<noteq> []" using c by (auto dest: set_takeWhileD)
    have "words slash (c # q) = ?w # words slash ?r"
    proof (cases ?r)
      case Nil
      then have "c # q = ?w" by (metis append_Nil2 takeWhile_dropWhile_id)
      then show ?thesis using words_simps(1) [of slash] words_simps(2) [OF w] Nil by metis
    next
      case r: (Cons d r)
      then have "d = slash" by (metis (full_types) dropWhile_eq_Cons_conv)
      with r have "c # q = ?w @ slash # r" by (metis takeWhile_dropWhile_id)
      moreover have "words slash ?r = words slash r"
        using r \<open>d = slash\<close> words_dropWhile [of slash "slash # r"] words_dropWhile [of slash r] by simp
      ultimately show ?thesis using words_simps(3) [OF w, of r] by metis
    qed
    moreover have "components ?r = words slash ?r" using 1 Cons by blast
    ultimately show ?thesis
      using Cons words_dropWhile [of slash p] by (simp add: components.simps [of p])
  qed
qed

lemma splits_append: "splits t (xs @ t # ys) = splits t xs @ splits t ys"
  by (induction xs) (auto split: list.splits)

lemma components_join: "components (xs @ slash # ys) = components xs @ components ys"
  by (simp add: components_words words_def splits_append)

lemma length_path_of_splits: "length (path_of (splits t p)) = Suc (length p)"
  by (induction p) (auto split: list.splits)

lemma length_path_of_filter: "length (path_of (filter P ws)) \<le> length (path_of ws)"
  by (induction ws) auto

lemma length_path_of_components: "length (path_of (components p)) \<le> Suc (length p)"
  unfolding components_words words_def
  using length_path_of_filter [of _ "splits slash p"] by (simp add: length_path_of_splits)

section \<open>Resolving a path\<close>

lemma zeros: "0 < n \<Longrightarrow> cstr (replicate n 0) = []" "0 < n \<Longrightarrow> 0 \<in> set (replicate n (0 :: u8))"
  by (cases n; simp)+

lemma slash_char: "asc CHR ''/'' = slash"
  by (simp add: slash_def)

lemma wash_joined_run:
  assumes "length (final_path s) = 512" and "0 \<in> set path" and "0 \<in> set pre" and "length pre = 512"
    and "cstr pre @ cstr path = slash # rest" and "\<forall>w \<in> set (components (slash # rest)). length w < 16"
    and "length (cstr pre) + length (cstr path) < 510"
  obtains f where "wash_joined pre path s = Inr ((), s\<lparr>final_path := f\<rparr>)"
    and "cstr f = render (norm (components (slash # rest)))" and "0 \<in> set f" and "length f = 512"
proof -
  let ?b = "cstr pre @ cstr path @ 0 # drop (Suc (length (cstr pre) + length (cstr path))) pre"
  have cat: "strcat pre path = Inr ?b" using assms by (simp add: strcat_eq)
  have b: "cstr ?b = slash # rest"
    using assms(5) by (simp add: cstr_cat cstr_no_nul)
  have hd: "hd ?b = slash" using b by (cases ?b) (auto split: if_splits)
  have "Suc (length rest) < 510" using assms(7) arg_cong [OF assms(5), of length] by simp
  then have "Suc (length (path_of (components (cstr ?b)))) < length (final_path s)"
    using length_path_of_components [of "slash # rest"] assms(1) unfolding b by simp
  with wash_path_run [of ?b "final_path s"] assms(6) hd b assms(1) obtain f where
    "wash_path ?b (final_path s) = Inr f" "length f = 512" "0 \<in> set f"
    "cstr f = render (norm (components (slash # rest)))"
    by auto
  then show thesis using cat by (intro that [of f]) (simp_all add: wash_joined_def)
qed

lemma make_clear_abs_path_abs:
  assumes "length (final_path s) = 512" and "0 \<in> set path" and "hd path = slash"
    and "\<forall>w \<in> set (components (cstr path)). length w < 16" and "length (cstr path) < 510"
  obtains f where "make_clear_abs_path path s = Inr ((), s\<lparr>final_path := f\<rparr>)"
    and "cstr f = render (norm (components (cstr path)))" and "0 \<in> set f" and "length f = 512"
proof -
  obtain rest where rest: "cstr path = slash # rest" using assms(2,3) by (cases path) auto
  obtain f where "wash_joined (replicate 512 0) path s = Inr ((), s\<lparr>final_path := f\<rparr>)"
    "cstr f = render (norm (components (slash # rest)))" "0 \<in> set f" "length f = 512"
    by (rule wash_joined_run [OF assms(1,2), of "replicate 512 0" rest]) (use assms(4,5) rest zeros in simp_all)
  then show thesis using assms(3) rest
    by (intro that [of f]) (simp_all add: make_clear_abs_path_def slash_char)
qed

text \<open>What \<open>getcwd\<close> wrote, with a slash behind it.\<close>

lemma cwd_prefix:
  assumes "0 \<in> set cwd" and "length cwd = 512" and "cstr cwd = slash # c" and "length (cstr cwd) < 509"
  obtains pre c' where
    "(if hd cwd = slash \<and> cwd ! 1 = 0 then ret cwd else liftr (strcat cwd (cstring ''/''))) = ret pre"
    and "0 \<in> set pre" and "length pre = 512" and "cstr pre = slash # c'" and "length (cstr pre) \<le> Suc (length (cstr cwd))"
    and "\<And>p. components (cstr pre @ p) = components (cstr cwd) @ components p"
proof (cases "cwd ! 1 = 0")
  case True
  obtain r where r: "cwd = slash # 0 # r"
    using assms True by (cases cwd; cases "tl cwd") (auto split: if_splits)
  then show thesis
    using assms components_join [of "[]"] by (intro that [of cwd "[]"]) (simp_all add: components_words words_def)
next
  case False
  have sl: "0 \<in> set (cstring ''/'')" "cstr (cstring ''/'') = [slash]"
    by (simp_all add: cstring_def slash_char) 
  let ?b = "cstr cwd @ [slash] @ 0 # drop (Suc (length (cstr cwd) + 1)) cwd"
  have "strcat cwd (cstring ''/'') = Inr ?b"
    using strcat_eq [OF assms(1) sl(1)] sl(2) assms(2,4) by simp
  moreover have b: "cstr ?b = cstr cwd @ [slash]"
    using cstr_append_0 [of "cstr cwd @ [slash]"] cstr_id [of "cstr cwd @ [slash]"] cstr_no_nul [of cwd] by simp
  moreover have "components ((cstr cwd @ [slash]) @ p) = components (cstr cwd) @ components p" for p
    using components_join [of "cstr cwd" p] by simp
  moreover have "liftr (Inr x) = ret x" for x by (simp add: fun_eq_iff liftr_def)
  ultimately show thesis
    using False assms by (intro that [of ?b "c @ [slash]"]) simp_all
qed

lemma make_clear_abs_path_rel:
  assumes "length (final_path s) = 512" and "0 \<in> set path" and "hd path \<noteq> slash"
    and cwd: "sys_getcwd (replicate 512 0) 512 (kern s) = Inr (Some cwd, k)" "0 \<in> set cwd" "length cwd = 512"
      "cstr cwd = slash # c"
    and comps: "\<forall>w \<in> set (components (cstr cwd) @ components (cstr path)). length w < 16"
    and len: "length (cstr cwd) + length (cstr path) < 509"
  obtains f where "make_clear_abs_path path s = Inr ((), s\<lparr>kern := k, final_path := f\<rparr>)"
    and "cstr f = render (norm (components (cstr cwd) @ components (cstr path)))" and "0 \<in> set f" and "length f = 512"
proof -
  have "length (cstr cwd) < 509" using len by simp
  from cwd_prefix [OF cwd(2-4) this] obtain pre c' where
    pre: "(if hd cwd = slash \<and> cwd ! 1 = 0 then ret cwd else liftr (strcat cwd (cstring ''/''))) = (ret pre :: (shell, u8 list) km)"
    "0 \<in> set pre" "length pre = 512" "cstr pre = slash # c'" "length (cstr pre) \<le> Suc (length (cstr cwd))"
    and join: "components (cstr pre @ cstr path) = components (cstr cwd) @ components (cstr path)"
    by metis
  have "make_clear_abs_path path s =
      bnd (if hd cwd = slash \<and> cwd ! 1 = 0 then ret cwd else liftr (strcat cwd (cstring ''/'')))
        (\<lambda>abs_path. wash_joined abs_path path) (s\<lparr>kern := k\<rparr>)"
    using assms(3) cwd(1) by (simp add: make_clear_abs_path_def slash_char bnd_assoc bnd_kcall)
  then have "make_clear_abs_path path s = wash_joined pre path (s\<lparr>kern := k\<rparr>)"
    unfolding pre(1) by simp
  moreover obtain f where "wash_joined pre path (s\<lparr>kern := k\<rparr>) = Inr ((), s\<lparr>kern := k\<rparr>\<lparr>final_path := f\<rparr>)"
    "cstr f = render (norm (components (slash # c' @ cstr path)))" "0 \<in> set f" "length f = 512"
    by (rule wash_joined_run [of "s\<lparr>kern := k\<rparr>" path pre "c' @ cstr path"])
       (use assms(1,2) pre comps len join in simp_all)
  ultimately show thesis using join pre(4) by (intro that [of f]) simp_all
qed


lemma sys_getcwd_root:
  assumes "p_cwd_inode_no k = 0" and "malloc_ok k (mallocs k)"
  shows "sys_getcwd (replicate 512 0) n k = Inr (Some (slash # replicate 511 0), k\<lparr>mallocs := Suc (mallocs k)\<rparr>)"
proof -
  have "splice 0 (cstring ''/'') (replicate 512 0) = slash # replicate 511 0"
    by (simp add: splice_def cstring_def slash_char numeral_eq_Suc)
  then show ?thesis
    using assms by (simp add: sys_getcwd_def buf_write_def cstring_def slash_char)
qed

section \<open>Frames\<close>

text \<open>Operations that do not touch the cached name of the working directory.\<close>

definition keeps_cwd :: "(shell, 'a) km \<Rightarrow> bool" where
  "keeps_cwd m \<longleftrightarrow> (\<forall>s x s'. m s = Inr (x, s') \<longrightarrow> cwd_cache s' = cwd_cache s)"

named_theorems keeps \<open>rules for what an operation keeps\<close>

lemma keeps_bnd [keeps]: "keeps_cwd m \<Longrightarrow> (\<And>x. keeps_cwd (f x)) \<Longrightarrow> keeps_cwd (bnd m f)"
  unfolding keeps_cwd_def by (auto simp: bnd_eq_Inr)

lemma keeps_basic [keeps]:
  "keeps_cwd (ret x)" "keeps_cwd (fail e)" "keeps_cwd (gets h)" "keeps_cwd (liftr r)" "keeps_cwd (kcall m)"
  "(\<And>s. cwd_cache (g s) = cwd_cache s) \<Longrightarrow> keeps_cwd (modify g)"
  by (auto simp: keeps_cwd_def kcall_def liftr_def split: sum.splits)

lemma keeps_if [keeps]: "keeps_cwd a \<Longrightarrow> keeps_cwd b \<Longrightarrow> keeps_cwd (if c then a else b)"
  by simp

lemma keeps_split [keeps]: "(\<And>x y. keeps_cwd (f x y)) \<Longrightarrow> keeps_cwd (case p of (x, y) \<Rightarrow> f x y)"
  by (cases p) simp

lemma keeps_option [keeps]:
  "keeps_cwd a \<Longrightarrow> (\<And>x. keeps_cwd (f x)) \<Longrightarrow> keeps_cwd (case r of None \<Rightarrow> a | Some x \<Rightarrow> f x)"
  by (cases r) simp_all

lemma keeps_arg [keeps]:
  "(\<And>x. keeps_cwd (f x)) \<Longrightarrow> keeps_cwd b \<Longrightarrow> keeps_cwd (case a of Word k \<Rightarrow> f k | Final_path \<Rightarrow> b)"
  by (cases a) simp_all

lemma keeps_calls [keeps]: "keeps_cwd (arg_str i)" "keeps_cwd (printf f a)" "keeps_cwd (make_clear_abs_path p)"
  unfolding arg_str_def printf_def make_clear_abs_path_def wash_joined_def
  by (auto intro!: keeps)

lemma keeps_cd: "keeps_cwd (buildin_cd argc)"
  unfolding buildin_cd_def by (auto intro!: keeps)

section \<open>Choosing a command\<close>

lemma strcmp_m_run:
  assumes "0 \<in> set p" and "0 \<notin> set (cbytes name)"
  shows "strcmp_m name p s = Inr (cstr p = cbytes name, s)"
proof -
  have "0 \<in> set (cstring name)" "cstr (cstring name) = cbytes name"
    using assms(2) by (simp_all add: cstring_def cstr_append_0 cstr_id)
  then obtain c where "strcmp (cstring name) p = Inr c" "c = 0 \<longleftrightarrow> cstr p = cbytes name"
    using strcmp_total [OF _ assms(1)] by metis
  then show ?thesis by (simp add: strcmp_m_def)
qed

lemma dispatch_step:
  assumes "arg_str 0 s = Inr (arg, s)" and "0 \<in> set arg" and "0 \<notin> set (cbytes name)"
  shows "dispatch ((name, m) # cs) s = (if cstr arg = cbytes name then m s else dispatch cs s)"
  using assms strcmp_m_run [OF assms(2,3), of s]
  by (simp add: bnd_Inr [where m = "arg_str 0" and s = s] bnd_Inr [where m = "strcmp_m name arg" and s = s])

section \<open>Properties\<close>

text \<open>C27: A relative path is resolved against what \<open>getcwd\<close> answers: \<open>final_path\<close> becomes the normal form of the
  names of the working directory followed by those of the path, and nothing else changes but
  the kernel state of the \<open>getcwd\<close> call.\<close>

theorem make_clear_abs_path_correct:
  assumes "length (final_path s) = 512" and "0 \<in> set path" and "hd path \<noteq> slash"
    and "sys_getcwd (replicate 512 0) 512 (kern s) = Inr (Some cwd, k)" and "0 \<in> set cwd" and "length cwd = 512"
    and "cstr cwd = slash # c"
    and "\<forall>w \<in> set (components (cstr cwd) @ components (cstr path)). length w < 16"
    and "length (cstr cwd) + length (cstr path) < 509"
  shows "\<exists>f. make_clear_abs_path path s = Inr ((), s\<lparr>kern := k, final_path := f\<rparr>) \<and>
    cstr f = render (norm (components (cstr cwd) @ components (cstr path)))"
  by (rule make_clear_abs_path_rel [OF assms]) blast

definition sample_shell :: "u8 list \<Rightarrow> u8 list \<Rightarrow> shell" where
  "sample_shell keys line =
     \<lparr>kern = sample_fs\<lparr>kbd_buf := ioq_zero\<lparr>q_buf := keys @ replicate (64 - length keys) 0,
        head := of_nat (length keys)\<rparr>\<rparr>,
      cmd_line = line, final_path = replicate 512 0, cwd_cache = slash # replicate 63 0,
      argv = [Some (Word 0), Some (Word 3)] @ replicate 14 None, calls = [], fork_ret = 0, wait_ret = 0,
      exec_fails = False\<rparr>"

theorem make_clear_abs_path_correct_witness:
  "\<exists>f s'. make_clear_abs_path (cbytes ''a/./b/../c'' @ [0]) (sample_shell [] []) = Inr ((), s') \<and>
    final_path s' = f \<and> cstr f = cbytes ''/a/c''"
proof -
  let ?s = "sample_shell [] []" and ?cwd = "slash # replicate 511 0"
  define p where "p = cbytes ''a/./b/../c'' @ [0]"
  have eq: "components (cstr p) = [cbytes ''a'', dot, cbytes ''b'', dotdot, cbytes ''c'']"
    unfolding p_def by code_simp
  have cwd: "cstr ?cwd = [slash]" "components [slash] = []"
    using zeros(1) [of 511] by simp code_simp
  have n: "render (norm (components (cstr p))) = cbytes ''/a/c''" unfolding eq by code_simp
  have g: "sys_getcwd (replicate 512 0) 512 (kern ?s) = Inr (Some ?cwd, (kern ?s)\<lparr>mallocs := Suc (mallocs (kern ?s))\<rparr>)"
    by (rule sys_getcwd_root) (simp_all add: sample_shell_def sample_fs_def)
  have "0 \<in> set p" "hd p \<noteq> slash" "length (cstr p) = 10" by (simp_all add: p_def slash_def asc_def)
  moreover have "\<forall>w \<in> set (components (cstr p)). length w < 16"
    unfolding eq by (simp add: dot_def dotdot_def)
  moreover have "length (final_path ?s) = 512" by (simp add: sample_shell_def)
  ultimately have "\<exists>f. make_clear_abs_path p ?s = Inr ((), ?s\<lparr>kern := (kern ?s)\<lparr>mallocs := Suc (mallocs (kern ?s))\<rparr>, final_path := f\<rparr>) \<and>
      cstr f = render (norm (components (cstr ?cwd) @ components (cstr p)))"
    using cwd by (intro make_clear_abs_path_correct [OF _ _ _ g, where c = "[]"]) simp_all
  then show ?thesis using n cwd unfolding p_def [symmetric] by auto
qed


text \<open>C28: \<open>readline\<close> is the line editor: with the keys of a line waiting in the keyboard's buffer it returns with
  the edited line in \<open>cmd_line\<close> and the keys after the line still waiting, as long as the line
  never reaches 128 characters; nothing but the screen, the line and the keyboard changes.\<close>

theorem readline_edits:
  assumes "at_tty s" and "length (cmd_line s) = cmd_len" and "0 \<notin> set (ioq_content (kbd_buf (kern s)))"
    and "edit [] (ioq_content (kbd_buf (kern s))) = Some (out, rest)"
  shows "\<exists>s'. readline cmd_len s = Inr ((), s') \<and> cstr (cmd_line s') = out \<and>
    ioq_content (kbd_buf (kern s')) = rest \<and> io_step s s'"
proof -
  have "holds [] (cmd_line s)" using assms(2) by (simp add: holds_def)
  from readline_loop_run [OF assms(1) this refl assms(3,4)] show ?thesis
    by (auto simp: readline_def loop_m_def bnd_def)
qed

lemma sample_input:
  assumes "length keys \<le> 63"
  shows "at_tty (sample_shell keys line)" and "ioq_content (kbd_buf (kern (sample_shell keys line))) = keys"
proof -
  have n: "unat (of_nat (length keys) :: u32) = length keys" using assms by (simp add: unat_of_nat_u32)
  show "at_tty (sample_shell keys line)"
    using assms by (auto simp: at_tty_def tty_def sample_shell_def sample_fs_def MAX_FILE_OPEN_def PIPE_FLAG_def
        ioq_wf_def ioq_zero_def ioqueue_init_def less_2_cases_iff n)
  show "ioq_content (kbd_buf (kern (sample_shell keys line))) = keys"
    using assms by (intro nth_equalityI)
      (auto simp: sample_shell_def ioq_content_def ioq_count_def ioq_zero_def ioqueue_init_def n nth_append)
qed

theorem readline_edits_witness:
  "\<exists>s'. readline cmd_len (sample_shell [108, 120, 8, 115, 10, 112] (replicate cmd_len 0)) = Inr ((), s') \<and>
    cstr (cmd_line s') = cbytes ''ls'' \<and> ioq_content (kbd_buf (kern s')) = [112]"
proof -
  have "edit [] [108, 120, 8, 115, 10, 112] = Some ([108, 115], [112])" by (simp add: cmd_len_def)
  then show ?thesis
    using readline_edits [of "sample_shell [108, 120, 8, 115, 10, 112] (replicate cmd_len 0)"]
      sample_input [of "[108, 120, 8, 115, 10, 112]" "replicate cmd_len 0"]
    by (force simp: sample_shell_def asc_def)
qed

lemma path_command_root:
  assumes "arg_str 1 s = Inr (path, s)" and "length (final_path s) = 512" and "0 \<in> set path" and "hd path = slash"
    and "\<forall>w \<in> set (components (cstr path)). length w < 16" and "length (cstr path) < 510"
    and "norm (components (cstr path)) = []"
  shows "\<exists>f. path_command 2 usage failed op s = Inr (-1, s\<lparr>final_path := f\<rparr>)"
proof -
  obtain f where f: "make_clear_abs_path path s = Inr ((), s\<lparr>final_path := f\<rparr>)" "cstr f = [slash]" "0 \<in> set f"
    using make_clear_abs_path_abs [OF assms(2-6)] assms(7) by (metis render_def)
  have "strcmp_m ''/'' f (s\<lparr>final_path := f\<rparr>) = Inr (True, s\<lparr>final_path := f\<rparr>)"
    using strcmp_m_run [OF f(3), of "''/''"] f(2) by (simp add: slash_char)
  moreover have "arg_str (Suc 0) s = Inr (path, s)" using assms(1) by simp
  ultimately show ?thesis
    by (intro exI [of _ f])
       (simp add: path_command_def bnd_Inr [where m = "arg_str (Suc 0)" and s = s]
          bnd_Inr [where m = "make_clear_abs_path path" and s = s, OF f(1)]
          bnd_Inr [where m = "strcmp_m ''/'' f" and s = "s\<lparr>final_path := f\<rparr>"])
qed

text \<open>A path that comes out as the root never reaches the file system: \<open>mkdir\<close>, \<open>rmdir\<close>, \<open>rm\<close> and \<open>touch\<close> answer
  \<open>-1\<close> and only \<open>final_path\<close> changes, however the root is written (\<open>/a/../..\<close> and the like).\<close>

theorem root_is_refused:
  assumes "arg_str 1 s = Inr (path, s)" and "length (final_path s) = 512" and "0 \<in> set path" and "hd path = slash"
    and "\<forall>w \<in> set (components (cstr path)). length w < 16" and "length (cstr path) < 510"
    and "norm (components (cstr path)) = []"
    and "cmd \<in> {buildin_mkdir 2, buildin_rmdir 2, buildin_rm 2, buildin_touch 2}"
  shows "\<exists>f. cmd s = Inr (-1, s\<lparr>final_path := f\<rparr>)"
  using path_command_root [OF assms(1-7)] assms(8)
  by (auto simp: buildin_mkdir_def buildin_rmdir_def buildin_rm_def buildin_touch_def)

theorem root_is_refused_witness:
  "\<exists>f. buildin_rm 2 (sample_shell [] (cbytes ''rm'' @ 0 # cbytes ''/a/../..'' @ [0])) =
    Inr (-1, (sample_shell [] (cbytes ''rm'' @ 0 # cbytes ''/a/../..'' @ [0]))\<lparr>final_path := f\<rparr>)"
proof -
  define p where "p = cbytes ''/a/../..'' @ [0]"
  let ?s = "sample_shell [] (cbytes ''rm'' @ 0 # p)"
  have eq: "components (cstr p) = [cbytes ''a'', dotdot, dotdot]" unfolding p_def by code_simp
  have "arg_str 1 ?s = Inr (p, ?s)" by (simp add: arg_str_def sample_shell_def)
  moreover have "norm (components (cstr p)) = []" unfolding eq by code_simp
  moreover have "0 \<in> set p" "hd p = slash" "length (cstr p) < 510" by (simp_all add: p_def slash_def asc_def)
  moreover have "\<forall>w \<in> set (components (cstr p)). length w < 16" unfolding eq by (simp add: dotdot_def)
  moreover have "length (final_path ?s) = 512" by (simp add: sample_shell_def)
  ultimately show ?thesis using root_is_refused [of ?s p "buildin_rm 2"] unfolding p_def [symmetric] by blast
qed

lemma memset_overrun: "length dst < n \<Longrightarrow> memset dst v n = Inl (Fault ''memset'')"
  by (induction dst v n rule: memset.induct) auto

lemma sys_chdir_root:
  assumes "0 \<in> set p" and "cstr p = [slash]"
  shows "sys_chdir p k = Inr (0, k\<lparr>p_cwd_inode_no := 0\<rparr>)"
proof -
  have "cstr (cstring ''/'') = [slash]" "0 \<in> set (cstring ''/'')" by (simp_all add: cstring_def slash_char)
  then have "strcmp p (cstring ''/'') = Inr 0" using strcmp_0_iff [OF assms(1)] assms(2) by metis
  then show ?thesis
    by (simp add: sys_chdir_def search_file_def is_root_path_def dir_close_def root_dir_def bnd_assoc)
qed

lemma cd_home:
  assumes "length (final_path s) = 512"
  shows "\<exists>s'. buildin_cd 1 s = Inr (True, s')"
proof -
  let ?f = "splice 0 (cstring ''/'') (final_path s)"
  have "cstr ?f = [slash]" "0 \<in> set ?f" by (simp_all add: splice_def cstring_def slash_char)
  from sys_chdir_root [OF this(2,1)] assms show ?thesis
    by (simp add: buildin_cd_def buf_write_def cstring_def bnd_assoc bnd_kcall)
qed

text \<open>C40: Every successful \<open>cd\<close> takes the shell down: clearing the 64 bytes of \<open>cwd_cache\<close> with \<open>MAX_PATH_LEN\<close>
  writes behind it.\<close>

theorem cd_overruns_cache:
  assumes "arg_str 0 s = Inr (name, s)" and "0 \<in> set name" and "cstr name = cbytes ''cd''"
    and "length (cwd_cache s) = 64" and "buildin_cd argc s = Inr (True, s')"
  shows "cmd_execute argc s = Inl (Fault ''memset'')"
proof -
  have "length (cwd_cache s') = 64" using keeps_cd assms(4,5) unfolding keeps_cwd_def by metis
  then have "set_cwd_cache s' = Inl (Fault ''memset'')" by (simp add: set_cwd_cache_def memset_overrun)
  then have "bnd (buildin_cd argc) (\<lambda>ok. go_on (whenm ok set_cwd_cache)) s = Inl (Fault ''memset'')"
    by (simp add: bnd_Inr [where m = "buildin_cd argc" and s = s, OF assms(5)] go_on_def bnd_Inl)
  then show ?thesis
    unfolding cmd_execute_def commands_def using assms(3)
    by (simp add: dispatch_step [OF assms(1,2)] asc_def del: dispatch.simps)
qed

theorem cd_overruns_cache_witness:
  "cmd_execute 1 (sample_shell [] (cbytes ''cd'' @ [0])) = Inl (Fault ''memset'')"
proof -
  let ?s = "sample_shell [] (cbytes ''cd'' @ [0])"
  have "arg_str 0 ?s = Inr (cbytes ''cd'' @ [0], ?s)" by (simp add: arg_str_def sample_shell_def)
  moreover have "\<exists>s'. buildin_cd 1 ?s = Inr (True, s')" by (rule cd_home) (simp add: sample_shell_def)
  moreover have "0 \<in> set (cbytes ''cd'' @ [0])" "cstr (cbytes ''cd'' @ [0]) = cbytes ''cd''"
      "length (cwd_cache ?s) = 64"
    by (simp_all add: asc_def sample_shell_def)
  ultimately show ?thesis using cd_overruns_cache by blast
qed

text \<open>A line of blanks is not empty and has no words: the command's name is read through a null pointer.\<close>

theorem blank_line_faults:
  assumes "at_tty s" and "length (cmd_line s) = cmd_len" and "length (final_path s) = 512"
    and "0 \<notin> set (ioq_content (kbd_buf (kern s)))"
    and "edit [] (ioq_content (kbd_buf (kern s))) = Some (replicate (Suc n) 32, rest)"
  shows "shell_iter s = Inl (Fault ''NULL'')"
proof -
  have t: "tty (kern s)" "0 \<in> set (cwd_cache s)" "length (cwd_cache s) \<le> 64" "ioq_wf (kbd_buf (kern s))"
    using assms(1) by (simp_all add: at_tty_def)
  obtain c where p: "print_prompt s = Inr ((), s\<lparr>kern := (kern s)\<lparr>console := c\<rparr>\<rparr>)"
    using print_prompt_run [OF t(1-3)] by blast
  let ?s1 = "s\<lparr>kern := (kern s)\<lparr>console := c\<rparr>\<rparr>"
  let ?s2 = "?s1\<lparr>final_path := replicate 512 0, cmd_line := replicate cmd_len 0\<rparr>"
  have tty2: "at_tty ?s2" using t tty_io_rel [OF io_rel_console] by (simp add: at_tty_def)
  have "holds [] (cmd_line ?s2)" by (simp add: holds_def)
  from readline_loop_run [OF tty2 this refl, of "replicate (Suc n) 32" rest] assms(4,5) obtain s3 where
    loop: "readline_loop cmd_len 0 ?s2 = Some (Inr (True, s3))"
    and l: "cstr (cmd_line s3) = replicate (Suc n) 32" "0 \<in> set (cmd_line s3)"
    by auto
  have rl: "readline cmd_len ?s2 = Inr ((), s3)" using loop by (simp add: readline_def loop_m_def bnd_def)
  have hd: "hd (cmd_line s3) \<noteq> 0" using l(1) by (cases "cmd_line s3") (auto split: if_splits)
  have "words 32 (cstr (drop 0 (cmd_line s3))) = []"
  proof -
    have "dropWhile (\<lambda>c. c = 32) (replicate (Suc n) (32 :: u8)) = []" by simp
    then show ?thesis using words_dropWhile [of 32 "replicate (Suc n) (32 :: u8)"] l(1)
      by (simp add: words_simps(1) del: replicate.simps)
  qed
  with cmd_parse_run(1) [of 32 0 "cmd_line s3"] l(2) obtain av line where
    parse: "cmd_parse (cmd_line s3) 0 32 = Inr (0, av, line)"
    and av: "parsed 0 0 (replicate MAX_ARG_NR None) (cmd_line s3) [] av line"
    by auto
  have none: "av ! 0 = None" "av \<noteq> []" using av by (auto simp: parsed_def MAX_ARG_NR_def)
  let ?s4 = "s3\<lparr>argv := List.map (map_option Word) av, cmd_line := line\<rparr>"
  have pa: "parse_args 0 s3 = Inr (0, ?s4)" using parse by (simp add: parse_args_def asc_def)
  have "arg_str 0 ?s4 = Inl (Fault ''NULL'')" using none by (simp add: arg_str_def)
  then have ex: "cmd_execute 0 ?s4 = Inl (Fault ''NULL'')"
    by (simp add: cmd_execute_def commands_def bnd_Inl)
  show ?thesis
    using assms(2,3) hd ex
    by (simp add: shell_iter_def bnd_Inr [where m = print_prompt and s = s, OF p] memset_eq
        bnd_Inr [where m = "readline cmd_len" and s = ?s2, OF rl] bnd_Inr [where m = "parse_args 0" and s = s3, OF pa])
qed

theorem blank_line_faults_witness:
  "shell_iter (sample_shell [32, 32, 10] (replicate cmd_len 0)) = Inl (Fault ''NULL'')"
proof -
  let ?s = "sample_shell [32, 32, 10] (replicate cmd_len 0)"
  note input = sample_input [of "[32, 32, 10]" "replicate cmd_len 0"]
  have "ioq_content (kbd_buf (kern ?s)) = [32, 32, 10]" and "at_tty ?s"
    using input by simp_all
  moreover have "edit [] [32, 32, 10] = Some (replicate (Suc 1) 32, [])"
    by (simp add: cmd_len_def)
  ultimately show ?thesis
    using blank_line_faults [of ?s 1 "[]"] by (simp add: sample_shell_def)
qed

end
