(* ===== verification/Disk_Init.thy ===== *)
theory Disk_Init
  imports Mount Sync Stdio
begin

text \<open>
  The rest of \<open>device/ide.c\<close>: the data of the identify command, the scan of the partition tables and
  \<open>ide_init\<close>. A drive is given by its sectors (what \<open>ide_read\<close> returns, see \<open>Disk\<close>) and by what it shows
  after the identify command; what is printed is the answer of the operation that prints it.
\<close>

section \<open>Identifying a drive\<close>

partial_function (option) swap_loop :: "u8 list \<Rightarrow> u8 list \<Rightarrow> u8 \<Rightarrow> u32 \<Rightarrow> u8 list res option" where
  "swap_loop dst buf idx len =
     (if ucast idx < len
      then (case dst of
              a # b # dst' \<Rightarrow>
                if Suc (unat idx) < length buf
                then swap_loop dst' (buf[Suc (unat idx) := a, unat idx := b]) (idx + 2) len
                else Some (Inl (Fault ''buf[idx + 1]''))
            | _ \<Rightarrow> Some (Inl (Fault ''*dst'')))
      else if unat idx < length buf then Some (Inr (buf[unat idx := 0]))
      else Some (Inl (Fault ''buf[idx]'')))"

definition swap_pairs_bytes :: "u8 list \<Rightarrow> u8 list \<Rightarrow> u32 \<Rightarrow> u8 list res" where
  "swap_pairs_bytes dst buf len = of_loop (swap_loop dst buf 0 len)"

record disk_info =
  serial :: "u8 list"
  model :: "u8 list"
  sectors :: u32
  capacity_mb :: u32

text \<open>The buffer \<open>buf\<close> is not initialised before its first use (\<open>stale\<close>).\<close>

definition identify_info :: "u8 list \<Rightarrow> u8 list \<Rightarrow> disk_info res" where
  "identify_info stale id_info =
     rbind (swap_pairs_bytes (drop 20 id_info) stale 20) (\<lambda>sn.
     rbind (memset sn 0 64) (\<lambda>buf.
     rbind (swap_pairs_bytes (drop 54 id_info) buf 40) (\<lambda>md.
     let sectors = bytes_u32 (slice 120 4 id_info)
     in Inr \<lparr>serial = cstr sn, model = cstr md, sectors = sectors,
          capacity_mb = sectors * 512 div 1024 div 1024\<rparr>)))"

text \<open>
  \<open>st\<close> and \<open>id_info\<close> are what the drive shows after the command; \<open>early\<close> is whether its interrupt
  comes before the thread sleeps.
\<close>

definition identify_disk ::
  "bool \<Rightarrow> tid \<Rightarrow> u8 \<Rightarrow> (nat \<Rightarrow> u8) \<Rightarrow> u8 list \<Rightarrow> u8 list \<Rightarrow> nat \<Rightarrow> ide_channel list \<Rightarrow>
   (disk_info \<times> ide_channel list) res"
where
  "identify_disk early cur dev_no st id_info stale no chs =
     (let chs = upd_chan no (\<lambda>ch. cmd_out 0xec (set_regs (select_disk dev_no (ch_regs ch)) ch)) chs in
      rbind (disk_wait early cur no chs) (\<lambda>chs.
      if \<not> fst (busy_wait st) then Inl (Panic ''identify failed!!!!!!'')
      else
        rbind (read_from_sector id_info 1) (\<lambda>id_info.
        rbind (identify_info stale id_info) (\<lambda>info. Inr (info, chs)))))"

section \<open>Partition tables\<close>

record partition_table_entry =
  bootable :: u8
  start_head :: u8
  start_sec :: u8
  start_chs :: u8
  fs_type :: u8
  end_head :: u8
  end_sec :: u8
  end_chs :: u8
  pt_start_lba :: u32
  pt_sec_cnt :: u32

definition bytes_entry :: "u8 list \<Rightarrow> partition_table_entry" where
  "bytes_entry b = \<lparr>bootable = b ! 0, start_head = b ! 1, start_sec = b ! 2, start_chs = b ! 3,
     fs_type = b ! 4, end_head = b ! 5, end_sec = b ! 6, end_chs = b ! 7,
     pt_start_lba = bytes_u32 (slice 8 4 b), pt_sec_cnt = bytes_u32 (slice 12 4 b)\<rparr>"

text \<open>The four entries of a boot sector.\<close>

definition partition_table :: "u8 list \<Rightarrow> partition_table_entry list" where
  "partition_table bs = List.map (\<lambda>i. bytes_entry (slice (446 + 16 * i) 16 bs)) [0..<4]"

record scan =
  ext_lba_base :: u32
  p_no :: u8
  l_no :: u8
  prim_parts :: "part_info list"
  logic_parts :: "part_info list"
  partition_list :: "part_info list"

definition part_label :: "u8 list \<Rightarrow> u8 list \<Rightarrow> u32 \<Rightarrow> u8 list res" where
  "part_label old hd_name no =
     rbind (sprintf old (cstring ''%s%d'') [VaStr hd_name, VaInt no]) (\<lambda>(_, name). Inr name)"

definition add_primary :: "u8 list \<Rightarrow> u32 \<Rightarrow> partition_table_entry \<Rightarrow> (scan, unit) km" where
  "add_primary hd_name ext_lba p =
     bnd (gets p_no) (\<lambda>no.
     bnd (gets prim_parts) (\<lambda>parts.
     if \<not> unat no < length parts then fail (Fault ''hd->prim_parts[p_no]'')
     else
       bnd (liftr (part_label (part_name (parts ! unat no)) hd_name (ucast no + 1))) (\<lambda>name.
       let part = \<lparr>part_name = name, part_start = ext_lba + pt_start_lba p, part_cnt = pt_sec_cnt p\<rparr> in
       bnd (modify (\<lambda>s. s\<lparr>p_no := no + 1, prim_parts := parts[unat no := part],
              partition_list := partition_list s @ [part]\<rparr>)) (\<lambda>_.
       kassert ''p_no < 4'' (no + 1 < 4)))))"

definition add_logical :: "u8 list \<Rightarrow> u32 \<Rightarrow> partition_table_entry \<Rightarrow> (scan, bool) km" where
  "add_logical hd_name ext_lba p =
     bnd (gets l_no) (\<lambda>no.
     bnd (gets logic_parts) (\<lambda>parts.
     if \<not> unat no < length parts then fail (Fault ''hd->logic_parts[l_no]'')
     else
       bnd (liftr (part_label (part_name (parts ! unat no)) hd_name (ucast no + 5))) (\<lambda>name.
       let part = \<lparr>part_name = name, part_start = ext_lba + pt_start_lba p, part_cnt = pt_sec_cnt p\<rparr> in
       bnd (modify (\<lambda>s. s\<lparr>l_no := no + 1, logic_parts := parts[unat no := part],
              partition_list := partition_list s @ [part]\<rparr>)) (\<lambda>_.
       ret (no + 1 \<ge> 8)))))"

text \<open>
  The loop over the entries of the sector at \<open>ext_lba\<close>, with the recursive calls in it; a table that
  links back to itself is scanned for ever.
\<close>

partial_function (option) scan_entries ::
  "(u32 \<Rightarrow> u8 list res) \<Rightarrow> u8 list \<Rightarrow> u32 \<Rightarrow> partition_table_entry list \<Rightarrow> scan \<Rightarrow> scan res option"
where
  "scan_entries rd hd_name ext_lba entries s =
     (case entries of
        [] \<Rightarrow> Some (Inr s)
      | p # ps \<Rightarrow>
          if fs_type p = 5
          then
            let lba = (if ext_lba_base s \<noteq> 0 then pt_start_lba p + ext_lba_base s else pt_start_lba p);
                s' = (if ext_lba_base s \<noteq> 0 then s else s\<lparr>ext_lba_base := pt_start_lba p\<rparr>)
            in (case rd lba of
                  Inl e \<Rightarrow> Some (Inl e)
                | Inr bs \<Rightarrow>
                    Option.bind (scan_entries rd hd_name lba (partition_table bs) s') (\<lambda>r.
                    case r of
                      Inl e \<Rightarrow> Some (Inl e)
                    | Inr s'' \<Rightarrow> scan_entries rd hd_name ext_lba ps s''))
          else if fs_type p \<noteq> 0
          then if ext_lba = 0
               then (case add_primary hd_name ext_lba p s of
                       Inl e \<Rightarrow> Some (Inl e)
                     | Inr (_, s') \<Rightarrow> scan_entries rd hd_name ext_lba ps s')
               else (case add_logical hd_name ext_lba p s of
                       Inl e \<Rightarrow> Some (Inl e)
                     | Inr (full, s') \<Rightarrow>
                         if full then Some (Inr s') else scan_entries rd hd_name ext_lba ps s')
          else scan_entries rd hd_name ext_lba ps s)"

definition partition_scan :: "(u32 \<Rightarrow> u8 list res) \<Rightarrow> u8 list \<Rightarrow> u32 \<Rightarrow> scan \<Rightarrow> scan res" where
  "partition_scan rd hd_name ext_lba s =
     rbind (rd ext_lba) (\<lambda>bs. of_loop (scan_entries rd hd_name ext_lba (partition_table bs) s))"


section \<open>Initialisation\<close>

record hd =
  hd_name :: "u8 list"
  hd_dev_no :: u8
  hd_prim :: "part_info list"
  hd_logic :: "part_info list"

record ide =
  channels :: "ide_channel list"
  devices :: "hd list list"
  scan_base :: u32
  all_parts :: "part_info list"
  printed :: "disk_info list"

text \<open>What a drive shows: when its interrupt comes, its status register, its identify data and
  its sectors.\<close>

record drive =
  drive_early :: bool
  drive_status :: "nat \<Rightarrow> u8"
  drive_id :: "u8 list"
  drive_sector :: "u32 \<Rightarrow> u8 list res"

definition init_channel :: "nat \<Rightarrow> (ide, unit) km" where
  "init_channel no =
     bnd (gets channels) (\<lambda>chs.
     if \<not> no < length chs then fail (Fault ''channels[channel_no]'')
     else
       bnd (liftr (sprintf (ch_name (chs ! no)) (cstring ''ide%d'') [VaInt (of_nat no)])) (\<lambda>(_, name).
       modify (\<lambda>s. s\<lparr>channels := chs[no := (chs ! no)\<lparr>ch_name := name,
         port_base := (if no = 0 then 0x1f0 else if no = 1 then 0x170 else port_base (chs ! no)),
         irq_no := (if no = 0 then 0x2e else if no = 1 then 0x2f else irq_no (chs ! no)),
         ch_lock := lock_init, expecting_intr := False, disk_done := sema_init 0\<rparr>]\<rparr>)))"

definition init_device :: "tid \<Rightarrow> drive \<Rightarrow> u8 list \<Rightarrow> nat \<Rightarrow> nat \<Rightarrow> (ide, unit) km" where
  "init_device cur dr stale no dev =
     bnd (gets (\<lambda>s. devices s ! no ! dev)) (\<lambda>hd.
     bnd (liftr (sprintf (hd_name hd) (cstring ''sd%c'') [VaInt (97 + of_nat (no * 2 + dev))])) (\<lambda>(_, name).
     bnd (gets channels) (\<lambda>chs.
     bnd (liftr (identify_disk (drive_early dr) cur (of_nat dev) (drive_status dr) (drive_id dr) stale no chs))
       (\<lambda>(info, chs).
     bnd (gets (\<lambda>s. (scan_base s, all_parts s))) (\<lambda>(base, parts).
     bnd (if dev \<noteq> 0
          then liftr (partition_scan (drive_sector dr) name 0
                 \<lparr>ext_lba_base = base, p_no = 0, l_no = 0, prim_parts = hd_prim hd, logic_parts = hd_logic hd,
                  partition_list = parts\<rparr>)
          else ret \<lparr>ext_lba_base = base, p_no = 0, l_no = 0, prim_parts = hd_prim hd, logic_parts = hd_logic hd,
                  partition_list = parts\<rparr>) (\<lambda>sc.
     modify (\<lambda>s. s\<lparr>channels := chs,
       devices := (devices s)[no := (devices s ! no)[dev := \<lparr>hd_name = name, hd_dev_no = of_nat dev,
         hd_prim = prim_parts sc, hd_logic = logic_parts sc\<rparr>]],
       scan_base := ext_lba_base sc, all_parts := partition_list sc,
       printed := printed s @ [info]\<rparr>)))))))"

fun init_channels :: "tid \<Rightarrow> (nat \<Rightarrow> nat \<Rightarrow> drive) \<Rightarrow> u8 list \<Rightarrow> nat list \<Rightarrow> (ide, unit) km" where
  "init_channels cur drives stale [] = ret ()"
| "init_channels cur drives stale (no # nos) =
     bnd (init_channel no) (\<lambda>_.
     bnd (init_device cur (drives no 0) stale no 0) (\<lambda>_.
     bnd (init_device cur (drives no 1) stale no 1) (\<lambda>_.
     init_channels cur drives stale nos)))"

text \<open>\<open>hd_cnt\<close> is the number of drives the BIOS left at address \<open>0x475\<close>.\<close>

definition ide_init :: "tid \<Rightarrow> u8 \<Rightarrow> (nat \<Rightarrow> nat \<Rightarrow> drive) \<Rightarrow> u8 list \<Rightarrow> (ide, unit) km" where
  "ide_init cur hd_cnt drives stale =
     bnd (kassert ''hd_cnt > 0'' (hd_cnt > 0)) (\<lambda>_.
     bnd (modify (\<lambda>s. s\<lparr>all_parts := []\<rparr>)) (\<lambda>_.
     init_channels cur drives stale [0..<(unat hd_cnt + 1) div 2]))"

section \<open>Swapping pairs\<close>

fun pairs :: "u8 list \<Rightarrow> u8 list" where
  "pairs (a # b # r) = b # a # pairs r"
| "pairs r = r"

lemma length_pairs [simp]: "length (pairs xs) = length xs"
  by (induction xs rule: pairs.induct) auto

lemma pairs_pairs [simp]: "pairs (pairs xs) = xs"
  by (induction xs rule: pairs.induct) auto

lemma swap_loop_eq:
  assumes "even (length xs)" and "unat idx + length xs < 256" and "unat idx + length xs < length buf"
    and "length xs = unat len - unat idx" and "unat idx \<le> unat len"
  shows "swap_loop (xs @ rest) buf idx len =
    Some (Inr (take (unat idx) buf @ pairs xs @ 0 # drop (Suc (unat idx + length xs)) buf))"
  using assms
proof (induction xs arbitrary: buf idx rule: pairs.induct)
  case (1 a b r)
  let ?b = "buf[Suc (unat idx) := a, unat idx := b]"
  have idx: "unat (idx + 2) = unat idx + 2"
    using "1.prems"(2) by (simp add: unat_word_ariths)
  have lt: "ucast idx < len" using "1.prems"(4) by (simp add: word_less_nat_alt)
  have in_buf: "Suc (unat idx) < length buf" using "1.prems"(3) by simp
  have "swap_loop (r @ rest) ?b (idx + 2) len =
      Some (Inr (take (unat (idx + 2)) ?b @ pairs r @ 0 # drop (Suc (unat (idx + 2) + length r)) ?b))"
    using "1.prems" by (intro "1.IH") (simp_all add: idx)
  moreover have "take (unat idx + 2) ?b = take (unat idx) buf @ [b, a]"
    using in_buf by (simp add: take_Suc_conv_app_nth nth_list_update)
  ultimately show ?case
    using lt in_buf by (subst swap_loop.simps) (simp add: idx)
next
  case "2_1"
  then have "\<not> ucast idx < len" by (simp add: word_less_nat_alt)
  then show ?case
    using "2_1" by (subst swap_loop.simps) (simp add: upd_conv_take_nth_drop)
qed simp

lemma swap_pairs_run:
  assumes "even (length xs)" and "length xs < 256" and "length xs < length buf"
  shows "swap_pairs_bytes (xs @ rest) buf (of_nat (length xs)) =
    Inr (pairs xs @ 0 # drop (Suc (length xs)) buf)"
proof -
  have "unat (of_nat (length xs) :: u32) = length xs" using assms(2) by (simp add: unat_of_nat_u32)
  then show ?thesis
    using swap_loop_eq [of xs 0 buf "of_nat (length xs)" rest] assms by (simp add: swap_pairs_bytes_def)
qed

section \<open>What a scan finds\<close>

text \<open>A name field of 8 bytes.\<close>

definition label :: "u8 list \<Rightarrow> nat \<Rightarrow> u8 list" where
  "label dname no =
     (let t = cstr dname @ numeral_text 10 no in t @ replicate (8 - length t) 0)"

definition part_entry :: "u8 list \<Rightarrow> u32 \<Rightarrow> nat \<Rightarrow> partition_table_entry \<Rightarrow> part_info" where
  "part_entry dname ext_lba no p =
     \<lparr>part_name = label dname no, part_start = ext_lba + pt_start_lba p, part_cnt = pt_sec_cnt p\<rparr>"

fun prims_of :: "u8 list \<Rightarrow> nat \<Rightarrow> partition_table_entry list \<Rightarrow> part_info list" where
  "prims_of dname no [] = []"
| "prims_of dname no (p # ps) = part_entry dname 0 no p # prims_of dname (Suc no) ps"

fun logs_of :: "u8 list \<Rightarrow> nat \<Rightarrow> (u32 \<times> partition_table_entry) list \<Rightarrow> part_info list" where
  "logs_of dname no [] = []"
| "logs_of dname no ((lba, p) # ps) = part_entry dname lba no p # logs_of dname (Suc no) ps"

definition a_partition :: "partition_table_entry \<Rightarrow> bool" where
  "a_partition p \<longleftrightarrow> fs_type p \<noteq> 0 \<and> fs_type p \<noteq> 5"

definition unused :: "partition_table_entry \<Rightarrow> bool" where
  "unused p \<longleftrightarrow> fs_type p = 0"

text \<open>
  The chain of extended boot records from \<open>lba\<close> on: each describes one logical partition and links
  to the next, by a sector relative to the start \<open>base\<close> of the extended partition.
\<close>

fun ext_chain :: "(u32 \<Rightarrow> u8 list res) \<Rightarrow> u32 \<Rightarrow> u32 \<Rightarrow> (u32 \<times> partition_table_entry) list \<Rightarrow> bool" where
  "ext_chain rd base lba [] \<longleftrightarrow> False"
| "ext_chain rd base lba ((a, p) # rest) \<longleftrightarrow> a = lba \<and> lba \<noteq> 0 \<and> a_partition p \<and>
     (case rd lba of
        Inl e \<Rightarrow> False
      | Inr bs \<Rightarrow>
          (case partition_table bs of
             [p', link, e, e'] \<Rightarrow> p' = p \<and> unused e \<and> unused e' \<and>
               (if rest = [] then unused link
                else fs_type link = 5 \<and> ext_chain rd base (pt_start_lba link + base) rest)
           | _ \<Rightarrow> False))"

text \<open>A disk's name, short enough for its partitions' names to fit, and name fields not yet written.\<close>

definition disk_name :: "u8 list \<Rightarrow> bool" where
  "disk_name dname \<longleftrightarrow> 0 \<in> set dname \<and> length (cstr dname) < 6"

definition unnamed :: "nat \<Rightarrow> part_info list \<Rightarrow> bool" where
  "unnamed n parts \<longleftrightarrow> (\<forall>i < length parts. n \<le> i \<longrightarrow> part_name (parts ! i) = replicate 8 0)"

lemma unnamed_update: "unnamed n parts \<Longrightarrow> unnamed (Suc n) (parts[n := p])"
  by (auto simp: unnamed_def)

lemma length_numeral_text: "n < 100 \<Longrightarrow> length (numeral_text 10 n) < 3"
  by (simp add: numeral_text_def digits.simps [of 10 n] digits.simps [of 10 "n div 10"])
     linarith

lemma part_label_run:
  assumes "disk_name dname" and "no < 100"
  shows "part_label (replicate 8 0) dname (of_nat no) = Inr (label dname no)"
proof -
  let ?items = "[Conv_s dname, Conv_d (of_nat no)]"
  have no: "sint (of_nat no :: u32) = int no"
    using assms(2) by (simp add: signed_take_bit_int_eq_self take_bit_nat_eq_self signed_of_nat)
  have "cstring ''%s%d'' = fmt_text ?items @ [0]" by (simp add: cstring_def fmt_text_def)
  moreover have out: "fmt_out ?items = cstr dname @ numeral_text 10 no"
    by (simp add: fmt_out_def no)
  moreover have "length (cstr dname @ numeral_text 10 no) < 8"
    using assms length_numeral_text [of no] by (simp add: disk_name_def)
  ultimately show ?thesis
    using vsprintf_run [of ?items 8 "[]" "[]"] assms
    by (simp add: part_label_def sprintf_def fmt_args_def disk_name_def label_def Let_def)
qed

lemma add_primary_run:
  assumes "disk_name dname" and "unat (p_no s) < 3" and "length (prim_parts s) = 4"
    and "unnamed (unat (p_no s)) (prim_parts s)"
  shows "add_primary dname 0 p s =
    (let part = part_entry dname 0 (unat (p_no s) + 1) p
     in Inr ((), s\<lparr>p_no := p_no s + 1, prim_parts := (prim_parts s)[unat (p_no s) := part],
          partition_list := partition_list s @ [part]\<rparr>))"
proof -
  have "part_label (replicate 8 0) dname (ucast (p_no s) + 1) = Inr (label dname (unat (p_no s) + 1))"
    using part_label_run [OF assms(1), of "unat (p_no s) + 1"] assms(2) by (simp add: ac_simps)
  moreover have "p_no s + 1 < 4"
    using assms(2) by (simp add: word_less_nat_alt unat_word_ariths)
  moreover have "part_name (prim_parts s ! unat (p_no s)) = replicate 8 0"
    using assms by (simp add: unnamed_def)
  ultimately show ?thesis
    using assms by (simp add: add_primary_def part_entry_def Let_def kassert_def)
qed

lemma add_logical_run:
  assumes "disk_name dname" and "unat (l_no s) < 8" and "length (logic_parts s) = 8"
    and "unnamed (unat (l_no s)) (logic_parts s)"
  shows "add_logical dname lba p s =
    (let part = part_entry dname lba (unat (l_no s) + 5) p
     in Inr (unat (l_no s) = 7, s\<lparr>l_no := l_no s + 1, logic_parts := (logic_parts s)[unat (l_no s) := part],
          partition_list := partition_list s @ [part]\<rparr>))"
proof -
  have "part_label (replicate 8 0) dname (ucast (l_no s) + 5) = Inr (label dname (unat (l_no s) + 5))"
    using part_label_run [OF assms(1), of "unat (l_no s) + 5"] assms(2) by (simp add: ac_simps)
  moreover have "8 \<le> l_no s + 1 \<longleftrightarrow> unat (l_no s) = 7"
    using assms(2) by (simp add: word_le_nat_alt unat_word_ariths) linarith
  moreover have "part_name (logic_parts s ! unat (l_no s)) = replicate 8 0"
    using assms by (simp add: unnamed_def)
  ultimately show ?thesis
    using assms by (simp add: add_logical_def part_entry_def Let_def)
qed

lemma scan_unused: "unused p \<Longrightarrow> scan_entries rd dname lba (p # ps) s = scan_entries rd dname lba ps s"
  by (subst scan_entries.simps) (simp add: unused_def)

lemma scan_all_unused: "\<forall>p \<in> set ps. unused p \<Longrightarrow> scan_entries rd dname lba ps s = Some (Inr s)"
proof (induction ps)
  case Nil
  show ?case by (subst scan_entries.simps) simp
qed (simp add: scan_unused)

lemma scan_prims:
  assumes "disk_name dname" and "\<forall>p \<in> set ps. a_partition p" and "unat (p_no s) + length ps < 4"
    and "length (prim_parts s) = 4" and "unnamed (unat (p_no s)) (prim_parts s)"
  shows "\<exists>s'. scan_entries rd dname 0 (ps @ rest) s = scan_entries rd dname 0 rest s' \<and>
    partition_list s' = partition_list s @ prims_of dname (unat (p_no s) + 1) ps \<and>
    ext_lba_base s' = ext_lba_base s \<and> l_no s' = l_no s \<and> logic_parts s' = logic_parts s"
  using assms
proof (induction ps arbitrary: s)
  case (Cons p ps)
  let ?part = "part_entry dname 0 (unat (p_no s) + 1) p"
  let ?s = "s\<lparr>p_no := p_no s + 1, prim_parts := (prim_parts s)[unat (p_no s) := ?part],
       partition_list := partition_list s @ [?part]\<rparr>"
  have no: "unat (p_no s + 1) = unat (p_no s) + 1"
    using Cons.prems(3) by (simp add: unat_word_ariths)
  have "scan_entries rd dname 0 ((p # ps) @ rest) s = scan_entries rd dname 0 (ps @ rest) ?s"
    using Cons.prems add_primary_run [of dname s p]
    by (subst scan_entries.simps) (simp add: a_partition_def Let_def)
  moreover have "unnamed (Suc (unat (p_no s))) (prim_parts ?s)"
    using Cons.prems(5) by (simp add: unnamed_update)
  then obtain s' where "scan_entries rd dname 0 (ps @ rest) ?s = scan_entries rd dname 0 rest s' \<and>
    partition_list s' = partition_list ?s @ prims_of dname (unat (p_no ?s) + 1) ps \<and>
    ext_lba_base s' = ext_lba_base ?s \<and> l_no s' = l_no ?s \<and> logic_parts s' = logic_parts ?s"
    using Cons.IH [of ?s] Cons.prems by (auto simp: no)
  ultimately show ?case by (intro exI [of _ s']) (simp add: no)
qed auto

lemma scan_chain:
  assumes "disk_name dname" and "ext_chain rd (ext_lba_base s) lba logs" and "ext_lba_base s \<noteq> 0"
    and "unat (l_no s) + length logs \<le> 8"
    and "length (logic_parts s) = 8" and "unnamed (unat (l_no s)) (logic_parts s)"
  shows "\<exists>bs s'. rd lba = Inr bs \<and> scan_entries rd dname lba (partition_table bs) s = Some (Inr s') \<and>
    partition_list s' = partition_list s @ logs_of dname (unat (l_no s) + 5) logs"
  using assms
proof (induction logs arbitrary: s lba)
  case (Cons l logs)
  obtain p where l: "l = (lba, p)" using Cons.prems(2) by (cases l) auto
  obtain bs link e e' where bs: "rd lba = Inr bs" "partition_table bs = [p, link, e, e']"
    and un: "unused e" "unused e'" "a_partition p" "lba \<noteq> 0"
    and link: "if logs = [] then unused link
       else fs_type link = 5 \<and> ext_chain rd (ext_lba_base s) (pt_start_lba link + ext_lba_base s) logs"
    using Cons.prems(2) l by (auto split: sum.splits list.splits)
  let ?part = "part_entry dname lba (unat (l_no s) + 5) p"
  let ?s = "s\<lparr>l_no := l_no s + 1, logic_parts := (logic_parts s)[unat (l_no s) := ?part],
       partition_list := partition_list s @ [?part]\<rparr>"
  have no: "unat (l_no s + 1) = unat (l_no s) + 1"
    using Cons.prems(4) by (simp add: unat_word_ariths)
  have run: "scan_entries rd dname lba (partition_table bs) s =
      (if unat (l_no s) = 7 then Some (Inr ?s) else scan_entries rd dname lba [link, e, e'] ?s)"
    using Cons.prems un add_logical_run [of dname s lba p] unfolding bs(2)
    by (subst scan_entries.simps) (simp add: a_partition_def Let_def)
  show ?case
  proof (cases "logs = []")
    case True
    then have "scan_entries rd dname lba [link, e, e'] ?s = Some (Inr ?s)"
      using link un by (intro scan_all_unused) auto
    with run have "scan_entries rd dname lba (partition_table bs) s = Some (Inr ?s)" by simp
    with bs(1) show ?thesis
      by (intro exI [of _ bs] exI [of _ ?s]) (simp add: l True)
  next
    case False
    let ?lba = "pt_start_lba link + ext_lba_base s"
    have "unnamed (Suc (unat (l_no s))) (logic_parts ?s)"
      using Cons.prems(6) by (simp add: unnamed_update)
    then obtain bs' s' where bs': "rd ?lba = Inr bs'"
      and in_chain: "scan_entries rd dname ?lba (partition_table bs') ?s = Some (Inr s')"
      and parts: "partition_list s' = partition_list ?s @ logs_of dname (unat (l_no ?s) + 5) logs"
      using Cons.IH [of ?s ?lba] Cons.prems link False by (auto simp: no)
    have "scan_entries rd dname lba [link, e, e'] ?s = scan_entries rd dname lba [e, e'] s'"
      using link False bs' in_chain Cons.prems(3) by (subst scan_entries.simps) (simp add: Let_def)
    also have "\<dots> = Some (Inr s')" using un by (intro scan_all_unused) auto
    moreover have "unat (l_no s) \<noteq> 7" using Cons.prems(4) False by (cases logs) auto
    ultimately have "scan_entries rd dname lba (partition_table bs) s = Some (Inr s')"
      using run by simp
    with bs(1) parts show ?thesis
      by (intro exI [of _ bs] exI [of _ s']) (simp add: l no)
  qed
qed simp

section \<open>Properties\<close>

text \<open>C30: The usual layout of a disk (up to three primary partitions, then the extended partition
  with up to eight logical ones in a chain of extended boot records) is scanned completely: every
  partition enters the queue once, in the order of the tables, with its absolute start, its size
  and its name, primary ones numbered from 1 and logical ones from 5.\<close>

theorem partition_scan_finds_all:
  assumes "disk_name dname"
    and "rd 0 = Inr mbr" and "partition_table mbr = prims @ ext # unused_entries"
    and "\<forall>p \<in> set prims. a_partition p" and "length prims \<le> 3"
    and "fs_type ext = 5" and "pt_start_lba ext \<noteq> 0" and "\<forall>p \<in> set unused_entries. unused p"
    and "ext_chain rd (pt_start_lba ext) (pt_start_lba ext) logs" and "length logs \<le> 8"
    and "ext_lba_base s = 0" and "p_no s = 0" and "l_no s = 0"
    and "length (prim_parts s) = 4" and "unnamed 0 (prim_parts s)"
    and "length (logic_parts s) = 8" and "unnamed 0 (logic_parts s)"
  shows "\<exists>s'. partition_scan rd dname 0 s = Inr s' \<and>
    partition_list s' = partition_list s @ prims_of dname 1 prims @ logs_of dname 5 logs"
proof -
  obtain s1 where s1: "scan_entries rd dname 0 (prims @ ext # unused_entries) s =
      scan_entries rd dname 0 (ext # unused_entries) s1"
    "partition_list s1 = partition_list s @ prims_of dname 1 prims"
    "ext_lba_base s1 = 0" "l_no s1 = 0" "logic_parts s1 = logic_parts s"
    using scan_prims [of dname prims s rd "ext # unused_entries"] assms by auto
  let ?s = "s1\<lparr>ext_lba_base := pt_start_lba ext\<rparr>"
  obtain bs s' where chain: "rd (pt_start_lba ext) = Inr bs"
    "scan_entries rd dname (pt_start_lba ext) (partition_table bs) ?s = Some (Inr s')"
    "partition_list s' = partition_list s1 @ logs_of dname 5 logs"
    using scan_chain [of dname rd ?s "pt_start_lba ext" logs] assms s1 by auto
  have "scan_entries rd dname 0 (ext # unused_entries) s1 = scan_entries rd dname 0 unused_entries s'"
    using chain assms(6) s1(3) by (subst scan_entries.simps) (simp add: Let_def)
  also have "\<dots> = Some (Inr s')" using assms(8) by (rule scan_all_unused)
  finally show ?thesis
    using assms(2,3) s1 chain by (intro exI [of _ s']) (simp add: partition_scan_def)
qed

text \<open>A drive with one primary partition and two logical ones.\<close>

definition table_bytes :: "(u8 \<times> u8 \<times> u8) list \<Rightarrow> u8 list" where
  "table_bytes es = replicate 446 0 @
     concat (List.map (\<lambda>(ty, start, cnt). [0, 0, 0, 0, ty, 0, 0, 0, start, 0, 0, 0, cnt, 0, 0, 0]) es)"

definition sample_drive :: "u32 \<Rightarrow> u8 list res" where
  "sample_drive lba = Inr (table_bytes (
     if lba = 0 then [(0x83, 2, 8), (5, 100, 50), (0, 0, 0), (0, 0, 0)]
     else if lba = 100 then [(0x66, 1, 9), (5, 20, 20), (0, 0, 0), (0, 0, 0)]
     else [(0x66, 1, 7), (0, 0, 0), (0, 0, 0), (0, 0, 0)]))"

definition no_part :: part_info where
  "no_part = \<lparr>part_name = replicate 8 0, part_start = 0, part_cnt = 0\<rparr>"

definition sample_entry :: "u8 \<Rightarrow> u32 \<Rightarrow> u32 \<Rightarrow> partition_table_entry" where
  "sample_entry ty start cnt = \<lparr>bootable = 0, start_head = 0, start_sec = 0, start_chs = 0, fs_type = ty,
     end_head = 0, end_sec = 0, end_chs = 0, pt_start_lba = start, pt_sec_cnt = cnt\<rparr>"

lemma sample_tables:
  "partition_table (table_bytes [(0x83, 2, 8), (5, 100, 50), (0, 0, 0), (0, 0, 0)]) =
     [sample_entry 0x83 2 8, sample_entry 5 100 50, sample_entry 0 0 0, sample_entry 0 0 0]"
  "partition_table (table_bytes [(0x66, 1, 9), (5, 20, 20), (0, 0, 0), (0, 0, 0)]) =
     [sample_entry 0x66 1 9, sample_entry 5 20 20, sample_entry 0 0 0, sample_entry 0 0 0]"
  "partition_table (table_bytes [(0x66, 1, 7), (0, 0, 0), (0, 0, 0), (0, 0, 0)]) =
     [sample_entry 0x66 1 7, sample_entry 0 0 0, sample_entry 0 0 0, sample_entry 0 0 0]"
  by code_simp+

theorem partition_scan_finds_all_witness:
  "\<exists>s'. partition_scan sample_drive [115, 100, 98, 0] 0
      \<lparr>ext_lba_base = 0, p_no = 0, l_no = 0, prim_parts = replicate 4 no_part,
       logic_parts = replicate 8 no_part, partition_list = []\<rparr> = Inr s' \<and>
    List.map (\<lambda>p. (part_name p, part_start p)) (partition_list s') =
      [([115, 100, 98, 49, 0, 0, 0, 0], 2), ([115, 100, 98, 53, 0, 0, 0, 0], 101),
       ([115, 100, 98, 54, 0, 0, 0, 0], 121)]"
proof -
  let ?logs = "[(100, sample_entry 0x66 1 9), (120, sample_entry 0x66 1 7)]"
  let ?s = "\<lparr>ext_lba_base = 0, p_no = 0, l_no = 0, prim_parts = replicate 4 no_part,
       logic_parts = replicate 8 no_part, partition_list = []\<rparr>"
  have names: "label [115, 100, 98, 0] (Suc 0) = [115, 100, 98, 49, 0, 0, 0, 0]"
    "label [115, 100, 98, 0] 5 = [115, 100, 98, 53, 0, 0, 0, 0]"
    "label [115, 100, 98, 0] 6 = [115, 100, 98, 54, 0, 0, 0, 0]"
    by code_simp+
  have "disk_name [115, 100, 98, 0]" by (simp add: disk_name_def)
  moreover have "ext_chain sample_drive 100 100 ?logs"
    by (simp add: sample_drive_def sample_tables a_partition_def unused_def sample_entry_def)
  moreover have "unnamed 0 (replicate 4 no_part)" "unnamed 0 (replicate 8 no_part)"
    by (simp_all add: unnamed_def no_part_def)
  ultimately obtain s' where s': "partition_scan sample_drive [115, 100, 98, 0] 0 ?s = Inr s'"
    "partition_list s' = prims_of [115, 100, 98, 0] 1 [sample_entry 0x83 2 8] @ logs_of [115, 100, 98, 0] 5 ?logs"
    using partition_scan_finds_all [of "[115, 100, 98, 0]" sample_drive _ "[sample_entry 0x83 2 8]"
      "sample_entry 5 100 50" "[sample_entry 0 0 0, sample_entry 0 0 0]" ?logs ?s]
    by (auto simp: sample_drive_def sample_tables a_partition_def unused_def sample_entry_def)
  then show ?thesis
    by (intro exI [of _ s']) (simp add: part_entry_def names sample_entry_def)
qed

lemma pairs_nth:
  "\<forall>i. 2 * i + 1 < length xs \<longrightarrow> pairs xs ! (2 * i) = xs ! (2 * i + 1) \<and> pairs xs ! (2 * i + 1) = xs ! (2 * i)"
proof (induction xs rule: pairs.induct)
  case (1 a b r)
  show ?case
  proof
    fix i
    show "2 * i + 1 < length (a # b # r) \<longrightarrow> pairs (a # b # r) ! (2 * i) = (a # b # r) ! (2 * i + 1) \<and>
        pairs (a # b # r) ! (2 * i + 1) = (a # b # r) ! (2 * i)"
      using "1.IH" by (cases i) simp_all
  qed
qed simp_all

text \<open>\<open>swap_pairs_bytes\<close> turns every 16-bit word of an even number of bytes around and ends them with
  a zero; swapping the result again gives the bytes back.\<close>

theorem swap_pairs_roundtrip:
  assumes "even (length xs)" and "length xs < 256" and "length xs < length buf" and "length xs < length buf'"
  shows "\<exists>swapped. swap_pairs_bytes (xs @ rest) buf (of_nat (length xs)) = Inr (swapped @ 0 # drop (Suc (length xs)) buf) \<and>
    (\<forall>i. 2 * i + 1 < length xs \<longrightarrow> swapped ! (2 * i) = xs ! (2 * i + 1) \<and> swapped ! (2 * i + 1) = xs ! (2 * i)) \<and>
    swap_pairs_bytes (swapped @ rest') buf' (of_nat (length xs)) = Inr (xs @ 0 # drop (Suc (length xs)) buf')"
proof -
  have "\<forall>i. 2 * i + 1 < length xs \<longrightarrow> pairs xs ! (2 * i) = xs ! (2 * i + 1) \<and> pairs xs ! (2 * i + 1) = xs ! (2 * i)"
    by (rule pairs_nth)
  then show ?thesis
    using swap_pairs_run [of xs buf rest] swap_pairs_run [of "pairs xs" buf' rest'] assms
    by (intro exI [of _ "pairs xs"]) simp
qed

theorem swap_pairs_roundtrip_witness:
  "\<exists>sw. swap_pairs_bytes [2, 1, 4, 3] (replicate 5 9) 4 = Inr (sw @ [0]) \<and>
    swap_pairs_bytes (sw @ []) (replicate 5 9) 4 = Inr [2, 1, 4, 3, 0]"
proof -
  have "even (length [2, 1, 4, 3 :: u8])" by simp
  from swap_pairs_roundtrip [OF this, of "replicate 5 9" "replicate 5 9" "[]" "[]"]
  show ?thesis by auto
qed

end
