(* ===== verification/Pid.thy ===== *)
theory Pid
  imports Sched Bitmap
begin

text \<open>
  The pool of process numbers of \<open>thread/thread.c\<close>: 1024 numbers, one bit each, under a lock. The
  lock is uncontended: it is the number of times the running thread holds it. A \<open>pid_t\<close> is a
  16-bit word.
\<close>

section \<open>The pool\<close>

record pid_pool =
  pid_bitmap :: bitmap
  pid_start :: u32
  pid_lock :: nat

definition pid_lock_acquire :: "(pid_pool, unit) km" where
  "pid_lock_acquire = modify (\<lambda>p. p\<lparr>pid_lock := Suc (pid_lock p)\<rparr>)"

definition pid_lock_release :: "(pid_pool, unit) km" where
  "pid_lock_release =
     bnd (gets pid_lock) (\<lambda>n.
     bnd (kassert ''plock->holder == running_thread()'' (n > 0)) (\<lambda>_.
     modify (\<lambda>p. p\<lparr>pid_lock := n - 1\<rparr>)))"

definition pid_pool_init :: "(pid_pool, unit) km" where
  "pid_pool_init =
     bnd (liftr (bitmap_init \<lparr>btmp_bytes_len = 128, bits = replicate 128 0\<rparr>)) (\<lambda>b.
     modify (\<lambda>p. p\<lparr>pid_bitmap := b, pid_start := 1, pid_lock := 0\<rparr>))"

definition allocate_pid :: "(pid_pool, u16) km" where
  "allocate_pid =
     bnd pid_lock_acquire (\<lambda>_.
     bnd (gets pid_bitmap) (\<lambda>b.
     bnd (liftr (bitmap_scan b 1)) (\<lambda>bit_idx.
     bnd (liftr (bitmap_set b bit_idx 1)) (\<lambda>b.
     bnd (modify (\<lambda>p. p\<lparr>pid_bitmap := b\<rparr>)) (\<lambda>_.
     bnd pid_lock_release (\<lambda>_.
     gets (\<lambda>p. ucast (bit_idx + pid_start p))))))))"

definition release_pid :: "u16 \<Rightarrow> (pid_pool, unit) km" where
  "release_pid no =
     bnd pid_lock_acquire (\<lambda>_.
     bnd (gets (\<lambda>p. scast no - pid_start p)) (\<lambda>bit_idx.
     bnd (gets pid_bitmap) (\<lambda>b.
     bnd (liftr (bitmap_set b bit_idx 0)) (\<lambda>b.
     bnd (modify (\<lambda>p. p\<lparr>pid_bitmap := b\<rparr>)) (\<lambda>_.
     pid_lock_release)))))"

definition fork_pid :: "(pid_pool, u16) km" where
  "fork_pid = allocate_pid"

section \<open>The numbers in use\<close>

definition pool_ok :: "pid_pool \<Rightarrow> bool" where
  "pool_ok p \<longleftrightarrow> bitmap_wf (pid_bitmap p) \<and> bitmap_cap (pid_bitmap p) = 1024 \<and> pid_start p = 1"

text \<open>The number with bit \<open>i\<close> is \<open>i + 1\<close>.\<close>

definition taken_pids :: "pid_pool \<Rightarrow> u16 set" where
  "taken_pids p = {n. 1 \<le> unat n \<and> unat n \<le> 1024 \<and> used_bit (pid_bitmap p) (unat n - 1)}"

lemma u16_of_nat: "n < 65536 \<Longrightarrow> unat (of_nat n :: u16) = n"
  by (simp add: unat_of_nat)

lemma pid_of_bit:
  assumes "i < 1024"
  shows "unat (ucast ((of_nat i :: u32) + 1) :: u16) = i + 1"
    and "scast (of_nat (i + 1) :: u16) = (of_nat i :: u32) + 1"
proof -
  have n: "(of_nat i :: u32) + 1 = of_nat (i + 1)" by simp
  show "unat (ucast ((of_nat i :: u32) + 1) :: u16) = i + 1"
    unfolding n unsigned_ucast_eq using assms
    by (simp del: of_nat_Suc of_nat_add add: unat_of_nat_u32 take_bit_nat_eq_self)
  show "scast (of_nat (i + 1) :: u16) = (of_nat i :: u32) + 1"
    unfolding n signed_of_nat using assms by (simp add: signed_take_bit_int_eq_self)
qed

text \<open>The pool, as the pool of slots it is.\<close>

definition pid_take :: "pid_pool \<Rightarrow> (nat \<times> pid_pool) res" where
  "pid_take p = rbind (allocate_pid p) (\<lambda>(n, p'). Inr (unat n - 1, p'))"

definition pid_give :: "pid_pool \<Rightarrow> nat \<Rightarrow> pid_pool res" where
  "pid_give p i = rbind (release_pid (of_nat (i + 1)) p) (\<lambda>(_, p'). Inr p')"

lemma allocate_pid_bit:
  assumes ok: "pool_ok p"
  shows "allocate_pid p = rbind (bitmap_take (pid_bitmap p)) (\<lambda>(i, b).
    Inr (ucast ((of_nat i :: u32) + 1), p\<lparr>pid_bitmap := b\<rparr>))"
  using ok
  by (auto simp: allocate_pid_def pid_lock_acquire_def pid_lock_release_def bitmap_take_def bnd_assoc pool_ok_def rbind_def
      split: sum.split)

lemma release_pid_bit:
  assumes ok: "pool_ok p" and i: "i < 1024"
  shows "release_pid (of_nat (i + 1)) p = rbind (bitmap_give (pid_bitmap p) i) (\<lambda>b. Inr ((), p\<lparr>pid_bitmap := b\<rparr>))"
  using ok unfolding release_pid_def pid_of_bit(2) [OF i]
  by (auto simp: pid_lock_acquire_def pid_lock_release_def bitmap_give_def bnd_assoc pool_ok_def rbind_def
      split: sum.split)

interpretation pid_slots: slot_pool pool_ok "\<lambda>_. 1024" "\<lambda>p. used_bit (pid_bitmap p)" pid_take pid_give
proof unfold_locales
  fix p i
  assume ok: "pool_ok p" and i: "i < 1024" "\<not> used_bit (pid_bitmap p) i"
  then obtain k b where k: "bitmap_take (pid_bitmap p) = Inr (k, b)" "k < 1024" "\<not> used_bit (pid_bitmap p) k"
    "bitmap_wf b" "bitmap_cap b = 1024" "\<forall>j < 1024. used_bit b j \<longleftrightarrow> j = k \<or> used_bit (pid_bitmap p) j"
    using bitmap_pool.alloc_slot [of "pid_bitmap p" i] by (auto simp: pool_ok_def)
  then show "\<exists>k p'. pid_take p = Inr (k, p') \<and> k < 1024 \<and> \<not> used_bit (pid_bitmap p) k \<and> pool_ok p' \<and>
      (1024 :: nat) = 1024 \<and> (\<forall>j < 1024. used_bit (pid_bitmap p') j \<longleftrightarrow> j = k \<or> used_bit (pid_bitmap p) j)"
    using ok pid_of_bit(1) [OF k(2)]
    by (intro exI [of _ k] exI [of _ "p\<lparr>pid_bitmap := b\<rparr>"]) (simp add: pid_take_def allocate_pid_bit pool_ok_def)
next
  fix p
  assume ok: "pool_ok p" and "\<forall>i < 1024. used_bit (pid_bitmap p) i"
  then obtain e where "bitmap_take (pid_bitmap p) = Inl e"
    using bitmap_pool.alloc_full [of "pid_bitmap p"] by (auto simp: pool_ok_def)
  then show "\<exists>e. pid_take p = Inl e" using ok by (simp add: pid_take_def allocate_pid_bit)
next
  fix p i
  assume ok: "pool_ok p" and i: "i < (1024 :: nat)"
  then obtain b where b: "bitmap_give (pid_bitmap p) i = Inr b" "bitmap_wf b" "bitmap_cap b = 1024"
    "\<forall>j < 1024. used_bit b j \<longleftrightarrow> j \<noteq> i \<and> used_bit (pid_bitmap p) j"
    using bitmap_pool.free_slot [of "pid_bitmap p" i] by (auto simp: pool_ok_def)
  then show "\<exists>p'. pid_give p i = Inr p' \<and> pool_ok p' \<and> (1024 :: nat) = 1024 \<and>
      (\<forall>j < 1024. used_bit (pid_bitmap p') j \<longleftrightarrow> j \<noteq> i \<and> used_bit (pid_bitmap p) j)"
    using ok i release_pid_bit [OF ok i]
    by (intro exI [of _ "p\<lparr>pid_bitmap := b\<rparr>"]) (simp add: pid_give_def pool_ok_def)
qed

lemma taken_pidsI: "1 \<le> unat n \<Longrightarrow> unat n \<le> 1024 \<Longrightarrow> n \<in> taken_pids p \<longleftrightarrow> used_bit (pid_bitmap p) (unat n - 1)"
  by (simp add: taken_pids_def)

lemma pids_after:
  assumes "\<forall>j < 1024. used_bit (pid_bitmap p') j \<longleftrightarrow> P j" and "1 \<le> unat n" and "unat n \<le> 1024"
  shows "n \<in> taken_pids p' \<longleftrightarrow> P (unat n - 1)"
  using assms by (simp add: taken_pids_def)

text \<open>What \<open>allocate_pid\<close> answers, when it answers.\<close>

lemma allocate_pid_Inr:
  assumes ok: "pool_ok p" and run: "allocate_pid p = Inr (n, p')"
  shows "1 \<le> unat n" and "unat n \<le> 1024" and "n \<notin> taken_pids p" and "pool_ok p'"
    and "taken_pids p' = insert n (taken_pids p)" and "pid_lock p' = pid_lock p"
proof -
  obtain i b where i: "bitmap_take (pid_bitmap p) = Inr (i, b)" "n = ucast ((of_nat i :: u32) + 1)" "p' = p\<lparr>pid_bitmap := b\<rparr>"
    using run by (auto simp: allocate_pid_bit [OF ok] rbind_eq_Inr)
  then have take: "pid_take p = Inr (unat n - 1, p')"
    using run by (simp add: pid_take_def)
  note slot = pid_slots.alloc_Inr [OF ok take]
  have "i < 1024"
    using bitmap_pool.alloc_Inr(1) [OF _ i(1)] ok by (simp add: pool_ok_def)
  from pid_of_bit(1) [OF this] i(2) \<open>i < 1024\<close> show n: "1 \<le> unat n" "unat n \<le> 1024" by simp_all
  show "n \<notin> taken_pids p" and "pool_ok p'" using slot n by (simp_all add: taken_pidsI)
  show "pid_lock p' = pid_lock p" using i(3) by simp
  have "m \<in> taken_pids p' \<longleftrightarrow> m \<in> insert n (taken_pids p)" for m
  proof (cases "1 \<le> unat m \<and> unat m \<le> 1024")
    case True
    then have "m \<in> taken_pids p' \<longleftrightarrow> unat m - 1 = unat n - 1 \<or> used_bit (pid_bitmap p) (unat m - 1)"
      using slot(5) by (intro pids_after) auto
    moreover have "unat m - 1 = unat n - 1 \<longleftrightarrow> m = n"
      using True n word_unat_eq_iff [of m n] by auto
    ultimately show ?thesis using True by (simp add: taken_pidsI)
  next
    case False
    then show ?thesis using n by (auto simp: taken_pids_def)
  qed
  then show "taken_pids p' = insert n (taken_pids p)" by blast
qed

lemma release_pid_run:
  assumes ok: "pool_ok p" and n: "1 \<le> unat n" "unat n \<le> 1024"
  shows "\<exists>p'. release_pid n p = Inr ((), p') \<and> pool_ok p' \<and> taken_pids p' = taken_pids p - {n} \<and> pid_lock p' = pid_lock p"
proof -
  define i where "i = unat n - 1"
  have i: "i < 1024" "n = of_nat (i + 1)" "unat n = i + 1"
    using n by (simp_all add: i_def word_unat_eq_iff unsigned_of_nat take_bit_nat_eq_self)
  obtain p' where p': "pid_give p i = Inr p'" "pool_ok p'"
      "\<forall>j < 1024. used_bit (pid_bitmap p') j \<longleftrightarrow> j \<noteq> i \<and> used_bit (pid_bitmap p) j"
    using pid_slots.free_slot [OF ok i(1)] by blast
  then have run: "release_pid n p = Inr ((), p')" by (auto simp: pid_give_def rbind_eq_Inr i(2))
  have "m \<in> taken_pids p' \<longleftrightarrow> m \<in> taken_pids p - {n}" for m
  proof (cases "1 \<le> unat m \<and> unat m \<le> 1024")
    case True
    then have "m \<in> taken_pids p' \<longleftrightarrow> unat m - 1 \<noteq> i \<and> used_bit (pid_bitmap p) (unat m - 1)"
      using p'(3) by (intro pids_after) auto
    moreover have "unat m - 1 = i \<longleftrightarrow> m = n"
      using True i(3) word_unat_eq_iff [of m n] by auto
    ultimately show ?thesis using True by (auto simp: taken_pidsI)
  qed (auto simp: taken_pids_def)
  moreover have "rbind (bitmap_give (pid_bitmap p) i) (\<lambda>b. Inr ((), p\<lparr>pid_bitmap := b\<rparr>)) = Inr ((), p')"
    using run release_pid_bit [OF ok i(1)] i(2) by metis
  then have "pid_lock p' = pid_lock p" by (auto simp: rbind_eq_Inr)
  ultimately show ?thesis using run p'(2) by blast
qed

lemma pid_pool_init_run:
  "\<exists>p'. pid_pool_init p = Inr ((), p') \<and> pool_ok p' \<and> taken_pids p' = {} \<and> pid_lock p' = 0"
proof -
  have b: "bitmap_init \<lparr>btmp_bytes_len = 128, bits = replicate 128 0\<rparr> =
      Inr \<lparr>btmp_bytes_len = 128, bits = replicate 128 0\<rparr>"
    by code_simp
  have "\<not> used_bit \<lparr>btmp_bytes_len = 128, bits = replicate 128 0\<rparr> i" if "i < 1024" for i
    using that by (simp add: used_bit_def div_less_iff_less_mult)
  then show ?thesis
    by (auto simp: pid_pool_init_def b pool_ok_def bitmap_wf_def bitmap_cap_def taken_pids_def)
qed

section \<open>Many numbers\<close>

fun allocate_pids :: "nat \<Rightarrow> (pid_pool, u16 list) km" where
  "allocate_pids 0 = ret []"
| "allocate_pids (Suc n) = bnd allocate_pid (\<lambda>p. bnd (allocate_pids n) (\<lambda>ps. ret (p # ps)))"

lemma allocate_pids_Inr:
  "pool_ok p \<Longrightarrow> allocate_pids n p = Inr (ns, p') \<Longrightarrow>
   pool_ok p' \<and> length ns = n \<and> distinct ns \<and> set ns \<inter> taken_pids p = {} \<and>
   (\<forall>m \<in> set ns. 1 \<le> unat m \<and> unat m \<le> 1024) \<and> taken_pids p' = set ns \<union> taken_pids p"
proof (induction n arbitrary: p ns)
  case (Suc n)
  then obtain m q ms where m: "allocate_pid p = Inr (m, q)" "allocate_pids n q = Inr (ms, p')" "ns = m # ms"
    by (auto simp: bnd_eq_Inr)
  note a = allocate_pid_Inr [OF Suc.prems(1) m(1)]
  from Suc.IH [OF a(4) m(2)] a m(3) show ?case by auto
qed simp

definition all_pids :: "u16 set" where
  "all_pids = {n. 1 \<le> unat n \<and> unat n \<le> 1024}"

lemma card_all_pids: "card all_pids = 1024"
proof -
  have all: "all_pids = of_nat ` {1..1024 :: nat}"
  proof
    show "all_pids \<subseteq> of_nat ` {1..1024 :: nat}"
    proof
      fix n assume "n \<in> all_pids"
      then show "n \<in> of_nat ` {1..1024 :: nat}"
        by (intro image_eqI [of _ _ "unat n"]) (simp_all add: all_pids_def)
    qed
  qed (auto simp: all_pids_def u16_of_nat)
  have "inj_on (of_nat :: nat \<Rightarrow> u16) {1..1024}"
    by (rule inj_on_inverseI [of _ unat]) (simp add: u16_of_nat)
  from card_image [OF this] show ?thesis unfolding all by simp
qed

lemma taken_all: "taken_pids p \<subseteq> all_pids" "finite (taken_pids p)"
  by (auto simp: taken_pids_def all_pids_def)

lemma allocate_pid_total:
  assumes ok: "pool_ok p" and room: "card (taken_pids p) < 1024"
  shows "\<exists>n p'. allocate_pid p = Inr (n, p')"
proof -
  have "taken_pids p \<noteq> all_pids" using room card_all_pids by auto
  then obtain m where m: "m \<in> all_pids" "m \<notin> taken_pids p" using taken_all(1) by blast
  then have "unat m - 1 < 1024" "\<not> used_bit (pid_bitmap p) (unat m - 1)"
    by (auto simp: all_pids_def taken_pids_def)
  from pid_slots.alloc_slot [OF ok this] show ?thesis
    by (auto simp: pid_take_def rbind_eq_Inr)
qed

lemma allocate_pids_total:
  "pool_ok p \<Longrightarrow> n + card (taken_pids p) \<le> 1024 \<Longrightarrow> \<exists>ns p'. allocate_pids n p = Inr (ns, p')"
proof (induction n arbitrary: p)
  case (Suc n)
  from Suc.prems obtain m q where m: "allocate_pid p = Inr (m, q)" using allocate_pid_total by fastforce
  note a = allocate_pid_Inr [OF Suc.prems(1) m]
  have "n + card (taken_pids q) \<le> 1024" using Suc.prems(2) a(3,5) taken_all(2) [of p] by simp
  from Suc.IH [OF a(4) this] m show ?case by (auto simp: bnd_Inr)
qed simp

section \<open>Properties\<close>

text \<open>C10: Numbers given out one after the other, from any state of the pool, lie between 1 and 1024, are
  distinct and were not in use; each is in use from then on, and no other number changes.\<close>

theorem pids_unique:
  assumes "pool_ok p" and "n + card (taken_pids p) \<le> 1024"
  shows "\<exists>ns p'. allocate_pids n p = Inr (ns, p') \<and> length ns = n \<and> distinct ns \<and> set ns \<inter> taken_pids p = {} \<and>
    (\<forall>m \<in> set ns. 1 \<le> unat m \<and> unat m \<le> 1024) \<and> taken_pids p' = set ns \<union> taken_pids p"
proof -
  obtain ns p' where "allocate_pids n p = Inr (ns, p')" using allocate_pids_total [OF assms] by blast
  from allocate_pids_Inr [OF assms(1) this] this show ?thesis by blast
qed

theorem pids_unique_witness:
  "\<exists>p ns p'. allocate_pids 1024 p = Inr (ns, p') \<and> length ns = 1024 \<and> distinct ns"
proof -
  obtain p where "pool_ok p" "taken_pids p = {}"
    using pid_pool_init_run [of "\<lparr>pid_bitmap = \<lparr>btmp_bytes_len = 0, bits = []\<rparr>, pid_start = 0, pid_lock = 0\<rparr>"] by blast
  with pids_unique [of p 1024] show ?thesis by auto
qed

text \<open>A number that was given out and is released is free again: the numbers in use are the same as
  before, and it can be given out once more.\<close>

theorem pid_roundtrip:
  assumes "pool_ok p" and "allocate_pid p = Inr (n, p')"
  shows "\<exists>p''. release_pid n p' = Inr ((), p'') \<and> pool_ok p'' \<and> taken_pids p'' = taken_pids p \<and>
    (\<exists>m q. allocate_pid p'' = Inr (m, q))"
proof -
  note a = allocate_pid_Inr [OF assms]
  obtain p'' where p'': "release_pid n p' = Inr ((), p'')" "pool_ok p''" "taken_pids p'' = taken_pids p' - {n}"
    using release_pid_run [OF a(4) a(1,2)] by blast
  then have eq: "taken_pids p'' = taken_pids p" using a(3,5) by auto
  have "n \<in> all_pids - taken_pids p''" using a eq by (simp add: all_pids_def)
  then have "card (taken_pids p'') < card all_pids"
    using taken_all(1) [of p''] by (intro psubset_card_mono) (auto simp: all_pids_def)
  then show ?thesis using p'' eq allocate_pid_total [of p''] by (auto simp: card_all_pids)
qed

definition sample_pids :: pid_pool where
  "sample_pids = \<lparr>pid_bitmap = \<lparr>btmp_bytes_len = 128, bits = 7 # replicate 127 0\<rparr>, pid_start = 1, pid_lock = 0\<rparr>"

theorem pid_roundtrip_witness:
  "\<exists>p' p''. allocate_pid sample_pids = Inr (4, p') \<and> release_pid 4 p' = Inr ((), p'') \<and>
    taken_pids p'' = taken_pids sample_pids"
proof -
  have "pool_ok sample_pids" by (simp add: sample_pids_def pool_ok_def bitmap_wf_def bitmap_cap_def)
  moreover have "allocate_pid sample_pids =
      Inr (4, sample_pids\<lparr>pid_bitmap := \<lparr>btmp_bytes_len = 128, bits = 15 # replicate 127 0\<rparr>\<rparr>)"
    by code_simp
  ultimately show ?thesis using pid_roundtrip [of sample_pids 4] by blast
qed

end
