(* ===== verification/Task.thy ===== *)
theory Task
  imports Pid Pipe_Calls Sys_Free Stdio
begin

text \<open>
  The rest of \<open>thread/thread.c\<close> and of \<open>userprog/process.c\<close>: making, listing and removing threads and
  processes. The state joins the scheduler's with the pool of process numbers, the memory module,
  the file system and the parts of a PCB page that \<open>Sched\<close> leaves out (the map of user pages with
  the address of its bits, the block descriptors, and the words of the kernel stack). A call of the
  memory module or of the file system acts on the fields of the running thread.
\<close>

section \<open>State\<close>

record proc = ksched +
  pids :: pid_pool
  pmm :: mm
  pfs :: fs
  user_vaddr :: "tid \<Rightarrow> virtual_addr"
  user_bits_at :: "tid \<Rightarrow> u32"
  user_descs :: "tid \<Rightarrow> mem_block_desc list"
  stacks :: "u32 \<Rightarrow> u32"
  code_at :: "string \<Rightarrow> u32"

definition pid_call :: "(pid_pool, 'a) km \<Rightarrow> (proc, 'a) km" where
  "pid_call m = (\<lambda>s. case m (pids s) of Inl e \<Rightarrow> Inl e | Inr (x, p) \<Rightarrow> Inr (x, s\<lparr>pids := p\<rparr>))"

text \<open>The memory module's view of the state: the fields of the running thread.\<close>

definition mm_of :: "proc \<Rightarrow> task \<Rightarrow> mm" where
  "mm_of s p = (pmm s)\<lparr>mm.cr3 := ksched.cr3 s, mm.pgdir := task.pgdir p,
     userprog_vaddr := user_vaddr s (running s), u_block_desc := user_descs s (running s)\<rparr>"

definition with_mm :: "proc \<Rightarrow> mm \<Rightarrow> proc" where
  "with_mm s m = s\<lparr>ksched.cr3 := mm.cr3 m, pmm := m, user_vaddr := (user_vaddr s)(running s := userprog_vaddr m),
     user_descs := (user_descs s)(running s := u_block_desc m)\<rparr>"

definition mm_call :: "(mm, 'a) km \<Rightarrow> (proc, 'a) km" where
  "mm_call m = bnd (gets running) (\<lambda>cur. bnd (task_of cur) (\<lambda>p.
     (\<lambda>s. case m (mm_of s p) of Inl e \<Rightarrow> Inl e | Inr (x, m') \<Rightarrow> Inr (x, with_mm s m'))))"

definition fs_of :: "proc \<Rightarrow> task \<Rightarrow> fs" where
  "fs_of s p = (pfs s)\<lparr>p_fd_table := fd_table p, p_cwd_inode_no := cwd_inode_no p\<rparr>"

text \<open>The calls of the file system made below wake no thread.\<close>

definition fs_call :: "(fs, 'a) km \<Rightarrow> (proc, 'a) km" where
  "fs_call m = bnd (gets running) (\<lambda>cur. bnd (task_of cur) (\<lambda>p.
     (\<lambda>s. case m (fs_of s p) of Inl e \<Rightarrow> Inl e
        | Inr (x, f) \<Rightarrow> Inr (x, s\<lparr>pfs := f, tasks := (tasks s)(cur \<mapsto>
            p\<lparr>fd_table := p_fd_table f, cwd_inode_no := p_cwd_inode_no f\<rparr>)\<rparr>))))"

text \<open>
  A call of the scheduler, which translates the addresses of page directories with the page tables
  as they are (an address without a translation, where the processor would fault, gives 0).
\<close>

definition sched_call :: "(proc, 'a) km \<Rightarrow> (proc, 'a) km" where
  "sched_call m = bnd (modify (\<lambda>s. s\<lparr>ksched.addr_v2p := (\<lambda>va.
     case Paging.addr_v2p va ((pmm s)\<lparr>mm.cr3 := ksched.cr3 s\<rparr>) of Inl e \<Rightarrow> 0 | Inr (pa, _) \<Rightarrow> pa)\<rparr>)) (\<lambda>_. m)"

section \<open>PCBs and stacks\<close>

definition set_pcb :: "tid \<Rightarrow> task \<Rightarrow> (proc, unit) km" where
  "set_pcb t p = modify (\<lambda>s. s\<lparr>tasks := (tasks s)(t \<mapsto> p)\<rparr>)"

definition set_word :: "u32 \<Rightarrow> u32 \<Rightarrow> (proc, unit) km" where
  "set_word a w = modify (\<lambda>s. s\<lparr>stacks := (stacks s)(a := w)\<rparr>)"

text \<open>Storing words at rising addresses.\<close>

fun set_words :: "u32 \<Rightarrow> u32 list \<Rightarrow> (proc, unit) km" where
  "set_words a [] = ret ()"
| "set_words a (w # ws) = bnd (set_word a w) (\<lambda>_. set_words (a + 4) ws)"

text \<open>The sizes of \<open>struct intr_stack\<close> and \<open>struct thread_stack\<close>, and offsets of members.\<close>

definition intr_stack_size :: u32 where "intr_stack_size = 76"
definition thread_stack_size :: u32 where "thread_stack_size = 32"

definition off_edi :: u32 where "off_edi = 4"
definition off_ebx :: u32 where "off_ebx = 20"
definition off_ecx :: u32 where "off_ecx = 28"
definition off_eax :: u32 where "off_eax = 32"
definition off_gs :: u32 where "off_gs = 36"
definition off_eip :: u32 where "off_eip = 56"
definition off_esp :: u32 where "off_esp = 68"

definition no_vaddr :: virtual_addr where
  "no_vaddr = \<lparr>vaddr_bitmap = \<lparr>btmp_bytes_len = 0, bits = []\<rparr>, vaddr_start = 0\<rparr>"

definition no_desc :: mem_block_desc where
  "no_desc = \<lparr>block_size = 0, blocks_per_arena = 0, free_list = []\<rparr>"

text \<open>\<open>memset\<close> of the PCB clears the fields that are not set below.\<close>

definition init_thread :: "tid \<Rightarrow> u8 list \<Rightarrow> u8 \<Rightarrow> (proc, unit) km" where
  "init_thread pthread name prio =
     (if pthread = 0 then fail (Fault ''NULL'')
      else
        bnd (modify (\<lambda>s. s\<lparr>user_vaddr := (user_vaddr s)(pthread := no_vaddr),
              user_bits_at := (user_bits_at s)(pthread := 0),
              user_descs := (user_descs s)(pthread := replicate 7 no_desc)\<rparr>)) (\<lambda>_.
        bnd (pid_call allocate_pid) (\<lambda>no.
        bnd (liftr (strcpy (replicate 16 0) name)) (\<lambda>name.
        bnd (gets main_thread) (\<lambda>main.
        set_pcb pthread \<lparr>self_kstack = pthread + 4096, pid = no,
          status = (if pthread = main then TASK_RUNNING else TASK_READY), tname = name,
          priority = prio, ticks = prio, elapsed_ticks = 0,
          fd_table = [0, 1, 2, -1, -1, -1, -1, -1], pgdir = 0, cwd_inode_no = 0, parent_pid = -1,
          exit_status = 0, stack_magic = 0x19870916, resume_if = INTR_ON\<rparr>)))))"

text \<open>
  \<open>self_kstack\<close> points to words, so subtracting a size in bytes moves it four times as far. The
  first switch to the thread enters \<open>kernel_thread\<close>, which turns interrupts on (\<open>resume_if\<close> above) and
  calls \<open>function(func_arg)\<close>.
\<close>

definition thread_create :: "tid \<Rightarrow> u32 \<Rightarrow> u32 \<Rightarrow> (proc, unit) km" where
  "thread_create pthread func func_arg =
     bnd (task_of pthread) (\<lambda>p.
     let kstack = self_kstack p - 4 * intr_stack_size - 4 * thread_stack_size
     in bnd (set_pcb pthread (p\<lparr>self_kstack := kstack\<rparr>)) (\<lambda>_.
        bnd (gets (\<lambda>s. code_at s ''kernel_thread'')) (\<lambda>kernel_thread.
        bnd (set_words kstack [0, 0, 0, 0, kernel_thread]) (\<lambda>_.
        set_words (kstack + 24) [func, func_arg]))))"

definition all_append :: "tid \<Rightarrow> (proc, unit) km" where
  "all_append t =
     bnd (gets thread_all_list) (\<lambda>ts.
     bnd (kassert ''!elem_find(&thread_all_list, &thread->all_list_tag)'' (t \<notin> set ts)) (\<lambda>_.
     modify (\<lambda>s. s\<lparr>thread_all_list := thread_all_list s @ [t]\<rparr>)))"

text \<open>Entering a new thread into both lists.\<close>

definition enlist :: "tid \<Rightarrow> (proc, unit) km" where
  "enlist t =
     bnd (gets thread_ready_list) (\<lambda>ready.
     bnd (kassert ''!elem_find(&thread_ready_list, &thread->general_tag)'' (t \<notin> set ready)) (\<lambda>_.
     bnd (ready_append t) (\<lambda>_. all_append t)))"

definition thread_start :: "u8 list \<Rightarrow> u8 \<Rightarrow> u32 \<Rightarrow> u32 \<Rightarrow> (proc, tid) km" where
  "thread_start name prio func func_arg =
     bnd (mm_call (get_kernel_pages 1)) (\<lambda>thread.
     bnd (init_thread thread name prio) (\<lambda>_.
     bnd (thread_create thread func func_arg) (\<lambda>_.
     bnd (enlist thread) (\<lambda>_. ret thread))))"

definition make_main_thread :: "(proc, unit) km" where
  "make_main_thread =
     bnd (gets running) (\<lambda>t.
     bnd (modify (\<lambda>s. s\<lparr>main_thread := t\<rparr>)) (\<lambda>_.
     bnd (init_thread t (cstring ''main'') 31) (\<lambda>_.
     all_append t)))"

section \<open>Processes\<close>

definition USER_VADDR_START :: u32 where "USER_VADDR_START = 0x8048000"
definition USER_STACK3_VADDR :: u32 where "USER_STACK3_VADDR = 0xc0000000 - 0x1000"
definition default_prio :: u8 where "default_prio = 31"

text \<open>The bytes of the map of user pages, and the pages they take.\<close>

definition user_bytes :: u32 where
  "user_bytes = (0xc0000000 - USER_VADDR_START) div 4096 div 8"

definition bitmap_pg_cnt :: u32 where
  "bitmap_pg_cnt = (user_bytes + 4096 - 1) div 4096"

definition create_user_vaddr_bitmap :: "tid \<Rightarrow> (proc, unit) km" where
  "create_user_vaddr_bitmap t =
     bnd (mm_call (get_kernel_pages bitmap_pg_cnt)) (\<lambda>vaddr.
     bnd (liftr (bitmap_init \<lparr>btmp_bytes_len = user_bytes, bits = replicate (unat (4096 * bitmap_pg_cnt)) 0\<rparr>)) (\<lambda>b.
     modify (\<lambda>s. s\<lparr>user_vaddr := (user_vaddr s)(t := \<lparr>vaddr_bitmap = b, vaddr_start = USER_VADDR_START\<rparr>),
       user_bits_at := (user_bits_at s)(t := vaddr)\<rparr>)))"

definition process_execute :: "u32 \<Rightarrow> u8 list \<Rightarrow> (proc, unit) km" where
  "process_execute prog name =
     bnd (mm_call (get_kernel_pages 1)) (\<lambda>thread.
     bnd (init_thread thread name default_prio) (\<lambda>_.
     bnd (create_user_vaddr_bitmap thread) (\<lambda>_.
     bnd (gets (\<lambda>s. code_at s ''start_process'')) (\<lambda>start_process.
     bnd (thread_create thread start_process prog) (\<lambda>_.
     bnd (mm_call create_page_dir) (\<lambda>dir.
     bnd (upd_task thread (\<lambda>p. p\<lparr>task.pgdir := dir\<rparr>)) (\<lambda>_.
     bnd (modify (\<lambda>s. s\<lparr>user_descs := (user_descs s)(thread := block_desc_init)\<rparr>)) (\<lambda>_.
     bnd irq_disable (\<lambda>old_status.
     bnd (enlist thread) (\<lambda>_.
     irq_set_status old_status))))))))))"

text \<open>The first frame of a process, from which \<open>intr_exit\<close> enters user mode.\<close>

definition start_process :: "u32 \<Rightarrow> (proc, unit) km" where
  "start_process prog =
     bnd (gets running) (\<lambda>cur.
     bnd (upd_task cur (\<lambda>p. p\<lparr>self_kstack := self_kstack p + 4 * thread_stack_size\<rparr>)) (\<lambda>_.
     bnd (task_of cur) (\<lambda>p.
     let proc_stack = self_kstack p
     in bnd (set_words (proc_stack + off_edi) [0, 0, 0, 0, 0, 0, 0, 0]) (\<lambda>_.
        bnd (set_words (proc_stack + off_gs) [0, 0x33, 0x33, 0x33]) (\<lambda>_.
        bnd (set_words (proc_stack + off_eip) [prog, 0x2b, 0x202]) (\<lambda>_.
        bnd (mm_call (get_a_page PF_USER USER_STACK3_VADDR)) (\<lambda>page.
        set_words (proc_stack + off_esp) [page + 4096, 0x33])))))))"

section \<open>Leaving\<close>

text \<open>\<open>list_remove\<close> follows the links of the element; one that is in no list has none.\<close>

definition all_remove :: "tid \<Rightarrow> (proc, unit) km" where
  "all_remove t =
     bnd (gets thread_all_list) (\<lambda>ts.
     if t \<in> set ts then modify (\<lambda>s. s\<lparr>thread_all_list := remove1 t (thread_all_list s)\<rparr>)
     else fail (Fault ''list_remove''))"

text \<open>
  The number is read from the PCB after its page was given back; it is still there because
  \<open>page_table_pte_remove\<close> does not drop the translation from the processor's cache.
\<close>

definition thread_exit :: "tid \<Rightarrow> bool \<Rightarrow> (proc, unit) km" where
  "thread_exit thread_over need_schedule =
     bnd irq_disable (\<lambda>_.
     bnd (upd_task thread_over (\<lambda>p. p\<lparr>status := TASK_DIED\<rparr>)) (\<lambda>_.
     bnd (modify (\<lambda>s. s\<lparr>thread_ready_list := remove1 thread_over (thread_ready_list s)\<rparr>)) (\<lambda>_.
     bnd (task_of thread_over) (\<lambda>p.
     bnd (whenm (task.pgdir p \<noteq> 0) (mm_call (mfree_page PF_KERNEL (task.pgdir p) 1))) (\<lambda>_.
     bnd (all_remove thread_over) (\<lambda>_.
     bnd (gets main_thread) (\<lambda>main.
     bnd (whenm (thread_over \<noteq> main) (mm_call (mfree_page PF_KERNEL thread_over 1))) (\<lambda>_.
     bnd (pid_call (release_pid (pid p))) (\<lambda>_.
     if need_schedule then sched_call (bnd schedule (\<lambda>_. resume))
     else ret ())))))))))"

definition pid_check :: "tid \<Rightarrow> u32 \<Rightarrow> (proc, bool) km" where
  "pid_check t no = bnd (task_of t) (\<lambda>p. ret (scast (pid p) = no))"

text \<open>\<open>list_traversal\<close> with a callback that only looks.\<close>

fun traverse :: "(tid \<Rightarrow> (proc, bool) km) \<Rightarrow> tid list \<Rightarrow> (proc, tid option) km" where
  "traverse f [] = ret None"
| "traverse f (t # ts) = bnd (f t) (\<lambda>hit. if hit then ret (Some t) else traverse f ts)"

definition pid2thread :: "u32 \<Rightarrow> (proc, tid option) km" where
  "pid2thread no = bnd (gets thread_all_list) (traverse (\<lambda>t. pid_check t no))"

section \<open>Initialisation\<close>

definition thread_init :: "(proc, unit) km" where
  "thread_init =
     bnd (modify (\<lambda>s. s\<lparr>thread_ready_list := [], thread_all_list := []\<rparr>)) (\<lambda>_.
     bnd (pid_call pid_pool_init) (\<lambda>_.
     bnd (gets (\<lambda>s. code_at s ''init'')) (\<lambda>init.
     bnd (process_execute init (cstring ''init'')) (\<lambda>_.
     bnd make_main_thread (\<lambda>_.
     bnd (gets (\<lambda>s. code_at s ''idle'')) (\<lambda>idle.
     bnd (thread_start (cstring ''idle'') 10 idle 0) (\<lambda>t.
     modify (\<lambda>s. s\<lparr>idle_thread := t\<rparr>))))))))"

end
