(* ===== verification/Ps.thy ===== *)
theory Ps
  imports Task
begin

text \<open>The task list of \<open>thread/thread.c\<close>: \<open>sys_ps\<close>.\<close>

section \<open>Padded columns\<close>

text \<open>
  What the pointer argument shows: a string, or the 16 and 32 bits at the address. The case \<open>d\<close> falls
  through to the case \<open>x\<close>, which prints over it.
\<close>

definition pad_sprintf :: "u8 list \<Rightarrow> string \<Rightarrow> va_slot \<Rightarrow> (u8 \<times> u8 list) res" where
  "pad_sprintf buf fmt v = rbind (sprintf buf (cstring fmt) [v]) (\<lambda>(n, buf). Inr (ucast n, buf))"

datatype pad_arg = Pad_s "u8 list" | Pad_d u16 u32 | Pad_x u32

definition pad_text :: "u8 list \<Rightarrow> pad_arg \<Rightarrow> (u8 \<times> u8 list) res" where
  "pad_text buf a = (case a of
       Pad_s t \<Rightarrow> pad_sprintf buf ''%s'' (VaStr t)
     | Pad_d h w \<Rightarrow> rbind (pad_sprintf buf ''%d'' (VaInt (scast h))) (\<lambda>(_, buf). pad_sprintf buf ''%x'' (VaInt w))
     | Pad_x w \<Rightarrow> pad_sprintf buf ''%x'' (VaInt w))"

text \<open>The loop that fills the rest of the buffer with spaces.\<close>

definition pad_fill :: "u8 list \<Rightarrow> u8 \<Rightarrow> u8 list" where
  "pad_fill buf n = take (unat n) buf @ replicate (length buf - unat n) (asc CHR '' '')"

definition pad_print :: "u8 list \<Rightarrow> pad_arg \<Rightarrow> (proc, u8 list) km" where
  "pad_print buf a =
     bnd (liftr (pad_text (replicate (length buf) 0) a)) (\<lambda>(n, buf).
     let buf = pad_fill buf n
     in bnd (fs_call (sys_write 1 buf (of_nat (length buf - 1)))) (\<lambda>_. ret buf))"

definition status_text :: "task_status \<Rightarrow> string" where
  "status_text st = (case st of TASK_RUNNING \<Rightarrow> ''RUNNING'' | TASK_READY \<Rightarrow> ''READY'' | TASK_BLOCKED \<Rightarrow> ''BLOCKED''
     | TASK_WAITING \<Rightarrow> ''WAITING'' | TASK_HANGING \<Rightarrow> ''HANGING'' | TASK_DIED \<Rightarrow> ''DIED'')"

text \<open>The 32 bits at the address of \<open>pid\<close> are the number and two bytes of padding, which are zero.\<close>

definition elem2thread_info :: "tid \<Rightarrow> (proc, bool) km" where
  "elem2thread_info t =
     bnd (task_of t) (\<lambda>p.
     bnd (pad_print (replicate 16 0) (Pad_d (pid p) (ucast (pid p)))) (\<lambda>out_pad.
     bnd (pad_print out_pad (if parent_pid p = -1 then Pad_s (cstring ''NULL'')
            else Pad_d (ucast (parent_pid p)) (parent_pid p))) (\<lambda>out_pad.
     bnd (pad_print out_pad (Pad_s (cstring (status_text (status p))))) (\<lambda>out_pad.
     bnd (pad_print out_pad (Pad_x (elapsed_ticks p))) (\<lambda>_.
     bnd (liftr (strlen (tname p))) (\<lambda>n.
     bnd (kassert ''strlen(pthread->name) < 17'' (n < 17)) (\<lambda>_.
     bnd (liftr (memcpy (replicate 16 0) (tname p) (unat n))) (\<lambda>out_pad.
     bnd (liftr (strcat out_pad [10, 0])) (\<lambda>out_pad.
     bnd (liftr (strlen out_pad)) (\<lambda>n.
     bnd (fs_call (sys_write 1 out_pad n)) (\<lambda>_. ret False)))))))))))"

definition ps_title :: "u8 list" where
  "ps_title = cbytes ''PID            PPID           STAT           TICKS          COMMAND'' @ [10, 0]"

definition sys_ps :: "(proc, unit) km" where
  "sys_ps =
     bnd (liftr (strlen ps_title)) (\<lambda>n.
     bnd (fs_call (sys_write 1 ps_title n)) (\<lambda>_.
     bnd (gets thread_all_list) (\<lambda>all.
     bnd (traverse elem2thread_info all) (\<lambda>_. ret ()))))"

end
