(* ===== verification/Exec.thy ===== *)
theory Exec
  imports Task
begin

text \<open>
  \<open>userprog/exec.c\<close>: loading a 32-bit ELF file into the address space of the running process and
  entering it.
\<close>

section \<open>Headers\<close>

definition bytes_u16 :: "u8 list \<Rightarrow> u16" where
  "bytes_u16 bs = ucast (bs ! 0) OR push_bit 8 (ucast (bs ! 1))"

record elf32_ehdr =
  e_ident :: "u8 list"
  e_type :: u16
  e_machine :: u16
  e_version :: u32
  e_entry :: u32
  e_phoff :: u32
  e_phentsize :: u16
  e_phnum :: u16

record elf32_phdr =
  p_type :: u32
  p_offset :: u32
  p_vaddr :: u32
  p_filesz :: u32

definition bytes_ehdr :: "u8 list \<Rightarrow> elf32_ehdr" where
  "bytes_ehdr b = \<lparr>e_ident = take 16 b, e_type = bytes_u16 (slice 16 2 b), e_machine = bytes_u16 (slice 18 2 b),
     e_version = bytes_u32 (slice 20 4 b), e_entry = bytes_u32 (slice 24 4 b), e_phoff = bytes_u32 (slice 28 4 b),
     e_phentsize = bytes_u16 (slice 42 2 b), e_phnum = bytes_u16 (slice 44 2 b)\<rparr>"

definition bytes_phdr :: "u8 list \<Rightarrow> elf32_phdr" where
  "bytes_phdr b = \<lparr>p_type = bytes_u32 (slice 0 4 b), p_offset = bytes_u32 (slice 4 4 b),
     p_vaddr = bytes_u32 (slice 8 4 b), p_filesz = bytes_u32 (slice 16 4 b)\<rparr>"

text \<open>The check of the header: true when it fails.\<close>

definition bad_header :: "elf32_ehdr \<Rightarrow> bool" where
  "bad_header h \<longleftrightarrow> take 7 (e_ident h) \<noteq> [0x7f, 0x45, 0x4c, 0x46, 1, 1, 1] \<or> e_type h \<noteq> 2 \<or> e_machine h \<noteq> 3 \<or>
     e_version h \<noteq> 1 \<or> e_phnum h > 1024 \<or> e_phentsize h \<noteq> 32"

section \<open>Segments\<close>

definition occupy_pages :: "u32 \<Rightarrow> u32 \<Rightarrow> u32" where
  "occupy_pages vaddr filesz =
     (let size_in_first_page = 4096 - (vaddr AND 0xFFF)
      in if filesz > size_in_first_page
         then (filesz - size_in_first_page + 4096 - 1) div 4096 + 1
         else 1)"

fun segment_pages :: "nat \<Rightarrow> u32 \<Rightarrow> (mm, bool) km" where
  "segment_pages 0 vaddr_page = ret True"
| "segment_pages (Suc n) vaddr_page =
     bnd (load (pde_ptr vaddr_page)) (\<lambda>pde.
     bnd (if present pde then bnd (load (pte_ptr vaddr_page)) (\<lambda>pte. ret (present pte)) else ret False) (\<lambda>there.
     if there then segment_pages n (vaddr_page + 4096)
     else bnd (get_a_page PF_USER vaddr_page) (\<lambda>page.
          if page = 0 then ret False else segment_pages n (vaddr_page + 4096))))"

text \<open>The bytes that \<open>sys_read\<close> stores at an address of the process.\<close>

definition store_byte :: "u32 \<Rightarrow> u8 \<Rightarrow> (mm, unit) km" where
  "store_byte va b = (\<lambda>s. case mmu s va of None \<Rightarrow> Inl (Fault ''page fault'')
     | Some pa \<Rightarrow> let a = pa AND NOT 3; sh = 8 * unat (pa AND 3)
         in Inr ((), s\<lparr>ram := (ram s)(a := (ram s a AND NOT (push_bit sh 0xFF)) OR push_bit sh (ucast b))\<rparr>))"

fun store_bytes :: "u32 \<Rightarrow> u8 list \<Rightarrow> (mm, unit) km" where
  "store_bytes va [] = ret ()"
| "store_bytes va (b # bs) = bnd (store_byte va b) (\<lambda>_. store_bytes (va + 1) bs)"

definition segment_load :: "s32 \<Rightarrow> u32 \<Rightarrow> u32 \<Rightarrow> u32 \<Rightarrow> (proc, bool) km" where
  "segment_load fd offset filesz vaddr =
     bnd (mm_call (segment_pages (unat (occupy_pages vaddr filesz)) (vaddr AND 0xFFFFF000))) (\<lambda>ok.
     if \<not> ok then ret False
     else
       bnd (fs_call (sys_Iseek fd offset 1)) (\<lambda>_.
       bnd (fs_call (sys_read fd [] filesz)) (\<lambda>(_, bytes).
       bnd (mm_call (store_bytes vaddr bytes)) (\<lambda>_. ret True))))"

section \<open>Loading a file\<close>

fun load_segments :: "s32 \<Rightarrow> nat \<Rightarrow> u32 \<Rightarrow> u16 \<Rightarrow> (proc, bool) km" where
  "load_segments fd 0 prog_header_offset prog_header_size = ret True"
| "load_segments fd (Suc n) prog_header_offset prog_header_size =
     bnd (fs_call (sys_Iseek fd prog_header_offset 1)) (\<lambda>_.
     bnd (fs_call (sys_read fd [] (ucast prog_header_size))) (\<lambda>(r, bytes).
     if r \<noteq> ucast prog_header_size then ret False
     else
       let h = bytes_phdr bytes
       in bnd (if p_type h = 1 then segment_load fd (p_offset h) (p_filesz h) (p_vaddr h) else ret True) (\<lambda>ok.
          if \<not> ok then ret False
          else load_segments fd n (prog_header_offset + ucast prog_header_size) prog_header_size)))"

definition load_elf :: "u8 list \<Rightarrow> (proc, s32) km" where
  "load_elf pathname =
     bnd (fs_call (sys_open pathname 0)) (\<lambda>fd.
     if fd = -1 then ret (-1)
     else
       bnd (bnd (fs_call (sys_read fd [] 52)) (\<lambda>(r, bytes).
            let h = bytes_ehdr bytes
            in if r \<noteq> 52 then ret (-1)
               else if bad_header h then ret (-1)
               else bnd (load_segments fd (unat (e_phnum h)) (e_phoff h) (e_phentsize h)) (\<lambda>ok.
                    ret (if ok then e_entry h else -1)))) (\<lambda>r.
       bnd (fs_call (sys_close fd)) (\<lambda>_. ret r)))"

text \<open>Counting the pointers of \<open>argv\<close>, in the process's memory, up to a null pointer.\<close>

partial_function (option) count_args :: "u32 \<Rightarrow> u32 \<Rightarrow> mm \<Rightarrow> (err + (u32 \<times> mm)) option" where
  "count_args argv argc s =
     (case load (argv + 4 * argc) s of
        Inl e \<Rightarrow> Some (Inl e)
      | Inr (w, s) \<Rightarrow> if w = 0 then Some (Inr (argc, s)) else count_args argv (argc + 1) s)"

text \<open>The answer is what the call returns, or \<open>None\<close> when it leaves through \<open>intr_exit\<close>.\<close>

definition sys_execv :: "u8 list \<Rightarrow> u32 \<Rightarrow> (proc, s32 option) km" where
  "sys_execv path argv =
     bnd (mm_call (\<lambda>m. case count_args argv 0 m of None \<Rightarrow> Inl Hang | Some r \<Rightarrow> r)) (\<lambda>argc.
     bnd (load_elf path) (\<lambda>entry_point.
     if entry_point = -1 then ret (Some (-1))
     else
       bnd (gets running) (\<lambda>cur.
       bnd (liftr (buf_read 0 16 path)) (\<lambda>name.
       bnd (upd_task cur (\<lambda>p. p\<lparr>tname := name[15 := 0]\<rparr>)) (\<lambda>_.
       let intr_0_stack = cur + 4096 - intr_stack_size
       in bnd (set_word (intr_0_stack + off_ebx) argv) (\<lambda>_.
          bnd (set_word (intr_0_stack + off_ecx) argc) (\<lambda>_.
          bnd (set_word (intr_0_stack + off_eip) entry_point) (\<lambda>_.
          bnd (set_word (intr_0_stack + off_esp) 0xC0000000) (\<lambda>_. ret None)))))))))"

end
