(* ===== verification/Wait_Exit.thy ===== *)
theory Wait_Exit
  imports Task
begin

text \<open>
  \<open>userprog/wait_exit.c\<close>: a process gives its resources back and stays, hanging, until its parent
  has waited for it; its children go to the first process.
\<close>

section \<open>Releasing a process's resources\<close>

text \<open>The loop over the entries of one page table, the first of them at \<open>first_pte\<close>.\<close>

fun free_ptes :: "u32 \<Rightarrow> nat list \<Rightarrow> (mm, unit) km" where
  "free_ptes first_pte [] = ret ()"
| "free_ptes first_pte (pte_idx # idxs) =
     bnd (load (first_pte + 4 * of_nat pte_idx)) (\<lambda>pte.
     bnd (whenm (present pte) (free_a_phy_page (pte AND 0xFFFFF000))) (\<lambda>_.
     free_ptes first_pte idxs))"

text \<open>The loop over the entries of the page directory.\<close>

fun free_pdes :: "u32 \<Rightarrow> nat list \<Rightarrow> (mm, unit) km" where
  "free_pdes pgdir_vaddr [] = ret ()"
| "free_pdes pgdir_vaddr (pde_idx # idxs) =
     bnd (load (pgdir_vaddr + 4 * of_nat pde_idx)) (\<lambda>pde.
     bnd (whenm (present pde)
       (bnd (free_ptes (pte_ptr (of_nat pde_idx * 0x400000)) [0..<1024]) (\<lambda>_.
        free_a_phy_page (pde AND 0xFFFFF000)))) (\<lambda>_.
     free_pdes pgdir_vaddr idxs))"

text \<open>The files; a pipe's descriptor is not cleared. \<open>fd_table\<close> is the running process's.\<close>

fun release_files :: "nat list \<Rightarrow> (fs, unit) km" where
  "release_files [] = ret ()"
| "release_files (fd_idx # idxs) =
     bnd (gets p_fd_table) (\<lambda>fds.
     let fd = of_nat fd_idx in
     bnd (whenm (fds ! fd_idx \<noteq> -1)
       (bnd (is_pipe fd) (\<lambda>pipe.
        if pipe
        then bnd (fd_local2global fd) (\<lambda>g.
             bnd (upd_file (unat g) (\<lambda>f. f\<lparr>fd_pos := fd_pos f - 1\<rparr>)) (\<lambda>_.
             bnd (get_file (unat g)) (\<lambda>f.
             whenm (fd_pos f = 0)
               (bnd (get_pipe (fd_inode f)) (\<lambda>_.
                bnd (modify (\<lambda>s. s\<lparr>pipes := (pipes s)(fd_inode f := None)\<rparr>)) (\<lambda>_.
                upd_file (unat g) (\<lambda>f. f\<lparr>fd_inode := 0\<rparr>)))))))
        else bnd (sys_close fd) (\<lambda>_. ret ())))) (\<lambda>_.
     release_files idxs))"

text \<open>
  It is called by the process itself. The division gives one page less than the map of user pages
  was given.
\<close>

definition release_prog_resource :: "tid \<Rightarrow> (proc, unit) km" where
  "release_prog_resource release_thread =
     bnd (task_of release_thread) (\<lambda>p.
     bnd (mm_call (free_pdes (task.pgdir p) [0..<768])) (\<lambda>_.
     bnd (gets (\<lambda>s. btmp_bytes_len (vaddr_bitmap (user_vaddr s release_thread)) div 4096)) (\<lambda>cnt.
     bnd (gets (\<lambda>s. user_bits_at s release_thread)) (\<lambda>user_vaddr_pool_bitmap.
     bnd (mm_call (mfree_page PF_KERNEL user_vaddr_pool_bitmap cnt)) (\<lambda>_.
     fs_call (release_files [3..<MAX_FILES_OPEN_PER_PROC]))))))"

section \<open>The process tree\<close>

definition find_child :: "tid \<Rightarrow> u32 \<Rightarrow> (proc, bool) km" where
  "find_child t ppid = bnd (task_of t) (\<lambda>pcb. ret (parent_pid pcb = ppid))"

definition find_hanging_child :: "tid \<Rightarrow> u32 \<Rightarrow> (proc, bool) km" where
  "find_hanging_child t ppid =
     bnd (task_of t) (\<lambda>pthread. ret (parent_pid pthread = ppid \<and> status pthread = TASK_HANGING))"

definition init_adopt_achild :: "tid \<Rightarrow> u32 \<Rightarrow> (proc, bool) km" where
  "init_adopt_achild t no =
     bnd (task_of t) (\<lambda>pcb.
     bnd (whenm (parent_pid pcb = no) (upd_task t (\<lambda>p. p\<lparr>parent_pid := 1\<rparr>))) (\<lambda>_. ret False))"

definition status_code :: "task_status \<Rightarrow> s32" where
  "status_code st = (case st of TASK_RUNNING \<Rightarrow> 0 | TASK_READY \<Rightarrow> 1 | TASK_BLOCKED \<Rightarrow> 2 | TASK_WAITING \<Rightarrow> 3
     | TASK_HANGING \<Rightarrow> 4 | TASK_DIED \<Rightarrow> 5)"

text \<open>
  One pass of the loop of \<open>sys_wait\<close>: the child's number and what is stored in \<open>*status\<close>, \<open>No_child\<close>
  (the answer \<open>-1\<close>), or \<open>Asleep\<close> when the parent has blocked; it makes another pass when it is woken.
\<close>

datatype wait_result = Reaped u16 s32 | No_child | Asleep

definition sys_wait :: "(proc, wait_result) km" where
  "sys_wait =
     bnd (gets running) (\<lambda>parent.
     bnd (task_of parent) (\<lambda>parent_pcb.
     bnd (gets thread_all_list) (\<lambda>all.
     bnd (traverse (\<lambda>t. find_hanging_child t (scast (pid parent_pcb))) all) (\<lambda>hanging. case hanging of
       Some child \<Rightarrow>
         bnd (task_of child) (\<lambda>child_pcb.
         bnd (thread_exit child False) (\<lambda>_.
         ret (Reaped (pid child_pcb) (status_code (status child_pcb)))))
     | None \<Rightarrow>
         bnd (traverse (\<lambda>t. find_child t (scast (pid parent_pcb))) all) (\<lambda>child. case child of
           None \<Rightarrow> ret No_child
         | Some _ \<Rightarrow> bnd (sched_call (thread_block TASK_WAITING)) (\<lambda>_. ret Asleep))))))"

text \<open>The process never comes back from \<open>thread_block\<close>: nothing unblocks a hanging process.\<close>

definition sys_exit :: "s32 \<Rightarrow> (proc, unit) km" where
  "sys_exit st =
     bnd (gets running) (\<lambda>child.
     bnd (upd_task child (\<lambda>p. p\<lparr>exit_status := ucast st\<rparr>)) (\<lambda>_.
     bnd (task_of child) (\<lambda>child_pcb.
     if parent_pid child_pcb = -1 then fail (Panic ''sys_exit: child_pcb->parent_pid is -1'')
     else
       bnd (gets thread_all_list) (\<lambda>all.
       bnd (traverse (\<lambda>t. init_adopt_achild t (scast (pid child_pcb))) all) (\<lambda>_.
       bnd (release_prog_resource child) (\<lambda>_.
       bnd (task_of child) (\<lambda>child_pcb.
       bnd (pid2thread (parent_pid child_pcb)) (\<lambda>parent. case parent of
         None \<Rightarrow> fail (Fault ''NULL'')
       | Some parent \<Rightarrow>
           bnd (task_of parent) (\<lambda>parent_pcb.
           bnd (whenm (status parent_pcb = TASK_WAITING) (thread_unblock parent)) (\<lambda>_.
           sched_call (thread_block TASK_HANGING)))))))))))"

end
