(* ===== verification/Fork.thy ===== *)
theory Fork
  imports Task
begin

text \<open>
  \<open>userprog/fork.c\<close>: the child starts as a copy of the parent's PCB page, with its own map of user
  pages and page directory, sharing the parent's frames until one of the two writes. \<open>switch_in\<close> and
  \<open>user_regs\<close> are what \<open>switch_to\<close> and \<open>intr_exit\<close> (assembly) take from a kernel stack.
\<close>

section \<open>Copying the PCB page\<close>

text \<open>\<open>memcpy\<close> of the page: the PCB and the words of the kernel stack.\<close>

definition copy_pcb_page :: "tid \<Rightarrow> tid \<Rightarrow> (proc, unit) km" where
  "copy_pcb_page child parent =
     bnd (task_of parent) (\<lambda>p.
     bnd (set_pcb child p) (\<lambda>_.
     modify (\<lambda>s. s\<lparr>stacks := (\<lambda>a. if a - child < 4096 then stacks s (parent + (a - child)) else stacks s a),
       user_vaddr := (user_vaddr s)(child := user_vaddr s parent),
       user_bits_at := (user_bits_at s)(child := user_bits_at s parent),
       user_descs := (user_descs s)(child := user_descs s parent)\<rparr>)))"

text \<open>The list tags are cleared: the child is in no list. The answer is the code's.\<close>

definition copy_pcb_vaddrbitmap_stack0 :: "tid \<Rightarrow> tid \<Rightarrow> (proc, s32) km" where
  "copy_pcb_vaddrbitmap_stack0 child parent =
     bnd (copy_pcb_page child parent) (\<lambda>_.
     bnd (pid_call fork_pid) (\<lambda>no.
     bnd (task_of parent) (\<lambda>parent_thread.
     bnd (upd_task child (\<lambda>p. p\<lparr>pid := no, elapsed_ticks := 0, status := TASK_READY, ticks := priority p,
            parent_pid := scast (pid parent_thread), resume_if := INTR_ON\<rparr>)) (\<lambda>_.
     bnd (modify (\<lambda>s. s\<lparr>user_descs := (user_descs s)(child := block_desc_init)\<rparr>)) (\<lambda>_.
     bnd (mm_call (get_kernel_pages bitmap_pg_cnt)) (\<lambda>vaddr_btmp.
     if vaddr_btmp = 0 then ret (-1)
     else
       bnd (modify (\<lambda>s. s\<lparr>user_bits_at := (user_bits_at s)(child := vaddr_btmp)\<rparr>)) (\<lambda>_.
       bnd (task_of child) (\<lambda>p.
       bnd (liftr (strlen (tname p))) (\<lambda>n.
       bnd (kassert ''strlen(child_thread->name) < 16'' (n < 16)) (\<lambda>_.
       bnd (liftr (strcat (tname p) (cstring ''_fork''))) (\<lambda>name.
       bnd (set_pcb child (p\<lparr>tname := name\<rparr>)) (\<lambda>_. ret 0))))))))))))"

section \<open>Sharing the parent's pages\<close>

text \<open>The loops over the bytes and bits of the map, as one loop over the indices of the bits.\<close>

fun copy_tables :: "u32 \<Rightarrow> u32 \<Rightarrow> bitmap \<Rightarrow> u32 \<Rightarrow> nat list \<Rightarrow> (mm, unit) km" where
  "copy_tables child_dir par_dir b start [] = ret ()"
| "copy_tables child_dir par_dir b start (i # idxs) =
     bnd (whenm (used_bit b i)
       (full_childProcess_pageTable child_dir par_dir (start + of_nat i * 4096))) (\<lambda>_.
     copy_tables child_dir par_dir b start idxs)"

definition copy_page_tables :: "tid \<Rightarrow> tid \<Rightarrow> (proc, unit) km" where
  "copy_page_tables child parent =
     bnd (gets (\<lambda>s. user_vaddr s parent)) (\<lambda>v.
     bnd (task_of child) (\<lambda>c.
     bnd (task_of parent) (\<lambda>p.
     mm_call (copy_tables (task.pgdir c) (task.pgdir p) (vaddr_bitmap v) (vaddr_start v)
       [0..<8 * unat (btmp_bytes_len (vaddr_bitmap v))]))))"

text \<open>The older way, which copied every page through a page of the kernel (not called any more).\<close>

fun copy_bodies :: "u32 \<Rightarrow> u32 \<Rightarrow> u32 \<Rightarrow> bitmap \<Rightarrow> u32 \<Rightarrow> nat list \<Rightarrow> (mm, unit) km" where
  "copy_bodies child_dir par_dir buf_page b start [] = ret ()"
| "copy_bodies child_dir par_dir buf_page b start (i # idxs) =
     bnd (whenm (used_bit b i)
       (let prog_vaddr = of_nat i * 4096 + start
        in bnd (copy_page buf_page prog_vaddr) (\<lambda>_.
           bnd (Paging.page_dir_activate child_dir) (\<lambda>_.
           bnd (get_a_page_without_opvaddrbitmap PF_USER prog_vaddr) (\<lambda>_.
           bnd (copy_page prog_vaddr buf_page) (\<lambda>_.
           Paging.page_dir_activate par_dir)))))) (\<lambda>_.
     copy_bodies child_dir par_dir buf_page b start idxs)"

definition copy_body_stack3 :: "tid \<Rightarrow> tid \<Rightarrow> u32 \<Rightarrow> (proc, unit) km" where
  "copy_body_stack3 child parent buf_page =
     bnd (gets (\<lambda>s. user_vaddr s parent)) (\<lambda>v.
     bnd (task_of child) (\<lambda>c.
     bnd (task_of parent) (\<lambda>p.
     mm_call (copy_bodies (task.pgdir c) (task.pgdir p) buf_page (vaddr_bitmap v) (vaddr_start v)
       [0..<8 * unat (btmp_bytes_len (vaddr_bitmap v))]))))"

section \<open>The child's stack and files\<close>

definition build_child_stack :: "tid \<Rightarrow> (proc, unit) km" where
  "build_child_stack child =
     (let intr_0_stack = child + 4096 - intr_stack_size
      in bnd (set_word (intr_0_stack + off_eax) 0) (\<lambda>_.
         bnd (gets (\<lambda>s. code_at s ''intr_exit'')) (\<lambda>intr_exit.
         bnd (set_words (intr_0_stack - 5 * 4) [0, 0, 0, 0, intr_exit]) (\<lambda>_.
         upd_task child (\<lambda>p. p\<lparr>self_kstack := intr_0_stack - 5 * 4\<rparr>)))))"

text \<open>\<open>fds\<close> is the child's table; \<open>is_pipe\<close> looks at the running process's, the parent's.\<close>

fun update_open_cnts :: "s32 list \<Rightarrow> nat list \<Rightarrow> (fs, unit) km" where
  "update_open_cnts fds [] = ret ()"
| "update_open_cnts fds (local_fd # idxs) =
     (let global_fd = fds ! local_fd
      in bnd (kassert ''global_fd < MAX_FILE_OPEN'' (sint global_fd < int MAX_FILE_OPEN)) (\<lambda>_.
         bnd (whenm (global_fd \<noteq> -1)
           (bnd (is_pipe (of_nat local_fd)) (\<lambda>pipe.
            if pipe then upd_file (unat global_fd) (\<lambda>f. f\<lparr>fd_pos := fd_pos f + 1\<rparr>)
            else bnd (get_file (unat global_fd)) (\<lambda>f.
                 upd_inode (fd_inode f) (\<lambda>i. i\<lparr>i_open_cnts := i_open_cnts i + 1\<rparr>))))) (\<lambda>_.
         update_open_cnts fds idxs)))"

definition update_inode_open_cnts :: "tid \<Rightarrow> (proc, unit) km" where
  "update_inode_open_cnts pcb =
     bnd (task_of pcb) (\<lambda>p. fs_call (update_open_cnts (fd_table p) [3..<MAX_FILES_OPEN_PER_PROC]))"

section \<open>The system call\<close>

text \<open>The first test compares with 1, which \<open>copy_pcb_vaddrbitmap_stack0\<close> never answers.\<close>

definition copy_process :: "tid \<Rightarrow> tid \<Rightarrow> (proc, s32) km" where
  "copy_process child parent =
     bnd (copy_pcb_vaddrbitmap_stack0 child parent) (\<lambda>r.
     if r = 1 then ret (-1)
     else
       bnd (mm_call create_page_dir) (\<lambda>dir.
       bnd (upd_task child (\<lambda>p. p\<lparr>task.pgdir := dir\<rparr>)) (\<lambda>_.
       if dir = 0 then ret (-1)
       else
         bnd (copy_page_tables child parent) (\<lambda>_.
         bnd (build_child_stack child) (\<lambda>_.
         bnd (update_inode_open_cnts child) (\<lambda>_. ret 0))))))"

text \<open>The answer is a \<open>pid_t\<close>.\<close>

definition sys_fork :: "(proc, u16) km" where
  "sys_fork =
     bnd (gets running) (\<lambda>parent.
     bnd (mm_call (get_kernel_pages 1)) (\<lambda>child.
     if child = 0 then ret (-1)
     else
       bnd (gets cpu_if) (\<lambda>st.
       bnd (task_of parent) (\<lambda>p.
       bnd (kassert ''INTR_OFF == intr_get_status() && parent_thread->pgdir != NULL''
              (st = INTR_OFF \<and> task.pgdir p \<noteq> 0)) (\<lambda>_.
       bnd (copy_process child parent) (\<lambda>r.
       if r = -1 then ret (-1)
       else
         bnd (enlist child) (\<lambda>_.
         bnd (task_of child) (\<lambda>c. ret (pid c)))))))))"

section \<open>What the assembly takes from a kernel stack\<close>

text \<open>\<open>switch_to\<close> pops \<open>ebp\<close>, \<open>ebx\<close>, \<open>edi\<close>, \<open>esi\<close> and returns: the address it goes to and the new \<open>esp\<close>.\<close>

definition switch_in :: "proc \<Rightarrow> task \<Rightarrow> u32 \<times> u32" where
  "switch_in s p = (stacks s (self_kstack p + 16), self_kstack p + 20)"

text \<open>The registers that \<open>intr_exit\<close> loads from a frame at \<open>esp\<close>, all but the vector and the error code.\<close>

definition user_regs :: "proc \<Rightarrow> u32 \<Rightarrow> u32 list" where
  "user_regs s esp = List.map (\<lambda>k. stacks s (esp + of_nat (4 * k))) ([1..<13] @ [14..<19])"

end
