(* ===== verification/Stable.thy ===== *)
theory Stable
  imports Wait_Exit Fork
begin

text \<open>
  What operations leave alone: \<open>stable f m\<close> says that the computation \<open>m\<close>, when it comes to a result,
  has not changed \<open>f\<close> of the state. The rules follow the structure of a computation; the collection
  \<open>stable\<close> proves such facts by introduction.
\<close>

section \<open>Rules\<close>

definition stable :: "('s \<Rightarrow> 'b) \<Rightarrow> ('s, 'a) km \<Rightarrow> bool" where
  "stable f m \<longleftrightarrow> (\<forall>s x s'. m s = Inr (x, s') \<longrightarrow> f s' = f s)"

named_theorems stable \<open>rules for what an operation leaves alone\<close>

lemma stableD: "stable f m \<Longrightarrow> m s = Inr (x, s') \<Longrightarrow> f s' = f s"
  by (simp add: stable_def)

lemma stable_bnd [stable]: "stable f m \<Longrightarrow> (\<And>x. stable f (g x)) \<Longrightarrow> stable f (bnd m g)"
  unfolding stable_def by (auto simp: bnd_eq_Inr)

lemma stable_basic [stable]:
  "stable f (ret x)" "stable f (fail e)" "stable f (gets h)" "stable f (liftr r)" "stable f (kassert c b)"
  "(\<And>s. f (g s) = f s) \<Longrightarrow> stable f (modify g)"
  by (auto simp: stable_def liftr_def kassert_def split: sum.splits if_splits)

lemma stable_Inr [stable]: "stable f (\<lambda>s. Inr (x, s))"
  by (simp add: stable_def)

lemma stable_if [stable]: "stable f a \<Longrightarrow> stable f b \<Longrightarrow> stable f (if c then a else b)"
  by simp

lemma stable_whenm [stable]: "stable f a \<Longrightarrow> stable f (whenm c a)"
  by (cases c) (simp_all add: stable_def)

lemma stable_split [stable]: "(\<And>x y. stable f (g x y)) \<Longrightarrow> stable f (case p of (x, y) \<Rightarrow> g x y)"
  by (cases p) simp

lemma stable_option [stable]:
  "stable f a \<Longrightarrow> (\<And>x. stable f (g x)) \<Longrightarrow> stable f (case r of None \<Rightarrow> a | Some x \<Rightarrow> g x)"
  by (cases r) simp_all

lemma stable_Let [stable]: "(\<And>x. stable f (g x)) \<Longrightarrow> stable f (let x = e in g x)"
  by simp

section \<open>The memory module and the kernel's virtual pages\<close>

text \<open>Only the operations on runs of kernel pages change the map of the kernel's virtual pages.\<close>

lemma mm_stable [stable]:
  "stable kernel_vaddr (load va)" "stable kernel_vaddr (store va w)" "stable kernel_vaddr (zero_range va n)"
  "stable kernel_vaddr (copy_page d c)" "stable kernel_vaddr (get_mem pa)" "stable kernel_vaddr (set_mem pa v)"
  by (auto simp: stable_def load_def store_def zero_range_def copy_page_def get_mem_def set_mem_def
      split: option.splits if_splits prod.splits)

lemma upd_pool_vaddr [simp]: "kernel_vaddr (upd_pool pf f s) = kernel_vaddr s"
  by (cases pf) simp_all

lemma upd_vaddr_user [simp]: "kernel_vaddr (upd_vaddr PF_USER f s) = kernel_vaddr s"
  by simp

lemma pages_stable [stable]:
  "stable kernel_vaddr (pool_lock pf)" "stable kernel_vaddr (pool_unlock pf)"
  "stable kernel_vaddr (palloc pf)" "stable kernel_vaddr (free_a_phy_page pa)"
  "stable kernel_vaddr (page_table_add va pa fl)" "stable kernel_vaddr (Modify_PTE va pa fl)"
  "stable kernel_vaddr (page_table_pte_remove va)" "stable kernel_vaddr (Paging.addr_v2p va)"
  unfolding pool_lock_def pool_unlock_def
    palloc_def free_a_phy_page_def page_table_add_def Modify_PTE_def page_table_pte_remove_def Paging.addr_v2p_def
  by (auto intro!: stable)

lemma loops_stable [stable]:
  "stable kernel_vaddr (zero_pages va n)" "stable kernel_vaddr (copy_words d c n)"
  "stable kernel_vaddr (map_pages pf va n)" "stable kernel_vaddr (unmap_pages inp va n)"
  by (induction n arbitrary: va d c) (auto intro!: stable)

lemma switch_dir_stable [stable]:
  "stable kernel_vaddr (Paging.page_dir_activate dir)" "stable kernel_vaddr (full_childProcess_pageTable c p va)"
  unfolding Paging.page_dir_activate_def full_childProcess_pageTable_def by (auto intro!: stable)

lemma tables_stable [stable]:
  "stable kernel_vaddr (copy_tables c p b st is)" "stable kernel_vaddr (free_ptes first is)"
  by (induction "is") (auto intro!: stable)

lemma dirs_stable [stable]: "stable kernel_vaddr (free_pdes dir is)"
  by (induction "is") (auto intro!: stable)

section \<open>Runs of kernel pages\<close>

text \<open>The pages of a run, and the pages marked as used in a map of virtual pages.\<close>

definition run_of :: "u32 \<Rightarrow> nat \<Rightarrow> u32 set" where
  "run_of va n = page_at va ` {..<n}"

definition marked :: "virtual_addr \<Rightarrow> u32 set" where
  "marked v = page_at (vaddr_start v) ` {q. q \<le> bitmap_cap (vaddr_bitmap v) \<and> used_bit (vaddr_bitmap v) q}"

text \<open>A run inside the map; two maps of the same pages.\<close>

definition in_map :: "virtual_addr \<Rightarrow> u32 \<Rightarrow> nat \<Rightarrow> bool" where
  "in_map v va n \<longleftrightarrow> (\<exists>q. va = page_at (vaddr_start v) q \<and> q + n \<le> Suc (bitmap_cap (vaddr_bitmap v)))"

definition same_map :: "virtual_addr \<Rightarrow> virtual_addr \<Rightarrow> bool" where
  "same_map v v' \<longleftrightarrow> vaddr_start v' = vaddr_start v \<and> bitmap_cap (vaddr_bitmap v') = bitmap_cap (vaddr_bitmap v)"

lemma same_map_refl [simp]: "same_map v v"
  by (simp add: same_map_def)

lemma same_map_trans [trans]: "same_map u v \<Longrightarrow> same_map v w \<Longrightarrow> same_map u w"
  by (simp add: same_map_def)

lemma in_map_same: "same_map v v' \<Longrightarrow> in_map v' = in_map v"
  by (simp add: fun_eq_iff in_map_def same_map_def)

lemma page_at_inj:
  assumes "kv_ok v"
  shows "inj_on (page_at (vaddr_start v)) {..bitmap_cap (vaddr_bitmap v)}"
proof (rule inj_onI)
  fix i j
  assume "i \<in> {..bitmap_cap (vaddr_bitmap v)}" "j \<in> {..bitmap_cap (vaddr_bitmap v)}"
    and "page_at (vaddr_start v) i = page_at (vaddr_start v) j"
  then show "i = j"
    using page_run_distinct [of "vaddr_start v" "Suc (bitmap_cap (vaddr_bitmap v))" i j] assms
    by (simp add: kv_ok_def less_Suc_eq_le)
qed

lemma run_of_at: "run_of (page_at va q) n = page_at va ` {q..<q + n}"
proof -
  have "{q..<q + n} = (\<lambda>i. q + i) ` {..<n}" by (auto simp: image_iff Bex_def nat_le_iff_add)
  then show ?thesis by (simp add: run_of_def page_at_add image_image)
qed

lemma marked_nth:
  assumes "kv_ok v" and "q \<le> bitmap_cap (vaddr_bitmap v)"
  shows "page_at (vaddr_start v) q \<in> marked v \<longleftrightarrow> used_bit (vaddr_bitmap v) q"
  using inj_on_eq_iff [OF page_at_inj [OF assms(1)]] assms(2) by (auto simp: marked_def)

text \<open>A run of bits set or cleared, in terms of pages.\<close>

lemma marked_run:
  assumes kv: "kv_ok v" and same: "same_map v v'" and q: "q + n \<le> Suc (bitmap_cap (vaddr_bitmap v))"
    and bits: "\<forall>j \<le> bitmap_cap (vaddr_bitmap v). used_bit (vaddr_bitmap v') j \<longleftrightarrow>
      (if q \<le> j \<and> j < q + n then b else used_bit (vaddr_bitmap v) j)"
  shows "marked v' = (if b then marked v \<union> run_of (page_at (vaddr_start v) q) n
    else marked v - run_of (page_at (vaddr_start v) q) n)"
proof -
  let ?cap = "bitmap_cap (vaddr_bitmap v)" and ?at = "page_at (vaddr_start v)"
  have inj: "inj_on ?at {..?cap}" by (rule page_at_inj [OF kv])
  let ?old = "{j. j \<le> ?cap \<and> used_bit (vaddr_bitmap v) j}" and ?r = "{q..<q + n}"
  have new: "{j. j \<le> ?cap \<and> used_bit (vaddr_bitmap v') j} = (if b then ?old \<union> ?r else ?old - ?r)"
    using bits q by (cases b) (auto split: if_splits)
  have m: "marked v' = ?at ` {j. j \<le> ?cap \<and> used_bit (vaddr_bitmap v') j}"
    using same by (simp add: marked_def same_map_def)
  have "?at ` (?old - ?r) = ?at ` ?old - ?at ` ?r"
    using q by (intro inj_on_image_set_diff [OF inj]) auto
  then show ?thesis unfolding m new by (simp add: run_of_at image_Un marked_def)
qed

text \<open>What the operations on runs of kernel pages do to the map, when they come to a result.\<close>

definition pages_taken :: "virtual_addr \<Rightarrow> virtual_addr \<Rightarrow> u32 \<Rightarrow> nat \<Rightarrow> bool" where
  "pages_taken v v' va n \<longleftrightarrow> kv_ok v' \<and> same_map v v' \<and> va \<noteq> 0 \<and> in_map v va n \<and> run_of va n \<inter> marked v = {} \<and>
     marked v' = marked v \<union> run_of va n"

lemma vaddr_get_pages:
  assumes kv: "kv_ok (kernel_vaddr s)" and n: "1 \<le> n" "n < 2 ^ 31"
    and run: "vaddr_get PF_KERNEL (of_nat n) s = Inr (va, s')"
  shows "va = 0 \<and> kernel_vaddr s' = kernel_vaddr s \<or> pages_taken (kernel_vaddr s) (kernel_vaddr s') va n"
proof -
  let ?v = "kernel_vaddr s" and ?v' = "kernel_vaddr s'"
  have ex: "\<exists>i < bitmap_cap (vaddr_bitmap ?v). \<not> used_bit (vaddr_bitmap ?v) i"
  proof (rule ccontr)
    assume "\<not> ?thesis"
    then have "bitmap_scan (vaddr_bitmap ?v) (of_nat n) = Inl (Panic ''idx_byte < btmp->btmp_bytes_len'')"
      using kv by (intro bitmap_scan_full_panic) (auto simp: kv_ok_def)
    with run show False by (simp add: vaddr_get_def)
  qed
  from vaddr_get_run [OF kv ex n] show ?thesis
  proof cases
    case 1
    with run show ?thesis by simp
  next
    case (2 q b')
    have "va = page_at (vaddr_start ?v) q" "s' = s\<lparr>kernel_vaddr := ?v\<lparr>vaddr_bitmap := b'\<rparr>\<rparr>"
      using trans [OF sym [OF run] 2(1)] by blast+
    then have va: "va = page_at (vaddr_start ?v) q" "?v' = ?v\<lparr>vaddr_bitmap := b'\<rparr>" by simp_all
    have cap: "bitmap_cap b' = bitmap_cap (vaddr_bitmap ?v)" by (simp add: bitmap_cap_def 2(6))
    have same: "same_map ?v ?v'" by (simp add: same_map_def va cap)
    have small: "\<forall>j \<le> bitmap_cap (vaddr_bitmap ?v). j < 8 * length (bits (vaddr_bitmap ?v))"
      using kv by (simp add: kv_ok_def bitmap_cap_def)
    have bits: "\<forall>j \<le> bitmap_cap (vaddr_bitmap ?v). used_bit (vaddr_bitmap ?v') j \<longleftrightarrow>
        (if q \<le> j \<and> j < q + n then True else used_bit (vaddr_bitmap ?v) j)"
      using 2(8) small by (auto simp: va)
    have "page_at (vaddr_start ?v) (q + i) \<notin> marked ?v" if "i < n" for i
      using that 2(2,3) marked_nth [OF kv, of "q + i"] by (simp add: run_free_def)
    then have "run_of va n \<inter> marked ?v = {}" by (auto simp: run_of_def va(1) page_at_add)
    moreover have "va \<noteq> 0" using 2(4) by (auto simp: va(1) page_run_def)
    moreover have "kv_ok ?v'"
      using kv 2(5-7) cap by (simp add: kv_ok_def va)
    moreover have "marked ?v' = marked ?v \<union> run_of va n"
      using marked_run [OF kv same 2(2) bits] by (simp add: va(1))
    ultimately show ?thesis using same 2(2) va(1) by (auto simp: pages_taken_def in_map_def)
  qed
qed

lemma malloc_page_pages:
  assumes kv: "kv_ok (kernel_vaddr s)" and n: "n < 2 ^ 31"
    and run: "malloc_page PF_KERNEL (of_nat n) s = Inr (va, s')"
  shows "kv_ok (kernel_vaddr s') \<and> same_map (kernel_vaddr s) (kernel_vaddr s') \<and>
    (va = 0 \<and> marked (kernel_vaddr s) \<subseteq> marked (kernel_vaddr s') \<or>
     pages_taken (kernel_vaddr s) (kernel_vaddr s') va n)"
proof -
  have un: "unat (of_nat n :: u32) = n" using n by (simp add: unat_of_nat_u32)
  have "(of_nat n :: u32) > 0" using run by (auto simp: malloc_page_def kassert_def split: if_splits)
  then have n1: "1 \<le> n" using un by (simp add: word_less_nat_alt)
  obtain va1 s1 where get: "vaddr_get PF_KERNEL (of_nat n) s = Inr (va1, s1)"
    and rest: "va1 = 0 \<and> va = 0 \<and> s' = s1 \<or>
      map_pages PF_KERNEL va1 n s1 = Inr (True, s') \<and> va = va1 \<or> map_pages PF_KERNEL va1 n s1 = Inr (False, s') \<and> va = 0"
    using run by (auto simp: malloc_page_def bnd_eq_Inr kassert_def un split: if_splits)
  have kv': "kernel_vaddr s' = kernel_vaddr s1"
    using rest stableD [OF loops_stable(3)] by auto
  from vaddr_get_pages [OF kv n1 n get] rest show ?thesis
    by (auto simp: kv' kv pages_taken_def split: if_splits)
qed

lemma get_kernel_pages_Inr:
  assumes kv: "kv_ok (kernel_vaddr s)" and n: "n < 2 ^ 31"
    and run: "get_kernel_pages (of_nat n) s = Inr (va, s')"
  shows "kv_ok (kernel_vaddr s') \<and> same_map (kernel_vaddr s) (kernel_vaddr s') \<and>
    (va = 0 \<and> marked (kernel_vaddr s) \<subseteq> marked (kernel_vaddr s') \<or>
     pages_taken (kernel_vaddr s) (kernel_vaddr s') va n)"
proof -
  obtain s1 s2 s3 where s1: "pool_lock PF_KERNEL s = Inr ((), s1)"
    and s2: "malloc_page PF_KERNEL (of_nat n) s1 = Inr (va, s2)"
    and s3: "whenm (va \<noteq> 0) (zero_pages va (unat (of_nat n :: u32))) s2 = Inr ((), s3)" "pool_unlock PF_KERNEL s3 = Inr ((), s')"
    using run by (auto simp: get_kernel_pages_def bnd_eq_Inr)
  have "kernel_vaddr s1 = kernel_vaddr s" using s1 stableD [OF pages_stable(1)] by blast
  moreover have "kernel_vaddr s' = kernel_vaddr s2"
    using stableD [OF stable_whenm [OF loops_stable(1)] s3(1)] stableD [OF pages_stable(2) s3(2)] by simp
  ultimately show ?thesis using malloc_page_pages [OF _ n s2] kv by simp
qed

lemma mfree_page_Inr:
  assumes kv: "kv_ok (kernel_vaddr s)" and n: "n < 2 ^ 31" and va: "in_map (kernel_vaddr s) va n"
    and run: "mfree_page PF_KERNEL va (of_nat n) s = Inr ((), s')"
  shows "kv_ok (kernel_vaddr s') \<and> same_map (kernel_vaddr s) (kernel_vaddr s') \<and>
    marked (kernel_vaddr s') = marked (kernel_vaddr s) - run_of va n"
proof -
  let ?v = "kernel_vaddr s" and ?v' = "kernel_vaddr s'"
  have un: "unat (of_nat n :: u32) = n" using n by (simp add: unat_of_nat_u32)
  have "(of_nat n :: u32) \<ge> 1" using run by (auto simp: mfree_page_def kassert_def split: if_splits)
  then have n1: "1 \<le> n" using un by (simp add: word_le_nat_alt)
  obtain q where q: "va = page_at (vaddr_start ?v) q" "q + n \<le> Suc (bitmap_cap (vaddr_bitmap ?v))"
    using va by (auto simp: in_map_def)
  obtain s1 where s1: "vaddr_remove PF_KERNEL va (of_nat n) s1 = Inr ((), s')" "kernel_vaddr s1 = ?v"
  proof -
    have "\<exists>pa s2 inp s4. Paging.addr_v2p va s = Inr (pa, s2) \<and> unmap_pages inp va n s2 = Inr ((), s4) \<and>
        vaddr_remove PF_KERNEL va (of_nat n) s4 = Inr ((), s')"
      using run by (fastforce simp: mfree_page_def bnd_eq_Inr kassert_def un split: if_splits)
    then obtain pa s2 inp s4 where "Paging.addr_v2p va s = Inr (pa, s2)" "unmap_pages inp va n s2 = Inr ((), s4)"
      and "vaddr_remove PF_KERNEL va (of_nat n) s4 = Inr ((), s')" by blast
    moreover from this have "kernel_vaddr s2 = ?v" "kernel_vaddr s4 = kernel_vaddr s2"
      using stableD [OF pages_stable(8)] stableD [OF loops_stable(4)] by blast+
    ultimately show thesis using that by metis
  qed
  have idx: "(va - vaddr_start ?v) div PG_SIZE = of_nat q"
    using vaddr_index [of s q] kv q n1 by simp
  have len: "q + n \<le> 8 * length (bits (vaddr_bitmap ?v))" "8 * length (bits (vaddr_bitmap ?v)) < 2 ^ 31"
    using kv q(2) by (simp_all add: kv_ok_def bitmap_cap_def bitmap_wf_def)
  obtain b where b: "set_bits (vaddr_bitmap ?v) (of_nat q) n 0 = Inr b"
      "btmp_bytes_len b = btmp_bytes_len (vaddr_bitmap ?v)" "length (bits b) = length (bits (vaddr_bitmap ?v))"
      "\<forall>j < 8 * length (bits (vaddr_bitmap ?v)). used_bit b j =
        (if q \<le> j \<and> j < q + n then (0 :: u8) = 1 else used_bit (vaddr_bitmap ?v) j)"
    using set_bits_run [OF len, of 0] by auto
  have v': "?v' = ?v\<lparr>vaddr_bitmap := b\<rparr>"
    using s1 b(1) by (auto simp: vaddr_remove_def Let_def idx un)
  have cap: "bitmap_cap b = bitmap_cap (vaddr_bitmap ?v)" by (simp add: bitmap_cap_def b(2))
  have same: "same_map ?v ?v'" by (simp add: same_map_def v' cap)
  have "\<forall>j \<le> bitmap_cap (vaddr_bitmap ?v). j < 8 * length (bits (vaddr_bitmap ?v))"
    using kv by (simp add: kv_ok_def bitmap_cap_def)
  then have "\<forall>j \<le> bitmap_cap (vaddr_bitmap ?v). used_bit (vaddr_bitmap ?v') j \<longleftrightarrow>
      (if q \<le> j \<and> j < q + n then False else used_bit (vaddr_bitmap ?v) j)"
    using b(4) by (auto simp: v')
  from marked_run [OF kv same q(2) this] have "marked ?v' = marked ?v - run_of va n" by (simp add: q(1))
  moreover have "kv_ok ?v'" using kv b(2,3) cap by (simp add: kv_ok_def v' bitmap_wf_def)
  ultimately show ?thesis using same by simp
qed

end
