(* ===== verification/Proc_View.thy ===== *)
theory Proc_View
  imports Stable
begin

text \<open>
  The part of the state that the process tree is about: for every thread its number, its parent's
  number, its status and its page directory, the lists, the pool of numbers, and the map of the
  kernel's virtual pages. The lemmas say what each operation does to this view.
\<close>

section \<open>The view\<close>

record core =
  c_pid :: u16
  c_parent :: u32
  c_stat :: task_status
  c_dir :: u32

record pview =
  v_all :: "tid list"
  v_ready :: "tid list"
  v_run :: tid
  v_idle :: tid
  v_main :: tid
  v_core :: "tid \<Rightarrow> core option"
  v_bits :: "tid \<Rightarrow> u32"
  v_pool :: pid_pool
  v_kv :: virtual_addr

definition core :: "task \<Rightarrow> core" where
  "core p = \<lparr>c_pid = pid p, c_parent = parent_pid p, c_stat = status p, c_dir = task.pgdir p\<rparr>"

definition view :: "proc \<Rightarrow> pview" where
  "view s = \<lparr>v_all = thread_all_list s, v_ready = thread_ready_list s, v_run = running s, v_idle = idle_thread s,
     v_main = main_thread s, v_core = (\<lambda>t. map_option core (tasks s t)), v_bits = user_bits_at s,
     v_pool = pids s, v_kv = kernel_vaddr (pmm s)\<rparr>"

lemma core_simps [simp]:
  "c_pid (core p) = pid p" "c_parent (core p) = parent_pid p" "c_stat (core p) = status p" "c_dir (core p) = task.pgdir p"
  by (simp_all add: core_def)

lemma view_sel [simp]:
  "v_all (view s) = thread_all_list s" "v_ready (view s) = thread_ready_list s" "v_run (view s) = running s"
  "v_idle (view s) = idle_thread s" "v_main (view s) = main_thread s"
  "v_core (view s) t = map_option core (tasks s t)"
  "v_bits (view s) = user_bits_at s" "v_pool (view s) = pids s" "v_kv (view s) = kernel_vaddr (pmm s)"
  by (simp_all add: view_def)

lemma map_core_upd: "(\<lambda>u. map_option core (if u = t then Some p else f u)) = (\<lambda>u. map_option core (f u))(t \<mapsto> core p)"
  by auto

lemma view_upd [simp]:
  "view (s\<lparr>tasks := (tasks s)(t \<mapsto> p)\<rparr>) = (view s)\<lparr>v_core := (v_core (view s))(t \<mapsto> core p)\<rparr>"
  "view (s\<lparr>pids := p'\<rparr>) = (view s)\<lparr>v_pool := p'\<rparr>"
  "view (s\<lparr>user_bits_at := b\<rparr>) = (view s)\<lparr>v_bits := b\<rparr>"
  "view (s\<lparr>thread_all_list := ts\<rparr>) = (view s)\<lparr>v_all := ts\<rparr>"
  "view (s\<lparr>thread_ready_list := ts\<rparr>) = (view s)\<lparr>v_ready := ts\<rparr>"
  "view (s\<lparr>user_descs := d\<rparr>) = view s" "view (s\<lparr>user_vaddr := uv\<rparr>) = view s"
  "view (s\<lparr>stacks := st\<rparr>) = view s" "view (s\<lparr>cpu_if := i\<rparr>) = view s"
  "view (s\<lparr>ksched.cr3 := c\<rparr>) = view s" "view (s\<lparr>ksched.addr_v2p := a\<rparr>) = view s"
  "view (s\<lparr>pfs := f\<rparr>) = view s" "view (s\<lparr>pmm := m\<rparr>) = (view s)\<lparr>v_kv := kernel_vaddr m\<rparr>"
  by (simp_all add: view_def fun_eq_iff)

lemma view_with_mm [simp]: "view (with_mm s m) = (view s)\<lparr>v_kv := kernel_vaddr m\<rparr>"
  by (simp add: with_mm_def view_def)

lemma kernel_vaddr_mm_of [simp]: "kernel_vaddr (mm_of s p) = kernel_vaddr (pmm s)"
  by (simp add: mm_of_def)

section \<open>Calls\<close>

lemma mm_call_Inr:
  "mm_call m s = Inr (x, s') \<Longrightarrow>
   \<exists>p m'. tasks s (running s) = Some p \<and> m (mm_of s p) = Inr (x, m') \<and> s' = with_mm s m'"
  by (auto simp: mm_call_def bnd_def task_of_def split: option.splits sum.splits prod.splits)

lemma task_of_Inr: "task_of t s = Inr (p, s') \<longleftrightarrow> tasks s t = Some p \<and> s' = s"
  by (auto simp: task_of_def split: option.splits)

lemma upd_task_Inr:
  "upd_task t f s = Inr (x, s') \<longleftrightarrow> (\<exists>p. tasks s t = Some p \<and> s' = s\<lparr>tasks := (tasks s)(t \<mapsto> f p)\<rparr>)"
  by (auto simp: upd_task_def bnd_eq_Inr task_of_Inr)

lemma stable_task_of [stable]: "stable f (task_of t)"
  by (simp add: stable_def task_of_Inr)

lemma stable_mm_call [stable]: "stable kernel_vaddr m \<Longrightarrow> stable view (mm_call m)"
  unfolding stable_def by (auto dest!: mm_call_Inr)

lemma fs_call_Inr:
  "fs_call m s = Inr (x, s') \<Longrightarrow> \<exists>p f. tasks s (running s) = Some p \<and> s' = s\<lparr>pfs := f,
     tasks := (tasks s)(running s \<mapsto> p\<lparr>fd_table := p_fd_table f, cwd_inode_no := p_cwd_inode_no f\<rparr>)\<rparr>"
  by (auto simp: fs_call_def bnd_def task_of_def split: option.splits sum.splits prod.splits)

lemma stable_fs_call [stable]: "stable view (fs_call m)"
proof -
  have "view s' = view s" if run: "fs_call m s = Inr (x, s')" for s x s'
  proof -
    obtain p f where p: "tasks s (running s) = Some p"
      and s': "s' = s\<lparr>pfs := f, tasks := (tasks s)(running s \<mapsto> p\<lparr>fd_table := p_fd_table f, cwd_inode_no := p_cwd_inode_no f\<rparr>)\<rparr>"
      using fs_call_Inr [OF run] by blast
    have "v_core (view s') t = v_core (view s) t" for t
      using p by (simp add: s' core_def)
    then have "v_core (view s') = v_core (view s)" by (rule ext)
    then show ?thesis by (simp add: s' view_def)
  qed
  then show ?thesis by (simp add: stable_def)
qed

lemma stable_upd_task [stable]: "(\<And>p. core (f p) = core p) \<Longrightarrow> stable view (upd_task t f)"
  unfolding stable_def by (auto simp: upd_task_Inr view_def fun_eq_iff)

lemma stable_set_words [stable]: "stable view (set_word a w)" "stable view (set_words a ws)"
proof -
  show "stable view (set_word a w)" for a w unfolding set_word_def by (auto intro!: stable)
  then show "stable view (set_words a ws)" by (induction ws arbitrary: a) (auto intro!: stable)
qed

lemma pid_call_Inr:
  "pid_call m s = Inr (x, s') \<longleftrightarrow> (\<exists>p. m (pids s) = Inr (x, p) \<and> s' = s\<lparr>pids := p\<rparr>)"
  by (auto simp: pid_call_def split: sum.splits)

lemma sched_call_Inr: "sched_call m s = Inr (x, s') \<Longrightarrow> \<exists>a. m (s\<lparr>ksched.addr_v2p := a\<rparr>) = Inr (x, s')"
  by (auto simp: sched_call_def)

text \<open>Taking and giving back pages.\<close>

lemma pages_call:
  assumes kv: "kv_ok (kernel_vaddr (pmm s))" and n: "n < 2 ^ 31" and run: "mm_call (get_kernel_pages (of_nat n)) s = Inr (va, s')"
  obtains kv' where "view s' = (view s)\<lparr>v_kv := kv'\<rparr>" and "kv_ok kv'" and "same_map (kernel_vaddr (pmm s)) kv'"
    and "va = 0 \<and> marked (kernel_vaddr (pmm s)) \<subseteq> marked kv' \<or> pages_taken (kernel_vaddr (pmm s)) kv' va n"
proof -
  obtain p m' where m': "get_kernel_pages (of_nat n) (mm_of s p) = Inr (va, m')" "s' = with_mm s m'"
    using mm_call_Inr [OF run] by blast
  from get_kernel_pages_Inr [OF _ n m'(1)] kv m'(2) show thesis by (intro that [of "kernel_vaddr m'"]) simp_all
qed

lemma mfree_call:
  assumes kv: "kv_ok (kernel_vaddr (pmm s))" and n: "n < 2 ^ 31" and va: "in_map (kernel_vaddr (pmm s)) va n"
    and run: "mm_call (mfree_page PF_KERNEL va (of_nat n)) s = Inr (x, s')"
  obtains kv' where "view s' = (view s)\<lparr>v_kv := kv'\<rparr>" and "kv_ok kv'" and "same_map (kernel_vaddr (pmm s)) kv'"
    and "marked kv' = marked (kernel_vaddr (pmm s)) - run_of va n"
proof -
  obtain p m' where m': "mfree_page PF_KERNEL va (of_nat n) (mm_of s p) = Inr ((), m')" "s' = with_mm s m'"
    using mm_call_Inr [OF run] by auto
  from mfree_page_Inr [OF _ n _ m'(1)] kv va m'(2) show thesis by (intro that [of "kernel_vaddr m'"]) simp_all
qed

lemma page_dir_call:
  assumes kv: "kv_ok (kernel_vaddr (pmm s))" and run: "mm_call create_page_dir s = Inr (va, s')"
  obtains kv' where "view s' = (view s)\<lparr>v_kv := kv'\<rparr>" and "kv_ok kv'" and "same_map (kernel_vaddr (pmm s)) kv'"
    and "va = 0 \<and> marked (kernel_vaddr (pmm s)) \<subseteq> marked kv' \<or> pages_taken (kernel_vaddr (pmm s)) kv' va 1"
proof -
  obtain p m' where m': "create_page_dir (mm_of s p) = Inr (va, m')" "s' = with_mm s m'"
    using mm_call_Inr [OF run] by blast
  then obtain dir m1 where m1: "get_kernel_pages (of_nat 1) (mm_of s p) = Inr (dir, m1)"
    and rest: "(if dir = 0 then ret 0 else
       bnd (copy_words (dir + 0x300 * 4) (0xfffff000 + 0x300 * 4) 256) (\<lambda>_.
       bnd (Paging.addr_v2p dir) (\<lambda>new_page_dir_phy_addr.
       bnd (store (dir + 4 * 1023) (new_page_dir_phy_addr OR 7)) (\<lambda>_. ret dir)))) m1 = Inr (va, m')"
    (is "?m m1 = _")
    by (auto simp: create_page_dir_def bnd_eq_Inr)
  have "stable kernel_vaddr ?m" by (auto intro!: stable)
  then have kv': "kernel_vaddr m' = kernel_vaddr m1" by (rule stableD) (rule rest)
  have "va = dir" using rest by (auto simp: bnd_eq_Inr split: if_splits)
  from get_kernel_pages_Inr [OF _ _ m1] kv m'(2) kv' this show thesis
    by (intro that [of "kernel_vaddr m'"]) simp_all
qed

section \<open>Traversals\<close>

definition all_known :: "tid list \<Rightarrow> proc \<Rightarrow> bool" where
  "all_known ts s \<longleftrightarrow> (\<forall>t \<in> set ts. tasks s t \<noteq> None)"

lemma traverse_find:
  "all_known ts s \<Longrightarrow> traverse (\<lambda>t. bnd (task_of t) (\<lambda>p. ret (P p))) ts s =
     Inr (List.find (\<lambda>t. P (the (tasks s t))) ts, s)"
  by (induction ts) (auto simp: all_known_def task_of_Some bnd_assoc)

lemma find_Some_in: "List.find P xs = Some x \<Longrightarrow> x \<in> set xs \<and> P x"
  by (induction xs) (auto split: if_splits)

lemma find_None_all: "List.find P xs = None \<longleftrightarrow> (\<forall>x \<in> set xs. \<not> P x)"
  by (induction xs) auto

definition adopt :: "u32 \<Rightarrow> core \<Rightarrow> core" where
  "adopt no c = (if c_parent c = no then c\<lparr>c_parent := 1\<rparr> else c)"

lemma adopt_simps [simp]: "c_pid (adopt no c) = c_pid c" "c_stat (adopt no c) = c_stat c" "c_dir (adopt no c) = c_dir c"
  "c_parent (adopt no c) = (if c_parent c = no then 1 else c_parent c)" "adopt no (adopt no c) = adopt no c"
  by (simp_all add: adopt_def)

lemma adopt_run:
  "all_known ts s \<Longrightarrow> \<exists>s'. traverse (\<lambda>t. init_adopt_achild t no) ts s = Inr (None, s') \<and>
     view s' = (view s)\<lparr>v_core := (\<lambda>t. if t \<in> set ts then map_option (adopt no) (v_core (view s) t) else v_core (view s) t)\<rparr> \<and>
     pmm s' = pmm s \<and> user_vaddr s' = user_vaddr s \<and>
     (\<forall>t p. tasks s t = Some p \<longrightarrow> (\<exists>q. tasks s' t = Some q \<and> q\<lparr>parent_pid := parent_pid p\<rparr> = p))"
proof (induction ts arbitrary: s)
  case (Cons t ts)
  then obtain p where p: "tasks s t = Some p" by (auto simp: all_known_def)
  define s1 where "s1 = (if parent_pid p = no then s\<lparr>tasks := (tasks s)(t \<mapsto> p\<lparr>parent_pid := 1\<rparr>)\<rparr> else s)"
  have v1: "v_core (view s1) = (v_core (view s))(t := map_option (adopt no) (v_core (view s) t))"
    using p by (auto simp: s1_def fun_eq_iff adopt_def core_def)
  have s1: "view s1 = (view s)\<lparr>v_core := (v_core (view s))(t := map_option (adopt no) (v_core (view s) t))\<rparr>"
    unfolding v1 [symmetric] by (simp add: s1_def view_def)
  have run: "init_adopt_achild t no s = Inr (False, s1)"
    using p by (simp add: init_adopt_achild_def task_of_Some bnd_upd_task s1_def)
  have "all_known ts s1" using Cons.prems p by (auto simp: all_known_def s1_def)
  from Cons.IH [OF this] obtain s' where s': "traverse (\<lambda>t. init_adopt_achild t no) ts s1 = Inr (None, s')"
    "view s' = (view s1)\<lparr>v_core := (\<lambda>t. if t \<in> set ts then map_option (adopt no) (v_core (view s1) t) else v_core (view s1) t)\<rparr>"
    "pmm s' = pmm s1" "user_vaddr s' = user_vaddr s1"
    "\<forall>t p. tasks s1 t = Some p \<longrightarrow> (\<exists>q. tasks s' t = Some q \<and> q\<lparr>parent_pid := parent_pid p\<rparr> = p)" by blast
  have "traverse (\<lambda>t. init_adopt_achild t no) (t # ts) s = Inr (None, s')"
    using s'(1) by (simp add: bnd_Inr [where m = "init_adopt_achild t no" and s = s, OF run])
  moreover have "view s' = (view s)\<lparr>v_core := (\<lambda>u. if u \<in> set (t # ts) then map_option (adopt no) (v_core (view s) u) else v_core (view s) u)\<rparr>"
    unfolding s'(2) s1 by (auto simp: fun_eq_iff option.map_comp o_def)
  moreover have "\<exists>q. tasks s' u = Some q \<and> q\<lparr>parent_pid := parent_pid r\<rparr> = r" if u: "tasks s u = Some r" for u r
  proof -
    have "\<exists>r1. tasks s1 u = Some r1 \<and> r1\<lparr>parent_pid := parent_pid r\<rparr> = r"
      using u p by (cases "u = t"; cases "parent_pid p = no") (auto simp: s1_def)
    then obtain r1 where r1: "tasks s1 u = Some r1" "r1\<lparr>parent_pid := parent_pid r\<rparr> = r" by blast
    with s'(5) obtain q where q: "tasks s' u = Some q" "q\<lparr>parent_pid := parent_pid r1\<rparr> = r1" by blast
    from q(2) have "q\<lparr>parent_pid := parent_pid r\<rparr> = r1\<lparr>parent_pid := parent_pid r\<rparr>" by (metis task.update_convs(11) task.surjective)
    with q(1) r1(2) show ?thesis by simp
  qed
  ultimately show ?case using s'(3,4) by (auto simp: s1_def)
qed (auto simp: view_def fun_eq_iff)

section \<open>Leaving\<close>

lemma run_of_1 [simp]: "run_of va (Suc 0) = {va}"
  by (simp add: run_of_def lessThan_Suc)

definition freed_pages :: "tid \<Rightarrow> tid \<Rightarrow> u32 \<Rightarrow> u32 set" where
  "freed_pages main t dir = (if dir \<noteq> 0 then {dir} else {}) \<union> (if t \<noteq> main then {t} else {})"

text \<open>Removing a thread that is not running.\<close>

lemma mfree_one_call:
  assumes kv: "kv_ok (kernel_vaddr (pmm s))" and va: "c \<Longrightarrow> in_map (kernel_vaddr (pmm s)) va 1"
    and run: "whenm c (mm_call (mfree_page PF_KERNEL va 1)) s = Inr (x, s')"
  obtains kv' where "view s' = (view s)\<lparr>v_kv := kv'\<rparr>" and "kv_ok kv'" and "same_map (kernel_vaddr (pmm s)) kv'"
    and "marked kv' = marked (kernel_vaddr (pmm s)) - (if c then {va} else {})"
proof (cases c)
  case True
  with run have "mm_call (mfree_page PF_KERNEL va (of_nat 1)) s = Inr (x, s')" by simp
  then show thesis by (rule mfree_call [OF kv _ va, rotated 2]) (use True that in auto)
next
  case False
  with run have "s' = s" by simp
  with False kv that show thesis by (simp add: view_def)
qed

lemma thread_exit_view:
  assumes kv: "kv_ok (kernel_vaddr (pmm s))" and p: "tasks s t = Some p"
    and pool: "pool_ok (pids s)" "1 \<le> unat (pid p)" "unat (pid p) \<le> 1024"
    and pages: "task.pgdir p \<noteq> 0 \<Longrightarrow> in_map (kernel_vaddr (pmm s)) (task.pgdir p) 1"
      "t \<noteq> main_thread s \<Longrightarrow> in_map (kernel_vaddr (pmm s)) t 1"
    and run: "thread_exit t False s = Inr ((), s')"
  obtains kv' pool' where "view s' = (view s)\<lparr>v_all := remove1 t (thread_all_list s), v_ready := remove1 t (thread_ready_list s),
      v_core := (v_core (view s))(t \<mapsto> (core p)\<lparr>c_stat := TASK_DIED\<rparr>), v_pool := pool', v_kv := kv'\<rparr>"
    and "kv_ok kv'" and "same_map (kernel_vaddr (pmm s)) kv'"
    and "marked kv' = marked (kernel_vaddr (pmm s)) - freed_pages (main_thread s) t (task.pgdir p)"
    and "pool_ok pool'" and "taken_pids pool' = taken_pids (pids s) - {pid p}"
proof -
  define s1 where "s1 = s\<lparr>cpu_if := INTR_OFF, tasks := (tasks s)(t \<mapsto> p\<lparr>status := TASK_DIED\<rparr>),
     thread_ready_list := remove1 t (thread_ready_list s)\<rparr>"
  have v1: "view s1 = (view s)\<lparr>v_ready := remove1 t (thread_ready_list s), v_core := (v_core (view s))(t \<mapsto> (core p)\<lparr>c_stat := TASK_DIED\<rparr>)\<rparr>"
    by (simp add: s1_def view_def fun_eq_iff core_def)
  obtain s2 s3 s4 where s2: "whenm (task.pgdir p \<noteq> 0) (mm_call (mfree_page PF_KERNEL (task.pgdir p) 1)) s1 = Inr ((), s2)"
    and s3: "all_remove t s2 = Inr ((), s3)"
    and s4: "whenm (t \<noteq> main_thread s3) (mm_call (mfree_page PF_KERNEL t 1)) s3 = Inr ((), s4)"
    and s5: "pid_call (release_pid (pid p)) s4 = Inr ((), s')"
    using run p by (auto simp: thread_exit_def bnd_upd_task task_of_Some bnd_eq_Inr s1_def)
  have kv1: "kernel_vaddr (pmm s1) = kernel_vaddr (pmm s)" by (simp add: s1_def)
  from mfree_one_call [OF _ _ s2] kv kv1 pages(1) obtain kv2 where kv2: "view s2 = (view s1)\<lparr>v_kv := kv2\<rparr>" "kv_ok kv2"
    "same_map (kernel_vaddr (pmm s)) kv2" "marked kv2 = marked (kernel_vaddr (pmm s)) - (if task.pgdir p \<noteq> 0 then {task.pgdir p} else {})"
    by metis
  have all2: "thread_all_list s2 = thread_all_list s" "main_thread s2 = main_thread s"
    using arg_cong [OF kv2(1), of v_all] arg_cong [OF kv2(1), of v_main] by (simp_all add: v1)
  have s3': "s3 = s2\<lparr>thread_all_list := remove1 t (thread_all_list s2)\<rparr>"
    using s3 by (auto simp: all_remove_def split: if_splits)
  have kv3: "kernel_vaddr (pmm s3) = kv2" "main_thread s3 = main_thread s"
    using arg_cong [OF kv2(1), of v_kv] all2 by (simp_all add: s3')
  from mfree_one_call [OF _ _ s4] kv2(2,3) kv3 pages(2) in_map_same obtain kv4 where kv4: "view s4 = (view s3)\<lparr>v_kv := kv4\<rparr>" "kv_ok kv4"
    "same_map kv2 kv4" "marked kv4 = marked kv2 - (if t \<noteq> main_thread s then {t} else {})"
    by metis
  have v3: "view s3 = (view s1)\<lparr>v_all := remove1 t (thread_all_list s), v_kv := kv2\<rparr>"
    by (simp add: s3' all2 kv2(1))
  have pids4: "pids s4 = pids s"
    using arg_cong [OF kv4(1), of v_pool] by (simp add: v3 v1)
  obtain pool' where pool': "release_pid (pid p) (pids s) = Inr ((), pool')" "s' = s4\<lparr>pids := pool'\<rparr>"
    using s5 by (auto simp: pid_call_Inr pids4)
  with release_pid_run [OF pool] have "pool_ok pool'" "taken_pids pool' = taken_pids (pids s) - {pid p}" by auto
  moreover have "view s' = (view s)\<lparr>v_all := remove1 t (thread_all_list s), v_ready := remove1 t (thread_ready_list s),
      v_core := (v_core (view s))(t \<mapsto> (core p)\<lparr>c_stat := TASK_DIED\<rparr>), v_pool := pool', v_kv := kv4\<rparr>"
    by (simp add: pool'(2) kv4(1) v3 v1)
  moreover have "marked kv4 = marked (kernel_vaddr (pmm s)) - freed_pages (main_thread s) t (task.pgdir p)"
    using kv4(4) kv2(4) by (auto simp: freed_pages_def)
  ultimately show thesis using that kv4(2) same_map_trans [OF kv2(3) kv4(3)] by blast
qed

end
