(* ===== verification/Proc_Inv.thy ===== *)
theory Proc_Inv
  imports Proc_View
begin

text \<open>
  The invariant of the process layer, on the view of \<open>Proc_View\<close>: the scheduler's, the process tree's
  and that of the kernel pages the threads own; and what keeps each of its three parts.
\<close>

section \<open>The scheduler's part\<close>

definition vc :: "pview \<Rightarrow> tid \<Rightarrow> core" where
  "vc v t = the (v_core v t)"

abbreviation "pid_of v t \<equiv> c_pid (vc v t)"
abbreviation "parent_of v t \<equiv> c_parent (vc v t)"
abbreviation "st_of v t \<equiv> c_stat (vc v t)"
abbreviation "dir_of v t \<equiv> c_dir (vc v t)"
abbreviation "threads v \<equiv> set (v_all v)"

definition sched_part :: "pview \<Rightarrow> bool" where
  "sched_part v \<longleftrightarrow>
     distinct (v_ready v) \<and> distinct (v_all v) \<and> (\<forall>t \<in> threads v. t \<noteq> 0 \<and> v_core v t \<noteq> None) \<and>
     v_run v \<in> threads v \<and> v_idle v \<in> threads v \<and>
     (\<forall>t. t \<in> set (v_ready v) \<longleftrightarrow> t \<in> threads v \<and> st_of v t = TASK_READY) \<and>
     (\<forall>t \<in> threads v. t \<noteq> v_run v \<longrightarrow> st_of v t \<noteq> TASK_RUNNING) \<and>
     st_of v (v_idle v) \<in> {TASK_RUNNING, TASK_READY, TASK_BLOCKED} \<and> st_of v (v_run v) = TASK_RUNNING"

lemma vc_view: "tasks s t = Some p \<Longrightarrow> vc (view s) t = core p"
  by (simp add: vc_def)

lemma sched_part_view: "sched_part (view s) \<longleftrightarrow> sched_inv s"
proof -
  have st: "st_of (view s) t = stat_of s t" if "tasks s t \<noteq> None" for t
    using that by (auto simp: vc_def stat_of_def)
  show ?thesis
    unfolding sched_part_def sched_inv_def sched_ok_def view_sel
    using st by (auto 0 3)
qed

section \<open>The process tree\<close>

text \<open>
  Numbers are in use in the pool and distinct. The first process has no parent and never hangs; a
  thread's parent, if it has one, is a thread that does not hang. A process that waits has a child,
  and none of its children hangs, so that nothing it waits for has happened already (the children
  that the first process adopts may hang already).
\<close>

definition child_of :: "pview \<Rightarrow> tid \<Rightarrow> tid \<Rightarrow> bool" where
  "child_of v t u \<longleftrightarrow> parent_of v t = scast (pid_of v u)"

definition tree_part :: "pview \<Rightarrow> bool" where
  "tree_part v \<longleftrightarrow>
     pool_ok (v_pool v) \<and> (\<forall>t \<in> threads v. pid_of v t \<in> taken_pids (v_pool v)) \<and> inj_on (pid_of v) (threads v) \<and>
     (\<exists>t \<in> threads v. pid_of v t = 1 \<and> parent_of v t = -1 \<and> st_of v t \<noteq> TASK_HANGING) \<and>
     (\<forall>t \<in> threads v. parent_of v t = -1 \<or> (\<exists>u \<in> threads v. child_of v t u \<and> st_of v u \<noteq> TASK_HANGING)) \<and>
     (\<forall>u \<in> threads v. st_of v u = TASK_WAITING \<and> pid_of v u \<noteq> 1 \<longrightarrow>
        (\<exists>t \<in> threads v. child_of v t u) \<and> (\<forall>t \<in> threads v. child_of v t u \<longrightarrow> st_of v t \<noteq> TASK_HANGING))"

lemma sint_scast_u16: "sint (scast (a :: u16) :: u32) = sint a"
  by (simp add: sint_up_scast is_up)

lemma scast_u16_eq: "(scast (a :: u16) :: u32) = scast b \<longleftrightarrow> a = b"
  by (metis sint_scast_u16 signed_word_eqI)

lemma sint_pid:
  assumes "unat (n :: u16) \<le> 1024"
  shows "sint n = int (unat n)"
proof -
  obtain k where k: "uint n = int k" "unat n = k" "k \<le> 1024" using assms by (metis of_nat_unat)
  have "signed_take_bit 15 (int k) = int k"
    by (rule signed_take_bit_int_eq_self) (use k(3) in simp_all)
  then show ?thesis by (simp add: sint_uint k)
qed

lemma scast_pid:
  assumes "unat (n :: u16) \<le> 1024"
  shows "(scast n :: u32) = of_nat (unat n)" and "(scast n :: u32) \<noteq> -1"
proof -
  show eq: "(scast n :: u32) = of_nat (unat n)" 
    by (simp only: scast_eq sint_pid [OF assms] of_int_of_nat_eq)
  show "(scast n :: u32) \<noteq> -1" unfolding eq using assms by (intro u32_of_nat_not_minus1) simp
qed
lemma taken_range: "n \<in> taken_pids p \<Longrightarrow> 1 \<le> unat n \<and> unat n \<le> 1024"
  by (simp add: taken_pids_def)

lemma tree_partD:
  assumes "tree_part v"
  shows "pool_ok (v_pool v)" and "t \<in> threads v \<Longrightarrow> pid_of v t \<in> taken_pids (v_pool v)"
    and "t \<in> threads v \<Longrightarrow> u \<in> threads v \<Longrightarrow> pid_of v t = pid_of v u \<Longrightarrow> t = u"
    and "t \<in> threads v \<Longrightarrow> parent_of v t = -1 \<or> (\<exists>u \<in> threads v. child_of v t u \<and> st_of v u \<noteq> TASK_HANGING)"
  using assms by (auto simp: tree_part_def dest: inj_onD)

lemma tree_part_waits:
  assumes "tree_part v" and "u \<in> threads v" and "st_of v u = TASK_WAITING" and "pid_of v u \<noteq> 1"
  shows "\<exists>t \<in> threads v. child_of v t u" and "\<forall>t \<in> threads v. child_of v t u \<longrightarrow> st_of v t \<noteq> TASK_HANGING"
  using assms unfolding tree_part_def by blast+

lemma tree_part_first:
  assumes "tree_part v"
  obtains i where "i \<in> threads v" and "pid_of v i = 1" and "parent_of v i = -1" and "st_of v i \<noteq> TASK_HANGING"
  using assms unfolding tree_part_def by blast

lemma child_unique: "tree_part v \<Longrightarrow> u \<in> threads v \<Longrightarrow> u' \<in> threads v \<Longrightarrow> child_of v t u \<Longrightarrow> child_of v t u' \<Longrightarrow> u = u'"
  using tree_partD(3) by (auto simp: child_of_def scast_u16_eq)

text \<open>Two views that differ in statuses only.\<close>

definition same_ids :: "pview \<Rightarrow> pview \<Rightarrow> bool" where
  "same_ids v v' \<longleftrightarrow> threads v' = threads v \<and> v_main v' = v_main v \<and> v_bits v' = v_bits v \<and> v_pool v' = v_pool v \<and>
     (\<forall>t \<in> threads v. pid_of v' t = pid_of v t \<and> parent_of v' t = parent_of v t \<and> dir_of v' t = dir_of v t)"

text \<open>Threads may wake up, but none begins to wait or hang, and who hangs goes on hanging.\<close>

definition no_new_sleep :: "pview \<Rightarrow> pview \<Rightarrow> bool" where
  "no_new_sleep v v' \<longleftrightarrow> (\<forall>t \<in> threads v. (st_of v' t = TASK_WAITING \<longrightarrow> st_of v t = TASK_WAITING) \<and>
     (st_of v' t = TASK_HANGING \<longleftrightarrow> st_of v t = TASK_HANGING))"

lemma tree_part_wake:
  assumes "tree_part v" and "same_ids v v'" and "no_new_sleep v v'"
  shows "tree_part v'"
proof -
  have ids: "pid_of v' t = pid_of v t" "parent_of v' t = parent_of v t" "(st_of v' t = TASK_HANGING) = (st_of v t = TASK_HANGING)"
      "st_of v' t = TASK_WAITING \<Longrightarrow> st_of v t = TASK_WAITING" if "t \<in> threads v" for t
    using assms(2,3) that by (auto simp: same_ids_def no_new_sleep_def)
  have th: "threads v' = threads v" "v_pool v' = v_pool v" using assms(2) by (auto simp: same_ids_def)
  have ch: "child_of v' t u = child_of v t u" if "t \<in> threads v" "u \<in> threads v" for t u
    using that ids by (simp add: child_of_def)
  have "inj_on (pid_of v') (threads v) = inj_on (pid_of v) (threads v)"
    by (rule inj_on_cong) (simp add: ids)
  then show ?thesis
    using assms(1) unfolding tree_part_def th by (auto simp: ids ch)
qed

text \<open>The running process begins to wait, for want of a hanging child.\<close>

definition set_stat :: "tid \<Rightarrow> task_status \<Rightarrow> pview \<Rightarrow> pview" where
  "set_stat t st v = v\<lparr>v_core := (v_core v)(t \<mapsto> (vc v t)\<lparr>c_stat := st\<rparr>)\<rparr>"

lemma set_stat_simps [simp]:
  "v_all (set_stat t st v) = v_all v" "v_pool (set_stat t st v) = v_pool v" "v_main (set_stat t st v) = v_main v"
  "v_bits (set_stat t st v) = v_bits v" "v_kv (set_stat t st v) = v_kv v"
  "pid_of (set_stat t st v) u = pid_of v u" "parent_of (set_stat t st v) u = parent_of v u" "dir_of (set_stat t st v) u = dir_of v u"
  "st_of (set_stat t st v) u = (if u = t then st else st_of v u)" "child_of (set_stat t st v) = child_of v"
  by (simp_all add: set_stat_def vc_def child_of_def fun_eq_iff)

lemma tree_part_wait:
  assumes "tree_part v" and "cur \<in> threads v" and "st_of v cur \<noteq> TASK_HANGING"
    and "\<exists>t \<in> threads v. child_of v t cur" and "\<forall>t \<in> threads v. child_of v t cur \<longrightarrow> st_of v t \<noteq> TASK_HANGING"
  shows "tree_part (set_stat cur TASK_WAITING v)"
  using assms unfolding tree_part_def by auto

text \<open>The running process hangs: its children are the first process's, its parent does not wait.\<close>

lemma tree_part_hang:
  assumes tree: "tree_part v" and cur: "cur \<in> threads v" "pid_of v cur \<noteq> 1"
    and none: "\<forall>t \<in> threads v. \<not> child_of v t cur"
    and awake: "\<forall>u \<in> threads v. child_of v cur u \<longrightarrow> st_of v u \<noteq> TASK_WAITING"
  shows "tree_part (set_stat cur TASK_HANGING v)"
proof -
  let ?v = "set_stat cur TASK_HANGING v"
  have "\<exists>t \<in> threads v. pid_of v t = 1 \<and> parent_of v t = -1 \<and> st_of ?v t \<noteq> TASK_HANGING"
    by (rule tree_part_first [OF tree]) (use cur(2) in auto)
  moreover have "parent_of v t = -1 \<or> (\<exists>u \<in> threads v. child_of v t u \<and> st_of ?v u \<noteq> TASK_HANGING)"
    if "t \<in> threads v" for t
    using tree_partD(4) [OF tree that] none that by auto
  moreover have "(\<exists>t \<in> threads v. child_of v t u) \<and> (\<forall>t \<in> threads v. child_of v t u \<longrightarrow> st_of ?v t \<noteq> TASK_HANGING)"
    if u: "u \<in> threads v" "st_of ?v u = TASK_WAITING" "pid_of v u \<noteq> 1" for u
  proof -
    have w: "u \<noteq> cur" "st_of v u = TASK_WAITING" using u(2) by (auto split: if_splits)
    from tree_part_waits [OF tree u(1) w(2) u(3)] awake u(1) w(2) show ?thesis by auto
  qed
  ultimately show ?thesis using tree unfolding tree_part_def set_stat_simps by blast
qed

lemma tree_part_adopt:
  assumes tree: "tree_part v" and cur: "cur \<in> threads v" "pid_of v cur \<noteq> 1" "st_of v cur \<noteq> TASK_WAITING"
  defines "v' \<equiv> v\<lparr>v_core := (\<lambda>t. if t \<in> threads v then map_option (adopt (scast (pid_of v cur))) (v_core v t) else v_core v t)\<rparr>"
  assumes known: "\<forall>t \<in> threads v. v_core v t \<noteq> None"
  shows "tree_part v'" and "\<forall>t \<in> threads v'. \<not> child_of v' t cur"
    and "t \<in> threads v \<Longrightarrow> pid_of v' t = pid_of v t \<and> st_of v' t = st_of v t \<and> dir_of v' t = dir_of v t"
    and "t \<in> threads v \<Longrightarrow> parent_of v' t = (if child_of v t cur then 1 else parent_of v t)"
proof -
  have th: "threads v' = threads v" "v_pool v' = v_pool v" by (simp_all add: v'_def)
  have ids: "pid_of v' t = pid_of v t" "st_of v' t = st_of v t" "dir_of v' t = dir_of v t"
      "parent_of v' t = (if child_of v t cur then 1 else parent_of v t)" if "t \<in> threads v" for t
    using that known by (auto simp: v'_def vc_def child_of_def)
  then show "t \<in> threads v \<Longrightarrow> pid_of v' t = pid_of v t \<and> st_of v' t = st_of v t \<and> dir_of v' t = dir_of v t"
    and "t \<in> threads v \<Longrightarrow> parent_of v' t = (if child_of v t cur then 1 else parent_of v t)" by simp_all
  obtain i where i: "i \<in> threads v" "pid_of v i = 1" "parent_of v i = -1" "st_of v i \<noteq> TASK_HANGING"
    using tree by (auto simp: tree_part_def)
  have one: "(scast (1 :: u16) :: u32) = 1" by simp
  have ne: "(scast (pid_of v cur) :: u32) \<noteq> 1" using cur(2) scast_u16_eq [of _ 1] by (simp add: one)
  have minus: "(scast (pid_of v u) :: u32) \<noteq> -1" if "u \<in> threads v" for u
    using taken_range [OF tree_partD(2) [OF tree that]] scast_pid(2) [of "pid_of v u"] by blast
  have ch: "child_of v' t u \<longleftrightarrow> (if child_of v t cur then u = i else child_of v t u)" if "t \<in> threads v" "u \<in> threads v" for t u
    using that i ids tree_partD(3) [OF tree, of u i] scast_u16_eq [of "pid_of v u" 1]
    by (auto simp: child_of_def one)
  show "\<forall>t \<in> threads v'. \<not> child_of v' t cur"
    unfolding th using ch cur i(2) by auto
  have inj: "inj_on (pid_of v') (threads v) = inj_on (pid_of v) (threads v)"
    by (rule inj_on_cong) (simp add: ids)
  have first: "\<not> child_of v i cur" using i(1,3) minus [OF cur(1)] by (auto simp: child_of_def)
  have par: "parent_of v' t = -1 \<or> (\<exists>u \<in> threads v. child_of v' t u \<and> st_of v' u \<noteq> TASK_HANGING)" if t: "t \<in> threads v" for t
  proof (cases "child_of v t cur")
    case True
    then have "child_of v' t i \<and> st_of v' i \<noteq> TASK_HANGING" using ch [OF t i(1)] ids(2) [OF i(1)] i(4) by simp
    then show ?thesis using i(1) by blast
  next
    case False
    then show ?thesis using tree_partD(4) [OF tree t] ch [OF t] ids [OF t] ids(2) by auto
  qed
  have wait: "(\<exists>t \<in> threads v. child_of v' t u) \<and> (\<forall>t \<in> threads v. child_of v' t u \<longrightarrow> st_of v' t \<noteq> TASK_HANGING)"
    if u: "u \<in> threads v" "st_of v' u = TASK_WAITING" "pid_of v' u \<noteq> 1" for u
  proof -
    have w: "st_of v u = TASK_WAITING" "pid_of v u \<noteq> 1" "u \<noteq> i" using u ids i(2) by auto
    then have old: "\<exists>t \<in> threads v. child_of v t u" "\<forall>t \<in> threads v. child_of v t u \<longrightarrow> st_of v t \<noteq> TASK_HANGING"
      using tree u(1) by (auto simp: tree_part_def)
    have "u \<noteq> cur" using w(1) cur(3) by auto
    then have "\<not> child_of v t cur" if "t \<in> threads v" "child_of v t u" for t
      using child_unique [OF tree u(1) cur(1)] that by auto
    then show ?thesis using old ch [OF _ u(1)] ids(2) w(3) by (metis (full_types))
  qed
  show "tree_part v'"
    unfolding tree_part_def th inj
    using tree i first ids par wait by (auto simp: tree_part_def)
qed

end
