(* ===== verification/Proc_Sched.thy ===== *)
theory Proc_Sched
  imports Proc_Inv
begin

text \<open>
  What the scheduler and the memory module leave alone: numbers, parents and page directories of the
  threads, and the sizes of the maps of user pages.
\<close>

section \<open>The scheduler\<close>

definition ids :: "'a ksched_scheme \<Rightarrow> tid list \<times> tid \<times> tid \<times> (tid \<Rightarrow> (u16 \<times> u32 \<times> u32) option) \<times> 'a" where
  "ids s = (thread_all_list s, idle_thread s, main_thread s,
     (\<lambda>t. map_option (\<lambda>p. (pid p, parent_pid p, task.pgdir p)) (tasks s t)), ksched.more s)"

lemma stable_ids_task_of [stable]: "stable ids (task_of t)"
  by (auto simp: stable_def task_of_def split: option.splits)

lemma stable_ids_upd [stable]:
  assumes "\<And>p. pid (f p) = pid p \<and> parent_pid (f p) = parent_pid p \<and> task.pgdir (f p) = task.pgdir p"
  shows "stable ids (upd_task t f)"
  unfolding stable_def upd_task_def using assms
  by (auto simp: bnd_eq_Inr task_of_def ids_def fun_eq_iff split: option.splits)

lemma stable_ids [stable]:
  "stable ids irq_disable" "stable ids (irq_set_status i)" "stable ids (ready_append t)" "stable ids (process_activate t)"
  "stable ids (switch_to t)" "stable ids resume"
  unfolding irq_disable_def irq_set_status_def ready_append_def process_activate_def Sched.page_dir_activate_def switch_to_def resume_def
  by (auto intro!: stable simp: ids_def)

lemma stable_ids_unblock [stable]: "stable ids (thread_unblock t)"
  unfolding thread_unblock_def by (auto intro!: stable simp: ids_def)

lemma stable_ids_schedule [stable]: "stable ids schedule"
  unfolding schedule_def by (auto intro!: stable simp: ids_def)

lemma stable_ids_ops [stable]:
  "stable ids (thread_block st)" "stable ids thread_yield" "stable ids timer_interrupt"
  unfolding thread_block_def thread_yield_def timer_interrupt_def intr_timer_handler_def
  by (auto intro!: stable simp: ids_def)

lemma proc_more:
  assumes "ksched.more (s' :: proc) = ksched.more s"
  shows "pids s' = pids s" and "pmm s' = pmm s" and "user_vaddr s' = user_vaddr s" and "user_bits_at s' = user_bits_at s"
  using assms by (cases s; cases s'; simp)+

lemma ids_same:
  assumes "ids s' = ids s"
  shows "same_ids (view s) (view s')" and "v_idle (view s') = v_idle (view s)" and "v_kv (view s') = v_kv (view s)"
    and "user_vaddr s' = user_vaddr s" and "tasks s' t \<noteq> None \<longleftrightarrow> tasks s t \<noteq> None"
proof -
  have e: "thread_all_list s' = thread_all_list s" "idle_thread s' = idle_thread s" "main_thread s' = main_thread s"
    "ksched.more s' = ksched.more s"
    "\<And>t. map_option (\<lambda>p. (pid p, parent_pid p, task.pgdir p)) (tasks s' t) = map_option (\<lambda>p. (pid p, parent_pid p, task.pgdir p)) (tasks s t)"
    using assms by (auto simp: ids_def fun_eq_iff)
  note m = proc_more [OF e(4)]
  have "pid_of (view s') t = pid_of (view s) t \<and> parent_of (view s') t = parent_of (view s) t \<and> dir_of (view s') t = dir_of (view s) t" for t
  proof (cases "tasks s t")
    case None
    with e(5) [of t] have "tasks s' t = None" by simp
    with None show ?thesis by (simp add: vc_def)
  next
    case (Some p)
    with e(5) [of t] obtain q where "tasks s' t = Some q" "pid q = pid p" "parent_pid q = parent_pid p" "task.pgdir q = task.pgdir p"
      by auto
    with Some show ?thesis by (simp add: vc_view)
  qed
  then show "same_ids (view s) (view s')" using e m by (simp add: same_ids_def)
  show "v_idle (view s') = v_idle (view s)" "v_kv (view s') = v_kv (view s)" "user_vaddr s' = user_vaddr s"
    using e m by simp_all
  show "tasks s' t \<noteq> None \<longleftrightarrow> tasks s t \<noteq> None" using e(5) [of t] by (cases "tasks s t"; cases "tasks s' t") auto
qed

text \<open>What blocking does: the running thread leaves the processor to one that was ready, or to the idle thread.\<close>

lemma block_view:
  assumes inv: "sched_inv (s :: proc)" and stat: "is_blocked_status st" and idle: "running s \<noteq> idle_thread s"
    and run: "thread_block st s = Inr ((), s')"
  shows "sched_inv s'" and "ids s' = ids s"
    and "no_new_sleep (set_stat (running s) st (view s)) (view s')"
proof -
  have i: "running s = idle_thread s \<longrightarrow> st = TASK_BLOCKED" using idle by simp
  obtain s1 where s1: "thread_block st s = Inr ((), s1)" "sched_inv s1"
    "running s1 # thread_ready_list s1 = (if thread_ready_list s = [] then [idle_thread s] else thread_ready_list s)"
    "\<And>t. t \<noteq> running s \<Longrightarrow> t \<noteq> running s1 \<Longrightarrow> tasks s1 t = tasks s t"
    "running s1 \<noteq> running s \<Longrightarrow> stat_of s1 (running s) = st" by (rule thread_block_run [OF inv stat i]) (rule that; assumption)
  have e: "s1 = s'" using s1(1) run by simp
  show inv': "sched_inv s'" using s1(2) e by simp
  show "ids s' = ids s" using stableD [OF stable_ids_ops(1) run] .
  have ok: "sched_ok s" using inv by (simp add: sched_inv_def)
  define r where "r = running s'"
  have r: "r = (if thread_ready_list s = [] then idle_thread s else hd (thread_ready_list s))"
    using arg_cong [OF s1(3), of hd] by (simp add: e r_def)
  have old: "stat_of s r \<noteq> TASK_WAITING \<and> stat_of s r \<noteq> TASK_HANGING \<and> r \<noteq> running s"
  proof (cases "thread_ready_list s = []")
    case True
    then show ?thesis using ok idle r by (auto simp: sched_ok_def)
  next
    case False
    then have "r \<in> set (thread_ready_list s)" using r by simp
    then have "stat_of s r = TASK_READY" using ok by (simp add: sched_ok_def)
    then show ?thesis using inv by (auto simp: sched_inv_def)
  qed
  have new: "stat_of s' r = TASK_RUNNING" using inv' by (simp add: sched_inv_def r_def)
  have st: "st_of (view s') t = stat_of s' t" "st_of (view s) t = stat_of s t" if "t \<in> set (thread_all_list s)" for t
  proof -
    have "tasks s t \<noteq> None" using ok that by (auto simp: sched_ok_def)
    moreover from this have "tasks s' t \<noteq> None" using ids_same(5) [OF \<open>ids s' = ids s\<close>] by blast
    ultimately show "st_of (view s') t = stat_of s' t" "st_of (view s) t = stat_of s t"
      by (auto simp: vc_def stat_of_def)
  qed
  show "no_new_sleep (set_stat (running s) st (view s)) (view s')"
    unfolding no_new_sleep_def
  proof (rule ballI)
    fix t
    assume "t \<in> threads (set_stat (running s) st (view s))"
    then have t: "t \<in> set (thread_all_list s)" by simp
    consider "t = r" | "t = running s" | "t \<noteq> r" "t \<noteq> running s" by blast
    then show "(st_of (view s') t = TASK_WAITING \<longrightarrow> st_of (set_stat (running s) st (view s)) t = TASK_WAITING) \<and>
        (st_of (view s') t = TASK_HANGING \<longleftrightarrow> st_of (set_stat (running s) st (view s)) t = TASK_HANGING)"
    proof cases
      case 1
      then show ?thesis using old new st [OF t] by simp
    next
      case 2
      then have "stat_of s' t = st" using s1(5) old by (simp add: e r_def)
      with 2 show ?thesis using st(1) [OF t] by simp
    next
      case 3
      then have "tasks s' t = tasks s t" using s1(4) by (simp add: e r_def)
      with 3 show ?thesis using st [OF t] by (simp add: stat_of_def)
    qed
  qed
qed

lemma unblock_view:
  assumes ok: "sched_inv (s :: proc)" and t: "t \<in> set (thread_all_list s)" and stat: "is_blocked_status (stat_of s t)"
    and hang: "stat_of s t \<noteq> TASK_HANGING" and run: "thread_unblock t s = Inr ((), s')"
  shows "sched_inv s'" and "ids s' = ids s" and "running s' = running s" and "no_new_sleep (view s) (view s')"
    and "st_of (view s') u = (if u = t then TASK_READY else st_of (view s) u)"
proof -
  have e: "s' = unblocked t s" and ok': "sched_ok (unblocked t s)"
    using unblocked_ok [OF _ t stat] ok run by (auto simp: sched_inv_def)
  obtain p where p: "tasks s t = Some p" using ok t by (auto simp: sched_inv_def sched_ok_def)
  have "running s \<noteq> t" using ok stat by (auto simp: sched_inv_def is_blocked_status_def)
  then show "sched_inv s'" using ok ok' p by (auto simp: e sched_inv_def unblocked_def stat_of_def)
  show "ids s' = ids s" using stableD [OF stable_ids_unblock run] .
  show "running s' = running s" by (simp add: e unblocked_def)
  show st: "st_of (view s') u = (if u = t then TASK_READY else st_of (view s) u)" for u
    using p by (simp add: e unblocked_def vc_def)
  have "st_of (view s) t \<noteq> TASK_HANGING" using hang p by (simp add: vc_def stat_of_def)
  then show "no_new_sleep (view s) (view s')" by (auto simp: no_new_sleep_def st)
qed

lemma stat_view:
  assumes "sched_inv (s :: proc)" and "t \<in> set (thread_all_list s)"
  shows "st_of (view s) t = stat_of s t"
  using assms by (auto simp: sched_inv_def sched_ok_def vc_def stat_of_def)

text \<open>A switch between the running thread and those that are ready wakes nobody and puts nobody to sleep.\<close>

lemma switch_view:
  assumes inv: "sched_inv (s :: proc)" "sched_inv s'" and ids: "ids s' = ids s"
    and same: "\<And>t. t \<noteq> running s \<Longrightarrow> t \<noteq> running s' \<Longrightarrow> tasks s' t = tasks s t"
    and old: "running s' = running s \<or> running s' \<in> set (thread_ready_list s)"
    and left: "running s' \<noteq> running s \<Longrightarrow> running s \<in> set (thread_ready_list s')"
  shows "no_new_sleep (view s) (view s')"
  unfolding no_new_sleep_def
proof
  fix t
  assume "t \<in> threads (view s)"
  moreover have all: "thread_all_list s' = thread_all_list s" using ids by (simp add: ids_def)
  ultimately have st: "st_of (view s) t = stat_of s t" "st_of (view s') t = stat_of s' t"
    using stat_view [OF inv(1)] stat_view [OF inv(2)] by simp_all
  have rdy: "\<And>u. u \<in> set (thread_ready_list s) \<Longrightarrow> stat_of s u = TASK_READY"
    "\<And>u. u \<in> set (thread_ready_list s') \<Longrightarrow> stat_of s' u = TASK_READY"
    "stat_of s (running s) = TASK_RUNNING" "stat_of s' (running s') = TASK_RUNNING"
    using inv by (auto simp: sched_inv_def sched_ok_def)
  consider "t = running s" | "t = running s'" "t \<noteq> running s" | "t \<noteq> running s" "t \<noteq> running s'" by blast
  then show "(st_of (view s') t = TASK_WAITING \<longrightarrow> st_of (view s) t = TASK_WAITING) \<and>
      (st_of (view s') t = TASK_HANGING \<longleftrightarrow> st_of (view s) t = TASK_HANGING)"
  proof cases
    case 1
    then have "stat_of s' t = TASK_RUNNING \<or> stat_of s' t = TASK_READY" using left rdy(2,4) by metis
    with 1 show ?thesis using st rdy(3) by auto
  next
    case 2
    then have "stat_of s t = TASK_READY" using old rdy(1) by metis
    with 2 show ?thesis using st rdy(4) by simp
  next
    case 3
    then show ?thesis using same st by (simp add: stat_of_def)
  qed
qed

lemma timer_view:
  assumes inv: "sched_inv (s :: proc)" and magic: "magic_ok s" and run: "timer_interrupt s = Inr ((), s')"
  shows "sched_inv s'" and "ids s' = ids s" and "no_new_sleep (view s) (view s')"
proof -
  obtain s1 where s1: "timer_interrupt s = Inr ((), s1)" "sched_inv s1"
    "if ticks_of s (running s) = 0 then running s1 # thread_ready_list s1 = thread_ready_list s @ [running s]
      else running s1 = running s \<and> thread_ready_list s1 = thread_ready_list s \<and>
        ticks_of s1 (running s) = ticks_of s (running s) - 1"
    "\<And>t. t \<noteq> running s \<Longrightarrow> t \<noteq> running s1 \<Longrightarrow> tasks s1 t = tasks s t"
    by (rule timer_interrupt_run [OF inv magic]) (rule that; assumption)
  have e: "s1 = s'" using s1(1) run by simp
  show "sched_inv s'" using s1(2) e by simp
  moreover show "ids s' = ids s" using stableD [OF stable_ids_ops(3) run] .
  moreover have r: "running s' = running s \<or> running s' # thread_ready_list s' = thread_ready_list s @ [running s]"
    using s1(3) by (auto simp: e split: if_splits)
  then have "running s' = running s \<or> running s' \<in> set (thread_ready_list s)"
    by (cases "thread_ready_list s") auto
  moreover have "running s \<in> set (thread_ready_list s')" if "running s' \<noteq> running s"
    using r that by (cases "thread_ready_list s") auto
  ultimately show "no_new_sleep (view s) (view s')"
    using s1(4) e by (intro switch_view [OF inv]) simp_all
qed

end
