(* ===== verification/Proc_Pages.thy ===== *)
theory Proc_Pages
  imports Proc_Sched
begin

text \<open>
  The kernel pages that the threads own: the page of the PCB (the first thread's is not of the heap),
  the page directory and, until the process exits, the 23 pages of the map of its user pages. They
  are marked in the kernel's map, and no two of them overlap.
\<close>

section \<open>Ownership\<close>

definition piece :: "pview \<Rightarrow> tid \<times> nat \<Rightarrow> u32 \<times> nat" where
  "piece v = (\<lambda>(t, k).
     if k = 0 then (t, if t = v_main v then 0 else 1)
     else if k = 1 then (dir_of v t, if dir_of v t = 0 then 0 else 1)
     else (v_bits v t, if dir_of v t = 0 \<or> st_of v t = TASK_HANGING then 0 else 23))"

definition area :: "u32 \<times> nat \<Rightarrow> u32 set" where
  "area p = run_of (fst p) (snd p)"

definition keys :: "pview \<Rightarrow> (tid \<times> nat) set" where
  "keys v = threads v \<times> {..<3}"

definition pages_part :: "pview \<Rightarrow> bool" where
  "pages_part v \<longleftrightarrow> kv_ok (v_kv v) \<and> \<not> in_map (v_kv v) (v_main v) 1 \<and>
     (\<forall>x \<in> keys v. snd (piece v x) \<noteq> 0 \<longrightarrow> in_map (v_kv v) (fst (piece v x)) (snd (piece v x))) \<and>
     (\<forall>x \<in> keys v. area (piece v x) \<subseteq> marked (v_kv v)) \<and>
     (\<forall>x \<in> keys v. \<forall>y \<in> keys v. x \<noteq> y \<longrightarrow> area (piece v x) \<inter> area (piece v y) = {})"

lemma pages_partD:
  assumes "pages_part v"
  shows "kv_ok (v_kv v)" and "\<not> in_map (v_kv v) (v_main v) 1"
    and "x \<in> keys v \<Longrightarrow> snd (piece v x) \<noteq> 0 \<Longrightarrow> in_map (v_kv v) (fst (piece v x)) (snd (piece v x))"
    and "x \<in> keys v \<Longrightarrow> area (piece v x) \<subseteq> marked (v_kv v)"
    and "x \<in> keys v \<Longrightarrow> y \<in> keys v \<Longrightarrow> x \<noteq> y \<Longrightarrow> area (piece v x) \<inter> area (piece v y) = {}"
  using assms unfolding pages_part_def by blast+

lemma area_0 [simp]: "area (a, 0) = {}"
  by (simp add: area_def run_of_def)

lemma area_1 [simp]: "area (a, Suc 0) = {a}"
  by (simp add: area_def)

lemma piece_simps:
  "piece v (t, 0) = (t, if t = v_main v then 0 else 1)"
  "piece v (t, Suc 0) = (dir_of v t, if dir_of v t = 0 then 0 else 1)"
  "piece v (t, 2) = (v_bits v t, if dir_of v t = 0 \<or> st_of v t = TASK_HANGING then 0 else 23)"
  by (simp_all add: piece_def)

lemma key_cases: "x \<in> keys v \<Longrightarrow> \<exists>t \<in> threads v. x = (t, 0) \<or> x = (t, Suc 0) \<or> x = (t, 2)"
  by (cases x) (auto simp: keys_def)

text \<open>Giving pages back: what remains was owned before, and only other pages were freed.\<close>

lemma pages_part_less:
  assumes part: "pages_part v" and kv: "kv_ok (v_kv v')" "same_map (v_kv v) (v_kv v')" "v_main v' = v_main v"
    and sub: "keys v' \<subseteq> keys v" and pc: "\<And>x. x \<in> keys v' \<Longrightarrow> piece v' x = piece v x \<or> snd (piece v' x) = 0"
    and freed: "marked (v_kv v) - R \<subseteq> marked (v_kv v')" "\<And>x. x \<in> keys v' \<Longrightarrow> area (piece v' x) \<inter> R = {}"
  shows "pages_part v'"
proof -
  note D = pages_partD [OF part]
  have less: "area (piece v' x) \<subseteq> area (piece v x)" if "x \<in> keys v'" for x
    using pc [OF that] by (auto simp: area_def run_of_def)
  have "in_map (v_kv v') (fst (piece v' x)) (snd (piece v' x))" if "x \<in> keys v'" "snd (piece v' x) \<noteq> 0" for x
    using D(3) [of x] pc [OF that(1)] that sub in_map_same [OF kv(2)] by auto
  moreover have "area (piece v' x) \<subseteq> marked (v_kv v')" if "x \<in> keys v'" for x
    using less [OF that] D(4) [of x] freed(1) freed(2) [OF that] that sub by blast
  moreover have "area (piece v' x) \<inter> area (piece v' y) = {}" if "x \<in> keys v'" "y \<in> keys v'" "x \<noteq> y" for x y
    using less [OF that(1)] less [OF that(2)] D(5) [of x y] that sub by blast
  ultimately show ?thesis
    unfolding pages_part_def using kv(1,3) D(2) in_map_same [OF kv(2)] by auto
qed

lemma pages_part_same:
  assumes part: "pages_part v" and ids: "same_ids v v'" and kv: "v_kv v' = v_kv v"
    and hang: "\<forall>t \<in> threads v. st_of v t = TASK_HANGING \<longrightarrow> st_of v' t = TASK_HANGING"
  shows "pages_part v'"
proof (rule pages_part_less [OF part, of _ "{}"])
  show "keys v' \<subseteq> keys v" using ids by (simp add: keys_def same_ids_def)
  fix x
  assume "x \<in> keys v'"
  then obtain t where "t \<in> threads v" "x = (t, 0) \<or> x = (t, Suc 0) \<or> x = (t, 2)"
    using key_cases [of x v'] ids by (auto simp: same_ids_def)
  then show "piece v' x = piece v x \<or> snd (piece v' x) = 0"
    using ids hang by (auto simp: same_ids_def piece_simps)
qed (use pages_partD(1) [OF part] kv ids in \<open>simp_all add: same_ids_def\<close>)

text \<open>A new thread, with pages of its own that were free.\<close>

lemma pages_part_more:
  assumes part: "pages_part v" and kv: "kv_ok (v_kv v')" "same_map (v_kv v) (v_kv v')" "v_main v' = v_main v"
    and th: "threads v' = insert c (threads v)" "c \<notin> threads v"
    and old: "\<And>x. x \<in> keys v \<Longrightarrow> piece v' x = piece v x"
    and fresh: "\<And>k. k < 3 \<Longrightarrow> snd (piece v' (c, k)) \<noteq> 0 \<Longrightarrow> in_map (v_kv v) (fst (piece v' (c, k))) (snd (piece v' (c, k)))"
      "\<And>k. k < 3 \<Longrightarrow> area (piece v' (c, k)) \<inter> marked (v_kv v) = {}"
      "\<And>k. k < 3 \<Longrightarrow> area (piece v' (c, k)) \<subseteq> marked (v_kv v')"
      "\<And>k l. k < 3 \<Longrightarrow> l < 3 \<Longrightarrow> k \<noteq> l \<Longrightarrow> area (piece v' (c, k)) \<inter> area (piece v' (c, l)) = {}"
    and grows: "marked (v_kv v) \<subseteq> marked (v_kv v')"
  shows "pages_part v'"
proof -
  note D = pages_partD [OF part]
  have split: "x \<in> keys v \<or> (\<exists>k < 3. x = (c, k))" if "x \<in> keys v'" for x
    using that by (auto simp: keys_def th)
  have map': "in_map (v_kv v') = in_map (v_kv v)" by (rule in_map_same [OF kv(2)])
  have "in_map (v_kv v') (fst (piece v' x)) (snd (piece v' x))" if "x \<in> keys v'" "snd (piece v' x) \<noteq> 0" for x
    using split [OF that(1)]
  proof
    assume x: "x \<in> keys v"
    then show ?thesis using D(3) [OF x] old [OF x] that(2) by (simp add: map')
  next
    assume "\<exists>k < 3. x = (c, k)"
    then show ?thesis using fresh(1) that(2) by (auto simp: map')
  qed
  moreover have "area (piece v' x) \<subseteq> marked (v_kv v')" if "x \<in> keys v'" for x
    using split [OF that]
  proof
    assume x: "x \<in> keys v"
    then show ?thesis using D(4) [OF x] old [OF x] grows by simp
  next
    assume "\<exists>k < 3. x = (c, k)"
    then show ?thesis using fresh(3) by blast
  qed
  moreover have "area (piece v' x) \<inter> area (piece v' y) = {}" if xy: "x \<in> keys v'" "y \<in> keys v'" "x \<noteq> y" for x y
  proof -
    have mixed: "area (piece v' a) \<inter> area (piece v' (c, k)) = {}" if "a \<in> keys v" "k < 3" for a k
      using D(4) [OF that(1)] old [OF that(1)] fresh(2) [OF that(2)] by auto
    from split [OF xy(1)] split [OF xy(2)] show ?thesis
    proof (elim disjE exE conjE)
      assume a: "x \<in> keys v" "y \<in> keys v"
      show ?thesis using D(5) [OF a xy(3)] by (simp add: old a)
    next
      fix k assume a: "x \<in> keys v" "k < 3" "y = (c, k)"
      show ?thesis using mixed [OF a(1,2)] by (simp add: a(3))
    next
      fix k assume a: "k < 3" "x = (c, k)" "y \<in> keys v"
      show ?thesis using mixed [OF a(3,1)] by (simp add: a(2) Int_commute)
    next
      fix k l assume a: "k < 3" "x = (c, k)" "l < 3" "y = (c, l)"
      then show ?thesis using fresh(4) xy(3) by simp
    qed
  qed
  ultimately show ?thesis
    unfolding pages_part_def using kv(1,3) D(2) map' by auto
qed

end
