(* ===== verification/Proc_Steps.thy ===== *)
theory Proc_Steps
  imports Proc_Pages
begin

text \<open>
  The invariant of the process layer, and that whatever the scheduler does keeps it.
\<close>

section \<open>The maps of user pages\<close>

lemma mm_user_stable [stable]:
  "stable userprog_vaddr (load va)" "stable userprog_vaddr (store va w)" "stable userprog_vaddr (zero_range va n)"
  "stable userprog_vaddr (get_mem pa)" "stable userprog_vaddr (set_mem pa v)"
  by (auto simp: stable_def load_def store_def zero_range_def get_mem_def set_mem_def
      split: option.splits if_splits prod.splits)

lemma upd_pool_user [simp]: "userprog_vaddr (upd_pool pf f s) = userprog_vaddr s"
  by (cases pf) simp_all

lemma pages_user_stable [stable]:
  "stable userprog_vaddr (pool_lock pf)" "stable userprog_vaddr (pool_unlock pf)"
  "stable userprog_vaddr (palloc pf)" "stable userprog_vaddr (free_a_phy_page pa)"
  "stable userprog_vaddr (page_table_add va pa fl)" "stable userprog_vaddr (Modify_PTE va pa fl)"
  "stable userprog_vaddr (page_table_pte_remove va)" "stable userprog_vaddr (Paging.addr_v2p va)"
  "stable userprog_vaddr (Paging.page_dir_activate dir)"
  "stable userprog_vaddr (vaddr_get PF_KERNEL n)" "stable userprog_vaddr (vaddr_remove PF_KERNEL va n)"
  unfolding pool_lock_def pool_unlock_def palloc_def free_a_phy_page_def page_table_add_def Modify_PTE_def
    page_table_pte_remove_def Paging.addr_v2p_def Paging.page_dir_activate_def vaddr_get_def vaddr_remove_def
  by (auto intro!: stable)

lemma loops_user_stable [stable]:
  "stable userprog_vaddr (zero_pages va n)" "stable userprog_vaddr (copy_words d c n)"
  "stable userprog_vaddr (map_pages pf va n)" "stable userprog_vaddr (unmap_pages inp va n)"
  by (induction n arbitrary: va d c) (auto intro!: stable)

lemma kernel_user_stable [stable]:
  "stable userprog_vaddr (get_kernel_pages n)" "stable userprog_vaddr (mfree_page PF_KERNEL va n)"
  "stable userprog_vaddr create_page_dir" "stable userprog_vaddr (full_childProcess_pageTable c p va)"
  unfolding get_kernel_pages_def malloc_page_def mfree_page_def create_page_dir_def full_childProcess_pageTable_def
  by (auto intro!: stable)

lemma tables_user_stable [stable]:
  "stable userprog_vaddr (copy_tables c p b st is)" "stable userprog_vaddr (free_ptes first is)"
  by (induction "is") (auto intro!: stable)

lemma dirs_user_stable [stable]: "stable userprog_vaddr (free_pdes dir is)"
  by (induction "is") (auto intro!: stable)

text \<open>Calls leave the maps of user pages and the running thread alone.\<close>

definition uv_run :: "proc \<Rightarrow> (tid \<Rightarrow> virtual_addr) \<times> tid" where
  "uv_run s = (user_vaddr s, running s)"

lemma stable_uv [stable]:
  "stable userprog_vaddr m \<Longrightarrow> stable uv_run (mm_call m)" "stable uv_run (fs_call f)" "stable uv_run (pid_call p)"
  "stable uv_run (task_of t)" "stable uv_run (upd_task t g)" "stable uv_run (set_pcb t q)" "stable uv_run (set_words a ws)"
  "stable uv_run (set_word a w)"
proof -
  show "stable uv_run (mm_call m)" if "stable userprog_vaddr m"
    using that unfolding stable_def by (auto dest!: mm_call_Inr simp: uv_run_def with_mm_def mm_of_def)
  show "stable uv_run (fs_call f)"
    unfolding stable_def by (auto dest!: fs_call_Inr simp: uv_run_def)
  show "stable uv_run (pid_call p)" by (auto simp: stable_def pid_call_Inr uv_run_def)
  show "stable uv_run (task_of t)" by (auto simp: stable_def task_of_Inr)
  show "stable uv_run (upd_task t g)" by (auto simp: stable_def upd_task_Inr uv_run_def)
  show "stable uv_run (set_pcb t q)" by (auto simp: stable_def set_pcb_def uv_run_def)
  show word: "stable uv_run (set_word a w)" for a w by (auto simp: stable_def set_word_def uv_run_def)
  show "stable uv_run (set_words a ws)" by (induction ws arbitrary: a) (auto intro!: stable word)
qed

section \<open>The invariant\<close>

text \<open>
  The idle thread is a kernel thread without children; what has a parent is a process, with a page
  directory. The map of a process's user pages has its full size.
\<close>

definition idle_part :: "pview \<Rightarrow> bool" where
  "idle_part v \<longleftrightarrow> dir_of v (v_idle v) = 0 \<and> parent_of v (v_idle v) = -1 \<and> pid_of v (v_idle v) \<noteq> 1 \<and>
     (\<forall>t \<in> threads v. \<not> child_of v t (v_idle v)) \<and> (\<forall>t \<in> threads v. parent_of v t \<noteq> -1 \<longrightarrow> dir_of v t \<noteq> 0)"

definition vinv :: "pview \<Rightarrow> bool" where
  "vinv v \<longleftrightarrow> sched_part v \<and> tree_part v \<and> idle_part v \<and> pages_part v"

definition umaps :: "pview \<Rightarrow> (tid \<Rightarrow> virtual_addr) \<Rightarrow> bool" where
  "umaps v uv \<longleftrightarrow> (\<forall>t \<in> threads v. dir_of v t \<noteq> 0 \<longrightarrow> btmp_bytes_len (vaddr_bitmap (uv t)) = user_bytes)"

definition pinv :: "proc \<Rightarrow> bool" where
  "pinv s \<longleftrightarrow> vinv (view s) \<and> umaps (view s) (user_vaddr s)"

lemma vinvD:
  assumes "vinv v"
  shows "sched_part v" and "tree_part v" and "idle_part v" and "pages_part v"
  using assms by (simp_all add: vinv_def)

lemma sched_part_known: "sched_part v \<Longrightarrow> \<forall>t \<in> threads v. v_core v t \<noteq> None"
  by (simp add: sched_part_def)

lemma sched_part_cong:
  assumes "sched_part v" and "v_ready v' = v_ready v" "v_all v' = v_all v" "v_run v' = v_run v" "v_idle v' = v_idle v"
    and "\<forall>t \<in> threads v. v_core v' t \<noteq> None" and "\<forall>t \<in> threads v. st_of v' t = st_of v t"
  shows "sched_part v'"
proof -
  have "v_run v \<in> threads v" "v_idle v \<in> threads v" using assms(1) by (simp_all add: sched_part_def)
  then have "st_of v' (v_run v) = st_of v (v_run v)" "st_of v' (v_idle v) = st_of v (v_idle v)" using assms(7) by auto
  then show ?thesis
    using assms(1,6,7) unfolding sched_part_def assms(2-5) by auto
qed

lemma idle_part_same:
  assumes "idle_part v" and "same_ids v v'" and "v_idle v' = v_idle v" and "v_idle v \<in> threads v"
  shows "idle_part v'"
  using assms unfolding idle_part_def same_ids_def child_of_def by simp

lemma same_ids_trans: "same_ids u v \<Longrightarrow> same_ids v w \<Longrightarrow> same_ids u w"
  by (simp add: same_ids_def)

lemma same_ids_set_stat [simp]: "same_ids v (set_stat t st v)"
  by (simp add: same_ids_def)

lemma same_ids_from: "same_ids v w \<Longrightarrow> same_ids (set_stat t st v) w"
  by (simp add: same_ids_def)

lemma umaps_same: "umaps v uv \<Longrightarrow> same_ids v v' \<Longrightarrow> umaps v' uv"
  by (simp add: umaps_def same_ids_def)

text \<open>Whatever the scheduler does keeps the invariant, given what happens to the process tree.\<close>

lemma pinv_sched:
  assumes inv: "pinv s" and s': "sched_inv s'" "ids s' = ids s" and tree: "tree_part (view s')"
    and hang: "\<forall>t \<in> threads (view s). st_of (view s) t = TASK_HANGING \<longrightarrow> st_of (view s') t = TASK_HANGING"
  shows "pinv s'"
proof -
  note D = vinvD [of "view s"] and I = ids_same [OF s'(2)]
  have v: "vinv (view s)" and u: "umaps (view s) (user_vaddr s)" using inv by (simp_all add: pinv_def)
  have "v_idle (view s) \<in> threads (view s)" using D(1) [OF v] by (simp add: sched_part_def)
  then have "idle_part (view s')" by (rule idle_part_same [OF D(3) [OF v] I(1,2)])
  moreover have "pages_part (view s')" by (rule pages_part_same [OF D(4) [OF v] I(1,3) hang])
  moreover have "umaps (view s') (user_vaddr s')" using umaps_same [OF u I(1)] I(4) by simp
  ultimately show ?thesis using s'(1) tree by (simp add: pinv_def vinv_def sched_part_view)
qed

lemma pinv_wake:
  assumes inv: "pinv s" and s': "sched_inv s'" "ids s' = ids s" and wake: "no_new_sleep (view s) (view s')"
  shows "pinv s'"
proof (rule pinv_sched [OF inv s'])
  show "tree_part (view s')"
    using inv by (intro tree_part_wake [OF _ ids_same(1) [OF s'(2)] wake]) (simp add: pinv_def vinv_def)
  show "\<forall>t \<in> threads (view s). st_of (view s) t = TASK_HANGING \<longrightarrow> st_of (view s') t = TASK_HANGING"
    using wake by (simp add: no_new_sleep_def)
qed

lemma pinv_block:
  assumes inv: "pinv s" and stat: "is_blocked_status st" and idle: "running s \<noteq> idle_thread s"
    and tree: "tree_part (set_stat (running s) st (view s))" and run: "thread_block st s = Inr ((), s')"
  shows "pinv s'"
proof -
  have sched: "sched_inv s" using inv by (simp add: pinv_def vinv_def sched_part_view)
  note b = block_view [OF sched stat idle run]
  show ?thesis
  proof (rule pinv_sched [OF inv b(1,2)])
    show "tree_part (view s')" by (rule tree_part_wake [OF tree same_ids_from [OF ids_same(1) [OF b(2)]] b(3)])
    have "st_of (view s) (running s) = TASK_RUNNING"
      using sched stat_view [OF sched] by (auto simp: sched_inv_def sched_ok_def)
    then show "\<forall>t \<in> threads (view s). st_of (view s) t = TASK_HANGING \<longrightarrow> st_of (view s') t = TASK_HANGING"
      using b(3) by (auto simp: no_new_sleep_def)
  qed
qed

lemma pinv_sched_call: "pinv s \<Longrightarrow> pinv (s\<lparr>ksched.addr_v2p := a\<rparr>)"
  by (simp add: pinv_def)

end
