(* ===== verification/Proc_Exit.thy ===== *)
theory Proc_Exit
  imports Proc_Steps
begin

text \<open>\<open>sys_exit\<close> keeps the invariant of the process layer.\<close>

section \<open>Leaving\<close>

lemma in_map_less: "in_map v a n \<Longrightarrow> m \<le> n \<Longrightarrow> in_map v a m"
  unfolding in_map_def by fastforce

lemma run_of_less: "m \<le> n \<Longrightarrow> run_of a m \<subseteq> run_of a n"
  by (auto simp: run_of_def)

lemma release_view:
  assumes kv: "kv_ok (kernel_vaddr (pmm s))" and bits: "in_map (kernel_vaddr (pmm s)) (user_bits_at s t) 22"
    and len: "btmp_bytes_len (vaddr_bitmap (user_vaddr s t)) = user_bytes"
    and run: "release_prog_resource t s = Inr ((), s')"
  obtains kv' where "view s' = (view s)\<lparr>v_kv := kv'\<rparr>" and "kv_ok kv'" and "same_map (kernel_vaddr (pmm s)) kv'"
    and "marked kv' = marked (kernel_vaddr (pmm s)) - run_of (user_bits_at s t) 22" and "user_vaddr s' = user_vaddr s"
proof -
  obtain p s1 s2 where p: "tasks s t = Some p" and s1: "mm_call (free_pdes (task.pgdir p) [0..<768]) s = Inr ((), s1)"
    and s2: "mm_call (mfree_page PF_KERNEL (user_bits_at s1 t) (btmp_bytes_len (vaddr_bitmap (user_vaddr s1 t)) div 4096)) s1 = Inr ((), s2)"
    and s3: "fs_call (release_files [3..<MAX_FILES_OPEN_PER_PROC]) s2 = Inr ((), s')"
    using run by (auto simp: release_prog_resource_def bnd_eq_Inr task_of_Inr)
  have "stable view (mm_call (free_pdes (task.pgdir p) [0..<768]))" by (intro stable)
  then have v1: "view s1 = view s" by (rule stableD) (rule s1)
  have "stable uv_run (mm_call (free_pdes (task.pgdir p) [0..<768]))" by (intro stable)
  then have "uv_run s1 = uv_run s" by (rule stableD) (rule s1)
  then have uv1: "user_vaddr s1 = user_vaddr s" by (simp add: uv_run_def)
  have kv1: "kernel_vaddr (pmm s1) = kernel_vaddr (pmm s)" "user_bits_at s1 = user_bits_at s"
    using arg_cong [OF v1, of v_kv] arg_cong [OF v1, of v_bits] by simp_all
  have "user_bytes div 4096 = of_nat 22" by (simp add: user_bytes_def USER_VADDR_START_def)
  with s2 have s2': "mm_call (mfree_page PF_KERNEL (user_bits_at s t) (of_nat 22)) s1 = Inr ((), s2)"
    by (simp only: uv1 len kv1)
  have "stable uv_run (mm_call (mfree_page PF_KERNEL (user_bits_at s t) (of_nat 22)))" by (intro stable)
  then have uv2: "uv_run s2 = uv_run s1" by (rule stableD) (rule s2')
  obtain kv' where kv': "view s2 = (view s1)\<lparr>v_kv := kv'\<rparr>" "kv_ok kv'" "same_map (kernel_vaddr (pmm s1)) kv'"
    "marked kv' = marked (kernel_vaddr (pmm s1)) - run_of (user_bits_at s t) 22"
    by (rule mfree_call [OF _ _ _ s2']) (use kv bits kv1 that in simp_all)
  have "view s' = view s2" by (rule stableD [OF stable_fs_call s3])
  moreover have "uv_run s' = uv_run s2" by (rule stableD [OF stable_uv(2) s3])
  ultimately show thesis
    using that [of kv'] kv' v1 kv1 uv1 uv2 by (simp add: uv_run_def)
qed

text \<open>The parent that \<open>sys_exit\<close> looks for.\<close>

lemma pid2thread_run:
  assumes "all_known (thread_all_list s) s"
  shows "pid2thread no s = Inr (List.find (\<lambda>t. scast (pid (the (tasks s t))) = no) (thread_all_list s), s)"
  using traverse_find [OF assms, of "\<lambda>p. scast (pid p) = no"] by (simp add: pid2thread_def pid_check_def)

lemma find_Some_ex: "x \<in> set xs \<Longrightarrow> P x \<Longrightarrow> \<exists>y. List.find P xs = Some y"
  by (induction xs) auto

lemma pinv_known: "pinv s \<Longrightarrow> all_known (thread_all_list s) s"
  by (auto simp: pinv_def vinv_def sched_part_def all_known_def)

lemma parent_found:
  assumes tree: "tree_part (view s)" and known: "all_known (thread_all_list s) s" and t: "tasks s t = Some p" "t \<in> set (thread_all_list s)" "parent_pid p \<noteq> -1"
  obtains u q where "pid2thread (parent_pid p) s = Inr (Some u, s)" and "u \<in> set (thread_all_list s)" and "tasks s u = Some q"
    and "child_of (view s) t u" and "status q \<noteq> TASK_HANGING"
proof -
  have vt: "vc (view s) t = core p" using t by (simp add: vc_view)
  obtain w where w: "w \<in> threads (view s)" "child_of (view s) t w" "st_of (view s) w \<noteq> TASK_HANGING"
    using tree_partD(4) [OF tree, of t] t(2,3) vt by auto
  have is_par: "scast (pid (the (tasks s u))) = parent_pid p \<longleftrightarrow> child_of (view s) t u" if "u \<in> set (thread_all_list s)" for u
    using known that vt by (auto simp: all_known_def child_of_def vc_def)
  obtain u where u: "List.find (\<lambda>u. scast (pid (the (tasks s u))) = parent_pid p) (thread_all_list s) = Some u"
    using find_Some_ex [of w "thread_all_list s" "\<lambda>u. scast (pid (the (tasks s u))) = parent_pid p"] w(1,2) is_par [of w] by auto
  then have mem: "u \<in> set (thread_all_list s)" "child_of (view s) t u"
    using find_Some_in [OF u] is_par by auto
  then have "u = w" using child_unique [OF tree, of u w t] w(1,2) by simp
  moreover obtain q where q: "tasks s u = Some q" using known mem(1) by (auto simp: all_known_def)
  ultimately have "status q \<noteq> TASK_HANGING" using w(3) by (simp add: vc_view)
  then show thesis
    using that [of u q] mem q u pid2thread_run [OF known, of "parent_pid p"] by simp
qed

lemma child_of_same:
  "same_ids v v' \<Longrightarrow> t \<in> threads v \<Longrightarrow> u \<in> threads v \<Longrightarrow> child_of v' t u = child_of v t u"
  by (simp add: same_ids_def child_of_def)

lemma same_ids_kv [simp]: "same_ids v (v\<lparr>v_kv := kv\<rparr>)"
  by (simp add: same_ids_def vc_def)

text \<open>The children go to the first process.\<close>

lemma adopted_vinv:
  assumes inv: "vinv v" and cur: "v_run v = cur" "parent_of v cur \<noteq> -1"
    and v': "v' = v\<lparr>v_core := (\<lambda>t. if t \<in> threads v then map_option (adopt (scast (pid_of v cur))) (v_core v t) else v_core v t)\<rparr>"
  shows "vinv v'" and "\<forall>t \<in> threads v'. \<not> child_of v' t cur" and "pid_of v cur \<noteq> 1"
    and "t \<in> threads v \<Longrightarrow> pid_of v' t = pid_of v t \<and> st_of v' t = st_of v t \<and> dir_of v' t = dir_of v t"
    and "parent_of v' cur \<noteq> -1" and "cur \<noteq> v_idle v"
proof -
  note D = vinvD [OF inv]
  have known: "\<forall>t \<in> threads v. v_core v t \<noteq> None" by (rule sched_part_known [OF D(1)])
  have run: "cur \<in> threads v" "st_of v cur = TASK_RUNNING" "v_idle v \<in> threads v"
    using D(1) cur(1) by (simp_all add: sched_part_def)
  obtain i where "i \<in> threads v" "pid_of v i = 1" "parent_of v i = -1" by (rule tree_part_first [OF D(2)])
  then show pid: "pid_of v cur \<noteq> 1" using tree_partD(3) [OF D(2) run(1), of i] cur(2) by auto
  show idle: "cur \<noteq> v_idle v" using D(3) cur(2) by (auto simp: idle_part_def)
  have "st_of v cur \<noteq> TASK_WAITING" using run by simp
  note A = tree_part_adopt [OF D(2) run(1) pid this known, folded v']
  show none: "\<forall>t \<in> threads v'. \<not> child_of v' t cur" by (rule A(2))
  show ids: "pid_of v' t = pid_of v t \<and> st_of v' t = st_of v t \<and> dir_of v' t = dir_of v t" if "t \<in> threads v" for t
    by (rule A(3) [OF that])
  have par: "parent_of v' t = (if child_of v t cur then 1 else parent_of v t)" if "t \<in> threads v" for t
    by (rule A(4) [OF that])
  have minus: "(scast (pid_of v u) :: u32) \<noteq> -1" if "u \<in> threads v" for u
    using taken_range [OF tree_partD(2) [OF D(2) that]] scast_pid(2) [of "pid_of v u"] by blast
  have minus1: "parent_of v' t = -1 \<longleftrightarrow> parent_of v t = -1" if "t \<in> threads v" for t
    using par [OF that] minus [OF run(1)] by (auto simp: child_of_def)
  show "parent_of v' cur \<noteq> -1" using minus1 run(1) cur(2) by simp
  have th: "threads v' = threads v" "v_idle v' = v_idle v" "v_main v' = v_main v" "v_kv v' = v_kv v" "v_bits v' = v_bits v"
    by (simp_all add: v')
  have "sched_part v'"
    by (rule sched_part_cong [OF D(1)]) (use known ids in \<open>auto simp: v'\<close>)
  moreover have "idle_part v'"
  proof -
    have one: "(scast (pid_of v (v_idle v)) :: u32) \<noteq> 1"
      using D(3) scast_u16_eq [of "pid_of v (v_idle v)" 1] by (auto simp: idle_part_def)
    have "\<not> child_of v' t (v_idle v)" if "t \<in> threads v" for t
      using D(3) that par [OF that] ids [OF run(3)] one by (auto simp: idle_part_def child_of_def)
    moreover have "parent_of v' t \<noteq> -1 \<longrightarrow> dir_of v' t \<noteq> 0" if "t \<in> threads v" for t
      using D(3) that minus1 [OF that] ids [OF that] by (auto simp: idle_part_def)
    ultimately show ?thesis
      using D(3) ids [OF run(3)] minus1 [OF run(3)] by (simp add: idle_part_def th)
  qed
  moreover have "pages_part v'"
  proof (rule pages_part_less [OF D(4), of _ "{}"])
    fix x
    assume "x \<in> keys v'"
    then obtain t where "t \<in> threads v" "x = (t, 0) \<or> x = (t, Suc 0) \<or> x = (t, 2)"
      using key_cases [of x v'] th by auto
    then show "piece v' x = piece v x \<or> snd (piece v' x) = 0"
      using ids [of t] by (auto simp: piece_simps th)
  qed (use pages_partD(1) [OF D(4)] in \<open>simp_all add: th keys_def\<close>)
  ultimately show "vinv v'" using A(1) by (simp add: vinv_def)
qed

lemma sched_inv_addr: "sched_inv (s\<lparr>ksched.addr_v2p := a\<rparr>) \<longleftrightarrow> sched_inv s"
  by (simp add: sched_inv_def sched_ok_def stat_of_def)

text \<open>The parent is woken up and the process hangs, having given 22 pages back.\<close>

lemma exit_parent:
  assumes inv: "vinv v" and s: "view s = v\<lparr>v_kv := kv\<rparr>" and cur: "v_run v = cur" "parent_of v cur \<noteq> -1"
    and p: "tasks s cur = Some p" and par: "pid2thread (parent_pid p) s = Inr (Some u, s)" "tasks s u = Some q"
    and wake: "whenm (status q = TASK_WAITING) (thread_unblock u) s = Inr ((), s1)"
  shows "sched_inv s1" and "ids s1 = ids s" and "running s1 = cur" and "no_new_sleep (view s) (view s1)"
    and "st_of (view s1) u \<noteq> TASK_WAITING" and "u \<in> threads v" and "child_of v cur u" and "tree_part (view s)"
proof -
  note D = vinvD [OF inv]
  have cr: "cur \<in> threads v" using D(1) cur(1) by (simp add: sched_part_def)
  have sel: "thread_all_list s = v_all v" "running s = cur"
    using arg_cong [OF s, of v_all] arg_cong [OF s, of v_run] cur(1) by simp_all
  have core: "v_core (view s) = v_core v" "vc (view s) = vc v" using s by (simp_all add: vc_def fun_eq_iff)
  show tree: "tree_part (view s)"
    by (rule tree_part_wake [OF D(2)]) (simp_all add: s no_new_sleep_def vc_def)
  have sched: "sched_inv s"
    unfolding sched_part_view [symmetric]
    by (rule sched_part_cong [OF D(1)]) (use sched_part_known [OF D(1)] core s in simp_all)
  have known: "all_known (thread_all_list s) s" using sched by (auto simp: all_known_def sched_inv_def sched_ok_def)
  have vp: "vc v cur = core p" using p core by (simp add: vc_view flip: core(2))
  have "u \<in> threads v \<and> child_of v cur u"
  proof (rule parent_found [OF tree known p])
    show "cur \<in> set (thread_all_list s)" "parent_pid p \<noteq> -1" using cr cur(2) vp sel by simp_all
    fix u' q'
    assume "pid2thread (parent_pid p) s = Inr (Some u', s)" "u' \<in> set (thread_all_list s)" "child_of (view s) cur u'"
    then show "u \<in> threads v \<and> child_of v cur u" using par sel core by (simp add: child_of_def)
  qed
  then show u: "u \<in> threads v" "child_of v cur u" by simp_all
  have "sched_inv s1 \<and> ids s1 = ids s \<and> running s1 = cur \<and> no_new_sleep (view s) (view s1) \<and> st_of (view s1) u \<noteq> TASK_WAITING"
  proof (cases "status q = TASK_WAITING")
    case True
    then have st: "stat_of s u = TASK_WAITING" using par(2) by (simp add: stat_of_def)
    have "thread_unblock u s = Inr ((), s1)" using wake True by simp
    note U = unblock_view [OF sched _ _ _ this, unfolded st is_blocked_status_def sel]
    show ?thesis using U(1-4) U(5) [of u] u(1) by simp
  next
    case False
    then have "s1 = s" using wake by simp
    with False show ?thesis using sched sel par(2) by (simp add: no_new_sleep_def vc_view)
  qed
  then show "sched_inv s1" "ids s1 = ids s" "running s1 = cur" "no_new_sleep (view s) (view s1)" "st_of (view s1) u \<noteq> TASK_WAITING"
    by simp_all
qed

text \<open>Then the process hangs: what the tree is, and who hangs.\<close>

lemma hang_tree:
  assumes inv: "vinv v" and same: "same_ids v (view s)" and tree: "tree_part (view s)" and sched: "sched_inv s"
    and idle: "running s = cur" "v_idle (view s) = v_idle v"
    and cur: "v_run v = cur" "cur \<noteq> v_idle v" "pid_of v cur \<noteq> 1" "\<forall>t \<in> threads v. \<not> child_of v t cur"
    and u: "u \<in> threads v" "child_of v cur u" "st_of (view s) u \<noteq> TASK_WAITING"
    and block: "thread_block TASK_HANGING s = Inr ((), s')"
  shows "sched_inv s'" and "ids s' = ids s" and "tree_part (view s')" and "st_of (view s') cur = TASK_HANGING"
    and "t \<in> threads v \<Longrightarrow> st_of (view s) t = TASK_HANGING \<Longrightarrow> st_of (view s') t = TASK_HANGING"
proof -
  note D = vinvD [OF inv]
  have cr: "cur \<in> threads v" using D(1) cur(1) by (simp add: sched_part_def)
  have th: "threads (view s) = threads v" using same by (simp add: same_ids_def)
  have hang: "tree_part (set_stat cur TASK_HANGING (view s))"
  proof (rule tree_part_hang [OF tree])
    show "cur \<in> threads (view s)" "pid_of (view s) cur \<noteq> 1" using same cr cur(3) by (simp_all add: same_ids_def)
    show "\<forall>t \<in> threads (view s). \<not> child_of (view s) t cur"
      using cur(4) child_of_same [OF same _ cr] unfolding th by simp
    show "\<forall>w \<in> threads (view s). child_of (view s) cur w \<longrightarrow> st_of (view s) w \<noteq> TASK_WAITING"
    proof (intro ballI impI)
      fix w
      assume w: "w \<in> threads (view s)" "child_of (view s) cur w"
      have "child_of v cur w" using w child_of_same [OF same cr] th by simp
      then have "w = u" using child_unique [OF D(2), of w u cur] w(1) u(1,2) th by simp
      then show "st_of (view s) w \<noteq> TASK_WAITING" using u(3) by simp
    qed
  qed
  have ne: "running s \<noteq> idle_thread s" using idle cur(2) by simp
  note B = block_view [OF sched _ ne block, unfolded is_blocked_status_def idle(1)]
  show "sched_inv s'" "ids s' = ids s" using B by simp_all
  show "tree_part (view s')"
    by (rule tree_part_wake [OF hang same_ids_from [OF ids_same(1) [OF B(2)]]]) (use B(3) in simp_all)
  have "st_of (view s') t = TASK_HANGING \<longleftrightarrow> st_of (set_stat cur TASK_HANGING (view s)) t = TASK_HANGING" if "t \<in> threads v" for t
    using B(3) that th by (simp add: no_new_sleep_def)
  then show "st_of (view s') cur = TASK_HANGING"
    and "t \<in> threads v \<Longrightarrow> st_of (view s) t = TASK_HANGING \<Longrightarrow> st_of (view s') t = TASK_HANGING"
    using cr by simp_all
qed

text \<open>The 22 pages that were given back belonged to the map of the process's pages.\<close>

lemma hang_pages:
  assumes part: "pages_part v" and same: "same_ids v v'" and cur: "cur \<in> threads v" "dir_of v cur \<noteq> 0" "st_of v cur = TASK_RUNNING"
    and kv: "kv_ok (v_kv v')" "same_map (v_kv v) (v_kv v')" "marked (v_kv v') = marked (v_kv v) - run_of (v_bits v cur) 22"
    and hang: "st_of v' cur = TASK_HANGING" "\<And>t. t \<in> threads v \<Longrightarrow> st_of v t = TASK_HANGING \<Longrightarrow> st_of v' t = TASK_HANGING"
  shows "pages_part v'"
proof (rule pages_part_less [OF part, of _ "run_of (v_bits v cur) 22"])
  show "kv_ok (v_kv v')" "same_map (v_kv v) (v_kv v')" "marked (v_kv v) - run_of (v_bits v cur) 22 \<subseteq> marked (v_kv v')"
    using kv by simp_all
  show "v_main v' = v_main v" "keys v' \<subseteq> keys v" using same by (simp_all add: same_ids_def keys_def)
  have mine: "area (piece v (cur, 2)) = run_of (v_bits v cur) 23" using cur by (simp add: piece_simps area_def)
  fix x
  assume x: "x \<in> keys v'"
  then obtain t where t: "t \<in> threads v" "x = (t, 0) \<or> x = (t, Suc 0) \<or> x = (t, 2)"
    using key_cases [OF x] same by (auto simp: same_ids_def)
  show pc: "piece v' x = piece v x \<or> snd (piece v' x) = 0"
    using t same hang(2) [OF t(1)] by (auto simp: piece_simps same_ids_def)
  show "area (piece v' x) \<inter> run_of (v_bits v cur) 22 = {}"
  proof (cases "x = (cur, 2)")
    case True
    then show ?thesis using hang(1) by (simp add: piece_simps)
  next
    case False
    have "area (piece v' x) \<subseteq> area (piece v x)" using pc by (auto simp: area_def run_of_def)
    moreover have "area (piece v x) \<inter> area (piece v (cur, 2)) = {}"
      using x same cur(1) by (intro pages_partD(5) [OF part _ _ False]) (auto simp: keys_def same_ids_def)
    ultimately show ?thesis using run_of_less [of 22 23 "v_bits v cur"] unfolding mine by auto
  qed
qed

lemma hang_pinv:
  assumes inv: "vinv v" and um: "umaps v (user_vaddr s)" and s: "view s = v\<lparr>v_kv := kv\<rparr>"
    and kv: "kv_ok kv" "same_map (v_kv v) kv" "marked kv = marked (v_kv v) - run_of (v_bits v cur) 22"
    and cur: "v_run v = cur" "parent_of v cur \<noteq> -1" "cur \<noteq> v_idle v" "pid_of v cur \<noteq> 1" "\<forall>t \<in> threads v. \<not> child_of v t cur"
    and p: "tasks s cur = Some p" and par: "pid2thread (parent_pid p) s = Inr (Some u, s)" "tasks s u = Some q"
    and wake: "whenm (status q = TASK_WAITING) (thread_unblock u) s = Inr ((), s1)"
    and block: "thread_block TASK_HANGING (s1\<lparr>ksched.addr_v2p := a\<rparr>) = Inr ((), s')"
  shows "pinv s'"
proof -
  note D = vinvD [OF inv] and P = exit_parent [OF inv s cur(1,2) p par wake]
  let ?s1 = "s1\<lparr>ksched.addr_v2p := a\<rparr>"
  have cr: "cur \<in> threads v" "st_of v cur = TASK_RUNNING" "v_idle v \<in> threads v"
    using D(1) cur(1) by (simp_all add: sched_part_def)
  have ids1: "ids ?s1 = ids s" using P(2) by (simp add: ids_def)
  have ids: "same_ids v (view s)" and idle: "v_idle (view s) = v_idle v" unfolding s by simp_all
  have same1: "same_ids v (view ?s1)" by (rule same_ids_trans [OF ids ids_same(1) [OF ids1]])
  have tree1: "tree_part (view ?s1)"
    by (rule tree_part_wake [OF P(8) ids_same(1) [OF ids1]]) (use P(4) in simp)
  have B: "sched_inv s'" "ids s' = ids ?s1" "tree_part (view s')" "st_of (view s') cur = TASK_HANGING"
    "\<And>t. t \<in> threads v \<Longrightarrow> st_of (view ?s1) t = TASK_HANGING \<Longrightarrow> st_of (view s') t = TASK_HANGING"
  proof -
    have a: "sched_inv ?s1" "running ?s1 = cur" "v_idle (view ?s1) = v_idle v" "st_of (view ?s1) u \<noteq> TASK_WAITING"
      using P(1,3,5) ids_same(2) [OF ids1] idle by (simp_all add: sched_inv_addr)
    note H = hang_tree [OF inv same1 tree1 a(1-3) cur(1,3-5) P(6,7) a(4) block]
    show "sched_inv s'" "ids s' = ids ?s1" "tree_part (view s')" "st_of (view s') cur = TASK_HANGING"
      "\<And>t. t \<in> threads v \<Longrightarrow> st_of (view ?s1) t = TASK_HANGING \<Longrightarrow> st_of (view s') t = TASK_HANGING"
      by (rule H; assumption)+
  qed
  have idsB: "ids s' = ids s" using B(2) ids1 by simp
  have same: "same_ids v (view s')" by (rule same_ids_trans [OF ids ids_same(1) [OF idsB]])
  have "idle_part (view s')"
    by (rule idle_part_same [OF D(3) same _ cr(3)]) (use ids_same(2) [OF idsB] idle in simp)
  moreover have "pages_part (view s')"
  proof (rule hang_pages [OF D(4) same cr(1) _ cr(2)])
    have "v_kv (view s') = kv" using ids_same(3) [OF idsB] s by simp
    then show "kv_ok (v_kv (view s'))" "same_map (v_kv v) (v_kv (view s'))"
      "marked (v_kv (view s')) = marked (v_kv v) - run_of (v_bits v cur) 22" using kv by simp_all
    show "dir_of v cur \<noteq> 0" using D(3) cr(1) cur(2) by (simp add: idle_part_def)
    show "st_of (view s') cur = TASK_HANGING" by (rule B(4))
    have "st_of (view s) t = st_of v t" for t unfolding s by (simp add: vc_def)
    then show "\<And>t. t \<in> threads v \<Longrightarrow> st_of v t = TASK_HANGING \<Longrightarrow> st_of (view s') t = TASK_HANGING"
      using B(5) P(4) s by (simp add: no_new_sleep_def)
  qed
  moreover have "umaps (view s') (user_vaddr s')"
    using umaps_same [OF um same] ids_same(4) [OF idsB] by simp
  ultimately show ?thesis
    using B(1,3) by (simp add: pinv_def vinv_def sched_part_view)
qed

lemma pid2thread_same: "pid2thread no s = Inr (r, s') \<Longrightarrow> s' = s"
proof -
  have "traverse (\<lambda>t. pid_check t no) ts s = Inr (r, s') \<Longrightarrow> s' = s" for ts
    by (induction ts) (auto simp: pid_check_def bnd_eq_Inr task_of_Inr split: if_splits)
  then show "pid2thread no s = Inr (r, s') \<Longrightarrow> s' = s" by (auto simp: pid2thread_def)
qed

lemma sys_exit_Inr:
  assumes run: "sys_exit st s = Inr ((), s')" and p: "tasks s (running s) = Some p"
    and s1: "s1 = s\<lparr>tasks := (tasks s)(running s \<mapsto> p\<lparr>exit_status := ucast st\<rparr>)\<rparr>"
  obtains r s2 s3 p3 u q s4 a where "parent_pid p \<noteq> -1"
    and "traverse (\<lambda>t. init_adopt_achild t (scast (pid p))) (thread_all_list s) s1 = Inr (r, s2)"
    and "release_prog_resource (running s) s2 = Inr ((), s3)" and "tasks s3 (running s) = Some p3"
    and "pid2thread (parent_pid p3) s3 = Inr (Some u, s3)" and "tasks s3 u = Some q"
    and "whenm (status q = TASK_WAITING) (thread_unblock u) s3 = Inr ((), s4)"
    and "thread_block TASK_HANGING (s4\<lparr>ksched.addr_v2p := a\<rparr>) = Inr ((), s')"
proof -
  have par: "parent_pid p \<noteq> -1" using run p by (auto simp: sys_exit_def bnd_upd_task task_of_Some)
  obtain r s2 s3 p3 pu s4 where s2: "traverse (\<lambda>t. init_adopt_achild t (scast (pid p))) (thread_all_list s) s1 = Inr (r, s2)"
    and s3: "release_prog_resource (running s) s2 = Inr ((), s3)" and p3: "tasks s3 (running s) = Some p3"
    and pu: "pid2thread (parent_pid p3) s3 = Inr (pu, s4)"
    and rest: "(case pu of None \<Rightarrow> fail (Fault ''NULL'')
       | Some parent \<Rightarrow>
           bnd (task_of parent) (\<lambda>parent_pcb.
           bnd (whenm (status parent_pcb = TASK_WAITING) (thread_unblock parent)) (\<lambda>_.
           sched_call (thread_block TASK_HANGING)))) s4 = Inr ((), s')"
    using run p par by (auto simp: sys_exit_def bnd_upd_task task_of_Some bnd_eq_Inr task_of_Inr s1)
  have "s4 = s3" by (rule pid2thread_same [OF pu])
  with rest pu obtain u q s5 where "pid2thread (parent_pid p3) s3 = Inr (Some u, s3)" "tasks s3 u = Some q"
    "whenm (status q = TASK_WAITING) (thread_unblock u) s3 = Inr ((), s5)" "sched_call (thread_block TASK_HANGING) s5 = Inr ((), s')"
    by (auto simp: bnd_eq_Inr task_of_Inr split: option.splits)
  moreover from this(4) obtain a where "thread_block TASK_HANGING (s5\<lparr>ksched.addr_v2p := a\<rparr>) = Inr ((), s')"
    by (auto dest: sched_call_Inr)
  ultimately show thesis using that par s2 s3 p3 by blast
qed

lemma sys_exit_pinv:
  assumes inv: "pinv s" and run: "sys_exit st s = Inr ((), s')"
  shows "pinv s'"
proof -
  have v: "vinv (view s)" and um: "umaps (view s) (user_vaddr s)" using inv by (simp_all add: pinv_def)
  note D = vinvD [OF v]
  have cr: "running s \<in> threads (view s)" "st_of (view s) (running s) = TASK_RUNNING"
    using D(1) by (simp_all add: sched_part_def)
  obtain p where p: "tasks s (running s) = Some p" using D(1) by (auto simp: sched_part_def)
  define s1 where "s1 = s\<lparr>tasks := (tasks s)(running s \<mapsto> p\<lparr>exit_status := ucast st\<rparr>)\<rparr>"
  have v1: "view s1 = view s" using p by (auto simp: s1_def view_def fun_eq_iff core_def)
  have vp: "vc (view s) (running s) = core p" using p by (simp add: vc_view)
  obtain r s2 s3 p3 u q s4 a where par: "parent_pid p \<noteq> -1"
    and s2: "traverse (\<lambda>t. init_adopt_achild t (scast (pid p))) (thread_all_list s) s1 = Inr (r, s2)"
    and s3: "release_prog_resource (running s) s2 = Inr ((), s3)" and p3: "tasks s3 (running s) = Some p3"
    and rest: "pid2thread (parent_pid p3) s3 = Inr (Some u, s3)" "tasks s3 u = Some q"
      "whenm (status q = TASK_WAITING) (thread_unblock u) s3 = Inr ((), s4)"
      "thread_block TASK_HANGING (s4\<lparr>ksched.addr_v2p := a\<rparr>) = Inr ((), s')"
    by (rule sys_exit_Inr [OF run p s1_def])
  have "all_known (thread_all_list s) s1" using pinv_known [OF inv] by (simp add: all_known_def s1_def)
  from adopt_run [OF this, of "scast (pid p)"] obtain w where
    w: "traverse (\<lambda>t. init_adopt_achild t (scast (pid p))) (thread_all_list s) s1 = Inr (None, w)"
      "view w = (view s1)\<lparr>v_core := (\<lambda>t. if t \<in> threads (view s) then map_option (adopt (scast (pid p))) (v_core (view s1) t)
         else v_core (view s1) t)\<rparr>" "pmm w = pmm s1" "user_vaddr w = user_vaddr s1"
    by auto
  have "w = s2" using w(1) s2 by simp
  then have v2: "view s2 = (view s)\<lparr>v_core := (\<lambda>t. if t \<in> threads (view s)
      then map_option (adopt (scast (pid_of (view s) (running s)))) (v_core (view s) t) else v_core (view s) t)\<rparr>"
    and kv2: "pmm s2 = pmm s" "user_vaddr s2 = user_vaddr s"
    using w(2-4) unfolding v1 vp core_simps by (simp_all add: s1_def)
  have "parent_of (view s) (running s) \<noteq> -1" using vp par by simp
  note A = adopted_vinv [OF v _ this v2, simplified]
  have bits: "user_bits_at s2 = user_bits_at s" "thread_all_list s2 = thread_all_list s" "running s2 = running s" "idle_thread s2 = idle_thread s"
    using arg_cong [OF v2, of v_bits] arg_cong [OF v2, of v_all] arg_cong [OF v2, of v_run] arg_cong [OF v2, of v_idle] by simp_all
  have dir: "dir_of (view s) (running s) \<noteq> 0"
    using D(3) cr(1) par arg_cong [OF vp, of c_parent] unfolding idle_part_def core_simps by metis
  have "in_map (v_kv (view s)) (v_bits (view s) (running s)) 23"
    using pages_partD(3) [OF D(4), of "(running s, 2)"] cr dir by (simp add: keys_def piece_simps)
  then have map22: "in_map (kernel_vaddr (pmm s2)) (user_bits_at s2 (running s)) 22"
    using in_map_less by (simp add: kv2 bits)
  have len: "btmp_bytes_len (vaddr_bitmap (user_vaddr s2 (running s))) = user_bytes"
    using um cr(1) dir by (simp add: umaps_def kv2)
  have kv: "kv_ok (kernel_vaddr (pmm s2))" using pages_partD(1) [OF D(4)] by (simp add: kv2)
  obtain kv' where kv': "view s3 = (view s2)\<lparr>v_kv := kv'\<rparr>" "kv_ok kv'" "same_map (kernel_vaddr (pmm s2)) kv'"
    "marked kv' = marked (kernel_vaddr (pmm s2)) - run_of (user_bits_at s2 (running s)) 22" "user_vaddr s3 = user_vaddr s2"
    by (rule release_view [OF kv map22 len s3])
  have um3: "umaps (view s2) (user_vaddr s3)"
    using um A(4) by (simp add: umaps_def kv' kv2 bits)
  show ?thesis
    by (rule hang_pinv [OF A(1) um3 kv'(1,2) _ _ _ _ _ _ _ p3 rest]) (use kv' A bits cr in simp_all)
qed

end
