(* ===== verification/Proc_Wait.thy ===== *)
theory Proc_Wait
  imports Proc_Exit
begin

text \<open>\<open>sys_wait\<close> keeps the invariant of the process layer.\<close>

section \<open>Waiting\<close>

text \<open>Nobody's parent hangs.\<close>

lemma hanging_no_child:
  assumes tree: "tree_part v" and c: "c \<in> threads v" "st_of v c = TASK_HANGING" and t: "t \<in> threads v"
  shows "\<not> child_of v t c"
proof
  assume a: "child_of v t c"
  have "parent_of v t \<noteq> -1"
    using a taken_range [OF tree_partD(2) [OF tree c(1)]] scast_pid(2) [of "pid_of v c"] by (simp add: child_of_def)
  then obtain w where "w \<in> threads v" "child_of v t w" "st_of v w \<noteq> TASK_HANGING"
    using tree_partD(4) [OF tree t] by blast
  then show False using child_unique [OF tree, of w c t] a c by auto
qed

text \<open>A view without the thread \<open>c\<close>.\<close>

lemma reap_tree:
  assumes tree: "tree_part v" and c: "c \<in> threads v" "st_of v c = TASK_HANGING"
    and th: "threads v' = threads v - {c}" and vc: "\<And>t. t \<noteq> c \<Longrightarrow> vc v' t = vc v t" and sel: "v_pool v' = pool'"
    and pool: "pool_ok pool'" "taken_pids pool' = taken_pids (v_pool v) - {pid_of v c}"
  shows "tree_part v'"
proof -
  have ch: "child_of v' t u = child_of v t u" if "t \<noteq> c" "u \<noteq> c" for t u
    using vc that by (simp add: child_of_def)
  have nochild: "\<not> child_of v t c" if "t \<in> threads v" for t by (rule hanging_no_child [OF tree c that])
  obtain i where i: "i \<in> threads v" "pid_of v i = 1" "parent_of v i = -1" "st_of v i \<noteq> TASK_HANGING"
    by (rule tree_part_first [OF tree])
  then have ic: "i \<noteq> c" using c(2) by auto
  have taken: "pid_of v' t \<in> taken_pids pool'" if "t \<in> threads v - {c}" for t
    using tree_partD(2,3) [OF tree] that c(1) vc [of t] pool(2) by auto
  have inj: "inj_on (pid_of v') (threads v - {c})"
    using tree_partD(3) [OF tree] vc by (intro inj_onI) (metis DiffD1 DiffD2 singletonI)
  have par: "parent_of v' t = -1 \<or> (\<exists>u \<in> threads v - {c}. child_of v' t u \<and> st_of v' u \<noteq> TASK_HANGING)"
    if t: "t \<in> threads v - {c}" for t
  proof (cases "parent_of v t = -1")
    case False
    then obtain u where u: "u \<in> threads v" "child_of v t u" "st_of v u \<noteq> TASK_HANGING"
      using tree_partD(4) [OF tree, of t] t by auto
    then have "u \<noteq> c" using nochild t by auto
    then show ?thesis using u ch t vc by (intro disjI2 bexI [of _ u]) auto
  qed (use vc t in simp)
  have wait: "(\<exists>t \<in> threads v - {c}. child_of v' t u) \<and> (\<forall>t \<in> threads v - {c}. child_of v' t u \<longrightarrow> st_of v' t \<noteq> TASK_HANGING)"
    if u: "u \<in> threads v - {c}" "st_of v' u = TASK_WAITING" "pid_of v' u \<noteq> 1" for u
  proof -
    have old: "st_of v u = TASK_WAITING" "pid_of v u \<noteq> 1" using u vc by auto
    then have W: "\<exists>t \<in> threads v. child_of v t u" "\<forall>t \<in> threads v. child_of v t u \<longrightarrow> st_of v t \<noteq> TASK_HANGING"
      using tree_part_waits [OF tree] u by auto
    then have "\<not> child_of v c u" using c(1,2) by auto
    then obtain t where t: "t \<in> threads v - {c}" "child_of v t u" using W(1) by auto
    moreover have "st_of v' w \<noteq> TASK_HANGING" if "w \<in> threads v - {c}" "child_of v' w u" for w
      using W(2) that u vc ch by auto
    ultimately show ?thesis using ch u by auto
  qed
  have first: "\<exists>t \<in> threads v - {c}. pid_of v' t = 1 \<and> parent_of v' t = -1 \<and> st_of v' t \<noteq> TASK_HANGING"
    using i ic vc by (intro bexI [of _ i]) simp_all
  show ?thesis
    unfolding tree_part_def sel th using pool(1) taken inj first par wait by blast
qed

lemma reap_vinv:
  assumes inv: "vinv v" and c: "c \<in> threads v" "st_of v c = TASK_HANGING" "child_of v c (v_run v)"
    and v': "v' = v\<lparr>v_all := remove1 c (v_all v), v_ready := remove1 c (v_ready v), v_core := (v_core v)(c \<mapsto> k), v_pool := pool', v_kv := kv'\<rparr>"
    and kv: "kv_ok kv'" "same_map (v_kv v) kv'" "marked kv' = marked (v_kv v) - freed_pages (v_main v) c (dir_of v c)"
    and pool: "pool_ok pool'" "taken_pids pool' = taken_pids (v_pool v) - {pid_of v c}"
  shows "vinv v'"
proof -
  note D = vinvD [OF inv]
  have dist: "distinct (v_all v)" "distinct (v_ready v)" and cr: "v_run v \<in> threads v" "st_of v (v_run v) = TASK_RUNNING"
    "v_idle v \<in> threads v"
    using D(1) by (simp_all add: sched_part_def)
  have ne: "c \<noteq> v_run v" "c \<noteq> v_idle v" "c \<notin> set (v_ready v)"
    using D(1) c(1,2) by (auto simp: sched_part_def)
  have th: "threads v' = threads v - {c}" using dist by (simp add: v')
  have vc: "vc v' t = vc v t" if "t \<noteq> c" for t using that by (simp add: v' vc_def)
  have sel: "v_run v' = v_run v" "v_idle v' = v_idle v" "v_ready v' = v_ready v" "v_main v' = v_main v" "v_bits v' = v_bits v"
    "v_pool v' = pool'" "v_kv v' = kv'"
    using ne(3) by (simp_all add: v' remove1_idem)
  have ch: "child_of v' t u = child_of v t u" if "t \<noteq> c" "u \<noteq> c" for t u
    using vc that by (simp add: child_of_def)
  have "sched_part v'"
  proof -
    have "distinct (v_all v')" using dist by (simp add: v')
    moreover have "\<forall>t \<in> threads v'. t \<noteq> 0 \<and> v_core v' t \<noteq> None"
      using D(1) unfolding th by (auto simp: v' sched_part_def)
    moreover have "t \<in> set (v_ready v) \<longleftrightarrow> t \<in> threads v - {c} \<and> st_of v' t = TASK_READY" for t
      using D(1) ne(3) vc [of t] by (cases "t = c") (simp_all add: sched_part_def)
    moreover have "st_of v' t \<noteq> TASK_RUNNING" if "t \<in> threads v - {c}" "t \<noteq> v_run v" for t
      using D(1) that vc [of t] by (simp add: sched_part_def)
    moreover have "vc v' (v_run v) = vc v (v_run v)" "vc v' (v_idle v) = vc v (v_idle v)"
      using vc ne by simp_all
    moreover have "st_of v (v_idle v) \<in> {TASK_RUNNING, TASK_READY, TASK_BLOCKED}"
      using D(1) unfolding sched_part_def by blast
    ultimately show ?thesis
      unfolding sched_part_def sel th using dist cr ne by auto
  qed
  moreover have "tree_part v'"
    by (rule reap_tree [OF D(2) c(1,2) th vc sel(6) pool])
  moreover have "idle_part v'"
    unfolding idle_part_def sel th using D(3) vc ch ne cr(3) by (simp add: idle_part_def)
  moreover have "pages_part v'"
  proof (rule pages_part_less [OF D(4), of _ "freed_pages (v_main v) c (dir_of v c)"])
    show "kv_ok (v_kv v')" "same_map (v_kv v) (v_kv v')" "v_main v' = v_main v" using kv by (simp_all add: sel)
    show "marked (v_kv v) - freed_pages (v_main v) c (dir_of v c) \<subseteq> marked (v_kv v')" using kv(3) by (simp add: sel)
    show sub: "keys v' \<subseteq> keys v" by (auto simp: keys_def th)
    fix x
    assume x: "x \<in> keys v'"
    then obtain t where t: "t \<in> threads v - {c}" "x = (t, 0) \<or> x = (t, Suc 0) \<or> x = (t, 2)"
      using key_cases [OF x] by (auto simp: th)
    then have same: "piece v' x = piece v x" using vc by (auto simp: piece_simps sel)
    then show "piece v' x = piece v x \<or> snd (piece v' x) = 0" by simp
    have "area (piece v x) \<inter> area (piece v (c, k)) = {}" if "k < 3" for k
      using x sub t c(1) that by (intro pages_partD(5) [OF D(4)]) (auto simp: keys_def)
    then have "area (piece v x) \<inter> area (piece v (c, 0)) = {}" "area (piece v x) \<inter> area (piece v (c, Suc 0)) = {}" by simp_all
    then show "area (piece v' x) \<inter> freed_pages (v_main v) c (dir_of v c) = {}"
      unfolding same by (auto simp: freed_pages_def piece_simps split: if_splits)
  qed
  ultimately show ?thesis by (simp add: vinv_def)
qed

lemma thread_exit_uv: "thread_exit t False s = Inr ((), s') \<Longrightarrow> user_vaddr s' = user_vaddr s"
proof -
  have "stable uv_run (thread_exit t False)"
    unfolding thread_exit_def all_remove_def irq_disable_def by (auto intro!: stable simp: uv_run_def)
  then show "thread_exit t False s = Inr ((), s') \<Longrightarrow> user_vaddr s' = user_vaddr s"
    by (auto simp: stable_def uv_run_def)
qed

text \<open>What \<open>sys_wait\<close> does, by the children the caller has.\<close>

lemma sys_wait_eq:
  assumes known: "all_known (thread_all_list s) s" and p: "tasks s (running s) = Some p"
  shows "sys_wait s =
    (case List.find (\<lambda>t. parent_pid (the (tasks s t)) = scast (pid p) \<and> status (the (tasks s t)) = TASK_HANGING) (thread_all_list s) of
       Some c \<Rightarrow> bnd (thread_exit c False) (\<lambda>_. ret (Reaped (pid (the (tasks s c))) (status_code TASK_HANGING))) s
     | None \<Rightarrow> if \<exists>t \<in> set (thread_all_list s). parent_pid (the (tasks s t)) = scast (pid p)
         then bnd (sched_call (thread_block TASK_WAITING)) (\<lambda>_. ret Asleep) s
         else Inr (No_child, s))"
proof -
  let ?H = "\<lambda>q. parent_pid q = scast (pid p) \<and> status q = TASK_HANGING" and ?C = "\<lambda>q. parent_pid q = scast (pid p)"
  let ?h = "List.find (\<lambda>t. ?H (the (tasks s t))) (thread_all_list s)" and ?c = "List.find (\<lambda>t. ?C (the (tasks s t))) (thread_all_list s)"
  have H: "traverse (\<lambda>t. find_hanging_child t (scast (pid p))) (thread_all_list s) s = Inr (?h, s)"
    using traverse_find [OF known, of ?H] by (simp add: find_hanging_child_def)
  have C: "traverse (\<lambda>t. find_child t (scast (pid p))) (thread_all_list s) s = Inr (?c, s)"
    using traverse_find [OF known, of ?C] by (simp add: find_child_def)
  show ?thesis
  proof (cases ?h)
    case (Some c)
    then have "c \<in> set (thread_all_list s)" "status (the (tasks s c)) = TASK_HANGING" using find_Some_in [OF Some] by simp_all
    moreover from this obtain q where "tasks s c = Some q" using known by (auto simp: all_known_def)
    ultimately show ?thesis using Some p
      by (simp add: sys_wait_def task_of_Some bnd_Inr [where m = "traverse (\<lambda>t. find_hanging_child t (scast (pid p))) (thread_all_list s)" and s = s, OF H])
  next
    case None
    have "?c = None \<longleftrightarrow> \<not> (\<exists>t \<in> set (thread_all_list s). ?C (the (tasks s t)))" by (auto simp: find_None_all)
    then show ?thesis using None p
      by (cases ?c) (simp_all add: sys_wait_def task_of_Some bnd_Inr [where m = "traverse (\<lambda>t. find_hanging_child t (scast (pid p))) (thread_all_list s)" and s = s, OF H] bnd_Inr [where m = "traverse (\<lambda>t. find_child t (scast (pid p))) (thread_all_list s)" and s = s, OF C])
  qed
qed

text \<open>A child that hangs is removed, with its number and its pages.\<close>

lemma reap_pinv:
  assumes inv: "pinv s" and c: "c \<in> threads (view s)" "child_of (view s) c (running s)" "st_of (view s) c = TASK_HANGING"
    and run: "thread_exit c False s = Inr ((), s')"
  shows "pinv s'" and "thread_all_list s' = remove1 c (thread_all_list s)"
    and "taken_pids (pids s') = taken_pids (pids s) - {pid_of (view s) c}"
proof -
  have v: "vinv (view s)" and um: "umaps (view s) (user_vaddr s)" using inv by (simp_all add: pinv_def)
  note D = vinvD [OF v]
  obtain q where q: "tasks s c = Some q" using pinv_known [OF inv] c(1) by (auto simp: all_known_def)
  have vq: "vc (view s) c = core q" using q by (simp add: vc_view)
  have num: "1 \<le> unat (pid q)" "unat (pid q) \<le> 1024"
    using taken_range [OF tree_partD(2) [OF D(2) c(1)]] vq by simp_all
  have kv: "kv_ok (kernel_vaddr (pmm s))" using pages_partD(1) [OF D(4)] by simp
  have pool: "pool_ok (pids s)" using tree_partD(1) [OF D(2)] by simp
  have dir: "in_map (kernel_vaddr (pmm s)) (task.pgdir q) 1" if "task.pgdir q \<noteq> 0"
    using pages_partD(3) [OF D(4), of "(c, Suc 0)"] c(1) that vq by (simp add: keys_def piece_simps)
  have pcb: "in_map (kernel_vaddr (pmm s)) c 1" if "c \<noteq> main_thread s"
    using pages_partD(3) [OF D(4), of "(c, 0)"] c(1) that by (simp add: keys_def piece_simps)
  obtain kv' pool' where E: "view s' = (view s)\<lparr>v_all := remove1 c (thread_all_list s), v_ready := remove1 c (thread_ready_list s),
      v_core := (v_core (view s))(c \<mapsto> (core q)\<lparr>c_stat := TASK_DIED\<rparr>), v_pool := pool', v_kv := kv'\<rparr>"
    "kv_ok kv'" "same_map (kernel_vaddr (pmm s)) kv'"
    "marked kv' = marked (kernel_vaddr (pmm s)) - freed_pages (main_thread s) c (task.pgdir q)"
    "pool_ok pool'" "taken_pids pool' = taken_pids (pids s) - {pid q}"
    by (rule thread_exit_view [OF kv q pool num dir pcb run])
  have "vinv (view s')"
    by (rule reap_vinv [OF v c(1,3) _ E(1) [folded view_sel]]) (use c(2) E vq in simp_all)
  moreover have "umaps (view s') (user_vaddr s')"
    using um thread_exit_uv [OF run] notin_set_remove1 [of _ "thread_all_list s" c] D(1)
    by (auto simp: umaps_def E(1) vc_def sched_part_def)
  ultimately show "pinv s'" by (simp add: pinv_def)
  show "thread_all_list s' = remove1 c (thread_all_list s)" using arg_cong [OF E(1), of v_all] by simp
  show "taken_pids (pids s') = taken_pids (pids s) - {pid_of (view s) c}" using arg_cong [OF E(1), of v_pool] E(6) vq by simp
qed

text \<open>A parent that has children, none of which hangs, sleeps.\<close>

lemma asleep_pinv:
  assumes inv: "pinv s" and t: "t \<in> threads (view s)" "child_of (view s) t (running s)"
    and none: "\<forall>t \<in> threads (view s). child_of (view s) t (running s) \<longrightarrow> st_of (view s) t \<noteq> TASK_HANGING"
  obtains s' where "sched_call (thread_block TASK_WAITING) s = Inr ((), s')" and "pinv s'" and "stat_of s' (running s) = TASK_WAITING"
proof -
  have v: "vinv (view s)" using inv by (simp add: pinv_def)
  note D = vinvD [OF v]
  have cr: "running s \<in> threads (view s)" "st_of (view s) (running s) = TASK_RUNNING" using D(1) by (simp_all add: sched_part_def)
  define w where "w = s\<lparr>ksched.addr_v2p := (\<lambda>va. case Paging.addr_v2p va ((pmm s)\<lparr>mm.cr3 := ksched.cr3 s\<rparr>) of Inl e \<Rightarrow> 0 | Inr (pa, _) \<Rightarrow> pa)\<rparr>"
  have w: "pinv w" "sched_inv w" "view w = view s" "running w = running s" "idle_thread w = idle_thread s"
    using pinv_sched_call [OF inv] D(1) by (simp_all add: w_def sched_inv_addr sched_part_view)
  have idle: "running w \<noteq> idle_thread w" using D(3) t w(4,5) by (auto simp: idle_part_def)
  have b: "is_blocked_status TASK_WAITING" "running w = idle_thread w \<longrightarrow> TASK_WAITING = TASK_BLOCKED"
    using idle by (simp_all add: is_blocked_status_def)
  obtain s' where s': "thread_block TASK_WAITING w = Inr ((), s')"
    "running s' # thread_ready_list s' = (if thread_ready_list w = [] then [idle_thread w] else thread_ready_list w)"
    "running s' \<noteq> running w \<Longrightarrow> stat_of s' (running w) = TASK_WAITING"
    by (rule thread_block_run [OF w(2) b]) (rule that; assumption)
  have "running s' \<noteq> running w"
  proof (cases "thread_ready_list w = []")
    case True
    then show ?thesis using s'(2) idle by simp
  next
    case False
    then have "running s' \<in> set (thread_ready_list w)" using s'(2) by (metis list.set_intros(1))
    then have "stat_of w (running s') = TASK_READY" "stat_of w (running w) = TASK_RUNNING"
      using w(2) by (simp_all add: sched_inv_def sched_ok_def)
    then show ?thesis by auto
  qed
  moreover have "pinv s'"
  proof (rule pinv_block [OF w(1) b(1) idle _ s'(1)])
    have "tree_part (set_stat (running s) TASK_WAITING (view s))"
      using t none cr by (intro tree_part_wait [OF D(2) cr(1)]) auto
    then show "tree_part (set_stat (running w) TASK_WAITING (view w))" by (simp add: w(3,4))
  qed
  moreover have "sched_call (thread_block TASK_WAITING) s = Inr ((), s')" using s'(1) by (simp add: sched_call_def w_def)
  ultimately show thesis using that s'(3) w(4) by simp
qed

lemma child_status:
  assumes "pinv s" and "tasks s u = Some p" and "t \<in> set (thread_all_list s)"
  shows "parent_pid (the (tasks s t)) = scast (pid p) \<longleftrightarrow> child_of (view s) t u"
    and "status (the (tasks s t)) = st_of (view s) t" and "pid (the (tasks s t)) = pid_of (view s) t"
  using pinv_known [OF assms(1)] assms(2,3) by (auto simp: all_known_def child_of_def vc_def)

lemma sys_wait_pinv:
  assumes inv: "pinv s" and run: "sys_wait s = Inr (r, s')"
  shows "pinv s'"
proof -
  obtain p where p: "tasks s (running s) = Some p" using inv by (auto simp: pinv_def vinv_def sched_part_def)
  note W = run [unfolded sys_wait_eq [OF pinv_known [OF inv] p]] and C = child_status [OF inv p]
  let ?h = "List.find (\<lambda>t. parent_pid (the (tasks s t)) = scast (pid p) \<and> status (the (tasks s t)) = TASK_HANGING) (thread_all_list s)"
  show ?thesis
  proof (cases ?h)
    case (Some c)
    then have c: "c \<in> threads (view s)" "child_of (view s) c (running s)" "st_of (view s) c = TASK_HANGING"
      using find_Some_in [OF Some] C by auto
    have "thread_exit c False s = Inr ((), s')" using W Some by (auto simp: bnd_eq_Inr)
    then show ?thesis by (rule reap_pinv(1) [OF inv c])
  next
    case None
    then have none: "\<forall>t \<in> threads (view s). child_of (view s) t (running s) \<longrightarrow> st_of (view s) t \<noteq> TASK_HANGING"
      using C by (auto simp: find_None_all)
    show ?thesis
    proof (cases "\<exists>t \<in> set (thread_all_list s). parent_pid (the (tasks s t)) = scast (pid p)")
      case True
      then obtain t where "t \<in> threads (view s)" "child_of (view s) t (running s)" using C by auto
      then obtain s1 where "sched_call (thread_block TASK_WAITING) s = Inr ((), s1)" "pinv s1"
        using asleep_pinv [OF inv _ _ none] by metis
      then show ?thesis using W None True by (auto simp: bnd_eq_Inr)
    next
      case False
      then show ?thesis using W None inv by simp
    qed
  qed
qed

end
