(* ===== verification/Proc_Fork.thy ===== *)
theory Proc_Fork
  imports Proc_Wait
begin

text \<open>\<open>sys_fork\<close> keeps the invariant of the process layer, when the child gets pages of its own.\<close>

section \<open>Forking\<close>

lemma liftr_Inr: "liftr r s = Inr (x, s') \<longleftrightarrow> r = Inr x \<and> s' = s"
  by (auto simp: liftr_def split: sum.splits)

lemma kassert_Inr: "kassert c b s = Inr (x, s') \<longleftrightarrow> b \<and> s' = s"
  by (auto simp: kassert_def)

lemma bitmap_pg_cnt_23: "bitmap_pg_cnt = of_nat 23"
  by (simp add: bitmap_pg_cnt_def user_bytes_def USER_VADDR_START_def)

definition child_core :: "u16 \<Rightarrow> task \<Rightarrow> u32 \<Rightarrow> core" where
  "child_core n p dir = \<lparr>c_pid = n, c_parent = scast (pid p), c_stat = TASK_READY, c_dir = dir\<rparr>"

lemma copy_pcb_view:
  assumes kv: "kv_ok (kernel_vaddr (pmm s))" and p: "tasks s (running s) = Some p" and child: "child \<noteq> running s"
    and run: "copy_pcb_vaddrbitmap_stack0 child (running s) s = Inr (r, s')"
  obtains n pool' kv' b where "allocate_pid (pids s) = Inr (n, pool')"
    and "view s' = (view s)\<lparr>v_core := (v_core (view s))(child \<mapsto> child_core n p (task.pgdir p)),
      v_bits := (user_bits_at s)(child := b), v_pool := pool', v_kv := kv'\<rparr>"
    and "kv_ok kv'" and "same_map (kernel_vaddr (pmm s)) kv'" and "marked (kernel_vaddr (pmm s)) \<subseteq> marked kv'"
    and "b = user_bits_at s (running s) \<or> pages_taken (kernel_vaddr (pmm s)) kv' b 23"
    and "uv_run s' = ((user_vaddr s)(child := user_vaddr s (running s)), running s)"
proof -
  define s1 where "s1 = s\<lparr>tasks := (tasks s)(child \<mapsto> p),
     user_vaddr := (user_vaddr s)(child := user_vaddr s (running s)),
     user_bits_at := (user_bits_at s)(child := user_bits_at s (running s)),
     user_descs := (user_descs s)(child := user_descs s (running s)),
     stacks := (\<lambda>a. if a - child < 4096 then stacks s (running s + (a - child)) else stacks s a)\<rparr>"
  have page: "copy_pcb_page child (running s) s = Inr ((), s1)"
    using p by (cases s) (simp add: copy_pcb_page_def set_pcb_def task_of_Some s1_def cong: if_cong)
  obtain n s2 p1 s3 where n: "pid_call fork_pid s1 = Inr (n, s2)" and p1: "tasks s2 (running s) = Some p1"
    and s3: "upd_task child (\<lambda>p. p\<lparr>pid := n, elapsed_ticks := 0, status := TASK_READY, ticks := priority p,
            parent_pid := scast (pid p1), resume_if := INTR_ON\<rparr>) s2 = Inr ((), s3)"
    and tail: "bnd (mm_call (get_kernel_pages bitmap_pg_cnt)) (\<lambda>vaddr_btmp.
     if vaddr_btmp = 0 then ret (-1)
     else
       bnd (modify (\<lambda>s. s\<lparr>user_bits_at := (user_bits_at s)(child := vaddr_btmp)\<rparr>)) (\<lambda>_.
       bnd (task_of child) (\<lambda>p.
       bnd (liftr (strlen (tname p))) (\<lambda>n.
       bnd (kassert ''strlen(child_thread->name) < 16'' (n < 16)) (\<lambda>_.
       bnd (liftr (strcat (tname p) (cstring ''_fork''))) (\<lambda>name.
       bnd (set_pcb child (p\<lparr>tname := name\<rparr>)) (\<lambda>_. ret 0)))))))
       (s3\<lparr>user_descs := (user_descs s3)(child := block_desc_init)\<rparr>) = Inr (r, s')"
    using run by (auto simp: copy_pcb_vaddrbitmap_stack0_def bnd_Inr [where m = "copy_pcb_page child (running s)" and s = s, OF page]
        bnd_eq_Inr task_of_Inr)
  obtain pool' where pool': "allocate_pid (pids s) = Inr (n, pool')" "s2 = s1\<lparr>pids := pool'\<rparr>"
    using n by (auto simp: pid_call_Inr fork_pid_def s1_def)
  have "p1 = p" using p1 p child by (simp add: pool'(2) s1_def)
  define s4 where "s4 = s3\<lparr>user_descs := (user_descs s3)(child := block_desc_init)\<rparr>"
  obtain pc where pc: "tasks s4 child = Some pc" "core pc = child_core n p (task.pgdir p)"
    and v4: "view s4 = (view s)\<lparr>v_core := (v_core (view s))(child \<mapsto> core pc),
      v_bits := (user_bits_at s)(child := user_bits_at s (running s)), v_pool := pool'\<rparr>"
    and u4: "uv_run s4 = ((user_vaddr s)(child := user_vaddr s (running s)), running s)" "pmm s4 = pmm s"
  proof -
    define pc where "pc = p\<lparr>pid := n, elapsed_ticks := 0, status := TASK_READY, ticks := priority p, parent_pid := scast (pid p), resume_if := INTR_ON\<rparr>"
    have e: "s3 = s2\<lparr>tasks := (tasks s2)(child \<mapsto> pc)\<rparr>"
      using s3 \<open>p1 = p\<close> by (auto simp: upd_task_Inr pool'(2) s1_def pc_def)
    show thesis
      by (rule that [of pc])
        (simp_all add: s4_def e pool'(2) s1_def uv_run_def view_def fun_eq_iff, simp_all add: pc_def core_def child_core_def)
  qed
  obtain b s5 where b: "mm_call (get_kernel_pages (of_nat 23)) s4 = Inr (b, s5)"
    and rest: "(if b = 0 then ret (-1)
       else
         bnd (modify (\<lambda>s. s\<lparr>user_bits_at := (user_bits_at s)(child := b)\<rparr>)) (\<lambda>_.
         bnd (task_of child) (\<lambda>p.
         bnd (liftr (strlen (tname p))) (\<lambda>n.
         bnd (kassert ''strlen(child_thread->name) < 16'' (n < 16)) (\<lambda>_.
         bnd (liftr (strcat (tname p) (cstring ''_fork''))) (\<lambda>name.
         bnd (set_pcb child (p\<lparr>tname := name\<rparr>)) (\<lambda>_. ret 0))))))) s5 = Inr (r, s')"
    using tail unfolding s4_def [symmetric] bitmap_pg_cnt_23 bnd_eq_Inr by blast
  obtain kv' where kv': "view s5 = (view s4)\<lparr>v_kv := kv'\<rparr>" "kv_ok kv'" "same_map (kernel_vaddr (pmm s4)) kv'"
    "b = 0 \<and> marked (kernel_vaddr (pmm s4)) \<subseteq> marked kv' \<or> pages_taken (kernel_vaddr (pmm s4)) kv' b 23"
    by (rule pages_call [OF _ _ b]) (use kv u4(2) that in simp_all)
  have "stable uv_run (mm_call (get_kernel_pages (of_nat 23)))" by (intro stable)
  then have u5: "uv_run s5 = uv_run s4" by (rule stableD) (rule b)
  show thesis
  proof (cases "b = 0")
    case True
    then have "s' = s5" using rest by simp
    then show ?thesis
      using True kv' pc(2) v4 u4 u5
      by (intro that [OF pool'(1), of kv' "user_bits_at s (running s)"]) (simp_all add: pages_taken_def)
  next
    case False
    then obtain q name where q: "tasks s5 child = Some q" "s' = s5\<lparr>user_bits_at := (user_bits_at s5)(child := b), tasks := (tasks s5)(child \<mapsto> q\<lparr>tname := name\<rparr>)\<rparr>"
      using rest by (auto simp: bnd_eq_Inr task_of_Inr set_pcb_def liftr_Inr kassert_Inr simp del: bnd_liftr bnd_kassert)
    have "map_option core (tasks s5 child) = Some (core pc)"
      using arg_cong [OF kv'(1), of "\<lambda>v. v_core v child"] v4 by simp
    then have "core (q\<lparr>tname := name\<rparr>) = core pc" using q(1) by (simp add: core_def)
    moreover have "user_bits_at s5 = (user_bits_at s)(child := user_bits_at s (running s))"
      using arg_cong [OF kv'(1), of v_bits] v4 by simp
    moreover have "view s' = (view s5)\<lparr>v_core := (v_core (view s5))(child \<mapsto> core (q\<lparr>tname := name\<rparr>)), v_bits := (user_bits_at s5)(child := b)\<rparr>"
      by (simp add: q(2) view_def fun_eq_iff)
    ultimately have "view s' = (view s)\<lparr>v_core := (v_core (view s))(child \<mapsto> core pc), v_bits := (user_bits_at s)(child := b), v_pool := pool', v_kv := kv'\<rparr>"
      by (simp add: kv'(1) v4)
    moreover have "uv_run s' = uv_run s5" by (simp add: q(2) uv_run_def)
    ultimately show ?thesis
      using False kv' pc(2) u4 u5
      by (intro that [OF pool'(1), of kv' b]) (auto simp: pages_taken_def)
  qed
qed

text \<open>
  The views after \<open>copy_process\<close>: \<open>grown v c k b pool kv\<close> has what the child \<open>c\<close> was given, but not
  the child in the lists.
\<close>

definition grown :: "pview \<Rightarrow> tid \<Rightarrow> core \<Rightarrow> u32 \<Rightarrow> pid_pool \<Rightarrow> virtual_addr \<Rightarrow> pview" where
  "grown v c k b pool kv = v\<lparr>v_core := (v_core v)(c \<mapsto> k), v_bits := (v_bits v)(c := b), v_pool := pool, v_kv := kv\<rparr>"

lemma grown_sel [simp]:
  "v_all (grown v c k b pool kv) = v_all v" "v_ready (grown v c k b pool kv) = v_ready v" "v_run (grown v c k b pool kv) = v_run v"
  "v_idle (grown v c k b pool kv) = v_idle v" "v_main (grown v c k b pool kv) = v_main v" "v_pool (grown v c k b pool kv) = pool"
  "v_kv (grown v c k b pool kv) = kv" "v_bits (grown v c k b pool kv) = (v_bits v)(c := b)"
  "v_core (grown v c k b pool kv) = (v_core v)(c \<mapsto> k)" "vc (grown v c k b pool kv) t = (if t = c then k else vc v t)"
  by (simp_all add: grown_def vc_def)

lemma copy_rest_stable:
  "stable view (copy_page_tables child parent)" "stable view (build_child_stack child)" "stable view (update_inode_open_cnts child)"
  "stable uv_run (copy_page_tables child parent)" "stable uv_run (build_child_stack child)" "stable uv_run (update_inode_open_cnts child)"
  unfolding copy_page_tables_def build_child_stack_def update_inode_open_cnts_def
  by (auto intro!: stable simp: core_def)

lemma copy_process_view:
  assumes kv: "kv_ok (kernel_vaddr (pmm s))" and p: "tasks s (running s) = Some p" and child: "child \<noteq> running s"
    and run: "copy_process child (running s) s = Inr (r, s')"
  obtains n pool' kv1 kv' b dir where "allocate_pid (pids s) = Inr (n, pool')"
    and "view s' = grown (view s) child (child_core n p dir) b pool' kv'"
    and "kv_ok kv1" and "same_map (kernel_vaddr (pmm s)) kv1" and "marked (kernel_vaddr (pmm s)) \<subseteq> marked kv1"
    and "b = user_bits_at s (running s) \<or> pages_taken (kernel_vaddr (pmm s)) kv1 b 23"
    and "kv_ok kv'" and "same_map kv1 kv'" and "marked kv1 \<subseteq> marked kv'" and "r = -1 \<or> pages_taken kv1 kv' dir 1"
    and "uv_run s' = ((user_vaddr s)(child := user_vaddr s (running s)), running s)"
proof -
  obtain r1 s1 where s1: "copy_pcb_vaddrbitmap_stack0 child (running s) s = Inr (r1, s1)"
    and rest: "(if r1 = 1 then ret (-1)
     else
       bnd (mm_call create_page_dir) (\<lambda>dir.
       bnd (upd_task child (\<lambda>p. p\<lparr>task.pgdir := dir\<rparr>)) (\<lambda>_.
       if dir = 0 then ret (-1)
       else
         bnd (copy_page_tables child (running s)) (\<lambda>_.
         bnd (build_child_stack child) (\<lambda>_.
         bnd (update_inode_open_cnts child) (\<lambda>_. ret 0)))))) s1 = Inr (r, s')"
    using run unfolding copy_process_def bnd_eq_Inr by blast
  obtain n pool' kv1 b where n: "allocate_pid (pids s) = Inr (n, pool')"
    and v1: "view s1 = (view s)\<lparr>v_core := (v_core (view s))(child \<mapsto> child_core n p (task.pgdir p)),
      v_bits := (user_bits_at s)(child := b), v_pool := pool', v_kv := kv1\<rparr>"
    and kv1: "kv_ok kv1" "same_map (kernel_vaddr (pmm s)) kv1" "marked (kernel_vaddr (pmm s)) \<subseteq> marked kv1"
      "b = user_bits_at s (running s) \<or> pages_taken (kernel_vaddr (pmm s)) kv1 b 23"
    and u1: "uv_run s1 = ((user_vaddr s)(child := user_vaddr s (running s)), running s)"
    by (rule copy_pcb_view [OF kv p child s1])
  have g1: "view s1 = grown (view s) child (child_core n p (task.pgdir p)) b pool' kv1"
    by (simp add: v1 grown_def)
  have k1: "kernel_vaddr (pmm s1) = kv1" using arg_cong [OF v1, of v_kv] by simp
  show thesis
  proof (cases "r1 = 1")
    case True
    then have "r = -1" "s' = s1" using rest by simp_all
    then show ?thesis using that [OF n g1 [folded \<open>s' = s1\<close>] kv1 kv1(1)] u1 by simp
  next
    case False
    then obtain dir s2 s3 where dir: "mm_call create_page_dir s1 = Inr (dir, s2)"
      and s3: "upd_task child (\<lambda>p. p\<lparr>task.pgdir := dir\<rparr>) s2 = Inr ((), s3)"
      and tail: "(if dir = 0 then ret (-1)
       else
         bnd (copy_page_tables child (running s)) (\<lambda>_.
         bnd (build_child_stack child) (\<lambda>_.
         bnd (update_inode_open_cnts child) (\<lambda>_. ret 0)))) s3 = Inr (r, s')" (is "?m s3 = _")
      using rest by (auto simp: bnd_eq_Inr)
    obtain kv' where kv': "view s2 = (view s1)\<lparr>v_kv := kv'\<rparr>" "kv_ok kv'" "same_map (kernel_vaddr (pmm s1)) kv'"
      "dir = 0 \<and> marked (kernel_vaddr (pmm s1)) \<subseteq> marked kv' \<or> pages_taken (kernel_vaddr (pmm s1)) kv' dir 1"
      by (rule page_dir_call [OF _ dir]) (use kv1 k1 that in simp_all)
    obtain q where q: "tasks s2 child = Some q" "s3 = s2\<lparr>tasks := (tasks s2)(child \<mapsto> q\<lparr>task.pgdir := dir\<rparr>)\<rparr>"
      using s3 by (auto simp: upd_task_Inr)
    have "map_option core (tasks s2 child) = Some (child_core n p (task.pgdir p))"
      using arg_cong [OF kv'(1), of "\<lambda>v. v_core v child"] g1 by simp
    then have core: "core (q\<lparr>task.pgdir := dir\<rparr>) = child_core n p dir" using q(1) by (simp add: core_def child_core_def)
    have "view s3 = (view s2)\<lparr>v_core := (v_core (view s2))(child \<mapsto> core (q\<lparr>task.pgdir := dir\<rparr>))\<rparr>"
      by (simp add: q(2) view_def fun_eq_iff)
    then have v3: "view s3 = grown (view s) child (child_core n p dir) b pool' kv'"
      by (simp add: core kv'(1) v1 grown_def)
    have "stable view ?m" "stable uv_run ?m" by (auto intro!: stable copy_rest_stable)
    from stableD [OF this(1), of s3 r s'] stableD [OF this(2), of s3 r s'] tail
    have same: "view s' = view s3" "uv_run s' = uv_run s3" by blast+
    have "stable uv_run (mm_call create_page_dir)" by (intro stable)
    then have "uv_run s2 = uv_run s1" by (rule stableD) (rule dir)
    then have u: "uv_run s' = ((user_vaddr s)(child := user_vaddr s (running s)), running s)"
      using same u1 by (simp add: q(2) uv_run_def)
    have "r = -1 \<or> pages_taken kv1 kv' dir 1" using tail kv'(4) k1 by (auto split: if_splits)
    moreover have "marked kv1 \<subseteq> marked kv'" using kv'(4) k1 by (auto simp: pages_taken_def)
    ultimately show ?thesis
      using that [OF n _ kv1 kv'(2) _ _ _ u] v3 same(1) kv'(3) k1 by simp
  qed
qed

text \<open>A fork that fails leaves what it has taken behind, and the threads as they were.\<close>

lemma grown_vinv:
  assumes inv: "vinv v" and c: "c \<notin> threads v"
    and pool: "pool_ok pool" "taken_pids (v_pool v) \<subseteq> taken_pids pool"
    and kv: "kv_ok kv" "same_map (v_kv v) kv" "marked (v_kv v) \<subseteq> marked kv"
  shows "vinv (grown v c k b pool kv)" (is "vinv ?v")
proof -
  note D = vinvD [OF inv]
  have vc: "vc ?v t = vc v t" if "t \<in> threads v" for t using that c by auto
  have ch: "child_of ?v t u = child_of v t u" if "t \<in> threads v" "u \<in> threads v" for t u
    using vc that by (simp add: child_of_def)
  have idle: "v_idle v \<in> threads v" using D(1) by (simp add: sched_part_def)
  have "sched_part ?v"
    by (rule sched_part_cong [OF D(1)]) (use vc sched_part_known [OF D(1)] in simp_all)
  moreover have "tree_part ?v"
  proof -
    have "same_ids (v\<lparr>v_pool := pool, v_bits := v_bits ?v\<rparr>) ?v" using vc by (simp add: same_ids_def vc_def)
    moreover have "tree_part (v\<lparr>v_pool := pool, v_bits := v_bits ?v\<rparr>)"
    proof -
      have "vc (v\<lparr>v_pool := pool, v_bits := v_bits ?v\<rparr>) = vc v" "child_of (v\<lparr>v_pool := pool, v_bits := v_bits ?v\<rparr>) = child_of v"
        by (simp_all add: vc_def child_of_def fun_eq_iff)
      then show ?thesis using D(2) pool unfolding tree_part_def by auto
    qed
    moreover have "no_new_sleep (v\<lparr>v_pool := pool, v_bits := v_bits ?v\<rparr>) ?v" using vc by (simp add: no_new_sleep_def vc_def)
    ultimately show ?thesis by (metis tree_part_wake)
  qed
  moreover have "idle_part ?v"
    using D(3) vc ch idle by (auto simp: idle_part_def)
  moreover have "pages_part ?v"
  proof (rule pages_part_less [OF D(4), of _ "{}"])
    fix x
    assume "x \<in> keys ?v"
    then obtain t where "t \<in> threads v" "x = (t, 0) \<or> x = (t, Suc 0) \<or> x = (t, 2)"
      using key_cases [of x ?v] by auto
    moreover from this have "t \<noteq> c" using c by auto
    ultimately show "piece ?v x = piece v x \<or> snd (piece ?v x) = 0" by (auto simp: piece_simps)
  qed (use kv in \<open>simp_all add: keys_def\<close>)
  ultimately show ?thesis by (simp add: vinv_def)
qed

text \<open>The child joins the lists.\<close>

definition joined :: "pview \<Rightarrow> tid \<Rightarrow> pview" where
  "joined v c = v\<lparr>v_all := v_all v @ [c], v_ready := v_ready v @ [c]\<rparr>"

lemma joined_sel [simp]:
  "v_all (joined v c) = v_all v @ [c]" "v_ready (joined v c) = v_ready v @ [c]" "v_run (joined v c) = v_run v"
  "v_idle (joined v c) = v_idle v" "v_main (joined v c) = v_main v" "v_pool (joined v c) = v_pool v" "v_kv (joined v c) = v_kv v"
  "v_bits (joined v c) = v_bits v" "v_core (joined v c) = v_core v" "vc (joined v c) = vc v" "piece (joined v c) = piece v"
  "child_of (joined v c) = child_of v"
  by (simp_all add: joined_def vc_def piece_def child_of_def fun_eq_iff)

lemma joined_tree:
  assumes tree: "tree_part v" and c: "c \<notin> threads v" "st_of v c = TASK_READY" "pid_of v c \<in> taken_pids (v_pool v)"
    and cur: "cur \<in> threads v" "st_of v cur = TASK_RUNNING" "child_of v c cur"
    and new: "\<forall>t \<in> threads v. pid_of v t \<noteq> pid_of v c"
  shows "tree_part (joined v c)"
proof -
  have th: "threads (joined v c) = insert c (threads v)" by simp
  have "inj_on (pid_of v) (insert c (threads v))"
    using tree new by (auto simp: tree_part_def inj_on_insert)
  moreover have "\<exists>t \<in> insert c (threads v). pid_of v t = 1 \<and> parent_of v t = -1 \<and> st_of v t \<noteq> TASK_HANGING"
    by (rule tree_part_first [OF tree]) auto
  moreover have "parent_of v t = -1 \<or> (\<exists>u \<in> insert c (threads v). child_of v t u \<and> st_of v u \<noteq> TASK_HANGING)"
    if "t \<in> insert c (threads v)" for t
  proof (cases "t = c")
    case True
    then show ?thesis using cur by (intro disjI2 bexI [of _ cur]) simp_all
  next
    case False
    then have "t \<in> threads v" using that by simp
    from tree_partD(4) [OF tree this] show ?thesis by auto
  qed
  moreover have "(\<exists>t \<in> insert c (threads v). child_of v t u) \<and> (\<forall>t \<in> insert c (threads v). child_of v t u \<longrightarrow> st_of v t \<noteq> TASK_HANGING)"
    if u: "u \<in> insert c (threads v)" "st_of v u = TASK_WAITING" "pid_of v u \<noteq> 1" for u
  proof -
    have "u \<in> threads v" using u(1,2) c(2) by auto
    from tree_part_waits [OF tree this u(2,3)] c(2) show ?thesis by auto
  qed
  moreover have "\<forall>t \<in> insert c (threads v). pid_of v t \<in> taken_pids (v_pool v)"
    using tree_partD(2) [OF tree] c(3) by auto
  ultimately show ?thesis
    unfolding tree_part_def unfolding th unfolding joined_sel using tree_partD(1) [OF tree] by blast
qed

lemma joined_vinv:
  assumes inv: "vinv v" and c: "c \<noteq> 0" "c \<notin> threads v" "c \<notin> set (v_ready v)" "v_core v c = Some k" "c_stat k = TASK_READY"
    and tree: "tree_part (joined v c)" and idle: "\<not> child_of v c (v_idle v)" "c_dir k \<noteq> 0" and pages: "pages_part (joined v c)"
  shows "vinv (joined v c)"
proof -
  note D = vinvD [OF inv]
  have vc: "vc v c = k" using c(4) by (simp add: vc_def)
  have ne: "c \<noteq> v_run v" "c \<noteq> v_idle v" using D(1) c(2) by (auto simp: sched_part_def)
  have "sched_part (joined v c)"
  proof -
    have d: "distinct (v_ready v @ [c])" "distinct (v_all v @ [c])" using D(1) c(2,3) by (simp_all add: sched_part_def)
    moreover have "t \<noteq> 0 \<and> v_core v t \<noteq> None" if "t \<in> set (v_all v @ [c])" for t
      using D(1) c that by (auto simp: sched_part_def)
    moreover have "t \<in> set (v_ready v @ [c]) \<longleftrightarrow> t \<in> set (v_all v @ [c]) \<and> st_of v t = TASK_READY" for t
      using D(1) c(5) vc by (cases "t = c") (simp_all add: sched_part_def)
    moreover have "st_of v t \<noteq> TASK_RUNNING" if "t \<in> set (v_all v @ [c])" "t \<noteq> v_run v" for t
      using D(1) c(5) vc that by (cases "t = c") (simp_all add: sched_part_def)
    moreover have "v_run v \<in> set (v_all v @ [c])" "v_idle v \<in> set (v_all v @ [c])" using D(1) by (simp_all add: sched_part_def)
    moreover have "st_of v (v_idle v) \<in> {TASK_RUNNING, TASK_READY, TASK_BLOCKED}" "st_of v (v_run v) = TASK_RUNNING"
      using D(1) unfolding sched_part_def by blast+
    ultimately show ?thesis unfolding sched_part_def joined_sel by blast
  qed
  moreover have "idle_part (joined v c)"
    using D(3) idle vc unfolding idle_part_def by auto
  ultimately show ?thesis using tree pages by (simp add: vinv_def)
qed

lemma enlist_view:
  assumes "enlist c s = Inr ((), s')"
  shows "view s' = joined (view s) c" and "c \<notin> set (thread_ready_list s)" and "user_vaddr s' = user_vaddr s"
    and "user_bits_at s' = user_bits_at s" and "tasks s' = tasks s"
  using assms by (auto simp: enlist_def all_append_def ready_append_def joined_def bnd_eq_Inr kassert_Inr view_def
      simp del: bnd_kassert)

lemma vinv_kv:
  assumes inv: "vinv v" and kv: "kv_ok kv" "same_map (v_kv v) kv" "marked (v_kv v) \<subseteq> marked kv"
  shows "vinv (v\<lparr>v_kv := kv\<rparr>)" (is "vinv ?v")
proof -
  note D = vinvD [OF inv]
  have idle: "v_idle v \<in> threads v" using D(1) by (simp add: sched_part_def)
  have vc: "vc ?v = vc v" by (simp add: vc_def fun_eq_iff)
  have pc: "piece ?v = piece v" by (simp add: piece_def vc cong: if_cong)
  have "sched_part ?v" by (rule sched_part_cong [OF D(1)]) (use sched_part_known [OF D(1)] vc in simp_all)
  moreover have "tree_part ?v" by (rule tree_part_wake [OF D(2)]) (simp_all add: no_new_sleep_def vc)
  moreover have "idle_part ?v" by (rule idle_part_same [OF D(3) _ _ idle]) simp_all
  moreover have "pages_part ?v"
    by (rule pages_part_less [OF D(4), of _ "{}"]) (use kv in \<open>simp_all add: keys_def pc\<close>)
  ultimately show ?thesis by (simp add: vinv_def)
qed

lemma fork_pages:
  assumes part: "pages_part v" and v': "v' = joined (grown (v\<lparr>v_kv := kv0\<rparr>) c (child_core n p dir) b pool kv') c"
    and c: "pages_taken (v_kv v) kv0 c 1" and b: "pages_taken kv0 kv1 b 23" and dir: "pages_taken kv1 kv' dir 1"
    and new: "c \<notin> threads v"
  shows "pages_part v'"
proof -
  note T = c [unfolded pages_taken_def] b [unfolded pages_taken_def] dir [unfolded pages_taken_def]
  have maps: "same_map (v_kv v) kv0" "same_map kv0 kv1" "same_map kv1 kv'" using T by blast+
  have same: "same_map (v_kv v) kv'" using same_map_trans maps by metis
  have inm: "in_map (v_kv v) c 1" "in_map (v_kv v) b 23" "in_map (v_kv v) dir 1" and nz: "dir \<noteq> 0"
    using T in_map_same maps by metis+
  have main: "c \<noteq> v_main v" using inm(1) pages_partD(2) [OF part] by auto
  have vc': "vc v' t = (if t = c then child_core n p dir else vc v t)" for t by (simp add: v' vc_def)
  have sel: "v_main v' = v_main v" "v_kv v' = kv'" "v_bits v' = (v_bits v)(c := b)" by (simp_all add: v')
  have pc: "piece v' (c, 0) = (c, 1)" "piece v' (c, Suc 0) = (dir, 1)" "piece v' (c, 2) = (b, 23)"
    using main nz by (simp_all add: piece_simps vc' sel child_core_def)
  have areas: "area (piece v' (c, 0)) = {c}" "area (piece v' (c, Suc 0)) = {dir}" "area (piece v' (c, 2)) = run_of b 23"
    unfolding pc by (simp_all add: area_def)
  have marks: "marked kv0 = insert c (marked (v_kv v))" "marked kv1 = marked kv0 \<union> run_of b 23" "marked kv' = insert dir (marked kv1)"
    "c \<notin> marked (v_kv v)" "run_of b 23 \<inter> marked kv0 = {}" "dir \<notin> marked kv1"
    using T by auto
  have three: "k = 0 \<or> k = Suc 0 \<or> k = 2" if "k < 3" for k :: nat using that by auto
  show ?thesis
  proof (rule pages_part_more [OF part _ _ _ _ new])
    show "kv_ok (v_kv v')" "same_map (v_kv v) (v_kv v')" "v_main v' = v_main v" using T same by (simp_all add: sel)
    show "threads v' = insert c (threads v)" by (simp add: v')
    show "marked (v_kv v) \<subseteq> marked (v_kv v')" using marks by (auto simp: sel)
    fix x
    assume x: "x \<in> keys v"
    then obtain t where "t \<in> threads v" "x = (t, 0) \<or> x = (t, Suc 0) \<or> x = (t, 2)" using key_cases by blast
    moreover from this have "t \<noteq> c" using new by auto
    ultimately show "piece v' x = piece v x" by (auto simp: piece_simps vc' sel)
  next
    fix k :: nat
    assume k: "k < 3"
    show "in_map (v_kv v) (fst (piece v' (c, k))) (snd (piece v' (c, k)))" using three [OF k] inm by (auto simp: pc)
    show "area (piece v' (c, k)) \<inter> marked (v_kv v) = {}" using three [OF k] marks by (auto simp: areas)
    show "area (piece v' (c, k)) \<subseteq> marked (v_kv v')" using three [OF k] marks by (auto simp: areas sel)
    fix l :: nat
    assume l: "l < 3" "k \<noteq> l"
    have "c \<notin> run_of b 23" "dir \<notin> run_of b 23" "c \<noteq> dir" using marks by auto
    then show "area (piece v' (c, k)) \<inter> area (piece v' (c, l)) = {}"
      using three [OF k] three [OF l(1)] l(2) by (elim disjE) (simp_all add: areas)
  qed
qed

lemma umaps_grow:
  assumes "umaps v uv" and "c \<notin> threads v" and "threads v' = threads v" and "\<forall>t \<in> threads v. dir_of v' t = dir_of v t"
  shows "umaps v' (uv(c := m))"
  using assms by (auto simp: umaps_def)

lemma sys_fork_Inr:
  assumes run: "sys_fork s = Inr (r, s')"
  obtains s1 where "mm_call (get_kernel_pages (of_nat 1)) s = Inr (0, s1)" and "s' = s1" and "r = -1"
  | c s1 p rr s2 where "mm_call (get_kernel_pages (of_nat 1)) s = Inr (c, s1)" and "c \<noteq> 0"
    and "tasks s1 (running s) = Some p" and "task.pgdir p \<noteq> 0" and "copy_process c (running s) s1 = Inr (rr, s2)"
    and "rr = -1" and "s' = s2" and "r = -1"
  | c s1 p rr s2 q where "mm_call (get_kernel_pages (of_nat 1)) s = Inr (c, s1)" and "c \<noteq> 0"
    and "tasks s1 (running s) = Some p" and "task.pgdir p \<noteq> 0" and "copy_process c (running s) s1 = Inr (rr, s2)"
    and "rr \<noteq> -1" and "enlist c s2 = Inr ((), s')" and "tasks s' c = Some q" and "r = pid q"
proof -
  obtain c s1 where c: "mm_call (get_kernel_pages (of_nat 1)) s = Inr (c, s1)"
    and rest: "(if c = 0 then ret (-1)
     else
       bnd (gets cpu_if) (\<lambda>st.
       bnd (task_of (running s)) (\<lambda>p.
       bnd (kassert ''INTR_OFF == intr_get_status() && parent_thread->pgdir != NULL''
              (st = INTR_OFF \<and> task.pgdir p \<noteq> 0)) (\<lambda>_.
       bnd (copy_process c (running s)) (\<lambda>r.
       if r = -1 then ret (-1)
       else
         bnd (enlist c) (\<lambda>_.
         bnd (task_of c) (\<lambda>c. ret (pid c)))))))) s1 = Inr (r, s')"
    using run by (auto simp: sys_fork_def bnd_eq_Inr)
  show thesis
  proof (cases "c = 0")
    case True
    then show ?thesis using c rest that(1) by simp
  next
    case False
    then obtain p rr s2 where p: "tasks s1 (running s) = Some p" "task.pgdir p \<noteq> 0" "copy_process c (running s) s1 = Inr (rr, s2)"
      and tail: "(if rr = -1 then ret (-1) else bnd (enlist c) (\<lambda>_. bnd (task_of c) (\<lambda>c. ret (pid c)))) s2 = Inr (r, s')"
      using rest by (auto simp: bnd_eq_Inr task_of_Inr kassert_Inr simp del: bnd_kassert)
    show ?thesis
    proof (cases "rr = -1")
      case True
      then show ?thesis using tail that(2) [OF c False p] by simp
    next
      case f: False
      with tail obtain q where "enlist c s2 = Inr ((), s')" "tasks s' c = Some q" "r = pid q"
        by (auto simp: bnd_eq_Inr task_of_Inr)
      then show ?thesis using that(3) [OF c False p f] by simp
    qed
  qed
qed

text \<open>The page of the child's PCB.\<close>

lemma fork_page:
  assumes inv: "pinv s" and take: "mm_call (get_kernel_pages (of_nat 1)) s = Inr (c, s1)"
  obtains kv0 where "view s1 = (view s)\<lparr>v_kv := kv0\<rparr>" and "vinv (view s1)" and "uv_run s1 = uv_run s" and "kv_ok kv0"
    and "c = 0 \<or> pages_taken (kernel_vaddr (pmm s)) kv0 c 1"
proof -
  have v: "vinv (view s)" using inv by (simp add: pinv_def)
  have kv: "kv_ok (kernel_vaddr (pmm s))" using pages_partD(1) [OF vinvD(4) [OF v]] by simp
  obtain kv0 where k: "view s1 = (view s)\<lparr>v_kv := kv0\<rparr>" "kv_ok kv0" "same_map (kernel_vaddr (pmm s)) kv0"
    "c = 0 \<and> marked (kernel_vaddr (pmm s)) \<subseteq> marked kv0 \<or> pages_taken (kernel_vaddr (pmm s)) kv0 c 1"
    by (rule pages_call [OF kv _ take]) (use that in simp_all)
  have "vinv (view s1)" unfolding k(1) by (rule vinv_kv [OF v k(2)]) (use k in \<open>auto simp: pages_taken_def\<close>)
  moreover have "stable uv_run (mm_call (get_kernel_pages (of_nat 1)))" by (intro stable)
  then have "uv_run s1 = uv_run s" by (rule stableD) (rule take)
  ultimately show thesis using that [OF k(1)] k by blast
qed

text \<open>A page that was free is no thread's PCB.\<close>

lemma fresh_thread:
  assumes part: "pages_part v" and taken: "pages_taken (v_kv v) kv c 1"
  shows "c \<notin> threads v"
proof -
  have "in_map (v_kv v) c 1" "c \<notin> marked (v_kv v)" using taken by (simp_all add: pages_taken_def)
  moreover from this have "c \<noteq> v_main v" using pages_partD(2) [OF part] by auto
  ultimately show ?thesis
    using pages_partD(4) [OF part, of "(c, 0)"] by (auto simp: keys_def piece_simps)
qed

text \<open>What the child is, when \<open>copy_process\<close> is done.\<close>

definition copied :: "proc \<Rightarrow> tid \<Rightarrow> s32 \<Rightarrow> proc \<Rightarrow> task \<Rightarrow> u16 \<Rightarrow> u32 \<Rightarrow> u32 \<Rightarrow> pid_pool \<Rightarrow> virtual_addr \<Rightarrow> virtual_addr \<Rightarrow> virtual_addr \<Rightarrow> bool" where
  "copied s c rr s2 p n dir b pool kv0 kv1 kv' \<longleftrightarrow> c \<notin> threads (view s) \<and>
     view s2 = grown ((view s)\<lparr>v_kv := kv0\<rparr>) c (child_core n p dir) b pool kv' \<and> vinv (view s2) \<and>
     umaps (view s2) (user_vaddr s2) \<and> user_vaddr s2 = (user_vaddr s)(c := user_vaddr s (running s)) \<and>
     vc (view s) (running s) = core p \<and> n \<notin> taken_pids (pids s) \<and> n \<in> taken_pids pool \<and>
     pages_taken (kernel_vaddr (pmm s)) kv0 c 1 \<and> (b = user_bits_at s (running s) \<or> pages_taken kv0 kv1 b 23) \<and>
     (rr = -1 \<or> pages_taken kv1 kv' dir 1)"

lemma fork_copied:
  assumes inv: "pinv s" and take: "mm_call (get_kernel_pages (of_nat 1)) s = Inr (c, s1)" "c \<noteq> 0"
    and p: "tasks s1 (running s) = Some p" and copy: "copy_process c (running s) s1 = Inr (rr, s2)"
  obtains n pool kv0 kv1 kv' b dir where "copied s c rr s2 p n dir b pool kv0 kv1 kv'"
proof (rule fork_page [OF inv take(1)])
  fix kv0
  assume v1: "view s1 = (view s)\<lparr>v_kv := kv0\<rparr>" and inv1: "vinv (view s1)" and u1: "uv_run s1 = uv_run s"
    and kv0: "kv_ok kv0" and "c = 0 \<or> pages_taken (kernel_vaddr (pmm s)) kv0 c 1"
  then have taken: "pages_taken (kernel_vaddr (pmm s)) kv0 c 1" using take(2) by simp
  have v: "vinv (view s)" and um: "umaps (view s) (user_vaddr s)" using inv by (simp_all add: pinv_def)
  note D = vinvD [OF v]
  have new: "c \<notin> threads (view s)" by (rule fresh_thread [OF D(4)]) (use taken in simp)
  have run1: "running s1 = running s" "user_vaddr s1 = user_vaddr s" using u1 by (simp_all add: uv_run_def)
  have sel1: "kernel_vaddr (pmm s1) = kv0" "pids s1 = pids s" "user_bits_at s1 = user_bits_at s" "thread_all_list s1 = thread_all_list s"
    using arg_cong [OF v1, of v_kv] arg_cong [OF v1, of v_pool] arg_cong [OF v1, of v_bits] arg_cong [OF v1, of v_all] by simp_all
  have "vc (view s1) (running s) = vc (view s) (running s)" unfolding v1 by (simp add: vc_def)
  then have vp: "vc (view s) (running s) = core p" using p by (simp add: vc_view)
  have "running s \<in> threads (view s)" using D(1) by (simp add: sched_part_def)
  then have kv1: "kv_ok (kernel_vaddr (pmm s1))" and p1: "tasks s1 (running s1) = Some p" and ne: "c \<noteq> running s1"
    and copy1: "copy_process c (running s1) s1 = Inr (rr, s2)"
    using kv0 sel1 p run1 copy new by auto
  obtain n pool' kv1 kv' b dir where n: "allocate_pid (pids s1) = Inr (n, pool')"
    and v2: "view s2 = grown (view s1) c (child_core n p dir) b pool' kv'"
    and k1: "same_map (kernel_vaddr (pmm s1)) kv1" "marked (kernel_vaddr (pmm s1)) \<subseteq> marked kv1"
      "b = user_bits_at s1 (running s1) \<or> pages_taken (kernel_vaddr (pmm s1)) kv1 b 23"
    and k': "kv_ok kv'" "same_map kv1 kv'" "marked kv1 \<subseteq> marked kv'" "rr = -1 \<or> pages_taken kv1 kv' dir 1"
    and u2: "uv_run s2 = ((user_vaddr s1)(c := user_vaddr s1 (running s1)), running s1)"
    by (rule copy_process_view [OF kv1 p1 ne copy1])
  have pool: "pool_ok (pids s)" using tree_partD(1) [OF D(2)] by simp
  note N = allocate_pid_Inr [OF pool n [unfolded sel1]]
  have "vinv (view s2)"
    unfolding v2
  proof (rule grown_vinv [OF inv1])
    show "c \<notin> threads (view s1)" using new by (simp add: sel1)
    show "same_map (v_kv (view s1)) kv'" using same_map_trans [OF k1(1) k'(2)] by simp
    show "taken_pids (v_pool (view s1)) \<subseteq> taken_pids pool'" using N(5) by (auto simp: sel1)
  qed (use N(4) k1 k' in auto)
  moreover have uv: "user_vaddr s2 = (user_vaddr s)(c := user_vaddr s (running s))"
    using u2 run1 by (simp add: uv_run_def)
  moreover have "umaps (view s2) (user_vaddr s2)"
    unfolding uv
  proof (rule umaps_grow [OF um new])
    show "threads (view s2) = threads (view s)" "\<forall>t \<in> threads (view s). dir_of (view s2) t = dir_of (view s) t"
      unfolding v2 v1 using new by (auto simp: vc_def)
  qed
  ultimately show thesis
    using new v2 [unfolded v1] vp N(3,5) taken k'(4) k1(3) run1 sel1
    by (intro that [of n dir b pool' kv0 kv1 kv']) (simp add: copied_def)
qed

text \<open>With pages of its own, the child joins the threads.\<close>

lemma fork_joined:
  assumes inv: "vinv (view s)" and copied: "copied s c rr s2 p n dir b pool kv0 kv1 kv'" and ok: "c \<noteq> 0" "rr \<noteq> -1" "task.pgdir p \<noteq> 0"
    and own: "b \<noteq> user_bits_at s (running s)" and ready: "c \<notin> set (thread_ready_list s2)"
  shows "vinv (joined (view s2) c)"
proof -
  note D = vinvD [OF inv] and C = copied [unfolded copied_def]
  have new: "c \<notin> threads (view s)" and v2: "view s2 = grown ((view s)\<lparr>v_kv := kv0\<rparr>) c (child_core n p dir) b pool kv'"
    and inv2: "vinv (view s2)" and vp: "vc (view s) (running s) = core p"
    and n: "n \<notin> taken_pids (pids s)" "n \<in> taken_pids pool"
    and taken: "pages_taken (kernel_vaddr (pmm s)) kv0 c 1" and b: "pages_taken kv0 kv1 b 23" and dir: "pages_taken kv1 kv' dir 1"
    using C ok(2) own by blast+
  have cr: "running s \<in> threads (view s)" "st_of (view s) (running s) = TASK_RUNNING" "v_idle (view s) \<in> threads (view s)"
    using D(1) by (simp_all add: sched_part_def)
  have ne: "running s \<noteq> c" using new cr(1) by auto
  have vc2: "vc (view s2) t = (if t = c then child_core n p dir else vc (view s) t)" for t
    unfolding v2 by (simp add: vc_def)
  have sel2: "v_idle (view s2) = v_idle (view s)" "threads (view s2) = threads (view s)" "v_pool (view s2) = pool"
    unfolding v2 by simp_all
  have child: "child_of (view s2) c (running s)" using ne vp by (simp add: child_of_def vc2 child_core_def)
  have pids: "pid_of (view s) t \<noteq> n" if "t \<in> threads (view s)" for t
    using tree_partD(2) [OF D(2) that] n(1) by auto
  have idle: "running s \<noteq> v_idle (view s)" using D(3) ok(3) vp by (auto simp: idle_part_def)
  show ?thesis
  proof (rule joined_vinv [OF inv2 ok(1)])
    show "c \<notin> threads (view s2)" using new sel2(2) by simp
    show "c \<notin> set (v_ready (view s2))" using ready by simp
    show "v_core (view s2) c = Some (child_core n p dir)" unfolding v2 by simp
    show "c_stat (child_core n p dir) = TASK_READY" "c_dir (child_core n p dir) \<noteq> 0"
      using dir by (simp_all add: child_core_def pages_taken_def)
    show "\<not> child_of (view s2) c (v_idle (view s2))"
    proof
      assume "child_of (view s2) c (v_idle (view s2))"
      with child have "running s = v_idle (view s)"
        using child_unique [OF vinvD(2) [OF inv2], of "running s" "v_idle (view s2)" c] cr sel2 by simp
      with idle show False by simp
    qed
    show "pages_part (joined (view s2) c)"
      unfolding v2 by (rule fork_pages [OF D(4) refl _ b dir new]) (use taken in simp)
    show "tree_part (joined (view s2) c)"
    proof (rule joined_tree [OF vinvD(2) [OF inv2] _ _ _ _ _ child])
      show "c \<notin> threads (view s2)" "running s \<in> threads (view s2)" using new cr(1) sel2(2) by simp_all
      show "pid_of (view s2) c \<in> taken_pids (v_pool (view s2))" unfolding sel2 using n(2) by (simp add: vc2 child_core_def)
      show "\<forall>t \<in> threads (view s2). pid_of (view s2) t \<noteq> pid_of (view s2) c"
        unfolding sel2 using new pids by (auto simp: vc2 child_core_def)
    qed (use cr ne in \<open>simp_all add: vc2 child_core_def\<close>)
  qed
qed

lemma sys_fork_pinv:
  assumes inv: "pinv s" and run: "sys_fork s = Inr (r, s')"
    and own: "\<forall>t \<in> set (thread_all_list s') - set (thread_all_list s). user_bits_at s' t \<noteq> user_bits_at s (running s)"
  shows "pinv s'"
proof -
  have v: "vinv (view s)" and um: "umaps (view s) (user_vaddr s)" using inv by (simp_all add: pinv_def)
  show ?thesis
    using run
  proof (cases rule: sys_fork_Inr)
    case (1 s1)
    show ?thesis
      by (rule fork_page [OF inv 1(1)]) (use um 1(2) in \<open>simp_all add: pinv_def umaps_def uv_run_def vc_def\<close>)
  next
    case (2 c s1 p rr s2)
    obtain n pool kv0 kv1 kv' b dir where copied: "copied s c rr s2 p n dir b pool kv0 kv1 kv'"
      by (rule fork_copied [OF inv 2(1-3,5)])
    note C = copied [unfolded copied_def]
    have "vinv (view s2)" "umaps (view s2) (user_vaddr s2)" using C by blast+
    then show ?thesis by (simp add: pinv_def 2(7))
  next
    case (3 c s1 p rr s2 q)
    note E = enlist_view [OF 3(7)]
    obtain n pool kv0 kv1 kv' b dir where copied: "copied s c rr s2 p n dir b pool kv0 kv1 kv'"
      by (rule fork_copied [OF inv 3(1-3,5)])
    note C = copied [unfolded copied_def]
    have v2: "view s2 = grown ((view s)\<lparr>v_kv := kv0\<rparr>) c (child_core n p dir) b pool kv'" using C by blast
    have all2: "thread_all_list s2 = thread_all_list s" "user_bits_at s2 = (user_bits_at s)(c := b)"
      using arg_cong [OF v2, of v_all] arg_cong [OF v2, of v_bits] by simp_all
    have "thread_all_list s' = thread_all_list s @ [c]" using arg_cong [OF E(1), of v_all] all2(1) by simp
    then have "b \<noteq> user_bits_at s (running s)" using bspec [OF own, of c] C E(4) all2(2) by simp
    then have "vinv (joined (view s2) c)" by (rule fork_joined [OF v copied 3(2,6,4) _ E(2)])
    moreover have "umaps (joined (view s2) c) (user_vaddr s')"
    proof -
      have "running s \<in> threads (view s)" using vinvD(1) [OF v] by (simp add: sched_part_def)
      then have "btmp_bytes_len (vaddr_bitmap (user_vaddr s (running s))) = user_bytes"
        using um C 3(4) by (simp add: umaps_def)
      moreover have "user_vaddr s2 = (user_vaddr s)(c := user_vaddr s (running s))" using C by blast
      ultimately have "btmp_bytes_len (vaddr_bitmap (user_vaddr s2 c)) = user_bytes" by simp
      moreover have "umaps (view s2) (user_vaddr s2)" using C by blast
      ultimately show ?thesis using E(3) by (auto simp: umaps_def)
    qed
    ultimately show ?thesis using E(1) by (simp add: pinv_def)
  qed
qed

end
