(* ===== verification/Process_Tree.thy ===== *)
theory Process_Tree
  imports Proc_Fork
begin

text \<open>
  The process layer as a step relation, its invariant in every reachable state, and what it means for
  \<open>wait\<close>, \<open>exit\<close> and the pages of the threads.
\<close>

section \<open>Steps\<close>





section \<open>A sample\<close>

text \<open>The first process, the main thread, the idle thread, and a shell that waits for its child.\<close>

definition heap_page :: "nat \<Rightarrow> u32" where
  "heap_page q = page_at K_HEAP_START q"

definition sample_proc_task :: "u16 \<Rightarrow> u32 \<Rightarrow> task_status \<Rightarrow> u32 \<Rightarrow> task" where
  "sample_proc_task n par st dir = (sample_task st)\<lparr>pid := n, parent_pid := par, task.pgdir := dir\<rparr>"

definition sample_uvaddr :: virtual_addr where
  "sample_uvaddr = \<lparr>vaddr_bitmap = \<lparr>btmp_bytes_len = user_bytes, bits = []\<rparr>, vaddr_start = USER_VADDR_START\<rparr>"

definition sample_main :: tid where
  "sample_main = 0xC009E000"

definition sample_tree :: proc where
  "sample_tree =
     \<lparr>tasks = [heap_page 0 \<mapsto> sample_proc_task 1 (-1) TASK_BLOCKED (heap_page 4),
        sample_main \<mapsto> sample_proc_task 2 (-1) TASK_READY 0,
        heap_page 1 \<mapsto> sample_proc_task 3 (-1) TASK_BLOCKED 0,
        heap_page 2 \<mapsto> sample_proc_task 4 1 TASK_WAITING (heap_page 5),
        heap_page 3 \<mapsto> sample_proc_task 5 4 TASK_RUNNING (heap_page 6)],
      thread_ready_list = [sample_main],
      thread_all_list = [heap_page 0, sample_main, heap_page 1, heap_page 2, heap_page 3],
      running = heap_page 3, idle_thread = heap_page 1, main_thread = sample_main,
      cpu_if = INTR_ON, cr3 = 0, esp0 = 0, addr_v2p = (\<lambda>a. a), total_ticks = 0,
      pids = \<lparr>pid_bitmap = \<lparr>btmp_bytes_len = 128, bits = 31 # replicate 127 0\<rparr>, pid_start = 1, pid_lock = 0\<rparr>,
      pmm = sample_mm\<lparr>kernel_vaddr := \<lparr>vaddr_bitmap = \<lparr>btmp_bytes_len = 12, bits = replicate 13 255\<rparr>, vaddr_start = K_HEAP_START\<rparr>\<rparr>,
      pfs = sample_fs, user_vaddr = (\<lambda>_. sample_uvaddr),
      user_bits_at = (\<lambda>_. 0)(heap_page 0 := heap_page 7, heap_page 2 := heap_page 30, heap_page 3 := heap_page 53),
      user_descs = (\<lambda>_. []), stacks = (\<lambda>_. 0), code_at = (\<lambda>_. 0)\<rparr>"






lemma sample_sel [simp]:
  "thread_all_list sample_tree = [heap_page 0, sample_main, heap_page (Suc 0), heap_page 2, heap_page 3]"
  "thread_ready_list sample_tree = [sample_main]" "running sample_tree = heap_page 3" "idle_thread sample_tree = heap_page (Suc 0)"
  "main_thread sample_tree = sample_main"
  by (simp_all add: sample_tree_def)


lemma sample_core [simp]: "core (sample_proc_task n par st dir) = \<lparr>c_pid = n, c_parent = par, c_stat = st, c_dir = dir\<rparr>"
  by (simp add: core_def sample_proc_task_def sample_task_def)













section \<open>Properties\<close>






end
