(* ===== verification/Spec2Isabelle.thy ===== *)
theory Spec2Isabelle
  imports Klist Stdio Sync Keyboard Dir_Listing File_Contents Pipe_Calls Format Sys_Free
    Shell_Commands Disk_Init Ps Exec Process_Tree
begin

text \<open>
  Enix is a small kernel for 32-bit x86 in C, with threads, user processes, a heap, an inode file
  system on an IDE disk, pipes and a shell. This development models its C code, file by file, and
  proves the properties that make the parts correct. Paths below are relative to \<open>src/\<close>.

  \<^bold>\<open>Conventions\<close> (\<open>Prelude\<close>). C integers are words of their width, read with \<open>unat\<close> and \<open>sint\<close>, so that
  arithmetic wraps as in C. A pointer into a byte buffer is the list of bytes from it to the end of
  its object; an access beyond the list is the error \<open>Fault\<close>. A failed \<open>ASSERT\<close> or a \<open>PANIC\<close> is
  the error \<open>Panic\<close>, and a call that has to wait for another thread, where the caller is modelled as a
  sequential function, is the error \<open>Block\<close>. Pure code returns \<open>'a res\<close>; code with state is in the monad
  \<open>('s, 'a) km\<close> over the record of its component's state. A loop that need not end is a
  \<open>partial_function (option)\<close>, all others are total functions; no fuel is used. A theorem that says a loop
  ends or a call succeeds states it as an existential result.

  \<^bold>\<open>Library\<close> (\<open>lib/\<close>). \<open>Klist\<close>: the doubly linked lists of \<open>list.c\<close> over an explicit store of nodes,
  refining lists. \<open>Cstring\<close>: \<open>string.c\<close>. \<open>Stdio\<close>: \<open>itoa\<close>, \<open>vsprintf\<close>, \<open>sprintf\<close> of \<open>stdio.c\<close>
  against a specification of formats. \<open>Bitmap\<close>: \<open>bitmap.c\<close>, with the locale \<open>slot_pool\<close> of a pool
  of numbered slots, interpreted on bitmaps, on the inode and block bitmaps (\<open>Fs_Bitmap\<close>) and on the
  process numbers (\<open>Pid\<close>).

  \<^bold>\<open>Threads\<close> (\<open>thread/\<close>, \<open>device/timer.c\<close>). \<open>Sched\<close>: \<open>schedule\<close>, blocking, unblocking, yielding and the
  timer interrupt of \<open>thread.c\<close> on the record \<open>ksched\<close> (the two thread lists as sequences, the PCBs
  as a map), with an invariant and the liveness of ready threads. \<open>Sync\<close>: \<open>sync.c\<close>, as a step
  relation over any number of threads under preemption, between whose steps the segments of
  \<open>lock_acquire\<close>, \<open>sema_down\<close>, \<open>sema_up\<close> and \<open>lock_release\<close> run with interrupts off; mutual exclusion,
  absence of panics (of the locks and of the scheduler under them) and of lost wakeups hold in every
  reachable state. \<open>timer_interrupt\<close> is the handler; that it is entered only while interrupts are on is
  the guard of the step relations (\<open>lstep\<close>, and \<open>pstep\<close> below).

  \<^bold>\<open>Devices\<close> (\<open>device/\<close>). \<open>Ioqueue\<close>: the ring buffer of \<open>ioqueue.c\<close>, an instance of the locale
  \<open>byte_queue\<close>. \<open>Keyboard\<close>: the interrupt handler of \<open>keyboard.c\<close> against a typist. \<open>Channel\<close>: the
  channels of \<open>ide.c\<close>, their task-file registers, the selection of disk and sectors, \<open>cmd_out\<close>, the
  interrupt handler, the semaphore that it ups and \<open>busy_wait\<close>. \<open>Disk\<close>: \<open>ide_read\<close> and \<open>ide_write\<close> on a
  channel, with its lock and the wait for the interrupt after each command, for every drive that obeys
  a read or write command in LBA mode and answers it with an interrupt and its data request; the
  interrupt may come before or after the thread sleeps, and a thread that nobody wakes makes the call
  \<open>Block\<close>. \<open>Disk_Init\<close>: the rest of \<open>ide.c\<close>, namely \<open>ide_init\<close>, \<open>identify_disk\<close> and the scan of partition
  tables; the drive (\<open>drive\<close>) is a parameter.

  \<^bold>\<open>File system\<close> (\<open>fs/\<close>, \<open>shell/pipe.c\<close>). \<open>Fs_Data\<close>: the structures on disk, byte for byte (locale
  \<open>codec\<close>). \<open>Fs_State\<close>: the record \<open>fs\<close> of the mounted partition, the open inodes and directories, the
  file table, the running process's descriptors, console and keyboard. \<open>Fs_Bitmap\<close>, \<open>Inode\<close>, \<open>Dir\<close>,
  \<open>File\<close>, \<open>Pipe\<close>, \<open>Path\<close>, \<open>Fs\<close> and \<open>Fs_Dirs\<close>: the functions of \<open>file.c\<close>, \<open>inode.c\<close>, \<open>dir.c\<close>, \<open>pipe.c\<close>
  and \<open>fs.c\<close>. \<open>Mount\<close>: formatting and mounting. \<open>Dir_Listing\<close>, \<open>File_Contents\<close>, \<open>Pipe_Calls\<close>
  and \<open>Format\<close>: what directories, files, pipes and a fresh file system mean, and that the code
  implements it.

  \<^bold>\<open>Memory\<close> (\<open>kernel/memory.c\<close>). \<open>Mem_State\<close>: physical memory as words, \<open>cr3\<close>, pools, bitmaps,
  descriptors. \<open>Paging\<close>: pages and page tables, reached through the recursive entry of the
  directory, with copy on write. \<open>Heap\<close>: \<open>sys_malloc\<close> and \<open>sys_free\<close>. \<open>Translation\<close>, \<open>Frames\<close>, \<open>Page_Tables\<close>,
  \<open>Page_Alloc\<close>, \<open>Kernel_Pages\<close>, \<open>Page_Free\<close>: the translation of addresses, and what allocating and freeing
  pages does to it. \<open>Regions\<close>, \<open>Heap_Inv\<close>, \<open>Malloc\<close>, \<open>Sys_Malloc\<close>, \<open>Sys_Free\<close>: the invariant of the
  kernel's heap, kept by both calls; a page of an arena given back is unmapped, and its frame and its place in the
  map of virtual pages are free again.

  \<^bold>\<open>Processes\<close> (\<open>thread/thread.c\<close>, \<open>userprog/\<close>). \<open>Pid\<close>: the pool of process numbers. \<open>Task\<close>: the
  record \<open>proc\<close> (the scheduler's state, extended by the memory, the file system, the numbers and
  the kernel stacks), thread creation and exit, the first process of \<open>process.c\<close>. \<open>Ps\<close>: \<open>sys_ps\<close>. \<open>Fork\<close>,
  \<open>Exec\<close>, \<open>Wait_Exit\<close>: \<open>fork.c\<close>, \<open>exec.c\<close>, \<open>wait_exit.c\<close>. Calls of the other components run on
  their part of the state (\<open>mm_call\<close>, \<open>fs_call\<close>, \<open>pid_call\<close>). \<open>Stable\<close>: which operations on memory keep the
  map of the kernel's virtual pages. \<open>Proc_View\<close>: the view of a state that the process tree is
  about, and what the operations do to it. \<open>Proc_Inv\<close>, \<open>Proc_Sched\<close>, \<open>Proc_Pages\<close>, \<open>Proc_Steps\<close>: its
  invariant, in four parts (the scheduler, the tree of parents and children, the idle thread, the
  pages of the threads), and how single operations keep it; \<open>Proc_Exit\<close>, \<open>Proc_Wait\<close>, \<open>Proc_Fork\<close>: the
  system calls keep it; \<open>Process_Tree\<close>: the step relation \<open>pstep\<close> of timer, blocking, \<open>wait\<close>, \<open>exit\<close> and
  \<open>fork\<close>, and what the invariant says of every state it reaches. The first process is excepted where
  children that hang are concerned: it may sleep while a child that it adopted hangs already, since
  \<open>sys_exit\<close> does not wake it for such a child. A \<open>fork\<close> that finds no pages for the map of the child's
  pages is not a step.

  \<^bold>\<open>Shell\<close> (\<open>shell/\<close>). \<open>Command_Line\<close>: \<open>cmd_parse\<close> and \<open>wash_path\<close>, against splitting into words and
  folding over components. \<open>Shell\<close>: the rest of \<open>shell.c\<close> and \<open>buildin_cmd.c\<close> on the record \<open>shell\<close>, over
  the modelled system calls; what \<open>fork\<close>, \<open>wait\<close> and \<open>execv\<close> return is an input there. \<open>Shell_Input\<close>
  and \<open>Shell_Commands\<close>: the line editor and the commands.

  \<^bold>\<open>Not modelled\<close>: the boot loader and the assembly files, inline assembly for ports and for
  switching stacks, the translation cache, the set-up of the interrupt and descriptor tables, the
  stubs of the system calls, and the console's screen.
\<close>

end
